(* ===== verification/Prelude.thy ===== *)
theory Prelude
  imports Main "HOL-Library.Word" "HOL-Library.Monad_Syntax"
begin

text \<open>
  What every component theory shares: the names of the C integer types, the reading of
  \<open>None\<close> as "this C call has no result" (a dereference of NULL, an access outside an array,
  or a loop that never ends), the theorem collections the component proofs feed to the
  simplifier, and the facts on words, bits and lists that more than one component needs.
\<close>

unbundle bit_operations_syntax

section \<open>C integer types\<close>

type_synonym u8 = "8 word"
type_synonym u16 = "16 word"
type_synonym u32 = "32 word"

abbreviation (input) NULL :: nat where "NULL \<equiv> 0"

text \<open>C's \<open>!x\<close>, and the \<open>int\<close> results of comparisons.\<close>

definition c_bool :: "bool \<Rightarrow> u32" where
  "c_bool b = (if b then 1 else 0)"

section \<open>Theorem collections\<close>

named_theorems crash_simps \<open>evaluation of the option-valued C steps\<close>
named_theorems inv_intros \<open>introduction rules of the component invariants\<close>
named_theorems word_facts \<open>facts that move word arithmetic to natural numbers\<close>

text \<open>
  \<open>c_guard b\<close> is the definedness condition of a C access: the step goes on when \<open>b\<close> holds
  and has no result otherwise.
\<close>

definition c_guard :: "bool \<Rightarrow> unit option" where
  "c_guard b = (if b then Some () else None)"

lemma c_guard_True [crash_simps, simp]: "b \<Longrightarrow> c_guard b = Some ()"
  by (simp add: c_guard_def)

lemma c_guard_bind_Some [crash_simps]:
  "Option.bind (c_guard b) f = Some y \<longleftrightarrow> b \<and> f () = Some y"
  by (simp add: c_guard_def)

lemma bind_Some_iff [crash_simps]:
  "Option.bind m f = Some y \<longleftrightarrow> (\<exists>x. m = Some x \<and> f x = Some y)"
  by (cases m) auto

section \<open>Words\<close>

lemma take_bit_0_iff: "take_bit n w = 0 \<longleftrightarrow> (\<forall>i < n. \<not> bit (w :: 'a::len word) i)"
proof
  assume a: "take_bit n w = 0"
  show "\<forall>i < n. \<not> bit w i"
  proof (intro allI impI)
    fix i assume "i < n"
    have "\<not> bit (take_bit n w) i" by (simp add: a)
    then show "\<not> bit w i" using \<open>i < n\<close> by (simp add: bit_simps)
  qed
next
  assume "\<forall>i < n. \<not> bit w i"
  then show "take_bit n w = 0" by (intro bit_word_eqI) (auto simp: bit_simps)
qed

lemma unat_minus_1_u32 [simp]: "unat (- 1 :: u32) = 4294967295"
  by (simp add: unsigned_minus_1_eq_mask mask_eq_exp_minus_1)

lemma unat_of_nat_u32 [word_facts]: "n < 2 ^ 32 \<Longrightarrow> unat (of_nat n :: u32) = n"
  by (simp add: unat_of_nat)

lemma of_nat_pred: "0 < n \<Longrightarrow> of_nat n - 1 = (of_nat (n - 1) :: 'a::len word)"
  by (cases n) simp_all

lemma of_nat_eq_u32 [word_facts]: "a < 2 ^ 32 \<Longrightarrow> b < 2 ^ 32 \<Longrightarrow> (of_nat a :: u32) = of_nat b \<longleftrightarrow> a = b"
  by (metis unat_of_nat_u32)

lemma unat_exp_u32 [word_facts]: "k < 32 \<Longrightarrow> unat (2 ^ k :: u32) = 2 ^ k"
proof -
  assume "k < 32"
  then have "(2 :: nat) ^ k < 2 ^ 32" by (intro power_strict_increasing) auto
  then have "unat (of_nat (2 ^ k) :: u32) = 2 ^ k" by (rule unat_of_nat_u32)
  then show ?thesis by simp
qed

lemma and_not_mask: "w AND NOT (mask n) = push_bit n (drop_bit n (w :: 'a::len word))"
  by (rule bit_word_eqI) (auto simp: bit_simps)

lemma find_append: "find P (xs @ ys) = (case find P xs of None \<Rightarrow> find P ys | Some x \<Rightarrow> Some x)"
  by (induction xs) auto

end
