(* ===== verification/ListHead.thy ===== *)
theory ListHead
  imports Prelude
begin

text \<open>
  The intrusive doubly linked lists of \<open>include/zjunix/list.h\<close>. The store of all
  \<open>struct list_head\<close> objects is a record of two functions from addresses to addresses; every
  operation performs the header's assignments in the header's order. \<open>dlist h hd xs\<close> says
  that the ring of head \<open>hd\<close> holds exactly the entries \<open>xs\<close>. The lemmas show that each
  operation is the expected operation on HOL lists and leaves every other ring alone, which is
  what allows the other components to keep their lists as HOL lists.
\<close>

section \<open>The store and the operations\<close>

record lheap =
  l_next :: "nat \<Rightarrow> nat"
  l_prev :: "nat \<Rightarrow> nat"

definition LIST_POISON1 :: nat where "LIST_POISON1 = 0x10101010"
definition LIST_POISON2 :: nat where "LIST_POISON2 = 0x20202020"

definition set_next :: "nat \<Rightarrow> nat \<Rightarrow> lheap \<Rightarrow> lheap" where
  "set_next a b h = h\<lparr>l_next := (l_next h)(a := b)\<rparr>"

definition set_prev :: "nat \<Rightarrow> nat \<Rightarrow> lheap \<Rightarrow> lheap" where
  "set_prev a b h = h\<lparr>l_prev := (l_prev h)(a := b)\<rparr>"

lemma set_next_sel [simp]:
  "l_next (set_next a b h) x = (if x = a then b else l_next h x)"
  "l_prev (set_next a b h) x = l_prev h x"
  by (simp_all add: set_next_def)

lemma set_prev_sel [simp]:
  "l_next (set_prev a b h) x = l_next h x"
  "l_prev (set_prev a b h) x = (if x = a then b else l_prev h x)"
  by (simp_all add: set_prev_def)

definition INIT_LIST_HEAD :: "nat \<Rightarrow> lheap \<Rightarrow> lheap" where
  "INIT_LIST_HEAD l h = set_prev l l (set_next l l h)"

definition list_add_between :: "nat \<Rightarrow> nat \<Rightarrow> nat \<Rightarrow> lheap \<Rightarrow> lheap" where
  "list_add_between new prev next h =
     (let h = set_prev next new h;
          h = set_next new next h;
          h = set_prev new prev h
      in set_next prev new h)"

definition list_add :: "nat \<Rightarrow> nat \<Rightarrow> lheap \<Rightarrow> lheap" where
  "list_add new head h = list_add_between new head (l_next h head) h"

definition list_add_tail :: "nat \<Rightarrow> nat \<Rightarrow> lheap \<Rightarrow> lheap" where
  "list_add_tail new head h = list_add_between new (l_prev h head) head h"

definition list_del_between :: "nat \<Rightarrow> nat \<Rightarrow> lheap \<Rightarrow> lheap" where
  "list_del_between prev next h = set_next prev next (set_prev next prev h)"

definition list_del_entry :: "nat \<Rightarrow> lheap \<Rightarrow> lheap" where
  "list_del_entry e h = list_del_between (l_prev h e) (l_next h e) h"

definition list_del :: "nat \<Rightarrow> lheap \<Rightarrow> lheap" where
  "list_del e h = set_prev e LIST_POISON2 (set_next e LIST_POISON1 (list_del_entry e h))"

definition list_replace :: "nat \<Rightarrow> nat \<Rightarrow> lheap \<Rightarrow> lheap" where
  "list_replace old new h =
     (let h = set_next new (l_next h old) h;
          h = set_prev (l_next h new) new h;
          h = set_prev new (l_prev h old) h
      in set_next (l_prev h new) new h)"

definition list_replace_init :: "nat \<Rightarrow> nat \<Rightarrow> lheap \<Rightarrow> lheap" where
  "list_replace_init old new h = INIT_LIST_HEAD old (list_replace old new h)"

definition list_del_init :: "nat \<Rightarrow> lheap \<Rightarrow> lheap" where
  "list_del_init e h = INIT_LIST_HEAD e (list_del_entry e h)"

definition list_move :: "nat \<Rightarrow> nat \<Rightarrow> lheap \<Rightarrow> lheap" where
  "list_move e head h = list_add e head (list_del_entry e h)"

definition list_move_tail :: "nat \<Rightarrow> nat \<Rightarrow> lheap \<Rightarrow> lheap" where
  "list_move_tail e head h = list_add_tail e head (list_del_entry e h)"

definition list_is_last :: "nat \<Rightarrow> nat \<Rightarrow> lheap \<Rightarrow> bool" where
  "list_is_last e head h \<longleftrightarrow> l_next h e = head"

definition list_empty :: "nat \<Rightarrow> lheap \<Rightarrow> bool" where
  "list_empty head h \<longleftrightarrow> l_next h head = head"

definition list_empty_careful :: "nat \<Rightarrow> lheap \<Rightarrow> bool" where
  "list_empty_careful head h \<longleftrightarrow> (let n = l_next h head in n = head \<and> n = l_prev h head)"

definition list_rotate_left :: "nat \<Rightarrow> lheap \<Rightarrow> lheap" where
  "list_rotate_left head h =
     (if \<not> list_empty head h then (let first = l_next h head in list_move_tail first head h)
      else h)"

definition list_is_singular :: "nat \<Rightarrow> lheap \<Rightarrow> bool" where
  "list_is_singular head h \<longleftrightarrow> \<not> list_empty head h \<and> l_next h head = l_prev h head"

definition list_cut_position_raw :: "nat \<Rightarrow> nat \<Rightarrow> nat \<Rightarrow> lheap \<Rightarrow> lheap" where
  "list_cut_position_raw list head entry h =
     (let new_first = l_next h entry;
          h = set_next list (l_next h head) h;
          h = set_prev (l_next h list) list h;
          h = set_prev list entry h;
          h = set_next entry list h;
          h = set_next head new_first h
      in set_prev new_first head h)"

definition list_cut_position :: "nat \<Rightarrow> nat \<Rightarrow> nat \<Rightarrow> lheap \<Rightarrow> lheap" where
  "list_cut_position list head entry h =
     (if list_empty head h then h
      else if list_is_singular head h \<and> l_next h head \<noteq> entry \<and> head \<noteq> entry then h
      else if entry = head then INIT_LIST_HEAD list h
      else list_cut_position_raw list head entry h)"

definition list_cut_before :: "nat \<Rightarrow> nat \<Rightarrow> nat \<Rightarrow> lheap \<Rightarrow> lheap" where
  "list_cut_before list head entry h =
     (if l_next h head = entry then INIT_LIST_HEAD list h
      else
        let h = set_next list (l_next h head) h;
            h = set_prev (l_next h list) list h;
            h = set_prev list (l_prev h entry) h;
            h = set_next (l_prev h list) list h;
            h = set_next head entry h
        in set_prev entry head h)"

definition list_splice_raw :: "nat \<Rightarrow> nat \<Rightarrow> nat \<Rightarrow> lheap \<Rightarrow> lheap" where
  "list_splice_raw list prev next h =
     (let first = l_next h list;
          last = l_prev h list;
          h = set_prev first prev h;
          h = set_next prev first h;
          h = set_next last next h
      in set_prev next last h)"

definition list_splice :: "nat \<Rightarrow> nat \<Rightarrow> lheap \<Rightarrow> lheap" where
  "list_splice list head h =
     (if \<not> list_empty list h then list_splice_raw list head (l_next h head) h else h)"

definition list_splice_tail :: "nat \<Rightarrow> nat \<Rightarrow> lheap \<Rightarrow> lheap" where
  "list_splice_tail list head h =
     (if \<not> list_empty list h then list_splice_raw list (l_prev h head) head h else h)"

definition list_splice_init :: "nat \<Rightarrow> nat \<Rightarrow> lheap \<Rightarrow> lheap" where
  "list_splice_init list head h =
     (if \<not> list_empty list h
      then INIT_LIST_HEAD list (list_splice_raw list head (l_next h head) h) else h)"

definition list_splice_tail_init :: "nat \<Rightarrow> nat \<Rightarrow> lheap \<Rightarrow> lheap" where
  "list_splice_tail_init list head h =
     (if \<not> list_empty list h
      then INIT_LIST_HEAD list (list_splice_raw list (l_prev h head) head h) else h)"

definition list_first_entry :: "nat \<Rightarrow> lheap \<Rightarrow> nat" where
  "list_first_entry head h = l_next h head"

definition list_last_entry :: "nat \<Rightarrow> lheap \<Rightarrow> nat" where
  "list_last_entry head h = l_prev h head"

definition list_first_entry_or_null :: "nat \<Rightarrow> lheap \<Rightarrow> nat" where
  "list_first_entry_or_null head h =
     (let pos = l_next h head in if pos \<noteq> head then pos else NULL)"

text \<open>
  The traversal macros: the cursors a \<open>list_for_each\<close> loop visits, in order. On a broken
  ring the loop may never come back to its head; then there is no result.
\<close>

partial_function (option) list_for_each :: "nat \<Rightarrow> nat \<Rightarrow> lheap \<Rightarrow> nat list option" where
  "list_for_each pos head h =
     (if pos = head then Some []
      else do { xs \<leftarrow> list_for_each (l_next h pos) head h; Some (pos # xs) })"

partial_function (option) list_for_each_prev :: "nat \<Rightarrow> nat \<Rightarrow> lheap \<Rightarrow> nat list option" where
  "list_for_each_prev pos head h =
     (if pos = head then Some []
      else do { xs \<leftarrow> list_for_each_prev (l_prev h pos) head h; Some (pos # xs) })"

section \<open>Rings and the lists they hold\<close>

text \<open>\<open>seg h a xs b\<close>: following \<open>next\<close> from \<open>a\<close> visits \<open>xs\<close> and then \<open>b\<close>, and the
  \<open>prev\<close> fields point back along the same way.\<close>

fun seg :: "lheap \<Rightarrow> nat \<Rightarrow> nat list \<Rightarrow> nat \<Rightarrow> bool" where
  "seg h a [] b \<longleftrightarrow> l_next h a = b \<and> l_prev h b = a"
| "seg h a (x # xs) b \<longleftrightarrow> l_next h a = x \<and> l_prev h x = a \<and> seg h x xs b"

definition dlist :: "lheap \<Rightarrow> nat \<Rightarrow> nat list \<Rightarrow> bool" where
  "dlist h r xs \<longleftrightarrow> seg h r xs r \<and> distinct (r # xs)"

lemma seg_append [simp]:
  "seg h a (xs @ y # ys) b \<longleftrightarrow> seg h a xs y \<and> seg h y ys b"
  by (induction xs arbitrary: a) auto

lemma seg_set_next [simp]:
  "c \<noteq> a \<Longrightarrow> c \<notin> set xs \<Longrightarrow> seg (set_next c d h) a xs b = seg h a xs b"
  by (induction xs arbitrary: a) auto

lemma seg_set_prev [simp]:
  "c \<noteq> b \<Longrightarrow> c \<notin> set xs \<Longrightarrow> seg (set_prev c d h) a xs b = seg h a xs b"
  by (induction xs arbitrary: a) auto

lemma dlist_frame_next: "c \<notin> set (r # xs) \<Longrightarrow> dlist (set_next c d h) r xs = dlist h r xs"
  by (auto simp: dlist_def)

lemma dlist_frame_prev: "c \<notin> set (r # xs) \<Longrightarrow> dlist (set_prev c d h) r xs = dlist h r xs"
  by (auto simp: dlist_def)

lemmas dlist_frame = dlist_frame_next dlist_frame_prev

lemma dlist_next_head: "dlist h r xs \<Longrightarrow> l_next h r = (case xs of [] \<Rightarrow> r | x # _ \<Rightarrow> x)"
  by (auto simp: dlist_def split: list.splits)

lemma dlist_prev_head: "dlist h r xs \<Longrightarrow> l_prev h r = (if xs = [] then r else last xs)"
  by (cases xs rule: rev_cases) (auto simp: dlist_def)

lemma dlist_next_mem:
  "dlist h r (xs @ e # ys) \<Longrightarrow> l_next h e = (case ys of [] \<Rightarrow> r | y # _ \<Rightarrow> y)"
  by (auto simp: dlist_def split: list.splits)

lemma dlist_prev_mem:
  "dlist h r (xs @ e # ys) \<Longrightarrow> l_prev h e = (if xs = [] then r else last xs)"
  by (cases xs rule: rev_cases) (auto simp: dlist_def)

text \<open>The neighbours an operation reads are in the ring.\<close>

lemma dlist_next_in: "dlist h r xs \<Longrightarrow> e \<in> set (r # xs) \<Longrightarrow> l_next h e \<in> set (r # xs)"
proof -
  assume d: "dlist h r xs" and e: "e \<in> set (r # xs)"
  show ?thesis
  proof (cases "e = r")
    case True
    with dlist_next_head [OF d] show ?thesis by (auto split: list.splits)
  next
    case False
    with e obtain as bs where "xs = as @ e # bs" by (auto dest: split_list)
    with d dlist_next_mem [of h r as e bs] show ?thesis by (auto split: list.splits)
  qed
qed

lemma dlist_prev_in: "dlist h r xs \<Longrightarrow> e \<in> set (r # xs) \<Longrightarrow> l_prev h e \<in> set (r # xs)"
proof -
  assume d: "dlist h r xs" and e: "e \<in> set (r # xs)"
  show ?thesis
  proof (cases "e = r")
    case True
    with dlist_prev_head [OF d] show ?thesis by auto
  next
    case False
    with e obtain as bs where "xs = as @ e # bs" by (auto dest: split_list)
    with d dlist_prev_mem [of h r as e bs] show ?thesis by auto
  qed
qed

section \<open>The operations on rings\<close>

lemma dlist_INIT [simp]: "dlist (INIT_LIST_HEAD l h) l []"
  by (simp add: dlist_def INIT_LIST_HEAD_def)

lemma dlist_INIT_frame: "l \<notin> set (r # xs) \<Longrightarrow> dlist (INIT_LIST_HEAD l h) r xs = dlist h r xs"
  by (simp add: INIT_LIST_HEAD_def dlist_frame)

lemma dlist_list_empty: "dlist h r xs \<Longrightarrow> list_empty r h \<longleftrightarrow> xs = []"
  by (auto simp: list_empty_def dlist_def split: list.splits elim: seg.elims)

lemma list_add_correct:
  assumes "dlist h r xs" and "n \<notin> set (r # xs)"
  shows "dlist (list_add n r h) r (n # xs)"
  using assms
  by (cases xs) (auto simp: dlist_def list_add_def list_add_between_def Let_def)

lemma list_add_tail_correct:
  assumes "dlist h r xs" and "n \<notin> set (r # xs)"
  shows "dlist (list_add_tail n r h) r (xs @ [n])"
  using assms
  by (cases xs rule: rev_cases)
     (auto simp: dlist_def list_add_tail_def list_add_between_def Let_def)

lemma list_del_entry_correct:
  assumes "dlist h r (xs @ e # ys)"
  shows "dlist (list_del_entry e h) r (xs @ ys)"
  using assms
  by (cases xs rule: rev_cases; cases ys)
     (auto simp: dlist_def list_del_entry_def list_del_between_def)

text \<open>The same operations seen from a ring that shares no address with the one they work on.\<close>

definition apart :: "nat \<Rightarrow> nat list \<Rightarrow> nat \<Rightarrow> nat list \<Rightarrow> bool" where
  "apart r xs s ys \<longleftrightarrow> set (r # xs) \<inter> set (s # ys) = {}"

lemma list_add_between_frame:
  "p \<notin> set (s # ys) \<Longrightarrow> q \<notin> set (s # ys) \<Longrightarrow> n \<notin> set (s # ys) \<Longrightarrow>
   dlist (list_add_between n p q h) s ys = dlist h s ys"
  by (simp add: list_add_between_def Let_def dlist_frame)

lemma list_del_between_frame:
  "p \<notin> set (s # ys) \<Longrightarrow> q \<notin> set (s # ys) \<Longrightarrow> dlist (list_del_between p q h) s ys = dlist h s ys"
  by (simp add: list_del_between_def dlist_frame)

lemma list_add_frame:
  assumes "dlist h r xs" and "apart r xs s ys" and "n \<notin> set (s # ys)"
  shows "dlist (list_add n r h) s ys = dlist h s ys"
proof -
  have "l_next h r \<in> set (r # xs)" using dlist_next_in [OF assms(1), of r] by simp
  with assms(2) have "l_next h r \<notin> set (s # ys)" "r \<notin> set (s # ys)" by (auto simp: apart_def)
  then show ?thesis using assms(3) unfolding list_add_def by (intro list_add_between_frame)
qed

lemma list_add_tail_frame:
  assumes "dlist h r xs" and "apart r xs s ys" and "n \<notin> set (s # ys)"
  shows "dlist (list_add_tail n r h) s ys = dlist h s ys"
proof -
  have "l_prev h r \<in> set (r # xs)" using dlist_prev_in [OF assms(1), of r] by simp
  with assms(2) have "l_prev h r \<notin> set (s # ys)" "r \<notin> set (s # ys)" by (auto simp: apart_def)
  then show ?thesis using assms(3) unfolding list_add_tail_def by (intro list_add_between_frame)
qed

lemma list_del_entry_frame:
  assumes "dlist h r xs" and "apart r xs s ys" and "e \<in> set xs"
  shows "dlist (list_del_entry e h) s ys = dlist h s ys"
proof -
  have "l_prev h e \<in> set (r # xs)" "l_next h e \<in> set (r # xs)"
    using dlist_prev_in [OF assms(1), of e] dlist_next_in [OF assms(1), of e] assms(3) by simp_all
  with assms(2) have "l_prev h e \<notin> set (s # ys)" "l_next h e \<notin> set (s # ys)"
    by (auto simp: apart_def)
  then show ?thesis unfolding list_del_entry_def by (intro list_del_between_frame)
qed

lemma dlist_split:
  assumes "e \<in> set xs" and "dlist h r xs"
  obtains as bs where "xs = as @ e # bs" "e \<notin> set (r # as @ bs)" "remove1 e xs = as @ bs"
proof -
  obtain as bs where xs: "xs = as @ e # bs" and e: "e \<notin> set as"
    using assms(1) by (auto dest: split_list_first)
  moreover have "e \<notin> set bs" "e \<noteq> r" using assms(2) xs by (auto simp: dlist_def)
  ultimately show ?thesis using that by (simp add: remove1_append)
qed

lemma list_del_correct:
  assumes "dlist h r xs" and "e \<in> set xs"
  shows "dlist (list_del e h) r (remove1 e xs)"
    and "l_next (list_del e h) e = LIST_POISON1" and "l_prev (list_del e h) e = LIST_POISON2"
proof -
  obtain as bs where *: "xs = as @ e # bs" "e \<notin> set (r # as @ bs)" "remove1 e xs = as @ bs"
    using assms(2,1) by (rule dlist_split)
  with assms(1) have "dlist (list_del_entry e h) r (as @ bs)" by (auto intro: list_del_entry_correct)
  then show "dlist (list_del e h) r (remove1 e xs)"
    using * by (simp add: list_del_def dlist_frame)
qed (simp_all add: list_del_def)

lemma list_del_init_correct:
  assumes "dlist h r xs" and "e \<in> set xs"
  shows "dlist (list_del_init e h) r (remove1 e xs)" and "dlist (list_del_init e h) e []"
proof -
  obtain as bs where *: "xs = as @ e # bs" "e \<notin> set (r # as @ bs)" "remove1 e xs = as @ bs"
    using assms(2,1) by (rule dlist_split)
  with assms(1) have "dlist (list_del_entry e h) r (as @ bs)" by (auto intro: list_del_entry_correct)
  then show "dlist (list_del_init e h) r (remove1 e xs)"
    using * by (simp add: list_del_init_def dlist_INIT_frame)
qed (simp add: list_del_init_def)

text \<open>\<open>list_del_init\<close> on an entry that is on no list leaves it so: a second call is harmless.\<close>

lemma list_del_init_again: "dlist h e [] \<Longrightarrow> dlist (list_del_init e h) e []"
  by (simp add: list_del_init_def)

lemma list_del_init_frame:
  assumes "dlist h r xs" and "apart r xs s ys" and "e \<in> set xs"
  shows "dlist (list_del_init e h) s ys = dlist h s ys"
proof -
  have "e \<notin> set (s # ys)" using assms(2,3) by (auto simp: apart_def)
  then show ?thesis
    using list_del_entry_frame [OF assms] by (simp add: list_del_init_def dlist_INIT_frame)
qed

lemma list_replace_correct:
  assumes "dlist h r (xs @ old # ys)" and "new \<notin> set (r # xs @ old # ys)"
  shows "dlist (list_replace old new h) r (xs @ new # ys)"
  using assms
  by (cases xs rule: rev_cases; cases ys) (auto simp: dlist_def list_replace_def Let_def)

lemma list_replace_init_correct:
  assumes "dlist h r (xs @ old # ys)" and "new \<notin> set (r # xs @ old # ys)"
  shows "dlist (list_replace_init old new h) r (xs @ new # ys)"
    and "dlist (list_replace_init old new h) old []"
proof -
  have "old \<notin> set (r # xs @ new # ys)" using assms by (auto simp: dlist_def)
  then show "dlist (list_replace_init old new h) r (xs @ new # ys)"
    using list_replace_correct [OF assms] by (simp add: list_replace_init_def dlist_INIT_frame)
qed (simp add: list_replace_init_def)

text \<open>Moving between two rings.\<close>

lemma list_move_correct:
  assumes "dlist h r xs" and "dlist h s ys" and "apart r xs s ys" and "e \<in> set xs"
  shows "dlist (list_move e s h) s (e # ys)" and "dlist (list_move e s h) r (remove1 e xs)"
proof -
  obtain as bs where *: "xs = as @ e # bs" "e \<notin> set (r # as @ bs)" "remove1 e xs = as @ bs"
    using assms(4,1) by (rule dlist_split)
  let ?h = "list_del_entry e h"
  have r: "dlist ?h r (as @ bs)" using assms(1) * by (auto intro: list_del_entry_correct)
  have s: "dlist ?h s ys" using list_del_entry_frame [OF assms(1,3,4)] assms(2) by simp
  have e: "e \<notin> set (s # ys)" using assms(3,4) by (auto simp: apart_def)
  show "dlist (list_move e s h) s (e # ys)"
    unfolding list_move_def by (rule list_add_correct [OF s e])
  have "apart s ys r (as @ bs)" using assms(3) * by (auto simp: apart_def)
  then show "dlist (list_move e s h) r (remove1 e xs)"
    unfolding list_move_def using list_add_frame [OF s, of r "as @ bs" e] r * by simp
qed

lemma list_move_tail_correct:
  assumes "dlist h r xs" and "dlist h s ys" and "apart r xs s ys" and "e \<in> set xs"
  shows "dlist (list_move_tail e s h) s (ys @ [e])"
    and "dlist (list_move_tail e s h) r (remove1 e xs)"
proof -
  obtain as bs where *: "xs = as @ e # bs" "e \<notin> set (r # as @ bs)" "remove1 e xs = as @ bs"
    using assms(4,1) by (rule dlist_split)
  let ?h = "list_del_entry e h"
  have r: "dlist ?h r (as @ bs)" using assms(1) * by (auto intro: list_del_entry_correct)
  have s: "dlist ?h s ys" using list_del_entry_frame [OF assms(1,3,4)] assms(2) by simp
  have e: "e \<notin> set (s # ys)" using assms(3,4) by (auto simp: apart_def)
  show "dlist (list_move_tail e s h) s (ys @ [e])"
    unfolding list_move_tail_def by (rule list_add_tail_correct [OF s e])
  have "apart s ys r (as @ bs)" using assms(3) * by (auto simp: apart_def)
  then show "dlist (list_move_tail e s h) r (remove1 e xs)"
    unfolding list_move_tail_def using list_add_tail_frame [OF s, of r "as @ bs" e] r * by simp
qed

lemma list_move_same_correct:
  assumes "dlist h r xs" and "e \<in> set xs"
  shows "dlist (list_move e r h) r (e # remove1 e xs)"
    and "dlist (list_move_tail e r h) r (remove1 e xs @ [e])"
proof -
  obtain as bs where *: "xs = as @ e # bs" "e \<notin> set (r # as @ bs)" "remove1 e xs = as @ bs"
    using assms(2,1) by (rule dlist_split)
  have r: "dlist (list_del_entry e h) r (as @ bs)"
    using assms(1) * by (auto intro: list_del_entry_correct)
  show "dlist (list_move e r h) r (e # remove1 e xs)"
    unfolding list_move_def *(3) by (rule list_add_correct [OF r *(2)])
  show "dlist (list_move_tail e r h) r (remove1 e xs @ [e])"
    unfolding list_move_tail_def *(3) by (rule list_add_tail_correct [OF r *(2)])
qed

lemma list_rotate_left_correct:
  assumes "dlist h r xs"
  shows "dlist (list_rotate_left r h) r (rotate1 xs)"
proof (cases xs)
  case Nil
  then show ?thesis
    using assms dlist_list_empty [OF assms] by (simp add: list_rotate_left_def)
next
  case (Cons x ys)
  then have "\<not> list_empty r h" "l_next h r = x"
    using dlist_list_empty [OF assms] dlist_next_head [OF assms] by simp_all
  then show ?thesis
    using list_move_same_correct(2) [OF assms, of x] Cons by (simp add: list_rotate_left_def)
qed

section \<open>Queries, traversals, cutting and splicing\<close>

lemma list_empty_careful_correct: "dlist h r xs \<Longrightarrow> list_empty_careful r h \<longleftrightarrow> xs = []"
  using dlist_next_head [of h r xs] dlist_prev_head [of h r xs]
  by (auto simp: list_empty_careful_def Let_def dlist_def split: list.splits)

lemma list_is_last_correct:
  assumes "dlist h r (xs @ e # ys)"
  shows "list_is_last e r h \<longleftrightarrow> ys = []"
  using assms dlist_next_mem [OF assms] by (auto simp: list_is_last_def dlist_def split: list.splits)

lemma list_is_singular_correct:
  assumes "dlist h r xs"
  shows "list_is_singular r h \<longleftrightarrow> length xs = 1"
proof (cases xs)
  case Nil
  then show ?thesis using assms dlist_list_empty [OF assms] by (simp add: list_is_singular_def)
next
  case (Cons x ys)
  have "x \<notin> set ys" using assms Cons by (simp add: dlist_def)
  moreover have "last ys \<in> set ys" if "ys \<noteq> []" using that by simp
  ultimately show ?thesis
    using dlist_list_empty [OF assms] dlist_next_head [OF assms] dlist_prev_head [OF assms] Cons
    by (cases "ys = []") (auto simp: list_is_singular_def)
qed

lemma list_first_entry_correct:
  "dlist h r (x # xs) \<Longrightarrow> list_first_entry r h = x"
  using dlist_next_head [of h r "x # xs"] by (simp add: list_first_entry_def)

lemma list_last_entry_correct:
  "dlist h r (xs @ [x]) \<Longrightarrow> list_last_entry r h = x"
  using dlist_prev_head [of h r "xs @ [x]"] by (simp add: list_last_entry_def)

lemma list_first_entry_or_null_correct:
  assumes "dlist h r xs"
  shows "list_first_entry_or_null r h = (case xs of [] \<Rightarrow> NULL | x # _ \<Rightarrow> x)"
  using assms dlist_next_head [OF assms]
  by (auto simp: list_first_entry_or_null_def dlist_def Let_def split: list.splits)

lemma list_for_each_seg:
  "seg h a xs r \<Longrightarrow> r \<notin> set xs \<Longrightarrow> list_for_each (l_next h a) r h = Some xs"
proof (induction xs arbitrary: a)
  case Nil
  then show ?case by (simp add: list_for_each.simps)
next
  case (Cons x xs)
  then have "list_for_each (l_next h x) r h = Some xs" by simp
  with Cons.prems show ?case by (subst list_for_each.simps) simp
qed

theorem list_for_each_correct:
  "dlist h r xs \<Longrightarrow> list_for_each (l_next h r) r h = Some xs"
  by (rule list_for_each_seg) (auto simp: dlist_def)

lemma list_for_each_prev_seg:
  "seg h r xs b \<Longrightarrow> r \<notin> set xs \<Longrightarrow> list_for_each_prev (l_prev h b) r h = Some (rev xs)"
proof (induction xs arbitrary: b rule: rev_induct)
  case Nil
  then show ?case by (simp add: list_for_each_prev.simps)
next
  case (snoc x xs)
  then have "list_for_each_prev (l_prev h x) r h = Some (rev xs)" by simp
  with snoc.prems show ?case by (subst list_for_each_prev.simps) simp
qed

theorem list_for_each_prev_correct:
  "dlist h r xs \<Longrightarrow> list_for_each_prev (l_prev h r) r h = Some (rev xs)"
  by (rule list_for_each_prev_seg) (auto simp: dlist_def)

lemma list_cut_position_raw_correct:
  assumes "dlist h r (xs @ e # ys)" and "l \<notin> set (r # xs @ e # ys)"
  shows "dlist (list_cut_position_raw l r e h) l (xs @ [e])"
    and "dlist (list_cut_position_raw l r e h) r ys"
  using assms
  by (cases xs; cases ys; auto simp: dlist_def list_cut_position_raw_def Let_def)+

theorem list_cut_position_correct:
  assumes "dlist h r (xs @ e # ys)" and "l \<notin> set (r # xs @ e # ys)"
  shows "dlist (list_cut_position l r e h) l (xs @ [e])"
    and "dlist (list_cut_position l r e h) r ys"
proof -
  have "e \<noteq> r" using assms(1) by (auto simp: dlist_def)
  moreover have "\<not> list_empty r h" using dlist_list_empty [OF assms(1)] by simp
  moreover have "\<not> (list_is_singular r h \<and> l_next h r \<noteq> e)"
    using list_is_singular_correct [OF assms(1)] dlist_next_head [OF assms(1)]
    by (cases xs) auto
  ultimately have *: "list_cut_position l r e h = list_cut_position_raw l r e h"
    by (auto simp: list_cut_position_def)
  show "dlist (list_cut_position l r e h) l (xs @ [e])"
    "dlist (list_cut_position l r e h) r ys"
    unfolding * by (rule list_cut_position_raw_correct [OF assms])+
qed

lemma list_ends_cases:
  obtains (none) "xs = []" | (one) x where "xs = [x]" | (more) x zs p where "xs = x # zs @ [p]"
proof (cases xs)
  case Nil
  then show ?thesis by (rule none)
next
  case (Cons x ys)
  then show ?thesis by (cases ys rule: rev_cases) (auto intro: one more)
qed

theorem list_cut_before_correct:
  assumes "dlist h r (xs @ e # ys)" and "l \<notin> set (r # xs @ e # ys)"
  shows "dlist (list_cut_before l r e h) l xs"
    and "dlist (list_cut_before l r e h) r (e # ys)"
  using assms
  by (cases xs rule: list_ends_cases;
      auto simp: dlist_def list_cut_before_def Let_def INIT_LIST_HEAD_def)+

lemma list_splice_raw_correct:
  assumes "dlist h l (x # xs)" and "dlist h r ys" and "apart l (x # xs) r ys"
  shows "dlist (list_splice_raw l r (l_next h r) h) r (x # xs @ ys)"
    and "dlist (list_splice_raw l (l_prev h r) r h) r (ys @ x # xs)"
proof -
  have ends: "l_next h l = x" "l_prev h l = last (x # xs)"
    using dlist_next_head [OF assms(1)] dlist_prev_head [OF assms(1)] by simp_all
  have d: "distinct (x # xs)" "distinct ys" "r \<notin> set ys" "set (x # xs) \<inter> set (r # ys) = {}"
    using assms by (auto simp: dlist_def apart_def)
  show "dlist (list_splice_raw l r (l_next h r) h) r (x # xs @ ys)"
  proof (cases xs rule: rev_cases)
    case Nil
    with assms d ends show ?thesis
      by (cases ys) (auto simp: dlist_def list_splice_raw_def Let_def)
  next
    case (snoc zs q)
    with assms d ends show ?thesis
      by (cases ys) (auto simp: dlist_def list_splice_raw_def Let_def)
  qed
  show "dlist (list_splice_raw l (l_prev h r) r h) r (ys @ x # xs)"
  proof (cases xs rule: rev_cases)
    case Nil
    with assms d ends show ?thesis
      by (cases ys rule: rev_cases) (auto simp: dlist_def list_splice_raw_def Let_def)
  next
    case (snoc zs q)
    with assms d ends show ?thesis
      by (cases ys rule: rev_cases) (auto simp: dlist_def list_splice_raw_def Let_def)
  qed
qed

theorem list_splice_correct:
  assumes "dlist h l xs" and "dlist h r ys" and "apart l xs r ys"
  shows "dlist (list_splice l r h) r (xs @ ys)"
    and "dlist (list_splice_tail l r h) r (ys @ xs)"
  using assms dlist_list_empty [OF assms(1)]
  by (cases xs; simp add: list_splice_def list_splice_tail_def list_splice_raw_correct)+

theorem list_splice_init_correct:
  assumes "dlist h l xs" and "dlist h r ys" and "apart l xs r ys"
  shows "dlist (list_splice_init l r h) r (xs @ ys)" and "dlist (list_splice_init l r h) l []"
    and "dlist (list_splice_tail_init l r h) r (ys @ xs)"
    and "dlist (list_splice_tail_init l r h) l []"
proof -
  have "l \<notin> set (r # xs @ ys)" "l \<notin> set (r # ys @ xs)"
    using assms by (auto simp: apart_def dlist_def)
  note frame = this [THEN dlist_INIT_frame]
  note sp = list_splice_correct [OF assms, unfolded list_splice_def list_splice_tail_def]
  show "dlist (list_splice_init l r h) r (xs @ ys)"
    "dlist (list_splice_tail_init l r h) r (ys @ xs)"
    using sp assms frame dlist_list_empty [OF assms(1)]
    by (auto simp: list_splice_init_def list_splice_tail_init_def split: if_splits)
  show "dlist (list_splice_init l r h) l []" "dlist (list_splice_tail_init l r h) l []"
    using assms(1) dlist_list_empty [OF assms(1)]
    by (auto simp: list_splice_init_def list_splice_tail_init_def)
qed

section \<open>The interface the other components use\<close>

text \<open>
  A store of rings with the operations the kernel calls. \<open>rep h r xs\<close> is what a client may
  assume about a ring; the laws say how each call changes it and that other rings stay.
\<close>

locale ring_store =
  fixes rep :: "'h \<Rightarrow> nat \<Rightarrow> nat list \<Rightarrow> bool"
    and add :: "nat \<Rightarrow> nat \<Rightarrow> 'h \<Rightarrow> 'h"
    and add_tail :: "nat \<Rightarrow> nat \<Rightarrow> 'h \<Rightarrow> 'h"
    and del_init :: "nat \<Rightarrow> 'h \<Rightarrow> 'h"
    and first :: "nat \<Rightarrow> 'h \<Rightarrow> nat"
    and is_empty :: "nat \<Rightarrow> 'h \<Rightarrow> bool"
  assumes rep_distinct: "rep h r xs \<Longrightarrow> distinct (r # xs)"
    and rep_add: "rep h r xs \<Longrightarrow> n \<notin> set (r # xs) \<Longrightarrow> rep (add n r h) r (n # xs)"
    and rep_add_tail: "rep h r xs \<Longrightarrow> n \<notin> set (r # xs) \<Longrightarrow> rep (add_tail n r h) r (xs @ [n])"
    and rep_del: "rep h r xs \<Longrightarrow> e \<in> set xs \<Longrightarrow> rep (del_init e h) r (remove1 e xs)"
    and rep_frame_del: "rep h r xs \<Longrightarrow> e \<in> set xs \<Longrightarrow> apart r xs s ys \<Longrightarrow> rep h s ys \<Longrightarrow>
      rep (del_init e h) s ys"
    and rep_first: "rep h r (x # xs) \<Longrightarrow> first r h = x"
    and rep_empty: "rep h r xs \<Longrightarrow> is_empty r h \<longleftrightarrow> xs = []"

context ring_store
begin

text \<open>Moving an entry to the front, as the caches do on a hit.\<close>

lemma touch:
  assumes "rep h r xs" and "e \<in> set xs"
  shows "rep (add e r (del_init e h)) r (e # remove1 e xs)"
proof -
  have "distinct (r # xs)" using assms(1) by (rule rep_distinct)
  with assms(2) have "e \<notin> set (r # remove1 e xs)" by auto
  then show ?thesis using rep_add [OF rep_del [OF assms]] by simp
qed

text \<open>Taking an entry from one ring and queueing it on another, as the process states do.\<close>

lemma requeue:
  assumes "rep h r xs" and "e \<in> set xs" and "rep h s ys" and "apart r xs s ys"
  shows "rep (add_tail e s (del_init e h)) s (ys @ [e])"
proof -
  have "e \<notin> set (s # ys)" using assms(2,4) by (auto simp: apart_def)
  then show ?thesis using rep_add_tail [OF rep_frame_del [OF assms(1,2,4,3)]] by simp
qed

text \<open>A queue filled with \<open>add_tail\<close> gives its entries back in arrival order.\<close>

lemma fifo:
  assumes "rep h r (x # xs)" and "n \<notin> set (r # x # xs)"
  shows "first r (add_tail n r h) = x"
    and "rep (del_init x (add_tail n r h)) r (xs @ [n])"
proof -
  have q: "rep (add_tail n r h) r (x # xs @ [n])" using rep_add_tail [OF assms] by simp
  then show "first r (add_tail n r h) = x" by (rule rep_first)
  show "rep (del_init x (add_tail n r h)) r (xs @ [n])" using rep_del [OF q, of x] by simp
qed

end

interpretation ring: ring_store dlist list_add list_add_tail list_del_init list_first_entry list_empty
  by unfold_locales
     (auto simp: list_add_correct list_add_tail_correct list_del_init_correct list_del_init_frame
        list_first_entry_correct dlist_list_empty, simp_all add: dlist_def)

text \<open>A ring with two entries and an empty one, for the examples.\<close>

definition sample_rings :: lheap where
  "sample_rings = list_add_tail 4 2 (INIT_LIST_HEAD 2 (list_add_tail 3 1 (INIT_LIST_HEAD 1
     \<lparr>l_next = (\<lambda>_. NULL), l_prev = (\<lambda>_. NULL)\<rparr>)))"

lemma sample_rings: "dlist sample_rings 1 [3]" "dlist sample_rings 2 [4]"
  by (auto simp: sample_rings_def dlist_def list_add_tail_def list_add_between_def INIT_LIST_HEAD_def)

text \<open>\<open>list_move_tail\<close> takes an entry out of the ring it is on and makes it the last entry of
  another ring: both rings are well formed afterwards, and the order of the other entries is
  kept.\<close>

theorem list_move_tail_rings:
  assumes "dlist h r xs" and "e \<in> set xs" and "dlist h s ys" and "apart r xs s ys"
  shows "dlist (list_move_tail e s h) r (remove1 e xs) \<and> dlist (list_move_tail e s h) s (ys @ [e])"
  using list_move_tail_correct [OF assms(1,3,4,2)] by blast

theorem list_move_tail_rings_witness:
  "dlist (list_move_tail 3 2 sample_rings) 1 [] \<and> dlist (list_move_tail 3 2 sample_rings) 2 [4, 3]"
  using list_move_tail_rings [OF sample_rings(1) _ sample_rings(2), of 3] by (simp add: apart_def)

end
