(* ===== verification/HListHead.thy ===== *)
theory HListHead
  imports ListHead
begin

text \<open>
  The single-head lists of \<open>include/zjunix/list.h\<close> (\<open>struct hlist_head\<close>,
  \<open>struct hlist_node\<close>), on which \<open>kernel/pc/pid.c\<close> keeps its hash chains. A \<open>pprev\<close> field
  points at the pointer that points at the node: the \<open>first\<close> field of a head or the \<open>next\<close>
  field of another node. \<open>hlist h r xs\<close> says that the chain of head \<open>r\<close> is \<open>xs\<close>.
\<close>

section \<open>The store and the operations\<close>

datatype hptr = PFirst nat | PNext nat | PPoison

record hheap =
  h_first :: "nat \<Rightarrow> nat"
  h_next :: "nat \<Rightarrow> nat"
  h_pprev :: "nat \<Rightarrow> hptr option"

text \<open>\<open>*p\<close> and \<open>*p = v\<close> for such a pointer.\<close>

fun hread :: "hptr \<Rightarrow> hheap \<Rightarrow> nat" where
  "hread (PFirst a) h = h_first h a"
| "hread (PNext a) h = h_next h a"
| "hread PPoison h = NULL"

fun hwrite :: "hptr \<Rightarrow> nat \<Rightarrow> hheap \<Rightarrow> hheap" where
  "hwrite (PFirst a) v h = h\<lparr>h_first := (h_first h)(a := v)\<rparr>"
| "hwrite (PNext a) v h = h\<lparr>h_next := (h_next h)(a := v)\<rparr>"
| "hwrite PPoison v h = h"

definition set_pprev :: "nat \<Rightarrow> hptr option \<Rightarrow> hheap \<Rightarrow> hheap" where
  "set_pprev a p h = h\<lparr>h_pprev := (h_pprev h)(a := p)\<rparr>"

definition INIT_HLIST_HEAD :: "nat \<Rightarrow> hheap \<Rightarrow> hheap" where
  "INIT_HLIST_HEAD r h = hwrite (PFirst r) NULL h"

definition INIT_HLIST_NODE :: "nat \<Rightarrow> hheap \<Rightarrow> hheap" where
  "INIT_HLIST_NODE n h = set_pprev n None (hwrite (PNext n) NULL h)"

definition hlist_unhashed :: "nat \<Rightarrow> hheap \<Rightarrow> bool" where
  "hlist_unhashed n h \<longleftrightarrow> h_pprev h n = None"

definition hlist_empty :: "nat \<Rightarrow> hheap \<Rightarrow> bool" where
  "hlist_empty r h \<longleftrightarrow> h_first h r = NULL"

definition hlist_del_raw :: "nat \<Rightarrow> hheap \<Rightarrow> hheap option" where
  "hlist_del_raw n h = do {
     let next = h_next h n;
     pprev \<leftarrow> h_pprev h n;
     let h = hwrite pprev next h;
     Some (if next \<noteq> NULL then set_pprev next (Some pprev) h else h)
   }"

definition hlist_del :: "nat \<Rightarrow> hheap \<Rightarrow> hheap option" where
  "hlist_del n h = do {
     h \<leftarrow> hlist_del_raw n h;
     Some (set_pprev n (Some PPoison) (hwrite (PNext n) LIST_POISON1 h))
   }"

definition hlist_del_init :: "nat \<Rightarrow> hheap \<Rightarrow> hheap option" where
  "hlist_del_init n h =
     (if \<not> hlist_unhashed n h then do { h \<leftarrow> hlist_del_raw n h; Some (INIT_HLIST_NODE n h) }
      else Some h)"

definition hlist_add_head :: "nat \<Rightarrow> nat \<Rightarrow> hheap \<Rightarrow> hheap" where
  "hlist_add_head n r h =
     (let first = h_first h r;
          h = hwrite (PNext n) first h;
          h = (if first \<noteq> NULL then set_pprev first (Some (PNext n)) h else h);
          h = hwrite (PFirst r) n h
      in set_pprev n (Some (PFirst r)) h)"

definition hlist_add_before :: "nat \<Rightarrow> nat \<Rightarrow> hheap \<Rightarrow> hheap option" where
  "hlist_add_before n next h = do {
     let h = set_pprev n (h_pprev h next) h;
     let h = hwrite (PNext n) next h;
     let h = set_pprev next (Some (PNext n)) h;
     pprev \<leftarrow> h_pprev h n;
     Some (hwrite pprev n h)
   }"

definition hlist_add_behind :: "nat \<Rightarrow> nat \<Rightarrow> hheap \<Rightarrow> hheap" where
  "hlist_add_behind n prev h =
     (let h = hwrite (PNext n) (h_next h prev) h;
          h = hwrite (PNext prev) n h;
          h = set_pprev n (Some (PNext prev)) h
      in if h_next h n \<noteq> NULL then set_pprev (h_next h n) (Some (PNext n)) h else h)"

definition hlist_add_fake :: "nat \<Rightarrow> hheap \<Rightarrow> hheap" where
  "hlist_add_fake n h = set_pprev n (Some (PNext n)) h"

definition hlist_fake :: "nat \<Rightarrow> hheap \<Rightarrow> bool" where
  "hlist_fake n h \<longleftrightarrow> h_pprev h n = Some (PNext n)"

definition hlist_is_singular_node :: "nat \<Rightarrow> nat \<Rightarrow> hheap \<Rightarrow> bool" where
  "hlist_is_singular_node n r h \<longleftrightarrow> h_next h n = NULL \<and> h_pprev h n = Some (PFirst r)"

definition hlist_move_list :: "nat \<Rightarrow> nat \<Rightarrow> hheap \<Rightarrow> hheap" where
  "hlist_move_list old new h =
     (let h = hwrite (PFirst new) (h_first h old) h;
          h = (if h_first h new \<noteq> NULL then set_pprev (h_first h new) (Some (PFirst new)) h else h)
      in hwrite (PFirst old) NULL h)"

partial_function (option) hlist_for_each :: "nat \<Rightarrow> hheap \<Rightarrow> nat list option" where
  "hlist_for_each pos h =
     (if pos = NULL then Some []
      else do { xs \<leftarrow> hlist_for_each (h_next h pos) h; Some (pos # xs) })"

section \<open>Chains\<close>

text \<open>\<open>hseg h p xs e\<close>: reading the pointer \<open>p\<close> and then \<open>next\<close> fields visits \<open>xs\<close> and
  then \<open>e\<close>; every visited node's \<open>pprev\<close> names the pointer that led to it.\<close>

fun hseg :: "hheap \<Rightarrow> hptr \<Rightarrow> nat list \<Rightarrow> nat \<Rightarrow> bool" where
  "hseg h p [] e \<longleftrightarrow> hread p h = e"
| "hseg h p (x # xs) e \<longleftrightarrow>
     hread p h = x \<and> x \<noteq> NULL \<and> h_pprev h x = Some p \<and> hseg h (PNext x) xs e"

fun last_link :: "hptr \<Rightarrow> nat list \<Rightarrow> hptr" where
  "last_link p [] = p"
| "last_link p (x # xs) = last_link (PNext x) xs"

definition hlist :: "hheap \<Rightarrow> nat \<Rightarrow> nat list \<Rightarrow> bool" where
  "hlist h r xs \<longleftrightarrow> hseg h (PFirst r) xs NULL \<and> distinct xs"

lemma hwrite_sel [simp]:
  "h_pprev (hwrite p v h) = h_pprev h"
  "h_first (hwrite (PFirst a) v h) = (h_first h)(a := v)"
  "h_first (hwrite (PNext a) v h) = h_first h"
  "h_next (hwrite (PNext a) v h) = (h_next h)(a := v)"
  "h_next (hwrite (PFirst a) v h) = h_next h"
  by (cases p) simp_all

lemma set_pprev_sel [simp]:
  "h_pprev (set_pprev a q h) = (h_pprev h)(a := q)"
  "h_first (set_pprev a q h) = h_first h"
  "h_next (set_pprev a q h) = h_next h"
  "hread p (set_pprev a q h) = hread p h"
  by (cases p; simp add: set_pprev_def)+

lemma hread_hwrite [simp]:
  "q \<noteq> PPoison \<Longrightarrow> hread p (hwrite q v h) = (if p = q then v else hread p h)"
  by (cases p; cases q) auto

lemma h_next_hwrite_other: "q \<noteq> PNext n \<Longrightarrow> h_next (hwrite q v h) n = h_next h n"
  by (cases q) auto

declare hwrite.simps [simp del]

lemma hseg_append [simp]:
  "hseg h p (xs @ y # ys) e \<longleftrightarrow>
     hseg h p xs y \<and> y \<noteq> NULL \<and> h_pprev h y = Some (last_link p xs) \<and> hseg h (PNext y) ys e"
  by (induction xs arbitrary: p) auto

lemma last_link_append [simp]: "last_link p (xs @ [y]) = PNext y"
  by (induction xs arbitrary: p) auto

lemma last_link_cases: "last_link p xs = p \<and> xs = [] \<or> (\<exists>y \<in> set xs. last_link p xs = PNext y)"
  by (cases xs rule: rev_cases) auto

lemma hseg_set_pprev [simp]: "a \<notin> set xs \<Longrightarrow> hseg (set_pprev a q h) p xs e = hseg h p xs e"
  by (induction xs arbitrary: p) auto

lemma hseg_hwrite [simp]:
  "q \<noteq> PPoison \<Longrightarrow> q \<noteq> p \<Longrightarrow> q \<notin> PNext ` set xs \<Longrightarrow> hseg (hwrite q v h) p xs e = hseg h p xs e"
  by (induction xs arbitrary: p) auto

lemma hseg_hwrite_cases [simp]:
  "p \<noteq> PFirst a \<Longrightarrow> hseg (hwrite (PFirst a) v h) p xs e = hseg h p xs e"
  "p \<noteq> PNext a \<Longrightarrow> a \<notin> set xs \<Longrightarrow> hseg (hwrite (PNext a) v h) p xs e = hseg h p xs e"
  by (rule hseg_hwrite; auto)+

text \<open>Redirecting the last pointer of a segment redirects its end.\<close>

lemma hseg_redirect:
  "p \<noteq> PPoison \<Longrightarrow> p \<notin> PNext ` set xs \<Longrightarrow> distinct xs \<Longrightarrow> hseg h p xs e \<Longrightarrow>
   hseg (hwrite (last_link p xs) v h) p xs v"
proof (induction xs arbitrary: p)
  case Nil
  then show ?case by simp
next
  case (Cons x xs)
  have "last_link (PNext x) xs \<noteq> PPoison" "last_link (PNext x) xs \<noteq> p"
    using last_link_cases [of "PNext x" xs] Cons.prems by auto
  with Cons show ?case by auto
qed

section \<open>The operations on chains\<close>

lemma hlist_INIT [simp]: "hlist (INIT_HLIST_HEAD r h) r []"
  by (simp add: hlist_def INIT_HLIST_HEAD_def)

lemma hlist_nonnull: "hlist h r xs \<Longrightarrow> NULL \<notin> set xs"
proof -
  have "hseg h p xs e \<Longrightarrow> NULL \<notin> set xs" for p e
    by (induction xs arbitrary: p) auto
  then show "hlist h r xs \<Longrightarrow> NULL \<notin> set xs" by (auto simp: hlist_def)
qed

lemma hlist_empty_correct: "hlist h r xs \<Longrightarrow> hlist_empty r h \<longleftrightarrow> xs = []"
  by (cases xs) (auto simp: hlist_empty_def hlist_def)

theorem hlist_add_head_correct:
  assumes "hlist h r xs" and "n \<noteq> NULL" and "n \<notin> set xs"
  shows "hlist (hlist_add_head n r h) r (n # xs)"
  using assms by (cases xs) (auto simp: hlist_def hlist_add_head_def Let_def)

lemma hlist_hashed: "hlist h r xs \<Longrightarrow> x \<in> set xs \<Longrightarrow> \<not> hlist_unhashed x h"
  by (auto simp: hlist_def hlist_unhashed_def dest!: split_list)

lemma hlist_del_raw_correct:
  assumes "hlist h r (xs @ e # ys)"
  obtains h' where "hlist_del_raw e h = Some h'" and "hlist h' r (xs @ ys)"
    and "h_pprev h' e = h_pprev h e"
proof -
  let ?q = "last_link (PFirst r) xs"
  have d: "distinct (xs @ e # ys)" and s: "hseg h (PFirst r) xs e" "hseg h (PNext e) ys NULL"
    and e: "h_pprev h e = Some ?q"
    using assms by (auto simp: hlist_def)
  have q: "?q \<noteq> PPoison" "?q \<noteq> PNext e" "?q \<notin> PNext ` set ys"
    using last_link_cases [of "PFirst r" xs] d by auto
  have red: "hseg (hwrite ?q v h) (PFirst r) xs v" for v
    using hseg_redirect [of "PFirst r" xs h e v] s d by auto
  show ?thesis
  proof (cases ys)
    case Nil
    then show ?thesis
      using that [of "hwrite ?q NULL h"] s e d red [of NULL] by (auto simp: hlist_del_raw_def hlist_def)
  next
    case (Cons y zs)
    then have y: "h_next h e = y" "y \<noteq> NULL" "y \<noteq> e" "y \<notin> set xs" using s d by auto
    have "hseg (hwrite ?q y h) (PNext y) zs NULL"
      using s q Cons by auto
    then show ?thesis
      using that [of "set_pprev y (Some ?q) (hwrite ?q y h)"] s e d red [of y] y Cons
      by (auto simp: hlist_del_raw_def hlist_def)
  qed
qed

text \<open>\<open>hlist_del_init\<close> of a node on a chain takes exactly that node out, wherever on the
  chain it is, without knowing the head, and leaves the node unhashed.\<close>

theorem hlist_del_init_correct:
  assumes "hlist h r xs" and "e \<in> set xs"
  shows "\<exists>h'. hlist_del_init e h = Some h' \<and> hlist h' r (remove1 e xs) \<and> hlist_unhashed e h'"
proof -
  obtain as bs where xs: "xs = as @ e # bs" "e \<notin> set as" "e \<notin> set bs"
    using assms split_list_first [of e xs] by (auto simp: hlist_def)
  obtain h' where h': "hlist_del_raw e h = Some h'" "hlist h' r (as @ bs)"
    using hlist_del_raw_correct [of h r as e bs] assms(1) xs by blast
  have "hlist (INIT_HLIST_NODE e h') r (as @ bs)"
    using h'(2) xs by (auto simp: hlist_def INIT_HLIST_NODE_def)
  then show ?thesis
    using h' xs hlist_hashed [OF assms]
    by (auto simp: hlist_del_init_def remove1_append hlist_unhashed_def INIT_HLIST_NODE_def)
qed

definition sample_chain :: hheap where
  "sample_chain = hlist_add_head 5 1 \<lparr>h_first = (\<lambda>_. NULL), h_next = (\<lambda>_. NULL), h_pprev = (\<lambda>_. None)\<rparr>"

theorem hlist_del_init_correct_witness:
  "\<exists>h'. hlist_del_init 5 sample_chain = Some h' \<and> hlist h' 1 []"
proof -
  have "hlist sample_chain 1 [5]" by (simp add: sample_chain_def hlist_def hlist_add_head_def Let_def)
  from hlist_del_init_correct [OF this, of 5] show ?thesis by auto
qed

lemma hlist_del_correct:
  assumes "hlist h r xs" and "e \<in> set xs"
  shows "\<exists>h'. hlist_del e h = Some h' \<and> hlist h' r (remove1 e xs) \<and> h_pprev h' e = Some PPoison"
proof -
  obtain as bs where xs: "xs = as @ e # bs" "e \<notin> set as" "e \<notin> set bs"
    using assms split_list_first [of e xs] by (auto simp: hlist_def)
  obtain h' where h': "hlist_del_raw e h = Some h'" "hlist h' r (as @ bs)"
    using hlist_del_raw_correct [of h r as e bs] assms(1) xs by blast
  have "hlist (set_pprev e (Some PPoison) (hwrite (PNext e) LIST_POISON1 h')) r (as @ bs)"
    using h'(2) xs by (auto simp: hlist_def)
  then show ?thesis
    using h' xs by (auto simp: hlist_del_def remove1_append)
qed

lemma hlist_add_behind_correct:
  assumes "hlist h r (xs @ p # ys)" and "n \<noteq> NULL" and "n \<notin> set (xs @ p # ys)"
  shows "hlist (hlist_add_behind n p h) r (xs @ p # n # ys)"
  using assms
  by (cases ys) (auto simp: hlist_def hlist_add_behind_def Let_def)

lemma hlist_add_before_correct:
  assumes "hlist h r (xs @ e # ys)" and "n \<noteq> NULL" and "n \<notin> set (xs @ e # ys)"
  shows "\<exists>h'. hlist_add_before n e h = Some h' \<and> hlist h' r (xs @ n # e # ys)"
proof -
  let ?q = "last_link (PFirst r) xs"
  have d: "distinct (xs @ e # ys)" and s: "hseg h (PFirst r) xs e" "hseg h (PNext e) ys NULL"
    and e: "h_pprev h e = Some ?q" "e \<noteq> NULL"
    using assms by (auto simp: hlist_def)
  define k where "k = set_pprev e (Some (PNext n)) (hwrite (PNext n) e (set_pprev n (Some ?q) h))"
  have q: "?q \<noteq> PPoison" "?q \<noteq> PNext e" "?q \<notin> PNext ` set ys" "?q \<noteq> PNext n"
    using last_link_cases [of "PFirst r" xs] d assms(3) by auto
  have "n \<noteq> e" "n \<notin> set xs" "e \<notin> set xs" using assms(3) d by auto
  then have "hseg k (PFirst r) xs e" using s by (auto simp: k_def)
  then have "hseg (hwrite ?q n k) (PFirst r) xs n"
    using hseg_redirect [of "PFirst r" xs k e n] d by auto
  moreover have "hseg (hwrite ?q n k) (PNext e) ys NULL"
    using s q assms(3) d by (auto simp: k_def)
  ultimately have "hlist (hwrite ?q n k) r (xs @ n # e # ys)"
    using d assms(2,3) e q by (auto simp: hlist_def k_def h_next_hwrite_other)
  moreover have "hlist_add_before n e h = Some (hwrite ?q n k)"
    using e assms(3) by (auto simp: hlist_add_before_def k_def)
  ultimately show ?thesis by blast
qed

lemma hlist_move_list_correct:
  assumes "hlist h r xs" and "r \<noteq> s"
  shows "hlist (hlist_move_list r s h) s xs" and "hlist (hlist_move_list r s h) r []"
  using assms by (cases xs; auto simp: hlist_def hlist_move_list_def Let_def)+

lemma hlist_is_singular_node_correct:
  assumes "hlist h r (xs @ n # ys)"
  shows "hlist_is_singular_node n r h \<longleftrightarrow> xs = [] \<and> ys = []"
  using assms last_link_cases [of "PFirst r" xs]
  by (cases ys) (auto simp: hlist_def hlist_is_singular_node_def)

theorem hlist_for_each_correct:
  assumes "hlist h r xs"
  shows "hlist_for_each (h_first h r) h = Some xs"
proof -
  have "hseg h p xs NULL \<Longrightarrow> hlist_for_each (hread p h) h = Some xs" for p
  proof (induction xs arbitrary: p)
    case Nil
    then show ?case by (simp add: hlist_for_each.simps)
  next
    case (Cons x xs)
    from Cons.IH [of "PNext x"] Cons.prems show ?case by (subst hlist_for_each.simps) auto
  qed
  from this [of "PFirst r"] assms show ?thesis by (simp add: hlist_def)
qed

end
