(* ===== verification/Utils.thy ===== *)
theory Utils
  imports Prelude
begin

text \<open>
  \<open>utils/utils.c\<close>: the kernel's copies of the C string and memory routines. Memory is a
  function from addresses to bytes, and every routine makes the byte accesses of its loop in
  the loop's order, so overlapping areas behave as in the code. Lengths are taken as natural
  numbers (a negative \<open>int\<close> length is not a call the kernel makes).
\<close>

type_synonym mem = "nat \<Rightarrow> u8"

section \<open>The routines\<close>

fun kernel_memcpy :: "nat \<Rightarrow> nat \<Rightarrow> nat \<Rightarrow> mem \<Rightarrow> mem" where
  "kernel_memcpy dest src 0 m = m"
| "kernel_memcpy dest src (Suc len) m =
     kernel_memcpy (Suc dest) (Suc src) len (m(dest := m src))"

fun memset_loop :: "nat \<Rightarrow> u8 \<Rightarrow> nat \<Rightarrow> mem \<Rightarrow> mem" where
  "memset_loop dest content 0 m = m"
| "memset_loop dest content (Suc len) m = memset_loop (Suc dest) content len (m(dest := content))"

definition kernel_memset :: "nat \<Rightarrow> u32 \<Rightarrow> nat \<Rightarrow> mem \<Rightarrow> mem" where
  "kernel_memset dest b len m =
     (let content = (if b \<noteq> 0 then -1 else 0) in memset_loop dest content len m)"

fun kernel_memset_word :: "nat \<Rightarrow> u32 \<Rightarrow> nat \<Rightarrow> (nat \<Rightarrow> u32) \<Rightarrow> (nat \<Rightarrow> u32)" where
  "kernel_memset_word dest w 0 m = m"
| "kernel_memset_word dest w (Suc len) m = kernel_memset_word (Suc dest) w len (m(dest := w))"

text \<open>\<open>char\<close> is signed on the target: the difference is taken after sign extension.\<close>

partial_function (option) kernel_strcmp :: "nat \<Rightarrow> nat \<Rightarrow> mem \<Rightarrow> int option" where
  "kernel_strcmp dest src m =
     (if m dest = m src \<and> m dest \<noteq> 0 then kernel_strcmp (Suc dest) (Suc src) m
      else Some (sint (m dest) - sint (m src)))"

partial_function (option) kernel_strcpy :: "nat \<Rightarrow> nat \<Rightarrow> mem \<Rightarrow> (nat \<times> mem) option" where
  "kernel_strcpy dest src m =
     (let m' = m(dest := m src)
      in if m src \<noteq> 0 then kernel_strcpy (Suc dest) (Suc src) m' else Some (Suc dest, m'))"

fun pow_loop :: "u32 \<Rightarrow> nat \<Rightarrow> u32 \<Rightarrow> u32" where
  "pow_loop x 0 ret = ret"
| "pow_loop x (Suc z) ret = pow_loop x z (ret * x)"

definition pow :: "u32 \<Rightarrow> int \<Rightarrow> u32" where
  "pow x z = (if z < 0 then -1 else pow_loop x (nat z) 1)"

definition is_bound :: "u32 \<Rightarrow> u32 \<Rightarrow> bool" where
  "is_bound val bound \<longleftrightarrow> val AND (bound - 1) = 0"

section \<open>Copying and filling\<close>

lemma kernel_memcpy_outside:
  "a < dest \<or> dest + len \<le> a \<Longrightarrow> kernel_memcpy dest src len m a = m a"
  by (induction len arbitrary: dest src m) auto

text \<open>The forward copy is right when the areas are disjoint or the destination is the lower one.\<close>

lemma kernel_memcpy_copies:
  "dest \<le> src \<or> src + len \<le> dest \<Longrightarrow> i < len \<Longrightarrow>
   kernel_memcpy dest src len m (dest + i) = m (src + i)"
proof (induction len arbitrary: dest src m i)
  case 0
  then show ?case by simp
next
  case (Suc len)
  show ?case
  proof (cases i)
    case 0
    then show ?thesis by (simp add: kernel_memcpy_outside)
  next
    case (Suc j)
    define k where "k = m(dest := m src)"
    have "kernel_memcpy (Suc dest) (Suc src) len k (Suc dest + j) = k (Suc src + j)"
      using Suc.prems \<open>i = Suc j\<close> by (intro Suc.IH) auto
    moreover have "k (Suc src + j) = m (Suc src + j)" using Suc.prems \<open>i = Suc j\<close> by (auto simp: k_def)
    ultimately show ?thesis using \<open>i = Suc j\<close> by (simp add: k_def [symmetric])
  qed
qed

lemma memset_loop_eq:
  "memset_loop dest c len m a = (if dest \<le> a \<and> a < dest + len then c else m a)"
  by (induction len arbitrary: dest m) auto

lemma kernel_memset_eq:
  "kernel_memset dest b len m a =
     (if dest \<le> a \<and> a < dest + len then (if b = 0 then 0 else 255) else m a)"
  by (simp add: kernel_memset_def memset_loop_eq)

lemma kernel_memset_word_eq:
  "kernel_memset_word dest w len m a = (if dest \<le> a \<and> a < dest + len then w else m a)"
  by (induction len arbitrary: dest m) auto

section \<open>Strings\<close>

text \<open>\<open>cstr m p xs\<close>: at \<open>p\<close> stands the NUL-terminated string with the characters \<open>xs\<close>.\<close>

fun cstr :: "mem \<Rightarrow> nat \<Rightarrow> u8 list \<Rightarrow> bool" where
  "cstr m p [] \<longleftrightarrow> m p = 0"
| "cstr m p (x # xs) \<longleftrightarrow> m p = x \<and> x \<noteq> 0 \<and> cstr m (Suc p) xs"

text \<open>The value \<open>kernel_strcmp\<close> returns on two strings: the signed difference of the first
  characters that differ.\<close>

fun strcmp_spec :: "u8 list \<Rightarrow> u8 list \<Rightarrow> int" where
  "strcmp_spec [] [] = 0"
| "strcmp_spec (x # xs) [] = sint x"
| "strcmp_spec [] (y # ys) = - sint y"
| "strcmp_spec (x # xs) (y # ys) = (if x = y then strcmp_spec xs ys else sint x - sint y)"

lemma kernel_strcmp_correct:
  "cstr m p xs \<Longrightarrow> cstr m q ys \<Longrightarrow> kernel_strcmp p q m = Some (strcmp_spec xs ys)"
proof (induction xs ys arbitrary: p q rule: strcmp_spec.induct)
  case (4 x xs y ys)
  then show ?case by (subst kernel_strcmp.simps) auto
qed (subst kernel_strcmp.simps, auto)+

lemma sint_eq_0_u8: "sint (x :: u8) = 0 \<longleftrightarrow> x = 0"
  by (metis signed_0 signed_word_eqI)

lemma strcmp_spec_zero:
  "0 \<notin> set xs \<Longrightarrow> 0 \<notin> set ys \<Longrightarrow> strcmp_spec xs ys = 0 \<longleftrightarrow> xs = ys"
  by (induction xs ys rule: strcmp_spec.induct)
     (auto simp: sint_eq_0_u8 intro: signed_word_eqI)

lemma cstr_nonzero: "cstr m p xs \<Longrightarrow> 0 \<notin> set xs"
  by (induction xs arbitrary: p) auto

text \<open>\<open>kernel_strcmp\<close> of two NUL-terminated strings returns 0 exactly when they are equal.\<close>

theorem kernel_strcmp_zero:
  assumes "cstr m p xs" and "cstr m q ys"
  shows "kernel_strcmp p q m = Some 0 \<longleftrightarrow> xs = ys"
  using kernel_strcmp_correct [OF assms] strcmp_spec_zero [of xs ys] assms
  by (simp add: cstr_nonzero)

theorem kernel_strcmp_zero_witness:
  "kernel_strcmp 0 3 (\<lambda>a. if a = 0 \<or> a = 3 then 97 else 0) = Some 0"
  using kernel_strcmp_zero [of "\<lambda>a. if a = 0 \<or> a = 3 then 97 else 0" 0 "[97]" 3 "[97]"] by simp

lemma cstr_frame: "\<forall>a. p \<le> a \<and> a \<le> p + length xs \<longrightarrow> m' a = m a \<Longrightarrow> cstr m' p xs = cstr m p xs"
proof (induction xs arbitrary: p)
  case Nil
  then show ?case by simp
next
  case (Cons x xs)
  then have "m' p = m p" "cstr m' (Suc p) xs = cstr m (Suc p) xs" by auto
  then show ?case by simp
qed

theorem kernel_strcpy_correct:
  "cstr m q xs \<Longrightarrow> p + length xs < q \<or> q + length xs < p \<Longrightarrow>
   \<exists>m'. kernel_strcpy p q m = Some (p + length xs + 1, m') \<and> cstr m' p xs \<and>
     (\<forall>a. a < p \<or> p + length xs < a \<longrightarrow> m' a = m a)"
proof (induction xs arbitrary: p q m)
  case Nil
  then show ?case by (subst kernel_strcpy.simps) (auto simp: Let_def)
next
  case (Cons x xs)
  define k where "k = m(p := m q)"
  have x: "m q = x" "x \<noteq> 0" "cstr m (Suc q) xs" using Cons.prems by auto
  have "cstr k (Suc q) xs = cstr m (Suc q) xs"
    using Cons.prems(2) by (intro cstr_frame) (auto simp: k_def)
  with x have "cstr k (Suc q) xs" by simp
  from Cons.IH [OF this, of "Suc p"] Cons.prems(2) obtain m' where m':
    "kernel_strcpy (Suc p) (Suc q) k = Some (Suc p + length xs + 1, m')" "cstr m' (Suc p) xs"
    "\<forall>a. a < Suc p \<or> Suc p + length xs < a \<longrightarrow> m' a = k a"
    by auto
  have "m' p = x" using m'(3) x by (simp add: k_def)
  moreover have "\<forall>a. a < p \<or> p + length (x # xs) < a \<longrightarrow> m' a = m a"
    using m'(3) by (auto simp: k_def)
  moreover have "kernel_strcpy p q m = Some (p + length (x # xs) + 1, m')"
    using m'(1) x unfolding k_def by (subst kernel_strcpy.simps) (simp add: Let_def)
  ultimately show ?case using m'(2) x by auto
qed

section \<open>Arithmetic\<close>

lemma pow_loop_eq: "pow_loop x n ret = ret * x ^ n"
  by (induction x n ret rule: pow_loop.induct) (simp_all add: algebra_simps)

lemma pow_eq: "0 \<le> z \<Longrightarrow> pow x z = x ^ nat z"
  by (simp add: pow_def pow_loop_eq)

text \<open>\<open>is_bound\<close> is the test "multiple of the power of two \<open>bound\<close>".\<close>

lemma is_bound_iff: "n < 32 \<Longrightarrow> is_bound v (2 ^ n) \<longleftrightarrow> unat v mod 2 ^ n = 0"
proof -
  assume n: "n < 32"
  have "v AND (2 ^ n - 1) = take_bit n v"
    by (simp only: take_bit_eq_mask mask_eq_exp_minus_1)
  then have "is_bound v (2 ^ n) \<longleftrightarrow> unat (take_bit n v) = 0"
    by (simp only: is_bound_def unat_eq_zero)
  also have "unat (take_bit n v) = take_bit n (unat v)"
    by (rule unsigned_take_bit_eq)
  also have "take_bit n (unat v) = unat v mod 2 ^ n"
    by (rule take_bit_eq_mod)
  finally show ?thesis .
qed

end
