(* ===== verification/VfsUtils.thy ===== *)
theory VfsUtils
  imports Utils
begin

text \<open>
  \<open>kernel/vfs/utils.c\<close>: the little-endian accessors every on-disk structure is read with,
  the bit maps of the file systems, the file name comparisons and the two hash functions of
  the caches. A buffer is a function from offsets to bytes. The locale \<open>bitset\<close> states what
  the kernel's two bit map implementations (this one and the pid map) promise.
\<close>

section \<open>Little-endian integers\<close>

definition get_u16 :: "nat \<Rightarrow> mem \<Rightarrow> u16" where
  "get_u16 ch m = ucast ((ucast (m ch) :: u32) + push_bit 8 (ucast (m (ch + 1))))"

definition get_u32 :: "nat \<Rightarrow> mem \<Rightarrow> u32" where
  "get_u32 ch m = ucast (m ch) + push_bit 8 (ucast (m (ch + 1)))
     + push_bit 16 (ucast (m (ch + 2))) + push_bit 24 (ucast (m (ch + 3)))"

definition set_u16 :: "nat \<Rightarrow> u16 \<Rightarrow> mem \<Rightarrow> mem" where
  "set_u16 ch num m =
     m(ch := ucast (num AND 0xFF), ch + 1 := ucast (drop_bit 8 num AND 0xFF))"

definition set_u32 :: "nat \<Rightarrow> u32 \<Rightarrow> mem \<Rightarrow> mem" where
  "set_u32 ch num m =
     m(ch := ucast (num AND 0xFF), ch + 1 := ucast (drop_bit 8 num AND 0xFF),
       ch + 2 := ucast (drop_bit 16 num AND 0xFF), ch + 3 := ucast (drop_bit 24 num AND 0xFF))"

lemma and_0xFF: "w AND 0xFF = take_bit 8 (w :: 'a::len word)"
  by (simp add: take_bit_eq_mask mask_eq_exp_minus_1)

lemma byte_of_word: "ucast (ucast (w AND 0xFF) :: u8) = take_bit 8 (w :: 'a::len word)"
  if "8 \<le> LENGTH('a)"
  using that by (auto simp: and_0xFF bit_eq_iff bit_simps)

lemma set_u32_get_u32: "get_u32 p (set_u32 p n m) = n"
proof -
  have "get_u32 p (set_u32 p n m) =
    take_bit 8 n + push_bit 8 (take_bit 8 (drop_bit 8 n))
      + push_bit 16 (take_bit 8 (drop_bit 16 n)) + push_bit 24 (take_bit 8 (drop_bit 24 n))"
    by (simp add: get_u32_def set_u32_def byte_of_word)
  also have "\<dots> = n"
  proof -
    have a: "push_bit 8 (drop_bit 8 n) + take_bit 8 n = n" by (rule bits_ident)
    have b: "push_bit 8 (drop_bit 8 (drop_bit 8 n)) + take_bit 8 (drop_bit 8 n) = drop_bit 8 n"
      by (rule bits_ident)
    have c: "push_bit 8 (drop_bit 8 (drop_bit 16 n)) + take_bit 8 (drop_bit 16 n) = drop_bit 16 n"
      by (rule bits_ident)
    have d: "take_bit 8 (drop_bit 24 n) = drop_bit 24 n"
      by (simp add: bit_eq_iff bit_simps) (auto dest: bit_imp_le_length)
    have "push_bit 16 (drop_bit 16 n) =
        push_bit 16 (take_bit 8 (drop_bit 16 n)) + push_bit 24 (drop_bit 24 n)"
      by (subst c [symmetric]) (simp add: push_bit_add)
    moreover have "push_bit 8 (drop_bit 8 n) =
        push_bit 8 (take_bit 8 (drop_bit 8 n)) + push_bit 16 (drop_bit 16 n)"
      by (subst b [symmetric]) (simp add: push_bit_add)
    ultimately show ?thesis using a d by (simp add: add_ac)
  qed
  finally show ?thesis .
qed

lemma set_u16_get_u16: "get_u16 p (set_u16 p n m) = n"
proof -
  have lo: "(ucast (ucast (n AND 0xFF) :: u8) :: u32) = take_bit 8 (ucast n)"
    by (rule bit_word_eqI) (auto simp: and_0xFF bit_simps bit_ucast_iff)
  have hi: "push_bit 8 (ucast (ucast (drop_bit 8 n AND 0xFF) :: u8) :: u32) = push_bit 8 (drop_bit 8 (ucast n))"
    by (rule bit_word_eqI) (auto simp: and_0xFF bit_simps bit_ucast_iff dest: bit_imp_le_length)
  have "get_u16 p (set_u16 p n m) = ucast (push_bit 8 (drop_bit 8 (ucast n)) + take_bit 8 (ucast n :: u32))"
    by (simp add: get_u16_def set_u16_def lo hi add.commute del: bits_ident)
  then show ?thesis by (simp only: bits_ident) (auto intro: bit_word_eqI simp: bit_simps bit_ucast_iff)
qed

lemma set_u32_frame: "a < p \<or> p + 3 < a \<Longrightarrow> set_u32 p n m a = m a"
  by (auto simp: set_u32_def)

lemma set_u16_frame: "a < p \<or> p + 1 < a \<Longrightarrow> set_u16 p n m a = m a"
  by (auto simp: set_u16_def)

lemma get_u32_unat:
  "unat (get_u32 p m) = unat (m p) + 2 ^ 8 * unat (m (p + 1)) + 2 ^ 16 * unat (m (p + 2))
     + 2 ^ 24 * unat (m (p + 3))"
proof -
  have lt: "unat (m a) < 256" for a using unsigned_less [of "m a"] by simp
  have u: "unat (push_bit k (ucast (m a) :: u32)) = 2 ^ k * unat (m a)" if "k \<le> 24" for k a
  proof -
    have "2 ^ k * unat (m a) \<le> 2 ^ 24 * (2 ^ 8 - 1)"
      using that lt [of a] by (intro mult_mono power_increasing) auto
    then have "2 ^ k * unat (m a) < 2 ^ 32" by simp
    then show ?thesis
      using lt [of a] by (simp only: unsigned_push_bit_eq unsigned_ucast_eq)
        (simp add: push_bit_eq_mult take_bit_eq_mod mult.commute)
  qed
  have v: "unat (ucast (m a) :: u32) = unat (m a)" for a
    using lt [of a] by (simp add: unsigned_ucast_eq take_bit_eq_mod)
  show ?thesis
    using u [of 8 "p + 1"] u [of 16 "p + 2"] u [of 24 "p + 3"] lt [of p] lt [of "p + 1"]
      lt [of "p + 2"] lt [of "p + 3"]
    by (simp add: get_u32_def unat_word_ariths v)
qed

section \<open>The lowest set bit\<close>

text \<open>One stage of \<open>log2\<close>: skip the low \<open>s\<close> bits when they are all 0.\<close>

definition log2_stage :: "nat \<Rightarrow> u32 \<times> u32 \<Rightarrow> u32 \<times> u32" where
  "log2_stage n bw = (case bw of (b, word) \<Rightarrow>
     let s = (if push_bit (32 - n) word \<noteq> 0 then 0 else n) in (b + of_nat s, drop_bit s word))"

definition log2 :: "u32 \<Rightarrow> u32" where
  "log2 word = fst (log2_stage 1 (log2_stage 2 (log2_stage 4 (log2_stage 8 (log2_stage 16 (0, word))))))"

lemma push_bit_eq_0_word: "n \<le> 32 \<Longrightarrow> push_bit (32 - n) (w :: u32) = 0 \<longleftrightarrow> take_bit n w = 0"
proof -
  assume "n \<le> 32"
  have "push_bit (32 - n) w = 0 \<longleftrightarrow> (\<forall>i. i < n \<longrightarrow> \<not> bit w i)"
  proof
    assume a: "push_bit (32 - n) w = 0"
    show "\<forall>i. i < n \<longrightarrow> \<not> bit w i"
    proof (intro allI impI)
      fix i assume "i < n"
      have "\<not> bit (push_bit (32 - n) w) (i + (32 - n))" by (simp add: a)
      then show "\<not> bit w i" using \<open>i < n\<close> \<open>n \<le> 32\<close> by (simp add: bit_simps)
    qed
  next
    assume "\<forall>i. i < n \<longrightarrow> \<not> bit w i"
    then show "push_bit (32 - n) w = 0"
      by (intro bit_word_eqI) (auto simp: bit_simps)
  qed
  also have "\<dots> \<longleftrightarrow> take_bit n w = 0"
    by (simp add: take_bit_0_iff)
  finally show ?thesis .
qed

text \<open>Between the stages, the skipped low bits are all 0 and the low half of what is left is not.\<close>

lemma log2_stage_inv:
  assumes "x = drop_bit n w" and "take_bit n w = 0" and "take_bit (2 * k) x \<noteq> 0"
    and "0 < k" and "k \<le> 16" and "n + k < 2 ^ 32"
  shows "\<exists>n'. log2_stage k (of_nat n, x) = (of_nat n', drop_bit n' w) \<and> take_bit n' w = 0
    \<and> take_bit k (drop_bit n' w) \<noteq> 0 \<and> n' \<le> n + k"
proof (cases "take_bit k x = 0")
  case False
  then have "push_bit (32 - k) x \<noteq> 0" using push_bit_eq_0_word [of k x] assms by simp
  then show ?thesis using assms False by (intro exI [of _ n]) (simp add: log2_stage_def)
next
  case True
  then have "push_bit (32 - k) x = 0" using push_bit_eq_0_word [of k x] assms by simp
  moreover have "take_bit (n + k) w = 0"
  proof (rule bit_word_eqI)
    fix i
    show "bit (take_bit (n + k) w) i = bit 0 i"
    proof (cases "i < n")
      case True
      then have "\<not> bit w i" using assms(2) by (auto simp: take_bit_0_iff)
      then show ?thesis by (simp add: bit_simps)
    next
      case False
      have "\<not> bit (take_bit k x) (i - n)" by (simp add: True)
      then show ?thesis using assms(1) False by (auto simp: bit_simps)
    qed
  qed
  moreover have "take_bit k (drop_bit k x) \<noteq> 0"
  proof
    assume z: "take_bit k (drop_bit k x) = 0"
    have "take_bit (2 * k) x = 0"
    proof (rule bit_word_eqI)
      fix i
      show "bit (take_bit (2 * k) x) i = bit 0 i"
      proof (cases "i < k")
        case True
        have "\<not> bit (take_bit k x) i" by (simp add: \<open>take_bit k x = 0\<close>)
        then show ?thesis using True by (simp add: bit_simps)
      next
        case False
        have "\<not> bit (take_bit k (drop_bit k x)) (i - k)" by (simp add: z)
        then show ?thesis using False by (auto simp: bit_simps)
      qed
    qed
    then show False using assms(3) by simp
  qed
  moreover have "log2_stage k (of_nat n, x) = (of_nat (n + k), drop_bit (n + k) w)"
    using \<open>push_bit (32 - k) x = 0\<close> assms(1) by (simp add: log2_stage_def add.commute [of k n])
  ultimately show ?thesis
    using assms(1) by (intro exI [of _ "n + k"]) (simp add: add.commute [of k n])
qed

text \<open>For a nonzero word, \<open>log2\<close> returns the position of its lowest set bit.\<close>

theorem log2_lowest_bit:
  assumes "w \<noteq> 0"
  shows "bit w (unat (log2 w)) \<and> (\<forall>i < unat (log2 w). \<not> bit w i)"
proof -
  have "take_bit (2 * 16) w \<noteq> 0" using assms by (simp add: take_bit_word_eq_self)
  then obtain n1 where 1: "log2_stage 16 (0, w) = (of_nat n1, drop_bit n1 w)" "take_bit n1 w = 0"
    "take_bit (2 * 8) (drop_bit n1 w) \<noteq> 0" "n1 \<le> 16"
    using log2_stage_inv [of w 0 w 16] by auto
  obtain n2 where 2: "log2_stage 8 (of_nat n1, drop_bit n1 w) = (of_nat n2, drop_bit n2 w)"
    "take_bit n2 w = 0" "take_bit (2 * 4) (drop_bit n2 w) \<noteq> 0" "n2 \<le> 24"
    using log2_stage_inv [OF refl 1(2,3)] 1(4) by auto
  obtain n3 where 3: "log2_stage 4 (of_nat n2, drop_bit n2 w) = (of_nat n3, drop_bit n3 w)"
    "take_bit n3 w = 0" "take_bit (2 * 2) (drop_bit n3 w) \<noteq> 0" "n3 \<le> 28"
    using log2_stage_inv [OF refl 2(2,3)] 2(4) by auto
  obtain n4 where 4: "log2_stage 2 (of_nat n3, drop_bit n3 w) = (of_nat n4, drop_bit n4 w)"
    "take_bit n4 w = 0" "take_bit (2 * 1) (drop_bit n4 w) \<noteq> 0" "n4 \<le> 30"
    using log2_stage_inv [OF refl 3(2,3)] 3(4) by auto
  obtain n5 where 5: "log2_stage 1 (of_nat n4, drop_bit n4 w) = (of_nat n5, drop_bit n5 w)"
    "take_bit n5 w = 0" "take_bit 1 (drop_bit n5 w) \<noteq> 0" "n5 \<le> 31"
    using log2_stage_inv [OF refl 4(2,3)] 4(4) by auto
  have "log2 w = of_nat n5" by (simp only: log2_def 1 2 3 4 5 fst_conv)
  then have n: "unat (log2 w) = n5" using 5(4) by (simp add: unat_of_nat)
  have "bit w n5"
  proof (rule ccontr)
    assume "\<not> bit w n5"
    then have "take_bit 1 (drop_bit n5 w) = 0" by (simp only: take_bit_0_iff) (simp add: bit_drop_bit_eq)
    then show False using 5(3) by simp
  qed
  moreover have "\<not> bit w i" if "i < n5" for i
    using 5(2) that by (auto simp: take_bit_0_iff)
  ultimately show ?thesis by (simp add: n)
qed

theorem log2_lowest_bit_witness: "bit (24 :: u32) (unat (log2 24))"
  using log2_lowest_bit [of 24] by simp

section \<open>File name comparison\<close>

record qstr =
  q_name :: "nat \<Rightarrow> u8"
  q_len :: u32

fun compare_loop :: "(u8 \<Rightarrow> u8) \<Rightarrow> qstr \<Rightarrow> qstr \<Rightarrow> nat \<Rightarrow> nat \<Rightarrow> u32" where
  "compare_loop f a b i 0 = 0"
| "compare_loop f a b i (Suc n) =
     (if f (q_name a i) \<noteq> f (q_name b i) then 1 else compare_loop f a b (Suc i) n)"

definition generic_compare_filename :: "qstr \<Rightarrow> qstr \<Rightarrow> u32" where
  "generic_compare_filename a b =
     (if q_len a \<noteq> q_len b then 1 else compare_loop id a b 0 (unat (q_len a)))"

text \<open>\<open>char\<close> is signed: the test of the range \<open>'a'..'z'\<close> is on the sign-extended value.\<close>

definition fat32_upper :: "u8 \<Rightarrow> u8" where
  "fat32_upper c = (if 97 \<le> sint c \<and> sint c \<le> 122 then c + 65 - 97 else c)"

definition fat32_compare_filename :: "qstr \<Rightarrow> qstr \<Rightarrow> u32" where
  "fat32_compare_filename a b =
     (if q_len a \<noteq> q_len b then 1 else compare_loop fat32_upper a b 0 (unat (q_len a)))"

definition name_of :: "qstr \<Rightarrow> u8 list" where
  "name_of q = map (q_name q) [0..<unat (q_len q)]"

lemma compare_loop_range: "compare_loop f a b i n = 0 \<or> compare_loop f a b i n = 1"
  by (induction n arbitrary: i) auto

lemma compare_loop_zero:
  "compare_loop f a b i n = 0 \<longleftrightarrow> (\<forall>k < n. f (q_name a (i + k)) = f (q_name b (i + k)))"
proof (induction n arbitrary: i)
  case 0
  then show ?case by simp
next
  case (Suc n)
  have "(\<forall>k < Suc n. P (i + k)) \<longleftrightarrow> P i \<and> (\<forall>k < n. P (Suc i + k))" for P
    by (auto simp: All_less_Suc2)
  from this [of "\<lambda>k. f (q_name a k) = f (q_name b k)"] Suc show ?case by simp
qed

lemma name_of_eq_iff:
  "map f (name_of a) = map f (name_of b) \<longleftrightarrow>
     q_len a = q_len b \<and> (\<forall>k < unat (q_len a). f (q_name a k) = f (q_name b k))"
proof -
  have "map f (name_of a) = map f (name_of b) \<longleftrightarrow> unat (q_len a) = unat (q_len b)
      \<and> (\<forall>k < unat (q_len a). f (q_name a k) = f (q_name b k))"
    by (auto simp: name_of_def list_eq_iff_nth_eq)
  then show ?thesis by (simp only: word_unat_eq_iff)
qed

theorem generic_compare_iff: "generic_compare_filename a b = 0 \<longleftrightarrow> name_of a = name_of b"
  using name_of_eq_iff [of id a b]
  by (auto simp: generic_compare_filename_def compare_loop_zero)

text \<open>\<open>fat32_compare_filename\<close> returns 0 exactly when the names are equal up to the case of
  the letters \<open>a\<close> to \<open>z\<close>.\<close>

theorem fat32_compare_iff:
  "fat32_compare_filename a b = 0 \<longleftrightarrow> map fat32_upper (name_of a) = map fat32_upper (name_of b)"
  by (auto simp: fat32_compare_filename_def compare_loop_zero name_of_eq_iff)

lemma fat32_upper_idem [simp]: "fat32_upper (fat32_upper c) = fat32_upper c"
proof (cases "97 \<le> sint c \<and> sint c \<le> 122")
  case True
  then have "sint (c + 65 - 97) = sint c - 32"
    by (simp add: sint_word_ariths signed_take_bit_int_eq_self_iff)
  with True show ?thesis by (simp add: fat32_upper_def)
qed (auto simp: fat32_upper_def)

section \<open>Bit maps\<close>

definition get_bit :: "nat \<Rightarrow> u32 \<Rightarrow> mem \<Rightarrow> u32" where
  "get_bit bitmap index m =
     (let mask = (push_bit (unat (index mod 8)) 1 :: u8)
      in if m (bitmap + unat (index div 8)) AND mask \<noteq> 0 then 1 else 0)"

definition set_bitmap_bit :: "nat \<Rightarrow> u32 \<Rightarrow> mem \<Rightarrow> mem" where
  "set_bitmap_bit bitmap index m =
     (let byte = bitmap + unat (index div 8); mask = push_bit (unat (index mod 8)) 1
      in m(byte := mask OR m byte))"

definition reset_bit :: "nat \<Rightarrow> u32 \<Rightarrow> mem \<Rightarrow> mem" where
  "reset_bit bitmap index m =
     (let byte = bitmap + unat (index div 8); mask = push_bit (unat (index mod 8)) 1 XOR 0xFF
      in m(byte := mask AND m byte))"

fun ffz_byte :: "u8 \<Rightarrow> nat \<Rightarrow> nat \<Rightarrow> u32 \<Rightarrow> nat option" where
  "ffz_byte b j 0 bitmask = None"
| "ffz_byte b j (Suc n) bitmask =
     (if bitmask AND ucast b = 0 then Some j else ffz_byte b (Suc j) n (push_bit 1 bitmask))"

definition EINVAL :: u32 where "EINVAL = 22"

fun ffz_loop :: "nat \<Rightarrow> nat \<Rightarrow> nat \<Rightarrow> mem \<Rightarrow> u32" where
  "ffz_loop bitmap i 0 m = - EINVAL"
| "ffz_loop bitmap i (Suc n) m =
     (case ffz_byte (m (bitmap + i)) 0 8 1 of
        Some j \<Rightarrow> push_bit 3 (of_nat i) + of_nat j
      | None \<Rightarrow> ffz_loop bitmap (Suc i) n m)"

definition find_first_zero_bit :: "nat \<Rightarrow> u32 \<Rightarrow> mem \<Rightarrow> u32" where
  "find_first_zero_bit bitmap blksize m = ffz_loop bitmap 0 (unat blksize) m"

text \<open>The bit number \<open>k\<close> of the map that starts at \<open>p\<close>.\<close>

definition map_bit :: "nat \<Rightarrow> mem \<Rightarrow> nat \<Rightarrow> bool" where
  "map_bit p m k = bit (m (p + k div 8)) (k mod 8)"

lemma index_div_mod: "unat (index div 8) = unat (index :: u32) div 8"
  "unat (index mod 8) = unat (index :: u32) mod 8"
  by (simp_all add: unat_div unat_mod)

lemma get_bit_correct: "get_bit p i m = (if map_bit p m (unat i) then 1 else 0)"
  by (simp add: get_bit_def map_bit_def Let_def and_exp_eq_0_iff_not_bit index_div_mod)

lemma same_bit_iff: "(p + i div 8 = p + j div 8 \<and> j mod 8 = i mod 8) \<longleftrightarrow> j = (i :: nat)"
  by (metis add_left_cancel div_mult_mod_eq)

lemma set_bit_correct:
  "map_bit p (set_bitmap_bit p i m) j \<longleftrightarrow> j = unat i \<or> map_bit p m j"
proof -
  have "bit (push_bit k 1 OR (x :: u8)) n \<longleftrightarrow> n = k \<or> bit x n" if "n < 8" for k n x
    using that by (auto simp: bit_simps)
  then show ?thesis
    using same_bit_iff [of p "unat i" j]
    by (auto simp only: set_bitmap_bit_def fun_upd_apply Let_def index_div_mod map_bit_def
        mod_less_divisor zero_less_numeral split: if_splits)
qed

lemma reset_bit_correct:
  "map_bit p (reset_bit p i m) j \<longleftrightarrow> j \<noteq> unat i \<and> map_bit p m j"
proof -
  have "bit (0xFF :: u8) n \<longleftrightarrow> n < 8" for n
    using bit_mask_iff [of 8 n, where 'a = u8] by (auto simp: mask_eq_exp_minus_1 dest: bit_imp_le_length)
  then have "bit ((push_bit k 1 XOR 0xFF) AND (x :: u8)) n \<longleftrightarrow> n \<noteq> k \<and> bit x n" if "n < 8" for k n x
    using that by (auto simp: bit_simps)
  then show ?thesis
    using same_bit_iff [of p "unat i" j]
    by (auto simp only: reset_bit_def fun_upd_apply Let_def index_div_mod map_bit_def
        mod_less_divisor zero_less_numeral split: if_splits)
qed

text \<open>The scan of one byte, and of the whole map.\<close>

lemma ffz_byte_spec:
  "j + n \<le> 8 \<Longrightarrow> case ffz_byte b j n (push_bit j 1) of
     None \<Rightarrow> (\<forall>k. j \<le> k \<and> k < j + n \<longrightarrow> bit b k)
   | Some k \<Rightarrow> j \<le> k \<and> k < j + n \<and> \<not> bit b k \<and> (\<forall>l. j \<le> l \<and> l < k \<longrightarrow> bit b l)"
proof (induction n arbitrary: j)
  case 0
  then show ?case by auto
next
  case (Suc n)
  have t: "push_bit j 1 AND ucast b = (0 :: u32) \<longleftrightarrow> \<not> bit b j"
    using Suc.prems and_exp_eq_0_iff_not_bit [of "ucast b :: u32" j]
    by (simp add: and.commute bit_ucast_iff)
  have p: "push_bit 1 (push_bit j 1) = (push_bit (Suc j) 1 :: u32)" by simp
  show ?case
  proof (cases "bit b j")
    case False
    then show ?thesis by (auto simp add: t simp del: push_bit_of_1)
  next
    case True
    have "ffz_byte b j (Suc n) (push_bit j 1) = ffz_byte b (Suc j) n (push_bit (Suc j) 1)"
      using True by (simp only: ffz_byte.simps t p) simp
    moreover have le: "j \<le> k \<longleftrightarrow> k = j \<or> Suc j \<le> k" for k by auto
    ultimately show ?thesis using Suc.IH [of "Suc j"] Suc.prems True
      by (auto simp del: push_bit_of_1 split: option.splits simp: le)
  qed
qed

lemma ffz_byte_cases:
  obtains (full) "ffz_byte b 0 8 1 = None" "\<And>k. k < 8 \<Longrightarrow> bit b k"
  | (found) k where "ffz_byte b 0 8 1 = Some k" "k < 8" "\<not> bit b k" "\<And>l. l < k \<Longrightarrow> bit b l"
  using ffz_byte_spec [of 0 8 b] by (auto split: option.splits)

lemma map_bit_byte: "k < 8 \<Longrightarrow> map_bit p m (8 * i + k) = bit (m (p + i)) k"
  by (simp add: map_bit_def)

lemma ffz_loop_none:
  "(\<forall>k. 8 * i \<le> k \<and> k < 8 * (i + n) \<longrightarrow> map_bit p m k) \<Longrightarrow> ffz_loop p i n m = - EINVAL"
proof (induction n arbitrary: i)
  case 0
  then show ?case by simp
next
  case (Suc n)
  have "bit (m (p + i)) k" if "k < 8" for k
    using Suc.prems that by (simp add: map_bit_byte [symmetric])
  then have "ffz_byte (m (p + i)) 0 8 1 = None"
    by (cases rule: ffz_byte_cases [of "m (p + i)"]) auto
  moreover have "ffz_loop p (Suc i) n m = - EINVAL" using Suc.prems by (intro Suc.IH) auto
  ultimately show ?case by simp
qed

lemma ffz_loop_some:
  "8 * i \<le> k \<Longrightarrow> k < 8 * (i + n) \<Longrightarrow> \<not> map_bit p m k \<Longrightarrow>
   (\<forall>l. 8 * i \<le> l \<and> l < k \<longrightarrow> map_bit p m l) \<Longrightarrow> ffz_loop p i n m = of_nat k"
proof (induction n arbitrary: i)
  case 0
  then show ?case by simp
next
  case (Suc n)
  show ?case
  proof (cases "k < 8 * Suc i")
    case True
    define j where "j = k - 8 * i"
    have k: "k = 8 * i + j" "j < 8" using True Suc.prems(1) by (auto simp: j_def)
    have z: "\<not> bit (m (p + i)) j" using Suc.prems(3) k by (simp add: map_bit_byte)
    have l: "bit (m (p + i)) l" if "l < j" for l
      using Suc.prems(4) that k by (simp add: map_bit_byte [symmetric])
    have "ffz_byte (m (p + i)) 0 8 1 = Some j"
    proof (cases rule: ffz_byte_cases [of "m (p + i)"])
      case full
      then show ?thesis using z k by auto
    next
      case (found j')
      then show ?thesis using z l by (metis linorder_neqE_nat)
    qed
    then show ?thesis by (simp add: k push_bit_eq_mult)
  next
    case False
    have "bit (m (p + i)) l" if "l < 8" for l
      using Suc.prems(4) that False by (simp add: map_bit_byte [symmetric])
    then have "ffz_byte (m (p + i)) 0 8 1 = None"
      by (cases rule: ffz_byte_cases [of "m (p + i)"]) auto
    moreover have "ffz_loop p (Suc i) n m = of_nat k"
      using Suc.prems False by (intro Suc.IH) auto
    ultimately show ?thesis by simp
  qed
qed

text \<open>\<open>find_first_zero_bit\<close> returns the number of the first clear bit of the map, or
  \<open>-EINVAL\<close> when all bits of its \<open>blksize\<close> bytes are set.\<close>

theorem find_first_zero_bit_correct:
  "find_first_zero_bit p blksize m =
     (if \<forall>k < 8 * unat blksize. map_bit p m k then - EINVAL
      else of_nat (LEAST k. \<not> map_bit p m k))"
proof (cases "\<forall>k < 8 * unat blksize. map_bit p m k")
  case True
  then show ?thesis by (simp add: find_first_zero_bit_def ffz_loop_none)
next
  case False
  define k where "k = (LEAST k. \<not> map_bit p m k)"
  obtain k0 where k0: "k0 < 8 * unat blksize" "\<not> map_bit p m k0" using False by blast
  have "\<not> map_bit p m k" unfolding k_def by (rule LeastI) (rule k0)
  moreover have "k \<le> k0" unfolding k_def by (rule Least_le) (rule k0)
  moreover have "map_bit p m l" if "l < k" for l using not_less_Least that unfolding k_def by blast
  ultimately have "ffz_loop p 0 (unat blksize) m = of_nat k"
    using k0 by (intro ffz_loop_some) auto
  with False show ?thesis by (simp only: find_first_zero_bit_def k_def if_False)
qed

theorem find_first_zero_bit_correct_witness: "find_first_zero_bit 0 1 (\<lambda>_. 0) = 0"
proof -
  have "(LEAST k. \<not> map_bit 0 (\<lambda>_. 0) k) = 0" by (rule Least_equality) (simp_all add: map_bit_def)
  moreover have "\<not> (\<forall>k < 8 * unat (1 :: u32). map_bit 0 (\<lambda>_. 0) k)"
    by (auto simp: map_bit_def intro: exI [of _ 0])
  ultimately show ?thesis unfolding find_first_zero_bit_correct [of 0 1 "\<lambda>_. 0"] by (simp only: if_False semiring_1_class.of_nat_0)
qed

section \<open>What a bit map promises\<close>

text \<open>
  \<open>bitset\<close> is the contract of a fixed-size bit map: setting and clearing a bit changes that
  bit and no other. Allocators count the clear bits; the facts about the count follow from the
  contract alone, and hold for the block and inode bit maps here and for the pid map.
\<close>

locale bitset =
  fixes member :: "'m \<Rightarrow> nat \<Rightarrow> bool"
    and insert_bit :: "nat \<Rightarrow> 'm \<Rightarrow> 'm"
    and delete_bit :: "nat \<Rightarrow> 'm \<Rightarrow> 'm"
    and bound :: nat
  assumes member_insert: "i < bound \<Longrightarrow> j < bound \<Longrightarrow> member (insert_bit i m) j \<longleftrightarrow> j = i \<or> member m j"
    and member_delete: "i < bound \<Longrightarrow> j < bound \<Longrightarrow> member (delete_bit i m) j \<longleftrightarrow> j \<noteq> i \<and> member m j"
begin

definition clear_bits :: "'m \<Rightarrow> nat set" where
  "clear_bits m = {j. j < bound \<and> \<not> member m j}"

lemma finite_clear [simp]: "finite (clear_bits m)"
  by (simp add: clear_bits_def)

lemma clear_insert: "i < bound \<Longrightarrow> clear_bits (insert_bit i m) = clear_bits m - {i}"
  by (auto simp: clear_bits_def member_insert)

lemma clear_delete: "i < bound \<Longrightarrow> clear_bits (delete_bit i m) = insert i (clear_bits m)"
  by (auto simp: clear_bits_def member_delete)

lemma card_insert:
  "i < bound \<Longrightarrow> \<not> member m i \<Longrightarrow> Suc (card (clear_bits (insert_bit i m))) = card (clear_bits m)"
  by (simp add: clear_insert) (metis (mono_tags, lifting) clear_bits_def card.remove finite_clear mem_Collect_eq Suc_eq_plus1)

lemma card_delete:
  "i < bound \<Longrightarrow> member m i \<Longrightarrow> card (clear_bits (delete_bit i m)) = Suc (card (clear_bits m))"
  by (simp add: clear_delete) (simp add: clear_bits_def)

text \<open>Releasing what was just taken gives the map back, and the other way round.\<close>

lemma clear_insert_delete:
  "i < bound \<Longrightarrow> \<not> member m i \<Longrightarrow> clear_bits (delete_bit i (insert_bit i m)) = clear_bits m"
  by (simp add: clear_delete clear_insert) (auto simp: clear_bits_def)

lemma none_clear: "clear_bits m = {} \<longleftrightarrow> (\<forall>j < bound. member m j)"
  by (auto simp: clear_bits_def)

end

interpretation vfs_bits: bitset "\<lambda>m i. get_bit p (of_nat i) m = 1" "\<lambda>i. set_bitmap_bit p (of_nat i)"
  "\<lambda>i. reset_bit p (of_nat i)" "2 ^ 32" for p
  by unfold_locales
    (auto simp: get_bit_correct set_bit_correct reset_bit_correct unat_of_nat split: if_splits)

section \<open>Hash functions\<close>

definition intHash :: "u32 \<Rightarrow> u32 \<Rightarrow> u32" where
  "intHash key sz = (let msk = sz - 1 in key AND msk)"

fun stringHash_loop :: "(nat \<Rightarrow> u8) \<Rightarrow> nat \<Rightarrow> nat \<Rightarrow> u32 \<Rightarrow> u32 \<Rightarrow> u32" where
  "stringHash_loop name i 0 msk value = value"
| "stringHash_loop name i (Suc n) msk value =
     stringHash_loop name (Suc i) n msk ((value * 31 + ucast (name i)) AND msk)"

definition stringHash :: "qstr \<Rightarrow> u32 \<Rightarrow> u32" where
  "stringHash q sz = stringHash_loop (q_name q) 0 (unat (q_len q)) (sz - 1) 0"

lemma and_pred_less: "0 < sz \<Longrightarrow> (x AND (sz - 1) :: u32) < sz"
proof -
  assume "0 < sz"
  then have "sz - 1 < sz" by unat_arith
  then show ?thesis using word_and_le1 [of x "sz - 1"] by simp
qed

lemma intHash_bound: "0 < sz \<Longrightarrow> intHash key sz < sz"
  by (simp add: intHash_def and_pred_less)

lemma stringHash_loop_bound:
  "0 < sz \<Longrightarrow> v < sz \<Longrightarrow> stringHash_loop name i n (sz - 1) v < sz"
  by (induction n arbitrary: i v) (auto simp: and_pred_less)

theorem stringHash_bound: "0 < sz \<Longrightarrow> stringHash q sz < sz"
  by (simp add: stringHash_def stringHash_loop_bound)

lemma stringHash_loop_fold:
  "stringHash_loop name i n msk v =
     fold (\<lambda>c v. (v * 31 + ucast c) AND msk) (map name [i..<i + n]) v"
  by (induction n arbitrary: i v) (simp_all add: upt_conv_Cons del: upt_Suc)

text \<open>Names that the caches hold equal hash to the same chain.\<close>

theorem stringHash_compare:
  "generic_compare_filename a b = 0 \<Longrightarrow> stringHash a sz = stringHash b sz"
  by (auto simp: generic_compare_iff stringHash_def stringHash_loop_fold name_of_def)

end
