(* ===== verification/Bootmm.thy ===== *)
theory Bootmm
  imports Prelude
begin

text \<open>
  \<open>kernel/mm/bootmm.c\<close>: the boot-time memory manager, a table of at most ten typed segments
  and a byte map with one byte for each page frame. \<open>s_map\<close> is the memory from the map's
  base address on. A result \<open>None\<close> is a loop that never ends or an access outside the
  segment table.
\<close>

section \<open>State\<close>

definition PAGE_SHIFT :: nat where "PAGE_SHIFT = 12"
definition PAGE_FREE :: u8 where "PAGE_FREE = 0"
definition PAGE_USED :: u8 where "PAGE_USED = 0xff"
definition PAGE_ALIGN :: u32 where "PAGE_ALIGN = NOT (push_bit 12 1 - 1)"
definition MAX_INFO :: nat where "MAX_INFO = 10"
definition MACHINE_MMSIZE :: u32 where "MACHINE_MMSIZE = 128 * 1024 * 1024"
definition MM_KERNEL :: u32 where "MM_KERNEL = 0"

record bootmm_info =
  mm_start :: u32
  mm_end :: u32
  mm_type :: u32

record bootmm =
  phymm :: u32
  max_pfn :: u32
  s_map :: "nat \<Rightarrow> u8"
  last_alloc_end :: u32
  cnt_infos :: nat
  mm_info :: "bootmm_info list"

definition get_phymm_size :: u32 where "get_phymm_size = MACHINE_MMSIZE"

section \<open>The segment table\<close>

definition set_mminfo :: "u32 \<Rightarrow> u32 \<Rightarrow> u32 \<Rightarrow> bootmm_info" where
  "set_mminfo st en ty = \<lparr>mm_start = st, mm_end = en, mm_type = ty\<rparr>"

function remove_loop :: "bootmm_info list \<Rightarrow> nat \<Rightarrow> nat \<Rightarrow> bootmm_info list" where
  "remove_loop xs i n = (if i < n then remove_loop (xs[i - 1 := xs ! i]) (Suc i) n else xs)"
  by auto
termination by (relation "measure (\<lambda>(xs, i, n). n - i)") auto

definition remove_mminfo :: "bootmm \<Rightarrow> nat \<Rightarrow> bootmm" where
  "remove_mminfo mm index =
     (if cnt_infos mm \<le> index then mm
      else mm\<lparr>mm_info := remove_loop (mm_info mm) (Suc index) (cnt_infos mm),
              cnt_infos := cnt_infos mm - 1\<rparr>)"

text \<open>
  The loop body of \<open>insert_mminfo\<close> for entry \<open>i\<close>; \<open>None\<close> when it goes on to the next
  entry. The return codes are those of the source.
\<close>

definition insert_step :: "bootmm \<Rightarrow> nat \<Rightarrow> u32 \<Rightarrow> u32 \<Rightarrow> u32 \<Rightarrow> (u32 \<times> bootmm) option" where
  "insert_step mm i st en ty =
     (let xs = mm_info mm; e = xs ! i;
          follow = (if mm_start e - 1 = en
                    then Some (4, mm\<lparr>mm_info := xs[i := e\<lparr>mm_start := st\<rparr>]\<rparr>)
                    else None)
      in if mm_type e \<noteq> ty then None
         else if mm_end e = st - 1 then
           if Suc i < cnt_infos mm then
             if mm_type (xs ! Suc i) \<noteq> ty
             then Some (2, mm\<lparr>mm_info := xs[i := e\<lparr>mm_end := en\<rparr>]\<rparr>)
             else if mm_start (xs ! Suc i) - 1 = en
             then Some (7, remove_mminfo
                    (mm\<lparr>mm_info := xs[i := e\<lparr>mm_end := mm_end (xs ! Suc i)\<rparr>]\<rparr>) (Suc i))
             else follow
           else Some (6, mm\<lparr>mm_info := xs[i := e\<lparr>mm_end := en\<rparr>]\<rparr>)
         else follow)"

function insert_loop :: "bootmm \<Rightarrow> nat \<Rightarrow> u32 \<Rightarrow> u32 \<Rightarrow> u32 \<Rightarrow> (u32 \<times> bootmm) option" where
  "insert_loop mm i st en ty =
     (if i < cnt_infos mm then
        case insert_step mm i st en ty of
          Some r \<Rightarrow> Some r
        | None \<Rightarrow> insert_loop mm (Suc i) st en ty
      else None)"
  by auto
termination by (relation "measure (\<lambda>(mm, i, st, en, ty). cnt_infos mm - i)") auto

declare remove_loop.simps [simp del] insert_loop.simps [simp del]

definition insert_mminfo :: "bootmm \<Rightarrow> u32 \<Rightarrow> u32 \<Rightarrow> u32 \<Rightarrow> u32 \<times> bootmm" where
  "insert_mminfo mm st en ty =
     (case insert_loop mm 0 st en ty of
        Some r \<Rightarrow> r
      | None \<Rightarrow>
          if MAX_INFO \<le> cnt_infos mm then (0, mm)
          else (1, mm\<lparr>mm_info := (mm_info mm)[cnt_infos mm := set_mminfo st en ty],
                      cnt_infos := Suc (cnt_infos mm)\<rparr>))"

text \<open>
  The copying loop of \<open>split_mminfo\<close>: \<open>tmp\<close> is unsigned, so \<open>tmp >= index\<close> with
  \<open>index = 0\<close> does not stop at 0 but goes on with the entry \<open>0xFFFFFFFF\<close>.
\<close>

partial_function (option) split_loop :: "bootmm_info list \<Rightarrow> u32 \<Rightarrow> u32 \<Rightarrow> bootmm_info list option" where
  "split_loop xs tmp index =
     (if index \<le> tmp then do {
        _ \<leftarrow> c_guard (unat tmp < length xs \<and> unat (tmp + 1) < length xs);
        split_loop (xs[unat (tmp + 1) := xs ! unat tmp]) (tmp - 1) index
      } else Some xs)"

definition split_mminfo :: "bootmm \<Rightarrow> nat \<Rightarrow> u32 \<Rightarrow> (u32 \<times> bootmm) option" where
  "split_mminfo mm index split_start =
     (let st = mm_start (mm_info mm ! index); en = mm_end (mm_info mm ! index);
          split_start = split_start AND PAGE_ALIGN
      in if split_start \<le> st \<or> en \<le> split_start then Some (0, mm)
         else if cnt_infos mm = MAX_INFO then Some (0, mm)
         else do {
           xs \<leftarrow> split_loop (mm_info mm) (of_nat (cnt_infos mm) - 1) (of_nat index);
           let xs = xs[index := (xs ! index)\<lparr>mm_end := split_start - 1\<rparr>];
           let xs = xs[Suc index := (xs ! Suc index)\<lparr>mm_start := split_start\<rparr>];
           Some (1, mm\<lparr>mm_info := xs, cnt_infos := Suc (cnt_infos mm)\<rparr>)
         })"

section \<open>The page map\<close>

fun set_maps_loop :: "nat \<Rightarrow> nat \<Rightarrow> u8 \<Rightarrow> (nat \<Rightarrow> u8) \<Rightarrow> (nat \<Rightarrow> u8)" where
  "set_maps_loop s_pfn 0 v m = m"
| "set_maps_loop s_pfn (Suc cnt) v m = set_maps_loop (Suc s_pfn) cnt v (m(s_pfn := v))"

definition set_maps :: "nat \<Rightarrow> nat \<Rightarrow> u8 \<Rightarrow> bootmm \<Rightarrow> bootmm" where
  "set_maps s_pfn cnt v mm = mm\<lparr>s_map := set_maps_loop s_pfn cnt v (s_map mm)\<rparr>"

text \<open>
  The inner loop of \<open>find_pages\<close>, with the pages still wanted and the page looked at. Its
  value \<open>Inl ()\<close> is the \<open>return 0\<close> at the end of the range, \<open>Inr\<close> the values of \<open>cnt\<close> and
  \<open>tmp\<close> after the loop. A byte that is neither \<open>PAGE_FREE\<close> nor \<open>PAGE_USED\<close> keeps it going.
\<close>

partial_function (option) find_run :: "(nat \<Rightarrow> u8) \<Rightarrow> nat \<Rightarrow> nat \<Rightarrow> nat \<Rightarrow> (unit + nat \<times> nat) option" where
  "find_run m e_pfn cnt tmp =
     (if cnt = 0 then Some (Inr (cnt, tmp))
      else if e_pfn \<le> tmp then Some (Inl ())
      else let (tmp', cnt') = (if m tmp = PAGE_FREE then (Suc tmp, cnt - 1) else (tmp, cnt))
           in if m tmp' = PAGE_USED then Some (Inr (cnt', tmp')) else find_run m e_pfn cnt' tmp')"

partial_function (option) find_pages_loop ::
  "nat \<Rightarrow> nat \<Rightarrow> nat \<Rightarrow> bootmm \<Rightarrow> (u32 \<times> bootmm) option" where
  "find_pages_loop page_cnt index e_pfn mm =
     (if e_pfn \<le> index then Some (0, mm)
      else if s_map mm index = PAGE_USED then find_pages_loop page_cnt (Suc index) e_pfn mm
      else do {
        r \<leftarrow> find_run (s_map mm) e_pfn page_cnt index;
        (case r of
           Inl _ \<Rightarrow> Some (0, mm)
         | Inr (cnt, tmp) \<Rightarrow>
             if cnt = 0
             then Some (push_bit PAGE_SHIFT (of_nat index),
                        set_maps index page_cnt PAGE_USED (mm\<lparr>last_alloc_end := of_nat tmp - 1\<rparr>))
             else find_pages_loop page_cnt tmp e_pfn mm)
      })"

definition find_pages :: "u32 \<Rightarrow> u32 \<Rightarrow> u32 \<Rightarrow> bootmm \<Rightarrow> (u32 \<times> bootmm) option" where
  "find_pages page_cnt s_pfn e_pfn mm =
     find_pages_loop (unat page_cnt) (unat s_pfn) (unat e_pfn) mm"

definition bootmm_alloc_pages :: "u32 \<Rightarrow> u32 \<Rightarrow> bootmm \<Rightarrow> (u32 \<times> bootmm) option" where
  "bootmm_alloc_pages sz ty mm = do {
     let sz = (sz + (push_bit PAGE_SHIFT 1 - 1)) AND PAGE_ALIGN;
     let size_inpages = drop_bit PAGE_SHIFT sz;
     (res, mm) \<leftarrow> find_pages size_inpages (last_alloc_end mm + 1) (max_pfn mm) mm;
     if res \<noteq> 0 then Some (res, snd (insert_mminfo mm res (res + sz - 1) ty))
     else do {
       (res, mm) \<leftarrow> find_pages size_inpages 0 (last_alloc_end mm) mm;
       if res \<noteq> 0 then Some (res, snd (insert_mminfo mm res (res + sz - 1) ty))
       else Some (0, mm)
     }
   }"

text \<open>\<open>init_bootmm\<close>, from whatever the memory of the map holds.\<close>

definition init_bootmm :: "(nat \<Rightarrow> u8) \<Rightarrow> bootmm" where
  "init_bootmm mem =
     (let en = 16 * 1024 * 1024 :: u32;
          bmm = \<lparr>phymm = get_phymm_size, max_pfn = drop_bit PAGE_SHIFT get_phymm_size,
                 s_map = set_maps_loop 0 (unat (drop_bit PAGE_SHIFT MACHINE_MMSIZE)) PAGE_FREE mem,
                 last_alloc_end = 0, cnt_infos = 0,
                 mm_info = replicate MAX_INFO (set_mminfo 0 0 0)\<rparr>;
          bmm = snd (insert_mminfo bmm 0 (en - 1) MM_KERNEL);
          bmm = bmm\<lparr>last_alloc_end := drop_bit PAGE_SHIFT en - 1\<rparr>
      in set_maps 0 (unat (drop_bit PAGE_SHIFT en)) PAGE_USED bmm)"

section \<open>The segments\<close>

text \<open>The entries in use, the addresses they record for a type, and their total length.\<close>

definition segments :: "bootmm \<Rightarrow> bootmm_info list" where
  "segments mm = take (cnt_infos mm) (mm_info mm)"

definition seg_range :: "bootmm_info \<Rightarrow> nat set" where
  "seg_range e = {unat (mm_start e)..unat (mm_end e)}"

definition recorded :: "u32 \<Rightarrow> bootmm_info list \<Rightarrow> nat set" where
  "recorded ty xs = (\<Union>e \<in> {e \<in> set xs. mm_type e = ty}. seg_range e)"

definition recorded_size :: "u32 \<Rightarrow> bootmm_info list \<Rightarrow> nat" where
  "recorded_size ty xs = sum_list (map (\<lambda>e. card (seg_range e)) (filter (\<lambda>e. mm_type e = ty) xs))"

definition seg_ok :: "bootmm_info \<Rightarrow> bool" where
  "seg_ok e \<longleftrightarrow> mm_start e \<le> mm_end e \<and> mm_end e < - 1"

definition bootmm_ok :: "bootmm \<Rightarrow> bool" where
  "bootmm_ok mm \<longleftrightarrow> length (mm_info mm) = MAX_INFO \<and> cnt_infos mm \<le> MAX_INFO
     \<and> list_all seg_ok (segments mm)"

lemma recorded_append [simp]: "recorded ty (xs @ ys) = recorded ty xs \<union> recorded ty ys"
  by (auto simp: recorded_def)

lemma recorded_Cons [simp]:
  "recorded ty (x # xs) = (if mm_type x = ty then seg_range x else {}) \<union> recorded ty xs"
  by (auto simp: recorded_def)

lemma recorded_size_append [simp]:
  "recorded_size ty (xs @ ys) = recorded_size ty xs + recorded_size ty ys"
  by (simp add: recorded_size_def)

lemma recorded_size_Cons [simp]:
  "recorded_size ty (x # xs) = (if mm_type x = ty then card (seg_range x) else 0) + recorded_size ty xs"
  by (simp add: recorded_size_def)

lemma recorded_Nil [simp]: "recorded ty [] = {}" "recorded_size ty [] = 0"
  by (simp_all add: recorded_def recorded_size_def)

lemma set_mminfo_sel [simp]:
  "mm_start (set_mminfo st en ty) = st" "mm_end (set_mminfo st en ty) = en"
  "mm_type (set_mminfo st en ty) = ty"
  by (simp_all add: set_mminfo_def)

lemma remove_loop_take:
  "n \<le> length xs \<Longrightarrow> 0 < i \<Longrightarrow> i \<le> n \<Longrightarrow>
   length (remove_loop xs i n) = length xs \<and>
   take (n - 1) (remove_loop xs i n) = take (i - 1) xs @ drop i (take n xs)"
proof (induction xs i n rule: remove_loop.induct)
  case (1 xs i n)
  show ?case
  proof (cases "i < n")
    case True
    define ys where "ys = xs[i - 1 := xs ! i]"
    have ys: "length ys = length xs" "take i ys = take (i - 1) xs @ [xs ! i]" "drop (Suc i) ys = drop (Suc i) xs"
      using True 1 by (auto simp: ys_def take_update_swap take_Suc_conv_app_nth [of "i - 1", simplified]
          intro!: nth_equalityI simp: nth_append nth_list_update)
    have "length (remove_loop ys (Suc i) n) = length ys \<and>
        take (n - 1) (remove_loop ys (Suc i) n) = take i ys @ drop (Suc i) (take n ys)"
      using 1(1) [OF True] 1(2-) True ys by (simp add: ys_def)
    moreover have "drop i (take n xs) = xs ! i # drop (Suc i) (take n xs)"
      using True 1(2-) Cons_nth_drop_Suc [of i "take n xs"] by simp
    moreover have "drop (Suc i) (take n ys) = drop (Suc i) (take n xs)"
      using ys(3) by (simp add: drop_take)
    ultimately show ?thesis using True ys by (simp add: remove_loop.simps [of xs] ys_def)
  next
    case False
    then show ?thesis using 1 by (simp add: remove_loop.simps)
  qed
qed

lemma segments_split:
  assumes "i < cnt_infos mm" and "cnt_infos mm \<le> length (mm_info mm)"
  shows "segments mm = take i (mm_info mm) @ mm_info mm ! i # drop (Suc i) (segments mm)"
  using assms id_take_nth_drop [of i "segments mm"] by (simp add: segments_def min_def)

lemma segments_update:
  assumes "i < cnt_infos mm" and "cnt_infos mm \<le> length (mm_info mm)"
  shows "segments (mm\<lparr>mm_info := (mm_info mm)[i := v]\<rparr>)
    = take i (mm_info mm) @ v # drop (Suc i) (segments mm)"
proof -
  have "segments (mm\<lparr>mm_info := (mm_info mm)[i := v]\<rparr>) = (segments mm)[i := v]"
    by (simp add: segments_def take_update_swap)
  also have "\<dots> = take i (segments mm) @ v # drop (Suc i) (segments mm)"
    using assms by (intro upd_conv_take_nth_drop) (simp add: segments_def)
  finally show ?thesis using assms by (simp add: segments_def min_def)
qed

lemma remove_mminfo_segments:
  assumes "i < cnt_infos mm" and "cnt_infos mm \<le> length (mm_info mm)"
  shows "segments (remove_mminfo mm i) = take i (mm_info mm) @ drop (Suc i) (segments mm)
    \<and> cnt_infos (remove_mminfo mm i) = cnt_infos mm - 1
    \<and> length (mm_info (remove_mminfo mm i)) = length (mm_info mm)"
  using assms remove_loop_take [of "cnt_infos mm" "mm_info mm" "Suc i"]
  by (simp add: remove_mminfo_def segments_def)

text \<open>How the table looks after \<open>insert_mminfo\<close> has merged the new segment.\<close>

definition merged :: "u32 \<Rightarrow> u32 \<Rightarrow> u32 \<Rightarrow> u32 \<Rightarrow> bootmm_info list \<Rightarrow> bootmm_info list \<Rightarrow> bool" where
  "merged r st en ty xs ys \<longleftrightarrow>
     (\<exists>as e bs. xs = as @ e # bs \<and> mm_type e = ty \<and>
       ((r = 2 \<or> r = 6) \<and> mm_end e = st - 1 \<and> ys = as @ e\<lparr>mm_end := en\<rparr> # bs
        \<or> r = 4 \<and> mm_start e - 1 = en \<and> ys = as @ e\<lparr>mm_start := st\<rparr> # bs
        \<or> r = 7 \<and> mm_end e = st - 1 \<and> (\<exists>f cs. bs = f # cs \<and> mm_type f = ty \<and> mm_start f - 1 = en
             \<and> ys = as @ e\<lparr>mm_end := mm_end f\<rparr> # cs)))"

lemma mergedI:
  "xs = as @ e # bs \<Longrightarrow> mm_type e = ty \<Longrightarrow> r = 2 \<or> r = 6 \<Longrightarrow> mm_end e = st - 1 \<Longrightarrow>
     ys = as @ e\<lparr>mm_end := en\<rparr> # bs \<Longrightarrow> merged r st en ty xs ys"
  "xs = as @ e # bs \<Longrightarrow> mm_type e = ty \<Longrightarrow> r = 4 \<Longrightarrow> mm_start e - 1 = en \<Longrightarrow>
     ys = as @ e\<lparr>mm_start := st\<rparr> # bs \<Longrightarrow> merged r st en ty xs ys"
  "xs = as @ e # f # cs \<Longrightarrow> mm_type e = ty \<Longrightarrow> r = 7 \<Longrightarrow> mm_end e = st - 1 \<Longrightarrow>
     mm_type f = ty \<Longrightarrow> mm_start f - 1 = en \<Longrightarrow>
     ys = as @ e\<lparr>mm_end := mm_end f\<rparr> # cs \<Longrightarrow> merged r st en ty xs ys"
  unfolding merged_def by blast+

lemma insert_step_merged:
  assumes "insert_step mm i st en ty = Some (r, mm')" and "i < cnt_infos mm"
    and "cnt_infos mm \<le> length (mm_info mm)"
  shows "merged r st en ty (segments mm) (segments mm')
    \<and> cnt_infos mm' \<le> cnt_infos mm \<and> length (mm_info mm') = length (mm_info mm)"
proof -
  define xs where "xs = mm_info mm"
  define e where "e = xs ! i"
  define mm1 where "mm1 = (\<lambda>v. mm\<lparr>mm_info := xs[i := v]\<rparr>)"
  have sp: "segments mm = take i xs @ e # drop (Suc i) (segments mm)"
    using segments_split [OF assms(2,3)] by (simp add: xs_def e_def)
  have up: "segments (mm1 v) = take i xs @ v # drop (Suc i) (segments mm)"
    "cnt_infos (mm1 v) = cnt_infos mm" "length (mm_info (mm1 v)) = length (mm_info mm)" for v
    using segments_update [OF assms(2,3)] by (simp_all add: xs_def mm1_def)
  have len: "length (segments mm) = cnt_infos mm" using assms(3) by (simp add: segments_def)
  have ty: "mm_type e = ty" and step:
    "mm_end e = st - 1 \<and> r \<in> {2, 6} \<and> mm' = mm1 (e\<lparr>mm_end := en\<rparr>)
     \<or> mm_start e - 1 = en \<and> r = 4 \<and> mm' = mm1 (e\<lparr>mm_start := st\<rparr>)
     \<or> mm_end e = st - 1 \<and> r = 7 \<and> Suc i < cnt_infos mm \<and> mm_type (xs ! Suc i) = ty
       \<and> mm_start (xs ! Suc i) - 1 = en
       \<and> mm' = remove_mminfo (mm1 (e\<lparr>mm_end := mm_end (xs ! Suc i)\<rparr>)) (Suc i)"
    using assms(1) by (auto simp: insert_step_def Let_def xs_def e_def mm1_def split: if_splits)
  from step show ?thesis
  proof (elim disjE conjE)
    assume a: "mm_end e = st - 1" "r \<in> {2, 6}" "mm' = mm1 (e\<lparr>mm_end := en\<rparr>)"
    then have "merged r st en ty (segments mm) (segments mm')"
      using mergedI(1) [OF sp ty _ a(1)] up(1) by blast
    then show ?thesis using a up by simp
  next
    assume a: "mm_start e - 1 = en" "r = 4" "mm' = mm1 (e\<lparr>mm_start := st\<rparr>)"
    then have "merged r st en ty (segments mm) (segments mm')"
      using mergedI(2) [OF sp ty _ a(1)] up(1) by blast
    then show ?thesis using a up by simp
  next
    define f where "f = xs ! Suc i"
    define m1 where "m1 = mm1 (e\<lparr>mm_end := mm_end f\<rparr>)"
    assume a: "mm_end e = st - 1" "r = 7" "Suc i < cnt_infos mm" "mm_type (xs ! Suc i) = ty"
      "mm_start (xs ! Suc i) - 1 = en"
      "mm' = remove_mminfo (mm1 (e\<lparr>mm_end := mm_end (xs ! Suc i)\<rparr>)) (Suc i)"
    have m1: "Suc i < cnt_infos m1" "cnt_infos m1 \<le> length (mm_info m1)"
      using a assms(3) up by (simp_all add: m1_def)
    have "drop (Suc i) (segments mm) = segments mm ! Suc i # drop (Suc (Suc i)) (segments mm)"
      using a(3) len by (simp add: Cons_nth_drop_Suc)
    then have d: "drop (Suc i) (segments mm) = f # drop (Suc (Suc i)) (segments mm)"
      using a(3) by (simp add: segments_def f_def xs_def)
    have t: "take (Suc i) (mm_info m1) = take i xs @ [e\<lparr>mm_end := mm_end f\<rparr>]"
      using assms(2,3) by (simp add: m1_def mm1_def xs_def take_Suc_conv_app_nth)
    have "segments m1 = take i xs @ e\<lparr>mm_end := mm_end f\<rparr> # drop (Suc i) (segments mm)"
      using up(1) by (simp add: m1_def)
    then have "drop (Suc (Suc i)) (segments m1) = drop (Suc (Suc i)) (segments mm)"
      using assms(2,3) by (simp add: xs_def d)
    then have "segments mm' = take i xs @ e\<lparr>mm_end := mm_end f\<rparr> # drop (Suc (Suc i)) (segments mm)"
      using remove_mminfo_segments [OF m1] t a(6) by (simp add: m1_def f_def)
    moreover have "segments mm = take i xs @ e # f # drop (Suc (Suc i)) (segments mm)"
      using sp d by simp
    ultimately have "merged r st en ty (segments mm) (segments mm')"
      using a by (intro mergedI(3) [of _ "take i xs" e f]) (auto simp: f_def ty)
    then show ?thesis using remove_mminfo_segments [OF m1] a up by (simp add: m1_def f_def)
  qed
qed

lemma insert_loop_merged:
  "insert_loop mm i st en ty = Some (r, mm') \<Longrightarrow> cnt_infos mm \<le> length (mm_info mm) \<Longrightarrow>
   merged r st en ty (segments mm) (segments mm')
    \<and> cnt_infos mm' \<le> cnt_infos mm \<and> length (mm_info mm') = length (mm_info mm)"
proof (induction mm i st en ty rule: insert_loop.induct)
  case (1 mm i st en ty)
  have i: "i < cnt_infos mm" using 1(2) by (rule_tac ccontr) (simp add: insert_loop.simps)
  show ?case
  proof (cases "insert_step mm i st en ty")
    case None
    then have "insert_loop mm (Suc i) st en ty = Some (r, mm')"
      using 1(2) i by (simp add: insert_loop.simps [of mm i])
    then show ?thesis using 1(1) [OF i None] 1(3) by simp
  next
    case (Some a)
    then have "insert_step mm i st en ty = Some (r, mm')"
      using 1(2) i by (simp add: insert_loop.simps [of mm i])
    then show ?thesis using i 1(3) by (rule insert_step_merged)
  qed
qed

lemma pred_eq_unat:
  assumes "a = b - 1" and "a < - 1"
  shows "unat (b :: u32) = Suc (unat a)"
proof -
  have "1 + a \<noteq> 0" using assms(2) by (metis add.commute add_eq_0_iff2 order_less_irrefl)
  then have "unat (1 + a) = Suc (unat a)" by (rule unatSuc)
  then show ?thesis using assms(1) by simp
qed

lemma atLeastAtMost_join: "(a :: nat) \<le> b \<Longrightarrow> Suc b \<le> c \<Longrightarrow> {a..c} = {a..b} \<union> {Suc b..c}"
  by auto

lemma seg_range_update [simp]:
  "seg_range (e\<lparr>mm_end := en\<rparr>) = {unat (mm_start e)..unat en}"
  "seg_range (e\<lparr>mm_start := st\<rparr>) = {unat st..unat (mm_end e)}"
  by (simp_all add: seg_range_def)

text \<open>Growing a segment at its end or its start by the new range, or bridging two segments.\<close>

lemma grow_end:
  assumes "seg_ok e" and "mm_end e = st - 1" and "st \<le> en"
  shows "seg_range (e\<lparr>mm_end := en\<rparr>) = seg_range e \<union> {unat st..unat en}"
    and "card (seg_range (e\<lparr>mm_end := en\<rparr>)) = card (seg_range e) + card {unat st..unat en}"
    and "mm_start e \<le> en"
proof -
  have "unat st = Suc (unat (mm_end e))"
    using assms pred_eq_unat [of "mm_end e" st] by (simp add: seg_ok_def)
  moreover have "unat (mm_start e) \<le> unat (mm_end e)" "unat st \<le> unat en"
    using assms by (simp_all add: seg_ok_def word_le_nat_alt)
  ultimately show "seg_range (e\<lparr>mm_end := en\<rparr>) = seg_range e \<union> {unat st..unat en}"
    "card (seg_range (e\<lparr>mm_end := en\<rparr>)) = card (seg_range e) + card {unat st..unat en}"
    "mm_start e \<le> en"
    by (auto simp: seg_range_def word_le_nat_alt)
qed

lemma grow_start:
  assumes "seg_ok e" and "mm_start e - 1 = en" and "st \<le> en" and "en < - 1"
  shows "seg_range (e\<lparr>mm_start := st\<rparr>) = seg_range e \<union> {unat st..unat en}"
    and "card (seg_range (e\<lparr>mm_start := st\<rparr>)) = card (seg_range e) + card {unat st..unat en}"
    and "st \<le> mm_end e"
proof -
  have "unat (mm_start e) = Suc (unat en)" using assms pred_eq_unat [of en "mm_start e"] by simp
  moreover have "unat (mm_start e) \<le> unat (mm_end e)" "unat st \<le> unat en"
    using assms by (simp_all add: seg_ok_def word_le_nat_alt)
  ultimately show "seg_range (e\<lparr>mm_start := st\<rparr>) = seg_range e \<union> {unat st..unat en}"
    "card (seg_range (e\<lparr>mm_start := st\<rparr>)) = card (seg_range e) + card {unat st..unat en}"
    "st \<le> mm_end e"
    by (auto simp: seg_range_def word_le_nat_alt)
qed

lemma bridge:
  assumes "seg_ok e" and "seg_ok f" and "mm_end e = st - 1" and "mm_start f - 1 = en"
    and "st \<le> en" and "en < - 1"
  shows "seg_range (e\<lparr>mm_end := mm_end f\<rparr>) = seg_range e \<union> seg_range f \<union> {unat st..unat en}"
    and "card (seg_range (e\<lparr>mm_end := mm_end f\<rparr>))
      = card (seg_range e) + card (seg_range f) + card {unat st..unat en}"
    and "mm_start e \<le> mm_end f"
proof -
  have "unat (mm_start f) = Suc (unat en)" using assms pred_eq_unat [of en "mm_start f"] by simp
  moreover have "unat st = Suc (unat (mm_end e))"
    using assms pred_eq_unat [of "mm_end e" st] by (simp add: seg_ok_def)
  moreover have "unat (mm_start f) \<le> unat (mm_end f)" "unat (mm_start e) \<le> unat (mm_end e)"
    "unat st \<le> unat en"
    using assms by (simp_all add: seg_ok_def word_le_nat_alt)
  ultimately show "seg_range (e\<lparr>mm_end := mm_end f\<rparr>) = seg_range e \<union> seg_range f \<union> {unat st..unat en}"
    "card (seg_range (e\<lparr>mm_end := mm_end f\<rparr>))
      = card (seg_range e) + card (seg_range f) + card {unat st..unat en}"
    "mm_start e \<le> mm_end f"
    by (auto simp: seg_range_def word_le_nat_alt)
qed

lemma merged_recorded:
  assumes m: "merged r st en ty xs ys" and ok: "list_all seg_ok xs" and n: "st \<le> en" "en < - 1"
  shows "list_all seg_ok ys \<and> recorded ty ys = recorded ty xs \<union> {unat st..unat en}
    \<and> recorded_size ty ys = recorded_size ty xs + card {unat st..unat en}
    \<and> (\<forall>t. t \<noteq> ty \<longrightarrow> recorded t ys = recorded t xs) \<and> r \<in> {2, 4, 6, 7}"
proof -
  obtain as e bs where xs: "xs = as @ e # bs" "mm_type e = ty" and c:
    "(r = 2 \<or> r = 6) \<and> mm_end e = st - 1 \<and> ys = as @ e\<lparr>mm_end := en\<rparr> # bs
     \<or> r = 4 \<and> mm_start e - 1 = en \<and> ys = as @ e\<lparr>mm_start := st\<rparr> # bs
     \<or> r = 7 \<and> mm_end e = st - 1 \<and> (\<exists>f cs. bs = f # cs \<and> mm_type f = ty \<and> mm_start f - 1 = en
             \<and> ys = as @ e\<lparr>mm_end := mm_end f\<rparr> # cs)"
    using m unfolding merged_def by blast
  have e: "seg_ok e" using ok xs by simp
  from c consider
    (fin) "r = 2 \<or> r = 6" "mm_end e = st - 1" "ys = as @ e\<lparr>mm_end := en\<rparr> # bs"
  | (front) "r = 4" "mm_start e - 1 = en" "ys = as @ e\<lparr>mm_start := st\<rparr> # bs"
  | (both) f cs where "r = 7" "mm_end e = st - 1" "bs = f # cs" "mm_type f = ty" "mm_start f - 1 = en"
      "ys = as @ e\<lparr>mm_end := mm_end f\<rparr> # cs"
    by blast
  then show ?thesis
  proof cases
    case fin
    note g = grow_end [OF e fin(2) n(1)]
    show ?thesis using ok n g(2,3) fin(1)
      by (simp add: fin(3) xs g(1) seg_ok_def del: seg_range_update) auto
  next
    case front
    note g = grow_start [OF e front(2) n]
    show ?thesis using ok n g(2,3)
      by (simp add: front(1,3) xs g(1) seg_ok_def del: seg_range_update) auto
  next
    case both
    have f: "seg_ok f" using ok xs both by simp
    note g = bridge [OF e f both(2,5) n]
    show ?thesis using ok n g(2,3)
      by (simp add: both(1,3,4,6) xs g(1) seg_ok_def del: seg_range_update) auto
  qed
qed

text \<open>
  No entry can take the range \<open>[st, en]\<close> up: no segment of its type starts behind it, and one that ends in front of it is
  followed in the table by another of the type that is not adjacent, a merge that the code misses.
\<close>

definition unmergeable :: "u32 \<Rightarrow> u32 \<Rightarrow> u32 \<Rightarrow> bootmm_info list \<Rightarrow> bool" where
  "unmergeable st en ty xs \<longleftrightarrow> (\<forall>i < length xs. mm_type (xs ! i) = ty \<longrightarrow> mm_start (xs ! i) - 1 \<noteq> en
     \<and> (mm_end (xs ! i) = st - 1 \<longrightarrow> Suc i < length xs \<and> mm_type (xs ! Suc i) = ty \<and> mm_start (xs ! Suc i) - 1 \<noteq> en))"

lemma insert_loop_none:
  "insert_loop mm i st en ty = None \<Longrightarrow> i \<le> j \<Longrightarrow> j < cnt_infos mm \<Longrightarrow> insert_step mm j st en ty = None"
proof (induction mm i st en ty rule: insert_loop.induct)
  case (1 mm i st en ty)
  have i: "i < cnt_infos mm" using 1(3,4) by simp
  then have n: "insert_step mm i st en ty = None" "insert_loop mm (Suc i) st en ty = None"
    using 1(2) by (auto simp: insert_loop.simps [of mm i] split: option.splits)
  show ?case using 1(1) [OF i n(1) n(2) _ 1(4)] n(1) 1(3) by (cases "i = j") auto
qed

lemma insert_loop_unmergeable:
  assumes "insert_loop mm 0 st en ty = None" "cnt_infos mm \<le> length (mm_info mm)"
  shows "unmergeable st en ty (segments mm)"
proof -
  have "insert_step mm j st en ty = None" if "j < cnt_infos mm" for j using insert_loop_none [OF assms(1) _ that] by simp
  moreover have "mm_type e = ty \<longrightarrow> mm_start e - 1 \<noteq> en \<and> (mm_end e = st - 1 \<longrightarrow> Suc j < cnt_infos mm
      \<and> mm_type (mm_info mm ! Suc j) = ty \<and> mm_start (mm_info mm ! Suc j) - 1 \<noteq> en)"
    if "insert_step mm j st en ty = None" "e = mm_info mm ! j" for j e
    using that by (auto simp: insert_step_def Let_def split: if_splits)
  ultimately show ?thesis using assms(2) by (simp add: unmergeable_def segments_def)
qed

text \<open>C28: insert_mminfo records exactly the new range: the addresses recorded for its type grow by the range, their number by its length, and the other types keep theirs. It extends a segment of the type that the range is adjacent to, in front, behind, or bridging the gap between two, and appends a new one only when no segment can take the range up (unmergeable), which counts as not mergeable also a segment in front that is followed in the table by another one of the type that is not adjacent. It returns 0 only when the table is full, changing nothing.\<close>

theorem insert_mminfo_correct:
  assumes ok: "bootmm_ok mm" and n: "st \<le> en" "en < - 1"
    and ins: "insert_mminfo mm st en ty = (r, mm')"
  shows "bootmm_ok mm' \<and> r \<in> {0, 1, 2, 4, 6, 7} \<and> (r = 0 \<longrightarrow> mm' = mm \<and> cnt_infos mm = MAX_INFO)
    \<and> (r \<noteq> 0 \<longrightarrow> recorded ty (segments mm') = recorded ty (segments mm) \<union> {unat st..unat en}
        \<and> recorded_size ty (segments mm') = recorded_size ty (segments mm) + (unat en - unat st + 1))
    \<and> (\<forall>t. t \<noteq> ty \<longrightarrow> recorded t (segments mm') = recorded t (segments mm))
    \<and> (if r \<in> {0, 1} then unmergeable st en ty (segments mm) \<and> (r = 1 \<longrightarrow> segments mm' = segments mm @ [set_mminfo st en ty])
       else merged r st en ty (segments mm) (segments mm'))"
proof (cases "insert_loop mm 0 st en ty")
  case (Some p)
  then have l: "insert_loop mm 0 st en ty = Some (r, mm')" using ins by (simp add: insert_mminfo_def)
  have "cnt_infos mm \<le> length (mm_info mm)" using ok by (simp add: bootmm_ok_def)
  note m = insert_loop_merged [OF l this]
  have "card {unat st..unat en} = unat en - unat st + 1" using n by (simp add: word_le_nat_alt)
  then show ?thesis
    using merged_recorded [of r st en ty "segments mm" "segments mm'"] m ok n
    by (auto simp: bootmm_ok_def)
next
  case None
  have u: "unmergeable st en ty (segments mm)" using insert_loop_unmergeable [OF None] ok by (simp add: bootmm_ok_def)
  have s: "segments (mm\<lparr>mm_info := (mm_info mm)[cnt_infos mm := x], cnt_infos := Suc (cnt_infos mm)\<rparr>)
      = segments mm @ [x]" if "cnt_infos mm < MAX_INFO" for x
    using ok that by (simp add: segments_def bootmm_ok_def take_Suc_conv_app_nth)
  show ?thesis
  proof (cases "MAX_INFO \<le> cnt_infos mm")
    case True
    then show ?thesis using None ins ok u by (auto simp: insert_mminfo_def bootmm_ok_def)
  next
    case False
    define mm1 where "mm1 = mm\<lparr>mm_info := (mm_info mm)[cnt_infos mm := set_mminfo st en ty],
      cnt_infos := Suc (cnt_infos mm)\<rparr>"
    have "mm' = mm1" "r = 1" using None ins False by (simp_all add: insert_mminfo_def mm1_def)
    moreover have "segments mm1 = segments mm @ [set_mminfo st en ty]"
      using s [of "set_mminfo st en ty"] False by (simp add: mm1_def)
    moreover have "bootmm_ok mm1"
      using ok False n calculation(3) by (simp add: bootmm_ok_def seg_ok_def mm1_def)
    ultimately show ?thesis using n u by (simp add: seg_range_def word_le_nat_alt)
  qed
qed

section \<open>Splitting a segment\<close>

lemma split_loop_correct:
  "1 \<le> index \<Longrightarrow> index \<le> Suc k \<Longrightarrow> Suc k < length xs \<Longrightarrow> length xs \<le> 2 ^ 31 \<Longrightarrow>
   split_loop xs (of_nat k) (of_nat index)
     = Some (take (Suc index) xs @ drop index (take (Suc k) xs) @ drop (Suc (Suc k)) xs)"
proof (induction k arbitrary: xs)
  case 0
  then have "index = 1" by simp
  then show ?case by (subst split_loop.simps) (simp add: word_le_nat_alt)
next
  case (Suc k)
  have "(of_nat (Suc k) + 1 :: u32) = of_nat (Suc (Suc k))" by simp
  then have u: "unat (of_nat (Suc k) :: u32) = Suc k" "unat (of_nat (Suc k) + 1 :: u32) = Suc (Suc k)"
    "unat (of_nat index :: u32) = index"
    using Suc.prems by (auto intro!: unat_of_nat_u32 simp del: of_nat_Suc)
  show ?case
  proof (cases "index \<le> Suc k")
    case False
    then have "index = Suc (Suc k)" using Suc.prems by simp
    moreover have "split_loop xs (of_nat (Suc k)) (of_nat index) = Some xs"
      using False u by (subst split_loop.simps) (simp add: word_le_nat_alt)
    moreover have "drop index (take (Suc (Suc k)) xs) = []" using calculation by simp
    ultimately show ?thesis by (simp only: append_Nil append_take_drop_id)
  next
    case True
    define ys where "ys = xs[Suc (Suc k) := xs ! Suc k]"
    have p: "of_nat (Suc k) - 1 = (of_nat k :: u32)" by simp
    have "split_loop xs (of_nat (Suc k)) (of_nat index) = split_loop ys (of_nat k) (of_nat index)"
      using True u Suc.prems
      by (subst split_loop.simps) (simp add: word_le_nat_alt p ys_def del: of_nat_Suc)
    also have "\<dots> = Some (take (Suc index) ys @ drop index (take (Suc k) ys) @ drop (Suc (Suc k)) ys)"
      using Suc.prems True by (intro Suc.IH) (simp_all add: ys_def)
    also have "take (Suc index) ys = take (Suc index) xs" using True by (simp add: ys_def)
    also have "take (Suc k) ys = take (Suc k) xs" by (simp add: ys_def)
    also have "drop (Suc (Suc k)) ys = xs ! Suc k # drop (Suc (Suc (Suc k))) xs"
      using Suc.prems Cons_nth_drop_Suc [of "Suc (Suc k)" ys] by (simp add: ys_def)
    finally show ?thesis
      using Suc.prems True by (simp add: take_Suc_conv_app_nth [of "Suc k"])
  qed
qed

theorem split_mminfo_correct:
  assumes ok: "bootmm_ok mm" and ix: "0 < index" "index < cnt_infos mm" "cnt_infos mm < MAX_INFO"
    and e: "e = mm_info mm ! index" and s: "s = split_start AND PAGE_ALIGN"
    and r: "mm_start e < s" "s < mm_end e"
  shows "\<exists>mm'. split_mminfo mm index split_start = Some (1, mm') \<and>
    segments mm' = take index (segments mm) @ [e\<lparr>mm_end := s - 1\<rparr>, e\<lparr>mm_start := s\<rparr>]
      @ drop (Suc index) (segments mm)"
proof -
  define n where "n = cnt_infos mm"
  define xs where "xs = mm_info mm"
  have n: "n < length xs" "length xs = 10" "0 < n" "index < n"
    using ok ix by (auto simp: bootmm_ok_def MAX_INFO_def n_def xs_def)
  define ys where "ys = take (Suc index) xs @ drop index (take n xs) @ drop (Suc n) xs"
  have "split_loop xs (of_nat (n - 1)) (of_nat index) = Some ys"
    using n ix split_loop_correct [of index "n - 1" xs] by (simp add: ys_def)
  moreover have "(of_nat (n - 1) :: u32) = of_nat n - 1" using n by (simp add: of_nat_diff)
  ultimately have l: "split_loop xs (of_nat n - 1) (of_nat index) = Some ys" by simp
  have i: "take (Suc index) xs = take index xs @ [e]" "drop index (take n xs) = e # drop (Suc index) (take n xs)"
    using n ix Cons_nth_drop_Suc [of index "take n xs"]
    by (simp_all add: e xs_def take_Suc_conv_app_nth)
  have ys: "ys = take index xs @ e # e # drop (Suc index) (take n xs) @ drop (Suc n) xs"
    by (simp add: ys_def i)
  define zs where "zs = (ys[index := (ys ! index)\<lparr>mm_end := s - 1\<rparr>])"
  have zs: "zs = take index xs @ e\<lparr>mm_end := s - 1\<rparr> # e # drop (Suc index) (take n xs) @ drop (Suc n) xs"
    using n by (simp add: zs_def ys list_update_append nth_append)
  have y: "xs ! index = e" "ys ! index = e" "ys ! Suc index = e"
    using n by (simp_all add: e xs_def ys nth_append)
  have ws: "zs[Suc index := e\<lparr>mm_start := s\<rparr>] = take index xs
    @ e\<lparr>mm_end := s - 1\<rparr> # e\<lparr>mm_start := s\<rparr> # drop (Suc index) (take n xs) @ drop (Suc n) xs"
    using n by (simp add: zs list_update_append nth_append)
  have "split_mminfo mm index split_start = Some (1, mm\<lparr>mm_info := take index xs
    @ e\<lparr>mm_end := s - 1\<rparr> # e\<lparr>mm_start := s\<rparr> # drop (Suc index) (take n xs) @ drop (Suc n) xs,
      cnt_infos := Suc n\<rparr>)"
    using r ix(3) l ws
    by (simp add: split_mminfo_def Let_def s [symmetric] n_def [symmetric] y
        xs_def [symmetric] zs_def not_le)
  moreover define zs' where "zs' = take index xs @ [e\<lparr>mm_end := s - 1\<rparr>, e\<lparr>mm_start := s\<rparr>]
    @ drop (Suc index) (take n xs)"
  then have "length zs' = Suc n" using n by simp
  then have "take (Suc n) (zs' @ drop (Suc n) xs) = zs'" by simp
  then have "take (Suc n) (take index xs @ e\<lparr>mm_end := s - 1\<rparr> # e\<lparr>mm_start := s\<rparr>
    # drop (Suc index) (take n xs) @ drop (Suc n) xs) = zs'"
    by (simp only: zs'_def append_assoc append_Cons append_Nil)
  ultimately show ?thesis using n by (simp add: segments_def n_def xs_def zs'_def min_def)
qed

text \<open>Splitting the first segment never succeeds: the unsigned loop counter passes 0.\<close>

lemma split_loop_zero: "unat tmp < length xs \<Longrightarrow> length xs < 2 ^ 31 \<Longrightarrow> split_loop xs tmp 0 = None"
proof (induction "unat tmp" arbitrary: tmp xs)
  case 0
  then have [simp]: "tmp = 0" by (simp add: unat_eq_0)
  show ?case
    using 0 by (subst split_loop.simps, subst split_loop.simps)
      (auto simp: c_guard_def split: bind_splits)
next
  case (Suc k)
  then have k: "k = unat (tmp - 1)" by unat_arith
  show ?case using Suc by (subst split_loop.simps) (auto simp: c_guard_def k split: bind_splits)
qed

text \<open>Splitting the first segment never returns: the unsigned counter of the copying loop passes 0
  and the loop goes on outside the table.\<close>

theorem split_mminfo_first_segment:
  assumes "bootmm_ok mm" and "0 < cnt_infos mm" and "cnt_infos mm < MAX_INFO"
    and "s = split_start AND PAGE_ALIGN"
    and "mm_start (mm_info mm ! 0) < s" and "s < mm_end (mm_info mm ! 0)"
  shows "split_mminfo mm 0 split_start = None"
proof -
  have "(of_nat (cnt_infos mm) - 1 :: u32) = of_nat (cnt_infos mm - 1)"
    using assms(2) by (simp add: of_nat_diff)
  then have "unat (of_nat (cnt_infos mm) - 1 :: u32) = cnt_infos mm - 1"
    using assms(3) by (simp only: unat_of_nat) (simp add: MAX_INFO_def)
  then have "split_loop (mm_info mm) (of_nat (cnt_infos mm) - 1) 0 = None"
    using assms(1-3) by (intro split_loop_zero) (simp_all add: bootmm_ok_def MAX_INFO_def)
  then show ?thesis using assms by (auto simp: split_mminfo_def Let_def)
qed

section \<open>Finding pages\<close>

definition free_run :: "(nat \<Rightarrow> u8) \<Rightarrow> nat \<Rightarrow> nat \<Rightarrow> nat \<Rightarrow> bool" where
  "free_run m n e i \<longleftrightarrow> i + n \<le> e \<and> (\<forall>p. i \<le> p \<and> p < i + n \<longrightarrow> m p = PAGE_FREE)"

definition map_bytes :: "(nat \<Rightarrow> u8) \<Rightarrow> nat \<Rightarrow> bool" where
  "map_bytes m e \<longleftrightarrow> (\<forall>p < e. m p = PAGE_FREE \<or> m p = PAGE_USED)"

lemma FREE_neq_USED [simp]: "PAGE_FREE \<noteq> PAGE_USED" "PAGE_USED \<noteq> PAGE_FREE"
  by (simp_all add: PAGE_FREE_def PAGE_USED_def)

lemma set_maps_loop_eq:
  "set_maps_loop s n v m = (\<lambda>p. if s \<le> p \<and> p < s + n then v else m p)"
proof (induction n arbitrary: s m)
  case 0
  then show ?case by (auto simp: fun_eq_iff)
next
  case (Suc n)
  then show ?case by (auto simp: fun_eq_iff)
qed

text \<open>The inner loop ends, and says how far the run of free pages reaches.\<close>

lemma find_run_spec:
  "map_bytes m e \<Longrightarrow> \<exists>r. find_run m e cnt tmp = Some r \<and>
     (case r of
        Inl _ \<Rightarrow> e < tmp + cnt
      | Inr (c, t) \<Rightarrow> tmp \<le> t \<and> (\<forall>p. tmp \<le> p \<and> p < t \<longrightarrow> m p = PAGE_FREE) \<and> t + c = tmp + cnt
          \<and> (0 < c \<longrightarrow> m t = PAGE_USED) \<and> (c = 0 \<longrightarrow> tmp \<le> e \<longrightarrow> t \<le> e))"
proof (induction cnt arbitrary: tmp)
  case 0
  then show ?case by (subst find_run.simps) auto
next
  case (Suc cnt)
  show ?case
  proof (cases "e \<le> tmp")
    case True
    then show ?thesis by (subst find_run.simps) simp
  next
    case False
    show ?thesis
    proof (cases "m tmp = PAGE_FREE")
      case used: False
      then have "m tmp = PAGE_USED" using Suc.prems False unfolding map_bytes_def by (meson not_le)
      then show ?thesis using False by (subst find_run.simps) auto
    next
      case free: True
      show ?thesis
      proof (cases "m (Suc tmp) = PAGE_USED")
        case True
        have "find_run m e (Suc cnt) tmp = Some (Inr (cnt, Suc tmp))"
          using True False free by (subst find_run.simps) (simp add: Let_def)
        then show ?thesis using True False free by (auto simp: le_less_Suc_eq)
      next
        case nused: False
        have eq: "find_run m e (Suc cnt) tmp = find_run m e cnt (Suc tmp)"
          using nused False free by (subst find_run.simps) (simp add: Let_def)
        have "p = tmp \<or> Suc tmp \<le> p" if "tmp \<le> p" for p using that by auto
        then show ?thesis using Suc.IH [OF Suc.prems, of "Suc tmp"] eq free False
          by (fastforce split: sum.splits)
      qed
    qed
  qed
qed

text \<open>The result of the search: the first index with property \<open>P\<close>, or failure.\<close>

definition fit_result :: "bootmm \<Rightarrow> nat \<Rightarrow> (nat \<Rightarrow> bool) \<Rightarrow> (u32 \<times> bootmm) option" where
  "fit_result mm n P =
    (if Ex P then Some (push_bit PAGE_SHIFT (of_nat (Least P)),
         set_maps (Least P) n PAGE_USED (mm\<lparr>last_alloc_end := of_nat (Least P + n) - 1\<rparr>))
     else Some (0, mm))"

lemma fit_result_none: "(\<And>i. \<not> P i) \<Longrightarrow> fit_result mm n P = Some (0, mm)"
  by (auto simp: fit_result_def)

lemma fit_result_some:
  "P i \<Longrightarrow> (\<And>j. P j \<Longrightarrow> i \<le> j) \<Longrightarrow> fit_result mm n P = Some (push_bit PAGE_SHIFT (of_nat i),
     set_maps i n PAGE_USED (mm\<lparr>last_alloc_end := of_nat (i + n) - 1\<rparr>))"
proof -
  assume a: "P i" "\<And>j. P j \<Longrightarrow> i \<le> j"
  then have "Least P = i" by (rule Least_equality)
  then show ?thesis using a(1) unfolding fit_result_def by auto
qed

theorem find_pages_loop_correct:
  assumes "map_bytes (s_map mm) e" and "0 < n"
  shows "find_pages_loop n s e mm = fit_result mm n (\<lambda>i. s \<le> i \<and> free_run (s_map mm) n e i)"
proof (induction "e - s" arbitrary: s rule: less_induct)
  case less
  let ?m = "s_map mm"
  have step: ?case if "s < t" "find_pages_loop n s e mm = find_pages_loop n t e mm" "s < e"
    "\<And>i. s \<le> i \<Longrightarrow> free_run ?m n e i \<Longrightarrow> t \<le> i" for t
  proof -
    have "(\<lambda>i. s \<le> i \<and> free_run ?m n e i) = (\<lambda>i. t \<le> i \<and> free_run ?m n e i)"
      using that by (auto simp: fun_eq_iff)
    moreover have "e - t < e - s" using that by simp
    ultimately show ?thesis using less [of t] that(2) by (simp only:)
  qed
  show ?case
  proof (cases "e \<le> s")
    case True
    then have "\<not> (s \<le> i \<and> free_run ?m n e i)" for i using assms(2) by (auto simp: free_run_def)
    then have "fit_result mm n (\<lambda>i. s \<le> i \<and> free_run ?m n e i) = Some (0, mm)"
      by (rule fit_result_none)
    then show ?thesis using True by (subst find_pages_loop.simps) simp
  next
    case False
    show ?thesis
    proof (cases "?m s = PAGE_USED")
      case True
      have "Suc s \<le> i" if "s \<le> i" "free_run ?m n e i" for i
        using that True assms(2) by (cases "i = s") (auto simp: free_run_def)
      moreover have "find_pages_loop n s e mm = find_pages_loop n (Suc s) e mm"
        using True False by (subst find_pages_loop.simps) simp
      ultimately show ?thesis using step [of "Suc s"] False by simp
    next
      case nused: False
      obtain r where r: "find_run ?m e n s = Some r" and c: "case r of
        Inl _ \<Rightarrow> e < s + n
      | Inr (c, t) \<Rightarrow> s \<le> t \<and> (\<forall>p. s \<le> p \<and> p < t \<longrightarrow> ?m p = PAGE_FREE) \<and> t + c = s + n
          \<and> (0 < c \<longrightarrow> ?m t = PAGE_USED) \<and> (c = 0 \<longrightarrow> s \<le> e \<longrightarrow> t \<le> e)"
        using find_run_spec [OF assms(1), of n s] by blast
      show ?thesis
      proof (cases r)
        case (Inl u)
        then have "\<not> (s \<le> i \<and> free_run ?m n e i)" for i using c by (auto simp: free_run_def)
        then have "fit_result mm n (\<lambda>i. s \<le> i \<and> free_run ?m n e i) = Some (0, mm)"
          by (rule fit_result_none)
        moreover have "find_pages_loop n s e mm = Some (0, mm)"
          using False nused r Inl by (subst find_pages_loop.simps) simp
        ultimately show ?thesis by simp
      next
        case (Inr ct)
        obtain cn t where ct: "ct = (cn, t)" by (cases ct)
        show ?thesis
        proof (cases "cn = 0")
          case True
          then have fr: "free_run ?m n e s" "t = s + n" using c Inr ct False by (auto simp: free_run_def)
          then have "fit_result mm n (\<lambda>i. s \<le> i \<and> free_run ?m n e i) = Some (push_bit PAGE_SHIFT
              (of_nat s), set_maps s n PAGE_USED (mm\<lparr>last_alloc_end := of_nat (s + n) - 1\<rparr>))"
            by (intro fit_result_some) auto
          moreover have "find_pages_loop n s e mm = Some (push_bit PAGE_SHIFT (of_nat s),
                   set_maps s n PAGE_USED (mm\<lparr>last_alloc_end := of_nat (s + n) - 1\<rparr>))"
            using False nused r Inr ct True fr by (subst find_pages_loop.simps) simp
          ultimately show ?thesis by simp
        next
          case cn: False
          have u: "?m t = PAGE_USED" "s \<le> t" "t < s + n" "s \<noteq> t"
            using cn c Inr ct nused by auto
          have "t < i" if "s \<le> i" "free_run ?m n e i" for i
          proof (rule ccontr)
            assume "\<not> t < i"
            then have "i \<le> t" "t < i + n" using u that by auto
            then show False using that u(1) by (auto simp: free_run_def)
          qed
          moreover have "find_pages_loop n s e mm = find_pages_loop n t e mm"
            using False nused r Inr ct cn by (subst find_pages_loop.simps) simp
          ultimately show ?thesis using step [of t] u False by (simp add: less_imp_le)
        qed
      qed
    qed
  qed
qed

text \<open>
  The state \<open>find_pages\<close> relies on: the map is at most \<open>2 ^ 20\<close> pages, all its bytes are free
  or used, and page 0, whose address is also the failure result, is used.
\<close>

definition boot_map_ok :: "bootmm \<Rightarrow> bool" where
  "boot_map_ok mm \<longleftrightarrow> unat (max_pfn mm) \<le> 2 ^ 20 \<and> last_alloc_end mm < max_pfn mm
     \<and> map_bytes (s_map mm) (unat (max_pfn mm)) \<and> s_map mm 0 = PAGE_USED"

lemma page_address: "i < 2 ^ 20 \<Longrightarrow> unat (push_bit PAGE_SHIFT (of_nat i) :: u32) = i * 4096"
  by (simp only: PAGE_SHIFT_def unsigned_push_bit_eq unat_of_nat)
    (simp add: push_bit_eq_mult take_bit_eq_mod)

lemma find_pages_cases:
  assumes "boot_map_ok mm" and "0 < unat n" and "unat e \<le> unat (max_pfn mm)"
  obtains (none) "find_pages n s e mm = Some (0, mm)"
      "\<And>i. unat s \<le> i \<Longrightarrow> \<not> free_run (s_map mm) (unat n) (unat e) i"
  | (some) i where "find_pages n s e mm = Some (of_nat (i * 4096),
        set_maps i (unat n) PAGE_USED (mm\<lparr>last_alloc_end := of_nat (i + unat n) - 1\<rparr>))"
      "unat s \<le> i" "free_run (s_map mm) (unat n) (unat e) i" "0 < i" "i < 2 ^ 20"
      "\<And>j. unat s \<le> j \<Longrightarrow> free_run (s_map mm) (unat n) (unat e) j \<Longrightarrow> i \<le> j"
proof -
  have b: "map_bytes (s_map mm) (unat e)" using assms by (auto simp: boot_map_ok_def map_bytes_def)
  let ?P = "\<lambda>i. unat s \<le> i \<and> free_run (s_map mm) (unat n) (unat e) i"
  have f: "find_pages n s e mm = fit_result mm (unat n) ?P"
    using find_pages_loop_correct [OF b assms(2), of "unat s"] by (simp only: find_pages_def)
  show thesis
  proof (cases "\<exists>i. ?P i")
    case False
    then show thesis using none f fit_result_none [of ?P mm "unat n"] by auto
  next
    case True
    define i where "i = (LEAST i. ?P i)"
    have i: "?P i" unfolding i_def using True by (rule LeastI_ex)
    have l: "i \<le> j" if "?P j" for j unfolding i_def using that by (rule Least_le)
    have "s_map mm i = PAGE_FREE" using i assms(2) by (simp add: free_run_def)
    then have i0: "0 < i" using assms(1) by (cases "i = 0") (auto simp: boot_map_ok_def)
    have i20: "i < 2 ^ 20" using i assms by (auto simp: free_run_def boot_map_ok_def)
    have "find_pages n s e mm = Some (push_bit PAGE_SHIFT (of_nat i),
        set_maps i (unat n) PAGE_USED (mm\<lparr>last_alloc_end := of_nat (i + unat n) - 1\<rparr>))"
      unfolding f using i l by (rule fit_result_some)
    then show thesis using some [of i] i l i0 i20
      by (simp add: PAGE_SHIFT_def push_bit_eq_mult)
  qed
qed

lemma drop_page_align: "drop_bit PAGE_SHIFT (w AND PAGE_ALIGN) = drop_bit PAGE_SHIFT w"
proof -
  have m: "PAGE_ALIGN = NOT (mask 12)" by (simp add: PAGE_ALIGN_def mask_eq_exp_minus_1)
  show ?thesis
  proof (rule bit_word_eqI)
    fix i
    show "bit (drop_bit PAGE_SHIFT (w AND PAGE_ALIGN)) i = bit (drop_bit PAGE_SHIFT w) i"
      using bit_imp_le_length [of w "12 + i"] unfolding m by (auto simp: PAGE_SHIFT_def bit_simps)
  qed
qed

definition pages_of :: "u32 \<Rightarrow> nat" where
  "pages_of sz = (unat sz + 4095) div 4096"

lemma size_inpages:
  assumes "unat sz + 4095 < 2 ^ 32"
  shows "unat (drop_bit PAGE_SHIFT ((sz + (push_bit PAGE_SHIFT 1 - 1)) AND PAGE_ALIGN)) = pages_of sz"
proof -
  have "unat (sz + 4095) = unat sz + 4095" using assms by (simp add: unat_plus_if')
  then show ?thesis
    by (subst drop_page_align) (simp add: PAGE_SHIFT_def unsigned_drop_bit_eq drop_bit_eq_div pages_of_def unat_div)
qed

lemma set_maps_sel [simp]:
  "s_map (set_maps i n v mm) = (\<lambda>p. if i \<le> p \<and> p < i + n then v else s_map mm p)"
  "last_alloc_end (set_maps i n v mm) = last_alloc_end mm" "max_pfn (set_maps i n v mm) = max_pfn mm"
  by (simp_all add: set_maps_def set_maps_loop_eq)

lemma remove_mminfo_sel [simp]:
  "s_map (remove_mminfo mm i) = s_map mm" "last_alloc_end (remove_mminfo mm i) = last_alloc_end mm"
  "max_pfn (remove_mminfo mm i) = max_pfn mm"
  by (simp_all add: remove_mminfo_def)

lemma insert_step_sel:
  "insert_step mm i st en ty = Some (r, mm') \<Longrightarrow>
   s_map mm' = s_map mm \<and> last_alloc_end mm' = last_alloc_end mm \<and> max_pfn mm' = max_pfn mm"
  by (auto simp: insert_step_def Let_def split: if_splits)

lemma insert_loop_sel:
  "insert_loop mm i st en ty = Some (r, mm') \<Longrightarrow>
   s_map mm' = s_map mm \<and> last_alloc_end mm' = last_alloc_end mm \<and> max_pfn mm' = max_pfn mm"
proof (induction mm i st en ty rule: insert_loop.induct)
  case (1 mm i st en ty)
  then show ?case
    by (cases "i < cnt_infos mm"; cases "insert_step mm i st en ty")
      (simp_all add: insert_loop.simps [of mm i] insert_step_sel)
qed

lemma insert_mminfo_sel [simp]:
  "s_map (snd (insert_mminfo mm st en ty)) = s_map mm"
  "last_alloc_end (snd (insert_mminfo mm st en ty)) = last_alloc_end mm"
  "max_pfn (snd (insert_mminfo mm st en ty)) = max_pfn mm"
  using insert_loop_sel [of mm 0 st en ty]
  by (auto simp: insert_mminfo_def split: option.splits)

lemma found_ok:
  assumes "boot_map_ok mm" and "free_run (s_map mm) n (unat e) i" and "0 < n" and "0 < i"
    and "unat e \<le> unat (max_pfn mm)"
    and "mm' = set_maps i n PAGE_USED (mm\<lparr>last_alloc_end := of_nat (i + n) - 1\<rparr>)"
  shows "boot_map_ok mm'"
proof -
  have "(of_nat (i + n) - 1 :: u32) = of_nat (i + n - 1)" using assms(3) by (simp add: of_nat_diff)
  moreover have "i + n \<le> unat (max_pfn mm)" using assms by (simp add: free_run_def)
  moreover have "unat (max_pfn mm) \<le> 2 ^ 20" using assms by (simp add: boot_map_ok_def)
  moreover have "unat (of_nat (i + n - 1) :: u32) = i + n - 1"
    using calculation by (intro unat_of_nat_u32) simp
  ultimately have "unat (of_nat (i + n) - 1 :: u32) < unat (max_pfn mm)"
    using assms(3) by simp
  then show ?thesis using assms by (auto simp: boot_map_ok_def map_bytes_def word_less_nat_alt)
qed

text \<open>\<open>bootmm_alloc_pages\<close> always returns: either 0, with the page map unchanged and no free run
  that long on either side of the last allocation, or the address of a run of free pages, exactly
  which are marked used.\<close>

theorem bootmm_alloc_pages_correct:
  assumes ok: "boot_map_ok mm" and sz: "0 < unat sz" "unat sz + 4095 < 2 ^ 32"
  shows "\<exists>res mm'. bootmm_alloc_pages sz ty mm = Some (res, mm') \<and> boot_map_ok mm' \<and>
    (if res = 0
     then s_map mm' = s_map mm \<and>
       (\<forall>i. free_run (s_map mm) (pages_of sz) (unat (max_pfn mm)) i \<longrightarrow>
          i \<le> unat (last_alloc_end mm) \<and> unat (last_alloc_end mm) < i + pages_of sz)
     else \<exists>i. res = of_nat (i * 4096) \<and> 0 < i
       \<and> free_run (s_map mm) (pages_of sz) (unat (max_pfn mm)) i
       \<and> s_map mm' = (\<lambda>p. if i \<le> p \<and> p < i + pages_of sz then PAGE_USED else s_map mm p))"
proof -
  define n where "n = drop_bit PAGE_SHIFT ((sz + (push_bit PAGE_SHIFT 1 - 1)) AND PAGE_ALIGN)"
  define asz where "asz = (sz + (push_bit PAGE_SHIFT 1 - 1)) AND PAGE_ALIGN"
  have alloc: "bootmm_alloc_pages sz ty mm = do {
     (res, mm) \<leftarrow> find_pages n (last_alloc_end mm + 1) (max_pfn mm) mm;
     if res \<noteq> 0 then Some (res, snd (insert_mminfo mm res (res + asz - 1) ty))
     else do {
       (res, mm) \<leftarrow> find_pages n 0 (last_alloc_end mm) mm;
       if res \<noteq> 0 then Some (res, snd (insert_mminfo mm res (res + asz - 1) ty))
       else Some (0, mm)
     }
   }"
    unfolding bootmm_alloc_pages_def n_def asz_def Let_def by (rule refl)
  have n: "unat n = pages_of sz" "0 < unat n"
    using size_inpages [OF sz(2)] sz(1) by (simp_all add: n_def pages_of_def)
  have l: "unat (last_alloc_end mm) < unat (max_pfn mm)" "unat (max_pfn mm) \<le> 2 ^ 20"
    using ok by (simp_all add: boot_map_ok_def word_less_nat_alt)
  then have l1: "unat (last_alloc_end mm + 1) = unat (last_alloc_end mm) + 1"
    by (simp add: unat_plus_if')
  have nz: "(of_nat (i * 4096) :: u32) \<noteq> 0" if "0 < i" "i < 2 ^ 20" for i
  proof -
    have "unat (of_nat (i * 4096) :: u32) = i * 4096" using that by (intro unat_of_nat_u32) simp
    then show ?thesis using that by (metis mult_eq_0_iff neq0_conv unat_0 zero_neq_numeral)
  qed
  have grant: ?thesis if f: "find_pages n s e mm = Some (of_nat (i * 4096),
        set_maps i (unat n) PAGE_USED (mm\<lparr>last_alloc_end := of_nat (i + unat n) - 1\<rparr>))"
      and a: "bootmm_alloc_pages sz ty mm = Some (of_nat (i * 4096), snd (insert_mminfo
        (set_maps i (unat n) PAGE_USED (mm\<lparr>last_alloc_end := of_nat (i + unat n) - 1\<rparr>))
        (of_nat (i * 4096)) (of_nat (i * 4096) + asz - 1) ty))"
      and fr: "free_run (s_map mm) (unat n) (unat e) i" and e: "unat e \<le> unat (max_pfn mm)"
      and i: "0 < i" "i < 2 ^ 20" for s e i
  proof -
    let ?m = "set_maps i (unat n) PAGE_USED (mm\<lparr>last_alloc_end := of_nat (i + unat n) - 1\<rparr>)"
    have "boot_map_ok ?m" using found_ok [OF ok fr n(2) i(1) e refl] .
    then have "boot_map_ok (snd (insert_mminfo ?m (of_nat (i * 4096)) (of_nat (i * 4096) + asz - 1) ty))" by (simp add: boot_map_ok_def)
    moreover have "free_run (s_map mm) (pages_of sz) (unat (max_pfn mm)) i"
      using fr e n by (simp add: free_run_def)
    moreover define m2 where "m2 = snd (insert_mminfo ?m (of_nat (i * 4096)) (of_nat (i * 4096) + asz - 1) ty)"
    moreover have "s_map m2 = (\<lambda>p. if i \<le> p \<and> p < i + pages_of sz then PAGE_USED else s_map mm p)"
      by (simp add: m2_def n(1) fun_eq_iff)
    ultimately show ?thesis using a nz [OF i] i(1)
      by (intro exI [of _ "of_nat (i * 4096)"] exI [of _ m2]) (simp only: if_False simp_thms, blast)
  qed
  show ?thesis
  proof (cases rule: find_pages_cases [OF ok n(2) order_refl, of "last_alloc_end mm + 1"])
    case (2 i)
    show ?thesis
      by (rule grant [OF 2(1) _ 2(3) order_refl 2(4,5)])
        (simp only: alloc 2(1) nz [OF 2(4,5)] bind.bind_lunit prod.case if_True simp_thms)
  next
    case 1
    note none1 = 1
    show ?thesis
    proof (cases rule: find_pages_cases [OF ok n(2) less_imp_le [OF l(1)], of 0])
      case (2 i)
      show ?thesis
        by (rule grant [OF 2(1) _ 2(3) less_imp_le [OF l(1)] 2(4,5)])
          (simp only: alloc none1(1) 2(1) nz [OF 2(4,5)] bind.bind_lunit prod.case if_True if_False simp_thms)
    next
      case 1
      have "bootmm_alloc_pages sz ty mm = Some (0, mm)"
        by (simp add: alloc 1(1) none1(1))
      moreover have "i \<le> unat (last_alloc_end mm) \<and> unat (last_alloc_end mm) < i + pages_of sz"
        if fr: "free_run (s_map mm) (pages_of sz) (unat (max_pfn mm)) i" for i
        using none1(2) [of i] 1(2) [of i] fr n l1 by (cases "i \<le> unat (last_alloc_end mm)") (auto simp: free_run_def not_le)
      ultimately show ?thesis using ok by auto
    qed
  qed
qed

theorem init_bootmm_ok:
  "boot_map_ok (init_bootmm mem) \<and> bootmm_ok (init_bootmm mem)
   \<and> recorded MM_KERNEL (segments (init_bootmm mem)) = {0..<16 * 1024 * 1024}
   \<and> (\<forall>p < 32768. s_map (init_bootmm mem) p = (if p < 4096 then PAGE_USED else PAGE_FREE))"
proof -
  define b where "b = \<lparr>phymm = get_phymm_size, max_pfn = drop_bit PAGE_SHIFT get_phymm_size,
    s_map = set_maps_loop 0 (unat (drop_bit PAGE_SHIFT MACHINE_MMSIZE)) PAGE_FREE mem,
    last_alloc_end = 0, cnt_infos = 0, mm_info = replicate MAX_INFO (set_mminfo 0 0 0)\<rparr>"
  define i where "i = insert_mminfo b 0 (16 * 1024 * 1024 - 1) MM_KERNEL"
  have pages: "drop_bit PAGE_SHIFT MACHINE_MMSIZE = (32768 :: u32)"
    "drop_bit PAGE_SHIFT 16777216 = (4096 :: u32)"
    by (simp_all add: PAGE_SHIFT_def MACHINE_MMSIZE_def)
  have "i = (1, b\<lparr>mm_info := (mm_info b)[0 := set_mminfo 0 (16 * 1024 * 1024 - 1) MM_KERNEL],
      cnt_infos := 1\<rparr>)"
    by (simp add: i_def insert_mminfo_def insert_loop.simps b_def MAX_INFO_def)
  moreover have "init_bootmm mem = set_maps 0 4096 PAGE_USED ((snd i)\<lparr>last_alloc_end := 4095\<rparr>)"
    by (simp add: init_bootmm_def i_def b_def Let_def pages)
  ultimately have m: "init_bootmm mem = set_maps 0 4096 PAGE_USED
     (b\<lparr>mm_info := (mm_info b)[0 := set_mminfo 0 (16 * 1024 * 1024 - 1) MM_KERNEL],
      cnt_infos := 1, last_alloc_end := 4095\<rparr>)"
    by simp
  have one: "take (Suc 0) ((replicate MAX_INFO x)[0 := y]) = [y]" for x y :: bootmm_info
    by (simp add: MAX_INFO_def numeral_eq_Suc)
  have seg: "segments (init_bootmm mem) = [set_mminfo 0 (16 * 1024 * 1024 - 1) MM_KERNEL]"
    using one by (simp add: m b_def segments_def set_maps_def)
  have "mm_info (init_bootmm mem) = (mm_info b)[0 := set_mminfo 0 (16 * 1024 * 1024 - 1) MM_KERNEL]"
    "cnt_infos (init_bootmm mem) = 1"
    by (simp_all add: m set_maps_def)
  then have "bootmm_ok (init_bootmm mem)"
    by (simp add: bootmm_ok_def seg seg_ok_def b_def MAX_INFO_def)
  moreover have "recorded MM_KERNEL (segments (init_bootmm mem)) = {0..<16 * 1024 * 1024}"
    by (auto simp add: seg seg_range_def)
  ultimately show ?thesis
    by (simp add: m b_def pages set_maps_loop_eq boot_map_ok_def map_bytes_def get_phymm_size_def)
qed

text \<open>The state after \<open>init_bootmm\<close> serves as the example.\<close>

abbreviation sample_bootmm :: bootmm where
  "sample_bootmm \<equiv> init_bootmm (\<lambda>_. 0)"

lemma sample_bootmm_segments:
  "cnt_infos sample_bootmm = 1" "mm_info sample_bootmm ! 0 = set_mminfo 0 0xFFFFFF MM_KERNEL"
  by (simp_all add: init_bootmm_def insert_mminfo_def insert_loop.simps set_maps_def MAX_INFO_def Let_def)

text \<open>The range behind the first segment is merged with it.\<close>

theorem insert_mminfo_correct_witness:
  "\<exists>mm'. insert_mminfo sample_bootmm 0x1000000 0x1000FFF MM_KERNEL = (6, mm') \<and> bootmm_ok mm' \<and> length (segments mm') = 1"
proof -
  have l: "0 < length (mm_info sample_bootmm)" "bootmm_ok sample_bootmm" using conjunct1 [OF conjunct2 [OF init_bootmm_ok]] by (simp_all add: bootmm_ok_def MAX_INFO_def)
  have r: "fst (insert_mminfo sample_bootmm 0x1000000 0x1000FFF MM_KERNEL) = 6"
    using sample_bootmm_segments by (simp add: insert_mminfo_def insert_loop.simps insert_step_def Let_def)
  then obtain mm' where i: "insert_mminfo sample_bootmm 0x1000000 0x1000FFF MM_KERNEL = (6, mm')" by (metis prod.collapse)
  have m: "bootmm_ok mm'" "merged 6 0x1000000 0x1000FFF MM_KERNEL (segments sample_bootmm) (segments mm')"
    using insert_mminfo_correct [OF l(2) _ _ i] by simp_all
  then have "length (segments mm') = length (segments sample_bootmm)" by (auto simp: merged_def)
  also have "\<dots> = 1" using sample_bootmm_segments(1) l(1) by (cases "mm_info sample_bootmm") (simp_all add: segments_def)
  finally show ?thesis using i m(1) by blast
qed

theorem bootmm_alloc_pages_correct_witness:
  "\<exists>res mm'. bootmm_alloc_pages 8192 5 sample_bootmm = Some (res, mm') \<and> boot_map_ok mm'"
  using bootmm_alloc_pages_correct [OF conjunct1 [OF init_bootmm_ok], of 8192 5 "\<lambda>_. 0"] by auto

theorem split_mminfo_first_segment_witness: "split_mminfo sample_bootmm 0 0x2000 = None"
  by (rule split_mminfo_first_segment [OF conjunct1 [OF conjunct2 [OF init_bootmm_ok]] _ _ refl])
    (simp_all add: sample_bootmm_segments MAX_INFO_def PAGE_ALIGN_def)

end
