(* ===== verification/Lock.thy ===== *)
theory Lock
  imports Prelude
begin

text \<open>
  \<open>kernel/lock/lock.c\<close>. The calls that would disable the interrupts are commented out in the
  source and the branches on the uninitialised \<open>old_ie\<close> are empty, so a lock is a flag that
  is set and cleared and that no caller waits for.
\<close>

record lock_t = spin :: u32

definition init_lock :: "lock_t \<Rightarrow> lock_t" where
  "init_lock l = l\<lparr>spin := 0\<rparr>"

definition lockup :: "lock_t \<Rightarrow> u32 \<times> lock_t" where
  "lockup l = (1, l\<lparr>spin := 1\<rparr>)"

definition unlock :: "lock_t \<Rightarrow> u32 \<times> lock_t" where
  "unlock l = (1, if spin l \<noteq> 0 then l\<lparr>spin := 0\<rparr> else l)"

lemma unlock_lockup: "spin l = 0 \<Longrightarrow> snd (unlock (snd (lockup l))) = l"
  by (simp add: lockup_def unlock_def)

text \<open>A second \<open>lockup\<close> of a held lock succeeds: the lock excludes nobody.\<close>

lemma lockup_twice: "spin l \<noteq> 0 \<Longrightarrow> fst (lockup l) = 1"
  by (simp add: lockup_def)

end
