(* ===== verification/Buddy.thy ===== *)
theory Buddy
  imports Bootmm
begin

text \<open>
  \<open>kernel/mm/buddy.c\<close>: the page allocator. Pages are named by their index in the array
  \<open>pages\<close>; \<open>pbpage + (bgroup_idx - page_idx)\<close> is the page \<open>start_page + bgroup_idx\<close>. The
  free lists are the sequences of pages their rings hold (theory \<open>ListHead\<close>): \<open>list_add\<close>
  puts a page in front, \<open>list_del_init\<close> takes it out of the list it is on. \<open>MAX_BUDDY_ORDER\<close>
  is 4. The lock calls change nothing but a flag that nobody waits on (theory \<open>Lock\<close>).
\<close>

section \<open>State\<close>

definition MAX_BUDDY_ORDER :: nat where "MAX_BUDDY_ORDER = 4"
definition PAGE_RESERVED :: u32 where "PAGE_RESERVED = push_bit 31 1"
definition PAGE_ALLOCED :: u32 where "PAGE_ALLOCED = push_bit 30 1"
definition PAGE_SLAB :: u32 where "PAGE_SLAB = push_bit 29 1"
definition PG_FREE :: u32 where "PG_FREE = push_bit 28 1"

record page =
  pg_flag :: u32
  pg_reference :: u32
  pg_virtual :: u32
  pg_bplevel :: u32
  pg_slabp :: u32

record freelist =
  nr_free :: u32
  free_head :: "nat list"

record buddy_sys =
  buddy_start_pfn :: nat
  buddy_end_pfn :: nat
  freelists :: "nat \<Rightarrow> freelist"
  pages :: "nat \<Rightarrow> page"

definition set_flag :: "nat \<Rightarrow> u32 \<Rightarrow> buddy_sys \<Rightarrow> buddy_sys" where
  "set_flag p v bs = bs\<lparr>pages := (pages bs)(p := (pages bs p)\<lparr>pg_flag := v\<rparr>)\<rparr>"

definition set_bplevel :: "nat \<Rightarrow> u32 \<Rightarrow> buddy_sys \<Rightarrow> buddy_sys" where
  "set_bplevel p v bs = bs\<lparr>pages := (pages bs)(p := (pages bs p)\<lparr>pg_bplevel := v\<rparr>)\<rparr>"

definition unlink_page :: "nat \<Rightarrow> buddy_sys \<Rightarrow> buddy_sys" where
  "unlink_page p bs =
     bs\<lparr>freelists := (\<lambda>k. (freelists bs k)\<lparr>free_head := remove1 p (free_head (freelists bs k))\<rparr>)\<rparr>"

definition push_page :: "nat \<Rightarrow> nat \<Rightarrow> buddy_sys \<Rightarrow> buddy_sys" where
  "push_page k p bs = bs\<lparr>freelists := (freelists bs)
     (k := (freelists bs k)\<lparr>free_head := p # free_head (freelists bs k)\<rparr>)\<rparr>"

definition add_nr_free :: "nat \<Rightarrow> u32 \<Rightarrow> buddy_sys \<Rightarrow> buddy_sys" where
  "add_nr_free k d bs = bs\<lparr>freelists := (freelists bs)
     (k := (freelists bs k)\<lparr>nr_free := nr_free (freelists bs k) + d\<rparr>)\<rparr>"

section \<open>Operations\<close>

function free_loop :: "nat \<Rightarrow> nat \<Rightarrow> buddy_sys \<Rightarrow> nat \<times> nat \<times> buddy_sys" where
  "free_loop pbpage bplevel bs =
     (if bplevel < MAX_BUDDY_ORDER then
        let page_idx = of_nat pbpage - of_nat (buddy_start_pfn bs) :: u32;
            bgroup_idx = page_idx XOR push_bit bplevel 1;
            bgroup_page = unat (of_nat (buddy_start_pfn bs) + bgroup_idx)
        in if pg_flag (pages bs bgroup_page) \<noteq> PG_FREE then (pbpage, bplevel, bs)
           else if pg_bplevel (pages bs bgroup_page) \<noteq> of_nat bplevel then (pbpage, bplevel, bs)
           else let bs = unlink_page bgroup_page bs;
                    bs = add_nr_free bplevel (- 1) bs;
                    bs = set_bplevel bgroup_page (- 1) bs;
                    combined_idx = bgroup_idx AND page_idx
                in free_loop (unat (of_nat (buddy_start_pfn bs) + combined_idx)) (Suc bplevel) bs
      else (pbpage, bplevel, bs))"
  by auto
termination by (relation "measure (\<lambda>(p, k, bs). MAX_BUDDY_ORDER - k)") auto

declare free_loop.simps [simp del]

definition free_pages_at :: "nat \<Rightarrow> nat \<Rightarrow> buddy_sys \<Rightarrow> buddy_sys" where
  "free_pages_at pbpage bplevel bs =
     (if pg_flag (pages bs pbpage) = PG_FREE then bs
      else let bs = set_flag pbpage PG_FREE bs;
               (pbpage, bplevel, bs) = free_loop pbpage bplevel bs;
               bs = set_bplevel pbpage (of_nat bplevel) bs;
               bs = set_flag pbpage PG_FREE bs;
               bs = push_page bplevel pbpage bs
           in add_nr_free bplevel 1 bs)"

function find_order :: "nat \<Rightarrow> buddy_sys \<Rightarrow> nat option" where
  "find_order current_order bs =
     (if current_order \<le> MAX_BUDDY_ORDER then
        if free_head (freelists bs current_order) \<noteq> [] then Some current_order
        else find_order (Suc current_order) bs
      else None)"
  by auto
termination by (relation "measure (\<lambda>(k, bs). Suc MAX_BUDDY_ORDER - k)") auto

declare find_order.simps [simp del]

fun split_block :: "nat \<Rightarrow> nat \<Rightarrow> nat \<Rightarrow> buddy_sys \<Rightarrow> buddy_sys" where
  "split_block page bplevel 0 bs = bs"
| "split_block page bplevel (Suc current_order) bs =
     (if bplevel < Suc current_order then
        let buddy_page = page + 2 ^ current_order;
            bs = push_page current_order buddy_page bs;
            bs = add_nr_free current_order 1 bs;
            bs = set_bplevel buddy_page (of_nat current_order) bs
        in split_block page bplevel current_order bs
      else bs)"

definition alloc_pages_at :: "nat \<Rightarrow> buddy_sys \<Rightarrow> nat option \<times> buddy_sys" where
  "alloc_pages_at bplevel bs =
     (case find_order bplevel bs of
        None \<Rightarrow> (None, bs)
      | Some current_order \<Rightarrow>
          let page = hd (free_head (freelists bs current_order));
              bs = unlink_page page bs;
              bs = set_bplevel page (of_nat bplevel) bs;
              bs = set_flag page PAGE_ALLOCED bs;
              bs = add_nr_free current_order (- 1) bs
          in (Some page, split_block page bplevel current_order bs))"

text \<open>The callers' view: physical addresses instead of pages, and 0 for failure.\<close>

definition alloc_pages :: "nat \<Rightarrow> buddy_sys \<Rightarrow> u32 \<times> buddy_sys" where
  "alloc_pages bplevel bs =
     (case alloc_pages_at bplevel bs of
        (None, bs) \<Rightarrow> (0, bs)
      | (Some page, bs) \<Rightarrow> (push_bit PAGE_SHIFT (of_nat page), bs))"

definition free_pages :: "u32 \<Rightarrow> nat \<Rightarrow> buddy_sys \<Rightarrow> buddy_sys" where
  "free_pages addr bplevel bs = free_pages_at (unat (drop_bit PAGE_SHIFT addr)) bplevel bs"

definition reserved_page :: "page \<Rightarrow> page" where
  "reserved_page pg = pg\<lparr>pg_flag := PAGE_RESERVED, pg_reference := 1, pg_virtual := - 1,
     pg_bplevel := - 1, pg_slabp := 0\<rparr>"

definition init_pages :: "nat \<Rightarrow> nat \<Rightarrow> (nat \<Rightarrow> page) \<Rightarrow> (nat \<Rightarrow> page)" where
  "init_pages start_pfn end_pfn =
     fold (\<lambda>i pgs. pgs(i := reserved_page (pgs i))) [start_pfn..<end_pfn]"

definition kernel_end :: "bootmm_info list \<Rightarrow> u32" where
  "kernel_end infos = fold (\<lambda>e m. if m < mm_end e then mm_end e else m) infos 0"

definition sizeof_page :: u32 where "sizeof_page = 28"

text \<open>
  \<open>init_buddy\<close> from the boot memory manager's state and the memory the page array is put in;
  the first component of the result is the array's address.
\<close>

definition init_buddy :: "(nat \<Rightarrow> page) \<Rightarrow> bootmm \<Rightarrow> (u32 \<times> bootmm \<times> buddy_sys) option" where
  "init_buddy mem bmm = do {
     (res, bmm) \<leftarrow> bootmm_alloc_pages (sizeof_page * max_pfn bmm) MM_KERNEL bmm;
     let pgs = init_pages 0 (unat (max_pfn bmm)) mem;
     let kernel_end_pfn = drop_bit PAGE_SHIFT (kernel_end (take (cnt_infos bmm) (mm_info bmm)));
     let start = (kernel_end_pfn + 1 + (push_bit MAX_BUDDY_ORDER 1 - 1))
                 AND NOT (push_bit MAX_BUDDY_ORDER 1 - 1);
     let fin = max_pfn bmm AND NOT (push_bit MAX_BUDDY_ORDER 1 - 1);
     let bs = \<lparr>buddy_start_pfn = unat start, buddy_end_pfn = unat fin,
               freelists = (\<lambda>_. \<lparr>nr_free = 0, free_head = []\<rparr>), pages = pgs\<rparr>;
     Some (res OR 0x80000000, bmm,
           fold (\<lambda>i bs. free_pages_at i 0 bs) [unat start..<unat fin] bs)
   }"

section \<open>Blocks\<close>

text \<open>
  The block \<open>(k, m)\<close> is the \<open>2 ^ k\<close> pages from the page number \<open>2 ^ k * m\<close> of the managed
  area on. Its buddy is \<open>(k, m XOR 1)\<close> and the two make up \<open>(k + 1, m div 2)\<close>.
\<close>

type_synonym block = "nat \<times> nat"

definition blk :: "block \<Rightarrow> nat set" where
  "blk b = {x. x div 2 ^ fst b = snd b}"

definition block_head :: "block \<Rightarrow> nat" where
  "block_head b = 2 ^ fst b * snd b"

lemma head_in_blk [simp]: "block_head b \<in> blk b"
  by (simp add: blk_def block_head_def)

definition bud :: "nat \<Rightarrow> nat" where
  "bud m = (if even m then Suc m else m - 1)"

lemma xor_Suc_0_bud: "m XOR Suc 0 = bud m"
  by (cases "even m") (simp_all add: xor_Suc_0_eq bud_def)

lemma bud_parent [simp]: "bud m div 2 = m div 2" "bud m \<noteq> m" "m \<noteq> bud m" "bud (bud m) = m"
  by (auto simp: bud_def elim!: evenE oddE)

lemma bud_children [simp]: "bud (2 * m) = Suc (2 * m)" "bud (Suc (2 * m)) = 2 * m"
  by (simp_all add: bud_def)

lemma same_parent: "a div 2 = m div 2 \<longleftrightarrow> a = m \<or> a = bud m"
proof -
  have "a div 2 = m div 2 \<longleftrightarrow> a = m \<or> (if even m then a = Suc m else Suc a = m)" by presburger
  then show ?thesis by (auto simp: bud_def elim: oddE)
qed

lemma div_Suc_exp: "x div 2 ^ Suc k = x div 2 ^ k div (2 :: nat)"
  by (metis div_mult2_eq power_Suc2)

lemma blk_parent: "blk (Suc k, m div 2) = blk (k, m) \<union> blk (k, bud m)"
  by (auto simp: blk_def same_parent div_Suc_exp simp del: power_Suc)

lemma blk_children: "blk (Suc k, m) = blk (k, 2 * m) \<union> blk (k, Suc (2 * m))"
  using blk_parent [of k "2 * m"] by simp

lemma blk_siblings: "a \<noteq> b \<Longrightarrow> blk (k, a) \<inter> blk (k, b) = {}"
  by (auto simp: blk_def)

text \<open>\<open>tiles N B\<close>: the blocks of \<open>B\<close> are a partition of the first \<open>N\<close> pages.\<close>

definition tiles :: "nat \<Rightarrow> block set \<Rightarrow> bool" where
  "tiles N B \<longleftrightarrow> (\<forall>b \<in> B. fst b \<le> MAX_BUDDY_ORDER \<and> blk b \<subseteq> {..<N}) \<and> {..<N} \<subseteq> (\<Union>b \<in> B. blk b)
     \<and> (\<forall>b \<in> B. \<forall>c \<in> B. b \<noteq> c \<longrightarrow> blk b \<inter> blk c = {})"

lemma tiles_disjoint: "tiles N B \<Longrightarrow> b \<in> B \<Longrightarrow> c \<in> B \<Longrightarrow> b \<noteq> c \<Longrightarrow> blk b \<inter> blk c = {}"
  unfolding tiles_def by blast

lemma tiles_order: "tiles N B \<Longrightarrow> b \<in> B \<Longrightarrow> fst b \<le> MAX_BUDDY_ORDER"
  unfolding tiles_def by blast

lemma tiles_overlap: "tiles N B \<Longrightarrow> b \<in> B \<Longrightarrow> c \<in> B \<Longrightarrow> x \<in> blk b \<Longrightarrow> x \<in> blk c \<Longrightarrow> b = c"
  unfolding tiles_def by blast

lemma tiles_head: "tiles N B \<Longrightarrow> b \<in> B \<Longrightarrow> c \<in> B \<Longrightarrow> block_head b = block_head c \<Longrightarrow> b = c"
  using head_in_blk [of b] head_in_blk [of c] by (metis tiles_overlap)

lemma tiles_head_less: "tiles N B \<Longrightarrow> b \<in> B \<Longrightarrow> block_head b < N"
  using head_in_blk [of b] unfolding tiles_def by blast

text \<open>Blocks may be replaced by others that make up the same pages.\<close>

lemma tiles_replace:
  assumes "tiles N B" and "X \<subseteq> B" and "(\<Union>b \<in> Y. blk b) = (\<Union>b \<in> X. blk b)"
    and "\<And>b. b \<in> Y \<Longrightarrow> fst b \<le> MAX_BUDDY_ORDER"
    and "\<And>b c. b \<in> Y \<Longrightarrow> c \<in> Y \<Longrightarrow> b \<noteq> c \<Longrightarrow> blk b \<inter> blk c = {}"
  shows "tiles N (Y \<union> (B - X))"
proof -
  have u: "(\<Union>b \<in> Y \<union> (B - X). blk b) = (\<Union>b \<in> B. blk b)" using assms(2,3) by blast
  have x: "blk b \<inter> blk c = {}" if "b \<in> Y" "c \<in> B - X" for b c
  proof (rule ccontr)
    assume "blk b \<inter> blk c \<noteq> {}"
    then obtain x where x: "x \<in> blk b" "x \<in> blk c" by blast
    then have "x \<in> (\<Union>b \<in> Y. blk b)" using that(1) by blast
    then obtain d where d: "d \<in> X" "x \<in> blk d" unfolding assms(3) by blast
    then have "c = d" using that(2) x(2) assms(2) by (intro tiles_overlap [OF assms(1)]) auto
    then show False using that(2) d(1) by simp
  qed
  have sub: "blk b \<subseteq> {..<N}" if "b \<in> B" for b using assms(1) that unfolding tiles_def by blast
  have cov: "{..<N} \<subseteq> (\<Union>b \<in> B. blk b)" using assms(1) unfolding tiles_def by blast
  have "(\<Union>b \<in> B. blk b) \<subseteq> {..<N}" using sub by blast
  then have subY: "blk b \<subseteq> {..<N}" if "b \<in> Y \<union> (B - X)" for b using u that by blast
  have o: "fst b \<le> MAX_BUDDY_ORDER" if "b \<in> Y \<union> (B - X)" for b
    using that assms(4) [of b] tiles_order [OF assms(1), of b] by blast
  have d: "blk b \<inter> blk c = {}" if "b \<in> Y \<union> (B - X)" "c \<in> Y \<union> (B - X)" "b \<noteq> c" for b c
  proof -
    from that(1,2) consider "b \<in> Y" "c \<in> Y" | "b \<in> Y" "c \<in> B - X" | "c \<in> Y" "b \<in> B - X"
      | "b \<in> B" "c \<in> B" by blast
    then show ?thesis
    proof cases
      case 3
      then show ?thesis using x [of c b] by (simp add: Int_commute)
    qed (use that(3) x assms(5) tiles_disjoint [OF assms(1)] in \<open>simp_all\<close>)
  qed
  show ?thesis unfolding tiles_def u using cov by (intro conjI ballI impI o subY d)
qed

lemma tiles_merge:
  assumes "tiles N B" and "(k, m) \<in> B" and "(k, bud m) \<in> B" and "k < MAX_BUDDY_ORDER"
  shows "tiles N (insert (Suc k, m div 2) (B - {(k, m), (k, bud m)}))"
  using tiles_replace [OF assms(1), of "{(k, m), (k, bud m)}" "{(Suc k, m div 2)}"] assms(2-)
  by (simp add: blk_parent)

lemma tiles_split:
  assumes "tiles N B" and "(Suc k, m) \<in> B"
  shows "tiles N (insert (k, 2 * m) (insert (k, Suc (2 * m)) (B - {(Suc k, m)})))"
proof -
  have k: "k \<le> MAX_BUDDY_ORDER" using tiles_order [OF assms] by simp
  have "tiles N ({(k, 2 * m), (k, Suc (2 * m))} \<union> (B - {(Suc k, m)}))"
  proof (rule tiles_replace [OF assms(1)])
    show "blk b \<inter> blk c = {}"
      if "b \<in> {(k, 2 * m), (k, Suc (2 * m))}" "c \<in> {(k, 2 * m), (k, Suc (2 * m))}" "b \<noteq> c" for b c
      using that by (auto simp: blk_def)
  qed (use k assms(2) in \<open>auto simp: blk_children\<close>)
  then show ?thesis by simp
qed

text \<open>The page where the buddy of a block would start is the head of some block.\<close>

lemma tiles_buddy_head:
  assumes t: "tiles N B" and b: "(k, m) \<in> B" and k: "k < MAX_BUDDY_ORDER" and N: "2 ^ MAX_BUDDY_ORDER dvd N"
  obtains j n where "(j, n) \<in> B" and "block_head (j, n) = block_head (k, bud m)"
proof -
  let ?x = "block_head (k, bud m)"
  have "block_head (k, m) < N" using tiles_head_less [OF t b] .
  have "2 ^ Suc k dvd N" using k N by (meson Suc_leI dvd_trans le_imp_power_dvd)
  then obtain c where c: "N = 2 ^ Suc k * c" by blast
  have "m < 2 * c" using \<open>block_head (k, m) < N\<close> by (simp add: c block_head_def)
  then have "bud m < 2 * c" by (auto simp: bud_def elim!: evenE)
  then have "?x < N" by (simp add: c block_head_def)
  then obtain d where "d \<in> B" "?x \<in> blk d" using t unfolding tiles_def by blast
  then obtain j n where d: "(j, n) \<in> B" "?x \<in> blk (j, n)" by (cases d) auto
  have "j \<le> k"
  proof (rule ccontr)
    assume "\<not> j \<le> k"
    then have "Suc k \<le> j" by simp
    have e: "y div 2 ^ j = y div 2 ^ Suc k div 2 ^ (j - Suc k)" for y :: nat
      using \<open>Suc k \<le> j\<close> by (metis div_mult2_eq le_add_diff_inverse power_add)
    have "?x div 2 ^ Suc k = block_head (k, m) div 2 ^ Suc k"
      by (simp add: div_Suc_exp block_head_def del: power_Suc)
    then have "block_head (k, m) \<in> blk (j, n)" using d(2) e [of ?x] e [of "block_head (k, m)"]
      by (simp add: blk_def)
    then have "(k, m) = (j, n)" using tiles_overlap [OF t b d(1)] head_in_blk by blast
    then show False using \<open>Suc k \<le> j\<close> by simp
  qed
  then have "2 ^ j dvd ?x" by (simp add: block_head_def le_imp_power_dvd dvd_mult2)
  then have "2 ^ j * (?x div 2 ^ j) = ?x" by simp
  then have "block_head (j, n) = ?x" using d(2) by (simp only: blk_def block_head_def mem_Collect_eq fst_conv snd_conv)
  then show thesis using that d(1) by blast
qed

section \<open>The invariant\<close>

text \<open>
  \<open>F k\<close> lists the blocks on the free list of order \<open>k\<close>, \<open>A\<close> are the blocks in use, and
  \<open>H\<close> is the block an operation is working on (empty between operations). Only the head of
  a block in use has a flag other than \<open>PG_FREE\<close>; only the head of a free block need carry
  its order.
\<close>

definition Fr :: "(nat \<Rightarrow> nat list) \<Rightarrow> block set" where
  "Fr F = {(k, m). m \<in> set (F k)}"

definition bpage :: "buddy_sys \<Rightarrow> block \<Rightarrow> nat" where
  "bpage bs b = buddy_start_pfn bs + block_head b"

definition lists_ok :: "buddy_sys \<Rightarrow> (nat \<Rightarrow> nat list) \<Rightarrow> bool" where
  "lists_ok bs F \<longleftrightarrow> (\<forall>k. free_head (freelists bs k) = map (\<lambda>m. bpage bs (k, m)) (F k)
     \<and> nr_free (freelists bs k) = of_nat (length (F k)) \<and> distinct (F k))"

definition marks_ok :: "buddy_sys \<Rightarrow> nat \<Rightarrow> block set \<Rightarrow> (nat \<Rightarrow> nat list) \<Rightarrow> bool" where
  "marks_ok bs N A F \<longleftrightarrow>
     (\<forall>q < N. pg_flag (pages bs (buddy_start_pfn bs + q)) = PG_FREE \<longleftrightarrow> q \<notin> block_head ` A)
     \<and> (\<forall>k m. m \<in> set (F k) \<longrightarrow> pg_bplevel (pages bs (bpage bs (k, m))) = of_nat k)"

definition no_buddies :: "(nat \<Rightarrow> nat list) \<Rightarrow> bool" where
  "no_buddies F \<longleftrightarrow> (\<forall>k m. k < MAX_BUDDY_ORDER \<longrightarrow> m \<in> set (F k) \<longrightarrow> bud m \<notin> set (F k))"

definition binv :: "buddy_sys \<Rightarrow> block set \<Rightarrow> block set \<Rightarrow> (nat \<Rightarrow> nat list) \<Rightarrow> bool" where
  "binv bs A H F \<longleftrightarrow> (\<exists>N. buddy_end_pfn bs = buddy_start_pfn bs + N \<and> 2 ^ MAX_BUDDY_ORDER dvd N
     \<and> buddy_end_pfn bs \<le> 2 ^ 20 \<and> lists_ok bs F \<and> tiles N (A \<union> H \<union> Fr F)
     \<and> A \<inter> Fr F = {} \<and> A \<inter> H = {} \<and> H \<inter> Fr F = {} \<and> marks_ok bs N A F \<and> no_buddies F)"

definition buddy_inv :: "buddy_sys \<Rightarrow> block set \<Rightarrow> bool" where
  "buddy_inv bs A \<longleftrightarrow> (\<exists>F. binv bs A {} F)"

lemma Fr_upd: "Fr (F(k := xs)) = {b \<in> Fr F. fst b \<noteq> k} \<union> Pair k ` set xs"
  by (auto simp: Fr_def split: if_splits)

lemma mem_Fr [simp]: "(k, m) \<in> Fr F \<longleftrightarrow> m \<in> set (F k)"
  by (simp add: Fr_def)

lemma block_head_inj: "block_head (k, a) = block_head (k, b) \<longleftrightarrow> a = b"
  by (simp add: block_head_def)

lemma bpage_inj: "bpage bs b = bpage bs c \<longleftrightarrow> block_head b = block_head c"
  by (simp add: bpage_def)

subsection \<open>What the small steps change\<close>

lemma set_flag_sel [simp]:
  "buddy_start_pfn (set_flag p v bs) = buddy_start_pfn bs" "buddy_end_pfn (set_flag p v bs) = buddy_end_pfn bs"
  "freelists (set_flag p v bs) = freelists bs"
  "pg_flag (pages (set_flag p v bs) q) = (if q = p then v else pg_flag (pages bs q))"
  "pg_bplevel (pages (set_flag p v bs) q) = pg_bplevel (pages bs q)"
  by (simp_all add: set_flag_def)

lemma set_bplevel_sel [simp]:
  "buddy_start_pfn (set_bplevel p v bs) = buddy_start_pfn bs"
  "buddy_end_pfn (set_bplevel p v bs) = buddy_end_pfn bs"
  "freelists (set_bplevel p v bs) = freelists bs"
  "pg_flag (pages (set_bplevel p v bs) q) = pg_flag (pages bs q)"
  "pg_bplevel (pages (set_bplevel p v bs) q) = (if q = p then v else pg_bplevel (pages bs q))"
  by (simp_all add: set_bplevel_def)

lemma pages_other [simp]:
  "q \<noteq> p \<Longrightarrow> pages (set_flag p v bs) q = pages bs q"
  "q \<noteq> p \<Longrightarrow> pages (set_bplevel p v bs) q = pages bs q"
  by (simp_all add: set_flag_def set_bplevel_def)

lemma freelist_ops_sel [simp]:
  "buddy_start_pfn (unlink_page p bs) = buddy_start_pfn bs" "buddy_end_pfn (unlink_page p bs) = buddy_end_pfn bs"
  "pages (unlink_page p bs) = pages bs"
  "buddy_start_pfn (push_page k p bs) = buddy_start_pfn bs" "buddy_end_pfn (push_page k p bs) = buddy_end_pfn bs"
  "pages (push_page k p bs) = pages bs"
  "buddy_start_pfn (add_nr_free k d bs) = buddy_start_pfn bs" "buddy_end_pfn (add_nr_free k d bs) = buddy_end_pfn bs"
  "pages (add_nr_free k d bs) = pages bs"
  by (simp_all add: unlink_page_def push_page_def add_nr_free_def)

lemma free_loop_geometry:
  "free_loop p k bs = (p', k', bs') \<Longrightarrow>
   buddy_start_pfn bs' = buddy_start_pfn bs \<and> buddy_end_pfn bs' = buddy_end_pfn bs"
proof (induction p k bs rule: free_loop.induct)
  case (1 p k bs)
  show ?case
    using 1 free_loop.simps [of p k bs] by (auto simp: Let_def split: if_splits)
qed

lemma free_pages_at_geometry [simp]:
  "buddy_start_pfn (free_pages_at p k bs) = buddy_start_pfn bs"
  "buddy_end_pfn (free_pages_at p k bs) = buddy_end_pfn bs"
proof -
  obtain p' k' bs' where fl: "free_loop p k (set_flag p PG_FREE bs) = (p', k', bs')"
    by (cases "free_loop p k (set_flag p PG_FREE bs)")
  show "buddy_start_pfn (free_pages_at p k bs) = buddy_start_pfn bs"
    "buddy_end_pfn (free_pages_at p k bs) = buddy_end_pfn bs"
    using free_loop_geometry [OF fl] by (simp_all add: free_pages_at_def Let_def fl)
qed

lemma split_block_geometry [simp]:
  "buddy_start_pfn (split_block p k c bs) = buddy_start_pfn bs"
  "buddy_end_pfn (split_block p k c bs) = buddy_end_pfn bs"
  by (induction c arbitrary: bs) (auto simp: Let_def)

lemma bpage_cong [simp]:
  "bpage (set_flag p v bs) = bpage bs" "bpage (set_bplevel p v bs) = bpage bs"
  "bpage (unlink_page p bs) = bpage bs" "bpage (push_page k p bs) = bpage bs"
  "bpage (add_nr_free k d bs) = bpage bs"
  by (simp_all add: bpage_def fun_eq_iff)

lemma lists_ok_marks [simp]:
  "lists_ok (set_flag p v bs) F = lists_ok bs F" "lists_ok (set_bplevel p v bs) F = lists_ok bs F"
  by (simp_all add: lists_ok_def)

lemma remove1_map: "inj_on f (insert x (set xs)) \<Longrightarrow> remove1 (f x) (map f xs) = map f (remove1 x xs)"
  by (induction xs) (auto simp: inj_on_def)

lemma lists_ok_push:
  assumes "lists_ok bs F" and "m \<notin> set (F k)"
  shows "lists_ok (add_nr_free k 1 (push_page k (bpage bs (k, m)) bs)) (F(k := m # F k))"
  using assms by (auto simp: lists_ok_def add_nr_free_def push_page_def bpage_def)

lemma lists_ok_unlink:
  assumes l: "lists_ok bs F" and m: "m \<in> set (F k)"
    and u: "\<And>j n. j \<noteq> k \<Longrightarrow> n \<in> set (F j) \<Longrightarrow> block_head (j, n) \<noteq> block_head (k, m)"
  shows "lists_ok (add_nr_free k (- 1) (unlink_page (bpage bs (k, m)) bs)) (F(k := remove1 m (F k)))"
proof -
  let ?p = "bpage bs (k, m)"
  have k: "remove1 ?p (map (\<lambda>m. bpage bs (k, m)) (F k)) = map (\<lambda>m. bpage bs (k, m)) (remove1 m (F k))"
    by (rule remove1_map) (auto simp: inj_on_def bpage_inj block_head_inj)
  have j: "remove1 ?p (map (\<lambda>m. bpage bs (j, m)) (F j)) = map (\<lambda>m. bpage bs (j, m)) (F j)" if "j \<noteq> k" for j
  proof (rule remove1_idem, rule notI)
    assume "?p \<in> set (map (\<lambda>m. bpage bs (j, m)) (F j))"
    then obtain n where "n \<in> set (F j)" "block_head (k, m) = block_head (j, n)"
      by (auto simp: bpage_inj)
    then show False using u [OF that, of n] by simp
  qed
  have "0 < length (F k)" using m by auto
  then have "(of_nat (length (F k)) - 1 :: u32) = of_nat (length (F k) - 1)" by (rule of_nat_pred)
  then have n: "nr_free (freelists bs k) - 1 = of_nat (length (remove1 m (F k)))"
    using l m by (simp add: lists_ok_def length_remove1)
  have f: "freelists (add_nr_free k (- 1) (unlink_page ?p bs)) i =
    \<lparr>nr_free = nr_free (freelists bs i) - (if i = k then 1 else 0),
     free_head = remove1 ?p (free_head (freelists bs i))\<rparr>" for i
    by (simp add: add_nr_free_def unlink_page_def)
  show ?thesis unfolding lists_ok_def
    using l k j n m by (auto simp: f lists_ok_def distinct_remove1)
qed

lemma lists_ok_empty: "lists_ok bs F \<Longrightarrow> free_head (freelists bs k) = [] \<longleftrightarrow> F k = []"
  by (simp add: lists_ok_def)

lemma lists_ok_hd: "lists_ok bs F \<Longrightarrow> F k \<noteq> [] \<Longrightarrow> hd (free_head (freelists bs k)) = bpage bs (k, hd (F k))"
  by (simp add: lists_ok_def hd_map)

subsection \<open>Page arithmetic\<close>

lemma page_idx:
  assumes "s + q < 2 ^ 31"
  shows "unat (of_nat (s + q) - of_nat s :: u32) = q"
    and "unat (of_nat s + (w :: u32)) = (s + unat w) mod 2 ^ 32"
proof -
  have "(of_nat (s + q) - of_nat s :: u32) = of_nat q" by simp
  then show "unat (of_nat (s + q) - of_nat s :: u32) = q" using assms by (simp add: unat_of_nat)
  show "unat (of_nat s + w) = (s + unat w) mod 2 ^ 32"
    using assms by (simp add: unat_word_ariths unat_of_nat mod_add_left_eq)
qed

lemma block_idx_ops:
  assumes "unat w = block_head (k, m)" and "k < 31"
  shows "unat (w XOR push_bit k 1 :: u32) = block_head (k, bud m)"
    and "unat ((w XOR push_bit k 1) AND w :: u32) = block_head (Suc k, m div 2)"
proof -
  have h: "block_head (k, a) = push_bit k a" for a by (simp add: block_head_def push_bit_eq_mult mult.commute)
  have "unat (push_bit k 1 :: u32) = push_bit k 1"
    using assms(2) by (simp add: unat_exp_u32)
  then show x: "unat (w XOR push_bit k 1 :: u32) = block_head (k, bud m)"
    by (simp only: unsigned_xor_eq assms(1) h flip: push_bit_xor) (simp add: xor_Suc_0_bud)
  have "bud m AND m = 2 * (m div 2)"
  proof (cases "even m")
    case True
    then obtain j where "m = 2 * j" by blast
    then show ?thesis by (simp add: and_nat_unfold [of "Suc (2 * j)"])
  next
    case False
    then obtain j where "m = Suc (2 * j)" by (metis oddE Suc_eq_plus1)
    then show ?thesis by (simp add: and_nat_unfold [of "2 * j"])
  qed
  moreover have "unat ((w XOR push_bit k 1) AND w) = push_bit k (bud m AND m)"
    by (simp only: unsigned_and_eq x assms(1)) (simp add: h)
  ultimately show "unat ((w XOR push_bit k 1) AND w) = block_head (Suc k, m div 2)"
    by (simp add: block_head_def push_bit_eq_mult)
qed

subsection \<open>Freeing\<close>

lemma binv_buddy_free:
  assumes inv: "binv bs A {(k, m)} F" and k: "k < MAX_BUDDY_ORDER"
  shows "bud m \<in> set (F k) \<longleftrightarrow> pg_flag (pages bs (bpage bs (k, bud m))) = PG_FREE
    \<and> pg_bplevel (pages bs (bpage bs (k, bud m))) = of_nat k"
proof -
  obtain N where N: "2 ^ MAX_BUDDY_ORDER dvd N" and t: "tiles N (A \<union> {(k, m)} \<union> Fr F)"
    and d: "A \<inter> Fr F = {}" "A \<inter> {(k, m)} = {}" and mk: "marks_ok bs N A F"
    using inv unfolding binv_def by blast
  obtain j n where j: "(j, n) \<in> A \<union> {(k, m)} \<union> Fr F" "block_head (j, n) = block_head (k, bud m)"
    using tiles_buddy_head [OF t _ k N] by blast
  have lt: "block_head (k, bud m) < N" using tiles_head_less [OF t j(1)] j(2) by simp
  have fl: "pg_flag (pages bs (bpage bs (k, bud m))) = PG_FREE \<longleftrightarrow> block_head (k, bud m) \<notin> block_head ` A"
    using mk lt by (simp add: marks_ok_def bpage_def)
  show ?thesis
  proof
    assume b: "bud m \<in> set (F k)"
    have "block_head (k, bud m) \<notin> block_head ` A"
    proof
      assume "block_head (k, bud m) \<in> block_head ` A"
      then obtain a where a: "a \<in> A" "block_head a = block_head (k, bud m)" by auto
      then have "a = (k, bud m)" using b by (intro tiles_head [OF t]) auto
      then show False using a b d by auto
    qed
    then show "pg_flag (pages bs (bpage bs (k, bud m))) = PG_FREE
      \<and> pg_bplevel (pages bs (bpage bs (k, bud m))) = of_nat k"
      using fl b mk by (simp add: marks_ok_def)
  next
    assume a: "pg_flag (pages bs (bpage bs (k, bud m))) = PG_FREE
      \<and> pg_bplevel (pages bs (bpage bs (k, bud m))) = of_nat k"
    then have "(j, n) \<notin> A" using fl j(2) by (metis imageI)
    moreover have "(j, n) \<noteq> (k, m)" using j(2) by (auto simp: block_head_inj)
    ultimately have n: "n \<in> set (F j)" using j(1) by auto
    then have "pg_bplevel (pages bs (bpage bs (j, n))) = of_nat j" using mk by (simp add: marks_ok_def)
    then have "(of_nat j :: u32) = of_nat k" using a j(2) by (simp add: bpage_def)
    moreover have "j \<le> 4" using tiles_order [OF t j(1)] by (simp add: MAX_BUDDY_ORDER_def)
    ultimately have "j = k" using k of_nat_eq_u32 [of j k] by (simp add: MAX_BUDDY_ORDER_def)
    then show "bud m \<in> set (F k)" using n j(2) by (simp add: block_head_inj)
  qed
qed

lemma binv_geometry:
  assumes "binv bs A H F" and "b \<in> A \<union> H \<union> Fr F"
  shows "bpage bs b < 2 ^ 20" and "buddy_end_pfn bs \<le> 2 ^ 20"
proof -
  obtain N where "buddy_end_pfn bs = buddy_start_pfn bs + N" "buddy_end_pfn bs \<le> 2 ^ 20"
    "tiles N (A \<union> H \<union> Fr F)"
    using assms(1) unfolding binv_def by blast
  moreover from this(3) have "block_head b < N" using assms(2) by (rule tiles_head_less)
  ultimately show "bpage bs b < 2 ^ 20" "buddy_end_pfn bs \<le> 2 ^ 20" by (simp_all add: bpage_def)
qed

lemma binv_merge:
  assumes inv: "binv bs A {(k, m)} F" and k: "k < MAX_BUDDY_ORDER" and b: "bud m \<in> set (F k)"
    and bs': "bs' = set_bplevel (bpage bs (k, bud m)) (- 1)
        (add_nr_free k (- 1) (unlink_page (bpage bs (k, bud m)) bs))"
  shows "binv bs' A {(Suc k, m div 2)} (F(k := remove1 (bud m) (F k)))"
    and "c \<in> A \<Longrightarrow> pages bs' (bpage bs c) = pages bs (bpage bs c)"
proof -
  let ?F = "F(k := remove1 (bud m) (F k))"
  obtain N where N: "buddy_end_pfn bs = buddy_start_pfn bs + N" "2 ^ MAX_BUDDY_ORDER dvd N"
      "buddy_end_pfn bs \<le> 2 ^ 20"
    and l: "lists_ok bs F" and t: "tiles N (A \<union> {(k, m)} \<union> Fr F)"
    and d: "A \<inter> Fr F = {}" "A \<inter> {(k, m)} = {}" "{(k, m)} \<inter> Fr F = {}"
    and mk: "marks_ok bs N A F" and nb: "no_buddies F"
    using inv unfolding binv_def by blast
  have dist: "distinct (F k)" using l by (simp add: lists_ok_def)
  have Fr: "Fr ?F = Fr F - {(k, bud m)}" using dist by (auto simp: Fr_upd set_remove1_eq)
  have u: "block_head (j, n) \<noteq> block_head (k, bud m)" if "n \<in> set (F j)" "(j, n) \<noteq> (k, bud m)" for j n
    using tiles_head [OF t, of "(j, n)" "(k, bud m)"] that b by auto
  have l': "lists_ok bs' ?F"
    unfolding bs' using lists_ok_unlink [OF l b] u by auto
  have B: "insert (Suc k, m div 2) (A \<union> {(k, m)} \<union> Fr F - {(k, m), (k, bud m)}) = A \<union> {(Suc k, m div 2)} \<union> Fr ?F"
    using d b unfolding Fr by auto
  have t': "tiles N (A \<union> {(Suc k, m div 2)} \<union> Fr ?F)"
  proof -
    have "tiles N (insert (Suc k, m div 2) (A \<union> {(k, m)} \<union> Fr F - {(k, m), (k, bud m)}))"
      by (rule tiles_merge [OF t _ _ k]) (use b in auto)
    then show ?thesis unfolding B .
  qed
  have new: "(Suc k, m div 2) \<notin> A \<union> Fr F"
  proof
    assume a: "(Suc k, m div 2) \<in> A \<union> Fr F"
    have "block_head (k, m) \<in> blk (Suc k, m div 2)" by (simp add: blk_parent)
    then have "(Suc k, m div 2) = (k, m)" using a by (intro tiles_overlap [OF t]) auto
    then show False by simp
  qed
  have mk': "marks_ok bs' N A ?F"
    using mk u unfolding marks_ok_def bs' by (auto simp: bpage_inj dist split: if_splits dest: notin_set_remove1)
  have nb': "no_buddies ?F" using nb by (auto simp: no_buddies_def dest: notin_set_remove1)
  show "binv bs' A {(Suc k, m div 2)} ?F" unfolding binv_def
    using N l' t' mk' nb' d new by (intro exI [of _ N]) (auto simp: bs' Fr)
  show "pages bs' (bpage bs c) = pages bs (bpage bs c)" if "c \<in> A"
  proof -
    have "c \<noteq> (k, bud m)" using that b d(1) by auto
    then have "block_head c \<noteq> block_head (k, bud m)"
      using tiles_head [OF t, of c "(k, bud m)"] that b by auto
    then show ?thesis by (simp add: bs' bpage_inj)
  qed
qed

lemma free_loop_binv:
  "binv bs A {(k, m)} F \<Longrightarrow> free_loop (bpage bs (k, m)) k bs = (p', k', bs') \<Longrightarrow>
   \<exists>m' F'. p' = bpage bs' (k', m') \<and> binv bs' A {(k', m')} F'
     \<and> (k' < MAX_BUDDY_ORDER \<longrightarrow> bud m' \<notin> set (F' k'))
     \<and> (\<forall>c \<in> A. pages bs' (bpage bs c) = pages bs (bpage bs c))"
proof (induction "MAX_BUDDY_ORDER - k" arbitrary: k m bs F)
  case 0
  then show ?case by (auto simp: free_loop.simps)
next
  case (Suc n)
  then have k: "k < MAX_BUDDY_ORDER" by simp
  let ?s = "buddy_start_pfn bs" and ?b = "bpage bs (k, bud m)"
  obtain N where N: "buddy_end_pfn bs = ?s + N" "buddy_end_pfn bs \<le> 2 ^ 20"
      "2 ^ MAX_BUDDY_ORDER dvd N" "tiles N (A \<union> {(k, m)} \<union> Fr F)"
    using Suc.prems(1) unfolding binv_def by blast
  obtain c where c: "c \<in> A \<union> {(k, m)} \<union> Fr F" "block_head c = block_head (k, bud m)"
    using tiles_buddy_head [OF N(4) _ k N(3)] by blast
  have lt: "block_head (k, m) < N" "block_head (k, bud m) < N" "block_head (Suc k, m div 2) \<le> block_head (k, m)"
    using tiles_head_less [OF N(4), of "(k, m)"] tiles_head_less [OF N(4) c(1)] c(2)
    by (simp_all add: block_head_def)
  define w :: u32 where "w = of_nat (bpage bs (k, m)) - of_nat ?s"
  have w: "unat w = block_head (k, m)" using page_idx(1) [of ?s "block_head (k, m)"] lt N
    by (simp add: w_def bpage_def)
  have k31: "k < 31" using k by (simp add: MAX_BUDDY_ORDER_def)
  note ops = block_idx_ops [OF w k31]
  have p1: "unat (of_nat ?s + (w XOR push_bit k 1)) = ?b"
    using page_idx(2) [of ?s "block_head (k, m)"] lt N by (simp add: ops bpage_def del: push_bit_of_1)
  have p2: "unat (of_nat ?s + ((w XOR push_bit k 1) AND w)) = bpage bs (Suc k, m div 2)"
    using page_idx(2) [of ?s "block_head (k, m)"] lt N by (simp add: ops bpage_def del: push_bit_of_1)
  have step: "free_loop (bpage bs (k, m)) k bs =
    (if pg_flag (pages bs ?b) = PG_FREE \<and> pg_bplevel (pages bs ?b) = of_nat k
     then free_loop (bpage bs (Suc k, m div 2)) (Suc k)
            (set_bplevel ?b (- 1) (add_nr_free k (- 1) (unlink_page ?b bs)))
     else (bpage bs (k, m), k, bs))"
    using k by (subst free_loop.simps) (simp add: Let_def p1 p2 flip: w_def del: push_bit_of_1)
  show ?case
  proof (cases "bud m \<in> set (F k)")
    case True
    define bs1 where "bs1 = set_bplevel ?b (- 1) (add_nr_free k (- 1) (unlink_page ?b bs))"
    have "binv bs1 A {(Suc k, m div 2)} (F(k := remove1 (bud m) (F k)))"
      using binv_merge(1) [OF Suc.prems(1) k True bs1_def] .
    moreover have "pages bs1 (bpage bs c) = pages bs (bpage bs c)" if "c \<in> A" for c
      using binv_merge(2) [OF Suc.prems(1) k True bs1_def that] .
    moreover have "bpage bs1 = bpage bs" by (simp add: bs1_def)
    moreover have "free_loop (bpage bs1 (Suc k, m div 2)) (Suc k) bs1 = (p', k', bs')"
      using Suc.prems(2) True step binv_buddy_free [OF Suc.prems(1) k] by (simp add: bs1_def)
    moreover have "n = MAX_BUDDY_ORDER - Suc k" using Suc.hyps(2) by simp
    ultimately show ?thesis using Suc.hyps(1) by metis
  next
    case False
    then have "free_loop (bpage bs (k, m)) k bs = (bpage bs (k, m), k, bs)"
      using binv_buddy_free [OF Suc.prems(1) k] by (subst step) auto
    then have "p' = bpage bs (k, m)" "k' = k" "bs' = bs" using Suc.prems(2) by simp_all
    then show ?thesis using Suc.prems(1) False by blast
  qed
qed

lemma head_image:
  assumes "tiles N B" and "A \<subseteq> B" and "b \<in> B"
  shows "block_head b \<in> block_head ` A \<longleftrightarrow> b \<in> A"
  using tiles_head [OF assms(1,3)] assms(2) by blast

lemma free_pages_at_inv:
  assumes inv: "buddy_inv bs A" and b: "(k, m) \<in> A"
  shows "buddy_inv (free_pages_at (bpage bs (k, m)) k bs) (A - {(k, m)})"
    and "c \<in> A - {(k, m)} \<Longrightarrow>
      pages (free_pages_at (bpage bs (k, m)) k bs) (bpage bs c) = pages bs (bpage bs c)"
proof -
  obtain F N where N: "buddy_end_pfn bs = buddy_start_pfn bs + N" "2 ^ MAX_BUDDY_ORDER dvd N"
      "buddy_end_pfn bs \<le> 2 ^ 20"
    and l: "lists_ok bs F" and t: "tiles N (A \<union> {} \<union> Fr F)"
    and d: "A \<inter> Fr F = {}" and mk: "marks_ok bs N A F" and nb: "no_buddies F"
    using inv unfolding binv_def buddy_inv_def by blast
  let ?p = "bpage bs (k, m)" and ?A = "A - {(k, m)}"
  have lt: "block_head (k, m) < N" using tiles_head_less [OF t] b by auto
  then have used: "pg_flag (pages bs ?p) \<noteq> PG_FREE" using mk b by (auto simp: marks_ok_def bpage_def)
  have im: "block_head ` ?A = block_head ` A - {block_head (k, m)}"
    using tiles_head [OF t, of _ "(k, m)"] b by auto
  define bs1 where "bs1 = set_flag ?p PG_FREE bs"
  have "marks_ok bs1 N ?A F"
    using mk by (auto simp: marks_ok_def bs1_def im bpage_def)
  moreover have "?A \<union> {(k, m)} \<union> Fr F = A \<union> {} \<union> Fr F" using b by auto
  ultimately have "binv bs1 ?A {(k, m)} F"
    using N l t d nb b unfolding binv_def by (intro exI [of _ N]) (auto simp: bs1_def)
  moreover obtain p' k' bs2 where fl: "free_loop (bpage bs1 (k, m)) k bs1 = (p', k', bs2)"
    by (cases "free_loop (bpage bs1 (k, m)) k bs1")
  ultimately obtain m' F' where p': "p' = bpage bs2 (k', m')" and inv2: "binv bs2 ?A {(k', m')} F'"
    and last: "k' < MAX_BUDDY_ORDER \<longrightarrow> bud m' \<notin> set (F' k')"
    and frame: "\<forall>c \<in> ?A. pages bs2 (bpage bs1 c) = pages bs1 (bpage bs1 c)"
    using free_loop_binv by blast
  obtain N' where N': "buddy_end_pfn bs2 = buddy_start_pfn bs2 + N'" "2 ^ MAX_BUDDY_ORDER dvd N'"
      "buddy_end_pfn bs2 \<le> 2 ^ 20"
    and l': "lists_ok bs2 F'" and t': "tiles N' (?A \<union> {(k', m')} \<union> Fr F')"
    and d': "?A \<inter> Fr F' = {}" "?A \<inter> {(k', m')} = {}" "{(k', m')} \<inter> Fr F' = {}"
    and mk': "marks_ok bs2 N' ?A F'" and nb': "no_buddies F'"
    using inv2 unfolding binv_def by blast
  define bs3 where "bs3 = set_flag p' PG_FREE (set_bplevel p' (of_nat k') bs2)"
  define bs4 where "bs4 = add_nr_free k' 1 (push_page k' p' bs3)"
  let ?F = "F'(k' := m' # F' k')"
  have bp: "bpage bs2 = bpage bs3" by (simp add: bs3_def)
  have l4: "lists_ok bs4 ?F"
    unfolding bs4_def p' bp using l' d' by (intro lists_ok_push) (auto simp: bs3_def)
  have Fr4: "Fr ?F = insert (k', m') (Fr F')" by (auto simp: Fr_upd)
  have h: "block_head (k', m') \<notin> block_head ` ?A"
    using head_image [OF t', of ?A "(k', m')"] d' by auto
  have u: "block_head (j, n) \<noteq> block_head (k', m')" if "n \<in> set (F' j)" for j n
    using tiles_head [OF t', of "(j, n)" "(k', m')"] that d' by auto
  have mk4: "marks_ok bs4 N' ?A ?F"
    unfolding marks_ok_def
  proof (intro conjI allI impI)
    fix q assume "q < N'"
    then show "(pg_flag (pages bs4 (buddy_start_pfn bs4 + q)) = PG_FREE) = (q \<notin> block_head ` ?A)"
      using mk' h by (auto simp: marks_ok_def bs4_def bs3_def p' bpage_def)
  next
    fix j n assume "n \<in> set (?F j)"
    then show "pg_bplevel (pages bs4 (bpage bs4 (j, n))) = of_nat j"
      using mk' u by (auto simp: marks_ok_def bs4_def bs3_def p' bpage_inj split: if_splits)
  qed
  have "no_buddies ?F"
    using nb' last bud_parent(4) unfolding no_buddies_def by (auto split: if_splits)
  then have "binv bs4 ?A {} ?F"
    using N' l4 t' d' mk4 unfolding binv_def Fr4 by (intro exI [of _ N']) (auto simp: bs4_def bs3_def)
  moreover have eq: "free_pages_at ?p k bs = bs4"
    using used fl by (simp add: free_pages_at_def Let_def bs1_def bs3_def bs4_def)
  ultimately show "buddy_inv (free_pages_at ?p k bs) ?A" unfolding buddy_inv_def by auto
  show "pages (free_pages_at ?p k bs) (bpage bs c) = pages bs (bpage bs c)" if c: "c \<in> ?A"
  proof -
    have e: "bpage bs1 = bpage bs" by (simp add: bs1_def)
    have "buddy_start_pfn bs2 = buddy_start_pfn bs"
      using free_loop_geometry [OF fl] by (simp add: bs1_def)
    then have e2: "bpage bs2 = bpage bs" by (simp add: bpage_def fun_eq_iff)
    have "block_head c \<noteq> block_head (k', m')"
      using tiles_head [OF t', of c "(k', m')"] c d' by auto
    then have "pages bs4 (bpage bs c) = pages bs2 (bpage bs c)"
      by (simp add: bs4_def bs3_def p' flip: e2) (simp add: bpage_inj)
    moreover have "block_head c \<noteq> block_head (k, m)"
      using tiles_head [OF t, of c "(k, m)"] c b by auto
    then have "pages bs1 (bpage bs c) = pages bs (bpage bs c)" by (simp add: bs1_def bpage_inj)
    ultimately show ?thesis using frame c eq e by simp
  qed
qed

text \<open>Freeing a page that is not the head of a block in use changes nothing.\<close>

lemma free_pages_at_idle: "pg_flag (pages bs p) = PG_FREE \<Longrightarrow> free_pages_at p k bs = bs"
  by (simp add: free_pages_at_def)

subsection \<open>Allocating\<close>

lemma find_order_None:
  "find_order k bs = None \<longleftrightarrow> (\<forall>j. k \<le> j \<and> j \<le> MAX_BUDDY_ORDER \<longrightarrow> free_head (freelists bs j) = [])"
proof (induction k bs rule: find_order.induct)
  case (1 k bs)
  have le: "k \<le> j \<longleftrightarrow> j = k \<or> Suc k \<le> j" for j by auto
  show ?case using 1 by (subst find_order.simps) (auto simp: le)
qed

lemma find_order_Some:
  "find_order k bs = Some c \<Longrightarrow> k \<le> c \<and> c \<le> MAX_BUDDY_ORDER \<and> free_head (freelists bs c) \<noteq> []"
proof (induction k bs rule: find_order.induct)
  case (1 k bs)
  then show ?case by (subst (asm) (2) find_order.simps) (auto split: if_splits)
qed

lemma split_block_inv:
  "binv bs (insert (c, m) A) {} F \<Longrightarrow> (c, m) \<notin> A \<Longrightarrow> k \<le> c \<Longrightarrow>
   \<exists>F' m'. binv (split_block (bpage bs (c, m)) k c bs) (insert (k, m') A) {} F'
     \<and> (k, m') \<notin> A \<and> bpage bs (c, m) = bpage (split_block (bpage bs (c, m)) k c bs) (k, m')
     \<and> (\<forall>b \<in> insert (c, m) A. pages (split_block (bpage bs (c, m)) k c bs) (bpage bs b) = pages bs (bpage bs b))"
proof (induction c arbitrary: m bs F)
  case 0
  then show ?case by auto
next
  case (Suc c)
  show ?case
  proof (cases "k < Suc c")
    case False
    then have "k = Suc c" using Suc.prems by simp
    then show ?thesis using Suc.prems by auto
  next
    case True
    let ?A = "insert (Suc c, m) A" and ?A' = "insert (c, 2 * m) A" and ?F = "F(c := Suc (2 * m) # F c)"
    obtain N where N: "buddy_end_pfn bs = buddy_start_pfn bs + N" "2 ^ MAX_BUDDY_ORDER dvd N"
        "buddy_end_pfn bs \<le> 2 ^ 20"
      and l: "lists_ok bs F" and t: "tiles N (?A \<union> {} \<union> Fr F)"
      and d: "?A \<inter> Fr F = {}" and mk: "marks_ok bs N ?A F" and nb: "no_buddies F"
      using Suc.prems(1) unfolding binv_def by blast
    have child: "(c, n) \<notin> A \<union> Fr F" if "n = 2 * m \<or> n = Suc (2 * m)" for n
    proof
      assume a: "(c, n) \<in> A \<union> Fr F"
      have "block_head (c, n) \<in> blk (Suc c, m)" using that by (auto simp: blk_children)
      then have "(Suc c, m) = (c, n)" using a by (intro tiles_overlap [OF t]) auto
      then show False by simp
    qed
    define p where "p = bpage bs (Suc c, m)"
    define b where "b = bpage bs (c, Suc (2 * m))"
    have pb: "p + 2 ^ c = b" "p = bpage bs (c, 2 * m)"
      by (simp_all add: p_def b_def bpage_def block_head_def algebra_simps)
    define bs1 where "bs1 = set_bplevel b (of_nat c) (add_nr_free c 1 (push_page c b bs))"
    have eq: "split_block p k (Suc c) bs = split_block (bpage bs1 (c, 2 * m)) k c bs1"
      unfolding split_block.simps Let_def pb(1) using True pb(2) by (simp add: bs1_def)
    have l1: "lists_ok bs1 ?F" using lists_ok_push [OF l, of "Suc (2 * m)" c] child by (simp add: bs1_def b_def)
    have Fr1: "Fr ?F = insert (c, Suc (2 * m)) (Fr F)" by (auto simp: Fr_upd)
    have "insert (c, 2 * m) (insert (c, Suc (2 * m)) (?A \<union> {} \<union> Fr F - {(Suc c, m)})) = ?A' \<union> {} \<union> Fr ?F"
      using d Suc.prems(2) unfolding Fr1 by auto
    then have t1: "tiles N (?A' \<union> {} \<union> Fr ?F)"
      using tiles_split [OF t, of c m] by simp
    have im: "block_head ` ?A' = block_head ` ?A" by (simp add: block_head_def mult_ac)
    have u: "block_head (j, n) \<noteq> block_head (c, Suc (2 * m))" if "n \<in> set (F j)" for j n
      using tiles_head [OF t1, of "(j, n)" "(c, Suc (2 * m))"] that child Fr1 by auto
    have mk1: "marks_ok bs1 N ?A' ?F"
      using mk u unfolding marks_ok_def im by (auto simp: bs1_def b_def bpage_inj split: if_splits)
    have nb1: "no_buddies ?F"
      using nb child unfolding no_buddies_def by auto (metis UnCI bud_children(2) bud_parent(4) mem_Fr)
    have "binv bs1 ?A' {} ?F" unfolding binv_def
      using N l1 t1 mk1 nb1 d child Fr1 by (intro exI [of _ N]) (auto simp: bs1_def)
    moreover have "(c, 2 * m) \<notin> A" using child by blast
    ultimately obtain F' m' where "binv (split_block (bpage bs1 (c, 2 * m)) k c bs1) (insert (k, m') A) {} F'"
        "(k, m') \<notin> A" "bpage bs1 (c, 2 * m) = bpage (split_block (bpage bs1 (c, 2 * m)) k c bs1) (k, m')"
      and fr: "\<forall>b \<in> ?A'. pages (split_block (bpage bs1 (c, 2 * m)) k c bs1) (bpage bs1 b) = pages bs1 (bpage bs1 b)"
      using Suc.IH [of bs1 "2 * m" ?F] True by (meson less_Suc_eq_le)
    moreover have p1: "bpage bs1 (c, 2 * m) = p" using pb(2) by (simp add: bs1_def)
    moreover have "pages (split_block (bpage bs1 (c, 2 * m)) k c bs1) (bpage bs x) = pages bs (bpage bs x)"
      if x: "x \<in> ?A" for x
    proof -
      have e: "bpage bs1 = bpage bs" by (simp add: bs1_def)
      have "bpage bs (Suc c, m) = bpage bs (c, 2 * m)" using pb(2) p_def by simp
      then obtain y where y: "y \<in> ?A'" "bpage bs x = bpage bs y" using x by blast
      have "block_head y \<noteq> block_head (c, Suc (2 * m))"
        using tiles_head [OF t1, of y "(c, Suc (2 * m))"] y(1) child Fr1 by auto
      then have "pages bs1 (bpage bs y) = pages bs (bpage bs y)"
        by (simp add: bs1_def b_def bpage_inj)
      then show ?thesis using bspec [OF fr y(1)] y(2) unfolding e by simp
    qed
    ultimately show ?thesis unfolding p_def [symmetric] eq by auto
  qed
qed

lemma lists_ok_cong:
  "freelists bs = freelists bs' \<Longrightarrow> buddy_start_pfn bs = buddy_start_pfn bs' \<Longrightarrow> lists_ok bs F = lists_ok bs' F"
  by (simp add: lists_ok_def bpage_def)

lemma take_block_inv:
  assumes inv: "binv bs A {} F" and c: "m \<in> set (F c)"
    and bs1: "bs1 = add_nr_free c (- 1) (set_flag (bpage bs (c, m)) PAGE_ALLOCED
        (set_bplevel (bpage bs (c, m)) v (unlink_page (bpage bs (c, m)) bs)))"
  shows "binv bs1 (insert (c, m) A) {} (F(c := remove1 m (F c)))" and "(c, m) \<notin> A"
    and "b \<in> A \<Longrightarrow> pages bs1 (bpage bs b) = pages bs (bpage bs b)"
proof -
  let ?F = "F(c := remove1 m (F c))" and ?A = "insert (c, m) A"
  obtain N where N: "buddy_end_pfn bs = buddy_start_pfn bs + N" "2 ^ MAX_BUDDY_ORDER dvd N"
      "buddy_end_pfn bs \<le> 2 ^ 20"
    and l: "lists_ok bs F" and t: "tiles N (A \<union> {} \<union> Fr F)"
    and d: "A \<inter> Fr F = {}" and mk: "marks_ok bs N A F" and nb: "no_buddies F"
    using inv unfolding binv_def by blast
  show "(c, m) \<notin> A" using c d by auto
  have dist: "distinct (F c)" using l by (simp add: lists_ok_def)
  have Fr: "Fr ?F = Fr F - {(c, m)}" using dist by (auto simp: Fr_upd set_remove1_eq)
  have u: "block_head (j, n) \<noteq> block_head (c, m)" if "n \<in> set (F j)" "(j, n) \<noteq> (c, m)" for j n
    using tiles_head [OF t, of "(j, n)" "(c, m)"] that c by auto
  have "lists_ok (add_nr_free c (- 1) (unlink_page (bpage bs (c, m)) bs)) ?F"
    using lists_ok_unlink [OF l c] u by auto
  then have l1: "lists_ok bs1 ?F"
    by (rule lists_ok_cong [THEN iffD1, rotated 2]) (simp_all add: bs1 add_nr_free_def set_flag_def set_bplevel_def unlink_page_def)
  have "?A \<union> {} \<union> Fr ?F = A \<union> {} \<union> Fr F" unfolding Fr using c by auto
  then have t1: "tiles N (?A \<union> {} \<union> Fr ?F)" using t by simp
  have fl: "PAGE_ALLOCED \<noteq> PG_FREE" by (simp add: PAGE_ALLOCED_def PG_FREE_def)
  have mk1: "marks_ok bs1 N ?A ?F"
    unfolding marks_ok_def
  proof (intro conjI allI impI)
    fix q assume "q < N"
    then show "(pg_flag (pages bs1 (buddy_start_pfn bs1 + q)) = PG_FREE) = (q \<notin> block_head ` ?A)"
      using mk fl by (auto simp: marks_ok_def bs1 bpage_def)
  next
    fix j n assume n: "n \<in> set (?F j)"
    then have "(j, n) \<noteq> (c, m)" "n \<in> set (F j)" using dist by (auto dest: notin_set_remove1 split: if_splits)
    then show "pg_bplevel (pages bs1 (bpage bs1 (j, n))) = of_nat j"
      using mk u [of n j] by (auto simp: marks_ok_def bs1 bpage_inj)
  qed
  show "pages bs1 (bpage bs b) = pages bs (bpage bs b)" if "b \<in> A"
  proof -
    have "block_head b \<noteq> block_head (c, m)"
      using tiles_head [OF t, of b "(c, m)"] that c d by auto
    then show ?thesis by (simp add: bs1 bpage_inj)
  qed
  have "no_buddies ?F" using nb by (auto simp: no_buddies_def dest: notin_set_remove1)
  then show "binv bs1 ?A {} ?F" unfolding binv_def
    using N l1 t1 d mk1 by (intro exI [of _ N]) (auto simp: bs1 Fr)
qed

lemma alloc_pages_at_inv:
  assumes inv: "buddy_inv bs A" and r: "alloc_pages_at k bs = (r, bs')"
  shows "case r of
      None \<Rightarrow> bs' = bs \<and> (\<forall>j. k \<le> j \<and> j \<le> MAX_BUDDY_ORDER \<longrightarrow> free_head (freelists bs j) = [])
    | Some p \<Rightarrow> \<exists>m. p = bpage bs' (k, m) \<and> (k, m) \<notin> A \<and> buddy_inv bs' (insert (k, m) A)
        \<and> pg_flag (pages bs' p) = PAGE_ALLOCED \<and> pg_bplevel (pages bs' p) = of_nat k
        \<and> (\<forall>b \<in> A. pages bs' (bpage bs b) = pages bs (bpage bs b))"
proof (cases "find_order k bs")
  case None
  then show ?thesis using r find_order_None [of k bs] by (auto simp: alloc_pages_at_def)
next
  case (Some c)
  have c: "k \<le> c" "free_head (freelists bs c) \<noteq> []" using find_order_Some [OF Some] by auto
  obtain F where F: "binv bs A {} F" using inv unfolding buddy_inv_def by blast
  then have l: "lists_ok bs F" unfolding binv_def by blast
  have ne: "F c \<noteq> []" using c lists_ok_empty [OF l] by simp
  define m where "m = hd (F c)"
  have m: "m \<in> set (F c)" using ne by (simp add: m_def)
  have p: "hd (free_head (freelists bs c)) = bpage bs (c, m)" using lists_ok_hd [OF l ne] by (simp add: m_def)
  define bs1 where "bs1 = add_nr_free c (- 1) (set_flag (bpage bs (c, m)) PAGE_ALLOCED
        (set_bplevel (bpage bs (c, m)) (of_nat k) (unlink_page (bpage bs (c, m)) bs)))"
  have e: "bpage bs1 = bpage bs" by (simp add: bs1_def)
  have "alloc_pages_at k bs = (Some (bpage bs1 (c, m)), split_block (bpage bs1 (c, m)) k c bs1)"
    unfolding e by (simp add: alloc_pages_at_def Some Let_def p bs1_def)
  moreover obtain F' m' where "binv (split_block (bpage bs1 (c, m)) k c bs1) (insert (k, m') A) {} F'"
      "(k, m') \<notin> A" "bpage bs1 (c, m) = bpage (split_block (bpage bs1 (c, m)) k c bs1) (k, m')"
    and fr: "\<forall>b \<in> insert (c, m) A.
      pages (split_block (bpage bs1 (c, m)) k c bs1) (bpage bs1 b) = pages bs1 (bpage bs1 b)"
    using split_block_inv [OF take_block_inv(1,2) [OF F m bs1_def] c(1)] by blast
  moreover have "pages (split_block (bpage bs1 (c, m)) k c bs1) (bpage bs b) = pages bs (bpage bs b)"
    if "b \<in> A" for b
    using fr take_block_inv(3) [OF F m bs1_def that] that unfolding e by simp
  moreover have "pg_flag (pages bs1 (bpage bs1 (c, m))) = PAGE_ALLOCED"
    "pg_bplevel (pages bs1 (bpage bs1 (c, m))) = of_nat k"
    by (simp_all add: bs1_def)
  ultimately show ?thesis using r unfolding buddy_inv_def by auto
qed

subsection \<open>Initialisation and coalescing\<close>

text \<open>When no block is in use, every free block has the maximal order.\<close>

lemma all_free_coalesced:
  assumes inv: "buddy_inv bs {}" and k: "k < MAX_BUDDY_ORDER"
  shows "free_head (freelists bs k) = []"
proof -
  obtain F N where N: "2 ^ MAX_BUDDY_ORDER dvd N" and l: "lists_ok bs F" and t: "tiles N (Fr F)"
    and nb: "no_buddies F"
    using inv unfolding binv_def buddy_inv_def by auto
  have "F k = []" using k
  proof (induction k rule: less_induct)
    case (less k)
    show ?case
    proof (rule ccontr)
      assume "F k \<noteq> []"
      then obtain m where m: "m \<in> set (F k)" by (meson last_in_set)
      obtain j n where j: "(j, n) \<in> Fr F" "block_head (j, n) = block_head (k, bud m)"
        using tiles_buddy_head [OF t _ less.prems N] m by (metis mem_Fr)
      have "k \<le> j" using less.IH [of j] less.prems j(1) by (cases "j < k") auto
      moreover have "j = k" if "k < j"
      proof -
        have "(2 :: nat) ^ j = 2 ^ Suc k * 2 ^ (j - Suc k)"
          using \<open>k < j\<close> by (simp only: power_add [symmetric]) simp
        then have "2 ^ k * bud m = 2 ^ k * (2 * (2 ^ (j - Suc k) * n))"
          using j(2) by (simp add: block_head_def)
        then have "bud m = 2 * (2 ^ (j - Suc k) * n)" by (simp only: mult_cancel1) simp
        then have "bud m div 2 = 2 ^ (j - Suc k) * n" by simp
        then have "m div 2 = 2 ^ (j - Suc k) * n" by simp
        then have "block_head (k, m) div 2 ^ Suc k = 2 ^ (j - Suc k) * n"
          by (simp add: block_head_def div_Suc_exp del: power_Suc)
        then have "block_head (k, m) div 2 ^ Suc k div 2 ^ (j - Suc k) = n" by simp
        then have "block_head (k, m) div 2 ^ j = n"
          using \<open>k < j\<close> by (metis Suc_leI div_mult2_eq le_add_diff_inverse power_add)
        then have "block_head (k, m) \<in> blk (j, n)" by (simp add: blk_def)
        then have "(k, m) = (j, n)" using m j(1) by (intro tiles_overlap [OF t]) auto
        then show ?thesis by simp
      qed
      ultimately have "j = k" by force
      then have "bud m \<in> set (F k)" using j by (simp add: block_head_inj)
      then show False using nb m less.prems unfolding no_buddies_def by blast
    qed
  qed
  then show ?thesis using lists_ok_empty [OF l] by simp
qed

subsection \<open>The pages of a block\<close>

definition block_pages :: "nat \<Rightarrow> nat \<Rightarrow> nat set" where
  "block_pages k p = {p..<p + 2 ^ k}"

lemma blk_interval: "blk (k, m) = {2 ^ k * m..<2 ^ k * m + 2 ^ k}"
proof -
  have "x div 2 ^ k = m \<longleftrightarrow> 2 ^ k * m \<le> x \<and> x < 2 ^ k * m + 2 ^ k" for x :: nat
  proof
    assume "x div 2 ^ k = m"
    then show "2 ^ k * m \<le> x \<and> x < 2 ^ k * m + 2 ^ k"
      using mult_div_mod_eq [of "2 ^ k" x] mod_less_divisor [of "2 ^ k" x]
      by (metis add_less_cancel_left le_add1 zero_less_numeral zero_less_power)
  next
    assume "2 ^ k * m \<le> x \<and> x < 2 ^ k * m + 2 ^ k"
    then show "x div 2 ^ k = m" by (intro div_nat_eqI) simp_all
  qed
  then show ?thesis
    by (simp only: blk_def fst_conv snd_conv set_eq_iff mem_Collect_eq atLeastLessThan_iff) simp
qed

lemma block_pages_blk: "block_pages k (bpage bs (k, m)) = (\<lambda>x. buddy_start_pfn bs + x) ` blk (k, m)"
  by (simp add: block_pages_def bpage_def block_head_def blk_interval add_ac image_add_atLeastLessThan)

lemma blocks_disjoint:
  assumes "buddy_inv bs A" and "(k, m) \<in> A" and "(j, n) \<in> A" and "(k, m) \<noteq> (j, n)"
  shows "block_pages k (bpage bs (k, m)) \<inter> block_pages j (bpage bs (j, n)) = {}"
proof -
  obtain F N where t: "tiles N (A \<union> {} \<union> Fr F)" using assms(1) unfolding buddy_inv_def binv_def by blast
  have "blk (k, m) \<inter> blk (j, n) = {}" using tiles_disjoint [OF t] assms(2-) by blast
  then show ?thesis by (auto simp: block_pages_blk)
qed

lemma block_in_area:
  assumes "buddy_inv bs A" and "(k, m) \<in> A"
  shows "block_pages k (bpage bs (k, m)) \<subseteq> {buddy_start_pfn bs..<buddy_end_pfn bs}"
    and "buddy_end_pfn bs \<le> 2 ^ 20"
proof -
  obtain F N where N: "buddy_end_pfn bs = buddy_start_pfn bs + N" "buddy_end_pfn bs \<le> 2 ^ 20"
      "tiles N (A \<union> {} \<union> Fr F)"
    using assms(1) unfolding buddy_inv_def binv_def by blast
  then have "blk (k, m) \<subseteq> {..<N}" using assms(2) unfolding tiles_def by blast
  then show "block_pages k (bpage bs (k, m)) \<subseteq> {buddy_start_pfn bs..<buddy_end_pfn bs}"
    using N(1) by (auto simp: block_pages_blk)
  show "buddy_end_pfn bs \<le> 2 ^ 20" by (rule N(2))
qed

subsection \<open>Start-up\<close>

lemma init_pages_eq:
  "init_pages s e pgs p = (if s \<le> p \<and> p < e then reserved_page (pgs p) else pgs p)"
proof -
  have "fold (\<lambda>i pgs. pgs(i := reserved_page (pgs i))) xs pgs p
    = (if p \<in> set xs then reserved_page (pgs p) else pgs p)" if "distinct xs" for xs
    using that by (induction xs arbitrary: pgs) auto
  from this [of "[s..<e]"] show ?thesis by (simp add: init_pages_def)
qed

lemma free_all_inv:
  assumes "buddy_inv bs ((\<lambda>q. (0, q)) ` {i..<n})" and "i \<le> n" and "s = buddy_start_pfn bs"
  shows "buddy_inv (fold (\<lambda>i bs. free_pages_at i 0 bs) [s + i..<s + n] bs) {}"
  using assms
proof (induction "n - i" arbitrary: i bs)
  case 0
  then show ?case by simp
next
  case (Suc d)
  let ?A = "\<lambda>i. (\<lambda>q. (0, q)) ` {i..<n} :: block set"
  have i: "i < n" using Suc.hyps(2) by simp
  have p: "bpage bs (0, i) = s + i" using Suc.prems by (simp add: bpage_def block_head_def)
  have "?A i - {(0, i)} = ?A (Suc i)" using i by auto
  moreover have "(0, i) \<in> ?A i" using i by simp
  ultimately have "buddy_inv (free_pages_at (s + i) 0 bs) (?A (Suc i))"
    using free_pages_at_inv [OF Suc.prems(1), of 0 i] p by simp
  moreover have "buddy_start_pfn (free_pages_at (s + i) 0 bs) = s" using Suc.prems(3) by simp
  ultimately have "buddy_inv (fold (\<lambda>i bs. free_pages_at i 0 bs) [s + Suc i..<s + n] (free_pages_at (s + i) 0 bs)) {}"
    using Suc.hyps i by (intro Suc.hyps(1)) auto
  then show ?case using i by (simp add: upt_conv_Cons)
qed

text \<open>Before the pages are freed each of them counts as a block of order 0 in use.\<close>

lemma all_reserved_inv:
  assumes "2 ^ MAX_BUDDY_ORDER dvd n" and "s + n \<le> 2 ^ 20" and "\<And>p. s \<le> p \<Longrightarrow> p < s + n \<Longrightarrow> pg_flag (pgs p) = PAGE_RESERVED"
  shows "buddy_inv \<lparr>buddy_start_pfn = s, buddy_end_pfn = s + n,
    freelists = (\<lambda>_. \<lparr>nr_free = 0, free_head = []\<rparr>), pages = pgs\<rparr> ((\<lambda>q. (0, q)) ` {0..<n})"
proof -
  let ?bs = "\<lparr>buddy_start_pfn = s, buddy_end_pfn = s + n,
    freelists = (\<lambda>_. \<lparr>nr_free = 0, free_head = []\<rparr>), pages = pgs\<rparr>"
  have "tiles n ((\<lambda>q. (0, q)) ` {0..<n})" by (auto simp: tiles_def blk_def)
  moreover have "PAGE_RESERVED \<noteq> PG_FREE" by (simp add: PAGE_RESERVED_def PG_FREE_def)
  moreover have "block_head ` (\<lambda>q. (0, q)) ` {0..<n} = {0..<n}" by (simp add: image_image block_head_def)
  moreover have "Fr (\<lambda>_. []) = {}" by (simp add: Fr_def)
  ultimately have "binv ?bs ((\<lambda>q. (0, q)) ` {0..<n}) {} (\<lambda>_. [])"
    using assms unfolding binv_def
    by (intro exI [of _ n]) (simp add: lists_ok_def marks_ok_def no_buddies_def)
  then show ?thesis unfolding buddy_inv_def by blast
qed

lemma align_order:
  "2 ^ MAX_BUDDY_ORDER dvd unat (w AND NOT (push_bit MAX_BUDDY_ORDER 1 - 1) :: u32)"
  "unat (w AND NOT (push_bit MAX_BUDDY_ORDER 1 - 1) :: u32) \<le> unat w"
proof -
  have "(push_bit MAX_BUDDY_ORDER 1 - 1 :: u32) = mask MAX_BUDDY_ORDER"
    by (simp add: mask_eq_exp_minus_1)
  moreover have "w AND NOT (mask MAX_BUDDY_ORDER) = push_bit MAX_BUDDY_ORDER (drop_bit MAX_BUDDY_ORDER w)"
    by (rule bit_word_eqI) (auto simp: bit_simps MAX_BUDDY_ORDER_def)
  moreover have "unat (push_bit MAX_BUDDY_ORDER (drop_bit MAX_BUDDY_ORDER w)) = 16 * (unat w div 16)"
  proof -
    have "unat w < 2 ^ 32" using unsigned_less [of w, where 'a = nat] by simp
    then have "16 * (unat w div 16) < 2 ^ 32" by (meson le_less_trans times_div_less_eq_dividend)
    then show ?thesis
      by (simp only: MAX_BUDDY_ORDER_def unsigned_push_bit_eq unsigned_drop_bit_eq)
        (simp add: drop_bit_eq_div push_bit_eq_mult take_bit_eq_mod unat_div mult.commute)
  qed
  ultimately show "2 ^ MAX_BUDDY_ORDER dvd unat (w AND NOT (push_bit MAX_BUDDY_ORDER 1 - 1) :: u32)"
    "unat (w AND NOT (push_bit MAX_BUDDY_ORDER 1 - 1) :: u32) \<le> unat w"
    by (simp_all add: MAX_BUDDY_ORDER_def)
qed

lemma init_buddy_inv:
  assumes i: "init_buddy mem bmm = Some (a, bmm', bs)"
    and m: "unat (max_pfn bmm') \<le> 2 ^ 20" and le: "buddy_start_pfn bs \<le> buddy_end_pfn bs"
  shows "buddy_inv bs {} \<and> buddy_end_pfn bs \<le> unat (max_pfn bmm')"
proof -
  obtain res where res: "bootmm_alloc_pages (sizeof_page * max_pfn bmm) MM_KERNEL bmm = Some (res, bmm')"
    using i by (auto simp: init_buddy_def Let_def crash_simps)
  define st where "st = unat ((drop_bit PAGE_SHIFT (kernel_end (take (cnt_infos bmm') (mm_info bmm'))) + 1
    + (push_bit MAX_BUDDY_ORDER 1 - 1)) AND NOT (push_bit MAX_BUDDY_ORDER 1 - 1))"
  define fin where "fin = unat (max_pfn bmm' AND NOT (push_bit MAX_BUDDY_ORDER 1 - 1))"
  define pgs where "pgs = init_pages 0 (unat (max_pfn bmm')) mem"
  define b0 where "b0 = \<lparr>buddy_start_pfn = st, buddy_end_pfn = fin,
               freelists = (\<lambda>_. \<lparr>nr_free = 0, free_head = []\<rparr>), pages = pgs\<rparr>"
  have geo: "buddy_start_pfn (fold (\<lambda>i bs. free_pages_at i 0 bs) xs b) = buddy_start_pfn b"
    "buddy_end_pfn (fold (\<lambda>i bs. free_pages_at i 0 bs) xs b) = buddy_end_pfn b" for xs b
    by (induction xs arbitrary: b) simp_all
  have bs: "bs = fold (\<lambda>i bs. free_pages_at i 0 bs) [st..<fin] b0"
    using i unfolding init_buddy_def res bind.bind_lunit prod.case Let_def st_def fin_def pgs_def b0_def
    by (simp only: option.inject prod.inject)
  have le': "st \<le> fin" using le by (simp add: bs geo b0_def)
  have fin: "fin \<le> unat (max_pfn bmm')" "2 ^ MAX_BUDDY_ORDER dvd fin" "2 ^ MAX_BUDDY_ORDER dvd st"
    unfolding fin_def st_def by (rule align_order)+
  define n where "n = fin - st"
  have n: "fin = st + n" "2 ^ MAX_BUDDY_ORDER dvd n" using le' fin by (simp_all add: n_def dvd_diff_nat)
  have "pg_flag (pgs p) = PAGE_RESERVED" if "st \<le> p" "p < st + n" for p
    using that fin n by (simp add: pgs_def init_pages_eq reserved_page_def)
  then have "buddy_inv b0 ((\<lambda>q. (0, q)) ` {0..<n})"
    unfolding b0_def n(1) using fin m n by (intro all_reserved_inv) auto
  then have "buddy_inv (fold (\<lambda>i bs. free_pages_at i 0 bs) [st + 0..<st + n] b0) {}"
    by (rule free_all_inv) (simp_all add: b0_def)
  then show ?thesis using bs n fin by (simp add: geo b0_def)
qed

section \<open>The page allocator as an interface\<close>

text \<open>
  \<open>block_alloc\<close> is what the clients of the page allocator (\<open>kmalloc\<close> and the virtual memory
  code) rely on: \<open>inv s B\<close> says that the blocks \<open>B\<close>, pairs of an order and a first page, are
  in use in the state \<open>s\<close>.
\<close>

locale block_alloc =
  fixes grab :: "nat \<Rightarrow> 's \<Rightarrow> nat option \<times> 's"
    and release :: "nat \<Rightarrow> nat \<Rightarrow> 's \<Rightarrow> 's"
    and inv :: "'s \<Rightarrow> (nat \<times> nat) set \<Rightarrow> bool"
    and desc :: "'s \<Rightarrow> nat \<Rightarrow> page"
  assumes grab_some: "inv s B \<Longrightarrow> grab k s = (Some p, s') \<Longrightarrow> (k, p) \<notin> B \<and> inv s' (insert (k, p) B)"
    and grab_none: "inv s B \<Longrightarrow> grab k s = (None, s') \<Longrightarrow> s' = s"
    and release_inv: "inv s B \<Longrightarrow> (k, p) \<in> B \<Longrightarrow> inv (release p k s) (B - {(k, p)})"
    and apart: "inv s B \<Longrightarrow> (k, p) \<in> B \<Longrightarrow> (j, q) \<in> B \<Longrightarrow> (k, p) \<noteq> (j, q) \<Longrightarrow>
      block_pages k p \<inter> block_pages j q = {}"
    and grab_desc: "inv s B \<Longrightarrow> grab k s = (Some p, s') \<Longrightarrow>
      pg_flag (desc s' p) = PAGE_ALLOCED \<and> pg_bplevel (desc s' p) = of_nat k"
    and grab_frame: "inv s B \<Longrightarrow> grab k s = (r, s') \<Longrightarrow> (j, q) \<in> B \<Longrightarrow> desc s' q = desc s q"
    and release_frame: "inv s B \<Longrightarrow> (k, p) \<in> B \<Longrightarrow> (j, q) \<in> B - {(k, p)} \<Longrightarrow>
      desc (release p k s) q = desc s q"
begin

lemma grab_fresh:
  assumes "inv s B" and "grab k s = (Some p, s')" and "(j, q) \<in> B"
  shows "block_pages k p \<inter> block_pages j q = {}"
proof -
  have g: "(k, p) \<notin> B" "inv s' (insert (k, p) B)" using grab_some [OF assms(1,2)] by simp_all
  show ?thesis by (rule apart [OF g(2)]) (use g(1) assms(3) in auto)
qed

lemma grab_inv: "inv s B \<Longrightarrow> grab k s = (r, s') \<Longrightarrow> \<exists>B'. inv s' B' \<and> B \<subseteq> B'"
  using grab_some grab_none by (cases r) blast+

lemma grab_release:
  assumes "inv s B" and "grab k s = (Some p, s')"
  shows "inv (release p k s') B"
  using release_inv [of s' "insert (k, p) B" k p] grab_some [OF assms] by auto

text \<open>Two grabs in a row never share a page.\<close>

lemma grab_twice:
  assumes "inv s B" and "grab k s = (Some p, s1)" and "grab j s1 = (Some q, s2)"
  shows "block_pages k p \<inter> block_pages j q = {}"
proof -
  have "inv s1 (insert (k, p) B)" using grab_some [OF assms(1,2)] by simp
  from grab_fresh [OF this assms(3), of k p] show ?thesis by auto
qed

end

definition pages_owned :: "buddy_sys \<Rightarrow> (nat \<times> nat) set \<Rightarrow> bool" where
  "pages_owned bs B \<longleftrightarrow> (\<exists>A. buddy_inv bs A \<and> B = (\<lambda>b. (fst b, bpage bs b)) ` A)"

lemma bpage_eq_iff: "bpage bs (k, m) = bpage bs (k, n) \<longleftrightarrow> m = n"
  by (simp add: bpage_inj block_head_inj)

lemma alloc_pages_at_start: "alloc_pages_at k bs = (r, bs') \<Longrightarrow> bpage bs' = bpage bs"
  by (auto simp: alloc_pages_at_def Let_def bpage_def fun_eq_iff split: option.splits)

lemma free_pages_at_start: "bpage (free_pages_at p k bs) = bpage bs"
  by (simp add: bpage_def fun_eq_iff)

interpretation pages: block_alloc alloc_pages_at free_pages_at pages_owned pages
proof unfold_locales
  fix s B k p s'
  assume "pages_owned s B" "alloc_pages_at k s = (Some p, s')"
  then obtain A where a0: "buddy_inv s A" "B = (\<lambda>b. (fst b, bpage s b)) ` A"
    unfolding pages_owned_def by blast
  have al: "alloc_pages_at k s = (Some p, s')" by fact
  obtain m where a: "p = bpage s' (k, m)" "(k, m) \<notin> A" "buddy_inv s' (insert (k, m) A)"
    using alloc_pages_at_inv [OF a0(1) al] by auto
  have e: "bpage s' = bpage s" using alloc_pages_at_start [OF al] .
  have "(k, p) \<notin> B" using a(1,2) a0(2) by (auto simp: e bpage_eq_iff)
  moreover have "insert (k, p) B = (\<lambda>b. (fst b, bpage s' b)) ` insert (k, m) A"
    by (simp add: a(1) a0(2) e)
  ultimately show "(k, p) \<notin> B \<and> pages_owned s' (insert (k, p) B)"
    unfolding pages_owned_def using a(3) by blast
next
  fix s B k s'
  assume o: "pages_owned s B" and al: "alloc_pages_at k s = (None, s')"
  obtain A where "buddy_inv s A" using o unfolding pages_owned_def by blast
  from alloc_pages_at_inv [OF this al] show "s' = s" by simp
next
  fix s B k p
  assume o: "pages_owned s B" and b: "(k, p) \<in> B"
  obtain A where a: "buddy_inv s A" "B = (\<lambda>b. (fst b, bpage s b)) ` A"
    using o unfolding pages_owned_def by blast
  obtain m where m: "(k, m) \<in> A" "p = bpage s (k, m)" using b a(2) by auto
  have "(k', m') = (k, m) \<longleftrightarrow> (k', bpage s (k', m')) = (k, p)" for k' m'
    using m(2) by (auto simp: bpage_eq_iff)
  then have "(\<lambda>b. (fst b, bpage s b)) ` (A - {(k, m)}) = B - {(k, p)}"
    unfolding a(2) by (force simp: image_iff)
  then show "pages_owned (free_pages_at p k s) (B - {(k, p)})"
    using free_pages_at_inv(1) [OF a(1) m(1)] m(2) free_pages_at_start unfolding pages_owned_def
    by (intro exI [of _ "A - {(k, m)}"]) simp
next
  fix s B k p j q
  assume o: "pages_owned s B" and b: "(k, p) \<in> B" "(j, q) \<in> B" "(k, p) \<noteq> (j, q)"
  obtain A where a: "buddy_inv s A" "B = (\<lambda>b. (fst b, bpage s b)) ` A"
    using o unfolding pages_owned_def by blast
  obtain m n where "(k, m) \<in> A" "(j, n) \<in> A" "p = bpage s (k, m)" "q = bpage s (j, n)"
    using b(1,2) a(2) by auto
  then show "block_pages k p \<inter> block_pages j q = {}"
    using blocks_disjoint [OF a(1)] b(3) by blast
next
  fix s B k p s'
  assume o: "pages_owned s B" and al: "alloc_pages_at k s = (Some p, s')"
  obtain A where "buddy_inv s A" using o unfolding pages_owned_def by blast
  from alloc_pages_at_inv [OF this al]
  show "pg_flag (pages s' p) = PAGE_ALLOCED \<and> pg_bplevel (pages s' p) = of_nat k" by auto
next
  fix s B k r s' j q
  assume o: "pages_owned s B" and al: "alloc_pages_at k s = (r, s')" and b: "(j, q) \<in> B"
  obtain A where a: "buddy_inv s A" "B = (\<lambda>b. (fst b, bpage s b)) ` A"
    using o unfolding pages_owned_def by blast
  show "pages s' q = pages s q"
    using alloc_pages_at_inv [OF a(1) al] b a(2) by (cases r) auto
next
  fix s B k p j q
  assume o: "pages_owned s B" and b: "(k, p) \<in> B" "(j, q) \<in> B - {(k, p)}"
  obtain A where a: "buddy_inv s A" "B = (\<lambda>b. (fst b, bpage s b)) ` A"
    using o unfolding pages_owned_def by blast
  obtain m n where m: "(k, m) \<in> A" "p = bpage s (k, m)" "(j, n) \<in> A" "q = bpage s (j, n)"
    using b a(2) by auto
  have "(j, n) \<in> A - {(k, m)}" using m b(2) by auto
  from free_pages_at_inv(2) [OF a(1) m(1) this] show "pages (free_pages_at p k s) q = pages s q"
    using m by simp
qed

section \<open>What the kernel sees\<close>

lemma owned_in_area:
  assumes "pages_owned bs B" and "(k, p) \<in> B"
  shows "buddy_start_pfn bs \<le> p" and "p < 2 ^ 20"
proof -
  obtain A m where a: "buddy_inv bs A" "(k, m) \<in> A" "p = bpage bs (k, m)"
    using assms unfolding pages_owned_def by auto
  have "p \<in> block_pages k p" by (simp add: block_pages_def)
  then have "p \<in> {buddy_start_pfn bs..<buddy_end_pfn bs}" "buddy_end_pfn bs \<le> 2 ^ 20"
    using block_in_area [OF a(1,2)] a(3) by blast+
  then show "buddy_start_pfn bs \<le> p" "p < 2 ^ 20" by simp_all
qed

lemma page_address_neq_0: "0 < p \<Longrightarrow> p < 2 ^ 20 \<Longrightarrow> push_bit PAGE_SHIFT (of_nat p) \<noteq> (0 :: u32)"
  using page_address [of p] by (metis mult_eq_0_iff neq0_conv unat_0 zero_neq_numeral)

lemma address_page: "p < 2 ^ 20 \<Longrightarrow> unat (drop_bit PAGE_SHIFT (push_bit PAGE_SHIFT (of_nat p) :: u32)) = p"
proof -
  assume "p < 2 ^ 20"
  then have "unat (push_bit PAGE_SHIFT (of_nat p) :: u32) = p * 4096" by (rule page_address)
  then show ?thesis
    by (simp add: PAGE_SHIFT_def drop_bit_eq_div unat_div)
qed

text \<open>A small area of 16 pages, all free, for the examples.\<close>

definition sample_buddy :: buddy_sys where
  "sample_buddy = \<lparr>buddy_start_pfn = 16, buddy_end_pfn = 32,
     freelists = (\<lambda>k. if k = 4 then \<lparr>nr_free = 1, free_head = [16]\<rparr> else \<lparr>nr_free = 0, free_head = []\<rparr>),
     pages = (\<lambda>_. \<lparr>pg_flag = PG_FREE, pg_reference = 1, pg_virtual = - 1, pg_bplevel = 4, pg_slabp = 0\<rparr>)\<rparr>"

lemma sample_buddy_owned: "pages_owned sample_buddy {}"
proof -
  define F :: "nat \<Rightarrow> nat list" where "F = (\<lambda>k. if k = 4 then [0] else [])"
  have fr: "Fr F = {(4, 0)}" by (auto simp: Fr_def F_def split: if_splits)
  have t: "tiles 16 (Fr F)" by (auto simp: fr tiles_def blk_interval MAX_BUDDY_ORDER_def)
  have "binv sample_buddy {} {} F"
    unfolding binv_def using t
    by (intro exI [of _ 16])
      (auto simp: sample_buddy_def lists_ok_def marks_ok_def no_buddies_def F_def bpage_def
        block_head_def MAX_BUDDY_ORDER_def split: if_splits)
  then show ?thesis unfolding pages_owned_def buddy_inv_def by auto
qed

text \<open>C24: \<open>alloc_pages\<close> either fails, changing nothing, when no free list of the order asked for
  or above holds a block, or returns the address of a block of that order which shares no page
  with any block in use, and the block is in use from then on.\<close>

theorem alloc_pages_correct:
  assumes "pages_owned bs B" and "0 < buddy_start_pfn bs" and "alloc_pages k bs = (a, bs')"
  shows "if a = 0
    then bs' = bs \<and> (\<forall>j. k \<le> j \<and> j \<le> MAX_BUDDY_ORDER \<longrightarrow> free_head (freelists bs j) = [])
    else \<exists>p. a = push_bit PAGE_SHIFT (of_nat p) \<and> pages_owned bs' (insert (k, p) B)
      \<and> (\<forall>j q. (j, q) \<in> B \<longrightarrow> block_pages k p \<inter> block_pages j q = {})"
proof -
  obtain r where r: "alloc_pages_at k bs = (r, bs')" and a: "a = (case r of None \<Rightarrow> 0 | Some p \<Rightarrow> push_bit PAGE_SHIFT (of_nat p))"
    using assms(3) by (auto simp: alloc_pages_def split: prod.splits option.splits)
  show ?thesis
  proof (cases r)
    case None
    obtain A where "buddy_inv bs A" using assms(1) unfolding pages_owned_def by blast
    from alloc_pages_at_inv [OF this r] show ?thesis using a None by simp
  next
    case (Some p)
    note g = pages.grab_some [OF assms(1) r [unfolded Some]]
    have "bpage bs' = bpage bs" by (rule alloc_pages_at_start [OF r])
    then have "buddy_start_pfn bs' = buddy_start_pfn bs" by (metis add_right_cancel bpage_def)
    then have "0 < p" "p < 2 ^ 20" using owned_in_area [of bs' "insert (k, p) B" k p] g assms(2) by auto
    then have "a \<noteq> 0" using a Some by (simp add: page_address_neq_0)
    then show ?thesis using g pages.grab_fresh [OF assms(1) r [unfolded Some]] a Some by auto
  qed
qed

theorem alloc_pages_correct_witness:
  "\<exists>bs'. alloc_pages 1 sample_buddy = (0x10000, bs') \<and> pages_owned bs' {(1, 16)}"
proof -
  have "fst (alloc_pages 1 sample_buddy) = 0x10000"
    by (simp add: alloc_pages_def alloc_pages_at_def find_order.simps sample_buddy_def MAX_BUDDY_ORDER_def
        PAGE_SHIFT_def Let_def)
  then obtain bs' where bs': "alloc_pages 1 sample_buddy = (0x10000, bs')" by (metis prod.collapse)
  moreover have "0 < buddy_start_pfn sample_buddy" by (simp add: sample_buddy_def)
  ultimately obtain p where p: "0x10000 = (push_bit PAGE_SHIFT (of_nat p) :: u32)" "pages_owned bs' {(1, p)}"
    using alloc_pages_correct [OF sample_buddy_owned] by fastforce
  then have "p < 2 ^ 20" using owned_in_area by blast
  then have "p = 16" using address_page [of p] unfolding p(1) [symmetric] by (simp add: PAGE_SHIFT_def)
  then show ?thesis using bs' p(2) by blast
qed

text \<open>C25: \<open>free_pages\<close> of a block in use, with the order it was allocated with, gives back exactly
  that block: the rest stay in use, and the free blocks are merged so that the allocator's
  invariant, no two free buddies included, holds again.\<close>

theorem free_pages_correct:
  assumes "pages_owned bs B" and "(k, p) \<in> B"
  shows "pages_owned (free_pages (push_bit PAGE_SHIFT (of_nat p)) k bs) (B - {(k, p)})"
  using pages.release_inv [OF assms] owned_in_area [OF assms] address_page [of p]
  by (simp add: free_pages_def)

theorem free_pages_correct_witness:
  "\<exists>bs p. pages_owned bs {(1, p)} \<and> pages_owned (free_pages (push_bit PAGE_SHIFT (of_nat p)) 1 bs) {}"
proof -
  obtain p bs where "alloc_pages_at 1 sample_buddy = (Some p, bs)"
    by (simp add: alloc_pages_at_def find_order.simps sample_buddy_def MAX_BUDDY_ORDER_def Let_def)
  then have "pages_owned bs {(1, p)}" using pages.grab_some [OF sample_buddy_owned] by blast
  moreover from free_pages_correct [OF this, of 1 p]
  have "pages_owned (free_pages (push_bit PAGE_SHIFT (of_nat p)) 1 bs) {}" by simp
  ultimately show ?thesis by blast
qed

text \<open>When every block has been given back, the free lists of all orders below
  \<open>MAX_BUDDY_ORDER\<close> are empty: freeing has merged all pages into blocks of the maximal order.\<close>

theorem all_free_merged:
  assumes "pages_owned bs {}" and "k < MAX_BUDDY_ORDER"
  shows "free_head (freelists bs k) = []"
proof -
  have "buddy_inv bs {}" using assms(1) unfolding pages_owned_def by auto
  then show ?thesis using assms(2) by (rule all_free_coalesced)
qed

theorem all_free_merged_witness: "free_head (freelists sample_buddy 3) = []"
  by (rule all_free_merged [OF sample_buddy_owned]) (simp add: MAX_BUDDY_ORDER_def)

end
