(* ===== verification/Slab.thy ===== *)
theory Slab
  imports Buddy Utils
begin

text \<open>
  \<open>kernel/mm/slab.c\<close>: \<open>kmalloc\<close> and \<open>kfree\<close> over the page allocator, and the slab caches
  under them. A cache pointer is the cache's index in \<open>kmalloc_caches\<close>. \<open>words\<close> is the memory
  the free-object chains and the slab heads live in, by address. A page whose node was removed
  by \<open>list_del\<close> is \<open>poisoned\<close> until it is linked again: its links point to the poison addresses,
  so it does not look unlinked, and unlinking it again is a store to them. \<open>None\<close> is such a
  store, a NULL dereference or an endless loop (the source's \<open>while (1)\<close> included).
\<close>

section \<open>State\<close>

definition SIZE_INT :: u32 where "SIZE_INT = 4"
definition KERNEL_ENTRY :: u32 where "KERNEL_ENTRY = 0x80000000"

definition size_kmem_cache :: "u32 list" where
  "size_kmem_cache = [96, 192, 8, 16, 32, 64, 128, 256, 512, 1024, 1536, 2048]"

record kmem_cache =
  kc_size :: u32
  kc_objsize :: u32
  kc_offset :: u32
  kc_partial :: "nat list"
  kc_full :: "nat list"
  cpu_freeobj :: u32
  cpu_page :: "nat option"

record slab_sys =
  buddy :: buddy_sys
  caches :: "nat \<Rightarrow> kmem_cache"
  words :: "u32 \<Rightarrow> u32"
  poisoned :: "nat set"

definition kmem_addr :: "nat \<Rightarrow> u32" where
  "kmem_addr p = push_bit PAGE_SHIFT (of_nat p) OR 0x80000000"

definition upd_cache :: "nat \<Rightarrow> (kmem_cache \<Rightarrow> kmem_cache) \<Rightarrow> slab_sys \<Rightarrow> slab_sys" where
  "upd_cache i f s = s\<lparr>caches := (caches s)(i := f (caches s i))\<rparr>"

definition upd_page :: "nat \<Rightarrow> (page \<Rightarrow> page) \<Rightarrow> slab_sys \<Rightarrow> slab_sys" where
  "upd_page p f s = s\<lparr>buddy := (buddy s)\<lparr>pages := (pages (buddy s))(p := f (pages (buddy s) p))\<rparr>\<rparr>"

definition store :: "u32 \<Rightarrow> u32 \<Rightarrow> slab_sys \<Rightarrow> slab_sys" where
  "store a v s = s\<lparr>words := (words s)(a := v)\<rparr>"

section \<open>Set-up\<close>

definition init_kmem_cpu :: "kmem_cache \<Rightarrow> kmem_cache" where
  "init_kmem_cpu c = c\<lparr>cpu_page := None, cpu_freeobj := 0\<rparr>"

definition init_kmem_node :: "kmem_cache \<Rightarrow> kmem_cache" where
  "init_kmem_node c = c\<lparr>kc_full := [], kc_partial := []\<rparr>"

definition init_each_slab :: "u32 \<Rightarrow> kmem_cache \<Rightarrow> kmem_cache" where
  "init_each_slab sz c =
     (let objsize = (sz + (SIZE_INT - 1)) AND NOT (SIZE_INT - 1);
          c = c\<lparr>kc_objsize := objsize, kc_size := objsize + 4, kc_offset := objsize + 4\<rparr>
      in init_kmem_node (init_kmem_cpu c))"

definition init_slab :: "slab_sys \<Rightarrow> slab_sys" where
  "init_slab s = fold (\<lambda>i. upd_cache i (init_each_slab (size_kmem_cache ! i))) [0..<PAGE_SHIFT] s"

section \<open>Slabs\<close>

text \<open>The do-while loop of \<open>format_slabpage\<close>; the result is \<open>ptr\<close>, \<open>moffset\<close> and the memory.\<close>

partial_function (option) format_loop ::
  "u32 \<Rightarrow> u32 \<Rightarrow> u32 \<Rightarrow> u32 \<Rightarrow> slab_sys \<Rightarrow> (u32 \<times> u32 \<times> slab_sys) option" where
  "format_loop sz offset moffset remaining s =
     (let ptr = moffset + offset;
          moffset = moffset + sz;
          s = store ptr moffset s;
          remaining = remaining - sz
      in if sz \<le> remaining then format_loop sz offset moffset remaining s
         else Some (ptr, moffset, s))"

definition format_slabpage :: "nat \<Rightarrow> nat \<Rightarrow> slab_sys \<Rightarrow> slab_sys option" where
  "format_slabpage cache page s = do {
     let base = kmem_addr page;
     let s = upd_page page (\<lambda>pg. pg\<lparr>pg_flag := PAGE_SLAB\<rparr>) s;
     (ptr, moffset, s) \<leftarrow> format_loop (kc_size (caches s cache)) (kc_offset (caches s cache))
        base (push_bit PAGE_SHIFT 1) s;
     let s = store ptr (moffset AND NOT (push_bit PAGE_SHIFT 1 - 1)) s;
     let s = store base ptr s;
     let s = store (base + 4) 0 s;
     let freeobj = words s ptr + kc_offset (caches s cache);
     let s = upd_cache cache (\<lambda>c. c\<lparr>cpu_page := Some page, cpu_freeobj := freeobj\<rparr>) s;
     Some (upd_page page (\<lambda>pg. pg\<lparr>pg_virtual := of_nat cache, pg_slabp := words s freeobj\<rparr>) s)
   }"

definition add_full :: "nat \<Rightarrow> nat \<Rightarrow> slab_sys \<Rightarrow> slab_sys" where
  "add_full cache p s =
     (upd_cache cache (\<lambda>c. c\<lparr>kc_full := kc_full c @ [p]\<rparr>) s)\<lparr>poisoned := poisoned s - {p}\<rparr>"

partial_function (option) slab_check :: "nat \<Rightarrow> u32 \<Rightarrow> slab_sys \<Rightarrow> (u32 \<times> slab_sys) option" where
  "slab_check cache object s =
     (if is_bound object (push_bit PAGE_SHIFT 1) then
        let s = (case cpu_page (caches s cache) of None \<Rightarrow> s | Some p \<Rightarrow> add_full cache p s)
        in case kc_partial (caches s cache) of
             [] \<Rightarrow>
               (case alloc_pages_at 0 (buddy s) of
                  (None, _) \<Rightarrow> None
                | (Some newpage, bs) \<Rightarrow> do {
                    s \<leftarrow> format_slabpage cache newpage (s\<lparr>buddy := bs\<rparr>);
                    slab_check cache (words s (cpu_freeobj (caches s cache))) s
                  })
           | p # ps \<Rightarrow>
               (let object = pg_slabp (pages (buddy s) p);
                    s = upd_cache cache (\<lambda>c. c\<lparr>kc_partial := ps, cpu_page := Some p,
                          cpu_freeobj := object + kc_offset c\<rparr>) s;
                    s = s\<lparr>poisoned := insert p (poisoned s)\<rparr>
                in slab_check cache object s)
      else Some (object, s))"

definition slab_alloc :: "nat \<Rightarrow> slab_sys \<Rightarrow> (u32 \<times> slab_sys) option" where
  "slab_alloc cache s = do {
     let object = (if cpu_freeobj (caches s cache) \<noteq> 0
                   then words s (cpu_freeobj (caches s cache)) else 0);
     (object, s) \<leftarrow> slab_check cache object s;
     let freeobj = object + kc_offset (caches s cache);
     let s = upd_cache cache (\<lambda>c. c\<lparr>cpu_freeobj := freeobj\<rparr>) s;
     p \<leftarrow> cpu_page (caches s cache);
     let s = upd_page p (\<lambda>pg. pg\<lparr>pg_slabp := words s freeobj\<rparr>) s;
     let s = store (kmem_addr p + 4) (words s (kmem_addr p + 4) + 1) s;
     let s = (if is_bound (pg_slabp (pages (buddy s) p)) (push_bit PAGE_SHIFT 1)
              then upd_cache cache init_kmem_cpu (add_full cache p s) else s);
     Some (object, s)
   }"

text \<open>A page is linked when it is on a list of some cache or looks so because it is poisoned.\<close>

definition linked :: "nat \<Rightarrow> slab_sys \<Rightarrow> bool" where
  "linked p s \<longleftrightarrow> p \<in> poisoned s \<or>
     (\<exists>i < PAGE_SHIFT. p \<in> set (kc_partial (caches s i)) \<or> p \<in> set (kc_full (caches s i)))"

definition unlink_slab :: "nat \<Rightarrow> slab_sys \<Rightarrow> slab_sys option" where
  "unlink_slab p s =
     (if p \<in> poisoned s then None
      else Some (s\<lparr>caches := (\<lambda>i. (caches s i)\<lparr>kc_partial := remove1 p (kc_partial (caches s i)),
                                               kc_full := remove1 p (kc_full (caches s i))\<rparr>)\<rparr>))"

definition slab_free :: "nat \<Rightarrow> u32 \<Rightarrow> slab_sys \<Rightarrow> slab_sys option" where
  "slab_free cache object s =
     (let opage = unat (drop_bit PAGE_SHIFT object);
          s_head = kmem_addr opage
      in if words s (s_head + 4) = 0 then Some s
         else do {
           let s = store (object + kc_offset (caches s cache)) (words s (words s s_head)) s;
           let s = store (words s s_head) object s;
           let s = store (s_head + 4) (words s (s_head + 4) - 1) s;
           if \<not> linked opage s then Some s
           else if words s (s_head + 4) = 0
           then Some (s\<lparr>buddy := free_pages_at opage 0 (buddy s)\<rparr>)
           else do {
             s \<leftarrow> unlink_slab opage s;
             Some (upd_cache cache (\<lambda>c. c\<lparr>kc_partial := kc_partial c @ [opage]\<rparr>) s)
           }
         })"

fun get_slab_loop :: "(nat \<Rightarrow> kmem_cache) \<Rightarrow> u32 \<Rightarrow> nat list \<Rightarrow> u32 \<Rightarrow> nat \<Rightarrow> nat" where
  "get_slab_loop cs sz [] bf_num bf_index = bf_index"
| "get_slab_loop cs sz (i # js) bf_num bf_index =
     (if sz \<le> kc_objsize (cs i) \<and> kc_objsize (cs i) < bf_num
      then get_slab_loop cs sz js (kc_objsize (cs i)) i
      else get_slab_loop cs sz js bf_num bf_index)"

definition get_slab :: "u32 \<Rightarrow> slab_sys \<Rightarrow> nat" where
  "get_slab sz s = get_slab_loop (caches s) sz [0..<PAGE_SHIFT] (push_bit (PAGE_SHIFT - 1) 1) PAGE_SHIFT"

section \<open>kmalloc and kfree\<close>

partial_function (option) order_loop :: "u32 \<Rightarrow> u32 \<Rightarrow> nat \<Rightarrow> nat option" where
  "order_loop sz curr_size bplevel =
     (if curr_size < sz then order_loop sz (push_bit 1 curr_size) (Suc bplevel) else Some bplevel)"

definition page_round :: "u32 \<Rightarrow> u32" where
  "page_round sz = (sz + (push_bit PAGE_SHIFT 1 - 1)) AND NOT (push_bit PAGE_SHIFT 1 - 1)"

definition kmalloc :: "u32 \<Rightarrow> slab_sys \<Rightarrow> (u32 \<times> slab_sys) option" where
  "kmalloc sz s =
     (if sz = 0 then Some (0, s)
      else let sz = page_round sz
           in if kc_objsize (caches s (PAGE_SHIFT - 1)) < sz then do {
                bplevel \<leftarrow> order_loop sz (push_bit PAGE_SHIFT 1) 0;
                let (addr, bs) = alloc_pages bplevel (buddy s);
                Some (KERNEL_ENTRY OR addr, s\<lparr>buddy := bs\<rparr>)
              }
              else let bf_index = get_slab sz s
                   in if PAGE_SHIFT \<le> bf_index then None
                      else do {
                        (object, s) \<leftarrow> slab_alloc bf_index s;
                        Some (KERNEL_ENTRY OR object, s)
                      })"

definition kfree :: "u32 \<Rightarrow> slab_sys \<Rightarrow> slab_sys option" where
  "kfree obj s =
     (let obj = obj AND NOT KERNEL_ENTRY;
          page = pages (buddy s) (unat (drop_bit PAGE_SHIFT obj))
      in if pg_flag page \<noteq> PAGE_SLAB
         then Some (s\<lparr>buddy := free_pages (obj AND NOT (push_bit PAGE_SHIFT 1 - 1))
                                        (unat (pg_bplevel page)) (buddy s)\<rparr>)
         else slab_free (unat (pg_virtual page)) obj s)"

section \<open>Requests of whole pages\<close>

lemma order_loop_correct:
  "k \<le> 19 \<Longrightarrow> unat sz \<le> 2 ^ 31 \<Longrightarrow> k \<le> n \<Longrightarrow> n \<le> 19 \<Longrightarrow>
   unat sz \<le> 2 ^ (12 + n) \<Longrightarrow> (\<And>j. k \<le> j \<Longrightarrow> j < n \<Longrightarrow> 2 ^ (12 + j) < unat sz) \<Longrightarrow>
   order_loop sz (2 ^ (12 + k)) k = Some n"
proof (induction "n - k" arbitrary: k)
  case 0
  then have "n = k" by simp
  then show ?case using 0
    by (subst order_loop.simps) (simp add: word_less_nat_alt unat_exp_u32)
next
  case (Suc d)
  have "2 ^ (12 + k) < unat sz" using Suc by simp
  then have "(2 ^ (12 + k) :: u32) < sz" using Suc.prems by (simp only: word_less_nat_alt) (simp add: unat_exp_u32)
  then have "order_loop sz (2 ^ (12 + k)) k = order_loop sz (2 ^ (12 + Suc k)) (Suc k)"
    by (subst order_loop.simps) (simp add: push_bit_eq_mult numeral_eq_Suc)
  also have "\<dots> = Some n" using Suc by (intro Suc.hyps(1)) auto
  finally show ?case .
qed

text \<open>The loop stops at the least order that is large enough, when there is one.\<close>

lemma order_loop_least:
  assumes "unat sz \<le> 2 ^ 31"
  shows "\<exists>n \<le> 19. order_loop sz (push_bit PAGE_SHIFT 1) 0 = Some n \<and> unat sz \<le> 2 ^ (12 + n)
    \<and> (\<forall>j < n. 2 ^ (12 + j) < unat sz)"
proof -
  define n where "n = (LEAST n. unat sz \<le> 2 ^ (12 + n))"
  have "unat sz \<le> 2 ^ (12 + 19)" using assms by simp
  then have n: "unat sz \<le> 2 ^ (12 + n)" "n \<le> 19" unfolding n_def by (rule LeastI, rule Least_le)
  have l: "2 ^ (12 + j) < unat sz" if "j < n" for j
    using not_less_Least [of j "\<lambda>n. unat sz \<le> 2 ^ (12 + n)"] that by (simp add: not_le n_def)
  have "order_loop sz (2 ^ (12 + 0)) 0 = Some n"
    by (rule order_loop_correct) (use n l assms in auto)
  then show ?thesis using n l by (auto simp: PAGE_SHIFT_def)
qed

lemma page_round_pages:
  assumes "unat sz + 4095 < 2 ^ 32"
  shows "unat (page_round sz) = 4096 * pages_of sz"
proof -
  have m: "(push_bit PAGE_SHIFT 1 - 1 :: u32) = mask 12" by (simp add: PAGE_SHIFT_def mask_eq_exp_minus_1)
  have "w AND NOT (mask 12) = push_bit 12 (drop_bit 12 w)" for w :: u32
    by (rule bit_word_eqI) (auto simp: bit_simps)
  moreover have "unat (sz + 4095) = unat sz + 4095" using assms by (simp add: unat_plus_if')
  moreover have "4096 * pages_of sz < 2 ^ 32"
    unfolding pages_of_def using assms by (meson le_less_trans times_div_less_eq_dividend)
  ultimately show ?thesis
    unfolding page_round_def m
    by (simp only: unsigned_push_bit_eq unsigned_drop_bit_eq)
      (simp add: mask_eq_exp_minus_1 drop_bit_eq_div push_bit_eq_mult take_bit_eq_mod pages_of_def mult.commute)
qed

definition slab_ready :: "slab_sys \<Rightarrow> bool" where
  "slab_ready s \<longleftrightarrow> kc_objsize (caches s 11) = 2048"

lemma kmalloc_pages:
  assumes r: "slab_ready s" and sz: "0 < unat sz" "unat sz \<le> 2 ^ 31"
  shows "\<exists>k \<le> 19. unat sz \<le> 4096 * 2 ^ k \<and> (0 < k \<longrightarrow> 4096 * 2 ^ (k - 1) < unat sz)
    \<and> kmalloc sz s = Some (KERNEL_ENTRY OR fst (alloc_pages k (buddy s)),
                           s\<lparr>buddy := snd (alloc_pages k (buddy s))\<rparr>)"
proof -
  define w where "w = page_round sz"
  have w: "unat w = 4096 * pages_of sz" unfolding w_def using sz by (intro page_round_pages) simp
  have p: "unat sz \<le> 4096 * pages_of sz" "4096 * pages_of sz < unat sz + 4096" "0 < pages_of sz"
    using sz by (auto simp: pages_of_def)
  have "pages_of sz \<le> 524288" using p(2) sz by (simp add: pages_of_def)
  then have "unat w \<le> 2 ^ 31" using w by simp
  then obtain n where n: "n \<le> 19" "order_loop w (push_bit PAGE_SHIFT 1) 0 = Some n"
      "unat w \<le> 2 ^ (12 + n)" "\<forall>j < n. 2 ^ (12 + j) < unat w"
    using order_loop_least by blast
  have big: "kc_objsize (caches s (PAGE_SHIFT - 1)) < w"
    using r w p by (simp add: slab_ready_def PAGE_SHIFT_def word_less_nat_alt)
  have "sz \<noteq> 0" using sz by auto
  then have k: "kmalloc sz s = Some (KERNEL_ENTRY OR fst (alloc_pages n (buddy s)),
                           s\<lparr>buddy := snd (alloc_pages n (buddy s))\<rparr>)"
    using big n(2) by (simp add: kmalloc_def Let_def split_beta flip: w_def)
  have "4096 * 2 ^ (n - 1) < unat sz" if "0 < n"
  proof -
    have "2 ^ (12 + (n - 1)) < unat w" using n(4) that by (metis diff_less zero_less_one)
    then have "2 ^ (n - 1) < pages_of sz" using w by (simp add: power_add)
    then have "4096 * Suc (2 ^ (n - 1)) \<le> 4096 * pages_of sz" by (intro mult_le_mono2 Suc_leI)
    then show ?thesis using p(2) by simp
  qed
  moreover have "unat sz \<le> 4096 * 2 ^ n" using n(3) w p(1) by (simp add: power_add)
  ultimately show ?thesis using n(1) k by blast
qed

section \<open>What callers get\<close>

lemma find_order_large: "MAX_BUDDY_ORDER < k \<Longrightarrow> alloc_pages k bs = (0, bs)"
  by (simp add: alloc_pages_def alloc_pages_at_def find_order.simps)

lemma low_address:
  assumes "p < 2 ^ 19"
  shows "(KERNEL_ENTRY OR push_bit PAGE_SHIFT (of_nat p)) AND NOT KERNEL_ENTRY = push_bit PAGE_SHIFT (of_nat p :: u32)"
proof (rule bit_word_eqI)
  fix i assume i: "i < LENGTH(32)"
  have k: "bit KERNEL_ENTRY n \<longleftrightarrow> n = 31" if "n < 32" for n
  proof -
    have e: "KERNEL_ENTRY = push_bit 31 1" by (simp add: KERNEL_ENTRY_def)
    show ?thesis unfolding e using that by (auto simp: bit_simps simp del: push_bit_of_1)
  qed
  have "\<not> bit (of_nat p :: u32) 19"
  proof -
    have "\<not> bit p 19" using assms by (simp add: bit_iff_odd)
    then show ?thesis by (simp add: bit_of_nat_iff)
  qed
  then show "bit ((KERNEL_ENTRY OR push_bit PAGE_SHIFT (of_nat p)) AND NOT KERNEL_ENTRY) i
    = bit (push_bit PAGE_SHIFT (of_nat p :: u32)) i"
    using i k [of i] by (cases "i = 31") (auto simp: bit_simps PAGE_SHIFT_def)
qed

text \<open>Blocks whose pages \<open>kmalloc\<close> handed out: in use, marked \<open>PAGE_ALLOCED\<close> with their order.\<close>

definition heap_owned :: "slab_sys \<Rightarrow> (nat \<times> nat) set \<Rightarrow> bool" where
  "heap_owned s B \<longleftrightarrow> pages_owned (buddy s) B \<and> (\<forall>(k, p) \<in> B.
     pg_flag (pages (buddy s) p) = PAGE_ALLOCED \<and> pg_bplevel (pages (buddy s) p) = of_nat k \<and> k \<le> MAX_BUDDY_ORDER)"

lemma kmalloc_block:
  assumes r: "slab_ready s" and o: "heap_owned s B" and st: "0 < buddy_start_pfn (buddy s)"
    and sz: "0 < unat sz" "unat sz \<le> 65536"
  shows "\<exists>a s'. kmalloc sz s = Some (a, s') \<and>
    (a = KERNEL_ENTRY \<and> s' = s \<or>
     (\<exists>k p. a = KERNEL_ENTRY OR push_bit PAGE_SHIFT (of_nat p) \<and> heap_owned s' (insert (k, p) B)
        \<and> unat sz \<le> 4096 * 2 ^ k \<and> (0 < k \<longrightarrow> 4096 * 2 ^ (k - 1) < unat sz)
        \<and> (\<forall>(j, q) \<in> B. block_pages k p \<inter> block_pages j q = {})))"
proof -
  obtain k where k: "unat sz \<le> 4096 * 2 ^ k" "0 < k \<longrightarrow> 4096 * 2 ^ (k - 1) < unat sz"
    and km: "kmalloc sz s = Some (KERNEL_ENTRY OR fst (alloc_pages k (buddy s)),
                           s\<lparr>buddy := snd (alloc_pages k (buddy s))\<rparr>)"
    using kmalloc_pages [OF r, of sz] sz by auto
  have k4: "k \<le> MAX_BUDDY_ORDER"
  proof (rule ccontr)
    assume "\<not> k \<le> MAX_BUDDY_ORDER"
    then have "4 \<le> k - 1" "0 < k" by (auto simp: MAX_BUDDY_ORDER_def)
    moreover from this(1) have "(2 :: nat) ^ 4 \<le> 2 ^ (k - 1)" by (rule power_increasing) simp
    ultimately have "(2 :: nat) ^ 4 \<le> 2 ^ (k - 1)" "0 < k" by simp_all
    then show False using k(2) sz by simp
  qed
  have po: "pages_owned (buddy s) B" using o by (simp add: heap_owned_def)
  obtain r bs where al: "alloc_pages_at k (buddy s) = (r, bs)" by (cases "alloc_pages_at k (buddy s)")
  show ?thesis
  proof (cases r)
    case None
    then have "bs = buddy s" using pages.grab_none [OF po] al by blast
    then show ?thesis using km al None by (simp add: alloc_pages_def)
  next
    case (Some p)
    note al = al [unfolded Some]
    have own: "pages_owned bs (insert (k, p) B)" using pages.grab_some [OF po al] by simp
    have "heap_owned (s\<lparr>buddy := bs\<rparr>) (insert (k, p) B)"
      using own o k4 pages.grab_desc [OF po al] pages.grab_frame [OF po al]
      by (auto simp: heap_owned_def)
    moreover have "\<forall>(j, q) \<in> B. block_pages k p \<inter> block_pages j q = {}"
      using pages.grab_fresh [OF po al] by blast
    ultimately show ?thesis using km al k by (auto simp: alloc_pages_def)
  qed
qed

text \<open>A request of 1 byte to 64 KB either finds no free block (the result is the address
  \<open>0x80000000\<close>, with nothing changed) or is served by a whole block of pages large enough for
  it, of the least such order, which overlaps no block handed out before and is recorded with
  its order, so that \<open>kfree\<close> can find it.\<close>

theorem kmalloc_correct:
  assumes r: "slab_ready s" and o: "heap_owned s B" and st: "0 < buddy_start_pfn (buddy s)"
    and sz: "0 < unat sz" "unat sz \<le> 65536"
  shows "\<exists>a s'. kmalloc sz s = Some (a, s') \<and>
    (a = KERNEL_ENTRY \<and> s' = s \<or>
     (\<exists>k p. a = KERNEL_ENTRY OR push_bit PAGE_SHIFT (of_nat p) \<and> heap_owned s' (insert (k, p) B)
        \<and> unat sz \<le> 4096 * 2 ^ k \<and> (0 < k \<longrightarrow> 4096 * 2 ^ (k - 1) < unat sz)
        \<and> (\<forall>(j, q) \<in> B. block_pages k p \<inter> block_pages j q = {})))"
  using assms by (rule kmalloc_block)

definition sample_heap :: slab_sys where
  "sample_heap = init_slab \<lparr>buddy = sample_buddy, caches = (\<lambda>_. undefined), words = (\<lambda>_. 0), poisoned = {}\<rparr>"

lemma init_slab_sizes:
  "map (\<lambda>i. kc_objsize (caches (init_slab s) i)) [0..<PAGE_SHIFT] = size_kmem_cache"
  by (simp add: init_slab_def upd_cache_def init_each_slab_def PAGE_SHIFT_def size_kmem_cache_def
      upt_conv_Cons init_kmem_node_def init_kmem_cpu_def SIZE_INT_def)

lemma init_slab_buddy: "buddy (init_slab s) = buddy s"
proof -
  have "buddy (fold (\<lambda>i. upd_cache i (f i)) xs s) = buddy s" for f xs
    by (induction xs arbitrary: s) (simp_all add: upd_cache_def)
  then show ?thesis by (simp add: init_slab_def)
qed

lemma init_slab_ready: "slab_ready (init_slab s)"
  using arg_cong [OF init_slab_sizes [of s], of "\<lambda>xs. xs ! 11"]
  by (simp add: slab_ready_def PAGE_SHIFT_def size_kmem_cache_def)

lemma sample_heap_owned: "heap_owned sample_heap {}"
  using sample_buddy_owned by (simp add: heap_owned_def sample_heap_def init_slab_buddy)

theorem kmalloc_correct_witness:
  "\<exists>a s'. kmalloc 5000 sample_heap = Some (a, s')"
  using kmalloc_correct [OF _ sample_heap_owned, of 5000] init_slab_ready
  by (auto simp: sample_heap_def init_slab_buddy sample_buddy_def)

lemma kfree_block:
  assumes o: "heap_owned s B" and b: "(k, p) \<in> B" and p: "p < 2 ^ 19"
  shows "\<exists>s'. kfree (KERNEL_ENTRY OR push_bit PAGE_SHIFT (of_nat p)) s = Some s'
    \<and> heap_owned s' (B - {(k, p)})"
proof -
  let ?a = "push_bit PAGE_SHIFT (of_nat p) :: u32"
  have po: "pages_owned (buddy s) B" using o by (simp add: heap_owned_def)
  have d: "pg_flag (pages (buddy s) p) = PAGE_ALLOCED" "pg_bplevel (pages (buddy s) p) = of_nat k"
    "k \<le> MAX_BUDDY_ORDER"
    using o b by (auto simp: heap_owned_def)
  have pg: "unat (drop_bit PAGE_SHIFT ?a) = p" using p by (intro address_page) simp
  have "?a AND NOT (push_bit PAGE_SHIFT 1 - 1) = ?a"
  proof -
    have m: "(push_bit PAGE_SHIFT 1 - 1 :: u32) = mask 12" by (simp add: PAGE_SHIFT_def mask_eq_exp_minus_1)
    show ?thesis unfolding m by (auto intro!: bit_word_eqI simp: bit_simps PAGE_SHIFT_def)
  qed
  moreover have "unat (of_nat k :: u32) = k" using d(3) by (intro unat_of_nat_u32) (simp add: MAX_BUDDY_ORDER_def)
  moreover have "PAGE_ALLOCED \<noteq> PAGE_SLAB" by (simp add: PAGE_ALLOCED_def PAGE_SLAB_def)
  ultimately have "kfree (KERNEL_ENTRY OR ?a) s = Some (s\<lparr>buddy := free_pages_at p k (buddy s)\<rparr>)"
    using d by (simp only: kfree_def Let_def low_address [OF p] pg free_pages_def) simp
  moreover have "heap_owned (s\<lparr>buddy := free_pages_at p k (buddy s)\<rparr>) (B - {(k, p)})"
  proof -
    have fr: "pages (free_pages_at p k (buddy s)) q = pages (buddy s) q" if "(j, q) \<in> B - {(k, p)}" for j q
      using pages.release_frame [OF po b that] .
    have d: "pg_flag (pages (buddy s) q) = PAGE_ALLOCED \<and> pg_bplevel (pages (buddy s) q) = of_nat j
        \<and> j \<le> MAX_BUDDY_ORDER" if "(j, q) \<in> B - {(k, p)}" for j q
      using o that unfolding heap_owned_def by blast
    show ?thesis unfolding heap_owned_def
    proof (intro conjI ballI, goal_cases)
      case 1
      then show ?case using pages.release_inv [OF po b] by simp
    next
      case (2 x)
      then show ?case using fr d by (cases x) simp
    qed
  qed
  ultimately show ?thesis by blast
qed

text \<open>C26: \<open>kfree\<close> of an address \<open>kmalloc\<close> gave out returns the whole block to the page
  allocator and leaves all other blocks handed out as they are.\<close>

theorem kfree_correct:
  assumes o: "heap_owned s B" and b: "(k, p) \<in> B" and p: "p < 2 ^ 19"
  shows "\<exists>s'. kfree (KERNEL_ENTRY OR push_bit PAGE_SHIFT (of_nat p)) s = Some s'
    \<and> heap_owned s' (B - {(k, p)})"
  using assms by (rule kfree_block)

theorem kfree_correct_witness:
  "\<exists>s p. heap_owned s {(1, p)} \<and> (\<exists>s'. kfree (KERNEL_ENTRY OR push_bit PAGE_SHIFT (of_nat p)) s = Some s' \<and> heap_owned s' {})"
proof -
  have "fst (alloc_pages_at 1 sample_buddy) = Some 16"
    by (simp add: alloc_pages_at_def find_order.simps sample_buddy_def MAX_BUDDY_ORDER_def Let_def)
  then obtain bs where al: "alloc_pages_at 1 sample_buddy = (Some 16, bs)" by (metis prod.collapse)
  define s where "s = sample_heap\<lparr>buddy := bs\<rparr>"
  have o: "heap_owned s {(1, 16)}"
    using pages.grab_some [OF sample_buddy_owned al] pages.grab_desc [OF sample_buddy_owned al]
    by (simp add: heap_owned_def s_def MAX_BUDDY_ORDER_def)
  then show ?thesis using kfree_correct [OF o, of 1 16] by (intro exI [of _ s] exI [of _ 16]) auto
qed

text \<open>A request of more than 64 KB (and at most 2 GB) is refused with the address
  \<open>0x80000000\<close>, which is not the NULL that callers test for.\<close>

theorem kmalloc_failure_not_null:
  assumes "slab_ready s" and "65536 < unat sz" and "unat sz \<le> 2 ^ 31"
  shows "kmalloc sz s = Some (0x80000000, s) \<and> (0x80000000 :: u32) \<noteq> 0"
proof -
  obtain k where k: "unat sz \<le> 4096 * 2 ^ k"
    and km: "kmalloc sz s = Some (KERNEL_ENTRY OR fst (alloc_pages k (buddy s)),
                           s\<lparr>buddy := snd (alloc_pages k (buddy s))\<rparr>)"
    using kmalloc_pages [OF assms(1), of sz] assms(2,3) by auto
  have "MAX_BUDDY_ORDER < k"
  proof (rule ccontr)
    assume "\<not> MAX_BUDDY_ORDER < k"
    then have "(2 :: nat) ^ k \<le> 2 ^ 4" by (intro power_increasing) (auto simp: MAX_BUDDY_ORDER_def)
    then show False using k assms(2) by simp
  qed
  then show ?thesis using km by (simp add: find_order_large KERNEL_ENTRY_def)
qed

theorem kmalloc_failure_not_null_witness: "kmalloc 100000 sample_heap = Some (0x80000000, sample_heap)"
  using kmalloc_failure_not_null [of sample_heap 100000] init_slab_ready by (simp add: sample_heap_def)

text \<open>Near \<open>2 ^ 32\<close> the rounding wraps to 0, and the request is served from the 8-byte cache.\<close>

lemma kmalloc_wraps:
  assumes "2 ^ 32 \<le> unat sz + 4095" and "\<forall>i < PAGE_SHIFT. kc_objsize (caches s i) = size_kmem_cache ! i"
  shows "kmalloc sz s = do { (object, s) \<leftarrow> slab_alloc 2 s; Some (KERNEL_ENTRY OR object, s) }"
proof -
  have l: "unat sz < 2 ^ 32" using unsigned_less [of sz] by simp
  have "unat (sz + 4095) = unat sz + 4095 - 2 ^ 32" using assms(1) l by (simp add: unat_plus_if')
  then have "unat (sz + 4095) < 2 ^ 12" using l by simp
  then have "drop_bit 12 (sz + 4095) = 0"
    by (simp add: unat_div drop_bit_eq_div flip: unat_eq_0)
  moreover have "(push_bit PAGE_SHIFT 1 - 1 :: u32) = mask 12"
    by (simp add: PAGE_SHIFT_def mask_eq_exp_minus_1)
  ultimately have z: "page_round sz = 0"
    by (simp only: page_round_def and_not_mask) (simp add: mask_eq_exp_minus_1)
  have os: "kc_objsize (caches s i) = size_kmem_cache ! i" if "i < 12" for i
    using assms(2) that by (simp add: PAGE_SHIFT_def)
  have "get_slab 0 s = 2"
    by (simp add: get_slab_def PAGE_SHIFT_def upt_conv_Cons os size_kmem_cache_def)
  moreover have "sz \<noteq> 0" using assms(1) by auto
  ultimately show ?thesis by (simp add: kmalloc_def Let_def z PAGE_SHIFT_def)
qed

end
