(* ===== verification/Pid.thy ===== *)
theory Pid
  imports VfsUtils HListHead
begin

text \<open>
  \<open>kernel/pc/pid.c\<close>: process ids. A namespace is an object with a bit map of 16 ids; a task
  has one id for each level of its namespace, chained into a hash table. Namespaces and tasks
  are named by nonzero numbers; the chain node of level \<open>i\<close> of task \<open>t\<close> is \<open>pid_chain t i\<close>.
  \<open>None\<close> is a bit map access outside its two bytes, a NULL dereference or an endless search.
\<close>

section \<open>State\<close>

definition PIDMAP_MAX_ENTRY :: int where "PIDMAP_MAX_ENTRY = 16"
definition PIDMAP_BYTE :: int where "PIDMAP_BYTE = 2"
definition PID_MAX_HASH_ENTRY :: u32 where "PID_MAX_HASH_ENTRY = 4"
definition MAX_PID_NAMESPACE_CNT :: nat where "MAX_PID_NAMESPACE_CNT = 5"

record pidmap =
  pm_nr_free :: int
  pm_data :: "nat \<Rightarrow> u8"

record pid_namespace =
  ns_level :: nat
  ns_last_pid :: int
  ns_pidmap :: pidmap
  ns_parent :: nat

record upid =
  up_nr :: int
  up_ns :: nat

record real_pid =
  rp_level :: int
  rp_numbers :: "nat \<Rightarrow> upid"

record pid_sys =
  namespaces :: "nat \<Rightarrow> pid_namespace"
  real_pids :: "nat \<Rightarrow> real_pid"
  pid_hash :: hheap

definition pid_chain :: "nat \<Rightarrow> nat \<Rightarrow> nat" where
  "pid_chain task i = 5 * task + i"

definition pid_hash_function :: "int \<Rightarrow> pid_namespace \<Rightarrow> nat" where
  "pid_hash_function nr ns = unat ((of_int nr + of_nat (ns_level ns)) mod PID_MAX_HASH_ENTRY)"

fun init_pid_loop :: "nat \<Rightarrow> hheap \<Rightarrow> hheap" where
  "init_pid_loop 0 h = h"
| "init_pid_loop (Suc n) h = INIT_HLIST_HEAD n (init_pid_loop n h)"

definition init_pid_module :: "pid_sys \<Rightarrow> pid_sys" where
  "init_pid_module s = s\<lparr>pid_hash := init_pid_loop (unat PID_MAX_HASH_ENTRY) (pid_hash s)\<rparr>"

section \<open>The bit map\<close>

definition pid_namespace_empty :: "pid_namespace \<Rightarrow> bool" where
  "pid_namespace_empty ns \<longleftrightarrow> pm_nr_free (ns_pidmap ns) = PIDMAP_MAX_ENTRY"

definition pid_namespace_full :: "pid_namespace \<Rightarrow> bool" where
  "pid_namespace_full ns \<longleftrightarrow> pm_nr_free (ns_pidmap ns) = 0"

definition init_pidmap :: "pidmap \<Rightarrow> pidmap" where
  "init_pidmap m = \<lparr>pm_nr_free = PIDMAP_MAX_ENTRY,
     pm_data = (\<lambda>i. if i < nat PIDMAP_BYTE then 0 else pm_data m i)\<rparr>"

definition in_map :: "int \<Rightarrow> bool" where
  "in_map index \<longleftrightarrow> 0 \<le> index \<and> index < PIDMAP_BYTE"

definition pidmap_id_is_valid :: "int \<Rightarrow> int \<Rightarrow> pidmap \<Rightarrow> bool option" where
  "pidmap_id_is_valid index offset m = do {
     _ \<leftarrow> c_guard (in_map index);
     Some (pm_data m (nat index) AND push_bit (nat offset) 1 = 0)
   }"

definition pidmap_id_alloc :: "int \<Rightarrow> int \<Rightarrow> pidmap \<Rightarrow> pidmap option" where
  "pidmap_id_alloc index offset m = do {
     _ \<leftarrow> c_guard (in_map index);
     let d = pm_data m;
     Some (m\<lparr>pm_data := d(nat index := d (nat index) OR push_bit (nat offset) 1),
             pm_nr_free := pm_nr_free m - 1\<rparr>)
   }"

definition pidmap_id_free :: "int \<Rightarrow> int \<Rightarrow> pidmap \<Rightarrow> pidmap option" where
  "pidmap_id_free index offset m = do {
     _ \<leftarrow> c_guard (in_map index);
     let d = pm_data m;
     Some (m\<lparr>pm_data := d(nat index := d (nat index) AND NOT (push_bit (nat offset) 1)),
             pm_nr_free := pm_nr_free m + 1\<rparr>)
   }"

section \<open>Ids of a namespace\<close>

partial_function (option) alloc_pid_loop :: "int \<Rightarrow> pidmap \<Rightarrow> (int \<times> pidmap) option" where
  "alloc_pid_loop res m =
     (let res = (if PIDMAP_MAX_ENTRY \<le> res then res mod PIDMAP_MAX_ENTRY else res);
          index = drop_bit 3 res;
          offset = res AND 7
      in do {
        valid \<leftarrow> pidmap_id_is_valid index offset m;
        if valid then do { m \<leftarrow> pidmap_id_alloc index offset m; Some (res, m) }
        else alloc_pid_loop (res + 1) m
      })"

definition alloc_pid_val_from_ns :: "pid_namespace \<Rightarrow> (int \<times> pid_namespace) option" where
  "alloc_pid_val_from_ns ns =
     (if pid_namespace_full ns then Some (- 1, ns)
      else do {
        (res, m) \<leftarrow> alloc_pid_loop (ns_last_pid ns + 1) (ns_pidmap ns);
        Some (res, ns\<lparr>ns_pidmap := m, ns_last_pid := res\<rparr>)
      })"

definition free_pid_val_from_ns :: "int \<Rightarrow> pid_namespace \<Rightarrow> pid_namespace option" where
  "free_pid_val_from_ns val ns =
     (if pid_namespace_empty ns then Some ns
      else do {
        let index = drop_bit 3 val;
        let offset = val AND 7;
        valid \<leftarrow> pidmap_id_is_valid index offset (ns_pidmap ns);
        if \<not> valid then do { m \<leftarrow> pidmap_id_free index offset (ns_pidmap ns); Some (ns\<lparr>ns_pidmap := m\<rparr>) }
        else Some ns
      })"

text \<open>
  \<open>pid_namespace_create\<close> with the object \<open>p\<close> that \<open>kmalloc\<close> gave it; the result is the
  returned pointer, 0 when the nesting is too deep (the object keeps its level then).
\<close>

definition pid_namespace_create :: "nat \<Rightarrow> nat \<Rightarrow> pid_sys \<Rightarrow> nat \<times> pid_sys" where
  "pid_namespace_create p parent s =
     (let level = (if parent = NULL then 0 else ns_level (namespaces s parent) + 1);
          ns = (namespaces s p)\<lparr>ns_level := level\<rparr>
      in if MAX_PID_NAMESPACE_CNT \<le> level
         then (NULL, s\<lparr>namespaces := (namespaces s)(p := ns)\<rparr>)
         else (p, s\<lparr>namespaces := (namespaces s)(p := ns\<lparr>ns_parent := parent,
                    ns_pidmap := init_pidmap (ns_pidmap ns), ns_last_pid := - 1\<rparr>)\<rparr>))"

section \<open>Ids of a task\<close>

definition set_upid :: "nat \<Rightarrow> nat \<Rightarrow> (upid \<Rightarrow> upid) \<Rightarrow> pid_sys \<Rightarrow> pid_sys" where
  "set_upid task i f s = s\<lparr>real_pids := (real_pids s)(task := (real_pids s task)
     \<lparr>rp_numbers := (rp_numbers (real_pids s task))(i := f (rp_numbers (real_pids s task) i))\<rparr>)\<rparr>"

text \<open>The loop of \<open>assign_real_pid_from_ns\<close>; \<open>n\<close> is \<open>i + 1\<close>, and \<open>tmp_ns\<close> is set to \<open>ns\<close>
  after each level, as in the source.\<close>

fun assign_loop :: "nat \<Rightarrow> nat \<Rightarrow> nat \<Rightarrow> nat \<Rightarrow> pid_sys \<Rightarrow> (int \<times> pid_sys) option" where
  "assign_loop task ns tmp_ns 0 s = Some (0, s)"
| "assign_loop task ns tmp_ns (Suc i) s =
     (if tmp_ns = NULL then Some (0, s)
      else do {
        (nr, tns) \<leftarrow> alloc_pid_val_from_ns (namespaces s tmp_ns);
        let s = s\<lparr>namespaces := (namespaces s)(tmp_ns := tns)\<rparr>;
        let s = set_upid task i (\<lambda>u. u\<lparr>up_nr := nr\<rparr>) s;
        if nr = - 1 then Some (1, s)
        else do {
          let s = set_upid task i (\<lambda>u. u\<lparr>up_ns := tmp_ns\<rparr>) s;
          let s = s\<lparr>pid_hash := hlist_add_head (pid_chain task i)
                      (pid_hash_function nr (namespaces s tmp_ns)) (pid_hash s)\<rparr>;
          assign_loop task ns ns i s
        }
      })"

definition assign_real_pid_from_ns :: "nat \<Rightarrow> nat \<Rightarrow> pid_sys \<Rightarrow> (int \<times> pid_sys) option" where
  "assign_real_pid_from_ns task ns s =
     (if ns = NULL then Some (1, s)
      else let lvl = ns_level (namespaces s ns);
               s = s\<lparr>real_pids := (real_pids s)(task := (real_pids s task)\<lparr>rp_level := int lvl\<rparr>)\<rparr>
           in assign_loop task ns ns (Suc lvl) s)"

fun free_real_pid_loop :: "nat \<Rightarrow> nat \<Rightarrow> pid_sys \<Rightarrow> pid_sys option" where
  "free_real_pid_loop task 0 s = Some s"
| "free_real_pid_loop task (Suc level) s = do {
     let u = rp_numbers (real_pids s task) level;
     _ \<leftarrow> c_guard (up_ns u \<noteq> NULL);
     ns \<leftarrow> free_pid_val_from_ns (up_nr u) (namespaces s (up_ns u));
     h \<leftarrow> hlist_del_init (pid_chain task level) (pid_hash s);
     free_real_pid_loop task level
       (s\<lparr>namespaces := (namespaces s)(up_ns u := ns), pid_hash := h\<rparr>)
   }"

definition free_real_pid :: "nat \<Rightarrow> pid_sys \<Rightarrow> pid_sys option" where
  "free_real_pid task s = free_real_pid_loop task (nat (rp_level (real_pids s task) + 1)) s"

section \<open>The bit map as a set of ids\<close>

text \<open>The bit number \<open>i\<close> of the map, and the two updates as the bit set operations.\<close>

definition pid_taken :: "pidmap \<Rightarrow> nat \<Rightarrow> bool" where
  "pid_taken m i \<longleftrightarrow> bit (pm_data m (i div 8)) (i mod 8)"

definition pid_take :: "nat \<Rightarrow> pidmap \<Rightarrow> pidmap" where
  "pid_take i m = the (pidmap_id_alloc (int (i div 8)) (int (i mod 8)) m)"

definition pid_drop :: "nat \<Rightarrow> pidmap \<Rightarrow> pidmap" where
  "pid_drop i m = the (pidmap_id_free (int (i div 8)) (int (i mod 8)) m)"

lemma in_map_iff [simp]: "in_map (int (i div 8)) \<longleftrightarrow> i < 16"
  by (auto simp: in_map_def PIDMAP_BYTE_def)

lemma pid_take_eq:
  "i < 16 \<Longrightarrow> pid_take i m = m\<lparr>pm_data := (pm_data m)(i div 8 := pm_data m (i div 8) OR push_bit (i mod 8) 1),
     pm_nr_free := pm_nr_free m - 1\<rparr>"
  "i < 16 \<Longrightarrow> pid_drop i m = m\<lparr>pm_data := (pm_data m)(i div 8 := pm_data m (i div 8) AND NOT (push_bit (i mod 8) 1)),
     pm_nr_free := pm_nr_free m + 1\<rparr>"
  unfolding pid_take_def pid_drop_def pidmap_id_alloc_def pidmap_id_free_def
  by (simp_all only: in_map_iff c_guard_True bind.bind_lunit Let_def option.sel nat_int)

lemma pidmap_ops:
  assumes "i < 16"
  shows "pidmap_id_is_valid (int (i div 8)) (int (i mod 8)) m = Some (\<not> pid_taken m i)"
    and "pidmap_id_alloc (int (i div 8)) (int (i mod 8)) m = Some (pid_take i m)"
    and "pidmap_id_free (int (i div 8)) (int (i mod 8)) m = Some (pid_drop i m)"
  unfolding pidmap_id_is_valid_def pidmap_id_alloc_def pidmap_id_free_def pid_take_eq [OF assms]
  by (simp_all only: in_map_iff assms c_guard_True bind.bind_lunit Let_def nat_int pid_taken_def
      push_bit_of_1 and_exp_eq_0_iff_not_bit)

lemma div_mod_8: "i div 8 = j div 8 \<Longrightarrow> i mod 8 = j mod 8 \<Longrightarrow> i = (j :: nat)"
  by (metis div_mult_mod_eq)

lemma pid_take_sel:
  assumes "i < 16"
  shows "pm_nr_free (pid_take i m) = pm_nr_free m - 1" "pm_nr_free (pid_drop i m) = pm_nr_free m + 1"
    "pid_taken (pid_take i m) j \<longleftrightarrow> j = i \<or> pid_taken m j"
    "pid_taken (pid_drop i m) j \<longleftrightarrow> j \<noteq> i \<and> pid_taken m j"
proof -
  have b: "bit (x OR push_bit k 1 :: u8) n \<longleftrightarrow> n = k \<or> bit x n"
    "bit (x AND NOT (push_bit k 1) :: u8) n \<longleftrightarrow> n \<noteq> k \<and> bit x n" if "n < 8" for x k n
    using that by (auto simp: bit_simps)
  have j: "j mod 8 < 8" by simp
  show "pm_nr_free (pid_take i m) = pm_nr_free m - 1" "pm_nr_free (pid_drop i m) = pm_nr_free m + 1"
    by (simp_all add: pid_take_eq [OF assms])
  have ij: "j mod 8 = i mod 8 \<longleftrightarrow> j = i" if "j div 8 = i div 8" using that div_mod_8 [of j i] by auto
  show "pid_taken (pid_take i m) j \<longleftrightarrow> j = i \<or> pid_taken m j"
    unfolding pid_take_eq [OF assms] pid_taken_def
    by (cases "j div 8 = i div 8") (simp_all add: b [OF j] ij del: push_bit_of_1, auto)
  show "pid_taken (pid_drop i m) j \<longleftrightarrow> j \<noteq> i \<and> pid_taken m j"
    unfolding pid_take_eq [OF assms] pid_taken_def
    by (cases "j div 8 = i div 8") (simp_all add: b [OF j] ij del: push_bit_of_1, auto)
qed

interpretation pid_bits: bitset pid_taken pid_take pid_drop 16
  by unfold_locales (simp_all add: pid_take_sel)

text \<open>The free ids, and the counter that has to agree with them.\<close>

definition free_ids :: "pidmap \<Rightarrow> nat set" where
  "free_ids m = {i. i < 16 \<and> \<not> pid_taken m i}"

lemma free_ids_clear: "free_ids m = pid_bits.clear_bits m"
  by (simp add: free_ids_def pid_bits.clear_bits_def)

definition pidmap_ok :: "pidmap \<Rightarrow> bool" where
  "pidmap_ok m \<longleftrightarrow> pm_nr_free m = int (card (free_ids m))"

lemma init_pidmap_ok: "pidmap_ok (init_pidmap m) \<and> free_ids (init_pidmap m) = {0..<16}"
proof -
  have "free_ids (init_pidmap m) = {0..<16}"
    by (auto simp: free_ids_def init_pidmap_def pid_taken_def PIDMAP_BYTE_def)
  then show ?thesis by (simp add: pidmap_ok_def init_pidmap_def PIDMAP_MAX_ENTRY_def)
qed

lemma pid_take_ok:
  assumes "pidmap_ok m" and "i \<in> free_ids m"
  shows "pidmap_ok (pid_take i m)" and "free_ids (pid_take i m) = free_ids m - {i}"
proof -
  have i: "i < 16" "\<not> pid_taken m i" using assms(2) by (simp_all add: free_ids_def)
  show "free_ids (pid_take i m) = free_ids m - {i}"
    by (simp add: free_ids_clear pid_bits.clear_insert i)
  show "pidmap_ok (pid_take i m)"
    using assms(1) pid_bits.card_insert [OF i] i
    by (simp add: pidmap_ok_def pid_take_sel free_ids_clear)
qed

lemma pid_drop_ok:
  assumes "pidmap_ok m" and "i < 16" and "i \<notin> free_ids m"
  shows "pidmap_ok (pid_drop i m)" and "free_ids (pid_drop i m) = insert i (free_ids m)"
proof -
  have i: "pid_taken m i" using assms(2,3) by (simp add: free_ids_def)
  show "free_ids (pid_drop i m) = insert i (free_ids m)"
    by (simp add: free_ids_clear pid_bits.clear_delete assms(2))
  show "pidmap_ok (pid_drop i m)"
    using assms(1) pid_bits.card_delete [OF assms(2) i] assms(2)
    by (simp add: pidmap_ok_def pid_take_sel free_ids_clear)
qed

section \<open>The search\<close>

lemma split_id: "drop_bit 3 (int i) = int (i div 8)" "int i AND 7 = int (i mod 8)"
proof -
  have "(7 :: int) = mask 3" by (simp add: mask_eq_exp_minus_1)
  then show "int i AND 7 = int (i mod 8)"
    by (simp only: take_bit_eq_mask [symmetric]) (simp add: take_bit_eq_mod zmod_int)
  show "drop_bit 3 (int i) = int (i div 8)" by (simp add: drop_bit_eq_div zdiv_int)
qed

lemma alloc_pid_loop_step:
  assumes "r \<le> 16"
  shows "alloc_pid_loop (int r) m =
    (if pid_taken m (r mod 16) then alloc_pid_loop (int (Suc (r mod 16))) m
     else Some (int (r mod 16), pid_take (r mod 16) m))"
proof -
  have r: "(if PIDMAP_MAX_ENTRY \<le> int r then int r mod PIDMAP_MAX_ENTRY else int r) = int (r mod 16)"
    using assms by (auto simp: PIDMAP_MAX_ENTRY_def zmod_int)
  have "r mod 16 < 16" by simp
  note ops = pidmap_ops [OF this]
  show ?thesis
    by (subst alloc_pid_loop.simps)
      (simp only: r Let_def split_id ops bind.bind_lunit, simp add: add.commute)
qed

lemma alloc_pid_loop_found:
  "r \<le> 16 \<Longrightarrow> (\<And>e. e < d \<Longrightarrow> pid_taken m ((r + e) mod 16)) \<Longrightarrow> \<not> pid_taken m ((r + d) mod 16) \<Longrightarrow>
   alloc_pid_loop (int r) m = Some (int ((r + d) mod 16), pid_take ((r + d) mod 16) m)"
proof (induction d arbitrary: r)
  case 0
  then show ?case using alloc_pid_loop_step [of r m] by simp
next
  case (Suc d)
  have m: "(Suc (r mod 16) + e) mod 16 = (r + Suc e) mod 16" for e
    by (metis add_Suc_right add_Suc_shift mod_add_left_eq)
  have "pid_taken m ((r + 0) mod 16)" using Suc.prems(2) by blast
  then have "alloc_pid_loop (int r) m = alloc_pid_loop (int (Suc (r mod 16))) m"
    using alloc_pid_loop_step [OF Suc.prems(1), of m] by simp
  also have "\<dots> = Some (int ((r + Suc d) mod 16), pid_take ((r + Suc d) mod 16) m)"
    using Suc.IH [of "Suc (r mod 16)"] Suc.prems(2) [of "Suc _"] Suc.prems(3) by (simp only: m) (simp add: Suc_leI)
  finally show ?case .
qed

definition ns_ok :: "pid_namespace \<Rightarrow> bool" where
  "ns_ok ns \<longleftrightarrow> pidmap_ok (ns_pidmap ns) \<and> - 1 \<le> ns_last_pid ns \<and> ns_last_pid ns < 16"

lemma alloc_pid_val_spec:
  assumes ok: "ns_ok ns"
  shows "if free_ids (ns_pidmap ns) = {} then alloc_pid_val_from_ns ns = Some (- 1, ns)
    else \<exists>d < 16. \<exists>ns'. let i = (nat (ns_last_pid ns + 1) + d) mod 16 in
      alloc_pid_val_from_ns ns = Some (int i, ns') \<and> i \<in> free_ids (ns_pidmap ns)
      \<and> (\<forall>e < d. (nat (ns_last_pid ns + 1) + e) mod 16 \<notin> free_ids (ns_pidmap ns))
      \<and> free_ids (ns_pidmap ns') = free_ids (ns_pidmap ns) - {i} \<and> ns_last_pid ns' = int i \<and> ns_ok ns'"
proof (cases "free_ids (ns_pidmap ns) = {}")
  case True
  then show ?thesis
    using ok by (simp add: ns_ok_def pidmap_ok_def alloc_pid_val_from_ns_def pid_namespace_full_def)
next
  case False
  let ?m = "ns_pidmap ns"
  define r where "r = nat (ns_last_pid ns + 1)"
  have r: "r \<le> 16" "int r = ns_last_pid ns + 1" using ok unfolding r_def ns_ok_def by linarith+
  have fin: "finite (free_ids ?m)" by (simp add: free_ids_def)
  obtain i where i: "i < 16" "\<not> pid_taken ?m i" using False by (auto simp: free_ids_def)
  define d where "d = (LEAST d. \<not> pid_taken ?m ((r + d) mod 16))"
  define d0 where "d0 = (i + 16 - r) mod 16"
  have "(r + d0) mod 16 = (r + (i + 16 - r)) mod 16" unfolding d0_def by (rule mod_add_right_eq)
  then have "(r + d0) mod 16 = i" using i(1) r(1) by simp
  then have d0: "\<not> pid_taken ?m ((r + d0) mod 16)" "d0 < 16" using i by (simp_all add: d0_def)
  have d: "\<not> pid_taken ?m ((r + d) mod 16)" unfolding d_def by (rule LeastI) (rule d0(1))
  have "d \<le> d0" unfolding d_def by (rule Least_le) (rule d0(1))
  then have "d < 16" using d0 by simp
  have before: "pid_taken ?m ((r + e) mod 16)" if "e < d" for e
    using not_less_Least that unfolding d_def by blast
  let ?i = "(r + d) mod 16"
  define ns' where "ns' = ns\<lparr>ns_pidmap := pid_take ?i ?m, ns_last_pid := int ?i\<rparr>"
  have free: "?i \<in> free_ids ?m" using d by (simp add: free_ids_def)
  have "pm_nr_free ?m \<noteq> 0" using ok False fin by (simp add: ns_ok_def pidmap_ok_def)
  then have "alloc_pid_val_from_ns ns = Some (int ?i, ns')"
    using alloc_pid_loop_found [OF r(1) before d] r(2)
    by (simp add: alloc_pid_val_from_ns_def pid_namespace_full_def ns'_def)
  moreover have "ns_ok ns'" "free_ids (ns_pidmap ns') = free_ids ?m - {?i}"
    using pid_take_ok [OF _ free] ok by (simp_all add: ns'_def ns_ok_def)
  moreover have "\<forall>e < d. (r + e) mod 16 \<notin> free_ids ?m" using before by (simp add: free_ids_def)
  ultimately have "\<exists>d < 16. \<exists>ns'. let i = (r + d) mod 16 in
      alloc_pid_val_from_ns ns = Some (int i, ns') \<and> i \<in> free_ids (ns_pidmap ns)
      \<and> (\<forall>e < d. (r + e) mod 16 \<notin> free_ids (ns_pidmap ns))
      \<and> free_ids (ns_pidmap ns') = free_ids (ns_pidmap ns) - {i} \<and> ns_last_pid ns' = int i \<and> ns_ok ns'"
    using \<open>d < 16\<close> free by (intro exI [of _ d] conjI exI [of _ ns']) (simp_all add: Let_def ns'_def)
  then show ?thesis using False by (simp only: if_False r_def)
qed

lemma alloc_pid_val_total: "ns_ok ns \<Longrightarrow> \<exists>r ns'. alloc_pid_val_from_ns ns = Some (r, ns') \<and> ns_ok ns'"
  using alloc_pid_val_spec [of ns] by (auto simp: Let_def split: if_splits)

text \<open>C27: Allocating an id from a namespace always returns. It returns -1 exactly when all 16
  ids are taken, and then changes nothing; otherwise it returns the first free id at or after
  the one following the last id given out, cyclically, and takes exactly that id, keeping the
  free counter equal to the number of free bits.\<close>

theorem alloc_pid_val_correct:
  assumes ok: "ns_ok ns"
  shows "if free_ids (ns_pidmap ns) = {} then alloc_pid_val_from_ns ns = Some (- 1, ns)
    else \<exists>d < 16. \<exists>ns'. let i = (nat (ns_last_pid ns + 1) + d) mod 16 in
      alloc_pid_val_from_ns ns = Some (int i, ns') \<and> i \<in> free_ids (ns_pidmap ns)
      \<and> (\<forall>e < d. (nat (ns_last_pid ns + 1) + e) mod 16 \<notin> free_ids (ns_pidmap ns))
      \<and> free_ids (ns_pidmap ns') = free_ids (ns_pidmap ns) - {i} \<and> ns_last_pid ns' = int i \<and> ns_ok ns'"
  by (rule alloc_pid_val_spec [OF ok])

text \<open>A fresh namespace, and the same with the first three ids taken.\<close>

definition fresh_ns :: pid_namespace where
  "fresh_ns = \<lparr>ns_level = 0, ns_last_pid = - 1, ns_pidmap = init_pidmap \<lparr>pm_nr_free = 0, pm_data = (\<lambda>_. 0)\<rparr>,
     ns_parent = NULL\<rparr>"

lemma fresh_ns_ok: "ns_ok fresh_ns" "free_ids (ns_pidmap fresh_ns) = {0..<16}"
  by (simp_all add: ns_ok_def fresh_ns_def init_pidmap_ok)

theorem alloc_pid_val_correct_witness:
  "\<exists>i ns'. alloc_pid_val_from_ns fresh_ns = Some (int i, ns') \<and> i < 16 \<and> ns_ok ns'"
  using alloc_pid_val_correct [OF fresh_ns_ok(1)] fresh_ns_ok(2)
  by (auto simp: Let_def)

text \<open>Freeing an id that is taken makes exactly that id free again; freeing one that is
  free already changes nothing.\<close>

theorem free_pid_val_correct:
  assumes ok: "ns_ok ns" and i: "i < 16"
  shows "\<exists>ns'. free_pid_val_from_ns (int i) ns = Some ns' \<and> ns_ok ns'
    \<and> free_ids (ns_pidmap ns') = insert i (free_ids (ns_pidmap ns))
    \<and> (i \<in> free_ids (ns_pidmap ns) \<longrightarrow> ns' = ns)"
proof -
  have eq: "free_pid_val_from_ns (int i) ns = (if pid_namespace_empty ns \<or> i \<in> free_ids (ns_pidmap ns)
      then Some ns else Some (ns\<lparr>ns_pidmap := pid_drop i (ns_pidmap ns)\<rparr>))"
    unfolding free_pid_val_from_ns_def split_id Let_def pidmap_ops [OF i] bind.bind_lunit free_ids_def
    using i by (cases "pid_taken (ns_pidmap ns) i")
      (simp_all only: mem_Collect_eq simp_thms if_True if_False if_cancel)
  show ?thesis
  proof (cases "i \<in> free_ids (ns_pidmap ns)")
    case True
    then show ?thesis using ok eq by (simp add: insert_absorb)
  next
    case False
    have "free_ids (ns_pidmap ns) \<subseteq> {..<16} - {i}" using False i by (auto simp: free_ids_def)
    then have "card (free_ids (ns_pidmap ns)) \<le> card ({..<16} - {i})" by (intro card_mono) auto
    then have "card (free_ids (ns_pidmap ns)) < 16" using i by simp
    then have "\<not> pid_namespace_empty ns"
      using ok by (simp add: pid_namespace_empty_def ns_ok_def pidmap_ok_def PIDMAP_MAX_ENTRY_def)
    then show ?thesis using pid_drop_ok [OF _ i False] ok False eq by (simp add: ns_ok_def)
  qed
qed

theorem free_pid_val_correct_witness:
  "\<exists>ns'. free_pid_val_from_ns 3 fresh_ns = Some ns' \<and> ns_ok ns'"
  using free_pid_val_correct [OF fresh_ns_ok(1), of 3] by auto

text \<open>Freeing the failure value -1 as an id reads in front of the bit map.\<close>

lemma free_pid_minus_1: "\<not> pid_namespace_empty ns \<Longrightarrow> free_pid_val_from_ns (- 1) ns = None"
  by (simp add: free_pid_val_from_ns_def pidmap_id_is_valid_def in_map_def Let_def c_guard_def)

section \<open>Ids of a task\<close>

lemma set_upid_sel [simp]:
  "namespaces (set_upid t i f s) = namespaces s" "pid_hash (set_upid t i f s) = pid_hash s"
  by (simp_all add: set_upid_def)

lemma assign_loop_total:
  "ns_ok (namespaces s ns) \<Longrightarrow> other \<noteq> ns \<Longrightarrow> \<exists>r s'. assign_loop task ns ns n s = Some (r, s')
     \<and> namespaces s' other = namespaces s other"
proof (induction n arbitrary: s)
  case 0
  then show ?case by simp
next
  case (Suc n)
  obtain nr tns where a: "alloc_pid_val_from_ns (namespaces s ns) = Some (nr, tns)" "ns_ok tns"
    using alloc_pid_val_total [OF Suc.prems(1)] by blast
  define s1 where "s1 = set_upid task n (\<lambda>u. u\<lparr>up_nr := nr\<rparr>) (s\<lparr>namespaces := (namespaces s)(ns := tns)\<rparr>)"
  define s2 where "s2 = set_upid task n (\<lambda>u. u\<lparr>up_ns := ns\<rparr>) s1"
  define s3 where "s3 = s2\<lparr>pid_hash := hlist_add_head (pid_chain task n)
    (pid_hash_function nr (namespaces s2 ns)) (pid_hash s2)\<rparr>"
  have n: "namespaces s1 = (namespaces s)(ns := tns)" "namespaces s3 = (namespaces s)(ns := tns)"
    by (simp_all add: s3_def s2_def s1_def)
  have "assign_loop task ns ns (Suc n) s =
    (if ns = NULL then Some (0, s) else if nr = - 1 then Some (1, s1) else assign_loop task ns ns n s3)"
    using a by (simp add: Let_def s3_def s2_def s1_def)
  moreover obtain r s' where "assign_loop task ns ns n s3 = Some (r, s')" "namespaces s' other = namespaces s3 other"
    using Suc.IH [of s3] Suc.prems(2) a(2) n by auto
  ultimately show ?case using n Suc.prems(2) by auto
qed

lemma assign_total:
  "ns_ok (namespaces s ns) \<Longrightarrow> \<exists>r s'. assign_real_pid_from_ns task ns s = Some (r, s')"
  using assign_loop_total [of "s\<lparr>real_pids := (real_pids s)(task := (real_pids s task)\<lparr>rp_level := int (ns_level (namespaces s ns))\<rparr>)\<rparr>" ns "Suc ns"]
  by (fastforce simp: assign_real_pid_from_ns_def Let_def simp del: assign_loop.simps)

text \<open>Giving a task its ids always returns, and all of them, one for each level, are taken from
  the task's own namespace: no other namespace, the parent included, changes.\<close>

theorem assign_leaves_parents:
  assumes "ns_ok (namespaces s ns)" and "other \<noteq> ns"
  shows "\<exists>r s'. assign_real_pid_from_ns task ns s = Some (r, s') \<and> namespaces s' other = namespaces s other"
proof -
  let ?s = "s\<lparr>real_pids := (real_pids s)(task := (real_pids s task)\<lparr>rp_level := int (ns_level (namespaces s ns))\<rparr>)\<rparr>"
  show ?thesis
    using assms assign_loop_total [of ?s ns other task "Suc (ns_level (namespaces s ns))"]
    by (simp add: assign_real_pid_from_ns_def Let_def del: assign_loop.simps)
qed

definition sample_pids :: pid_sys where
  "sample_pids = \<lparr>namespaces = (\<lambda>n. fresh_ns\<lparr>ns_level := n - 1, ns_parent := n - 1\<rparr>),
     real_pids = (\<lambda>_. \<lparr>rp_level = 0, rp_numbers = (\<lambda>_. \<lparr>up_nr = 0, up_ns = 0\<rparr>)\<rparr>),
     pid_hash = \<lparr>h_first = (\<lambda>_. 0), h_next = (\<lambda>_. 0), h_pprev = (\<lambda>_. None)\<rparr>\<rparr>"

theorem assign_leaves_parents_witness:
  "\<exists>r s'. assign_real_pid_from_ns 7 2 sample_pids = Some (r, s') \<and> namespaces s' 1 = namespaces sample_pids 1"
  by (rule assign_leaves_parents) (use fresh_ns_ok(1) in \<open>simp_all add: sample_pids_def ns_ok_def\<close>)

end
