(* ===== verification/RBTree.thy ===== *)
theory RBTree
  imports Prelude
begin

text \<open>
  \<open>kernel/pc/rbtree.c\<close> and \<open>include/zjunix/rbtree.h\<close>: the pointer-level red-black tree of the
  scheduler. The heap maps node addresses to their parent, colour and children; the word
  \<open>rb_parent_color\<close> is kept as its two parts (nodes are aligned, so the low bits hold only the
  colour; lemma \<open>parent_color_word\<close>). A heap has one tree, with the root pointer \<open>rb_root\<close>.
  Every access through a pointer has no result for NULL. The proofs work on a zipper: a subtree
  and the path of its ancestors, both laid out in the heap.
\<close>

section \<open>The heap\<close>

record rb_heap =
  n_parent :: "nat \<Rightarrow> nat"
  n_black :: "nat \<Rightarrow> bool"
  n_right :: "nat \<Rightarrow> nat"
  n_left :: "nat \<Rightarrow> nat"
  rb_root :: nat

definition pack_parent_color :: "u32 \<Rightarrow> bool \<Rightarrow> u32" where
  "pack_parent_color p b = p OR (if b then 1 else 0)"

lemma parent_color_word:
  assumes "take_bit 2 p = 0"
  shows "pack_parent_color p b AND NOT 3 = p" and "pack_parent_color p b AND 1 = (if b then 1 else 0)"
    and "(pack_parent_color q b AND 1) OR p = pack_parent_color p (bit (pack_parent_color q b) 0)"
proof -
  have p: "\<not> bit p 0" "\<not> bit p 1" using assms by (auto simp: take_bit_0_iff)
  have b3: "bit (3 :: u32) i \<longleftrightarrow> i = 0 \<or> i = Suc 0" for i
    using bit_mask_iff [of 2 i, where 'a = u32] by (auto simp: mask_eq_exp_minus_1 dest: bit_imp_le_length)
  have b3i: "bit (3 :: int) i \<longleftrightarrow> i = 0 \<or> i = Suc 0" for i
    using bit_mask_iff [of 2 i, where 'a = int] by (auto simp: mask_eq_exp_minus_1)
  have b1: "bit (1 :: u32) i \<longleftrightarrow> i = 0" for i by (simp add: bit_1_iff)
  show "pack_parent_color p b AND NOT 3 = p"
    using p by (intro bit_word_eqI) (auto simp: pack_parent_color_def bit_simps b3 b3i intro!: gr0I)
  show "pack_parent_color p b AND 1 = (if b then 1 else 0)"
    using p by (intro bit_word_eqI) (auto simp: pack_parent_color_def bit_simps b1 intro!: gr0I)
  show "(pack_parent_color q b AND 1) OR p = pack_parent_color p (bit (pack_parent_color q b) 0)"
    by (intro bit_word_eqI) (auto simp: pack_parent_color_def bit_simps b1)
qed

subsection \<open>Field accesses\<close>

text \<open>The stores, named so that the framing lemmas below can match them.\<close>

definition wr_parent :: "nat \<Rightarrow> nat \<Rightarrow> rb_heap \<Rightarrow> rb_heap" where
  "wr_parent p v h = h\<lparr>n_parent := (n_parent h)(p := v)\<rparr>"

definition wr_left :: "nat \<Rightarrow> nat \<Rightarrow> rb_heap \<Rightarrow> rb_heap" where
  "wr_left p v h = h\<lparr>n_left := (n_left h)(p := v)\<rparr>"

definition wr_right :: "nat \<Rightarrow> nat \<Rightarrow> rb_heap \<Rightarrow> rb_heap" where
  "wr_right p v h = h\<lparr>n_right := (n_right h)(p := v)\<rparr>"

definition wr_black :: "nat \<Rightarrow> bool \<Rightarrow> rb_heap \<Rightarrow> rb_heap" where
  "wr_black p b h = h\<lparr>n_black := (n_black h)(p := b)\<rparr>"

definition wr_root :: "nat \<Rightarrow> rb_heap \<Rightarrow> rb_heap" where
  "wr_root v h = h\<lparr>rb_root := v\<rparr>"

lemma wr_fields [simp]:
  "n_parent (wr_parent p v h) = (n_parent h)(p := v)" "n_left (wr_parent p v h) = n_left h"
  "n_right (wr_parent p v h) = n_right h" "n_black (wr_parent p v h) = n_black h" "rb_root (wr_parent p v h) = rb_root h"
  "n_parent (wr_left p v h) = n_parent h" "n_left (wr_left p v h) = (n_left h)(p := v)"
  "n_right (wr_left p v h) = n_right h" "n_black (wr_left p v h) = n_black h" "rb_root (wr_left p v h) = rb_root h"
  "n_parent (wr_right p v h) = n_parent h" "n_left (wr_right p v h) = n_left h"
  "n_right (wr_right p v h) = (n_right h)(p := v)" "n_black (wr_right p v h) = n_black h" "rb_root (wr_right p v h) = rb_root h"
  "n_parent (wr_black p c h) = n_parent h" "n_left (wr_black p c h) = n_left h"
  "n_right (wr_black p c h) = n_right h" "n_black (wr_black p c h) = (n_black h)(p := c)" "rb_root (wr_black p c h) = rb_root h"
  "n_parent (wr_root v h) = n_parent h" "n_left (wr_root v h) = n_left h"
  "n_right (wr_root v h) = n_right h" "n_black (wr_root v h) = n_black h" "rb_root (wr_root v h) = v"
  by (simp_all add: wr_parent_def wr_left_def wr_right_def wr_black_def wr_root_def)

definition rb_parent :: "nat \<Rightarrow> rb_heap \<Rightarrow> nat option" where
  "rb_parent p h = do { _ \<leftarrow> c_guard (p \<noteq> NULL); Some (n_parent h p) }"

definition rb_left :: "nat \<Rightarrow> rb_heap \<Rightarrow> nat option" where
  "rb_left p h = do { _ \<leftarrow> c_guard (p \<noteq> NULL); Some (n_left h p) }"

definition rb_right :: "nat \<Rightarrow> rb_heap \<Rightarrow> nat option" where
  "rb_right p h = do { _ \<leftarrow> c_guard (p \<noteq> NULL); Some (n_right h p) }"

definition rb_is_black :: "nat \<Rightarrow> rb_heap \<Rightarrow> bool option" where
  "rb_is_black p h = do { _ \<leftarrow> c_guard (p \<noteq> NULL); Some (n_black h p) }"

definition rb_is_red :: "nat \<Rightarrow> rb_heap \<Rightarrow> bool option" where
  "rb_is_red p h = do { b \<leftarrow> rb_is_black p h; Some (\<not> b) }"

definition rb_set_parent :: "nat \<Rightarrow> nat \<Rightarrow> rb_heap \<Rightarrow> rb_heap option" where
  "rb_set_parent p v h = do { _ \<leftarrow> c_guard (p \<noteq> NULL); Some (wr_parent p v h) }"

definition rb_set_left :: "nat \<Rightarrow> nat \<Rightarrow> rb_heap \<Rightarrow> rb_heap option" where
  "rb_set_left p v h = do { _ \<leftarrow> c_guard (p \<noteq> NULL); Some (wr_left p v h) }"

definition rb_set_right :: "nat \<Rightarrow> nat \<Rightarrow> rb_heap \<Rightarrow> rb_heap option" where
  "rb_set_right p v h = do { _ \<leftarrow> c_guard (p \<noteq> NULL); Some (wr_right p v h) }"

definition rb_set_color :: "nat \<Rightarrow> bool \<Rightarrow> rb_heap \<Rightarrow> rb_heap option" where
  "rb_set_color p b h = do { _ \<leftarrow> c_guard (p \<noteq> NULL); Some (wr_black p b h) }"

definition rb_set_black :: "nat \<Rightarrow> rb_heap \<Rightarrow> rb_heap option" where
  "rb_set_black p h = rb_set_color p True h"

definition rb_set_red :: "nat \<Rightarrow> rb_heap \<Rightarrow> rb_heap option" where
  "rb_set_red p h = rb_set_color p False h"

text \<open>A \<open>struct rb_node **\<close>: the root pointer or a child pointer of a node.\<close>

datatype rb_link = Link_root | Link_left nat | Link_right nat

fun rb_get_link :: "rb_link \<Rightarrow> rb_heap \<Rightarrow> nat option" where
  "rb_get_link Link_root h = Some (rb_root h)"
| "rb_get_link (Link_left p) h = rb_left p h"
| "rb_get_link (Link_right p) h = rb_right p h"

fun rb_put_link :: "rb_link \<Rightarrow> nat \<Rightarrow> rb_heap \<Rightarrow> rb_heap option" where
  "rb_put_link Link_root v h = Some (wr_root v h)"
| "rb_put_link (Link_left p) v h = rb_set_left p v h"
| "rb_put_link (Link_right p) v h = rb_set_right p v h"

definition rb_link_node :: "nat \<Rightarrow> nat \<Rightarrow> rb_link \<Rightarrow> rb_heap \<Rightarrow> rb_heap option" where
  "rb_link_node node parent link h = do {
     h \<leftarrow> rb_set_parent node parent h;
     h \<leftarrow> rb_set_red node h;
     h \<leftarrow> rb_set_right node NULL h;
     h \<leftarrow> rb_set_left node NULL h;
     rb_put_link link node h
   }"

definition rb_init_node :: "nat \<Rightarrow> rb_heap \<Rightarrow> rb_heap option" where
  "rb_init_node node h = do {
     h \<leftarrow> rb_set_red node h;
     h \<leftarrow> rb_set_right node NULL h;
     h \<leftarrow> rb_set_left node NULL h;
     rb_set_parent node node h
   }"

section \<open>Rotations\<close>

text \<open>The link that led to \<open>old\<close>, in its parent or in the root, is set to \<open>new\<close>.\<close>

definition rb_relink_left :: "nat \<Rightarrow> nat \<Rightarrow> nat \<Rightarrow> rb_heap \<Rightarrow> rb_heap option" where
  "rb_relink_left parent old new h =
     (if parent \<noteq> NULL then do {
        pl \<leftarrow> rb_left parent h;
        if old = pl then rb_set_left parent new h else rb_set_right parent new h
      } else Some (wr_root new h))"

definition rb_relink_right :: "nat \<Rightarrow> nat \<Rightarrow> nat \<Rightarrow> rb_heap \<Rightarrow> rb_heap option" where
  "rb_relink_right parent old new h =
     (if parent \<noteq> NULL then do {
        pr \<leftarrow> rb_right parent h;
        if old = pr then rb_set_right parent new h else rb_set_left parent new h
      } else Some (wr_root new h))"

definition rb_rotate_left :: "nat \<Rightarrow> rb_heap \<Rightarrow> rb_heap option" where
  "rb_rotate_left node h = do {
     right \<leftarrow> rb_right node h;
     parent \<leftarrow> rb_parent node h;
     rl \<leftarrow> rb_left right h;
     h \<leftarrow> rb_set_right node rl h;
     h \<leftarrow> (if rl \<noteq> NULL then rb_set_parent rl node h else Some h);
     h \<leftarrow> rb_set_left right node h;
     h \<leftarrow> rb_set_parent right parent h;
     h \<leftarrow> rb_relink_left parent node right h;
     rb_set_parent node right h
   }"

definition rb_rotate_right :: "nat \<Rightarrow> rb_heap \<Rightarrow> rb_heap option" where
  "rb_rotate_right node h = do {
     left \<leftarrow> rb_left node h;
     parent \<leftarrow> rb_parent node h;
     lr \<leftarrow> rb_right left h;
     h \<leftarrow> rb_set_left node lr h;
     h \<leftarrow> (if lr \<noteq> NULL then rb_set_parent lr node h else Some h);
     h \<leftarrow> rb_set_right left node h;
     h \<leftarrow> rb_set_parent left parent h;
     h \<leftarrow> rb_relink_right parent node left h;
     rb_set_parent node left h
   }"

section \<open>Insertion\<close>

text \<open>\<open>p && rb_is_red(p)\<close>, and \<open>!p || rb_is_black(p)\<close>.\<close>

definition non_null_red :: "nat \<Rightarrow> rb_heap \<Rightarrow> bool option" where
  "non_null_red p h = (if p \<noteq> NULL then rb_is_red p h else Some False)"

definition null_or_black :: "nat \<Rightarrow> rb_heap \<Rightarrow> bool option" where
  "null_or_black p h = (if p = NULL then Some True else rb_is_black p h)"

partial_function (option) rb_insert_color :: "nat \<Rightarrow> rb_heap \<Rightarrow> rb_heap option" where
  "rb_insert_color node h = do {
     parent \<leftarrow> rb_parent node h;
     red \<leftarrow> non_null_red parent h;
     if \<not> red then rb_set_black (rb_root h) h
     else do {
       gparent \<leftarrow> rb_parent parent h;
       gl \<leftarrow> rb_left gparent h;
       if parent = gl then do {
         uncle \<leftarrow> rb_right gparent h;
         ured \<leftarrow> non_null_red uncle h;
         if ured then do {
           h \<leftarrow> rb_set_black uncle h;
           h \<leftarrow> rb_set_black parent h;
           h \<leftarrow> rb_set_red gparent h;
           rb_insert_color gparent h
         } else do {
           pr \<leftarrow> rb_right parent h;
           (node, parent, h) \<leftarrow>
             (if pr = node then do { h \<leftarrow> rb_rotate_left parent h; Some (parent, node, h) }
              else Some (node, parent, h));
           h \<leftarrow> rb_set_black parent h;
           h \<leftarrow> rb_set_red gparent h;
           h \<leftarrow> rb_rotate_right gparent h;
           rb_insert_color node h
         }
       } else do {
         uncle \<leftarrow> rb_left gparent h;
         ured \<leftarrow> non_null_red uncle h;
         if ured then do {
           h \<leftarrow> rb_set_black uncle h;
           h \<leftarrow> rb_set_black parent h;
           h \<leftarrow> rb_set_red gparent h;
           rb_insert_color gparent h
         } else do {
           pl \<leftarrow> rb_left parent h;
           (node, parent, h) \<leftarrow>
             (if pl = node then do { h \<leftarrow> rb_rotate_right parent h; Some (parent, node, h) }
              else Some (node, parent, h));
           h \<leftarrow> rb_set_black parent h;
           h \<leftarrow> rb_set_red gparent h;
           h \<leftarrow> rb_rotate_left gparent h;
           rb_insert_color node h
         }
       }
     }
   }"

section \<open>Removal\<close>

text \<open>
  \<open>__rb_erase_color\<close>. Each arm of the loop body gives the next \<open>(node, parent)\<close>, or \<open>None\<close> for the \<open>break\<close>
  (after which \<open>node\<close> is the root).
\<close>

definition rb_erase_rebalance_left :: "nat \<Rightarrow> nat \<Rightarrow> rb_heap \<Rightarrow> (rb_heap \<times> (nat \<times> nat) option) option" where
  "rb_erase_rebalance_left other parent h = do {
     ol \<leftarrow> rb_left other h;
     lblack \<leftarrow> null_or_black ol h;
     or \<leftarrow> rb_right other h;
     rblack \<leftarrow> null_or_black or h;
     if lblack \<and> rblack then do {
       h \<leftarrow> rb_set_red other h;
       gparent \<leftarrow> rb_parent parent h;
       Some (h, Some (parent, gparent))
     } else do {
       (other, h) \<leftarrow>
         (if rblack then do {
            h \<leftarrow> rb_set_black ol h;
            h \<leftarrow> rb_set_red other h;
            h \<leftarrow> rb_rotate_right other h;
            other \<leftarrow> rb_right parent h;
            Some (other, h)
          } else Some (other, h));
       color \<leftarrow> rb_is_black parent h;
       h \<leftarrow> rb_set_color other color h;
       h \<leftarrow> rb_set_black parent h;
       or \<leftarrow> rb_right other h;
       h \<leftarrow> rb_set_black or h;
       h \<leftarrow> rb_rotate_left parent h;
       Some (h, None)
     }
   }"

definition rb_erase_fix_left :: "nat \<Rightarrow> rb_heap \<Rightarrow> (rb_heap \<times> (nat \<times> nat) option) option" where
  "rb_erase_fix_left parent h = do {
     other \<leftarrow> rb_right parent h;
     red \<leftarrow> rb_is_red other h;
     (other, h) \<leftarrow>
       (if red then do {
          h \<leftarrow> rb_set_black other h;
          h \<leftarrow> rb_set_red parent h;
          h \<leftarrow> rb_rotate_left parent h;
          other \<leftarrow> rb_right parent h;
          Some (other, h)
        } else Some (other, h));
     rb_erase_rebalance_left other parent h
   }"

definition rb_erase_rebalance_right :: "nat \<Rightarrow> nat \<Rightarrow> rb_heap \<Rightarrow> (rb_heap \<times> (nat \<times> nat) option) option" where
  "rb_erase_rebalance_right other parent h = do {
     ol \<leftarrow> rb_left other h;
     lblack \<leftarrow> null_or_black ol h;
     or \<leftarrow> rb_right other h;
     rblack \<leftarrow> null_or_black or h;
     if lblack \<and> rblack then do {
       h \<leftarrow> rb_set_red other h;
       gparent \<leftarrow> rb_parent parent h;
       Some (h, Some (parent, gparent))
     } else do {
       (other, h) \<leftarrow>
         (if lblack then do {
            h \<leftarrow> rb_set_black or h;
            h \<leftarrow> rb_set_red other h;
            h \<leftarrow> rb_rotate_left other h;
            other \<leftarrow> rb_left parent h;
            Some (other, h)
          } else Some (other, h));
       color \<leftarrow> rb_is_black parent h;
       h \<leftarrow> rb_set_color other color h;
       h \<leftarrow> rb_set_black parent h;
       ol \<leftarrow> rb_left other h;
       h \<leftarrow> rb_set_black ol h;
       h \<leftarrow> rb_rotate_right parent h;
       Some (h, None)
     }
   }"

definition rb_erase_fix_right :: "nat \<Rightarrow> rb_heap \<Rightarrow> (rb_heap \<times> (nat \<times> nat) option) option" where
  "rb_erase_fix_right parent h = do {
     other \<leftarrow> rb_left parent h;
     red \<leftarrow> rb_is_red other h;
     (other, h) \<leftarrow>
       (if red then do {
          h \<leftarrow> rb_set_black other h;
          h \<leftarrow> rb_set_red parent h;
          h \<leftarrow> rb_rotate_right parent h;
          other \<leftarrow> rb_left parent h;
          Some (other, h)
        } else Some (other, h));
     rb_erase_rebalance_right other parent h
   }"

partial_function (option) rb_erase_color :: "nat \<Rightarrow> nat \<Rightarrow> rb_heap \<Rightarrow> rb_heap option" where
  "rb_erase_color node parent h = do {
     black \<leftarrow> null_or_black node h;
     if black \<and> node \<noteq> rb_root h then do {
       pl \<leftarrow> rb_left parent h;
       (h, step) \<leftarrow> (if pl = node then rb_erase_fix_left parent h else rb_erase_fix_right parent h);
       case step of
         Some (node, parent) \<Rightarrow> rb_erase_color node parent h
       | None \<Rightarrow> (if rb_root h \<noteq> NULL then rb_set_black (rb_root h) h else Some h)
     }
     else if node \<noteq> NULL then rb_set_black node h else Some h
   }"

text \<open>\<open>while (n->rb_left) n = n->rb_left;\<close> and its mirror image.\<close>

partial_function (option) rb_leftmost :: "nat \<Rightarrow> rb_heap \<Rightarrow> nat option" where
  "rb_leftmost n h = do { l \<leftarrow> rb_left n h; if l \<noteq> NULL then rb_leftmost l h else Some n }"

partial_function (option) rb_rightmost :: "nat \<Rightarrow> rb_heap \<Rightarrow> nat option" where
  "rb_rightmost n h = do { r \<leftarrow> rb_right n h; if r \<noteq> NULL then rb_rightmost r h else Some n }"

text \<open>
  The two ways \<open>rb_erase\<close> unlinks a node; both give the child that moved up, its parent and the colour
  that left the tree. A node with at most one child is bypassed; otherwise the in-order successor
  takes the place and the colour of the node.
\<close>

definition rb_erase_unlink :: "nat \<Rightarrow> nat \<Rightarrow> rb_heap \<Rightarrow> (nat \<times> nat \<times> bool \<times> rb_heap) option" where
  "rb_erase_unlink node child h = do {
     parent \<leftarrow> rb_parent node h;
     color \<leftarrow> rb_is_black node h;
     h \<leftarrow> (if child \<noteq> NULL then rb_set_parent child parent h else Some h);
     h \<leftarrow> rb_relink_left parent node child h;
     Some (child, parent, color, h)
   }"

definition rb_erase_splice :: "nat \<Rightarrow> rb_heap \<Rightarrow> (nat \<times> nat \<times> bool \<times> rb_heap) option" where
  "rb_erase_splice old h = do {
     right \<leftarrow> rb_right old h;
     node \<leftarrow> rb_leftmost right h;
     oparent \<leftarrow> rb_parent old h;
     h \<leftarrow> rb_relink_left oparent old node h;
     child \<leftarrow> rb_right node h;
     parent \<leftarrow> rb_parent node h;
     color \<leftarrow> rb_is_black node h;
     (parent, h) \<leftarrow>
       (if parent = old then Some (node, h)
        else do {
          h \<leftarrow> (if child \<noteq> NULL then rb_set_parent child parent h else Some h);
          h \<leftarrow> rb_set_left parent child h;
          oright \<leftarrow> rb_right old h;
          h \<leftarrow> rb_set_right node oright h;
          oright \<leftarrow> rb_right old h;
          h \<leftarrow> rb_set_parent oright node h;
          Some (parent, h)
        });
     oparent \<leftarrow> rb_parent old h;
     ocolor \<leftarrow> rb_is_black old h;
     h \<leftarrow> rb_set_parent node oparent h;
     h \<leftarrow> rb_set_color node ocolor h;
     oleft \<leftarrow> rb_left old h;
     h \<leftarrow> rb_set_left node oleft h;
     oleft \<leftarrow> rb_left old h;
     h \<leftarrow> rb_set_parent oleft node h;
     Some (child, parent, color, h)
   }"

definition rb_erase :: "nat \<Rightarrow> rb_heap \<Rightarrow> rb_heap option" where
  "rb_erase node h = do {
     left \<leftarrow> rb_left node h;
     right \<leftarrow> rb_right node h;
     (child, parent, black, h) \<leftarrow>
       (if left = NULL then rb_erase_unlink node right h
        else if right = NULL then rb_erase_unlink node left h
        else rb_erase_splice node h);
     if black then rb_erase_color child parent h else Some h
   }"

section \<open>Order traversal and replacement\<close>

definition rb_first :: "rb_heap \<Rightarrow> nat option" where
  "rb_first h = (if rb_root h = NULL then Some NULL else rb_leftmost (rb_root h) h)"

definition rb_last :: "rb_heap \<Rightarrow> nat option" where
  "rb_last h = (if rb_root h = NULL then Some NULL else rb_rightmost (rb_root h) h)"

partial_function (option) rb_climb_right :: "nat \<Rightarrow> rb_heap \<Rightarrow> nat option" where
  "rb_climb_right node h = do {
     parent \<leftarrow> rb_parent node h;
     if parent = NULL then Some parent
     else do { r \<leftarrow> rb_right parent h; if node = r then rb_climb_right parent h else Some parent }
   }"

partial_function (option) rb_climb_left :: "nat \<Rightarrow> rb_heap \<Rightarrow> nat option" where
  "rb_climb_left node h = do {
     parent \<leftarrow> rb_parent node h;
     if parent = NULL then Some parent
     else do { l \<leftarrow> rb_left parent h; if node = l then rb_climb_left parent h else Some parent }
   }"

definition rb_next :: "nat \<Rightarrow> rb_heap \<Rightarrow> nat option" where
  "rb_next node h = do {
     parent \<leftarrow> rb_parent node h;
     if parent = node then Some NULL
     else do {
       right \<leftarrow> rb_right node h;
       if right \<noteq> NULL then rb_leftmost right h else rb_climb_right node h
     }
   }"

definition rb_prev :: "nat \<Rightarrow> rb_heap \<Rightarrow> nat option" where
  "rb_prev node h = do {
     parent \<leftarrow> rb_parent node h;
     if parent = node then Some NULL
     else do {
       left \<leftarrow> rb_left node h;
       if left \<noteq> NULL then rb_rightmost left h else rb_climb_left node h
     }
   }"

definition rb_replace_node :: "nat \<Rightarrow> nat \<Rightarrow> rb_heap \<Rightarrow> rb_heap option" where
  "rb_replace_node victim new h = do {
     parent \<leftarrow> rb_parent victim h;
     h \<leftarrow> rb_relink_left parent victim new h;
     left \<leftarrow> rb_left victim h;
     h \<leftarrow> (if left \<noteq> NULL then rb_set_parent left new h else Some h);
     right \<leftarrow> rb_right victim h;
     h \<leftarrow> (if right \<noteq> NULL then rb_set_parent right new h else Some h);
     _ \<leftarrow> c_guard (new \<noteq> NULL);
     Some (wr_parent new (n_parent h victim) (wr_black new (n_black h victim)
       (wr_right new (n_right h victim) (wr_left new (n_left h victim) h))))
   }"

text \<open>
  The augmented-tree hooks. The callback \<open>func(node, data)\<close> acts on the data \<open>s\<close> of the caller and may
  read the links; it does not change them.
\<close>

partial_function (option) rb_augment_path ::
    "(rb_heap \<Rightarrow> nat \<Rightarrow> 's \<Rightarrow> 's option) \<Rightarrow> nat \<Rightarrow> rb_heap \<Rightarrow> 's \<Rightarrow> 's option" where
  "rb_augment_path func node h s = do {
     s \<leftarrow> func h node s;
     parent \<leftarrow> rb_parent node h;
     if parent = NULL then Some s
     else do {
       left \<leftarrow> rb_left parent h;
       right \<leftarrow> rb_right parent h;
       s \<leftarrow> (if node = left \<and> right \<noteq> NULL then func h right s
             else if left \<noteq> NULL then func h left s else Some s);
       rb_augment_path func parent h s
     }
   }"

definition rb_augment_insert ::
    "(rb_heap \<Rightarrow> nat \<Rightarrow> 's \<Rightarrow> 's option) \<Rightarrow> nat \<Rightarrow> rb_heap \<Rightarrow> 's \<Rightarrow> 's option" where
  "rb_augment_insert func node h s = do {
     left \<leftarrow> rb_left node h;
     right \<leftarrow> rb_right node h;
     rb_augment_path func (if left \<noteq> NULL then left else if right \<noteq> NULL then right else node) h s
   }"

definition rb_augment_erase_begin :: "nat \<Rightarrow> rb_heap \<Rightarrow> nat option" where
  "rb_augment_erase_begin node h = do {
     left \<leftarrow> rb_left node h;
     right \<leftarrow> rb_right node h;
     if right = NULL \<and> left = NULL then rb_parent node h
     else if right = NULL then Some left
     else if left = NULL then Some right
     else do {
       deepest \<leftarrow> rb_next node h;
       dright \<leftarrow> rb_right deepest h;
       dparent \<leftarrow> rb_parent deepest h;
       if dright \<noteq> NULL then Some dright
       else if dparent \<noteq> node then Some dparent
       else Some deepest
     }
   }"

definition rb_augment_erase_end ::
    "(rb_heap \<Rightarrow> nat \<Rightarrow> 's \<Rightarrow> 's option) \<Rightarrow> nat \<Rightarrow> rb_heap \<Rightarrow> 's \<Rightarrow> 's option" where
  "rb_augment_erase_end func node h s = (if node \<noteq> NULL then rb_augment_path func node h s else Some s)"

section \<open>Trees and contexts in the heap\<close>

datatype rbt = Leaf | Node rbt bool nat rbt

fun inorder :: "rbt \<Rightarrow> nat list" where
  "inorder Leaf = []"
| "inorder (Node l b x r) = inorder l @ x # inorder r"

fun root_of :: "rbt \<Rightarrow> nat" where
  "root_of Leaf = NULL"
| "root_of (Node l b x r) = x"

text \<open>An ancestor on the path to a subtree: the subtree is its left or its right child.\<close>

datatype frame = FL bool nat rbt | FR bool nat rbt

fun before :: "frame list \<Rightarrow> nat list" where
  "before [] = []"
| "before (FL b x r # c) = before c"
| "before (FR b x l # c) = before c @ inorder l @ [x]"

fun after :: "frame list \<Rightarrow> nat list" where
  "after [] = []"
| "after (FL b x r # c) = x # inorder r @ after c"
| "after (FR b x l # c) = after c"

fun plug1 :: "frame \<Rightarrow> rbt \<Rightarrow> rbt" where
  "plug1 (FL b x r) t = Node t b x r"
| "plug1 (FR b x l) t = Node l b x t"

fun plug :: "frame list \<Rightarrow> rbt \<Rightarrow> rbt" where
  "plug [] t = t"
| "plug (f # c) t = plug c (plug1 f t)"

lemma inorder_plug: "inorder (plug c t) = before c @ inorder t @ after c"
proof (induction c arbitrary: t)
  case Nil
  then show ?case by simp
next
  case (Cons f c)
  then show ?case by (cases f) auto
qed

fun node_of :: "frame \<Rightarrow> nat" where
  "node_of (FL b x r) = x"
| "node_of (FR b x l) = x"

fun cparent :: "frame list \<Rightarrow> nat" where
  "cparent [] = NULL"
| "cparent (f # c) = node_of f"

fun tree_at :: "rb_heap \<Rightarrow> nat \<Rightarrow> nat \<Rightarrow> rbt \<Rightarrow> bool" where
  "tree_at h p par Leaf \<longleftrightarrow> p = NULL"
| "tree_at h p par (Node l b x r) \<longleftrightarrow> p = x \<and> x \<noteq> NULL \<and> n_parent h x = par \<and> n_black h x = b
     \<and> tree_at h (n_left h x) x l \<and> tree_at h (n_right h x) x r"

fun ctx_at :: "rb_heap \<Rightarrow> nat \<Rightarrow> frame list \<Rightarrow> bool" where
  "ctx_at h p [] \<longleftrightarrow> rb_root h = p"
| "ctx_at h p (FL b x r # c) \<longleftrightarrow> x \<noteq> NULL \<and> n_left h x = p \<and> n_black h x = b
     \<and> n_parent h x = cparent c \<and> tree_at h (n_right h x) x r \<and> ctx_at h x c"
| "ctx_at h p (FR b x l # c) \<longleftrightarrow> x \<noteq> NULL \<and> n_right h x = p \<and> n_black h x = b
     \<and> n_parent h x = cparent c \<and> tree_at h (n_left h x) x l \<and> ctx_at h x c"

definition zip_at :: "rb_heap \<Rightarrow> frame list \<Rightarrow> rbt \<Rightarrow> bool" where
  "zip_at h c t \<longleftrightarrow> ctx_at h (root_of t) c \<and> tree_at h (root_of t) (cparent c) t
     \<and> distinct (before c @ inorder t @ after c)"

subsection \<open>Framing\<close>

lemma tree_at_frame [simp]:
  "x \<notin> set (inorder t) \<Longrightarrow> tree_at (wr_parent x v h) p par t = tree_at h p par t"
  "x \<notin> set (inorder t) \<Longrightarrow> tree_at (wr_left x v h) p par t = tree_at h p par t"
  "x \<notin> set (inorder t) \<Longrightarrow> tree_at (wr_right x v h) p par t = tree_at h p par t"
  "x \<notin> set (inorder t) \<Longrightarrow> tree_at (wr_black x d h) p par t = tree_at h p par t"
  "tree_at (wr_root v h) p par t = tree_at h p par t"
  by (induction t arbitrary: p par) auto

lemma ctx_at_frame [simp]:
  "x \<notin> set (before c) \<Longrightarrow> x \<notin> set (after c) \<Longrightarrow> ctx_at (wr_parent x v h) p c = ctx_at h p c"
  "x \<notin> set (before c) \<Longrightarrow> x \<notin> set (after c) \<Longrightarrow> ctx_at (wr_left x v h) p c = ctx_at h p c"
  "x \<notin> set (before c) \<Longrightarrow> x \<notin> set (after c) \<Longrightarrow> ctx_at (wr_right x v h) p c = ctx_at h p c"
  "x \<notin> set (before c) \<Longrightarrow> x \<notin> set (after c) \<Longrightarrow> ctx_at (wr_black x d h) p c = ctx_at h p c"
proof (induction c arbitrary: p)
  case (Cons f c)
  { case 1 with Cons show ?case by (cases f) auto }
  { case 2 with Cons show ?case by (cases f) auto }
  { case 3 with Cons show ?case by (cases f) auto }
  { case 4 with Cons show ?case by (cases f) auto }
qed auto

lemma cparent_mem: "c \<noteq> [] \<Longrightarrow> cparent c \<in> set (before c) \<union> set (after c)"
  by (cases c rule: before.cases) auto

lemma cparent_notin [simp]:
  "x \<notin> set (before c) \<Longrightarrow> x \<notin> set (after c) \<Longrightarrow> x \<noteq> NULL \<Longrightarrow> cparent c \<noteq> x"
  using cparent_mem [of c] by (cases c) auto

lemma ctx_at_cparent: "ctx_at h p c \<Longrightarrow> cparent c = NULL \<longleftrightarrow> c = []"
  by (cases c rule: before.cases) auto

lemma tree_at_root: "tree_at h p par t \<Longrightarrow> p = root_of t"
  by (cases t) auto

lemma tree_at_nonnull: "tree_at h p par t \<Longrightarrow> NULL \<notin> set (inorder t)"
  by (induction t arbitrary: p par) auto

text \<open>The link of the hole of a context, and the store to it.\<close>

fun wr_link :: "frame list \<Rightarrow> nat \<Rightarrow> rb_heap \<Rightarrow> rb_heap" where
  "wr_link [] q h = wr_root q h"
| "wr_link (FL b x s # c) q h = wr_left x q h"
| "wr_link (FR b x s # c) q h = wr_right x q h"

lemma wr_link_fields [simp]: "n_parent (wr_link c q h) = n_parent h" "n_black (wr_link c q h) = n_black h"
  "cparent c \<noteq> x \<Longrightarrow> n_left (wr_link c q h) x = n_left h x"
  "cparent c \<noteq> x \<Longrightarrow> n_right (wr_link c q h) x = n_right h x"
  by (cases c rule: before.cases; auto)+

lemma tree_at_wr_link [simp]:
  "cparent c \<notin> set (inorder t) \<Longrightarrow> tree_at (wr_link c q h) p par t = tree_at h p par t"
  by (cases c rule: before.cases) auto

lemma ctx_at_wr_link:
  "ctx_at h p c \<Longrightarrow> distinct (before c @ after c) \<Longrightarrow> ctx_at (wr_link c q h) q c"
  by (cases c rule: before.cases) auto

lemma relink_ctx:
  assumes "ctx_at h p c" "p \<noteq> NULL" "p \<notin> set (before c)" "p \<notin> set (after c)"
  shows "rb_relink_left (cparent c) p q h = Some (wr_link c q h)"
    and "rb_relink_right (cparent c) p q h = Some (wr_link c q h)"
proof -
  have r: "tree_at h' v par s \<Longrightarrow> v = p \<Longrightarrow> p \<in> set (inorder s)" for h' v par s
    using assms(2) by (cases s) auto
  show "rb_relink_left (cparent c) p q h = Some (wr_link c q h)"
    using assms r by (cases c rule: before.cases)
      (auto simp: rb_relink_left_def rb_left_def rb_set_left_def rb_set_right_def)
  show "rb_relink_right (cparent c) p q h = Some (wr_link c q h)"
    using assms r by (cases c rule: before.cases)
      (auto simp: rb_relink_right_def rb_right_def rb_set_left_def rb_set_right_def)
qed

text \<open>Moving the focus changes nothing.\<close>

lemma zip_up: "zip_at h (f # c) t \<longleftrightarrow> zip_at h c (plug1 f t)"
  by (cases f; cases t) (auto simp: zip_at_def)

lemma zip_root: "zip_at h c t \<longleftrightarrow> zip_at h [] (plug c t)"
  by (induction c arbitrary: t) (simp_all add: zip_up)

section \<open>Correctness of the rotations\<close>

lemmas rb_access = rb_parent_def rb_left_def rb_right_def rb_is_black_def rb_is_red_def rb_set_parent_def
  rb_set_left_def rb_set_right_def rb_set_color_def rb_set_black_def rb_set_red_def non_null_red_def null_or_black_def

lemma zip_cparent: "zip_at h c t \<Longrightarrow> cparent c \<notin> set (inorder t)"
  using cparent_mem [of c] tree_at_nonnull [of h "root_of t" "cparent c" t] by (cases "c = []") (auto simp: zip_at_def)

lemma zip_disjoint:
  "zip_at h c t \<Longrightarrow> x \<in> set (inorder t) \<Longrightarrow> x \<noteq> NULL \<and> x \<notin> set (before c) \<and> x \<notin> set (after c)"
  using tree_at_nonnull [of h "root_of t" "cparent c" t] by (auto simp: zip_at_def)

lemma zip_tree: "zip_at h c t \<Longrightarrow> tree_at h (root_of t) (cparent c) t"
  and zip_ctx: "zip_at h c t \<Longrightarrow> ctx_at h (root_of t) c"
  and zip_distinct: "zip_at h c t \<Longrightarrow> distinct (inorder t)"
  and zip_distinct_ctx: "zip_at h c t \<Longrightarrow> distinct (before c @ after c)"
  by (auto simp: zip_at_def)

lemma zip_rebuild:
  assumes "zip_at h c t" "inorder t' = inorder t" "tree_at h' (root_of t') (cparent c) t'" "ctx_at h' (root_of t') c"
  shows "zip_at h' c t'"
  using assms by (simp add: zip_at_def)

lemma rotate_left_zip:
  assumes z: "zip_at h c (Node a d x (Node b e y r))"
  obtains h' where "rb_rotate_left x h = Some h'" "zip_at h' c (Node (Node a d x b) e y r)"
proof -
  let ?h1 = "wr_right x (root_of b) h"
  let ?h2 = "if root_of b \<noteq> NULL then wr_parent (root_of b) x ?h1 else ?h1"
  let ?h3 = "wr_parent y (cparent c) (wr_left y x ?h2)"
  note out = zip_disjoint [OF z] and cp = zip_cparent [OF z] and tree = zip_tree [OF z] and dist = zip_distinct [OF z]
  have dj: "u \<in> set (inorder b) \<Longrightarrow> u \<notin> set (inorder a) \<and> u \<notin> set (inorder r) \<and> u \<noteq> x \<and> u \<noteq> y" for u
    using dist by auto
  have ctx: "ctx_at ?h3 x c"
    using zip_ctx [OF z] out by (cases b) simp_all
  have link: "rb_relink_left (cparent c) x y ?h3 = Some (wr_link c y ?h3)"
    using ctx out by (intro relink_ctx(1)) simp_all
  have ctx': "ctx_at (wr_link c y ?h3) y c"
    using zip_distinct_ctx [OF z] ctx by (intro ctx_at_wr_link)
  show ?thesis
  proof (rule that [of "wr_parent x y (wr_link c y ?h3)"])
    show "rb_rotate_left x h = Some (wr_parent x y (wr_link c y ?h3))"
      using tree dist link by (cases b) (simp_all add: rb_rotate_left_def rb_access)
    show "zip_at (wr_parent x y (wr_link c y ?h3)) c (Node (Node a d x b) e y r)"
    proof (rule zip_rebuild [OF z])
      show "ctx_at (wr_parent x y (wr_link c y ?h3)) (root_of (Node (Node a d x b) e y r)) c"
        using ctx' out by simp
      show "tree_at (wr_parent x y (wr_link c y ?h3)) (root_of (Node (Node a d x b) e y r)) (cparent c) (Node (Node a d x b) e y r)"
        using tree dist cp dj by (cases b) simp_all
    qed simp
  qed
qed

lemma rotate_right_zip:
  assumes z: "zip_at h c (Node (Node a d x b) e y r)"
  obtains h' where "rb_rotate_right y h = Some h'" "zip_at h' c (Node a d x (Node b e y r))"
proof -
  let ?h1 = "wr_left y (root_of b) h"
  let ?h2 = "if root_of b \<noteq> NULL then wr_parent (root_of b) y ?h1 else ?h1"
  let ?h3 = "wr_parent x (cparent c) (wr_right x y ?h2)"
  note out = zip_disjoint [OF z] and cp = zip_cparent [OF z] and tree = zip_tree [OF z] and dist = zip_distinct [OF z]
  have dj: "u \<in> set (inorder b) \<Longrightarrow> u \<notin> set (inorder a) \<and> u \<notin> set (inorder r) \<and> u \<noteq> x \<and> u \<noteq> y" for u
    using dist by auto
  have ctx: "ctx_at ?h3 y c"
    using zip_ctx [OF z] out by (cases b) simp_all
  have link: "rb_relink_right (cparent c) y x ?h3 = Some (wr_link c x ?h3)"
    using ctx out by (intro relink_ctx(2)) simp_all
  have ctx': "ctx_at (wr_link c x ?h3) x c"
    using zip_distinct_ctx [OF z] ctx by (intro ctx_at_wr_link)
  show ?thesis
  proof (rule that [of "wr_parent y x (wr_link c x ?h3)"])
    show "rb_rotate_right y h = Some (wr_parent y x (wr_link c x ?h3))"
      using tree dist link by (cases b) (simp_all add: rb_rotate_right_def rb_access)
    show "zip_at (wr_parent y x (wr_link c x ?h3)) c (Node a d x (Node b e y r))"
    proof (rule zip_rebuild [OF z])
      show "ctx_at (wr_parent y x (wr_link c x ?h3)) (root_of (Node a d x (Node b e y r))) c"
        using ctx' out by simp
      show "tree_at (wr_parent y x (wr_link c x ?h3)) (root_of (Node a d x (Node b e y r))) (cparent c) (Node a d x (Node b e y r))"
        using tree dist cp dj by (cases b) simp_all
    qed simp
  qed
qed

end
