(* ===== verification/RBInsert.thy ===== *)
theory RBInsert
  imports RBTree
begin

text \<open>
  The red-black invariant, and the proof that \<open>rb_insert_color\<close> (\<open>kernel/pc/rbtree.c\<close>) ends and
  restores it: started at a red node whose tree is in order except that the node may have a red
  parent, it yields a valid red-black tree with the same in-order sequence of nodes.
\<close>

section \<open>The red-black invariant\<close>

fun black_top :: "rbt \<Rightarrow> bool" where
  "black_top Leaf \<longleftrightarrow> True"
| "black_top (Node l b x r) \<longleftrightarrow> b"

text \<open>Every path to a leaf has \<open>n\<close> black nodes, and a red node has black children.\<close>

fun rb_bal :: "rbt \<Rightarrow> nat \<Rightarrow> bool" where
  "rb_bal Leaf n \<longleftrightarrow> n = 0"
| "rb_bal (Node l True x r) n \<longleftrightarrow> (case n of 0 \<Rightarrow> False | Suc m \<Rightarrow> rb_bal l m \<and> rb_bal r m)"
| "rb_bal (Node l False x r) n \<longleftrightarrow> black_top l \<and> black_top r \<and> rb_bal l n \<and> rb_bal r n"

fun bheight :: "rbt \<Rightarrow> nat" where
  "bheight Leaf = 0"
| "bheight (Node l b x r) = bheight l + (if b then 1 else 0)"

definition rb_valid :: "rbt \<Rightarrow> bool" where
  "rb_valid t \<longleftrightarrow> black_top t \<and> rb_bal t (bheight t)"

lemma rb_bal_bheight: "rb_bal t n \<Longrightarrow> n = bheight t"
  by (induction t n rule: rb_bal.induct) (auto split: nat.splits)

lemma rb_validI: "black_top t \<Longrightarrow> rb_bal t n \<Longrightarrow> rb_valid t"
  using rb_bal_bheight by (auto simp: rb_valid_def)

fun frame_black :: "frame \<Rightarrow> bool" where
  "frame_black (FL b x s) = b"
| "frame_black (FR b x s) = b"

fun sibling :: "frame \<Rightarrow> rbt" where
  "sibling (FL b x s) = s"
| "sibling (FR b x s) = s"

text \<open>
  A context is in order for a hole of black height \<open>n\<close>: siblings are balanced, and a red ancestor has a
  black parent and a black sibling subtree. The colour of the hole's own root is not constrained.
\<close>

fun ctx_bal :: "frame list \<Rightarrow> nat \<Rightarrow> bool" where
  "ctx_bal [] n \<longleftrightarrow> True"
| "ctx_bal (f # c) n \<longleftrightarrow> rb_bal (sibling f) n
     \<and> (if frame_black f then ctx_bal c (Suc n)
        else black_top (sibling f) \<and> c \<noteq> [] \<and> frame_black (List.hd c) \<and> ctx_bal c n)"

definition ctx_black :: "frame list \<Rightarrow> bool" where
  "ctx_black c \<longleftrightarrow> c = [] \<or> frame_black (List.hd c)"

lemma black_top_plug: "ctx_bal c n \<Longrightarrow> c \<noteq> [] \<Longrightarrow> black_top (plug c t)"
proof (induction c arbitrary: t n)
  case (Cons f c)
  show ?case
  proof (cases "c = []")
    case True
    then show ?thesis using Cons.prems by (cases f) (auto split: if_splits)
  next
    case False
    then show ?thesis using Cons.IH [of _ "plug1 f t"] Cons.prems by (auto split: if_splits)
  qed
qed simp

lemma rb_bal_plug1:
  "rb_bal t n \<Longrightarrow> rb_bal (sibling f) n \<Longrightarrow> frame_black f \<or> black_top t \<and> black_top (sibling f)
    \<Longrightarrow> rb_bal (plug1 f t) (if frame_black f then Suc n else n)"
  by (cases f; cases "frame_black f") auto

lemma rb_bal_plug:
  "ctx_bal c n \<Longrightarrow> rb_bal t n \<Longrightarrow> ctx_black c \<or> black_top t \<Longrightarrow> \<exists>m. rb_bal (plug c t) m"
proof (induction c arbitrary: t n)
  case (Cons f c)
  have b: "rb_bal (plug1 f t) (if frame_black f then Suc n else n)"
    using Cons.prems by (intro rb_bal_plug1) (auto simp: ctx_black_def split: if_splits)
  have "black_top (plug1 f t) \<longleftrightarrow> frame_black f" by (cases f) auto
  then show ?case
    using Cons.IH [OF _ b] Cons.prems by (auto simp: ctx_black_def split: if_splits)
qed auto

lemma plug_not_Leaf: "t \<noteq> Leaf \<Longrightarrow> plug c t \<noteq> Leaf"
proof (induction c arbitrary: t)
  case (Cons f c)
  then show ?case by (cases f) auto
qed simp

fun paint :: "bool \<Rightarrow> rbt \<Rightarrow> rbt" where
  "paint d Leaf = Leaf"
| "paint d (Node l b x r) = Node l d x r"

lemma inorder_paint [simp]: "inorder (paint d t) = inorder t" "root_of (paint d t) = root_of t"
  by (cases t; simp)+

lemma black_top_paint [simp]: "black_top (paint True t)" by (cases t) auto

lemma paint_id: "black_top t \<Longrightarrow> paint True t = t" by (cases t) auto

lemma zip_paint:
  assumes "zip_at h c t" "t \<noteq> Leaf"
  shows "rb_set_color (root_of t) d h = Some (wr_black (root_of t) d h)"
    and "zip_at (wr_black (root_of t) d h) c (paint d t)"
  using zip_disjoint [OF assms(1), of "root_of t"] zip_distinct [OF assms(1)] assms
  by (cases t; auto simp: zip_at_def rb_set_color_def)+

lemma rb_bal_paint: "rb_bal t n \<Longrightarrow> \<exists>m. rb_bal (paint True t) m"
  by (induction t n rule: rb_bal.induct) (auto split: nat.splits intro: exI [of _ "Suc n" for n])

text \<open>Painting the root of the whole tree black, the last step of both repairs.\<close>

lemma paint_root:
  assumes "zip_at h c t" "t \<noteq> Leaf" "rb_bal t n" "ctx_bal c n" "ctx_black c \<or> black_top t"
  shows "\<exists>h' t'. rb_set_black (rb_root h) h = Some h' \<and> zip_at h' [] t' \<and> rb_valid t' \<and> inorder t' = before c @ inorder t @ after c"
proof -
  obtain m where m: "rb_bal (plug c t) m" using rb_bal_plug assms by blast
  have z: "zip_at h [] (plug c t)" using assms(1) zip_root by blast
  have r: "rb_root h = root_of (plug c t)" using zip_ctx [OF z] by simp
  have nl: "plug c t \<noteq> Leaf" using assms(2) by (rule plug_not_Leaf)
  obtain k where k: "rb_bal (paint True (plug c t)) k" using rb_bal_paint [OF m] by blast
  show ?thesis
    using zip_paint [OF z nl, of True] rb_validI [OF _ k] r
    by (auto simp: rb_set_black_def inorder_plug intro!: exI [of _ "paint True (plug c t)"])
qed

fun recolor :: "nat \<Rightarrow> bool \<Rightarrow> rbt \<Rightarrow> rbt" where
  "recolor x d Leaf = Leaf"
| "recolor x d (Node l b y r) = Node (recolor x d l) (if y = x then d else b) y (recolor x d r)"

lemma recolor_id [simp]: "x \<notin> set (inorder t) \<Longrightarrow> recolor x d t = t"
  by (induction t) auto

lemma inorder_recolor [simp]: "inorder (recolor x d t) = inorder t" "root_of (recolor x d t) = root_of t"
  by (induction t) auto

lemma tree_at_recolor: "tree_at h p par t \<Longrightarrow> tree_at (wr_black x d h) p par (recolor x d t)"
  by (induction t arbitrary: p par) auto

lemma zip_recolor: "zip_at h c t \<Longrightarrow> x \<in> set (inorder t) \<Longrightarrow> zip_at (wr_black x d h) c (recolor x d t)"
  using zip_disjoint [of h c t x] by (auto simp: zip_at_def tree_at_recolor)

lemma tree_at_color:
  "tree_at h p par t \<Longrightarrow> non_null_red p h = Some (\<not> black_top t)"
  "tree_at h p par t \<Longrightarrow> null_or_black p h = Some (black_top t)"
  by (cases t; simp add: rb_access)+

lemma tree_at_neq: "tree_at h q par t \<Longrightarrow> x \<notin> set (inorder t) \<Longrightarrow> x \<noteq> NULL \<Longrightarrow> q \<noteq> x"
  by (cases t) auto

lemma zip_parent: "zip_at h c t \<Longrightarrow> t \<noteq> Leaf \<Longrightarrow> rb_parent (root_of t) h = Some (cparent c)"
  by (cases t) (auto simp: zip_at_def rb_parent_def)

section \<open>Correctness of insertion\<close>

lemma insert_color_exit:
  assumes "zip_at h c t" "t \<noteq> Leaf" "rb_bal t n" "ctx_bal c n" "ctx_black c"
  shows "\<exists>h' t'. rb_insert_color (root_of t) h = Some h' \<and> zip_at h' [] t' \<and> rb_valid t' \<and> inorder t' = before c @ inorder t @ after c"
proof -
  have "non_null_red (cparent c) h = Some False"
    using zip_ctx [OF assms(1)] assms(5)
    by (cases c rule: before.cases) (auto simp: ctx_black_def rb_access)
  then have "rb_insert_color (root_of t) h = rb_set_black (rb_root h) h"
    using zip_parent [OF assms(1,2)] by (subst rb_insert_color.simps) simp
  then show ?thesis using paint_root assms by metis
qed

lemma recolor_family:
  assumes "zip_at h c (Node (Node a False p b) True g (Node d False u e))"
  shows "zip_at (wr_black g False (wr_black p True (wr_black u True h))) c (Node (Node a True p b) False g (Node d True u e))"
    and "zip_at (wr_black g False (wr_black u True (wr_black p True h))) c (Node (Node a True p b) False g (Node d True u e))"
proof -
  note dist = zip_distinct [OF assms]
  show "zip_at (wr_black g False (wr_black p True (wr_black u True h))) c (Node (Node a True p b) False g (Node d True u e))"
    using zip_recolor [OF zip_recolor [OF zip_recolor [OF assms, of u True], of p True], of g False] dist by simp
  show "zip_at (wr_black g False (wr_black u True (wr_black p True h))) c (Node (Node a True p b) False g (Node d True u e))"
    using zip_recolor [OF zip_recolor [OF zip_recolor [OF assms, of p True], of u True], of g False] dist by simp
qed

lemma rotate_family_right:
  assumes z: "zip_at h c (Node (Node a False p b) True g u)"
  obtains h' where "rb_rotate_right g (wr_black g False (wr_black p True h)) = Some h'"
    "zip_at h' c (Node a True p (Node b False g u))"
proof -
  have "zip_at (wr_black g False (wr_black p True h)) c (Node (Node a True p b) False g u)"
    using zip_recolor [OF zip_recolor [OF z, of p True], of g False] zip_distinct [OF z] by simp
  then show ?thesis using rotate_right_zip that by blast
qed

lemma rotate_family_left:
  assumes z: "zip_at h c (Node u True g (Node a False p b))"
  obtains h' where "rb_rotate_left g (wr_black g False (wr_black p True h)) = Some h'"
    "zip_at h' c (Node (Node u False g a) True p b)"
proof -
  have "zip_at (wr_black g False (wr_black p True h)) c (Node u False g (Node a True p b))"
    using zip_recolor [OF zip_recolor [OF z, of p True], of g False] zip_distinct [OF z] by simp
  then show ?thesis using rotate_left_zip that by blast
qed

text \<open>The outcome of a repair that started with the in-order sequence \<open>s\<close>.\<close>

definition repaired :: "rb_heap option \<Rightarrow> nat list \<Rightarrow> bool" where
  "repaired res s \<longleftrightarrow> (\<exists>h' t'. res = Some h' \<and> zip_at h' [] t' \<and> rb_valid t' \<and> inorder t' = s)"

lemma insert_exit_at:
  assumes "zip_at h c t" "t \<noteq> Leaf" "rb_bal t n" "ctx_bal c n" "ctx_black c" "x = root_of t" "s = before c @ inorder t @ after c"
  shows "repaired (rb_insert_color x h) s"
  using insert_color_exit [OF assms(1-5)] assms(6,7) by (auto simp: repaired_def)

lemma insert_color_left:
  assumes z: "zip_at h (FL False p s # FL True g u # c) (Node l False x r)" "rb_bal (Node l False x r) n"
    and c: "rb_bal s n" "black_top s" "rb_bal u n" "black_top u" "ctx_bal c (Suc n)"
  shows "repaired (rb_insert_color x h) (before c @ inorder (Node (Node (Node l False x r) False p s) True g u) @ after c)"
proof -
  have zg: "zip_at h c (Node (Node (Node l False x r) False p s) True g u)" using z(1) by (simp add: zip_up)
  obtain h' where h': "rb_rotate_right g (wr_black g False (wr_black p True h)) = Some h'"
      "zip_at h' c (Node (Node l False x r) True p (Node s False g u))"
    using rotate_family_right [OF zg] by blast
  have "rb_insert_color x h = rb_insert_color x h'"
    using zip_tree [OF zg] zip_distinct [OF zg] h'(1) c(4) tree_at_color(1) [of h "n_right h g" g u]
    by (subst rb_insert_color.simps; cases s) (simp_all add: rb_access)
  moreover have "zip_at h' (FL True p (Node s False g u) # c) (Node l False x r)" using h'(2) by (simp add: zip_up)
  ultimately show ?thesis
    using assms by (auto intro!: insert_exit_at [of h' "FL True p (Node s False g u) # c" _ n] simp: ctx_black_def)
qed

lemma insert_color_left_right:
  assumes z: "zip_at h (FR False p s # FL True g u # c) (Node l False x r)" "rb_bal (Node l False x r) n"
    and c: "rb_bal s n" "black_top s" "rb_bal u n" "black_top u" "ctx_bal c (Suc n)"
  shows "repaired (rb_insert_color x h) (before c @ inorder (Node (Node s False p (Node l False x r)) True g u) @ after c)"
proof -
  have zg: "zip_at h c (Node (Node s False p (Node l False x r)) True g u)" using z(1) by (simp add: zip_up)
  have "zip_at h (FL True g u # c) (Node s False p (Node l False x r))" using z(1) by (simp add: zip_up)
  then obtain h1 where h1: "rb_rotate_left p h = Some h1" "zip_at h1 (FL True g u # c) (Node (Node s False p l) False x r)"
    using rotate_left_zip by blast
  have zg1: "zip_at h1 c (Node (Node (Node s False p l) False x r) True g u)" using h1(2) by (simp add: zip_up)
  obtain h' where h': "rb_rotate_right g (wr_black g False (wr_black x True h1)) = Some h'"
      "zip_at h' c (Node (Node s False p l) True x (Node r False g u))"
    using rotate_family_right [OF zg1] by blast
  have "rb_insert_color x h = rb_insert_color p h'"
    using zip_tree [OF zg] zip_tree [OF zg1] zip_distinct [OF zg] h1(1) h'(1) c(4) tree_at_color(1) [of h "n_right h g" g u]
    by (subst rb_insert_color.simps) (simp add: rb_access)
  moreover have "zip_at h' (FL True x (Node r False g u) # c) (Node s False p l)" using h'(2) by (simp add: zip_up)
  ultimately show ?thesis
    using assms by (auto intro!: insert_exit_at [of h' "FL True x (Node r False g u) # c" _ n] simp: ctx_black_def)
qed

lemma insert_color_right:
  assumes z: "zip_at h (FR False p s # FR True g u # c) (Node l False x r)" "rb_bal (Node l False x r) n"
    and c: "rb_bal s n" "black_top s" "rb_bal u n" "black_top u" "ctx_bal c (Suc n)"
  shows "repaired (rb_insert_color x h) (before c @ inorder (Node u True g (Node s False p (Node l False x r))) @ after c)"
proof -
  have zg: "zip_at h c (Node u True g (Node s False p (Node l False x r)))" using z(1) by (simp add: zip_up)
  obtain h' where h': "rb_rotate_left g (wr_black g False (wr_black p True h)) = Some h'"
      "zip_at h' c (Node (Node u False g s) True p (Node l False x r))"
    using rotate_family_left [OF zg] by blast
  have "rb_insert_color x h = rb_insert_color x h'"
    using zip_tree [OF zg] zip_distinct [OF zg] h'(1) c(4) tree_at_color(1) [of h "n_left h g" g u]
      tree_at_neq [of h "n_left h g" g u p] tree_at_neq [of h "n_left h p" p s x]
    by (subst rb_insert_color.simps) (simp add: rb_access)
  moreover have "zip_at h' (FR True p (Node u False g s) # c) (Node l False x r)" using h'(2) by (simp add: zip_up)
  ultimately show ?thesis
    using assms by (auto intro!: insert_exit_at [of h' "FR True p (Node u False g s) # c" _ n] simp: ctx_black_def)
qed

lemma insert_color_right_left:
  assumes z: "zip_at h (FL False p s # FR True g u # c) (Node l False x r)" "rb_bal (Node l False x r) n"
    and c: "rb_bal s n" "black_top s" "rb_bal u n" "black_top u" "ctx_bal c (Suc n)"
  shows "repaired (rb_insert_color x h) (before c @ inorder (Node u True g (Node (Node l False x r) False p s)) @ after c)"
proof -
  have zg: "zip_at h c (Node u True g (Node (Node l False x r) False p s))" using z(1) by (simp add: zip_up)
  have "zip_at h (FR True g u # c) (Node (Node l False x r) False p s)" using z(1) by (simp add: zip_up)
  then obtain h1 where h1: "rb_rotate_right p h = Some h1" "zip_at h1 (FR True g u # c) (Node l False x (Node r False p s))"
    using rotate_right_zip by blast
  have zg1: "zip_at h1 c (Node u True g (Node l False x (Node r False p s)))" using h1(2) by (simp add: zip_up)
  obtain h' where h': "rb_rotate_left g (wr_black g False (wr_black x True h1)) = Some h'"
      "zip_at h' c (Node (Node u False g l) True x (Node r False p s))"
    using rotate_family_left [OF zg1] by blast
  have "rb_insert_color x h = rb_insert_color p h'"
    using zip_tree [OF zg] zip_tree [OF zg1] zip_distinct [OF zg] h1(1) h'(1) c(4) tree_at_color(1) [of h "n_left h g" g u]
      tree_at_neq [of h "n_left h g" g u p]
    by (subst rb_insert_color.simps) (simp add: rb_access)
  moreover have "zip_at h' (FR True x (Node u False g l) # c) (Node r False p s)" using h'(2) by (simp add: zip_up)
  ultimately show ?thesis
    using assms by (auto intro!: insert_exit_at [of h' "FR True x (Node u False g l) # c" _ n] simp: ctx_black_def)
qed

text \<open>A red uncle: the violation moves two levels up.\<close>

lemma insert_color_step_left:
  assumes z: "zip_at h (f # FL True g (Node d False u e) # c) (Node l False x r)" and f: "\<not> frame_black f"
  obtains h' t' where "rb_insert_color x h = rb_insert_color g h'" "zip_at h' c (Node (paint True t') False g (Node d True u e))"
    "t' = plug1 f (Node l False x r)"
proof -
  obtain a p b where ab: "plug1 f (Node l False x r) = Node a False p b" "node_of f = p" using f by (cases f) auto
  have zg: "zip_at h c (Node (Node a False p b) True g (Node d False u e))" using z ab by (simp add: zip_up)
  let ?h = "wr_black g False (wr_black p True (wr_black u True h))"
  have par: "rb_parent x h = Some p" using zip_parent [OF z] ab by simp
  have "rb_insert_color x h = rb_insert_color g ?h"
    using zip_tree [OF zg] zip_distinct [OF zg] par
    by (subst rb_insert_color.simps) (simp add: rb_access)
  then show ?thesis using that [of ?h] recolor_family(1) [OF zg] ab by simp
qed

lemma insert_color_step_right:
  assumes z: "zip_at h (f # FR True g (Node d False u e) # c) (Node l False x r)" and f: "\<not> frame_black f"
  obtains h' t' where "rb_insert_color x h = rb_insert_color g h'" "zip_at h' c (Node (Node d True u e) False g (paint True t'))"
    "t' = plug1 f (Node l False x r)"
proof -
  obtain a p b where ab: "plug1 f (Node l False x r) = Node a False p b" "node_of f = p" using f by (cases f) auto
  have zg: "zip_at h c (Node (Node d False u e) True g (Node a False p b))" using z ab by (simp add: zip_up)
  let ?h = "wr_black g False (wr_black p True (wr_black u True h))"
  have par: "rb_parent x h = Some p" using zip_parent [OF z] ab by simp
  have "rb_insert_color x h = rb_insert_color g ?h"
    using zip_tree [OF zg] zip_distinct [OF zg] par
    by (subst rb_insert_color.simps) (auto simp: rb_access)
  then show ?thesis using that [of ?h] recolor_family(2) [OF zg] ab by simp
qed

lemma rb_bal_paint_red: "\<not> black_top t \<Longrightarrow> rb_bal t n \<Longrightarrow> rb_bal (paint True t) (Suc n)"
  by (cases t) auto

lemma rb_bal_painted_frame:
  "rb_bal t n \<Longrightarrow> rb_bal (sibling f) n \<Longrightarrow> rb_bal (paint True (plug1 f t)) (Suc n)"
  by (cases f) auto

lemma insert_color_zip:
  "zip_at h c (Node l False x r) \<Longrightarrow> rb_bal (Node l False x r) n \<Longrightarrow> ctx_bal c n
    \<Longrightarrow> repaired (rb_insert_color x h) (before c @ inorder (Node l False x r) @ after c)"
proof (induction "List.length c" arbitrary: h c l x r n rule: less_induct)
  case less
  let ?t = "Node l False x r"
  show ?case
  proof (cases "ctx_black c")
    case True
    then show ?thesis using insert_exit_at [OF less.prems(1) _ less.prems(2,3) True] by simp
  next
    case False
    then obtain f g k where c: "c = f # g # k" and fg: "\<not> frame_black f" "frame_black g"
      using less.prems(3) by (cases c rule: remdups_adj.cases) (auto simp: ctx_black_def split: if_splits)
    have bal: "rb_bal (sibling f) n" "black_top (sibling f)" "rb_bal (sibling g) n" "ctx_bal k (Suc n)"
      using less.prems(3) c fg by auto
    have painted: "rb_bal (paint True (plug1 f ?t)) (Suc n)" by (rule rb_bal_painted_frame [OF less.prems(2) bal(1)])
    have io: "inorder (plug1 f ?t) = before [f] @ inorder ?t @ after [f]" by (cases f) auto
    show ?thesis
    proof (cases "black_top (sibling g)")
      case True
      then show ?thesis
        using less.prems(1,2) bal c fg insert_color_left [of h _ _ _ _ k l x r n] insert_color_left_right [of h _ _ _ _ k l x r n]
          insert_color_right [of h _ _ _ _ k l x r n] insert_color_right_left [of h _ _ _ _ k l x r n]
        by (cases f; cases g) simp_all
    next
      case False
      then obtain d u e where s: "sibling g = Node d False u e" by (cases "sibling g") auto
      have bal': "rb_bal (Node d True u e) (Suc n)" using bal(3) s by auto
      show ?thesis
      proof (cases g)
        case (FL b y s')
        then have g: "g = FL True y (Node d False u e)" using s fg by simp
        obtain h' where h': "rb_insert_color x h = rb_insert_color y h'" "zip_at h' k (Node (paint True (plug1 f ?t)) False y (Node d True u e))"
          using insert_color_step_left [OF less.prems(1) [unfolded c g] fg(1)] by blast
        show ?thesis using less.hyps [OF _ h'(2), of "Suc n"] bal bal' painted io c g h'(1) by (cases f) auto
      next
        case (FR b y s')
        then have g: "g = FR True y (Node d False u e)" using s fg by simp
        obtain h' where h': "rb_insert_color x h = rb_insert_color y h'" "zip_at h' k (Node (Node d True u e) False y (paint True (plug1 f ?t)))"
          using insert_color_step_right [OF less.prems(1) [unfolded c g] fg(1)] by blast
        show ?thesis using less.hyps [OF _ h'(2), of "Suc n"] bal bal' painted io c g h'(1) by (cases f) auto
      qed
    qed
  qed
qed

end
