(* ===== verification/RBErase.thy ===== *)
theory RBErase
  imports RBInsert
begin

text \<open>
  Removal from the red-black tree (\<open>kernel/pc/rbtree.c\<close>): \<open>__rb_erase_color\<close> ends and restores the
  invariant from a hole that is one black node short, and \<open>rb_erase\<close> takes exactly its node out of
  the in-order sequence; the traversal functions \<open>rb_first\<close>, \<open>rb_last\<close>, \<open>rb_next\<close> and \<open>rb_prev\<close> follow
  that sequence, and \<open>rb_replace_node\<close> substitutes in it.
\<close>

section \<open>One round of the colour repair\<close>

lemma zip_root_eq:
  assumes "zip_at h c t"
  shows "rb_root h = root_of t \<longleftrightarrow> c = []"
proof (cases "c = []")
  case True
  then show ?thesis using zip_ctx [OF assms] by simp
next
  case False
  have "ctx_at h p k \<Longrightarrow> k \<noteq> [] \<Longrightarrow> rb_root h \<in> set (before k) \<union> set (after k) \<and> rb_root h \<noteq> NULL" for p k
    by (induction h p k rule: ctx_at.induct) (case_tac [2-] c, auto)
  then have "rb_root h \<in> set (before c) \<union> set (after c)" "rb_root h \<noteq> NULL" using zip_ctx [OF assms] False by auto
  then show ?thesis using zip_disjoint [OF assms, of "root_of t"] False by (cases t) auto
qed

text \<open>
  What a round from hole \<open>t\<close> under a parent \<open>p\<close> with colour \<open>b\<close> gives: either the deficit moves to the
  parent (which the next round paints black if it is red), or the repair is complete.
\<close>

definition round_done :: "(rb_heap \<times> (nat \<times> nat) option) option \<Rightarrow> frame list \<Rightarrow> bool \<Rightarrow> nat \<Rightarrow> nat list \<Rightarrow> bool" where
  "round_done res c b n s \<longleftrightarrow> (\<exists>h' T. zip_at h' c T \<and> T \<noteq> Leaf \<and> inorder T = s \<and>
     (res = Some (h', None) \<and> rb_bal T (if b then Suc (Suc n) else Suc n) \<and> (ctx_black c \<or> black_top T)
      \<or> res = Some (h', Some (root_of T, cparent c))
        \<and> (if b then black_top T \<and> rb_bal T (Suc n) else \<not> black_top T \<and> rb_bal (paint True T) (Suc n))))"

lemma round_upI:
  assumes "zip_at h' c T" "T \<noteq> Leaf" "inorder T = s" "res = Some (h', Some (root_of T, cparent c))"
    "if b then black_top T \<and> rb_bal T (Suc n) else \<not> black_top T \<and> rb_bal (paint True T) (Suc n)"
  shows "round_done res c b n s"
  using assms unfolding round_done_def by blast

lemma round_breakI:
  assumes "zip_at h' c T" "T \<noteq> Leaf" "inorder T = s" "res = Some (h', None)"
    "rb_bal T (if b then Suc (Suc n) else Suc n)" "ctx_black c \<or> black_top T"
  shows "round_done res c b n s"
  using assms unfolding round_done_def by blast

lemma rotate_break_left:
  assumes z: "zip_at h c (Node t b p (Node sl d o' (Node a e q r)))"
  obtains h' where "rb_rotate_left p (wr_black q True (wr_black p True (wr_black o' b h))) = Some h'"
    "zip_at h' c (Node (Node t True p sl) b o' (Node a True q r))"
proof -
  have "zip_at (wr_black q True (wr_black p True (wr_black o' b h))) c (Node t True p (Node sl b o' (Node a True q r)))"
    using zip_recolor [OF zip_recolor [OF zip_recolor [OF z, of o' b], of p True], of q True] zip_distinct [OF z] by simp
  then show ?thesis using rotate_left_zip that by blast
qed

lemma rebalance_left:
  assumes z: "zip_at h c (Node t b p (Node sl True o' sr))"
    and t: "black_top t" "rb_bal t n" and s: "rb_bal sl n" "rb_bal sr n"
    and c: "b \<or> ctx_black c"
  shows "round_done (rb_erase_rebalance_left o' p h) c b n (inorder t @ p # inorder sl @ o' # inorder sr)"
proof -
  note tree = zip_tree [OF z] and dist = zip_distinct [OF z]
  have cl: "null_or_black (n_left h o') h = Some (black_top sl)" "null_or_black (n_right h o') h = Some (black_top sr)"
    using tree tree_at_color(2) by auto
  consider (up) "black_top sl" "black_top sr" | (right) a q r where "sr = Node a False q r"
    | (left) a q r where "black_top sr" "sl = Node a False q r"
    by (cases sl; cases sr) auto
  then show ?thesis
  proof cases
    case up
    have z': "zip_at (wr_black o' False h) c (Node t b p (Node sl False o' sr))"
      using zip_recolor [OF z, of o' False] dist by simp
    show ?thesis
      by (rule round_upI [OF z']) (use tree dist cl up t s in \<open>auto simp: rb_erase_rebalance_left_def rb_access\<close>)
  next
    case right
    obtain h' where h': "rb_rotate_left p (wr_black q True (wr_black p True (wr_black o' b h))) = Some h'"
      "zip_at h' c (Node (Node t True p sl) b o' (Node a True q r))"
      using rotate_break_left z right by blast
    show ?thesis
      by (rule round_breakI [OF h'(2)])
        (use tree dist cl right t s c h'(1) in \<open>auto simp: rb_erase_rebalance_left_def rb_access\<close>)
  next
    case left
    have "zip_at (wr_black o' False (wr_black q True h)) c (Node t b p (Node (Node a True q r) False o' sr))"
      using zip_recolor [OF zip_recolor [OF z, of q True], of o' False] dist left by simp
    then have "zip_at (wr_black o' False (wr_black q True h)) (FR b p t # c) (Node (Node a True q r) False o' sr)"
      by (simp add: zip_up)
    then obtain h1 where h1: "rb_rotate_right o' (wr_black o' False (wr_black q True h)) = Some h1"
      "zip_at h1 (FR b p t # c) (Node a True q (Node r False o' sr))"
      using rotate_right_zip by blast
    have z1: "zip_at h1 c (Node t b p (Node a True q (Node r False o' sr)))" using h1(2) by (simp add: zip_up)
    obtain h' where h': "rb_rotate_left p (wr_black o' True (wr_black p True (wr_black q b h1))) = Some h'"
      "zip_at h' c (Node (Node t True p a) b q (Node r True o' sr))"
      using rotate_break_left z1 by blast
    show ?thesis
      by (rule round_breakI [OF h'(2)])
        (use tree zip_tree [OF z1] dist cl left t s c h1(1) h'(1) in \<open>auto simp: rb_erase_rebalance_left_def rb_access\<close>)
  qed
qed

lemma rotate_break_right:
  assumes z: "zip_at h c (Node (Node (Node a e q r) d o' sr) b p t)"
  obtains h' where "rb_rotate_right p (wr_black q True (wr_black p True (wr_black o' b h))) = Some h'"
    "zip_at h' c (Node (Node a True q r) b o' (Node sr True p t))"
proof -
  have "zip_at (wr_black q True (wr_black p True (wr_black o' b h))) c (Node (Node (Node a True q r) b o' sr) True p t)"
    using zip_recolor [OF zip_recolor [OF zip_recolor [OF z, of o' b], of p True], of q True] zip_distinct [OF z] by simp
  then show ?thesis using rotate_right_zip that by blast
qed

lemma rebalance_right:
  assumes z: "zip_at h c (Node (Node sl True o' sr) b p t)"
    and t: "black_top t" "rb_bal t n" and s: "rb_bal sl n" "rb_bal sr n"
    and c: "b \<or> ctx_black c"
  shows "round_done (rb_erase_rebalance_right o' p h) c b n (inorder sl @ o' # inorder sr @ p # inorder t)"
proof -
  note tree = zip_tree [OF z] and dist = zip_distinct [OF z]
  have cl: "null_or_black (n_left h o') h = Some (black_top sl)" "null_or_black (n_right h o') h = Some (black_top sr)"
    using tree tree_at_color(2) by auto
  consider (up) "black_top sl" "black_top sr" | (left) a q r where "sl = Node a False q r"
    | (right) a q r where "black_top sl" "sr = Node a False q r"
    by (cases sl; cases sr) auto
  then show ?thesis
  proof cases
    case up
    have z': "zip_at (wr_black o' False h) c (Node (Node sl False o' sr) b p t)"
      using zip_recolor [OF z, of o' False] dist by simp
    show ?thesis
      by (rule round_upI [OF z']) (use tree dist cl up t s in \<open>auto simp: rb_erase_rebalance_right_def rb_access\<close>)
  next
    case left
    obtain h' where h': "rb_rotate_right p (wr_black q True (wr_black p True (wr_black o' b h))) = Some h'"
      "zip_at h' c (Node (Node a True q r) b o' (Node sr True p t))"
      using rotate_break_right z left by blast
    show ?thesis
      by (rule round_breakI [OF h'(2)])
        (use tree dist cl left t s c h'(1) in \<open>auto simp: rb_erase_rebalance_right_def rb_access\<close>)
  next
    case right
    have "zip_at (wr_black o' False (wr_black q True h)) c (Node (Node sl False o' (Node a True q r)) b p t)"
      using zip_recolor [OF zip_recolor [OF z, of q True], of o' False] dist right by simp
    then have "zip_at (wr_black o' False (wr_black q True h)) (FL b p t # c) (Node sl False o' (Node a True q r))"
      by (simp add: zip_up)
    then obtain h1 where h1: "rb_rotate_left o' (wr_black o' False (wr_black q True h)) = Some h1"
      "zip_at h1 (FL b p t # c) (Node (Node sl False o' a) True q r)"
      using rotate_left_zip by blast
    have z1: "zip_at h1 c (Node (Node (Node sl False o' a) True q r) b p t)" using h1(2) by (simp add: zip_up)
    obtain h' where h': "rb_rotate_right p (wr_black o' True (wr_black p True (wr_black q b h1))) = Some h'"
      "zip_at h' c (Node (Node sl True o' a) b q (Node r True p t))"
      using rotate_break_right z1 by blast
    show ?thesis
      by (rule round_breakI [OF h'(2)])
        (use tree zip_tree [OF z1] dist cl right t s c h1(1) h'(1) in \<open>auto simp: rb_erase_rebalance_right_def rb_access\<close>)
  qed
qed

text \<open>
  A whole round. With a red sibling the rotation first moves the hole one level down, under a red
  parent, so that the round ends the repair.
\<close>

definition fixed :: "(rb_heap \<times> (nat \<times> nat) option) option \<Rightarrow> frame list \<Rightarrow> bool \<Rightarrow> nat \<Rightarrow> nat list \<Rightarrow> bool" where
  "fixed res c b n s \<longleftrightarrow> (\<exists>c' b' s'. round_done res c' b' n s' \<and> ctx_bal c' (if b' then Suc (Suc n) else Suc n)
     \<and> before c' @ s' @ after c' = s \<and> (c' = c \<or> \<not> b'))"

lemma fixed_here: "round_done res c b n s' \<Longrightarrow> ctx_bal c (if b then Suc (Suc n) else Suc n)
    \<Longrightarrow> before c @ s' @ after c = s \<Longrightarrow> fixed res c b n s"
  unfolding fixed_def by blast

lemma fixed_below: "round_done res c' False n s' \<Longrightarrow> ctx_bal c' (Suc n)
    \<Longrightarrow> before c' @ s' @ after c' = s \<Longrightarrow> fixed res c b n s"
  unfolding fixed_def by (intro exI [of _ c'] exI [of _ False] exI [of _ s']) simp

lemma fix_left:
  assumes z: "zip_at h (FL b p s # c) t" and t: "black_top t" "rb_bal t n" and c: "ctx_bal (FL b p s # c) (Suc n)"
  shows "fixed (rb_erase_fix_left p h) c b n (before c @ (inorder t @ p # inorder s) @ after c)"
proof -
  obtain sl d o' sr where s: "s = Node sl d o' sr" using c by (cases s) auto
  have zp: "zip_at h c (Node t b p (Node sl d o' sr))" using z s by (simp add: zip_up)
  note tree = zip_tree [OF zp] and dist = zip_distinct [OF zp]
  show ?thesis
  proof (cases d)
    case True
    have "rb_erase_fix_left p h = rb_erase_rebalance_left o' p h"
      using tree True by (auto simp: rb_erase_fix_left_def rb_access)
    moreover have "round_done (rb_erase_rebalance_left o' p h) c b n (inorder t @ p # inorder sl @ o' # inorder sr)"
      using rebalance_left zp t c s True by (auto simp: ctx_black_def split: if_splits)
    ultimately show ?thesis using c s True by (intro fixed_here) auto
  next
    case False
    then have b: b using c s by (cases b) auto
    obtain a q e where sl: "sl = Node a True q e" using c s False by (cases sl) auto
    have "zip_at (wr_black p False (wr_black o' True h)) c (Node t False p (Node sl True o' sr))"
      using zip_recolor [OF zip_recolor [OF zp, of o' True], of p False] dist by simp
    then obtain h1 where h1: "rb_rotate_left p (wr_black p False (wr_black o' True h)) = Some h1"
      "zip_at h1 c (Node (Node t False p sl) True o' sr)"
      using rotate_left_zip by blast
    have z1: "zip_at h1 (FL True o' sr # c) (Node t False p (Node a True q e))" using h1(2) sl by (simp add: zip_up)
    have "rb_erase_fix_left p h = rb_erase_rebalance_left q p h1"
      using tree zip_tree [OF z1] False h1(1) by (auto simp: rb_erase_fix_left_def rb_access)
    moreover have "round_done (rb_erase_rebalance_left q p h1) (FL True o' sr # c) False n (inorder t @ p # inorder a @ q # inorder e)"
      using rebalance_left [OF z1 t] c s sl False b by (auto simp: ctx_black_def)
    ultimately show ?thesis using c s sl False b by (intro fixed_below) auto
  qed
qed

lemma fix_right:
  assumes z: "zip_at h (FR b p s # c) t" and t: "black_top t" "rb_bal t n" and c: "ctx_bal (FR b p s # c) (Suc n)"
  shows "fixed (rb_erase_fix_right p h) c b n (before c @ (inorder s @ p # inorder t) @ after c)"
proof -
  obtain sl d o' sr where s: "s = Node sl d o' sr" using c by (cases s) auto
  have zp: "zip_at h c (Node (Node sl d o' sr) b p t)" using z s by (simp add: zip_up)
  note tree = zip_tree [OF zp] and dist = zip_distinct [OF zp]
  show ?thesis
  proof (cases d)
    case True
    have "rb_erase_fix_right p h = rb_erase_rebalance_right o' p h"
      using tree True by (auto simp: rb_erase_fix_right_def rb_access)
    moreover have "round_done (rb_erase_rebalance_right o' p h) c b n (inorder sl @ o' # inorder sr @ p # inorder t)"
      using rebalance_right zp t c s True by (auto simp: ctx_black_def split: if_splits)
    ultimately show ?thesis using c s True by (intro fixed_here) auto
  next
    case False
    then have b: b using c s by (cases b) auto
    obtain a q e where sr: "sr = Node a True q e" using c s False by (cases sr) auto
    have "zip_at (wr_black p False (wr_black o' True h)) c (Node (Node sl True o' sr) False p t)"
      using zip_recolor [OF zip_recolor [OF zp, of o' True], of p False] dist by simp
    then obtain h1 where h1: "rb_rotate_right p (wr_black p False (wr_black o' True h)) = Some h1"
      "zip_at h1 c (Node sl True o' (Node sr False p t))"
      using rotate_right_zip by blast
    have z1: "zip_at h1 (FR True o' sl # c) (Node (Node a True q e) False p t)" using h1(2) sr by (simp add: zip_up)
    have "rb_erase_fix_right p h = rb_erase_rebalance_right q p h1"
      using tree zip_tree [OF z1] False h1(1) by (auto simp: rb_erase_fix_right_def rb_access)
    moreover have "round_done (rb_erase_rebalance_right q p h1) (FR True o' sl # c) False n (inorder a @ q # inorder e @ p # inorder t)"
      using rebalance_right [OF z1 t] c s sr False b by (auto simp: ctx_black_def)
    ultimately show ?thesis using c s sr False b by (intro fixed_below) auto
  qed
qed

section \<open>The colour repair\<close>

lemma erase_color_red:
  assumes z: "zip_at h c t" and t: "\<not> black_top t" "rb_bal (paint True t) n" and c: "ctx_bal c n"
  shows "repaired (rb_erase_color (root_of t) par h) (before c @ inorder t @ after c)"
proof -
  have nl: "t \<noteq> Leaf" using t(1) by auto
  have "rb_erase_color (root_of t) par h = rb_set_black (root_of t) h"
    using tree_at_color(2) [OF zip_tree [OF z]] t(1) nl zip_disjoint [OF z, of "root_of t"]
    by (subst rb_erase_color.simps; cases t) auto
  then have e: "rb_erase_color (root_of t) par h = Some (wr_black (root_of t) True h)"
    using zip_paint(1) [OF z nl] by (simp add: rb_set_black_def)
  have zp: "zip_at (wr_black (root_of t) True h) c (paint True t)" using zip_paint(2) [OF z nl] .
  obtain m where "rb_bal (plug c (paint True t)) m" using rb_bal_plug [OF c t(2)] by auto
  moreover have "black_top (plug c (paint True t))" using black_top_plug [OF c, of "paint True t"] by (cases c) auto
  ultimately have "rb_valid (plug c (paint True t))" by (rule rb_validI [rotated])
  then show ?thesis
    using zp e unfolding repaired_def zip_root [of _ c] by (auto simp: inorder_plug)
qed

lemma erase_color_root:
  assumes z: "zip_at h [] t" and t: "black_top t" "rb_bal t n"
  shows "repaired (rb_erase_color (root_of t) par h) (inorder t)"
proof (cases t)
  case Leaf
  have "rb_erase_color NULL par h = Some h"
    using z Leaf by (subst rb_erase_color.simps) (simp add: zip_at_def null_or_black_def)
  then show ?thesis using z Leaf rb_validI [OF t] by (auto simp: repaired_def)
next
  case (Node l b x r)
  have nl: "t \<noteq> Leaf" using Node by simp
  have "rb_erase_color (root_of t) par h = Some (wr_black (root_of t) True h)"
    using tree_at_color(2) [OF zip_tree [OF z]] zip_root_eq [OF z] zip_paint(1) [OF z nl] zip_disjoint [OF z, of "root_of t"] Node
    by (subst rb_erase_color.simps) (simp add: rb_set_black_def)
  moreover have "paint True t = t" using t(1) by (rule paint_id)
  ultimately show ?thesis
    using zip_paint(2) [OF z nl, of True] rb_validI [OF t] by (auto simp: repaired_def)
qed

lemma erase_color_zip:
  "zip_at h c t \<Longrightarrow> ctx_bal c (Suc n) \<Longrightarrow> (if black_top t then rb_bal t n else rb_bal (paint True t) (Suc n))
    \<Longrightarrow> repaired (rb_erase_color (root_of t) (cparent c) h) (before c @ inorder t @ after c)"
proof (induction c arbitrary: h t n)
  case Nil
  then show ?case using erase_color_root erase_color_red [of h "[]" t "Suc n"] by (auto split: if_splits)
next
  case (Cons f c)
  show ?case
  proof (cases "black_top t")
    case False
    then show ?thesis using erase_color_red Cons.prems by (auto split: if_splits)
  next
    case True
    then have t: "rb_bal t n" using Cons.prems by simp
    define b where "b = frame_black f"
    define s where "s = before (f # c) @ inorder t @ after (f # c)"
    define res where "res = (if rb_left (node_of f) h = Some (root_of t) then rb_erase_fix_left (node_of f) h else rb_erase_fix_right (node_of f) h)"
    have tree: "zip_at h c (plug1 f t)" using Cons.prems(1) by (simp add: zip_up)
    have fx: "fixed res c b n s"
    proof (cases f)
      case (FL b' p u)
      then show ?thesis
        using fix_left [OF Cons.prems(1) [unfolded FL] True t] Cons.prems(2) zip_tree [OF tree] tree_at_root
        by (auto simp: res_def b_def s_def rb_left_def)
    next
      case (FR b' p u)
      have "u \<noteq> Leaf" using FR Cons.prems(2) by auto
      then have "root_of u \<noteq> root_of t"
        using zip_tree [OF tree] zip_distinct [OF tree] FR zip_disjoint [OF tree, of "root_of u"] by (cases u; cases t) auto
      then show ?thesis
        using fix_right [OF Cons.prems(1) [unfolded FR] True t] Cons.prems(2) zip_tree [OF tree] tree_at_root FR
        by (auto simp: res_def b_def s_def rb_left_def)
    qed
    have run: "rb_erase_color (root_of t) (cparent (f # c)) h = do {
        (h, step) \<leftarrow> res;
        case step of Some (node, parent) \<Rightarrow> rb_erase_color node parent h
        | None \<Rightarrow> (if rb_root h \<noteq> NULL then rb_set_black (rb_root h) h else Some h) }"
      using tree_at_color(2) [OF zip_tree [OF Cons.prems(1)]] zip_root_eq [OF Cons.prems(1)] True zip_tree [OF tree]
      by (subst rb_erase_color.simps; cases f) (auto simp: res_def rb_left_def)
    obtain c' b' s' where r: "round_done res c' b' n s'" "ctx_bal c' (if b' then Suc (Suc n) else Suc n)"
      "before c' @ s' @ after c' = s" "c' = c \<or> \<not> b'"
      using fx unfolding fixed_def by blast
    obtain h' T where T: "zip_at h' c' T" "T \<noteq> Leaf" "inorder T = s'" and
      out: "res = Some (h', None) \<and> rb_bal T (if b' then Suc (Suc n) else Suc n) \<and> (ctx_black c' \<or> black_top T)
      \<or> res = Some (h', Some (root_of T, cparent c'))
        \<and> (if b' then black_top T \<and> rb_bal T (Suc n) else \<not> black_top T \<and> rb_bal (paint True T) (Suc n))"
      using r(1) unfolding round_done_def by blast
    have "repaired (rb_erase_color (root_of t) (cparent (f # c)) h) s"
      using out
    proof (rule disjE)
      assume "res = Some (h', None) \<and> rb_bal T (if b' then Suc (Suc n) else Suc n) \<and> (ctx_black c' \<or> black_top T)"
      then have o: "res = Some (h', None)" "rb_bal T (if b' then Suc (Suc n) else Suc n)" "ctx_black c' \<or> black_top T" by auto
      have "rb_root h' \<noteq> NULL" using zip_disjoint [of h' "[]" "plug c' T" "rb_root h'"] zip_ctx [of h' "[]" "plug c' T"] T(1,2)
          plug_not_Leaf [OF T(2), of c'] unfolding zip_root [of h' c'] by (cases "plug c' T") auto
      then show ?thesis using run o(1) paint_root [OF T(1,2) o(2) r(2) o(3)] T(3) r(3) by (auto simp: repaired_def)
    next
      assume o: "res = Some (h', Some (root_of T, cparent c'))
        \<and> (if b' then black_top T \<and> rb_bal T (Suc n) else \<not> black_top T \<and> rb_bal (paint True T) (Suc n))"
      show ?thesis
      proof (cases b')
        case True
        then show ?thesis using Cons.IH [OF _ _, of h' T "Suc n"] T r o run by auto
      next
        case False
        then show ?thesis using erase_color_red [OF T(1), of "Suc n" "cparent c'"] T r o run by auto
      qed
    qed
    then show ?thesis by (simp add: s_def)
  qed
qed

section \<open>Unlinking a node\<close>

lemma tree_reparent:
  "tree_at h p par t \<Longrightarrow> distinct (inorder t) \<Longrightarrow> t \<noteq> Leaf \<Longrightarrow> tree_at (wr_parent p q h) p q t"
  by (cases t) auto

lemma tree_reparent_if:
  "tree_at h p par t \<Longrightarrow> distinct (inorder t) \<Longrightarrow> tree_at (if p \<noteq> NULL then wr_parent p q h else h) p q t"
  by (cases t) auto

lemma ctx_at_reparent_if:
  "p \<notin> set (before c) \<Longrightarrow> p \<notin> set (after c) \<Longrightarrow> ctx_at (if b then wr_parent p q h else h) u c = ctx_at h u c"
  by simp

lemma zip_plug: "zip_at h (k @ c) t \<longleftrightarrow> zip_at h c (plug k t)"
  by (induction k arbitrary: t) (simp_all add: zip_up)

text \<open>Bypassing a node with one child.\<close>

lemma bypass_zip:
  assumes z: "zip_at h c T" and T: "T = Node Leaf b x t \<or> T = Node t b x Leaf"
  defines "h' \<equiv> wr_link c (root_of t) (if root_of t \<noteq> NULL then wr_parent (root_of t) (cparent c) h else h)"
  shows "zip_at h' c t" and "rb_erase_unlink x (root_of t) h = Some (root_of t, cparent c, b, h')"
proof -
  define h1 where "h1 = (if root_of t \<noteq> NULL then wr_parent (root_of t) (cparent c) h else h)"
  have h': "h' = wr_link c (root_of t) h1" by (simp add: h'_def h1_def)
  have tree: "tree_at h (root_of t) x t" "n_parent h x = cparent c" "n_black h x = b" "x \<noteq> NULL"
    using zip_tree [OF z] T tree_at_root by auto
  have dist: "distinct (inorder t)" "x \<notin> set (inorder t)" using zip_distinct [OF z] T by auto
  have out: "u \<in> set (inorder t) \<Longrightarrow> u \<notin> set (before c) \<and> u \<notin> set (after c)" for u using zip_disjoint [OF z, of u] T by auto
  have cp: "cparent c \<notin> set (inorder t)" using zip_cparent [OF z] T by auto
  have ctx: "ctx_at h1 x c"
    using zip_ctx [OF z] T out [of "root_of t"] by (cases t) (auto simp: h1_def)
  have x: "x \<notin> set (before c)" "x \<notin> set (after c)" using zip_disjoint [OF z, of x] T by auto
  have "ctx_at h' (root_of t) c" using ctx_at_wr_link [OF ctx zip_distinct_ctx [OF z]] by (simp add: h')
  moreover have "tree_at h' (root_of t) (cparent c) t"
    using tree_reparent_if [OF tree(1) dist(1), of "cparent c"] cp by (simp add: h' h1_def)
  moreover have "distinct (before c @ inorder t @ after c)" using z T by (auto simp: zip_at_def)
  ultimately show "zip_at h' c t" by (simp add: zip_at_def)
  have link: "rb_relink_left (cparent c) x (root_of t) h1 = Some h'"
    using relink_ctx(1) [OF ctx tree(4) x] by (simp add: h')
  then show "rb_erase_unlink x (root_of t) h = Some (root_of t, cparent c, b, h')"
    using tree by (cases t) (simp_all add: rb_erase_unlink_def rb_access h1_def)
qed

text \<open>Seating a node \<open>y\<close> from outside the tree in the place, and with the colour, of \<open>x\<close>.\<close>

lemma seat_zip:
  assumes z: "zip_at h c (Node l b x r)" and l: "l \<noteq> Leaf" and r: "r \<noteq> Leaf"
    and y: "y \<noteq> NULL" "y \<notin> set (inorder (Node l b x r))" "y \<notin> set (before c)" "y \<notin> set (after c)"
  shows "zip_at (wr_parent (root_of l) y (wr_left y (root_of l) (wr_black y b (wr_parent y (cparent c)
    (wr_parent (root_of r) y (wr_right y (root_of r) (wr_link c y h))))))) c (Node l b y r)" (is "zip_at ?h _ _")
proof -
  note tree = zip_tree [OF z] and dist = zip_distinct [OF z] and cp = zip_cparent [OF z]
  have cy: "cparent c \<noteq> y" using y by simp
  have rl: "root_of l \<in> set (inorder l)" "root_of r \<in> set (inorder r)" using l r by (cases l; cases r; simp)+
  have roots: "root_of l \<notin> set (inorder r)" "root_of r \<notin> set (inorder l)" "root_of l \<noteq> y" "root_of r \<noteq> y"
    using rl dist y(2) by auto
  have out: "u \<in> {root_of l, root_of r} \<Longrightarrow> u \<notin> set (before c) \<and> u \<notin> set (after c)" for u
    using zip_disjoint [OF z, of u] rl by auto
  have "ctx_at (wr_link c y h) y c" using ctx_at_wr_link [OF zip_ctx [OF z] zip_distinct_ctx [OF z]] .
  then have "ctx_at ?h y c" using y out [of "root_of l"] out [of "root_of r"] by simp
  moreover have "tree_at ?h (root_of l) y l"
    using tree tree_at_root [of h "n_left h x" x l] l dist y roots cp by (intro tree_reparent) auto
  moreover have "tree_at (wr_parent (root_of r) y (wr_right y (root_of r) (wr_link c y h))) (root_of r) y r"
    using tree tree_at_root [of h "n_right h x" x r] r dist y roots cp by (intro tree_reparent) auto
  then have "tree_at ?h (root_of r) y r" using roots y by simp
  moreover have "distinct (before c @ inorder (Node l b y r) @ after c)" using z y by (auto simp: zip_at_def)
  ultimately show ?thesis using y roots by (simp add: zip_at_def)
qed

section \<open>The leftmost and rightmost nodes\<close>

fun is_left_frame :: "frame \<Rightarrow> bool" where
  "is_left_frame (FL b x s) \<longleftrightarrow> True"
| "is_left_frame (FR b x s) \<longleftrightarrow> False"

lemma left_before: "list_all is_left_frame k \<Longrightarrow> before k = []"
  by (induction k) (auto elim: is_left_frame.elims)

lemma leftmost_tree:
  "tree_at h p par t \<Longrightarrow> t \<noteq> Leaf \<Longrightarrow> rb_leftmost p h = Some (List.hd (inorder t))"
proof (induction t arbitrary: p par)
  case (Node l b x r)
  then show ?case by (subst rb_leftmost.simps; cases l) (auto simp: rb_left_def hd_append)
qed simp

lemma rightmost_tree:
  "tree_at h p par t \<Longrightarrow> t \<noteq> Leaf \<Longrightarrow> rb_rightmost p h = Some (List.last (inorder t))"
proof (induction t arbitrary: p par)
  case (Node l b x r)
  then show ?case by (subst rb_rightmost.simps; cases r) (auto simp: rb_right_def last_append)
qed simp

lemma left_spine:
  "t \<noteq> Leaf \<Longrightarrow> \<exists>k b y r. t = plug k (Node Leaf b y r) \<and> list_all is_left_frame k \<and> y = List.hd (inorder t)"
proof (induction t)
  case (Node l b x r)
  show ?case
  proof (cases "l = Leaf")
    case True
    then show ?thesis by (intro exI [of _ "[]"]) auto
  next
    case False
    then obtain k b' y r' where "l = plug k (Node Leaf b' y r')" "list_all is_left_frame k" "y = List.hd (inorder l)"
      using Node.IH(1) by blast
    moreover have "plug (k @ c) t = plug c (plug k t)" for c t by (induction k arbitrary: t) auto
    moreover have "inorder l \<noteq> []" using False by (cases l) auto
    ultimately show ?thesis
      by (intro exI [of _ "k @ [FL b x r]"] exI [of _ b'] exI [of _ y] exI [of _ r']) (simp add: hd_append)
  qed
qed simp

section \<open>The successor takes the place of a node with two children\<close>

lemma wr_link_swap:
  "p \<noteq> cparent c \<Longrightarrow> wr_link c q (wr_left p v h) = wr_left p v (wr_link c q h)"
  "wr_link c q (wr_parent u w h) = wr_parent u w (wr_link c q h)"
  by (cases c rule: before.cases;
      simp add: wr_left_def wr_right_def wr_root_def wr_parent_def fun_upd_twist)+

text \<open>The right child is itself the successor.\<close>

lemma splice_child:
  assumes z: "zip_at h c (Node l b x (Node Leaf b' y r))" and l: "l \<noteq> Leaf"
  shows "\<exists>h'. rb_erase_splice x h = Some (root_of r, y, b', h') \<and> zip_at h' (FR b y l # c) r"
proof -
  note tree = zip_tree [OF z] and dist = zip_distinct [OF z] and cp = zip_cparent [OF z] and out = zip_disjoint [OF z]
  have rl: "root_of l \<in> set (inorder l)" using l by (cases l) auto
  have facts: "root_of l \<noteq> NULL" "root_of l \<notin> set (inorder r)" "root_of l \<noteq> y" "root_of l \<noteq> x"
    using rl dist out [of "root_of l"] by auto
  have nl: "n_left h x = root_of l" using tree tree_at_root by auto
  have cy: "cparent c \<noteq> y" "cparent c \<noteq> x" using cp by auto
  let ?h1 = "wr_link c y h"
  let ?h' = "wr_parent (root_of l) y (wr_left y (root_of l) (wr_black y b (wr_parent y (cparent c) ?h1)))"
  have link: "rb_relink_left (cparent c) x y h = Some ?h1"
    using zip_ctx [OF z] out [of x] by (intro relink_ctx(1)) auto
  have lm: "rb_leftmost (n_right h x) h = Some y"
    using leftmost_tree [of h "n_right h x" x "Node Leaf b' y r"] tree by simp
  have nr: "n_right h y = root_of r" using tree tree_at_root by auto
  have "rb_erase_splice x h = Some (root_of r, y, b', ?h')"
    using tree link lm facts nl nr cy by (simp add: rb_erase_splice_def rb_access)
  moreover have "ctx_at ?h1 y c" using ctx_at_wr_link [OF zip_ctx [OF z] zip_distinct_ctx [OF z]] .
  then have "ctx_at ?h' y c" using out [of y] out [of "root_of l"] rl by simp
  moreover have "tree_at ?h' (root_of l) y l"
    using tree tree_at_root [of h "n_left h x" x l] l dist facts cp by (intro tree_reparent) auto
  moreover have "tree_at ?h' (root_of r) y r"
    using tree nr dist facts cp by simp
  moreover have "distinct (before c @ inorder (Node l b y r) @ after c)" using z by (auto simp: zip_at_def)
  ultimately have "zip_at ?h' c (Node l b y r)" using facts cy nr tree out [of y] by (simp add: zip_at_def)
  then show ?thesis using \<open>rb_erase_splice x h = Some (root_of r, y, b', ?h')\<close> by (auto simp: zip_up)
qed

text \<open>The successor is further down: it is bypassed there, and then seated.\<close>

lemma splice_deep:
  assumes z: "zip_at h c (Node l b x (plug (FL d p s # k) (Node Leaf b' y r)))" and l: "l \<noteq> Leaf"
    and k: "list_all is_left_frame k"
  shows "\<exists>h'. rb_erase_splice x h = Some (root_of r, p, b', h') \<and> zip_at h' (FL d p s # k @ FR b y l # c) r"
proof -
  define R where "R = plug (FL d p s # k) r"
  have zs: "zip_at h ((FL d p s # k) @ FR b x l # c) (Node Leaf b' y r)" using z unfolding zip_plug by (simp add: zip_up)
  let ?K = "FL d p s # k @ FR b x l # c"
  define h1 where "h1 = wr_left p (root_of r) (if root_of r \<noteq> NULL then wr_parent (root_of r) p h else h)"
  have cpk: "cparent ((FL d p s # k) @ FR b x l # c) = p" by simp
  have "zip_at h1 ?K r" using bypass_zip(1) [OF zs, of b' y r] unfolding cpk h1_def by simp
  then have z1: "zip_at h1 c (Node l b x R)"
    unfolding R_def using zip_plug [of h1 "FL d p s # k" "FR b x l # c" r] by (simp add: zip_up)
  note tree = zip_tree [OF z] and tree1 = zip_tree [OF z1] and dist = zip_distinct [OF z]
  have Rnl: "R \<noteq> Leaf" unfolding R_def using plug_not_Leaf [of "Node r d p s" k] by simp
  have io: "y \<notin> set (inorder R)" "y \<noteq> x" "y \<notin> set (inorder l)" "p \<noteq> x" "p \<noteq> y" "root_of r \<noteq> x"
    using dist zip_disjoint [OF z, of x] unfolding R_def by (cases r; auto simp: inorder_plug)+
  have inz: "p \<in> set (inorder (Node l b x (plug (FL d p s # k) (Node Leaf b' y r))))"
    "y \<in> set (inorder (Node l b x (plug (FL d p s # k) (Node Leaf b' y r))))"
    by (auto simp: inorder_plug)
  have y: "y \<noteq> NULL" "y \<notin> set (before c)" "y \<notin> set (after c)" using zip_disjoint [OF z inz(2)] by auto
  have cp: "cparent c \<noteq> p" "cparent c \<noteq> y" "cparent c \<noteq> x" using zip_cparent [OF z] inz by auto
  have hd_eq: "List.hd (inorder (plug (FL d p s # k) (Node Leaf b' y r))) = y"
    using left_before [OF k] by (simp add: inorder_plug)
  have lm: "rb_leftmost (n_right h x) h = Some y"
    using leftmost_tree [of h "n_right h x" x "plug (FL d p s # k) (Node Leaf b' y r)"] tree hd_eq
      plug_not_Leaf [of "Node Leaf b' y r" "FL d p s # k"] by simp
  have roots: "n_left h x = root_of l" "n_right h x = root_of R"
    using tree tree1 io tree_at_root [of h "n_left h x" x l] tree_at_root [of h1 "n_right h1 x" x R]
    by (auto simp: h1_def split: if_splits)
  have ys: "n_parent h y = p" "n_black h y = b'" "n_right h y = root_of r" "p \<noteq> NULL"
    using zip_tree [OF zs] tree_at_root [of h "n_right h y" y r] zip_disjoint [OF z inz(1)] by auto
  have link: "rb_relink_left (cparent c) x y h = Some (wr_link c y h)"
    using zip_ctx [OF z] zip_disjoint [OF z, of x] by (intro relink_ctx(1)) auto
  have Rl: "root_of R \<noteq> NULL" "root_of l \<noteq> NULL" "root_of R \<noteq> x"
    using zip_disjoint [OF z1, of "root_of R"] zip_disjoint [OF z1, of "root_of l"] Rnl l zip_distinct [OF z1]
    by (cases R; cases l; auto)+
  have xf: "n_parent h x = cparent c" "n_black h x = b" "x \<noteq> NULL" using tree by auto
  have run: "rb_erase_splice x h = Some (root_of r, p, b', wr_parent (root_of l) y (wr_left y (root_of l) (wr_black y b
      (wr_parent y (cparent c) (wr_parent (root_of R) y (wr_right y (root_of R) (wr_link c y h1)))))))"
    using lm link ys roots xf cp io Rl y
    by (simp add: rb_erase_splice_def rb_access h1_def wr_link_swap)
  have yT: "y \<notin> set (inorder (Node l b x R))" using io by simp
  have "zip_at (wr_parent (root_of l) y (wr_left y (root_of l) (wr_black y b
      (wr_parent y (cparent c) (wr_parent (root_of R) y (wr_right y (root_of R) (wr_link c y h1))))))) c (Node l b y R)"
    using seat_zip [OF z1 l Rnl y(1) yT y(2,3)] .
  then have "zip_at (wr_parent (root_of l) y (wr_left y (root_of l) (wr_black y b
      (wr_parent y (cparent c) (wr_parent (root_of R) y (wr_right y (root_of R) (wr_link c y h1)))))))
      ((FL d p s # k) @ FR b y l # c) r"
    unfolding zip_plug R_def by (simp add: zip_up)
  then show ?thesis using run by auto
qed

section \<open>Removal\<close>

lemma bal_context:
  "rb_bal (plug k t) n \<Longrightarrow> ctx_bal c n \<Longrightarrow> c \<noteq> [] \<and> ctx_black c \<or> black_top (plug k t)
    \<Longrightarrow> \<exists>m. rb_bal t m \<and> ctx_bal (k @ c) m \<and> (k @ c \<noteq> [] \<and> ctx_black (k @ c) \<or> black_top t)"
proof (induction k arbitrary: t)
  case (Cons f k)
  from Cons.IH [of "plug1 f t"] Cons.prems obtain m where
    m: "rb_bal (plug1 f t) m" "ctx_bal (k @ c) m" "k @ c \<noteq> [] \<and> ctx_black (k @ c) \<or> black_top (plug1 f t)" by auto
  show ?case
  proof (cases "frame_black f")
    case True
    then obtain j where "m = Suc j" "rb_bal t j" "rb_bal (sibling f) j"
      using m(1) by (cases f; cases m) auto
    then show ?thesis using m True by (intro exI [of _ j]) (auto simp: ctx_black_def)
  next
    case False
    then have "rb_bal t m" "rb_bal (sibling f) m" "black_top t" "black_top (sibling f)" "\<not> black_top (plug1 f t)"
      using m(1) by (cases f; auto)+
    then show ?thesis using m False by (intro exI [of _ m]) (auto simp: ctx_black_def)
  qed
qed auto

lemma valid_context:
  assumes "rb_valid (plug c t)"
  obtains m where "rb_bal t m" "ctx_bal c m" "ctx_black c \<or> black_top t"
  using bal_context [of c t "bheight (plug c t)" "[]"] assms by (auto simp: rb_valid_def ctx_black_def)

lemma valid_plug: "rb_bal t m \<Longrightarrow> ctx_bal c m \<Longrightarrow> ctx_black c \<or> black_top t \<Longrightarrow> c \<noteq> [] \<or> black_top t \<Longrightarrow> rb_valid (plug c t)"
  using rb_bal_plug [of c m t] black_top_plug [of c m t] rb_validI by (cases "c = []") fastforce+

text \<open>After the unlinking: the hole is one black node short exactly when a black node left.\<close>

lemma erase_rest:
  assumes z: "zip_at h c t" and e: "res = (if b then rb_erase_color (root_of t) (cparent c) h else Some h)"
    and v: "rb_bal (Node Leaf b y t) m \<or> rb_bal (Node t b y Leaf) m" and c: "ctx_bal c m" "ctx_black c \<or> b"
    and ne: "b \<or> c \<noteq> []"
  shows "repaired res (before c @ inorder t @ after c)"
proof (cases b)
  case True
  then obtain n where n: "m = Suc n" "rb_bal t n" using v by (cases m) auto
  then have "if black_top t then rb_bal t n else rb_bal (paint True t) (Suc n)" by (simp add: rb_bal_paint_red)
  then show ?thesis using erase_color_zip [OF z _ , of n] c n e True by simp
next
  case False
  then have "rb_bal t m" "black_top t" using v by auto
  then have "rb_valid (plug c t)" using c False ne by (intro valid_plug) auto
  then show ?thesis using z e False unfolding zip_root [of h c] by (auto simp: repaired_def inorder_plug)
qed

lemma erase_bypass:
  assumes z: "zip_at h c T" and T: "T = Node Leaf b x t \<or> T = Node t b x Leaf" and v: "rb_valid (plug c T)"
  shows "repaired (rb_erase x h) (before c @ inorder t @ after c)"
proof -
  obtain m where m: "rb_bal T m" "ctx_bal c m" "ctx_black c \<or> black_top T" using valid_context [OF v] .
  have ne: "b \<or> c \<noteq> []" using v T by (auto simp: rb_valid_def)
  obtain h' where h': "zip_at h' c t" "rb_erase_unlink x (root_of t) h = Some (root_of t, cparent c, b, h')"
    using bypass_zip [OF z T] by blast
  have "x \<noteq> NULL" "n_left h x = NULL \<and> n_right h x = root_of t \<or> n_left h x = root_of t \<and> n_right h x = NULL"
    using zip_tree [OF z] T tree_at_root by auto
  then have "rb_erase x h = (if b then rb_erase_color (root_of t) (cparent c) h' else Some h')"
    using h'(2) by (auto simp: rb_erase_def rb_access)
  then show ?thesis using erase_rest [OF h'(1), of _ b x m] m T ne by auto
qed

lemma erase_two:
  assumes z: "zip_at h c (Node l b x r)" and l: "l \<noteq> Leaf" and r: "r \<noteq> Leaf" and v: "rb_valid (plug c (Node l b x r))"
  shows "repaired (rb_erase x h) (before c @ (inorder l @ inorder r) @ after c)"
proof -
  obtain k b' y t where k: "r = plug k (Node Leaf b' y t)" "list_all is_left_frame k" using left_spine [OF r] by blast
  let ?c = "k @ FR b x l # c" and ?c' = "k @ FR b y l # c"
  have pl: "plug c (Node l b x r) = plug ?c (Node Leaf b' y t)"
  proof -
    have "plug (k @ d) u = plug d (plug k u)" for d u by (induction k arbitrary: u) auto
    then show ?thesis by (simp add: k)
  qed
  obtain m where m: "rb_bal (Node Leaf b' y t) m" "ctx_bal ?c m" "ctx_black ?c \<or> black_top (Node Leaf b' y t)"
    using valid_context v unfolding pl by blast
  have swap: "ctx_bal (q @ FR b y l # c) j = ctx_bal (q @ FR b x l # c) j" for q j
    by (induction q arbitrary: j) (auto simp: hd_append neq_Nil_conv)
  have black: "ctx_black ?c' = ctx_black ?c" by (cases k) (auto simp: ctx_black_def)
  have tree: "x \<noteq> NULL" "n_left h x \<noteq> NULL" "n_right h x \<noteq> NULL"
    using zip_tree [OF z] l r by (cases l; cases r; auto)+
  obtain h' where h': "rb_erase_splice x h = Some (root_of t, cparent ?c', b', h')" "zip_at h' ?c' t"
  proof (cases k)
    case Nil
    then show ?thesis using splice_child [of h c l b x b' y t] z l k that by auto
  next
    case (Cons f k')
    then obtain d p s where "f = FL d p s" using k by (cases f) auto
    then show ?thesis using splice_deep [of h c l b x d p s k' b' y t] z l k Cons that by auto
  qed
  have "rb_erase x h = (if b' then rb_erase_color (root_of t) (cparent ?c') h' else Some h')"
    using h'(1) tree by (simp add: rb_erase_def rb_access)
  then have "repaired (rb_erase x h) (before ?c' @ inorder t @ after ?c')"
    using erase_rest [OF h'(2), of _ b' y m] m black swap by auto
  moreover have "before (q @ d) = before d @ before q \<and> after (q @ d) = after q @ after d" for q d
    by (induction q rule: before.induct) auto
  ultimately show ?thesis using k left_before [OF k(2)] by (simp add: inorder_plug)
qed

lemma erase_zip:
  assumes z: "zip_at h c (Node l b x r)" and v: "rb_valid (plug c (Node l b x r))"
  shows "repaired (rb_erase x h) (before c @ inorder l @ inorder r @ after c)"
  using erase_bypass [OF z, of b x r] erase_bypass [OF z, of b x l] erase_two [OF z] v
  by (cases "l = Leaf"; cases "r = Leaf") auto

section \<open>Order traversal\<close>

definition first_or_null :: "nat list \<Rightarrow> nat" where
  "first_or_null xs = (case xs of [] \<Rightarrow> NULL | y # ys \<Rightarrow> y)"

lemma first_or_null_simps [simp]:
  "first_or_null [] = NULL" "first_or_null (y # ys) = y"
  "first_or_null (xs @ ys) = (if xs = [] then first_or_null ys else List.hd xs)"
  by (cases xs; simp add: first_or_null_def)+

lemma first_or_null_hd: "xs \<noteq> [] \<Longrightarrow> first_or_null xs = List.hd xs"
  by (cases xs) auto

definition last_or_null :: "nat list \<Rightarrow> nat" where
  "last_or_null xs = first_or_null (rev xs)"

lemma last_or_null_simps [simp]:
  "last_or_null [] = NULL" "last_or_null (xs @ [y]) = y"
  "last_or_null (xs @ ys) = (if ys = [] then last_or_null xs else List.last ys)"
  by (auto simp: last_or_null_def hd_rev)

lemma last_or_null_last: "xs \<noteq> [] \<Longrightarrow> last_or_null xs = List.last xs"
  by (simp add: last_or_null_def first_or_null_hd hd_rev)

lemma inorder_Nil: "inorder t = [] \<longleftrightarrow> t = Leaf" by (cases t) auto

lemma climb_right_zip:
  "zip_at h c t \<Longrightarrow> t \<noteq> Leaf \<Longrightarrow> rb_climb_right (root_of t) h = Some (first_or_null (after c))"
proof (induction c arbitrary: t)
  case Nil
  then show ?case using zip_parent [OF Nil.prems] by (subst rb_climb_right.simps) simp
next
  case (Cons f c)
  note par = zip_parent [OF Cons.prems]
  have z: "zip_at h c (plug1 f t)" using Cons.prems(1) by (simp add: zip_up)
  note tree = zip_tree [OF z] and dist = zip_distinct [OF z] and rt = tree_at_root [of h _ _ t]
  show ?case
  proof (cases f)
    case (FL b p s)
    have "n_right h p \<noteq> root_of t"
      using tree_at_neq [of h "n_right h p" p s "root_of t"] tree dist FL Cons.prems(2) zip_disjoint [OF z, of "root_of t"]
      by (cases t) auto
    then show ?thesis using par tree FL by (subst rb_climb_right.simps) (auto simp: rb_right_def)
  next
    case (FR b p s)
    then have "n_right h p = root_of t" using tree rt by auto
    then have "rb_climb_right (root_of t) h = rb_climb_right p h"
      using par tree FR by (subst rb_climb_right.simps) (auto simp: rb_right_def)
    then show ?thesis using Cons.IH [OF z] FR by simp
  qed
qed

lemma climb_left_zip:
  "zip_at h c t \<Longrightarrow> t \<noteq> Leaf \<Longrightarrow> rb_climb_left (root_of t) h = Some (last_or_null (before c))"
proof (induction c arbitrary: t)
  case Nil
  then show ?case using zip_parent [OF Nil.prems] by (subst rb_climb_left.simps) simp
next
  case (Cons f c)
  note par = zip_parent [OF Cons.prems]
  have z: "zip_at h c (plug1 f t)" using Cons.prems(1) by (simp add: zip_up)
  note tree = zip_tree [OF z] and dist = zip_distinct [OF z] and rt = tree_at_root [of h _ _ t]
  show ?case
  proof (cases f)
    case (FR b p s)
    have "n_left h p \<noteq> root_of t"
      using tree_at_neq [of h "n_left h p" p s "root_of t"] tree dist FR Cons.prems(2) zip_disjoint [OF z, of "root_of t"]
      by (cases t) auto
    then show ?thesis using par tree FR by (subst rb_climb_left.simps) (auto simp: rb_left_def)
  next
    case (FL b p s)
    then have "n_left h p = root_of t" using tree rt by auto
    then have "rb_climb_left (root_of t) h = rb_climb_left p h"
      using par tree FL by (subst rb_climb_left.simps) (auto simp: rb_left_def)
    then show ?thesis using Cons.IH [OF z] FL by simp
  qed
qed

lemma next_zip:
  assumes z: "zip_at h c (Node l b x r)"
  shows "rb_next x h = Some (first_or_null (inorder r @ after c))"
proof -
  have "cparent c \<noteq> x" using zip_cparent [OF z] by auto
  then show ?thesis
    using zip_tree [OF z] climb_right_zip [OF z] leftmost_tree [of h "n_right h x" x r]
    by (cases r) (auto simp: rb_next_def rb_access first_or_null_hd inorder_Nil)
qed

lemma prev_zip:
  assumes z: "zip_at h c (Node l b x r)"
  shows "rb_prev x h = Some (last_or_null (before c @ inorder l))"
proof -
  have "cparent c \<noteq> x" using zip_cparent [OF z] by auto
  then show ?thesis
    using zip_tree [OF z] climb_left_zip [OF z] rightmost_tree [of h "n_left h x" x l]
    by (cases l) (auto simp: rb_prev_def rb_access last_or_null_last inorder_Nil)
qed

section \<open>The interface: a heap that stores a sequence of nodes\<close>

definition rb_seq :: "rb_heap \<Rightarrow> nat list \<Rightarrow> bool" where
  "rb_seq h xs \<longleftrightarrow> (\<exists>t. zip_at h [] t \<and> rb_valid t \<and> inorder t = xs)"

lemma repaired_seq: "repaired res xs \<longleftrightarrow> (\<exists>h'. res = Some h' \<and> rb_seq h' xs)"
  unfolding repaired_def rb_seq_def by blast

lemma plug_append: "plug (k @ c) t = plug c (plug k t)"
  by (induction k arbitrary: t) auto

text \<open>Every node of a tree can be brought into focus.\<close>

lemma split_at:
  "inorder t = xs @ x # ys \<Longrightarrow> distinct (inorder t)
    \<Longrightarrow> \<exists>c l b r. t = plug c (Node l b x r) \<and> before c @ inorder l = xs \<and> inorder r @ after c = ys"
proof (induction t arbitrary: xs ys)
  case (Node l b z r)
  have dl: "distinct (inorder l)" and dr: "distinct (inorder r)" using Node.prems(2) by auto
  have ba: "before (q @ d) = before d @ before q" "after (q @ d) = after q @ after d" for q d
    by (induction q rule: before.induct) auto
  from Node.prems consider (mid) "x = z" "xs = inorder l" "ys = inorder r"
    | (left) us where "inorder l = xs @ x # us" "ys = us @ z # inorder r"
    | (right) us where "inorder r = us @ x # ys" "xs = inorder l @ z # us"
    by (auto simp: append_eq_append_conv2 append_eq_Cons_conv Cons_eq_append_conv)
  then show ?case
  proof cases
    case mid
    then show ?thesis by (intro exI [of _ "[]"]) auto
  next
    case left
    then obtain c l' b' r' where "l = plug c (Node l' b' x r')" "before c @ inorder l' = xs" "inorder r' @ after c = us"
      using Node.IH(1) [OF left(1) dl] by blast
    then show ?thesis using left
      by (intro exI [of _ "c @ [FL b z r]"] exI [of _ l'] exI [of _ b'] exI [of _ r']) (auto simp: plug_append ba)
  next
    case right
    then obtain c l' b' r' where "r = plug c (Node l' b' x r')" "before c @ inorder l' = us" "inorder r' @ after c = ys"
      using Node.IH(2) [OF right(1) dr] by blast
    then show ?thesis using right
      by (intro exI [of _ "c @ [FR b z l]"] exI [of _ l'] exI [of _ b'] exI [of _ r']) (auto simp: plug_append ba)
  qed
qed simp

lemma seq_focus:
  assumes "rb_seq h (xs @ x # ys)"
  obtains c l b r where "zip_at h c (Node l b x r)" "rb_valid (plug c (Node l b x r))"
    "before c @ inorder l = xs" "inorder r @ after c = ys"
proof -
  obtain t where t: "zip_at h [] t" "rb_valid t" "inorder t = xs @ x # ys" using assms unfolding rb_seq_def by blast
  then obtain c l b r where "t = plug c (Node l b x r)" "before c @ inorder l = xs" "inorder r @ after c = ys"
    using split_at [OF t(3)] zip_distinct [OF t(1)] by blast
  then show ?thesis using that t zip_root [of h c] by blast
qed

lemma seq_distinct: "rb_seq h xs \<Longrightarrow> distinct xs \<and> NULL \<notin> set xs"
  using zip_disjoint [of h "[]"] zip_distinct by (fastforce simp: rb_seq_def)

lemma seq_erase: "rb_seq h (xs @ x # ys) \<Longrightarrow> \<exists>h'. rb_erase x h = Some h' \<and> rb_seq h' (xs @ ys)"
  by (elim seq_focus) (use erase_zip in \<open>fastforce simp: repaired_seq\<close>)

lemma seq_next: "rb_seq h (xs @ x # ys) \<Longrightarrow> rb_next x h = Some (first_or_null ys)"
  by (elim seq_focus) (use next_zip in fastforce)

lemma seq_prev: "rb_seq h (xs @ x # ys) \<Longrightarrow> rb_prev x h = Some (last_or_null xs)"
  by (elim seq_focus) (use prev_zip in fastforce)

lemma seq_first: "rb_seq h xs \<Longrightarrow> rb_first h = Some (first_or_null xs)"
proof -
  assume "rb_seq h xs"
  then obtain t where t: "zip_at h [] t" "inorder t = xs" unfolding rb_seq_def by blast
  then show ?thesis
    using zip_ctx [OF t(1)] zip_tree [OF t(1)] leftmost_tree [of h "root_of t" NULL t] zip_disjoint [OF t(1), of "root_of t"]
    by (cases t) (auto simp: rb_first_def first_or_null_hd)
qed

lemma seq_last: "rb_seq h xs \<Longrightarrow> rb_last h = Some (last_or_null xs)"
proof -
  assume "rb_seq h xs"
  then obtain t where t: "zip_at h [] t" "inorder t = xs" unfolding rb_seq_def by blast
  then show ?thesis
    using zip_ctx [OF t(1)] zip_tree [OF t(1)] rightmost_tree [of h "root_of t" NULL t] zip_disjoint [OF t(1), of "root_of t"]
    by (cases t) (auto simp: rb_last_def last_or_null_last)
qed

lemma seq_empty: "rb_root h = NULL \<Longrightarrow> rb_seq h []"
  unfolding rb_seq_def by (intro exI [of _ Leaf]) (auto simp: zip_at_def rb_valid_def)

section \<open>Insertion at a hole\<close>

fun hole_link :: "frame list \<Rightarrow> rb_link" where
  "hole_link [] = Link_root"
| "hole_link (FL b x s # c) = Link_left x"
| "hole_link (FR b x s # c) = Link_right x"

lemma put_hole: "ctx_at h p c \<Longrightarrow> rb_put_link (hole_link c) q h = Some (wr_link c q h)"
  by (cases c rule: before.cases) (auto simp: rb_set_left_def rb_set_right_def)

lemma get_hole: "ctx_at h p c \<Longrightarrow> rb_get_link (hole_link c) h = Some p"
  by (cases c rule: before.cases) (auto simp: rb_left_def rb_right_def)

lemma link_zip:
  assumes z: "zip_at h c Leaf" and x: "x \<noteq> NULL" "x \<notin> set (before c)" "x \<notin> set (after c)"
  obtains h' where "rb_link_node x (cparent c) (hole_link c) h = Some h'" "zip_at h' c (Node Leaf False x Leaf)"
proof -
  let ?h1 = "wr_left x NULL (wr_right x NULL (wr_black x False (wr_parent x (cparent c) h)))"
  have ctx: "ctx_at ?h1 NULL c" using zip_ctx [OF z] x by simp
  have "ctx_at (wr_link c x ?h1) x c" using ctx_at_wr_link [OF ctx zip_distinct_ctx [OF z]] .
  then have "zip_at (wr_link c x ?h1) c (Node Leaf False x Leaf)"
    using x zip_distinct_ctx [OF z] by (simp add: zip_at_def)
  moreover have "rb_link_node x (cparent c) (hole_link c) h = Some (wr_link c x ?h1)"
    using x put_hole [OF ctx] by (simp add: rb_link_node_def rb_access)
  ultimately show ?thesis using that by blast
qed

lemma insert_zip:
  assumes z: "zip_at h c Leaf" and v: "rb_valid (plug c Leaf)"
    and x: "x \<noteq> NULL" "x \<notin> set (before c)" "x \<notin> set (after c)"
  shows "\<exists>h'. do { h \<leftarrow> rb_link_node x (cparent c) (hole_link c) h; rb_insert_color x h } = Some h'
    \<and> rb_seq h' (before c @ x # after c)"
proof -
  obtain h1 where h1: "rb_link_node x (cparent c) (hole_link c) h = Some h1" "zip_at h1 c (Node Leaf False x Leaf)"
    using link_zip [OF z x] .
  have "ctx_bal c 0" using valid_context [OF v] by auto
  then have "repaired (rb_insert_color x h1) (before c @ inorder (Node Leaf False x Leaf) @ after c)"
    using insert_color_zip [OF h1(2)] by simp
  then show ?thesis using h1(1) by (simp add: repaired_seq)
qed

section \<open>Replacement\<close>

lemma replace_zip:
  assumes z: "zip_at h c (Node l b x r)"
    and y: "y \<noteq> NULL" "y \<notin> set (inorder (Node l b x r))" "y \<notin> set (before c)" "y \<notin> set (after c)"
  shows "\<exists>h'. rb_replace_node x y h = Some h' \<and> zip_at h' c (Node l b y r)"
proof -
  note tree = zip_tree [OF z] and dist = zip_distinct [OF z] and cp = zip_cparent [OF z] and out = zip_disjoint [OF z]
  let ?h1 = "wr_link c y h"
  let ?h2 = "if root_of l \<noteq> NULL then wr_parent (root_of l) y ?h1 else ?h1"
  let ?h3 = "if root_of r \<noteq> NULL then wr_parent (root_of r) y ?h2 else ?h2"
  let ?h' = "wr_parent y (cparent c) (wr_black y b (wr_right y (root_of r) (wr_left y (root_of l) ?h3)))"
  have roots: "n_left h x = root_of l" "n_right h x = root_of r" using tree tree_at_root by auto
  have cx: "cparent c \<noteq> x" "cparent c \<noteq> y" using cp y by auto
  have mem: "l \<noteq> Leaf \<Longrightarrow> root_of l \<in> set (inorder l)" "r \<noteq> Leaf \<Longrightarrow> root_of r \<in> set (inorder r)" by (cases l; cases r; simp)+
  have link: "rb_relink_left (cparent c) x y h = Some ?h1"
    using zip_ctx [OF z] out [of x] by (intro relink_ctx(1)) auto
  have xf: "x \<noteq> NULL" "n_parent h x = cparent c" "n_black h x = b" using tree by auto
  have neq: "root_of l \<noteq> NULL \<Longrightarrow> root_of l \<noteq> x" "root_of r \<noteq> NULL \<Longrightarrow> root_of r \<noteq> x"
    using dist mem by (cases l; cases r; auto)+
  have l2: "(if root_of l \<noteq> NULL then rb_set_parent (root_of l) y ?h1 else Some ?h1) = Some ?h2"
    and r3: "(if root_of r \<noteq> NULL then rb_set_parent (root_of r) y ?h2 else Some ?h2) = Some ?h3"
    by (simp_all add: rb_set_parent_def)
  have f1: "n_left ?h1 x = root_of l" "n_right ?h2 x = root_of r" using roots cx by auto
  have f3: "n_left ?h3 x = root_of l" "n_right ?h3 x = root_of r" "n_black ?h3 x = b" "n_parent ?h3 x = cparent c"
    using roots cx neq xf by auto
  have run: "rb_replace_node x y h = Some ?h'"
    unfolding rb_replace_node_def rb_parent_def rb_left_def rb_right_def
    by (simp only: xf link f1 l2 r3 f3 y c_guard_True bind_simps not_False_eq_True bind.bind_lunit option.simps if_True if_False refl)
  have "ctx_at ?h1 y c" using ctx_at_wr_link [OF zip_ctx [OF z] zip_distinct_ctx [OF z]] .
  moreover have "root_of l \<noteq> NULL \<Longrightarrow> root_of l \<notin> set (before c) \<and> root_of l \<notin> set (after c)"
    "root_of r \<noteq> NULL \<Longrightarrow> root_of r \<notin> set (before c) \<and> root_of r \<notin> set (after c)"
    using out mem by (cases l; cases r; simp)+
  ultimately have "ctx_at ?h' y c" using y by simp
  moreover have tl: "tree_at ?h1 (root_of l) x l" "distinct (inorder l)" "root_of r \<noteq> NULL \<Longrightarrow> root_of r \<notin> set (inorder l)"
    using tree roots dist cp mem by (cases r; auto)+
  have tr: "tree_at ?h1 (root_of r) x r" "distinct (inorder r)" "root_of l \<noteq> NULL \<Longrightarrow> root_of l \<notin> set (inorder r)"
    using tree roots dist cp mem by (cases l; auto)+
  have "tree_at ?h3 (root_of l) y l" using tree_reparent_if [OF tl(1,2), of y] tl(3) by simp
  then have "tree_at ?h' (root_of l) y l" using y by simp
  moreover have "tree_at ?h2 (root_of r) x r" using tr(1,3) by simp
  then have "tree_at ?h3 (root_of r) y r" using tree_reparent_if [OF _ tr(2)] by blast
  then have "tree_at ?h' (root_of r) y r" using y by simp
  moreover have "distinct (before c @ inorder (Node l b y r) @ after c)" using z y by (auto simp: zip_at_def)
  ultimately have "zip_at ?h' c (Node l b y r)" using y by (simp add: zip_at_def)
  then show ?thesis using run by blast
qed

lemma valid_rename: "rb_valid (plug c (Node l b x r)) \<Longrightarrow> rb_valid (plug c (Node l b y r))"
proof -
  assume v: "rb_valid (plug c (Node l b x r))"
  obtain m where "rb_bal (Node l b x r) m" "ctx_bal c m" "ctx_black c \<or> b" using valid_context [OF v] by auto
  moreover have "b \<or> c \<noteq> []" using v by (auto simp: rb_valid_def)
  ultimately show ?thesis by (intro valid_plug [of _ m]) (cases b; auto)+
qed

lemma seq_replace:
  assumes s: "rb_seq h (xs @ x # ys)" and y: "y \<noteq> NULL" "y \<notin> set (xs @ x # ys)"
  shows "\<exists>h'. rb_replace_node x y h = Some h' \<and> rb_seq h' (xs @ y # ys)"
proof -
  obtain c l b r where f: "zip_at h c (Node l b x r)" "rb_valid (plug c (Node l b x r))"
    "before c @ inorder l = xs" "inorder r @ after c = ys" using seq_focus [OF s] .
  obtain h' where "rb_replace_node x y h = Some h'" "zip_at h' c (Node l b y r)"
    using replace_zip [OF f(1) y(1)] y(2) f(3,4) by auto
  then show ?thesis using valid_rename [OF f(2)] f(3,4) zip_root [of h' c]
    unfolding rb_seq_def by (intro exI [of _ h']) (auto simp: inorder_plug)
qed

section \<open>The augmentation walk\<close>

text \<open>
  The walk calls the callback on the node, on its sibling and then on the parent, up to the root; on
  the only child of a node it calls it a second time when it is the left child.
\<close>

fun augment_visits :: "nat \<Rightarrow> frame list \<Rightarrow> nat list" where
  "augment_visits x [] = [x]"
| "augment_visits x (FL b p s # c) = x # (if s = Leaf then x else root_of s) # augment_visits p c"
| "augment_visits x (FR b p s # c) = x # (if s = Leaf then [] else [root_of s]) @ augment_visits p c"

fun call_all :: "(rb_heap \<Rightarrow> nat \<Rightarrow> 's \<Rightarrow> 's option) \<Rightarrow> rb_heap \<Rightarrow> nat list \<Rightarrow> 's \<Rightarrow> 's option" where
  "call_all func h [] s = Some s"
| "call_all func h (x # xs) s = do { s \<leftarrow> func h x s; call_all func h xs s }"

lemma augment_path_zip:
  "zip_at h c t \<Longrightarrow> t \<noteq> Leaf \<Longrightarrow> rb_augment_path func (root_of t) h s = call_all func h (augment_visits (root_of t) c) s"
proof (induction c arbitrary: t s)
  case Nil
  have "Option.bind m (call_all func h []) = m" for m by (cases m) auto
  then show ?case using zip_parent [OF Nil.prems] by (subst rb_augment_path.simps) simp
next
  case (Cons f c)
  have z: "zip_at h c (plug1 f t)" using Cons.prems(1) by (simp add: zip_up)
  have nl: "plug1 f t \<noteq> Leaf" by (cases f) auto
  note IH = Cons.IH [OF z nl] and par = zip_parent [OF Cons.prems] and tree = zip_tree [OF z]
  have root: "root_of t \<noteq> NULL" using zip_disjoint [OF Cons.prems(1), of "root_of t"] Cons.prems(2) by (cases t) auto
  show ?case
  proof (cases f)
    case (FL b p u)
    then have "n_left h p = root_of t" "n_right h p = root_of u" "p \<noteq> NULL" "root_of u = NULL \<longleftrightarrow> u = Leaf"
      using tree tree_at_root by (auto; cases u; auto)+
    moreover have "call_all func h (v # vs) = (\<lambda>s. Option.bind (func h v s) (call_all func h vs))" for v vs by (rule ext) simp
    moreover have "rb_augment_path func p h = call_all func h (augment_visits p c)" using IH FL by (intro ext) simp
    ultimately show ?thesis using par FL root
      by (subst rb_augment_path.simps; cases "u = Leaf") (simp_all add: rb_left_def rb_right_def)
  next
    case (FR b p u)
    have u: "tree_at h (n_left h p) p u" "p \<noteq> NULL" using tree FR by auto
    have "root_of u \<noteq> root_of t"
      using tree_at_neq [OF u(1), of "root_of t"] tree_at_root [OF u(1)] zip_distinct [OF z] FR root Cons.prems(2) by (cases t) auto
    moreover have "n_left h p = root_of u" "root_of u = NULL \<longleftrightarrow> u = Leaf" "p \<noteq> NULL"
      using u tree_at_root [OF u(1)] by (cases u; simp)+
    moreover have "call_all func h (v # vs) = (\<lambda>s. Option.bind (func h v s) (call_all func h vs))" for v vs by (rule ext) simp
    moreover have "rb_augment_path func p h = call_all func h (augment_visits p c)" using IH FR by (intro ext) simp
    ultimately show ?thesis using par FR root
      by (subst rb_augment_path.simps; cases "u = Leaf") (simp_all add: rb_left_def rb_right_def)
  qed
qed

section \<open>The ordered-sequence interface\<close>

text \<open>
  What the scheduler relies on: a heap stores a sequence of nodes, the traversal functions read it and
  removal takes out one node. Clients see only these laws.
\<close>

locale ordered_seq =
  fixes seq :: "'h \<Rightarrow> nat list \<Rightarrow> bool"
    and first_node :: "'h \<Rightarrow> nat option"
    and next_node :: "nat \<Rightarrow> 'h \<Rightarrow> nat option"
    and erase_node :: "nat \<Rightarrow> 'h \<Rightarrow> 'h option"
  assumes law_distinct: "seq h xs \<Longrightarrow> distinct xs \<and> NULL \<notin> set xs"
    and law_first: "seq h xs \<Longrightarrow> first_node h = Some (first_or_null xs)"
    and law_next: "seq h (xs @ x # ys) \<Longrightarrow> next_node x h = Some (first_or_null ys)"
    and law_erase: "seq h (xs @ x # ys) \<Longrightarrow> \<exists>h'. erase_node x h = Some h' \<and> seq h' (xs @ ys)"
begin

lemma erase_member:
  assumes "seq h xs" "x \<in> set xs"
  shows "\<exists>h'. erase_node x h = Some h' \<and> seq h' (remove1 x xs)"
proof -
  obtain us vs where "xs = us @ x # vs" "x \<notin> set us" using split_list_first [OF assms(2)] by blast
  then show ?thesis using law_erase [of h us x vs] assms(1) by (simp add: remove1_append)
qed

text \<open>A cached first node stays right when it is moved to its successor on its own removal.\<close>

lemma cached_first:
  assumes "seq h xs" "x \<in> set xs"
  shows "(if first_or_null xs = x then next_node x h else Some (first_or_null xs)) = Some (first_or_null (remove1 x xs))"
proof (cases xs)
  case (Cons y ys)
  then show ?thesis using law_next [of h "[]" y ys] assms by (cases ys) auto
qed (use assms in simp)

end

interpretation rbq: ordered_seq rb_seq rb_first rb_next rb_erase
proof unfold_locales
  show "rb_seq h xs \<Longrightarrow> distinct xs \<and> NULL \<notin> set xs" for h xs by (rule seq_distinct)
  show "rb_seq h xs \<Longrightarrow> rb_first h = Some (first_or_null xs)" for h xs by (rule seq_first)
  show "rb_seq h (xs @ x # ys) \<Longrightarrow> rb_next x h = Some (first_or_null ys)" for h xs x ys by (rule seq_next)
  show "rb_seq h (xs @ x # ys) \<Longrightarrow> \<exists>h'. rb_erase x h = Some h' \<and> rb_seq h' (xs @ ys)" for h xs x ys by (rule seq_erase)
qed

section \<open>Properties\<close>

definition sample_rb :: rb_heap where
  "sample_rb = \<lparr>n_parent = (\<lambda>p. if p = 8 then 16 else 0), n_black = (\<lambda>p. p = 16), n_right = (\<lambda>p. 0),
     n_left = (\<lambda>p. if p = 16 then 8 else 0), rb_root = 16\<rparr>"

lemma sample_rb_seq: "rb_seq sample_rb ([8] @ 16 # [])" "zip_at sample_rb [FL False 8 Leaf, FL True 16 Leaf] Leaf"
  unfolding rb_seq_def
  by (rule exI [of _ "Node (Node Leaf False 8 Leaf) True 16 Leaf"], simp_all add: zip_at_def sample_rb_def rb_valid_def)

text \<open>C1: linking a new node at a hole of a valid tree and calling rb_insert_color always ends, and gives a valid red-black tree with the node inserted at that place of the order.\<close>

theorem rb_insert_correct:
  assumes "zip_at h c Leaf" "rb_valid (plug c Leaf)" "x \<noteq> NULL" "x \<notin> set (before c)" "x \<notin> set (after c)"
  shows "\<exists>h'. do { h \<leftarrow> rb_link_node x (cparent c) (hole_link c) h; rb_insert_color x h } = Some h'
    \<and> rb_seq h' (before c @ x # after c)"
  using assms by (rule insert_zip)

theorem rb_insert_correct_witness:
  "\<exists>h'. do { h \<leftarrow> rb_link_node 4 8 (Link_left 8) sample_rb; rb_insert_color 4 h } = Some h' \<and> rb_seq h' [4, 8, 16]"
  using rb_insert_correct [OF sample_rb_seq(2), of 4] by (simp add: rb_valid_def)

text \<open>C2: rb_erase on any node of a valid tree ends, and gives a valid red-black tree with exactly that node taken out of the order.\<close>

theorem rb_erase_correct:
  assumes "rb_seq h (xs @ x # ys)"
  shows "\<exists>h'. rb_erase x h = Some h' \<and> rb_seq h' (xs @ ys)"
  using assms by (rule seq_erase)

theorem rb_erase_correct_witness: "\<exists>h'. rb_erase 16 sample_rb = Some h' \<and> rb_seq h' [8]"
  using rb_erase_correct [OF sample_rb_seq(1)] by simp

text \<open>On a valid tree rb_next and rb_prev give the neighbours of a node in the order (NULL at the ends), rb_first and rb_last its ends, and rb_replace_node puts a new node in the place of the old one.\<close>

theorem rb_traversal_correct:
  assumes "rb_seq h (xs @ x # ys)" "y \<noteq> NULL" "y \<notin> set (xs @ x # ys)"
  shows "rb_next x h = Some (first_or_null ys) \<and> rb_prev x h = Some (last_or_null xs)
    \<and> rb_first h = Some (first_or_null (xs @ x # ys)) \<and> rb_last h = Some (last_or_null (xs @ x # ys))
    \<and> (\<exists>h'. rb_replace_node x y h = Some h' \<and> rb_seq h' (xs @ y # ys))"
  using seq_next [OF assms(1)] seq_prev [OF assms(1)] seq_first [OF assms(1)] seq_last [OF assms(1)] seq_replace [OF assms]
  by blast

theorem rb_traversal_correct_witness:
  "rb_next 16 sample_rb = Some NULL \<and> rb_prev 16 sample_rb = Some 8 \<and> rb_first sample_rb = Some 8 \<and> rb_last sample_rb = Some 16
    \<and> (\<exists>h'. rb_replace_node 16 24 sample_rb = Some h' \<and> rb_seq h' [8, 24])"
  using rb_traversal_correct [OF sample_rb_seq(1), of 24] by (simp add: last_or_null_def)

end
