(* ===== verification/CFS.thy ===== *)
theory CFS
  imports RBErase "HOL-Library.Multiset"
begin

text \<open>
  The completely fair scheduler, \<open>kernel/pc/cfs.c\<close> and \<open>include/zjunix/cfs.h\<close>. A task, its embedded
  \<open>sched_entity\<close> and the \<open>rb_node\<close> in it are one address (the \<open>container_of\<close> offsets are dropped);
  the entities are a map from addresses. \<open>ready\<close> is the list \<open>task_ready\<close> of \<open>pc.c\<close>, which
  \<open>reassign_vruntime\<close> walks. The state record is extended by the process model, so the operations are
  on its scheme. A division by a zero weight has no result.
\<close>

section \<open>Constants and tables\<close>

definition NICE_0_LOAD :: u32 where "NICE_0_LOAD = 1024"
definition U32_MAX :: u32 where "U32_MAX = 2147483647"
definition sysctl_sched_latency :: u32 where "sysctl_sched_latency = 9600000"
definition sysctl_sched_min_granularity_ns :: u32 where "sysctl_sched_min_granularity_ns = 1200000"
definition sysctl_sched_wakeup_granularity :: u32 where "sysctl_sched_wakeup_granularity = 1600000"
definition sysctl_sched_time_unit :: u32 where "sysctl_sched_time_unit = 20000"
definition sysctl_sched_nr_latency :: u32 where "sysctl_sched_nr_latency = 8"

definition prio_to_weight :: "u32 list" where
  "prio_to_weight =
    [88761, 71755, 56483, 46273, 36291,
     29154, 23254, 18705, 14949, 11916,
     9548, 7620, 6100, 4904, 3906,
     3121, 2501, 1991, 1586, 1277,
     1024, 820, 655, 526, 423,
     335, 272, 215, 172, 137,
     110, 87, 70, 56, 45,
     36, 29, 23, 18, 15]"

definition prio_to_wmult :: "u32 list" where
  "prio_to_wmult =
    [48388, 59856, 76040, 92818, 118348,
     147320, 184698, 229616, 287308, 360437,
     449829, 563644, 704093, 875809, 1099582,
     1376151, 1717300, 2157191, 2708050, 3363326,
     4194304, 5237765, 6557202, 8165337, 10153587,
     12820798, 15790321, 19976592, 24970740, 31350126,
     39045157, 49367440, 61356676, 76695844, 95443717,
     119304647, 148102320, 186737708, 238609294, 286331153]"

section \<open>State\<close>

record sched_entity =
  se_weight :: u32
  se_inv_weight :: u32
  se_on_rq :: bool
  se_vruntime :: u32
  se_sum_exec :: u32
  se_prev_sum_exec :: u32

record cfs_rq =
  rq_nr_running :: u32
  rq_weight :: u32
  rq_inv_weight :: u32
  rq_exec_clock :: u32
  rq_min_vruntime :: u32
  rq_tree :: rb_heap
  rq_leftmost :: nat
  rq_cur :: nat
  rq_need_sched :: bool

record cfs_state =
  rq :: cfs_rq
  ses :: "nat \<Rightarrow> sched_entity"
  ready :: "nat list"

abbreviation vr :: "'a cfs_state_scheme \<Rightarrow> nat \<Rightarrow> u32" where
  "vr s p \<equiv> se_vruntime (ses s p)"

text \<open>Stores to one field of an entity, and to the run queue.\<close>

definition upd_se :: "nat \<Rightarrow> (sched_entity \<Rightarrow> sched_entity) \<Rightarrow> 'a cfs_state_scheme \<Rightarrow> 'a cfs_state_scheme" where
  "upd_se p f s = s\<lparr>ses := (ses s)(p := f (ses s p))\<rparr>"

definition upd_rq :: "(cfs_rq \<Rightarrow> cfs_rq) \<Rightarrow> 'a cfs_state_scheme \<Rightarrow> 'a cfs_state_scheme" where
  "upd_rq f s = s\<lparr>rq := f (rq s)\<rparr>"

lemma upd_fields [simp]:
  "rq (upd_se p f s) = rq s" "ready (upd_se p f s) = ready s" "ses (upd_se p f s) = (ses s)(p := f (ses s p))"
  "rq (upd_rq g s) = g (rq s)" "ready (upd_rq g s) = ready s" "ses (upd_rq g s) = ses s"
  "more (upd_se p f s) = more s" "more (upd_rq g s) = more s"
  by (simp_all add: upd_se_def upd_rq_def)

section \<open>Arithmetic helpers\<close>

definition max_vruntime :: "u32 \<Rightarrow> u32 \<Rightarrow> u32" where
  "max_vruntime m v = (if sint (v - m) > 0 then v else m)"

definition min_vruntime :: "u32 \<Rightarrow> u32 \<Rightarrow> u32" where
  "min_vruntime m v = (if sint (v - m) < 0 then v else m)"

definition entity_before :: "u32 \<Rightarrow> u32 \<Rightarrow> bool" where
  "entity_before a b \<longleftrightarrow> sint (a - b) < 0"

definition calc_delta :: "u32 \<Rightarrow> u32 \<Rightarrow> u32 \<Rightarrow> u32 option" where
  "calc_delta delta weight lw_weight = do {
     _ \<leftarrow> c_guard (lw_weight \<noteq> 0);
     Some (delta * weight div lw_weight)
   }"

definition calc_delta_fair :: "u32 \<Rightarrow> sched_entity \<Rightarrow> u32 option" where
  "calc_delta_fair delta se = (if se_weight se \<noteq> NICE_0_LOAD then calc_delta delta NICE_0_LOAD (se_weight se) else Some delta)"

definition update_load_add :: "u32 \<Rightarrow> u32 \<Rightarrow> u32" where
  "update_load_add lw weight = lw + weight"

definition update_load_sub :: "u32 \<Rightarrow> u32 \<Rightarrow> u32" where
  "update_load_sub lw weight = lw - weight"

definition add_nr_running :: "u32 \<Rightarrow> cfs_rq \<Rightarrow> cfs_rq" where
  "add_nr_running n q = q\<lparr>rq_nr_running := rq_nr_running q + n\<rparr>"

definition sub_nr_running :: "u32 \<Rightarrow> cfs_rq \<Rightarrow> cfs_rq" where
  "sub_nr_running n q = q\<lparr>rq_nr_running := rq_nr_running q - n\<rparr>"

section \<open>The timeline\<close>

text \<open>
  The descent of \<open>enqueue_entity\<close> to the hole of the new entity, and whether it only went left. The
  walk ends on every tree, but not on every heap.
\<close>

partial_function (option) enqueue_descend ::
    "(nat \<Rightarrow> bool) \<Rightarrow> rb_heap \<Rightarrow> rb_link \<Rightarrow> nat \<Rightarrow> bool \<Rightarrow> (rb_link \<times> nat \<times> bool) option" where
  "enqueue_descend lt h link parent leftmost = do {
     n \<leftarrow> rb_get_link link h;
     if n = NULL then Some (link, parent, leftmost)
     else if lt n then enqueue_descend lt h (Link_left n) n leftmost
     else enqueue_descend lt h (Link_right n) n False
   }"

definition enqueue_entity :: "nat \<Rightarrow> 'a cfs_state_scheme \<Rightarrow> 'a cfs_state_scheme option" where
  "enqueue_entity se s = do {
     (link, parent, leftmost) \<leftarrow>
       enqueue_descend (\<lambda>n. entity_before (vr s se) (vr s n)) (rq_tree (rq s)) Link_root NULL True;
     s \<leftarrow> Some (if leftmost then upd_rq (\<lambda>q. q\<lparr>rq_leftmost := se\<rparr>) s else s);
     h \<leftarrow> rb_link_node se parent link (rq_tree (rq s));
     h \<leftarrow> rb_insert_color se h;
     Some (upd_rq (\<lambda>q. q\<lparr>rq_tree := h\<rparr>) s)
   }"

definition dequeue_entity :: "nat \<Rightarrow> 'a cfs_state_scheme \<Rightarrow> 'a cfs_state_scheme option" where
  "dequeue_entity se s = do {
     leftmost \<leftarrow> (if rq_leftmost (rq s) = se then rb_next se (rq_tree (rq s)) else Some (rq_leftmost (rq s)));
     h \<leftarrow> rb_erase se (rq_tree (rq s));
     Some (upd_rq (\<lambda>q. q\<lparr>rq_leftmost := leftmost, rq_tree := h\<rparr>) s)
   }"

text \<open>\<open>list_for_each\<close> over \<open>task_ready\<close>, setting each \<open>vruntime\<close> to 0.\<close>

definition reset_ready :: "'a cfs_state_scheme \<Rightarrow> 'a cfs_state_scheme" where
  "reset_ready s = fold (\<lambda>p. upd_se p (\<lambda>e. e\<lparr>se_vruntime := 0\<rparr>)) (ready s) s"

definition reassign_vruntime :: "'a cfs_state_scheme \<Rightarrow> 'a cfs_state_scheme option" where
  "reassign_vruntime s = do {
     s \<leftarrow> Some (reset_ready s);
     leftmost \<leftarrow> rb_next (rq_leftmost (rq s)) (rq_tree (rq s));
     Some (upd_rq (\<lambda>q. q\<lparr>rq_leftmost := leftmost, rq_min_vruntime := 0\<rparr>) s)
   }"

text \<open>\<open>INIT_CFS_RQ\<close> leaves \<open>min_vruntime\<close>, \<open>NEED_SCHED\<close> and the nodes as they are.\<close>

definition INIT_CFS_RQ :: "cfs_rq \<Rightarrow> cfs_rq" where
  "INIT_CFS_RQ q = q\<lparr>rq_inv_weight := 0, rq_weight := 0, rq_nr_running := 0, rq_exec_clock := 0,
     rq_leftmost := NULL, rq_cur := NULL, rq_tree := wr_root NULL (rq_tree q)\<rparr>"

section \<open>Time accounting\<close>

definition update_min_vruntime :: "'a cfs_state_scheme \<Rightarrow> 'a cfs_state_scheme option" where
  "update_min_vruntime s = do {
     leftmost \<leftarrow> rb_first (rq_tree (rq s));
     s \<leftarrow> Some (upd_rq (\<lambda>q. q\<lparr>rq_leftmost := leftmost\<rparr>) s);
     let cur = rq_cur (rq s);
     let on = (cur \<noteq> NULL \<and> se_on_rq (ses s cur));
     let vruntime = (if on then vr s cur else rq_min_vruntime (rq s));
     let vruntime = (if leftmost \<noteq> NULL
       then if \<not> on then vr s leftmost else min_vruntime vruntime (vr s leftmost)
       else vruntime);
     Some (upd_rq (\<lambda>q. q\<lparr>rq_min_vruntime := max_vruntime (rq_min_vruntime q) vruntime\<rparr>) s)
   }"

definition charge :: "u32 \<Rightarrow> u32 \<Rightarrow> sched_entity \<Rightarrow> sched_entity" where
  "charge delta vruntime_delta e =
     e\<lparr>se_sum_exec := se_sum_exec e + delta,
       se_vruntime := (if se_vruntime e + vruntime_delta \<ge> U32_MAX then U32_MAX else se_vruntime e + vruntime_delta)\<rparr>"

definition update_curr :: "u32 \<Rightarrow> 'a cfs_state_scheme \<Rightarrow> 'a cfs_state_scheme option" where
  "update_curr delta s = do {
     let cur = rq_cur (rq s);
     if cur = NULL then Some s
     else do {
       vruntime_delta \<leftarrow> calc_delta_fair delta (ses s cur);
       s \<leftarrow> Some (upd_se cur (charge delta vruntime_delta) s);
       s \<leftarrow> dequeue_entity cur s;
       s \<leftarrow> enqueue_entity cur s;
       s \<leftarrow> update_min_vruntime s;
       if rq_min_vruntime (rq s) + 10 \<ge> U32_MAX then reassign_vruntime s else Some s
     }
   }"

section \<open>Tasks entering and leaving the run queue\<close>

definition enqueue_task_fair :: "nat \<Rightarrow> 'a cfs_state_scheme \<Rightarrow> 'a cfs_state_scheme option" where
  "enqueue_task_fair p s = do {
     s \<leftarrow> enqueue_entity p s;
     s \<leftarrow> Some (upd_rq (\<lambda>q. q\<lparr>rq_weight := update_load_add (rq_weight q) (se_weight (ses s p))\<rparr>) s);
     s \<leftarrow> Some (upd_rq (add_nr_running 1) s);
     Some (upd_se p (\<lambda>e. e\<lparr>se_on_rq := True\<rparr>) s)
   }"

definition dequeue_task_fair :: "nat \<Rightarrow> 'a cfs_state_scheme \<Rightarrow> 'a cfs_state_scheme option" where
  "dequeue_task_fair p s = do {
     s \<leftarrow> dequeue_entity p s;
     s \<leftarrow> Some (upd_rq (\<lambda>q. q\<lparr>rq_weight := update_load_sub (rq_weight q) (se_weight (ses s p))\<rparr>) s);
     s \<leftarrow> Some (upd_rq (sub_nr_running 1) s);
     Some (upd_se p (\<lambda>e. e\<lparr>se_on_rq := False\<rparr>) s)
   }"

text \<open>
  \<open>pick_next_task_fair\<close> applies \<open>container_of\<close> to the leftmost entity without testing it: with an empty
  timeline the result is not the address of any task, so there is no result.
\<close>

definition pick_next_entity :: "'a cfs_state_scheme \<Rightarrow> nat" where
  "pick_next_entity s = rq_leftmost (rq s)"

definition pick_next_task_fair :: "'a cfs_state_scheme \<Rightarrow> nat option" where
  "pick_next_task_fair s = do { _ \<leftarrow> c_guard (pick_next_entity s \<noteq> NULL); Some (pick_next_entity s) }"

section \<open>Time slices and preemption\<close>

definition sched_period :: "u32 \<Rightarrow> u32" where
  "sched_period nr_running =
     (if nr_running > sysctl_sched_nr_latency then nr_running * sysctl_sched_min_granularity_ns else sysctl_sched_latency)"

definition normalize_ticks :: "u32 \<Rightarrow> u32" where
  "normalize_ticks ticks = ticks div sysctl_sched_time_unit"

definition sched_slice :: "nat \<Rightarrow> 'a cfs_state_scheme \<Rightarrow> u32 option" where
  "sched_slice se s = do {
     let e = ses s se;
     let period = normalize_ticks (sched_period (rq_nr_running (rq s) + (if se_on_rq e then 0 else 1)));
     let load = (if se_on_rq e then rq_weight (rq s) else update_load_add (rq_weight (rq s)) (se_weight e));
     calc_delta period (se_weight e) load
   }"

definition check_preempt_tick :: "nat \<Rightarrow> 'a cfs_state_scheme \<Rightarrow> 'a cfs_state_scheme option" where
  "check_preempt_tick cur s = do {
     ideal_runtime \<leftarrow> sched_slice cur s;
     let delta_exec = se_sum_exec (ses s cur) - se_prev_sum_exec (ses s cur);
     Some (if delta_exec > ideal_runtime then upd_rq (\<lambda>q. q\<lparr>rq_need_sched := True\<rparr>) s else s)
   }"

text \<open>The comparison \<open>vdiff > gran\<close> is between \<open>s32\<close> and \<open>u32\<close>, hence unsigned.\<close>

definition check_preempt_wakeup :: "nat \<Rightarrow> 'a cfs_state_scheme \<Rightarrow> 'a cfs_state_scheme option" where
  "check_preempt_wakeup p s = do {
     let cur = rq_cur (rq s);
     if cur = p then Some s
     else do {
       _ \<leftarrow> c_guard (cur \<noteq> NULL);
       let vdiff = vr s cur - vr s p;
       if sint vdiff \<le> 0 then Some s
       else do {
         gran \<leftarrow> calc_delta_fair (sysctl_sched_wakeup_granularity div sysctl_sched_time_unit) (ses s p);
         Some (if vdiff > gran then upd_rq (\<lambda>q. q\<lparr>rq_need_sched := True\<rparr>) s else s)
       }
     }
   }"

section \<open>Comparison of virtual times\<close>

lemma sint_diff:
  assumes "a \<le> U32_MAX" "b \<le> U32_MAX"
  shows "sint (a - b) = uint a - uint b"
proof -
  have u: "uint a \<le> 2147483647" "uint b \<le> 2147483647"
    using assms by (simp_all add: U32_MAX_def word_le_def)
  have nn: "0 \<le> uint a" "0 \<le> uint b" by simp_all
  have "a - b = word_of_int (uint a - uint b)" by simp
  then have "sint (a - b) = signed_take_bit 31 (uint a - uint b)" by (simp only: signed_of_int) simp
  also have "\<dots> = uint a - uint b"
  proof (rule signed_take_bit_int_eq_self)
    have "- 2147483648 \<le> uint a - uint b" "uint a - uint b < 2147483648" using u nn by linarith+
    then show "- (2 ^ 31) \<le> uint a - uint b" "uint a - uint b < 2 ^ 31" by simp_all
  qed
  finally show ?thesis .
qed

lemma entity_before_iff: "a \<le> U32_MAX \<Longrightarrow> b \<le> U32_MAX \<Longrightarrow> entity_before a b \<longleftrightarrow> a < b"
  by (simp add: entity_before_def sint_diff word_less_def)

lemma min_vruntime_eq: "m \<le> U32_MAX \<Longrightarrow> v \<le> U32_MAX \<Longrightarrow> min_vruntime m v = min m v"
  by (simp add: min_vruntime_def sint_diff word_less_def min_def word_le_def)

lemma max_vruntime_eq: "m \<le> U32_MAX \<Longrightarrow> v \<le> U32_MAX \<Longrightarrow> max_vruntime m v = max m v"
  by (auto simp: max_vruntime_def sint_diff word_less_def max_def word_le_def word_uint_eq_iff)

section \<open>The descent\<close>

lemma descend_zip:
  assumes "zip_at h c t" "inorder t = us @ vs" "\<forall>u \<in> set us. \<not> lt u" "\<forall>v \<in> set vs. lt v"
  shows "\<exists>k. enqueue_descend lt h (hole_link c) (cparent c) lm = Some (hole_link k, cparent k, lm \<and> us = [])
    \<and> zip_at h k Leaf \<and> plug k Leaf = plug c t \<and> before k = before c @ us \<and> after k = vs @ after c"
  using assms
proof (induction t arbitrary: c us vs lm)
  case Leaf
  then show ?case using get_hole [OF zip_ctx [OF Leaf.prems(1)]]
    by (intro exI [of _ c]) (simp add: enqueue_descend.simps)
next
  case (Node l b x r)
  have get: "rb_get_link (hole_link c) h = Some x" using get_hole [OF zip_ctx [OF Node.prems(1)]] by simp
  have x: "x \<noteq> NULL" using zip_disjoint [OF Node.prems(1), of x] by simp
  show ?case
  proof (cases "lt x")
    case True
    then obtain ws where w: "inorder l = us @ ws" "vs = ws @ x # inorder r"
      using Node.prems(2,3) by (auto simp: append_eq_append_conv2 append_eq_Cons_conv Cons_eq_append_conv)
    have z: "zip_at h (FL b x r # c) l" using Node.prems(1) by (simp add: zip_up)
    have "enqueue_descend lt h (hole_link c) (cparent c) lm = enqueue_descend lt h (hole_link (FL b x r # c)) (cparent (FL b x r # c)) lm"
      using get x True by (subst enqueue_descend.simps) simp
    then show ?thesis using Node.IH(1) [OF z w(1)] Node.prems(3,4) w by auto
  next
    case False
    then obtain ws where w: "us = inorder l @ x # ws" "inorder r = ws @ vs"
      using Node.prems(2,4) by (auto simp: append_eq_append_conv2 append_eq_Cons_conv Cons_eq_append_conv)
    have z: "zip_at h (FR b x l # c) r" using Node.prems(1) by (simp add: zip_up)
    have "enqueue_descend lt h (hole_link c) (cparent c) lm = enqueue_descend lt h (hole_link (FR b x l # c)) (cparent (FR b x l # c)) False"
      using get x False by (subst enqueue_descend.simps) simp
    then show ?thesis using Node.IH(2) [OF z w(2), of False] Node.prems(3,4) w by auto
  qed
qed

text \<open>Insertion into a partitioned sequence.\<close>

lemma enqueue_seq:
  assumes s: "rb_seq (rq_tree (rq s)) (us @ vs)" and p: "p \<noteq> NULL" "p \<notin> set (us @ vs)"
    and us: "\<forall>u \<in> set us. \<not> entity_before (vr s p) (vr s u)" and vs: "\<forall>v \<in> set vs. entity_before (vr s p) (vr s v)"
  shows "\<exists>h'. enqueue_entity p s = Some (upd_rq (\<lambda>q. q\<lparr>rq_leftmost := (if us = [] then p else rq_leftmost q), rq_tree := h'\<rparr>) s)
    \<and> rb_seq h' (us @ p # vs)"
proof -
  obtain t where t: "zip_at (rq_tree (rq s)) [] t" "rb_valid t" "inorder t = us @ vs" using s unfolding rb_seq_def by blast
  obtain k where k: "enqueue_descend (\<lambda>n. entity_before (vr s p) (vr s n)) (rq_tree (rq s)) (hole_link []) (cparent []) True
      = Some (hole_link k, cparent k, us = [])"
    "zip_at (rq_tree (rq s)) k Leaf" "plug k Leaf = t" "before k = us" "after k = vs"
    using descend_zip [OF t(1,3), of "\<lambda>n. entity_before (vr s p) (vr s n)" True] us vs by auto
  obtain h' where h': "do { h \<leftarrow> rb_link_node p (cparent k) (hole_link k) (rq_tree (rq s)); rb_insert_color p h } = Some h'"
    "rb_seq h' (us @ p # vs)"
    using insert_zip [OF k(2), of p] t(2) k p by auto
  obtain h1 where "rb_link_node p (cparent k) (hole_link k) (rq_tree (rq s)) = Some h1" "rb_insert_color p h1 = Some h'"
    using h'(1) by (auto simp: bind_Some_iff)
  then show ?thesis using k(1) h'(2)
    by (intro exI [of _ h']) (simp add: enqueue_entity_def upd_rq_def)
qed

section \<open>The run queue invariant\<close>

definition timeline :: "'a cfs_state_scheme \<Rightarrow> nat list \<Rightarrow> bool" where
  "timeline s xs \<longleftrightarrow> rb_seq (rq_tree (rq s)) xs \<and> sorted (map (vr s) xs) \<and> (\<forall>x \<in> set xs. vr s x \<le> U32_MAX)"

definition rq_inv :: "'a cfs_state_scheme \<Rightarrow> nat list \<Rightarrow> bool" where
  "rq_inv s xs \<longleftrightarrow> timeline s xs \<and> rq_leftmost (rq s) = first_or_null xs
     \<and> rq_nr_running (rq s) = of_nat (List.length xs)
     \<and> rq_weight (rq s) = sum_list (map (\<lambda>x. se_weight (ses s x)) xs)
     \<and> (\<forall>x. se_on_rq (ses s x) \<longleftrightarrow> x \<in> set xs)"

text \<open>The place of a task: after all tasks with the same or a smaller virtual time.\<close>

definition vr_insert :: "(nat \<Rightarrow> u32) \<Rightarrow> nat \<Rightarrow> nat list \<Rightarrow> nat list" where
  "vr_insert f p xs = takeWhile (\<lambda>x. f x \<le> f p) xs @ p # dropWhile (\<lambda>x. f x \<le> f p) xs"

lemma mset_vr_insert [simp]: "mset (vr_insert f p xs) = add_mset p (mset xs)"
proof -
  have "mset xs = mset (takeWhile (\<lambda>x. f x \<le> f p) xs) + mset (dropWhile (\<lambda>x. f x \<le> f p) xs)"
    by (metis mset_append takeWhile_dropWhile_id)
  then show ?thesis by (simp add: vr_insert_def)
qed

lemma set_vr_insert [simp]: "set (vr_insert f p xs) = insert p (set xs)" "vr_insert f p xs \<noteq> []"
  "List.length (vr_insert f p xs) = Suc (List.length xs)"
  by (metis mset_vr_insert set_mset_add_mset_insert set_mset_mset, simp add: vr_insert_def,
      metis mset_vr_insert size_add_mset size_mset)

lemma takeWhile_greater: "sorted (map f xs) \<Longrightarrow> v \<in> set (dropWhile (\<lambda>x. f x \<le> k) xs) \<Longrightarrow> \<not> f v \<le> k"
  for f :: "'a \<Rightarrow> 'b :: linorder"
  by (induction xs) (auto split: if_splits)

lemma sorted_vr_insert: "sorted (map f xs) \<Longrightarrow> sorted (map f (vr_insert f p xs))"
proof (induction xs)
  case (Cons x xs)
  then show ?case by (auto simp: vr_insert_def dest!: set_takeWhileD set_dropWhileD)
qed (simp add: vr_insert_def)

lemma remove1_vr_insert: "p \<notin> set xs \<Longrightarrow> remove1 p (vr_insert f p xs) = xs"
proof -
  assume "p \<notin> set xs"
  then have "p \<notin> set (takeWhile (\<lambda>x. f x \<le> f p) xs)" by (auto dest: set_takeWhileD)
  then show ?thesis by (simp add: vr_insert_def remove1_append)
qed

lemma vr_insert_cong: "(\<And>x. x \<in> insert p (set xs) \<Longrightarrow> f x = g x) \<Longrightarrow> vr_insert f p xs = vr_insert g p xs"
  unfolding vr_insert_def by (simp cong: takeWhile_cong dropWhile_cong)

lemma enqueue_timeline:
  assumes t: "timeline s xs" and p: "p \<noteq> NULL" "p \<notin> set xs" "vr s p \<le> U32_MAX"
    and l: "rq_leftmost (rq s) = first_or_null xs"
  shows "\<exists>h'. enqueue_entity p s = Some (upd_rq (\<lambda>q. q\<lparr>rq_leftmost := first_or_null (vr_insert (vr s) p xs), rq_tree := h'\<rparr>) s)
    \<and> rb_seq h' (vr_insert (vr s) p xs)"
proof -
  let ?P = "\<lambda>x. vr s x \<le> vr s p"
  let ?us = "takeWhile ?P xs" and ?vs = "dropWhile ?P xs"
  have le: "\<forall>x \<in> set xs. vr s x \<le> U32_MAX" using t by (simp add: timeline_def)
  have "\<exists>h'. enqueue_entity p s = Some (upd_rq (\<lambda>q. q\<lparr>rq_leftmost := (if ?us = [] then p else rq_leftmost q), rq_tree := h'\<rparr>) s)
    \<and> rb_seq h' (?us @ p # ?vs)"
  proof (rule enqueue_seq)
    show "rb_seq (rq_tree (rq s)) (?us @ ?vs)" using t by (simp add: timeline_def)
    show "\<forall>u \<in> set ?us. \<not> entity_before (vr s p) (vr s u)"
      using le p by (auto simp: entity_before_iff not_less dest: set_takeWhileD)
    show "\<forall>v \<in> set ?vs. entity_before (vr s p) (vr s v)"
    proof
      fix v assume v: "v \<in> set ?vs"
      then have "vr s v \<le> U32_MAX" using le set_dropWhileD by fastforce
      then show "entity_before (vr s p) (vr s v)"
        using takeWhile_greater [of "vr s" xs v "vr s p"] v t p(3) by (simp add: entity_before_iff timeline_def not_le)
    qed
  qed (use p in simp_all)
  moreover have "?us \<noteq> [] \<Longrightarrow> first_or_null xs = List.hd ?us" by (cases xs) (auto split: if_splits)
  ultimately show ?thesis using l unfolding vr_insert_def upd_rq_def by auto
qed

lemma dequeue_timeline:
  assumes t: "rb_seq (rq_tree (rq s)) xs" and p: "p \<in> set xs" and l: "rq_leftmost (rq s) = first_or_null xs"
  shows "\<exists>h'. dequeue_entity p s = Some (upd_rq (\<lambda>q. q\<lparr>rq_leftmost := first_or_null (remove1 p xs), rq_tree := h'\<rparr>) s)
    \<and> rb_seq h' (remove1 p xs)"
  using rbq.erase_member [OF t p] rbq.cached_first [OF t p] l
  by (auto simp: dequeue_entity_def split: if_splits)

lemma sorted_hd_Min:
  assumes "sorted (map f xs)" "xs \<noteq> []"
  shows "f (List.hd xs) = Min (f ` set xs)"
  using assms by (cases xs) (auto intro!: Min_eqI [symmetric])

lemma timeline_hd: "timeline s xs \<Longrightarrow> x \<in> set xs \<Longrightarrow> vr s (first_or_null xs) \<le> vr s x"
  by (cases xs) (auto simp: timeline_def)

lemma update_min_timeline:
  assumes t: "timeline s xs" and on: "\<forall>x. se_on_rq (ses s x) \<longleftrightarrow> x \<in> set xs" and m: "rq_min_vruntime (rq s) \<le> U32_MAX"
    and xs: "xs \<noteq> []"
  shows "update_min_vruntime s = Some (upd_rq (\<lambda>q. q\<lparr>rq_leftmost := first_or_null xs,
    rq_min_vruntime := max (rq_min_vruntime (rq s)) (Min (vr s ` set xs))\<rparr>) s)"
proof -
  have f: "rb_first (rq_tree (rq s)) = Some (first_or_null xs)" using t rbq.law_first by (simp add: timeline_def)
  have mem: "first_or_null xs \<in> set xs" "first_or_null xs \<noteq> NULL"
    using xs rbq.law_distinct [of "rq_tree (rq s)" xs] t by (cases xs; auto simp: timeline_def)+
  have le: "x \<in> set xs \<Longrightarrow> vr s x \<le> U32_MAX" for x using t by (simp add: timeline_def)
  have "Min (vr s ` set xs) = vr s (first_or_null xs)"
    using sorted_hd_Min [of "vr s" xs] t xs by (simp add: timeline_def first_or_null_hd)
  moreover have "rq_cur (rq s) \<in> set xs \<Longrightarrow> min_vruntime (vr s (rq_cur (rq s))) (vr s (first_or_null xs)) = vr s (first_or_null xs)"
    using timeline_hd [OF t] le mem by (simp add: min_vruntime_eq min_absorb2)
  ultimately show ?thesis
    using f mem on max_vruntime_eq [OF m le [OF mem(1)]] rbq.law_distinct [of "rq_tree (rq s)" xs] t
    by (auto simp: update_min_vruntime_def Let_def upd_rq_def timeline_def)
qed

section \<open>The operations keep the invariant\<close>

lemma timelineD:
  "timeline s xs \<Longrightarrow> rb_seq (rq_tree (rq s)) xs" "timeline s xs \<Longrightarrow> sorted (map (vr s) xs)"
  "timeline s xs \<Longrightarrow> distinct xs" "timeline s xs \<Longrightarrow> NULL \<notin> set xs"
  "timeline s xs \<Longrightarrow> x \<in> set xs \<Longrightarrow> vr s x \<le> U32_MAX"
  using rbq.law_distinct by (auto simp: timeline_def)

lemma rq_invD:
  "rq_inv s xs \<Longrightarrow> timeline s xs" "rq_inv s xs \<Longrightarrow> rq_leftmost (rq s) = first_or_null xs"
  "rq_inv s xs \<Longrightarrow> rq_nr_running (rq s) = of_nat (List.length xs)"
  "rq_inv s xs \<Longrightarrow> rq_weight (rq s) = sum_list (map (\<lambda>x. se_weight (ses s x)) xs)"
  "rq_inv s xs \<Longrightarrow> se_on_rq (ses s x) \<longleftrightarrow> x \<in> set xs"
  by (simp_all add: rq_inv_def)

lemma sum_list_mset_cong: "mset xs = mset ys \<Longrightarrow> sum_list (map f xs) = sum_list (map f ys)" for f :: "'a \<Rightarrow> u32"
  by (metis mset_map sum_mset_sum_list)

lemma enqueue_task_inv:
  assumes i: "rq_inv s xs" and p: "p \<noteq> NULL" "p \<notin> set xs" "vr s p \<le> U32_MAX"
  shows "\<exists>s'. enqueue_task_fair p s = Some s' \<and> rq_inv s' (vr_insert (vr s) p xs)
    \<and> ses s' = (ses s)(p := (ses s p)\<lparr>se_on_rq := True\<rparr>) \<and> ready s' = ready s \<and> more s' = more s
    \<and> rq_cur (rq s') = rq_cur (rq s) \<and> rq_min_vruntime (rq s') = rq_min_vruntime (rq s) \<and> rq_need_sched (rq s') = rq_need_sched (rq s)"
proof -
  let ?ys = "vr_insert (vr s) p xs"
  obtain h' where h': "enqueue_entity p s = Some (upd_rq (\<lambda>q. q\<lparr>rq_leftmost := first_or_null ?ys, rq_tree := h'\<rparr>) s)"
    "rb_seq h' ?ys"
    using enqueue_timeline [OF rq_invD(1) [OF i] p rq_invD(2) [OF i]] by blast
  let ?s = "upd_se p (\<lambda>e. e\<lparr>se_on_rq := True\<rparr>) (upd_rq (add_nr_running 1)
    (upd_rq (\<lambda>q. q\<lparr>rq_weight := update_load_add (rq_weight q) (se_weight (ses s p))\<rparr>)
    (upd_rq (\<lambda>q. q\<lparr>rq_leftmost := first_or_null ?ys, rq_tree := h'\<rparr>) s)))"
  have run: "enqueue_task_fair p s = Some ?s" using h'(1) by (simp add: enqueue_task_fair_def)
  have vr: "vr ?s = vr s" by (rule ext) simp
  have w: "(\<lambda>x. se_weight (ses ?s x)) = (\<lambda>x. se_weight (ses s x))" by (rule ext) simp
  have "sum_list (map (\<lambda>x. se_weight (ses s x)) ?ys) = sum_list (map (\<lambda>x. se_weight (ses s x)) (p # xs))"
    by (rule sum_list_mset_cong) simp
  then have "rq_weight (rq ?s) = sum_list (map (\<lambda>x. se_weight (ses ?s x)) ?ys)"
    using rq_invD(4) [OF i] unfolding w by (simp add: add_nr_running_def update_load_add_def add.commute)
  moreover have "timeline ?s ?ys"
    using sorted_vr_insert [OF timelineD(2) [OF rq_invD(1) [OF i]], of p] timelineD(5) [OF rq_invD(1) [OF i]] p(3) h'(2)
    unfolding timeline_def vr by (auto simp: add_nr_running_def)
  moreover have "rq_nr_running (rq ?s) = of_nat (List.length ?ys)"
    using rq_invD(3) [OF i] by (simp add: add_nr_running_def)
  moreover have "\<forall>x. se_on_rq (ses ?s x) \<longleftrightarrow> x \<in> set ?ys" using rq_invD(5) [OF i] by simp
  moreover have "rq_leftmost (rq ?s) = first_or_null ?ys" by (simp add: add_nr_running_def)
  ultimately have "rq_inv ?s ?ys" unfolding rq_inv_def by blast
  then show ?thesis using run by (intro exI [of _ ?s]) (simp add: add_nr_running_def)
qed

lemma dequeue_task_inv:
  assumes i: "rq_inv s xs" and p: "p \<in> set xs"
  shows "\<exists>s'. dequeue_task_fair p s = Some s' \<and> rq_inv s' (remove1 p xs)
    \<and> ses s' = (ses s)(p := (ses s p)\<lparr>se_on_rq := False\<rparr>) \<and> ready s' = ready s \<and> more s' = more s
    \<and> rq_cur (rq s') = rq_cur (rq s) \<and> rq_min_vruntime (rq s') = rq_min_vruntime (rq s) \<and> rq_need_sched (rq s') = rq_need_sched (rq s)"
proof -
  let ?ys = "remove1 p xs"
  obtain h' where h': "dequeue_entity p s = Some (upd_rq (\<lambda>q. q\<lparr>rq_leftmost := first_or_null ?ys, rq_tree := h'\<rparr>) s)"
    "rb_seq h' ?ys"
    using dequeue_timeline [OF timelineD(1) [OF rq_invD(1) [OF i]] p rq_invD(2) [OF i]] by blast
  let ?s = "upd_se p (\<lambda>e. e\<lparr>se_on_rq := False\<rparr>) (upd_rq (sub_nr_running 1)
    (upd_rq (\<lambda>q. q\<lparr>rq_weight := update_load_sub (rq_weight q) (se_weight (ses s p))\<rparr>)
    (upd_rq (\<lambda>q. q\<lparr>rq_leftmost := first_or_null ?ys, rq_tree := h'\<rparr>) s)))"
  have run: "dequeue_task_fair p s = Some ?s" using h'(1) by (simp add: dequeue_task_fair_def)
  have d: "distinct xs" using timelineD(3) [OF rq_invD(1) [OF i]] .
  have vr: "vr ?s = vr s" by (rule ext) simp
  have w: "(\<lambda>x. se_weight (ses ?s x)) = (\<lambda>x. se_weight (ses s x))" by (rule ext) simp
  have "sum_list (map (\<lambda>x. se_weight (ses s x)) xs) = sum_list (map (\<lambda>x. se_weight (ses s x)) (p # ?ys))"
    by (rule sum_list_mset_cong) (use p in simp)
  then have "rq_weight (rq ?s) = sum_list (map (\<lambda>x. se_weight (ses ?s x)) ?ys)"
    using rq_invD(4) [OF i] unfolding w by (simp add: sub_nr_running_def update_load_sub_def)
  moreover have "timeline ?s ?ys"
    using sorted_map_remove1 [OF timelineD(2) [OF rq_invD(1) [OF i]], of p] timelineD(5) [OF rq_invD(1) [OF i]] h'(2)
    unfolding timeline_def vr by (auto simp: sub_nr_running_def dest: notin_set_remove1 in_set_remove1 [THEN iffD1] set_remove1_subset [THEN subsetD])
  moreover have "rq_nr_running (rq ?s) = of_nat (List.length ?ys)"
  proof -
    have "List.length xs = Suc (List.length ?ys)" using p length_pos_if_in_set [OF p] by (simp add: length_remove1)
    then show ?thesis using rq_invD(3) [OF i] by (simp add: sub_nr_running_def)
  qed
  moreover have "\<forall>x. se_on_rq (ses ?s x) \<longleftrightarrow> x \<in> set ?ys" using rq_invD(5) [OF i] d by (auto simp: set_remove1_eq)
  moreover have "rq_leftmost (rq ?s) = first_or_null ?ys" by (simp add: sub_nr_running_def)
  ultimately have "rq_inv ?s ?ys" unfolding rq_inv_def by blast
  then show ?thesis using run by (intro exI [of _ ?s]) (simp add: sub_nr_running_def)
qed

lemma update_min_inv:
  assumes i: "rq_inv s xs" and m: "rq_min_vruntime (rq s) \<le> U32_MAX" and xs: "xs \<noteq> []"
  shows "\<exists>s'. update_min_vruntime s = Some s' \<and> rq_inv s' xs
    \<and> s' = upd_rq (\<lambda>q. q\<lparr>rq_leftmost := first_or_null xs, rq_min_vruntime := max (rq_min_vruntime (rq s)) (Min (vr s ` set xs))\<rparr>) s"
  using update_min_timeline [OF rq_invD(1) [OF i] _ m xs] rq_invD [OF i]
  by (simp add: rq_inv_def timeline_def)

text \<open>The charge to the running task, up to the test for the overflow of all virtual times.\<close>

lemma charge_bound: "se_vruntime (charge delta d e) \<le> U32_MAX"
  by (auto simp: charge_def not_le)

lemma update_curr_steps:
  assumes i: "rq_inv s xs" and m: "rq_min_vruntime (rq s) \<le> U32_MAX" and c: "rq_cur (rq s) \<in> set xs"
    and d: "calc_delta_fair delta (ses s (rq_cur (rq s))) = Some d"
  defines "cur \<equiv> rq_cur (rq s)"
  defines "f \<equiv> (ses s)(cur := charge delta d (ses s cur))"
  defines "ys \<equiv> vr_insert (\<lambda>x. se_vruntime (f x)) cur (remove1 cur xs)"
  defines "mv \<equiv> max (rq_min_vruntime (rq s)) (Min ((\<lambda>x. se_vruntime (f x)) ` set xs))"
  shows "\<exists>s'. rq_inv s' ys \<and> ses s' = f \<and> rq_min_vruntime (rq s') = mv \<and> ready s' = ready s \<and> more s' = more s
    \<and> rq_cur (rq s') = cur \<and> rq_need_sched (rq s') = rq_need_sched (rq s)
    \<and> update_curr delta s = (if mv + 10 \<ge> U32_MAX then reassign_vruntime s' else Some s')"
proof -
  let ?s1 = "upd_se cur (charge delta d) s"
  have t: "timeline s xs" using rq_invD(1) [OF i] .
  have c0: "cur \<noteq> NULL" "cur \<in> set xs" using c timelineD(4) [OF t] by (auto simp: cur_def intro!: gr0I)
  have dist: "distinct xs" using timelineD(3) [OF t] .
  have f1: "ses ?s1 = f" by (simp add: f_def)
  obtain h1 where h1: "dequeue_entity cur ?s1 = Some (upd_rq (\<lambda>q. q\<lparr>rq_leftmost := first_or_null (remove1 cur xs), rq_tree := h1\<rparr>) ?s1)"
    "rb_seq h1 (remove1 cur xs)"
    using dequeue_timeline [of ?s1 xs cur] timelineD(1) [OF t] c0 rq_invD(2) [OF i] by auto
  let ?s2 = "upd_rq (\<lambda>q. q\<lparr>rq_leftmost := first_or_null (remove1 cur xs), rq_tree := h1\<rparr>) ?s1"
  have vr2: "vr ?s2 = (\<lambda>x. se_vruntime (f x))" by (rule ext) (simp add: f_def)
  have out: "cur \<notin> set (remove1 cur xs)" using dist by simp
  have m2: "map (vr ?s2) (remove1 cur xs) = map (vr s) (remove1 cur xs)"
    using out by (auto simp: f_def)
  have "\<forall>x \<in> set (remove1 cur xs). vr ?s2 x \<le> U32_MAX" using timelineD(5) [OF t] out dist by auto
  moreover have "rb_seq (rq_tree (rq ?s2)) (remove1 cur xs)" using h1(2) by simp
  ultimately have t2: "timeline ?s2 (remove1 cur xs)"
    unfolding timeline_def m2 using sorted_map_remove1 [OF timelineD(2) [OF t], of cur] by blast
  obtain h2 where h2: "enqueue_entity cur ?s2 = Some (upd_rq (\<lambda>q. q\<lparr>rq_leftmost := first_or_null ys, rq_tree := h2\<rparr>) ?s2)"
    "rb_seq h2 ys"
    using enqueue_timeline [OF t2 c0(1) out] charge_bound [of delta d "ses s cur"] unfolding vr2 ys_def by (auto simp: f_def)
  let ?s3 = "upd_rq (\<lambda>q. q\<lparr>rq_leftmost := first_or_null ys, rq_tree := h2\<rparr>) ?s2"
  have vr3: "vr ?s3 = (\<lambda>x. se_vruntime (f x))" by (rule ext) (simp add: f_def)
  have sety: "set ys = set xs" using c0 dist by (auto simp: ys_def)
  have msy: "mset ys = mset xs" using c0 by (simp add: ys_def)
  have "timeline ?s3 ys"
    using h2(2) sorted_vr_insert [OF timelineD(2) [OF t2], of cur] timelineD(5) [OF t2] charge_bound [of delta d "ses s cur"] dist
    unfolding timeline_def vr3 vr2 by (auto simp: ys_def f_def)
  moreover have w: "(\<lambda>x. se_weight (ses ?s3 x)) = (\<lambda>x. se_weight (ses s x))" by (rule ext) (simp add: charge_def)
  have "rq_weight (rq ?s3) = sum_list (map (\<lambda>x. se_weight (ses ?s3 x)) ys)"
    unfolding w using rq_invD(4) [OF i] sum_list_mset_cong [OF msy] by simp
  moreover have "rq_nr_running (rq ?s3) = of_nat (List.length ys)"
    using rq_invD(3) [OF i] mset_eq_length [OF msy] by simp
  moreover have "\<forall>x. se_on_rq (ses ?s3 x) \<longleftrightarrow> x \<in> set ys" using rq_invD(5) [OF i] sety by (auto simp: charge_def)
  moreover have "rq_leftmost (rq ?s3) = first_or_null ys" by simp
  ultimately have i3: "rq_inv ?s3 ys" unfolding rq_inv_def by blast
  have m3: "rq_min_vruntime (rq ?s3) \<le> U32_MAX" and y: "ys \<noteq> []" using m by (simp_all add: ys_def)
  obtain s' where s': "update_min_vruntime ?s3 = Some s'" "rq_inv s' ys"
    "s' = upd_rq (\<lambda>q. q\<lparr>rq_leftmost := first_or_null ys, rq_min_vruntime := max (rq_min_vruntime (rq ?s3)) (Min (vr ?s3 ` set ys))\<rparr>) ?s3"
    using update_min_inv [OF i3 m3 y] by blast
  have mv: "rq_min_vruntime (rq s') = mv" unfolding s'(3) vr3 sety by (simp add: mv_def)
  have "update_curr delta s = (if mv + 10 \<ge> U32_MAX then reassign_vruntime s' else Some s')"
    using c0 d h1(1) h2(1) s'(1) mv by (simp add: update_curr_def cur_def)
  then show ?thesis using s'(2) mv unfolding s'(3) by (intro exI [of _ s']) (simp add: s'(3) f_def cur_def)
qed

lemma reset_ready_fields:
  "rq (reset_ready s) = rq s \<and> ready (reset_ready s) = ready s \<and> more (reset_ready s) = more s
    \<and> ses (reset_ready s) = (\<lambda>p. if p \<in> set (ready s) then (ses s p)\<lparr>se_vruntime := 0\<rparr> else ses s p)"
proof -
  have "rq s' = rq s \<and> ready s' = ready s \<and> more s' = more s
      \<and> ses s' = (\<lambda>p. if p \<in> set ps then (ses s p)\<lparr>se_vruntime := 0\<rparr> else ses s p)"
    if "s' = fold (\<lambda>p. upd_se p (\<lambda>e. e\<lparr>se_vruntime := 0\<rparr>)) ps s" for ps s'
    using that by (induction ps arbitrary: s' rule: rev_induct) (auto simp: fun_eq_iff)
  then show ?thesis unfolding reset_ready_def by blast
qed

lemma reassign_steps:
  assumes i: "rq_inv s xs" and r: "set xs \<subseteq> set (ready s)" and xs: "xs \<noteq> []"
  shows "\<exists>s'. reassign_vruntime s = Some s' \<and> timeline s' xs \<and> rq_leftmost (rq s') = first_or_null (tl xs)
    \<and> rq_min_vruntime (rq s') = 0 \<and> (\<forall>x \<in> set xs. vr s' x = 0)"
proof -
  obtain y ys where xs': "xs = y # ys" using xs by (cases xs) auto
  have n: "rb_next y (rq_tree (rq s)) = Some (first_or_null ys)"
    using rbq.law_next [of _ "[]" y ys] timelineD(1) [OF rq_invD(1) [OF i]] xs' by simp
  let ?s' = "upd_rq (\<lambda>q. q\<lparr>rq_leftmost := first_or_null ys, rq_min_vruntime := 0\<rparr>) (reset_ready s)"
  have z: "\<forall>x \<in> set xs. vr ?s' x = 0" using reset_ready_fields [of s] r by auto
  then have m: "map (vr ?s') xs = replicate (List.length xs) 0" by (intro replicate_eqI) auto
  have "sorted (map (vr ?s') xs)" unfolding m by simp
  moreover have "rb_seq (rq_tree (rq ?s')) xs"
    using timelineD(1) [OF rq_invD(1) [OF i]] reset_ready_fields [of s] by simp
  ultimately have "timeline ?s' xs" using z by (simp add: timeline_def)
  moreover have "reassign_vruntime s = Some ?s'"
    using n rq_invD(2) [OF i] reset_ready_fields [of s] xs' by (simp add: reassign_vruntime_def)
  ultimately show ?thesis using z xs' by (intro exI [of _ ?s']) simp
qed

section \<open>Time slices\<close>

lemma slice_bound:
  assumes "W \<noteq> 0" "unat P * unat w < 2 ^ 32"
  shows "\<exists>v. calc_delta P w W = Some v \<and> unat v = unat P * unat w div unat W"
proof -
  have "unat (P * w) = unat P * unat w" using assms(2) unat_mult_lem [of P w] by simp
  then show ?thesis using assms(1) by (simp add: calc_delta_def unat_div)
qed

lemma div_add_le: "a div W + b div W \<le> (a + b) div W" for W :: nat
proof (cases "W = 0")
  case False
  have "(a div W + b div W) * W \<le> a + b"
    by (simp add: add_mult_distrib add_mono div_times_less_eq_dividend)
  then show ?thesis using False by (simp add: less_eq_div_iff_mult_less_eq)
qed simp

lemma sum_div_le: "(\<Sum>x\<leftarrow>xs. g x div W) \<le> sum_list (map g xs) div W" for W :: nat
proof (induction xs)
  case (Cons x xs)
  then show ?case using div_add_le [of "g x" W "sum_list (map g xs)"] by simp
qed simp

lemma unat_sum_list: "(\<Sum>x\<leftarrow>xs. unat (w x)) < 2 ^ 32 \<Longrightarrow> unat (\<Sum>x\<leftarrow>xs. w x :: u32) = (\<Sum>x\<leftarrow>xs. unat (w x))"
  by (induction xs) (simp_all add: unat_plus_if')

lemma period_ticks:
  assumes "n \<le> 512"
  shows "unat (normalize_ticks (sched_period (of_nat n))) = (if n > 8 then 60 * n else 480)"
proof -
  have n: "unat (of_nat n :: u32) = n" using assms by (simp add: unat_of_nat)
  have "unat ((of_nat n :: u32) * 1200000) = n * 1200000"
    using unat_mult_lem [of "of_nat n :: u32" 1200000] n assms by simp
  then show ?thesis
    using n by (auto simp: normalize_ticks_def sched_period_def sysctl_sched_nr_latency_def sysctl_sched_latency_def
      sysctl_sched_min_granularity_ns_def sysctl_sched_time_unit_def word_less_nat_alt unat_div)
qed

lemma slice_value:
  assumes i: "rq_inv s xs" and n: "List.length xs \<le> 512" and x: "x \<in> set xs"
    and w: "\<forall>y \<in> set xs. 0 < se_weight (ses s y) \<and> se_weight (ses s y) \<le> 88761"
  shows "\<exists>v. sched_slice x s = Some v \<and> unat v =
    (if List.length xs > 8 then 60 * List.length xs else 480) * unat (se_weight (ses s x)) div (\<Sum>y\<leftarrow>xs. unat (se_weight (ses s y)))"
proof -
  let ?w = "\<lambda>y. unat (se_weight (ses s y))" and ?P = "normalize_ticks (sched_period (rq_nr_running (rq s)))"
  have le: "?w y \<le> 88761" if "y \<in> set xs" for y using w that by (auto simp: word_le_nat_alt)
  have pos: "0 < ?w x" using w x by (auto simp: word_less_nat_alt)
  have "(\<Sum>y\<leftarrow>xs. ?w y) \<le> (\<Sum>y\<leftarrow>xs. 88761)" by (intro sum_list_mono) (use le in auto)
  then have W: "unat (rq_weight (rq s)) = (\<Sum>y\<leftarrow>xs. ?w y)"
    using rq_invD(4) [OF i] unat_sum_list [of "\<lambda>y. se_weight (ses s y)" xs] n by (simp add: sum_list_triv)
  have "?w x \<le> (\<Sum>y\<leftarrow>xs. ?w y)" using x by (intro member_le_sum_list) auto
  then have W0: "rq_weight (rq s) \<noteq> 0" using W pos x by auto
  have P: "unat ?P = (if List.length xs > 8 then 60 * List.length xs else 480)"
    using period_ticks [OF n] rq_invD(3) [OF i] by simp
  have "unat ?P * ?w x \<le> 30720 * 88761" using le [OF x] n P by (intro mult_le_mono) auto
  then have "\<exists>v. calc_delta ?P (se_weight (ses s x)) (rq_weight (rq s)) = Some v \<and> unat v = unat ?P * ?w x div unat (rq_weight (rq s))"
    using W0 by (intro slice_bound) auto
  then show ?thesis using rq_invD(5) [OF i, of x] x unfolding P W by (simp add: sched_slice_def Let_def)
qed

lemma slices_fit:
  assumes i: "rq_inv s xs" and n: "List.length xs \<le> 512" and ne: "xs \<noteq> []"
    and w: "\<forall>y \<in> set xs. 0 < se_weight (ses s y) \<and> se_weight (ses s y) \<le> 88761"
  shows "\<exists>f. (\<forall>x \<in> set xs. sched_slice x s = Some (f x)) \<and> (\<Sum>x\<leftarrow>xs. unat (f x)) \<le> (if List.length xs > 8 then 60 * List.length xs else 480)"
proof -
  define P where "P = (if List.length xs > 8 then 60 * List.length xs else 480)"
  define W where "W = (\<Sum>y\<leftarrow>xs. unat (se_weight (ses s y)))"
  define f where "f = (\<lambda>x. the (sched_slice x s))"
  have f: "sched_slice x s = Some (f x) \<and> unat (f x) = P * unat (se_weight (ses s x)) div W" if "x \<in> set xs" for x
    using slice_value [OF i n that w] by (auto simp: f_def P_def W_def)
  have "(\<Sum>x\<leftarrow>xs. unat (f x)) = (\<Sum>x\<leftarrow>xs. P * unat (se_weight (ses s x)) div W)"
    by (intro arg_cong [where f = sum_list] map_cong) (use f in auto)
  also have "\<dots> \<le> P * W div W" using sum_div_le [of "\<lambda>x. P * unat (se_weight (ses s x))" W xs] by (simp add: W_def sum_list_const_mult)
  also have "\<dots> \<le> P" by (cases "W = 0") auto
  finally show ?thesis using f unfolding P_def by blast
qed

section \<open>Properties\<close>

lemma update_curr_result:
  assumes i: "rq_inv s xs" and m: "rq_min_vruntime (rq s) \<le> U32_MAX" and c: "rq_cur (rq s) = p" "p \<in> set xs"
    and d: "calc_delta_fair delta (ses s p) = Some d" and r: "set xs \<subseteq> set (ready s)"
    and f: "f = (ses s)(p := charge delta d (ses s p))"
    and mv: "mv = max (rq_min_vruntime (rq s)) (Min ((\<lambda>x. se_vruntime (f x)) ` set xs))"
  shows "\<exists>s' ys. update_curr delta s = Some s' \<and> mset ys = mset xs \<and> timeline s' ys \<and>
    (if mv + 10 < U32_MAX
     then rq_inv s' ys \<and> rq_min_vruntime (rq s') = mv \<and> ses s' = f
     else rq_min_vruntime (rq s') = 0 \<and> (\<forall>x \<in> set ys. vr s' x = 0) \<and> rq_leftmost (rq s') = first_or_null (tl ys))"
proof -
  let ?ys = "vr_insert (\<lambda>x. se_vruntime (f x)) p (remove1 p xs)"
  obtain s' where s': "rq_inv s' ?ys" "ses s' = f" "rq_min_vruntime (rq s') = mv" "ready s' = ready s"
    "update_curr delta s = (if mv + 10 \<ge> U32_MAX then reassign_vruntime s' else Some s')"
    using update_curr_steps [OF i m, of delta d] c d unfolding f mv by auto
  have ms: "mset ?ys = mset xs" using c by simp
  have st: "set ?ys \<subseteq> set (ready s')" using r s'(4) mset_eq_setD [OF ms] by simp
  obtain s'' where "reassign_vruntime s' = Some s''" "timeline s'' ?ys" "rq_leftmost (rq s'') = first_or_null (tl ?ys)"
    "rq_min_vruntime (rq s'') = 0" "\<forall>x \<in> set ?ys. vr s'' x = 0"
    using reassign_steps [OF s'(1) st] by auto
  then show ?thesis using s' ms rq_invD(1) [OF s'(1)]
    by (cases "mv + 10 < U32_MAX") (auto simp: not_less intro!: exI [of _ ?ys])
qed

definition sample_cfs :: cfs_state where
  "sample_cfs = \<lparr>rq = \<lparr>rq_nr_running = 2, rq_weight = 2048, rq_inv_weight = 0, rq_exec_clock = 0, rq_min_vruntime = 5,
       rq_tree = sample_rb, rq_leftmost = 8, rq_cur = 8, rq_need_sched = False\<rparr>,
     ses = (\<lambda>p. \<lparr>se_weight = 1024, se_inv_weight = 4194304, se_on_rq = (p = 8 \<or> p = 16),
       se_vruntime = (if p = 8 then 5 else 9), se_sum_exec = 100, se_prev_sum_exec = 40\<rparr>),
     ready = [8, 16]\<rparr>"

lemma sample_cfs_inv: "rq_inv sample_cfs [8, 16]"
  using sample_rb_seq(1) by (simp add: rq_inv_def timeline_def sample_cfs_def U32_MAX_def)

text \<open>C29: update_curr charges the running task, moves it to its place by virtual time (all tasks stay on the queue, in order, with a right leftmost cache) and raises min_vruntime to the smallest virtual time; when min_vruntime is within 10 of U32_MAX, all virtual times are reset to 0 instead, and then the cached leftmost entity is the second one of the queue.\<close>

theorem update_curr_correct:
  assumes "rq_inv s xs" "rq_min_vruntime (rq s) \<le> U32_MAX" "rq_cur (rq s) = p" "p \<in> set xs"
    and "calc_delta_fair delta (ses s p) = Some d" "set xs \<subseteq> set (ready s)"
    and "f = (ses s)(p := charge delta d (ses s p))"
    and "mv = max (rq_min_vruntime (rq s)) (Min ((\<lambda>x. se_vruntime (f x)) ` set xs))"
  shows "\<exists>s' ys. update_curr delta s = Some s' \<and> mset ys = mset xs \<and> timeline s' ys \<and>
    (if mv + 10 < U32_MAX
     then rq_inv s' ys \<and> rq_min_vruntime (rq s') = mv \<and> ses s' = f
     else rq_min_vruntime (rq s') = 0 \<and> (\<forall>x \<in> set ys. vr s' x = 0) \<and> rq_leftmost (rq s') = first_or_null (tl ys))"
  using update_curr_result [OF assms] .

theorem update_curr_correct_witness:
  "\<exists>s' ys. update_curr 60 sample_cfs = Some s' \<and> mset ys = mset [8, 16] \<and> rq_inv s' ys \<and> rq_min_vruntime (rq s') = 9 \<and> vr s' 8 = 65"
proof -
  let ?f = "(ses sample_cfs)(8 := charge 60 60 (ses sample_cfs 8))"
  have mv: "(9 :: u32) = max (rq_min_vruntime (rq sample_cfs)) (Min ((\<lambda>x. se_vruntime (?f x)) ` set [8, 16]))"
    by (simp add: sample_cfs_def charge_def U32_MAX_def)
  have h: "rq_min_vruntime (rq sample_cfs) \<le> U32_MAX" "rq_cur (rq sample_cfs) = 8" "8 \<in> set [8, 16 :: nat]"
    "calc_delta_fair 60 (ses sample_cfs 8) = Some 60" "set [8, 16] \<subseteq> set (ready sample_cfs)"
    by (simp_all add: sample_cfs_def calc_delta_fair_def NICE_0_LOAD_def U32_MAX_def)
  obtain s' ys where r: "update_curr 60 sample_cfs = Some s'" "mset ys = mset [8, 16]"
    "if (9 :: u32) + 10 < U32_MAX then rq_inv s' ys \<and> rq_min_vruntime (rq s') = 9 \<and> ses s' = ?f
     else rq_min_vruntime (rq s') = 0 \<and> (\<forall>x \<in> set ys. vr s' x = 0) \<and> rq_leftmost (rq s') = first_or_null (tl ys)"
    using update_curr_correct [OF sample_cfs_inv h refl mv] by blast
  have "(9 :: u32) + 10 < U32_MAX" by (simp add: U32_MAX_def)
  then have "rq_inv s' ys" "rq_min_vruntime (rq s') = 9" "ses s' = ?f" using r(3) by simp_all
  moreover have "se_vruntime (?f 8) = 65" by (simp add: charge_def sample_cfs_def U32_MAX_def)
  ultimately show ?thesis using r(1,2) by metis
qed

text \<open>C30: a task that enters the run queue goes behind all tasks with the same or less virtual time, and removing it again restores the order, the counters and the leftmost cache.\<close>

theorem enqueue_dequeue_task:
  assumes "rq_inv s xs" "p \<noteq> NULL" "p \<notin> set xs" "vr s p \<le> U32_MAX"
  shows "\<exists>s1 s2. enqueue_task_fair p s = Some s1 \<and> rq_inv s1 (vr_insert (vr s) p xs)
    \<and> dequeue_task_fair p s1 = Some s2 \<and> rq_inv s2 xs \<and> ses s2 = ses s \<and> rq_weight (rq s2) = rq_weight (rq s)"
proof -
  obtain s1 where s1: "enqueue_task_fair p s = Some s1" "rq_inv s1 (vr_insert (vr s) p xs)"
    "ses s1 = (ses s)(p := (ses s p)\<lparr>se_on_rq := True\<rparr>)"
    using enqueue_task_inv [OF assms] by blast
  obtain s2 where s2: "dequeue_task_fair p s1 = Some s2" "rq_inv s2 xs" "ses s2 = (ses s1)(p := (ses s1 p)\<lparr>se_on_rq := False\<rparr>)"
    using dequeue_task_inv [OF s1(2), of p] remove1_vr_insert [OF assms(3)] by auto
  have off: "\<not> se_on_rq (ses s p)" using rq_invD(5) [OF assms(1)] assms(3) by simp
  have "ses s2 = ses s" using off by (simp add: s2(3) s1(3) fun_upd_idem_iff)
  then show ?thesis using s1 s2 rq_invD(4) [OF assms(1)] rq_invD(4) [OF s2(2)]
    by (intro exI [of _ s1] exI [of _ s2]) simp
qed

theorem enqueue_dequeue_task_witness:
  "\<exists>s1 s2. enqueue_task_fair 4 sample_cfs = Some s1 \<and> rq_inv s1 [8, 16, 4] \<and> dequeue_task_fair 4 s1 = Some s2 \<and> rq_inv s2 [8, 16]"
  using enqueue_dequeue_task [OF sample_cfs_inv, of 4]
  by (auto simp: sample_cfs_def U32_MAX_def vr_insert_def)

text \<open>Pick_next_task_fair gives a task of the queue with the smallest virtual time.\<close>

theorem pick_next_fair:
  assumes "rq_inv s xs" "xs \<noteq> []"
  shows "\<exists>p. pick_next_task_fair s = Some p \<and> p \<in> set xs \<and> vr s p = Min (vr s ` set xs)"
  using assms rq_invD(1,2) [OF assms(1)] timelineD(2,4) [OF rq_invD(1) [OF assms(1)]] sorted_hd_Min [of "vr s" xs]
  by (cases xs) (auto simp: pick_next_task_fair_def pick_next_entity_def)

theorem pick_next_fair_witness: "\<exists>p. pick_next_task_fair sample_cfs = Some p \<and> p \<in> {8, 16} \<and> vr sample_cfs p = Min (vr sample_cfs ` {8, 16})"
  using pick_next_fair [OF sample_cfs_inv] by simp

text \<open>C31: for up to 512 tasks with weights from the table, every slice is defined (no overflow, no division by 0) and the slices of all tasks together fit the scheduling period.\<close>

theorem slices_fit_period:
  assumes "rq_inv s xs" "List.length xs \<le> 512" "xs \<noteq> []"
    and "\<forall>y \<in> set xs. 0 < se_weight (ses s y) \<and> se_weight (ses s y) \<le> 88761"
  shows "\<exists>f. (\<forall>x \<in> set xs. sched_slice x s = Some (f x)) \<and> (\<Sum>x\<leftarrow>xs. unat (f x)) \<le> (if List.length xs > 8 then 60 * List.length xs else 480)"
  using slices_fit [OF assms] .

theorem slices_fit_period_witness:
  "\<exists>f. (\<forall>x \<in> {8, 16}. sched_slice x sample_cfs = Some (f x)) \<and> unat (f 8) + unat (f 16) \<le> 480"
  using slices_fit_period [OF sample_cfs_inv] by (simp add: sample_cfs_def)

end
