(* ===== verification/VM.thy ===== *)
theory VM
  imports Slab
begin

text \<open>
  Virtual memory, \<open>kernel/vm/vm.c\<close>: two-level page tables in kernel memory, the software-filled MIPS
  TLB, shared pages, and the per-process pool of small blocks. Page directories, page tables and
  \<open>memory_block_struct\<close>s live in the word memory of the slab allocator's state and are allocated by
  its \<open>kmalloc\<close>; structure fields are words at their offsets. The fields of \<open>task_struct\<close> that this
  file uses are \<open>vm_proc\<close>. The coprocessor registers that the inline assembly reads and writes
  (\<open>EntryHi\<close>, \<open>BadVAddr\<close>, the TLB entries, the interrupt-enable bit) are state; the entry that
  \<open>tlbwr\<close> replaces is chosen by the hardware and is an argument.
\<close>

section \<open>State\<close>

record vm_proc =
  vp_pid :: u32
  vp_vm :: u32
  vp_blocks :: "nat \<Rightarrow> u32"

record shared_page =
  sp_name :: "u8 list"
  sp_count :: u32
  sp_pa :: u32

record tlb_entry =
  te_hi :: u32
  te_lo0 :: u32
  te_lo1 :: u32
  te_mask :: u32

record vm_state =
  v_heap :: slab_sys
  v_procs :: "nat \<Rightarrow> vm_proc"
  v_shared :: "shared_page list"
  v_tlb :: "nat \<Rightarrow> tlb_entry"
  v_entry_hi :: u32
  v_badvaddr :: u32
  v_ie :: bool
  v_current :: nat

definition VM_PAGE_SIZE :: u32 where "VM_PAGE_SIZE = 4096"

definition mem_read :: "u32 \<Rightarrow> vm_state \<Rightarrow> u32" where
  "mem_read a s = words (v_heap s) a"

definition mem_write :: "u32 \<Rightarrow> u32 \<Rightarrow> vm_state \<Rightarrow> vm_state" where
  "mem_write a v s = s\<lparr>v_heap := store a v (v_heap s)\<rparr>"

text \<open>\<open>kernel_memset(a, 0, n)\<close> on the words of the range.\<close>

definition mem_zero :: "u32 \<Rightarrow> u32 \<Rightarrow> vm_state \<Rightarrow> vm_state" where
  "mem_zero a n s = s\<lparr>v_heap := (v_heap s)\<lparr>words := (\<lambda>x. if x - a < n then 0 else words (v_heap s) x)\<rparr>\<rparr>"

definition vm_kmalloc :: "u32 \<Rightarrow> vm_state \<Rightarrow> (u32 \<times> vm_state) option" where
  "vm_kmalloc sz s = do { (a, h) \<leftarrow> kmalloc sz (v_heap s); Some (a, s\<lparr>v_heap := h\<rparr>) }"

definition vm_kfree :: "u32 \<Rightarrow> vm_state \<Rightarrow> vm_state option" where
  "vm_kfree a s = do { h \<leftarrow> kfree a (v_heap s); Some (s\<lparr>v_heap := h\<rparr>) }"

definition upd_proc :: "nat \<Rightarrow> (vm_proc \<Rightarrow> vm_proc) \<Rightarrow> vm_state \<Rightarrow> vm_state" where
  "upd_proc p f s = s\<lparr>v_procs := (v_procs s)(p := f (v_procs s p))\<rparr>"

section \<open>Indices and TLB words\<close>

definition get_ptd_index :: "u32 \<Rightarrow> u32" where
  "get_ptd_index addr = drop_bit 22 addr"

definition get_pt_index :: "u32 \<Rightarrow> u32" where
  "get_pt_index addr = drop_bit 12 (addr AND 0x003FF000)"

definition get_entry_lo :: "u32 \<Rightarrow> u32" where
  "get_entry_lo pte = (push_bit 6 (drop_bit 12 (pte - 0x80000000)) OR push_bit 3 3) OR 0x06"

definition get_entry_hi :: "u32 \<Rightarrow> vm_state \<Rightarrow> u32" where
  "get_entry_hi addr s = (addr AND 0xFFFFE000) OR (v_entry_hi s AND 0xFF)"

definition set_active_asid :: "u32 \<Rightarrow> vm_state \<Rightarrow> vm_state" where
  "set_active_asid asid s = s\<lparr>v_entry_hi := (v_entry_hi s AND 0xFFFFE000) OR asid\<rparr>"

text \<open>The table word for an index.\<close>

definition slot :: "u32 \<Rightarrow> u32 \<Rightarrow> u32" where
  "slot table i = table + 4 * i"

section \<open>Page tables\<close>

definition ptd_create :: "vm_state \<Rightarrow> (u32 \<times> vm_state) option" where
  "ptd_create s = do { (a, s) \<leftarrow> vm_kmalloc VM_PAGE_SIZE s; Some (a, mem_zero a VM_PAGE_SIZE s) }"

definition pt_create :: "vm_state \<Rightarrow> (u32 \<times> vm_state) option" where
  "pt_create s = do { (a, s) \<leftarrow> vm_kmalloc VM_PAGE_SIZE s; Some (a, mem_zero a VM_PAGE_SIZE s) }"

definition vm_create :: "vm_state \<Rightarrow> (u32 \<times> vm_state) option" where
  "vm_create s = ptd_create s"

definition vma_va_to_pa :: "nat \<Rightarrow> u32 \<Rightarrow> vm_state \<Rightarrow> u32 option" where
  "vma_va_to_pa pcb va s = do {
     let ptd = vp_vm (v_procs s pcb);
     _ \<leftarrow> c_guard (ptd \<noteq> 0);
     let pt = mem_read (slot ptd (get_ptd_index va)) s;
     if pt = 0 then Some 0
     else let pte = mem_read (slot pt (get_pt_index va)) s
          in if pte = 0 then Some 0 else Some (pte OR (va AND 0xFFF))
   }"

definition vma_set_mapping :: "nat \<Rightarrow> u32 \<Rightarrow> u32 \<Rightarrow> vm_state \<Rightarrow> vm_state option" where
  "vma_set_mapping pcb va pa s = do {
     let ptd = vp_vm (v_procs s pcb);
     _ \<leftarrow> c_guard (ptd \<noteq> 0);
     let pt = mem_read (slot ptd (get_ptd_index va)) s;
     (pt, s) \<leftarrow> (if pt = 0 then do {
         (pt, s) \<leftarrow> pt_create s;
         Some (pt, mem_write (slot ptd (get_ptd_index va)) pt s)
       } else Some (pt, s));
     Some (mem_write (slot pt (get_pt_index va)) pa s)
   }"

section \<open>The TLB\<close>

text \<open>
  \<open>tlbr\<close> loads \<open>EntryHi\<close> with the entry it reads, and the deletion of an entry clears \<open>EntryHi\<close>: the
  register, which holds the active ASID, is not restored.
\<close>

definition tlb_delete_step :: "u32 \<Rightarrow> nat \<Rightarrow> vm_state \<Rightarrow> vm_state" where
  "tlb_delete_step asid i s =
     (let s = s\<lparr>v_entry_hi := te_hi (v_tlb s i)\<rparr>
      in if v_entry_hi s AND 0xFF \<noteq> asid then s
         else s\<lparr>v_entry_hi := 0, v_tlb := (v_tlb s)(i := \<lparr>te_hi = 0, te_lo0 = 0, te_lo1 = 0, te_mask = 0\<rparr>)\<rparr>)"

definition tlb_delete :: "u32 \<Rightarrow> vm_state \<Rightarrow> vm_state" where
  "tlb_delete asid s = fold (tlb_delete_step asid) [0..<32] s"

definition alloc_zeroed_page :: "vm_state \<Rightarrow> (u32 \<times> vm_state) option" where
  "alloc_zeroed_page s = do { (a, s) \<leftarrow> vm_kmalloc VM_PAGE_SIZE s; Some (a, mem_zero a VM_PAGE_SIZE s) }"

text \<open>An access without a page directory, or to an unmapped page from \<open>0x10000\<close> up, spins forever.\<close>

definition tlb_refill :: "nat \<Rightarrow> vm_state \<Rightarrow> vm_state option" where
  "tlb_refill random s = do {
     let old_ie = v_ie s;
     s \<leftarrow> Some (s\<lparr>v_ie := False\<rparr>);
     let va = v_badvaddr s;
     let ptd = vp_vm (v_procs s (v_current s));
     _ \<leftarrow> c_guard (ptd \<noteq> 0);
     let pt = mem_read (slot ptd (get_ptd_index va)) s;
     (pt, s) \<leftarrow> (if pt = 0 then do {
         (pt, s) \<leftarrow> pt_create s;
         Some (pt, mem_write (slot ptd (get_ptd_index va)) pt s)
       } else Some (pt, s));
     let pt_index = get_pt_index va;
     let pte = mem_read (slot pt pt_index) s;
     (pte, s) \<leftarrow> (if pte = 0 then do {
         _ \<leftarrow> c_guard (va < 0x10000);
         (pte, s) \<leftarrow> alloc_zeroed_page s;
         Some (pte, mem_write (slot pt pt_index) pte s)
       } else Some (pte, s));
     let near_index = pt_index XOR 1;
     let near = mem_read (slot pt near_index) s;
     (near, s) \<leftarrow> (if near = 0 then do {
         (near, s) \<leftarrow> alloc_zeroed_page s;
         Some (near, mem_write (slot pt near_index) near s)
       } else Some (near, s));
     let lo0 = (if pt_index AND 1 = 0 then get_entry_lo pte else get_entry_lo near);
     let lo1 = (if pt_index AND 1 = 0 then get_entry_lo near else get_entry_lo pte);
     let hi = get_entry_hi va s;
     s \<leftarrow> Some (s\<lparr>v_entry_hi := hi, v_tlb := (v_tlb s)(random := \<lparr>te_hi = hi, te_lo0 = lo0, te_lo1 = lo1, te_mask = 0\<rparr>)\<rparr>);
     Some (if old_ie then s\<lparr>v_ie := True\<rparr> else s)
   }"

section \<open>Shared pages\<close>

definition init_shared_page :: "vm_state \<Rightarrow> vm_state" where
  "init_shared_page s = s\<lparr>v_shared := []\<rparr>"

fun find_shared :: "(shared_page \<Rightarrow> bool) \<Rightarrow> shared_page list \<Rightarrow> nat option" where
  "find_shared P [] = None"
| "find_shared P (x # xs) = (if P x then Some 0 else map_option Suc (find_shared P xs))"

definition find_shared_page_by_name :: "u8 list \<Rightarrow> vm_state \<Rightarrow> nat option" where
  "find_shared_page_by_name name s = find_shared (\<lambda>p. sp_name p = name) (v_shared s)"

definition find_shared_page_by_physical_addr :: "u32 \<Rightarrow> vm_state \<Rightarrow> nat option" where
  "find_shared_page_by_physical_addr pa s = find_shared (\<lambda>p. sp_pa p = pa) (v_shared s)"

text \<open>The search for a free page from \<open>0x10000\<close> up.\<close>

partial_function (option) free_va_loop :: "nat \<Rightarrow> vm_state \<Rightarrow> u32 \<Rightarrow> u32 option" where
  "free_va_loop pcb s va = do {
     pa \<leftarrow> vma_va_to_pa pcb va s;
     if pa \<noteq> 0 then free_va_loop pcb s (va + 0x1000) else Some va
   }"

definition sizeof_shared_page :: u32 where "sizeof_shared_page = 272"

definition shared_page_create :: "nat \<Rightarrow> u8 list \<Rightarrow> vm_state \<Rightarrow> (u32 \<times> vm_state) option" where
  "shared_page_create pcb name s = do {
     va \<leftarrow> free_va_loop pcb s 0x10000;
     (pa, s) \<leftarrow> (case find_shared_page_by_name name s of
         Some i \<Rightarrow>
           let p = v_shared s ! i
           in Some (sp_pa p, s\<lparr>v_shared := (v_shared s)[i := p\<lparr>sp_count := sp_count p + 1\<rparr>]\<rparr>)
       | None \<Rightarrow> do {
           (_, s) \<leftarrow> vm_kmalloc sizeof_shared_page s;
           (pa, s) \<leftarrow> alloc_zeroed_page s;
           Some (pa, s\<lparr>v_shared := \<lparr>sp_name = name, sp_count = 1, sp_pa = pa\<rparr> # v_shared s\<rparr>)
         });
     s \<leftarrow> vma_set_mapping pcb va pa s;
     Some (va, s)
   }"

definition shared_page_delete :: "nat \<Rightarrow> u32 \<Rightarrow> vm_state \<Rightarrow> (u32 \<times> vm_state) option" where
  "shared_page_delete pcb va s = do {
     pa \<leftarrow> vma_va_to_pa pcb va s;
     if pa = 0 then Some (1, s)
     else case find_shared_page_by_physical_addr pa s of
       None \<Rightarrow> Some (2, s)
     | Some i \<Rightarrow> do {
         s \<leftarrow> vma_set_mapping pcb va 0 s;
         s \<leftarrow> Some (tlb_delete (vp_pid (v_procs s pcb)) s);
         let p = (v_shared s ! i)\<lparr>sp_count := sp_count (v_shared s ! i) - 1\<rparr>;
         s \<leftarrow> Some (s\<lparr>v_shared := (v_shared s)[i := p]\<rparr>);
         s \<leftarrow> (if sp_count p = 0 then do {
             s \<leftarrow> vm_kfree (sp_pa p) s;
             Some (s\<lparr>v_shared := take i (v_shared s) @ drop (Suc i) (v_shared s)\<rparr>)
           } else Some s);
         Some (0, s)
       }
   }"

section \<open>Deleting an address space\<close>

text \<open>
  \<open>pt_delete\<close> passes the page table entry, a physical address, to \<open>shared_page_delete\<close>, which takes it
  for a virtual one.
\<close>

fun pt_delete_loop :: "nat \<Rightarrow> u32 \<Rightarrow> nat list \<Rightarrow> vm_state \<Rightarrow> vm_state option" where
  "pt_delete_loop pcb pt [] s = Some s"
| "pt_delete_loop pcb pt (i # is) s = do {
     let pte = mem_read (slot pt (of_nat i)) s;
     s \<leftarrow> (if pte \<noteq> 0 then do {
         (r, s) \<leftarrow> shared_page_delete pcb pte s;
         s \<leftarrow> (if r \<noteq> 0 then vm_kfree pte s else Some s);
         Some (mem_write (slot pt (of_nat i)) 0 s)
       } else Some s);
     pt_delete_loop pcb pt is s
   }"

definition pt_delete :: "nat \<Rightarrow> u32 \<Rightarrow> vm_state \<Rightarrow> vm_state option" where
  "pt_delete pcb pt s = do { s \<leftarrow> pt_delete_loop pcb pt [0..<1024] s; vm_kfree pt s }"

fun ptd_delete_loop :: "nat \<Rightarrow> u32 \<Rightarrow> nat list \<Rightarrow> vm_state \<Rightarrow> vm_state option" where
  "ptd_delete_loop pcb ptd [] s = Some s"
| "ptd_delete_loop pcb ptd (i # is) s = do {
     let pt = mem_read (slot ptd (of_nat i)) s;
     s \<leftarrow> (if pt \<noteq> 0 then do {
         s \<leftarrow> pt_delete pcb pt s;
         Some (mem_write (slot ptd (of_nat i)) 0 s)
       } else Some s);
     ptd_delete_loop pcb ptd is s
   }"

definition ptd_delete :: "nat \<Rightarrow> u32 \<Rightarrow> vm_state \<Rightarrow> vm_state option" where
  "ptd_delete pcb ptd s = do { s \<leftarrow> ptd_delete_loop pcb ptd [0..<1024] s; vm_kfree ptd s }"

text \<open>A process without address space: the reads through \<open>ptd\<close> are at NULL.\<close>

definition vm_delete :: "nat \<Rightarrow> vm_state \<Rightarrow> vm_state option" where
  "vm_delete pcb s = do {
     s \<leftarrow> Some (tlb_delete (vp_pid (v_procs s pcb)) s);
     _ \<leftarrow> c_guard (vp_vm (v_procs s pcb) \<noteq> 0);
     ptd_delete pcb (vp_vm (v_procs s pcb)) s
   }"

section \<open>The memory pool of a process\<close>

text \<open>\<open>memory_block_struct\<close> at address \<open>b\<close>: five words.\<close>

definition mb_base_va :: "u32 \<Rightarrow> u32" where "mb_base_va b = b"
definition mb_base_pa :: "u32 \<Rightarrow> u32" where "mb_base_pa b = b + 4"
definition mb_chunk :: "u32 \<Rightarrow> u32" where "mb_chunk b = b + 8"
definition mb_head :: "u32 \<Rightarrow> u32" where "mb_head b = b + 12"
definition mb_next :: "u32 \<Rightarrow> u32" where "mb_next b = b + 16"
definition sizeof_memory_block :: u32 where "sizeof_memory_block = 20"

text \<open>The loop of \<open>init_chunk_list\<close> with its \<open>int\<close> counter \<open>i\<close>; a chunk size of 0 would never end.\<close>

partial_function (option) chunk_loop :: "u32 \<Rightarrow> u32 \<Rightarrow> u32 \<Rightarrow> vm_state \<Rightarrow> vm_state option" where
  "chunk_loop chunk i p s =
     (if sint (i + chunk) < sint VM_PAGE_SIZE
      then chunk_loop chunk (i + chunk) (p + chunk) (mem_write p (p + chunk) s)
      else Some (mem_write p 0 s))"

definition init_chunk_list :: "u32 \<Rightarrow> vm_state \<Rightarrow> vm_state option" where
  "init_chunk_list b s = chunk_loop (mem_read (mb_chunk b) s) 0 (mem_read (mb_head b) s) s"

definition init_memory_block :: "nat \<Rightarrow> u32 \<Rightarrow> u32 \<Rightarrow> vm_state \<Rightarrow> vm_state option" where
  "init_memory_block pcb b chunk_size s = do {
     va \<leftarrow> free_va_loop pcb s 0x10000;
     (pa, s) \<leftarrow> alloc_zeroed_page s;
     s \<leftarrow> vma_set_mapping pcb va pa s;
     s \<leftarrow> Some (mem_write (mb_base_va b) va s);
     s \<leftarrow> Some (mem_write (mb_base_pa b) pa s);
     s \<leftarrow> Some (mem_write (mb_chunk b) chunk_size s);
     s \<leftarrow> Some (mem_write (mb_head b) pa s);
     s \<leftarrow> Some (mem_write (mb_next b) 0 s);
     init_chunk_list b s
   }"

fun pool_create_loop :: "nat \<Rightarrow> nat list \<Rightarrow> vm_state \<Rightarrow> vm_state option" where
  "pool_create_loop pcb [] s = Some s"
| "pool_create_loop pcb (i # is) s = do {
     (b, s) \<leftarrow> vm_kmalloc sizeof_memory_block s;
     s \<leftarrow> Some (upd_proc pcb (\<lambda>t. t\<lparr>vp_blocks := (vp_blocks t)(i := b)\<rparr>) s);
     s \<leftarrow> Some (mem_zero b sizeof_memory_block s);
     s \<leftarrow> init_memory_block pcb b (push_bit i 16) s;
     pool_create_loop pcb is s
   }"

definition memory_pool_create :: "nat \<Rightarrow> vm_state \<Rightarrow> vm_state option" where
  "memory_pool_create pcb s = do {
     s \<leftarrow> pool_create_loop pcb [0..<8] s;
     Some (upd_proc pcb (\<lambda>t. t\<lparr>vp_blocks := (vp_blocks t)(8 := 0)\<rparr>) s)
   }"

partial_function (option) pool_delete_chain :: "nat \<Rightarrow> u32 \<Rightarrow> vm_state \<Rightarrow> vm_state option" where
  "pool_delete_chain pcb b s =
     (if b = 0 then Some s
      else do {
        s \<leftarrow> vma_set_mapping pcb (mem_read (mb_base_va b) s) 0 s;
        let next_block = mem_read (mb_next b) s;
        s \<leftarrow> vm_kfree b s;
        pool_delete_chain pcb next_block s
      })"

fun pool_delete_loop :: "nat \<Rightarrow> nat list \<Rightarrow> vm_state \<Rightarrow> vm_state option" where
  "pool_delete_loop pcb [] s = Some s"
| "pool_delete_loop pcb (i # is) s = do {
     s \<leftarrow> pool_delete_chain pcb (vp_blocks (v_procs s pcb) i) s;
     pool_delete_loop pcb is s
   }"

definition memory_pool_delete :: "nat \<Rightarrow> vm_state \<Rightarrow> vm_state option" where
  "memory_pool_delete pcb s = pool_delete_loop pcb [0..<9] s"

text \<open>The walk over a block chain to the block whose physical page holds an address.\<close>

partial_function (option) find_block_pa :: "u32 \<Rightarrow> u32 \<Rightarrow> vm_state \<Rightarrow> u32 option" where
  "find_block_pa pa b s =
     (if b = 0 then None
      else let start = mem_read (mb_base_pa b) s
           in if start \<le> pa \<and> pa < start + VM_PAGE_SIZE then Some b
              else find_block_pa pa (mem_read (mb_next b) s) s)"

text \<open>
  The search for the end of the block chain as the code has it: the loop reads the \<open>next_memory_block\<close>
  of the first block, not of the current one.
\<close>

partial_function (option) last_block_loop :: "u32 \<Rightarrow> u32 \<Rightarrow> vm_state \<Rightarrow> u32 option" where
  "last_block_loop first cur s =
     (if mem_read (mb_next cur) s \<noteq> 0 then last_block_loop first (mem_read (mb_next first) s) s else Some cur)"

partial_function (option) small_chunk_alloc :: "nat \<Rightarrow> u32 \<Rightarrow> vm_state \<Rightarrow> (u32 \<times> vm_state) option" where
  "small_chunk_alloc pcb b s = do {
     let pa = mem_read (mb_head b) s;
     if pa \<noteq> 0 then do {
       c \<leftarrow> find_block_pa pa b s;
       let va = pa - mem_read (mb_base_pa c) s + mem_read (mb_base_va c) s;
       Some (va, mem_write (mb_head b) (mem_read pa s) s)
     } else do {
       (nb, s) \<leftarrow> vm_kmalloc sizeof_memory_block s;
       s \<leftarrow> init_memory_block pcb nb (mem_read (mb_chunk b) s) s;
       s \<leftarrow> Some (mem_write (mb_head b) (mem_read (mb_head nb) s) s);
       lb \<leftarrow> last_block_loop b b s;
       s \<leftarrow> Some (mem_write (mb_next lb) nb s);
       small_chunk_alloc pcb b s
     }
   }"

text \<open>
  The search for a run of free pages: when page \<open>i\<close> of the run is mapped, the search goes on from
  that page itself, so a mapped first page is examined again and again.
\<close>

fun first_mapped :: "nat \<Rightarrow> u32 \<Rightarrow> nat list \<Rightarrow> vm_state \<Rightarrow> u32 option option" where
  "first_mapped pcb va [] s = Some None"
| "first_mapped pcb va (i # is) s = do {
     let cva = va + of_nat i * VM_PAGE_SIZE;
     pa \<leftarrow> vma_va_to_pa pcb cva s;
     if pa \<noteq> 0 then Some (Some cva) else first_mapped pcb va is s
   }"

partial_function (option) free_run_loop :: "nat \<Rightarrow> nat \<Rightarrow> vm_state \<Rightarrow> u32 \<Rightarrow> u32 option" where
  "free_run_loop pcb n s va = do {
     m \<leftarrow> first_mapped pcb va [0..<n] s;
     case m of None \<Rightarrow> Some va | Some cva \<Rightarrow> free_run_loop pcb n s cva
   }"

partial_function (option) chain_end :: "u32 \<Rightarrow> vm_state \<Rightarrow> u32 option" where
  "chain_end b s = (if mem_read (mb_next b) s \<noteq> 0 then chain_end (mem_read (mb_next b) s) s else Some b)"

fun big_map_loop :: "nat \<Rightarrow> u32 \<Rightarrow> u32 \<Rightarrow> nat list \<Rightarrow> vm_state \<Rightarrow> vm_state option" where
  "big_map_loop pcb va pa [] s = Some s"
| "big_map_loop pcb va pa (i # is) s = do {
     let cva = va + of_nat i * VM_PAGE_SIZE;
     let cpa = pa + of_nat i * VM_PAGE_SIZE;
     s \<leftarrow> vma_set_mapping pcb cva cpa s;
     (b, s) \<leftarrow> vm_kmalloc sizeof_memory_block s;
     s \<leftarrow> Some (mem_write (mb_base_va b) cva s);
     s \<leftarrow> Some (mem_write (mb_base_pa b) cpa s);
     s \<leftarrow> Some (mem_write (mb_chunk b) 0 s);
     s \<leftarrow> Some (mem_write (mb_head b) 0 s);
     s \<leftarrow> Some (mem_write (mb_next b) 0 s);
     let fb = vp_blocks (v_procs s pcb) 8;
     s \<leftarrow> (if fb = 0 then Some (upd_proc pcb (\<lambda>t. t\<lparr>vp_blocks := (vp_blocks t)(8 := b)\<rparr>) s)
           else do { lb \<leftarrow> chain_end fb s; Some (mem_write (mb_next lb) b s) });
     big_map_loop pcb va pa is s
   }"

definition big_chunk_alloc :: "nat \<Rightarrow> u32 \<Rightarrow> vm_state \<Rightarrow> (u32 \<times> vm_state) option" where
  "big_chunk_alloc pcb sz s = do {
     let sz = (sz + (VM_PAGE_SIZE - 1)) AND NOT (VM_PAGE_SIZE - 1);
     let n = unat (sz div VM_PAGE_SIZE);
     va \<leftarrow> free_run_loop pcb n s 0x10000;
     (pa, s) \<leftarrow> vm_kmalloc sz s;
     s \<leftarrow> Some (mem_zero pa sz s);
     s \<leftarrow> big_map_loop pcb va pa [0..<n] s;
     Some (va, s)
   }"

text \<open>The first pool with chunks large enough; the inner option is the outcome, the outer one the guard.\<close>

fun best_fit :: "nat \<Rightarrow> u32 \<Rightarrow> nat list \<Rightarrow> vm_state \<Rightarrow> nat option option" where
  "best_fit pcb sz [] s = Some None"
| "best_fit pcb sz (i # is) s = do {
     _ \<leftarrow> c_guard (vp_blocks (v_procs s pcb) i \<noteq> 0);
     if sz \<le> mem_read (mb_chunk (vp_blocks (v_procs s pcb) i)) s then Some (Some i) else best_fit pcb sz is s
   }"

definition memory_alloc :: "nat \<Rightarrow> u32 \<Rightarrow> vm_state \<Rightarrow> (u32 \<times> vm_state) option" where
  "memory_alloc pcb sz s = do {
     fit \<leftarrow> best_fit pcb sz [0..<8] s;
     case fit of
       None \<Rightarrow> big_chunk_alloc pcb sz s
     | Some i \<Rightarrow> small_chunk_alloc pcb (vp_blocks (v_procs s pcb) i) s
   }"

partial_function (option) free_in_chain :: "nat \<Rightarrow> nat \<Rightarrow> u32 \<Rightarrow> u32 \<Rightarrow> vm_state \<Rightarrow> (bool \<times> vm_state) option" where
  "free_in_chain pcb i va b s =
     (if b = 0 then Some (False, s)
      else let start = mem_read (mb_base_va b) s
           in if start \<le> va \<and> va < start + VM_PAGE_SIZE then do {
                pa \<leftarrow> vma_va_to_pa pcb va s;
                _ \<leftarrow> c_guard (pa \<noteq> 0);
                let hb = mb_head (vp_blocks (v_procs s pcb) i);
                s \<leftarrow> Some (mem_write pa (mem_read hb s) s);
                Some (True, mem_write hb pa s)
              } else free_in_chain pcb i va (mem_read (mb_next b) s) s)"

fun free_loop_blocks :: "nat \<Rightarrow> u32 \<Rightarrow> nat list \<Rightarrow> vm_state \<Rightarrow> (u32 \<times> vm_state) option" where
  "free_loop_blocks pcb va [] s = Some (1, s)"
| "free_loop_blocks pcb va (i # is) s = do {
     (found, s) \<leftarrow> free_in_chain pcb i va (vp_blocks (v_procs s pcb) i) s;
     if found then Some (0, s) else free_loop_blocks pcb va is s
   }"

definition memory_free :: "nat \<Rightarrow> u32 \<Rightarrow> vm_state \<Rightarrow> (u32 \<times> vm_state) option" where
  "memory_free pcb va s = free_loop_blocks pcb va [0..<8] s"

section \<open>Table slots\<close>

definition page_aligned :: "u32 \<Rightarrow> bool" where
  "page_aligned a \<longleftrightarrow> 4096 dvd unat a"

lemma unat_slot:
  assumes "page_aligned t" "unat i < 1024"
  shows "unat (slot t i) = unat t + 4 * unat i"
proof -
  obtain k where k: "unat t = 4096 * k" using assms(1) by (auto simp: page_aligned_def elim: dvdE)
  have "unat t < 2 ^ 32" using unsigned_less [of t] by simp
  then have kb: "k < 2 ^ 20" using k by simp
  have m: "unat (4 * i) = 4 * unat i" using unat_mult_lem [of 4 i] assms(2) by simp
  have "4096 * k + 4 * unat i < 2 ^ 32" using kb assms(2) by simp
  then show ?thesis unfolding slot_def using unat_add_lem [of t "4 * i"] m k by simp
qed

lemma page_arith: "a < 1024 \<Longrightarrow> b < 1024 \<Longrightarrow> 4096 * k + 4 * a = 4096 * l + 4 * b \<longleftrightarrow> k = l \<and> a = b" for a b k l :: nat
proof -
  assume ab: "a < 1024" "b < 1024"
  have d: "(1024 * k + a) div 1024 = k" "(1024 * k + a) mod 1024 = a"
    "(1024 * l + b) div 1024 = l" "(1024 * l + b) mod 1024 = b" using ab by simp_all
  have "4096 * k + 4 * a = 4 * (1024 * k + a)" "4096 * l + 4 * b = 4 * (1024 * l + b)" by simp_all
  then have "4096 * k + 4 * a = 4096 * l + 4 * b \<longleftrightarrow> 1024 * k + a = 1024 * l + b" by (intro iffI) linarith+
  also have "\<dots> \<longleftrightarrow> k = l \<and> a = b" using d by metis
  finally show ?thesis .
qed

lemma slot_eq_iff:
  assumes "page_aligned t" "page_aligned u" "unat i < 1024" "unat j < 1024"
  shows "slot t i = slot u j \<longleftrightarrow> t = u \<and> i = j"
proof -
  obtain k l where kl: "unat t = 4096 * k" "unat u = 4096 * l" using assms(1,2) by (auto simp: page_aligned_def elim!: dvdE)
  have "slot t i = slot u j \<longleftrightarrow> unat t + 4 * unat i = unat u + 4 * unat j"
    using unat_slot assms by (simp add: word_unat_eq_iff)
  also have "\<dots> \<longleftrightarrow> k = l \<and> unat i = unat j" unfolding kl using assms(3,4) by (rule page_arith)
  also have "\<dots> \<longleftrightarrow> t = u \<and> i = j" using kl by (simp add: word_unat_eq_iff)
  finally show ?thesis .
qed

lemma slot_in_page: "page_aligned t \<Longrightarrow> page_aligned u \<Longrightarrow> unat i < 1024 \<Longrightarrow> slot t i - u < 4096 \<longleftrightarrow> t = u"
proof -
  assume a: "page_aligned t" "page_aligned u" "unat i < 1024"
  obtain k l where kl: "unat t = 4096 * k" "unat u = 4096 * l" using a(1,2) by (auto simp: page_aligned_def elim!: dvdE)
  have b: "unat t < 2 ^ 32" "unat u < 2 ^ 32" using unsigned_less [of t] unsigned_less [of u] by simp_all
  then have kb: "k < 2 ^ 20" "l < 2 ^ 20" using kl by simp_all
  have "slot t i - u < 4096 \<longleftrightarrow> unat (slot t i - u) < 4096" by (simp add: word_less_nat_alt)
  also have "unat (slot t i - u) = (if u \<le> slot t i then 4096 * k + 4 * unat i - 4096 * l else 4096 * k + 4 * unat i + 2 ^ 32 - 4096 * l)"
    using unat_slot [OF a(1,3)] kl by (auto simp: unat_sub_if_size word_size word_le_nat_alt)
  also have "u \<le> slot t i \<longleftrightarrow> 4096 * l \<le> 4096 * k + 4 * unat i" using unat_slot [OF a(1,3)] kl by (simp add: word_le_nat_alt)
  also have "((if 4096 * l \<le> 4096 * k + 4 * unat i then 4096 * k + 4 * unat i - 4096 * l else 4096 * k + 4 * unat i + 2 ^ 32 - 4096 * l) < 4096) \<longleftrightarrow> k = l"
    using kb a(3) by (cases "l \<le> k"; auto)
  also have "\<dots> \<longleftrightarrow> t = u" using kl by (simp add: word_unat_eq_iff)
  finally show ?thesis .
qed

lemma pt_index_bits: "get_pt_index va = take_bit 10 (drop_bit 12 va)"
proof -
  have m: "(0x003FF000 :: u32) = push_bit 12 (mask 10)" by (simp add: mask_eq_exp_minus_1 push_bit_eq_mult)
  show ?thesis unfolding get_pt_index_def m by (rule bit_word_eqI) (auto simp: bit_simps)
qed

lemma index_bounds: "unat (get_ptd_index va) < 1024" "unat (get_pt_index va) < 1024"
proof -
  have "unat va < 1024 * 2 ^ 22" using unsigned_less [of va] by simp
  moreover have "unat (get_ptd_index va) = unat va div 2 ^ 22"
    unfolding get_ptd_index_def by (simp add: drop_bit_eq_div unat_div)
  ultimately show "unat (get_ptd_index va) < 1024" using less_mult_imp_div_less by simp
  show "unat (get_pt_index va) < 1024"
    unfolding pt_index_bits unsigned_take_bit_eq using take_bit_nat_less_exp [of 10] by simp
qed

lemma index_eq_iff: "get_ptd_index va = get_ptd_index vb \<and> get_pt_index va = get_pt_index vb \<longleftrightarrow> drop_bit 12 va = drop_bit 12 vb"
proof
  assume a: "get_ptd_index va = get_ptd_index vb \<and> get_pt_index va = get_pt_index vb"
  show "drop_bit 12 va = drop_bit 12 vb"
  proof (rule bit_word_eqI)
    fix n assume "n < LENGTH(32)"
    show "bit (drop_bit 12 va) n = bit (drop_bit 12 vb) n"
    proof (cases "n < 10")
      case True
      have "bit (get_pt_index va) n = bit (get_pt_index vb) n" using a by simp
      then show ?thesis using True unfolding pt_index_bits by (simp add: bit_simps)
    next
      case False
      have "bit (get_ptd_index va) (n - 10) = bit (get_ptd_index vb) (n - 10)" using a by simp
      then show ?thesis using False by (simp add: get_ptd_index_def bit_simps add.commute)
    qed
  qed
next
  assume a: "drop_bit 12 va = drop_bit 12 vb"
  have d: "get_ptd_index v = drop_bit 10 (drop_bit 12 v)" for v by (simp add: get_ptd_index_def)
  show "get_ptd_index va = get_ptd_index vb \<and> get_pt_index va = get_pt_index vb" unfolding d pt_index_bits a by simp
qed

section \<open>Address translation\<close>

definition ptd_of :: "nat \<Rightarrow> vm_state \<Rightarrow> u32" where
  "ptd_of pcb s = vp_vm (v_procs s pcb)"

definition pt_of :: "nat \<Rightarrow> vm_state \<Rightarrow> u32 \<Rightarrow> u32" where
  "pt_of pcb s i = mem_read (slot (ptd_of pcb s) i) s"

definition xlate :: "nat \<Rightarrow> vm_state \<Rightarrow> u32 \<Rightarrow> u32" where
  "xlate pcb s va = (let pt = pt_of pcb s (get_ptd_index va)
                     in if pt = 0 then 0 else mem_read (slot pt (get_pt_index va)) s)"

lemma va_to_pa_xlate:
  "ptd_of pcb s \<noteq> 0 \<Longrightarrow> vma_va_to_pa pcb va s = Some (if xlate pcb s va = 0 then 0 else xlate pcb s va OR (va AND 0xFFF))"
  by (simp add: vma_va_to_pa_def xlate_def pt_of_def ptd_of_def Let_def)

text \<open>The tables of an address space are pages, all different.\<close>

definition aspace_ok :: "nat \<Rightarrow> vm_state \<Rightarrow> bool" where
  "aspace_ok pcb s \<longleftrightarrow> ptd_of pcb s \<noteq> 0 \<and> page_aligned (ptd_of pcb s)
     \<and> (\<forall>i. unat i < 1024 \<longrightarrow> pt_of pcb s i \<noteq> 0 \<longrightarrow> page_aligned (pt_of pcb s i) \<and> pt_of pcb s i \<noteq> ptd_of pcb s)
     \<and> (\<forall>i j. unat i < 1024 \<longrightarrow> unat j < 1024 \<longrightarrow> pt_of pcb s i \<noteq> 0 \<longrightarrow> pt_of pcb s i = pt_of pcb s j \<longrightarrow> i = j)"

lemma mem_simps [simp]:
  "mem_read a (mem_write b v s) = (if a = b then v else mem_read a s)"
  "mem_read a (mem_zero b n s) = (if a - b < n then 0 else mem_read a s)"
  "v_procs (mem_write b v s) = v_procs s" "v_procs (mem_zero b n s) = v_procs s"
  by (simp_all add: mem_read_def mem_write_def mem_zero_def store_def)

lemma aspaceD:
  assumes "aspace_ok pcb s" "unat i < 1024" "pt_of pcb s i \<noteq> 0"
  shows "page_aligned (pt_of pcb s i)" "pt_of pcb s i \<noteq> ptd_of pcb s"
  using assms by (auto simp: aspace_ok_def)

text \<open>Writing an entry of an existing table.\<close>

lemma write_entry:
  fixes pa :: u32
  assumes a: "aspace_ok pcb s" and i: "unat i < 1024" "pt_of pcb s i = pt" "pt \<noteq> 0" and j: "unat j < 1024"
  defines "s' \<equiv> mem_write (slot pt j) pa s"
  shows "aspace_ok pcb s'" "ptd_of pcb s' = ptd_of pcb s" "unat k < 1024 \<Longrightarrow> pt_of pcb s' k = pt_of pcb s k"
    "xlate pcb s' va = (if get_ptd_index va = i \<and> get_pt_index va = j then pa else xlate pcb s va)"
proof -
  have ptd: "page_aligned (ptd_of pcb s)" using a by (simp add: aspace_ok_def)
  have pt: "page_aligned pt" "pt \<noteq> ptd_of pcb s" using aspaceD [OF a i(1)] i by auto
  show e: "ptd_of pcb s' = ptd_of pcb s" by (simp add: s'_def ptd_of_def)
  show pe: "pt_of pcb s' k = pt_of pcb s k" if "unat k < 1024" for k
    using slot_eq_iff [OF ptd pt(1) that j] pt(2) by (simp add: pt_of_def e) (simp add: s'_def)
  show "aspace_ok pcb s'" using a pe e by (simp add: aspace_ok_def)
  have ne: "pt_of pcb s u = pt \<longleftrightarrow> u = i" if "unat u < 1024" for u using a i that by (auto simp: aspace_ok_def)
  have "xlate pcb s' va = (if pt_of pcb s (get_ptd_index va) = 0 then 0
      else if slot (pt_of pcb s (get_ptd_index va)) (get_pt_index va) = slot pt j then pa else mem_read (slot (pt_of pcb s (get_ptd_index va)) (get_pt_index va)) s)"
    using pe [OF index_bounds(1) [of va]] by (simp add: xlate_def Let_def s'_def)
  moreover have "pt_of pcb s (get_ptd_index va) \<noteq> 0 \<Longrightarrow> slot (pt_of pcb s (get_ptd_index va)) (get_pt_index va) = slot pt j
      \<longleftrightarrow> get_ptd_index va = i \<and> get_pt_index va = j"
    using slot_eq_iff [OF aspaceD(1) [OF a index_bounds(1)] pt(1) index_bounds(2) j] ne [OF index_bounds(1)] by blast
  ultimately show "xlate pcb s' va = (if get_ptd_index va = i \<and> get_pt_index va = j then pa else xlate pcb s va)"
    using i by (auto simp: xlate_def Let_def)
qed

text \<open>A new page for a table: zeroed, and different from all tables of the address space.\<close>

definition fresh_page :: "nat \<Rightarrow> vm_state \<Rightarrow> u32 \<Rightarrow> bool" where
  "fresh_page pcb s a \<longleftrightarrow> page_aligned a \<and> a \<noteq> 0 \<and> a \<noteq> ptd_of pcb s \<and> (\<forall>i. unat i < 1024 \<longrightarrow> pt_of pcb s i \<noteq> a)"

lemma pt_of_install:
  assumes a: "aspace_ok pcb s" and f: "fresh_page pcb s t" and i: "unat i < 1024" and k: "unat k < 1024"
  shows "pt_of pcb (mem_write (slot (ptd_of pcb s) i) t (mem_zero t VM_PAGE_SIZE s)) k = (if k = i then t else pt_of pcb s k)"
proof -
  have ptd: "page_aligned (ptd_of pcb s)" and t: "page_aligned t" "t \<noteq> ptd_of pcb s"
    using a f by (simp_all add: aspace_ok_def fresh_page_def)
  have e: "ptd_of pcb (mem_write b t (mem_zero t n s)) = ptd_of pcb s" for b n by (simp add: ptd_of_def)
  show ?thesis
    using slot_eq_iff [OF ptd ptd k i] slot_in_page [OF ptd t(1) k] t(2) by (simp add: pt_of_def e) (simp add: VM_PAGE_SIZE_def)
qed

lemma install_table:
  assumes a: "aspace_ok pcb s" and f: "fresh_page pcb s t" and i: "unat i < 1024" "pt_of pcb s i = 0"
  defines "s' \<equiv> mem_write (slot (ptd_of pcb s) i) t (mem_zero t VM_PAGE_SIZE s)"
  shows "aspace_ok pcb s'" "ptd_of pcb s' = ptd_of pcb s" "pt_of pcb s' i = t"
    "xlate pcb s' va = xlate pcb s va"
proof -
  have ptd: "page_aligned (ptd_of pcb s)" and t: "page_aligned t" "t \<noteq> 0" "t \<noteq> ptd_of pcb s"
    using a f by (simp_all add: aspace_ok_def fresh_page_def)
  show e: "ptd_of pcb s' = ptd_of pcb s" by (simp add: s'_def ptd_of_def)
  have pe: "pt_of pcb s' k = (if k = i then t else pt_of pcb s k)" if "unat k < 1024" for k
    unfolding s'_def by (rule pt_of_install [OF a f i(1) that])
  show "pt_of pcb s' i = t" using pe i by simp
  show "aspace_ok pcb s'" unfolding aspace_ok_def e
    using a pe f t i by (auto simp: aspace_ok_def fresh_page_def split: if_splits)
  have zero: "mem_read (slot t j) s' = 0" if "unat j < 1024" for j
    using slot_eq_iff [OF t(1) ptd that i(1)] slot_in_page [OF t(1) t(1) that] t(3) by (simp add: s'_def VM_PAGE_SIZE_def)
  have keep: "mem_read (slot u j) s' = mem_read (slot u j) s" if "unat j < 1024" "page_aligned u" "u \<noteq> ptd_of pcb s" "u \<noteq> t" for u j
    using slot_eq_iff [OF that(2) ptd that(1) i(1)] slot_in_page [OF that(2) t(1) that(1)] that by (simp add: s'_def VM_PAGE_SIZE_def)
  have "pt_of pcb s (get_ptd_index va) \<noteq> 0 \<Longrightarrow> page_aligned (pt_of pcb s (get_ptd_index va)) \<and> pt_of pcb s (get_ptd_index va) \<noteq> ptd_of pcb s
      \<and> pt_of pcb s (get_ptd_index va) \<noteq> t"
    using aspaceD [OF a index_bounds(1)] f index_bounds(1) by (auto simp: fresh_page_def)
  then show "xlate pcb s' va = xlate pcb s va"
    using pe [OF index_bounds(1), of va] zero [OF index_bounds(2), of va] keep [OF index_bounds(2)] i t
    by (auto simp: xlate_def Let_def)
qed

section \<open>Pages from the kernel heap\<close>

definition page_addr :: "nat \<Rightarrow> u32" where
  "page_addr p = KERNEL_ENTRY OR push_bit PAGE_SHIFT (of_nat p)"

lemma page_addr_aligned: "page_aligned (page_addr p)" and page_addr_not_0: "page_addr p \<noteq> 0"
proof -
  have k: "KERNEL_ENTRY = (push_bit 31 1 :: u32)" by (simp add: KERNEL_ENTRY_def)
  have "take_bit 12 (page_addr p) = 0"
    unfolding take_bit_0_iff page_addr_def k by (auto simp: bit_simps PAGE_SHIFT_def simp del: push_bit_of_1)
  then have "unat (take_bit 12 (page_addr p)) = 0" by simp
  then have "take_bit 12 (unat (page_addr p)) = 0" by (metis unsigned_take_bit_eq)
  then show "page_aligned (page_addr p)" by (simp add: page_aligned_def mod_0_imp_dvd take_bit_eq_mod)
  have "bit (page_addr p) 31" unfolding page_addr_def k by (simp add: bit_simps del: push_bit_of_1)
  then show "page_addr p \<noteq> 0" by auto
qed

lemma page_addr_inj: "p < 2 ^ 19 \<Longrightarrow> q < 2 ^ 19 \<Longrightarrow> page_addr p = page_addr q \<Longrightarrow> p = q"
proof -
  assume p: "p < 2 ^ 19" and q: "q < 2 ^ 19" and e: "page_addr p = page_addr q"
  have pq: "p < 2 ^ 20" "q < 2 ^ 20" using p q by simp_all
  have "push_bit PAGE_SHIFT (of_nat p) = (push_bit PAGE_SHIFT (of_nat q) :: u32)"
    using low_address [OF p] low_address [OF q] e unfolding page_addr_def by metis
  then show "p = q" using address_page [OF pq(1)] address_page [OF pq(2)] by metis
qed

definition heap_ok :: "slab_sys \<Rightarrow> (nat \<times> nat) set \<Rightarrow> bool" where
  "heap_ok h B \<longleftrightarrow> slab_ready h \<and> heap_owned h B \<and> 0 < buddy_start_pfn (buddy h) \<and> buddy_end_pfn (buddy h) \<le> 2 ^ 19"

lemma heap_page_bound: "heap_ok h B \<Longrightarrow> (k, p) \<in> B \<Longrightarrow> 0 < p \<and> p < 2 ^ 19"
proof -
  assume h: "heap_ok h B" and m: "(k, p) \<in> B"
  obtain A c where a: "buddy_inv (buddy h) A" "(k, c) \<in> A" "p = bpage (buddy h) (k, c)"
    using h m unfolding heap_ok_def heap_owned_def pages_owned_def by auto
  have "p \<in> block_pages k p" by (simp add: block_pages_def)
  then have "p \<in> {buddy_start_pfn (buddy h)..<buddy_end_pfn (buddy h)}" using block_in_area [OF a(1,2)] a(3) by blast
  then show ?thesis using h by (auto simp: heap_ok_def)
qed

lemma alloc_pages_area:
  "buddy_start_pfn (snd (alloc_pages k bs)) = buddy_start_pfn bs \<and> buddy_end_pfn (snd (alloc_pages k bs)) = buddy_end_pfn bs"
  by (auto simp: alloc_pages_def alloc_pages_at_def Let_def split: option.splits prod.splits)

lemma kmalloc_heap:
  assumes h: "heap_ok h B" and sz: "0 < unat sz" "unat sz \<le> 65536"
  obtains "kmalloc sz h = Some (KERNEL_ENTRY, h)"
  | k p h' where "kmalloc sz h = Some (page_addr p, h')" "heap_ok h' (insert (k, p) B)" "words h' = words h"
    "p < 2 ^ 19" "\<forall>(j, q) \<in> B. q \<noteq> p" "unat sz \<le> 4096 * 2 ^ k"
proof -
  have r: "slab_ready h" "heap_owned h B" "0 < buddy_start_pfn (buddy h)" using h by (auto simp: heap_ok_def)
  obtain a h' where km: "kmalloc sz h = Some (a, h')" and
    cs: "a = KERNEL_ENTRY \<and> h' = h \<or> (\<exists>k p. a = KERNEL_ENTRY OR push_bit PAGE_SHIFT (of_nat p) \<and> heap_owned h' (insert (k, p) B)
        \<and> unat sz \<le> 4096 * 2 ^ k \<and> (0 < k \<longrightarrow> 4096 * 2 ^ (k - 1) < unat sz) \<and> (\<forall>(j, q) \<in> B. block_pages k p \<inter> block_pages j q = {}))"
    using kmalloc_block [OF r sz] by blast
  obtain j where j: "kmalloc sz h = Some (KERNEL_ENTRY OR fst (alloc_pages j (buddy h)), h\<lparr>buddy := snd (alloc_pages j (buddy h))\<rparr>)"
    using kmalloc_pages [OF r(1), of sz] sz by auto
  have fr: "words h' = words h" "slab_ready h'" "buddy_start_pfn (buddy h') = buddy_start_pfn (buddy h)"
    "buddy_end_pfn (buddy h') = buddy_end_pfn (buddy h)"
    using j km alloc_pages_area [of j "buddy h"] r(1) by (auto simp: slab_ready_def)
  show ?thesis
    using cs
  proof (elim disjE exE conjE)
    assume "a = KERNEL_ENTRY" "h' = h"
    then show ?thesis using that(1) km by simp
  next
    fix k p
    assume a: "a = KERNEL_ENTRY OR push_bit PAGE_SHIFT (of_nat p)" "heap_owned h' (insert (k, p) B)"
      "unat sz \<le> 4096 * 2 ^ k" "\<forall>(j, q) \<in> B. block_pages k p \<inter> block_pages j q = {}"
    have ok: "heap_ok h' (insert (k, p) B)" using a(2) fr h by (simp add: heap_ok_def)
    have "\<forall>(j, q) \<in> B. q \<noteq> p" using a(4) by (auto simp: block_pages_def)
    then show ?thesis using that(2) [of p h' k] km a ok fr heap_page_bound [OF ok, of k p] by (simp add: page_addr_def)
  qed
qed

text \<open>The tables of the address space are heads of blocks in use.\<close>

definition table_owned :: "(nat \<times> nat) set \<Rightarrow> u32 \<Rightarrow> bool" where
  "table_owned B t \<longleftrightarrow> (\<exists>k p. (k, p) \<in> B \<and> t = page_addr p)"

definition vm_owned :: "nat \<Rightarrow> vm_state \<Rightarrow> (nat \<times> nat) set \<Rightarrow> bool" where
  "vm_owned pcb s B \<longleftrightarrow> heap_ok (v_heap s) B \<and> table_owned B (ptd_of pcb s)
     \<and> (\<forall>i. unat i < 1024 \<longrightarrow> pt_of pcb s i \<noteq> 0 \<longrightarrow> table_owned B (pt_of pcb s i))"

lemma owned_neq:
  assumes h: "heap_ok h (insert (k, p) B)" and n: "\<forall>(j, q) \<in> B. q \<noteq> p" and t: "table_owned B t"
  shows "t \<noteq> page_addr p"
proof
  assume e: "t = page_addr p"
  obtain j q where q: "(j, q) \<in> B" "t = page_addr q" using t by (auto simp: table_owned_def)
  have "q < 2 ^ 19" "p < 2 ^ 19" using heap_page_bound [OF h] q by auto
  then show False using page_addr_inj [of q p] e q n by auto
qed

text \<open>The next page request succeeds.\<close>

definition page_left :: "vm_state \<Rightarrow> bool" where
  "page_left s \<longleftrightarrow> (case vm_kmalloc VM_PAGE_SIZE s of None \<Rightarrow> False | Some (t, s') \<Rightarrow> t \<noteq> KERNEL_ENTRY)"

lemma kmalloc_one_page:
  assumes "slab_ready h"
  shows "kmalloc VM_PAGE_SIZE h = Some (KERNEL_ENTRY OR fst (alloc_pages 0 (buddy h)), h\<lparr>buddy := snd (alloc_pages 0 (buddy h))\<rparr>)"
proof -
  obtain k where k: "0 < k \<longrightarrow> 4096 * 2 ^ (k - 1) < (4096 :: nat)"
    "kmalloc VM_PAGE_SIZE h = Some (KERNEL_ENTRY OR fst (alloc_pages k (buddy h)), h\<lparr>buddy := snd (alloc_pages k (buddy h))\<rparr>)"
    using kmalloc_pages [OF assms, of VM_PAGE_SIZE] by (auto simp: VM_PAGE_SIZE_def)
  have "k = 0"
  proof (rule ccontr)
    assume "k \<noteq> 0"
    then have "4096 * 2 ^ (k - 1) < (4096 :: nat)" using k(1) by simp
    moreover have "(1 :: nat) \<le> 2 ^ (k - 1)" by simp
    ultimately show False by linarith
  qed
  then show ?thesis using k(2) by simp
qed

text \<open>\<open>n\<close> requests for single pages succeed.\<close>

fun pages_left :: "nat \<Rightarrow> buddy_sys \<Rightarrow> bool" where
  "pages_left 0 bs = True"
| "pages_left (Suc n) bs = (KERNEL_ENTRY OR fst (alloc_pages 0 bs) \<noteq> KERNEL_ENTRY \<and> pages_left n (snd (alloc_pages 0 bs)))"

lemma page_left_heap: "heap_ok (v_heap s) B \<Longrightarrow> page_left s = pages_left 1 (buddy (v_heap s))"
  using kmalloc_one_page [of "v_heap s"] by (simp add: page_left_def vm_kmalloc_def heap_ok_def)

lemma zeroed_page_owned:
  assumes o: "vm_owned pcb s B" and a: "aspace_ok pcb s" and ok: "page_left s"
  obtains k p s1 where "pt_create s = Some (page_addr p, mem_zero (page_addr p) VM_PAGE_SIZE s1)"
    "heap_ok (v_heap s1) (insert (k, p) B)" "\<forall>a. mem_read a s1 = mem_read a s" "s1 = s\<lparr>v_heap := v_heap s1\<rparr>"
    "fresh_page pcb s1 (page_addr p)" "\<forall>(j, q) \<in> B. q \<noteq> p" "buddy (v_heap s1) = snd (alloc_pages 0 (buddy (v_heap s)))"
proof -
  have h: "heap_ok (v_heap s) B" using o by (simp add: vm_owned_def)
  have sz: "0 < unat VM_PAGE_SIZE" "unat VM_PAGE_SIZE \<le> 65536" by (simp_all add: VM_PAGE_SIZE_def)
  have one: "kmalloc VM_PAGE_SIZE (v_heap s) = Some (KERNEL_ENTRY OR fst (alloc_pages 0 (buddy (v_heap s))),
      (v_heap s)\<lparr>buddy := snd (alloc_pages 0 (buddy (v_heap s)))\<rparr>)"
    using h by (intro kmalloc_one_page) (simp add: heap_ok_def)
  show ?thesis
  proof (rule kmalloc_heap [OF h sz])
    assume "kmalloc VM_PAGE_SIZE (v_heap s) = Some (KERNEL_ENTRY, v_heap s)"
    then show ?thesis using ok by (simp add: page_left_def vm_kmalloc_def)
  next
    fix k p h'
    assume m: "kmalloc VM_PAGE_SIZE (v_heap s) = Some (page_addr p, h')" "heap_ok h' (insert (k, p) B)" "words h' = words (v_heap s)"
      "p < 2 ^ 19" "\<forall>(j, q) \<in> B. q \<noteq> p"
    let ?s1 = "s\<lparr>v_heap := h'\<rparr>"
    have rd: "mem_read a ?s1 = mem_read a s" for a using m(3) by (simp add: mem_read_def)
    have e: "ptd_of pcb ?s1 = ptd_of pcb s" by (simp add: ptd_of_def)
    then have pe: "pt_of pcb ?s1 i = pt_of pcb s i" for i unfolding pt_of_def by (simp add: rd)
    have "ptd_of pcb s \<noteq> page_addr p" using owned_neq [OF m(2,5)] o by (simp add: vm_owned_def)
    moreover have "unat i < 1024 \<Longrightarrow> pt_of pcb s i \<noteq> page_addr p" for i
      using owned_neq [OF m(2,5)] o page_addr_not_0 [of p] unfolding vm_owned_def by (cases "pt_of pcb s i = 0") auto
    ultimately have "fresh_page pcb ?s1 (page_addr p)"
      using page_addr_aligned page_addr_not_0 by (simp add: fresh_page_def e pe)
    moreover have "buddy h' = snd (alloc_pages 0 (buddy (v_heap s)))" using one m(1) by auto
    ultimately show ?thesis using that [of p ?s1 k] m(1,2,5) rd by (simp add: pt_create_def vm_kmalloc_def)
  qed
qed

lemma pt_create_owned:
  assumes "vm_owned pcb s B" "aspace_ok pcb s" "page_left s"
  obtains k p s1 where "pt_create s = Some (page_addr p, mem_zero (page_addr p) VM_PAGE_SIZE s1)"
    "heap_ok (v_heap s1) (insert (k, p) B)" "\<forall>a. mem_read a s1 = mem_read a s" "v_procs s1 = v_procs s"
    "fresh_page pcb s1 (page_addr p)"
proof (rule zeroed_page_owned [OF assms])
  fix k p s1
  assume h: "pt_create s = Some (page_addr p, mem_zero (page_addr p) VM_PAGE_SIZE s1)"
    "heap_ok (v_heap s1) (insert (k, p) B)" "\<forall>a. mem_read a s1 = mem_read a s" "s1 = s\<lparr>v_heap := v_heap s1\<rparr>" "fresh_page pcb s1 (page_addr p)"
  have "v_procs s1 = v_procs s" using arg_cong [OF h(4), of v_procs] by simp
  then show thesis by (rule that [OF h(1-3) _ h(5)])
qed

lemma same_memory:
  assumes "\<And>a. mem_read a s1 = mem_read a s" "v_procs s1 = v_procs s"
  shows "ptd_of pcb s1 = ptd_of pcb s" "pt_of pcb s1 = pt_of pcb s" "xlate pcb s1 = xlate pcb s" "aspace_ok pcb s1 = aspace_ok pcb s"
proof -
  show e: "ptd_of pcb s1 = ptd_of pcb s" using assms by (simp add: ptd_of_def)
  show p: "pt_of pcb s1 = pt_of pcb s" by (rule ext) (simp add: pt_of_def e assms)
  show "xlate pcb s1 = xlate pcb s" by (rule ext) (simp add: xlate_def p assms Let_def)
  show "aspace_ok pcb s1 = aspace_ok pcb s" by (simp add: aspace_ok_def e p)
qed

lemma heap_of_writes [simp]:
  "heap_ok (v_heap (mem_write a v s)) B = heap_ok (v_heap s) B" "heap_ok (v_heap (mem_zero a n s)) B = heap_ok (v_heap s) B"
  by (simp_all add: mem_write_def mem_zero_def store_def heap_ok_def slab_ready_def heap_owned_def)

lemma set_mapping_spec:
  assumes a: "aspace_ok pcb s" and o: "vm_owned pcb s B"
    and ok: "page_left s"
  shows "\<exists>s' B'. vma_set_mapping pcb va pa s = Some s' \<and> aspace_ok pcb s' \<and> vm_owned pcb s' B' \<and> B \<subseteq> B'
    \<and> (\<forall>vb. xlate pcb s' vb = (if drop_bit 12 vb = drop_bit 12 va then pa else xlate pcb s vb))"
proof -
  let ?i = "get_ptd_index va" and ?j = "get_pt_index va"
  have ptd0: "ptd_of pcb s \<noteq> 0" using a by (simp add: aspace_ok_def)
  have idx: "get_ptd_index vb = ?i \<and> get_pt_index vb = ?j \<longleftrightarrow> drop_bit 12 vb = drop_bit 12 va" for vb by (rule index_eq_iff)
  show ?thesis
  proof (cases "pt_of pcb s ?i = 0")
    case False
    let ?pt = "pt_of pcb s ?i"
    let ?s' = "mem_write (slot ?pt ?j) pa s"
    note w = write_entry [OF a index_bounds(1) refl False index_bounds(2), where pa = pa]
    have "vma_set_mapping pcb va pa s = Some ?s'"
      using ptd0 False by (simp add: vma_set_mapping_def pt_of_def ptd_of_def Let_def)
    moreover have "vm_owned pcb ?s' B" using o w(2,3) by (simp add: vm_owned_def)
    ultimately show ?thesis using w(1,4) idx by auto
  next
    case True
    obtain k p s1 where c: "pt_create s = Some (page_addr p, mem_zero (page_addr p) VM_PAGE_SIZE s1)"
      "heap_ok (v_heap s1) (insert (k, p) B)" "\<forall>a. mem_read a s1 = mem_read a s" "v_procs s1 = v_procs s"
      "fresh_page pcb s1 (page_addr p)"
      by (rule pt_create_owned [OF o a ok])
    note sm = same_memory [OF c(3) [rule_format] c(4)]
    have a1: "aspace_ok pcb s1" "pt_of pcb s1 ?i = 0" using a True sm by simp_all
    let ?s2 = "mem_write (slot (ptd_of pcb s1) ?i) (page_addr p) (mem_zero (page_addr p) VM_PAGE_SIZE s1)"
    note it = install_table [OF a1(1) c(5) index_bounds(1) a1(2)]
    let ?s3 = "mem_write (slot (page_addr p) ?j) pa ?s2"
    note w = write_entry [OF it(1) index_bounds(1) it(3) page_addr_not_0 index_bounds(2), where pa = pa]
    have "vma_set_mapping pcb va pa s = Some ?s3"
      using ptd0 True c(1,4) sm(1) by (simp add: vma_set_mapping_def pt_of_def ptd_of_def Let_def)
    moreover have "vm_owned pcb ?s3 (insert (k, p) B)"
    proof -
      have "table_owned (insert (k, p) B) t" if "table_owned B t" for t using that by (auto simp: table_owned_def)
      moreover have "table_owned (insert (k, p) B) (page_addr p)" by (auto simp: table_owned_def)
      moreover have "pt_of pcb ?s3 u = (if u = ?i then page_addr p else pt_of pcb s u)" if "unat u < 1024" for u
        using w(3) [OF that] it(3) sm(2) pt_of_install [OF a1(1) c(5) index_bounds(1) that] by simp
      ultimately show ?thesis using o c(2) w(2) it(2) sm(1) by (auto simp: vm_owned_def)
    qed
    ultimately show ?thesis using w(1,4) it(4) idx sm(3) by (intro exI [of _ ?s3] exI [of _ "insert (k, p) B"]) auto
  qed
qed

section \<open>TLB entries\<close>

lemma tlb_delete_fold:
  "v_tlb (fold (tlb_delete_step asid) [0..<n] s) = (\<lambda>i. if i < n \<and> te_hi (v_tlb s i) AND 0xFF = asid
      then \<lparr>te_hi = 0, te_lo0 = 0, te_lo1 = 0, te_mask = 0\<rparr> else v_tlb s i)
   \<and> v_entry_hi (fold (tlb_delete_step asid) [0..<n] s) = (case n of 0 \<Rightarrow> v_entry_hi s
      | Suc m \<Rightarrow> if te_hi (v_tlb s m) AND 0xFF = asid then 0 else te_hi (v_tlb s m))
   \<and> v_heap (fold (tlb_delete_step asid) [0..<n] s) = v_heap s
   \<and> v_procs (fold (tlb_delete_step asid) [0..<n] s) = v_procs s
   \<and> v_shared (fold (tlb_delete_step asid) [0..<n] s) = v_shared s"
proof (induction n)
  case (Suc n)
  then show ?case by (auto simp: tlb_delete_step_def Let_def fun_eq_iff less_Suc_eq)
qed simp

lemma tlb_delete_fields [simp]:
  "v_heap (tlb_delete asid s) = v_heap s" "v_procs (tlb_delete asid s) = v_procs s" "v_shared (tlb_delete asid s) = v_shared s"
  using tlb_delete_fold [of asid 32 s] by (simp_all add: tlb_delete_def)

text \<open>
  The processor's reading of an entry (MIPS32): the virtual page pair and the ASID must match, bit 12
  selects the half, and the frame number stands above the six flag bits.
\<close>

definition tlb_hit :: "tlb_entry \<Rightarrow> u32 \<Rightarrow> u32 \<Rightarrow> u32 option" where
  "tlb_hit e asid va =
     (if te_hi e = (va AND 0xFFFFE000) OR asid
      then let lo = (if bit va 12 then te_lo1 e else te_lo0 e)
           in if bit lo 1 then Some (push_bit 12 (drop_bit 6 lo) OR (va AND 0xFFF)) else None
      else None)"

lemma entry_lo_bits: "bit (get_entry_lo pte) i \<longleftrightarrow> (if i < 6 then 1 \<le> i \<and> i \<le> 4 else i < 26 \<and> bit (pte - 0x80000000) (i + 6))"
proof -
  have c: "push_bit 3 3 OR 0x06 = (push_bit 1 (mask 4) :: u32)" by (simp add: mask_eq_exp_minus_1 push_bit_eq_mult)
  have e: "get_entry_lo pte = push_bit 6 (drop_bit 12 (pte - 0x80000000)) OR push_bit 1 (mask 4)"
    unfolding get_entry_lo_def or.assoc c ..
  have m: "bit (push_bit 1 (mask 4) :: u32) i \<longleftrightarrow> 1 \<le> i \<and> i \<le> 4"
    unfolding bit_push_bit_iff bit_mask_iff by auto
  have f: "bit (push_bit 6 (drop_bit 12 (pte - 0x80000000))) i \<longleftrightarrow> 6 \<le> i \<and> i < 26 \<and> bit (pte - 0x80000000) (i + 6)"
  proof -
    have "6 \<le> i \<Longrightarrow> 12 + (i - 6) = i + 6" by simp
    then show ?thesis unfolding bit_push_bit_iff bit_drop_bit_eq comp_def
      by (auto dest: bit_imp_le_length simp: add.commute)
  qed
  show ?thesis unfolding e bit_or_iff m f by auto
qed

lemma entry_lo_frame:
  assumes "page_aligned pte"
  shows "push_bit 12 (drop_bit 6 (get_entry_lo pte)) = pte - 0x80000000" "bit (get_entry_lo pte) 1"
proof -
  have "4096 dvd unat (pte - 0x80000000)"
  proof -
    have "4096 dvd unat pte" "4096 dvd unat (0x80000000 :: u32)" using assms by (simp_all add: page_aligned_def)
    moreover have "(4096 :: nat) dvd 2 ^ 32" by simp
    ultimately show ?thesis unfolding unat_sub_if_size word_size by (auto intro!: dvd_diff_nat dvd_add simp del: unsigned_numeral)
  qed
  then have "unat (take_bit 12 (pte - 0x80000000)) = 0" unfolding unsigned_take_bit_eq by (simp add: take_bit_eq_mod)
  then have "take_bit 12 (pte - 0x80000000) = 0" by (rule unat_eq_zero [THEN iffD1])
  then have low: "\<not> bit (pte - 0x80000000) i" if "i < 12" for i using that by (auto simp: take_bit_0_iff)
  show "push_bit 12 (drop_bit 6 (get_entry_lo pte)) = pte - 0x80000000"
  proof (rule bit_word_eqI)
    fix i assume i: "i < LENGTH(32)"
    show "bit (push_bit 12 (drop_bit 6 (get_entry_lo pte))) i = bit (pte - 0x80000000) i"
    proof (cases "i < 12")
      case True
      then show ?thesis using low by (simp add: bit_push_bit_iff)
    next
      case False
      then have "6 + (i - 12) = i - 6" "i - 6 + 6 = i" "\<not> i - 6 < 6" "i - 6 < 26" using i by auto
      then show ?thesis using False i by (simp add: bit_push_bit_iff bit_drop_bit_eq entry_lo_bits)
    qed
  qed
  show "bit (get_entry_lo pte) 1" by (simp add: entry_lo_bits)
qed

text \<open>A refill for a mapped pair of pages.\<close>

lemma pair_index:
  "drop_bit 13 va = drop_bit 13 vb \<Longrightarrow> get_ptd_index va = get_ptd_index vb
    \<and> get_pt_index vb = (if bit va 12 = bit vb 12 then get_pt_index va else get_pt_index va XOR 1)"
proof -
  assume e: "drop_bit 13 va = drop_bit 13 vb"
  have b: "bit va i = bit vb i" if "13 \<le> i" for i
  proof -
    have "bit (drop_bit 13 va) (i - 13) = bit (drop_bit 13 vb) (i - 13)" using e by simp
    then show ?thesis using that by (simp add: bit_simps)
  qed
  have "get_ptd_index va = get_ptd_index vb"
    unfolding get_ptd_index_def by (rule bit_word_eqI) (use b in \<open>simp add: bit_simps\<close>)
  moreover have "get_pt_index vb = (if bit va 12 = bit vb 12 then get_pt_index va else get_pt_index va XOR 1)"
    unfolding pt_index_bits
  proof (rule bit_word_eqI)
    fix i assume "i < LENGTH(32)"
    show "bit (take_bit 10 (drop_bit 12 vb)) i
        = bit (if bit va 12 = bit vb 12 then take_bit 10 (drop_bit 12 va) else take_bit 10 (drop_bit 12 va) XOR 1) i"
      using b [of "12 + i"] by (cases "i = 0") (auto simp: bit_simps bit_1_iff)
  qed
  ultimately show ?thesis by blast
qed

lemma pt_index_parity: "get_pt_index va AND 1 = 0 \<longleftrightarrow> \<not> bit va 12"
proof -
  have "get_pt_index va AND 1 = 0 \<longleftrightarrow> \<not> bit (get_pt_index va) 0" using and_exp_eq_0_iff_not_bit [of "get_pt_index va" 0] by simp
  then show ?thesis unfolding pt_index_bits by (simp add: bit_simps)
qed

lemma tlb_refill_mapped:
  assumes a: "aspace_ok cur s" and c: "v_current s = cur" and va: "v_badvaddr s = va"
    and m: "xlate cur s va \<noteq> 0" "xlate cur s (va XOR 0x1000) \<noteq> 0"
  defines "hi \<equiv> (va AND 0xFFFFE000) OR (v_entry_hi s AND 0xFF)"
  shows "tlb_refill r s = Some (s\<lparr>v_ie := v_ie s, v_entry_hi := hi, v_tlb := (v_tlb s)(r := \<lparr>te_hi = hi,
      te_lo0 = get_entry_lo (if bit va 12 then xlate cur s (va XOR 0x1000) else xlate cur s va),
      te_lo1 = get_entry_lo (if bit va 12 then xlate cur s va else xlate cur s (va XOR 0x1000)), te_mask = 0\<rparr>)\<rparr>)"
proof -
  have k: "(0x1000 :: u32) = push_bit 12 1" by simp
  have x: "drop_bit 13 va = drop_bit 13 (va XOR 0x1000)" "bit (va XOR 0x1000) 12 \<longleftrightarrow> \<not> bit va 12"
    unfolding k by (auto intro!: bit_word_eqI simp: bit_simps simp del: push_bit_of_1)
  have i: "get_ptd_index (va XOR 0x1000) = get_ptd_index va" "get_pt_index (va XOR 0x1000) = get_pt_index va XOR 1"
    using pair_index [OF x(1)] x(2) by auto
  have pt: "pt_of cur s (get_ptd_index va) \<noteq> 0" and e: "mem_read (slot (pt_of cur s (get_ptd_index va)) (get_pt_index va)) s = xlate cur s va"
    "mem_read (slot (pt_of cur s (get_ptd_index va)) (get_pt_index va XOR 1)) s = xlate cur s (va XOR 0x1000)"
    using m i by (auto simp: xlate_def Let_def split: if_splits)
  have ptd: "ptd_of cur s \<noteq> 0" using a by (simp add: aspace_ok_def)
  have ro: "mem_read x (s\<lparr>v_ie := b\<rparr>) = mem_read x s" for x b by (simp add: mem_read_def)
  show ?thesis
    using ptd pt e m c va
    by (simp add: tlb_refill_def Let_def ptd_of_def pt_of_def ro get_entry_hi_def hi_def pt_index_parity)
qed

lemma tlb_hit_pair:
  assumes a: "aspace_ok cur s" and c: "v_current s = cur" and va: "v_badvaddr s = va"
    and m: "xlate cur s va \<noteq> 0" "xlate cur s (va XOR 0x1000) \<noteq> 0"
    and al: "page_aligned (xlate cur s va)" "page_aligned (xlate cur s (va XOR 0x1000))"
  shows "\<exists>s'. tlb_refill r s = Some s' \<and> v_entry_hi s' AND 0xFF = v_entry_hi s AND 0xFF
    \<and> (\<forall>vb. drop_bit 13 vb = drop_bit 13 va \<longrightarrow>
        tlb_hit (v_tlb s' r) (v_entry_hi s AND 0xFF) vb = Some ((xlate cur s vb - 0x80000000) OR (vb AND 0xFFF)))"
proof -
  have m13: "(0xFFFFE000 :: u32) = NOT (mask 13)" by (simp add: mask_eq_exp_minus_1)
  have m8: "(0xFF :: u32) = mask 8" by (simp add: mask_eq_exp_minus_1)
  have asid: "((va AND 0xFFFFE000) OR (v_entry_hi s AND 0xFF)) AND 0xFF = v_entry_hi s AND 0xFF"
    unfolding m13 m8 by (rule bit_word_eqI) (auto simp: bit_simps)
  have k: "(0x1000 :: u32) = push_bit 12 1" by simp
  have x: "drop_bit 13 va = drop_bit 13 (va XOR 0x1000)" "bit (va XOR 0x1000) 12 \<longleftrightarrow> \<not> bit va 12"
    unfolding k by (auto intro!: bit_word_eqI simp: bit_simps simp del: push_bit_of_1)
  have hit: "tlb_hit \<lparr>te_hi = (va AND 0xFFFFE000) OR (v_entry_hi s AND 0xFF),
      te_lo0 = get_entry_lo (if bit va 12 then xlate cur s (va XOR 0x1000) else xlate cur s va),
      te_lo1 = get_entry_lo (if bit va 12 then xlate cur s va else xlate cur s (va XOR 0x1000)), te_mask = 0\<rparr>
      (v_entry_hi s AND 0xFF) vb = Some ((xlate cur s vb - 0x80000000) OR (vb AND 0xFFF))"
    if e: "drop_bit 13 vb = drop_bit 13 va" for vb
  proof -
    have hi: "vb AND 0xFFFFE000 = va AND 0xFFFFE000" unfolding m13 and_not_mask e ..
    have same: "xlate cur s vb = (if bit vb 12 = bit va 12 then xlate cur s va else xlate cur s (va XOR 0x1000))"
      using pair_index [OF e [symmetric]] pair_index [OF x(1)] x(2) by (auto simp: xlate_def Let_def)
    show ?thesis
      using entry_lo_frame [OF al(1)] entry_lo_frame [OF al(2)] unfolding tlb_hit_def hi same by (simp add: Let_def)
  qed
  show ?thesis using tlb_refill_mapped [OF a c va m, of r] hit asid by simp
qed

subsection \<open>Filling\<close>

lemma zero_fresh:
  assumes a: "aspace_ok pcb s" and f: "fresh_page pcb s t"
  defines "z \<equiv> mem_zero t VM_PAGE_SIZE s"
  shows "ptd_of pcb z = ptd_of pcb s" "unat k < 1024 \<Longrightarrow> pt_of pcb z k = pt_of pcb s k" "xlate pcb z va = xlate pcb s va" "aspace_ok pcb z"
    "unat k < 1024 \<Longrightarrow> mem_read (slot t k) z = 0" "page_aligned u \<Longrightarrow> u \<noteq> t \<Longrightarrow> unat k < 1024 \<Longrightarrow> mem_read (slot u k) z = mem_read (slot u k) s"
proof -
  have t: "page_aligned t" "t \<noteq> ptd_of pcb s" and ptd: "page_aligned (ptd_of pcb s)" using a f by (simp_all add: fresh_page_def aspace_ok_def)
  have zero: "mem_read (slot t k) z = 0" if "unat k < 1024" for k using slot_in_page [OF t(1) t(1) that] by (simp add: z_def VM_PAGE_SIZE_def)
  have keep: "mem_read (slot u k) z = mem_read (slot u k) s" if "page_aligned u" "u \<noteq> t" "unat k < 1024" for u k
    using slot_in_page [OF that(1) t(1) that(3)] that(2) by (simp add: z_def VM_PAGE_SIZE_def)
  show e: "ptd_of pcb z = ptd_of pcb s" by (simp add: z_def ptd_of_def)
  have pe: "pt_of pcb z k = pt_of pcb s k" if "unat k < 1024" for k unfolding pt_of_def e using keep [OF ptd _ that] t(2) by simp
  show "unat k < 1024 \<Longrightarrow> pt_of pcb z k = pt_of pcb s k" by (rule pe)
  show "aspace_ok pcb z" using a pe e by (simp add: aspace_ok_def)
  show "xlate pcb z va = xlate pcb s va"
    using pe [OF index_bounds(1), of va] keep [OF aspaceD(1) [OF a index_bounds(1)] _ index_bounds(2), of va va] f index_bounds(1) [of va]
    by (auto simp: xlate_def Let_def fresh_page_def)
  show "unat k < 1024 \<Longrightarrow> mem_read (slot t k) z = 0" by (rule zero)
  show "page_aligned u \<Longrightarrow> u \<noteq> t \<Longrightarrow> unat k < 1024 \<Longrightarrow> mem_read (slot u k) z = mem_read (slot u k) s" by (rule keep)
qed

lemma table_owned_mono: "table_owned B t \<Longrightarrow> B \<subseteq> B' \<Longrightarrow> table_owned B' t"
  by (auto simp: table_owned_def)

text \<open>\<open>s'\<close> is \<open>s\<close> with more memory in use, all of it for the address space of \<open>pcb\<close>.\<close>

definition grown :: "nat \<Rightarrow> nat \<Rightarrow> vm_state \<Rightarrow> (nat \<times> nat) set \<Rightarrow> vm_state \<Rightarrow> (nat \<times> nat) set \<Rightarrow> bool" where
  "grown pcb n s B s' B' \<longleftrightarrow> aspace_ok pcb s' \<and> vm_owned pcb s' B' \<and> B \<subseteq> B' \<and> s' = s\<lparr>v_heap := v_heap s'\<rparr> \<and> pages_left n (buddy (v_heap s'))"

lemma write_heap: "buddy (v_heap (mem_write a v s)) = buddy (v_heap s)" "buddy (v_heap (mem_zero t n s)) = buddy (v_heap s)"
  by (simp_all add: mem_write_def mem_zero_def store_def)

lemma grown_write:
  assumes "s1 = s\<lparr>v_heap := v_heap s1\<rparr>"
  shows "mem_write a v (mem_zero t n s1) = s\<lparr>v_heap := v_heap (mem_write a v (mem_zero t n s1))\<rparr>"
proof -
  obtain h where "s1 = s\<lparr>v_heap := h\<rparr>" using assms by blast
  then show ?thesis by (simp add: mem_write_def mem_zero_def store_def)
qed

lemma new_table:
  assumes g: "aspace_ok pcb s" "vm_owned pcb s B" "pages_left (Suc n) (buddy (v_heap s))" and i: "unat i < 1024" "pt_of pcb s i = 0"
  shows "\<exists>t z B'. pt_create s = Some (t, z) \<and> grown pcb n s B (mem_write (slot (ptd_of pcb s) i) t z) B'
    \<and> t \<noteq> 0 \<and> pt_of pcb (mem_write (slot (ptd_of pcb s) i) t z) i = t
    \<and> xlate pcb (mem_write (slot (ptd_of pcb s) i) t z) = xlate pcb s"
proof -
  have ok: "page_left s" using g(2,3) page_left_heap [of s B] by (simp add: vm_owned_def)
  obtain k p s1 where c: "pt_create s = Some (page_addr p, mem_zero (page_addr p) VM_PAGE_SIZE s1)"
    "heap_ok (v_heap s1) (insert (k, p) B)" "\<forall>a. mem_read a s1 = mem_read a s" "s1 = s\<lparr>v_heap := v_heap s1\<rparr>"
    "fresh_page pcb s1 (page_addr p)" "buddy (v_heap s1) = snd (alloc_pages 0 (buddy (v_heap s)))"
    by (rule zeroed_page_owned [OF g(2,1) ok])
  have vp: "v_procs s1 = v_procs s" using arg_cong [OF c(4), of v_procs] by simp
  note sm = same_memory [OF c(3) [rule_format] vp]
  have a1: "aspace_ok pcb s1" "pt_of pcb s1 i = 0" using g(1) i sm by simp_all
  let ?s = "mem_write (slot (ptd_of pcb s1) i) (page_addr p) (mem_zero (page_addr p) VM_PAGE_SIZE s1)"
  note it = install_table [OF a1(1) c(5) i(1) a1(2)]
  have pe: "pt_of pcb ?s u = (if u = i then page_addr p else pt_of pcb s u)" if "unat u < 1024" for u
    using pt_of_install [OF a1(1) c(5) i(1) that] sm(2) by simp
  have "table_owned (insert (k, p) B) t" if "table_owned B t" for t using that by (rule table_owned_mono) auto
  moreover have "table_owned (insert (k, p) B) (page_addr p)" by (auto simp: table_owned_def)
  ultimately have "vm_owned pcb ?s (insert (k, p) B)" using g(2) c(2) it(2) sm(1) pe by (auto simp: vm_owned_def)
  moreover have "?s = s\<lparr>v_heap := v_heap ?s\<rparr>" by (rule grown_write [OF c(4)])
  moreover have "pages_left n (buddy (v_heap ?s))" using g(3) c(6) by (simp add: write_heap)
  ultimately have "grown pcb n s B ?s (insert (k, p) B)" unfolding grown_def using it(1) by blast
  moreover have "xlate pcb ?s = xlate pcb s" using it(4) sm(3) by (simp add: fun_eq_iff)
  ultimately show ?thesis using c(1) it(3) sm(1) page_addr_not_0 [of p] by (intro exI [of _ "page_addr p"] exI [of _ "mem_zero (page_addr p) VM_PAGE_SIZE s1"] exI [of _ "insert (k, p) B"]) simp
qed

text \<open>A new page \<open>t\<close>, one of the pages \<open>B' - B\<close>, with nothing but zeros.\<close>

definition new_page :: "vm_state \<Rightarrow> (nat \<times> nat) set \<Rightarrow> u32 \<Rightarrow> bool" where
  "new_page s' N t \<longleftrightarrow> (\<exists>k p. (k, p) \<in> N \<and> t = page_addr p) \<and> (\<forall>i. unat i < 1024 \<longrightarrow> mem_read (slot t i) s' = 0)"

lemma new_entry:
  assumes g: "aspace_ok pcb s" "vm_owned pcb s B" "pages_left (Suc n) (buddy (v_heap s))"
    and i: "unat i < 1024" "pt_of pcb s i = pt" "pt \<noteq> 0" and j: "unat j < 1024"
  shows "\<exists>t z B'. alloc_zeroed_page s = Some (t, z) \<and> grown pcb n s B (mem_write (slot pt j) t z) B' \<and> t \<noteq> 0 \<and> page_aligned t
    \<and> new_page (mem_write (slot pt j) t z) (B' - B) t \<and> mem_read (slot pt j) (mem_write (slot pt j) t z) = t
    \<and> (\<forall>u N. new_page s N u \<longrightarrow> N \<subseteq> B \<longrightarrow> u \<noteq> pt \<longrightarrow> new_page (mem_write (slot pt j) t z) N u)
    \<and> pt_of pcb (mem_write (slot pt j) t z) i = pt
    \<and> xlate pcb (mem_write (slot pt j) t z) = (\<lambda>va. if get_ptd_index va = i \<and> get_pt_index va = j then t else xlate pcb s va)"
proof -
  have ok: "page_left s" using g(2,3) page_left_heap [of s B] by (simp add: vm_owned_def)
  obtain k p s1 where c: "pt_create s = Some (page_addr p, mem_zero (page_addr p) VM_PAGE_SIZE s1)"
    "heap_ok (v_heap s1) (insert (k, p) B)" "\<forall>a. mem_read a s1 = mem_read a s" "s1 = s\<lparr>v_heap := v_heap s1\<rparr>"
    "fresh_page pcb s1 (page_addr p)" "\<forall>(j, q) \<in> B. q \<noteq> p" "buddy (v_heap s1) = snd (alloc_pages 0 (buddy (v_heap s)))"
    by (rule zeroed_page_owned [OF g(2,1) ok])
  have vp: "v_procs s1 = v_procs s" using arg_cong [OF c(4), of v_procs] by simp
  note sm = same_memory [OF c(3) [rule_format] vp]
  have a1: "aspace_ok pcb s1" "pt_of pcb s1 i = pt" using g(1) i sm by simp_all
  let ?t = "page_addr p"
  let ?z = "mem_zero ?t VM_PAGE_SIZE s1"
  let ?s = "mem_write (slot pt j) ?t ?z"
  note zf = zero_fresh [OF a1(1) c(5)]
  have az: "pt_of pcb ?z i = pt" using zf(2) [OF i(1)] a1(2) by simp
  note w = write_entry [OF zf(4) i(1) az i(3) j, where pa = ?t]
  have pa: "page_aligned pt" using aspaceD(1) [OF a1(1) i(1)] a1(2) i(3) by simp
  have npt: "pt \<noteq> ?t" using c(5) a1(2) i(1) by (auto simp: fresh_page_def)
  have pe: "pt_of pcb ?s u = pt_of pcb s u" if "unat u < 1024" for u using w(3) [OF that] zf(2) [OF that] sm(2) by simp
  have mono: "table_owned (insert (k, p) B) t" if "table_owned B t" for t using that by (rule table_owned_mono) auto
  have "vm_owned pcb ?s (insert (k, p) B)" using g(2) c(2) w(2) zf(1) sm(1) pe mono by (simp add: vm_owned_def)
  moreover have "?s = s\<lparr>v_heap := v_heap ?s\<rparr>" by (rule grown_write [OF c(4)])
  moreover have "pages_left n (buddy (v_heap ?s))" using g(3) c(7) by (simp add: write_heap)
  ultimately have gr: "grown pcb n s B ?s (insert (k, p) B)" unfolding grown_def using w(1) by blast
  have zero: "mem_read (slot ?t l) ?s = 0" if "unat l < 1024" for l
    using zf(5) [OF that] slot_eq_iff [OF page_addr_aligned pa that j, of p] npt by (auto simp del: mem_simps(2))
  have "(k, p) \<in> insert (k, p) B - B" using c(6) by auto
  then have np: "new_page ?s (insert (k, p) B - B) ?t" unfolding new_page_def using zero by blast
  have other: "new_page ?s N u" if n: "new_page s N u" "N \<subseteq> B" "u \<noteq> pt" for u N
  proof -
    obtain l q where q: "(l, q) \<in> N" "u = page_addr q" using n(1) by (auto simp: new_page_def)
    then have "table_owned B u" using n(2) by (auto simp: table_owned_def)
    then have ne: "u \<noteq> ?t" by (rule owned_neq [OF c(2,6)])
    have ua: "page_aligned u" using q(2) page_addr_aligned by simp
    have "mem_read (slot u m) ?s = 0" if "unat m < 1024" for m
      using zf(6) [OF ua ne that] slot_eq_iff [OF ua pa that j] n(1,3) c(3) that by (auto simp: new_page_def simp del: mem_simps(2))
    then show ?thesis using q by (auto simp: new_page_def)
  qed
  have x: "xlate pcb ?s = (\<lambda>va. if get_ptd_index va = i \<and> get_pt_index va = j then ?t else xlate pcb s va)"
    using w(4) zf(3) sm(3) by (simp add: fun_eq_iff)
  have "alloc_zeroed_page s = Some (?t, ?z)" using c(1) by (simp add: alloc_zeroed_page_def pt_create_def)
  then show ?thesis using gr np other x page_addr_not_0 [of p] page_addr_aligned [of p] pe [OF i(1)] i(2)
    by (intro exI [of _ ?t] exI [of _ ?z] exI [of _ "insert (k, p) B"]) simp
qed


text \<open>The pages that a refill of \<open>va\<close> asks for: a table and the two pages of the pair, where they are missing.\<close>

definition missing :: "nat \<Rightarrow> vm_state \<Rightarrow> u32 \<Rightarrow> nat" where
  "missing cur s va = of_bool (pt_of cur s (get_ptd_index va) = 0) + of_bool (xlate cur s va = 0) + of_bool (xlate cur s (va XOR 0x1000) = 0)"

lemma grown_trans:
  assumes "grown p n s B s1 B1" "grown p m s1 B1 s2 B2"
  shows "grown p m s B s2 B2"
proof -
  have e: "s1 = s\<lparr>v_heap := v_heap s1\<rparr>" "s2 = s1\<lparr>v_heap := v_heap s2\<rparr>" using assms unfolding grown_def by blast+
  obtain h where h: "s1 = s\<lparr>v_heap := h\<rparr>" using e(1) by blast
  obtain h' where h': "s2 = s1\<lparr>v_heap := h'\<rparr>" using e(2) by blast
  have "s2 = s\<lparr>v_heap := v_heap s2\<rparr>" unfolding h' h by simp
  then show ?thesis using assms unfolding grown_def by blast
qed

lemma new_page_mono: "new_page s N u \<Longrightarrow> N \<subseteq> M \<Longrightarrow> new_page s M u"
  unfolding new_page_def by blast

text \<open>One of the two entries of the pair is present or filled.\<close>

lemma fill_entry:
  assumes g: "grown cur n0 s0 B0 s B" "pages_left (of_bool (xlate cur s vb = 0) + n) (buddy (v_heap s))"
    and i: "i = get_ptd_index vb" "pt_of cur s i = pt" "pt \<noteq> 0" "j = get_pt_index vb"
    and al: "page_aligned (xlate cur s vb)"
    and np: "N \<subseteq> B" "B0 \<subseteq> B"
  shows "\<exists>e s' B'. (if mem_read (slot pt j) s = 0 then do { (t, z) \<leftarrow> alloc_zeroed_page s; Some (t, mem_write (slot pt j) t z) }
        else Some (mem_read (slot pt j) s, s)) = Some (e, s')
    \<and> grown cur n s0 B0 s' B' \<and> B \<subseteq> B' \<and> pt_of cur s' i = pt \<and> mem_read (slot pt j) s' = e \<and> e \<noteq> 0 \<and> page_aligned e
    \<and> (xlate cur s vb = 0 \<longrightarrow> new_page s' (B' - B0) e) \<and> (\<forall>u. new_page s N u \<longrightarrow> u \<noteq> pt \<longrightarrow> new_page s' N u)
    \<and> xlate cur s' = (\<lambda>va. if drop_bit 12 va = drop_bit 12 vb then e else xlate cur s va)"
proof -
  have r: "mem_read (slot pt j) s = xlate cur s vb" using i by (simp add: xlate_def Let_def)
  have idx: "get_ptd_index va = i \<and> get_pt_index va = j \<longleftrightarrow> drop_bit 12 va = drop_bit 12 vb" for va unfolding i(1,4) by (rule index_eq_iff)
  have gs: "aspace_ok cur s" "vm_owned cur s B" "s = s0\<lparr>v_heap := v_heap s\<rparr>" using g(1) unfolding grown_def by blast+
  show ?thesis
  proof (cases "xlate cur s vb = 0")
    case True
    have ib: "unat i < 1024" "unat j < 1024" unfolding i by (rule index_bounds)+
    have pl: "pages_left (Suc n) (buddy (v_heap s))" using g(2) True by simp
    obtain t z B' where t: "alloc_zeroed_page s = Some (t, z)" "grown cur n s B (mem_write (slot pt j) t z) B'" "t \<noteq> 0" "page_aligned t"
      "new_page (mem_write (slot pt j) t z) (B' - B) t" "mem_read (slot pt j) (mem_write (slot pt j) t z) = t"
      "\<forall>u N. new_page s N u \<longrightarrow> N \<subseteq> B \<longrightarrow> u \<noteq> pt \<longrightarrow> new_page (mem_write (slot pt j) t z) N u"
      "pt_of cur (mem_write (slot pt j) t z) i = pt"
      "xlate cur (mem_write (slot pt j) t z) = (\<lambda>va. if get_ptd_index va = i \<and> get_pt_index va = j then t else xlate cur s va)"
      using new_entry [OF gs(1,2) pl ib(1) i(2,3) ib(2)] by blast
    let ?s = "mem_write (slot pt j) t z"
    have "new_page ?s (B' - B0) t" using t(5) by (rule new_page_mono) (use np(2) in blast)
    moreover have "grown cur n s0 B0 ?s B'" by (rule grown_trans [OF g(1) t(2)])
    moreover have "B \<subseteq> B'" using t(2) unfolding grown_def by blast
    ultimately show ?thesis using t True r np(1) unfolding idx
      by (intro exI [of _ t] exI [of _ ?s] exI [of _ B']) simp
  next
    case False
    have x: "xlate cur s va = xlate cur s vb" if "drop_bit 12 va = drop_bit 12 vb" for va
      using that unfolding index_eq_iff [symmetric] by (simp add: xlate_def Let_def)
    have "grown cur n s0 B0 s B" using g False unfolding grown_def by auto
    moreover have "xlate cur s = (\<lambda>va. if drop_bit 12 va = drop_bit 12 vb then xlate cur s vb else xlate cur s va)"
      by (rule ext) (use x in metis)
    moreover have "(if mem_read (slot pt j) s = 0 then do { (t, z) \<leftarrow> alloc_zeroed_page s; Some (t, mem_write (slot pt j) t z) }
        else Some (mem_read (slot pt j) s, s)) = Some (xlate cur s vb, s)" using False r by simp
    ultimately show ?thesis using False r al i(2) by blast
  qed
qed

lemma other_half:
  "get_ptd_index (va XOR 0x1000) = get_ptd_index va" "get_pt_index (va XOR 0x1000) = get_pt_index va XOR 1"
  "drop_bit 12 va \<noteq> drop_bit 12 (va XOR 0x1000)" "drop_bit 13 vb = drop_bit 13 va \<longleftrightarrow> drop_bit 12 vb = drop_bit 12 va \<or> drop_bit 12 vb = drop_bit 12 (va XOR 0x1000)"
proof -
  have k: "(0x1000 :: u32) = push_bit 12 1" by simp
  have x: "drop_bit 13 va = drop_bit 13 (va XOR 0x1000)" "bit (va XOR 0x1000) 12 \<longleftrightarrow> \<not> bit va 12"
    unfolding k by (auto intro!: bit_word_eqI simp: bit_simps simp del: push_bit_of_1)
  show i: "get_ptd_index (va XOR 0x1000) = get_ptd_index va" "get_pt_index (va XOR 0x1000) = get_pt_index va XOR 1"
    using pair_index [OF x(1)] x(2) by auto
  have b: "bit (drop_bit 12 v) 0 = bit v 12" for v :: u32 by (simp add: bit_drop_bit_eq)
  show "drop_bit 12 va \<noteq> drop_bit 12 (va XOR 0x1000)" using b [of va] b [of "va XOR 0x1000"] x(2) by metis
  have d: "drop_bit 13 v = drop_bit 1 (drop_bit 12 v)" for v :: u32 by simp
  show "drop_bit 13 vb = drop_bit 13 va \<longleftrightarrow> drop_bit 12 vb = drop_bit 12 va \<or> drop_bit 12 vb = drop_bit 12 (va XOR 0x1000)"
  proof
    assume e: "drop_bit 13 vb = drop_bit 13 va"
    then show "drop_bit 12 vb = drop_bit 12 va \<or> drop_bit 12 vb = drop_bit 12 (va XOR 0x1000)"
      unfolding index_eq_iff [symmetric] i using pair_index [OF e [symmetric]] by auto
  next
    assume "drop_bit 12 vb = drop_bit 12 va \<or> drop_bit 12 vb = drop_bit 12 (va XOR 0x1000)"
    then show "drop_bit 13 vb = drop_bit 13 va" using d x(1) by metis
  qed
qed

lemma refill_table:
  assumes g: "aspace_ok cur s" "vm_owned cur s B" "pages_left (of_bool (pt_of cur s i = 0) + n) (buddy (v_heap s))" and i: "unat i < 1024"
  shows "\<exists>pt s' B'. (if pt_of cur s i = 0 then do { (pt, z) \<leftarrow> pt_create s; Some (pt, mem_write (slot (ptd_of cur s) i) pt z) } else Some (pt_of cur s i, s)) = Some (pt, s')
    \<and> grown cur n s B s' B' \<and> pt \<noteq> 0 \<and> pt_of cur s' i = pt \<and> xlate cur s' = xlate cur s"
proof (cases "pt_of cur s i = 0")
  case True
  then have "pages_left (Suc n) (buddy (v_heap s))" using g(3) by simp
  then show ?thesis using new_table [OF g(1,2) _ i True, of n] True by force
next
  case False
  have "grown cur n s B s B" using g False unfolding grown_def by auto
  then show ?thesis using False by (intro exI [of _ "pt_of cur s i"] exI [of _ s] exI [of _ B]) simp
qed

lemma vie_same [simp]: "ptd_of p (s\<lparr>v_ie := b\<rparr>) = ptd_of p s" "pt_of p (s\<lparr>v_ie := b\<rparr>) = pt_of p s" "xlate p (s\<lparr>v_ie := b\<rparr>) = xlate p s"
  "aspace_ok p (s\<lparr>v_ie := b\<rparr>) = aspace_ok p s" "vm_owned p (s\<lparr>v_ie := b\<rparr>) B = vm_owned p s B" "new_page (s\<lparr>v_ie := b\<rparr>) N = new_page s N"
proof -
  have m: "mem_read a (s\<lparr>v_ie := b\<rparr>) = mem_read a s" for a by (simp add: mem_read_def)
  show e: "ptd_of p (s\<lparr>v_ie := b\<rparr>) = ptd_of p s" by (simp add: ptd_of_def)
  show t: "pt_of p (s\<lparr>v_ie := b\<rparr>) = pt_of p s" by (rule ext) (simp add: pt_of_def e m)
  show "xlate p (s\<lparr>v_ie := b\<rparr>) = xlate p s" by (rule ext) (simp add: xlate_def t m Let_def)
  show "aspace_ok p (s\<lparr>v_ie := b\<rparr>) = aspace_ok p s" "vm_owned p (s\<lparr>v_ie := b\<rparr>) B = vm_owned p s B" "new_page (s\<lparr>v_ie := b\<rparr>) N = new_page s N"
    by (auto simp: aspace_ok_def vm_owned_def new_page_def e t m fun_eq_iff)
qed

text \<open>A refill is the refill of the tables with what is missing filled in.\<close>

lemma refill_fills:
  assumes a: "aspace_ok cur s" "vm_owned cur s B" and c: "v_current s = cur" "v_badvaddr s = va" and u: "va < 0x10000 \<or> xlate cur s va \<noteq> 0"
    and al: "page_aligned (xlate cur s va)" "page_aligned (xlate cur s (va XOR 0x1000))" and l: "pages_left (missing cur s va) (buddy (v_heap s))"
  shows "\<exists>t B'. tlb_refill r s = tlb_refill r t \<and> aspace_ok cur t \<and> vm_owned cur t B' \<and> B \<subseteq> B' \<and> t = s\<lparr>v_heap := v_heap t\<rparr>
    \<and> (\<forall>vb. drop_bit 13 vb \<noteq> drop_bit 13 va \<or> xlate cur s vb \<noteq> 0 \<longrightarrow> xlate cur t vb = xlate cur s vb)
    \<and> (\<forall>vb. drop_bit 13 vb = drop_bit 13 va \<longrightarrow> xlate cur t vb \<noteq> 0 \<and> page_aligned (xlate cur t vb))
    \<and> (\<forall>vb. drop_bit 13 vb = drop_bit 13 va \<longrightarrow> xlate cur s vb = 0 \<longrightarrow> new_page t (B' - B) (xlate cur t vb))"
proof -
  let ?i = "get_ptd_index va" and ?j = "get_pt_index va" and ?vn = "va XOR 0x1000"
  let ?s = "s\<lparr>v_ie := False\<rparr>"
  note oh = other_half [where va = va]
  have ib: "unat ?i < 1024" by (rule index_bounds)
  have x12: "xlate cur s vb = xlate cur s vc" if "drop_bit 12 vb = drop_bit 12 vc" for vb vc
    using that unfolding index_eq_iff [symmetric] by (simp add: xlate_def Let_def)
  have l0: "pages_left (of_bool (pt_of cur ?s ?i = 0) + (of_bool (xlate cur s va = 0) + of_bool (xlate cur s ?vn = 0))) (buddy (v_heap ?s))"
    using l by (simp add: missing_def add.assoc)
  obtain pt s1 B1 where 1: "(if pt_of cur ?s ?i = 0 then do { (pt, z) \<leftarrow> pt_create ?s; Some (pt, mem_write (slot (ptd_of cur ?s) ?i) pt z) }
      else Some (pt_of cur ?s ?i, ?s)) = Some (pt, s1)"
    "grown cur (of_bool (xlate cur s va = 0) + of_bool (xlate cur s ?vn = 0)) ?s B s1 B1" "pt \<noteq> 0" "pt_of cur s1 ?i = pt" "xlate cur s1 = xlate cur ?s"
    using refill_table [OF _ _ l0 ib, of B] a by auto
  have B1: "B \<subseteq> B1" and p1: "pages_left (of_bool (xlate cur s1 va = 0) + of_bool (xlate cur s ?vn = 0)) (buddy (v_heap s1))"
    using 1(2) unfolding grown_def 1(5) vie_same by blast+
  have al1: "page_aligned (xlate cur s1 va)" using al(1) by (simp add: 1(5))
  obtain e s2 B2 where 2: "(if mem_read (slot pt ?j) s1 = 0 then do { (t, z) \<leftarrow> alloc_zeroed_page s1; Some (t, mem_write (slot pt ?j) t z) }
        else Some (mem_read (slot pt ?j) s1, s1)) = Some (e, s2)"
    "grown cur (of_bool (xlate cur s ?vn = 0)) ?s B s2 B2" "B1 \<subseteq> B2" "pt_of cur s2 ?i = pt" "mem_read (slot pt ?j) s2 = e" "e \<noteq> 0" "page_aligned e"
    "xlate cur s1 va = 0 \<longrightarrow> new_page s2 (B2 - B) e" "xlate cur s2 = (\<lambda>v. if drop_bit 12 v = drop_bit 12 va then e else xlate cur s1 v)"
    using fill_entry [OF 1(2) p1 refl 1(4,3) refl al1 empty_subsetI B1] by blast
  have B2: "B \<subseteq> B2" using B1 2(3) by blast
  have xn: "xlate cur s2 ?vn = xlate cur s ?vn" using oh(3) by (simp add: 2(9) 1(5))
  have p2: "pages_left (of_bool (xlate cur s2 ?vn = 0) + 0) (buddy (v_heap s2))" using 2(2) unfolding grown_def xn add_0_right by blast
  have al2: "page_aligned (xlate cur s2 ?vn)" using al(2) by (simp add: xn)
  obtain f s3 B3 where 3: "(if mem_read (slot pt (?j XOR 1)) s2 = 0 then do { (t, z) \<leftarrow> alloc_zeroed_page s2; Some (t, mem_write (slot pt (?j XOR 1)) t z) }
        else Some (mem_read (slot pt (?j XOR 1)) s2, s2)) = Some (f, s3)"
    "grown cur 0 ?s B s3 B3" "B2 \<subseteq> B3" "pt_of cur s3 ?i = pt" "f \<noteq> 0" "page_aligned f"
    "xlate cur s2 ?vn = 0 \<longrightarrow> new_page s3 (B3 - B) f" "\<forall>u. new_page s2 (B2 - B) u \<longrightarrow> u \<noteq> pt \<longrightarrow> new_page s3 (B2 - B) u"
    "xlate cur s3 = (\<lambda>v. if drop_bit 12 v = drop_bit 12 ?vn then f else xlate cur s2 v)"
    using fill_entry [OF 2(2) p2 oh(1) [symmetric] 2(4) 1(3) oh(2) [symmetric] al2 Diff_subset B2] by blast
  have ept: "new_page s2 (B2 - B) e \<Longrightarrow> e \<noteq> pt" using 2(5,6) index_bounds(2) [of va] by (auto simp: new_page_def)
  have en: "new_page s3 (B3 - B) e" if "xlate cur s va = 0"
  proof -
    have "new_page s2 (B2 - B) e" using 2(8) that by (simp add: 1(5))
    then have "new_page s3 (B2 - B) e" using 3(8) ept by blast
    then show ?thesis by (rule new_page_mono) (use 3(3) in blast)
  qed
  let ?t = "s3\<lparr>v_ie := v_ie s\<rparr>"
  have xt: "xlate cur ?t vb = (if drop_bit 12 vb = drop_bit 12 va then e else if drop_bit 12 vb = drop_bit 12 ?vn then f else xlate cur s vb)" for vb
    using oh(3) by (simp add: 3(9) 2(9) 1(5))
  have pair: "drop_bit 13 vb = drop_bit 13 va \<longleftrightarrow> drop_bit 12 vb = drop_bit 12 va \<or> drop_bit 12 vb = drop_bit 12 ?vn" for vb by (rule oh(4))
  have fn: "new_page s3 (B3 - B) f" if "xlate cur s ?vn = 0" using 3(7) that xn by simp
  have gr: "aspace_ok cur s3" "vm_owned cur s3 B3" "B \<subseteq> B3" "s3 = ?s\<lparr>v_heap := v_heap s3\<rparr>" using 3(2) unfolding grown_def by blast+
  obtain h where h: "s3 = ?s\<lparr>v_heap := h\<rparr>" using gr(4) by blast
  have sel: "v_entry_hi s3 = v_entry_hi s" "v_tlb s3 = v_tlb s" "v_badvaddr s3 = va" "v_current s3 = cur" "?t = s\<lparr>v_heap := v_heap ?t\<rparr>"
    "?s\<lparr>v_heap := h\<rparr> = s3" using c by (simp_all add: h)
  have tl: "tlb_refill r s = tlb_refill r ?t"
  proof -
    have mt: "xlate cur ?t va \<noteq> 0" "xlate cur ?t ?vn \<noteq> 0" unfolding xt using 2(6) 3(5) oh(3) by auto
    have ta: "aspace_ok cur ?t" unfolding vie_same by (rule gr(1))
    have tc: "v_current ?t = cur" "v_badvaddr ?t = va" using sel(3,4) by simp_all
    have ptd: "vp_vm (v_procs s cur) \<noteq> 0" using a(1) by (simp add: aspace_ok_def ptd_of_def)
    have vp: "v_procs ?s = v_procs s" by simp
    have e1: "(if mem_read (slot (vp_vm (v_procs s cur)) ?i) ?s = 0
        then do { (pt, z) \<leftarrow> pt_create ?s; Some (pt, mem_write (slot (vp_vm (v_procs s cur)) ?i) pt z) }
        else Some (mem_read (slot (vp_vm (v_procs s cur)) ?i) ?s, ?s)) = Some (pt, s1)"
      using 1(1) unfolding pt_of_def ptd_of_def vp .
    have "mem_read (slot pt ?j) s1 = xlate cur s va" using 1(3,4) fun_cong [OF 1(5), of va] by (simp add: xlate_def Let_def)
    then have e2: "(if mem_read (slot pt ?j) s1 = 0 then do { _ \<leftarrow> c_guard (va < 0x10000); (t, z) \<leftarrow> alloc_zeroed_page s1; Some (t, mem_write (slot pt ?j) t z) }
        else Some (mem_read (slot pt ?j) s1, s1)) = Some (e, s2)" using 2(1) u by (simp split: if_splits)
    let ?hi = "(va AND 0xFFFFE000) OR (v_entry_hi s AND 0xFF)"
    have "tlb_refill r s = Some (s3\<lparr>v_ie := v_ie s, v_entry_hi := ?hi, v_tlb := (v_tlb s)(r := \<lparr>te_hi = ?hi,
      te_lo0 = get_entry_lo (if bit va 12 then f else e), te_lo1 = get_entry_lo (if bit va 12 then e else f), te_mask = 0\<rparr>)\<rparr>)"
    proof -
      have s0: "v_badvaddr ?s = va" "v_current ?s = cur" "c_guard (vp_vm (v_procs s cur) \<noteq> 0) = Some ()" using c ptd by (simp_all add: c_guard_def)
      show ?thesis unfolding tlb_refill_def Let_def bind.bind_lunit s0(1,2) vp s0(3) e1 prod.case e2 3(1) get_entry_hi_def pt_index_parity
        by (simp add: sel(1,2)) (simp add: h)
    qed
    then show ?thesis
      unfolding tlb_refill_mapped [OF ta tc mt] unfolding xt using oh(3) sel(1,2) by simp
  qed
  have r: "e = xlate cur s va" if "xlate cur s va \<noteq> 0"
    using that 2(1) 1(3,4) fun_cong [OF 1(5), of va] by (auto simp: xlate_def Let_def split: if_splits)
  have rn: "f = xlate cur s ?vn" if "xlate cur s ?vn \<noteq> 0"
    using that 3(1) 1(3) 2(4) xn oh(1,2) by (auto simp: xlate_def Let_def split: if_splits)
  have "xlate cur ?t vb = xlate cur s vb" if "drop_bit 13 vb \<noteq> drop_bit 13 va \<or> xlate cur s vb \<noteq> 0" for vb
    unfolding xt using that r rn x12 [of vb va] x12 [of vb ?vn] pair [of vb] by (cases "drop_bit 12 vb = drop_bit 12 va"; cases "drop_bit 12 vb = drop_bit 12 ?vn"; metis)
  moreover have "xlate cur ?t vb \<noteq> 0 \<and> page_aligned (xlate cur ?t vb)" if "drop_bit 13 vb = drop_bit 13 va" for vb
  proof -
    have "drop_bit 12 vb = drop_bit 12 va \<or> drop_bit 12 vb = drop_bit 12 ?vn" using that unfolding pair .
    then show ?thesis unfolding xt using 2(6,7) 3(5,6) by (auto simp only: if_True if_False split: if_split)
  qed
  moreover have "new_page ?t (B3 - B) (xlate cur ?t vb)" if "drop_bit 13 vb = drop_bit 13 va" "xlate cur s vb = 0" for vb
  proof (cases "drop_bit 12 vb = drop_bit 12 va")
    case True
    then show ?thesis unfolding xt unfolding vie_same using that(2) en x12 [OF True] by (simp only: simp_thms if_True)
  next
    case False
    then have v: "drop_bit 12 vb = drop_bit 12 ?vn" using that(1) unfolding pair by blast
    then show ?thesis unfolding xt unfolding vie_same using that(2) fn x12 [OF v] False by (simp only: simp_thms if_True if_False)
  qed
  moreover have "aspace_ok cur ?t" "vm_owned cur ?t B3" unfolding vie_same by (rule gr(1,2))+
  ultimately show ?thesis using tl gr(3) sel(5) by (intro exI [of _ ?t] exI [of _ B3]) blast
qed


section \<open>Searches that never end\<close>

lemma free_run_diverges:
  assumes "vma_va_to_pa pcb va s = Some pa" "pa \<noteq> 0" "0 < n"
  shows "free_run_loop pcb n s va = None"
proof -
  have f: "first_mapped pcb va [0..<n] s = Some (Some va)"
    using assms by (cases n) (auto simp: upt_conv_Cons simp del: upt_Suc)
  have "\<not> (p = pcb \<and> m = n \<and> t = s \<and> v = va)" if "free_run_loop p m t v = Some y" for p m t v y
    using that
  proof (rule free_run_loop.raw_induct [where P = "\<lambda>p m t v y. \<not> (p = pcb \<and> m = n \<and> t = s \<and> v = va)", rotated])
    fix L p m t v y
    assume ih: "\<And>p m t v y. L p m t v = Some y \<Longrightarrow> \<not> (p = pcb \<and> m = n \<and> t = s \<and> v = va)"
      and e: "do { q \<leftarrow> first_mapped p v [0..<m] t; case q of None \<Rightarrow> Some v | Some cva \<Rightarrow> L p m t cva } = Some y"
    show "\<not> (p = pcb \<and> m = n \<and> t = s \<and> v = va)"
    proof
      assume "p = pcb \<and> m = n \<and> t = s \<and> v = va"
      moreover from this have "L pcb n s va = Some y" using e f by simp
      ultimately show False using ih by blast
    qed
  qed
  from this [of pcb n s va] show ?thesis by (cases "free_run_loop pcb n s va") auto
qed

text \<open>With three blocks in a chain the search for its last block never ends.\<close>

lemma last_block_diverges:
  assumes "mem_read (mb_next b) s = b1" "b1 \<noteq> 0" "mem_read (mb_next b1) s \<noteq> 0"
  shows "last_block_loop b b s = None"
proof -
  have "\<not> (f = b \<and> t = s \<and> (c = b \<or> c = b1))" if "last_block_loop f c t = Some y" for f c t y
    using that by (rule last_block_loop.raw_induct [where P = "\<lambda>f c t y. \<not> (f = b \<and> t = s \<and> (c = b \<or> c = b1))", rotated])
      (use assms in \<open>auto split: if_splits\<close>)
  from this [of b b s] show ?thesis by (cases "last_block_loop b b s") auto
qed

section \<open>Properties\<close>

text \<open>C32: setting a mapping changes the translation of exactly the addresses of that page, creates the page table when it is missing, and keeps the tables apart and allocated.\<close>

theorem vma_set_mapping_correct:
  assumes "aspace_ok pcb s" "vm_owned pcb s B" "page_left s"
  shows "\<exists>s' B'. vma_set_mapping pcb va pa s = Some s' \<and> aspace_ok pcb s' \<and> vm_owned pcb s' B' \<and> B \<subseteq> B'
    \<and> (\<forall>vb. vma_va_to_pa pcb vb s' = (if drop_bit 12 vb = drop_bit 12 va
          then Some (if pa = 0 then 0 else pa OR (vb AND 0xFFF)) else vma_va_to_pa pcb vb s))"
proof -
  obtain s' B' where s': "vma_set_mapping pcb va pa s = Some s'" "aspace_ok pcb s'" "vm_owned pcb s' B'" "B \<subseteq> B'"
    "\<forall>vb. xlate pcb s' vb = (if drop_bit 12 vb = drop_bit 12 va then pa else xlate pcb s vb)"
    using set_mapping_spec [OF assms] by blast
  have "ptd_of pcb s \<noteq> 0" "ptd_of pcb s' \<noteq> 0" using assms(1) s'(2) by (simp_all add: aspace_ok_def)
  then show ?thesis using s' va_to_pa_xlate by (intro exI [of _ s'] exI [of _ B']) simp
qed

definition sample_vm :: vm_state where
  "sample_vm = \<lparr>v_heap = sample_heap\<lparr>buddy := snd (alloc_pages 0 sample_buddy)\<rparr>,
     v_procs = (\<lambda>_. \<lparr>vp_pid = 1, vp_vm = 0x80010000, vp_blocks = (\<lambda>_. 0)\<rparr>), v_shared = [],
     v_tlb = (\<lambda>_. \<lparr>te_hi = 0, te_lo0 = 0, te_lo1 = 0, te_mask = 0\<rparr>), v_entry_hi = 1, v_badvaddr = 0, v_ie = True, v_current = 0\<rparr>"

lemma sample_vm_pages:
  "fst (alloc_pages 0 sample_buddy) = 0x10000" "fst (alloc_pages 0 (snd (alloc_pages 0 sample_buddy))) = 0x11000"
  by code_simp+

lemma sample_vm_more: "pages_left 3 (snd (alloc_pages 0 sample_buddy))"
  by code_simp

lemma sample_vm_empty: "pt_of 0 sample_vm i = 0"
proof -
  have "words (fold (\<lambda>i. upd_cache i (g i)) xs s) = words s" for g xs s
    by (induction xs arbitrary: s) (simp_all add: upd_cache_def)
  then have "words sample_heap = (\<lambda>_. 0)" by (simp add: sample_heap_def init_slab_def)
  then show ?thesis by (simp add: pt_of_def mem_read_def sample_vm_def)
qed

lemma sample_vm_ok: "aspace_ok 0 sample_vm" "vm_owned 0 sample_vm {(0, 16)}" "page_left sample_vm"
proof -
  have r: "slab_ready sample_heap" using init_slab_ready by (simp add: sample_heap_def)
  have bud: "buddy sample_heap = sample_buddy" by (simp add: sample_heap_def init_slab_buddy)
  have h0: "heap_ok sample_heap {}"
    using r sample_heap_owned by (simp add: heap_ok_def bud sample_buddy_def)
  have km: "kmalloc VM_PAGE_SIZE sample_heap = Some (0x80010000, v_heap sample_vm)"
    using kmalloc_one_page [OF r] sample_vm_pages(1) by (simp add: bud sample_vm_def KERNEL_ENTRY_def)
  have sz: "0 < unat VM_PAGE_SIZE" "unat VM_PAGE_SIZE \<le> 65536" by (simp_all add: VM_PAGE_SIZE_def)
  have p16: "page_addr 16 = 0x80010000" by (simp add: page_addr_def KERNEL_ENTRY_def PAGE_SHIFT_def push_bit_eq_mult)
  have h1: "heap_ok (v_heap sample_vm) {(0, 16)}"
  proof (rule kmalloc_heap [OF h0 sz])
    assume "kmalloc VM_PAGE_SIZE sample_heap = Some (KERNEL_ENTRY, sample_heap)"
    then show ?thesis using km by (simp add: KERNEL_ENTRY_def)
  next
    fix k p h'
    assume a: "kmalloc VM_PAGE_SIZE sample_heap = Some (page_addr p, h')" "heap_ok h' (insert (k, p) {})" "p < 2 ^ 19"
    have e: "h' = v_heap sample_vm" "page_addr p = page_addr 16" using a(1) km p16 by auto
    have p: "p = 16" using page_addr_inj [OF a(3) _ e(2)] by simp
    have "pg_bplevel (pages (buddy h') p) = of_nat k" "k \<le> MAX_BUDDY_ORDER" using a(2) by (auto simp: heap_ok_def heap_owned_def)
    moreover have "pg_bplevel (pages (buddy (v_heap sample_vm)) 16) = 0" unfolding sample_vm_def by simp code_simp
    ultimately have "k = 0" using e p of_nat_eq_u32 [of k 0] by (simp add: MAX_BUDDY_ORDER_def)
    then show ?thesis using a(2) e p by simp
  qed
  note z = sample_vm_empty
  have ptd: "ptd_of 0 sample_vm = page_addr 16" by (simp add: ptd_of_def sample_vm_def p16)
  show "aspace_ok 0 sample_vm" unfolding aspace_ok_def ptd using page_addr_aligned page_addr_not_0 z by simp
  show "vm_owned 0 sample_vm {(0, 16)}" using h1 z by (auto simp: vm_owned_def ptd table_owned_def)
  have "kmalloc VM_PAGE_SIZE (v_heap sample_vm) = Some (0x80011000, v_heap sample_vm\<lparr>buddy := snd (alloc_pages 0 (buddy (v_heap sample_vm)))\<rparr>)"
    using kmalloc_one_page [of "v_heap sample_vm"] h1 sample_vm_pages(2) by (simp add: heap_ok_def sample_vm_def KERNEL_ENTRY_def)
  then show "page_left sample_vm" by (simp add: page_left_def vm_kmalloc_def KERNEL_ENTRY_def)
qed

theorem vma_set_mapping_correct_witness:
  "\<exists>s'. vma_set_mapping 0 0x12345678 0x80013000 sample_vm = Some s' \<and> vma_va_to_pa 0 0x12345ABC s' = Some 0x80013ABC"
proof -
  obtain s' where s': "vma_set_mapping 0 0x12345678 0x80013000 sample_vm = Some s'"
    "\<forall>vb. vma_va_to_pa 0 vb s' = (if drop_bit 12 vb = drop_bit 12 (0x12345678 :: u32)
          then Some (if (0x80013000 :: u32) = 0 then 0 else 0x80013000 OR (vb AND 0xFFF)) else vma_va_to_pa 0 vb sample_vm)"
    using vma_set_mapping_correct [OF sample_vm_ok] by blast
  have "vma_va_to_pa 0 0x12345ABC s' = Some 0x80013ABC" using s'(2) [rule_format, of "0x12345ABC"] by simp
  then show ?thesis using s'(1) by blast
qed

text \<open>C33: for an access to a page that is mapped or lies below 0x10000, a refill fills in what is missing of the faulting pair of pages, a page table and pages of zeros that nobody else has, and leaves every other translation as it is; afterwards the processor translates both pages of the pair as the page tables do, and the address space identifier and the interrupt state are kept. The pages that are mapped already must be at page boundaries, and memory must have the pages that are missing.\<close>

theorem tlb_refill_correct:
  assumes "aspace_ok cur s" "vm_owned cur s B" "v_current s = cur" "v_badvaddr s = va" "va < 0x10000 \<or> xlate cur s va \<noteq> 0"
    and "page_aligned (xlate cur s va)" "page_aligned (xlate cur s (va XOR 0x1000))" "pages_left (missing cur s va) (buddy (v_heap s))"
  shows "\<exists>s' B'. tlb_refill r s = Some s' \<and> aspace_ok cur s' \<and> vm_owned cur s' B' \<and> B \<subseteq> B' \<and> v_ie s' = v_ie s \<and> v_entry_hi s' AND 0xFF = v_entry_hi s AND 0xFF
    \<and> (\<forall>vb. drop_bit 13 vb = drop_bit 13 va \<longrightarrow>
        tlb_hit (v_tlb s' r) (v_entry_hi s AND 0xFF) vb = Some ((xlate cur s' vb - 0x80000000) OR (vb AND 0xFFF)))
    \<and> (\<forall>vb. drop_bit 13 vb \<noteq> drop_bit 13 va \<or> xlate cur s vb \<noteq> 0 \<longrightarrow> xlate cur s' vb = xlate cur s vb)
    \<and> (\<forall>vb. drop_bit 13 vb = drop_bit 13 va \<longrightarrow> xlate cur s vb = 0 \<longrightarrow> new_page s' (B' - B) (xlate cur s' vb))"
proof -
  obtain t B' where t: "tlb_refill r s = tlb_refill r t" "aspace_ok cur t" "vm_owned cur t B'" "B \<subseteq> B'" "t = s\<lparr>v_heap := v_heap t\<rparr>"
    "\<forall>vb. drop_bit 13 vb \<noteq> drop_bit 13 va \<or> xlate cur s vb \<noteq> 0 \<longrightarrow> xlate cur t vb = xlate cur s vb"
    "\<forall>vb. drop_bit 13 vb = drop_bit 13 va \<longrightarrow> xlate cur t vb \<noteq> 0 \<and> page_aligned (xlate cur t vb)"
    "\<forall>vb. drop_bit 13 vb = drop_bit 13 va \<longrightarrow> xlate cur s vb = 0 \<longrightarrow> new_page t (B' - B) (xlate cur t vb)"
    using refill_fills [OF assms, of r] by blast
  obtain h where h: "t = s\<lparr>v_heap := h\<rparr>" using t(5) by blast
  have c: "v_current t = cur" "v_badvaddr t = va" "v_entry_hi t = v_entry_hi s" "v_ie t = v_ie s" using assms(3,4) by (simp_all add: h)
  have m: "xlate cur t va \<noteq> 0" "page_aligned (xlate cur t va)" "xlate cur t (va XOR 0x1000) \<noteq> 0" "page_aligned (xlate cur t (va XOR 0x1000))"
    using t(7) other_half(4) [where va = va] by blast+
  obtain s' where s': "tlb_refill r t = Some s'" "v_entry_hi s' AND 0xFF = v_entry_hi s AND 0xFF"
    "\<forall>vb. drop_bit 13 vb = drop_bit 13 va \<longrightarrow>
        tlb_hit (v_tlb s' r) (v_entry_hi s AND 0xFF) vb = Some ((xlate cur t vb - 0x80000000) OR (vb AND 0xFFF))"
    using tlb_hit_pair [OF t(2) c(1,2) m(1,3,2,4), of r] unfolding c(3) by blast
  have st: "v_procs s' = v_procs t" "v_heap s' = v_heap t" "v_ie s' = v_ie s"
    using s'(1) tlb_refill_mapped [OF t(2) c(1,2) m(1,3), of r] c(4) by auto
  have rd: "mem_read a s' = mem_read a t" for a by (simp add: mem_read_def st)
  note sm = same_memory [OF rd st(1)]
  have "vm_owned cur s' B'" using t(3) by (simp add: vm_owned_def st(2) sm)
  moreover have "new_page s' N = new_page t N" for N by (simp add: new_page_def rd fun_eq_iff)
  ultimately show ?thesis using s' t(1,2,4,6,8) st(3) by (intro exI [of _ s'] exI [of _ B'] conjI) (simp_all only: sm)
qed

definition sample_mapped :: vm_state where
  "sample_mapped = sample_vm\<lparr>v_heap := (v_heap sample_vm)\<lparr>words := (\<lambda>_. 0)(0x80010000 := 0x80011000,
     slot 0x80011000 0x10 := 0x80012000, slot 0x80011000 0x11 := 0x80013000)\<rparr>, v_badvaddr := 0x11234\<rparr>"

lemma sample_mapped_ok: "aspace_ok 0 sample_mapped" "v_current sample_mapped = 0" "v_badvaddr sample_mapped = 0x11234"
  "xlate 0 sample_mapped 0x11234 = 0x80013000" "xlate 0 sample_mapped (0x11234 XOR 0x1000) = 0x80012000"
  "xlate 0 sample_mapped 0x10ABC = 0x80012000" "xlate 0 sample_mapped 0x10000 = 0x80012000"
proof -
  have al: "page_aligned 0x80010000" "page_aligned 0x80011000" by (simp_all add: page_aligned_def)
  have m: "mem_read a sample_mapped = (if a = slot 0x80010000 0 then 0x80011000 else if a = slot 0x80011000 0x10 then 0x80012000
      else if a = slot 0x80011000 0x11 then 0x80013000 else 0)" for a
    by (auto simp: mem_read_def sample_mapped_def slot_def)
  have d: "ptd_of 0 sample_mapped = 0x80010000" by (simp add: ptd_of_def sample_mapped_def sample_vm_def)
  have p: "pt_of 0 sample_mapped i = (if i = 0 then 0x80011000 else 0)" if "unat i < 1024" for i
    using that al by (simp add: pt_of_def m d slot_eq_iff)
  show "aspace_ok 0 sample_mapped" using al p by (auto simp: aspace_ok_def d split: if_splits)
  show "v_current sample_mapped = 0" "v_badvaddr sample_mapped = 0x11234" by (simp_all add: sample_mapped_def sample_vm_def)
  show "xlate 0 sample_mapped 0x11234 = 0x80013000" "xlate 0 sample_mapped (0x11234 XOR 0x1000) = 0x80012000"
    "xlate 0 sample_mapped 0x10ABC = 0x80012000" "xlate 0 sample_mapped 0x10000 = 0x80012000"
    using al p by (simp_all add: xlate_def Let_def m get_ptd_index_def get_pt_index_def slot_eq_iff)
qed

text \<open>A first access to address 0: the table and both pages are missing.\<close>

theorem tlb_refill_correct_witness:
  "\<exists>s'. tlb_refill 5 sample_vm = Some s' \<and> tlb_hit (v_tlb s' 5) 1 0xABC = Some ((xlate 0 s' 0 - 0x80000000) OR 0xABC)
     \<and> tlb_hit (v_tlb s' 5) 1 0x1ABC = Some ((xlate 0 s' 0x1000 - 0x80000000) OR 0xABC) \<and> xlate 0 s' 0 \<noteq> 0 \<and> xlate 0 s' 0x12345678 = 0"
proof -
  have x: "xlate 0 sample_vm v = 0" for v by (simp add: xlate_def sample_vm_empty)
  have e: "v_current sample_vm = 0" "v_badvaddr sample_vm = 0" "v_entry_hi sample_vm = 1" by (simp_all add: sample_vm_def)
  have l: "pages_left (missing 0 sample_vm 0) (buddy (v_heap sample_vm))"
    unfolding missing_def x sample_vm_empty using sample_vm_more by (simp add: sample_vm_def numeral_eq_Suc)
  have h: "(0 :: u32) < 0x10000 \<or> xlate 0 sample_vm 0 \<noteq> 0" "page_aligned (xlate 0 sample_vm 0)" "page_aligned (xlate 0 sample_vm (0 XOR 0x1000))"
    unfolding x by (simp_all add: page_aligned_def)
  obtain s' B' where s': "tlb_refill 5 sample_vm = Some s'"
    "\<forall>vb. drop_bit 13 vb = drop_bit 13 (0 :: u32) \<longrightarrow>
        tlb_hit (v_tlb s' 5) (v_entry_hi sample_vm AND 0xFF) vb = Some ((xlate 0 s' vb - 0x80000000) OR (vb AND 0xFFF))"
    "\<forall>vb. drop_bit 13 vb \<noteq> drop_bit 13 (0 :: u32) \<or> xlate 0 sample_vm vb \<noteq> 0 \<longrightarrow> xlate 0 s' vb = xlate 0 sample_vm vb"
    "\<forall>vb. drop_bit 13 vb = drop_bit 13 (0 :: u32) \<longrightarrow> xlate 0 sample_vm vb = 0 \<longrightarrow> new_page s' (B' - {(0, 16)}) (xlate 0 s' vb)"
    using tlb_refill_correct [OF sample_vm_ok(1,2) e(1,2) h l] by blast
  have i: "xlate 0 s' 0xABC = xlate 0 s' 0" "xlate 0 s' 0x1ABC = xlate 0 s' 0x1000"
    by (simp_all add: xlate_def Let_def get_ptd_index_def get_pt_index_def)
  have "xlate 0 s' 0 \<noteq> 0" using s'(4) [rule_format, of 0] x page_addr_not_0 by (auto simp: new_page_def)
  moreover have "xlate 0 s' 0x12345678 = 0" using s'(3) [rule_format, of "0x12345678"] x by simp
  ultimately show ?thesis using s'(1) s'(2) [rule_format, of "0xABC"] s'(2) [rule_format, of "0x1ABC"] unfolding e(3) i
    by (intro exI [of _ s']) simp
qed

text \<open>Once the page at \<open>0x10000\<close> is mapped, as it is after the first pool is made, a request too large for the pools never returns.\<close>

theorem big_chunk_alloc_never_ends:
  assumes "vma_va_to_pa pcb 0x10000 s = Some pa" "pa \<noteq> 0" "0 < sz" "sz \<le> 0xFFFFF000"
  shows "big_chunk_alloc pcb sz s = None"
proof -
  let ?r = "(sz + (VM_PAGE_SIZE - 1)) AND NOT (VM_PAGE_SIZE - 1)"
  have m: "VM_PAGE_SIZE - 1 = (mask 12 :: u32)" by (simp add: VM_PAGE_SIZE_def mask_eq_exp_minus_1)
  have b: "1 \<le> unat sz" "unat sz \<le> 0xFFFFF000" using assms(3,4) by (simp_all add: word_less_nat_alt word_le_nat_alt)
  have s: "unat (sz + (VM_PAGE_SIZE - 1)) = unat sz + 4095"
    using unat_add_lem [of sz "VM_PAGE_SIZE - 1"] b by (simp add: VM_PAGE_SIZE_def)
  have "?r div VM_PAGE_SIZE = drop_bit 12 ?r" by (simp add: VM_PAGE_SIZE_def drop_bit_eq_div)
  also have "\<dots> = drop_bit 12 (sz + (VM_PAGE_SIZE - 1))" unfolding m by (rule bit_word_eqI) (auto simp: bit_simps dest: bit_imp_le_length)
  finally have "unat (?r div VM_PAGE_SIZE) = (unat sz + 4095) div 4096" using s by (simp add: drop_bit_eq_div unat_div)
  then have "0 < unat (?r div VM_PAGE_SIZE)" using b by simp
  then show ?thesis using free_run_diverges [OF assms(1,2)] by (simp add: big_chunk_alloc_def Let_def)
qed

theorem big_chunk_alloc_never_ends_witness: "big_chunk_alloc 0 5000 sample_mapped = None"
proof -
  have "vma_va_to_pa 0 0x10000 sample_mapped = Some 0x80012000"
    using va_to_pa_xlate [where va = "0x10000"] sample_mapped_ok(1,7) by (simp add: aspace_ok_def)
  then show ?thesis by (rule big_chunk_alloc_never_ends) simp_all
qed

end
