(* ===== verification/Machine.thy ===== *)
theory Machine
  imports VM
begin

text \<open>
  What the trap handling shares with the process manager: the saved registers (\<open>reg_context_t\<close> of
  \<open>include/zjunix/pc.h\<close>), the interrupt-enable bit (\<open>arch/mips32/intr.c\<close>), and the three handler tables
  \<open>interrupts\<close>, \<open>exceptions\<close> and \<open>syscalls\<close> with their registration functions. A function pointer of
  a table is a value of \<open>handler\<close>; \<open>Traps\<close> says what each one runs.
\<close>

record reg_context =
  r_epc :: u32
  r_at :: u32
  r_v0 :: u32
  r_v1 :: u32
  r_a0 :: u32
  r_a1 :: u32
  r_a2 :: u32
  r_a3 :: u32
  r_t0 :: u32
  r_t1 :: u32
  r_t2 :: u32
  r_t3 :: u32
  r_t4 :: u32
  r_t5 :: u32
  r_t6 :: u32
  r_t7 :: u32
  r_s0 :: u32
  r_s1 :: u32
  r_s2 :: u32
  r_s3 :: u32
  r_s4 :: u32
  r_s5 :: u32
  r_s6 :: u32
  r_s7 :: u32
  r_t8 :: u32
  r_t9 :: u32
  r_hi :: u32
  r_lo :: u32
  r_gp :: u32
  r_sp :: u32
  r_fp :: u32
  r_ra :: u32

text \<open>\<open>copy_context\<close> of \<open>pc.c\<close>, register by register; \<open>kernel_memset(ctx, 0, sizeof(context))\<close>.\<close>

definition copy_context :: "reg_context \<Rightarrow> reg_context \<Rightarrow> reg_context" where
  "copy_context src dest = dest\<lparr>r_epc := r_epc src, r_at := r_at src, r_v0 := r_v0 src, r_v1 := r_v1 src,
     r_a0 := r_a0 src, r_a1 := r_a1 src, r_a2 := r_a2 src, r_a3 := r_a3 src,
     r_t0 := r_t0 src, r_t1 := r_t1 src, r_t2 := r_t2 src, r_t3 := r_t3 src,
     r_t4 := r_t4 src, r_t5 := r_t5 src, r_t6 := r_t6 src, r_t7 := r_t7 src,
     r_s0 := r_s0 src, r_s1 := r_s1 src, r_s2 := r_s2 src, r_s3 := r_s3 src,
     r_s4 := r_s4 src, r_s5 := r_s5 src, r_s6 := r_s6 src, r_s7 := r_s7 src,
     r_t8 := r_t8 src, r_t9 := r_t9 src, r_hi := r_hi src, r_lo := r_lo src,
     r_gp := r_gp src, r_sp := r_sp src, r_fp := r_fp src, r_ra := r_ra src\<rparr>"

definition zero_context :: reg_context where
  "zero_context = \<lparr>r_epc = 0, r_at = 0, r_v0 = 0, r_v1 = 0, r_a0 = 0, r_a1 = 0, r_a2 = 0, r_a3 = 0,
     r_t0 = 0, r_t1 = 0, r_t2 = 0, r_t3 = 0, r_t4 = 0, r_t5 = 0, r_t6 = 0, r_t7 = 0,
     r_s0 = 0, r_s1 = 0, r_s2 = 0, r_s3 = 0, r_s4 = 0, r_s5 = 0, r_s6 = 0, r_s7 = 0,
     r_t8 = 0, r_t9 = 0, r_hi = 0, r_lo = 0, r_gp = 0, r_sp = 0, r_fp = 0, r_ra = 0\<rparr>"

lemma copy_context_all [simp]: "copy_context src dest = src"
  by (simp add: copy_context_def)

section \<open>Interrupt enable\<close>

definition enable_interrupts :: "vm_state \<Rightarrow> bool \<times> vm_state" where
  "enable_interrupts s = (v_ie s, s\<lparr>v_ie := True\<rparr>)"

definition disable_interrupts :: "vm_state \<Rightarrow> bool \<times> vm_state" where
  "disable_interrupts s = (v_ie s, s\<lparr>v_ie := False\<rparr>)"

definition init_interrupts :: "vm_state \<Rightarrow> vm_state" where
  "init_interrupts s = s\<lparr>v_ie := True\<rparr>"

section \<open>Handler tables\<close>

datatype handler = H_task_tick | H_task_schedule | H_task_exit_syscall | H_tlb_refill | H_syscall | H_ps2 | H_syscall_n nat

text \<open>\<open>im_status\<close> is the interrupt mask of the status register.\<close>

record trap_tables =
  exceptions :: "nat \<Rightarrow> handler option"
  interrupts :: "nat \<Rightarrow> handler option"
  syscalls :: "nat \<Rightarrow> handler option"
  im_status :: u32

definition register_exception_handler :: "u32 \<Rightarrow> handler \<Rightarrow> trap_tables \<Rightarrow> trap_tables" where
  "register_exception_handler index fn t = t\<lparr>exceptions := (exceptions t)(unat (index AND 31) \<mapsto> fn)\<rparr>"

definition register_interrupt_handler :: "u32 \<Rightarrow> handler \<Rightarrow> trap_tables \<Rightarrow> trap_tables" where
  "register_interrupt_handler index fn t =
     t\<lparr>interrupts := (interrupts t)(unat (index AND 7) \<mapsto> fn),
       im_status := im_status t OR push_bit (unat ((index AND 7) + 8)) 1\<rparr>"

definition register_syscall :: "u32 \<Rightarrow> handler \<Rightarrow> trap_tables \<Rightarrow> trap_tables" where
  "register_syscall index fn t = t\<lparr>syscalls := (syscalls t)(unat (index AND 255) \<mapsto> fn)\<rparr>"

text \<open>\<open>init_exception\<close> clears the status register: the interrupt mask and the enable bit.\<close>

definition init_exception :: "trap_tables \<Rightarrow> vm_state \<Rightarrow> trap_tables \<times> vm_state" where
  "init_exception t s = (t\<lparr>im_status := 0\<rparr>, s\<lparr>v_ie := False\<rparr>)"

definition init_vm :: "trap_tables \<Rightarrow> vm_state \<Rightarrow> trap_tables \<times> vm_state" where
  "init_vm t s =
     (let t = register_exception_handler 2 H_tlb_refill t;
          t = register_exception_handler 3 H_tlb_refill t
      in (t, init_shared_page s))"

definition init_syscall :: "trap_tables \<Rightarrow> trap_tables" where
  "init_syscall t =
     (let t = register_exception_handler 8 H_syscall t;
          t = register_syscall 4 (H_syscall_n 4) t;
          t = register_syscall 5 (H_syscall_n 5) t;
          t = register_syscall 6 (H_syscall_n 6) t;
          t = register_syscall 7 (H_syscall_n 7) t;
          t = register_syscall 50 (H_syscall_n 50) t;
          t = register_syscall 51 (H_syscall_n 51) t;
          t = register_syscall 60 (H_syscall_n 60) t;
          t = register_syscall 61 (H_syscall_n 61) t;
          t = register_syscall 70 (H_syscall_n 70) t;
          t = register_syscall 71 (H_syscall_n 71) t;
          t = register_syscall 72 (H_syscall_n 72) t;
          t = register_syscall 73 (H_syscall_n 73) t;
          t = register_syscall 15 H_task_schedule t
      in register_syscall 16 H_task_exit_syscall t)"

text \<open>The system calls that exist afterwards are exactly these, whatever the tables held before.\<close>

lemma init_syscall_tables:
  "syscalls (init_syscall t) = (syscalls t)(4 \<mapsto> H_syscall_n 4, 5 \<mapsto> H_syscall_n 5, 6 \<mapsto> H_syscall_n 6, 7 \<mapsto> H_syscall_n 7,
     50 \<mapsto> H_syscall_n 50, 51 \<mapsto> H_syscall_n 51, 60 \<mapsto> H_syscall_n 60, 61 \<mapsto> H_syscall_n 61, 70 \<mapsto> H_syscall_n 70,
     71 \<mapsto> H_syscall_n 71, 72 \<mapsto> H_syscall_n 72, 73 \<mapsto> H_syscall_n 73, 15 \<mapsto> H_task_schedule, 16 \<mapsto> H_task_exit_syscall)"
  "exceptions (init_syscall t) = (exceptions t)(8 \<mapsto> H_syscall)" "interrupts (init_syscall t) = interrupts t"
  by (simp_all add: init_syscall_def register_syscall_def register_exception_handler_def Let_def)

end
