(* ===== verification/PC.thy ===== *)
theory PC
  imports Machine Pid CFS
begin

text \<open>
  Processes, \<open>kernel/pc/pc.c\<close>: the task table with its state lists, creation, the timer tick and the
  scheduler, kill, wait, wake-up, exit and exec. The state extends the one of \<open>CFS\<close> (run queue,
  scheduling entities, \<open>task_ready\<close>) by the address spaces of \<open>VM\<close>, the ids of \<open>Pid\<close>, the other fields of
  \<open>task_struct\<close> and the two other lists. A task is the address that \<open>kmalloc\<close> gives for it; its \<open>pid\<close>,
  \<open>vm\<close> and pool are in \<open>VM\<close>'s \<open>v_procs\<close>, its scheduling entity in \<open>ses\<close>, its \<open>real_pid\<close> in \<open>pc_pids\<close>, and
  \<open>current_task\<close> is \<open>v_current\<close>.

  A trap handler takes the registers that the trap saved and returns those that the return from the
  trap restores. Functions that may trap into the scheduler themselves take the registers at that
  trap. \<open>pc_count\<close> is the processor's timer register.
\<close>

section \<open>State\<close>

datatype task_state = TASK_RUNNING | TASK_WAITING | TASK_READY | TASK_DEAD

record task =
  t_state :: task_state
  t_context :: reg_context
  t_parent :: nat
  t_nice :: int
  t_static_prio :: int
  t_prio :: int
  t_name :: "u8 list"
  t_user_mode :: bool

record pc_state = cfs_state +
  pc_vm :: vm_state
  pc_pids :: pid_sys
  pc_tasks :: "nat \<Rightarrow> task"
  pc_all :: "nat list"
  pc_waiting :: "nat list"
  pc_init :: nat
  pc_root_ns :: nat
  pc_curr_ns :: nat
  pc_traps :: trap_tables
  pc_count :: u32

definition TASK_KERNEL_SIZE :: u32 where "TASK_KERNEL_SIZE = 4096"
definition sizeof_pid_namespace :: u32 where "sizeof_pid_namespace = 20"

abbreviation current_task :: "pc_state \<Rightarrow> nat" where
  "current_task s \<equiv> v_current (pc_vm s)"

abbreviation task_pid :: "pc_state \<Rightarrow> nat \<Rightarrow> u32" where
  "task_pid s p \<equiv> vp_pid (v_procs (pc_vm s) p)"

definition upd_task :: "nat \<Rightarrow> (task \<Rightarrow> task) \<Rightarrow> pc_state \<Rightarrow> pc_state" where
  "upd_task p f s = s\<lparr>pc_tasks := (pc_tasks s)(p := f (pc_tasks s p))\<rparr>"

definition upd_vm :: "(vm_state \<Rightarrow> vm_state) \<Rightarrow> pc_state \<Rightarrow> pc_state" where
  "upd_vm f s = s\<lparr>pc_vm := f (pc_vm s)\<rparr>"

definition run_vm :: "(vm_state \<Rightarrow> vm_state option) \<Rightarrow> pc_state \<Rightarrow> pc_state option" where
  "run_vm f s = do { v \<leftarrow> f (pc_vm s); Some (s\<lparr>pc_vm := v\<rparr>) }"

definition call_vm :: "(vm_state \<Rightarrow> ('r \<times> vm_state) option) \<Rightarrow> pc_state \<Rightarrow> ('r \<times> pc_state) option" where
  "call_vm f s = do { (r, v) \<leftarrow> f (pc_vm s); Some (r, s\<lparr>pc_vm := v\<rparr>) }"

definition irq_disable :: "pc_state \<Rightarrow> pc_state" where
  "irq_disable = upd_vm (\<lambda>v. snd (disable_interrupts v))"

definition irq_enable :: "bool \<Rightarrow> pc_state \<Rightarrow> pc_state" where
  "irq_enable old s = (if old then upd_vm (\<lambda>v. snd (enable_interrupts v)) s else s)"

abbreviation irq_state :: "pc_state \<Rightarrow> bool" where
  "irq_state s \<equiv> v_ie (pc_vm s)"

section \<open>State lists\<close>

datatype state_list = task_waiting | task_ready

definition set_state :: "nat \<Rightarrow> state_list \<Rightarrow> pc_state \<Rightarrow> pc_state" where
  "set_state p l s = (case l of task_waiting \<Rightarrow> s\<lparr>pc_waiting := pc_waiting s @ [p]\<rparr>
     | task_ready \<Rightarrow> s\<lparr>ready := ready s @ [p]\<rparr>)"

text \<open>\<open>list_del_init\<close> of the node that links the task on one of the two lists.\<close>

definition unset_state :: "nat \<Rightarrow> pc_state \<Rightarrow> pc_state" where
  "unset_state p s = s\<lparr>ready := remove1 p (ready s), pc_waiting := remove1 p (pc_waiting s)\<rparr>"

definition add_task :: "nat \<Rightarrow> pc_state \<Rightarrow> pc_state" where
  "add_task p s = s\<lparr>pc_all := pc_all s @ [p]\<rparr>"

definition delete_task :: "nat \<Rightarrow> pc_state \<Rightarrow> pc_state" where
  "delete_task p s = s\<lparr>pc_all := remove1 p (pc_all s)\<rparr>"

text \<open>The entity of a new task: the running task's virtual time, no time used, weights by priority.\<close>

definition init_se :: "nat \<Rightarrow> u32 \<Rightarrow> int \<Rightarrow> pc_state \<Rightarrow> pc_state option" where
  "init_se p vruntime prio s = do {
     _ \<leftarrow> c_guard (0 \<le> prio \<and> prio < 40);
     Some (upd_se p (\<lambda>e. e\<lparr>se_vruntime := vruntime, se_sum_exec := 0, se_prev_sum_exec := 0,
       se_weight := prio_to_weight ! nat prio, se_inv_weight := prio_to_wmult ! nat prio\<rparr>) s)
   }"

section \<open>Initialisation\<close>

text \<open>
  \<open>init_task_module\<close>; the first task lies below \<open>kernel_sp\<close>. The timer is programmed, with its count at 0.
\<close>

definition init_task_module :: "u32 \<Rightarrow> pc_state \<Rightarrow> pc_state option" where
  "init_task_module kernel_sp s = do {
     s \<leftarrow> Some (s\<lparr>pc_pids := init_pid_module (pc_pids s)\<rparr>);
     (a, s) \<leftarrow> call_vm (vm_kmalloc sizeof_pid_namespace) s;
     let (ns, pids) = pid_namespace_create (unat a) NULL (pc_pids s);
     s \<leftarrow> Some (s\<lparr>pc_pids := pids, pc_root_ns := ns, pc_curr_ns := ns\<rparr>);
     s \<leftarrow> Some (upd_rq INIT_CFS_RQ s);
     s \<leftarrow> Some (s\<lparr>pc_all := [], pc_waiting := [], ready := []\<rparr>);
     let p = unat (kernel_sp - TASK_KERNEL_SIZE);
     s \<leftarrow> Some (s\<lparr>pc_init := p\<rparr>);
     s \<leftarrow> Some (upd_task p (\<lambda>t. t\<lparr>t_name := [105, 110, 105, 116], t_context := zero_context, t_nice := 0, t_prio := 20\<rparr>) s);
     (res, pids) \<leftarrow> assign_real_pid_from_ns p (pc_root_ns s) (pc_pids s);
     s \<leftarrow> Some (s\<lparr>pc_pids := pids\<rparr>);
     s \<leftarrow> Some (upd_vm (upd_proc p (\<lambda>v. v\<lparr>vp_pid := of_int (up_nr (rp_numbers (real_pids pids p) 0))\<rparr>)) s);
     s \<leftarrow> Some (upd_task p (\<lambda>t. t\<lparr>t_parent := NULL\<rparr>) s);
     s \<leftarrow> init_se p 0 (t_prio (pc_tasks s p)) s;
     s \<leftarrow> Some (add_task p s);
     s \<leftarrow> enqueue_task_fair p s;
     s \<leftarrow> Some (set_state p task_ready s);
     s \<leftarrow> Some (upd_vm (upd_proc p (\<lambda>v. v\<lparr>vp_vm := 0, vp_blocks := (\<lambda>i. if i < 9 then 0 else vp_blocks v i)\<rparr>)) s);
     s \<leftarrow> Some (upd_task p (\<lambda>t. t\<lparr>t_user_mode := False\<rparr>) s);
     s \<leftarrow> Some (upd_vm (\<lambda>v. v\<lparr>v_current := p\<rparr>) s);
     s \<leftarrow> Some (upd_rq (\<lambda>q. q\<lparr>rq_cur := current_task s\<rparr>) s);
     s \<leftarrow> Some (upd_task p (\<lambda>t. t\<lparr>t_state := TASK_RUNNING\<rparr>) s);
     s \<leftarrow> Some (s\<lparr>pc_traps := register_interrupt_handler 7 H_task_tick (pc_traps s)\<rparr>);
     Some (s\<lparr>pc_count := 0\<rparr>)
   }"

section \<open>The scheduler\<close>

text \<open>
  The switch that \<open>task_tick\<close> and \<open>task_schedule\<close> both contain: save the registers, take those of the next
  task, and make it the current one.
\<close>

definition switch_to :: "nat \<Rightarrow> reg_context \<Rightarrow> pc_state \<Rightarrow> reg_context \<times> pc_state" where
  "switch_to nxt fr s =
     (let cur = current_task s;
          s = upd_task cur (\<lambda>t. t\<lparr>t_context := copy_context fr (t_context t)\<rparr>) s;
          fr = copy_context (t_context (pc_tasks s nxt)) fr;
          s = upd_task cur (\<lambda>t. t\<lparr>t_state := TASK_READY\<rparr>) s;
          s = upd_se cur (\<lambda>e. e\<lparr>se_prev_sum_exec := se_sum_exec e\<rparr>) s;
          s = upd_vm (\<lambda>v. v\<lparr>v_current := nxt\<rparr>) s;
          s = upd_task nxt (\<lambda>t. t\<lparr>t_state := TASK_RUNNING\<rparr>) s;
          s = upd_rq (\<lambda>q. q\<lparr>rq_cur := nxt\<rparr>) s;
          s = upd_vm (set_active_asid (task_pid s nxt)) s
      in (fr, s))"

definition clear_need_sched :: "pc_state \<Rightarrow> pc_state" where
  "clear_need_sched = upd_rq (\<lambda>q. q\<lparr>rq_need_sched := False\<rparr>)"

definition task_tick :: "reg_context \<Rightarrow> pc_state \<Rightarrow> (reg_context \<times> pc_state) option" where
  "task_tick fr s = do {
     let old_ie = irq_state s;
     s \<leftarrow> Some (irq_disable s);
     s \<leftarrow> update_curr (sysctl_sched_min_granularity_ns div sysctl_sched_time_unit) s;
     s \<leftarrow> check_preempt_tick (current_task s) s;
     (fr, s) \<leftarrow> (if rq_need_sched (rq s) then do {
         nxt \<leftarrow> pick_next_task_fair s;
         let (fr, s) = (if current_task s = nxt then (fr, s) else switch_to nxt fr s);
         Some (fr, clear_need_sched s)
       } else Some (fr, s));
     Some (fr, if old_ie then irq_enable True (s\<lparr>pc_count := 0\<rparr>) else s)
   }"

definition task_schedule :: "reg_context \<Rightarrow> pc_state \<Rightarrow> (reg_context \<times> pc_state) option" where
  "task_schedule fr s = do {
     let old_ie = irq_state s;
     s \<leftarrow> Some (irq_disable s);
     nxt \<leftarrow> pick_next_task_fair s;
     let (fr, s) = (if current_task s = nxt then (fr, s) else switch_to nxt fr s);
     s \<leftarrow> Some (clear_need_sched s);
     s \<leftarrow> Some (s\<lparr>pc_count := 0\<rparr>);
     Some (fr, irq_enable old_ie s)
   }"

text \<open>
  \<open>ret_from_sched_syscall\<close> traps with \<open>$v0 = 15\<close> when a switch is due: the trap handler advances the \<open>epc\<close>,
  disables interrupts around the call and runs \<open>task_schedule\<close> (\<open>Traps\<close> proves that dispatch).
\<close>

definition ret_from_sched_syscall :: "reg_context \<Rightarrow> pc_state \<Rightarrow> (reg_context \<times> pc_state) option" where
  "ret_from_sched_syscall fr s =
     (if rq_need_sched (rq s) then do {
        let fr = fr\<lparr>r_v0 := 15\<rparr>;
        let fr = fr\<lparr>r_epc := r_epc fr + 4\<rparr>;
        let old_ie = irq_state s;
        s \<leftarrow> Some (irq_disable s);
        (fr, s) \<leftarrow> task_schedule fr s;
        Some (fr, irq_enable old_ie s)
      } else Some (fr, s))"

section \<open>Creation\<close>

text \<open>
  \<open>task_create\<close>; \<open>gp\<close> is the linker's \<open>_gp\<close>. A name of 32 bytes or more would run over the fields behind it and
  a \<open>nice\<close> outside \<open>-20 .. 19\<close> reads outside the weight tables.
\<close>

definition task_create :: "u32 \<Rightarrow> u8 list \<Rightarrow> u32 \<Rightarrow> u32 \<Rightarrow> u32 \<Rightarrow> int \<Rightarrow> bool \<Rightarrow> pc_state \<Rightarrow> (nat \<times> pc_state) option" where
  "task_create gp task_name entry argc args nice user_mode s = do {
     (a, s) \<leftarrow> call_vm (vm_kmalloc TASK_KERNEL_SIZE) s;
     if a = 0 then Some (NULL, s)
     else do {
       let p = unat a;
       _ \<leftarrow> c_guard (List.length task_name < 32);
       s \<leftarrow> Some (upd_task p (\<lambda>t. t\<lparr>t_name := task_name\<rparr>) s);
       s \<leftarrow> Some (upd_task p (\<lambda>t. t\<lparr>t_nice := nice, t_static_prio := nice + 20, t_prio := nice + 20\<rparr>) s);
       (res, pids) \<leftarrow> assign_real_pid_from_ns p (pc_curr_ns s) (pc_pids s);
       s \<leftarrow> Some (s\<lparr>pc_pids := pids\<rparr>);
       if res = - 1 then Some (NULL, s)
       else do {
         s \<leftarrow> Some (upd_vm (upd_proc p (\<lambda>v. v\<lparr>vp_pid := of_int (up_nr (rp_numbers (real_pids pids p) 0))\<rparr>)) s);
         s \<leftarrow> Some (upd_task p (\<lambda>t. t\<lparr>t_parent := NULL\<rparr>) s);
         s \<leftarrow> init_se p (vr s (current_task s)) (t_prio (pc_tasks s p)) s;
         s \<leftarrow> Some (upd_task p (\<lambda>t. t\<lparr>t_context := zero_context\<lparr>r_epc := entry, r_sp := a + TASK_KERNEL_SIZE,
                r_gp := gp, r_a0 := argc, r_a1 := args\<rparr>\<rparr>) s);
         s \<leftarrow> enqueue_task_fair p s;
         s \<leftarrow> Some (add_task p s);
         s \<leftarrow> Some (set_state p task_ready s);
         s \<leftarrow> Some (upd_task p (\<lambda>t. t\<lparr>t_state := TASK_READY\<rparr>) s);
         s \<leftarrow> (if user_mode then do {
             (v, s) \<leftarrow> call_vm vm_create s;
             s \<leftarrow> Some (upd_vm (upd_proc p (\<lambda>t. t\<lparr>vp_vm := v\<rparr>)) s);
             run_vm (memory_pool_create p) s
           } else Some (upd_vm (upd_proc p (\<lambda>v. v\<lparr>vp_vm := 0, vp_blocks := (\<lambda>i. if i < 9 then 0 else vp_blocks v i)\<rparr>)) s));
         s \<leftarrow> Some (upd_task p (\<lambda>t. t\<lparr>t_user_mode := user_mode\<rparr>) s);
         s \<leftarrow> update_min_vruntime s;
         Some (p, s)
       }
     }
   }"

section \<open>Kill, wait and wake-up\<close>

definition kill_found :: "nat \<Rightarrow> pc_state \<Rightarrow> pc_state option" where
  "kill_found p s = do {
     s \<leftarrow> Some (delete_task p s);
     s \<leftarrow> Some (unset_state p s);
     s \<leftarrow> dequeue_task_fair p s;
     s \<leftarrow> Some (upd_task p (\<lambda>t. t\<lparr>t_state := TASK_DEAD\<rparr>) s);
     s \<leftarrow> (if t_user_mode (pc_tasks s p) then do {
         s \<leftarrow> run_vm (vm_delete p) s;
         run_vm (memory_pool_delete p) s
       } else Some s);
     pids \<leftarrow> free_real_pid p (pc_pids s);
     Some (s\<lparr>pc_pids := pids\<rparr>)
   }"

definition task_kill :: "u32 \<Rightarrow> pc_state \<Rightarrow> pc_state option" where
  "task_kill pid s =
     (if pid = 0 then Some s
      else do {
        let old_ie = irq_state s;
        s \<leftarrow> Some (irq_disable s);
        s \<leftarrow> (case find (\<lambda>p. task_pid s p = pid) (pc_all s) of None \<Rightarrow> Some s | Some p \<Rightarrow> kill_found p s);
        s \<leftarrow> update_min_vruntime s;
        Some (irq_enable old_ie s)
      })"

definition wait_found :: "u32 \<Rightarrow> nat \<Rightarrow> pc_state \<Rightarrow> (bool \<times> pc_state) option" where
  "wait_found delta p s = do {
     let is_cur = (p = current_task s);
     s \<leftarrow> (if is_cur then do {
         s \<leftarrow> update_curr delta s;
         Some (upd_rq (\<lambda>q. q\<lparr>rq_need_sched := True\<rparr>) s)
       } else Some s);
     s \<leftarrow> Some (unset_state p s);
     s \<leftarrow> Some (set_state p task_waiting s);
     s \<leftarrow> dequeue_task_fair p s;
     Some (is_cur, upd_task p (\<lambda>t. t\<lparr>t_state := TASK_WAITING\<rparr>) s)
   }"

definition task_wait :: "u32 \<Rightarrow> reg_context \<Rightarrow> pc_state \<Rightarrow> (reg_context \<times> pc_state) option" where
  "task_wait pid fr s = do {
     let delta = pc_count s div sysctl_sched_time_unit;
     let delta = (if delta = 0 then 1 else delta);
     if pid = 0 then Some (fr, s)
     else do {
       let old_ie = irq_state s;
       s \<leftarrow> Some (irq_disable s);
       (is_cur, s) \<leftarrow> (case find (\<lambda>p. task_pid s p = pid) (pc_all s) of
           None \<Rightarrow> Some (False, s) | Some p \<Rightarrow> wait_found delta p s);
       s \<leftarrow> update_min_vruntime s;
       s \<leftarrow> Some (irq_enable old_ie s);
       if is_cur then ret_from_sched_syscall fr s else Some (fr, s)
     }
   }"

text \<open>The key of the woken task changes after it has been put into the tree.\<close>

definition wakeup_found :: "nat \<Rightarrow> pc_state \<Rightarrow> pc_state option" where
  "wakeup_found p s = do {
     s \<leftarrow> Some (unset_state p s);
     s \<leftarrow> Some (set_state p task_ready s);
     s \<leftarrow> enqueue_task_fair p s;
     s \<leftarrow> Some (upd_task p (\<lambda>t. t\<lparr>t_state := TASK_READY\<rparr>) s);
     s \<leftarrow> Some (upd_se p (\<lambda>e. e\<lparr>se_vruntime := max (se_vruntime e) (rq_min_vruntime (rq s) - NICE_0_LOAD * 8)\<rparr>) s);
     check_preempt_wakeup p s
   }"

definition task_wakeup :: "u32 \<Rightarrow> reg_context \<Rightarrow> pc_state \<Rightarrow> (reg_context \<times> pc_state) option" where
  "task_wakeup pid fr s = do {
     let delta = pc_count s div sysctl_sched_time_unit;
     if pid = 0 then Some (fr, s)
     else do {
       let old_ie = irq_state s;
       s \<leftarrow> Some (irq_disable s);
       s \<leftarrow> update_curr delta s;
       s \<leftarrow> (case find (\<lambda>p. task_pid s p = pid) (pc_waiting s) of None \<Rightarrow> Some s | Some p \<Rightarrow> wakeup_found p s);
       s \<leftarrow> update_min_vruntime s;
       s \<leftarrow> Some (irq_enable old_ie s);
       ret_from_sched_syscall fr s
     }
   }"

section \<open>Exit and exec\<close>

definition task_exit_syscall :: "reg_context \<Rightarrow> pc_state \<Rightarrow> (reg_context \<times> pc_state) option" where
  "task_exit_syscall fr s =
     (if task_pid s (current_task s) = 0 \<or> task_pid s (current_task s) = 1 then Some (fr, s)
      else do {
        s \<leftarrow> update_curr 10000 s;
        let pid_to_kill = task_pid s (current_task s);
        nxt \<leftarrow> pick_next_task_fair s;
        if nxt = current_task s then Some (fr, s)
        else do {
          let fr = copy_context (t_context (pc_tasks s nxt)) fr;
          s \<leftarrow> Some (upd_vm (\<lambda>v. v\<lparr>v_current := nxt\<rparr>) s);
          s \<leftarrow> Some (upd_task nxt (\<lambda>t. t\<lparr>t_state := TASK_RUNNING\<rparr>) s);
          s \<leftarrow> Some (upd_rq (\<lambda>q. q\<lparr>rq_cur := nxt\<rparr>) s);
          s \<leftarrow> Some (upd_vm (set_active_asid (task_pid s nxt)) s);
          s \<leftarrow> task_kill pid_to_kill s;
          Some (fr, s)
        }
      })"

definition get_current_task :: "pc_state \<Rightarrow> nat" where
  "get_current_task s = current_task s"

text \<open>
  \<open>task_exec_from_file\<close>: \<open>file\<close> is the size of the file \<open>vfs_open\<close> gives, or None when it fails, and \<open>vfs_read\<close>
  stores the file at an address and returns the number of bytes read.
\<close>

definition task_exec_from_file ::
    "u32 \<Rightarrow> u32 option \<Rightarrow> (u32 \<Rightarrow> u32 \<Rightarrow> vm_state \<Rightarrow> u32 \<times> vm_state) \<Rightarrow> u8 list \<Rightarrow> pc_state \<Rightarrow> (u32 \<times> pc_state) option" where
  "task_exec_from_file gp file vfs_read filename s = do {
     let old_ie = irq_state s;
     s \<leftarrow> Some (irq_disable s);
     case file of
       None \<Rightarrow> Some (1, irq_enable old_ie s)
     | Some sz \<Rightarrow> do {
         (user_proc_entry, s) \<leftarrow> call_vm (vm_kmalloc sz) s;
         (n, s) \<leftarrow> call_vm (\<lambda>v. Some (vfs_read user_proc_entry sz v)) s;
         if n \<noteq> sz then Some (1, irq_enable old_ie s)
         else do {
           (pcb, s) \<leftarrow> task_create gp filename 0 0 0 0 True s;
           _ \<leftarrow> c_guard (pcb \<noteq> NULL);
           s \<leftarrow> run_vm (vma_set_mapping pcb 0 user_proc_entry) s;
           Some (0, irq_enable old_ie s)
         }
       }
   }"

definition state_to_string :: "task_state \<Rightarrow> string" where
  "state_to_string st = (if st = TASK_RUNNING then ''RUNNING'' else if st = TASK_READY then ''READY''
     else if st = TASK_WAITING then ''WAIT'' else ''DEAD'')"

end
