(* ===== verification/PCInv.thy ===== *)
theory PCInv
  imports PC
begin

text \<open>
  The invariant of the process tables and what the scheduler's operations do to it: every task on the
  run queue is on \<open>task_ready\<close>, every other one on \<open>task_waiting\<close>, and the running one is on the queue.
\<close>

section \<open>Fields\<close>

lemma pc_more:
  assumes "cfs_state.more s' = cfs_state.more s"
  shows "pc_vm s' = pc_vm s" "pc_pids s' = pc_pids s" "pc_tasks s' = pc_tasks s" "pc_all s' = pc_all s"
    "pc_waiting s' = pc_waiting s" "pc_init s' = pc_init s" "pc_root_ns s' = pc_root_ns s" "pc_curr_ns s' = pc_curr_ns s"
    "pc_traps s' = pc_traps s" "pc_count s' = pc_count s"
  using assms by (cases s; cases s'; simp)+

lemma pc_upd_simps [simp]:
  "rq (upd_task p f s) = rq s" "ses (upd_task p f s) = ses s" "ready (upd_task p f s) = ready s" "pc_vm (upd_task p f s) = pc_vm s"
  "pc_all (upd_task p f s) = pc_all s" "pc_waiting (upd_task p f s) = pc_waiting s" "pc_pids (upd_task p f s) = pc_pids s"
  "pc_tasks (upd_task p f s) = (pc_tasks s)(p := f (pc_tasks s p))" "pc_count (upd_task p f s) = pc_count s"
  "rq (upd_vm g s) = rq s" "ses (upd_vm g s) = ses s" "ready (upd_vm g s) = ready s" "pc_vm (upd_vm g s) = g (pc_vm s)"
  "pc_all (upd_vm g s) = pc_all s" "pc_waiting (upd_vm g s) = pc_waiting s" "pc_pids (upd_vm g s) = pc_pids s"
  "pc_tasks (upd_vm g s) = pc_tasks s" "pc_count (upd_vm g s) = pc_count s"
  by (simp_all add: upd_task_def upd_vm_def)

lemma pc_upd_cfs [simp]:
  "pc_vm (upd_se p h s) = pc_vm s" "pc_all (upd_se p h s) = pc_all s" "pc_waiting (upd_se p h s) = pc_waiting s"
  "pc_tasks (upd_se p h s) = pc_tasks s" "pc_pids (upd_se p h s) = pc_pids s" "pc_count (upd_se p h s) = pc_count s"
  "pc_vm (upd_rq k s) = pc_vm s" "pc_all (upd_rq k s) = pc_all s" "pc_waiting (upd_rq k s) = pc_waiting s"
  "pc_tasks (upd_rq k s) = pc_tasks s" "pc_pids (upd_rq k s) = pc_pids s" "pc_count (upd_rq k s) = pc_count s"
  by (simp_all add: upd_se_def upd_rq_def)

lemma irq_simps [simp]:
  "rq (irq_disable s) = rq s" "ses (irq_disable s) = ses s" "ready (irq_disable s) = ready s" "pc_all (irq_disable s) = pc_all s"
  "pc_waiting (irq_disable s) = pc_waiting s" "pc_tasks (irq_disable s) = pc_tasks s" "pc_pids (irq_disable s) = pc_pids s"
  "pc_count (irq_disable s) = pc_count s" "pc_vm (irq_disable s) = (pc_vm s)\<lparr>v_ie := False\<rparr>"
  "rq (irq_enable b s) = rq s" "ses (irq_enable b s) = ses s" "ready (irq_enable b s) = ready s" "pc_all (irq_enable b s) = pc_all s"
  "pc_waiting (irq_enable b s) = pc_waiting s" "pc_tasks (irq_enable b s) = pc_tasks s" "pc_pids (irq_enable b s) = pc_pids s"
  "pc_count (irq_enable b s) = pc_count s" "pc_vm (irq_enable b s) = (pc_vm s)\<lparr>v_ie := b \<or> irq_state s\<rparr>"
  by (simp_all add: irq_disable_def irq_enable_def disable_interrupts_def enable_interrupts_def)

lemma rq_inv_cong:
  assumes "rq_tree (rq s') = rq_tree (rq s)" "rq_leftmost (rq s') = rq_leftmost (rq s)"
    "rq_nr_running (rq s') = rq_nr_running (rq s)" "rq_weight (rq s') = rq_weight (rq s)"
    and "\<forall>x. vr s' x = vr s x \<and> se_weight (ses s' x) = se_weight (ses s x) \<and> se_on_rq (ses s' x) = se_on_rq (ses s x)"
  shows "rq_inv s' xs = rq_inv s xs"
  using assms by (simp add: rq_inv_def timeline_def)

section \<open>The invariant\<close>

definition lists_ok :: "pc_state \<Rightarrow> nat set \<Rightarrow> bool" where
  "lists_ok s A \<longleftrightarrow> distinct (ready s) \<and> set (ready s) = A \<and> distinct (pc_waiting s) \<and> set (pc_waiting s) \<inter> A = {}
     \<and> distinct (pc_all s) \<and> set (pc_all s) = A \<union> set (pc_waiting s)"

definition weights_ok :: "pc_state \<Rightarrow> nat set \<Rightarrow> bool" where
  "weights_ok s A \<longleftrightarrow> (\<forall>x \<in> A. 0 < se_weight (ses s x) \<and> se_weight (ses s x) \<le> 88761)"

definition pc_core :: "pc_state \<Rightarrow> nat list \<Rightarrow> bool" where
  "pc_core s xs \<longleftrightarrow> rq_inv s xs \<and> rq_min_vruntime (rq s) \<le> U32_MAX \<and> List.length xs \<le> 512 \<and> lists_ok s (set xs)
     \<and> weights_ok s (set (pc_all s))"

definition pc_inv :: "pc_state \<Rightarrow> nat list \<Rightarrow> bool" where
  "pc_inv s xs \<longleftrightarrow> pc_core s xs \<and> current_task s = rq_cur (rq s) \<and> current_task s \<in> set xs"

lemma pc_invD:
  assumes "pc_inv s xs"
  shows "rq_inv s xs" "rq_min_vruntime (rq s) \<le> U32_MAX" "List.length xs \<le> 512" "lists_ok s (set xs)"
    "\<forall>x \<in> set xs. 0 < se_weight (ses s x) \<and> se_weight (ses s x) \<le> 88761"
    "current_task s = rq_cur (rq s)" "current_task s \<in> set xs" "weights_ok s (set (pc_all s))"
  using assms by (auto simp: pc_inv_def pc_core_def weights_ok_def lists_ok_def)

lemma pc_inv_core: "pc_inv s xs \<Longrightarrow> pc_core s xs"
  by (simp add: pc_inv_def)

lemma pc_coreD:
  assumes "pc_core s xs"
  shows "rq_inv s xs" "rq_min_vruntime (rq s) \<le> U32_MAX" "List.length xs \<le> 512" "lists_ok s (set xs)"
    "weights_ok s (set (pc_all s))"
  using assms by (simp_all add: pc_core_def)

section \<open>The timer tick\<close>

text \<open>The virtual times after charging the running task.\<close>

definition charged :: "u32 \<Rightarrow> pc_state \<Rightarrow> nat \<Rightarrow> u32" where
  "charged delta s x = (if x = current_task s
     then se_vruntime (charge delta (the (calc_delta_fair delta (ses s x))) (ses s x)) else vr s x)"

lemma charge_sel [simp]: "se_weight (charge a b e) = se_weight e" "se_on_rq (charge a b e) = se_on_rq e"
  by (simp_all add: charge_def)

lemma calc_delta_fair_total: "0 < se_weight e \<Longrightarrow> \<exists>d. calc_delta_fair delta e = Some d"
  by (auto simp: calc_delta_fair_def calc_delta_def c_guard_def)

lemma room_mono: "(a :: u32) \<le> b \<Longrightarrow> b \<le> U32_MAX \<Longrightarrow> b + 10 < U32_MAX \<Longrightarrow> a + 10 < U32_MAX"
proof -
  assume a: "a \<le> b" "b \<le> U32_MAX" "b + 10 < U32_MAX"
  have n: "unat a \<le> unat b" "unat b \<le> 2147483647" using a by (simp_all add: word_le_nat_alt U32_MAX_def)
  have "unat (a + 10) = unat a + 10" "unat (b + 10) = unat b + 10"
    using unat_add_lem [of a 10] unat_add_lem [of b 10] n by simp_all
  then show ?thesis using a(3) n by (simp add: word_less_nat_alt)
qed

lemma room_min:
  fixes m :: u32
  assumes "finite A" "x \<in> A" "f x + 10 < U32_MAX" "f x \<le> U32_MAX" "m + 10 < U32_MAX" "m \<le> U32_MAX"
  shows "\<not> U32_MAX \<le> max m (Min (f ` A)) + 10"
proof -
  have le: "Min (f ` A) \<le> f x" using assms(1,2) by simp
  have "max m (Min (f ` A)) + 10 < U32_MAX"
  proof (cases "m \<le> Min (f ` A)")
    case True
    then show ?thesis using room_mono [OF le assms(4,3)] by (simp add: max_def)
  next
    case False
    then show ?thesis using assms(5) by (simp add: max_def)
  qed
  then show ?thesis by simp
qed

lemma update_curr_pc:
  assumes i: "pc_inv s xs" and m: "rq_min_vruntime (rq s) + 10 < U32_MAX" and r: "\<exists>x \<in> set xs. charged delta s x + 10 < U32_MAX"
  shows "\<exists>s' ys. update_curr delta s = Some s' \<and> mset ys = mset xs \<and> pc_inv s' ys \<and> vr s' = charged delta s
    \<and> ready s' = ready s \<and> cfs_state.more s' = cfs_state.more s \<and> rq_need_sched (rq s') = rq_need_sched (rq s)
    \<and> rq_cur (rq s') = rq_cur (rq s)
    \<and> (\<forall>x. se_weight (ses s' x) = se_weight (ses s x) \<and> (x \<noteq> current_task s \<longrightarrow> ses s' x = ses s x))
    \<and> rq_min_vruntime (rq s') = max (rq_min_vruntime (rq s)) (Min (charged delta s ` set xs))"
proof -
  let ?c = "current_task s"
  have c: "rq_cur (rq s) = ?c" "rq_cur (rq s) \<in> set xs" using pc_invD(6,7) [OF i] by simp_all
  obtain d where d: "calc_delta_fair delta (ses s ?c) = Some d"
    using calc_delta_fair_total pc_invD(5,7) [OF i] by blast
  let ?f = "(ses s)(?c := charge delta d (ses s ?c))"
  let ?ys = "vr_insert (\<lambda>x. se_vruntime (?f x)) ?c (remove1 ?c xs)"
  let ?mv = "max (rq_min_vruntime (rq s)) (Min ((\<lambda>x. se_vruntime (?f x)) ` set xs))"
  have ch: "(\<lambda>x. se_vruntime (?f x)) = charged delta s" using d by (auto simp: charged_def)
  have le: "charged delta s x \<le> U32_MAX" if "x \<in> set xs" for x
    using timelineD(5) [OF rq_invD(1) [OF pc_invD(1) [OF i]] that] charge_bound by (simp add: charged_def)
  obtain x where x: "x \<in> set xs" "charged delta s x + 10 < U32_MAX" using r by blast
  have nr: "\<not> U32_MAX \<le> ?mv + 10" unfolding ch by (rule room_min [where x = x]) (use x le [OF x(1)] m pc_invD(2) [OF i] in simp_all)
  obtain s' where s': "rq_inv s' ?ys" "ses s' = ?f" "rq_min_vruntime (rq s') = ?mv" "ready s' = ready s"
    "cfs_state.more s' = cfs_state.more s" "rq_cur (rq s') = ?c" "rq_need_sched (rq s') = rq_need_sched (rq s)"
    "update_curr delta s = Some s'"
    using update_curr_steps [OF pc_invD(1,2) [OF i] c(2), of delta d] d nr unfolding c(1) by auto
  have ms: "mset ?ys = mset xs" using pc_invD(7) [OF i] by simp
  then have st: "set ?ys = set xs" "List.length ?ys = List.length xs" by (metis set_mset_mset, metis size_mset)
  have mv: "?mv \<le> U32_MAX" unfolding ch using le [OF x(1)] x(1) pc_invD(2) [OF i]
    by (meson List.finite_set Min_le finite_imageI imageI max.bounded_iff order_trans)
  note mm = pc_more [OF s'(5)]
  have w: "\<forall>y. se_weight (ses s' y) = se_weight (ses s y)" by (simp add: s'(2))
  have "lists_ok s' (set ?ys)" "weights_ok s' (set (pc_all s'))"
    using pc_invD(4,8) [OF i] unfolding st(1) lists_ok_def weights_ok_def mm(4,5) s'(4) using w by simp_all
  then have "pc_inv s' ?ys"
    unfolding pc_inv_def pc_core_def using s'(1,3,6) mv pc_invD(3,7) [OF i] unfolding mm(1) st by (intro conjI) simp_all
  moreover have "vr s' = charged delta s" using ch s'(2) by simp
  moreover have "rq_min_vruntime (rq s') = max (rq_min_vruntime (rq s)) (Min (charged delta s ` set xs))"
    using s'(3) unfolding ch .
  ultimately show ?thesis using s' ms w c(1) by (intro exI [of _ s'] exI [of _ ?ys]) simp
qed

lemma pick_pc:
  assumes "pc_core s xs" and ne: "xs \<noteq> []"
  shows "pick_next_task_fair s = Some (List.hd xs) \<and> List.hd xs \<in> set xs \<and> vr s (List.hd xs) = Min (vr s ` set xs)"
proof -
  have t: "timeline s xs" using rq_invD(1) [OF pc_coreD(1) [OF assms(1)]] .
  have "rq_leftmost (rq s) = List.hd xs" "List.hd xs \<in> set xs"
    using rq_invD(2) [OF pc_coreD(1) [OF assms(1)]] ne by (cases xs; simp)+
  moreover from this(2) have "List.hd xs \<noteq> NULL" using timelineD(4) [OF t] by metis
  ultimately show ?thesis
    using sorted_hd_Min [OF timelineD(2) [OF t] ne] by (simp add: pick_next_task_fair_def pick_next_entity_def)
qed

lemma pc_inv_cong:
  assumes i: "pc_core s xs"
    and "\<forall>x. vr s' x = vr s x \<and> se_weight (ses s' x) = se_weight (ses s x) \<and> se_on_rq (ses s' x) = se_on_rq (ses s x)"
    and "rq_tree (rq s') = rq_tree (rq s)" "rq_leftmost (rq s') = rq_leftmost (rq s)" "rq_nr_running (rq s') = rq_nr_running (rq s)"
    and "rq_weight (rq s') = rq_weight (rq s)" "rq_min_vruntime (rq s') = rq_min_vruntime (rq s)"
    and "ready s' = ready s" "pc_waiting s' = pc_waiting s" "pc_all s' = pc_all s"
    and "current_task s' = rq_cur (rq s')" "current_task s' \<in> set xs"
  shows "pc_inv s' xs"
proof -
  have "rq_inv s' xs" using rq_inv_cong [OF assms(3-6,2)] pc_coreD(1) [OF i] by simp
  then show ?thesis using i assms unfolding pc_inv_def pc_core_def lists_ok_def weights_ok_def by simp
qed

text \<open>What a switch of the current task leaves behind: the registers are exchanged.\<close>

definition switched :: "reg_context \<Rightarrow> pc_state \<Rightarrow> reg_context \<Rightarrow> pc_state \<Rightarrow> bool" where
  "switched fr s fr' s' \<longleftrightarrow>
     (if current_task s' = current_task s
      then fr' = fr \<and> (\<forall>x. t_context (pc_tasks s' x) = t_context (pc_tasks s x) \<and> t_state (pc_tasks s' x) = t_state (pc_tasks s x))
      else t_context (pc_tasks s' (current_task s)) = fr \<and> fr' = t_context (pc_tasks s (current_task s'))
        \<and> (\<forall>x. x \<noteq> current_task s \<longrightarrow> t_context (pc_tasks s' x) = t_context (pc_tasks s x))
        \<and> t_state (pc_tasks s' (current_task s)) = TASK_READY \<and> t_state (pc_tasks s' (current_task s')) = TASK_RUNNING
        \<and> v_entry_hi (pc_vm s') = (v_entry_hi (pc_vm s) AND 0xFFFFE000) OR task_pid s' (current_task s'))"

lemma switch_pc:
  assumes i: "pc_core s xs" and n: "nxt \<in> set xs" "nxt \<noteq> current_task s"
  shows "\<exists>fr' s'. switch_to nxt fr s = (fr', s') \<and> pc_inv s' xs \<and> switched fr s fr' s' \<and> current_task s' = nxt
    \<and> irq_state s' = irq_state s \<and> vr s' = vr s \<and> pc_count s' = pc_count s"
proof -
  obtain fr' s' where e: "switch_to nxt fr s = (fr', s')" by fastforce
  have "pc_inv s' xs"
    by (rule pc_inv_cong [OF i]) (use e n in \<open>auto simp: switch_to_def Let_def set_active_asid_def split: if_splits\<close>)
  moreover have "switched fr s fr' s'" "current_task s' = nxt" "irq_state s' = irq_state s" "vr s' = vr s" "pc_count s' = pc_count s"
    using e n(2) by (auto simp: switch_to_def Let_def switched_def set_active_asid_def fun_eq_iff)
  ultimately show ?thesis using e by blast
qed

text \<open>The common part of the tick and the scheduler: take the first task of the queue.\<close>

lemma resched_pc:
  assumes i: "pc_inv s xs"
  shows "\<exists>nxt fr' s'. pick_next_task_fair s = Some nxt
    \<and> (if current_task s = nxt then (fr, s) else switch_to nxt fr s) = (fr', s') \<and> pc_inv (clear_need_sched s') xs
    \<and> switched fr s fr' (clear_need_sched s') \<and> current_task s' = nxt \<and> vr s nxt = Min (vr s ` set xs)
    \<and> irq_state s' = irq_state s \<and> vr s' = vr s \<and> pc_count s' = pc_count s"
proof -
  have c: "pc_inv (clear_need_sched t) xs" if "pc_inv t xs" for t
    by (rule pc_inv_cong [OF pc_inv_core [OF that]]) (use pc_invD(6,7) [OF that] in \<open>simp_all add: clear_need_sched_def\<close>)
  have sw: "switched fr s fr' (clear_need_sched t) = switched fr s fr' t" for fr' t
    by (simp add: switched_def clear_need_sched_def)
  note pick = pick_pc [OF pc_inv_core [OF i]]
  have ne: "xs \<noteq> []" using pc_invD(7) [OF i] by auto
  show ?thesis
  proof (cases "current_task s = List.hd xs")
    case True
    have "switched fr s fr s" by (simp add: switched_def)
    then show ?thesis using True pick [OF ne] c [OF i] sw by (intro exI [of _ "List.hd xs"] exI [of _ fr] exI [of _ s]) simp
  next
    case False
    obtain fr' s' where s': "switch_to (List.hd xs) fr s = (fr', s')" "pc_inv s' xs" "switched fr s fr' s'"
      "current_task s' = List.hd xs" "irq_state s' = irq_state s" "vr s' = vr s" "pc_count s' = pc_count s"
      using switch_pc [OF pc_inv_core [OF i] _ False [symmetric], of fr] pick [OF ne] by blast
    then show ?thesis using False pick [OF ne] c [OF s'(2)] sw
      by (intro exI [of _ "List.hd xs"] exI [of _ fr'] exI [of _ s']) simp
  qed
qed

lemma pc_inv_irq [simp]: "pc_inv (irq_disable s) xs = pc_inv s xs" "pc_inv (irq_enable b s) xs = pc_inv s xs"
  "pc_inv (s\<lparr>pc_count := n\<rparr>) xs = pc_inv s xs"
  by (auto simp: pc_inv_def pc_core_def lists_ok_def weights_ok_def rq_inv_def timeline_def)

lemma switched_irq [simp]:
  "switched fr (irq_disable s) fr' s' = switched fr s fr' s'" "switched fr s fr' (irq_enable b s') = switched fr s fr' s'"
  "switched fr s fr' (s'\<lparr>pc_count := n\<rparr>) = switched fr s fr' s'"
  "switched fr (upd_rq f s) fr' s' = switched fr s fr' s'" "switched fr s fr' (upd_rq f s') = switched fr s fr' s'"
  by (simp_all add: switched_def)

lemma check_preempt_tick_pc:
  assumes i: "pc_inv s xs"
  shows "\<exists>b. check_preempt_tick (current_task s) s = Some (if b then upd_rq (\<lambda>q. q\<lparr>rq_need_sched := True\<rparr>) s else s)"
proof -
  obtain v where "sched_slice (current_task s) s = Some v"
    using slice_value [OF pc_invD(1,3,7,5) [OF i]] by blast
  then show ?thesis
    by (intro exI [of _ "se_sum_exec (ses s (current_task s)) - se_prev_sum_exec (ses s (current_task s)) > v"])
      (simp add: check_preempt_tick_def Let_def)
qed

lemma task_schedule_pc:
  assumes i: "pc_inv s xs"
  shows "\<exists>fr' s'. task_schedule fr s = Some (fr', s') \<and> pc_inv s' xs \<and> switched fr s fr' s' \<and> vr s' = vr s
    \<and> vr s (current_task s') = Min (vr s ` set xs) \<and> irq_state s' = irq_state s \<and> \<not> rq_need_sched (rq s')
    \<and> pc_waiting s' = pc_waiting s"
proof -
  let ?s = "irq_disable s"
  obtain nxt fr' s' where r: "pick_next_task_fair ?s = Some nxt"
    "(if current_task ?s = nxt then (fr, ?s) else switch_to nxt fr ?s) = (fr', s')" "pc_inv (clear_need_sched s') xs"
    "switched fr ?s fr' (clear_need_sched s')" "current_task s' = nxt" "vr ?s nxt = Min (vr ?s ` set xs)"
    "irq_state s' = irq_state ?s" "vr s' = vr ?s" "pc_count s' = pc_count ?s"
    using resched_pc [of ?s xs fr] i unfolding pc_inv_irq(1) by blast
  let ?r = "irq_enable (irq_state s) ((clear_need_sched s')\<lparr>pc_count := 0\<rparr>)"
  have "task_schedule fr s = Some (fr', ?r)" using r(1,2) by (simp add: task_schedule_def)
  moreover have "pc_inv ?r xs" using r(3) by simp
  moreover have "switched fr s fr' ?r" using r(4) by simp
  moreover have "\<not> rq_need_sched (rq ?r)" "vr ?r = vr s" "irq_state ?r = irq_state s" "current_task ?r = nxt"
    using r(5,7,8) by (simp_all add: clear_need_sched_def)
  moreover have "vr s nxt = Min (vr s ` set xs)" using r(6) by simp
  moreover have "pc_waiting ?r = pc_waiting s"
    using r(2) by (auto simp: switch_to_def Let_def clear_need_sched_def split: if_splits)
  ultimately show ?thesis by (intro exI [of _ fr'] exI [of _ ?r]) (simp del: irq_simps)
qed

lemma pc_inv_need [simp]: "pc_inv (upd_rq (\<lambda>q. q\<lparr>rq_need_sched := b\<rparr>) s) xs = pc_inv s xs"
  by (simp add: pc_inv_def pc_core_def lists_ok_def weights_ok_def rq_inv_def timeline_def)

lemma charged_irq [simp]: "charged delta (irq_disable s) = charged delta s"
  by (simp add: charged_def fun_eq_iff)

lemma task_tick_pc:
  assumes i: "pc_inv s xs" and m: "rq_min_vruntime (rq s) + 10 < U32_MAX" and r: "\<exists>x \<in> set xs. charged 60 s x + 10 < U32_MAX"
  shows "\<exists>fr' s' ys. task_tick fr s = Some (fr', s') \<and> mset ys = mset xs \<and> pc_inv s' ys \<and> switched fr s fr' s'
    \<and> vr s' = charged 60 s \<and> irq_state s' = irq_state s
    \<and> (current_task s' \<noteq> current_task s \<longrightarrow> vr s' (current_task s') = Min (vr s' ` set xs))"
proof -
  have m60: "sysctl_sched_min_granularity_ns div sysctl_sched_time_unit = 60"
    by (simp add: sysctl_sched_min_granularity_ns_def sysctl_sched_time_unit_def)
  have i0: "pc_inv (irq_disable s) xs" "rq_min_vruntime (rq (irq_disable s)) + 10 < U32_MAX"
    "\<exists>x \<in> set xs. charged 60 (irq_disable s) x + 10 < U32_MAX" using i m r by simp_all
  obtain s1 ys where s1: "update_curr 60 (irq_disable s) = Some s1" "mset ys = mset xs" "pc_inv s1 ys" "vr s1 = charged 60 s"
    "cfs_state.more s1 = cfs_state.more (irq_disable s)"
    using update_curr_pc [OF i0] unfolding charged_irq by blast
  have st: "set ys = set xs" using s1(2) by (metis set_mset_mset)
  note f1 = pc_more [OF s1(5)]
  obtain b where b: "check_preempt_tick (current_task s1) s1 = Some (if b then upd_rq (\<lambda>q. q\<lparr>rq_need_sched := True\<rparr>) s1 else s1)"
    using check_preempt_tick_pc [OF s1(3)] by blast
  define s2 where "s2 = (if b then upd_rq (\<lambda>q. q\<lparr>rq_need_sched := True\<rparr>) s1 else s1)"
  have i2: "pc_inv s2 ys" using s1(3) by (simp add: s2_def)
  have f2: "pc_vm s2 = (pc_vm s)\<lparr>v_ie := False\<rparr>" "pc_tasks s2 = pc_tasks s" "vr s2 = charged 60 s"
    using f1 s1(4) by (simp_all add: s2_def)
  have sw: "switched fr s2 fr' t = switched fr s fr' t" for fr' t by (simp add: switched_def f2)
  show ?thesis
  proof (cases "rq_need_sched (rq s2)")
    case False
    let ?r = "if irq_state s then irq_enable True (s2\<lparr>pc_count := 0\<rparr>) else s2"
    have "task_tick fr s = Some (fr, ?r)"
      using s1(1) b False unfolding task_tick_def m60 s2_def by simp
    moreover have "pc_inv ?r ys" "vr ?r = charged 60 s" "irq_state ?r = irq_state s" "current_task ?r = current_task s"
      using i2 f2 by simp_all
    moreover have "switched fr s fr ?r" using f2 by (simp add: switched_def)
    ultimately show ?thesis using s1(2) by blast
  next
    case True
    obtain nxt fr' s' where n: "pick_next_task_fair s2 = Some nxt"
      "(if current_task s2 = nxt then (fr, s2) else switch_to nxt fr s2) = (fr', s')" "pc_inv (clear_need_sched s') ys"
      "switched fr s2 fr' (clear_need_sched s')" "current_task s' = nxt" "vr s2 nxt = Min (vr s2 ` set ys)"
      "irq_state s' = irq_state s2" "vr s' = vr s2" "pc_count s' = pc_count s2"
      using resched_pc [OF i2, of fr] by blast
    let ?c = "clear_need_sched s'"
    let ?r = "if irq_state s then irq_enable True (?c\<lparr>pc_count := 0\<rparr>) else ?c"
    have c: "pc_vm ?c = pc_vm s'" "vr ?c = vr s'" by (simp_all add: clear_need_sched_def)
    have "task_tick fr s = Some (fr', ?r)"
      using s1(1) b True n(1,2) unfolding task_tick_def m60 s2_def by (simp add: bind_Some_iff split: prod.splits)
    moreover have "pc_inv ?r ys" using n(3) by simp
    moreover have "switched fr s fr' ?r" using n(4) sw by simp
    moreover have v: "vr ?r = charged 60 s" and "irq_state ?r = irq_state s" and t: "current_task ?r = nxt"
      using n(5,7,8) c f2 by simp_all
    moreover have "vr ?r (current_task ?r) = Min (vr ?r ` set xs)"
      unfolding t v fun_cong [OF v] using n(6) fun_cong [OF f2(3)] st by simp
    ultimately show ?thesis using s1(2) by blast
  qed
qed

section \<open>Waiting and killing\<close>

lemma find_member: "find P xs = Some x \<Longrightarrow> x \<in> set xs \<and> P x"
  by (auto simp: find_Some_iff)

text \<open>Taking a task off the run queue: the other lists decide where it goes.\<close>

lemma leave_queue:
  assumes i: "pc_core s xs" and p: "p \<in> set xs"
    and t: "rq t = rq s" "ses t = ses s" "ready t = remove1 p (ready s)"
    and w: "distinct (pc_waiting t)" "set (pc_waiting t) \<inter> (set xs - {p}) = {}" "distinct (pc_all t)"
      "set (pc_all t) = set xs - {p} \<union> set (pc_waiting t)" "set (pc_all t) \<subseteq> set (pc_all s)"
  shows "\<exists>s'. dequeue_task_fair p t = Some s' \<and> pc_core s' (remove1 p xs) \<and> vr s' = vr s \<and> cfs_state.more s' = cfs_state.more t
    \<and> ready s' = ready t \<and> rq_cur (rq s') = rq_cur (rq s) \<and> rq_need_sched (rq s') = rq_need_sched (rq s)"
proof -
  have rt: "rq_inv t xs" using pc_coreD(1) [OF i] t by (simp add: rq_inv_def timeline_def)
  obtain s' where s': "dequeue_task_fair p t = Some s'" "rq_inv s' (remove1 p xs)" "ses s' = (ses t)(p := (ses t p)\<lparr>se_on_rq := False\<rparr>)"
    "ready s' = ready t" "cfs_state.more s' = cfs_state.more t" "rq_cur (rq s') = rq_cur (rq t)"
    "rq_min_vruntime (rq s') = rq_min_vruntime (rq t)" "rq_need_sched (rq s') = rq_need_sched (rq t)"
    using dequeue_task_inv [OF rt p] by blast
  note m = pc_more [OF s'(5)]
  have d: "distinct xs" using timelineD(3) [OF rq_invD(1) [OF pc_coreD(1) [OF i]]] .
  then have st: "set (remove1 p xs) = set xs - {p}" by simp
  have "lists_ok s' (set (remove1 p xs))"
    using pc_coreD(4) [OF i] w t(3) s'(4) unfolding lists_ok_def m st by simp
  moreover have "weights_ok s' (set (pc_all s'))"
    using pc_coreD(5) [OF i] w(5) s'(3) t(2) unfolding weights_ok_def m by auto
  moreover have "List.length (remove1 p xs) \<le> 512" using pc_coreD(3) [OF i] by (auto simp: length_remove1)
  ultimately have "pc_core s' (remove1 p xs)"
    using s'(2,7) t(1) pc_coreD(2) [OF i] unfolding pc_core_def by simp
  moreover have "vr s' = vr s" using s'(3) t(2) by (simp add: fun_eq_iff)
  ultimately show ?thesis using s' t(1) by (intro exI [of _ s']) simp
qed

lemma update_min_pc:
  assumes i: "pc_core s xs" and ne: "xs \<noteq> []"
  shows "\<exists>s'. update_min_vruntime s = Some s' \<and> pc_core s' xs \<and> ses s' = ses s \<and> ready s' = ready s
    \<and> cfs_state.more s' = cfs_state.more s \<and> rq_cur (rq s') = rq_cur (rq s) \<and> rq_need_sched (rq s') = rq_need_sched (rq s)"
proof -
  obtain s' where s': "update_min_vruntime s = Some s'" "rq_inv s' xs"
    "s' = upd_rq (\<lambda>q. q\<lparr>rq_leftmost := first_or_null xs, rq_min_vruntime := max (rq_min_vruntime (rq s)) (Min (vr s ` set xs))\<rparr>) s"
    using update_min_inv [OF pc_coreD(1,2) [OF i] ne] by blast
  have le: "\<forall>x \<in> set xs. vr s x \<le> U32_MAX" using rq_invD(1) [OF pc_coreD(1) [OF i]] by (simp add: timeline_def)
  have "Min (vr s ` set xs) \<in> vr s ` set xs" using ne by (intro Min_in) simp_all
  then have "Min (vr s ` set xs) \<le> U32_MAX" using le by auto
  then have "pc_core s' xs"
    using i s'(2) pc_coreD(2) [OF i] unfolding pc_core_def lists_ok_def weights_ok_def by (simp add: s'(3))
  then show ?thesis using s'(1) by (intro exI [of _ s']) (simp add: s'(3))
qed

lemma pc_core_irq [simp]: "pc_core (irq_disable s) xs = pc_core s xs" "pc_core (irq_enable b s) xs = pc_core s xs"
  "pc_core (s\<lparr>pc_count := n\<rparr>) xs = pc_core s xs" "pc_core (upd_rq (\<lambda>q. q\<lparr>rq_need_sched := c\<rparr>) s) xs = pc_core s xs"
  "pc_core (upd_task p f s) xs = pc_core s xs" "pc_core (s\<lparr>pc_pids := q\<rparr>) xs = pc_core s xs"
  by (auto simp: pc_core_def lists_ok_def weights_ok_def rq_inv_def timeline_def)

text \<open>Moving a task that is not current from the run queue to \<open>task_waiting\<close>.\<close>

lemma to_waiting:
  assumes i: "pc_core s xs" and p: "p \<in> set xs"
  defines "t \<equiv> set_state p task_waiting (unset_state p s)"
  shows "\<exists>s'. dequeue_task_fair p t = Some s' \<and> pc_core s' (remove1 p xs) \<and> vr s' = vr s \<and> cfs_state.more s' = cfs_state.more t
    \<and> ready s' = ready t \<and> rq_cur (rq s') = rq_cur (rq s) \<and> rq_need_sched (rq s') = rq_need_sched (rq s)"
proof (rule leave_queue [OF i p])
  have l: "distinct (pc_waiting s)" "set (pc_waiting s) \<inter> set xs = {}" "distinct (pc_all s)" "set (pc_all s) = set xs \<union> set (pc_waiting s)"
    using pc_coreD(4) [OF i] by (simp_all add: lists_ok_def)
  then have n: "p \<notin> set (pc_waiting s)" using p by auto
  then have t: "rq t = rq s" "ses t = ses s" "ready t = remove1 p (ready s)" "pc_waiting t = pc_waiting s @ [p]" "pc_all t = pc_all s"
    by (simp_all add: t_def set_state_def unset_state_def remove1_idem)
  show "rq t = rq s" "ses t = ses s" "ready t = remove1 p (ready s)" using t by simp_all
  show "distinct (pc_waiting t)" "set (pc_waiting t) \<inter> (set xs - {p}) = {}" "distinct (pc_all t)"
    "set (pc_all t) = set xs - {p} \<union> set (pc_waiting t)" "set (pc_all t) \<subseteq> set (pc_all s)"
    using l n p unfolding t(4,5) by auto
qed

lemma waiting_fields: "pc_vm (set_state p l (unset_state p s)) = pc_vm s" "pc_tasks (set_state p l (unset_state p s)) = pc_tasks s"
  "pc_pids (set_state p l (unset_state p s)) = pc_pids s" "pc_count (set_state p l (unset_state p s)) = pc_count s"
  "pc_all (set_state p l (unset_state p s)) = pc_all s" "rq (set_state p l (unset_state p s)) = rq s"
  "ses (set_state p l (unset_state p s)) = ses s"
  by (simp_all add: set_state_def unset_state_def split: state_list.split)

lemma task_wait_other_pc:
  assumes i: "pc_inv s xs" and f: "find (\<lambda>q. task_pid s q = pid) (pc_all s) = Some p" "pid \<noteq> 0"
    and p: "p \<in> set xs" "p \<noteq> current_task s"
  shows "\<exists>s'. task_wait pid fr s = Some (fr, s') \<and> pc_inv s' (remove1 p xs) \<and> pc_waiting s' = pc_waiting s @ [p]
    \<and> ready s' = remove1 p (ready s) \<and> t_state (pc_tasks s' p) = TASK_WAITING \<and> vr s' = vr s
    \<and> current_task s' = current_task s \<and> irq_state s' = irq_state s"
proof -
  let ?s = "irq_disable s"
  have nw: "p \<notin> set (pc_waiting s)" using pc_invD(4) [OF i] p(1) by (auto simp: lists_ok_def)
  obtain s1 where s1: "dequeue_task_fair p (set_state p task_waiting (unset_state p ?s)) = Some s1" "pc_core s1 (remove1 p xs)"
    "vr s1 = vr ?s" "cfs_state.more s1 = cfs_state.more (set_state p task_waiting (unset_state p ?s))"
    "ready s1 = ready (set_state p task_waiting (unset_state p ?s))" "rq_cur (rq s1) = rq_cur (rq ?s)"
    using to_waiting [of ?s xs p] pc_inv_core [OF i] p(1) by (simp only: pc_core_irq) blast
  note m1 = pc_more [OF s1(4)]
  define s2 where "s2 = upd_task p (\<lambda>t. t\<lparr>t_state := TASK_WAITING\<rparr>) s1"
  have c2: "pc_core s2 (remove1 p xs)" using s1(2) by (simp add: s2_def)
  have mem: "current_task s \<in> set (remove1 p xs)" using pc_invD(7) [OF i] p(2) by (simp add: in_set_remove1)
  then have ne: "remove1 p xs \<noteq> []" by auto
  obtain s3 where s3: "update_min_vruntime s2 = Some s3" "pc_core s3 (remove1 p xs)" "ses s3 = ses s2" "ready s3 = ready s2"
    "cfs_state.more s3 = cfs_state.more s2" "rq_cur (rq s3) = rq_cur (rq s2)"
    using update_min_pc [OF c2 ne] by blast
  note m3 = pc_more [OF s3(5)]
  let ?r = "irq_enable (irq_state s) s3"
  have wf: "wait_found d p ?s = Some (False, s2)" for d using p(2) s1(1) by (simp add: wait_found_def s2_def)
  have "task_wait pid fr s = Some (fr, ?r)" using f wf s3(1) by (simp add: task_wait_def Let_def)
  moreover have "pc_inv ?r (remove1 p xs)"
    using s3(2,6) mem pc_invD(6) [OF i] m3 s1(6) m1 unfolding pc_inv_def by (simp add: s2_def waiting_fields)
  moreover have "pc_waiting ?r = pc_waiting s @ [p]" "ready ?r = remove1 p (ready s)" "t_state (pc_tasks ?r p) = TASK_WAITING"
    "current_task ?r = current_task s" "irq_state ?r = irq_state s"
    using m3 m1 s3(4) s1(5) nw by (simp_all add: s2_def waiting_fields) (simp_all add: set_state_def unset_state_def remove1_idem)
  moreover have "vr ?r = vr s" using fun_cong [OF s1(3)] by (simp add: s3(3) s2_def fun_eq_iff)
  ultimately show ?thesis by blast
qed

text \<open>A task that waits itself: the scheduler runs at once and takes another task.\<close>

lemma schedule_away:
  assumes c: "pc_core s xs" and ne: "xs \<noteq> []" and n: "current_task s \<notin> set xs" "rq_need_sched (rq s)"
  shows "\<exists>fr' s'. ret_from_sched_syscall fr s = Some (fr', s') \<and> pc_inv s' xs
    \<and> switched (fr\<lparr>r_v0 := 15, r_epc := r_epc fr + 4\<rparr>) s fr' s' \<and> current_task s' = List.hd xs
    \<and> vr s' = vr s \<and> ready s' = ready s \<and> pc_waiting s' = pc_waiting s \<and> irq_state s' = irq_state s"
proof -
  let ?s = "irq_disable (irq_disable s)" and ?fr = "fr\<lparr>r_v0 := 15, r_epc := r_epc fr + 4\<rparr>"
  have ci: "pc_core ?s xs" using c by simp
  have h: "List.hd xs \<in> set xs" "List.hd xs \<noteq> current_task ?s" using ne n(1) by (auto dest: hd_in_set)
  obtain fr' s' where s': "switch_to (List.hd xs) ?fr ?s = (fr', s')" "pc_inv s' xs" "switched ?fr ?s fr' s'"
    "current_task s' = List.hd xs" "vr s' = vr ?s"
    using switch_pc [OF ci h] by blast
  have f: "ready s' = ready s" "pc_waiting s' = pc_waiting s"
    using s'(1) by (auto simp: switch_to_def Let_def)
  let ?c = "irq_enable False ((clear_need_sched s')\<lparr>pc_count := 0\<rparr>)"
  have ie: "\<not> irq_state s'" using s'(1) by (auto simp: switch_to_def Let_def set_active_asid_def)
  have "task_schedule ?fr (irq_disable s) = Some (fr', ?c)"
    using s'(1) pick_pc [OF ci ne] h(2) by (simp add: task_schedule_def)
  then have "ret_from_sched_syscall fr s = Some (fr', irq_enable (irq_state s) ?c)"
    using n(2) by (simp add: ret_from_sched_syscall_def Let_def)
  moreover have "pc_inv (irq_enable (irq_state s) ?c) xs" using s'(2) by (simp add: clear_need_sched_def)
  moreover have "switched ?fr s fr' (irq_enable (irq_state s) ?c)" using s'(3) by (simp add: clear_need_sched_def)
  moreover have "vr (irq_enable (irq_state s) ?c) = vr s" using fun_cong [OF s'(5)] by (simp add: clear_need_sched_def fun_eq_iff)
  moreover have "ready (irq_enable (irq_state s) ?c) = ready s" "pc_waiting (irq_enable (irq_state s) ?c) = pc_waiting s"
    "irq_state (irq_enable (irq_state s) ?c) = irq_state s" "current_task (irq_enable (irq_state s) ?c) = List.hd xs"
    using f s'(4) ie by (simp_all add: clear_need_sched_def)
  ultimately show ?thesis by blast
qed

definition ticks :: "pc_state \<Rightarrow> u32" where
  "ticks s = (if pc_count s div sysctl_sched_time_unit = 0 then 1 else pc_count s div sysctl_sched_time_unit)"

lemma task_wait_self_pc:
  assumes i: "pc_inv s xs" and f: "find (\<lambda>q. task_pid s q = pid) (pc_all s) = Some p" "pid \<noteq> 0" and p: "p = current_task s"
    and two: "1 < List.length xs"
    and m: "rq_min_vruntime (rq s) + 10 < U32_MAX" and r: "\<exists>x \<in> set xs. charged (ticks s) s x + 10 < U32_MAX"
  shows "\<exists>fr' s' ys. task_wait pid fr s = Some (fr', s') \<and> pc_inv s' ys \<and> mset ys = mset xs - {#p#}
    \<and> pc_waiting s' = pc_waiting s @ [p] \<and> current_task s' \<noteq> p \<and> t_state (pc_tasks s' p) = TASK_READY
    \<and> t_context (pc_tasks s' p) = fr\<lparr>r_v0 := 15, r_epc := r_epc fr + 4\<rparr> \<and> fr' = t_context (pc_tasks s (current_task s'))"
proof -
  let ?s = "irq_disable s"
  have i0: "pc_inv ?s xs" "rq_min_vruntime (rq ?s) + 10 < U32_MAX" "\<exists>x \<in> set xs. charged (ticks s) ?s x + 10 < U32_MAX"
    using i m r by simp_all
  obtain s1 ys where s1: "update_curr (ticks s) ?s = Some s1" "mset ys = mset xs" "pc_inv s1 ys" "ready s1 = ready ?s"
    "cfs_state.more s1 = cfs_state.more ?s"
    using update_curr_pc [OF i0] by blast
  note m1 = pc_more [OF s1(5)]
  let ?s1 = "upd_rq (\<lambda>q. q\<lparr>rq_need_sched := True\<rparr>) s1"
  have p1: "p \<in> set ys" using p pc_invD(7) [OF i] s1(2) by (metis set_mset_mset)
  have c1: "pc_core ?s1 ys" using pc_inv_core [OF s1(3)] by simp
  let ?t = "set_state p task_waiting (unset_state p ?s1)"
  obtain s2 where s2: "dequeue_task_fair p ?t = Some s2" "pc_core s2 (remove1 p ys)" "vr s2 = vr ?s1"
    "cfs_state.more s2 = cfs_state.more ?t" "ready s2 = ready ?t" "rq_need_sched (rq s2) = rq_need_sched (rq ?s1)"
    using to_waiting [OF c1 p1] by blast
  note m2 = pc_more [OF s2(4)]
  define s3 where "s3 = upd_task p (\<lambda>t. t\<lparr>t_state := TASK_WAITING\<rparr>) s2"
  have len: "List.length ys = List.length xs" using s1(2) by (metis size_mset)
  have ne: "remove1 p ys \<noteq> []" using two len p1 length_remove1 [of p ys] by auto
  obtain s4 where s4: "update_min_vruntime s3 = Some s4" "pc_core s4 (remove1 p ys)" "ready s4 = ready s3"
    "cfs_state.more s4 = cfs_state.more s3" "rq_need_sched (rq s4) = rq_need_sched (rq s3)"
    using update_min_pc [OF _ ne, of s3] s2(2) by (simp only: s3_def pc_core_irq) blast
  note m4 = pc_more [OF s4(4)]
  let ?r = "irq_enable (irq_state s) s4"
  have d: "distinct ys" using timelineD(3) [OF rq_invD(1) [OF pc_coreD(1) [OF c1]]] .
  have cur: "current_task ?r = p" using p m1 m2 m4 by (simp add: s3_def waiting_fields)
  have need: "rq_need_sched (rq ?r)" using s4(5) s2(6) by (simp add: s3_def)
  have away: "pc_core ?r (remove1 p ys)" "current_task ?r \<notin> set (remove1 p ys)" using s4(2) cur d by simp_all
  obtain fr' s' where s': "ret_from_sched_syscall fr ?r = Some (fr', s')" "pc_inv s' (remove1 p ys)"
    "switched (fr\<lparr>r_v0 := 15, r_epc := r_epc fr + 4\<rparr>) ?r fr' s'" "current_task s' = List.hd (remove1 p ys)"
    "pc_waiting s' = pc_waiting ?r"
    using schedule_away [OF away(1) ne away(2) need, of fr] by blast
  have wf: "wait_found (ticks s) p ?s = Some (True, s3)" using p s1(1) s2(1) by (simp add: wait_found_def s3_def)
  have "task_wait pid fr s = Some (fr', s')"
    using f wf s4(1) s'(1) by (simp add: task_wait_def Let_def ticks_def)
  moreover have np: "current_task s' \<noteq> p" using s'(4) ne d hd_in_set [OF ne] by auto
  moreover have "t_state (pc_tasks s' p) = TASK_READY" "t_context (pc_tasks s' p) = fr\<lparr>r_v0 := 15, r_epc := r_epc fr + 4\<rparr>"
    "fr' = t_context (pc_tasks ?r (current_task s'))"
    using s'(3) np cur by (simp_all add: switched_def split: if_splits)
  moreover have "pc_tasks ?r x = pc_tasks s x" if "x \<noteq> p" for x
    using that m4 m2 m1 by (simp add: s3_def waiting_fields)
  moreover have "pc_waiting ?r = pc_waiting s @ [p]"
  proof -
    have "p \<notin> set (pc_waiting s)" using p pc_invD(4,7) [OF i] by (auto simp: lists_ok_def)
    then show ?thesis using m4 m2 m1 by (simp add: s3_def) (simp add: set_state_def unset_state_def remove1_idem)
  qed
  moreover have "mset (remove1 p ys) = mset xs - {#p#}" using s1(2) by simp
  ultimately show ?thesis using s'(2,5) by (intro exI [of _ fr'] exI [of _ s'] exI [of _ "remove1 p ys"]) simp
qed

section \<open>Killing\<close>

lemma task_kill_core:
  assumes i: "pc_core s xs" and f: "find (\<lambda>q. task_pid s q = pid) (pc_all s) = Some p" "pid \<noteq> 0"
    and p: "p \<in> set xs" "remove1 p xs \<noteq> []" and k: "\<not> t_user_mode (pc_tasks s p)"
    and q: "free_real_pid p (pc_pids s) = Some pids"
  shows "\<exists>s'. task_kill pid s = Some s' \<and> pc_core s' (remove1 p xs) \<and> pc_all s' = remove1 p (pc_all s) \<and> pc_waiting s' = pc_waiting s
    \<and> ready s' = remove1 p (ready s) \<and> t_state (pc_tasks s' p) = TASK_DEAD \<and> pc_pids s' = pids \<and> vr s' = vr s
    \<and> current_task s' = current_task s \<and> irq_state s' = irq_state s \<and> rq_cur (rq s') = rq_cur (rq s)"
proof -
  let ?s = "irq_disable s"
  let ?t = "unset_state p (delete_task p ?s)"
  have c0: "pc_core ?s xs" using i by simp
  have l: "distinct (pc_waiting s)" "set (pc_waiting s) \<inter> set xs = {}" "distinct (pc_all s)" "set (pc_all s) = set xs \<union> set (pc_waiting s)"
    using pc_coreD(4) [OF i] by (simp_all add: lists_ok_def)
  then have n: "p \<notin> set (pc_waiting s)" using p by auto
  have t: "rq ?t = rq s" "ses ?t = ses s" "ready ?t = remove1 p (ready s)" "pc_waiting ?t = pc_waiting s" "pc_all ?t = remove1 p (pc_all s)"
    "pc_tasks ?t = pc_tasks s" "pc_pids ?t = pc_pids s" "pc_vm ?t = pc_vm ?s"
    using n by (simp_all add: unset_state_def delete_task_def remove1_idem)
  obtain s1 where s1: "dequeue_task_fair p ?t = Some s1" "pc_core s1 (remove1 p xs)" "vr s1 = vr ?s"
    "cfs_state.more s1 = cfs_state.more ?t" "ready s1 = ready ?t" "rq_cur (rq s1) = rq_cur (rq ?s)"
    using leave_queue [OF c0 p(1), of ?t] t l n p(1) by auto
  note m1 = pc_more [OF s1(4)]
  define s2 where "s2 = (upd_task p (\<lambda>t. t\<lparr>t_state := TASK_DEAD\<rparr>) s1)\<lparr>pc_pids := pids\<rparr>"
  have kf: "kill_found p ?s = Some s2" using s1(1) k q m1 t by (simp add: kill_found_def s2_def)
  have c2: "pc_core s2 (remove1 p xs)" using s1(2) by (simp add: s2_def)
  obtain s3 where s3: "update_min_vruntime s2 = Some s3" "pc_core s3 (remove1 p xs)" "ses s3 = ses s2" "ready s3 = ready s2"
    "cfs_state.more s3 = cfs_state.more s2" "rq_cur (rq s3) = rq_cur (rq s2)"
    using update_min_pc [OF c2 p(2)] by blast
  note m3 = pc_more [OF s3(5)]
  let ?r = "irq_enable (irq_state s) s3"
  have v: "pc_vm s2 = (pc_vm s)\<lparr>v_ie := False\<rparr>" using m1 t by (simp add: s2_def)
  have "task_kill pid s = Some ?r" using f kf s3(1) by (simp add: task_kill_def Let_def)
  moreover have "pc_core ?r (remove1 p xs)" using s3(2) by simp
  moreover have "pc_all ?r = remove1 p (pc_all s)" "pc_waiting ?r = pc_waiting s" "t_state (pc_tasks ?r p) = TASK_DEAD"
    "pc_pids ?r = pids" "current_task ?r = current_task s" "irq_state ?r = irq_state s" "ready ?r = remove1 p (ready s)"
    "rq_cur (rq ?r) = rq_cur (rq s)"
    using m3 m1 t v s3(4,6) s1(5,6) by (simp_all add: s2_def)
  moreover have "vr ?r = vr s" using fun_cong [OF s1(3)] by (simp add: s3(3) s2_def fun_eq_iff)
  ultimately show ?thesis by blast
qed

lemma task_kill_pc:
  assumes i: "pc_inv s xs" and f: "find (\<lambda>q. task_pid s q = pid) (pc_all s) = Some p" "pid \<noteq> 0"
    and p: "p \<in> set xs" "xs \<noteq> [p]" and k: "\<not> t_user_mode (pc_tasks s p)"
    and q: "free_real_pid p (pc_pids s) = Some pids"
  shows "\<exists>s'. task_kill pid s = Some s' \<and> pc_core s' (remove1 p xs) \<and> (p \<noteq> current_task s \<longrightarrow> pc_inv s' (remove1 p xs))
    \<and> pc_all s' = remove1 p (pc_all s) \<and> pc_waiting s' = pc_waiting s
    \<and> ready s' = remove1 p (ready s) \<and> p \<notin> set (pc_all s') \<union> set (pc_waiting s') \<union> set (ready s')
    \<and> t_state (pc_tasks s' p) = TASK_DEAD \<and> pc_pids s' = pids \<and> vr s' = vr s
    \<and> current_task s' = current_task s \<and> irq_state s' = irq_state s"
proof -
  have d: "distinct (pc_all s)" "distinct (ready s)" "p \<notin> set (pc_waiting s)" using pc_invD(4) [OF i] p(1) by (auto simp: lists_ok_def)
  have ne: "remove1 p xs \<noteq> []"
  proof
    assume "remove1 p xs = []"
    moreover have "mset xs = add_mset p (mset (remove1 p xs))" using p(1) by simp
    ultimately have "mset xs = {#p#}" by simp
    then show False using p(2) by simp
  qed
  obtain s' where s': "task_kill pid s = Some s'" "pc_core s' (remove1 p xs)" "pc_all s' = remove1 p (pc_all s)" "pc_waiting s' = pc_waiting s"
    "ready s' = remove1 p (ready s)" "t_state (pc_tasks s' p) = TASK_DEAD" "pc_pids s' = pids" "vr s' = vr s"
    "current_task s' = current_task s" "irq_state s' = irq_state s" "rq_cur (rq s') = rq_cur (rq s)"
    using task_kill_core [OF pc_inv_core [OF i] f p(1) ne k q] by blast
  have "pc_inv s' (remove1 p xs)" if "p \<noteq> current_task s"
  proof -
    have "current_task s \<in> set (remove1 p xs)" using pc_invD(7) [OF i] that by (simp add: in_set_remove1)
    then show ?thesis using s' pc_invD(6) [OF i] unfolding pc_inv_def by metis
  qed
  moreover have "p \<notin> set (pc_all s') \<union> set (pc_waiting s') \<union> set (ready s')" using d s'(3-5) by simp
  ultimately show ?thesis using s' by (intro exI [of _ s'] conjI) simp_all
qed

section \<open>Waking up\<close>

text \<open>
  \<open>task_wakeup\<close> raises the virtual time after it has placed the task. While \<open>min_vruntime\<close> is below 8192 the
  subtraction wraps around, and the new value is larger than every legal virtual time.
\<close>

lemma wakeup_wraps: "m < 8192 \<Longrightarrow> v \<le> U32_MAX \<Longrightarrow> max v (m - NICE_0_LOAD * 8) = m - 8192 \<and> U32_MAX < m - 8192" for m v :: u32
proof -
  assume a: "m < 8192" "v \<le> U32_MAX"
  have "unat (m - 8192) = unat m + 2 ^ 32 - 8192"
    using a(1) by (simp add: unat_sub_if' word_less_nat_alt)
  then have "U32_MAX < m - 8192" using a(1) by (simp add: word_less_nat_alt U32_MAX_def)
  moreover from this have "v \<le> m - 8192" using a(2) by order
  ultimately show ?thesis by (simp add: NICE_0_LOAD_def max_absorb2)
qed

lemma wakeup_late_key:
  assumes i: "pc_inv s xs" and p: "p \<in> set (pc_waiting s)" "p \<noteq> NULL" "vr s p \<le> U32_MAX" and m: "rq_min_vruntime (rq s) < 8192"
  shows "\<exists>s' ys. wakeup_found p s = Some s' \<and> rb_seq (rq_tree (rq s')) ys \<and> mset ys = add_mset p (mset xs)
    \<and> vr s' p = rq_min_vruntime (rq s) - 8192 \<and> U32_MAX < vr s' p"
proof -
  let ?t = "set_state p task_ready (unset_state p s)"
  have n: "p \<notin> set xs" using pc_invD(4) [OF i] p(1) by (auto simp: lists_ok_def)
  have rt: "rq_inv ?t xs" using pc_invD(1) [OF i] by (simp add: rq_inv_def timeline_def waiting_fields)
  obtain s1 where s1: "enqueue_task_fair p ?t = Some s1" "rq_inv s1 (vr_insert (vr ?t) p xs)"
    "ses s1 = (ses ?t)(p := (ses ?t p)\<lparr>se_on_rq := True\<rparr>)" "rq_cur (rq s1) = rq_cur (rq ?t)"
    "rq_min_vruntime (rq s1) = rq_min_vruntime (rq ?t)"
    using enqueue_task_inv [OF rt p(2) n] p(3) by (auto simp: waiting_fields)
  define s2 where "s2 = upd_se p (\<lambda>e. e\<lparr>se_vruntime := max (se_vruntime e) (rq_min_vruntime (rq s1) - NICE_0_LOAD * 8)\<rparr>)
    (upd_task p (\<lambda>t. t\<lparr>t_state := TASK_READY\<rparr>) s1)"
  have v: "vr s2 p = rq_min_vruntime (rq s) - 8192" "U32_MAX < vr s2 p"
    using wakeup_wraps [OF m p(3)] s1(3,5) by (simp_all add: s2_def waiting_fields)
  have "rq_cur (rq s2) = rq_cur (rq s)" using s1(4) by (simp add: s2_def waiting_fields)
  moreover have "rq_cur (rq s) \<in> set xs" using pc_invD(6,7) [OF i] by simp
  ultimately have cur: "rq_cur (rq s2) \<noteq> NULL" using timelineD(4) [OF rq_invD(1) [OF pc_invD(1) [OF i]]] by metis
  have "0 < se_weight (ses s2 p)"
    using pc_invD(4,8) [OF i] p(1) s1(3) by (simp add: s2_def waiting_fields weights_ok_def lists_ok_def)
  then obtain b where b: "check_preempt_wakeup p s2 = Some (if b then upd_rq (\<lambda>q. q\<lparr>rq_need_sched := True\<rparr>) s2 else s2)"
  proof -
    assume r: "\<And>b. check_preempt_wakeup p s2 = Some (if b then upd_rq (\<lambda>q. q\<lparr>rq_need_sched := True\<rparr>) s2 else s2) \<Longrightarrow> thesis"
    assume "0 < se_weight (ses s2 p)"
    then obtain g where g: "calc_delta_fair (sysctl_sched_wakeup_granularity div sysctl_sched_time_unit) (ses s2 p) = Some g"
      using calc_delta_fair_total by blast
    show thesis
      by (rule r [of "rq_cur (rq s2) \<noteq> p \<and> \<not> sint (vr s2 (rq_cur (rq s2)) - vr s2 p) \<le> 0 \<and> vr s2 (rq_cur (rq s2)) - vr s2 p > g"])
        (use g cur in \<open>simp add: check_preempt_wakeup_def Let_def\<close>)
  qed
  let ?r = "if b then upd_rq (\<lambda>q. q\<lparr>rq_need_sched := True\<rparr>) s2 else s2"
  have "wakeup_found p s = Some ?r" using s1(1) b by (simp add: wakeup_found_def s2_def)
  moreover have "rb_seq (rq_tree (rq ?r)) (vr_insert (vr ?t) p xs)"
    using timelineD(1) [OF rq_invD(1) [OF s1(2)]] by (simp add: s2_def)
  moreover have "vr ?r p = rq_min_vruntime (rq s) - 8192" "U32_MAX < vr ?r p" using v by simp_all
  ultimately show ?thesis by (metis mset_vr_insert)
qed

text \<open>A task that is not more than 8192 behind \<open>min_vruntime\<close> keeps its virtual time and its place.\<close>

lemma wakeup_found_pc:
  assumes i: "pc_inv s xs" and len: "List.length xs < 512" and p: "p \<in> set (pc_waiting s)" "p \<noteq> NULL" "vr s p \<le> U32_MAX"
    and m: "8192 \<le> rq_min_vruntime (rq s)" "rq_min_vruntime (rq s) - 8192 \<le> vr s p"
  shows "\<exists>s' ys. wakeup_found p s = Some s' \<and> pc_inv s' ys \<and> mset ys = add_mset p (mset xs) \<and> vr s' = vr s
    \<and> pc_waiting s' = remove1 p (pc_waiting s) \<and> pc_vm s' = pc_vm s \<and> pc_count s' = pc_count s
    \<and> pc_tasks s' = (pc_tasks s)(p := (pc_tasks s p)\<lparr>t_state := TASK_READY\<rparr>)"
proof -
  let ?t = "set_state p task_ready (unset_state p s)"
  have l: "distinct (ready s)" "set (ready s) = set xs" "distinct (pc_waiting s)" "set (pc_waiting s) \<inter> set xs = {}" "distinct (pc_all s)"
    "set (pc_all s) = set xs \<union> set (pc_waiting s)" using pc_invD(4) [OF i] by (simp_all add: lists_ok_def)
  have n: "p \<notin> set xs" using l(4) p(1) by auto
  have rt: "rq_inv ?t xs" using pc_invD(1) [OF i] by (simp add: rq_inv_def timeline_def waiting_fields)
  obtain s1 where s1: "enqueue_task_fair p ?t = Some s1" "rq_inv s1 (vr_insert (vr ?t) p xs)"
    "ses s1 = (ses ?t)(p := (ses ?t p)\<lparr>se_on_rq := True\<rparr>)" "ready s1 = ready ?t" "cfs_state.more s1 = cfs_state.more ?t"
    "rq_cur (rq s1) = rq_cur (rq ?t)" "rq_min_vruntime (rq s1) = rq_min_vruntime (rq ?t)"
    using enqueue_task_inv [OF rt p(2) n] p(3) by (auto simp: waiting_fields)
  note m1 = pc_more [OF s1(5)]
  define s2 where "s2 = upd_se p (\<lambda>e. e\<lparr>se_vruntime := max (se_vruntime e) (rq_min_vruntime (rq s1) - NICE_0_LOAD * 8)\<rparr>)
    (upd_task p (\<lambda>t. t\<lparr>t_state := TASK_READY\<rparr>) s1)"
  have mx: "max (vr s1 p) (rq_min_vruntime (rq s1) - NICE_0_LOAD * 8) = vr s1 p"
    using m(2) s1(3,7) by (simp add: NICE_0_LOAD_def waiting_fields max_absorb1)
  then have e2: "ses s2 = ses s1" by (simp add: s2_def fun_upd_idem)
  let ?ys = "vr_insert (vr ?t) p xs"
  have f2: "rq s2 = rq s1" "ready s2 = remove1 p (ready s) @ [p]" "pc_waiting s2 = remove1 p (pc_waiting s)" "pc_all s2 = pc_all s"
    "pc_vm s2 = pc_vm s" "pc_count s2 = pc_count s" "pc_tasks s2 = (pc_tasks s)(p := (pc_tasks s p)\<lparr>t_state := TASK_READY\<rparr>)"
    using m1 s1(4) by (simp_all add: s2_def waiting_fields) (simp_all add: set_state_def unset_state_def)
  have se: "se_weight (ses s1 x) = se_weight (ses s x)" "vr s1 x = vr s x" for x using s1(3) by (simp_all add: waiting_fields)
  have r: "rq_inv s2 ?ys" using s1(2) f2(1) e2 by (simp add: rq_inv_def timeline_def)
  have np: "p \<notin> set (ready s)" using l(2) n by simp
  have lo: "lists_ok s2 (set ?ys)" unfolding lists_ok_def f2 using l n np p(1) by (auto simp: remove1_idem)
  have w: "weights_ok s2 (set (pc_all s2))" using pc_invD(8) [OF i] unfolding weights_ok_def f2 e2 se .
  have mv: "rq_min_vruntime (rq s2) \<le> U32_MAX" "rq_cur (rq s2) = rq_cur (rq s)" using s1(6,7) pc_invD(2) [OF i] f2(1) by (simp_all add: waiting_fields)
  have i2: "pc_inv s2 ?ys"
    using r lo w mv len pc_invD(6,7) [OF i] unfolding pc_inv_def pc_core_def f2(5) by simp
  have "rq_cur (rq s2) \<in> set ?ys" using pc_invD(6,7) [OF i2] by simp
  then have cur: "rq_cur (rq s2) \<noteq> NULL" using timelineD(4) [OF rq_invD(1) [OF r]] by metis
  have "0 < se_weight (ses s2 p)"
    using pc_invD(5) [OF i2] by simp
  then obtain g where g: "calc_delta_fair (sysctl_sched_wakeup_granularity div sysctl_sched_time_unit) (ses s2 p) = Some g"
    using calc_delta_fair_total by blast
  define b where "b = (rq_cur (rq s2) \<noteq> p \<and> \<not> sint (vr s2 (rq_cur (rq s2)) - vr s2 p) \<le> 0 \<and> vr s2 (rq_cur (rq s2)) - vr s2 p > g)"
  let ?r = "if b then upd_rq (\<lambda>q. q\<lparr>rq_need_sched := True\<rparr>) s2 else s2"
  have "check_preempt_wakeup p s2 = Some ?r" using g cur by (simp add: check_preempt_wakeup_def Let_def b_def)
  then have "wakeup_found p s = Some ?r" using s1(1) by (simp add: wakeup_found_def s2_def)
  moreover have "pc_inv ?r ?ys" using i2 by simp
  moreover have "vr ?r = vr s" using se by (simp add: e2 fun_eq_iff)
  moreover have "pc_waiting ?r = remove1 p (pc_waiting s)" "pc_vm ?r = pc_vm s" "pc_count ?r = pc_count s"
    "pc_tasks ?r = (pc_tasks s)(p := (pc_tasks s p)\<lparr>t_state := TASK_READY\<rparr>)" using f2 by simp_all
  ultimately show ?thesis using mset_vr_insert by blast
qed

lemma task_wakeup_pc:
  assumes i: "pc_inv s xs" and len: "List.length xs < 512"
    and f: "find (\<lambda>q. task_pid s q = pid) (pc_waiting s) = Some p" "pid \<noteq> 0" and p: "p \<noteq> NULL" "vr s p \<le> U32_MAX"
    and d: "delta = pc_count s div sysctl_sched_time_unit"
    and m: "rq_min_vruntime (rq s) + 10 < U32_MAX" and r: "\<exists>x \<in> set xs. charged delta s x + 10 < U32_MAX"
    and mv: "mv = max (rq_min_vruntime (rq s)) (Min (charged delta s ` set xs))" "8192 \<le> mv" "mv - 8192 \<le> vr s p"
  shows "\<exists>fr' s' ys. task_wakeup pid fr s = Some (fr', s') \<and> pc_inv s' ys \<and> mset ys = add_mset p (mset xs)
    \<and> pc_waiting s' = remove1 p (pc_waiting s) \<and> vr s' = charged delta s
    \<and> (current_task s' = current_task s \<or> vr s' (current_task s') = Min (vr s' ` set ys))"
proof -
  let ?s = "irq_disable s"
  have i0: "pc_inv ?s xs" "rq_min_vruntime (rq ?s) + 10 < U32_MAX" "\<exists>x \<in> set xs. charged delta ?s x + 10 < U32_MAX"
    using i m r by simp_all
  obtain s1 ys where s1: "update_curr delta ?s = Some s1" "mset ys = mset xs" "pc_inv s1 ys" "vr s1 = charged delta s"
    "cfs_state.more s1 = cfs_state.more ?s" "rq_min_vruntime (rq s1) = mv"
    using update_curr_pc [OF i0] unfolding charged_irq mv(1) irq_simps(1) by blast
  note m1 = pc_more [OF s1(5)]
  have wt: "p \<in> set (pc_waiting s)" using find_member [OF f(1)] by simp
  then have nc: "p \<noteq> current_task s" using pc_invD(4,7) [OF i] by (auto simp: lists_ok_def)
  then have vp: "vr s1 p = vr s p" using fun_cong [OF s1(4), of p] by (simp add: charged_def)
  have len1: "List.length ys < 512" using len s1(2) by (metis size_mset)
  obtain s2 zs where s2: "wakeup_found p s1 = Some s2" "pc_inv s2 zs" "mset zs = add_mset p (mset ys)" "vr s2 = vr s1"
    "pc_waiting s2 = remove1 p (pc_waiting s)" "pc_vm s2 = pc_vm s1"
    using wakeup_found_pc [OF s1(3) len1, of p] wt p vp mv(2,3) s1(6) m1 by auto
  obtain s3 where s3: "update_min_vruntime s2 = Some s3" "pc_core s3 zs" "ses s3 = ses s2" "cfs_state.more s3 = cfs_state.more s2"
    "rq_cur (rq s3) = rq_cur (rq s2)"
    using update_min_pc [OF pc_inv_core [OF s2(2)]] pc_invD(7) [OF s2(2)] by (metis list.set(1) empty_iff)
  note m3 = pc_more [OF s3(4)]
  have i3: "pc_inv s3 zs" using s3(2,5) m3 pc_invD(6,7) [OF s2(2)] by (simp add: pc_inv_def)
  let ?r = "irq_enable (irq_state s) s3"
  have f1: "(case find (\<lambda>q. task_pid s1 q = pid) (pc_waiting s1) of None \<Rightarrow> Some s1 | Some p \<Rightarrow> wakeup_found p s1) = Some s2"
    using f(1) s2(1) m1 by simp
  have run: "task_wakeup pid fr s = ret_from_sched_syscall fr ?r"
    using f(2) f1 s1(1) s3(1) by (simp add: task_wakeup_def Let_def d)
  have vr3: "vr ?r = charged delta s" using fun_cong [OF s1(4)] fun_cong [OF s2(4)] by (simp add: s3(3) fun_eq_iff)
  have w3: "pc_waiting ?r = remove1 p (pc_waiting s)" "current_task ?r = current_task s" using s2(5,6) m1 m3 by simp_all
  have ms: "mset zs = add_mset p (mset xs)" using s2(3) s1(2) by simp
  show ?thesis
  proof (cases "rq_need_sched (rq ?r)")
    case False
    then have "task_wakeup pid fr s = Some (fr, ?r)" using run by (simp add: ret_from_sched_syscall_def)
    then show ?thesis using i3 ms w3 vr3 by (intro exI [of _ fr] exI [of _ ?r] exI [of _ zs]) simp
  next
    case True
    let ?fr = "fr\<lparr>r_v0 := 15, r_epc := r_epc fr + 4\<rparr>"
    have i4: "pc_inv (irq_disable ?r) zs" using i3 by simp
    obtain fr' s' where s': "task_schedule ?fr (irq_disable ?r) = Some (fr', s')" "pc_inv s' zs" "vr s' = vr (irq_disable ?r)"
      "vr (irq_disable ?r) (current_task s') = Min (vr (irq_disable ?r) ` set zs)" "pc_waiting s' = pc_waiting (irq_disable ?r)"
      using task_schedule_pc [OF i4, of ?fr] by blast
    let ?q = "irq_enable (irq_state ?r) s'"
    have "task_wakeup pid fr s = Some (fr', ?q)" using run True s'(1) by (simp add: ret_from_sched_syscall_def Let_def)
    moreover have "pc_inv ?q zs" using s'(2) by simp
    moreover have v: "vr ?q = charged delta s" using fun_cong [OF s'(3)] fun_cong [OF vr3] by (simp add: fun_eq_iff)
    moreover have "vr ?q (current_task ?q) = Min (vr ?q ` set zs)"
      using s'(4) fun_cong [OF v] fun_cong [OF vr3] by simp
    moreover have "pc_waiting ?q = remove1 p (pc_waiting s)" using s'(5) w3 by simp
    ultimately show ?thesis using ms by blast
  qed
qed

text \<open>Waking a task that does not wait only charges the running one.\<close>

lemma task_wakeup_absent:
  assumes i: "pc_inv s xs" and f: "find (\<lambda>q. task_pid s q = pid) (pc_waiting s) = None" "pid \<noteq> 0"
    and d: "delta = pc_count s div sysctl_sched_time_unit" and n: "\<not> rq_need_sched (rq s)"
    and m: "rq_min_vruntime (rq s) + 10 < U32_MAX" and r: "\<exists>x \<in> set xs. charged delta s x + 10 < U32_MAX"
  shows "\<exists>s' ys. task_wakeup pid fr s = Some (fr, s') \<and> pc_inv s' ys \<and> mset ys = mset xs
    \<and> pc_waiting s' = pc_waiting s \<and> current_task s' = current_task s"
proof -
  let ?s = "irq_disable s"
  have i0: "pc_inv ?s xs" "rq_min_vruntime (rq ?s) + 10 < U32_MAX" "\<exists>x \<in> set xs. charged delta ?s x + 10 < U32_MAX"
    using i m r by simp_all
  obtain s1 ys where s1: "update_curr delta ?s = Some s1" "mset ys = mset xs" "pc_inv s1 ys" "cfs_state.more s1 = cfs_state.more ?s"
    "rq_need_sched (rq s1) = rq_need_sched (rq ?s)"
    using update_curr_pc [OF i0] by blast
  note m1 = pc_more [OF s1(4)]
  have ne: "ys \<noteq> []" using pc_invD(7) [OF s1(3)] by auto
  obtain s3 where s3: "update_min_vruntime s1 = Some s3" "pc_core s3 ys" "cfs_state.more s3 = cfs_state.more s1"
    "rq_cur (rq s3) = rq_cur (rq s1)" "rq_need_sched (rq s3) = rq_need_sched (rq s1)"
    using update_min_pc [OF pc_inv_core [OF s1(3)] ne] by blast
  note m3 = pc_more [OF s3(3)]
  let ?r = "irq_enable (irq_state s) s3"
  have "task_wakeup pid fr s = Some (fr, ?r)"
    using f s1(1) s3(1,5) s1(5) n m1 by (simp add: task_wakeup_def Let_def d ret_from_sched_syscall_def)
  moreover have "pc_inv ?r ys" using s3(2,4) m3 pc_invD(6,7) [OF s1(3)] by (simp add: pc_inv_def)
  moreover have "pc_waiting ?r = pc_waiting s" "current_task ?r = current_task s" using m1 m3 by simp_all
  ultimately show ?thesis using s1(2) by blast
qed

section \<open>Creation\<close>

lemma prio_weights: "n < 40 \<Longrightarrow> 0 < prio_to_weight ! n \<and> prio_to_weight ! n \<le> 88761"
proof -
  have "\<forall>w \<in> set prio_to_weight. 0 < w \<and> w \<le> 88761" by (simp add: prio_to_weight_def)
  moreover have "List.length prio_to_weight = 40" by (simp add: prio_to_weight_def)
  ultimately show "n < 40 \<Longrightarrow> 0 < prio_to_weight ! n \<and> prio_to_weight ! n \<le> 88761" using nth_mem by metis
qed

lemma create_fields: "pc_curr_ns (upd_task p f s) = pc_curr_ns s" "v_current (upd_proc p h w) = v_current w"
  by (simp_all add: upd_task_def upd_proc_def)

lemma task_create_pc:
  assumes i: "pc_inv s xs" and len: "List.length xs < 512"
    and a: "vm_kmalloc TASK_KERNEL_SIZE (pc_vm s) = Some (a, v)" "a \<noteq> 0" "unat a \<notin> set (pc_all s)"
    and g: "List.length name < 32" "- 20 \<le> nice" "nice < 20"
    and q: "assign_real_pid_from_ns (unat a) (pc_curr_ns s) (pc_pids s) = Some (res, pids)" "res \<noteq> - 1"
  shows "\<exists>s' ys. task_create gp name entry argc args nice False s = Some (unat a, s') \<and> pc_inv s' ys \<and> mset ys = add_mset (unat a) (mset xs)
    \<and> pc_all s' = pc_all s @ [unat a] \<and> pc_waiting s' = pc_waiting s \<and> pc_pids s' = pids
    \<and> task_pid s' (unat a) = of_int (up_nr (rp_numbers (real_pids pids (unat a)) 0))
    \<and> t_context (pc_tasks s' (unat a)) = zero_context\<lparr>r_epc := entry, r_sp := a + 4096, r_gp := gp, r_a0 := argc, r_a1 := args\<rparr>
    \<and> se_weight (ses s' (unat a)) = prio_to_weight ! nat (nice + 20) \<and> vr s' (unat a) = vr s (current_task s)
    \<and> current_task s' = current_task s \<and> irq_state s' = irq_state s"
proof -
  let ?p = "unat a"
  have vm: "v_current v = current_task s" "v_ie v = irq_state s"
    using a(1) by (auto simp: vm_kmalloc_def bind_Some_iff)
  have pn: "?p \<noteq> NULL" using a(2) by (simp add: unat_eq_0)
  have nx: "?p \<notin> set xs" using a(3) pc_invD(4) [OF i] by (auto simp: lists_ok_def)
  have np: "?p \<noteq> current_task s" using nx pc_invD(7) [OF i] by metis
  define vp where "vp = upd_proc ?p (\<lambda>v. v\<lparr>vp_pid := of_int (up_nr (rp_numbers (real_pids pids ?p) 0))\<rparr>) v"
  define e where "e = (ses s ?p)\<lparr>se_vruntime := vr s (current_task s), se_sum_exec := 0, se_prev_sum_exec := 0,
    se_weight := prio_to_weight ! nat (nice + 20), se_inv_weight := prio_to_wmult ! nat (nice + 20)\<rparr>"
  define tk where "tk = (pc_tasks s ?p)\<lparr>t_name := name, t_nice := nice, t_static_prio := nice + 20, t_prio := nice + 20, t_parent := NULL,
    t_context := zero_context\<lparr>r_epc := entry, r_sp := a + TASK_KERNEL_SIZE, r_gp := gp, r_a0 := argc, r_a1 := args\<rparr>\<rparr>"
  define s1 where "s1 = s\<lparr>pc_vm := vp, pc_pids := pids, ses := (ses s)(?p := e), pc_tasks := (pc_tasks s)(?p := tk)\<rparr>"
  have on: "\<not> se_on_rq (ses s ?p)" using rq_invD(5) [OF pc_invD(1) [OF i]] nx by simp
  have r1: "rq_inv s1 xs"
  proof -
    have x: "\<forall>x \<in> set xs. ses s1 x = ses s x" using nx by (auto simp: s1_def)
    have o: "(\<forall>x. se_on_rq (ses s1 x) = (x \<in> set xs)) = (\<forall>x. se_on_rq (ses s x) = (x \<in> set xs))" by (auto simp: s1_def e_def)
    have m: "map (vr s1) xs = map (vr s) xs" "map (\<lambda>x. se_weight (ses s1 x)) xs = map (\<lambda>x. se_weight (ses s x)) xs"
      "(\<forall>x \<in> set xs. vr s1 x \<le> U32_MAX) = (\<forall>x \<in> set xs. vr s x \<le> U32_MAX)"
      using x by simp_all
    have q: "rq s1 = rq s" by (simp add: s1_def)
    show ?thesis using pc_invD(1) [OF i] unfolding rq_inv_def timeline_def m o q .
  qed
  have vle: "vr s1 ?p \<le> U32_MAX"
    using timelineD(5) [OF rq_invD(1) [OF pc_invD(1) [OF i]] pc_invD(7) [OF i]] by (simp add: s1_def e_def)
  let ?ys = "vr_insert (vr s1) ?p xs"
  obtain s2 where s2: "enqueue_task_fair ?p s1 = Some s2" "rq_inv s2 ?ys" "ses s2 = (ses s1)(?p := (ses s1 ?p)\<lparr>se_on_rq := True\<rparr>)"
    "ready s2 = ready s1" "cfs_state.more s2 = cfs_state.more s1" "rq_cur (rq s2) = rq_cur (rq s1)"
    "rq_min_vruntime (rq s2) = rq_min_vruntime (rq s1)"
    using enqueue_task_inv [OF r1 pn nx vle] by blast
  note m2 = pc_more [OF s2(5)]
  define s3 where "s3 = upd_task ?p (\<lambda>t. t\<lparr>t_user_mode := False\<rparr>)
    (upd_vm (upd_proc ?p (\<lambda>v. v\<lparr>vp_vm := 0, vp_blocks := (\<lambda>i. if i < 9 then 0 else vp_blocks v i)\<rparr>))
    (upd_task ?p (\<lambda>t. t\<lparr>t_state := TASK_READY\<rparr>) (set_state ?p task_ready (add_task ?p s2))))"
  have f3: "rq s3 = rq s2" "ses s3 = ses s2" "ready s3 = ready s @ [?p]" "pc_all s3 = pc_all s @ [?p]" "pc_waiting s3 = pc_waiting s"
    "pc_pids s3 = pids" "current_task s3 = current_task s" "irq_state s3 = irq_state s"
    using s2(4) m2 vm by (simp_all add: s3_def set_state_def add_task_def s1_def vp_def upd_proc_def)
  have sel: "ses s1 = (ses s)(?p := e)" "rq s1 = rq s" by (simp_all add: s1_def)
  have "0 < se_weight e \<and> se_weight e \<le> 88761" using prio_weights [of "nat (nice + 20)"] g(2,3) by (simp add: e_def)
  then have w3: "weights_ok s3 (set (pc_all s3))"
    using pc_invD(8) [OF i] a(3) unfolding weights_ok_def f3 s2(3) sel by auto
  have l: "distinct (ready s)" "set (ready s) = set xs" "distinct (pc_waiting s)" "set (pc_waiting s) \<inter> set xs = {}" "distinct (pc_all s)"
    "set (pc_all s) = set xs \<union> set (pc_waiting s)" using pc_invD(4) [OF i] by (simp_all add: lists_ok_def)
  have "lists_ok s3 (set ?ys)" using l a(3) nx unfolding lists_ok_def f3 by auto
  moreover have "rq_inv s3 ?ys" using s2(2) f3(1,2) by (simp add: rq_inv_def timeline_def)
  ultimately have c3: "pc_core s3 ?ys"
    using w3 len pc_invD(2) [OF i] s2(7) unfolding pc_core_def by (simp add: f3 sel)
  obtain s4 where s4: "update_min_vruntime s3 = Some s4" "pc_core s4 ?ys" "ses s4 = ses s3" "cfs_state.more s4 = cfs_state.more s3"
    "rq_cur (rq s4) = rq_cur (rq s3)"
    using update_min_pc [OF c3] set_vr_insert(2) by blast
  note m4 = pc_more [OF s4(4)]
  have se: "init_se ?p (vr s (current_task s)) (nice + 20) t
      = Some (upd_se ?p (\<lambda>e. e\<lparr>se_vruntime := vr s (current_task s), se_sum_exec := 0, se_prev_sum_exec := 0,
       se_weight := prio_to_weight ! nat (nice + 20), se_inv_weight := prio_to_wmult ! nat (nice + 20)\<rparr>) t)" for t
    using g(2,3) by (simp add: init_se_def)
  have e1: "(upd_task ?p (\<lambda>t. t\<lparr>t_context := zero_context\<lparr>r_epc := entry, r_sp := a + TASK_KERNEL_SIZE, r_gp := gp, r_a0 := argc, r_a1 := args\<rparr>\<rparr>)
      (upd_se ?p (\<lambda>e. e\<lparr>se_vruntime := vr s (current_task s), se_sum_exec := 0, se_prev_sum_exec := 0,
         se_weight := prio_to_weight ! nat (nice + 20), se_inv_weight := prio_to_wmult ! nat (nice + 20)\<rparr>)
      (upd_task ?p (\<lambda>t. t\<lparr>t_parent := NULL\<rparr>)
      (upd_vm (upd_proc ?p (\<lambda>v. v\<lparr>vp_pid := of_int (up_nr (rp_numbers (real_pids pids ?p) 0))\<rparr>))
      (upd_task ?p (\<lambda>t. t\<lparr>t_nice := nice, t_static_prio := nice + 20, t_prio := nice + 20\<rparr>)
      (upd_task ?p (\<lambda>t. t\<lparr>t_name := name\<rparr>) (s\<lparr>pc_vm := v\<rparr>))\<lparr>pc_pids := pids\<rparr>))))) = s1"
    by (simp add: s1_def vp_def e_def tk_def upd_task_def upd_se_def upd_vm_def)
  have "task_create gp name entry argc args nice False s = Some (?p, s4)"
    unfolding task_create_def call_vm_def using a(1,2) g(1) q s2(1) s4(1) vm(1) e1
    by (simp add: se s3_def Let_def create_fields)
  moreover have "pc_inv s4 ?ys"
    using s4(2,5) s2(6) pc_invD(6,7) [OF i] f3(1,7) unfolding pc_inv_def m4 by (simp add: sel)
  moreover have "task_pid s4 ?p = of_int (up_nr (rp_numbers (real_pids pids ?p) 0))"
    "t_context (pc_tasks s4 ?p) = zero_context\<lparr>r_epc := entry, r_sp := a + 4096, r_gp := gp, r_a0 := argc, r_a1 := args\<rparr>"
    using m2 unfolding m4
    by (simp_all add: s3_def set_state_def add_task_def s1_def vp_def upd_proc_def tk_def TASK_KERNEL_SIZE_def)
  moreover have "se_weight (ses s4 ?p) = prio_to_weight ! nat (nice + 20)" "vr s4 ?p = vr s (current_task s)"
    unfolding s4(3) f3(2) s2(3) sel by (simp_all add: e_def)
  moreover have "pc_all s4 = pc_all s @ [?p]" "pc_waiting s4 = pc_waiting s" "pc_pids s4 = pids" "current_task s4 = current_task s"
    "irq_state s4 = irq_state s" unfolding m4 using f3 by simp_all
  ultimately show ?thesis using mset_vr_insert by (intro exI [of _ s4] exI [of _ ?ys]) simp
qed

section \<open>Properties\<close>

definition sample_pc :: pc_state where
  "sample_pc = \<lparr>rq = rq sample_cfs, ses = ses sample_cfs, ready = [8, 16],
     pc_vm = sample_vm\<lparr>v_current := 8, v_procs := (\<lambda>p. \<lparr>vp_pid = (if p = 8 then 2 else if p = 16 then 3 else 4), vp_vm = 0, vp_blocks = (\<lambda>_. 0)\<rparr>)\<rparr>,
     pc_pids = sample_pids\<lparr>real_pids := (\<lambda>_. \<lparr>rp_level = 0, rp_numbers = (\<lambda>_. \<lparr>up_nr = 3, up_ns = 1\<rparr>)\<rparr>)\<rparr>,
     pc_tasks = (\<lambda>p. \<lparr>t_state = TASK_READY, t_context = zero_context\<lparr>r_epc := of_nat p\<rparr>, t_parent = NULL, t_nice = 0, t_static_prio = 20,
        t_prio = 20, t_name = [], t_user_mode = False\<rparr>),
     pc_all = [8, 16, 4], pc_waiting = [4], pc_init = 8, pc_root_ns = 1, pc_curr_ns = 1,
     pc_traps = \<lparr>exceptions = Map.empty, interrupts = Map.empty, syscalls = Map.empty, im_status = 0\<rparr>, pc_count = 40000\<rparr>"

lemma sample_pc_inv: "pc_inv sample_pc [8, 16]"
proof -
  have "rq_inv sample_pc [8, 16]"
    using sample_cfs_inv unfolding rq_inv_def timeline_def by (simp add: sample_pc_def)
  then show ?thesis
    unfolding pc_inv_def pc_core_def lists_ok_def weights_ok_def by (simp add: sample_pc_def sample_cfs_def U32_MAX_def) auto
qed

lemma sample_pc_room: "rq_min_vruntime (rq sample_pc) + 10 < U32_MAX" "\<exists>x \<in> set [8, 16]. charged d sample_pc x + 10 < U32_MAX"
  by (simp_all add: sample_pc_def sample_cfs_def charged_def U32_MAX_def)

lemma sample_pc_fields: "current_task sample_pc = 8" "pc_all sample_pc = [8, 16, 4]" "pc_waiting sample_pc = [4]"
  "task_pid sample_pc 8 = 2" "task_pid sample_pc 16 = 3" "\<not> t_user_mode (pc_tasks sample_pc p)" "vr sample_pc 4 = 9"
  "rq_min_vruntime (rq sample_pc) = 5"
  by (simp_all add: sample_pc_def sample_cfs_def)



text \<open>Task_wait of a ready task that is not running takes it off the run queue and appends it to task_waiting; the running task goes on.\<close>

theorem task_wait_correct:
  assumes "pc_inv s xs" "find (\<lambda>q. task_pid s q = pid) (pc_all s) = Some p" "pid \<noteq> 0" "p \<in> set xs" "p \<noteq> current_task s"
  shows "\<exists>s'. task_wait pid fr s = Some (fr, s') \<and> pc_inv s' (remove1 p xs) \<and> pc_waiting s' = pc_waiting s @ [p]
    \<and> ready s' = remove1 p (ready s) \<and> t_state (pc_tasks s' p) = TASK_WAITING \<and> vr s' = vr s
    \<and> current_task s' = current_task s \<and> irq_state s' = irq_state s"
  by (rule task_wait_other_pc [OF assms])

theorem task_wait_correct_witness:
  "\<exists>s'. task_wait 3 zero_context sample_pc = Some (zero_context, s') \<and> pc_inv s' [8] \<and> pc_waiting s' = [4, 16]"
  using task_wait_correct [OF sample_pc_inv, of 3 16 zero_context] by (auto simp: sample_pc_fields)

text \<open>A task that waits itself is taken off the run queue and the scheduler runs another one, but the switch marks the waiting task TASK_READY.\<close>

theorem task_wait_self_marked_ready:
  assumes "pc_inv s xs" "find (\<lambda>q. task_pid s q = pid) (pc_all s) = Some p" "pid \<noteq> 0" "p = current_task s" "1 < List.length xs"
    and "rq_min_vruntime (rq s) + 10 < U32_MAX" "\<exists>x \<in> set xs. charged (ticks s) s x + 10 < U32_MAX"
  shows "\<exists>fr' s' ys. task_wait pid fr s = Some (fr', s') \<and> pc_inv s' ys \<and> mset ys = mset xs - {#p#}
    \<and> pc_waiting s' = pc_waiting s @ [p] \<and> current_task s' \<noteq> p \<and> t_state (pc_tasks s' p) = TASK_READY
    \<and> t_context (pc_tasks s' p) = fr\<lparr>r_v0 := 15, r_epc := r_epc fr + 4\<rparr> \<and> fr' = t_context (pc_tasks s (current_task s'))"
  by (rule task_wait_self_pc [OF assms])

theorem task_wait_self_marked_ready_witness:
  "\<exists>fr' s'. task_wait 2 zero_context sample_pc = Some (fr', s') \<and> pc_waiting s' = [4, 8] \<and> t_state (pc_tasks s' 8) = TASK_READY"
proof -
  have h: "find (\<lambda>q. task_pid sample_pc q = 2) (pc_all sample_pc) = Some 8" "(2 :: u32) \<noteq> 0" "8 = current_task sample_pc"
    "1 < List.length [8, 16 :: nat]" by (simp_all add: sample_pc_fields)
  obtain fr' s' where "task_wait 2 zero_context sample_pc = Some (fr', s')" "pc_waiting s' = pc_waiting sample_pc @ [8]"
    "t_state (pc_tasks s' 8) = TASK_READY"
    using task_wait_self_marked_ready [OF sample_pc_inv h sample_pc_room, of zero_context] by blast
  then show ?thesis by (simp add: sample_pc_fields)
qed

text \<open>Waking a task while min_vruntime is below 8192 leaves it in the tree with a virtual time above U32_MAX, larger than that of every task that has run: the key is set after the insertion and the subtraction wraps around.\<close>

theorem wakeup_key_wraps:
  assumes "pc_inv s xs" "p \<in> set (pc_waiting s)" "p \<noteq> NULL" "vr s p \<le> U32_MAX" "rq_min_vruntime (rq s) < 8192"
  shows "\<exists>s' ys. wakeup_found p s = Some s' \<and> rb_seq (rq_tree (rq s')) ys \<and> mset ys = add_mset p (mset xs)
    \<and> vr s' p = rq_min_vruntime (rq s) - 8192 \<and> U32_MAX < vr s' p"
  by (rule wakeup_late_key [OF assms])

theorem wakeup_key_wraps_witness: "\<exists>s'. wakeup_found 4 sample_pc = Some s' \<and> vr s' 4 = 4294959109"
  using wakeup_key_wraps [OF sample_pc_inv, of 4] by (auto simp: sample_pc_fields U32_MAX_def)

text \<open>A waiting task that is not more than 8192 behind min_vruntime is put back on the run queue by task_wakeup with its virtual time, the tables stay consistent, and if the scheduler switches, it is to a task with the least virtual time.\<close>

theorem task_wakeup_correct:
  assumes "pc_inv s xs" "List.length xs < 512" "find (\<lambda>q. task_pid s q = pid) (pc_waiting s) = Some p" "pid \<noteq> 0"
    and "p \<noteq> NULL" "vr s p \<le> U32_MAX" "delta = pc_count s div sysctl_sched_time_unit"
    and "rq_min_vruntime (rq s) + 10 < U32_MAX" "\<exists>x \<in> set xs. charged delta s x + 10 < U32_MAX"
    and "mv = max (rq_min_vruntime (rq s)) (Min (charged delta s ` set xs))" "8192 \<le> mv" "mv - 8192 \<le> vr s p"
  shows "\<exists>fr' s' ys. task_wakeup pid fr s = Some (fr', s') \<and> pc_inv s' ys \<and> mset ys = add_mset p (mset xs)
    \<and> pc_waiting s' = remove1 p (pc_waiting s) \<and> vr s' = charged delta s
    \<and> (current_task s' = current_task s \<or> vr s' (current_task s') = Min (vr s' ` set ys))"
  by (rule task_wakeup_pc [OF assms])

definition sample_awake :: pc_state where
  "sample_awake = sample_pc\<lparr>rq := (rq sample_cfs)\<lparr>rq_min_vruntime := 10000\<rparr>,
     ses := (\<lambda>p. (ses sample_cfs p)\<lparr>se_vruntime := if p = 8 then 10005 else 10009\<rparr>)\<rparr>"

lemma sample_awake_inv: "pc_inv sample_awake [8, 16]"
proof -
  have "rq_inv sample_awake [8, 16]"
    using sample_rb_seq(1) unfolding rq_inv_def timeline_def by (simp add: sample_awake_def sample_cfs_def U32_MAX_def)
  then show ?thesis
    unfolding pc_inv_def pc_core_def lists_ok_def weights_ok_def
    by (simp add: sample_awake_def sample_pc_def sample_cfs_def U32_MAX_def) auto
qed

lemma sample_awake_wakes:
  "List.length [8, 16 :: nat] < 512" "find (\<lambda>q. task_pid sample_awake q = 4) (pc_waiting sample_awake) = Some 4" "(4 :: u32) \<noteq> 0"
  "(4 :: nat) \<noteq> NULL" "vr sample_awake 4 \<le> U32_MAX" "(2 :: u32) = pc_count sample_awake div sysctl_sched_time_unit"
  "rq_min_vruntime (rq sample_awake) + 10 < U32_MAX" "\<exists>x \<in> set [8, 16]. charged 2 sample_awake x + 10 < U32_MAX"
  "(10007 :: u32) = max (rq_min_vruntime (rq sample_awake)) (Min (charged 2 sample_awake ` set [8, 16]))" "(8192 :: u32) \<le> 10007"
  "10007 - 8192 \<le> vr sample_awake 4"
  by (simp_all add: sample_awake_def sample_pc_def sample_cfs_def charged_def charge_def calc_delta_fair_def NICE_0_LOAD_def
      U32_MAX_def sysctl_sched_time_unit_def)

theorem task_wakeup_correct_witness:
  "\<exists>fr' s' ys. task_wakeup 4 zero_context sample_awake = Some (fr', s') \<and> pc_inv s' ys \<and> set ys = {4, 8, 16} \<and> pc_waiting s' = []"
proof -
  obtain fr' s' ys where "task_wakeup 4 zero_context sample_awake = Some (fr', s')" "pc_inv s' ys" "mset ys = add_mset 4 (mset [8, 16])"
    "pc_waiting s' = remove1 4 (pc_waiting sample_awake)"
    using task_wakeup_correct [OF sample_awake_inv sample_awake_wakes, of zero_context] by blast
  moreover from this(3) have "set ys = {4, 8, 16}" by (metis set_mset_mset set_mset_add_mset_insert list.set(2) list.set(1) set_mset_empty mset.simps)
  ultimately show ?thesis by (auto simp: sample_awake_def sample_pc_def)
qed


lemma sample_free_pid: "free_real_pid 16 (pc_pids sample_pc) = Some (pc_pids sample_pc)"
proof -
  have "free_pid_val_from_ns 3 (fresh_ns\<lparr>ns_level := 0, ns_parent := 0\<rparr>) = Some (fresh_ns\<lparr>ns_level := 0, ns_parent := 0\<rparr>)"
    by (simp add: free_pid_val_from_ns_def pid_namespace_empty_def fresh_ns_def init_pidmap_def)
  moreover have "(\<lambda>n. fresh_ns\<lparr>ns_level := n - 1, ns_parent := n - 1\<rparr>)(1 := fresh_ns\<lparr>ns_level := 0, ns_parent := 0\<rparr>)
      = (\<lambda>n. fresh_ns\<lparr>ns_level := n - 1, ns_parent := n - 1\<rparr>)" by auto
  ultimately show ?thesis
    by (simp add: free_real_pid_def sample_pc_def sample_pids_def hlist_del_init_def hlist_unhashed_def)
qed


text \<open>C35: a new kernel task gets its own page, an id, the priority's weight and the running task's virtual time, starts at its entry with its arguments and a stack at the end of its page, and joins the run queue; the tables stay consistent.\<close>

theorem task_create_correct:
  assumes "pc_inv s xs" "List.length xs < 512" "vm_kmalloc TASK_KERNEL_SIZE (pc_vm s) = Some (a, v)" "a \<noteq> 0" "unat a \<notin> set (pc_all s)"
    and "List.length name < 32" "- 20 \<le> nice" "nice < 20"
    and "assign_real_pid_from_ns (unat a) (pc_curr_ns s) (pc_pids s) = Some (res, pids)" "res \<noteq> - 1"
  shows "\<exists>s' ys. task_create gp name entry argc args nice False s = Some (unat a, s') \<and> pc_inv s' ys \<and> mset ys = add_mset (unat a) (mset xs)
    \<and> pc_all s' = pc_all s @ [unat a] \<and> pc_waiting s' = pc_waiting s \<and> pc_pids s' = pids
    \<and> task_pid s' (unat a) = of_int (up_nr (rp_numbers (real_pids pids (unat a)) 0))
    \<and> t_context (pc_tasks s' (unat a)) = zero_context\<lparr>r_epc := entry, r_sp := a + 4096, r_gp := gp, r_a0 := argc, r_a1 := args\<rparr>
    \<and> se_weight (ses s' (unat a)) = prio_to_weight ! nat (nice + 20) \<and> vr s' (unat a) = vr s (current_task s)
    \<and> current_task s' = current_task s \<and> irq_state s' = irq_state s"
  by (rule task_create_pc [OF assms])

lemma assign_loop_result: "assign_loop t ns tn n s = Some (r, s') \<Longrightarrow> r = 0 \<or> r = 1"
proof (induction n arbitrary: s tn)
  case (Suc n)
  then show ?case by (cases "tn = NULL") (auto simp: bind_Some_iff Let_def split: if_splits)
qed simp

text \<open>The failure value that \<open>task_create\<close> tests for is never returned: without a free id the task is created with the id -1.\<close>

lemma assign_result: "assign_real_pid_from_ns t ns s = Some (r, s') \<Longrightarrow> r \<noteq> - 1"
  by (auto simp: assign_real_pid_from_ns_def Let_def simp del: assign_loop.simps dest!: assign_loop_result split: if_splits)

theorem task_create_correct_witness:
  "\<exists>s' ys. task_create 0 [97] 0x80001000 0 0 0 False sample_pc = Some (0x80011000, s') \<and> pc_inv s' ys \<and> pc_all s' = [8, 16, 4, 0x80011000]"
proof -
  have k: "kmalloc VM_PAGE_SIZE (v_heap sample_vm) = Some (0x80011000, v_heap sample_vm\<lparr>buddy := snd (alloc_pages 0 (buddy (v_heap sample_vm)))\<rparr>)"
    using kmalloc_one_page [of "v_heap sample_vm"] sample_vm_ok(2) sample_vm_pages(2)
    by (simp add: vm_owned_def heap_ok_def sample_vm_def KERNEL_ENTRY_def)
  have t: "TASK_KERNEL_SIZE = VM_PAGE_SIZE" by (simp add: TASK_KERNEL_SIZE_def VM_PAGE_SIZE_def)
  obtain v where a: "vm_kmalloc TASK_KERNEL_SIZE (pc_vm sample_pc) = Some (0x80011000, v)"
    using k unfolding t by (simp add: vm_kmalloc_def sample_pc_def)
  have "ns_ok (namespaces (pc_pids sample_pc) 1)"
    using fresh_ns_ok(1) by (simp add: sample_pc_def sample_pids_def ns_ok_def)
  then obtain res pids where q: "assign_real_pid_from_ns (unat (0x80011000 :: u32)) (pc_curr_ns sample_pc) (pc_pids sample_pc) = Some (res, pids)"
    using assign_total [of "pc_pids sample_pc" 1 "unat (0x80011000 :: u32)"] by (auto simp: sample_pc_def)
  have h: "List.length [8, 16 :: nat] < 512" "(0x80011000 :: u32) \<noteq> 0" "unat (0x80011000 :: u32) \<notin> set (pc_all sample_pc)"
    "List.length [97 :: u8] < 32" "- 20 \<le> (0 :: int)" "(0 :: int) < 20" by (simp_all add: sample_pc_fields)
  show ?thesis
    using task_create_correct [OF sample_pc_inv h(1) a h(2-6) q assign_result [OF q], of 0 "0x80001000" 0 0]
    by (auto simp: sample_pc_fields)
qed

end
