(* ===== verification/Semaphore.thy ===== *)
theory Semaphore
  imports PCInv
begin

text \<open>
  Counting semaphores, \<open>kernel/semaphore/semaphore.c\<close>. \<open>sm_list\<close> is the list of existing semaphores, newest
  first, as the addresses of their structures; a deleted semaphore leaves the list but not the memory. A
  waiter is the address of its queue entry with the pid stored there.

  \<open>semaphore_signal\<close> calls \<open>task_wakeup\<close> before it takes the entry off the queue, and \<open>task_wakeup\<close> may switch
  to another task. What is left to do then waits in \<open>sm_parked\<close> (task, semaphore, entry, interrupt state) until
  that task continues: \<open>signal_resume\<close>.
\<close>

section \<open>State\<close>

record semaphore =
  sem_name :: "u8 list"
  sem_count :: u32
  sem_wait :: "(nat \<times> u32) list"

record sem_state =
  sm_pc :: pc_state
  sm_list :: "nat list"
  sm_objs :: "nat \<Rightarrow> semaphore"
  sm_parked :: "(nat \<times> nat \<times> nat \<times> bool) list"

definition sizeof_semaphore :: u32 where "sizeof_semaphore = 272"
definition sizeof_waiting :: u32 where "sizeof_waiting = 12"

definition upd_sem :: "nat \<Rightarrow> (semaphore \<Rightarrow> semaphore) \<Rightarrow> sem_state \<Rightarrow> sem_state" where
  "upd_sem p f s = s\<lparr>sm_objs := (sm_objs s)(p := f (sm_objs s p))\<rparr>"

definition sem_kmalloc :: "u32 \<Rightarrow> sem_state \<Rightarrow> (nat \<times> sem_state) option" where
  "sem_kmalloc sz s = do { (a, pc) \<leftarrow> call_vm (vm_kmalloc sz) (sm_pc s); Some (unat a, s\<lparr>sm_pc := pc\<rparr>) }"

definition sem_pc :: "(pc_state \<Rightarrow> pc_state) \<Rightarrow> sem_state \<Rightarrow> sem_state" where
  "sem_pc f s = s\<lparr>sm_pc := f (sm_pc s)\<rparr>"

abbreviation sem_cur :: "sem_state \<Rightarrow> nat" where
  "sem_cur s \<equiv> current_task (sm_pc s)"

section \<open>Operations\<close>

definition semaphore_init :: "sem_state \<Rightarrow> sem_state" where
  "semaphore_init s = s\<lparr>sm_list := []\<rparr>"

definition semaphore_get :: "u8 list \<Rightarrow> sem_state \<Rightarrow> nat" where
  "semaphore_get name s = (case find (\<lambda>p. sem_name (sm_objs s p) = name) (sm_list s) of None \<Rightarrow> NULL | Some p \<Rightarrow> p)"

text \<open>A name of 256 bytes or more would run over the structure.\<close>

definition semaphore_create :: "u8 list \<Rightarrow> u32 \<Rightarrow> sem_state \<Rightarrow> (u32 \<times> sem_state) option" where
  "semaphore_create name cnt s =
     (if semaphore_get name s \<noteq> NULL then Some (1, s)
      else do {
        (p, s) \<leftarrow> sem_kmalloc sizeof_semaphore s;
        _ \<leftarrow> c_guard (List.length name < 256);
        s \<leftarrow> Some (upd_sem p (\<lambda>m. m\<lparr>sem_name := name, sem_count := cnt\<rparr>) s);
        (_, s) \<leftarrow> sem_kmalloc sizeof_waiting s;
        s \<leftarrow> Some (upd_sem p (\<lambda>m. m\<lparr>sem_wait := []\<rparr>) s);
        Some (0, s\<lparr>sm_list := p # sm_list s\<rparr>)
      })"

definition semaphore_delete :: "u8 list \<Rightarrow> sem_state \<Rightarrow> sem_state" where
  "semaphore_delete name s =
     (let p = semaphore_get name s in if p = NULL then s else s\<lparr>sm_list := remove1 p (sm_list s)\<rparr>)"

definition semaphore_wait :: "u8 list \<Rightarrow> reg_context \<Rightarrow> sem_state \<Rightarrow> (reg_context \<times> sem_state) option" where
  "semaphore_wait name fr s =
     (let p = semaphore_get name s
      in if p = NULL then Some (fr, s)
      else do {
        let old_ie = irq_state (sm_pc s);
        s \<leftarrow> Some (sem_pc irq_disable s);
        s \<leftarrow> Some (upd_sem p (\<lambda>m. m\<lparr>sem_count := sem_count m - 1\<rparr>) s);
        if sint (sem_count (sm_objs s p)) < 0 then do {
          (w, s) \<leftarrow> sem_kmalloc sizeof_waiting s;
          let pid = task_pid (sm_pc s) (sem_cur s);
          s \<leftarrow> Some (upd_sem p (\<lambda>m. m\<lparr>sem_wait := sem_wait m @ [(w, pid)]\<rparr>) s);
          s \<leftarrow> Some (sem_pc (irq_enable True) s);
          (fr, pc) \<leftarrow> task_wait pid fr (sm_pc s);
          Some (fr, s\<lparr>sm_pc := pc\<rparr>)
        } else Some (fr, sem_pc (irq_enable old_ie) s)
      })"

text \<open>The end of \<open>semaphore_signal\<close>: the entry leaves the queue and interrupts are as before.\<close>

definition signal_finish :: "nat \<Rightarrow> nat \<Rightarrow> bool \<Rightarrow> sem_state \<Rightarrow> sem_state" where
  "signal_finish p w old_ie s =
     sem_pc (irq_enable old_ie) (upd_sem p (\<lambda>m. m\<lparr>sem_wait := filter (\<lambda>e. fst e \<noteq> w) (sem_wait m)\<rparr>) s)"

text \<open>On an empty queue \<open>list_first_entry\<close> would take the head for an entry, whose pid is not set.\<close>

definition semaphore_signal :: "u8 list \<Rightarrow> reg_context \<Rightarrow> sem_state \<Rightarrow> (reg_context \<times> sem_state) option" where
  "semaphore_signal name fr s =
     (let p = semaphore_get name s
      in if p = NULL then Some (fr, s)
      else do {
        let old_ie = irq_state (sm_pc s);
        s \<leftarrow> Some (sem_pc irq_disable s);
        s \<leftarrow> Some (upd_sem p (\<lambda>m. m\<lparr>sem_count := sem_count m + 1\<rparr>) s);
        if sint (sem_count (sm_objs s p)) \<le> 0 then do {
          _ \<leftarrow> c_guard (sem_wait (sm_objs s p) \<noteq> []);
          let (w, pid) = List.hd (sem_wait (sm_objs s p));
          let me = sem_cur s;
          (fr, pc) \<leftarrow> task_wakeup pid fr (sm_pc s);
          s \<leftarrow> Some (s\<lparr>sm_pc := pc\<rparr>);
          Some (fr, if sem_cur s = me then signal_finish p w old_ie s
                    else s\<lparr>sm_parked := (me, p, w, old_ie) # sm_parked s\<rparr>)
        } else Some (fr, sem_pc (irq_enable old_ie) s)
      })"

definition signal_resume :: "sem_state \<Rightarrow> sem_state" where
  "signal_resume s =
     (case find (\<lambda>(t, _). t = sem_cur s) (sm_parked s) of
        None \<Rightarrow> s
      | Some (t, p, w, old_ie) \<Rightarrow> signal_finish p w old_ie (s\<lparr>sm_parked := remove1 (t, p, w, old_ie) (sm_parked s)\<rparr>))"

section \<open>Counting\<close>

text \<open>A negative count is the number of waiters.\<close>

definition sem_ok :: "semaphore \<Rightarrow> bool" where
  "sem_ok m \<longleftrightarrow> List.length (sem_wait m) = nat (- sint (sem_count m)) \<and> distinct (map fst (sem_wait m))"

lemma sint_pred: "- (2 ^ 31) < sint c \<Longrightarrow> sint (c - 1) = sint c - 1" for c :: u32
proof -
  assume "- (2 ^ 31) < sint c"
  moreover have "sint c < 2 ^ 31" using sint_lt [of c] by simp
  ultimately have "signed_take_bit 31 (sint c - 1) = sint c - 1"
    by (intro signed_take_bit_int_eq_self) simp_all
  then show ?thesis by (simp add: sint_word_ariths)
qed

lemma sint_succ: "sint c < 2 ^ 31 - 1 \<Longrightarrow> sint (c + 1) = sint c + 1" for c :: u32
proof -
  assume "sint c < 2 ^ 31 - 1"
  moreover have "- (2 ^ 31) \<le> sint c" using sint_ge [of c] by simp
  ultimately have "signed_take_bit 31 (sint c + 1) = sint c + 1"
    by (intro signed_take_bit_int_eq_self) simp_all
  then show ?thesis by (simp add: sint_word_ariths)
qed

lemma sem_get: "semaphore_get name s = p \<Longrightarrow> p \<noteq> NULL \<Longrightarrow> p \<in> set (sm_list s) \<and> sem_name (sm_objs s p) = name"
  by (auto simp: semaphore_get_def dest: find_member split: option.splits)

lemma sem_fields [simp]:
  "sm_pc (upd_sem p f s) = sm_pc s" "sm_list (upd_sem p f s) = sm_list s" "sm_parked (upd_sem p f s) = sm_parked s"
  "sm_objs (upd_sem p f s) = (sm_objs s)(p := f (sm_objs s p))"
  "sm_pc (sem_pc g s) = g (sm_pc s)" "sm_list (sem_pc g s) = sm_list s" "sm_parked (sem_pc g s) = sm_parked s"
  "sm_objs (sem_pc g s) = sm_objs s"
  by (simp_all add: upd_sem_def sem_pc_def)

lemma pc_inv_vm: "v_current v = current_task s \<Longrightarrow> pc_inv (s\<lparr>pc_vm := v\<rparr>) xs = pc_inv s xs"
  by (simp add: pc_inv_def pc_core_def lists_ok_def weights_ok_def rq_inv_def timeline_def)

text \<open>What a task needs to be able to block: another task to run, and an id of its own.\<close>

definition can_block :: "pc_state \<Rightarrow> nat list \<Rightarrow> bool" where
  "can_block s xs \<longleftrightarrow> pc_inv s xs \<and> 1 < List.length xs \<and> rq_min_vruntime (rq s) + 10 < U32_MAX
     \<and> (\<exists>x \<in> set xs. charged (ticks s) s x + 10 < U32_MAX) \<and> task_pid s (current_task s) \<noteq> 0
     \<and> (\<forall>q \<in> set (pc_all s). task_pid s q = task_pid s (current_task s) \<longrightarrow> q = current_task s)"

lemma find_unique:
  assumes "x \<in> set xs" "P x" "\<forall>y \<in> set xs. P y \<longrightarrow> y = x"
  shows "find P xs = Some x"
proof (cases "find P xs")
  case None
  then show ?thesis using assms(1,2) unfolding find_None_iff by blast
next
  case (Some y)
  then show ?thesis using find_member [OF Some] assms(3) by blast
qed

lemma can_block_irq [simp]: "can_block (irq_disable s) xs = can_block s xs" "can_block (irq_enable b s) xs = can_block s xs"
proof -
  have t: "charged d (irq_enable b s) = charged d s" "ticks (irq_enable b s) = ticks s" "ticks (irq_disable s) = ticks s" for d
    by (simp_all add: charged_def ticks_def fun_eq_iff)
  show "can_block (irq_disable s) xs = can_block s xs" "can_block (irq_enable b s) xs = can_block s xs"
    unfolding can_block_def t charged_irq pc_inv_irq irq_simps by simp_all
qed

lemma can_block_vm: "v_current v = current_task s \<Longrightarrow> v_procs v = v_procs (pc_vm s) \<Longrightarrow> can_block (s\<lparr>pc_vm := v\<rparr>) xs = can_block s xs"
proof -
  assume v: "v_current v = current_task s" "v_procs v = v_procs (pc_vm s)"
  have t: "charged d (s\<lparr>pc_vm := v\<rparr>) = charged d s" "ticks (s\<lparr>pc_vm := v\<rparr>) = ticks s" for d
    using v by (simp_all add: charged_def ticks_def fun_eq_iff)
  show ?thesis unfolding can_block_def t pc_inv_vm [OF v(1)] using v by simp
qed

lemma block_self:
  assumes c: "can_block s xs"
  shows "\<exists>fr' s' ys. task_wait (task_pid s (current_task s)) fr s = Some (fr', s') \<and> pc_inv s' ys
    \<and> mset ys = mset xs - {#current_task s#} \<and> pc_waiting s' = pc_waiting s @ [current_task s] \<and> current_task s' \<noteq> current_task s"
proof -
  have d: "pc_inv s xs" "1 < List.length xs" "rq_min_vruntime (rq s) + 10 < U32_MAX" "\<exists>x \<in> set xs. charged (ticks s) s x + 10 < U32_MAX"
    "task_pid s (current_task s) \<noteq> 0" "\<forall>q \<in> set (pc_all s). task_pid s q = task_pid s (current_task s) \<longrightarrow> q = current_task s"
    using c by (simp_all add: can_block_def)
  have "current_task s \<in> set (pc_all s)" using pc_invD(4,7) [OF d(1)] by (simp add: lists_ok_def)
  then have f: "find (\<lambda>q. task_pid s q = task_pid s (current_task s)) (pc_all s) = Some (current_task s)"
    using d(6) by (intro find_unique) simp_all
  show ?thesis using task_wait_self_pc [OF d(1) f d(5) refl d(2-4), of fr] by blast
qed

lemma sem_wait_go:
  assumes g: "semaphore_get name s = p" "p \<noteq> NULL" and ok: "sem_ok (sm_objs s p)" and c: "0 < sint (sem_count (sm_objs s p))"
  shows "\<exists>s'. semaphore_wait name fr s = Some (fr, s') \<and> sem_count (sm_objs s' p) = sem_count (sm_objs s p) - 1
    \<and> sem_ok (sm_objs s' p) \<and> sem_wait (sm_objs s' p) = [] \<and> (\<forall>q. q \<noteq> p \<longrightarrow> sm_objs s' q = sm_objs s q)
    \<and> sm_list s' = sm_list s \<and> sem_cur s' = sem_cur s \<and> irq_state (sm_pc s') = irq_state (sm_pc s)"
proof -
  have e: "sint (sem_count (sm_objs s p) - 1) = sint (sem_count (sm_objs s p)) - 1" using sint_pred c by simp
  let ?s = "sem_pc (irq_enable (irq_state (sm_pc s))) (upd_sem p (\<lambda>m. m\<lparr>sem_count := sem_count m - 1\<rparr>) (sem_pc irq_disable s))"
  have "semaphore_wait name fr s = Some (fr, ?s)" using g c e by (simp add: semaphore_wait_def Let_def)
  then show ?thesis using ok e c by (intro exI [of _ ?s]) (simp add: sem_ok_def)
qed

lemma sem_wait_block:
  assumes g: "semaphore_get name s = p" "p \<noteq> NULL" and ok: "sem_ok (sm_objs s p)"
    and c: "sint (sem_count (sm_objs s p)) \<le> 0" "- (2 ^ 31) < sint (sem_count (sm_objs s p))"
    and k: "vm_kmalloc sizeof_waiting (pc_vm (sm_pc (sem_pc irq_disable s))) = Some (a, v)" "unat a \<notin> fst ` set (sem_wait (sm_objs s p))"
    and b: "can_block (sm_pc s) xs"
  shows "\<exists>fr' s'. semaphore_wait name fr s = Some (fr', s') \<and> sem_ok (sm_objs s' p)
    \<and> sem_count (sm_objs s' p) = sem_count (sm_objs s p) - 1
    \<and> sem_wait (sm_objs s' p) = sem_wait (sm_objs s p) @ [(unat a, task_pid (sm_pc s) (sem_cur s))]
    \<and> (\<forall>q. q \<noteq> p \<longrightarrow> sm_objs s' q = sm_objs s q) \<and> sem_cur s' \<noteq> sem_cur s
    \<and> pc_waiting (sm_pc s') = pc_waiting (sm_pc s) @ [sem_cur s]"
proof -
  have e: "sint (sem_count (sm_objs s p) - 1) = sint (sem_count (sm_objs s p)) - 1" using sint_pred c(2) by simp
  have v: "v_current v = sem_cur s" "v_procs v = v_procs (pc_vm (sm_pc s))"
    using k(1) by (auto simp: vm_kmalloc_def bind_Some_iff)
  let ?pc = "irq_enable True ((irq_disable (sm_pc s))\<lparr>pc_vm := v\<rparr>)"
  have cb: "can_block ?pc xs" using b can_block_vm [of v "irq_disable (sm_pc s)" xs] v by simp
  have cur: "current_task ?pc = sem_cur s" "task_pid ?pc (sem_cur s) = task_pid (sm_pc s) (sem_cur s)" using v by simp_all
  obtain fr' pc' where w: "task_wait (task_pid (sm_pc s) (sem_cur s)) fr ?pc = Some (fr', pc')"
    "pc_waiting pc' = pc_waiting ?pc @ [sem_cur s]" "current_task pc' \<noteq> sem_cur s"
    using block_self [OF cb, of fr] unfolding cur by blast
  let ?obj = "(sm_objs s p)\<lparr>sem_count := sem_count (sm_objs s p) - 1,
    sem_wait := sem_wait (sm_objs s p) @ [(unat a, task_pid (sm_pc s) (sem_cur s))]\<rparr>"
  let ?s = "s\<lparr>sm_pc := pc', sm_objs := (sm_objs s)(p := ?obj)\<rparr>"
  have neg: "sint (sem_count (sm_objs s p) - 1) < 0" using e c(1) by simp
  have "semaphore_wait name fr s = Some (fr', ?s)"
    using g neg k(1) w(1) v
    by (simp add: semaphore_wait_def Let_def sem_kmalloc_def call_vm_def upd_sem_def sem_pc_def)
  moreover have "sem_ok ?obj" using ok k(2) e c(1) by (auto simp: sem_ok_def nat_diff_distrib')
  ultimately show ?thesis using w by (intro exI [of _ fr'] exI [of _ ?s]) simp
qed

text \<open>What it takes to wake the task \<open>t\<close> with id \<open>pid\<close> (\<open>PCInv.task_wakeup_pc\<close>).\<close>

definition can_wake :: "pc_state \<Rightarrow> nat list \<Rightarrow> u32 \<Rightarrow> nat \<Rightarrow> bool" where
  "can_wake s xs pid t \<longleftrightarrow> (let d = pc_count s div sysctl_sched_time_unit;
       mv = max (rq_min_vruntime (rq s)) (Min (charged d s ` set xs))
     in pc_inv s xs \<and> List.length xs < 512 \<and> find (\<lambda>q. task_pid s q = pid) (pc_waiting s) = Some t \<and> pid \<noteq> 0
        \<and> t \<noteq> NULL \<and> vr s t \<le> U32_MAX \<and> rq_min_vruntime (rq s) + 10 < U32_MAX
        \<and> (\<exists>x \<in> set xs. charged d s x + 10 < U32_MAX) \<and> 8192 \<le> mv \<and> mv - 8192 \<le> vr s t)"

lemma can_wake_irq [simp]: "can_wake (irq_disable s) xs pid t = can_wake s xs pid t"
  unfolding can_wake_def charged_irq pc_inv_irq irq_simps by simp

lemma wake_one:
  assumes "can_wake s xs pid t"
  shows "\<exists>fr' s'. task_wakeup pid fr s = Some (fr', s') \<and> (\<exists>ys. pc_inv s' ys \<and> mset ys = add_mset t (mset xs))
    \<and> pc_waiting s' = remove1 t (pc_waiting s) \<and> (current_task s' = current_task s \<or> vr s' (current_task s') = Min (vr s' ` insert t (set xs)))"
proof -
  define d where "d = pc_count s div sysctl_sched_time_unit"
  define mv where "mv = max (rq_min_vruntime (rq s)) (Min (charged d s ` set xs))"
  have c: "pc_inv s xs" "List.length xs < 512" "find (\<lambda>q. task_pid s q = pid) (pc_waiting s) = Some t" "pid \<noteq> 0" "t \<noteq> NULL"
    "vr s t \<le> U32_MAX" "rq_min_vruntime (rq s) + 10 < U32_MAX" "\<exists>x \<in> set xs. charged d s x + 10 < U32_MAX" "8192 \<le> mv" "mv - 8192 \<le> vr s t"
    using assms by (simp_all add: can_wake_def Let_def d_def mv_def)
  obtain fr' s' ys where w: "task_wakeup pid fr s = Some (fr', s')" "pc_inv s' ys" "mset ys = add_mset t (mset xs)"
    "pc_waiting s' = remove1 t (pc_waiting s)" "current_task s' = current_task s \<or> vr s' (current_task s') = Min (vr s' ` set ys)"
    using task_wakeup_pc [OF c(1-6) d_def c(7,8) mv_def c(9,10), of fr] by blast
  have "set_mset (mset ys) = set_mset (add_mset t (mset xs))" using w(3) by simp
  then have "set ys = insert t (set xs)" by simp
  then show ?thesis using w by (intro exI [of _ fr'] exI [of _ s']) auto
qed

lemma signal_finish_sel:
  "sm_objs (signal_finish p w b s) = (sm_objs s)(p := (sm_objs s p)\<lparr>sem_wait := filter (\<lambda>e. fst e \<noteq> w) (sem_wait (sm_objs s p))\<rparr>)"
  "sm_pc (signal_finish p w b s) = irq_enable b (sm_pc s)" "sm_list (signal_finish p w b s) = sm_list s"
  by (simp_all add: signal_finish_def)

lemma filter_head: "distinct (map fst ((w, q) # rest)) \<Longrightarrow> filter (\<lambda>e. fst e \<noteq> w) ((w, q) # rest) = rest"
  by (auto intro!: filter_True)

text \<open>The woken task is taken from the waiting tasks to the ready ones; \<open>xs\<close> are the tasks of the run queue before.\<close>

definition woken :: "sem_state \<Rightarrow> nat list \<Rightarrow> nat \<Rightarrow> sem_state \<Rightarrow> bool" where
  "woken s xs t s' \<longleftrightarrow> pc_waiting (sm_pc s') = remove1 t (pc_waiting (sm_pc s)) \<and> set (ready (sm_pc s')) = insert t (set (ready (sm_pc s)))
     \<and> (\<exists>ys. pc_inv (sm_pc s') ys \<and> mset ys = add_mset t (mset xs))
     \<and> (sem_cur s' = sem_cur s \<or> vr (sm_pc s') (sem_cur s') = Min (vr (sm_pc s') ` insert t (set xs)))"

lemma sem_signal_wakes:
  assumes g: "semaphore_get name s = p" "p \<noteq> NULL" and c: "sint (sem_count (sm_objs s p)) < 0"
    and q: "sem_wait (sm_objs s p) = (w, pid) # rest" "distinct (map fst (sem_wait (sm_objs s p)))" and k: "can_wake (sm_pc s) xs pid t"
  shows "\<exists>fr' s'. semaphore_signal name fr s = Some (fr', s') \<and> sem_count (sm_objs s' p) = sem_count (sm_objs s p) + 1
    \<and> woken s xs t s' \<and> (\<forall>m. m \<noteq> p \<longrightarrow> sm_objs s' m = sm_objs s m) \<and> sm_list s' = sm_list s
    \<and> (if sem_cur s' = sem_cur s then sem_wait (sm_objs s' p) = rest \<and> (sem_ok (sm_objs s p) \<longrightarrow> sem_ok (sm_objs s' p)) \<and> sm_parked s' = sm_parked s
       else sem_wait (sm_objs s' p) = (w, pid) # rest
         \<and> sm_parked s' = (sem_cur s, p, w, irq_state (sm_pc s)) # sm_parked s)"
proof -
  have e: "sint (sem_count (sm_objs s p) + 1) = sint (sem_count (sm_objs s p)) + 1" using sint_succ c by simp
  have le: "sint (sem_count (sm_objs s p) + 1) \<le> 0" using e c by simp
  obtain fr' pc ys where w: "task_wakeup pid fr (irq_disable (sm_pc s)) = Some (fr', pc)" "pc_inv pc ys" "mset ys = add_mset t (mset xs)"
    "pc_waiting pc = remove1 t (pc_waiting (irq_disable (sm_pc s)))"
    "current_task pc = sem_cur s \<or> vr pc (current_task pc) = Min (vr pc ` insert t (set xs))"
    using wake_one [of "irq_disable (sm_pc s)" xs pid t fr] k by auto
  have "set_mset (mset ys) = set_mset (add_mset t (mset xs))" using w(3) by simp
  then have "set (ready pc) = insert t (set (ready (sm_pc s)))"
    using pc_invD(4) [OF w(2)] pc_invD(4) [of "sm_pc s" xs] k by (simp add: lists_ok_def can_wake_def Let_def)
  then have wk: "woken s xs t s'" if "pc_waiting (sm_pc s') = pc_waiting pc" "ready (sm_pc s') = ready pc" "current_task (sm_pc s') = current_task pc"
    "ses (sm_pc s') = ses pc" "pc_inv (sm_pc s') ys" for s'
    unfolding woken_def that(1-4) using w(3-5) that(5) by auto
  let ?s = "(upd_sem p (\<lambda>m. m\<lparr>sem_count := sem_count m + 1\<rparr>) (sem_pc irq_disable s))\<lparr>sm_pc := pc\<rparr>"
  let ?r = "if current_task pc = sem_cur s then signal_finish p w (irq_state (sm_pc s)) ?s
      else ?s\<lparr>sm_parked := (sem_cur s, p, w, irq_state (sm_pc s)) # sm_parked ?s\<rparr>"
  have "semaphore_signal name fr s = Some (fr', ?r)" using g le q(1) w(1) by (simp add: semaphore_signal_def Let_def)
  moreover have "filter (\<lambda>e. fst e \<noteq> w) ((w, pid) # rest) = rest" using q filter_head [of w pid rest] by simp
  moreover have "sem_ok (sm_objs s p) \<longrightarrow> sem_ok ((sm_objs s p)\<lparr>sem_count := sem_count (sm_objs s p) + 1, sem_wait := rest\<rparr>)"
    using e q c by (auto simp: sem_ok_def)
  moreover have "woken s xs t ?r" by (rule wk) (use w(2) in \<open>simp_all add: signal_finish_sel\<close>)
  ultimately show ?thesis using q(1) by (intro exI [of _ fr'] exI [of _ ?r]) (simp add: signal_finish_sel signal_finish_def)
qed

section \<open>Properties\<close>

definition sample_sem :: sem_state where
  "sample_sem = \<lparr>sm_pc = sample_awake, sm_list = [100],
     sm_objs = (\<lambda>_. \<lparr>sem_name = [109], sem_count = - 1, sem_wait = [(200, 4)]\<rparr>), sm_parked = []\<rparr>"

lemma sample_sem_get: "semaphore_get [109] sample_sem = 100" "(100 :: nat) \<noteq> NULL" "sem_ok (sm_objs sample_sem 100)"
  "sem_wait (sm_objs sample_sem 100) = [(200, 4)]" "sint (sem_count (sm_objs sample_sem 100)) = - 1" "sm_pc sample_sem = sample_awake"
  "sm_objs sample_sem 100 = \<lparr>sem_name = [109], sem_count = - 1, sem_wait = [(200, 4)]\<rparr>"
  by (simp_all add: sample_sem_def semaphore_get_def sem_ok_def)

lemma sample_can_block: "can_block sample_awake [8, 16]"
proof -
  have "ticks sample_awake = 2" by (simp add: ticks_def sample_awake_def sample_pc_def sysctl_sched_time_unit_def)
  then have "\<exists>x \<in> set [8, 16]. charged (ticks sample_awake) sample_awake x + 10 < U32_MAX" using sample_awake_wakes(8) by simp
  then show ?thesis
    unfolding can_block_def using sample_awake_inv sample_awake_wakes(7) by (simp add: sample_awake_def sample_pc_def)
qed

lemma sample_can_wake: "can_wake sample_awake [8, 16] 4 4"
  unfolding can_wake_def Let_def sample_awake_wakes(6) [symmetric] sample_awake_wakes(9) [symmetric]
  using sample_awake_inv sample_awake_wakes by blast

lemma kmalloc_small:
  assumes "slab_ready (v_heap v)" "0 < unat sz" "unat sz \<le> 4096"
  shows "\<exists>a v'. vm_kmalloc sz v = Some (a, v') \<and> bit a 31"
proof -
  obtain k where "kmalloc sz (v_heap v) = Some (KERNEL_ENTRY OR fst (alloc_pages k (buddy (v_heap v))),
      (v_heap v)\<lparr>buddy := snd (alloc_pages k (buddy (v_heap v)))\<rparr>)"
    using kmalloc_pages [OF assms(1), of sz] assms(2,3) by auto
  moreover have "bit (KERNEL_ENTRY OR x) 31" for x by (simp add: KERNEL_ENTRY_def bit_or_iff)
  ultimately show ?thesis by (simp add: vm_kmalloc_def)
qed

text \<open>Waiting on a semaphore with a positive count takes one unit and the caller goes on; with none left the caller is appended to the waiters, is blocked, and another task runs; the count stays minus the number of waiters.\<close>

theorem semaphore_wait_correct:
  assumes "semaphore_get name s = p" "p \<noteq> NULL" "sem_ok (sm_objs s p)" "- (2 ^ 31) < sint (sem_count (sm_objs s p))"
    and "vm_kmalloc sizeof_waiting (pc_vm (sm_pc (sem_pc irq_disable s))) = Some (a, v)" "unat a \<notin> fst ` set (sem_wait (sm_objs s p))"
    and "can_block (sm_pc s) xs"
  shows "\<exists>fr' s'. semaphore_wait name fr s = Some (fr', s') \<and> sem_ok (sm_objs s' p)
    \<and> sem_count (sm_objs s' p) = sem_count (sm_objs s p) - 1
    \<and> (if 0 < sint (sem_count (sm_objs s p)) then fr' = fr \<and> sem_cur s' = sem_cur s \<and> sem_wait (sm_objs s' p) = []
       else sem_wait (sm_objs s' p) = sem_wait (sm_objs s p) @ [(unat a, task_pid (sm_pc s) (sem_cur s))]
         \<and> sem_cur s' \<noteq> sem_cur s \<and> pc_waiting (sm_pc s') = pc_waiting (sm_pc s) @ [sem_cur s])"
proof (cases "0 < sint (sem_count (sm_objs s p))")
  case True
  then show ?thesis using sem_wait_go [OF assms(1-3) True, of fr] by auto
next
  case False
  then have "sint (sem_count (sm_objs s p)) \<le> 0" by simp
  then show ?thesis using sem_wait_block [OF assms(1-3) _ assms(4-7), of fr] False by auto
qed

theorem semaphore_wait_correct_witness:
  "\<exists>fr' s' a. semaphore_wait [109] zero_context sample_sem = Some (fr', s') \<and> sem_wait (sm_objs s' 100) = [(200, 4), (a, 2)] \<and> sem_cur s' \<noteq> 8"
proof -
  have r: "slab_ready (v_heap (pc_vm (sm_pc (sem_pc irq_disable sample_sem))))"
    using sample_vm_ok(2) by (simp add: sample_sem_def sample_awake_def sample_pc_def vm_owned_def heap_ok_def)
  obtain a v where k: "vm_kmalloc sizeof_waiting (pc_vm (sm_pc (sem_pc irq_disable sample_sem))) = Some (a, v)" "bit a 31"
    using kmalloc_small [OF r, of sizeof_waiting] by (auto simp: sizeof_waiting_def)
  have "a \<noteq> 200" using k(2) by auto
  then have n: "unat a \<notin> fst ` set (sem_wait (sm_objs sample_sem 100))" by (auto simp: sample_sem_get(7) word_unat_eq_iff)
  have m: "- (2 ^ 31) < sint (sem_count (sm_objs sample_sem 100))" by (simp add: sample_sem_get)
  have b: "can_block (sm_pc sample_sem) [8, 16]" using sample_can_block by (simp add: sample_sem_get)
  have f: "sem_cur sample_sem = 8" "task_pid (sm_pc sample_sem) 8 = 2" by (simp_all add: sample_sem_def sample_awake_def sample_pc_def)
  show ?thesis using semaphore_wait_correct [OF sample_sem_get(1-3) m k(1) n b, of zero_context] f by (auto simp: sample_sem_get)
qed



text \<open>A second signal in that window finds the task that was already woken at the head of the queue: it wakes nobody, although the count says that one waiter is served.\<close>

theorem semaphore_signal_lost:
  assumes "semaphore_get name s = p" "p \<noteq> NULL" "sint (sem_count (sm_objs s p)) < 0" "sem_wait (sm_objs s p) = (w, pid) # rest"
    and "pc_inv (sm_pc s) xs" "find (\<lambda>q. task_pid (sm_pc s) q = pid) (pc_waiting (sm_pc s)) = None" "pid \<noteq> 0"
    and "\<not> rq_need_sched (rq (sm_pc s))" "rq_min_vruntime (rq (sm_pc s)) + 10 < U32_MAX"
    and "\<exists>x \<in> set xs. charged (pc_count (sm_pc s) div sysctl_sched_time_unit) (sm_pc s) x + 10 < U32_MAX"
  shows "\<exists>s'. semaphore_signal name fr s = Some (fr, s') \<and> sem_count (sm_objs s' p) = sem_count (sm_objs s p) + 1
    \<and> pc_waiting (sm_pc s') = pc_waiting (sm_pc s)"
proof -
  have e: "sint (sem_count (sm_objs s p) + 1) \<le> 0" using sint_succ assms(3) by simp
  let ?pc = "irq_disable (sm_pc s)"
  have h: "pc_inv ?pc xs" "find (\<lambda>q. task_pid ?pc q = pid) (pc_waiting ?pc) = None" "\<not> rq_need_sched (rq ?pc)"
    "rq_min_vruntime (rq ?pc) + 10 < U32_MAX" "\<exists>x \<in> set xs. charged (pc_count ?pc div sysctl_sched_time_unit) ?pc x + 10 < U32_MAX"
    using assms(5-10) by simp_all
  obtain pc where w: "task_wakeup pid fr ?pc = Some (fr, pc)" "pc_waiting pc = pc_waiting ?pc" "current_task pc = current_task ?pc"
    using task_wakeup_absent [OF h(1,2) assms(7) refl h(3-5), of fr] by blast
  let ?s = "signal_finish p w (irq_state (sm_pc s)) ((upd_sem p (\<lambda>m. m\<lparr>sem_count := sem_count m + 1\<rparr>) (sem_pc irq_disable s))\<lparr>sm_pc := pc\<rparr>)"
  have "semaphore_signal name fr s = Some (fr, ?s)" using assms(1-4) e w by (simp add: semaphore_signal_def Let_def)
  then show ?thesis using w(2) by (intro exI [of _ ?s]) (simp add: signal_finish_sel)
qed

definition sample_raced :: sem_state where
  "sample_raced = sample_sem\<lparr>sm_objs := (\<lambda>_. \<lparr>sem_name = [109], sem_count = - 1, sem_wait = [(200, 9), (204, 4)]\<rparr>)\<rparr>"

theorem semaphore_signal_lost_witness:
  "\<exists>s'. semaphore_signal [109] zero_context sample_raced = Some (zero_context, s') \<and> pc_waiting (sm_pc s') = [4]"
proof -
  have h: "semaphore_get [109] sample_raced = 100" "(100 :: nat) \<noteq> NULL" "sint (sem_count (sm_objs sample_raced 100)) < 0"
    "sem_wait (sm_objs sample_raced 100) = (200, 9) # [(204, 4)]" "pc_inv (sm_pc sample_raced) [8, 16]"
    "find (\<lambda>q. task_pid (sm_pc sample_raced) q = 9) (pc_waiting (sm_pc sample_raced)) = None" "(9 :: u32) \<noteq> 0"
    "\<not> rq_need_sched (rq (sm_pc sample_raced))" "rq_min_vruntime (rq (sm_pc sample_raced)) + 10 < U32_MAX"
    using sample_awake_inv by (simp_all add: sample_raced_def sample_sem_def semaphore_get_def)
      (simp_all add: sample_awake_def sample_pc_def sample_cfs_def U32_MAX_def)
  have r: "\<exists>x \<in> set [8, 16]. charged (pc_count (sm_pc sample_raced) div sysctl_sched_time_unit) (sm_pc sample_raced) x + 10 < U32_MAX"
    using sample_awake_wakes(8) sample_awake_wakes(6) by (simp add: sample_raced_def sample_sem_def)
  have f: "pc_waiting (sm_pc sample_raced) = [4]" by (simp add: sample_raced_def sample_sem_def sample_awake_def sample_pc_def)
  show ?thesis using semaphore_signal_lost [OF h r, of zero_context] f by auto
qed

end
