(* ===== verification/Traps.thy ===== *)
theory Traps
  imports Semaphore
begin

text \<open>
  Trap dispatch: \<open>do_exceptions\<close> (\<open>arch/mips32/exc.c\<close>), \<open>do_interrupts\<close> (\<open>arch/mips32/intr.c\<close>), \<open>syscall\<close> and
  the system call bodies (\<open>kernel/syscall/syscall.c\<close>). A handler takes the saved registers \<open>fr\<close> and gives
  those that are restored. Outside this model, and therefore arguments in \<open>hw\<close>: the TLB entry the
  processor replaces, the string at a user address, the registers at a trap taken inside the kernel by
  \<open>ret_from_sched_syscall\<close>, and the keyboard driver. The printing system calls have no effect on the state.
\<close>

record hw =
  hw_random :: nat
  hw_string :: "u32 \<Rightarrow> u8 list"
  hw_kernel :: reg_context
  hw_ps2 :: "sem_state \<Rightarrow> sem_state"

definition in_pc :: "(pc_state \<Rightarrow> ('r \<times> pc_state) option) \<Rightarrow> sem_state \<Rightarrow> ('r \<times> sem_state) option" where
  "in_pc f s = do { (r, pc) \<leftarrow> f (sm_pc s); Some (r, s\<lparr>sm_pc := pc\<rparr>) }"

definition in_vm :: "(vm_state \<Rightarrow> ('r \<times> vm_state) option) \<Rightarrow> sem_state \<Rightarrow> ('r \<times> sem_state) option" where
  "in_vm f = in_pc (call_vm f)"

section \<open>System calls\<close>

definition syscall50 :: "hw \<Rightarrow> reg_context \<Rightarrow> sem_state \<Rightarrow> (reg_context \<times> sem_state) option" where
  "syscall50 hw fr s = do {
     (va, s) \<leftarrow> in_vm (shared_page_create (sem_cur s) (hw_string hw (r_a0 fr))) s;
     Some (fr\<lparr>r_v0 := va\<rparr>, s)
   }"

definition syscall51 :: "reg_context \<Rightarrow> sem_state \<Rightarrow> (reg_context \<times> sem_state) option" where
  "syscall51 fr s = do { (r, s) \<leftarrow> in_vm (shared_page_delete (sem_cur s) (r_a0 fr)) s; Some (fr\<lparr>r_v0 := r\<rparr>, s) }"

definition syscall60 :: "reg_context \<Rightarrow> sem_state \<Rightarrow> (reg_context \<times> sem_state) option" where
  "syscall60 fr s = do { (va, s) \<leftarrow> in_vm (memory_alloc (sem_cur s) (r_a0 fr)) s; Some (fr\<lparr>r_v0 := va\<rparr>, s) }"

definition syscall61 :: "reg_context \<Rightarrow> sem_state \<Rightarrow> (reg_context \<times> sem_state) option" where
  "syscall61 fr s = do { (r, s) \<leftarrow> in_vm (memory_free (sem_cur s) (r_a0 fr)) s; Some (fr\<lparr>r_v0 := r\<rparr>, s) }"

definition syscall70 :: "hw \<Rightarrow> reg_context \<Rightarrow> sem_state \<Rightarrow> (reg_context \<times> sem_state) option" where
  "syscall70 hw fr s = do { (r, s) \<leftarrow> semaphore_create (hw_string hw (r_a0 fr)) (r_a1 fr) s; Some (fr\<lparr>r_v0 := r\<rparr>, s) }"

definition syscall71 :: "hw \<Rightarrow> reg_context \<Rightarrow> sem_state \<Rightarrow> (reg_context \<times> sem_state) option" where
  "syscall71 hw fr s = Some (fr, semaphore_delete (hw_string hw (r_a0 fr)) s)"

text \<open>
  In these two the kernel itself may trap into the scheduler: then the registers restored are those of the task that
  runs next, and otherwise the saved ones.
\<close>

definition syscall72 :: "hw \<Rightarrow> reg_context \<Rightarrow> sem_state \<Rightarrow> (reg_context \<times> sem_state) option" where
  "syscall72 hw fr s = do {
     (fr', s') \<leftarrow> semaphore_wait (hw_string hw (r_a0 fr)) (hw_kernel hw) s;
     Some (if sem_cur s' = sem_cur s then fr else fr', s')
   }"

definition syscall73 :: "hw \<Rightarrow> reg_context \<Rightarrow> sem_state \<Rightarrow> (reg_context \<times> sem_state) option" where
  "syscall73 hw fr s = do {
     (fr', s') \<leftarrow> semaphore_signal (hw_string hw (r_a0 fr)) (hw_kernel hw) s;
     Some (if sem_cur s' = sem_cur s then fr else fr', s')
   }"

section \<open>Dispatch\<close>

definition run_syscall :: "hw \<Rightarrow> nat \<Rightarrow> reg_context \<Rightarrow> sem_state \<Rightarrow> (reg_context \<times> sem_state) option" where
  "run_syscall hw n fr s =
     (if n = 4 \<or> n = 5 \<or> n = 6 \<or> n = 7 then Some (fr, s)
      else if n = 50 then syscall50 hw fr s
      else if n = 51 then syscall51 fr s
      else if n = 60 then syscall60 fr s
      else if n = 61 then syscall61 fr s
      else if n = 70 then syscall70 hw fr s
      else if n = 71 then syscall71 hw fr s
      else if n = 72 then syscall72 hw fr s
      else if n = 73 then syscall73 hw fr s
      else None)"

fun run_basic :: "hw \<Rightarrow> handler \<Rightarrow> reg_context \<Rightarrow> sem_state \<Rightarrow> (reg_context \<times> sem_state) option" where
  "run_basic hw H_task_tick fr s = in_pc (task_tick fr) s"
| "run_basic hw H_task_schedule fr s = in_pc (task_schedule fr) s"
| "run_basic hw H_task_exit_syscall fr s = in_pc (task_exit_syscall fr) s"
| "run_basic hw H_tlb_refill fr s = in_vm (\<lambda>v. do { v \<leftarrow> tlb_refill (hw_random hw) v; Some (fr, v) }) s"
| "run_basic hw H_ps2 fr s = Some (fr, hw_ps2 hw s)"
| "run_basic hw (H_syscall_n n) fr s = run_syscall hw n fr s"
| "run_basic hw H_syscall fr s = None"

text \<open>
  \<open>syscall\<close> uses the code unmasked: a code of 256 or more reads behind the table. When a system call of the first kind
  has switched tasks inside the kernel, the rest of \<open>syscall\<close> waits for the task that called it.
\<close>

definition syscall :: "hw \<Rightarrow> reg_context \<Rightarrow> sem_state \<Rightarrow> (reg_context \<times> sem_state) option" where
  "syscall hw fr s = do {
     let code = unat (r_v0 fr);
     let fr = fr\<lparr>r_epc := r_epc fr + 4\<rparr>;
     _ \<leftarrow> c_guard (code < 256);
     case syscalls (pc_traps (sm_pc s)) code of
       None \<Rightarrow> Some (fr, s)
     | Some h \<Rightarrow> do {
         let old_ie = irq_state (sm_pc s);
         let me = sem_cur s;
         s \<leftarrow> Some (sem_pc irq_disable s);
         (fr, s) \<leftarrow> run_basic hw h fr s;
         Some (fr, if sem_cur s \<noteq> me \<and> (h = H_syscall_n 72 \<or> h = H_syscall_n 73) then s
                   else sem_pc (irq_enable old_ie) s)
       }
   }"

definition run_handler :: "hw \<Rightarrow> handler \<Rightarrow> reg_context \<Rightarrow> sem_state \<Rightarrow> (reg_context \<times> sem_state) option" where
  "run_handler hw h fr s = (if h = H_syscall then syscall hw fr s else run_basic hw h fr s)"

definition do_exceptions :: "hw \<Rightarrow> u32 \<Rightarrow> reg_context \<Rightarrow> sem_state \<Rightarrow> (reg_context \<times> sem_state) option" where
  "do_exceptions hw cause fr s =
     (let index = unat (drop_bit 2 cause AND 0x1f)
      in case exceptions (pc_traps (sm_pc s)) index of
           Some h \<Rightarrow> run_handler hw h fr s
         | None \<Rightarrow> do {
             pc \<leftarrow> task_kill (task_pid (sm_pc s) (get_current_task (sm_pc s))) (sm_pc s);
             Some (fr, s\<lparr>sm_pc := pc\<rparr>)
           })"

fun interrupt_loop :: "hw \<Rightarrow> nat list \<Rightarrow> u32 \<Rightarrow> reg_context \<Rightarrow> sem_state \<Rightarrow> (reg_context \<times> sem_state) option" where
  "interrupt_loop hw [] index fr s = Some (fr, s)"
| "interrupt_loop hw (i # is) index fr s = do {
     (fr, s) \<leftarrow> (if index AND 1 \<noteq> 0
       then (case interrupts (pc_traps (sm_pc s)) i of None \<Rightarrow> Some (fr, s) | Some h \<Rightarrow> run_handler hw h fr s)
       else Some (fr, s));
     interrupt_loop hw is (drop_bit 1 index) fr s
   }"

definition do_interrupts :: "hw \<Rightarrow> u32 \<Rightarrow> reg_context \<Rightarrow> sem_state \<Rightarrow> (reg_context \<times> sem_state) option" where
  "do_interrupts hw cause fr s = interrupt_loop hw [0..<8] (drop_bit 8 cause) fr s"

section \<open>Properties\<close>

text \<open>With the system calls registered as at boot, the trap that ret_from_sched_syscall takes is dispatched to task_schedule and has exactly the effect that the process manager counts on.\<close>

theorem sched_trap_dispatch:
  assumes "pc_traps (sm_pc s) = init_syscall t" "rq_need_sched (rq (sm_pc s))"
  shows "syscall hw (fr\<lparr>r_v0 := 15\<rparr>) s = in_pc (ret_from_sched_syscall fr) s"
proof -
  have "syscalls (pc_traps (sm_pc s)) 15 = Some H_task_schedule" using assms(1) by (simp add: init_syscall_tables)
  then show ?thesis
    using assms(2)
    by (cases "task_schedule (fr\<lparr>r_v0 := 15, r_epc := r_epc fr + 4\<rparr>) (irq_disable (sm_pc s))")
      (simp_all add: syscall_def in_pc_def ret_from_sched_syscall_def Let_def sem_pc_def split: prod.splits)
qed

definition sample_hw :: hw where
  "sample_hw = \<lparr>hw_random = 0, hw_string = (\<lambda>_. []), hw_kernel = zero_context, hw_ps2 = id\<rparr>"

definition sample_trap :: sem_state where
  "sample_trap = sample_sem\<lparr>sm_pc := (upd_rq (\<lambda>q. q\<lparr>rq_need_sched := True\<rparr>) sample_awake)
     \<lparr>pc_traps := init_syscall \<lparr>exceptions = Map.empty, interrupts = Map.empty, syscalls = Map.empty, im_status = 0\<rparr>\<rparr>\<rparr>"

theorem sched_trap_dispatch_witness:
  "syscall sample_hw (zero_context\<lparr>r_v0 := 15\<rparr>) sample_trap = in_pc (ret_from_sched_syscall zero_context) sample_trap"
  by (rule sched_trap_dispatch) (simp_all add: sample_trap_def sample_sem_def upd_rq_def)

text \<open>The eight pending bits of the cause register, from the lowest up.\<close>

lemma low_bit: "(x AND 1 \<noteq> 0) = bit x 0" for x :: u32
  by (simp add: bit_0 and_one_eq even_iff_mod_2_eq_zero)

lemma idle_line: "interrupts (pc_traps (sm_pc s)) i = None \<Longrightarrow>
  interrupt_loop hw (i # is) index fr s = interrupt_loop hw is (drop_bit 1 index) fr s"
  by simp

text \<open>C38: with the keyboard on line 2 and the timer on line 7, an interrupt runs the keyboard handler and then the timer tick, each exactly when its pending bit is set.\<close>

theorem do_interrupts_correct:
  assumes "interrupts (pc_traps (sm_pc s)) = [2 \<mapsto> H_ps2, 7 \<mapsto> H_task_tick]"
    and "interrupts (pc_traps (sm_pc (hw_ps2 hw s))) = [2 \<mapsto> H_ps2, 7 \<mapsto> H_task_tick]"
  shows "do_interrupts hw cause fr s =
    (let s = (if bit cause 10 then hw_ps2 hw s else s)
     in if bit cause 15 then in_pc (task_tick fr) s else Some (fr, s))"
proof -
  have u: "[0..<8] = [0, 1, 2, 3, 4, 5, 6, 7]" by (simp add: upt_rec)
  define t where "t = (if bit cause 10 then hw_ps2 hw s else s)"
  have t: "interrupts (pc_traps (sm_pc t)) = [2 \<mapsto> H_ps2, 7 \<mapsto> H_task_tick]" using assms by (simp add: t_def)
  have b: "bit (drop_bit 1 (drop_bit 1 (drop_bit 8 cause))) 0 = bit cause 10"
    "bit (drop_bit 1 (drop_bit 1 (drop_bit 1 (drop_bit 1 (drop_bit 1 (drop_bit 1 (drop_bit 1 (drop_bit 8 cause)))))))) 0 = bit cause 15"
    by (simp_all add: bit_drop_bit_eq)
  have e: "\<exists>r. in_pc (task_tick fr) t = None \<or> in_pc (task_tick fr) t = Some r" by (cases "in_pc (task_tick fr) t") auto
  have two: "interrupt_loop hw [2, 3, 4, 5, 6, 7] i fr s
      = interrupt_loop hw [3, 4, 5, 6, 7] (drop_bit 1 i) fr (if bit i 0 then hw_ps2 hw s else s)" for i
    using assms(1) by (simp add: low_bit run_handler_def)
  have seven: "interrupt_loop hw [7] i fr t = (if bit i 0 then in_pc (task_tick fr) t else Some (fr, t))" for i
    using t by (cases "in_pc (task_tick fr) t") (auto simp: low_bit run_handler_def)
  have "do_interrupts hw cause fr s = interrupt_loop hw [2, 3, 4, 5, 6, 7] (drop_bit 1 (drop_bit 1 (drop_bit 8 cause))) fr s"
    unfolding do_interrupts_def u using assms(1) by (simp del: interrupt_loop.simps add: idle_line)
  also have "\<dots> = interrupt_loop hw [3, 4, 5, 6, 7] (drop_bit 1 (drop_bit 1 (drop_bit 1 (drop_bit 8 cause)))) fr t"
    unfolding two b t_def ..
  also have "\<dots> = interrupt_loop hw [7] (drop_bit 1 (drop_bit 1 (drop_bit 1 (drop_bit 1 (drop_bit 1 (drop_bit 1 (drop_bit 1 (drop_bit 8 cause)))))))) fr t"
    using t by (simp del: interrupt_loop.simps add: idle_line)
  also have "\<dots> = (if bit cause 15 then in_pc (task_tick fr) t else Some (fr, t))" unfolding seven b ..
  finally show ?thesis by (simp add: t_def Let_def)
qed

definition sample_timer :: sem_state where
  "sample_timer = sample_sem\<lparr>sm_pc := sample_awake\<lparr>pc_traps := \<lparr>exceptions = Map.empty, interrupts = [2 \<mapsto> H_ps2, 7 \<mapsto> H_task_tick],
     syscalls = Map.empty, im_status = 0\<rparr>\<rparr>\<rparr>"

theorem do_interrupts_correct_witness:
  "do_interrupts sample_hw 0x8000 zero_context sample_timer
     = in_pc (task_tick zero_context) sample_timer"
  by (subst do_interrupts_correct) (simp_all add: sample_timer_def sample_hw_def bit_numeral_rec)

text \<open>An exception without a handler kills the running kernel task, but it stays the current one and the trap returns to the instruction that failed.\<close>

theorem unhandled_exception_continues:
  assumes "exceptions (pc_traps (sm_pc s)) (unat (drop_bit 2 cause AND 0x1f)) = None" "pc_inv (sm_pc s) xs" "1 < List.length xs"
    and "task_pid (sm_pc s) (sem_cur s) \<noteq> 0" "\<not> t_user_mode (pc_tasks (sm_pc s) (sem_cur s))"
    and "\<forall>q \<in> set (pc_all (sm_pc s)). task_pid (sm_pc s) q = task_pid (sm_pc s) (sem_cur s) \<longrightarrow> q = sem_cur s"
    and "free_real_pid (sem_cur s) (pc_pids (sm_pc s)) = Some pids"
  shows "\<exists>s'. do_exceptions hw cause fr s = Some (fr, s') \<and> sem_cur s' = sem_cur s \<and> rq_cur (rq (sm_pc s')) = sem_cur s
    \<and> t_state (pc_tasks (sm_pc s') (sem_cur s)) = TASK_DEAD \<and> sem_cur s \<notin> set (ready (sm_pc s')) \<and> sem_cur s \<notin> set (pc_all (sm_pc s'))"
proof -
  let ?p = "sem_cur s"
  have l: "distinct (ready (sm_pc s))" "distinct (pc_all (sm_pc s))" "?p \<in> set (pc_all (sm_pc s))"
    using pc_invD(4,7) [OF assms(2)] by (simp_all add: lists_ok_def)
  have f: "find (\<lambda>q. task_pid (sm_pc s) q = task_pid (sm_pc s) ?p) (pc_all (sm_pc s)) = Some ?p"
    using l(3) assms(6) by (intro find_unique) simp_all
  have p: "?p \<in> set xs" using pc_invD(7) [OF assms(2)] .
  then have ne: "remove1 ?p xs \<noteq> []" using assms(3) length_remove1 [of ?p xs] by auto
  obtain pc where k: "task_kill (task_pid (sm_pc s) ?p) (sm_pc s) = Some pc" "pc_all pc = remove1 ?p (pc_all (sm_pc s))"
    "ready pc = remove1 ?p (ready (sm_pc s))" "t_state (pc_tasks pc ?p) = TASK_DEAD" "current_task pc = ?p" "rq_cur (rq pc) = rq_cur (rq (sm_pc s))"
    using task_kill_core [OF pc_inv_core [OF assms(2)] f assms(4) p ne assms(5,7)] by blast
  have "do_exceptions hw cause fr s = Some (fr, s\<lparr>sm_pc := pc\<rparr>)"
    using assms(1) k(1) by (simp add: do_exceptions_def get_current_task_def)
  then show ?thesis using k l pc_invD(6) [OF assms(2)] by (intro exI [of _ "s\<lparr>sm_pc := pc\<rparr>"]) simp
qed

lemma sample_free_pid_any: "free_real_pid p (pc_pids sample_awake) = Some (pc_pids sample_awake)"
  using sample_free_pid by (simp add: sample_awake_def sample_pc_def free_real_pid_def sample_pids_def hlist_del_init_def hlist_unhashed_def)

theorem unhandled_exception_continues_witness:
  "\<exists>s'. do_exceptions sample_hw 0x10 zero_context sample_sem = Some (zero_context, s') \<and> sem_cur s' = 8 \<and> 8 \<notin> set (ready (sm_pc s'))"
proof -
  have h: "exceptions (pc_traps (sm_pc sample_sem)) (unat (drop_bit 2 (0x10 :: u32) AND 0x1f)) = None" "pc_inv (sm_pc sample_sem) [8, 16]"
    "1 < List.length [8, 16 :: nat]" "task_pid (sm_pc sample_sem) (sem_cur sample_sem) \<noteq> 0"
    "\<not> t_user_mode (pc_tasks (sm_pc sample_sem) (sem_cur sample_sem))"
    "\<forall>q \<in> set (pc_all (sm_pc sample_sem)). task_pid (sm_pc sample_sem) q = task_pid (sm_pc sample_sem) (sem_cur sample_sem) \<longrightarrow> q = sem_cur sample_sem"
    "free_real_pid (sem_cur sample_sem) (pc_pids (sm_pc sample_sem)) = Some (pc_pids sample_awake)"
    using sample_awake_inv sample_free_pid_any by (simp_all add: sample_sem_def) (simp_all add: sample_awake_def sample_pc_def)
  have "sem_cur sample_sem = 8" by (simp add: sample_sem_def sample_awake_def sample_pc_def)
  then show ?thesis using unhandled_exception_continues [OF h, of sample_hw zero_context] by auto
qed

end
