(* ===== verification/Clock.thy ===== *)
theory Clock
  imports Prelude
begin

text \<open>
  The clock of the screen, \<open>kernel/time/time.c\<close>: the 64-bit cycle counter, which runs at 100 MHz, as a
  time of day. \<open>get_time_string\<close> gives the eight bytes that it stores in its buffer; \<open>get_time\<close> reads the counter,
  its arguments here, and adds the final 0.
\<close>

definition get_time_string :: "u32 \<Rightarrow> u32 \<Rightarrow> u8 list" where
  "get_time_string ticks_high ticks_low =
     (let ticks_low = drop_bit 8 ticks_low OR push_bit 24 ticks_high;
          ticks_high = drop_bit 8 ticks_high;
          second = ticks_high mod 390625;
          second = second * 10995 + (second * 45421) mod 390625;
          second = second + ticks_low div 390625;
          minute = second div 60;
          hour = minute div 60;
          second = second mod 60;
          minute = minute mod 60;
          hour = hour mod 24
      in [ucast (hour div 10 + 48), ucast (hour mod 10 + 48), 58,
          ucast (minute div 10 + 48), ucast (minute mod 10 + 48), 58,
          ucast (second div 10 + 48), ucast (second mod 10 + 48)])"

text \<open>A buffer of less than 9 bytes fails the assertion.\<close>

definition get_time :: "int \<Rightarrow> u32 \<Rightarrow> u32 \<Rightarrow> u8 list option" where
  "get_time len ticks_high ticks_low = do {
     _ \<leftarrow> c_guard (len \<ge> 9);
     Some (get_time_string ticks_high ticks_low @ [0])
   }"

section \<open>The time of day\<close>

definition two_digits :: "nat \<Rightarrow> u8 list" where
  "two_digits n = [of_nat (48 + n div 10), of_nat (48 + n mod 10)]"

definition time_of_day :: "nat \<Rightarrow> u8 list" where
  "time_of_day sec = two_digits (sec div 3600 mod 24) @ [58] @ two_digits (sec div 60 mod 60) @ [58] @ two_digits (sec mod 60)"

lemma of_nat_div_u32: "n < 2 ^ 32 \<Longrightarrow> 0 < k \<Longrightarrow> k < 2 ^ 32 \<Longrightarrow> (of_nat n :: u32) div of_nat k = of_nat (n div k)"
  by (simp add: word_unat_eq_iff unat_div unat_of_nat_u32 order.strict_trans1 [OF div_le_dividend])

lemma of_nat_mod_u32: "n < 2 ^ 32 \<Longrightarrow> 0 < k \<Longrightarrow> k < 2 ^ 32 \<Longrightarrow> (of_nat n :: u32) mod of_nat k = of_nat (n mod k)"
  by (simp add: word_unat_eq_iff unat_mod_distrib unat_of_nat_u32 order.strict_trans1 [OF mod_less_eq_dividend])

text \<open>The counter divided by 256 fits in 32 bits when its high word is below 256.\<close>

lemma ticks_shift:
  assumes "unat high < 256"
  shows "unat (drop_bit 8 low OR push_bit 24 high :: u32) = (unat high * 2 ^ 32 + unat low) div 256"
proof -
  have l: "unat (drop_bit 8 low) = unat low div 256" by (simp add: drop_bit_eq_div unat_div)
  have h: "unat (push_bit 24 high) = unat high * 2 ^ 24"
    using assms unat_mult_lem [of high "2 ^ 24"] by (simp add: push_bit_eq_mult)
  have "unat low < 2 ^ 32" using unsigned_less [of low] by simp
  then have lt: "unat low div 256 < 2 ^ 24" by (simp add: less_mult_imp_div_less)
  have "drop_bit 8 low OR push_bit 24 high = drop_bit 8 low + push_bit 24 high"
    by (rule disjunctive_add_eq_or [symmetric]) (rule bit_word_eqI, auto simp: bit_simps dest: bit_imp_le_length)
  moreover have "unat (drop_bit 8 low) + unat (push_bit 24 high) < 2 ^ 32" using l h lt assms by simp
  ultimately have "unat (drop_bit 8 low OR push_bit 24 high) = unat low div 256 + unat high * 2 ^ 24"
    using unat_add_lem [of "drop_bit 8 low" "push_bit 24 high"] l h by simp
  also have "\<dots> = (unat high * 2 ^ 32 + unat low) div 256"
    using div_mult_self1 [of 256 "unat low" "unat high * 2 ^ 24"] by (simp add: algebra_simps)
  finally show ?thesis .
qed

text \<open>While the high word of the counter is below 256, about the first three hours, the string is the time of day of the counter's whole seconds at 100 MHz.\<close>

theorem get_time_string_correct:
  assumes "unat ticks_high < 256"
  shows "get_time_string ticks_high ticks_low = time_of_day ((unat ticks_high * 2 ^ 32 + unat ticks_low) div 10 ^ 8)"
proof -
  define n where "n = (unat ticks_high * 2 ^ 32 + unat ticks_low) div 10 ^ 8"
  have z: "drop_bit 8 ticks_high = 0"
    using assms by (simp add: word_unat_eq_iff drop_bit_eq_div unat_div)
  have "unat ticks_low < 2 ^ 32" using unsigned_less [of ticks_low] by simp
  then have b: "n < 2 ^ 32" using assms unfolding n_def by simp
  have "unat ((drop_bit 8 ticks_low OR push_bit 24 ticks_high) div 390625) = (unat ticks_high * 2 ^ 32 + unat ticks_low) div 256 div 390625"
    using ticks_shift [OF assms] by (simp add: unat_div)
  also have "\<dots> = n" by (simp add: n_def div_mult2_eq [symmetric])
  finally have s: "(drop_bit 8 ticks_low OR push_bit 24 ticks_high) div 390625 = (of_nat n :: u32)" using b by (simp add: word_unat_eq_iff unat_of_nat_u32)
  have d: "(of_nat m :: u32) div 60 = of_nat (m div 60)" "(of_nat m :: u32) mod 60 = of_nat (m mod 60)" "(of_nat m :: u32) mod 24 = of_nat (m mod 24)"
    "(of_nat m :: u32) div 10 = of_nat (m div 10)" "(of_nat m :: u32) mod 10 = of_nat (m mod 10)" if "m < 2 ^ 32" for m
    using of_nat_div_u32 [OF that, of 60] of_nat_mod_u32 [OF that, of 60] of_nat_mod_u32 [OF that, of 24]
      of_nat_div_u32 [OF that, of 10] of_nat_mod_u32 [OF that, of 10] by simp_all
  have u: "ucast (of_nat m + 48 :: u32) = (of_nat (48 + m) :: u8)" for m
  proof -
    have "of_nat m + 48 = (of_nat (48 + m) :: u32)" by simp
    then show ?thesis by (simp only: unsigned_of_nat word_of_nat_eq_iff) simp
  qed
  have lt: "m div k < 2 ^ 32" "m mod k < 2 ^ 32" if "m < 2 ^ 32" for m k :: nat
    using that le_less_trans [OF div_le_dividend that] le_less_trans [OF mod_less_eq_dividend that] by simp_all
  show ?thesis
    unfolding get_time_string_def Let_def z s time_of_day_def two_digits_def n_def [symmetric]
    using b by (simp add: d lt u div_mult2_eq [symmetric])
qed

theorem get_time_string_correct_witness: "get_time_string 1 0 = [48, 48, 58, 48, 48, 58, 52, 50]"
  using get_time_string_correct [of 1 0] by (simp add: time_of_day_def two_digits_def)

text \<open>
  At \<open>2 ^ 40\<close> ticks, after 10995 seconds (03:03:15), the string jumps to 15:40:16: the term \<open>(A % f) * r / f\<close> of the
  comment's formula is computed with \<open>%\<close> instead of \<open>/\<close>.
\<close>

lemma get_time_string_jump:
  "get_time_string 256 0 = time_of_day 56416" "(256 * 2 ^ 32 :: nat) div 10 ^ 8 = 10995"
  "time_of_day 56416 = [49, 53, 58, 52, 48, 58, 49, 54]" "time_of_day 10995 = [48, 51, 58, 48, 51, 58, 49, 53]"
  by (simp_all add: get_time_string_def time_of_day_def two_digits_def Let_def)

end
