(* ===== verification/Disk.thy ===== *)
theory Disk
  imports VfsUtils
begin

text \<open>
  The SD card, \<open>kernel/driver/sd.c\<close>, and the block functions of \<open>kernel/vfs/utils.c\<close> that forward to it. The card
  is an array of 512-byte sectors; \<open>sd_status\<close> is the data event status it raises for a sector, whose bit
  0 means success (the driver waits until it is not 0). Every transfer leaves interrupts enabled.
\<close>

record disk =
  sectors :: "u32 \<Rightarrow> u8 list"
  sd_status :: "u32 \<Rightarrow> u32"
  sd_ie :: bool

definition SECSIZE :: nat where "SECSIZE = 512"

text \<open>Storing bytes into a buffer at an offset.\<close>

definition put_bytes :: "nat \<Rightarrow> u8 list \<Rightarrow> u8 list \<Rightarrow> u8 list" where
  "put_bytes off xs buf = take off buf @ xs @ drop (off + List.length xs) buf"

definition sd_read_sector_blocking :: "u32 \<Rightarrow> nat \<Rightarrow> u8 list \<Rightarrow> disk \<Rightarrow> u32 \<times> u8 list \<times> disk" where
  "sd_read_sector_blocking sid off buf d =
     (let des = sd_status d sid
      in if des AND 1 \<noteq> 0 then (0, put_bytes off (sectors d sid) buf, d\<lparr>sd_ie := True\<rparr>)
         else (des, buf, d\<lparr>sd_ie := True\<rparr>))"

definition sd_write_sector_blocking :: "u32 \<Rightarrow> u8 list \<Rightarrow> disk \<Rightarrow> u32 \<times> disk" where
  "sd_write_sector_blocking sid sec d =
     (let des = sd_status d sid
      in if des AND 1 \<noteq> 0 then (0, d\<lparr>sectors := (sectors d)(sid := sec), sd_ie := True\<rparr>)
         else (des, d\<lparr>sd_ie := True\<rparr>))"

text \<open>The loops over the sectors; \<open>is\<close> are the indices that are left.\<close>

fun sd_read_loop :: "u32 \<Rightarrow> nat list \<Rightarrow> u8 list \<Rightarrow> disk \<Rightarrow> u32 \<times> u8 list \<times> disk" where
  "sd_read_loop addr [] buf d = (0, buf, d)"
| "sd_read_loop addr (i # is) buf d =
     (case sd_read_sector_blocking (addr + of_nat i) (i * SECSIZE) buf d of (result, buf, d) \<Rightarrow>
        if result \<noteq> 0 then (1, buf, d) else sd_read_loop addr is buf d)"

definition sd_read_block :: "u8 list \<Rightarrow> u32 \<Rightarrow> u32 \<Rightarrow> disk \<Rightarrow> u32 \<times> u8 list \<times> disk" where
  "sd_read_block buf addr n d = sd_read_loop addr [0..<unat n] buf d"

fun sd_write_loop :: "u8 list \<Rightarrow> u32 \<Rightarrow> nat list \<Rightarrow> disk \<Rightarrow> u32 \<times> disk" where
  "sd_write_loop buf addr [] d = (0, d)"
| "sd_write_loop buf addr (i # is) d =
     (case sd_write_sector_blocking (addr + of_nat i) (take SECSIZE (drop (i * SECSIZE) buf)) d of (result, d) \<Rightarrow>
        if result \<noteq> 0 then (1, d) else sd_write_loop buf addr is d)"

definition sd_write_block :: "u8 list \<Rightarrow> u32 \<Rightarrow> u32 \<Rightarrow> disk \<Rightarrow> u32 \<times> disk" where
  "sd_write_block buf addr n d = sd_write_loop buf addr [0..<unat n] d"

definition read_block :: "u8 list \<Rightarrow> u32 \<Rightarrow> u32 \<Rightarrow> disk \<Rightarrow> u32 \<times> u8 list \<times> disk" where
  "read_block buf addr n d = sd_read_block buf addr n d"

definition write_block :: "u8 list \<Rightarrow> u32 \<Rightarrow> u32 \<Rightarrow> disk \<Rightarrow> u32 \<times> disk" where
  "write_block buf addr n d = sd_write_block buf addr n d"

section \<open>Blocks of sectors\<close>

definition disk_ok :: "disk \<Rightarrow> bool" where
  "disk_ok d \<longleftrightarrow> (\<forall>k. sd_status d k AND 1 \<noteq> 0 \<and> List.length (sectors d k) = SECSIZE)"

definition block_bytes :: "disk \<Rightarrow> u32 \<Rightarrow> nat \<Rightarrow> u8 list" where
  "block_bytes d addr n = concat (map (\<lambda>i. sectors d (addr + of_nat i)) [0..<n])"

lemma length_block_bytes [simp]: "disk_ok d \<Longrightarrow> List.length (block_bytes d addr n) = n * SECSIZE"
  by (induction n) (simp_all add: block_bytes_def disk_ok_def)

lemma length_put_bytes [simp]: "off + List.length xs \<le> List.length buf \<Longrightarrow> List.length (put_bytes off xs buf) = List.length buf"
  by (simp add: put_bytes_def)

lemma put_bytes_nth:
  assumes "p + List.length xs \<le> List.length buf" "i < List.length buf"
  shows "put_bytes p xs buf ! i = (if p \<le> i \<and> i < p + List.length xs then xs ! (i - p) else buf ! i)"
  using assms by (auto simp: put_bytes_def nth_append min_def)

lemma put_bytes_all: "List.length buf = List.length xs \<Longrightarrow> put_bytes 0 xs buf = xs"
  by (simp add: put_bytes_def)

text \<open>Transfers change nothing but the interrupt bit and the sectors written.\<close>

definition same_card :: "disk \<Rightarrow> disk \<Rightarrow> bool" where
  "same_card d d' \<longleftrightarrow> sectors d' = sectors d \<and> sd_status d' = sd_status d"

lemma same_cardD: "same_card d d' \<Longrightarrow> disk_ok d' = disk_ok d" "same_card d d' \<Longrightarrow> block_bytes d' = block_bytes d"
  by (simp_all add: same_card_def disk_ok_def block_bytes_def fun_eq_iff)

lemma sd_read_loop_ok:
  assumes "disk_ok d" "k + m = n" "List.length buf = n * SECSIZE" "take (k * SECSIZE) buf = block_bytes d addr k"
  shows "\<exists>d'. sd_read_loop addr [k..<n] buf d = (0, block_bytes d addr n, d') \<and> same_card d d'"
  using assms
proof (induction m arbitrary: k buf d)
  case 0
  then show ?case by (simp add: same_card_def)
next
  case (Suc m)
  let ?x = "sectors d (addr + of_nat k)"
  let ?b = "put_bytes (k * SECSIZE) ?x buf" and ?d = "d\<lparr>sd_ie := True\<rparr>"
  have l: "List.length ?x = SECSIZE" "sd_status d (addr + of_nat k) AND 1 \<noteq> 0" using Suc.prems(1) by (simp_all add: disk_ok_def)
  have kn: "k < n" using Suc.prems(2) by simp
  then have "Suc k * SECSIZE \<le> n * SECSIZE" by (intro mult_le_mono1) simp
  then have kb: "k * SECSIZE + SECSIZE \<le> n * SECSIZE" by simp
  have lb: "List.length ?b = n * SECSIZE" using l kb Suc.prems(3) by simp
  have sc: "same_card d ?d" by (simp add: same_card_def)
  have t: "take (Suc k * SECSIZE) ?b = block_bytes ?d addr (Suc k)"
  proof -
    have lk: "List.length (block_bytes d addr k) = k * SECSIZE" using Suc.prems(1) by simp
    have "?b = block_bytes d addr k @ ?x @ drop (k * SECSIZE + SECSIZE) buf"
      using Suc.prems(4) l by (simp add: put_bytes_def)
    then have "take (Suc k * SECSIZE) ?b = block_bytes d addr k @ ?x" using lk l by (simp add: add.commute)
    then show ?thesis by (simp add: block_bytes_def)
  qed
  obtain d' where "sd_read_loop addr [Suc k..<n] ?b ?d = (0, block_bytes ?d addr n, d')" "same_card ?d d'"
    using Suc.IH [of ?d "Suc k" ?b] Suc.prems(1,2) lb t same_cardD(1) [OF sc] by auto
  then show ?case
    using kn l same_cardD(2) [OF sc] by (simp add: upt_conv_Cons sd_read_sector_blocking_def same_card_def)
qed

lemma read_block_ok:
  assumes "disk_ok d" "List.length buf = unat n * SECSIZE"
  shows "\<exists>d'. read_block buf addr n d = (0, block_bytes d addr (unat n), d') \<and> same_card d d'"
  using sd_read_loop_ok [OF assms(1), of 0 "unat n" "unat n" buf addr] assms(2)
  by (simp add: read_block_def sd_read_block_def block_bytes_def)

text \<open>What a write of \<open>n\<close> sectors from \<open>addr\<close> on leaves on the card.\<close>

definition written :: "u32 \<Rightarrow> nat \<Rightarrow> u8 list \<Rightarrow> (u32 \<Rightarrow> u8 list) \<Rightarrow> u32 \<Rightarrow> u8 list" where
  "written addr n buf f k = (if unat (k - addr) < n then take SECSIZE (drop (unat (k - addr) * SECSIZE) buf) else f k)"

lemma sd_write_loop_ok:
  assumes "disk_ok d" "k + m = n" "n < 2 ^ 32" "List.length buf = n * SECSIZE" "sectors d = written addr k buf f"
  shows "\<exists>d'. sd_write_loop buf addr [k..<n] d = (0, d') \<and> sectors d' = written addr n buf f \<and> sd_status d' = sd_status d"
  using assms
proof (induction m arbitrary: k d)
  case 0
  then show ?case by simp
next
  case (Suc m)
  let ?x = "take SECSIZE (drop (k * SECSIZE) buf)"
  let ?d = "d\<lparr>sectors := (sectors d)(addr + of_nat k := ?x), sd_ie := True\<rparr>"
  have kn: "k < n" using Suc.prems(2) by simp
  then have "Suc k * SECSIZE \<le> n * SECSIZE" by (intro mult_le_mono1) simp
  then have lx: "List.length ?x = SECSIZE" using Suc.prems(4) by simp
  have ok: "disk_ok ?d" using Suc.prems(1) lx by (simp add: disk_ok_def)
  have uk: "unat (of_nat k :: u32) = k" using kn Suc.prems(3) by (simp add: unat_of_nat_u32)
  have "sectors ?d = written addr (Suc k) buf f"
  proof
    fix j
    have "j = addr + of_nat k \<longleftrightarrow> unat (j - addr) = k"
      using uk by (metis add_diff_cancel_left' diff_add_cancel add.commute word_unat_eq_iff)
    then show "sectors ?d j = written addr (Suc k) buf f j"
      using Suc.prems(5) by (auto simp: written_def less_Suc_eq)
  qed
  then obtain d' where "sd_write_loop buf addr [Suc k..<n] ?d = (0, d')" "sectors d' = written addr n buf f" "sd_status d' = sd_status ?d"
    using Suc.IH [of ?d "Suc k"] Suc.prems(2,3,4) ok by auto
  then show ?case using kn Suc.prems(1) by (simp add: upt_conv_Cons sd_write_sector_blocking_def disk_ok_def)
qed

lemma write_block_ok:
  assumes "disk_ok d" "List.length buf = unat n * SECSIZE"
  shows "\<exists>d'. write_block buf addr n d = (0, d') \<and> sectors d' = written addr (unat n) buf (sectors d) \<and> sd_status d' = sd_status d"
proof -
  have "unat n < 2 ^ 32" using unsigned_less [of n] by simp
  then show ?thesis
    using sd_write_loop_ok [OF assms(1) _ _ assms(2), of 0 "unat n" addr "sectors d"]
    by (simp add: write_block_def sd_write_block_def written_def fun_eq_iff)
qed

lemma written_ok: "disk_ok d \<Longrightarrow> List.length buf = n * SECSIZE \<Longrightarrow> sectors d' = written addr n buf (sectors d) \<Longrightarrow> sd_status d' = sd_status d \<Longrightarrow> disk_ok d'"
proof -
  assume a: "disk_ok d" "List.length buf = n * SECSIZE" "sectors d' = written addr n buf (sectors d)" "sd_status d' = sd_status d"
  have "List.length (take SECSIZE (drop (j * SECSIZE) buf)) = SECSIZE" if "j < n" for j
  proof -
    have "Suc j * SECSIZE \<le> n * SECSIZE" using that by (intro mult_le_mono1) simp
    then show ?thesis using a(2) by simp
  qed
  then show "disk_ok d'" using a(1,3,4) by (auto simp: disk_ok_def written_def)
qed

lemma take_chunk: "take (c + k * c) buf = take (k * c) buf @ take c (drop (k * c) buf)"
  by (metis add.commute take_add)

text \<open>Reading back the sectors just written; other sectors keep their contents.\<close>

lemma block_bytes_written:
  assumes "sectors d' = written addr n buf (sectors d)" "List.length buf = n * SECSIZE" "n < 2 ^ 32"
  shows "block_bytes d' addr n = buf"
proof -
  have "block_bytes d' addr k = take (k * SECSIZE) buf" if "k \<le> n" for k
    using that
  proof (induction k)
    case 0
    then show ?case by (simp add: block_bytes_def)
  next
    case (Suc k)
    have "unat (of_nat k :: u32) = k" using Suc.prems assms(3) by (simp add: unat_of_nat_u32)
    then have "sectors d' (addr + of_nat k) = take SECSIZE (drop (k * SECSIZE) buf)" using Suc.prems assms(1) by (simp add: written_def)
    then show ?case using Suc by (simp add: block_bytes_def take_chunk)
  qed
  then show ?thesis using assms(2) by simp
qed

lemma block_bytes_disjoint:
  assumes "sectors d' = written addr n buf (sectors d)" "\<forall>i < m. n \<le> unat (addr' + of_nat i - addr)"
  shows "block_bytes d' addr' m = block_bytes d addr' m"
proof -
  have "sectors d' (addr' + of_nat i) = sectors d (addr' + of_nat i)" if "i < m" for i
  proof -
    have "\<not> unat (addr' + of_nat i - addr) < n" using assms(2) that by (simp add: not_less)
    then show ?thesis unfolding assms(1) written_def by simp
  qed
  then have "map (\<lambda>i. sectors d' (addr' + of_nat i)) [0..<m] = map (\<lambda>i. sectors d (addr' + of_nat i)) [0..<m]" by simp
  then show ?thesis unfolding block_bytes_def by (rule arg_cong)
qed

end
