(* ===== verification/VfsCache.thy ===== *)
theory VfsCache
  imports Prelude
begin

text \<open>
  What the two caches of the virtual file system share, \<open>kernel/vfs/vfscache/vfscache.c\<close>: an LRU list and a table of hash
  chains of objects that are named by number. The lists are HOL lists.
\<close>

section \<open>State and operations\<close>

record cache =
  c_size :: u32
  c_capacity :: u32
  c_tablesize :: u32
  c_LRU :: "nat list"
  c_hashtable :: "nat \<Rightarrow> nat list"

definition cache_init :: "cache \<Rightarrow> u32 \<Rightarrow> u32 \<Rightarrow> cache" where
  "cache_init this capacity tablesize =
     this\<lparr>c_size := 0, c_capacity := capacity, c_tablesize := tablesize, c_LRU := [],
       c_hashtable := (\<lambda>i. if i < unat tablesize then [] else c_hashtable this i)\<rparr>"

definition cache_is_full :: "cache \<Rightarrow> bool" where
  "cache_is_full this \<longleftrightarrow> c_size this = c_capacity this"

text \<open>\<open>list_del\<close> of an object's hash node, and moving nodes to the front of their lists.\<close>

definition unhash :: "nat \<Rightarrow> cache \<Rightarrow> cache" where
  "unhash p c = c\<lparr>c_hashtable := (\<lambda>h. remove1 p (c_hashtable c h))\<rparr>"

definition to_front :: "nat \<Rightarrow> nat \<Rightarrow> cache \<Rightarrow> cache" where
  "to_front p h c =
     (let c = unhash p c;
          c = c\<lparr>c_hashtable := (c_hashtable c)(h := p # c_hashtable c h)\<rparr>;
          c = c\<lparr>c_LRU := remove1 p (c_LRU c)\<rparr>
      in c\<lparr>c_LRU := p # c_LRU c\<rparr>)"

definition link_new :: "nat \<Rightarrow> nat \<Rightarrow> cache \<Rightarrow> cache" where
  "link_new p h c =
     c\<lparr>c_hashtable := (c_hashtable c)(h := p # c_hashtable c h), c_LRU := p # c_LRU c, c_size := c_size c + 1\<rparr>"

text \<open>What an object that is released loses: its places in the LRU list and in its chain, and the count.\<close>

definition unlink :: "nat \<Rightarrow> cache \<Rightarrow> cache" where
  "unlink p c = (unhash p c)\<lparr>c_LRU := remove1 p (c_LRU c), c_size := c_size c - 1\<rparr>"

section \<open>The shape of a cache\<close>

text \<open>
  \<open>chains_ok c bk\<close>: the LRU list holds \<open>c_size\<close> objects, not more than the capacity, and an object \<open>p\<close> of it is in the
  chain \<open>bk p\<close> and in no other.
\<close>

definition chains_ok :: "cache \<Rightarrow> (nat \<Rightarrow> nat) \<Rightarrow> bool" where
  "chains_ok c bk \<longleftrightarrow> distinct (c_LRU c) \<and> (\<forall>h. distinct (c_hashtable c h) \<and> set (c_hashtable c h) = {p \<in> set (c_LRU c). bk p = h})
     \<and> unat (c_size c) = List.length (c_LRU c) \<and> List.length (c_LRU c) \<le> unat (c_capacity c)"

lemma chains_okD:
  assumes "chains_ok c bk"
  shows "distinct (c_LRU c)" "distinct (c_hashtable c h)" "p \<in> set (c_hashtable c h) \<longleftrightarrow> p \<in> set (c_LRU c) \<and> bk p = h"
    "unat (c_size c) = List.length (c_LRU c)" "List.length (c_LRU c) \<le> unat (c_capacity c)"
  using assms by (auto simp: chains_ok_def)

lemma chains_ok_init: "unat tablesize = n \<Longrightarrow> (\<forall>h \<ge> n. c_hashtable c h = []) \<Longrightarrow> chains_ok (cache_init c capacity tablesize) bk"
  by (auto simp: chains_ok_def cache_init_def)

lemma full_iff: "chains_ok c bk \<Longrightarrow> cache_is_full c \<longleftrightarrow> List.length (c_LRU c) = unat (c_capacity c)"
  by (auto simp: cache_is_full_def chains_ok_def word_unat_eq_iff)

lemma chains_ok_to_front:
  assumes "chains_ok c bk" "p \<in> set (c_LRU c)"
  shows "chains_ok (to_front p (bk p) c) bk" "set (c_LRU (to_front p (bk p) c)) = set (c_LRU c)"
    "c_LRU (to_front p (bk p) c) = p # remove1 p (c_LRU c)" "c_tablesize (to_front p h c) = c_tablesize c" "c_capacity (to_front p h c) = c_capacity c"
proof -
  have "0 < List.length (c_LRU c)" using assms(2) by (cases "c_LRU c") auto
  then show "chains_ok (to_front p (bk p) c) bk"
    using assms by (auto simp: chains_ok_def to_front_def unhash_def Let_def length_remove1)
  show "set (c_LRU (to_front p (bk p) c)) = set (c_LRU c)" "c_LRU (to_front p (bk p) c) = p # remove1 p (c_LRU c)"
    "c_tablesize (to_front p h c) = c_tablesize c" "c_capacity (to_front p h c) = c_capacity c"
    using assms by (auto simp: chains_ok_def to_front_def unhash_def Let_def)
qed

lemma chains_ok_link_new:
  assumes "chains_ok c bk" "p \<notin> set (c_LRU c)" "List.length (c_LRU c) < unat (c_capacity c)"
  shows "chains_ok (link_new p (bk p) c) bk" "c_LRU (link_new p h c) = p # c_LRU c" "c_tablesize (link_new p h c) = c_tablesize c"
    "c_capacity (link_new p h c) = c_capacity c"
proof -
  have "unat (c_capacity c) < 2 ^ 32" using unsigned_less [of "c_capacity c"] by simp
  then have "unat (c_size c + 1) = Suc (List.length (c_LRU c))"
    using assms(3) chains_okD(4) [OF assms(1)] by (simp add: unat_word_ariths)
  then show "chains_ok (link_new p (bk p) c) bk" using assms by (auto simp: chains_ok_def link_new_def)
  show "c_LRU (link_new p h c) = p # c_LRU c" "c_tablesize (link_new p h c) = c_tablesize c"
    "c_capacity (link_new p h c) = c_capacity c" by (simp_all add: link_new_def)
qed

lemma chains_ok_unlink:
  assumes "chains_ok c bk" "p \<in> set (c_LRU c)"
  shows "chains_ok (unlink p c) bk" "c_LRU (unlink p c) = remove1 p (c_LRU c)" "set (c_LRU (unlink p c)) = set (c_LRU c) - {p}"
    "c_tablesize (unlink p c) = c_tablesize c" "c_capacity (unlink p c) = c_capacity c"
proof -
  have l: "0 < List.length (c_LRU c)" using assms(2) by (cases "c_LRU c") auto
  then have "unat (c_size c - 1) = List.length (c_LRU c) - 1"
    using chains_okD(4) [OF assms(1)] unat_sub [of 1 "c_size c"] Suc_leI [OF l] by (simp add: word_le_nat_alt)
  then show "chains_ok (unlink p c) bk" using assms l by (auto simp: chains_ok_def unlink_def unhash_def length_remove1)
  show "c_LRU (unlink p c) = remove1 p (c_LRU c)" "set (c_LRU (unlink p c)) = set (c_LRU c) - {p}"
    "c_tablesize (unlink p c) = c_tablesize c" "c_capacity (unlink p c) = c_capacity c"
    using assms by (auto simp: chains_ok_def unlink_def unhash_def)
qed

text \<open>Only the chains of the objects in the cache matter.\<close>

lemma chains_ok_cong: "(\<And>p. p \<in> set (c_LRU c) \<Longrightarrow> bk p = bk' p) \<Longrightarrow> chains_ok c bk \<Longrightarrow> chains_ok c bk'"
  by (auto simp: chains_ok_def)

end
