(* ===== verification/PageCache.thy ===== *)
theory PageCache
  imports Disk VfsCache
begin

text \<open>
  The page cache, \<open>kernel/vfs/vfscache/pcache.c\<close>, the page allocation of \<open>kernel/vfs/vfsalloc.c\<close>, and the page operations of the EXT2 driver, \<open>kernel/vfs/ext2/ext2_page.c\<close>. A page is the
  number of its object: \<open>kmalloc\<close> gives a new one each time (\<open>Slab.kmalloc_correct\<close>: a block disjoint from all in use),
  and a freed object has no contents. A file system is the number of its super block, with the data that \<open>s_fs_info\<close>
  points to. The list of an inode's cached pages is a HOL list.
\<close>

section \<open>State\<close>

record ext2_base_information =
  ex_base :: u32
  ex_first_sb_sect :: u32
  ex_first_gdt_sect :: u32
  ex_blksize :: u32
  s_groups_count :: u32
  s_desc_per_block :: u32
  sb_data :: "u8 list"

text \<open>
  The operation tables an inode can have: none yet, those of directories (with \<open>lookup\<close>, \<open>create\<close> and \<open>mkdir\<close>), the empty table of files,
  and that of files found in a directory, which has \<open>create\<close>.
\<close>

datatype inode_ops = No_ops | Dir_ops | File_ops | File_create_ops

record inode =
  i_ino :: u32
  i_count :: u32
  i_blocks :: u32
  i_blkbits :: u32
  i_blksize :: u32
  i_size :: u32
  i_mode :: u32
  i_op :: inode_ops
  i_sb :: nat
  i_page :: "u32 list"

record vfs_page =
  p_data :: "u8 list"
  p_state :: u32
  p_location :: u32
  p_host :: nat

record vfs_state =
  vs_disk :: disk
  vs_next :: nat
  vs_pages :: "nat \<Rightarrow> vfs_page option"
  vs_inodes :: "nat \<Rightarrow> inode"
  vs_sbs :: "nat \<Rightarrow> ext2_base_information"
  vs_pcache :: cache
  vs_acache :: "nat \<Rightarrow> nat list"

definition P_CLEAR :: u32 where "P_CLEAR = 0"
definition P_DIRTY :: u32 where "P_DIRTY = 1"
definition SECTOR_SHIFT :: nat where "SECTOR_SHIFT = 9"
definition PCACHE_CAPACITY :: u32 where "PCACHE_CAPACITY = 64"
definition PCACHE_HASHTABLE_SIZE :: u32 where "PCACHE_HASHTABLE_SIZE = 16"
definition ENOMEM :: u32 where "ENOMEM = 12"
definition EIO :: u32 where "EIO = 5"
definition MAX_ERRNO :: u32 where "MAX_ERRNO = 4095"

definition IS_ERR_VALUE :: "u32 \<Rightarrow> bool" where
  "IS_ERR_VALUE x \<longleftrightarrow> x \<ge> - MAX_ERRNO"

section \<open>Pages of the EXT2 driver\<close>

definition upd_page :: "nat \<Rightarrow> (vfs_page \<Rightarrow> vfs_page) \<Rightarrow> vfs_state \<Rightarrow> vfs_state" where
  "upd_page p f s = s\<lparr>vs_pages := (vs_pages s)(p := map_option f (vs_pages s p))\<rparr>"

definition ext2_sector :: "vfs_state \<Rightarrow> inode \<Rightarrow> u32 \<Rightarrow> u32" where
  "ext2_sector s inode location = ex_base (vs_sbs s (i_sb inode)) + location * drop_bit SECTOR_SHIFT (i_blksize inode)"

text \<open>The error codes are the \<open>u32\<close> values that the C functions return.\<close>

definition ext2_readpage :: "nat \<Rightarrow> vfs_state \<Rightarrow> (u32 \<times> vfs_state) option" where
  "ext2_readpage p s = do {
     page \<leftarrow> vs_pages s p;
     if p_location page = 0 \<or> p_host page = NULL then Some (- EINVAL, s)
     else do {
       let inode = vs_inodes s (p_host page);
       let abs_sect_addr = ext2_sector s inode (p_location page);
       let buf = replicate (unat (i_blksize inode)) 0;
       let (err, buf, d) = read_block buf abs_sect_addr (drop_bit SECTOR_SHIFT (i_blksize inode)) (vs_disk s);
       let s = upd_page p (\<lambda>g. g\<lparr>p_data := buf\<rparr>) (s\<lparr>vs_disk := d\<rparr>);
       Some (if err \<noteq> 0 then - EIO else 0, s)
     }
   }"

definition ext2_writepage :: "nat \<Rightarrow> vfs_state \<Rightarrow> (u32 \<times> vfs_state) option" where
  "ext2_writepage p s = do {
     page \<leftarrow> vs_pages s p;
     if p_location page = 0 \<or> p_host page = NULL then Some (- EINVAL, s)
     else do {
       let inode = vs_inodes s (p_host page);
       let abs_sect_addr = ext2_sector s inode (p_location page);
       let (err, d) = write_block (p_data page) abs_sect_addr (drop_bit SECTOR_SHIFT (i_blksize inode)) (vs_disk s);
       Some (if err \<noteq> 0 then - EIO else 0, s\<lparr>vs_disk := d\<rparr>)
     }
   }"

text \<open>
  A 32-bit number in the block at sector \<open>addr\<close>. The result of \<open>read_block\<close> is not tested in the code; here a failed
  transfer, after which the buffer holds garbage, has no result.
\<close>

definition read_entry :: "inode \<Rightarrow> u32 \<Rightarrow> u32 \<Rightarrow> disk \<Rightarrow> (u32 \<times> disk) option" where
  "read_entry inode addr i d = do {
     let buf = replicate (unat (i_blksize inode)) 0;
     let (err, buf, d) = read_block buf addr (drop_bit SECTOR_SHIFT (i_blksize inode)) d;
     _ \<leftarrow> c_guard (err = 0);
     Some (get_u32 (unat (push_bit 2 i)) (\<lambda>a. buf ! a), d)
   }"

text \<open>
  The block numbers in \<open>a_page\<close> and in the indirect blocks are used as sector addresses, as in the code. Its test for a failed
  \<open>kmalloc\<close> never holds, since \<open>kmalloc\<close> never returns 0 (\<open>Slab\<close>). A page behind the triply indirect block, for which the code
  returns a variable without a value, has no result.
\<close>

definition ext2_bmap :: "nat \<Rightarrow> u32 \<Rightarrow> vfs_state \<Rightarrow> (u32 \<times> vfs_state) option" where
  "ext2_bmap host page_no s = do {
     let inode = vs_inodes s host;
     let page = i_page inode;
     let d = vs_disk s;
     _ \<leftarrow> c_guard (List.length page = 15);
     if page_no < 12 then Some (page ! unat page_no, s)
     else do {
       let entry_num = drop_bit 2 (i_blksize inode);
       let n1 = page_no - 12;
       if n1 < entry_num then do {
         (r, d) \<leftarrow> read_entry inode (page ! 12) n1 d;
         Some (r, s\<lparr>vs_disk := d\<rparr>)
       } else do {
         let n2 = n1 - entry_num;
         if n2 < entry_num * entry_num then do {
           (addr, d) \<leftarrow> read_entry inode (page ! 13) (n2 div entry_num) d;
           (r, d) \<leftarrow> read_entry inode addr (n2 mod entry_num) d;
           Some (r, s\<lparr>vs_disk := d\<rparr>)
         } else do {
           let n3 = n2 - entry_num * entry_num;
           _ \<leftarrow> c_guard (n3 < entry_num * entry_num * entry_num);
           (addr, d) \<leftarrow> read_entry inode (page ! 14) (n3 div (entry_num * entry_num)) d;
           let n4 = n3 mod (entry_num * entry_num);
           (addr, d) \<leftarrow> read_entry inode addr (n4 div entry_num) d;
           (r, d) \<leftarrow> read_entry inode addr (n4 mod entry_num) d;
           Some (r, s\<lparr>vs_disk := d\<rparr>)
         }
       }
     }
   }"

section \<open>The page cache\<close>

text \<open>The two caches of \<open>init_cache\<close>: the sizes of the page cache.\<close>

definition init_pcache :: "vfs_state \<Rightarrow> vfs_state" where
  "init_pcache s = s\<lparr>vs_pcache := cache_init (vs_pcache s) PCACHE_CAPACITY PCACHE_HASHTABLE_SIZE\<rparr>"

definition release_page :: "nat \<Rightarrow> vfs_state \<Rightarrow> vfs_state" where
  "release_page p s = s\<lparr>vs_pages := (vs_pages s)(p := None)\<rparr>"

text \<open>\<open>alloc_vfspage\<close>: an error code (an error pointer of the code) or the new page, its contents read.\<close>

definition alloc_vfspage :: "u32 \<Rightarrow> nat \<Rightarrow> vfs_state \<Rightarrow> ((u32 + nat) \<times> vfs_state) option" where
  "alloc_vfspage location host s = do {
     let p = vs_next s;
     s \<leftarrow> Some (s\<lparr>vs_next := p + 1\<rparr>);
     s \<leftarrow> Some (s\<lparr>vs_pages := (vs_pages s)(p \<mapsto> \<lparr>p_data = [], p_state = P_CLEAR, p_location = location, p_host = host\<rparr>)\<rparr>);
     (err, s) \<leftarrow> ext2_readpage p s;
     Some (if IS_ERR_VALUE err then (Inl err, release_page p s) else (Inr p, s))
   }"

definition pcache_write_back :: "nat \<Rightarrow> vfs_state \<Rightarrow> vfs_state option" where
  "pcache_write_back p s = do { (_, s) \<leftarrow> ext2_writepage p s; Some s }"

definition pcache_put_LRU :: "vfs_state \<Rightarrow> vfs_state option" where
  "pcache_put_LRU s = do {
     let c = vs_pcache s;
     _ \<leftarrow> c_guard (c_LRU c \<noteq> []);
     let p = List.last (c_LRU c);
     page \<leftarrow> vs_pages s p;
     s \<leftarrow> (if p_state page AND P_DIRTY \<noteq> 0 then pcache_write_back p s else Some s);
     s \<leftarrow> Some (s\<lparr>vs_pcache := unlink p (vs_pcache s), vs_acache := (\<lambda>i. remove1 p (vs_acache s i))\<rparr>);
     Some (release_page p s)
   }"

definition pcache_add :: "nat \<Rightarrow> vfs_state \<Rightarrow> vfs_state option" where
  "pcache_add p s = do {
     page \<leftarrow> vs_pages s p;
     let h = unat (intHash (p_location page) (c_tablesize (vs_pcache s)));
     s \<leftarrow> (if cache_is_full (vs_pcache s) then pcache_put_LRU s else Some s);
     Some (s\<lparr>vs_pcache := link_new p h (vs_pcache s)\<rparr>)
   }"

text \<open>The test of the search; a chain never holds a freed page.\<close>

definition page_is :: "u32 \<Rightarrow> nat \<Rightarrow> vfs_state \<Rightarrow> nat \<Rightarrow> bool" where
  "page_is num host s p = (case vs_pages s p of None \<Rightarrow> False | Some g \<Rightarrow> p_location g = num \<and> p_host g = host)"

text \<open>A miss reads the page in; when that fails the code goes on with the error pointer.\<close>

definition pcache_look_up :: "u32 \<Rightarrow> nat \<Rightarrow> vfs_state \<Rightarrow> (nat \<times> vfs_state) option" where
  "pcache_look_up page_num host s = do {
     let h = unat (intHash page_num (c_tablesize (vs_pcache s)));
     case find (page_is page_num host s) (c_hashtable (vs_pcache s) h) of
       Some p \<Rightarrow> Some (p, s\<lparr>vs_pcache := to_front p h (vs_pcache s)\<rparr>)
     | None \<Rightarrow> do {
         (r, s) \<leftarrow> alloc_vfspage page_num host s;
         case r of
           Inl e \<Rightarrow> None
         | Inr p \<Rightarrow> do {
             s \<leftarrow> pcache_add p s;
             Some (p, s\<lparr>vs_acache := (vs_acache s)(host := p # vs_acache s host)\<rparr>)
           }
       }
   }"

text \<open>\<open>look_up\<close> never gives 0, so the second allocation in \<open>pcache_get_page\<close> is never reached.\<close>

definition pcache_get_page :: "nat \<Rightarrow> u32 \<Rightarrow> vfs_state \<Rightarrow> ((u32 + nat) \<times> vfs_state) option" where
  "pcache_get_page host page_no s = do {
     (cur_page_no, s) \<leftarrow> ext2_bmap host page_no s;
     if cur_page_no = 0 then Some (Inl (- EINVAL), s)
     else do {
       (p, s) \<leftarrow> pcache_look_up cur_page_no host s;
       Some (Inr p, s)
     }
   }"

section \<open>The mapping of file pages\<close>

text \<open>
  The specification: a tree of blocks of \<open>k\<close> levels below the block \<open>b\<close>, in which entry \<open>n\<close> of a block of \<open>e\<close> entries leads on.
  What the entry \<open>i\<close> of the block \<open>b\<close> is, \<open>ent b i\<close>, is a parameter: the format of EXT2 finds the block \<open>b\<close> at
  the sector \<open>ext2_sector\<close> gives (\<open>ext2_block\<close>), the code takes \<open>b\<close> itself for the sector (\<open>file_block\<close>).
\<close>

definition block_entry :: "disk \<Rightarrow> nat \<Rightarrow> u32 \<Rightarrow> nat \<Rightarrow> u32" where
  "block_entry d spb addr i = get_u32 (4 * i) (\<lambda>a. block_bytes d addr spb ! a)"

fun tree_lookup :: "(u32 \<Rightarrow> nat \<Rightarrow> u32) \<Rightarrow> nat \<Rightarrow> nat \<Rightarrow> u32 \<Rightarrow> nat \<Rightarrow> u32" where
  "tree_lookup ent e 0 b n = b"
| "tree_lookup ent e (Suc k) b n = tree_lookup ent e k (ent b (n div e ^ k)) (n mod e ^ k)"

definition block_tree :: "(u32 \<Rightarrow> nat \<Rightarrow> u32) \<Rightarrow> inode \<Rightarrow> nat \<Rightarrow> u32" where
  "block_tree ent inode n =
     (let e = unat (i_blksize inode) div 4; page = i_page inode
      in if n < 12 then page ! n
         else if n < 12 + e then tree_lookup ent e 1 (page ! 12) (n - 12)
         else if n < 12 + e + e ^ 2 then tree_lookup ent e 2 (page ! 13) (n - 12 - e)
         else tree_lookup ent e 3 (page ! 14) (n - 12 - e - e ^ 2))"

definition file_block :: "disk \<Rightarrow> inode \<Rightarrow> nat \<Rightarrow> u32" where
  "file_block d inode = block_tree (block_entry d (unat (i_blksize inode) div SECSIZE)) inode"

definition ext2_block :: "vfs_state \<Rightarrow> inode \<Rightarrow> nat \<Rightarrow> u32" where
  "ext2_block s inode = block_tree (\<lambda>b. block_entry (vs_disk s) (unat (i_blksize inode) div SECSIZE) (ext2_sector s inode b)) inode"

definition blksize_ok :: "u32 \<Rightarrow> bool" where
  "blksize_ok b \<longleftrightarrow> b = 1024 \<or> b = 2048 \<or> b = 4096"

lemma blksize_okD:
  assumes "blksize_ok b"
  shows "unat (drop_bit SECTOR_SHIFT b) = unat b div SECSIZE" "unat (drop_bit 2 b) = unat b div 4"
    "unat b div SECSIZE * SECSIZE = unat b" "0 < unat b div SECSIZE" "unat b div SECSIZE < 16" "unat b div 4 \<le> 1024" "256 \<le> unat b div 4"
  using assms by (auto simp: blksize_ok_def SECTOR_SHIFT_def SECSIZE_def)

lemma get_u32_cong: "(\<And>j. j < 4 \<Longrightarrow> m (p + j) = m' (p + j)) \<Longrightarrow> get_u32 p m = get_u32 p m'"
proof -
  assume a: "\<And>j. j < 4 \<Longrightarrow> m (p + j) = m' (p + j)"
  show ?thesis using a [of 0] a [of 1] a [of 2] a [of 3] by (simp add: get_u32_def)
qed

lemma read_entry_ok:
  assumes "disk_ok d" "blksize_ok (i_blksize inode)" "unat i < unat (i_blksize inode) div 4"
  shows "\<exists>d'. read_entry inode addr i d = Some (block_entry d (unat (i_blksize inode) div SECSIZE) addr (unat i), d') \<and> same_card d d'"
proof -
  note b = blksize_okD [OF assms(2)]
  have i: "unat (push_bit 2 i) = 4 * unat i"
    using assms(3) b(6) unat_mult_lem [of i 4] by (simp add: push_bit_eq_mult)
  obtain d' where "read_block (replicate (unat (i_blksize inode)) 0) addr (drop_bit SECTOR_SHIFT (i_blksize inode)) d
      = (0, block_bytes d addr (unat (i_blksize inode) div SECSIZE), d')" "same_card d d'"
    using read_block_ok [OF assms(1), of "replicate (unat (i_blksize inode)) 0" "drop_bit SECTOR_SHIFT (i_blksize inode)" addr] b(1,3) by auto
  then show ?thesis by (simp add: read_entry_def block_entry_def i)
qed

lemma same_card_refl [simp]: "same_card d d"
  by (simp add: same_card_def)

lemma same_card_trans: "same_card d d' \<Longrightarrow> same_card d' d'' \<Longrightarrow> same_card d d''"
  by (simp add: same_card_def)

lemma same_card_entry: "same_card d d' \<Longrightarrow> block_entry d' = block_entry d"
  by (simp add: block_entry_def same_cardD fun_eq_iff)

lemma bmap_tree:
  assumes "disk_ok (vs_disk s)" "blksize_ok (i_blksize (vs_inodes s host))" "List.length (i_page (vs_inodes s host)) = 15"
    and "e = unat (i_blksize (vs_inodes s host)) div 4" "unat n < 12 + e + e ^ 2 + e ^ 3"
  shows "\<exists>d. ext2_bmap host n s = Some (file_block (vs_disk s) (vs_inodes s host) (unat n), s\<lparr>vs_disk := d\<rparr>) \<and> same_card (vs_disk s) d"
proof -
  define ino where "ino = vs_inodes s host"
  define d where "d = vs_disk s"
  define en where "en = drop_bit 2 (i_blksize ino)"
  define spb where "spb = unat (i_blksize ino) div SECSIZE"
  have ok: "disk_ok d" "blksize_ok (i_blksize ino)" "List.length (i_page ino) = 15" using assms(1-3) by (simp_all add: ino_def d_def)
  have en: "unat en = e" "256 \<le> e" "e \<le> 1024" using blksize_okD(2,6,7) [OF ok(2)] assms(4) by (simp_all add: en_def ino_def)
  have e2: "e * e \<le> 1024 * 1024" using en(3) by (intro mult_le_mono)
  then have e3: "e * e * e \<le> 1024 * 1024 * 1024" using en(3) by (intro mult_le_mono)
  have u2: "unat (en * en) = e * e" using e2 en(1) by (simp add: unat_word_ariths)
  then have u3: "unat (en * en * en) = e * e * e" using e3 en(1) by (simp only: unat_word_ariths) simp
  have rd: "\<exists>d''. read_entry ino addr i d' = Some (block_entry d spb addr (unat i), d'') \<and> same_card d d''"
    if "same_card d d'" "unat i < e" for addr i d'
    using read_entry_ok [of d' ino i addr] that ok same_cardD(1) [OF that(1)] same_card_entry [OF that(1)] same_card_trans [OF that(1)] assms(4)
    by (auto simp: spb_def ino_def)
  let ?r = "\<exists>d'. ext2_bmap host n s = Some (file_block d ino (unat n), s\<lparr>vs_disk := d'\<rparr>) \<and> same_card d d'"
  have fb: "file_block d ino m = (if m < 12 then i_page ino ! m else if m - 12 < e then tree_lookup (block_entry d spb) e 1 (i_page ino ! 12) (m - 12)
      else if m - 12 - e < e * e then tree_lookup (block_entry d spb) e 2 (i_page ino ! 13) (m - 12 - e)
      else tree_lookup (block_entry d spb) e 3 (i_page ino ! 14) (m - 12 - e - e * e))" for m
    using assms(4) by (auto simp: file_block_def block_tree_def Let_def power2_eq_square spb_def ino_def)
  have bm: "ext2_bmap host n s = (if n < 12 then Some (i_page ino ! unat n, s) else do {
       let n1 = n - 12;
       if n1 < en then do { (r, d) \<leftarrow> read_entry ino (i_page ino ! 12) n1 d; Some (r, s\<lparr>vs_disk := d\<rparr>) }
       else do {
         let n2 = n1 - en;
         if n2 < en * en then do {
           (addr, d) \<leftarrow> read_entry ino (i_page ino ! 13) (n2 div en) d;
           (r, d) \<leftarrow> read_entry ino addr (n2 mod en) d;
           Some (r, s\<lparr>vs_disk := d\<rparr>)
         } else do {
           let n3 = n2 - en * en;
           _ \<leftarrow> c_guard (n3 < en * en * en);
           (addr, d) \<leftarrow> read_entry ino (i_page ino ! 14) (n3 div (en * en)) d;
           (addr, d) \<leftarrow> read_entry ino addr (n3 mod (en * en) div en) d;
           (r, d) \<leftarrow> read_entry ino addr (n3 mod (en * en) mod en) d;
           Some (r, s\<lparr>vs_disk := d\<rparr>)
         }
       } })"
    using ok(3) by (simp add: ext2_bmap_def ino_def d_def en_def Let_def)
  have w12: "n < 12 \<longleftrightarrow> unat n < 12" by (simp add: word_less_nat_alt)
  have "?r"
  proof (cases "unat n < 12")
    case True
    have "s\<lparr>vs_disk := d\<rparr> = s" by (simp add: d_def)
    then show ?thesis using True by (intro exI [of _ d]) (simp add: bm fb w12)
  next
    case False
    define n1 where "n1 = n - 12"
    have u1: "unat n1 = unat n - 12" using False unat_sub [of 12 n] by (simp add: n1_def word_le_nat_alt)
    have w1: "n1 < en \<longleftrightarrow> unat n1 < e" by (simp add: word_less_nat_alt en)
    show ?thesis
    proof (cases "unat n1 < e")
      case True
      then show ?thesis using rd [OF same_card_refl True, of "i_page ino ! 12"] False u1
        by (auto simp: bm fb w12 w1 n1_def [symmetric])
    next
      case f1: False
      define n2 where "n2 = n1 - en"
      have u2': "unat n2 = unat n1 - e" using f1 unat_sub [of en n1] by (simp add: n2_def word_le_nat_alt en)
      have w2: "n2 < en * en \<longleftrightarrow> unat n2 < e * e" by (simp add: word_less_nat_alt u2)
      show ?thesis
      proof (cases "unat n2 < e * e")
        case True
        have i: "unat (n2 div en) < e" "unat (n2 mod en) < e"
          using True en by (simp_all add: unat_div unat_mod less_mult_imp_div_less)
        obtain d1 where 1: "read_entry ino (i_page ino ! 13) (n2 div en) d = Some (block_entry d spb (i_page ino ! 13) (unat (n2 div en)), d1)"
          "same_card d d1" using rd [OF same_card_refl i(1)] by blast
        obtain d2 where "read_entry ino (block_entry d spb (i_page ino ! 13) (unat (n2 div en))) (n2 mod en) d1
            = Some (block_entry d spb (block_entry d spb (i_page ino ! 13) (unat (n2 div en))) (unat (n2 mod en)), d2)" "same_card d d2"
          using rd [OF 1(2) i(2)] by blast
        then show ?thesis using False True f1 u1 u2' 1 en
          by (auto simp: bm fb w12 w1 w2 n1_def [symmetric] n2_def [symmetric] numeral_2_eq_2 unat_div unat_mod)
      next
        case f2: False
        define n3 where "n3 = n2 - en * en"
        have u3': "unat n3 = unat n2 - e * e" using f2 unat_sub [of "en * en" n2] by (simp add: n3_def word_le_nat_alt u2)
        then have b3: "unat n3 < e * e * e" using assms(5) False f1 f2 u1 u2' by (simp add: power2_eq_square power3_eq_cube)
        then have w3: "n3 < en * en * en" by (simp add: word_less_nat_alt u3)
        have i: "unat (n3 div (en * en)) < e" "unat (n3 mod (en * en) div en) < e" "unat (n3 mod (en * en) mod en) < e"
          using b3 en by (simp_all add: unat_div unat_mod u2 less_mult_imp_div_less)
        let ?a1 = "block_entry d spb (i_page ino ! 14) (unat (n3 div (en * en)))"
        let ?a2 = "block_entry d spb ?a1 (unat (n3 mod (en * en) div en))"
        obtain d1 where 1: "read_entry ino (i_page ino ! 14) (n3 div (en * en)) d = Some (?a1, d1)" "same_card d d1"
          using rd [OF same_card_refl i(1)] by blast
        obtain d2 where 2: "read_entry ino ?a1 (n3 mod (en * en) div en) d1 = Some (?a2, d2)" "same_card d d2"
          using rd [OF 1(2) i(2)] by blast
        obtain d3 where "read_entry ino ?a2 (n3 mod (en * en) mod en) d2 = Some (block_entry d spb ?a2 (unat (n3 mod (en * en) mod en)), d3)" "same_card d d3"
          using rd [OF 2(2) i(3)] by blast
        then show ?thesis using False f1 f2 u1 u2' u3' w3 1 2 en u2
          by (auto simp: bm fb w12 w1 w2 n1_def [symmetric] n2_def [symmetric] n3_def [symmetric] numeral_2_eq_2 numeral_3_eq_3 unat_div unat_mod)
      qed
    qed
  qed
  then show ?thesis by (simp add: d_def ino_def)
qed


text \<open>A file whose page 12 is the first entry of the indirect block at sector 7.\<close>

definition sample_indirect :: vfs_state where
  "sample_indirect = \<lparr>
     vs_disk = \<lparr>sectors = (\<lambda>k. replicate SECSIZE (ucast k)), sd_status = (\<lambda>_. 1), sd_ie = False\<rparr>,
     vs_next = 1, vs_pages = Map.empty,
     vs_inodes = (\<lambda>_. \<lparr>i_ino = 12, i_count = 1, i_blocks = 13, i_blkbits = 10, i_blksize = 1024, i_size = 13000, i_mode = 0x8000, i_op = File_ops, i_sb = 0,
       i_page = [0, 1, 2, 3, 4, 5, 6, 7, 8, 9, 10, 11, 7, 0, 0]\<rparr>),
     vs_sbs = (\<lambda>_. \<lparr>ex_base = 0, ex_first_sb_sect = 2, ex_first_gdt_sect = 4, ex_blksize = 1024, s_groups_count = 1, s_desc_per_block = 32, sb_data = []\<rparr>),
     vs_pcache = \<lparr>c_size = 0, c_capacity = 64, c_tablesize = 16, c_LRU = [], c_hashtable = (\<lambda>_. [])\<rparr>,
     vs_acache = (\<lambda>_. [])\<rparr>"


end
