(* ===== verification/PageInv.thy ===== *)
theory PageInv
  imports PageCache
begin

text \<open>
  The invariant of the page cache and its operations. Every block belongs to one file (\<open>own\<close>), and a page in the
  cache holds exactly the bytes of its block on the card: pages are written through and never dirty.
\<close>

section \<open>The invariant\<close>

definition fs_spb :: "vfs_state \<Rightarrow> nat \<Rightarrow> nat" where
  "fs_spb s sb = unat (ex_blksize (vs_sbs s sb)) div SECSIZE"

definition fs_sect :: "vfs_state \<Rightarrow> nat \<Rightarrow> u32 \<Rightarrow> u32" where
  "fs_sect s sb loc = ex_base (vs_sbs s sb) + loc * drop_bit SECTOR_SHIFT (ex_blksize (vs_sbs s sb))"

definition loc_data :: "vfs_state \<Rightarrow> nat \<Rightarrow> u32 \<Rightarrow> u8 list" where
  "loc_data s sb loc = block_bytes (vs_disk s) (fs_sect s sb loc) (fs_spb s sb)"

definition loc_ok :: "(u32 \<Rightarrow> nat) \<Rightarrow> nat \<Rightarrow> vfs_state \<Rightarrow> nat \<Rightarrow> u32 \<Rightarrow> bool" where
  "loc_ok own sb s host loc \<longleftrightarrow> loc \<noteq> 0 \<and> host \<noteq> NULL \<and> own loc = host \<and> i_sb (vs_inodes s host) = sb
     \<and> i_blksize (vs_inodes s host) = ex_blksize (vs_sbs s sb) \<and> unat (ex_base (vs_sbs s sb)) + (unat loc + 1) * fs_spb s sb \<le> 2 ^ 32"

definition page_ok :: "(u32 \<Rightarrow> nat) \<Rightarrow> nat \<Rightarrow> vfs_state \<Rightarrow> vfs_page \<Rightarrow> bool" where
  "page_ok own sb s g \<longleftrightarrow> p_state g = P_CLEAR \<and> loc_ok own sb s (p_host g) (p_location g) \<and> p_data g = loc_data s sb (p_location g)"

definition page_loc :: "vfs_state \<Rightarrow> nat \<Rightarrow> u32" where
  "page_loc s p = (case vs_pages s p of None \<Rightarrow> 0 | Some g \<Rightarrow> p_location g)"

definition bucket :: "vfs_state \<Rightarrow> nat \<Rightarrow> nat" where
  "bucket s p = unat (intHash (page_loc s p) (c_tablesize (vs_pcache s)))"

abbreviation cached :: "vfs_state \<Rightarrow> nat set" where
  "cached s \<equiv> set (c_LRU (vs_pcache s))"

definition pages_core :: "(u32 \<Rightarrow> nat) \<Rightarrow> nat \<Rightarrow> vfs_state \<Rightarrow> bool" where
  "pages_core own sb s \<longleftrightarrow> disk_ok (vs_disk s) \<and> blksize_ok (ex_blksize (vs_sbs s sb)) \<and> 0 < unat (c_capacity (vs_pcache s))
     \<and> chains_ok (vs_pcache s) (bucket s) \<and> inj_on (page_loc s) (cached s)
     \<and> (\<forall>p \<in> cached s. p < vs_next s \<and> (\<exists>g. vs_pages s p = Some g \<and> page_ok own sb s g))"

definition acache_ok :: "(u32 \<Rightarrow> nat) \<Rightarrow> vfs_state \<Rightarrow> nat set \<Rightarrow> bool" where
  "acache_ok own s L \<longleftrightarrow> (\<forall>h. distinct (vs_acache s h) \<and> set (vs_acache s h) = {p \<in> L. own (page_loc s p) = h})"

definition pages_ok :: "(u32 \<Rightarrow> nat) \<Rightarrow> nat \<Rightarrow> vfs_state \<Rightarrow> bool" where
  "pages_ok own sb s \<longleftrightarrow> pages_core own sb s \<and> acache_ok own s (cached s)"

lemma pages_coreD:
  assumes "pages_core own sb s"
  shows "disk_ok (vs_disk s)" "blksize_ok (ex_blksize (vs_sbs s sb))" "0 < unat (c_capacity (vs_pcache s))" "chains_ok (vs_pcache s) (bucket s)"
    "inj_on (page_loc s) (cached s)" "p \<in> cached s \<Longrightarrow> p < vs_next s" "p \<in> cached s \<Longrightarrow> \<exists>g. vs_pages s p = Some g \<and> page_ok own sb s g"
  using assms by (auto simp: pages_core_def)

text \<open>Reading from the card changes nothing that the invariant speaks about.\<close>

lemma pages_card:
  assumes "same_card (vs_disk s) d"
  shows "pages_core own sb (s\<lparr>vs_disk := d\<rparr>) = pages_core own sb s" "acache_ok own (s\<lparr>vs_disk := d\<rparr>) L = acache_ok own s L"
    "loc_data (s\<lparr>vs_disk := d\<rparr>) sb loc = loc_data s sb loc" "loc_ok own sb (s\<lparr>vs_disk := d\<rparr>) host loc = loc_ok own sb s host loc"
proof -
  have p: "page_ok own sb (s\<lparr>vs_disk := d\<rparr>) g = page_ok own sb s g" for g
    by (simp add: page_ok_def loc_ok_def loc_data_def same_cardD(2) [OF assms] fs_spb_def fs_sect_def)
  have b: "page_loc (s\<lparr>vs_disk := d\<rparr>) = page_loc s" by (simp add: page_loc_def fun_eq_iff)
  then have "bucket (s\<lparr>vs_disk := d\<rparr>) = bucket s" by (simp add: bucket_def fun_eq_iff)
  with p b show "pages_core own sb (s\<lparr>vs_disk := d\<rparr>) = pages_core own sb s"
    by (simp add: pages_core_def same_cardD(1) [OF assms])
  show "acache_ok own (s\<lparr>vs_disk := d\<rparr>) L = acache_ok own s L" by (simp add: acache_ok_def b)
  show "loc_data (s\<lparr>vs_disk := d\<rparr>) sb loc = loc_data s sb loc" by (simp add: loc_data_def same_cardD(2) [OF assms] fs_spb_def fs_sect_def)
  show "loc_ok own sb (s\<lparr>vs_disk := d\<rparr>) host loc = loc_ok own sb s host loc" by (simp add: loc_ok_def fs_spb_def)
qed

section \<open>Operations\<close>

lemma loc_okD:
  assumes "loc_ok own sb s host loc" "blksize_ok (ex_blksize (vs_sbs s sb))"
  shows "ext2_sector s (vs_inodes s host) loc = fs_sect s sb loc" "loc \<noteq> 0" "host \<noteq> NULL" "own loc = host"
    "unat (drop_bit SECTOR_SHIFT (i_blksize (vs_inodes s host))) = fs_spb s sb" "unat (i_blksize (vs_inodes s host)) = fs_spb s sb * SECSIZE"
  using assms blksize_okD [OF assms(2)] by (simp_all add: loc_ok_def ext2_sector_def fs_sect_def fs_spb_def)

definition new_page :: "nat \<Rightarrow> u32 \<Rightarrow> nat \<Rightarrow> vfs_state \<Rightarrow> vfs_state" where
  "new_page sb loc host s = s\<lparr>vs_next := vs_next s + 1, vs_pages := (vs_pages s)
     (vs_next s \<mapsto> \<lparr>p_data = loc_data s sb loc, p_state = P_CLEAR, p_location = loc, p_host = host\<rparr>)\<rparr>"

lemma alloc_vfspage_ok:
  assumes "disk_ok (vs_disk s)" "blksize_ok (ex_blksize (vs_sbs s sb))" "loc_ok own sb s host loc"
  shows "\<exists>d. alloc_vfspage loc host s = Some (Inr (vs_next s), (new_page sb loc host s)\<lparr>vs_disk := d\<rparr>) \<and> same_card (vs_disk s) d"
proof -
  note l = loc_okD [OF assms(3,2)]
  obtain d where "read_block (replicate (fs_spb s sb * SECSIZE) 0) (fs_sect s sb loc)
      (drop_bit SECTOR_SHIFT (i_blksize (vs_inodes s host))) (vs_disk s) = (0, loc_data s sb loc, d)" "same_card (vs_disk s) d"
    using read_block_ok [OF assms(1), of "replicate (fs_spb s sb * SECSIZE) 0" "drop_bit SECTOR_SHIFT (i_blksize (vs_inodes s host))" "fs_sect s sb loc"]
    by (auto simp: l loc_data_def)
  moreover have "ext2_sector (s\<lparr>vs_next := n, vs_pages := m\<rparr>) = ext2_sector s" for n m by (simp add: ext2_sector_def fun_eq_iff)
  ultimately show ?thesis
    using l by (intro exI [of _ d])
      (simp add: alloc_vfspage_def ext2_readpage_def new_page_def upd_page_def Let_def IS_ERR_VALUE_def MAX_ERRNO_def word_le_nat_alt)
qed

text \<open>Pages that are not in the cache do not matter.\<close>

lemma new_page_ok:
  assumes "pages_core own sb s" "acache_ok own s (cached s)" "loc_ok own sb s host loc"
  shows "pages_core own sb (new_page sb loc host s)" "acache_ok own (new_page sb loc host s) (cached s)"
    "page_loc (new_page sb loc host s) (vs_next s) = loc" "vs_next s \<notin> cached s"
    "page_ok own sb (new_page sb loc host s) (the (vs_pages (new_page sb loc host s) (vs_next s)))"
    "p \<in> cached s \<Longrightarrow> page_loc (new_page sb loc host s) p = page_loc s p"
proof -
  let ?s = "new_page sb loc host s"
  show n: "vs_next s \<notin> cached s" using pages_coreD(6) [OF assms(1)] by blast
  have pl: "page_loc ?s p = page_loc s p" if "p \<in> cached s" for p
    using n that by (auto simp: page_loc_def new_page_def)
  then show "p \<in> cached s \<Longrightarrow> page_loc ?s p = page_loc s p" .
  have f: "page_ok own sb ?s g = page_ok own sb s g" for g by (simp add: page_ok_def loc_ok_def loc_data_def new_page_def fs_spb_def fs_sect_def)
  show "page_loc ?s (vs_next s) = loc" by (simp add: page_loc_def new_page_def)
  show "page_ok own sb ?s (the (vs_pages ?s (vs_next s)))" unfolding f using assms(3) by (simp add: page_ok_def new_page_def)
  have c: "vs_pcache ?s = vs_pcache s" "vs_disk ?s = vs_disk s" "vs_sbs ?s = vs_sbs s" "vs_next ?s = Suc (vs_next s)" by (simp_all add: new_page_def)
  have ch: "chains_ok (vs_pcache s) (bucket ?s)"
    by (rule chains_ok_cong [OF _ pages_coreD(4) [OF assms(1)]]) (simp add: bucket_def pl c)
  have "\<exists>g. vs_pages ?s p = Some g \<and> page_ok own sb ?s g" if "p \<in> cached s" for p
    using pages_coreD(7) [OF assms(1) that] n that by (auto simp: f) (auto simp: new_page_def)
  moreover have "inj_on (page_loc ?s) (cached s)" using pages_coreD(5) [OF assms(1)] by (simp add: inj_on_def pl)
  ultimately show "pages_core own sb ?s"
    using pages_coreD(1-3,6) [OF assms(1)] ch by (auto simp: pages_core_def c less_SucI)
  show "acache_ok own ?s (cached s)"
    using assms(2) pl unfolding acache_ok_def by (auto simp: new_page_def cong: conj_cong)
qed

text \<open>Dropping a page, and the least recently used one.\<close>

definition drop_page :: "nat \<Rightarrow> vfs_state \<Rightarrow> vfs_state" where
  "drop_page p s = release_page p (s\<lparr>vs_pcache := unlink p (vs_pcache s), vs_acache := (\<lambda>i. remove1 p (vs_acache s i))\<rparr>)"

lemma drop_page_fields [simp]: "vs_disk (drop_page p s) = vs_disk s" "vs_next (drop_page p s) = vs_next s" "vs_inodes (drop_page p s) = vs_inodes s"
  "vs_sbs (drop_page p s) = vs_sbs s" "vs_pcache (drop_page p s) = unlink p (vs_pcache s)" "q \<noteq> p \<Longrightarrow> vs_pages (drop_page p s) q = vs_pages s q"
  by (simp_all add: drop_page_def release_page_def)

lemma drop_page_ok:
  assumes "pages_core own sb s" "p \<in> cached s"
  shows "pages_core own sb (drop_page p s)" "cached (drop_page p s) = cached s - {p}"
    "acache_ok own s L \<Longrightarrow> acache_ok own (drop_page p s) (L - {p})" "q \<noteq> p \<Longrightarrow> page_loc (drop_page p s) q = page_loc s q"
    "page_ok own sb (drop_page p s) g = page_ok own sb s g"
proof -
  note u = chains_ok_unlink [OF pages_coreD(4) [OF assms(1)] assms(2)]
  show c: "cached (drop_page p s) = cached s - {p}" unfolding drop_page_fields by (rule u(3))
  have pl: "page_loc (drop_page p s) q = page_loc s q" if "q \<noteq> p" for q using that by (simp add: page_loc_def)
  then show "q \<noteq> p \<Longrightarrow> page_loc (drop_page p s) q = page_loc s q" .
  have f: "page_ok own sb (drop_page p s) g = page_ok own sb s g" for g by (simp add: page_ok_def loc_ok_def loc_data_def fs_spb_def fs_sect_def)
  then show "page_ok own sb (drop_page p s) g = page_ok own sb s g" .
  have "chains_ok (vs_pcache (drop_page p s)) (bucket (drop_page p s))"
    unfolding drop_page_fields by (rule chains_ok_cong [OF _ u(1)]) (auto simp: u(3,4) bucket_def pl)
  moreover have "inj_on (page_loc (drop_page p s)) (cached s - {p})"
    using pages_coreD(5) [OF assms(1)] by (auto simp: inj_on_def pl)
  ultimately show "pages_core own sb (drop_page p s)"
    using pages_coreD(1-3,6,7) [OF assms(1)] by (auto simp: pages_core_def u(3,5) f)
  show "acache_ok own s L \<Longrightarrow> acache_ok own (drop_page p s) (L - {p})"
    using pl unfolding acache_ok_def by (auto simp: drop_page_def release_page_def)
qed

lemma pcache_put_LRU_ok:
  assumes "pages_core own sb s" "c_LRU (vs_pcache s) \<noteq> []"
  shows "pcache_put_LRU s = Some (drop_page (List.last (c_LRU (vs_pcache s))) s)" "List.last (c_LRU (vs_pcache s)) \<in> cached s"
proof -
  show l: "List.last (c_LRU (vs_pcache s)) \<in> cached s" using assms(2) by simp
  then show "pcache_put_LRU s = Some (drop_page (List.last (c_LRU (vs_pcache s))) s)"
    using pages_coreD(7) [OF assms(1) l] assms(2)
    by (auto simp: pcache_put_LRU_def drop_page_def page_ok_def P_CLEAR_def P_DIRTY_def Let_def)
qed

text \<open>Entering a page that is not in the cache; a full cache drops its least recently used page first.\<close>

definition make_room :: "vfs_state \<Rightarrow> vfs_state" where
  "make_room s = (if List.length (c_LRU (vs_pcache s)) = unat (c_capacity (vs_pcache s)) then drop_page (List.last (c_LRU (vs_pcache s))) s else s)"

lemma make_room_ok:
  assumes "pages_core own sb s"
  shows "pages_core own sb (make_room s)" "cached (make_room s) \<subseteq> cached s" "acache_ok own s (cached s) \<Longrightarrow> acache_ok own (make_room s) (cached (make_room s))"
    "List.length (c_LRU (vs_pcache (make_room s))) < unat (c_capacity (vs_pcache s))" "page_ok own sb (make_room s) g = page_ok own sb s g"
    "q \<notin> cached s \<Longrightarrow> vs_pages (make_room s) q = vs_pages s q" "q \<in> cached (make_room s) \<Longrightarrow> page_loc (make_room s) q = page_loc s q"
    "vs_disk (make_room s) = vs_disk s" "vs_next (make_room s) = vs_next s" "vs_inodes (make_room s) = vs_inodes s" "vs_sbs (make_room s) = vs_sbs s"
    "c_capacity (vs_pcache (make_room s)) = c_capacity (vs_pcache s)" "c_tablesize (vs_pcache (make_room s)) = c_tablesize (vs_pcache s)"
proof -
  let ?l = "List.last (c_LRU (vs_pcache s))"
  have full: "?l \<in> cached s" "make_room s = drop_page ?l s" if "List.length (c_LRU (vs_pcache s)) = unat (c_capacity (vs_pcache s))"
    using pages_coreD(3) [OF assms] that by (auto simp: make_room_def intro!: last_in_set)
  have room: "make_room s = s" if "List.length (c_LRU (vs_pcache s)) \<noteq> unat (c_capacity (vs_pcache s))" using that by (simp add: make_room_def)
  note le = chains_okD(5) [OF pages_coreD(4) [OF assms]]
  note d = drop_page_ok [OF assms full(1)]
  note u = chains_ok_unlink [OF pages_coreD(4) [OF assms] full(1)]
  show "pages_core own sb (make_room s)" "cached (make_room s) \<subseteq> cached s" "page_ok own sb (make_room s) g = page_ok own sb s g"
    "vs_disk (make_room s) = vs_disk s" "vs_next (make_room s) = vs_next s" "vs_inodes (make_room s) = vs_inodes s" "vs_sbs (make_room s) = vs_sbs s"
    using assms full room d by (auto simp: make_room_def)
  show "acache_ok own s (cached s) \<Longrightarrow> acache_ok own (make_room s) (cached (make_room s))"
    using full room d(2,3) by (metis (no_types, lifting))
  show "List.length (c_LRU (vs_pcache (make_room s))) < unat (c_capacity (vs_pcache s))"
    using full room u(2) le pages_coreD(3) [OF assms] by (cases "List.length (c_LRU (vs_pcache s)) = unat (c_capacity (vs_pcache s))") (auto simp: length_remove1)
  show "q \<notin> cached s \<Longrightarrow> vs_pages (make_room s) q = vs_pages s q"
    using full room by (cases "List.length (c_LRU (vs_pcache s)) = unat (c_capacity (vs_pcache s))") (auto intro: drop_page_fields(6))
  show "q \<in> cached (make_room s) \<Longrightarrow> page_loc (make_room s) q = page_loc s q"
    using full room d(2,4) by (cases "List.length (c_LRU (vs_pcache s)) = unat (c_capacity (vs_pcache s))") auto
  show "c_capacity (vs_pcache (make_room s)) = c_capacity (vs_pcache s)" "c_tablesize (vs_pcache (make_room s)) = c_tablesize (vs_pcache s)"
    using full room u(4,5) by (cases "List.length (c_LRU (vs_pcache s)) = unat (c_capacity (vs_pcache s))", auto)+
qed

lemma pcache_add_eq:
  assumes "pages_core own sb s" "vs_pages s p = Some g"
  shows "pcache_add p s = Some (let t = make_room s in t\<lparr>vs_pcache := link_new p (bucket s p) (vs_pcache t)\<rparr>)"
proof -
  have "bucket s p = unat (intHash (p_location g) (c_tablesize (vs_pcache s)))" using assms(2) by (simp add: bucket_def page_loc_def)
  moreover have "c_LRU (vs_pcache s) \<noteq> []" if "cache_is_full (vs_pcache s)"
    using that full_iff [OF pages_coreD(4) [OF assms(1)]] pages_coreD(3) [OF assms(1)] by auto
  ultimately show ?thesis
    using full_iff [OF pages_coreD(4) [OF assms(1)]] assms(2) pcache_put_LRU_ok(1) [OF assms(1)]
    by (simp add: pcache_add_def make_room_def Let_def)
qed

text \<open>Everything but the cache.\<close>

definition same_files :: "vfs_state \<Rightarrow> vfs_state \<Rightarrow> bool" where
  "same_files s s' \<longleftrightarrow> same_card (vs_disk s) (vs_disk s') \<and> vs_inodes s' = vs_inodes s \<and> vs_sbs s' = vs_sbs s
     \<and> c_capacity (vs_pcache s') = c_capacity (vs_pcache s) \<and> c_tablesize (vs_pcache s') = c_tablesize (vs_pcache s)"

lemma same_files_refl [simp]: "same_files s s"
  by (simp add: same_files_def)

lemma same_files_trans: "same_files s s' \<Longrightarrow> same_files s' s'' \<Longrightarrow> same_files s s''"
  by (auto simp: same_files_def intro: same_card_trans)

lemma same_filesD:
  assumes "same_files s s'"
  shows "loc_data s' = loc_data s" "loc_ok own sb s' = loc_ok own sb s" "disk_ok (vs_disk s') = disk_ok (vs_disk s)" "vs_inodes s' = vs_inodes s" "vs_sbs s' = vs_sbs s"
  using assms by (auto simp: same_files_def loc_data_def loc_ok_def fs_spb_def fs_sect_def same_cardD fun_eq_iff)

text \<open>The page of a block, when the cache has it.\<close>

definition has_page :: "vfs_state \<Rightarrow> u32 \<Rightarrow> bool" where
  "has_page s loc \<longleftrightarrow> (\<exists>q \<in> cached s. page_loc s q = loc)"

definition lru_after :: "vfs_state \<Rightarrow> u32 \<Rightarrow> nat \<Rightarrow> nat list" where
  "lru_after s loc p = p # (let l = c_LRU (vs_pcache s) in if has_page s loc then remove1 p l
     else if List.length l = unat (c_capacity (vs_pcache s)) then butlast l else l)"

definition found_page :: "(u32 \<Rightarrow> nat) \<Rightarrow> nat \<Rightarrow> vfs_state \<Rightarrow> nat \<Rightarrow> u32 \<Rightarrow> nat \<Rightarrow> vfs_state \<Rightarrow> bool" where
  "found_page own sb s host loc p s' \<longleftrightarrow> pages_ok own sb s' \<and> same_files s s' \<and> p \<in> cached s' \<and> page_loc s' p = loc
     \<and> (\<exists>g. vs_pages s' p = Some g \<and> p_host g = host \<and> p_data g = loc_data s sb loc) \<and> c_LRU (vs_pcache s') = lru_after s loc p"

text \<open>Changes of the cache alone.\<close>

lemma with_cache [simp]:
  "page_loc (s\<lparr>vs_pcache := c\<rparr>) = page_loc s" "page_ok own sb (s\<lparr>vs_pcache := c\<rparr>) g = page_ok own sb s g"
  "acache_ok own (s\<lparr>vs_pcache := c\<rparr>) L = acache_ok own s L" "c_tablesize c = c_tablesize (vs_pcache s) \<Longrightarrow> bucket (s\<lparr>vs_pcache := c\<rparr>) = bucket s"
  by (simp_all add: page_loc_def page_ok_def loc_ok_def loc_data_def fs_spb_def fs_sect_def acache_ok_def bucket_def fun_eq_iff)

lemma remove1_last: "distinct xs \<Longrightarrow> xs \<noteq> [] \<Longrightarrow> remove1 (List.last xs) xs = butlast xs"
  by (induction xs rule: rev_induct) (auto simp: remove1_append)

lemma look_up_hit:
  assumes "pages_ok own sb s" "p \<in> cached s" "page_loc s p = loc"
  shows "found_page own sb s (own loc) loc p (s\<lparr>vs_pcache := to_front p (bucket s p) (vs_pcache s)\<rparr>)"
proof -
  let ?s = "s\<lparr>vs_pcache := to_front p (bucket s p) (vs_pcache s)\<rparr>"
  have core: "pages_core own sb s" and ac: "acache_ok own s (cached s)" using assms(1) by (simp_all add: pages_ok_def)
  note t = chains_ok_to_front [OF pages_coreD(4) [OF core] assms(2)]
  have "pages_core own sb ?s"
    using pages_coreD [OF core] t(1,2,4,5) by (simp add: pages_core_def)
  moreover have "acache_ok own ?s (cached ?s)" using ac by (simp add: t(2))
  moreover have "same_files s ?s" by (simp add: same_files_def t)
  moreover obtain g where "vs_pages s p = Some g" "page_ok own sb s g" using pages_coreD(7) [OF core assms(2)] by blast
  ultimately show ?thesis
    using assms(2,3) t(2,3) by (auto simp: found_page_def pages_ok_def page_ok_def loc_ok_def page_loc_def lru_after_def has_page_def Let_def)
qed

lemma look_up_miss:
  assumes "pages_ok own sb s" "loc_ok own sb s host loc" "\<not> has_page s loc"
  shows "\<exists>p s'. pcache_look_up loc host s = Some (p, s') \<and> found_page own sb s host loc p s'"
proof -
  have core: "pages_core own sb s" and ac: "acache_ok own s (cached s)" using assms(1) by (simp_all add: pages_ok_def)
  have none: "find (page_is loc host s) (c_hashtable (vs_pcache s) h) = None" for h
    using assms(3) chains_okD(3) [OF pages_coreD(4) [OF core]]
    by (auto simp: find_None_iff has_page_def page_is_def page_loc_def split: option.splits)
  let ?p = "vs_next s"
  obtain d where al: "alloc_vfspage loc host s = Some (Inr ?p, (new_page sb loc host s)\<lparr>vs_disk := d\<rparr>)" and sd: "same_card (vs_disk s) d"
    using alloc_vfspage_ok [OF pages_coreD(1,2) [OF core] assms(2)] by blast
  define n where "n = (new_page sb loc host s)\<lparr>vs_disk := d\<rparr>"
  note np = new_page_ok [OF core ac assms(2)]
  have vd: "same_card (vs_disk (new_page sb loc host s)) d" using sd by (simp add: new_page_def)
  have n1: "vs_pcache n = vs_pcache s" "vs_inodes n = vs_inodes s" "vs_sbs n = vs_sbs s" "vs_disk n = d" "vs_next n = Suc ?p"
    "vs_pages n ?p = Some \<lparr>p_data = loc_data s sb loc, p_state = P_CLEAR, p_location = loc, p_host = host\<rparr>"
    by (simp_all add: n_def new_page_def)
  have n2: "pages_core own sb n" "acache_ok own n (cached n)" using np(1,2) pages_card [OF vd] by (simp_all add: n_def new_page_def)
  have lp: "page_loc n ?p = loc" by (simp add: page_loc_def n1)
  have ln: "page_loc n q = page_loc s q" if "q \<in> cached s" for q
    using np(4) that by (auto simp: page_loc_def n_def new_page_def)
  note r = make_room_ok [OF n2(1)]
  define t where "t = make_room n"
  define u where "u = t\<lparr>vs_pcache := link_new ?p (bucket n ?p) (vs_pcache t)\<rparr>"
  define v where "v = u\<lparr>vs_acache := (vs_acache u)(host := ?p # vs_acache u host)\<rparr>"
  have run: "pcache_look_up loc host s = Some (?p, v)"
    using pcache_add_eq [OF n2(1) n1(6)]
    by (simp add: pcache_look_up_def none al n_def [symmetric] v_def u_def t_def Let_def)
  have pn: "?p \<notin> cached t" "?p \<notin> cached n" using r(2) np(4) by (auto simp: t_def n1)
  have tp: "vs_pages t ?p = vs_pages n ?p" using r(6) [OF pn(2)] by (simp add: t_def)
  then have lt: "page_loc t ?p = loc" by (simp add: page_loc_def n1)
  have bt: "bucket t ?p = bucket n ?p" using r(13) by (simp add: bucket_def lp t_def lt [unfolded t_def])
  have tc: "pages_core own sb t" "acache_ok own t (cached t)" using r(1,3) n2 by (simp_all add: t_def)
  have room: "List.length (c_LRU (vs_pcache t)) < unat (c_capacity (vs_pcache t))" using r(4,12) by (simp add: t_def)
  note k = chains_ok_link_new [OF pages_coreD(4) [OF tc(1)] pn(1) room, unfolded bt]
  have po: "page_ok own sb t (the (vs_pages t ?p))"
  proof -
    have "page_ok own sb n (the (vs_pages n ?p))"
      using assms(2) sd by (simp add: n1(6) page_ok_def loc_ok_def n1 fs_spb_def loc_data_def fs_sect_def same_cardD(2))
    then show ?thesis using r(5) by (simp add: t_def tp [unfolded t_def])
  qed
  have cu: "cached u = insert ?p (cached t)" by (simp add: u_def k)
  have fresh1: "page_loc t q \<noteq> loc" if "q \<in> cached t" for q
  proof -
    have q: "q \<in> cached s" using that r(2) by (auto simp: t_def n1)
    then have "page_loc t q = page_loc s q" using r(7) [of q] that ln [OF q] by (simp add: t_def)
    then show ?thesis using q assms(3) by (auto simp: has_page_def)
  qed
  then have "loc \<notin> page_loc t ` (cached t - {?p})" by blast
  then have "inj_on (page_loc t) (insert ?p (cached t))" using pages_coreD(5) [OF tc(1)] by (simp only: inj_on_insert lt) simp
  then have uc: "pages_core own sb u"
    using pages_coreD(1-3,6,7) [OF tc(1)] k tp po r(9) by (auto simp: pages_core_def u_def n1 t_def [symmetric])
  have "acache_ok own v (cached v)"
  proof -
    have "vs_acache v = (vs_acache t)(host := ?p # vs_acache t host)" "page_loc v = page_loc t" "cached v = insert ?p (cached t)"
      using cu by (simp_all add: v_def u_def page_loc_def fun_eq_iff)
    moreover have "own loc = host" using assms(2) by (simp add: loc_ok_def)
    ultimately show ?thesis using tc(2) pn(1) lt by (auto simp: acache_ok_def)
  qed
  moreover have "pages_core own sb v"
  proof -
    have "page_ok own sb v = page_ok own sb u" "page_loc v = page_loc u"
      by (simp_all add: v_def page_ok_def loc_ok_def loc_data_def fs_spb_def fs_sect_def page_loc_def fun_eq_iff)
    moreover from this have "bucket v = bucket u" by (simp add: bucket_def v_def fun_eq_iff)
    ultimately show ?thesis using uc by (simp add: pages_core_def v_def)
  qed
  moreover have "same_files s v"
    using sd r(8-13) [folded t_def] n1 by (simp add: same_files_def v_def u_def k)
  moreover have "c_LRU (vs_pcache v) = lru_after s loc ?p"
  proof -
    have "c_LRU (vs_pcache t) = (if List.length (c_LRU (vs_pcache s)) = unat (c_capacity (vs_pcache s)) then butlast (c_LRU (vs_pcache s)) else c_LRU (vs_pcache s))"
      using chains_okD(1) [OF pages_coreD(4) [OF core]] pages_coreD(3) [OF core]
      by (auto simp: t_def make_room_def n1 unlink_def unhash_def intro!: remove1_last)
    then show ?thesis using assms(3) k(2) by (simp add: lru_after_def v_def u_def Let_def)
  qed
  moreover have "vs_pages v ?p = vs_pages n ?p" using tp by (simp add: v_def u_def)
  ultimately have "found_page own sb s host loc ?p v"
    using cu n1(6) by (simp add: found_page_def pages_ok_def v_def page_loc_def)
  then show ?thesis using run by blast
qed

lemma pcache_look_up_ok:
  assumes "pages_ok own sb s" "loc_ok own sb s host loc"
  shows "\<exists>p s'. pcache_look_up loc host s = Some (p, s') \<and> found_page own sb s host loc p s'"
proof (cases "has_page s loc")
  case False
  then show ?thesis using look_up_miss [OF assms] by blast
next
  case True
  have core: "pages_core own sb s" using assms(1) by (simp add: pages_ok_def)
  note ch = chains_okD(3) [OF pages_coreD(4) [OF core]]
  let ?h = "unat (intHash loc (c_tablesize (vs_pcache s)))"
  obtain q where q: "q \<in> cached s" "page_loc s q = loc" using True by (auto simp: has_page_def)
  obtain g where "vs_pages s q = Some g" "page_ok own sb s g" using pages_coreD(7) [OF core q(1)] by blast
  then have "page_is loc host s q" using q(2) assms(2) by (simp add: page_is_def page_loc_def page_ok_def loc_ok_def)
  moreover have "q \<in> set (c_hashtable (vs_pcache s) ?h)" using q by (simp add: ch bucket_def)
  ultimately obtain p where p: "find (page_is loc host s) (c_hashtable (vs_pcache s) ?h) = Some p"
    by (cases "find (page_is loc host s) (c_hashtable (vs_pcache s) ?h)") (auto simp: find_None_iff)
  then have pc: "p \<in> cached s" "page_is loc host s p" using ch by (auto simp: find_Some_iff) (metis nth_mem ch)
  then have pl: "page_loc s p = loc" by (auto simp: page_is_def page_loc_def split: option.splits)
  moreover have "own loc = host" using assms(2) by (simp add: loc_ok_def)
  moreover have "bucket s p = ?h" by (simp add: bucket_def pl)
  ultimately show ?thesis using look_up_hit [OF assms(1) pc(1) pl] p by (simp add: pcache_look_up_def)
qed

section \<open>Reading a page of a file\<close>

text \<open>Pages that \<open>ext2_bmap\<close> can map: those below the last triply indirect block.\<close>

definition file_ok :: "nat \<Rightarrow> vfs_state \<Rightarrow> nat \<Rightarrow> bool" where
  "file_ok sb s host \<longleftrightarrow> host \<noteq> NULL \<and> i_sb (vs_inodes s host) = sb \<and> i_blksize (vs_inodes s host) = ex_blksize (vs_sbs s sb)
     \<and> List.length (i_page (vs_inodes s host)) = 15"

definition page_limit :: "vfs_state \<Rightarrow> nat \<Rightarrow> nat" where
  "page_limit s sb = (let e = unat (ex_blksize (vs_sbs s sb)) div 4 in 12 + e + e ^ 2 + e ^ 3)"

abbreviation block_of :: "vfs_state \<Rightarrow> nat \<Rightarrow> nat \<Rightarrow> u32" where
  "block_of s host n \<equiv> file_block (vs_disk s) (vs_inodes s host) n"

lemma bmap_ok:
  assumes "pages_ok own sb s" "file_ok sb s host" "unat n < page_limit s sb"
  obtains d where "ext2_bmap host n s = Some (block_of s host (unat n), s\<lparr>vs_disk := d\<rparr>)" "same_card (vs_disk s) d" "pages_ok own sb (s\<lparr>vs_disk := d\<rparr>)"
proof -
  have c: "disk_ok (vs_disk s)" "blksize_ok (ex_blksize (vs_sbs s sb))" using assms(1) by (auto simp: pages_ok_def pages_core_def)
  obtain d where "ext2_bmap host n s = Some (block_of s host (unat n), s\<lparr>vs_disk := d\<rparr>)" "same_card (vs_disk s) d"
    using bmap_tree [OF c(1), of host "unat (ex_blksize (vs_sbs s sb)) div 4" n] assms(2,3) c(2)
    by (auto simp: file_ok_def page_limit_def Let_def)
  then show ?thesis using that assms(1) pages_card by (simp add: pages_ok_def)
qed

lemma get_page_ok:
  assumes "pages_ok own sb s" "file_ok sb s host" "unat n < page_limit s sb"
    and "b = block_of s host (unat n)" "b \<noteq> 0 \<Longrightarrow> loc_ok own sb s host b"
  shows "\<exists>r s'. pcache_get_page host n s = Some (r, s') \<and>
    (if b = 0 then r = Inl (- EINVAL) \<and> pages_ok own sb s' \<and> same_files s s' \<and> vs_pcache s' = vs_pcache s
     else \<exists>p. r = Inr p \<and> found_page own sb s host b p s')"
proof -
  obtain d where d: "ext2_bmap host n s = Some (b, s\<lparr>vs_disk := d\<rparr>)" "same_card (vs_disk s) d" "pages_ok own sb (s\<lparr>vs_disk := d\<rparr>)"
    using bmap_ok [OF assms(1-3)] assms(4) by metis
  let ?s = "s\<lparr>vs_disk := d\<rparr>"
  show ?thesis
  proof (cases "b = 0")
    case True
    then show ?thesis using d by (simp add: pcache_get_page_def same_files_def)
  next
    case False
    then have "loc_ok own sb ?s host b" using assms(5) pages_card [OF d(2)] by simp
    then obtain p s' where "pcache_look_up b host ?s = Some (p, s')" "found_page own sb ?s host b p s'"
      using pcache_look_up_ok [OF d(3)] by blast
    moreover have "found_page own sb ?s host b p s' = found_page own sb s host b p s'"
    proof -
      have "has_page ?s b = has_page s b" by (simp add: has_page_def page_loc_def)
      moreover have "same_files ?s s' = same_files s s'"
        using d(2) by (auto simp: same_files_def same_card_def)
      ultimately show ?thesis using pages_card [OF d(2)] by (simp add: found_page_def lru_after_def Let_def)
    qed
    ultimately show ?thesis using False d(1) by (simp add: pcache_get_page_def)
  qed
qed

section \<open>Writing a page through\<close>

definition loc_fits :: "vfs_state \<Rightarrow> nat \<Rightarrow> u32 \<Rightarrow> bool" where
  "loc_fits s sb loc \<longleftrightarrow> unat (ex_base (vs_sbs s sb)) + (unat loc + 1) * fs_spb s sb \<le> 2 ^ 32"

lemma fs_sect_nat:
  assumes "blksize_ok (ex_blksize (vs_sbs s sb))" "loc_fits s sb loc" "i < fs_spb s sb"
  shows "unat (fs_sect s sb loc + of_nat i) = unat (ex_base (vs_sbs s sb)) + unat loc * fs_spb s sb + i"
proof -
  have "unat (ex_base (vs_sbs s sb)) + unat loc * fs_spb s sb + i < 2 ^ 32" using assms(2,3) by (simp add: loc_fits_def)
  moreover have "unat (of_nat i :: u32) = i" using calculation by (simp add: unat_of_nat_u32)
  moreover have "unat (drop_bit SECTOR_SHIFT (ex_blksize (vs_sbs s sb))) = fs_spb s sb" using blksize_okD(1) [OF assms(1)] by (simp add: fs_spb_def)
  ultimately show ?thesis by (simp add: fs_sect_def unat_word_ariths mod_simps)
qed

text \<open>The sectors of different blocks are disjoint.\<close>

lemma sectors_disjoint:
  assumes "blksize_ok (ex_blksize (vs_sbs s sb))" "loc_fits s sb loc" "loc_fits s sb loc'" "loc \<noteq> loc'" "i < fs_spb s sb"
  shows "fs_spb s sb \<le> unat (fs_sect s sb loc' + of_nat i - fs_sect s sb loc)"
proof -
  let ?b = "unat (ex_base (vs_sbs s sb))" and ?n = "fs_spb s sb"
  have n0: "0 < ?n" using assms(5) by simp
  have x: "unat (fs_sect s sb loc' + of_nat i) = ?b + unat loc' * ?n + i" by (rule fs_sect_nat [OF assms(1,3,5)])
  have y: "unat (fs_sect s sb loc) = ?b + unat loc * ?n" using fs_sect_nat [OF assms(1,2) n0] by simp
  show ?thesis
  proof (cases "unat loc < unat loc'")
    case True
    then have "(unat loc + 1) * ?n \<le> unat loc' * ?n" by (intro mult_le_mono1) simp
    then show ?thesis using unat_sub [of "fs_sect s sb loc" "fs_sect s sb loc' + of_nat i"] x y by (simp add: word_le_nat_alt)
  next
    case False
    then have "unat loc' < unat loc" using assms(4) by (simp add: word_unat_eq_iff)
    then have "(unat loc' + 1) * ?n \<le> unat loc * ?n" by (intro mult_le_mono1) simp
    then have lt: "unat (fs_sect s sb loc' + of_nat i) < unat (fs_sect s sb loc)" using x y assms(5) by simp
    have m: "unat (p - q) = 2 ^ 32 + unat p - unat q" if "unat p < unat q" for p q :: u32
      using that unsigned_less [of q] by (simp add: unat_sub_if_size word_size)
    show ?thesis using m [OF lt] x y assms(2) by (simp add: loc_fits_def)
  qed
qed

definition put_page :: "nat \<Rightarrow> u8 list \<Rightarrow> vfs_state \<Rightarrow> (u32 \<times> vfs_state) option" where
  "put_page p xs s = ext2_writepage p (upd_page p (\<lambda>g. g\<lparr>p_data := xs\<rparr>) s)"

lemma put_page_ok:
  assumes "pages_ok own sb s" "p \<in> cached s" "List.length xs = fs_spb s sb * SECSIZE"
  shows "\<exists>s'. put_page p xs s = Some (0, s') \<and> pages_ok own sb s' \<and> vs_inodes s' = vs_inodes s \<and> vs_sbs s' = vs_sbs s \<and> vs_pcache s' = vs_pcache s
    \<and> page_loc s' = page_loc s \<and> sectors (vs_disk s') = written (fs_sect s sb (page_loc s p)) (fs_spb s sb) xs (sectors (vs_disk s))
    \<and> (\<forall>loc. loc_fits s sb loc \<longrightarrow> loc_data s' sb loc = (if loc = page_loc s p then xs else loc_data s sb loc))"
proof -
  have core: "pages_core own sb s" and ac: "acache_ok own s (cached s)" using assms(1) by (simp_all add: pages_ok_def)
  note c = pages_coreD [OF core]
  obtain g where g: "vs_pages s p = Some g" "page_ok own sb s g" using c(7) [OF assms(2)] by blast
  let ?loc = "p_location g"
  have pl: "page_loc s p = ?loc" by (simp add: page_loc_def g)
  have lo: "loc_ok own sb s (p_host g) ?loc" using g(2) by (simp add: page_ok_def)
  note l = loc_okD [OF lo c(2)]
  have fits: "loc_fits s sb ?loc" using lo by (simp add: loc_ok_def loc_fits_def)
  let ?n = "drop_bit SECTOR_SHIFT (i_blksize (vs_inodes s (p_host g)))"
  obtain d where d: "write_block xs (fs_sect s sb ?loc) ?n (vs_disk s) = (0, d)"
    "sectors d = written (fs_sect s sb ?loc) (unat ?n) xs (sectors (vs_disk s))" "sd_status d = sd_status (vs_disk s)"
    using write_block_ok [OF c(1), of xs ?n "fs_sect s sb ?loc"] assms(3) l(5) by auto
  define t where "t = (upd_page p (\<lambda>g. g\<lparr>p_data := xs\<rparr>) s)\<lparr>vs_disk := d\<rparr>"
  have t: "vs_inodes t = vs_inodes s" "vs_sbs t = vs_sbs s" "vs_pcache t = vs_pcache s" "vs_next t = vs_next s" "vs_disk t = d" "vs_acache t = vs_acache s"
    "vs_pages t = (vs_pages s)(p \<mapsto> g\<lparr>p_data := xs\<rparr>)" by (simp_all add: t_def upd_page_def g)
  have "ext2_sector (upd_page p (\<lambda>g. g\<lparr>p_data := xs\<rparr>) s) = ext2_sector s" by (simp add: ext2_sector_def upd_page_def fun_eq_iff)
  then have run: "put_page p xs s = Some (0, t)"
    using d(1) l by (simp add: put_page_def ext2_writepage_def t_def upd_page_def g Let_def)
  have pt: "page_loc t = page_loc s" by (auto simp: page_loc_def t g fun_eq_iff)
  have dok: "disk_ok d" by (rule written_ok [OF c(1) _ d(2,3)]) (simp add: assms(3) l(5))
  have n32: "fs_spb s sb < 2 ^ 32" using blksize_okD(5) [OF c(2)] by (simp add: fs_spb_def)
  have data: "loc_data t sb loc = (if loc = ?loc then xs else loc_data s sb loc)" if "loc_fits s sb loc" for loc
  proof (cases "loc = ?loc")
    case True
    then show ?thesis using block_bytes_written [OF d(2)] assms(3) n32 by (simp add: loc_data_def t l(5) fs_sect_def fs_spb_def)
  next
    case False
    have "\<forall>i < fs_spb s sb. fs_spb s sb \<le> unat (fs_sect s sb loc + of_nat i - fs_sect s sb ?loc)"
      using sectors_disjoint [OF c(2) fits that] False by auto
    then have "block_bytes d (fs_sect s sb loc) (fs_spb s sb) = block_bytes (vs_disk s) (fs_sect s sb loc) (fs_spb s sb)"
      by (intro block_bytes_disjoint [OF d(2)]) (simp add: l(5))
    then show ?thesis using False by (simp add: loc_data_def t fs_sect_def fs_spb_def)
  qed
  have lk: "loc_ok own sb t = loc_ok own sb s" by (simp add: loc_ok_def fs_spb_def t fun_eq_iff)
  have pg: "\<exists>g. vs_pages t q = Some g \<and> page_ok own sb t g" if q: "q \<in> cached s" for q
  proof -
    obtain gq where gq: "vs_pages s q = Some gq" "page_ok own sb s gq" using c(7) [OF q] by blast
    have f: "loc_fits s sb (p_location gq)" using gq(2) by (simp add: page_ok_def loc_ok_def loc_fits_def)
    have "p_location gq = ?loc \<longleftrightarrow> q = p" using inj_onD [OF c(5) _ q assms(2)] gq(1) g(1) by (auto simp: page_loc_def)
    then have "p_data (if q = p then g\<lparr>p_data := xs\<rparr> else gq) = loc_data t sb (p_location gq)"
      using gq(2) g(1) by (simp only: data [OF f]) (simp add: page_ok_def)
    moreover have "vs_pages t q = Some (if q = p then g\<lparr>p_data := xs\<rparr> else gq)" using gq(1) by (simp add: t(7))
    moreover have "q = p \<Longrightarrow> gq = g" using gq(1) g(1) by simp
    ultimately show ?thesis using gq(2) by (auto simp: page_ok_def lk)
  qed
  have "bucket t = bucket s" by (simp add: bucket_def pt t fun_eq_iff)
  then have ch: "chains_ok (vs_pcache s) (bucket t)" "inj_on (page_loc t) (cached s)" by (simp_all only: c(4,5) pt)
  have "\<forall>q \<in> cached s. q < vs_next s \<and> (\<exists>g. vs_pages t q = Some g \<and> page_ok own sb t g)"
    by (intro ballI conjI c(6) pg)
  then have "pages_core own sb t" unfolding pages_core_def t(2-5) by (intro conjI dok c(2,3) ch)
  moreover have "acache_ok own t (cached t)" using ac by (simp add: acache_ok_def t pt)
  ultimately have "pages_ok own sb t" by (simp add: pages_ok_def)
  then show ?thesis using run data d(2) by (intro exI [of _ t]) (simp add: t pt pl l(5))
qed

section \<open>Properties\<close>

text \<open>A file of one block on a small card, and an empty cache.\<close>

definition sample_fs :: vfs_state where
  "sample_fs = init_pcache \<lparr>
     vs_disk = \<lparr>sectors = (\<lambda>k. replicate SECSIZE (ucast k)), sd_status = (\<lambda>_. 1), sd_ie = False\<rparr>,
     vs_next = 1, vs_pages = Map.empty,
     vs_inodes = (\<lambda>_. \<lparr>i_ino = 12, i_count = 1, i_blocks = 2, i_blkbits = 10, i_blksize = 1024, i_size = 1000, i_mode = 0x8000, i_op = File_ops, i_sb = 0,
       i_page = 5 # 6 # replicate 13 0\<rparr>),
     vs_sbs = (\<lambda>_. \<lparr>ex_base = 0, ex_first_sb_sect = 2, ex_first_gdt_sect = 4, ex_blksize = 1024, s_groups_count = 1, s_desc_per_block = 32, sb_data = []\<rparr>),
     vs_pcache = \<lparr>c_size = 0, c_capacity = 0, c_tablesize = 0, c_LRU = [], c_hashtable = (\<lambda>_. [])\<rparr>,
     vs_acache = (\<lambda>_. [])\<rparr>"

lemma sample_fs_fields [simp]:
  "vs_disk sample_fs = \<lparr>sectors = (\<lambda>k. replicate SECSIZE (ucast k)), sd_status = (\<lambda>_. 1), sd_ie = False\<rparr>" "vs_next sample_fs = 1"
  "vs_inodes sample_fs h = \<lparr>i_ino = 12, i_count = 1, i_blocks = 2, i_blkbits = 10, i_blksize = 1024, i_size = 1000, i_mode = 0x8000, i_op = File_ops, i_sb = 0,
     i_page = 5 # 6 # replicate 13 0\<rparr>"
  "vs_sbs sample_fs b = \<lparr>ex_base = 0, ex_first_sb_sect = 2, ex_first_gdt_sect = 4, ex_blksize = 1024, s_groups_count = 1, s_desc_per_block = 32, sb_data = []\<rparr>"
  "c_LRU (vs_pcache sample_fs) = []" "c_capacity (vs_pcache sample_fs) = 64" "vs_acache sample_fs h = []"
  by (simp_all add: sample_fs_def init_pcache_def cache_init_def PCACHE_CAPACITY_def)

lemma sample_fs_ok: "pages_ok (\<lambda>_. 1) 0 sample_fs" "file_ok 0 sample_fs 1" "loc_ok (\<lambda>_. 1) 0 sample_fs 1 5" "loc_ok (\<lambda>_. 1) 0 sample_fs 1 6"
proof -
  have "chains_ok (vs_pcache sample_fs) (bucket sample_fs)"
    by (simp add: sample_fs_def init_pcache_def) (intro chains_ok_init [OF refl], simp)
  then have "pages_core (\<lambda>_. 1) 0 sample_fs" by (simp add: pages_core_def disk_ok_def blksize_ok_def)
  then show "pages_ok (\<lambda>_. 1) 0 sample_fs" by (simp add: pages_ok_def acache_ok_def)
  show "file_ok 0 sample_fs 1" by (simp add: file_ok_def)
  show "loc_ok (\<lambda>_. 1) 0 sample_fs 1 5" "loc_ok (\<lambda>_. 1) 0 sample_fs 1 6" by (simp_all add: loc_ok_def fs_spb_def SECSIZE_def)
qed

lemma sample_block: "block_of sample_fs 1 0 = 5" "block_of sample_fs 1 1 = 6"
  by (simp_all add: file_block_def block_tree_def)

text \<open>C40: with a consistent cache, reading a page of a file that has a block returns a page holding exactly the bytes of that block on the card, now the most recently used one; a cache that was full has dropped its least recently used page, the cache stays consistent and within its capacity, and nothing on the card changes.\<close>

theorem pcache_get_page_correct:
  assumes "pages_ok own sb s" "file_ok sb s host" "unat n < page_limit s sb"
    and "b = block_of s host (unat n)" "b \<noteq> 0" "loc_ok own sb s host b"
  shows "\<exists>p s' g. pcache_get_page host n s = Some (Inr p, s') \<and> pages_ok own sb s' \<and> vs_pages s' p = Some g
    \<and> p_data g = block_bytes (vs_disk s) (fs_sect s sb b) (fs_spb s sb) \<and> p_location g = b \<and> p_host g = host
    \<and> c_LRU (vs_pcache s') = lru_after s b p \<and> List.length (c_LRU (vs_pcache s')) \<le> unat (c_capacity (vs_pcache s)) \<and> sectors (vs_disk s') = sectors (vs_disk s)"
proof -
  obtain p s' where r: "pcache_get_page host n s = Some (Inr p, s')" and f: "found_page own sb s host b p s'"
    using get_page_ok [OF assms(1-4)] assms(5,6) by auto
  have "List.length (c_LRU (vs_pcache s')) \<le> unat (c_capacity (vs_pcache s'))"
    using f chains_okD(5) pages_coreD(4) unfolding found_page_def pages_ok_def by blast
  then show ?thesis
    using f r by (auto simp: found_page_def loc_data_def same_files_def same_card_def page_loc_def split: option.splits)
qed

theorem pcache_get_page_correct_witness:
  "\<exists>p s' g. pcache_get_page 1 0 sample_fs = Some (Inr p, s') \<and> vs_pages s' p = Some g
     \<and> p_data g = replicate 512 10 @ replicate 512 11 \<and> c_LRU (vs_pcache s') = [p]"
proof -
  have "block_bytes (vs_disk sample_fs) (fs_sect sample_fs 0 5) (fs_spb sample_fs 0) = replicate 512 10 @ replicate 512 11"
    by (simp add: fs_sect_def fs_spb_def block_bytes_def SECTOR_SHIFT_def SECSIZE_def upt_rec)
  moreover have "lru_after sample_fs 5 p = [p]" for p by (simp add: lru_after_def has_page_def)
  moreover have "unat (0 :: u32) < page_limit sample_fs 0" "5 = block_of sample_fs 1 (unat (0 :: u32))" "(5 :: u32) \<noteq> 0"
    using sample_block by (simp_all add: page_limit_def)
  note pcache_get_page_correct [OF sample_fs_ok(1,2) this sample_fs_ok(3)]
  ultimately show ?thesis by metis
qed

end
