(* ===== verification/Ext2.thy ===== *)
theory Ext2
  imports PageCache
begin

text \<open>
  The metadata of the EXT2 driver: super block and group descriptors (\<open>kernel/vfs/ext2/super.c\<close>, \<open>block.c\<close>), inodes on the
  card (\<open>inode.c\<close>, \<open>ext2_write_inode\<close> of \<open>ext2.c\<close>), and the allocation of inodes and blocks (\<open>inode.c\<close>, \<open>data_block.c\<close>).
  Structures are read and written in place in byte buffers, at the offsets of their fields. A local buffer whose
  transfer fails holds garbage; where the code goes on with it all the same, the model has no result.
\<close>

section \<open>Structures in buffers\<close>

abbreviation (input) bytes_at :: "u8 list \<Rightarrow> nat \<Rightarrow> u8" where
  "bytes_at buf \<equiv> (\<lambda>a. buf ! a)"

definition le16 :: "nat \<Rightarrow> u8 list \<Rightarrow> u16" where
  "le16 off buf = get_u16 off (bytes_at buf)"

definition le32 :: "nat \<Rightarrow> u8 list \<Rightarrow> u32" where
  "le32 off buf = get_u32 off (bytes_at buf)"

text \<open>An update of a memory, applied to a buffer.\<close>

definition on_bytes :: "((nat \<Rightarrow> u8) \<Rightarrow> nat \<Rightarrow> u8) \<Rightarrow> u8 list \<Rightarrow> u8 list" where
  "on_bytes f buf = map (f (bytes_at buf)) [0..<List.length buf]"

definition set_le16 :: "nat \<Rightarrow> u16 \<Rightarrow> u8 list \<Rightarrow> u8 list" where
  "set_le16 off v = on_bytes (set_u16 off v)"

definition set_le32 :: "nat \<Rightarrow> u32 \<Rightarrow> u8 list \<Rightarrow> u8 list" where
  "set_le32 off v = on_bytes (set_u32 off v)"

text \<open>Fields of \<open>struct ext2_super_block\<close>.\<close>

definition s_inodes_count :: "ext2_base_information \<Rightarrow> u32" where "s_inodes_count sb = le32 0 (sb_data sb)"
definition s_blocks_per_group :: "ext2_base_information \<Rightarrow> u32" where "s_blocks_per_group sb = le32 32 (sb_data sb)"
definition s_inodes_per_group :: "ext2_base_information \<Rightarrow> u32" where "s_inodes_per_group sb = le32 40 (sb_data sb)"
definition s_inode_size :: "ext2_base_information \<Rightarrow> u32" where "s_inode_size sb = ucast (le16 88 (sb_data sb))"

text \<open>Fields of \<open>struct ext2_group_desc\<close>, 32 bytes.\<close>

definition bg_block_bitmap :: "u8 list \<Rightarrow> u32" where "bg_block_bitmap g = le32 0 g"
definition bg_inode_bitmap :: "u8 list \<Rightarrow> u32" where "bg_inode_bitmap g = le32 4 g"
definition bg_inode_table :: "u8 list \<Rightarrow> u32" where "bg_inode_table g = le32 8 g"
definition bg_free_blocks_count :: "u8 list \<Rightarrow> u16" where "bg_free_blocks_count g = le16 12 g"
definition bg_free_inodes_count :: "u8 list \<Rightarrow> u16" where "bg_free_inodes_count g = le16 14 g"
definition bg_used_dirs_count :: "u8 list \<Rightarrow> u16" where "bg_used_dirs_count g = le16 16 g"

definition GROUPS_PER_SECT :: u32 where "GROUPS_PER_SECT = 16"
definition GROUP_DESC_BYTE :: u32 where "GROUP_DESC_BYTE = 32"
definition EXT2_FIRST_INO :: u32 where "EXT2_FIRST_INO = 11"
definition EXT2_N_BLOCKS :: nat where "EXT2_N_BLOCKS = 15"
definition ENOSPC :: u32 where "ENOSPC = 28"
definition S_IFMT :: u32 where "S_IFMT = 0xF000"
definition S_IFDIR :: u32 where "S_IFDIR = 0x4000"
definition S_IFREG :: u32 where "S_IFREG = 0x8000"

definition S_ISDIR :: "u32 \<Rightarrow> bool" where
  "S_ISDIR m \<longleftrightarrow> m AND S_IFMT = S_IFDIR"

section \<open>Reading and writing sectors of the metadata\<close>

text \<open>\<open>n\<close> sectors into a fresh buffer; the flag is the error result of \<open>read_block\<close>.\<close>

definition read_sects :: "u32 \<Rightarrow> u32 \<Rightarrow> vfs_state \<Rightarrow> bool \<times> u8 list \<times> vfs_state" where
  "read_sects sect n s =
     (let (err, buf, d) = read_block (replicate (unat n * SECSIZE) 0) sect n (vs_disk s) in (err \<noteq> 0, buf, s\<lparr>vs_disk := d\<rparr>))"

definition write_sects :: "u8 list \<Rightarrow> u32 \<Rightarrow> u32 \<Rightarrow> vfs_state \<Rightarrow> bool \<times> vfs_state" where
  "write_sects buf sect n s = (let (err, d) = write_block buf sect n (vs_disk s) in (err \<noteq> 0, s\<lparr>vs_disk := d\<rparr>))"

section \<open>Group descriptors\<close>

definition group_of :: "ext2_base_information \<Rightarrow> u32 \<Rightarrow> bool \<Rightarrow> u32" where
  "group_of sb ino flag = (if flag then ino else (ino - 1) div s_inodes_per_group sb)"

definition ext2_get_group_desc :: "ext2_base_information \<Rightarrow> u32 \<Rightarrow> bool \<Rightarrow> vfs_state \<Rightarrow> (u8 list option \<times> vfs_state) option" where
  "ext2_get_group_desc sb ino flag s = do {
     _ \<leftarrow> c_guard (flag \<or> s_inodes_per_group sb \<noteq> 0);
     let group_no = group_of sb ino flag;
     let group_gdt_sect = ex_first_gdt_sect sb + group_no div GROUPS_PER_SECT;
     let group_offset = group_no mod GROUPS_PER_SECT * GROUP_DESC_BYTE;
     let (err, buf, s) = read_sects group_gdt_sect 1 s;
     Some (if err then None else Some (take (unat GROUP_DESC_BYTE) (drop (unat group_offset) buf)), s)
   }"

definition ext2_write_group_desc :: "u8 list \<Rightarrow> ext2_base_information \<Rightarrow> u32 \<Rightarrow> bool \<Rightarrow> vfs_state \<Rightarrow> vfs_state option" where
  "ext2_write_group_desc gdt sb ino flag s = do {
     _ \<leftarrow> c_guard (flag \<or> s_inodes_per_group sb \<noteq> 0);
     let group_no = group_of sb ino flag;
     let group_gdt_sect = ex_first_gdt_sect sb + group_no div GROUPS_PER_SECT;
     let group_offset = group_no mod GROUPS_PER_SECT * GROUP_DESC_BYTE;
     let (err, buf, s) = read_sects group_gdt_sect 1 s;
     _ \<leftarrow> c_guard (\<not> err);
     let buf = put_bytes (unat group_offset) gdt buf;
     let (err, s) = write_sects buf group_gdt_sect 1 s;
     Some s
   }"

text \<open>0 stands for an error; the sector of the block bit map of the group.\<close>

definition ext2_group_base_sect :: "inode \<Rightarrow> vfs_state \<Rightarrow> (u32 \<times> vfs_state) option" where
  "ext2_group_base_sect inode s = do {
     let sb = vs_sbs s (i_sb inode);
     (gdt, s) \<leftarrow> ext2_get_group_desc sb (i_ino inode) False s;
     case gdt of
       None \<Rightarrow> Some (0, s)
     | Some g \<Rightarrow> Some (ex_base sb + bg_block_bitmap g * drop_bit SECTOR_SHIFT (i_blksize inode), s)
   }"

section \<open>Inode bit map\<close>

definition inode_bit :: "ext2_base_information \<Rightarrow> u32 \<Rightarrow> u32" where
  "inode_bit sb ino = (ino - 1) mod s_inodes_per_group sb mod (4096 * 8)"

definition bitmap_sect :: "ext2_base_information \<Rightarrow> inode \<Rightarrow> u8 list \<Rightarrow> u32" where
  "bitmap_sect sb inode gdt = ex_base sb + bg_inode_bitmap gdt * drop_bit SECTOR_SHIFT (i_blksize inode)"

definition ext2_check_inode_bitmap :: "inode \<Rightarrow> vfs_state \<Rightarrow> (u32 \<times> vfs_state) option" where
  "ext2_check_inode_bitmap inode s = do {
     let sb = vs_sbs s (i_sb inode);
     (gdt, s) \<leftarrow> ext2_get_group_desc sb (i_ino inode) False s;
     case gdt of
       None \<Rightarrow> Some (0, s)
     | Some gdt \<Rightarrow>
         let (err, buf, s) = read_sects (bitmap_sect sb inode gdt) 8 s
         in Some (if err then 0 else get_bit 0 (inode_bit sb (i_ino inode)) (bytes_at buf), s)
   }"

text \<open>On success the function ends without a \<open>return\<close>: its result is not a value, and no caller uses it.\<close>

definition ext2_set_inode_bitmap :: "inode \<Rightarrow> vfs_state \<Rightarrow> vfs_state option" where
  "ext2_set_inode_bitmap inode s = do {
     let sb = vs_sbs s (i_sb inode);
     (gdt, s) \<leftarrow> ext2_get_group_desc sb (i_ino inode) False s;
     case gdt of
       None \<Rightarrow> Some s
     | Some gdt \<Rightarrow>
         let sect = bitmap_sect sb inode gdt; (err, buf, s) = read_sects sect 8 s
         in if err then Some s
            else let buf = on_bytes (set_bitmap_bit 0 (inode_bit sb (i_ino inode))) buf; (err, s) = write_sects buf sect 8 s
                 in Some s
   }"

section \<open>Inodes on the card\<close>

definition inodes_per_sect :: "ext2_base_information \<Rightarrow> u32" where
  "inodes_per_sect sb = 512 div s_inode_size sb"

definition inode_sect :: "ext2_base_information \<Rightarrow> inode \<Rightarrow> u32 \<Rightarrow> u32" where
  "inode_sect sb inode base = base + 2 * drop_bit SECTOR_SHIFT (i_blksize inode)
     + (i_ino inode - 1) mod s_inodes_per_group sb div inodes_per_sect sb"

definition inode_offset :: "ext2_base_information \<Rightarrow> u32 \<Rightarrow> nat" where
  "inode_offset sb ino = unat ((ino - 1) mod s_inodes_per_group sb mod inodes_per_sect sb * s_inode_size sb)"

text \<open>No inode table can be used when the sizes in the super block are 0 or an inode is larger than a sector.\<close>

definition sizes_ok :: "ext2_base_information \<Rightarrow> bool" where
  "sizes_ok sb \<longleftrightarrow> s_inodes_per_group sb \<noteq> 0 \<and> s_inode_size sb \<noteq> 0 \<and> inodes_per_sect sb \<noteq> 0"

definition upd_inode :: "nat \<Rightarrow> (inode \<Rightarrow> inode) \<Rightarrow> vfs_state \<Rightarrow> vfs_state" where
  "upd_inode host f s = s\<lparr>vs_inodes := (vs_inodes s)(host := f (vs_inodes s host))\<rparr>"

text \<open>\<open>struct ext2_inode\<close>: \<open>i_mode\<close> at 0, \<open>i_size\<close> at 4, \<open>i_blocks\<close> at 28, \<open>i_block\<close> at 40.\<close>

definition ext2_fill_inode :: "nat \<Rightarrow> vfs_state \<Rightarrow> (u32 \<times> vfs_state) option" where
  "ext2_fill_inode host s = do {
     let inode = vs_inodes s host;
     if i_ino inode = 0 then Some (- EINVAL, s)
     else do {
       (base, s) \<leftarrow> ext2_group_base_sect inode s;
       if base = 0 then Some (- EIO, s)
       else do {
         let sb = vs_sbs s (i_sb inode);
         _ \<leftarrow> c_guard (sizes_ok sb);
         let (err, buf, s) = read_sects (inode_sect sb inode base) 1 s;
         if err then Some (- EIO, s)
         else do {
           let off = unat ((i_ino inode - 1) mod inodes_per_sect sb * s_inode_size sb);
           let mode = ucast (le16 off buf);
           Some (0, upd_inode host (\<lambda>n. n\<lparr>i_blocks := le32 (off + 28) buf, i_size := le32 (off + 4) buf, i_mode := mode,
             i_op := (if S_ISDIR mode then Dir_ops else File_ops),
             i_page := map (\<lambda>i. le32 (off + 40 + 4 * i) buf) [0..<EXT2_N_BLOCKS]\<rparr>) (s\<lparr>vs_acache := (vs_acache s)(host := [])\<rparr>))
         }
       }
     }
   }"

definition set_blocks :: "nat \<Rightarrow> u32 list \<Rightarrow> u8 list \<Rightarrow> u8 list" where
  "set_blocks off bs buf = fold (\<lambda>i. set_le32 (off + 4 * i) (bs ! i)) [0..<EXT2_N_BLOCKS] buf"

definition ext2_reset_inode :: "nat \<Rightarrow> vfs_state \<Rightarrow> vfs_state option" where
  "ext2_reset_inode host s = do {
     let inode = vs_inodes s host;
     if i_ino inode = 0 then Some s
     else do {
       (base, s) \<leftarrow> ext2_group_base_sect inode s;
       if base = 0 then Some s
       else do {
         let sb = vs_sbs s (i_sb inode);
         _ \<leftarrow> c_guard (sizes_ok sb \<and> List.length (i_page inode) = EXT2_N_BLOCKS);
         let sect = inode_sect sb inode base;
         let (err, buf, s) = read_sects sect 1 s;
         _ \<leftarrow> c_guard (\<not> err);
         let off = inode_offset sb (i_ino inode);
         let buf = set_le32 (off + 4) (i_size inode) buf;
         let buf = set_le32 (off + 28) (i_blocks inode) buf;
         let buf = set_le16 off (ucast (i_mode inode)) buf;
         let buf = set_blocks (off + 40) (i_page inode) buf;
         let (err, s) = write_sects buf sect 1 s;
         Some s
       }
     }
   }"

definition ext2_write_inode :: "nat \<Rightarrow> vfs_state \<Rightarrow> (u32 \<times> vfs_state) option" where
  "ext2_write_inode host s = do {
     let inode = vs_inodes s host;
     (base, s) \<leftarrow> ext2_group_base_sect inode s;
     if base = 0 then Some (- EIO, s)
     else do {
       let sb = vs_sbs s (i_sb inode);
       _ \<leftarrow> c_guard (sizes_ok sb);
       let sect = inode_sect sb inode base;
       let (err, buf, s) = read_sects sect 1 s;
       if err then Some (- EIO, s)
       else do {
         let buf = set_le32 (inode_offset sb (i_ino inode) + 4) (i_size inode) buf;
         let (err, s) = write_sects buf sect 1 s;
         Some (if err then - EIO else 0, s)
       }
     }
   }"

section \<open>Super block\<close>

definition upd_sb :: "nat \<Rightarrow> (u8 list \<Rightarrow> u8 list) \<Rightarrow> vfs_state \<Rightarrow> vfs_state" where
  "upd_sb n f s = s\<lparr>vs_sbs := (vs_sbs s)(n := (vs_sbs s n)\<lparr>sb_data := f (sb_data (vs_sbs s n))\<rparr>)\<rparr>"

definition ext2_write_super :: "ext2_base_information \<Rightarrow> vfs_state \<Rightarrow> vfs_state" where
  "ext2_write_super sb s = snd (write_sects (sb_data sb) (ex_first_sb_sect sb) 2 s)"

text \<open>The sum of a 16-bit count over the groups \<open>gs\<close>; an unreadable descriptor counts nothing.\<close>

fun count_loop :: "(u8 list \<Rightarrow> u16) \<Rightarrow> ext2_base_information \<Rightarrow> nat list \<Rightarrow> u32 \<Rightarrow> vfs_state \<Rightarrow> (u32 \<times> vfs_state) option" where
  "count_loop f sb [] desc_count s = Some (desc_count, s)"
| "count_loop f sb (i # is) desc_count s = do {
     (desc, s) \<leftarrow> ext2_get_group_desc sb (of_nat i) True s;
     count_loop f sb is (case desc of None \<Rightarrow> desc_count | Some g \<Rightarrow> desc_count + ucast (f g)) s
   }"

definition ext2_count_free_blocks :: "nat \<Rightarrow> vfs_state \<Rightarrow> (u32 \<times> vfs_state) option" where
  "ext2_count_free_blocks n s = (let sb = vs_sbs s n in count_loop bg_free_blocks_count sb [0..<unat (s_groups_count sb)] 0 s)"

definition ext2_count_free_inodes :: "nat \<Rightarrow> vfs_state \<Rightarrow> (u32 \<times> vfs_state) option" where
  "ext2_count_free_inodes n s = (let sb = vs_sbs s n in count_loop bg_free_inodes_count sb [0..<unat (s_groups_count sb)] 0 s)"

definition ext2_sync_super :: "nat \<Rightarrow> vfs_state \<Rightarrow> vfs_state option" where
  "ext2_sync_super n s = do {
     (b, s) \<leftarrow> ext2_count_free_blocks n s;
     s \<leftarrow> Some (upd_sb n (set_le32 12 b) s);
     (i, s) \<leftarrow> ext2_count_free_inodes n s;
     s \<leftarrow> Some (upd_sb n (set_le32 16 i) s);
     Some (ext2_write_super (vs_sbs s n) s)
   }"

section \<open>Choosing a group\<close>

text \<open>Whether group \<open>g\<close> has a readable descriptor that satisfies \<open>P\<close>.\<close>

definition try_group :: "(u8 list \<Rightarrow> bool) \<Rightarrow> ext2_base_information \<Rightarrow> u32 \<Rightarrow> vfs_state \<Rightarrow> (bool \<times> vfs_state) option" where
  "try_group P sb g s = do {
     (desc, s) \<leftarrow> ext2_get_group_desc sb g True s;
     Some (case desc of None \<Rightarrow> False | Some d \<Rightarrow> P d, s)
   }"

definition has_both :: "u8 list \<Rightarrow> bool" where
  "has_both d \<longleftrightarrow> bg_free_inodes_count d \<noteq> 0 \<and> bg_free_blocks_count d \<noteq> 0"

definition has_inodes :: "u8 list \<Rightarrow> bool" where
  "has_inodes d \<longleftrightarrow> bg_free_inodes_count d \<noteq> 0"

text \<open>
  The probes at the offsets 1, 2, 4, ... ; the argument is the exponents that are left. When they run out the shift has made
  \<open>i\<close> 0, and the loop tests the same grp for ever.
\<close>

fun probe_loop :: "ext2_base_information \<Rightarrow> u32 \<Rightarrow> nat list \<Rightarrow> u32 \<Rightarrow> vfs_state \<Rightarrow> (u32 option \<times> vfs_state) option" where
  "probe_loop sb ngroups [] grp s = None"
| "probe_loop sb ngroups (k # ks) grp s =
     (let i = push_bit k 1 :: u32
      in if \<not> i < ngroups then Some (None, s)
         else do {
           let grp = grp + i;
           let grp = (if grp \<ge> ngroups then grp - ngroups else grp);
           (ok, s) \<leftarrow> try_group has_both sb grp s;
           if ok then Some (Some grp, s) else probe_loop sb ngroups ks grp s
         })"

fun linear_loop :: "ext2_base_information \<Rightarrow> u32 \<Rightarrow> nat \<Rightarrow> u32 \<Rightarrow> vfs_state \<Rightarrow> (u32 option \<times> vfs_state) option" where
  "linear_loop sb ngroups 0 grp s = Some (None, s)"
| "linear_loop sb ngroups (Suc n) grp s = do {
     let grp = (if grp + 1 \<ge> ngroups then 0 else grp + 1);
     (ok, s) \<leftarrow> try_group has_inodes sb grp s;
     if ok then Some (Some grp, s) else linear_loop sb ngroups n grp s
   }"

definition find_group_other :: "ext2_base_information \<Rightarrow> inode \<Rightarrow> vfs_state \<Rightarrow> (u32 \<times> vfs_state) option" where
  "find_group_other sb parent s = do {
     _ \<leftarrow> c_guard (s_inodes_per_group sb \<noteq> 0);
     let parent_group = (i_ino parent - 1) div s_inodes_per_group sb;
     let ngroups = s_groups_count sb;
     (ok, s) \<leftarrow> try_group has_both sb parent_group s;
     if ok then Some (parent_group, s)
     else do {
       _ \<leftarrow> c_guard (ngroups \<noteq> 0);
       (r, s) \<leftarrow> probe_loop sb ngroups [0..<32] ((parent_group + i_ino parent) mod ngroups) s;
       case r of
         Some g \<Rightarrow> Some (g, s)
       | None \<Rightarrow> do {
           (r, s) \<leftarrow> linear_loop sb ngroups (unat ngroups) parent_group s;
           Some (case r of Some g \<Rightarrow> g | None \<Rightarrow> - 1, s)
         }
     }
   }"

section \<open>New inodes\<close>

definition zero_inode :: inode where
  "zero_inode = \<lparr>i_ino = 0, i_count = 0, i_blocks = 0, i_blkbits = 0, i_blksize = 0, i_size = 0, i_mode = 0, i_op = No_ops, i_sb = 0, i_page = []\<rparr>"

definition alloc_inode :: "nat \<Rightarrow> vfs_state \<Rightarrow> nat \<times> vfs_state" where
  "alloc_inode sb s =
     (let p = vs_next s; bs = ex_blksize (vs_sbs s sb)
      in (p, s\<lparr>vs_next := p + 1, vs_acache := (vs_acache s)(p := []),
                vs_inodes := (vs_inodes s)(p := zero_inode\<lparr>i_sb := sb, i_blksize := bs, i_blkbits := log2 bs\<rparr>)\<rparr>))"

definition next_group :: "ext2_base_information \<Rightarrow> u32 \<Rightarrow> u32" where
  "next_group sb grp = (if grp + 1 = s_groups_count sb then 0 else grp + 1)"

fun new_inode_loop :: "ext2_base_information \<Rightarrow> nat \<Rightarrow> u32 \<Rightarrow> vfs_state \<Rightarrow> ((u32 \<times> u8 list \<times> u32) option \<times> vfs_state) option" where
  "new_inode_loop sb 0 grp s = Some (None, s)"
| "new_inode_loop sb (Suc n) grp s = do {
     (desc, s) \<leftarrow> ext2_get_group_desc sb grp True s;
     case desc of
       None \<Rightarrow> new_inode_loop sb n (next_group sb grp) s
     | Some desc \<Rightarrow> do {
         let (err, buf, s) = read_sects (ex_base sb + bg_inode_bitmap desc * drop_bit SECTOR_SHIFT (ex_blksize sb)) 8 s;
         if err then new_inode_loop sb n (next_group sb grp) s
         else do {
           _ \<leftarrow> c_guard (unat (ex_blksize sb) \<le> 4096);
           let ino_pos = find_first_zero_bit 0 (ex_blksize sb) (bytes_at buf);
           let ino = grp * s_inodes_per_group sb + ino_pos + 1;
           if ino_pos = - EINVAL \<or> ino < EXT2_FIRST_INO \<or> ino > s_inodes_count sb
           then new_inode_loop sb n (next_group sb grp) s
           else Some (Some (grp, desc, ino), s)
         }
       }
   }"

text \<open>The last argument of \<open>ext2_write_group_desc\<close> says that the grp is an inode number, as in the code.\<close>

definition ext2_new_inode :: "nat \<Rightarrow> u32 \<Rightarrow> vfs_state \<Rightarrow> ((u32 + nat) \<times> vfs_state) option" where
  "ext2_new_inode dir mode s = do {
     let n = i_sb (vs_inodes s dir);
     let sb = vs_sbs s n;
     (grp, s) \<leftarrow> find_group_other sb (vs_inodes s dir) s;
     if grp = - 1 then Some (Inl (- ENOSPC), s)
     else do {
       (r, s) \<leftarrow> new_inode_loop sb (unat (s_groups_count sb)) grp s;
       case r of
         None \<Rightarrow> Some (Inl (- ENOSPC), s)
       | Some (grp, desc, ino) \<Rightarrow> do {
           let (p, s) = alloc_inode n s;
           s \<leftarrow> Some (upd_sb n (\<lambda>d. set_le32 16 (le32 16 d - 1) d) s);
           s \<leftarrow> Some (ext2_write_super (vs_sbs s n) s);
           let desc = set_le16 14 (bg_free_inodes_count desc - 1) desc;
           let desc = (if S_ISDIR mode then set_le16 16 (bg_used_dirs_count desc + 1) desc else desc);
           s \<leftarrow> ext2_write_group_desc desc (vs_sbs s n) grp False s;
           s \<leftarrow> Some (upd_inode p (\<lambda>i. i\<lparr>i_mode := mode, i_ino := ino, i_blocks := 0, i_op := (if S_ISDIR mode then Dir_ops else File_ops),
             i_page := replicate EXT2_N_BLOCKS 0\<rparr>) s);
           s \<leftarrow> ext2_reset_inode p s;
           s \<leftarrow> ext2_set_inode_bitmap (vs_inodes s p) s;
           Some (Inr p, s)
         }
     }
   }"

section \<open>New blocks\<close>

text \<open>8 sectors are cleared, whatever the block size.\<close>

definition ext2_reset_block :: "ext2_base_information \<Rightarrow> u32 \<Rightarrow> vfs_state \<Rightarrow> vfs_state" where
  "ext2_reset_block sb bno s = snd (write_sects (replicate 4096 0) (ex_base sb + bno * drop_bit SECTOR_SHIFT (ex_blksize sb)) 8 s)"

fun new_block_loop :: "ext2_base_information \<Rightarrow> u32 \<Rightarrow> nat \<Rightarrow> u32 \<Rightarrow> vfs_state \<Rightarrow> ((u32 \<times> u8 list \<times> u8 list \<times> u32 \<times> u32) option \<times> vfs_state) option" where
  "new_block_loop sb blksize 0 grp s = Some (None, s)"
| "new_block_loop sb blksize (Suc n) grp s = do {
     (desc, s) \<leftarrow> ext2_get_group_desc sb grp True s;
     case desc of
       None \<Rightarrow> new_block_loop sb blksize n (next_group sb grp) s
     | Some desc \<Rightarrow> do {
         let sect = ex_base sb + bg_block_bitmap desc * drop_bit SECTOR_SHIFT blksize;
         let (err, buf, s) = read_sects sect 8 s;
         if err then new_block_loop sb blksize n (next_group sb grp) s
         else do {
           _ \<leftarrow> c_guard (unat blksize \<le> 4096);
           let bno_pos = find_first_zero_bit 0 blksize (bytes_at buf);
           if bno_pos = - EINVAL then new_block_loop sb blksize n (next_group sb grp) s
           else Some (Some (grp, desc, buf, sect, bno_pos), s)
         }
       }
   }"

definition ext2_new_block :: "nat \<Rightarrow> vfs_state \<Rightarrow> (u32 \<times> vfs_state) option" where
  "ext2_new_block host s = do {
     let inode = vs_inodes s host;
     let n = i_sb inode;
     let sb = vs_sbs s n;
     (grp, s) \<leftarrow> find_group_other sb inode s;
     if grp = - 1 then Some (- 1, s)
     else do {
       (r, s) \<leftarrow> new_block_loop sb (i_blksize inode) (unat (s_groups_count sb)) grp s;
       case r of
         None \<Rightarrow> Some (- 1, s)
       | Some (grp, desc, buf, sect, bno_pos) \<Rightarrow> do {
           let bno = grp * s_blocks_per_group sb + bno_pos;
           s \<leftarrow> Some (upd_sb n (\<lambda>d. set_le32 12 (le32 12 d - 1) d) s);
           s \<leftarrow> Some (ext2_write_super (vs_sbs s n) s);
           let desc = set_le16 12 (bg_free_blocks_count desc - 1) desc;
           s \<leftarrow> ext2_write_group_desc desc (vs_sbs s n) grp False s;
           let (err, s) = write_sects (on_bytes (set_bitmap_bit 0 bno_pos) buf) sect 8 s;
           Some (bno, ext2_reset_block (vs_sbs s n) bno s)
         }
     }
   }"

end
