(* ===== verification/Ext2Inv.thy ===== *)
theory Ext2Inv
  imports Ext2 PageInv
begin

text \<open>
  Properties of the EXT2 metadata: how transfers read and change the card, the choice of a group, and inodes
  that are written to their table and read back.
\<close>

section \<open>Transfers\<close>

text \<open>A transfer that works enables interrupts; a write changes the sectors besides.\<close>

definition io :: "vfs_state \<Rightarrow> vfs_state" where
  "io s = s\<lparr>vs_disk := (vs_disk s)\<lparr>sd_ie := True\<rparr>\<rparr>"

definition wrote :: "u32 \<Rightarrow> nat \<Rightarrow> u8 list \<Rightarrow> vfs_state \<Rightarrow> vfs_state" where
  "wrote sect n buf s = s\<lparr>vs_disk := (vs_disk s)\<lparr>sectors := written sect n buf (sectors (vs_disk s)), sd_ie := True\<rparr>\<rparr>"

abbreviation card_ok :: "vfs_state \<Rightarrow> bool" where
  "card_ok s \<equiv> disk_ok (vs_disk s)"

lemma io_simps [simp]: "vs_inodes (io s) = vs_inodes s" "vs_sbs (io s) = vs_sbs s" "vs_next (io s) = vs_next s" "vs_pcache (io s) = vs_pcache s"
  "vs_pages (io s) = vs_pages s" "vs_acache (io s) = vs_acache s"
  "sectors (vs_disk (io s)) = sectors (vs_disk s)" "io (io s) = io s" "card_ok (io s) = card_ok s" "block_bytes (vs_disk (io s)) = block_bytes (vs_disk s)"
  by (simp_all add: io_def disk_ok_def block_bytes_def fun_eq_iff)

lemma wrote_simps [simp]: "vs_inodes (wrote a n b s) = vs_inodes s" "vs_sbs (wrote a n b s) = vs_sbs s" "vs_next (wrote a n b s) = vs_next s"
  "vs_pcache (wrote a n b s) = vs_pcache s" "vs_pages (wrote a n b s) = vs_pages s" "vs_acache (wrote a n b s) = vs_acache s"
  "sectors (vs_disk (wrote a n b s)) = written a n b (sectors (vs_disk s))" "io (wrote a n b s) = wrote a n b s" "wrote a n b (io s) = wrote a n b s"
  by (simp_all add: wrote_def io_def)

lemma wrote_ok: "card_ok s \<Longrightarrow> List.length buf = n * SECSIZE \<Longrightarrow> card_ok (wrote sect n buf s)"
  by (rule written_ok [of "vs_disk s" buf n _ sect]) (simp_all add: wrote_def)

lemma sd_read_loop_ie: "ks \<noteq> [] \<or> sd_ie d \<Longrightarrow> sd_ie (snd (snd (sd_read_loop addr ks buf d)))"
  by (induction addr ks buf d rule: sd_read_loop.induct) (auto simp: sd_read_sector_blocking_def Let_def split: prod.splits if_splits)

lemma sd_write_loop_ie: "ks \<noteq> [] \<or> sd_ie d \<Longrightarrow> sd_ie (snd (sd_write_loop buf addr ks d))"
  by (induction buf addr ks d rule: sd_write_loop.induct) (auto simp: sd_write_sector_blocking_def Let_def split: prod.splits if_splits)

lemma read_sects_eq [simp]:
  assumes "card_ok s" "0 < unat n"
  shows "read_sects sect n s = (False, block_bytes (vs_disk s) sect (unat n), io s)"
proof -
  obtain d where d: "read_block (replicate (unat n * SECSIZE) 0) sect n (vs_disk s) = (0, block_bytes (vs_disk s) sect (unat n), d)" "same_card (vs_disk s) d"
    using read_block_ok [OF assms(1)] by (metis length_replicate)
  have "sd_ie d" using sd_read_loop_ie [of "[0..<unat n]"] assms(2) d(1) by (metis upt_eq_Nil_conv not_gr0 snd_conv read_block_def sd_read_block_def le_zero_eq)
  then have "d = (vs_disk s)\<lparr>sd_ie := True\<rparr>" using d(2) by (cases d; cases "vs_disk s") (simp add: same_card_def)
  then show ?thesis using d(1) by (simp add: read_sects_def io_def)
qed

lemma write_sects_eq [simp]:
  assumes "card_ok s" "0 < unat n" "List.length buf = unat n * SECSIZE"
  shows "write_sects buf sect n s = (False, wrote sect (unat n) buf s)"
proof -
  obtain d where d: "write_block buf sect n (vs_disk s) = (0, d)" "sectors d = written sect (unat n) buf (sectors (vs_disk s))"
    "sd_status d = sd_status (vs_disk s)" using write_block_ok [OF assms(1,3)] by blast
  have "sd_ie d" using sd_write_loop_ie [of "[0..<unat n]"] assms(2) d(1) by (metis upt_eq_Nil_conv not_gr0 snd_conv write_block_def sd_write_block_def le_zero_eq)
  then have "d = (vs_disk s)\<lparr>sectors := written sect (unat n) buf (sectors (vs_disk s)), sd_ie := True\<rparr>"
    using d(2,3) by (cases d; cases "vs_disk s") simp
  then show ?thesis using d(1) by (simp add: write_sects_def wrote_def)
qed

lemma block_bytes_1 [simp]: "block_bytes d sect 1 = sectors d sect" "block_bytes d sect (Suc 0) = sectors d sect"
  by (simp_all add: block_bytes_def)

section \<open>Group descriptors\<close>

definition gdt_sect :: "ext2_base_information \<Rightarrow> u32 \<Rightarrow> u32" where
  "gdt_sect sb grp = ex_first_gdt_sect sb + grp div GROUPS_PER_SECT"

definition gdt_off :: "u32 \<Rightarrow> nat" where
  "gdt_off grp = unat (grp mod GROUPS_PER_SECT * GROUP_DESC_BYTE)"

definition group_desc :: "ext2_base_information \<Rightarrow> u32 \<Rightarrow> vfs_state \<Rightarrow> u8 list" where
  "group_desc sb grp s = take 32 (drop (gdt_off grp) (sectors (vs_disk s) (gdt_sect sb grp)))"

lemma gdt_off_bound: "gdt_off grp + 32 \<le> 512"
proof -
  have "unat (grp mod 16) < 16" by (simp add: unat_mod)
  then have "unat (grp mod 16 * 32) = unat (grp mod 16) * 32" by (simp add: unat_word_ariths)
  then show ?thesis using \<open>unat (grp mod 16) < 16\<close> by (simp add: gdt_off_def GROUPS_PER_SECT_def GROUP_DESC_BYTE_def)
qed

lemma group_desc_io [simp]: "group_desc sb grp (io s) = group_desc sb grp s"
  by (simp add: group_desc_def)

lemma get_group_desc_eq [simp]:
  "card_ok s \<Longrightarrow> flag \<or> s_inodes_per_group sb \<noteq> 0 \<Longrightarrow>
    ext2_get_group_desc sb ino flag s = Some (Some (group_desc sb (group_of sb ino flag) s), io s)"
  by (simp add: ext2_get_group_desc_def group_desc_def gdt_sect_def gdt_off_def GROUP_DESC_BYTE_def Let_def)

lemma try_group_eq [simp]: "card_ok s \<Longrightarrow> try_group P sb grp s = Some (P (group_desc sb grp s), io s)"
  by (simp add: try_group_def group_of_def)

section \<open>Choosing a group\<close>

lemma probe_loop_ok:
  assumes "card_ok s" "ng \<le> 0x80000000" "grp < ng" "k \<le> 31"
  shows "\<exists>r. probe_loop sb ng [k..<32] grp s = Some (r, if push_bit k 1 < ng then io s else s) \<and> (\<forall>g. r = Some g \<longrightarrow> g < ng \<and> has_both (group_desc sb g s))"
  using assms
proof (induction "31 - k" arbitrary: k grp s)
  case 0
  then have "k = 31" by simp
  moreover have "\<not> 0x80000000 < ng" using 0 by simp
  ultimately show ?case by (simp add: upt_rec)
next
  case (Suc n)
  let ?i = "push_bit k 1 :: u32" and ?g = "grp + push_bit k 1"
  let ?h = "if ?g \<ge> ng then ?g - ng else ?g"
  have n: "n = 31 - Suc k" using Suc.hyps(2) by simp
  have k: "k < 31" "[k..<32] = k # [Suc k..<32]" using Suc.hyps(2) by (simp_all add: upt_rec)
  show ?case
  proof (cases "?i < ng")
    case False
    then show ?thesis by (simp add: k Let_def)
  next
    case True
    have "unat grp + unat ?i < 2 ^ 32" using True Suc.prems(2,3) by (simp add: word_less_nat_alt word_le_nat_alt)
    then have u: "unat ?g = unat grp + unat ?i" by (simp add: unat_word_ariths)
    then have h: "?h < ng" using True Suc.prems(3) unat_sub [of ng ?g] by (auto simp: word_less_nat_alt word_le_nat_alt)
    show ?thesis
    proof (cases "has_both (group_desc sb ?h s)")
      case True': True
      then show ?thesis using True h Suc.prems(1) by (auto simp: k Let_def)
    next
      case False
      obtain r where r: "probe_loop sb ng [Suc k..<32] ?h (io s) = Some (r, if push_bit (Suc k) 1 < ng then io s else io s)"
        "\<forall>g. r = Some g \<longrightarrow> g < ng \<and> has_both (group_desc sb g s)"
        using Suc.hyps(1) [OF n, of "io s" ?h] Suc.prems(1,2) h k(1) by auto
      then show ?thesis using True False Suc.prems(1) by (auto simp: k Let_def)
    qed
  qed
qed

lemma linear_loop_ok:
  assumes "card_ok s" "grp < ng" "n \<le> unat ng"
  shows "\<exists>r. linear_loop sb ng n grp s = Some (r, if n = 0 then s else io s) \<and> (\<forall>g. r = Some g \<longrightarrow> g < ng \<and> has_inodes (group_desc sb g s))
    \<and> (r = None \<longrightarrow> (\<forall>j. 1 \<le> j \<and> j \<le> n \<longrightarrow> \<not> has_inodes (group_desc sb (of_nat ((unat grp + j) mod unat ng)) s)))"
  using assms
proof (induction n arbitrary: grp s)
  case 0
  then show ?case by simp
next
  case (Suc n)
  let ?h = "if grp + 1 \<ge> ng then 0 else grp + 1"
  have "unat ng < 2 ^ 32" using unsigned_less [of ng] by simp
  then have u: "unat (grp + 1) = unat grp + 1" using Suc.prems(2) by (simp add: word_less_nat_alt unat_word_ariths)
  have m: "unat ?h = (unat grp + 1) mod unat ng"
  proof (cases "grp + 1 \<ge> ng")
    case True
    then have "unat grp + 1 = unat ng" using u Suc.prems(2) by (simp add: word_less_nat_alt word_le_nat_alt)
    then show ?thesis using True by simp
  next
    case False
    then have "unat grp + 1 < unat ng" using u by (simp add: word_le_nat_alt)
    then show ?thesis using False u by simp
  qed
  have ng: "0 < unat ng" using Suc.prems(2) by (simp add: word_less_nat_alt)
  then have h: "?h < ng" unfolding word_less_nat_alt m by simp
  have hm: "?h = of_nat ((unat grp + 1) mod unat ng)" unfolding m [symmetric] by simp
  show ?case
  proof (cases "has_inodes (group_desc sb ?h s)")
    case True
    then show ?thesis using h Suc.prems(1) by (auto simp: Let_def)
  next
    case False
    obtain r where r: "linear_loop sb ng n ?h (io s) = Some (r, io s)" "\<forall>g. r = Some g \<longrightarrow> g < ng \<and> has_inodes (group_desc sb g s)"
      "r = None \<longrightarrow> (\<forall>j. 1 \<le> j \<and> j \<le> n \<longrightarrow> \<not> has_inodes (group_desc sb (of_nat ((unat ?h + j) mod unat ng)) s))"
      using Suc.IH [of "io s" ?h] Suc.prems(1,3) h by auto
    have "\<not> has_inodes (group_desc sb (of_nat ((unat grp + j) mod unat ng)) s)" if "r = None" "1 \<le> j" "j \<le> Suc n" for j
    proof (cases "j = 1")
      case True
      then show ?thesis using False hm by simp
    next
      case j: False
      have "(unat ?h + (j - 1)) mod unat ng = (unat grp + j) mod unat ng" 
        using that(2) unfolding m mod_add_left_eq by (simp add: add.assoc [symmetric])
      moreover have "1 \<le> j - 1 \<and> j - 1 \<le> n" using that(2,3) j by auto
      ultimately show ?thesis using r(3) [rule_format, OF that(1), of "j - 1"] by simp
    qed
    then show ?thesis using False r(1,2) Suc.prems(1) by (auto simp: Let_def)
  qed
qed

section \<open>Fields in buffers\<close>

lemma length_on_bytes [simp]: "List.length (on_bytes f buf) = List.length buf"
  by (simp add: on_bytes_def)

lemma nth_on_bytes: "i < List.length buf \<Longrightarrow> on_bytes f buf ! i = f (bytes_at buf) i"
  by (simp add: on_bytes_def)

lemma length_set [simp]: "List.length (set_le32 off v buf) = List.length buf" "List.length (set_le16 off w buf) = List.length buf"
  by (simp_all add: set_le32_def set_le16_def)

lemma set_le32_frame: "i < off \<or> off + 4 \<le> i \<Longrightarrow> i < List.length buf \<Longrightarrow> set_le32 off v buf ! i = buf ! i"
  by (subst set_le32_def, subst nth_on_bytes) (auto intro: set_u32_frame)

lemma set_le16_frame: "i < off \<or> off + 2 \<le> i \<Longrightarrow> i < List.length buf \<Longrightarrow> set_le16 off v buf ! i = buf ! i"
  by (subst set_le16_def, subst nth_on_bytes) (auto intro: set_u16_frame)

lemma le32_cong: "(\<And>j. j < 4 \<Longrightarrow> b ! (off + j) = b' ! (off + j)) \<Longrightarrow> le32 off b = le32 off b'"
  unfolding le32_def by (rule get_u32_cong)

lemma le16_cong: "(\<And>j. j < 2 \<Longrightarrow> b ! (off + j) = b' ! (off + j)) \<Longrightarrow> le16 off b = le16 off b'"
proof -
  assume a: "\<And>j. j < 2 \<Longrightarrow> b ! (off + j) = b' ! (off + j)"
  show ?thesis using a [of 0] a [of 1] by (simp add: le16_def get_u16_def)
qed

lemma le32_set: "off + 4 \<le> List.length buf \<Longrightarrow> le32 off (set_le32 off v buf) = v"
proof -
  assume "off + 4 \<le> List.length buf"
  then have "le32 off (set_le32 off v buf) = get_u32 off (set_u32 off v (bytes_at buf))"
    unfolding le32_def by (intro get_u32_cong) (simp add: set_le32_def nth_on_bytes)
  then show ?thesis by (simp add: set_u32_get_u32)
qed

lemma le16_set: "off + 2 \<le> List.length buf \<Longrightarrow> le16 off (set_le16 off v buf) = v"
proof -
  assume "off + 2 \<le> List.length buf"
  then have "le16 off (set_le16 off v buf) = get_u16 off (set_u16 off v (bytes_at buf))"
    by (simp add: le16_def set_le16_def nth_on_bytes get_u16_def)
  then show ?thesis by (simp add: set_u16_get_u16)
qed

lemma le32_set_other: "p + 4 \<le> off \<or> off + 4 \<le> p \<Longrightarrow> p + 4 \<le> List.length buf \<Longrightarrow> le32 p (set_le32 off v buf) = le32 p buf"
  by (rule le32_cong) (auto intro!: set_le32_frame)

lemma le32_set16_other: "p + 4 \<le> off \<or> off + 2 \<le> p \<Longrightarrow> p + 4 \<le> List.length buf \<Longrightarrow> le32 p (set_le16 off v buf) = le32 p buf"
  by (rule le32_cong) (auto intro!: set_le16_frame)

lemma le16_set_other: "p + 2 \<le> off \<or> off + 2 \<le> p \<Longrightarrow> p + 2 \<le> List.length buf \<Longrightarrow> le16 p (set_le16 off v buf) = le16 p buf"
  by (rule le16_cong) (auto intro!: set_le16_frame)

lemma le16_set32_other: "p + 2 \<le> off \<or> off + 4 \<le> p \<Longrightarrow> p + 2 \<le> List.length buf \<Longrightarrow> le16 p (set_le32 off v buf) = le16 p buf"
  by (rule le16_cong) (auto intro!: set_le32_frame)

lemma set_blocks_loop:
  assumes "off + 4 * n \<le> List.length buf"
  shows "let b = fold (\<lambda>i. set_le32 (off + 4 * i) (bs ! i)) [0..<n] buf in List.length b = List.length buf \<and> (\<forall>i < n. le32 (off + 4 * i) b = bs ! i)
    \<and> (\<forall>a < List.length buf. a < off \<or> off + 4 * n \<le> a \<longrightarrow> b ! a = buf ! a)"
  using assms
proof (induction n)
  case 0
  then show ?case by simp
next
  case (Suc n)
  let ?b = "fold (\<lambda>i. set_le32 (off + 4 * i) (bs ! i)) [0..<n] buf"
  have b: "List.length ?b = List.length buf" "\<forall>i < n. le32 (off + 4 * i) ?b = bs ! i"
    "\<forall>a < List.length buf. a < off \<or> off + 4 * n \<le> a \<longrightarrow> ?b ! a = buf ! a" using Suc by (simp_all add: Let_def)
  have "le32 (off + 4 * i) (set_le32 (off + 4 * n) (bs ! n) ?b) = bs ! i" if "i < Suc n" for i
  proof (cases "i = n")
    case True
    then show ?thesis using Suc.prems b(1) by (simp add: le32_set)
  next
    case False
    then have "i < n" using that by simp
    moreover from this have "off + 4 * i + 4 \<le> off + 4 * n" by simp
    ultimately show ?thesis using b Suc.prems by (simp add: le32_set_other)
  qed
  moreover have "set_le32 (off + 4 * n) (bs ! n) ?b ! a = buf ! a" if "a < List.length buf" "a < off \<or> off + 4 * Suc n \<le> a" for a
    using that b by (subst set_le32_frame) auto
  ultimately show ?case using b(1) by (simp add: Let_def)
qed

lemma set_blocks_ok:
  assumes "off + 60 \<le> List.length buf"
  shows "List.length (set_blocks off bs buf) = List.length buf" "i < 15 \<Longrightarrow> le32 (off + 4 * i) (set_blocks off bs buf) = bs ! i"
    "a < List.length buf \<Longrightarrow> a < off \<or> off + 60 \<le> a \<Longrightarrow> set_blocks off bs buf ! a = buf ! a"
  using set_blocks_loop [of off 15 buf bs] assms by (auto simp: set_blocks_def EXT2_N_BLOCKS_def Let_def)

section \<open>Inodes on the card\<close>

definition table_sect :: "vfs_state \<Rightarrow> inode \<Rightarrow> u32" where
  "table_sect s inode = (let sb = vs_sbs s (i_sb inode) in inode_sect sb inode (ex_base sb
     + bg_block_bitmap (group_desc sb (group_of sb (i_ino inode) False) s) * drop_bit SECTOR_SHIFT (i_blksize inode)))"

definition base_sect :: "vfs_state \<Rightarrow> inode \<Rightarrow> u32" where
  "base_sect s inode = (let sb = vs_sbs s (i_sb inode)
     in ex_base sb + bg_block_bitmap (group_desc sb (group_of sb (i_ino inode) False) s) * drop_bit SECTOR_SHIFT (i_blksize inode))"

text \<open>A file system whose inodes are found: sizes as EXT2 has them, whole sectors of inodes in each group.\<close>

definition table_ok :: "vfs_state \<Rightarrow> inode \<Rightarrow> bool" where
  "table_ok s inode \<longleftrightarrow> card_ok s \<and> i_ino inode \<noteq> 0 \<and> base_sect s inode \<noteq> 0
     \<and> (let sb = vs_sbs s (i_sb inode) in (s_inode_size sb = 128 \<or> s_inode_size sb = 256) \<and> s_inodes_per_group sb \<noteq> 0
         \<and> unat (inodes_per_sect sb) dvd unat (s_inodes_per_group sb))"

lemma group_base_sect_eq [simp]:
  "card_ok s \<Longrightarrow> s_inodes_per_group (vs_sbs s (i_sb inode)) \<noteq> 0 \<Longrightarrow> ext2_group_base_sect inode s = Some (base_sect s inode, io s)"
  by (simp add: ext2_group_base_sect_def base_sect_def Let_def)

lemma table_okD:
  assumes "table_ok s inode"
  defines "sb \<equiv> vs_sbs s (i_sb inode)"
  shows "card_ok s" "i_ino inode \<noteq> 0" "base_sect s inode \<noteq> 0" "s_inodes_per_group sb \<noteq> 0" "sizes_ok sb"
    "inode_offset sb (i_ino inode) + 128 \<le> 512" "unat ((i_ino inode - 1) mod inodes_per_sect sb * s_inode_size sb) = inode_offset sb (i_ino inode)"
    "inode_sect sb inode (base_sect s inode) = table_sect s inode"
proof -
  show c: "card_ok s" "i_ino inode \<noteq> 0" "base_sect s inode \<noteq> 0" "s_inodes_per_group sb \<noteq> 0"
    using assms by (simp_all add: table_ok_def Let_def)
  have isz: "s_inode_size sb = 128 \<and> inodes_per_sect sb = 4 \<or> s_inode_size sb = 256 \<and> inodes_per_sect sb = 2"
    using assms by (auto simp: table_ok_def Let_def inodes_per_sect_def)
  then show "sizes_ok sb" using c(4) by (auto simp: sizes_ok_def)
  have d: "unat (inodes_per_sect sb) dvd unat (s_inodes_per_group sb)" using assms by (simp add: table_ok_def Let_def)
  have m: "(i_ino inode - 1) mod s_inodes_per_group sb mod inodes_per_sect sb = (i_ino inode - 1) mod inodes_per_sect sb"
    using d by (simp add: word_unat_eq_iff unat_mod mod_mod_cancel)
  then show "unat ((i_ino inode - 1) mod inodes_per_sect sb * s_inode_size sb) = inode_offset sb (i_ino inode)" by (simp add: inode_offset_def)
  have lt: "unat ((i_ino inode - 1) mod inodes_per_sect sb) < unat (inodes_per_sect sb)" using isz by (auto simp: unat_mod)
  show "inode_offset sb (i_ino inode) + 128 \<le> 512"
    using isz lt unfolding inode_offset_def m by (auto simp: unat_word_ariths)
  show "inode_sect sb inode (base_sect s inode) = table_sect s inode" by (simp add: table_sect_def base_sect_def sb_def Let_def)
qed

lemma length_sector [simp]: "card_ok s \<Longrightarrow> List.length (sectors (vs_disk s) k) = 512"
  by (simp add: disk_ok_def SECSIZE_def)

definition slot :: "vfs_state \<Rightarrow> inode \<Rightarrow> nat" where
  "slot s inode = inode_offset (vs_sbs s (i_sb inode)) (i_ino inode)"

text \<open>What a buffer holds of an inode whose slot starts at \<open>off\<close>.\<close>

definition holds_inode :: "nat \<Rightarrow> inode \<Rightarrow> u8 list \<Rightarrow> bool" where
  "holds_inode off inode buf \<longleftrightarrow> le32 (off + 4) buf = i_size inode \<and> le32 (off + 28) buf = i_blocks inode \<and> le16 off buf = ucast (i_mode inode)
     \<and> (\<forall>i < 15. le32 (off + 40 + 4 * i) buf = i_page inode ! i)"

lemma reset_inode_ok:
  assumes "table_ok s (vs_inodes s host)" "List.length (i_page (vs_inodes s host)) = 15"
  defines "k \<equiv> table_sect s (vs_inodes s host)" and "off \<equiv> slot s (vs_inodes s host)"
  shows "\<exists>buf. ext2_reset_inode host s = Some (wrote k 1 buf s) \<and> List.length buf = 512 \<and> holds_inode off (vs_inodes s host) buf
    \<and> (\<forall>a < 512. a < off \<or> off + 100 \<le> a \<longrightarrow> buf ! a = sectors (vs_disk s) k ! a)"
proof -
  let ?i = "vs_inodes s host"
  note t = table_okD [OF assms(1)]
  define b0 where "b0 = sectors (vs_disk s) k"
  define b1 where "b1 = set_le32 (off + 4) (i_size ?i) b0"
  define b2 where "b2 = set_le32 (off + 28) (i_blocks ?i) b1"
  define b3 where "b3 = set_le16 off (ucast (i_mode ?i)) b2"
  define b4 where "b4 = set_blocks (off + 40) (i_page ?i) b3"
  have off: "off + 128 \<le> 512" using t(6) by (simp add: off_def slot_def)
  have len: "List.length b0 = 512" "List.length b1 = 512" "List.length b2 = 512" "List.length b3 = 512" using t(1) by (simp_all add: b0_def b1_def b2_def b3_def)
  note sb = set_blocks_ok [of "off + 40" b3, unfolded len]
  have l4: "List.length b4 = 512" using sb(1) off by (simp add: b4_def)
  have fr: "b4 ! a = b3 ! a" if "a < 512" "a < off + 40 \<or> off + 100 \<le> a" for a using sb(3) [OF _ that(1)] that(2) off by (auto simp: b4_def)
  have "le32 p b4 = le32 p b3" "le16 p b4 = le16 p b3" if "p + 4 \<le> off + 40" for p
    using that off by (auto intro!: le32_cong le16_cong fr)
  moreover have "\<forall>i < 15. le32 (off + 40 + 4 * i) b4 = i_page ?i ! i" using sb(2) off by (simp add: b4_def)
  ultimately have "holds_inode off ?i b4"
    using off len by (simp add: holds_inode_def b3_def b2_def b1_def le32_set le16_set le32_set16_other le32_set_other)
  moreover have "b4 ! a = b0 ! a" if "a < 512" "a < off \<or> off + 100 \<le> a" for a
  proof -
    have "b4 ! a = b3 ! a" using that by (intro fr) auto
    also have "\<dots> = b2 ! a" unfolding b3_def using that len by (intro set_le16_frame) auto
    also have "\<dots> = b1 ! a" unfolding b2_def using that len by (intro set_le32_frame) auto
    also have "\<dots> = b0 ! a" unfolding b1_def using that len by (intro set_le32_frame) auto
    finally show ?thesis .
  qed
  moreover have "ext2_reset_inode host s = Some (wrote k 1 b4 s)"
    using t assms(2) l4 len
    by (simp add: ext2_reset_inode_def Let_def EXT2_N_BLOCKS_def k_def [symmetric] b0_def [symmetric] off_def [unfolded slot_def, symmetric]
      b1_def [symmetric] b2_def [symmetric] b3_def [symmetric] b4_def [symmetric] SECSIZE_def)
  ultimately show ?thesis using l4 by (auto simp: b0_def)
qed

lemma fill_inode_ok:
  assumes "table_ok s (vs_inodes s host)" "holds_inode (slot s (vs_inodes s host)) inode (sectors (vs_disk s) (table_sect s (vs_inodes s host)))"
    and "List.length (i_page inode) = 15"
  shows "ext2_fill_inode host s = Some (0, upd_inode host (\<lambda>n. n\<lparr>i_blocks := i_blocks inode, i_size := i_size inode,
    i_mode := ucast (ucast (i_mode inode) :: u16), i_op := (if S_ISDIR (ucast (ucast (i_mode inode) :: u16)) then Dir_ops else File_ops), i_page := i_page inode\<rparr>) ((io s)\<lparr>vs_acache := (vs_acache s)(host := [])\<rparr>))"
proof -
  note t = table_okD [OF assms(1)]
  have "map (\<lambda>i. le32 (slot s (vs_inodes s host) + 40 + 4 * i) (sectors (vs_disk s) (table_sect s (vs_inodes s host)))) [0..<15] = i_page inode"
    using assms(2,3) by (intro nth_equalityI) (simp_all add: holds_inode_def)
  then show ?thesis
    using t assms(2) by (simp add: ext2_fill_inode_def Let_def EXT2_N_BLOCKS_def holds_inode_def slot_def add.assoc)
qed

lemma write_inode_ok:
  assumes "table_ok s (vs_inodes s host)"
  defines "k \<equiv> table_sect s (vs_inodes s host)" and "off \<equiv> slot s (vs_inodes s host)"
  shows "\<exists>buf. ext2_write_inode host s = Some (0, wrote k 1 buf s) \<and> List.length buf = 512 \<and> le32 (off + 4) buf = i_size (vs_inodes s host)
    \<and> (\<forall>a < 512. a < off + 4 \<or> off + 8 \<le> a \<longrightarrow> buf ! a = sectors (vs_disk s) k ! a)"
proof -
  note t = table_okD [OF assms(1)]
  let ?b = "set_le32 (off + 4) (i_size (vs_inodes s host)) (sectors (vs_disk s) k)"
  have off: "off + 128 \<le> 512" using t(6) by (simp add: off_def slot_def)
  have "ext2_write_inode host s = Some (0, wrote k 1 ?b s)"
    using t by (simp add: ext2_write_inode_def Let_def k_def off_def slot_def SECSIZE_def)
  moreover have "le32 (off + 4) ?b = i_size (vs_inodes s host)" using off t(1) by (simp add: le32_set)
  moreover have "?b ! a = sectors (vs_disk s) k ! a" if "a < 512" "a < off + 4 \<or> off + 8 \<le> a" for a
    using that t(1) by (intro set_le32_frame) auto
  ultimately show ?thesis using t(1) by auto
qed

section \<open>Metadata and cached pages\<close>

text \<open>\<open>k\<close> is a sector of no block that belongs to a file.\<close>

definition meta_sect :: "(u32 \<Rightarrow> nat) \<Rightarrow> vfs_state \<Rightarrow> nat \<Rightarrow> u32 \<Rightarrow> bool" where
  "meta_sect own s sb k \<longleftrightarrow> (\<forall>loc. own loc \<noteq> NULL \<longrightarrow> fs_spb s sb \<le> unat (k - fs_sect s sb loc))"

lemma wrote_meta:
  assumes "pages_ok own sb s" "meta_sect own s sb k" "List.length buf = 512"
  shows "pages_ok own sb (wrote k 1 buf s)" "own loc \<noteq> NULL \<Longrightarrow> loc_data (wrote k 1 buf s) sb loc = loc_data s sb loc"
proof -
  let ?t = "wrote k 1 buf s"
  have core: "pages_core own sb s" and ac: "acache_ok own s (cached s)" using assms(1) by (simp_all add: pages_ok_def)
  note c = pages_coreD [OF core]
  have data: "loc_data ?t sb loc = loc_data s sb loc" if own: "own loc \<noteq> NULL" for loc
  proof -
    have ne: "fs_sect s sb loc + of_nat i \<noteq> k" if "i < fs_spb s sb" for i
    proof
      assume "fs_sect s sb loc + of_nat i = k"
      then have "k - fs_sect s sb loc = of_nat i" by auto
      moreover have "fs_spb s sb < 2 ^ 32" using blksize_okD(5) [OF c(2)] by (simp add: fs_spb_def)
      ultimately have "unat (k - fs_sect s sb loc) = i" using that by (simp add: unat_of_nat_u32)
      moreover have "fs_spb s sb \<le> unat (k - fs_sect s sb loc)" using assms(2) own by (simp add: meta_sect_def)
      ultimately show False using that by simp
    qed
    have "block_bytes (vs_disk ?t) (fs_sect s sb loc) (fs_spb s sb) = block_bytes (vs_disk s) (fs_sect s sb loc) (fs_spb s sb)"
      by (rule block_bytes_disjoint [OF wrote_simps(7)]) (use ne in \<open>auto simp: Suc_le_eq unat_gt_0\<close>)
    then show ?thesis by (simp add: loc_data_def fs_sect_def fs_spb_def)
  qed
  then show "own loc \<noteq> NULL \<Longrightarrow> loc_data ?t sb loc = loc_data s sb loc" .
  have pl: "page_loc ?t = page_loc s" by (simp add: page_loc_def fun_eq_iff)
  have "page_ok own sb ?t g" if "page_ok own sb s g" for g
    using that data [of "p_location g"] by (simp add: page_ok_def loc_ok_def fs_spb_def)
  moreover have "bucket ?t = bucket s" unfolding bucket_def pl by simp
  moreover have "card_ok ?t" using c(1) assms(3) by (intro wrote_ok) (simp_all add: SECSIZE_def)
  ultimately have "pages_core own sb ?t" using c(2-7) unfolding pages_core_def pl wrote_simps by metis
  then show "pages_ok own sb ?t" using ac unfolding pages_ok_def acache_ok_def pl by simp
qed

end
