(* ===== verification/Ext2Props.thy ===== *)
theory Ext2Props
  imports Ext2Inv
begin

text \<open>
  Properties of the EXT2 metadata, with a sample: the choice of a group for a new inode, inodes written to their table and read
  back, and the group descriptors that the allocation of inodes and blocks writes.
\<close>

section \<open>A sample file system\<close>

text \<open>32 inodes of 128 bytes in group 0, its block bit map in block 3; inode 12 has the blocks 10 and 11 and 1000 bytes.\<close>

definition sample_sb :: ext2_base_information where
  "sample_sb = \<lparr>ex_base = 0, ex_first_sb_sect = 2, ex_first_gdt_sect = 4, ex_blksize = 1024, s_groups_count = 1, s_desc_per_block = 32,
     sb_data = set_le16 88 128 (set_le32 40 32 (replicate 1024 0))\<rparr>"

definition sample_gdt :: "u8 list" where
  "sample_gdt = set_le32 0 3 (set_le16 14 20 (replicate 512 0))"

definition sample_inode :: "u32 list \<Rightarrow> inode" where
  "sample_inode bs = \<lparr>i_ino = 12, i_count = 1, i_blocks = 2, i_blkbits = 10, i_blksize = 1024, i_size = 1000, i_mode = 0x8000, i_op = File_ops,
     i_sb = 0, i_page = bs @ replicate 13 0\<rparr>"

definition sample_ext2 :: "u32 list \<Rightarrow> vfs_state" where
  "sample_ext2 bs = init_pcache \<lparr>
     vs_disk = \<lparr>sectors = (\<lambda>k. if k = 4 then sample_gdt else replicate SECSIZE (ucast k)), sd_status = (\<lambda>_. 1), sd_ie = False\<rparr>,
     vs_next = 1, vs_pages = Map.empty, vs_inodes = (\<lambda>_. sample_inode bs), vs_sbs = (\<lambda>_. sample_sb),
     vs_pcache = \<lparr>c_size = 0, c_capacity = 0, c_tablesize = 0, c_LRU = [], c_hashtable = (\<lambda>_. [])\<rparr>,
     vs_acache = (\<lambda>_. [])\<rparr>"

definition sample_own :: "u32 \<Rightarrow> nat" where
  "sample_own b = (if b = 10 \<or> b = 11 then 1 else NULL)"

lemma sample_sb_fields [simp]: "ex_base sample_sb = 0" "ex_blksize sample_sb = 1024" "ex_first_gdt_sect sample_sb = 4" "s_groups_count sample_sb = 1"
  "ex_first_sb_sect sample_sb = 2" "s_inodes_per_group sample_sb = 32" "s_inode_size sample_sb = 128"
proof -
  show "s_inodes_per_group sample_sb = 32" "s_inode_size sample_sb = 128"
    by (simp_all add: sample_sb_def s_inodes_per_group_def s_inode_size_def le32_set le16_set le32_set_other le32_set16_other)
qed (simp_all add: sample_sb_def)

lemma sample_ext2_fields [simp]:
  "vs_disk (sample_ext2 bs) = \<lparr>sectors = (\<lambda>k. if k = 4 then sample_gdt else replicate SECSIZE (ucast k)), sd_status = (\<lambda>_. 1), sd_ie = False\<rparr>"
  "vs_inodes (sample_ext2 bs) h = sample_inode bs" "vs_sbs (sample_ext2 bs) b = sample_sb" "c_LRU (vs_pcache (sample_ext2 bs)) = []"
  "c_capacity (vs_pcache (sample_ext2 bs)) = 64" "vs_acache (sample_ext2 bs) h = []" "vs_next (sample_ext2 bs) = 1"
  by (simp_all add: sample_ext2_def init_pcache_def cache_init_def PCACHE_CAPACITY_def)

lemma sample_inode_fields [simp]: "i_ino (sample_inode bs) = 12" "i_blksize (sample_inode bs) = 1024" "i_size (sample_inode bs) = 1000"
  "i_sb (sample_inode bs) = 0" "i_page (sample_inode bs) = bs @ replicate 13 0"
  by (simp_all add: sample_inode_def)

lemma length_sample_gdt [simp]: "List.length sample_gdt = 512"
  by (simp add: sample_gdt_def)

lemma sample_card: "card_ok (sample_ext2 bs)"
  by (simp add: disk_ok_def SECSIZE_def)

lemma sample_table: "base_sect (sample_ext2 bs) (sample_inode cs) = 6" "table_sect (sample_ext2 bs) (sample_inode cs) = 12"
  "slot (sample_ext2 bs) (sample_inode cs) = 384" "gdt_sect sample_sb (group_of sample_sb 12 False) = 4" "table_ok (sample_ext2 bs) (sample_inode cs)"
proof -
  have g: "group_desc sample_sb (group_of sample_sb 12 False) (sample_ext2 bs) = take 32 sample_gdt"
    by (simp add: group_desc_def group_of_def gdt_sect_def gdt_off_def GROUPS_PER_SECT_def)
  have "bg_block_bitmap (take 32 sample_gdt) = le32 0 sample_gdt"
    unfolding bg_block_bitmap_def by (rule le32_cong) simp
  then have m: "bg_block_bitmap (take 32 sample_gdt) = 3" by (simp add: sample_gdt_def le32_set)
  then show b: "base_sect (sample_ext2 bs) (sample_inode cs) = 6"
    by (simp add: base_sect_def SECTOR_SHIFT_def g)
  show "table_sect (sample_ext2 bs) (sample_inode cs) = 12" "slot (sample_ext2 bs) (sample_inode cs) = 384"
    by (simp_all add: table_sect_def g m inode_sect_def slot_def inode_offset_def inodes_per_sect_def SECTOR_SHIFT_def)
  show "gdt_sect sample_sb (group_of sample_sb 12 False) = 4" by (simp add: group_of_def gdt_sect_def GROUPS_PER_SECT_def)
  show "table_ok (sample_ext2 bs) (sample_inode cs)" by (simp add: table_ok_def b inodes_per_sect_def disk_ok_def SECSIZE_def)
qed

section \<open>Choosing a group\<close>

text \<open>C10: find_group_other ends for up to 2^31 groups and returns a group that has free inodes; it reports none only when no group has a free inode.\<close>

theorem find_group_other_correct:
  assumes "card_ok s" "s_inodes_per_group sb \<noteq> 0" "s_groups_count sb \<le> 0x80000000"
    and "(i_ino parent - 1) div s_inodes_per_group sb < s_groups_count sb"
  shows "\<exists>g. find_group_other sb parent s = Some (g, io s) \<and>
    (if g = - 1 then \<forall>k < unat (s_groups_count sb). bg_free_inodes_count (group_desc sb (of_nat k) s) = 0
     else g < s_groups_count sb \<and> bg_free_inodes_count (group_desc sb g s) \<noteq> 0)"
proof -
  let ?ng = "s_groups_count sb" and ?p = "(i_ino parent - 1) div s_inodes_per_group sb"
  have ng: "0 < unat ?ng" "?ng \<noteq> 0" using assms(4) by (auto simp: word_less_nat_alt)
  have m1: "g \<noteq> - 1" if "g < ?ng" for g using that assms(3) by (auto simp: word_less_nat_alt word_le_nat_alt)
  have both: "has_both d \<Longrightarrow> bg_free_inodes_count d \<noteq> 0" for d by (simp add: has_both_def)
  show ?thesis
  proof (cases "has_both (group_desc sb ?p s)")
    case True
    then show ?thesis using assms both m1 by (simp add: find_group_other_def Let_def)
  next
    case f1: False
    have pm: "(?p + i_ino parent) mod ?ng < ?ng" using ng by (simp add: word_less_nat_alt unat_mod)
    obtain r where r: "probe_loop sb ?ng [0..<32] ((?p + i_ino parent) mod ?ng) (io s) = Some (r, io s)"
      "\<forall>g. r = Some g \<longrightarrow> g < ?ng \<and> has_both (group_desc sb g s)"
      using probe_loop_ok [of "io s" ?ng "(?p + i_ino parent) mod ?ng" 0 sb] assms(1,3) pm by auto
    show ?thesis
    proof (cases r)
      case (Some g)
      then show ?thesis using f1 r assms ng both m1 by (simp add: find_group_other_def Let_def)
    next
      case None
      obtain q where q: "linear_loop sb ?ng (unat ?ng) ?p (io s) = Some (q, io s)" "\<forall>g. q = Some g \<longrightarrow> g < ?ng \<and> has_inodes (group_desc sb g s)"
        "q = None \<longrightarrow> (\<forall>j. 1 \<le> j \<and> j \<le> unat ?ng \<longrightarrow> \<not> has_inodes (group_desc sb (of_nat ((unat ?p + j) mod unat ?ng)) s))"
        using linear_loop_ok [of "io s" ?p ?ng "unat ?ng" sb] assms(1,4) ng by auto
      have all: "bg_free_inodes_count (group_desc sb (of_nat k) s) = 0" if "q = None" "k < unat ?ng" for k
      proof -
        have pl: "unat ?p < unat ?ng" using assms(4) by (simp add: word_less_nat_alt)
        define j where "j = (if unat ?p < k then k - unat ?p else k + unat ?ng - unat ?p)"
        have "(unat ?p + j) mod unat ?ng = k" "1 \<le> j" "j \<le> unat ?ng" using that(2) pl by (auto simp: j_def)
        then show ?thesis using q(3) that(1) by (auto simp: has_inodes_def)
      qed
      show ?thesis
        using f1 r(1) None q(1,2) all assms ng m1 by (cases q) (auto simp: find_group_other_def Let_def has_inodes_def)
    qed
  qed
qed

text \<open>The only group has free inodes but no free blocks: the last loop finds it.\<close>

theorem find_group_other_correct_witness:
  "find_group_other sample_sb (sample_inode [10, 11]) (sample_ext2 [10, 11]) = Some (0, io (sample_ext2 [10, 11]))"
proof -
  let ?s = "sample_ext2 [10, 11]"
  have "(12 - 1 :: u32) div 32 = 0" by (simp add: word_unat_eq_iff unat_div)
  then have h: "s_inodes_per_group sample_sb \<noteq> 0" "s_groups_count sample_sb \<le> 0x80000000"
    "(i_ino (sample_inode [10, 11]) - 1) div s_inodes_per_group sample_sb < s_groups_count sample_sb" by simp_all
  have "group_desc sample_sb 0 ?s = take 32 sample_gdt" by (simp add: group_desc_def gdt_sect_def gdt_off_def)
  moreover have "bg_free_inodes_count (take 32 sample_gdt) = le16 14 sample_gdt"
    unfolding bg_free_inodes_count_def by (rule le16_cong) simp
  moreover have "le16 14 sample_gdt = 20" by (simp add: sample_gdt_def le16_set le16_set32_other)
  ultimately have "bg_free_inodes_count (group_desc sample_sb 0 ?s) \<noteq> 0" by simp
  moreover have "g < 1 \<Longrightarrow> g = 0" for g :: u32 by (simp add: word_less_nat_alt unat_eq_0)
  ultimately show ?thesis using find_group_other_correct [OF sample_card h, of "[10, 11]"] by (auto split: if_splits)
qed

section \<open>Inodes on the card\<close>

text \<open>A sector of inodes rewritten: the tables stay where they are.\<close>

lemma wrote_table:
  assumes "table_ok s i" "List.length buf = 512"
    and "gdt_sect (vs_sbs s (i_sb i)) (group_of (vs_sbs s (i_sb i)) (i_ino i) False) \<noteq> table_sect s i"
  defines "t \<equiv> wrote (table_sect s i) 1 buf s"
  shows "table_ok t i" "table_sect t i = table_sect s i" "slot t i = slot s i" "sectors (vs_disk t) (table_sect s i) = buf"
    "m \<noteq> table_sect s i \<Longrightarrow> sectors (vs_disk t) m = sectors (vs_disk s) m"
proof -
  let ?k = "table_sect s i"
  show "sectors (vs_disk t) ?k = buf" using assms(2) by (simp add: t_def written_def SECSIZE_def)
  have w: "sectors (vs_disk t) m = sectors (vs_disk s) m" if "m \<noteq> ?k" for m
  proof -
    have "unat (m - ?k) \<noteq> 0" using that by (simp add: unat_eq_0)
    then show ?thesis by (simp add: t_def written_def)
  qed
  then show "m \<noteq> ?k \<Longrightarrow> sectors (vs_disk t) m = sectors (vs_disk s) m" .
  have f: "vs_sbs t = vs_sbs s" by (simp add: t_def)
  have gd: "group_desc (vs_sbs s (i_sb i)) (group_of (vs_sbs s (i_sb i)) (i_ino i) False) t = group_desc (vs_sbs s (i_sb i)) (group_of (vs_sbs s (i_sb i)) (i_ino i) False) s"
    using w [OF assms(3)] by (simp add: group_desc_def)
  have b: "base_sect t i = base_sect s i" by (simp add: base_sect_def f gd Let_def)
  show "table_sect t i = ?k" "slot t i = slot s i" using gd by (simp_all add: table_sect_def slot_def f Let_def)
  have "card_ok t" using table_okD(1) [OF assms(1)] assms(2) by (simp add: t_def wrote_ok SECSIZE_def)
  then show "table_ok t i" using assms(1) b by (simp add: table_ok_def f)
qed

text \<open>The table depends on four fields of the inode.\<close>

lemma table_cong:
  assumes "i_ino j = i_ino i" "i_sb j = i_sb i" "i_blksize j = i_blksize i"
  shows "table_sect s j = table_sect s i" "slot s j = slot s i" "table_ok s j = table_ok s i" "base_sect s j = base_sect s i"
  using assms by (simp_all add: table_sect_def slot_def table_ok_def base_sect_def inode_sect_def Let_def)

lemma table_upd_inode [simp]: "table_sect (upd_inode h f s) = table_sect s" "slot (upd_inode h f s) = slot s" "table_ok (upd_inode h f s) = table_ok s"
  by (simp_all add: upd_inode_def table_sect_def slot_def table_ok_def base_sect_def group_desc_def Let_def fun_eq_iff)

lemma holds_inode_size:
  assumes "holds_inode off i b" "off + 100 \<le> 512" "le32 (off + 4) b' = z" "\<forall>a < 512. a < off + 4 \<or> off + 8 \<le> a \<longrightarrow> b' ! a = b ! a"
  shows "holds_inode off (i\<lparr>i_size := z\<rparr>) b'"
proof -
  have "le32 p b' = le32 p b" if "off + 8 \<le> p" "p + 4 \<le> 512" for p using that assms(4) by (auto intro!: le32_cong)
  moreover have "le16 off b' = le16 off b" using assms(2,4) by (auto intro!: le16_cong)
  ultimately show ?thesis using assms(1-3) by (simp add: holds_inode_def)
qed

text \<open>C11: an inode entered in its table by ext2_reset_inode whose size is then changed in memory and saved by ext2_write_inode is read back by ext2_fill_inode with the new size and with its blocks, block addresses and the low 16 bits of its mode; after both writes no other sector and no byte of its sector outside its slot has changed. It is for file systems with inodes of 128 or 256 bytes in whole sectors per group, on a card that works.\<close>

theorem inode_roundtrip:
  assumes "table_ok s (vs_inodes s host)" "List.length (i_page (vs_inodes s host)) = 15"
    and "i_ino (vs_inodes s host') = i_ino (vs_inodes s host)" "i_sb (vs_inodes s host') = i_sb (vs_inodes s host)"
    and "i_blksize (vs_inodes s host') = i_blksize (vs_inodes s host)"
    and "gdt_sect (vs_sbs s (i_sb (vs_inodes s host))) (group_of (vs_sbs s (i_sb (vs_inodes s host))) (i_ino (vs_inodes s host)) False) \<noteq> table_sect s (vs_inodes s host)"
  shows "\<exists>s1 s2 s3. ext2_reset_inode host s = Some s1 \<and> ext2_write_inode host (upd_inode host (\<lambda>i. i\<lparr>i_size := z\<rparr>) s1) = Some (0, s2)
    \<and> ext2_fill_inode host' s2 = Some (0, s3)
    \<and> (let i = vs_inodes s host; j = vs_inodes s3 host' in i_size j = z \<and> i_blocks j = i_blocks i \<and> i_page j = i_page i
        \<and> i_mode j = ucast (ucast (i_mode i) :: u16) \<and> i_ino j = i_ino i)
    \<and> (\<forall>k. k \<noteq> table_sect s (vs_inodes s host) \<longrightarrow> sectors (vs_disk s2) k = sectors (vs_disk s) k)
    \<and> (\<forall>a < 512. a < slot s (vs_inodes s host) \<or> slot s (vs_inodes s host) + 100 \<le> a
        \<longrightarrow> sectors (vs_disk s2) (table_sect s (vs_inodes s host)) ! a = sectors (vs_disk s) (table_sect s (vs_inodes s host)) ! a)"
proof -
  let ?i = "vs_inodes s host" and ?z = "\<lambda>i. i\<lparr>i_size := z\<rparr>"
  let ?k = "table_sect s ?i" and ?off = "slot s ?i"
  obtain b1 where r: "ext2_reset_inode host s = Some (wrote ?k 1 b1 s)" "List.length b1 = 512" "holds_inode ?off ?i b1"
    "\<forall>a < 512. a < ?off \<or> ?off + 100 \<le> a \<longrightarrow> b1 ! a = sectors (vs_disk s) ?k ! a"
    using reset_inode_ok [OF assms(1,2)] by blast
  define s1 where "s1 = wrote ?k 1 b1 s"
  note w1 = wrote_table [OF assms(1) r(2) assms(6), folded s1_def]
  have f1: "vs_inodes s1 = vs_inodes s" "vs_sbs s1 = vs_sbs s" by (simp_all add: s1_def)
  define u where "u = upd_inode host ?z s1"
  have u: "vs_inodes u host = ?z ?i" "vs_sbs u = vs_sbs s" "vs_disk u = vs_disk s1" by (simp_all add: u_def upd_inode_def f1)
  have tu: "table_ok u (vs_inodes u host)" "table_sect u (vs_inodes u host) = ?k" "slot u (vs_inodes u host) = ?off"
    using w1(1-3) table_cong [of "?z ?i" ?i s1] unfolding u(1) by (simp_all add: u_def)
  obtain b2 where v: "ext2_write_inode host u = Some (0, wrote ?k 1 b2 u)" "List.length b2 = 512" "le32 (?off + 4) b2 = z"
    "\<forall>a < 512. a < ?off + 4 \<or> ?off + 8 \<le> a \<longrightarrow> b2 ! a = b1 ! a"
    using write_inode_ok [OF tu(1)] unfolding tu(2,3) by (auto simp: u w1(4))
  have gd: "gdt_sect (vs_sbs u (i_sb (?z ?i))) (group_of (vs_sbs u (i_sb (?z ?i))) (i_ino (?z ?i)) False) \<noteq> table_sect u (?z ?i)"
    using assms(6) tu(2) by (simp add: u)
  define s2 where "s2 = wrote ?k 1 b2 u"
  have s2: "s2 = wrote (table_sect u (?z ?i)) 1 b2 u" using tu(2) by (simp add: s2_def u)
  note w2 = wrote_table [OF tu(1) [unfolded u(1)] v(2) gd, folded s2]
  have off: "?off + 100 \<le> 512" using table_okD(6) [OF assms(1)] by (simp add: slot_def)
  have h2: "holds_inode ?off (?z ?i) b2" by (rule holds_inode_size [OF r(3) off v(3,4)])
  have j: "i_ino (vs_inodes s2 host') = i_ino (?z ?i)" "i_sb (vs_inodes s2 host') = i_sb (?z ?i)" "i_blksize (vs_inodes s2 host') = i_blksize (?z ?i)"
    using assms(3-5) by (auto simp: s2_def u_def upd_inode_def f1)
  note tc = table_cong [OF j, of s2]
  have k2: "table_sect u (?z ?i) = ?k" "slot u (?z ?i) = ?off" using tu(2,3) by (simp_all add: u)
  have "ext2_fill_inode host' s2 = Some (0, upd_inode host' (\<lambda>n. n\<lparr>i_blocks := i_blocks (?z ?i), i_size := i_size (?z ?i),
    i_mode := ucast (ucast (i_mode (?z ?i)) :: u16), i_op := (if S_ISDIR (ucast (ucast (i_mode (?z ?i)) :: u16)) then Dir_ops else File_ops),
    i_page := i_page (?z ?i)\<rparr>) ((io s2)\<lparr>vs_acache := (vs_acache s2)(host' := [])\<rparr>))"
    using w2(1-4) h2 assms(2) by (intro fill_inode_ok) (simp_all add: tc k2)
  moreover have "sectors (vs_disk s2) k = sectors (vs_disk s) k" if "k \<noteq> ?k" for k using w2(5) w1(5) that by (simp add: k2 u)
  moreover have "sectors (vs_disk s2) ?k ! a = sectors (vs_disk s) ?k ! a" if "a < 512" "a < ?off \<or> ?off + 100 \<le> a" for a
    using r(4) v(4) that w2(4) by (auto simp: k2)
  moreover have "ext2_reset_inode host s = Some s1" "ext2_write_inode host (upd_inode host ?z s1) = Some (0, s2)"
    using r(1) v(1) unfolding s1_def s2_def u_def by simp_all
  ultimately show ?thesis using j(1) by (simp add: Let_def upd_inode_def)
qed

text \<open>The file grows from 1000 to 1500 bytes.\<close>

theorem inode_roundtrip_witness:
  "\<exists>s1 s2 s3. ext2_reset_inode 1 (upd_inode 2 (\<lambda>i. i\<lparr>i_size := 0, i_blocks := 0, i_page := []\<rparr>) (sample_ext2 [10, 11])) = Some s1
     \<and> ext2_write_inode 1 (upd_inode 1 (\<lambda>i. i\<lparr>i_size := 1500\<rparr>) s1) = Some (0, s2)
     \<and> ext2_fill_inode 2 s2 = Some (0, s3) \<and> i_size (vs_inodes s3 2) = 1500 \<and> i_page (vs_inodes s3 2) = 10 # 11 # replicate 13 0"
proof -
  let ?s = "upd_inode 2 (\<lambda>i. i\<lparr>i_size := 0, i_blocks := 0, i_page := []\<rparr>) (sample_ext2 [10, 11])"
  have i: "vs_inodes ?s 1 = sample_inode [10, 11]" "vs_inodes ?s 2 = (sample_inode [10, 11])\<lparr>i_size := 0, i_blocks := 0, i_page := []\<rparr>"
    "vs_sbs ?s = vs_sbs (sample_ext2 [10, 11])" by (simp_all add: upd_inode_def)
  have t: "table_ok ?s (vs_inodes ?s 1)" "table_sect ?s (vs_inodes ?s 1) = 12" using sample_table unfolding i by simp_all
  show ?thesis
    using inode_roundtrip [OF t(1), of 2 1500] t(2) sample_table(4) by (auto simp: i i(1) [unfolded One_nat_def] Let_def)
qed

section \<open>Writing a group descriptor\<close>

lemma gdt_slot_inj:
  assumes "gdt_sect sb g = gdt_sect sb h" "gdt_off g = gdt_off h"
  shows "g = h"
proof -
  have d: "unat g div 16 = unat h div 16" using assms(1) by (auto simp: gdt_sect_def GROUPS_PER_SECT_def unat_div dest: arg_cong [of _ _ unat])
  have "gdt_off k = (unat k mod 16) * 32" for k
  proof -
    have "unat (k mod 16) < 16" by (simp add: unat_mod)
    then show ?thesis by (simp add: gdt_off_def GROUPS_PER_SECT_def GROUP_DESC_BYTE_def unat_word_ariths unat_mod)
  qed
  then have "unat g mod 16 = unat h mod 16" using assms(2) by simp
  then have "unat g = unat h" using d by (metis div_mult_mod_eq)
  then show ?thesis by (simp add: word_unat_eq_iff)
qed

lemma write_group_desc_ok:
  fixes no :: u32
  assumes "card_ok s" "flag \<or> s_inodes_per_group sb \<noteq> 0" "List.length desc = 32"
  defines "k \<equiv> gdt_sect sb (group_of sb no flag)"
  shows "\<exists>buf. ext2_write_group_desc desc sb no flag s = Some (wrote k 1 buf s) \<and> List.length buf = 512
    \<and> (\<forall>g. group_desc sb g (wrote k 1 buf s) = (if g = group_of sb no flag then desc else group_desc sb g s))"
proof -
  let ?g = "group_of sb no flag"
  define buf where "buf = put_bytes (gdt_off ?g) desc (sectors (vs_disk s) k)"
  have l: "List.length (sectors (vs_disk s) k) = 512" using assms(1) by simp
  then have lb: "List.length buf = 512" using gdt_off_bound [of ?g] by (simp add: buf_def put_bytes_def assms(3))
  have "ext2_write_group_desc desc sb no flag s = Some (wrote k 1 buf s)"
    using assms(1,2) lb by (simp add: ext2_write_group_desc_def Let_def k_def buf_def gdt_sect_def gdt_off_def GROUP_DESC_BYTE_def SECSIZE_def)
  moreover have "group_desc sb g (wrote k 1 buf s) = (if g = ?g then desc else group_desc sb g s)" for g
  proof -
    have w: "sectors (vs_disk (wrote k 1 buf s)) (gdt_sect sb g) = (if gdt_sect sb g = k then buf else sectors (vs_disk s) (gdt_sect sb g))"
      using lb by (auto simp: written_def SECSIZE_def unat_eq_0)
    show ?thesis
    proof (cases "gdt_sect sb g = k")
      case False
      then show ?thesis using w by (auto simp: group_desc_def k_def)
    next
      case True
      have off: "gdt_off g mod 32 = 0" for g
        by (simp add: gdt_off_def GROUPS_PER_SECT_def GROUP_DESC_BYTE_def unat_word_ariths unat_mod mod_mod_cancel)
      show ?thesis
      proof (cases "g = ?g")
        case True
        then show ?thesis using w k_def gdt_off_bound [of ?g] l by (simp add: group_desc_def buf_def put_bytes_def assms(3))
      next
        case ne: False
        then have "gdt_off g \<noteq> gdt_off ?g" using gdt_slot_inj True k_def by blast
        then have "gdt_off g + 32 \<le> gdt_off ?g \<or> gdt_off ?g + 32 \<le> gdt_off g" using off [of g] off [of ?g] by presburger
        then have "take 32 (drop (gdt_off g) buf) = take 32 (drop (gdt_off g) (sectors (vs_disk s) k))"
          using gdt_off_bound [of ?g] gdt_off_bound [of g] l by (intro nth_equalityI) (auto simp: buf_def put_bytes_def nth_append assms(3))
        then show ?thesis using w True ne by (simp add: group_desc_def)
      qed
    qed
  qed
  ultimately show ?thesis using lb by blast
qed

end
