(* ===== verification/FileIO.thy ===== *)
theory FileIO
  imports Ext2Inv
begin

text \<open>
  Reading and writing files, \<open>kernel/vfs/read_write.c\<close>: the loops over the pages of a file, on the page cache and
  \<open>ext2_write_inode\<close>. The loops take the functions they call as arguments; the locale \<open>page_source\<close> states what they
  rely on, and the page cache is shown to provide it.
\<close>

section \<open>Operations\<close>

text \<open>
  Offset and count of the part that is copied from or to page \<open>no\<close>, between position \<open>start_cur\<close> of page \<open>start_no\<close> and position
  \<open>end_cur\<close> of page \<open>end_no\<close>.
\<close>

definition page_part :: "u32 \<Rightarrow> u32 \<Rightarrow> u32 \<Rightarrow> u32 \<Rightarrow> u32 \<Rightarrow> u32 \<Rightarrow> u32 \<times> u32" where
  "page_part blksize start_no start_cur end_no end_cur no =
     (if no = start_no then (start_cur, if no = end_no then end_cur - start_cur else blksize - start_cur)
      else (0, if no = end_no then end_cur else blksize))"

text \<open>The copies go through \<open>kernel_memcpy\<close>; one that leaves a buffer has no result. An error ends the loop.\<close>

fun read_pages :: "(u32 \<Rightarrow> 's \<Rightarrow> ((u32 + nat) \<times> 's) option) \<Rightarrow> ('s \<Rightarrow> nat \<Rightarrow> u8 list) \<Rightarrow> (u32 \<Rightarrow> u32 \<times> u32)
    \<Rightarrow> u32 list \<Rightarrow> u8 list \<Rightarrow> u32 \<Rightarrow> 's \<Rightarrow> (u8 list \<times> u32 \<times> 's) option" where
  "read_pages get p_bytes part [] buf cur s = Some (buf, cur, s)"
| "read_pages get p_bytes part (no # nos) buf cur s = do {
     (r, s) \<leftarrow> get no s;
     case r of
       Inl e \<Rightarrow> Some (buf, cur, s)
     | Inr p \<Rightarrow> do {
         let (off, read_count) = part no;
         _ \<leftarrow> c_guard (unat off + unat read_count \<le> List.length (p_bytes s p) \<and> unat cur + unat read_count \<le> List.length buf);
         let buf = put_bytes (unat cur) (take (unat read_count) (drop (unat off) (p_bytes s p))) buf;
         read_pages get p_bytes part nos buf (cur + read_count) s
       }
   }"

fun write_pages :: "(u32 \<Rightarrow> 's \<Rightarrow> ((u32 + nat) \<times> 's) option) \<Rightarrow> ('s \<Rightarrow> nat \<Rightarrow> u8 list) \<Rightarrow> (nat \<Rightarrow> u8 list \<Rightarrow> 's \<Rightarrow> (u32 \<times> 's) option)
    \<Rightarrow> (u32 \<Rightarrow> u32 \<times> u32) \<Rightarrow> u32 list \<Rightarrow> u8 list \<Rightarrow> u32 \<Rightarrow> 's \<Rightarrow> (u32 \<times> 's) option" where
  "write_pages get p_bytes put part [] buf cur s = Some (cur, s)"
| "write_pages get p_bytes put part (no # nos) buf cur s = do {
     (r, s) \<leftarrow> get no s;
     case r of
       Inl e \<Rightarrow> Some (cur, s)
     | Inr p \<Rightarrow> do {
         let (off, write_count) = part no;
         _ \<leftarrow> c_guard (unat off + unat write_count \<le> List.length (p_bytes s p) \<and> unat cur + unat write_count \<le> List.length buf);
         let xs = put_bytes (unat off) (take (unat write_count) (drop (unat cur) buf)) (p_bytes s p);
         (e, s) \<leftarrow> put p xs s;
         write_pages get p_bytes put part nos buf (cur + write_count) s
       }
   }"

definition page_bytes :: "vfs_state \<Rightarrow> nat \<Rightarrow> u8 list" where
  "page_bytes s p = (case vs_pages s p of None \<Rightarrow> [] | Some g \<Rightarrow> p_data g)"

definition page_nos :: "u32 \<Rightarrow> u32 \<Rightarrow> u32 list" where
  "page_nos start_no end_no = map of_nat [unat start_no..<Suc (unat end_no)]"

text \<open>
  The file is given by its inode. The results are the number of bytes, the buffer, the new position (stored through \<open>ppos\<close>
  and in \<open>f_pos\<close>) and the state. A block size of 0 divides by 0; a last page number of \<open>U32_MAX\<close> would make the loop endless.
\<close>

definition generic_file_read :: "nat \<Rightarrow> u8 list \<Rightarrow> u32 \<Rightarrow> u32 \<Rightarrow> vfs_state \<Rightarrow> (u32 \<times> u8 list \<times> u32 \<times> vfs_state) option" where
  "generic_file_read host buf cnt pos s = do {
     let blksize = i_blksize (vs_inodes s host);
     let isize = i_size (vs_inodes s host);
     _ \<leftarrow> c_guard (blksize \<noteq> 0);
     let e = (if pos + cnt < isize then pos + cnt else isize);
     _ \<leftarrow> c_guard (e div blksize \<noteq> - 1);
     (buf, cur, s) \<leftarrow> read_pages (pcache_get_page host) page_bytes
       (page_part blksize (pos div blksize) (pos mod blksize) (e div blksize) (e mod blksize))
       (page_nos (pos div blksize) (e div blksize)) buf 0 s;
     Some (cur, buf, pos + cur, s)
   }"

definition generic_file_write :: "nat \<Rightarrow> u8 list \<Rightarrow> u32 \<Rightarrow> u32 \<Rightarrow> vfs_state \<Rightarrow> (u32 \<times> u32 \<times> vfs_state) option" where
  "generic_file_write host buf cnt pos s = do {
     let blksize = i_blksize (vs_inodes s host);
     _ \<leftarrow> c_guard (blksize \<noteq> 0);
     let e = pos + cnt;
     _ \<leftarrow> c_guard (e div blksize \<noteq> - 1);
     (cur, s) \<leftarrow> write_pages (pcache_get_page host) page_bytes put_page
       (page_part blksize (pos div blksize) (pos mod blksize) (e div blksize) (e mod blksize))
       (page_nos (pos div blksize) (e div blksize)) buf 0 s;
     if e > i_size (vs_inodes s host) then do {
       s \<leftarrow> Some (upd_inode host (\<lambda>i. i\<lparr>i_size := e\<rparr>) s);
       (err, s) \<leftarrow> ext2_write_inode host s;
       Some (cur, pos + cur, s)
     } else Some (cur, pos + cur, s)
   }"

text \<open>The pages of the file in the cache are written back when they are dirty.\<close>

fun flush_loop :: "nat list \<Rightarrow> vfs_state \<Rightarrow> vfs_state option" where
  "flush_loop [] s = Some s"
| "flush_loop (p # ps) s = do {
     page \<leftarrow> vs_pages s p;
     s \<leftarrow> (if p_state page AND P_DIRTY \<noteq> 0 then pcache_write_back p s else Some s);
     flush_loop ps s
   }"

definition generic_file_flush :: "nat \<Rightarrow> vfs_state \<Rightarrow> (u32 \<times> vfs_state) option" where
  "generic_file_flush host s = do { s \<leftarrow> flush_loop (vs_acache s host) s; Some (0, s) }"

section \<open>Positions and pages\<close>

lemma put_bytes_Nil [simp]: "put_bytes c [] buf = buf"
  by (simp add: put_bytes_def)

lemma upt_split: "i \<le> j \<Longrightarrow> j \<le> k \<Longrightarrow> [i..<k] = [i..<j] @ [j..<k]"
  by (metis le_Suc_ex upt_add_eq_append)

lemma put_bytes_append:
  "c + List.length xs + List.length ys \<le> List.length buf \<Longrightarrow> put_bytes (c + List.length xs) ys (put_bytes c xs buf) = put_bytes c (xs @ ys) buf"
  by (simp add: put_bytes_def add_ac)

text \<open>The end of page \<open>k\<close> within \<open>[pos, e)\<close>, and its beginning.\<close>

definition chunk_from :: "nat \<Rightarrow> nat \<Rightarrow> nat \<Rightarrow> nat \<Rightarrow> nat" where
  "chunk_from bs pos e k = (if k \<le> e div bs then max pos (k * bs) else e)"

lemma chunk_bounds:
  assumes "0 < bs" "pos div bs \<le> k" "k \<le> e div bs" "pos \<le> e"
  shows "chunk_from bs pos e k \<le> chunk_from bs pos e (Suc k)" "chunk_from bs pos e (Suc k) \<le> Suc k * bs" "k * bs \<le> chunk_from bs pos e k"
    "chunk_from bs pos e (Suc k) \<le> e" "pos \<le> chunk_from bs pos e k"
proof -
  have p: "pos < Suc k * bs"
  proof -
    have "pos < Suc (pos div bs) * bs" using assms(1) by (simp add: dividend_less_div_times add.commute)
    also have "\<dots> \<le> Suc k * bs" using assms(2) by (intro mult_le_mono1) simp
    finally show ?thesis .
  qed
  have e: "e < Suc (e div bs) * bs" using assms(1) by (simp add: dividend_less_div_times add.commute)
  have ke: "k * bs \<le> e" using assms(3) by (meson div_times_less_eq_dividend le_trans mult_le_mono1)
  have sk: "Suc k * bs \<le> e" if "Suc k \<le> e div bs" using that by (meson div_times_less_eq_dividend le_trans mult_le_mono1)
  show "chunk_from bs pos e k \<le> chunk_from bs pos e (Suc k)" "chunk_from bs pos e (Suc k) \<le> Suc k * bs" "k * bs \<le> chunk_from bs pos e k"
    "chunk_from bs pos e (Suc k) \<le> e" "pos \<le> chunk_from bs pos e k"
    using p e ke sk assms by (auto simp: chunk_from_def not_less_eq_eq le_antisym)
qed

lemma chunk_eq:
  assumes "0 < bs" "pos div bs \<le> k" "k \<le> e div bs" "pos \<le> e"
  shows "chunk_from bs pos e k = (if k = pos div bs then pos else k * bs)" "chunk_from bs pos e (Suc k) = (if k = e div bs then e else Suc k * bs)"
proof -
  have "pos < k * bs" if "pos div bs < k" using that assms(1) by (simp add: div_less_iff_less_mult)
  moreover have "max pos (pos div bs * bs) = pos" by (simp add: max_absorb1)
  ultimately show "chunk_from bs pos e k = (if k = pos div bs then pos else k * bs)"
    using assms(2,3) by (cases "k = pos div bs") (simp_all add: chunk_from_def max_absorb2)
  have "pos < Suc k * bs" using assms(1,2) by (simp only: div_less_iff_less_mult [symmetric] less_Suc_eq_le)
  then show "chunk_from bs pos e (Suc k) = (if k = e div bs then e else Suc k * bs)" using assms by (auto simp: chunk_from_def max_def)
qed

lemma sub_in_page: "x div b = y div b \<Longrightarrow> x \<le> y \<Longrightarrow> y - x = y mod b - x mod b" for x y b :: nat
  by (metis add_diff_cancel_left div_mult_mod_eq)

text \<open>The part of page \<open>k\<close> is what lies between two consecutive chunk boundaries.\<close>

definition part_ok :: "(u32 \<Rightarrow> u32 \<times> u32) \<Rightarrow> nat \<Rightarrow> nat \<Rightarrow> nat \<Rightarrow> bool" where
  "part_ok part bs pos e \<longleftrightarrow> (\<forall>k. pos div bs \<le> k \<and> k \<le> e div bs \<longrightarrow> unat (fst (part (of_nat k))) = chunk_from bs pos e k - k * bs
     \<and> unat (snd (part (of_nat k))) = chunk_from bs pos e (Suc k) - chunk_from bs pos e k)"

lemma page_part_ok:
  assumes "blksize \<noteq> 0" "pos \<le> e"
  shows "part_ok (page_part blksize (pos div blksize) (pos mod blksize) (e div blksize) (e mod blksize)) (unat blksize) (unat pos) (unat e)"
  unfolding part_ok_def
proof (intro allI impI)
  fix k
  let ?b = "unat blksize" and ?p = "unat pos" and ?e = "unat e"
  let ?part = "page_part blksize (pos div blksize) (pos mod blksize) (e div blksize) (e mod blksize)"
  assume k: "?p div ?b \<le> k \<and> k \<le> ?e div ?b"
  have b: "0 < ?b" using assms(1) by (simp add: unat_gt_0)
  have pe: "?p \<le> ?e" using assms(2) by (simp add: word_le_nat_alt)
  have "k \<le> ?e" using k div_le_dividend [of ?e ?b] by linarith
  then have "k < 2 ^ 32" using unsigned_less [of e, where 'a = nat] by simp
  then have uk: "unat (of_nat k :: u32) = k" by (simp add: unat_of_nat_u32)
  have n: "of_nat k = pos div blksize \<longleftrightarrow> k = ?p div ?b" "of_nat k = e div blksize \<longleftrightarrow> k = ?e div ?b"
    by (simp_all add: word_unat_eq_iff [where 'a = 32] uk unat_div)
  have sub1: "unat (e mod blksize - pos mod blksize) = ?e mod ?b - ?p mod ?b" if "?p div ?b = ?e div ?b"
  proof -
    have "?p mod ?b \<le> ?e mod ?b" using pe that by (metis div_mult_mod_eq add_le_cancel_left)
    then show ?thesis using unat_sub [of "pos mod blksize" "e mod blksize"] by (simp add: word_le_nat_alt unat_mod)
  qed
  have sub2: "unat (blksize - pos mod blksize) = ?b - ?p mod ?b"
    using unat_sub [of "pos mod blksize" blksize] b by (simp add: word_le_nat_alt unat_mod less_imp_le)
  have m: "?p - ?p div ?b * ?b = ?p mod ?b" "?e - ?e div ?b * ?b = ?e mod ?b" by (simp_all add: minus_div_mult_eq_mod)
  have m2: "Suc (?p div ?b) * ?b - ?p = ?b - ?p mod ?b" using m(1) b by (simp add: diff_diff_eq2 [symmetric] flip: minus_div_mult_eq_mod)
  note c = chunk_eq [OF b conjunct1 [OF k] conjunct2 [OF k] pe]
  consider "k = ?p div ?b" "k = ?e div ?b" | "k = ?p div ?b" "k \<noteq> ?e div ?b" | "k \<noteq> ?p div ?b" "k = ?e div ?b" | "k \<noteq> ?p div ?b" "k \<noteq> ?e div ?b"
    by blast
  then show "unat (fst (?part (of_nat k))) = chunk_from ?b ?p ?e k - k * ?b \<and> unat (snd (?part (of_nat k))) = chunk_from ?b ?p ?e (Suc k) - chunk_from ?b ?p ?e k"
  proof cases
    case 1
    then have "?p div ?b = ?e div ?b" by simp
    then show ?thesis using 1 c n sub1 m(1) sub_in_page [of ?p ?b ?e] pe by (simp add: page_part_def unat_mod)
  next
    case 2
    then show ?thesis using c n sub2 m(1) m2 by (simp add: page_part_def unat_mod)
  next
    case 3
    then show ?thesis using c n m(2) by (simp add: page_part_def unat_mod)
  next
    case 4
    then show ?thesis using c n by (simp add: page_part_def)
  qed
qed

section \<open>What the loops rely on\<close>

text \<open>Byte \<open>m\<close> of a file whose pages are \<open>b\<close>.\<close>

definition file_byte :: "nat \<Rightarrow> (nat \<Rightarrow> u8 list) \<Rightarrow> nat \<Rightarrow> u8" where
  "file_byte bs b m = b (m div bs) ! (m mod bs)"

lemma page_slice:
  assumes "List.length (b k) = bs" "k * bs \<le> x" "x \<le> y" "y \<le> Suc k * bs"
  shows "take (y - x) (drop (x - k * bs) (b k)) = map (file_byte bs b) [x..<y]"
proof (rule nth_equalityI)
  show "List.length (take (y - x) (drop (x - k * bs) (b k))) = List.length (map (file_byte bs b) [x..<y])" using assms by simp
next
  fix i assume "i < List.length (take (y - x) (drop (x - k * bs) (b k)))"
  then have i: "i < y - x" by simp
  then have "(x + i) div bs = k" using assms by (intro div_nat_eqI) (simp_all add: mult.commute)
  moreover from this have "(x + i) mod bs = x - k * bs + i" using assms(2) minus_div_mult_eq_mod [of "x + i" bs] by simp
  ultimately show "take (y - x) (drop (x - k * bs) (b k)) ! i = map (file_byte bs b) [x..<y] ! i"
    using i assms by (simp add: file_byte_def)
qed

text \<open>
  Pages \<open>n < lim\<close> that are \<open>mapped\<close> have contents \<open>blk s n\<close> of \<open>bs\<close> bytes. Getting one gives an object that holds it (\<open>at\<close>) and changes
  no contents, getting another fails, and putting replaces the contents of one page. Both leave the sectors outside the \<open>area\<close> of the page alone.
\<close>

locale page_source =
  fixes get :: "u32 \<Rightarrow> 's \<Rightarrow> ((u32 + nat) \<times> 's) option"
    and p_bytes :: "'s \<Rightarrow> nat \<Rightarrow> u8 list"
    and put :: "nat \<Rightarrow> u8 list \<Rightarrow> 's \<Rightarrow> (u32 \<times> 's) option"
    and ok :: "'s \<Rightarrow> bool"
    and at :: "'s \<Rightarrow> nat \<Rightarrow> nat \<Rightarrow> bool"
    and blk :: "'s \<Rightarrow> nat \<Rightarrow> u8 list"
    and mapped :: "nat \<Rightarrow> bool"
    and sector :: "'s \<Rightarrow> u32 \<Rightarrow> u8 list"
    and area :: "nat \<Rightarrow> u32 set"
    and bs :: nat
    and lim :: nat
  assumes get_mapped: "ok s \<Longrightarrow> mapped (unat no) \<Longrightarrow> unat no < lim \<Longrightarrow>
      \<exists>p s'. get no s = Some (Inr p, s') \<and> ok s' \<and> at s' p (unat no) \<and> p_bytes s' p = blk s (unat no) \<and> (\<forall>m. mapped m \<longrightarrow> blk s' m = blk s m) \<and> sector s' = sector s"
    and get_unmapped: "ok s \<Longrightarrow> \<not> mapped (unat no) \<Longrightarrow> unat no < lim \<Longrightarrow>
      \<exists>e s'. get no s = Some (Inl e, s') \<and> ok s' \<and> (\<forall>m. mapped m \<longrightarrow> blk s' m = blk s m) \<and> sector s' = sector s"
    and put_at: "ok s \<Longrightarrow> at s p n \<Longrightarrow> mapped n \<Longrightarrow> List.length xs = bs \<Longrightarrow>
      \<exists>e s'. put p xs s = Some (e, s') \<and> ok s' \<and> (\<forall>m. mapped m \<longrightarrow> blk s' m = (if m = n then xs else blk s m)) \<and> (\<forall>k. k \<notin> area n \<longrightarrow> sector s' k = sector s k)"
    and page_size: "ok s \<Longrightarrow> mapped n \<Longrightarrow> List.length (blk s n) = bs"
    and sizes: "ok s \<Longrightarrow> 0 < bs \<and> lim \<le> 2 ^ 32"
begin

text \<open>\<open>covers pos e\<close>: all bytes from \<open>pos\<close> to \<open>e\<close> lie in mapped pages, and the page where \<open>e\<close> lies is in range.\<close>

definition covers :: "nat \<Rightarrow> nat \<Rightarrow> bool" where
  "covers pos e \<longleftrightarrow> pos \<le> e \<and> e < 2 ^ 32 \<and> e div bs < lim \<and> (\<forall>m. pos \<le> m \<and> m < e \<longrightarrow> mapped (m div bs))"

lemma page_of_chunk:
  assumes "0 < bs" "covers pos e" "pos div bs \<le> k" "k \<le> e div bs" "\<not> mapped k"
  shows "k = e div bs" "chunk_from bs pos e k = e"
proof -
  let ?c = "chunk_from bs pos e"
  note b = chunk_bounds [OF assms(1,3,4)]
  have pe: "pos \<le> e" using assms(2) by (simp add: covers_def)
  have eq: "?c k = ?c (Suc k)"
  proof (rule ccontr)
    assume "?c k \<noteq> ?c (Suc k)"
    then have lt: "?c k < ?c (Suc k)" using b(1) [OF pe] by simp
    then have "?c k div bs = k" using b(2,3) [OF pe] by (intro div_nat_eqI) (simp_all add: mult.commute)
    moreover have "mapped (?c k div bs)" using assms(2) lt b(4,5) [OF pe] by (simp add: covers_def)
    ultimately show False using assms(5) by simp
  qed
  show k: "k = e div bs"
  proof (rule ccontr)
    assume "k \<noteq> e div bs"
    then have "?c (Suc k) = Suc k * bs" using chunk_eq(2) [OF assms(1,3,4) pe] by simp
    moreover have "?c k < Suc k * bs"
    proof (cases "k = pos div bs")
      case True
      then show ?thesis using chunk_eq(1) [OF assms(1,3,4) pe] assms(1) by (simp add: dividend_less_div_times add.commute)
    next
      case False
      then show ?thesis using chunk_eq(1) [OF assms(1,3,4) pe] assms(1) by simp
    qed
    ultimately show False using eq by simp
  qed
  then show "?c k = e" using chunk_eq(2) [OF assms(1,3,4) pe] eq by simp
qed

text \<open>The facts about one page of the loop.\<close>

lemma page_step:
  assumes "ok s" "part_ok part bs pos e" "pos \<le> e" "e < 2 ^ 32" "k < lim" "pos div bs \<le> k" "k \<le> e div bs" "unat cur = chunk_from bs pos e k - pos"
  shows "unat (of_nat k :: u32) = k" "0 < bs"
    "unat (fst (part (of_nat k))) = chunk_from bs pos e k - k * bs" "unat (snd (part (of_nat k))) = chunk_from bs pos e (Suc k) - chunk_from bs pos e k"
    "unat (fst (part (of_nat k))) + unat (snd (part (of_nat k))) \<le> bs" "unat (cur + snd (part (of_nat k))) = chunk_from bs pos e (Suc k) - pos"
    "unat cur + unat (snd (part (of_nat k))) = chunk_from bs pos e (Suc k) - pos"
proof -
  show z: "0 < bs" using sizes [OF assms(1)] by simp
  show "unat (of_nat k :: u32) = k" using sizes [OF assms(1)] assms(5) by (simp add: unat_of_nat_u32)
  note c = chunk_bounds [OF z assms(6,7,3)]
  show p: "unat (fst (part (of_nat k))) = chunk_from bs pos e k - k * bs" "unat (snd (part (of_nat k))) = chunk_from bs pos e (Suc k) - chunk_from bs pos e k"
    using assms(2,6,7) by (simp_all add: part_ok_def)
  show "unat (fst (part (of_nat k))) + unat (snd (part (of_nat k))) \<le> bs" unfolding p using c(1-3) by simp
  show n: "unat cur + unat (snd (part (of_nat k))) = chunk_from bs pos e (Suc k) - pos" unfolding p assms(8) using c(1,5) by simp
  then have "unat cur + unat (snd (part (of_nat k))) < 2 ^ 32" using c(4) assms(4) by simp
  then show "unat (cur + snd (part (of_nat k))) = chunk_from bs pos e (Suc k) - pos" using n by (simp add: unat_word_ariths)
qed

text \<open>
  The loops stop at the first page \<open>h\<close> that is not mapped, or behind the page where \<open>e\<close> lies; up to there they copy. A range that is covered is
  copied to its end.
\<close>

definition stops :: "nat \<Rightarrow> nat \<Rightarrow> nat \<Rightarrow> bool" where
  "stops pos e h \<longleftrightarrow> pos \<le> e \<and> e < 2 ^ 32 \<and> pos div bs \<le> h \<and> (\<forall>k. pos div bs \<le> k \<and> k < h \<longrightarrow> k < lim \<and> mapped k)
     \<and> (h = Suc (e div bs) \<or> h \<le> e div bs \<and> h < lim \<and> \<not> mapped h)"

lemma stopsD:
  assumes "stops pos e h"
  shows "pos \<le> e" "e < 2 ^ 32" "\<And>k. pos div bs \<le> k \<Longrightarrow> k < h \<Longrightarrow> k < lim \<and> mapped k" "h \<le> Suc (e div bs)"
    "h = Suc (e div bs) \<or> h \<le> e div bs \<and> h < lim \<and> \<not> mapped h"
  using assms by (auto simp: stops_def)

lemma chunk_mono:
  assumes "0 < bs" "i \<le> j" "j \<le> Suc (e div bs)" "pos \<le> e"
  shows "chunk_from bs pos e i \<le> chunk_from bs pos e j" "pos \<le> chunk_from bs pos e i" "chunk_from bs pos e i \<le> e"
proof -
  have ij: "i * bs \<le> j * bs" using assms(2) by simp
  have e: "l * bs \<le> e" if "l \<le> e div bs" for l using that by (meson div_times_less_eq_dividend le_trans mult_le_mono1)
  show "chunk_from bs pos e i \<le> chunk_from bs pos e j" "pos \<le> chunk_from bs pos e i" "chunk_from bs pos e i \<le> e"
    using assms(2-4) e [of i] max.mono [OF order.refl ij, of pos] by (auto simp: chunk_from_def)
qed

lemma covers_stops:
  assumes "0 < bs" "covers pos e"
  shows "\<exists>h. stops pos e h \<and> chunk_from bs pos e h = e"
proof -
  have c: "pos \<le> e" "e < 2 ^ 32" "e div bs < lim" using assms(2) by (simp_all add: covers_def)
  have d: "pos div bs \<le> e div bs" using c(1) by (rule div_le_mono)
  have m: "mapped k" if "pos div bs \<le> k" "k < e div bs" for k
    using page_of_chunk(1) [OF assms that(1)] that(2) by fastforce
  show ?thesis
  proof (cases "mapped (e div bs)")
    case True
    then have "mapped k" if "pos div bs \<le> k" "k < Suc (e div bs)" for k using m that by (cases "k = e div bs") auto
    then have "stops pos e (Suc (e div bs))" using c d by (simp add: stops_def)
    then show ?thesis by (intro exI [of _ "Suc (e div bs)"]) (simp add: chunk_from_def)
  next
    case False
    then have "stops pos e (e div bs)" using c d m by (simp add: stops_def)
    then show ?thesis using page_of_chunk(2) [OF assms d le_refl False] by blast
  qed
qed

lemma read_pages_upto:
  assumes "ok s" "part_ok part bs pos e" "stops pos e h" "chunk_from bs pos e h - pos \<le> List.length buf"
    and "pos div bs \<le> k" "k \<le> h" "unat cur = chunk_from bs pos e k - pos"
  shows "\<exists>s'. read_pages get p_bytes part (map of_nat [k..<Suc (e div bs)]) buf cur s
      = Some (put_bytes (unat cur) (map (file_byte bs (blk s)) [chunk_from bs pos e k..<chunk_from bs pos e h]) buf, of_nat (chunk_from bs pos e h - pos), s')
    \<and> ok s' \<and> (\<forall>m. mapped m \<longrightarrow> blk s' m = blk s m) \<and> sector s' = sector s"
  using assms
proof (induction "h - k" arbitrary: k buf cur s)
  case 0
  note sp = stopsD [OF "0.prems"(3)]
  have k: "k = h" using 0 by simp
  have "of_nat (unat cur) = cur" by simp
  then have "cur = of_nat (chunk_from bs pos e h - pos)" unfolding "0.prems"(7) k by (rule sym)
  moreover have "\<exists>s'. read_pages get p_bytes part (map of_nat [h..<Suc (e div bs)]) buf cur s = Some (buf, cur, s') \<and> ok s'
      \<and> (\<forall>m. mapped m \<longrightarrow> blk s' m = blk s m) \<and> sector s' = sector s"
  proof (cases "h = Suc (e div bs)")
    case True
    then show ?thesis using "0.prems"(1) by simp
  next
    case False
    then have hm: "h \<le> e div bs" "h < lim" "\<not> mapped h" using sp(5) by auto
    then have hs: "[h..<Suc (e div bs)] = h # [Suc h..<Suc (e div bs)]" by (simp add: upt_conv_Cons)
    have "unat (of_nat h :: u32) = h" using hm(2) sizes [OF "0.prems"(1)] by (simp add: unat_of_nat_u32)
    then show ?thesis using get_unmapped [OF "0.prems"(1), of "of_nat h"] hm(2,3) unfolding hs by auto
  qed
  ultimately show ?case using k by (simp del: upt_Suc)
next
  case (Suc n)
  let ?c = "chunk_from bs pos e"
  note sp = stopsD [OF Suc.prems(3)]
  have kh: "k < h" and n: "n = h - Suc k" using Suc.hyps(2) by simp_all
  have k: "k \<le> e div bs" using kh sp(4) by simp
  have km: "k < lim" "mapped k" using sp(3) [OF Suc.prems(5) kh] by simp_all
  have ks: "[k..<Suc (e div bs)] = k # [Suc k..<Suc (e div bs)]" using k by (simp add: upt_conv_Cons)
  note st = page_step [OF Suc.prems(1,2) sp(1,2) km(1) Suc.prems(5) k Suc.prems(7)]
  note cb = chunk_bounds [OF st(2) Suc.prems(5) k sp(1)]
  note cm = chunk_mono [OF st(2) Suc_leI [OF kh] sp(4,1)]
  obtain off cnt where oc: "part (of_nat k) = (off, cnt)" by fastforce
  obtain p s1 where g: "get (of_nat k) s = Some (Inr p, s1)" "ok s1" "p_bytes s1 p = blk s k" "\<forall>m. mapped m \<longrightarrow> blk s1 m = blk s m" "sector s1 = sector s"
    using get_mapped [OF Suc.prems(1), of "of_nat k"] st(1) km by auto
  have len: "List.length (blk s k) = bs" by (rule page_size [OF Suc.prems(1) km(2)])
  let ?xs = "map (file_byte bs (blk s)) [?c k..<?c (Suc k)]"
  have sl: "take (unat cnt) (drop (unat off) (blk s k)) = ?xs" using st(3,4) page_slice [of "blk s" k bs, OF len cb(3,1,2)] oc by simp
  let ?buf = "put_bytes (unat cur) ?xs buf"
  have inb: "unat cur + unat cnt \<le> List.length buf" using st(7) Suc.prems(4) cm(1) oc by simp
  have lb: "List.length ?buf = List.length buf" using st(4) inb oc by simp
  obtain s' where r: "read_pages get p_bytes part (map of_nat [Suc k..<Suc (e div bs)]) ?buf (cur + cnt) s1
      = Some (put_bytes (unat (cur + cnt)) (map (file_byte bs (blk s1)) [?c (Suc k)..<?c h]) ?buf, of_nat (?c h - pos), s')"
    "ok s'" "\<forall>m. mapped m \<longrightarrow> blk s' m = blk s1 m" "sector s' = sector s1"
    using Suc.hyps(1) [OF n g(2) Suc.prems(2,3), of ?buf "cur + cnt"] Suc.prems(4,5) kh lb st(6) oc by auto
  have "unat (cur + cnt) = unat cur + List.length ?xs" using st(6,7) Suc.prems(7) cb oc st(4) by simp
  moreover have "map (file_byte bs (blk s1)) [?c (Suc k)..<?c h] = map (file_byte bs (blk s)) [?c (Suc k)..<?c h]"
  proof -
    have "mapped (m div bs)" if "?c (Suc k) \<le> m" "m < ?c h" for m
    proof -
      have "pos \<le> m" using that(1) cm(2) by simp
      then have "pos div bs \<le> m div bs" by (rule div_le_mono)
      moreover have "m div bs < h"
      proof (rule ccontr)
        assume "\<not> m div bs < h"
        then have hb: "h * bs \<le> m" using st(2) by (simp add: not_less less_eq_div_iff_mult_less_eq)
        have "m < e" using that(2) chunk_mono(3) [OF st(2) le_refl sp(4,1)] by simp
        then have "m div bs \<le> e div bs" by (intro div_le_mono) simp
        then have "h \<le> e div bs" using \<open>\<not> m div bs < h\<close> by simp
        then have "?c h = max pos (h * bs)" by (simp add: chunk_from_def)
        then show False using that(2) hb \<open>pos \<le> m\<close> by simp
      qed
      ultimately show ?thesis using sp(3) by blast
    qed
    then show ?thesis using g(4) by (auto simp: file_byte_def)
  qed
  moreover have "?xs @ map (file_byte bs (blk s)) [?c (Suc k)..<?c h] = map (file_byte bs (blk s)) [?c k..<?c h]"
    using cb(1) cm(1) upt_split [of "?c k" "?c (Suc k)" "?c h"] by simp
  moreover have "unat cur + List.length ?xs + List.length (map (file_byte bs (blk s)) [?c (Suc k)..<?c h]) \<le> List.length buf"
    using Suc.prems(4,7) cb cm by simp
  ultimately have "put_bytes (unat (cur + cnt)) (map (file_byte bs (blk s1)) [?c (Suc k)..<?c h]) ?buf = put_bytes (unat cur) (map (file_byte bs (blk s)) [?c k..<?c h]) buf"
    by (simp only: put_bytes_append)
  then show ?case using g r st(5) inb len oc sl by (simp add: ks del: upt_Suc)
qed

text \<open>Writing a part of a page writes the bytes of the file there.\<close>

lemma put_part:
  assumes "List.length (b k) = bs" "k * bs \<le> x" "x \<le> y" "y \<le> Suc k * bs" "pos \<le> x" "y - pos \<le> List.length buf" "0 < bs"
  defines "xs \<equiv> put_bytes (x - k * bs) (take (y - x) (drop (x - pos) buf)) (b k)"
  shows "List.length xs = bs" "file_byte bs (b(k := xs)) m = (if x \<le> m \<and> m < y then buf ! (m - pos) else file_byte bs b m)"
proof -
  have l: "List.length (take (y - x) (drop (x - pos) buf)) = y - x" using assms by simp
  show "List.length xs = bs" unfolding xs_def using assms(1-4) l by (simp add: algebra_simps)
  show "file_byte bs (b(k := xs)) m = (if x \<le> m \<and> m < y then buf ! (m - pos) else file_byte bs b m)"
  proof (cases "m div bs = k")
    case False
    have "m div bs = k" if "x \<le> m" "m < y" using that assms(2,4) by (intro div_nat_eqI) (simp_all add: mult.commute)
    then have "\<not> (x \<le> m \<and> m < y)" using False by blast
    then show ?thesis unfolding if_not_P [OF \<open>\<not> (x \<le> m \<and> m < y)\<close>] using False by (simp add: file_byte_def)
  next
    case True
    define i where "i = m mod bs"
    have m: "m = k * bs + i" using True div_mult_mod_eq [of m bs] by (simp add: i_def)
    have ib: "i < bs" using assms(7) by (simp add: i_def)
    have xi: "x \<le> m \<longleftrightarrow> x - k * bs \<le> i" "m < y \<longleftrightarrow> i < y - k * bs" using assms(2,3) m by auto
    have "xs ! i = (if x \<le> m \<and> m < y then buf ! (m - pos) else b k ! i)"
    proof (cases "x \<le> m")
      case False
      then show ?thesis using xi assms(1,2,4) m ib by (simp add: xs_def put_bytes_def nth_append l)
    next
      case x: True
      have d: "i - (x - k * bs) = m - x" using m assms(2) x by simp
      show ?thesis
      proof (cases "m < y")
        case True
        have "x - pos + (m - x) = m - pos" "x - pos \<le> List.length buf" using x assms(3,5,6) by simp_all
        then have "drop (x - pos) buf ! (m - x) = buf ! (m - pos)" by simp
        moreover have "m - x < y - x" using x True by simp
        moreover have "x - k * bs \<le> List.length (b k)" using assms(1-4) by simp
        ultimately show ?thesis using x True xi d l assms(6) by (simp add: xs_def put_bytes_def nth_append)
      next
        case False
        have "x + (y - x) = y" "y - k * bs + (m - y) = i" "\<not> m - x < y - x" using False m x assms(2,3) by simp_all
        moreover have "x - k * bs + (y - x) = y - k * bs" using assms(2,3) by simp
        moreover have "x - k * bs \<le> List.length (b k)" "i < List.length (b k)" using assms(1-4) ib by simp_all
        ultimately show ?thesis using x False xi d l by (simp add: xs_def put_bytes_def nth_append)
      qed
    qed
    then show ?thesis using True by (simp add: file_byte_def i_def)
  qed
qed

lemma write_pages_upto:
  assumes "ok s" "part_ok part bs pos e" "stops pos e h" "chunk_from bs pos e h - pos \<le> List.length buf"
    and "pos div bs \<le> k" "k \<le> h" "unat cur = chunk_from bs pos e k - pos"
  shows "\<exists>s'. write_pages get p_bytes put part (map of_nat [k..<Suc (e div bs)]) buf cur s = Some (of_nat (chunk_from bs pos e h - pos), s') \<and> ok s'
    \<and> (\<forall>m. mapped (m div bs) \<longrightarrow> file_byte bs (blk s') m = (if chunk_from bs pos e k \<le> m \<and> m < chunk_from bs pos e h then buf ! (m - pos) else file_byte bs (blk s) m))
    \<and> (\<forall>x. (\<forall>n. k \<le> n \<and> n < h \<longrightarrow> x \<notin> area n) \<longrightarrow> sector s' x = sector s x)"
  using assms
proof (induction "h - k" arbitrary: k cur s)
  case 0
  note sp = stopsD [OF "0.prems"(3)]
  have k: "k = h" using 0 by simp
  have "of_nat (unat cur) = cur" by simp
  then have "cur = of_nat (chunk_from bs pos e h - pos)" unfolding "0.prems"(7) k by (rule sym)
  moreover have "\<exists>s'. write_pages get p_bytes put part (map of_nat [h..<Suc (e div bs)]) buf cur s = Some (cur, s') \<and> ok s'
      \<and> (\<forall>m. mapped m \<longrightarrow> blk s' m = blk s m) \<and> sector s' = sector s"
  proof (cases "h = Suc (e div bs)")
    case True
    then show ?thesis using "0.prems"(1) by simp
  next
    case False
    then have hm: "h \<le> e div bs" "h < lim" "\<not> mapped h" using sp(5) by auto
    then have hs: "[h..<Suc (e div bs)] = h # [Suc h..<Suc (e div bs)]" by (simp add: upt_conv_Cons)
    have "unat (of_nat h :: u32) = h" using hm(2) sizes [OF "0.prems"(1)] by (simp add: unat_of_nat_u32)
    then show ?thesis using get_unmapped [OF "0.prems"(1), of "of_nat h"] hm(2,3) unfolding hs by auto
  qed
  ultimately show ?case using k by (auto simp: file_byte_def simp del: upt_Suc)
next
  case (Suc n)
  let ?c = "chunk_from bs pos e"
  note sp = stopsD [OF Suc.prems(3)]
  have kh: "k < h" and n: "n = h - Suc k" using Suc.hyps(2) by simp_all
  have k: "k \<le> e div bs" using kh sp(4) by simp
  have km: "k < lim" "mapped k" using sp(3) [OF Suc.prems(5) kh] by simp_all
  have ks: "[k..<Suc (e div bs)] = k # [Suc k..<Suc (e div bs)]" using k by (simp add: upt_conv_Cons)
  note st = page_step [OF Suc.prems(1,2) sp(1,2) km(1) Suc.prems(5) k Suc.prems(7)]
  note cb = chunk_bounds [OF st(2) Suc.prems(5) k sp(1)]
  note cm = chunk_mono [OF st(2) Suc_leI [OF kh] sp(4,1)]
  obtain off cnt where oc: "part (of_nat k) = (off, cnt)" by fastforce
  obtain p s1 where g: "get (of_nat k) s = Some (Inr p, s1)" "ok s1" "at s1 p k" "p_bytes s1 p = blk s k" "\<forall>m. mapped m \<longrightarrow> blk s1 m = blk s m"
      "sector s1 = sector s"
    using get_mapped [OF Suc.prems(1), of "of_nat k"] st(1) km by auto
  have len: "List.length (blk s k) = bs" by (rule page_size [OF Suc.prems(1) km(2)])
  define xs where "xs = put_bytes (?c k - k * bs) (take (?c (Suc k) - ?c k) (drop (?c k - pos) buf)) (blk s k)"
  have yb: "?c (Suc k) - pos \<le> List.length buf" using cm(1) Suc.prems(4) by simp
  note pp = put_part [of "blk s" k "?c k" "?c (Suc k)" pos buf, OF len cb(3,1,2,5) yb st(2), folded xs_def]
  obtain x s2 where pt: "put p xs s1 = Some (x, s2)" "ok s2" "\<forall>m. mapped m \<longrightarrow> blk s2 m = (if m = k then xs else blk s1 m)"
      "\<forall>y. y \<notin> area k \<longrightarrow> sector s2 y = sector s1 y"
    using put_at [OF g(2,3) km(2) pp(1)] by blast
  have b2: "file_byte bs (blk s2) m = (if ?c k \<le> m \<and> m < ?c (Suc k) then buf ! (m - pos) else file_byte bs (blk s) m)" if "mapped (m div bs)" for m
  proof -
    have "blk s2 (m div bs) = ((blk s)(k := xs)) (m div bs)" using pt(3) g(5) that by simp
    then have "file_byte bs (blk s2) m = file_byte bs ((blk s)(k := xs)) m" by (simp only: file_byte_def)
    then show ?thesis by (simp only: pp(2))
  qed
  obtain s' where r: "write_pages get p_bytes put part (map of_nat [Suc k..<Suc (e div bs)]) buf (cur + cnt) s2 = Some (of_nat (?c h - pos), s')" "ok s'"
    "\<forall>m. mapped (m div bs) \<longrightarrow> file_byte bs (blk s') m = (if ?c (Suc k) \<le> m \<and> m < ?c h then buf ! (m - pos) else file_byte bs (blk s2) m)"
    "\<forall>y. (\<forall>n. Suc k \<le> n \<and> n < h \<longrightarrow> y \<notin> area n) \<longrightarrow> sector s' y = sector s2 y"
    using Suc.hyps(1) [OF n pt(2) Suc.prems(2-4), of "cur + cnt"] Suc.prems(5) kh st(6) oc by auto
  have "file_byte bs (blk s') m = (if ?c k \<le> m \<and> m < ?c h then buf ! (m - pos) else file_byte bs (blk s) m)" if "mapped (m div bs)" for m
    using r(3) b2 [OF that] that cb(1) cm(1) by auto
  moreover have "sector s' y = sector s y" if "\<forall>n. k \<le> n \<and> n < h \<longrightarrow> y \<notin> area n" for y
    using r(4) pt(4) g(6) that kh by simp
  moreover have "write_pages get p_bytes put part (map of_nat [k..<Suc (e div bs)]) buf cur s = Some (of_nat (?c h - pos), s')"
    using g pt(1) r(1) st(3-5,7) yb Suc.prems(7) len oc by (simp add: ks xs_def del: upt_Suc)
  ultimately show ?case using r(2) by blast
qed

end

section \<open>The page cache as the source of pages\<close>

text \<open>
  A file whose first 12 blocks are its own: \<open>inos\<close>, \<open>sbs\<close> and the sectors \<open>secs\<close> that belong to no file stay what they are.
\<close>

definition map_ok :: "(u32 \<Rightarrow> nat) \<Rightarrow> nat \<Rightarrow> vfs_state \<Rightarrow> nat \<Rightarrow> bool" where
  "map_ok own sb s host \<longleftrightarrow> (let page = i_page (vs_inodes s host) in (\<forall>n < 12. page ! n \<noteq> 0 \<longrightarrow> loc_ok own sb s host (page ! n))
     \<and> (\<forall>n < 12. \<forall>m < 12. page ! n = page ! m \<and> page ! n \<noteq> 0 \<longrightarrow> n = m))"

definition io_ok :: "(u32 \<Rightarrow> nat) \<Rightarrow> nat \<Rightarrow> (nat \<Rightarrow> inode) \<Rightarrow> (nat \<Rightarrow> ext2_base_information) \<Rightarrow> (u32 \<Rightarrow> u8 list) \<Rightarrow> nat \<Rightarrow> vfs_state \<Rightarrow> bool" where
  "io_ok own sb inos sbs secs host s \<longleftrightarrow> pages_ok own sb s \<and> vs_inodes s = inos \<and> vs_sbs s = sbs \<and> file_ok sb s host \<and> map_ok own sb s host
     \<and> (\<forall>k. meta_sect own s sb k \<longrightarrow> sectors (vs_disk s) k = secs k)"

lemma map_ok_same_host:
  assumes "vs_sbs s' = vs_sbs s" "i_page (vs_inodes s' host) = i_page (vs_inodes s host)" "i_sb (vs_inodes s' host) = i_sb (vs_inodes s host)"
    "i_blksize (vs_inodes s' host) = i_blksize (vs_inodes s host)"
  shows "map_ok own sb s' host = map_ok own sb s host" "file_ok sb s' host = file_ok sb s host"
  by (simp_all only: map_ok_def loc_ok_def fs_spb_def file_ok_def assms)

lemma map_ok_cong:
  assumes "vs_inodes s' = vs_inodes s" "vs_sbs s' = vs_sbs s"
  shows "map_ok own sb s' host = map_ok own sb s host" "file_ok sb s' host = file_ok sb s host" "meta_sect own s' sb k = meta_sect own s sb k"
  by (simp_all only: map_ok_def loc_ok_def fs_spb_def file_ok_def meta_sect_def fs_sect_def assms)

lemma pages_ok_card: "pages_ok own sb s \<Longrightarrow> disk_ok (vs_disk s) \<and> blksize_ok (ex_blksize (vs_sbs s sb))"
  by (simp add: pages_ok_def pages_core_def)

lemma loc_data_length: "pages_ok own sb s \<Longrightarrow> List.length (loc_data s sb loc) = unat (ex_blksize (vs_sbs s sb))"
  using pages_ok_card [of own sb s] blksize_okD(3) by (simp add: loc_data_def fs_spb_def)

text \<open>The sectors of a block.\<close>

definition block_area :: "ext2_base_information \<Rightarrow> u32 \<Rightarrow> u32 set" where
  "block_area e b = {k. unat (k - (ex_base e + b * drop_bit SECTOR_SHIFT (ex_blksize e))) < unat (ex_blksize e) div SECSIZE}"

lemma block_area_eq: "k \<in> block_area (vs_sbs s sb) b \<longleftrightarrow> unat (k - fs_sect s sb b) < fs_spb s sb"
  by (simp add: block_area_def fs_sect_def fs_spb_def)

lemma io_get:
  assumes "io_ok own sb inos sbs secs host s" "unat no < 12"
  defines "b \<equiv> i_page (inos host) ! unat no"
  shows "\<exists>r s'. pcache_get_page host no s = Some (r, s') \<and> io_ok own sb inos sbs secs host s' \<and> loc_data s' sb = loc_data s sb
    \<and> sectors (vs_disk s') = sectors (vs_disk s) \<and> (if b = 0 then \<exists>e. r = Inl e else \<exists>p. r = Inr p \<and> p \<in> cached s' \<and> page_loc s' p = b \<and> page_bytes s' p = loc_data s sb b)"
proof -
  have i: "pages_ok own sb s" "vs_inodes s = inos" "vs_sbs s = sbs" "file_ok sb s host" "map_ok own sb s host"
    "\<And>k. meta_sect own s sb k \<Longrightarrow> sectors (vs_disk s) k = secs k" using assms(1) by (simp_all add: io_ok_def)
  have b: "b = block_of s host (unat no)" using assms(2) by (simp add: file_block_def block_tree_def b_def i(2))
  have lim: "unat no < page_limit s sb" using assms(2) by (simp add: page_limit_def Let_def)
  have lo: "b \<noteq> 0 \<Longrightarrow> loc_ok own sb s host b" using i(5) assms(2) by (simp add: map_ok_def b_def i(2) Let_def)
  obtain r s' where g: "pcache_get_page host no s = Some (r, s')"
    "if b = 0 then r = Inl (- EINVAL) \<and> pages_ok own sb s' \<and> same_files s s' \<and> vs_pcache s' = vs_pcache s else \<exists>p. r = Inr p \<and> found_page own sb s host b p s'"
    using get_page_ok [OF i(1,4) lim b lo] by blast
  then have s': "pages_ok own sb s'" "same_files s s'" by (auto simp: found_page_def split: if_splits)
  note f = same_filesD [OF s'(2)]
  have sc: "sectors (vs_disk s') = sectors (vs_disk s)" using s'(2) by (simp add: same_files_def same_card_def)
  then have "io_ok own sb inos sbs secs host s'"
    using i s'(1) f(4,5) map_ok_cong [OF f(4,5)] by (simp add: io_ok_def)
  then show ?thesis
    using g f(1) sc by (auto simp: found_page_def page_bytes_def split: if_splits)
qed

lemma io_put:
  assumes "io_ok own sb inos sbs secs host s" "p \<in> cached s" "page_loc s p = i_page (inos host) ! n" "n < 12" "i_page (inos host) ! n \<noteq> 0"
    and "List.length xs = unat (ex_blksize (sbs sb))"
  shows "\<exists>e s'. put_page p xs s = Some (e, s') \<and> io_ok own sb inos sbs secs host s'
    \<and> (\<forall>m. m < 12 \<and> i_page (inos host) ! m \<noteq> 0 \<longrightarrow> loc_data s' sb (i_page (inos host) ! m) = (if m = n then xs else loc_data s sb (i_page (inos host) ! m)))
    \<and> (\<forall>k. k \<notin> block_area (sbs sb) (i_page (inos host) ! n) \<longrightarrow> sectors (vs_disk s') k = sectors (vs_disk s) k)"
proof -
  have i: "pages_ok own sb s" "vs_inodes s = inos" "vs_sbs s = sbs" "file_ok sb s host" "map_ok own sb s host"
    "\<And>k. meta_sect own s sb k \<Longrightarrow> sectors (vs_disk s) k = secs k" using assms(1) by (simp_all add: io_ok_def)
  let ?b = "\<lambda>m. i_page (inos host) ! m"
  have len: "List.length xs = fs_spb s sb * SECSIZE" using assms(6) blksize_okD(3) pages_ok_card [OF i(1)] by (simp add: fs_spb_def i(3))
  obtain s' where w: "put_page p xs s = Some (0, s')" "pages_ok own sb s'" "vs_inodes s' = inos" "vs_sbs s' = sbs"
    "sectors (vs_disk s') = written (fs_sect s sb (?b n)) (fs_spb s sb) xs (sectors (vs_disk s))"
    "\<forall>loc. loc_fits s sb loc \<longrightarrow> loc_data s' sb loc = (if loc = ?b n then xs else loc_data s sb loc)"
    using put_page_ok [OF i(1) assms(2) len] by (auto simp: assms(3) i(2,3))
  have lo: "loc_ok own sb s host (?b m)" if "m < 12" "?b m \<noteq> 0" for m using i(5) that by (simp add: map_ok_def i(2) Let_def)
  have "own (?b n) \<noteq> NULL" using lo [OF assms(4,5)] by (simp add: loc_ok_def)
  then have "sectors (vs_disk s') k = secs k" if "meta_sect own s' sb k" for k
  proof -
    have mk: "meta_sect own s sb k" using that by (simp add: meta_sect_def fs_spb_def fs_sect_def w(4) i(3))
    then have "\<not> unat (k - fs_sect s sb (?b n)) < fs_spb s sb" using \<open>own (?b n) \<noteq> NULL\<close> by (auto simp: meta_sect_def not_less)
    then show ?thesis using i(6) [OF mk] by (simp add: w(5) written_def)
  qed
  moreover have "file_ok sb s' host" "map_ok own sb s' host" using i(4,5) map_ok_cong [of s' s] w(3,4) i(2,3) by simp_all
  ultimately have "io_ok own sb inos sbs secs host s'" using w(2-4) by (simp add: io_ok_def)
  moreover have "loc_data s' sb (?b m) = (if m = n then xs else loc_data s sb (?b m))" if "m < 12" "?b m \<noteq> 0" for m
  proof -
    have "loc_fits s sb (?b m)" using lo [OF that] by (simp add: loc_ok_def loc_fits_def)
    moreover have "?b m = ?b n \<longleftrightarrow> m = n" using i(5) that assms(4) by (auto simp: map_ok_def i(2) Let_def)
    ultimately show ?thesis using w(6) by simp
  qed
  moreover have "sectors (vs_disk s') k = sectors (vs_disk s) k" if "k \<notin> block_area (sbs sb) (?b n)" for k
    using that block_area_eq [of k s sb "?b n"] by (simp add: i(3) w(5) written_def)
  ultimately show ?thesis using w(1) by blast
qed

interpretation fio: page_source "pcache_get_page host" page_bytes put_page "io_ok own sb inos sbs secs host"
  "\<lambda>s p n. p \<in> cached s \<and> page_loc s p = i_page (inos host) ! n" "\<lambda>s n. loc_data s sb (i_page (inos host) ! n)"
  "\<lambda>n. n < 12 \<and> i_page (inos host) ! n \<noteq> 0" "\<lambda>s. sectors (vs_disk s)" "\<lambda>n. block_area (sbs sb) (i_page (inos host) ! n)" "unat (ex_blksize (sbs sb))" 12
proof (unfold_locales, goal_cases)
  case (1 s no)
  then show ?case using io_get [of own sb inos sbs secs host s no] by fastforce
next
  case (2 s no)
  then show ?case using io_get [of own sb inos sbs secs host s no] by fastforce
next
  case (3 s p n xs)
  then show ?case using io_put [of own sb inos sbs secs host s p n xs] by blast
next
  case (4 s n)
  then show ?case using loc_data_length [of own sb s] by (simp add: io_ok_def)
next
  case (5 s)
  then show ?case using pages_ok_card [of own sb s] blksize_okD(4) by (auto simp: io_ok_def blksize_ok_def)
qed

section \<open>Files as arrays of bytes\<close>

definition file_io_ok :: "(u32 \<Rightarrow> nat) \<Rightarrow> nat \<Rightarrow> nat \<Rightarrow> vfs_state \<Rightarrow> bool" where
  "file_io_ok own sb host s \<longleftrightarrow> io_ok own sb (vs_inodes s) (vs_sbs s) (sectors (vs_disk s)) host s"

definition file_at :: "vfs_state \<Rightarrow> nat \<Rightarrow> nat \<Rightarrow> nat \<Rightarrow> u8" where
  "file_at s sb host = file_byte (unat (ex_blksize (vs_sbs s sb))) (\<lambda>n. loc_data s sb (i_page (vs_inodes s host) ! n))"

text \<open>
  Byte \<open>m\<close> has a block, one of the first 12 of the file. All bytes from \<open>pos\<close> to \<open>e\<close> have one; and the page of \<open>e\<close> has a number below 12. The
  sectors of the blocks with the bytes from \<open>a\<close> to \<open>b\<close>.
\<close>

definition has_block :: "vfs_state \<Rightarrow> nat \<Rightarrow> nat \<Rightarrow> nat \<Rightarrow> bool" where
  "has_block s sb host m \<longleftrightarrow> m div unat (ex_blksize (vs_sbs s sb)) < 12 \<and> i_page (vs_inodes s host) ! (m div unat (ex_blksize (vs_sbs s sb))) \<noteq> 0"

definition in_blocks :: "vfs_state \<Rightarrow> nat \<Rightarrow> nat \<Rightarrow> nat \<Rightarrow> nat \<Rightarrow> bool" where
  "in_blocks s sb host pos e \<longleftrightarrow> (let bs = unat (ex_blksize (vs_sbs s sb)) in pos \<le> e \<and> e < 12 * bs
     \<and> (\<forall>m. pos \<le> m \<and> m < e \<longrightarrow> i_page (vs_inodes s host) ! (m div bs) \<noteq> 0))"

definition part_area :: "vfs_state \<Rightarrow> nat \<Rightarrow> nat \<Rightarrow> nat \<Rightarrow> nat \<Rightarrow> u32 set" where
  "part_area s sb host a b = (let bs = unat (ex_blksize (vs_sbs s sb)); page = i_page (vs_inodes s host) in
     {k. \<exists>n < 12. a div bs \<le> n \<and> n \<le> b div bs \<and> page ! n \<noteq> 0 \<and> k \<in> block_area (vs_sbs s sb) (page ! n)})"

lemma in_blocks_has: "in_blocks s sb host pos e \<Longrightarrow> pos \<le> m \<Longrightarrow> m < e \<Longrightarrow> has_block s sb host m"
proof -
  assume a: "in_blocks s sb host pos e" "pos \<le> m" "m < e"
  then have l: "m < 12 * unat (ex_blksize (vs_sbs s sb))" by (simp add: in_blocks_def Let_def)
  then have "m div unat (ex_blksize (vs_sbs s sb)) < 12" by (cases "unat (ex_blksize (vs_sbs s sb)) = 0") (simp_all add: div_less_iff_less_mult)
  then show ?thesis using a by (simp add: in_blocks_def has_block_def Let_def)
qed

lemma in_blocks_covers:
  assumes "io_ok own sb inos sbs secs host s" "in_blocks s sb host pos e"
  shows "fio.covers inos host sbs sb pos e"
proof -
  have i: "vs_inodes s = inos" "vs_sbs s = sbs" "blksize_ok (ex_blksize (sbs sb))" using assms(1) pages_ok_card [of own sb s] by (auto simp: io_ok_def)
  let ?bs = "unat (ex_blksize (sbs sb))"
  have bs: "0 < ?bs" "?bs \<le> 4096" using i(3) by (auto simp: blksize_ok_def)
  have e: "pos \<le> e" "e < 12 * ?bs" "\<And>m. pos \<le> m \<Longrightarrow> m < e \<Longrightarrow> i_page (inos host) ! (m div ?bs) \<noteq> 0"
    using assms(2) by (simp_all add: in_blocks_def i(1,2) Let_def)
  have "m div ?bs < 12" if "m \<le> e" for m using that e(2) bs(1) by (simp add: div_less_iff_less_mult)
  then show ?thesis using e bs by (simp add: fio.covers_def)
qed

text \<open>Where a copy from \<open>pos\<close> to \<open>e\<close> stops.\<close>

abbreviation copy_stops :: "vfs_state \<Rightarrow> nat \<Rightarrow> nat \<Rightarrow> nat \<Rightarrow> nat \<Rightarrow> nat \<Rightarrow> bool" where
  "copy_stops s sb host \<equiv> fio.stops (vs_inodes s) host (vs_sbs s) sb"

abbreviation copy_end :: "vfs_state \<Rightarrow> nat \<Rightarrow> nat \<Rightarrow> nat \<Rightarrow> nat \<Rightarrow> nat" where
  "copy_end s sb \<equiv> chunk_from (unat (ex_blksize (vs_sbs s sb)))"

lemma in_blocks_stops:
  assumes "file_io_ok own sb host s" "in_blocks s sb host pos e"
  shows "\<exists>h. copy_stops s sb host pos e h \<and> copy_end s sb pos e h = e"
proof -
  have io: "io_ok own sb (vs_inodes s) (vs_sbs s) (sectors (vs_disk s)) host s" using assms(1) by (simp add: file_io_ok_def)
  then have "0 < unat (ex_blksize (vs_sbs s sb))" using pages_ok_card [of own sb s] by (auto simp: io_ok_def blksize_ok_def)
  then show ?thesis using in_blocks_covers [OF io assms(2)] by (rule fio.covers_stops)
qed

text \<open>Getting pages writes nothing, so no sector of the card changes.\<close>

lemma read_file:
  assumes "file_io_ok own sb host s" "e = (if pos + cnt < i_size (vs_inodes s host) then pos + cnt else i_size (vs_inodes s host))"
    and "in_blocks s sb host (unat pos) (unat e)" "unat e - unat pos \<le> List.length buf"
  shows "\<exists>s'. generic_file_read host buf cnt pos s = Some (e - pos, put_bytes 0 (map (file_at s sb host) [unat pos..<unat e]) buf, e, s')
    \<and> file_io_ok own sb host s' \<and> vs_inodes s' = vs_inodes s \<and> vs_sbs s' = vs_sbs s \<and> sectors (vs_disk s') = sectors (vs_disk s)"
proof -
  let ?inos = "vs_inodes s" and ?sbs = "vs_sbs s" and ?secs = "sectors (vs_disk s)"
  have io: "io_ok own sb ?inos ?sbs ?secs host s" using assms(1) by (simp add: file_io_ok_def)
  define bz where "bz = ex_blksize (?sbs sb)"
  have b: "i_blksize (?inos host) = bz" "bz \<noteq> 0" using io pages_ok_card [of own sb s] by (auto simp: io_ok_def file_ok_def bz_def blksize_ok_def)
  have cov: "fio.covers ?inos host ?sbs sb (unat pos) (unat e)" by (rule in_blocks_covers [OF io assms(3)])
  then have pe: "pos \<le> e" and lim: "unat (e div bz) < 12" by (simp_all add: fio.covers_def word_le_nat_alt unat_div bz_def)
  obtain h where h: "copy_stops s sb host (unat pos) (unat e) h" "copy_end s sb (unat pos) (unat e) h = unat e" using in_blocks_stops [OF assms(1,3)] by blast
  have ph: "unat pos div unat (ex_blksize (?sbs sb)) \<le> h" using h(1) unfolding fio.stops_def by blast
  have len: "copy_end s sb (unat pos) (unat e) h - unat pos \<le> List.length buf" using h(2) assms(4) by simp
  have part: "part_ok (page_part bz (pos div bz) (pos mod bz) (e div bz) (e mod bz)) (unat bz) (unat pos) (unat e)" by (rule page_part_ok [OF b(2) pe])
  have "unat pos div unat bz \<le> unat e div unat bz" using pe by (simp add: word_le_nat_alt div_le_mono)
  then have "chunk_from (unat bz) (unat pos) (unat e) (unat pos div unat bz) = unat pos" by (simp add: chunk_from_def max_absorb1)
  then obtain s' where r: "read_pages (pcache_get_page host) page_bytes (page_part bz (pos div bz) (pos mod bz) (e div bz) (e mod bz))
      (map of_nat [unat pos div unat bz..<Suc (unat e div unat bz)]) buf 0 s
      = Some (put_bytes 0 (map (file_byte (unat bz) (\<lambda>n. loc_data s sb (i_page (?inos host) ! n))) [unat pos..<unat e]) buf, of_nat (unat e - unat pos), s')"
    "io_ok own sb ?inos ?sbs ?secs host s'" "sectors (vs_disk s') = ?secs"
    using fio.read_pages_upto [OF io part [unfolded bz_def] h(1) len order.refl ph, of 0] h(2) by (auto simp: bz_def)
  have w: "of_nat (unat e - unat pos) = e - pos" using pe by (simp add: of_nat_diff word_le_nat_alt)
  have fa: "file_at s sb host = file_byte (unat bz) (\<lambda>n. loc_data s sb (i_page (?inos host) ! n))" by (simp add: file_at_def bz_def)
  have "e div bz \<noteq> - 1" using lim by auto
  then have run: "generic_file_read host buf cnt pos s = Some (e - pos, put_bytes 0 (map (file_at s sb host) [unat pos..<unat e]) buf, e, s')"
    using r(1) b fa by (simp add: generic_file_read_def assms(2) [symmetric] page_nos_def unat_div w Let_def del: upt_Suc)
  have f: "vs_inodes s' = ?inos" "vs_sbs s' = ?sbs" using r(2) by (simp_all add: io_ok_def)
  have "file_io_ok own sb host s'" using r(2) by (simp add: file_io_ok_def io_ok_def f)
  then show ?thesis using run r(3) f by blast
qed

lemma pages_ok_size:
  assumes "pages_ok own sb s"
  shows "pages_ok own sb (upd_inode host (\<lambda>i. i\<lparr>i_size := z\<rparr>) s)"
proof -
  let ?t = "upd_inode host (\<lambda>i. i\<lparr>i_size := z\<rparr>) s"
  have f: "vs_disk ?t = vs_disk s" "vs_sbs ?t = vs_sbs s" "vs_pcache ?t = vs_pcache s" "vs_pages ?t = vs_pages s" "vs_next ?t = vs_next s"
    "vs_acache ?t = vs_acache s" by (simp_all add: upd_inode_def)
  have "i_sb (vs_inodes ?t h) = i_sb (vs_inodes s h)" "i_blksize (vs_inodes ?t h) = i_blksize (vs_inodes s h)" for h by (simp_all add: upd_inode_def)
  then have "page_ok own sb ?t = page_ok own sb s" by (simp add: page_ok_def loc_ok_def loc_data_def fs_spb_def fs_sect_def f fun_eq_iff)
  moreover have "page_loc ?t = page_loc s" by (simp add: page_loc_def f fun_eq_iff)
  moreover from this have "bucket ?t = bucket s" unfolding bucket_def by (simp add: f)
  ultimately show ?thesis using assms by (simp add: pages_ok_def pages_core_def acache_ok_def f)
qed

lemma write_data:
  assumes "file_io_ok own sb host s" "copy_stops s sb host (unat pos) (unat e) h" "q = copy_end s sb (unat pos) (unat e) h" "q - unat pos \<le> List.length buf"
    and "bz = i_blksize (vs_inodes s host)"
  shows "bz \<noteq> 0 \<and> e div bz \<noteq> - 1 \<and> (\<exists>s'. write_pages (pcache_get_page host) page_bytes put_page (page_part bz (pos div bz) (pos mod bz) (e div bz) (e mod bz))
      (page_nos (pos div bz) (e div bz)) buf 0 s = Some (of_nat (q - unat pos), s')
    \<and> io_ok own sb (vs_inodes s) (vs_sbs s) (sectors (vs_disk s)) host s'
    \<and> (\<forall>m. has_block s sb host m \<longrightarrow> file_at s' sb host m = (if unat pos \<le> m \<and> m < q then buf ! (m - unat pos) else file_at s sb host m))
    \<and> (\<forall>k. k \<notin> part_area s sb host (unat pos) q \<longrightarrow> sectors (vs_disk s') k = sectors (vs_disk s) k))"
proof -
  let ?inos = "vs_inodes s" and ?sbs = "vs_sbs s" and ?secs = "sectors (vs_disk s)"
  have io: "io_ok own sb ?inos ?sbs ?secs host s" using assms(1) by (simp add: file_io_ok_def)
  have b: "ex_blksize (?sbs sb) = bz" "bz \<noteq> 0" "2 \<le> unat bz"
    using io pages_ok_card [of own sb s] assms(5) by (auto simp: io_ok_def file_ok_def blksize_ok_def)
  have st: "unat pos \<le> unat e" "unat pos div unat bz \<le> h" "h \<le> Suc (unat e div unat bz)" "\<And>k. unat pos div unat bz \<le> k \<Longrightarrow> k < h \<Longrightarrow> k < 12 \<and> i_page (?inos host) ! k \<noteq> 0"
    using assms(2) unfolding fio.stops_def unfolding b(1) by auto
  have pe: "pos \<le> e" using st(1) by (simp add: word_le_nat_alt)
  have part: "part_ok (page_part bz (pos div bz) (pos mod bz) (e div bz) (e mod bz)) (unat (ex_blksize (?sbs sb))) (unat pos) (unat e)"
    unfolding b(1) by (rule page_part_ok [OF b(2) pe])
  have d: "unat pos div unat bz \<le> unat e div unat bz" using st(1) by (rule div_le_mono)
  then have c: "chunk_from (unat bz) (unat pos) (unat e) (unat pos div unat bz) = unat pos" by (simp add: chunk_from_def max_absorb1)
  have q: "q = chunk_from (unat bz) (unat pos) (unat e) h" using assms(3) by (simp add: b(1))
  obtain s' where r: "write_pages (pcache_get_page host) page_bytes put_page (page_part bz (pos div bz) (pos mod bz) (e div bz) (e mod bz))
      (map of_nat [unat pos div unat bz..<Suc (unat e div unat bz)]) buf 0 s = Some (of_nat (q - unat pos), s')"
    "io_ok own sb ?inos ?sbs ?secs host s'"
    "\<forall>m. m div unat bz < 12 \<and> i_page (?inos host) ! (m div unat bz) \<noteq> 0 \<longrightarrow>
      file_byte (unat bz) (\<lambda>n. loc_data s' sb (i_page (?inos host) ! n)) m
        = (if unat pos \<le> m \<and> m < q then buf ! (m - unat pos) else file_byte (unat bz) (\<lambda>n. loc_data s sb (i_page (?inos host) ! n)) m)"
    "\<forall>x. (\<forall>n. unat pos div unat bz \<le> n \<and> n < h \<longrightarrow> x \<notin> block_area (?sbs sb) (i_page (?inos host) ! n)) \<longrightarrow> sectors (vs_disk s') x = ?secs x"
    using fio.write_pages_upto [OF io part assms(2), of buf "unat pos div unat bz" 0] st(2) c q assms(4) by (auto simp: b(1) simp del: upt_Suc)
  have "unat (e div bz) \<noteq> unat (- 1 :: u32)"
  proof -
    have "unat (e div bz) \<le> unat e div 2" using b(3) by (simp add: unat_div div_le_mono2)
    then show ?thesis using unsigned_less [of e, where 'a = nat] by simp
  qed
  then have "e div bz \<noteq> - 1" by metis
  moreover have f: "vs_inodes s' = ?inos" "vs_sbs s' = ?sbs" using r(2) by (simp_all add: io_ok_def)
  moreover have "file_at s' sb host m = (if unat pos \<le> m \<and> m < q then buf ! (m - unat pos) else file_at s sb host m)" if "has_block s sb host m" for m
    using that r(3) by (simp add: file_at_def has_block_def f b(1))
  moreover have "sectors (vs_disk s') k = ?secs k" if k: "k \<notin> part_area s sb host (unat pos) q" for k
  proof -
    have "k \<notin> block_area (?sbs sb) (i_page (?inos host) ! n)" if "unat pos div unat bz \<le> n" "n < h" for n
    proof -
      have "h * unat bz \<le> q \<or> h = Suc (unat e div unat bz) \<and> q = unat e" using st(3) by (auto simp: q chunk_from_def)
      then have "n \<le> q div unat bz"
      proof
        assume "h * unat bz \<le> q"
        then have "h \<le> q div unat bz" using b(3) by (simp add: less_eq_div_iff_mult_less_eq)
        then show ?thesis using that(2) by simp
      qed (use that(2) in simp)
      then show ?thesis using k st(4) [OF that] that(1) by (auto simp: part_area_def Let_def b(1))
    qed
    then show ?thesis using r(4) by blast
  qed
  ultimately show ?thesis using r(1,2) b(2) by (simp add: page_nos_def unat_div del: upt_Suc)
qed

text \<open>Where the inode of the file lies: its table sector and its group descriptor belong to no file.\<close>

definition inode_apart :: "(u32 \<Rightarrow> nat) \<Rightarrow> nat \<Rightarrow> nat \<Rightarrow> vfs_state \<Rightarrow> bool" where
  "inode_apart own sb host s \<longleftrightarrow> (let i = vs_inodes s host; e = vs_sbs s sb in table_ok s i \<and> meta_sect own s sb (table_sect s i)
     \<and> meta_sect own s sb (gdt_sect e (group_of e (i_ino i) False)))"

text \<open>The size is stored in the slot of the inode, and nothing else changes in that sector.\<close>

definition size_stored :: "vfs_state \<Rightarrow> nat \<Rightarrow> u32 \<Rightarrow> (u32 \<Rightarrow> u8 list) \<Rightarrow> (u32 \<Rightarrow> u8 list) \<Rightarrow> bool" where
  "size_stored s host e c c' \<longleftrightarrow> (let k = table_sect s (vs_inodes s host); off = slot s (vs_inodes s host) in
     le32 (off + 4) (c' k) = e \<and> (\<forall>a < SECSIZE. a < off + 4 \<or> off + 8 \<le> a \<longrightarrow> c' k ! a = c k ! a))"

lemma write_size:
  assumes "io_ok own sb (vs_inodes s) (vs_sbs s) (sectors (vs_disk s)) host s" "io_ok own sb (vs_inodes s) (vs_sbs s) (sectors (vs_disk s)) host t"
    and "inode_apart own sb host s"
    and u_def: "u = upd_inode host (\<lambda>i. i\<lparr>i_size := e\<rparr>) t"
  shows "\<exists>s'. ext2_write_inode host u = Some (0, s') \<and> file_io_ok own sb host s' \<and> vs_sbs s' = vs_sbs s
    \<and> vs_inodes s' = (vs_inodes s)(host := (vs_inodes s host)\<lparr>i_size := e\<rparr>)
    \<and> (\<forall>m. has_block s sb host m \<longrightarrow> file_at s' sb host m = file_at t sb host m) \<and> size_stored s host e (sectors (vs_disk s)) (sectors (vs_disk s'))
    \<and> (\<forall>k. k \<noteq> table_sect s (vs_inodes s host) \<longrightarrow> sectors (vs_disk s') k = sectors (vs_disk t) k)"
proof -
  let ?i = "vs_inodes s host"
  let ?k = "table_sect s ?i"
  have t: "pages_ok own sb t" "vs_inodes t = vs_inodes s" "vs_sbs t = vs_sbs s" "map_ok own sb t host" "file_ok sb t host"
    "\<And>k. meta_sect own t sb k \<Longrightarrow> sectors (vs_disk t) k = sectors (vs_disk s) k" using assms(2) by (simp_all add: io_ok_def)
  have ap: "table_ok s ?i" "meta_sect own s sb ?k" "meta_sect own s sb (gdt_sect (vs_sbs s sb) (group_of (vs_sbs s sb) (i_ino ?i) False))"
    using assms(3) by (simp_all add: inode_apart_def Let_def)
  have sb: "i_sb ?i = sb" using t(5) by (simp add: file_ok_def t(2))
  have mt: "meta_sect own t sb k = meta_sect own s sb k" for k by (rule map_ok_cong(3) [OF t(2,3)])
  have u: "vs_disk u = vs_disk t" "vs_sbs u = vs_sbs s" "vs_inodes u = (vs_inodes s)(host := ?i\<lparr>i_size := e\<rparr>)"
    by (simp_all add: u_def upd_inode_def t)
  have gd: "group_desc (vs_sbs s sb) (group_of (vs_sbs s sb) (i_ino ?i) False) u = group_desc (vs_sbs s sb) (group_of (vs_sbs s sb) (i_ino ?i) False) s"
    using t(6) ap(3) by (simp add: group_desc_def u mt)
  have bs: "base_sect u (vs_inodes u host) = base_sect s ?i" "table_sect u (vs_inodes u host) = ?k" "slot u (vs_inodes u host) = slot s ?i"
    using gd by (simp_all add: base_sect_def table_sect_def slot_def inode_sect_def u sb Let_def)
  have "table_ok u (vs_inodes u host)" using ap(1) pages_ok_card [OF t(1)] unfolding table_ok_def bs(1) by (simp add: u sb Let_def)
  then obtain buf where w: "ext2_write_inode host u = Some (0, wrote ?k 1 buf u)" "List.length buf = 512" "le32 (slot s ?i + 4) buf = e"
    "\<forall>a < 512. a < slot s ?i + 4 \<or> slot s ?i + 8 \<le> a \<longrightarrow> buf ! a = sectors (vs_disk u) ?k ! a"
    using write_inode_ok [of u host] bs by (auto simp: u(3))
  have mu: "meta_sect own u sb k = meta_sect own s sb k" for k by (simp add: meta_sect_def fs_spb_def fs_sect_def u)
  have pu: "pages_ok own sb u" unfolding u_def by (rule pages_ok_size [OF t(1)])
  note wm = wrote_meta [OF pu _ w(2), of ?k, unfolded mu, OF ap(2)]
  define s' where "s' = wrote ?k 1 buf u"
  have s': "vs_inodes s' = vs_inodes u" "vs_sbs s' = vs_sbs u" by (simp_all add: s'_def)
  have lo: "i_page ?i ! n \<noteq> 0 \<Longrightarrow> n < 12 \<Longrightarrow> own (i_page ?i ! n) \<noteq> NULL" for n
    using t(4) t(2) by (simp add: map_ok_def loc_ok_def Let_def)
  have "map_ok own sb s' host" "file_ok sb s' host" using t(4,5) map_ok_same_host [of s' t host] by (simp_all add: s' u t(2,3))
  then have "file_io_ok own sb host s'" using wm(1) by (simp add: file_io_ok_def io_ok_def s'_def)
  moreover have "file_at s' sb host m = file_at t sb host m" if m: "has_block s sb host m" for m
  proof -
    let ?b = "unat (ex_blksize (vs_sbs s sb))"
    have "m div ?b < 12" "i_page ?i ! (m div ?b) \<noteq> 0" using m by (simp_all add: has_block_def)
    then have "loc_data s' sb (i_page ?i ! (m div ?b)) = loc_data u sb (i_page ?i ! (m div ?b))" unfolding s'_def by (intro wm(2) lo)
    moreover have "loc_data u = loc_data t" by (simp add: loc_data_def fs_sect_def fs_spb_def u t(3) fun_eq_iff)
    ultimately show ?thesis by (simp add: file_at_def file_byte_def s' u t(2,3))
  qed
  moreover have sk: "sectors (vs_disk s') = (sectors (vs_disk t))(?k := buf)" using w(2) by (auto simp: s'_def written_def SECSIZE_def u(1) unat_eq_0 fun_eq_iff)
  moreover have "sectors (vs_disk t) ?k = sectors (vs_disk s) ?k" using t(6) ap(2) by (simp add: mt)
  then have "size_stored s host e (sectors (vs_disk s)) (sectors (vs_disk s'))" using w(3,4) sk by (simp add: size_stored_def Let_def SECSIZE_def u(1))
  ultimately show ?thesis using w(1) s' u unfolding s'_def by (intro exI [of _ "wrote ?k 1 buf u"]) simp
qed

end
