(* ===== verification/FileProps.thy ===== *)
theory FileProps
  imports FileIO Ext2Props
begin

text \<open>
  What reading and writing do to a file seen as an array of bytes, and what a write to a file without blocks does. The
  samples are those of \<open>Ext2Props\<close>.
\<close>

section \<open>The sample file\<close>

text \<open>The sample with the blocks \<open>bs\<close>: two of the file's own, one or none.\<close>

lemma sample_io:
  assumes "bs = [10, 11] \<or> bs = [0, 0] \<or> bs = [10, 0]"
  shows "file_io_ok sample_own 0 1 (sample_ext2 bs)" "inode_apart sample_own 0 1 (sample_ext2 bs)"
proof -
  let ?s = "sample_ext2 bs"
  have "chains_ok (vs_pcache ?s) (bucket ?s)"
    by (simp add: sample_ext2_def init_pcache_def) (intro chains_ok_init [OF refl], simp)
  then have "pages_core sample_own 0 ?s" by (simp add: pages_core_def disk_ok_def blksize_ok_def SECSIZE_def)
  then have "pages_ok sample_own 0 ?s" by (simp add: pages_ok_def acache_ok_def)
  moreover have "file_ok 0 ?s 1" using assms by (auto simp: file_ok_def)
  moreover have "loc_ok sample_own 0 ?s 1 10" "loc_ok sample_own 0 ?s 1 11" by (simp_all add: loc_ok_def fs_spb_def SECSIZE_def sample_own_def)
  moreover have "map_ok sample_own 0 ?s 1"
    using assms calculation(3,4) by (auto simp: map_ok_def Let_def nth_append nth_Cons' split: if_splits)
  ultimately show "file_io_ok sample_own 0 1 ?s" by (simp add: file_io_ok_def io_ok_def)
  have "meta_sect sample_own ?s 0 k" if "k = 4 \<or> k = 12" for k
    using that by (auto simp: meta_sect_def sample_own_def fs_spb_def fs_sect_def SECSIZE_def SECTOR_SHIFT_def)
  then show "inode_apart sample_own 0 1 ?s" by (simp add: inode_apart_def sample_table Let_def)
qed

section \<open>Reading\<close>


lemma sample_in_blocks: "pos \<le> e \<Longrightarrow> e \<le> 2048 \<Longrightarrow> in_blocks (sample_ext2 [10, 11]) 0 1 pos e"
proof -
  assume "pos \<le> e" "e \<le> 2048"
  moreover have "m div 1024 = 0 \<or> m div 1024 = 1" if "m < e" for m using that \<open>e \<le> 2048\<close> by auto
  ultimately show ?thesis by (fastforce simp: in_blocks_def Let_def)
qed

lemma sample_byte:
  assumes "m < 2048"
  shows "file_at (sample_ext2 [10, 11]) 0 h m = 20 + of_nat (m div 512)"
proof -
  obtain k r where m: "m = 512 * k + r" "r < 512" using mult_div_mod_eq [of 512 m, symmetric] by (rule that) simp
  then have k: "k = 0 \<or> k = 1 \<or> k = 2 \<or> k = 3" using assms by auto
  have d: "m div 512 = k" "m mod 512 = r" using m by simp_all
  have "m div (512 * 2) = k div 2" "m mod (512 * 2) = 512 * (k mod 2) + r" unfolding div_mult2_eq mod_mult2_eq d by simp_all
  then have d2: "m div 1024 = k div 2" "m mod 1024 = 512 * (k mod 2) + r" by simp_all
  show ?thesis
    using m(2) k by (elim disjE) (simp_all add: d d2 file_at_def file_byte_def loc_data_def block_bytes_def fs_sect_def fs_spb_def SECSIZE_def
      SECTOR_SHIFT_def upt_rec nth_append nth_Cons')
qed


section \<open>Writing\<close>

lemma in_blocks_end:
  fixes pos cnt :: u32
  assumes "file_io_ok own sb host s" "in_blocks s sb host (unat pos) (unat pos + unat cnt)"
  shows "unat (pos + cnt) = unat pos + unat cnt"
proof -
  have "blksize_ok (ex_blksize (vs_sbs s sb))" using assms(1) pages_ok_card by (auto simp: file_io_ok_def io_ok_def)
  then have "12 * unat (ex_blksize (vs_sbs s sb)) \<le> 2 ^ 16" by (auto simp: blksize_ok_def)
  then have "unat pos + unat cnt < 2 ^ 32" using assms(2) by (simp add: in_blocks_def Let_def)
  then show ?thesis by (simp add: unat_word_ariths)
qed

text \<open>
  A write up to the first page without a block, or to its end. \<open>wrote_part\<close> says what it does to the file and the card: the bytes from \<open>pos\<close> to \<open>q\<close>
  come from the buffer, the size is at least \<open>e\<close>, and apart from the blocks that hold these bytes and the stored size no byte of the card changes.
\<close>

definition wrote_part :: "nat \<Rightarrow> nat \<Rightarrow> u8 list \<Rightarrow> nat \<Rightarrow> nat \<Rightarrow> u32 \<Rightarrow> vfs_state \<Rightarrow> vfs_state \<Rightarrow> bool" where
  "wrote_part sb host buf pos q e s s' \<longleftrightarrow> (let i = vs_inodes s host; grows = i_size i < e; c = sectors (vs_disk s); c' = sectors (vs_disk s') in
     vs_inodes s' = (vs_inodes s)(host := i\<lparr>i_size := max (i_size i) e\<rparr>) \<and> vs_sbs s' = vs_sbs s
     \<and> (\<forall>m. has_block s sb host m \<longrightarrow> file_at s' sb host m = (if pos \<le> m \<and> m < q then buf ! (m - pos) else file_at s sb host m))
     \<and> (\<forall>k. k \<notin> part_area s sb host pos q \<longrightarrow> \<not> (grows \<and> k = table_sect s i) \<longrightarrow> c' k = c k)
     \<and> (grows \<longrightarrow> size_stored s host e c c'))"

lemma wrote_partD:
  assumes "wrote_part sb host buf pos q e s s'"
  shows "vs_inodes s' = (vs_inodes s)(host := (vs_inodes s host)\<lparr>i_size := max (i_size (vs_inodes s host)) e\<rparr>)" "vs_sbs s' = vs_sbs s"
    "\<And>m. has_block s sb host m \<Longrightarrow> file_at s' sb host m = (if pos \<le> m \<and> m < q then buf ! (m - pos) else file_at s sb host m)"
    "i_size (vs_inodes s host) < e \<Longrightarrow> le32 (slot s (vs_inodes s host) + 4) (sectors (vs_disk s') (table_sect s (vs_inodes s host))) = e"
  using assms by (auto simp: wrote_part_def size_stored_def Let_def)

lemma write_upto:
  assumes "file_io_ok own sb host s" "copy_stops s sb host (unat pos) (unat (pos + cnt)) h" "q = copy_end s sb (unat pos) (unat (pos + cnt)) h"
    and "q - unat pos \<le> List.length buf" "i_size (vs_inodes s host) < pos + cnt \<longrightarrow> inode_apart own sb host s"
  shows "\<exists>s'. generic_file_write host buf cnt pos s = Some (of_nat (q - unat pos), pos + of_nat (q - unat pos), s') \<and> file_io_ok own sb host s'
    \<and> wrote_part sb host buf (unat pos) q (pos + cnt) s s'"
proof -
  let ?i = "vs_inodes s host" and ?area = "part_area s sb host (unat pos) q" and ?c = "sectors (vs_disk s)"
  obtain t where t: "i_blksize ?i \<noteq> 0" "(pos + cnt) div i_blksize ?i \<noteq> - 1"
    "write_pages (pcache_get_page host) page_bytes put_page (page_part (i_blksize ?i) (pos div i_blksize ?i) (pos mod i_blksize ?i)
      ((pos + cnt) div i_blksize ?i) ((pos + cnt) mod i_blksize ?i)) (page_nos (pos div i_blksize ?i) ((pos + cnt) div i_blksize ?i)) buf 0 s
      = Some (of_nat (q - unat pos), t)"
    "io_ok own sb (vs_inodes s) (vs_sbs s) ?c host t"
    "\<forall>m. has_block s sb host m \<longrightarrow> file_at t sb host m = (if unat pos \<le> m \<and> m < q then buf ! (m - unat pos) else file_at s sb host m)"
    "\<forall>k. k \<notin> ?area \<longrightarrow> sectors (vs_disk t) k = ?c k"
    using write_data [OF assms(1-4) refl] by blast
  have ti: "vs_inodes t = vs_inodes s" "vs_sbs t = vs_sbs s" using t(4) by (simp_all add: io_ok_def)
  show ?thesis
  proof (cases "i_size ?i < pos + cnt")
    case True
    have io: "io_ok own sb (vs_inodes s) (vs_sbs s) ?c host s" using assms(1) by (simp add: file_io_ok_def)
    obtain s' where s': "ext2_write_inode host (upd_inode host (\<lambda>i. i\<lparr>i_size := pos + cnt\<rparr>) t) = Some (0, s')" "file_io_ok own sb host s'" "vs_sbs s' = vs_sbs s"
      "vs_inodes s' = (vs_inodes s)(host := ?i\<lparr>i_size := pos + cnt\<rparr>)" "\<forall>m. has_block s sb host m \<longrightarrow> file_at s' sb host m = file_at t sb host m"
      "size_stored s host (pos + cnt) ?c (sectors (vs_disk s'))" "\<forall>k. k \<noteq> table_sect s ?i \<longrightarrow> sectors (vs_disk s') k = sectors (vs_disk t) k"
      using write_size [OF io t(4) assms(5) [rule_format, OF True] refl, of "pos + cnt"] by blast
    have "max (i_size ?i) (pos + cnt) = pos + cnt" using True by (simp add: max_def less_imp_le)
    then have "wrote_part sb host buf (unat pos) q (pos + cnt) s s'" using s'(3-7) t(5,6) True by (simp add: wrote_part_def Let_def)
    then show ?thesis using t(1-3) s'(1,2) True by (simp add: generic_file_write_def Let_def ti)
  next
    case False
    then have "max (i_size ?i) (pos + cnt) = i_size ?i" by (simp add: max_def)
    then have "wrote_part sb host buf (unat pos) q (pos + cnt) s t" using t(5,6) False ti by (simp add: wrote_part_def Let_def)
    moreover have "file_io_ok own sb host t" using t(4) by (simp add: file_io_ok_def io_ok_def)
    ultimately show ?thesis using t False by (simp add: generic_file_write_def Let_def ti)
  qed
qed

lemma write_file:
  assumes "file_io_ok own sb host s" "in_blocks s sb host (unat pos) (unat pos + unat cnt)" "unat cnt \<le> List.length buf"
    and "i_size (vs_inodes s host) < pos + cnt \<longrightarrow> inode_apart own sb host s"
  shows "\<exists>s'. generic_file_write host buf cnt pos s = Some (cnt, pos + cnt, s') \<and> file_io_ok own sb host s'
    \<and> wrote_part sb host buf (unat pos) (unat pos + unat cnt) (pos + cnt) s s'"
proof -
  note e = in_blocks_end [OF assms(1,2)]
  obtain h where h: "copy_stops s sb host (unat pos) (unat (pos + cnt)) h" "copy_end s sb (unat pos) (unat (pos + cnt)) h = unat pos + unat cnt"
    using in_blocks_stops [OF assms(1,2)] e by auto
  have l: "unat pos + unat cnt - unat pos \<le> List.length buf" using assms(3) by simp
  show ?thesis using write_upto [OF assms(1) h(1) h(2) [symmetric] l assms(4)] by simp
qed



text \<open>What generic_file_write has written, generic_file_read at the same position reads back.\<close>

theorem write_read_roundtrip:
  assumes "file_io_ok own sb host s" "in_blocks s sb host (unat pos) (unat pos + unat cnt)"
    and "unat cnt = List.length buf" "List.length buf' = List.length buf"
    and "i_size (vs_inodes s host) < pos + cnt \<longrightarrow> inode_apart own sb host s"
  shows "\<exists>s1 s2. generic_file_write host buf cnt pos s = Some (cnt, pos + cnt, s1) \<and> generic_file_read host buf' cnt pos s1 = Some (cnt, buf, pos + cnt, s2)"
proof -
  let ?i = "vs_inodes s host"
  obtain s1 where w: "generic_file_write host buf cnt pos s = Some (cnt, pos + cnt, s1)" "file_io_ok own sb host s1"
    "wrote_part sb host buf (unat pos) (unat pos + unat cnt) (pos + cnt) s s1"
    using write_file [OF assms(1,2) _ assms(5)] assms(3) by auto
  note d = wrote_partD [OF w(3)]
  note e = in_blocks_end [OF assms(1,2)]
  have ee: "pos + cnt = (if pos + cnt < i_size (vs_inodes s1 host) then pos + cnt else i_size (vs_inodes s1 host))"
    by (auto simp: d(1) max_def not_le)
  have ib: "in_blocks s1 sb host = in_blocks s sb host" by (simp add: in_blocks_def d(1,2) fun_eq_iff)
  then have "in_blocks s1 sb host (unat pos) (unat (pos + cnt))" using assms(2) e by simp
  from read_file [OF w(2) ee this, of buf'] assms(3,4) e
  obtain s2 where r: "generic_file_read host buf' cnt pos s1 = Some (cnt, put_bytes 0 (map (file_at s1 sb host) [unat pos..<unat (pos + cnt)]) buf', pos + cnt, s2)" by auto
  have "file_at s1 sb host m = buf ! (m - unat pos)" if "unat pos \<le> m" "m < unat (pos + cnt)" for m
  proof -
    have "has_block s sb host m" using in_blocks_has [OF assms(2)] that e by simp
    then show ?thesis using d(3) that e by simp
  qed
  then have "map (file_at s1 sb host) [unat pos..<unat (pos + cnt)] = buf" using assms(3) e by (intro nth_equalityI) auto
  then show ?thesis using w(1) r assms(4) by (simp add: put_bytes_def)
qed

theorem write_read_roundtrip_witness:
  "\<exists>s1 s2. generic_file_write 1 [1, 2, 3, 4] 4 1022 (sample_ext2 [10, 11]) = Some (4, 1026, s1) \<and> generic_file_read 1 [0, 0, 0, 0] 4 1022 s1 = Some (4, [1, 2, 3, 4], 1026, s2)"
proof -
  let ?s = "sample_ext2 [10, 11]"
  have b: "in_blocks ?s 0 1 (unat (1022 :: u32)) (unat (1022 :: u32) + unat (4 :: u32))" by (rule sample_in_blocks) simp_all
  have ap: "i_size (vs_inodes ?s 1) < 1022 + 4 \<longrightarrow> inode_apart sample_own 0 1 ?s" using sample_io(2) by simp
  show ?thesis using write_read_roundtrip [OF sample_io(1) b _ _ ap, of "[1, 2, 3, 4]" "[0, 0, 0, 0]"] by simp
qed

section \<open>Writing where the file has no block\<close>

text \<open>C5: a write that meets a page of the file without a block, among the first 12, stores its bytes up to that page only, in the blocks before it, and returns their number, 0 when it starts in that page as in every file just created; but when the write ends behind the old size, the size of the file becomes the end of the whole write, in memory and in the inode table. No other byte of the card changes.\<close>

theorem generic_file_write_hole:
  assumes "file_io_ok own sb host s" "i_size (vs_inodes s host) < pos + cnt \<longrightarrow> inode_apart own sb host s" "bz = i_blksize (vs_inodes s host)"
    and "h < 12" "i_page (vs_inodes s host) ! h = 0" "unat (pos div bz) \<le> h" "h \<le> unat ((pos + cnt) div bz)" "pos \<le> pos + cnt"
    and "\<forall>n. unat (pos div bz) \<le> n \<and> n < h \<longrightarrow> i_page (vs_inodes s host) ! n \<noteq> 0" "unat cnt \<le> List.length buf"
  defines "q \<equiv> max (unat pos) (h * unat bz)"
  shows "\<exists>s'. generic_file_write host buf cnt pos s = Some (of_nat (q - unat pos), pos + of_nat (q - unat pos), s') \<and> file_io_ok own sb host s'
    \<and> wrote_part sb host buf (unat pos) q (pos + cnt) s s'"
proof -
  let ?B = "unat (ex_blksize (vs_sbs s sb))"
  have b: "ex_blksize (vs_sbs s sb) = bz" using assms(1,3) by (simp add: file_io_ok_def io_ok_def file_ok_def)
  have le: "unat pos \<le> unat (pos + cnt)" using assms(8) by (simp add: word_le_nat_alt)
  have "unat (pos + cnt) < 2 ^ 32" using unsigned_less [of "pos + cnt", where 'a = nat] by simp
  then have st: "copy_stops s sb host (unat pos) (unat (pos + cnt)) h" unfolding fio.stops_def unfolding b using assms(4-7,9) le by (simp add: unat_div)
  have q: "q = copy_end s sb (unat pos) (unat (pos + cnt)) h" using assms(7) by (simp add: q_def chunk_from_def b unat_div)
  have "q \<le> unat (pos + cnt)"
  proof -
    have "h * unat bz \<le> unat (pos + cnt)" using assms(7) by (simp add: unat_div) (meson div_times_less_eq_dividend le_trans mult_le_mono1)
    then show ?thesis using le by (simp add: q_def)
  qed
  moreover have "unat (pos + cnt) \<le> unat pos + unat cnt" by (simp add: unat_word_ariths)
  ultimately have "q - unat pos \<le> List.length buf" using assms(10) by simp
  from write_upto [OF assms(1) st q this assms(2)] show ?thesis .
qed

text \<open>A file with a block for its first 1024 bytes only: of 6 bytes at 1022 the first two are stored, and the size becomes 1028.\<close>

theorem generic_file_write_hole_witness:
  "\<exists>s'. generic_file_write 1 [1, 2, 3, 4, 5, 6] 6 1022 (sample_ext2 [10, 0]) = Some (2, 1024, s') \<and> i_size (vs_inodes s' 1) = 1028
     \<and> file_at s' 0 1 1022 = 1 \<and> file_at s' 0 1 1023 = 2 \<and> le32 388 (sectors (vs_disk s') 12) = 1028"
proof -
  let ?s = "sample_ext2 [10, 0]"
  have io: "file_io_ok sample_own 0 1 ?s" "inode_apart sample_own 0 1 ?s" by (rule sample_io; simp)+
  have h: "i_size (vs_inodes ?s 1) < 1022 + 6 \<longrightarrow> inode_apart sample_own 0 1 ?s" "(1024 :: u32) = i_blksize (vs_inodes ?s 1)" "1 < (12 :: nat)" "i_page (vs_inodes ?s 1) ! 1 = 0"
    "unat (1022 div 1024 :: u32) \<le> 1" "1 \<le> unat ((1022 + 6) div 1024 :: u32)" "(1022 :: u32) \<le> 1022 + 6"
    "\<forall>n. unat (1022 div 1024 :: u32) \<le> n \<and> n < 1 \<longrightarrow> i_page (vs_inodes ?s 1) ! n \<noteq> 0" "unat (6 :: u32) \<le> List.length [1, 2, 3, 4, 5, 6 :: u8]"
    using io(2) by (simp_all add: unat_div)
  have m: "max (unat (1022 :: u32)) (1 * unat (1024 :: u32)) = 1024" by simp
  obtain s' where w: "generic_file_write 1 [1, 2, 3, 4, 5, 6] 6 1022 ?s = Some (2, 1024, s')" "wrote_part 0 1 [1, 2, 3, 4, 5, 6] 1022 1024 (1022 + 6) ?s s'"
    using generic_file_write_hole [OF io(1) h] unfolding m by auto
  have b: "has_block ?s 0 1 1022" "has_block ?s 0 1 1023" by (simp_all add: has_block_def)
  note d = wrote_partD [OF w(2)]
  show ?thesis using w(1) d(3) [OF b(1)] d(3) [OF b(2)] d(4) by (simp add: d(1) sample_table max_def)
qed

section \<open>Reading past the end\<close>

text \<open>A read whose position lies behind the end of the file, in the page where the file ends, has no result: its count wraps around and the copy leaves the page.\<close>

theorem generic_file_read_past_end:
  assumes "file_io_ok own sb host s" "bz = i_blksize (vs_inodes s host)" "i_size (vs_inodes s host) < pos" "pos \<le> pos + cnt"
    and "pos div bz = i_size (vs_inodes s host) div bz" "unat (pos div bz) < 12" "i_page (vs_inodes s host) ! unat (pos div bz) \<noteq> 0"
    and "List.length buf < 2 ^ 31"
  shows "generic_file_read host buf cnt pos s = None"
proof -
  let ?i = "vs_inodes s host"
  have io: "io_ok own sb (vs_inodes s) (vs_sbs s) (sectors (vs_disk s)) host s" using assms(1) by (simp add: file_io_ok_def)
  then have bs: "blksize_ok bz" "ex_blksize (vs_sbs s sb) = bz" using pages_ok_card [of own sb s] assms(2) by (auto simp: io_ok_def file_ok_def)
  then have bz: "bz \<noteq> 0" "unat bz \<le> 4096" by (auto simp: blksize_ok_def)
  have e: "(if pos + cnt < i_size ?i then pos + cnt else i_size ?i) = i_size ?i" using assms(3,4) by auto
  obtain p t where t: "pcache_get_page host (pos div bz) s = Some (Inr p, t)" using io_get [OF io assms(6)] assms(7) by auto
  have lt: "unat (i_size ?i mod bz) < unat (pos mod bz)" and pm: "unat (pos mod bz) \<le> 4096"
  proof -
    have "unat (i_size ?i) < unat pos" "unat pos div unat bz = unat (i_size ?i) div unat bz"
      using assms(3,5) by (simp add: word_less_nat_alt, metis unat_div)
    then show "unat (i_size ?i mod bz) < unat (pos mod bz)"
      using sub_in_page [of "unat (i_size ?i)" "unat bz" "unat pos"] by (simp add: unat_mod)
    show "unat (pos mod bz) \<le> 4096" using bz by (simp add: unat_mod) (metis le_trans less_imp_le mod_less_divisor unat_gt_0)
  qed
  have "unat (i_size ?i mod bz - pos mod bz) = 2 ^ 32 + unat (i_size ?i mod bz) - unat (pos mod bz)"
    using lt unat_sub_if' [of "i_size ?i mod bz" "pos mod bz"] by (simp add: word_le_nat_alt)
  then have "\<not> unat (i_size ?i mod bz - pos mod bz) \<le> List.length buf" using pm lt assms(8) by simp
  moreover have "page_nos (pos div bz) (i_size ?i div bz) = [pos div bz]" by (simp add: page_nos_def assms(5) [symmetric])
  ultimately show ?thesis
    using t bz(1) assms(5) by (simp add: generic_file_read_def Let_def assms(2) [symmetric] e page_part_def c_guard_def)
qed

theorem generic_file_read_past_end_witness: "generic_file_read 1 [0] 1 1001 (sample_ext2 [10, 11]) = None"
proof -
  have d: "(1001 :: u32) div 1024 = 0" "(1000 :: u32) div 1024 = 0" by (simp_all add: word_unat_eq_iff unat_div)
  show ?thesis by (rule generic_file_read_past_end [OF sample_io(1) refl]) (simp_all add: d)
qed

end
