(* ===== verification/Dcache.thy ===== *)
theory Dcache
  imports VfsUtils PageCache
begin

text \<open>
  The cache of directory entries: \<open>kernel/vfs/vfscache/dcache.c\<close>, \<open>release_dentry\<close> of \<open>vfscache.c\<close>, \<open>alloc_dentry\<close> of
  \<open>vfsalloc.c\<close> and \<open>d_alloc\<close> of \<open>open.c\<close>. A dentry is the number of its object; the contents of a freed object are gone.
\<close>

section \<open>State\<close>

text \<open>The comparison function of a dentry: none yet, that of EXT2 or that of FAT32.\<close>

datatype dentry_ops = No_dops | Generic_compare | Fat32_compare

text \<open>
  The node \<open>d_alias\<close> is never searched; what matters is whether its pointers are initialised when it is unlinked.
\<close>

datatype alias_node = Unset | Linked

record dentry =
  d_count :: u32
  d_pinned :: u32
  d_mounted :: u32
  d_inode :: nat
  d_parent :: nat
  d_name :: qstr
  d_subdirs :: "nat list"
  d_alias :: alias_node
  d_op :: dentry_ops
  d_sb :: nat

record vfsmount =
  mnt_parent :: nat
  mnt_mountpoint :: nat
  mnt_root :: nat
  mnt_sb :: nat
  mnt_mounts :: "nat list"

record file_system_type =
  fst_name :: "u8 list"
  fst_next :: nat
  fs_supers :: "nat list"

text \<open>
  The name space: the state of the file systems, the dentries and their cache, what fresh memory holds in the field \<open>d_pinned\<close>,
  the mounts and the ring that links them (\<open>mnt_hash\<close>), name and root of a super block, the file system types and their list, and the
  global variables of \<open>vfs.c\<close>.
\<close>

record name_state =
  ns_fs :: vfs_state
  ns_dents :: "nat \<Rightarrow> dentry option"
  ns_dnext :: nat
  ns_raw_pinned :: "nat \<Rightarrow> u32"
  dcache :: cache
  ns_mnts :: "nat \<Rightarrow> vfsmount option"
  ns_mnext :: nat
  ns_mnt_ring :: "nat list"
  root_dentry :: nat
  pwd_dentry :: nat
  root_mnt :: nat
  pwd_mnt :: nat
  ns_sb_name :: "nat \<Rightarrow> u8 list"
  ns_sb_root :: "nat \<Rightarrow> nat"
  ns_fstypes :: "nat \<Rightarrow> file_system_type"
  file_systems :: "nat list"

definition DCACHE_CAPACITY :: u32 where "DCACHE_CAPACITY = 16"
definition DCACHE_HASHTABLE_SIZE :: u32 where "DCACHE_HASHTABLE_SIZE = 16"
definition D_PINNED :: u32 where "D_PINNED = 1"
definition D_UNPINNED :: u32 where "D_UNPINNED = 0"

definition no_name :: qstr where "no_name = \<lparr>q_name = (\<lambda>_. 0), q_len = 0\<rparr>"

definition upd_dentry :: "nat \<Rightarrow> (dentry \<Rightarrow> dentry) \<Rightarrow> name_state \<Rightarrow> name_state" where
  "upd_dentry p f s = s\<lparr>ns_dents := (ns_dents s)(p := map_option f (ns_dents s p))\<rparr>"

text \<open>An access to a freed dentry has no result.\<close>

definition modify_dentry :: "nat \<Rightarrow> (dentry \<Rightarrow> dentry) \<Rightarrow> name_state \<Rightarrow> name_state option" where
  "modify_dentry p f s = do { _ \<leftarrow> ns_dents s p; Some (upd_dentry p f s) }"

section \<open>References\<close>

definition dget :: "nat \<Rightarrow> name_state \<Rightarrow> name_state option" where
  "dget p = modify_dentry p (\<lambda>d. d\<lparr>d_count := d_count d + 1\<rparr>)"

definition dput :: "nat \<Rightarrow> name_state \<Rightarrow> name_state option" where
  "dput p = modify_dentry p (\<lambda>d. d\<lparr>d_count := d_count d - 1\<rparr>)"

section \<open>Release\<close>

text \<open>Unlinking a node whose pointers are not set writes to arbitrary memory: no result.\<close>

definition release_dentry :: "nat \<Rightarrow> name_state \<Rightarrow> name_state option" where
  "release_dentry p s = do {
     d \<leftarrow> ns_dents s p;
     _ \<leftarrow> c_guard (d_alias d \<noteq> Unset);
     s \<leftarrow> Some (upd_dentry (d_parent d) (\<lambda>e. e\<lparr>d_subdirs := remove1 p (d_subdirs e)\<rparr>) s);
     Some (s\<lparr>ns_dents := (ns_dents s)(p := None), dcache := unlink p (dcache s)\<rparr>)
   }"

section \<open>The cache\<close>

definition init_dcache :: "name_state \<Rightarrow> name_state" where
  "init_dcache s = s\<lparr>dcache := cache_init (dcache s) DCACHE_CAPACITY DCACHE_HASHTABLE_SIZE\<rparr>"

definition d_compare :: "dentry_ops \<Rightarrow> qstr \<Rightarrow> qstr \<Rightarrow> u32 option" where
  "d_compare op a b = (case op of No_dops \<Rightarrow> None | Generic_compare \<Rightarrow> Some (generic_compare_filename a b)
     | Fat32_compare \<Rightarrow> Some (fat32_compare_filename a b))"

text \<open>The search of a chain: the comparison is that of the parent, which need not have one.\<close>

fun chain_loop :: "nat \<Rightarrow> qstr \<Rightarrow> name_state \<Rightarrow> nat list \<Rightarrow> nat option option" where
  "chain_loop parent name s [] = Some None"
| "chain_loop parent name s (p # ps) = do {
     tested \<leftarrow> ns_dents s p;
     par \<leftarrow> ns_dents s parent;
     r \<leftarrow> d_compare (d_op par) (d_name tested) name;
     if r = 0 \<and> d_parent tested = parent then Some (Some p) else chain_loop parent name s ps
   }"

definition dcache_look_up :: "nat \<Rightarrow> qstr \<Rightarrow> name_state \<Rightarrow> (nat option \<times> name_state) option" where
  "dcache_look_up parent name s = do {
     let h = unat (stringHash name (c_tablesize (dcache s)));
     r \<leftarrow> chain_loop parent name s (c_hashtable (dcache s) h);
     Some (r, case r of None \<Rightarrow> s | Some p \<Rightarrow> s\<lparr>dcache := to_front p h (dcache s)\<rparr>)
   }"

text \<open>The victim: the least recently used dentry without references, otherwise the one with the fewest of those not pinned.\<close>

fun unused_loop :: "name_state \<Rightarrow> nat list \<Rightarrow> nat option option" where
  "unused_loop s [] = Some None"
| "unused_loop s (p # ps) = do { d \<leftarrow> ns_dents s p; if d_count d = 0 then Some (Some p) else unused_loop s ps }"

fun least_loop :: "name_state \<Rightarrow> nat list \<Rightarrow> nat option \<Rightarrow> nat option option" where
  "least_loop s [] least = Some least"
| "least_loop s (p # ps) least = do {
     d \<leftarrow> ns_dents s p;
     if d_pinned d AND D_PINNED \<noteq> 0 then least_loop s ps least
     else case least of
       None \<Rightarrow> least_loop s ps (Some p)
     | Some q \<Rightarrow> do { e \<leftarrow> ns_dents s q; least_loop s ps (if d_count e > d_count d then Some p else least) }
   }"

text \<open>Without a victim the cache is "full and frozen", and the caller goes on.\<close>

definition dcache_put_LRU :: "name_state \<Rightarrow> name_state option" where
  "dcache_put_LRU s = do {
     let lru = rev (c_LRU (dcache s));
     r \<leftarrow> unused_loop s lru;
     r \<leftarrow> (case r of Some p \<Rightarrow> Some (Some p) | None \<Rightarrow> least_loop s lru None);
     case r of Some p \<Rightarrow> release_dentry p s | None \<Rightarrow> Some s
   }"

definition dcache_add :: "nat \<Rightarrow> name_state \<Rightarrow> name_state option" where
  "dcache_add p s = do {
     addend \<leftarrow> ns_dents s p;
     let h = unat (stringHash (d_name addend) (c_tablesize (dcache s)));
     s \<leftarrow> (if cache_is_full (dcache s) then dcache_put_LRU s else Some s);
     Some (s\<lparr>dcache := link_new p h (dcache s)\<rparr>)
   }"

section \<open>New dentries\<close>

definition alloc_dentry :: "name_state \<Rightarrow> nat \<times> name_state" where
  "alloc_dentry s =
     (let p = ns_dnext s
      in (p, s\<lparr>ns_dnext := p + 1, ns_dents := (ns_dents s)(p \<mapsto> \<lparr>d_count = 0, d_pinned = D_UNPINNED, d_mounted = 0, d_inode = NULL,
                d_parent = NULL, d_name = no_name, d_subdirs = [], d_alias = Linked, d_op = No_dops, d_sb = NULL\<rparr>)\<rparr>))"

text \<open>The copy of a name, with a terminating 0.\<close>

definition copy_name :: "qstr \<Rightarrow> qstr" where
  "copy_name name = \<lparr>q_name = (\<lambda>i. if i < unat (q_len name) then q_name name i else 0), q_len = q_len name\<rparr>"

text \<open>
  \<open>d_alloc\<close> sets the list node \<open>d_alias\<close> of the root, not that of the new dentry, and leaves \<open>d_pinned\<close> as the memory was.
\<close>

definition d_alloc :: "nat \<Rightarrow> qstr \<Rightarrow> name_state \<Rightarrow> (nat \<times> name_state) option" where
  "d_alloc parent name s = do {
     let p = ns_dnext s;
     par \<leftarrow> ns_dents s parent;
     s \<leftarrow> Some (s\<lparr>ns_dnext := p + 1, ns_dents := (ns_dents s)(p \<mapsto> \<lparr>d_count = 1, d_pinned = ns_raw_pinned s p, d_mounted = 0,
       d_inode = NULL, d_parent = parent, d_name = copy_name name, d_subdirs = [], d_alias = Unset, d_op = No_dops, d_sb = d_sb par\<rparr>)\<rparr>);
     s \<leftarrow> modify_dentry (root_dentry s) (\<lambda>d. d\<lparr>d_alias := Linked\<rparr>) s;
     s \<leftarrow> dget parent s;
     s \<leftarrow> modify_dentry parent (\<lambda>d. d\<lparr>d_subdirs := p # d_subdirs d\<rparr>) s;
     s \<leftarrow> dcache_add p s;
     Some (p, s)
   }"

end
