(* ===== verification/DcacheInv.thy ===== *)
theory DcacheInv
  imports Dcache
begin

text \<open>
  The invariant of the dentry cache under its operations, what a search finds, and which dentry leaves a full cache.
\<close>

section \<open>The invariant\<close>

definition dname :: "name_state \<Rightarrow> nat \<Rightarrow> qstr" where
  "dname s p = (case ns_dents s p of None \<Rightarrow> no_name | Some d \<Rightarrow> d_name d)"

definition dbucket :: "name_state \<Rightarrow> nat \<Rightarrow> nat" where
  "dbucket s p = unat (stringHash (dname s p) (c_tablesize (dcache s)))"

abbreviation dcached :: "name_state \<Rightarrow> nat set" where
  "dcached s \<equiv> set (c_LRU (dcache s))"

definition dents_ok :: "name_state \<Rightarrow> bool" where
  "dents_ok s \<longleftrightarrow> chains_ok (dcache s) (dbucket s) \<and> (\<forall>p \<in> dcached s. ns_dents s p \<noteq> None)"

definition refs :: "name_state \<Rightarrow> nat \<Rightarrow> u32" where
  "refs s p = (case ns_dents s p of None \<Rightarrow> 0 | Some d \<Rightarrow> d_count d)"

definition pinned :: "name_state \<Rightarrow> nat \<Rightarrow> bool" where
  "pinned s p \<longleftrightarrow> (case ns_dents s p of None \<Rightarrow> False | Some d \<Rightarrow> d_pinned d AND D_PINNED \<noteq> 0)"

lemma dents_okD:
  assumes "dents_ok s"
  shows "chains_ok (dcache s) (dbucket s)" "p \<in> dcached s \<Longrightarrow> \<exists>d. ns_dents s p = Some d"
  using assms by (auto simp: dents_ok_def)

lemma live_simps [simp]: "ns_dents s p = Some d \<Longrightarrow> dname s p = d_name d" "ns_dents s p = Some d \<Longrightarrow> refs s p = d_count d"
  "ns_dents s p = Some d \<Longrightarrow> pinned s p = (d_pinned d AND D_PINNED \<noteq> 0)"
  by (simp_all add: dname_def refs_def pinned_def)

lemma upd_dentry_simps [simp]: "dcache (upd_dentry p f s) = dcache s" "ns_fs (upd_dentry p f s) = ns_fs s" "ns_dnext (upd_dentry p f s) = ns_dnext s"
  "root_dentry (upd_dentry p f s) = root_dentry s" "ns_mnts (upd_dentry p f s) = ns_mnts s" "ns_raw_pinned (upd_dentry p f s) = ns_raw_pinned s"
  "ns_mnt_ring (upd_dentry p f s) = ns_mnt_ring s" "root_mnt (upd_dentry p f s) = root_mnt s"
  "pwd_dentry (upd_dentry p f s) = pwd_dentry s" "pwd_mnt (upd_dentry p f s) = pwd_mnt s" "ns_mnext (upd_dentry p f s) = ns_mnext s"
  "ns_dents (upd_dentry p f s) = (ns_dents s)(p := map_option f (ns_dents s p))"
  "ns_sb_name (upd_dentry p f s) = ns_sb_name s" "ns_sb_root (upd_dentry p f s) = ns_sb_root s" "ns_fstypes (upd_dentry p f s) = ns_fstypes s"
  "file_systems (upd_dentry p f s) = file_systems s"
  by (simp_all add: upd_dentry_def)

lemma modify_eq [simp]: "ns_dents s p = Some d \<Longrightarrow> modify_dentry p f s = Some (upd_dentry p f s)"
  by (simp add: modify_dentry_def)

text \<open>An update that keeps the names keeps the invariant.\<close>

lemma dname_upd: "(\<And>d. d_name (f d) = d_name d) \<Longrightarrow> dname (upd_dentry p f s) = dname s"
  by (auto simp: dname_def fun_eq_iff split: option.splits)

lemma dents_ok_upd:
  assumes "\<And>d. d_name (f d) = d_name d"
  shows "dents_ok (upd_dentry p f s) = dents_ok s"
proof -
  have "dbucket (upd_dentry p f s) = dbucket s" using dname_upd [of f p s, OF assms] by (simp add: dbucket_def fun_eq_iff)
  then show ?thesis by (auto simp: dents_ok_def)
qed

section \<open>Searching\<close>

definition same_name :: "dentry_ops \<Rightarrow> qstr \<Rightarrow> qstr \<Rightarrow> bool" where
  "same_name op a b = (case op of No_dops \<Rightarrow> False | Generic_compare \<Rightarrow> name_of a = name_of b
     | Fat32_compare \<Rightarrow> map fat32_upper (name_of a) = map fat32_upper (name_of b))"

lemma d_compare_eq: "op \<noteq> No_dops \<Longrightarrow> \<exists>r. d_compare op a b = Some r \<and> (r = 0 \<longleftrightarrow> same_name op a b)"
  by (cases op) (auto simp: d_compare_def same_name_def generic_compare_iff fat32_compare_iff)

definition is_child :: "name_state \<Rightarrow> nat \<Rightarrow> qstr \<Rightarrow> nat \<Rightarrow> bool" where
  "is_child s parent name p \<longleftrightarrow> (\<exists>d e. ns_dents s p = Some d \<and> ns_dents s parent = Some e \<and> d_parent d = parent \<and> same_name (d_op e) (d_name d) name)"

lemma chain_loop_eq:
  assumes "\<forall>p \<in> set ps. ns_dents s p \<noteq> None" "ns_dents s parent = Some e" "d_op e \<noteq> No_dops"
  shows "chain_loop parent name s ps = Some (find (is_child s parent name) ps)"
  using assms(1)
proof (induction ps)
  case (Cons p ps)
  then obtain d where d: "ns_dents s p = Some d" by auto
  obtain r where "d_compare (d_op e) (d_name d) name = Some r" "r = 0 \<longleftrightarrow> same_name (d_op e) (d_name d) name"
    using d_compare_eq [OF assms(3)] by blast
  then show ?case using Cons d assms(2) by (simp add: is_child_def)
qed simp

text \<open>With names compared by case, equal names are in one chain.\<close>

lemma child_bucket:
  assumes "is_child s parent name p" "ns_dents s parent = Some e" "d_op e = Generic_compare"
  shows "dbucket s p = unat (stringHash name (c_tablesize (dcache s)))"
proof -
  obtain d where d: "ns_dents s p = Some d" "same_name (d_op e) (d_name d) name" using assms(1,2) by (auto simp: is_child_def)
  then have "generic_compare_filename (d_name d) name = 0" by (simp add: assms(3) same_name_def generic_compare_iff)
  then show ?thesis using d(1) by (simp add: dbucket_def stringHash_compare)
qed

lemma dents_ok_to_front:
  assumes "dents_ok s" "p \<in> dcached s"
  shows "dents_ok (s\<lparr>dcache := to_front p (dbucket s p) (dcache s)\<rparr>)"
proof -
  note c = chains_ok_to_front [OF dents_okD(1) [OF assms(1)] assms(2)]
  have "dbucket (s\<lparr>dcache := to_front p (dbucket s p) (dcache s)\<rparr>) = dbucket s"
    using c(4) by (simp add: dbucket_def dname_def fun_eq_iff)
  then show ?thesis using c(1,2) assms(1) by (simp add: dents_ok_def)
qed

lemma look_up_ok:
  assumes "dents_ok s" "ns_dents s parent = Some e" "d_op e = Generic_compare"
  shows "(\<exists>p \<in> dcached s. is_child s parent name p \<and> dbucket s p = unat (stringHash name (c_tablesize (dcache s)))
      \<and> dcache_look_up parent name s = Some (Some p, s\<lparr>dcache := to_front p (dbucket s p) (dcache s)\<rparr>))
    \<or> (\<forall>p \<in> dcached s. \<not> is_child s parent name p) \<and> dcache_look_up parent name s = Some (None, s)"
proof -
  let ?h = "unat (stringHash name (c_tablesize (dcache s)))"
  let ?ps = "c_hashtable (dcache s) ?h"
  have mem: "p \<in> set ?ps \<longleftrightarrow> p \<in> dcached s \<and> dbucket s p = ?h" for p using chains_okD(3) [OF dents_okD(1) [OF assms(1)]] by blast
  have l: "chain_loop parent name s ?ps = Some (find (is_child s parent name) ?ps)"
    using assms mem by (intro chain_loop_eq) (auto simp: dents_ok_def)
  show ?thesis
  proof (cases "find (is_child s parent name) ?ps")
    case None
    then have "\<not> is_child s parent name p" if "p \<in> dcached s" for p
      using mem that child_bucket [OF _ assms(2,3)] by (auto simp: find_None_iff)
    then show ?thesis using None l by (simp add: dcache_look_up_def Let_def)
  next
    case (Some p)
    then have "p \<in> set ?ps" "is_child s parent name p" by (auto simp: find_Some_iff)
    then show ?thesis using Some l mem by (auto simp: dcache_look_up_def Let_def)
  qed
qed

section \<open>The dentry that leaves a full cache\<close>

text \<open>The first element of a list with the least value of \<open>f\<close>.\<close>

definition first_min :: "('a \<Rightarrow> 'b :: linorder) \<Rightarrow> 'a list \<Rightarrow> 'a option" where
  "first_min f xs = find (\<lambda>x. \<forall>y \<in> set xs. f x \<le> f y) xs"

lemma first_minD: "first_min f xs = Some x \<Longrightarrow> x \<in> set xs \<and> (\<forall>y \<in> set xs. f x \<le> f y)"
  unfolding first_min_def by (auto simp: find_Some_iff)

lemma first_min_None [simp]: "first_min f xs = None \<longleftrightarrow> xs = []"
proof
  assume n: "first_min f xs = None"
  show "xs = []"
  proof (rule ccontr)
    assume "xs \<noteq> []"
    then have "Min (f ` set xs) \<in> f ` set xs" by (intro Min_in) auto
    then obtain x where "x \<in> set xs" "f x = Min (f ` set xs)" by auto
    then show False using n by (auto simp: first_min_def find_None_iff)
  qed
qed (simp add: first_min_def)

lemma first_min_snoc:
  "first_min f (xs @ [x]) = (case first_min f xs of None \<Rightarrow> Some x | Some q \<Rightarrow> if f q > f x then Some x else Some q)"
proof (cases "first_min f xs")
  case None
  then have "xs = []" by simp
  then show ?thesis by (simp add: first_min_def)
next
  case (Some q)
  note q = first_minD [OF Some]
  show ?thesis
  proof (cases "f q > f x")
    case True
    have "\<not> f z \<le> f x" if "z \<in> set xs" for z using True q that by (metis leD order.strict_trans2)
    then have "find (\<lambda>z. \<forall>y \<in> set (xs @ [x]). f z \<le> f y) xs = None" by (auto simp: find_None_iff)
    moreover have "\<forall>y \<in> set xs. f x \<le> f y" using True q by (metis less_imp_le order.strict_trans2)
    ultimately show ?thesis using Some True unfolding first_min_def [of f "xs @ [x]"] find_append by simp
  next
    case False
    then have le: "f q \<le> f x" by simp
    have "find (\<lambda>z. \<forall>y \<in> set (xs @ [x]). f z \<le> f y) xs = find (\<lambda>z. \<forall>y \<in> set xs. f z \<le> f y) xs"
      using q le by (intro find_cong) (auto intro: order_trans)
    then show ?thesis using Some False unfolding first_min_def find_append by simp
  qed
qed

lemma first_min_simps [simp]: "first_min f [] = None" "first_min f [x] = Some x"
  by (simp_all add: first_min_def)

text \<open>From the least recently used on: the first without references; otherwise the first of those not pinned with the fewest.\<close>

definition victim :: "name_state \<Rightarrow> nat option" where
  "victim s = (let l = rev (c_LRU (dcache s)) in case find (\<lambda>p. refs s p = 0) l of Some p \<Rightarrow> Some p
     | None \<Rightarrow> first_min (refs s) (filter (\<lambda>p. \<not> pinned s p) l))"

lemma unused_loop_eq: "\<forall>p \<in> set l. ns_dents s p \<noteq> None \<Longrightarrow> unused_loop s l = Some (find (\<lambda>p. refs s p = 0) l)"
  by (induction l) auto

abbreviation least_of :: "name_state \<Rightarrow> nat list \<Rightarrow> nat option" where
  "least_of s l \<equiv> first_min (refs s) (filter (\<lambda>p. \<not> pinned s p) l)"

lemma least_loop_eq:
  assumes "\<forall>p \<in> set (l @ r). ns_dents s p \<noteq> None"
  shows "least_loop s r (least_of s l) = Some (least_of s (l @ r))"
  using assms
proof (induction r arbitrary: l)
  case (Cons p r)
  then obtain d where d: "ns_dents s p = Some d" by auto
  have "least_loop s (p # r) (least_of s l) = least_loop s r (least_of s (l @ [p]))"
  proof (cases "least_of s l")
    case None
    then have "filter (\<lambda>p. \<not> pinned s p) l = []" by simp
    then show ?thesis using d None by simp
  next
    case (Some q)
    then have "q \<in> set l" using first_minD [OF Some] by simp
    then obtain e where "ns_dents s q = Some e" using Cons.prems by auto
    then show ?thesis using d Some by (simp add: first_min_snoc)
  qed
  then show ?case using Cons.IH [of "l @ [p]"] Cons.prems by simp
qed simp

lemma put_LRU_eq:
  assumes "dents_ok s"
  shows "dcache_put_LRU s = (case victim s of Some p \<Rightarrow> release_dentry p s | None \<Rightarrow> Some s)"
proof -
  let ?l = "rev (c_LRU (dcache s))"
  have live: "\<forall>p \<in> set ?l. ns_dents s p \<noteq> None" using assms by (simp add: dents_ok_def)
  have "least_loop s ?l None = Some (least_of s ?l)" using least_loop_eq [of "[]" ?l s] live by (simp add: first_min_def)
  then show ?thesis
    using unused_loop_eq [OF live] by (auto simp: dcache_put_LRU_def victim_def Let_def split: option.splits)
qed

section \<open>Adding\<close>

text \<open>All but the dentries and their cache.\<close>

definition same_space :: "name_state \<Rightarrow> name_state \<Rightarrow> bool" where
  "same_space s s' \<longleftrightarrow> ns_fs s' = ns_fs s \<and> ns_mnts s' = ns_mnts s \<and> ns_mnext s' = ns_mnext s \<and> ns_mnt_ring s' = ns_mnt_ring s \<and> root_dentry s' = root_dentry s
     \<and> root_mnt s' = root_mnt s \<and> pwd_dentry s' = pwd_dentry s \<and> pwd_mnt s' = pwd_mnt s \<and> ns_raw_pinned s' = ns_raw_pinned s
     \<and> ns_sb_name s' = ns_sb_name s \<and> ns_sb_root s' = ns_sb_root s \<and> ns_fstypes s' = ns_fstypes s \<and> file_systems s' = file_systems s"

lemma same_space_refl [simp]: "same_space s s"
  by (simp add: same_space_def)

lemma same_space_trans [trans]: "same_space s t \<Longrightarrow> same_space t u \<Longrightarrow> same_space s u"
  by (simp add: same_space_def)

lemma same_space_simps [simp]: "same_space s (upd_dentry p f s)" "same_space s (s\<lparr>dcache := c\<rparr>)" "same_space s (s\<lparr>ns_dents := d\<rparr>)" "same_space s (s\<lparr>ns_dnext := n\<rparr>)"
  by (simp_all add: same_space_def)

text \<open>\<open>kept s s' p\<close>: dentry \<open>p\<close> is what it was, but for its list of children.\<close>

definition kept :: "name_state \<Rightarrow> name_state \<Rightarrow> nat \<Rightarrow> bool" where
  "kept s s' p \<longleftrightarrow> map_option (\<lambda>d. d\<lparr>d_subdirs := []\<rparr>) (ns_dents s' p) = map_option (\<lambda>d. d\<lparr>d_subdirs := []\<rparr>) (ns_dents s p)"

lemma kept_refl: "ns_dents s' p = ns_dents s p \<Longrightarrow> kept s s' p"
  by (simp add: kept_def)

lemma kept_trans: "kept s t p \<Longrightarrow> kept t u p \<Longrightarrow> kept s u p"
  by (simp add: kept_def)

lemma keptD:
  assumes "kept s s' p" "ns_dents s p = Some d"
  obtains l where "ns_dents s' p = Some (d\<lparr>d_subdirs := l\<rparr>)"
proof -
  obtain e where e: "ns_dents s' p = Some e" "e\<lparr>d_subdirs := []\<rparr> = d\<lparr>d_subdirs := []\<rparr>" using assms by (auto simp: kept_def)
  have "e = d\<lparr>d_subdirs := d_subdirs e\<rparr>" using e(2) by (cases d; cases e) simp
  then show ?thesis using e(1) that by metis
qed

text \<open>The dentries without \<open>v\<close>, which has left the list of children of its parent.\<close>

definition without :: "nat \<Rightarrow> (nat \<Rightarrow> dentry option) \<Rightarrow> nat \<Rightarrow> dentry option" where
  "without v ds = (case ds v of None \<Rightarrow> ds
     | Some d \<Rightarrow> (ds(d_parent d := map_option (\<lambda>e. e\<lparr>d_subdirs := remove1 v (d_subdirs e)\<rparr>) (ds (d_parent d))))(v := None))"

lemma release_ok:
  assumes "dents_ok s" "p \<in> dcached s" "ns_dents s p = Some d" "d_alias d \<noteq> Unset"
  shows "\<exists>s'. release_dentry p s = Some s' \<and> dents_ok s' \<and> dcache s' = unlink p (dcache s) \<and> ns_dents s' p = None
    \<and> (\<forall>q. q \<noteq> p \<longrightarrow> kept s s' q) \<and> same_space s s' \<and> ns_dnext s' = ns_dnext s \<and> ns_dents s' = without p (ns_dents s)"
proof -
  let ?u = "upd_dentry (d_parent d) (\<lambda>e. e\<lparr>d_subdirs := remove1 p (d_subdirs e)\<rparr>) s"
  define s' where "s' = ?u\<lparr>ns_dents := (ns_dents ?u)(p := None), dcache := unlink p (dcache ?u)\<rparr>"
  note c = chains_ok_unlink [OF dents_okD(1) [OF assms(1)] assms(2)]
  have r: "release_dentry p s = Some s'" using assms(3,4) by (simp add: release_dentry_def s'_def)
  have n: "q \<noteq> p \<Longrightarrow> dname s' q = dname s q" for q by (auto simp: dname_def s'_def split: option.splits)
  have dc: "dcache s' = unlink p (dcache s)" by (simp add: s'_def)
  have "dbucket s' q = dbucket s q" if "q \<in> dcached s'" for q
    using that n [of q] c(3,4) by (simp add: dbucket_def dc)
  then have "chains_ok (dcache s') (dbucket s')" using c(1) chains_ok_cong [of "dcache s'" "dbucket s" "dbucket s'"] by (simp add: dc)
  moreover have "\<forall>q \<in> dcached s'. ns_dents s' q \<noteq> None"
    using assms(1) c(3) by (auto simp: dc dents_ok_def s'_def)
  ultimately have "dents_ok s'" by (simp add: dents_ok_def)
  moreover have "kept s s' q" if "q \<noteq> p" for q
    using that by (auto simp: kept_def s'_def option.map_comp comp_def)
  moreover have "same_space s s'" by (simp add: s'_def same_space_def)
  moreover have "ns_dents s' = without p (ns_dents s)" using assms(3) by (simp add: s'_def without_def)
  moreover have "ns_dents s' p = None" "ns_dnext s' = ns_dnext s" by (simp_all add: s'_def)
  ultimately show ?thesis using r dc by (intro exI [of _ s'] conjI allI impI) blast+
qed

lemma find_SomeD: "find P xs = Some x \<Longrightarrow> x \<in> set xs \<and> P x"
  by (auto simp: find_Some_iff)

lemma victim_cached: "victim s = Some p \<Longrightarrow> p \<in> dcached s"
  by (auto simp: victim_def Let_def split: option.splits dest!: first_minD find_SomeD)

lemma dents_ok_link:
  assumes "dents_ok s" "p \<notin> dcached s" "ns_dents s p = Some d" "List.length (c_LRU (dcache s)) < unat (c_capacity (dcache s))"
  shows "dents_ok (s\<lparr>dcache := link_new p (dbucket s p) (dcache s)\<rparr>)"
proof -
  note c = chains_ok_link_new [OF dents_okD(1) [OF assms(1)] assms(2,4)]
  have "dbucket (s\<lparr>dcache := link_new p (dbucket s p) (dcache s)\<rparr>) = dbucket s" using c(3) by (simp add: dbucket_def dname_def fun_eq_iff)
  then show ?thesis using c(1,2) assms(1,3) by (auto simp: dents_ok_def)
qed

text \<open>There is room, or the cache is full and a dentry can leave.\<close>

definition has_room :: "name_state \<Rightarrow> bool" where
  "has_room s \<longleftrightarrow> 0 < unat (c_capacity (dcache s)) \<and> (List.length (c_LRU (dcache s)) = unat (c_capacity (dcache s))
     \<longrightarrow> (\<exists>v d. victim s = Some v \<and> ns_dents s v = Some d \<and> d_alias d \<noteq> Unset))"

definition lru_left :: "name_state \<Rightarrow> nat list" where
  "lru_left s = (if List.length (c_LRU (dcache s)) = unat (c_capacity (dcache s)) then remove1 (the (victim s)) (c_LRU (dcache s)) else c_LRU (dcache s))"

lemma dcache_add_ok:
  assumes "dents_ok s" "ns_dents s p = Some d" "p \<notin> dcached s" "has_room s"
  shows "\<exists>s'. dcache_add p s = Some s' \<and> dents_ok s' \<and> c_LRU (dcache s') = p # lru_left s \<and> c_capacity (dcache s') = c_capacity (dcache s)
    \<and> c_tablesize (dcache s') = c_tablesize (dcache s)
    \<and> (\<forall>q. q = p \<or> q \<notin> dcached s - dcached s' \<longrightarrow> kept s s' q) \<and> (\<forall>q \<in> dcached s - dcached s'. ns_dents s' q = None)
    \<and> same_space s s' \<and> ns_dnext s' = ns_dnext s
    \<and> ns_dents s' = (if List.length (c_LRU (dcache s)) = unat (c_capacity (dcache s)) then without (the (victim s)) (ns_dents s) else ns_dents s)"
proof -
  let ?full = "List.length (c_LRU (dcache s)) = unat (c_capacity (dcache s))"
  note c = dents_okD(1) [OF assms(1)]
  have h: "unat (stringHash (d_name d) (c_tablesize (dcache s))) = dbucket s p" using assms(2) by (simp add: dbucket_def)
  have fin: "cache_is_full (dcache s) = ?full" by (rule full_iff [OF c])
  show ?thesis
  proof (cases ?full)
    case False
    then have "List.length (c_LRU (dcache s)) < unat (c_capacity (dcache s))" using chains_okD(5) [OF c] by simp
    from dents_ok_link [OF assms(1,3,2) this] chains_ok_link_new(2-4) [OF c assms(3) this]
    show ?thesis using False assms(2) fin by (auto simp: dcache_add_def lru_left_def h Let_def kept_refl)
  next
    case True
    then obtain v e where v: "victim s = Some v" "ns_dents s v = Some e" "d_alias e \<noteq> Unset" using assms(4) by (auto simp: has_room_def)
    have vc: "v \<in> dcached s" by (rule victim_cached [OF v(1)])
    then have pv: "p \<noteq> v" using assms(3) by auto
    obtain t where t: "release_dentry v s = Some t" "dents_ok t" "dcache t = unlink v (dcache s)" "ns_dents t v = None" "\<forall>q. q \<noteq> v \<longrightarrow> kept s t q"
      "same_space s t" "ns_dnext t = ns_dnext s" "ns_dents t = without v (ns_dents s)"
      using release_ok [OF assms(1) vc v(2,3)] by blast
    note u = chains_ok_unlink [OF c vc]
    obtain l where pd: "ns_dents t p = Some (d\<lparr>d_subdirs := l\<rparr>)" using keptD [of s t p d] t(5) pv assms(2) by blast
    have b: "dbucket t p = dbucket s p" using pd assms(2) u(4) by (simp add: dbucket_def t(3))
    have pn: "p \<notin> dcached t" using assms(3) u(3) by (simp add: t(3))
    have "0 < List.length (c_LRU (dcache s))" using vc by (cases "c_LRU (dcache s)") auto
    then have lt: "List.length (c_LRU (dcache t)) < unat (c_capacity (dcache t))" using u(2,5) vc True by (simp add: t(3) length_remove1)
    define s' where "s' = t\<lparr>dcache := link_new p (dbucket t p) (dcache t)\<rparr>"
    have "dents_ok s'" unfolding s'_def by (rule dents_ok_link [OF t(2) pn pd lt])
    note ln = chains_ok_link_new(2-4) [OF dents_okD(1) [OF t(2)] pn lt]
    have "dcache_add p s = Some s'"
      using assms(1,2) fin True put_LRU_eq [OF assms(1)] v(1) t(1) by (simp add: dcache_add_def h b s'_def Let_def)
    moreover have "dcached s - dcached s' = {v}" using ln(1) u(3) vc pv by (auto simp: s'_def t(3))
    moreover have "kept s s' q" if "q \<noteq> v" for q using t(5) that by (simp add: s'_def kept_def)
    moreover have "same_space s s'" using t(6) by (simp add: s'_def same_space_def)
    moreover have "c_LRU (dcache s') = p # lru_left s" using ln(1) u(2) True v(1) by (simp add: s'_def t(3) lru_left_def)
    moreover have "c_capacity (dcache s') = c_capacity (dcache s)" "c_tablesize (dcache s') = c_tablesize (dcache s)" "ns_dents s' v = None" "ns_dnext s' = ns_dnext s"
      using ln(2,3) u(4,5) t(4,7) by (simp_all add: s'_def t(3))
    moreover have "ns_dents s' = (if ?full then without (the (victim s)) (ns_dents s) else ns_dents s)" using True v(1) t(8) by (simp add: s'_def)
    ultimately show ?thesis using \<open>dents_ok s'\<close> pv by (intro exI [of _ s']) simp
  qed
qed

section \<open>New dentries\<close>

lemma name_of_copy [simp]: "name_of (copy_name n) = name_of n"
  by (simp add: name_of_def copy_name_def)

text \<open>
  \<open>d_alloc\<close> before the new dentry goes into the cache: the dentry itself, a reference more for the parent, and the new child.
\<close>

definition new_dentry :: "name_state \<Rightarrow> nat \<Rightarrow> qstr \<Rightarrow> dentry" where
  "new_dentry s parent name = \<lparr>d_count = 1, d_pinned = ns_raw_pinned s (ns_dnext s), d_mounted = 0, d_inode = NULL, d_parent = parent,
     d_name = copy_name name, d_subdirs = [], d_alias = Unset, d_op = No_dops, d_sb = d_sb (the (ns_dents s parent))\<rparr>"

definition with_child :: "name_state \<Rightarrow> nat \<Rightarrow> qstr \<Rightarrow> name_state" where
  "with_child s parent name = s\<lparr>ns_dnext := ns_dnext s + 1, ns_dents := (\<lambda>q. if q = ns_dnext s then Some (new_dentry s parent name)
     else map_option (\<lambda>d. d\<lparr>d_alias := (if q = root_dentry s then Linked else d_alias d), d_count := (if q = parent then d_count d + 1 else d_count d),
       d_subdirs := (if q = parent then ns_dnext s # d_subdirs d else d_subdirs d)\<rparr>) (ns_dents s q))\<rparr>"

lemma d_alloc_eq:
  assumes "ns_dents s parent = Some e" "ns_dents s (root_dentry s) = Some r" "ns_dents s (ns_dnext s) = None"
  shows "d_alloc parent name s = do { t \<leftarrow> dcache_add (ns_dnext s) (with_child s parent name); Some (ns_dnext s, t) }"
proof -
  let ?p = "ns_dnext s"
  have ne: "parent \<noteq> ?p" "root_dentry s \<noteq> ?p" using assms by auto
  let ?s1 = "s\<lparr>ns_dnext := ?p + 1, ns_dents := (ns_dents s)(?p \<mapsto> new_dentry s parent name)\<rparr>"
  let ?s2 = "upd_dentry (root_dentry s) (\<lambda>d. d\<lparr>d_alias := Linked\<rparr>) ?s1"
  let ?s3 = "upd_dentry parent (\<lambda>d. d\<lparr>d_count := d_count d + 1\<rparr>) ?s2"
  let ?s4 = "upd_dentry parent (\<lambda>d. d\<lparr>d_subdirs := ?p # d_subdirs d\<rparr>) ?s3"
  have m: "modify_dentry (root_dentry s) f ?s1 = Some (upd_dentry (root_dentry s) f ?s1)" for f
    using ne assms by (simp add: modify_dentry_def)
  have "dget parent ?s2 = Some ?s3" using ne assms by (cases "parent = root_dentry s") (auto simp: dget_def modify_dentry_def)
  moreover have "modify_dentry parent f ?s3 = Some (upd_dentry parent f ?s3)" for f
    using ne assms by (cases "parent = root_dentry s") (auto simp: modify_dentry_def)
  moreover have "?s4 = with_child s parent name"
  proof -
    have "ns_dents ?s4 = ns_dents (with_child s parent name)"
      using ne assms by (intro ext) (auto simp: with_child_def option.map_comp comp_def option.map_ident)
    moreover have "?s4 = s\<lparr>ns_dnext := ?p + 1, ns_dents := ns_dents ?s4\<rparr>" by (simp add: upd_dentry_def)
    moreover have "with_child s parent name = s\<lparr>ns_dnext := ?p + 1, ns_dents := ns_dents (with_child s parent name)\<rparr>" by (simp add: with_child_def)
    ultimately show ?thesis by presburger
  qed
  ultimately show ?thesis
    using assms m by (simp add: d_alloc_def Let_def new_dentry_def)
qed

lemma with_child_ok:
  assumes "dents_ok s" "ns_dents s parent = Some e" "ns_dents s (ns_dnext s) = None"
  shows "dents_ok (with_child s parent name)" "dcache (with_child s parent name) = dcache s" "ns_dnext s \<notin> dcached s"
    "ns_dents (with_child s parent name) (ns_dnext s) = Some (new_dentry s parent name)"
proof -
  show p: "ns_dnext s \<notin> dcached s" using assms by (auto simp: dents_ok_def)
  show "dcache (with_child s parent name) = dcache s" "ns_dents (with_child s parent name) (ns_dnext s) = Some (new_dentry s parent name)"
    by (simp_all add: with_child_def)
  have n: "q \<noteq> ns_dnext s \<Longrightarrow> dname (with_child s parent name) q = dname s q" for q
    by (auto simp: dname_def with_child_def split: option.splits)
  have "dbucket (with_child s parent name) q = dbucket s q" if "q \<in> dcached s" for q
    using that p n [of q] by (cases "q = ns_dnext s") (simp_all add: dbucket_def with_child_def)
  then have "chains_ok (dcache s) (dbucket (with_child s parent name))"
    using dents_okD(1) [OF assms(1)] chains_ok_cong [of "dcache s" "dbucket s" "dbucket (with_child s parent name)"] by simp
  then show "dents_ok (with_child s parent name)" using assms(1) p by (auto simp: dents_ok_def with_child_def)
qed

text \<open>All dentries are pinned: the new one comes on top.\<close>

lemma dcache_add_frozen:
  assumes "dents_ok s" "ns_dents s p = Some d" "List.length (c_LRU (dcache s)) = unat (c_capacity (dcache s))" "victim s = None"
  shows "dcache_add p s = Some (s\<lparr>dcache := link_new p (dbucket s p) (dcache s)\<rparr>)"
proof -
  have "cache_is_full (dcache s)" using full_iff [OF dents_okD(1) [OF assms(1)]] assms(3) by simp
  then show ?thesis using put_LRU_eq [OF assms(1)] assms(2,4) by (simp add: dcache_add_def dbucket_def Let_def)
qed

section \<open>Properties\<close>

text \<open>\<open>n\<close> dentries without a name, all children of the first, which is the root; \<open>cnt\<close> are their reference counts, and \<open>u\<close> has no \<open>d_alias\<close>.\<close>

definition sample_dentry :: "(nat \<Rightarrow> u32) \<Rightarrow> nat \<Rightarrow> nat \<Rightarrow> dentry" where
  "sample_dentry cnt u p = \<lparr>d_count = cnt p, d_pinned = 0, d_mounted = 0, d_inode = 1, d_parent = 1, d_name = no_name, d_subdirs = [],
     d_alias = (if p = u then Unset else Linked), d_op = Generic_compare, d_sb = 0\<rparr>"

definition sample_names :: "nat \<Rightarrow> (nat \<Rightarrow> u32) \<Rightarrow> nat \<Rightarrow> name_state" where
  "sample_names n cnt u = \<lparr>ns_fs = sample_indirect, ns_dents = (\<lambda>p. if 1 \<le> p \<and> p \<le> n then Some (sample_dentry cnt u p) else None), ns_dnext = n + 1,
     ns_raw_pinned = (\<lambda>_. 0), dcache = \<lparr>c_size = of_nat n, c_capacity = 16, c_tablesize = 16, c_LRU = [1..<n + 1], c_hashtable = (\<lambda>h. if h = 0 then [1..<n + 1] else [])\<rparr>,
     ns_mnts = Map.empty, ns_mnext = 1, ns_mnt_ring = [], root_dentry = 1, pwd_dentry = 1, root_mnt = 1, pwd_mnt = 1,
     ns_sb_name = (\<lambda>_. []), ns_sb_root = (\<lambda>_. 1), ns_fstypes = (\<lambda>_. \<lparr>fst_name = [], fst_next = NULL, fs_supers = []\<rparr>), file_systems = []\<rparr>"

lemma sample_names_fields [simp]: "ns_dents (sample_names n cnt u) p = (if 1 \<le> p \<and> p \<le> n then Some (sample_dentry cnt u p) else None)"
  "ns_dnext (sample_names n cnt u) = n + 1" "c_LRU (dcache (sample_names n cnt u)) = [1..<n + 1]" "c_capacity (dcache (sample_names n cnt u)) = 16"
  "root_dentry (sample_names n cnt u) = 1" "ns_raw_pinned (sample_names n cnt u) q = 0"
  by (simp_all add: sample_names_def)

lemma sample_names_ok:
  assumes "n \<le> 16"
  shows "dents_ok (sample_names n cnt u)"
proof -
  have "stringHash no_name 16 = 0" by (simp add: stringHash_def no_name_def)
  then have "dbucket (sample_names n cnt u) p = 0" for p
    by (simp add: dbucket_def dname_def sample_names_def sample_dentry_def)
  moreover have "unat (of_nat n :: u32) = n" using assms by (simp add: unat_of_nat)
  ultimately show ?thesis using assms by (auto simp: dents_ok_def chains_ok_def sample_names_def)
qed

text \<open>A search of the dentry cache ends with a cached dentry of that parent and name, made the most recently used one, or with none, when no cached dentry has them; the invariant of the cache is kept and no dentry changes.\<close>

theorem dcache_look_up_correct:
  assumes "dents_ok s" "ns_dents s parent = Some e" "d_op e = Generic_compare"
  shows "\<exists>r s'. dcache_look_up parent name s = Some (r, s') \<and> dents_ok s' \<and> ns_dents s' = ns_dents s \<and> same_space s s'
    \<and> (case r of None \<Rightarrow> s' = s \<and> (\<forall>p \<in> dcached s. \<forall>d. ns_dents s p = Some d \<longrightarrow> d_parent d = parent \<longrightarrow> name_of (d_name d) \<noteq> name_of name)
       | Some p \<Rightarrow> p \<in> dcached s \<and> c_LRU (dcache s') = p # remove1 p (c_LRU (dcache s))
           \<and> (\<exists>d. ns_dents s p = Some d \<and> d_parent d = parent \<and> name_of (d_name d) = name_of name))"
proof -
  have ic: "is_child s parent name p \<longleftrightarrow> (\<exists>d. ns_dents s p = Some d \<and> d_parent d = parent \<and> name_of (d_name d) = name_of name)" for p
    using assms(2,3) by (auto simp: is_child_def same_name_def)
  show ?thesis
    using look_up_ok [OF assms, of name]
  proof
    assume "\<exists>p \<in> dcached s. is_child s parent name p \<and> dbucket s p = unat (stringHash name (c_tablesize (dcache s)))
      \<and> dcache_look_up parent name s = Some (Some p, s\<lparr>dcache := to_front p (dbucket s p) (dcache s)\<rparr>)"
    then obtain p where p: "p \<in> dcached s" "is_child s parent name p" "dcache_look_up parent name s = Some (Some p, s\<lparr>dcache := to_front p (dbucket s p) (dcache s)\<rparr>)" by blast
    show ?thesis
      using p dents_ok_to_front [OF assms(1) p(1)] chains_ok_to_front(3) [OF dents_okD(1) [OF assms(1)] p(1)] ic
      by (intro exI [of _ "Some p"] exI [of _ "s\<lparr>dcache := to_front p (dbucket s p) (dcache s)\<rparr>"]) auto
  next
    assume "(\<forall>p \<in> dcached s. \<not> is_child s parent name p) \<and> dcache_look_up parent name s = Some (None, s)"
    then show ?thesis using ic assms(1) by auto
  qed
qed

theorem dcache_look_up_correct_witness: "\<exists>p s'. dcache_look_up 1 no_name (sample_names 3 (\<lambda>_. 1) 0) = Some (Some p, s') \<and> p \<in> {1, 2, 3}"
proof -
  let ?s = "sample_names 3 (\<lambda>_. 1) 0"
  have "ns_dents ?s 1 = Some (sample_dentry (\<lambda>_. 1) 0 1)" "d_op (sample_dentry (\<lambda>_. 1) 0 1) = Generic_compare" by (simp_all add: sample_dentry_def)
  from dcache_look_up_correct [OF sample_names_ok this, of no_name]
  obtain r s' where r: "dcache_look_up 1 no_name ?s = Some (r, s')"
    "case r of None \<Rightarrow> s' = ?s \<and> (\<forall>p \<in> dcached ?s. \<forall>d. ns_dents ?s p = Some d \<longrightarrow> d_parent d = 1 \<longrightarrow> name_of (d_name d) \<noteq> name_of no_name)
       | Some p \<Rightarrow> p \<in> dcached ?s \<and> c_LRU (dcache s') = p # remove1 p (c_LRU (dcache ?s)) \<and> (\<exists>d. ns_dents ?s p = Some d \<and> d_parent d = 1 \<and> name_of (d_name d) = name_of no_name)"
    by auto
  have "\<not> (\<forall>p \<in> dcached ?s. \<forall>d. ns_dents ?s p = Some d \<longrightarrow> d_parent d = 1 \<longrightarrow> name_of (d_name d) \<noteq> name_of no_name)"
    by (auto simp: sample_dentry_def intro!: bexI [of _ 1])
  then obtain p where "r = Some p" "p \<in> dcached ?s" using r(2) by (cases r) auto
  then show ?thesis using r(1) by auto
qed

text \<open>C9: d_alloc makes a dentry with the name, one reference and no inode, enters it as the first child of the parent, which gains a reference, and as the most recently used one into the cache, and changes no other dentry, as long as the cache is not full. When it is full, the victim leaves the cache and the children of its parent, the least recently used dentry without references or else the least referenced one that is not pinned; when every dentry is pinned, the cache grows beyond its capacity; and when the d_alias of the victim was never set, the call gives no result.\<close>

theorem d_alloc_correct:
  fixes name :: qstr
  assumes "dents_ok s" "ns_dents s parent = Some e" "ns_dents s (root_dentry s) = Some r" "ns_dents s (ns_dnext s) = None" "0 < unat (c_capacity (dcache s))"
  defines "p \<equiv> ns_dnext s" and "t \<equiv> with_child s parent name" and "full \<equiv> List.length (c_LRU (dcache s)) = unat (c_capacity (dcache s))"
  shows "(\<exists>d. ns_dents t p = Some d \<and> d_count d = 1 \<and> d_parent d = parent \<and> name_of (d_name d) = name_of name \<and> d_inode d = NULL)
    \<and> (\<exists>d. ns_dents t parent = Some d \<and> d_count d = d_count e + 1 \<and> d_subdirs d = p # d_subdirs e) \<and> (\<forall>q. q \<notin> {p, parent, root_dentry s} \<longrightarrow> ns_dents t q = ns_dents s q)
    \<and> (case if full then victim t else None of
         None \<Rightarrow> (\<exists>s'. d_alloc parent name s = Some (p, s') \<and> (\<not> full \<longrightarrow> dents_ok s') \<and> c_LRU (dcache s') = p # c_LRU (dcache s) \<and> ns_dents s' = ns_dents t
           \<and> same_space s s')
       | Some v \<Rightarrow> if \<exists>d. ns_dents t v = Some d \<and> d_alias d = Unset then d_alloc parent name s = None
           else (\<exists>s'. d_alloc parent name s = Some (p, s') \<and> dents_ok s' \<and> c_LRU (dcache s') = p # remove1 v (c_LRU (dcache s))
             \<and> ns_dents s' = without v (ns_dents t) \<and> same_space s s'))"
proof -
  note w = with_child_ok(1,2) [OF assms(1,2,4), of name, folded t_def] with_child_ok(3) [OF assms(1,2,4), folded p_def]
    with_child_ok(4) [OF assms(1,2,4), of name, folded t_def p_def]
  have full: "full = (List.length (c_LRU (dcache t)) = unat (c_capacity (dcache t)))" by (simp add: full_def w(2))
  have np: "parent \<noteq> p" using assms(2,4) by (auto simp: p_def)
  have new: "\<exists>d. ns_dents t p = Some d \<and> d_count d = 1 \<and> d_parent d = parent \<and> name_of (d_name d) = name_of name \<and> d_inode d = NULL"
    "\<exists>d. ns_dents t parent = Some d \<and> d_count d = d_count e + 1 \<and> d_subdirs d = p # d_subdirs e"
    "\<forall>q. q \<notin> {p, parent, root_dentry s} \<longrightarrow> ns_dents t q = ns_dents s q"
    using w(4) np assms(2) by (auto simp: new_dentry_def t_def with_child_def p_def option.map_ident)
  have al: "d_alloc parent name s = do { u \<leftarrow> dcache_add p t; Some (p, u) }" unfolding p_def t_def by (rule d_alloc_eq [OF assms(2-4)])
  have sp: "same_space s t" by (simp add: t_def with_child_def same_space_def)
  have cap: "0 < unat (c_capacity (dcache t))" "c_LRU (dcache t) = c_LRU (dcache s)" using assms(5) w(2) by simp_all
  have pn: "p \<notin> dcached t" using w(3) cap(2) by simp
  have room: "\<exists>s'. d_alloc parent name s = Some (p, s') \<and> dents_ok s' \<and> c_LRU (dcache s') = p # lru_left t
      \<and> ns_dents s' = (if full then without (the (victim t)) (ns_dents t) else ns_dents t) \<and> same_space s s'" if hr: "has_room t"
  proof -
    obtain u where "dcache_add p t = Some u" "dents_ok u" "c_LRU (dcache u) = p # lru_left t" "same_space t u"
      "ns_dents u = (if full then without (the (victim t)) (ns_dents t) else ns_dents t)"
      using dcache_add_ok [OF w(1,4) pn hr] unfolding full by blast
    then show ?thesis using al same_space_trans [OF sp] by simp
  qed
  show ?thesis
  proof (cases "full")
    case False
    then have "has_room t" "lru_left t = c_LRU (dcache s)" using cap full by (simp_all add: has_room_def lru_left_def)
    then show ?thesis using new room False by simp
  next
    case f: True
    show ?thesis
    proof (cases "victim t")
      case None
      have "dcache_add p t = Some (t\<lparr>dcache := link_new p (dbucket t p) (dcache t)\<rparr>)"
        using dcache_add_frozen [OF w(1,4) f [unfolded full] None] .
      then show ?thesis using new al f None same_space_trans [OF sp, of "t\<lparr>dcache := link_new p (dbucket t p) (dcache t)\<rparr>"] cap(2) by (simp add: link_new_def)
    next
      case (Some v)
      obtain d where d: "ns_dents t v = Some d" using dents_okD(2) [OF w(1) victim_cached [OF Some]] by blast
      show ?thesis
      proof (cases "d_alias d = Unset")
        case True
        have "cache_is_full (dcache t)" using full_iff [OF dents_okD(1) [OF w(1)]] f full by simp
        then have "dcache_add p t = None"
          using w(4) put_LRU_eq [OF w(1)] Some d True by (simp add: dcache_add_def release_dentry_def Let_def c_guard_def)
        then show ?thesis using new al f Some d True by simp
      next
        case False
        then have "has_room t" "lru_left t = remove1 v (c_LRU (dcache s))" using cap full f Some d by (simp_all add: has_room_def lru_left_def)
        then show ?thesis using new room f Some d False by simp
      qed
    qed
  qed
qed

text \<open>The cache is full; dentry 5 has no references and leaves it.\<close>

lemma sample_full:
  "c_LRU (dcache (with_child (sample_names 16 cnt u) 1 no_name)) = [1..<17]" "c_capacity (dcache (with_child (sample_names 16 cnt u) 1 no_name)) = 16"
  "refs (with_child (sample_names 16 cnt u) 1 no_name) p = (if p = 17 then 1 else if 1 \<le> p \<and> p \<le> 16 then (if p = 1 then cnt 1 + 1 else cnt p) else 0)"
  "pinned (with_child (sample_names 16 cnt u) 1 no_name) p = False"
  "1 < p \<Longrightarrow> p < 17 \<Longrightarrow> ns_dents (with_child (sample_names 16 cnt u) 1 no_name) p = Some (sample_dentry cnt u p)"
  by (auto simp: with_child_def refs_def pinned_def sample_dentry_def new_dentry_def)

theorem d_alloc_correct_witness:
  "\<exists>s'. d_alloc 1 no_name (sample_names 16 (\<lambda>p. if p = 5 then 0 else 1) 0) = Some (17, s') \<and> c_LRU (dcache s') = 17 # remove1 5 [1..<17]
     \<and> ns_dents s' 5 = None \<and> (\<exists>d. ns_dents s' 1 = Some d \<and> d_subdirs d = [17])"
proof -
  let ?cnt = "\<lambda>p. if p = (5 :: nat) then 0 else 1 :: u32"
  let ?s = "sample_names 16 ?cnt 0"
  let ?t = "with_child ?s 1 no_name"
  have "rev [1..<17] = [16, 15, 14, 13, 12, 11, 10, 9, 8, 7, 6, 5, 4, 3, 2, 1 :: nat]" by (simp add: upt_rec)
  then have v: "victim ?t = Some 5" by (simp add: victim_def sample_full [unfolded One_nat_def])
  have d5: "ns_dents ?t 5 = Some (sample_dentry ?cnt 0 5)" using sample_full(5) [of 5 ?cnt 0] by simp
  have h: "ns_dents ?s 1 = Some (sample_dentry ?cnt 0 1)" "ns_dents ?s (root_dentry ?s) = Some (sample_dentry ?cnt 0 1)" "ns_dents ?s (ns_dnext ?s) = None"
    "0 < unat (c_capacity (dcache ?s))" "List.length (c_LRU (dcache ?s)) = unat (c_capacity (dcache ?s))" "ns_dnext ?s = 17" by simp_all
  have u: "\<not> (\<exists>d. ns_dents ?t 5 = Some d \<and> d_alias d = Unset)" using d5 by (simp add: sample_dentry_def)
  note c = d_alloc_correct [OF sample_names_ok h(1-4), where name = no_name, unfolded if_P [OF h(5)] v option.case if_not_P [OF u] h(6)]
  obtain s' d where s': "d_alloc 1 no_name ?s = Some (17, s')" "c_LRU (dcache s') = 17 # remove1 5 (c_LRU (dcache ?s))" "ns_dents s' = without 5 (ns_dents ?t)"
    "ns_dents ?t 1 = Some d" "d_subdirs d = 17 # d_subdirs (sample_dentry ?cnt 0 1)"
    using c by auto
  have "ns_dents s' 5 = None" "\<exists>d. ns_dents s' 1 = Some d \<and> d_subdirs d = [17]"
    using s'(3-5) d5 by (simp_all add: without_def sample_dentry_def)
  then show ?thesis using s'(1,2) by (intro exI [of _ s']) simp
qed

text \<open>D_alloc on a full cache whose victim was itself made by d_alloc and never got an inode has no result: the victim is unlinked through list pointers that were never set.\<close>

theorem d_alloc_unset_victim:
  assumes "dents_ok s" "ns_dents s parent = Some e" "ns_dents s (root_dentry s) = Some r" "ns_dents s (ns_dnext s) = None"
    and "List.length (c_LRU (dcache s)) = unat (c_capacity (dcache s))"
    and "victim (with_child s parent name) = Some v" "ns_dents (with_child s parent name) v = Some d" "d_alias d = Unset"
  shows "d_alloc parent name s = None"
proof -
  note w = with_child_ok(1,2) [OF assms(1,2,4), of name] with_child_ok(4) [OF assms(1,2,4), of name]
  have "cache_is_full (dcache s)" using full_iff [OF dents_okD(1) [OF assms(1)]] assms(5) by simp
  then show ?thesis
    using d_alloc_eq [OF assms(2-4), of name] w put_LRU_eq [OF w(1)] assms(6-8) by (simp add: dcache_add_def release_dentry_def Let_def c_guard_def)
qed

theorem d_alloc_unset_victim_witness: "d_alloc 1 no_name (sample_names 16 (\<lambda>_. 1) 16) = None"
proof -
  let ?s = "sample_names 16 (\<lambda>_. 1) 16"
  let ?t = "with_child ?s 1 no_name"
  have "rev [1..<17] = [16, 15, 14, 13, 12, 11, 10, 9, 8, 7, 6, 5, 4, 3, 2, 1 :: nat]" by (simp add: upt_rec)
  then have v: "victim ?t = Some 16" by (simp add: victim_def sample_full [unfolded One_nat_def] first_min_def)
  have h: "ns_dents ?s 1 = Some (sample_dentry (\<lambda>_. 1) 16 1)" "ns_dents ?s (root_dentry ?s) = Some (sample_dentry (\<lambda>_. 1) 16 1)" "ns_dents ?s (ns_dnext ?s) = None"
    "List.length (c_LRU (dcache ?s)) = unat (c_capacity (dcache ?s))" by simp_all
  show ?thesis using d_alloc_unset_victim [OF sample_names_ok h v sample_full(5)] by (simp add: sample_dentry_def)
qed

end
