(* ===== verification/Namei.thy ===== *)
theory Namei
  imports Dcache
begin

text \<open>
  Resolving path names, \<open>kernel/vfs/open.c\<close>, with \<open>lookup_mnt\<close> of \<open>vfsmount.c\<close> and \<open>follow_mount\<close> of \<open>mount.c\<close>. The functions
  \<open>lookup\<close> and \<open>create\<close> of a directory's file system are arguments, as the code calls them through pointers. A path is the
  list of its bytes without the final 0. Memory for dentries and open files is always found (\<open>Slab.kmalloc_failure_not_null\<close>).
\<close>

section \<open>State\<close>

datatype last_type = LAST_NORM | LAST_ROOT | LAST_DOT | LAST_DOTDOT | LAST_BIND

record nameidata =
  nd_dentry :: nat
  nd_mnt :: nat
  nd_last :: qstr
  nd_flags :: u32
  nd_last_type :: last_type

record vfs_file =
  f_pos :: u32
  f_dentry :: nat
  f_vfsmnt :: nat
  f_flags :: u32
  f_mode :: u32

text \<open>The \<open>lookup\<close> of a directory's inode: an error, no inode found (NULL), or the dentry.\<close>

type_synonym lookup_fun = "nat \<Rightarrow> nat \<Rightarrow> name_state \<Rightarrow> ((u32 + nat) \<times> name_state) option"
type_synonym create_fun = "nat \<Rightarrow> nat \<Rightarrow> u32 \<Rightarrow> name_state \<Rightarrow> (u32 \<times> name_state) option"

definition LOOKUP_FOLLOW :: u32 where "LOOKUP_FOLLOW = 1"
definition LOOKUP_DIRECTORY :: u32 where "LOOKUP_DIRECTORY = 2"
definition LOOKUP_CONTINUE :: u32 where "LOOKUP_CONTINUE = 4"
definition LOOKUP_PARENT :: u32 where "LOOKUP_PARENT = 0x10"
definition LOOKUP_CREATE :: u32 where "LOOKUP_CREATE = 0x200"
definition O_ACCMODE :: u32 where "O_ACCMODE = 3"
definition O_CREAT :: u32 where "O_CREAT = 0x100"
definition FMODE_READ :: u32 where "FMODE_READ = 1"
definition FMODE_WRITE :: u32 where "FMODE_WRITE = 2"
definition FMODE_LSEEK :: u32 where "FMODE_LSEEK = 4"
definition FMODE_PREAD :: u32 where "FMODE_PREAD = 8"
definition FMODE_PWRITE :: u32 where "FMODE_PWRITE = 0x10"
definition ENOENT :: u32 where "ENOENT = 2"
definition ENOTDIR :: u32 where "ENOTDIR = 20"
definition EISDIR :: u32 where "EISDIR = 21"

definition has_flag :: "u32 \<Rightarrow> u32 \<Rightarrow> bool" where
  "has_flag f flag \<longleftrightarrow> f AND flag \<noteq> 0"

definition inode_of :: "name_state \<Rightarrow> nat \<Rightarrow> inode" where
  "inode_of s i = vs_inodes (ns_fs s) i"

section \<open>Mounts\<close>

text \<open>The other mounts of the ring, from the one after \<open>mnt\<close> on.\<close>

definition ring_from :: "nat \<Rightarrow> nat list \<Rightarrow> nat list" where
  "ring_from mnt l = tl (dropWhile (\<lambda>m. m \<noteq> mnt) l) @ (if mnt \<in> set l then takeWhile (\<lambda>m. m \<noteq> mnt) l else [])"

fun mnt_loop :: "nat \<Rightarrow> nat \<Rightarrow> name_state \<Rightarrow> nat list \<Rightarrow> nat option option" where
  "mnt_loop mnt dentry s [] = Some None"
| "mnt_loop mnt dentry s (p # ps) = do {
     m \<leftarrow> ns_mnts s p;
     if mnt_parent m = mnt \<and> mnt_mountpoint m \<noteq> NULL then do {
       mp \<leftarrow> ns_dents s (mnt_mountpoint m);
       if d_inode mp \<noteq> NULL then do {
         d \<leftarrow> ns_dents s dentry;
         _ \<leftarrow> c_guard (d_inode d \<noteq> NULL);
         if i_ino (inode_of s (d_inode mp)) = i_ino (inode_of s (d_inode d)) then Some (Some p) else mnt_loop mnt dentry s ps
       } else mnt_loop mnt dentry s ps
     } else mnt_loop mnt dentry s ps
   }"

definition lookup_mnt :: "nat \<Rightarrow> nat \<Rightarrow> name_state \<Rightarrow> nat option option" where
  "lookup_mnt mnt dentry s = mnt_loop mnt dentry s (ring_from mnt (ns_mnt_ring s))"

partial_function (option) follow_mount :: "u32 \<Rightarrow> nat \<Rightarrow> nat \<Rightarrow> name_state \<Rightarrow> (u32 \<times> nat \<times> nat \<times> name_state) option" where
  "follow_mount res mnt dentry s = do {
     d \<leftarrow> ns_dents s dentry;
     if d_mounted d = 0 then Some (res, mnt, dentry, s)
     else do {
       r \<leftarrow> lookup_mnt mnt dentry s;
       case r of
         None \<Rightarrow> Some (res, mnt, dentry, s)
       | Some mounted \<Rightarrow> do {
           s \<leftarrow> dput dentry s;
           m \<leftarrow> ns_mnts s mounted;
           s \<leftarrow> dget (mnt_root m) s;
           follow_mount 1 mounted (mnt_root m) s
         }
     }
   }"

partial_function (option) follow_dotdot :: "nat \<Rightarrow> nat \<Rightarrow> name_state \<Rightarrow> (nat \<times> nat \<times> name_state) option" where
  "follow_dotdot mnt dentry s =
     (if dentry = root_dentry s \<and> mnt = root_mnt s then Some (mnt, dentry, s)
      else do {
        m \<leftarrow> ns_mnts s mnt;
        if dentry \<noteq> mnt_root m then do {
          d \<leftarrow> ns_dents s dentry;
          s \<leftarrow> dget (d_parent d) s;
          s \<leftarrow> dput dentry s;
          Some (mnt, d_parent d, s)
        } else if mnt_parent m = mnt then Some (mnt, dentry, s)
        else do {
          s \<leftarrow> dget (mnt_mountpoint m) s;
          s \<leftarrow> dput dentry s;
          follow_dotdot (mnt_parent m) (mnt_mountpoint m) s
        }
      })"

section \<open>Looking up one name\<close>

text \<open>A call of \<open>i_op->lookup\<close>; files have none.\<close>

definition call_lookup :: "lookup_fun \<Rightarrow> nat \<Rightarrow> nat \<Rightarrow> name_state \<Rightarrow> ((u32 + nat) \<times> name_state) option" where
  "call_lookup lookup dir dentry s = do {
     _ \<leftarrow> c_guard (dir \<noteq> NULL \<and> i_op (inode_of s dir) = Dir_ops);
     lookup dir dentry s
   }"

definition real_lookup :: "lookup_fun \<Rightarrow> nat \<Rightarrow> qstr \<Rightarrow> name_state \<Rightarrow> ((u32 + nat) \<times> name_state) option" where
  "real_lookup lookup parent name s = do {
     par \<leftarrow> ns_dents s parent;
     let dir = d_inode par;
     (dentry, s) \<leftarrow> d_alloc parent name s;
     _ \<leftarrow> ns_dents s parent;
     (result, s) \<leftarrow> call_lookup lookup dir dentry s;
     if result = Inr NULL then Some (Inr dentry, s)
     else do { s \<leftarrow> dput dentry s; Some (result, s) }
   }"

definition do_lookup :: "lookup_fun \<Rightarrow> nameidata \<Rightarrow> qstr \<Rightarrow> name_state \<Rightarrow> ((u32 + nat \<times> nat) \<times> name_state) option" where
  "do_lookup lookup nd name s = do {
     (r, s) \<leftarrow> dcache_look_up (nd_dentry nd) name s;
     (r, s) \<leftarrow> (case r of Some dentry \<Rightarrow> Some (Inr dentry, s) | None \<Rightarrow> real_lookup lookup (nd_dentry nd) name s);
     case r of
       Inl e \<Rightarrow> Some (Inl e, s)
     | Inr dentry \<Rightarrow> do { s \<leftarrow> dget dentry s; Some (Inr (nd_mnt nd, dentry), s) }
   }"

text \<open>The cache is searched under the dentry of \<open>nd\<close>, when there is one; without it a name that exists is an error.\<close>

definition lookup_hash_raw :: "lookup_fun \<Rightarrow> qstr \<Rightarrow> nat \<Rightarrow> nameidata option \<Rightarrow> name_state \<Rightarrow> ((u32 + nat) \<times> name_state) option" where
  "lookup_hash_raw lookup name base nd s = do {
     b \<leftarrow> ns_dents s base;
     let inode = d_inode b;
     _ \<leftarrow> c_guard (inode \<noteq> NULL);
     if i_ino (inode_of s inode) = 0 then Some (Inr NULL, s)
     else do {
       (r, s) \<leftarrow> (case nd of None \<Rightarrow> Some (None, s) | Some n \<Rightarrow> dcache_look_up (nd_dentry n) name s);
       case r of
         Some dentry \<Rightarrow> Some (Inr dentry, s)
       | None \<Rightarrow> do {
           (new, s) \<leftarrow> d_alloc base name s;
           (result, s) \<leftarrow> call_lookup lookup inode new s;
           if result = Inr NULL then Some (Inr new, s)
           else do { s \<leftarrow> dput new s; Some (if nd = None then Inl (- EINVAL) else result, s) }
         }
     }
   }"

section \<open>Walking a path\<close>

text \<open>The next component: the first byte, whatever it is, and those before the next slash.\<close>

definition component_length :: "u8 list \<Rightarrow> nat" where
  "component_length name = Suc (List.length (takeWhile (\<lambda>c. c \<noteq> 47) (tl name)))"

lemma next_shorter: "drop (component_length name) name \<noteq> [] \<Longrightarrow> List.length (dropWhile P (drop (component_length name) name)) < List.length name"
  using length_dropWhile_le [of P "drop (component_length name) name"] by (simp add: component_length_def)

definition qstr_at :: "u8 list \<Rightarrow> nat \<Rightarrow> qstr" where
  "qstr_at name len = \<lparr>q_name = (\<lambda>i. if i < List.length name then name ! i else 0), q_len = of_nat len\<rparr>"

definition is_dot :: "qstr \<Rightarrow> bool" where
  "is_dot q \<longleftrightarrow> q_name q 0 = 46 \<and> q_len q = 1"

definition is_dotdot :: "qstr \<Rightarrow> bool" where
  "is_dotdot q \<longleftrightarrow> q_name q 0 = 46 \<and> q_len q = 2 \<and> q_name q 1 = 46"

definition to_dotdot :: "nameidata \<Rightarrow> name_state \<Rightarrow> (nameidata \<times> name_state) option" where
  "to_dotdot nd s = do {
     (mnt, dentry, s) \<leftarrow> follow_dotdot (nd_mnt nd) (nd_dentry nd) s;
     _ \<leftarrow> ns_dents s dentry;
     Some (nd\<lparr>nd_mnt := mnt, nd_dentry := dentry\<rparr>, s)
   }"

text \<open>The error exits drop the reference to the dentry reached so far.\<close>

definition walk_error :: "u32 \<Rightarrow> nameidata \<Rightarrow> name_state \<Rightarrow> (u32 \<times> nameidata \<times> name_state) option" where
  "walk_error err nd s = do { s \<leftarrow> dput (nd_dentry nd) s; Some (err, nd, s) }"

text \<open>A component in the middle of the path. The flag says whether the walk goes on.\<close>

definition walk_middle :: "lookup_fun \<Rightarrow> qstr \<Rightarrow> nameidata \<Rightarrow> name_state \<Rightarrow> (u32 \<times> nameidata \<times> name_state) option" where
  "walk_middle lookup this nd s = do {
     let nd = nd\<lparr>nd_flags := nd_flags nd OR LOOKUP_CONTINUE\<rparr>;
     (r, s) \<leftarrow> do_lookup lookup nd this s;
     case r of
       Inl err \<Rightarrow> walk_error err nd s
     | Inr (mnt, dentry) \<Rightarrow> do {
         (_, mnt, dentry, s) \<leftarrow> follow_mount 0 mnt dentry s;
         d \<leftarrow> ns_dents s dentry;
         if d_inode d = NULL then do { s \<leftarrow> dput dentry s; walk_error (- ENOENT) nd s }
         else if i_op (inode_of s (d_inode d)) = No_ops then do { s \<leftarrow> dput dentry s; walk_error (- ENOTDIR) nd s }
         else do {
           s \<leftarrow> dput (nd_dentry nd) s;
           let nd = nd\<lparr>nd_mnt := mnt, nd_dentry := dentry\<rparr>;
           if i_op (inode_of s (d_inode d)) \<noteq> Dir_ops then walk_error (- ENOTDIR) nd s else Some (0, nd, s)
         }
       }
   }"

definition walk_last :: "lookup_fun \<Rightarrow> u32 \<Rightarrow> qstr \<Rightarrow> nameidata \<Rightarrow> name_state \<Rightarrow> (u32 \<times> nameidata \<times> name_state) option" where
  "walk_last lookup lflags this nd s = do {
     let nd = nd\<lparr>nd_flags := nd_flags nd AND NOT LOOKUP_CONTINUE\<rparr>;
     if has_flag lflags LOOKUP_PARENT then
       Some (0, nd\<lparr>nd_last := this, nd_last_type := (if is_dot this then LAST_DOT else if is_dotdot this then LAST_DOTDOT else LAST_NORM)\<rparr>, s)
     else if is_dotdot this then do { (nd, s) \<leftarrow> to_dotdot nd s; Some (0, nd, s) }
     else if is_dot this then Some (0, nd, s)
     else do {
       (r, s) \<leftarrow> do_lookup lookup nd this s;
       case r of
         Inl err \<Rightarrow> walk_error err nd s
       | Inr (mnt, dentry) \<Rightarrow> do {
           (_, mnt, dentry, s) \<leftarrow> follow_mount 0 mnt dentry s;
           s \<leftarrow> dput (nd_dentry nd) s;
           let nd = nd\<lparr>nd_mnt := mnt, nd_dentry := dentry\<rparr>;
           d \<leftarrow> ns_dents s dentry;
           if d_inode d = NULL then walk_error (- ENOENT) nd s
           else if has_flag lflags LOOKUP_DIRECTORY \<and> i_op (inode_of s (d_inode d)) \<noteq> Dir_ops then walk_error (- ENOTDIR) nd s
           else Some (0, nd, s)
         }
     }
   }"

text \<open>The loop; every round consumes at least one byte of the path.\<close>

function walk_loop :: "lookup_fun \<Rightarrow> u32 \<Rightarrow> u8 list \<Rightarrow> nameidata \<Rightarrow> name_state \<Rightarrow> (u32 \<times> nameidata \<times> name_state) option" where
  "walk_loop lookup lflags name nd s =
     (let len = component_length name; this = qstr_at name len; rest = drop len name; next = dropWhile (\<lambda>c. c = 47) rest
      in if rest = [] then walk_last lookup lflags this nd s
         else if next = [] then walk_last lookup (lflags OR LOOKUP_FOLLOW OR LOOKUP_DIRECTORY) this nd s
         else if is_dotdot this then do { (nd, s) \<leftarrow> to_dotdot nd s; walk_loop lookup lflags next nd s }
         else if is_dot this then walk_loop lookup lflags next nd s
         else do {
           (err, nd, s) \<leftarrow> walk_middle lookup this nd s;
           if err \<noteq> 0 then Some (err, nd, s) else walk_loop lookup lflags next nd s
         })"
  by pat_completeness auto
termination
  by (relation "measure (\<lambda>(lookup, lflags, name, nd, s). List.length name)") (auto simp: next_shorter)

declare walk_loop.simps [simp del]

text \<open>The flags that the loop works with are those of \<open>nd\<close> at the start.\<close>

definition link_path_walk :: "lookup_fun \<Rightarrow> u8 list \<Rightarrow> nameidata \<Rightarrow> name_state \<Rightarrow> (u32 \<times> nameidata \<times> name_state) option" where
  "link_path_walk lookup name nd s = do {
     let lookup_flags = nd_flags nd;
     let name = dropWhile (\<lambda>c. c = 47 \<or> c = 32) name;
     if name = [] then Some (0, nd, s)
     else do {
       _ \<leftarrow> ns_dents s (nd_dentry nd);
       walk_loop lookup lookup_flags name nd s
     }
   }"

definition path_lookup :: "lookup_fun \<Rightarrow> u8 list \<Rightarrow> u32 \<Rightarrow> nameidata \<Rightarrow> name_state \<Rightarrow> (u32 \<times> nameidata \<times> name_state) option" where
  "path_lookup lookup name flags nd s = do {
     let nd = nd\<lparr>nd_last_type := LAST_ROOT, nd_flags := flags\<rparr>;
     if name \<noteq> [] \<and> name ! 0 = 47 then do {
       s \<leftarrow> dget (root_dentry s) s;
       link_path_walk lookup name (nd\<lparr>nd_mnt := root_mnt s, nd_dentry := root_dentry s\<rparr>) s
     } else do {
       s \<leftarrow> dget (pwd_dentry s) s;
       link_path_walk lookup name (nd\<lparr>nd_mnt := pwd_mnt s, nd_dentry := pwd_dentry s\<rparr>) s
     }
   }"

section \<open>Opening\<close>

text \<open>The values that \<open>open_namei\<close> computes from the access mode are not used.\<close>

definition open_namei :: "lookup_fun \<Rightarrow> create_fun \<Rightarrow> u8 list \<Rightarrow> u32 \<Rightarrow> u32 \<Rightarrow> nameidata \<Rightarrow> name_state \<Rightarrow> (u32 \<times> nameidata \<times> name_state) option" where
  "open_namei lookup create pathname flag mode nd s =
     (if \<not> has_flag flag O_CREAT then path_lookup lookup pathname LOOKUP_FOLLOW nd s
      else do {
        (err, nd, s) \<leftarrow> path_lookup lookup pathname (LOOKUP_PARENT OR LOOKUP_CREATE) nd s;
        if err \<noteq> 0 then Some (err, nd, s)
        else if nd_last_type nd \<noteq> LAST_NORM \<or> q_name (nd_last nd) (unat (q_len (nd_last nd))) \<noteq> 0 then walk_error (- EISDIR) nd s
        else do {
          let dir = nd_dentry nd;
          let nd = nd\<lparr>nd_flags := nd_flags nd AND NOT LOOKUP_PARENT\<rparr>;
          (r, s) \<leftarrow> lookup_hash_raw lookup (nd_last nd) dir (Some nd) s;
          case r of
            Inl err \<Rightarrow> walk_error err nd s
          | Inr dentry \<Rightarrow> do {
              d \<leftarrow> ns_dents s dentry;
              if d_inode d = NULL then do {
                p \<leftarrow> ns_dents s dir;
                _ \<leftarrow> c_guard (d_inode p \<noteq> NULL \<and> i_op (inode_of s (d_inode p)) \<in> {Dir_ops, File_create_ops});
                (err, s) \<leftarrow> create (d_inode p) dentry mode s;
                s \<leftarrow> dput (nd_dentry nd) s;
                let nd = nd\<lparr>nd_dentry := dentry\<rparr>;
                if err \<noteq> 0 then walk_error err nd s else Some (0, nd, s)
              } else do {
                s \<leftarrow> dput (nd_dentry nd) s;
                Some (0, nd\<lparr>nd_dentry := dentry\<rparr>, s)
              }
            }
        }
      })"

definition dentry_open :: "nat \<Rightarrow> nat \<Rightarrow> u32 \<Rightarrow> name_state \<Rightarrow> vfs_file option" where
  "dentry_open dentry mnt flags s = do {
     d \<leftarrow> ns_dents s dentry;
     _ \<leftarrow> c_guard (d_inode d \<noteq> NULL);
     Some \<lparr>f_pos = 0, f_dentry = dentry, f_vfsmnt = mnt, f_flags = flags AND NOT O_CREAT,
       f_mode = ((flags + 1) AND O_ACCMODE) OR FMODE_LSEEK OR FMODE_PREAD OR FMODE_PWRITE\<rparr>
   }"

end
