(* ===== verification/NameiInv.thy ===== *)
theory NameiInv
  imports Namei DcacheInv
begin

text \<open>
  Path names resolved in the cache: the walk over the bytes of a path goes through the dentries that the names of the path lead to,
  and moves exactly one reference from the start to the result.
\<close>

section \<open>The names of a path\<close>

function path_names :: "u8 list \<Rightarrow> u8 list list" where
  "path_names cs = (if cs = [] then [] else if List.hd cs = 47 then path_names (tl cs)
     else takeWhile (\<lambda>c. c \<noteq> 47) cs # path_names (dropWhile (\<lambda>c. c \<noteq> 47) cs))"
  by pat_completeness auto
termination
proof (relation "measure List.length")
  show "(dropWhile (\<lambda>c. c \<noteq> 47) cs, cs) \<in> measure List.length" if "cs \<noteq> []" "List.hd cs \<noteq> 47" for cs :: "u8 list"
    using that length_dropWhile_le [of "\<lambda>c. c \<noteq> 47" "tl cs"] by (cases cs) auto
qed (auto simp: neq_Nil_conv)

declare path_names.simps [simp del]

lemma path_names_slashes: "path_names (dropWhile (\<lambda>c. c = 47) cs) = path_names cs"
proof (induction cs)
  case (Cons c cs)
  then show ?case by (cases "c = 47") (simp_all add: path_names.simps [of "47 # cs"])
qed simp

text \<open>One round of the loop takes the first name off.\<close>

lemma component_first:
  assumes "cs \<noteq> []" "List.hd cs \<noteq> 47" "List.length cs < 2 ^ 32"
  defines "len \<equiv> component_length cs"
  shows "drop len cs = dropWhile (\<lambda>c. c \<noteq> 47) cs" "name_of (qstr_at cs len) = takeWhile (\<lambda>c. c \<noteq> 47) cs"
    "path_names cs = name_of (qstr_at cs len) # path_names (dropWhile (\<lambda>c. c = 47) (drop len cs))"
    "is_dot (qstr_at cs len) \<longleftrightarrow> name_of (qstr_at cs len) = [46]" "is_dotdot (qstr_at cs len) \<longleftrightarrow> name_of (qstr_at cs len) = [46, 46]"
proof -
  obtain c ds where cs: "cs = c # ds" "c \<noteq> 47" using assms(1,2) by (cases cs) auto
  have len: "len = List.length (takeWhile (\<lambda>c. c \<noteq> 47) cs)" by (simp add: len_def component_length_def cs)
  show d: "drop len cs = dropWhile (\<lambda>c. c \<noteq> 47) cs" by (simp add: len dropWhile_eq_drop)
  have le: "len \<le> List.length cs" using length_takeWhile_le [of "\<lambda>c. c \<noteq> 47" cs] by (simp add: len)
  then have u: "unat (of_nat len :: u32) = len" using assms(3) by (simp add: unat_of_nat)
  have "name_of (qstr_at cs len) = take len cs" using le by (intro nth_equalityI) (simp_all add: name_of_def qstr_at_def u)
  then show n: "name_of (qstr_at cs len) = takeWhile (\<lambda>c. c \<noteq> 47) cs" by (simp add: len takeWhile_eq_take [symmetric])
  show "path_names cs = name_of (qstr_at cs len) # path_names (dropWhile (\<lambda>c. c = 47) (drop len cs))"
    using assms(1,2) by (subst path_names.simps) (simp only: n d path_names_slashes if_False)
  let ?q = "qstr_at cs len"
  have q: "q_len ?q = of_nat (List.length (name_of ?q))" "\<And>i. i < List.length (name_of ?q) \<Longrightarrow> q_name ?q i = name_of ?q ! i"
    using le by (simp_all add: name_of_def qstr_at_def u)
  have l: "List.length (name_of ?q) = len" unfolding n by (rule len [symmetric])
  have one: "of_nat len = (1 :: u32) \<longleftrightarrow> len = 1" "of_nat len = (2 :: u32) \<longleftrightarrow> len = 2"
    using u by (auto dest: arg_cong [of _ _ unat])
  have "0 < len" by (simp add: len_def component_length_def)
  then show "is_dot ?q \<longleftrightarrow> name_of ?q = [46]" "is_dotdot ?q \<longleftrightarrow> name_of ?q = [46, 46]"
    using q l one by (auto simp: is_dot_def is_dotdot_def list_eq_iff_nth_eq less_Suc_eq numeral_2_eq_2 nth_Cons')
qed

section \<open>Changes of reference counts\<close>

text \<open>All but reference counts and the order in the cache is the same.\<close>

definition same_tree :: "name_state \<Rightarrow> name_state \<Rightarrow> bool" where
  "same_tree s s' \<longleftrightarrow> same_space s s' \<and> ns_dnext s' = ns_dnext s \<and> dcached s' = dcached s \<and> c_tablesize (dcache s') = c_tablesize (dcache s)
     \<and> (\<forall>p. map_option (\<lambda>d. d\<lparr>d_count := 0\<rparr>) (ns_dents s' p) = map_option (\<lambda>d. d\<lparr>d_count := 0\<rparr>) (ns_dents s p))"

lemma same_tree_refl [simp]: "same_tree s s"
  by (simp add: same_tree_def)

lemma same_tree_trans: "same_tree s t \<Longrightarrow> same_tree t u \<Longrightarrow> same_tree s u"
  unfolding same_tree_def by (auto intro: same_space_trans)

lemma same_treeD:
  assumes "same_tree s s'" "ns_dents s p = Some d"
  obtains n where "ns_dents s' p = Some (d\<lparr>d_count := n\<rparr>)"
proof -
  have "map_option (\<lambda>d. d\<lparr>d_count := 0\<rparr>) (ns_dents s' p) = Some (d\<lparr>d_count := 0\<rparr>)" using assms by (simp add: same_tree_def)
  then obtain e where e: "ns_dents s' p = Some e" "e\<lparr>d_count := 0\<rparr> = d\<lparr>d_count := 0\<rparr>" by auto
  have "e = d\<lparr>d_count := d_count e\<rparr>" using e(2) by (cases d; cases e) simp
  then show ?thesis using e(1) that by metis
qed

lemma same_tree_space: "same_tree s s' \<Longrightarrow> same_space s s'"
  by (simp add: same_tree_def)

text \<open>\<open>moved s s' p d\<close>: dentry \<open>p\<close> has a reference more and \<open>d\<close> one less.\<close>

definition moved :: "name_state \<Rightarrow> name_state \<Rightarrow> (nat \<Rightarrow> u32) \<Rightarrow> bool" where
  "moved s s' n \<longleftrightarrow> same_tree s s' \<and> (dents_ok s \<longrightarrow> dents_ok s') \<and> (\<forall>q. refs s' q = refs s q + n q)"

lemma moved_refl: "moved s s (\<lambda>_. 0)"
  by (simp add: moved_def)

lemma moved_trans: "moved s t m \<Longrightarrow> moved t u n \<Longrightarrow> moved s u (\<lambda>q. m q + n q)"
  by (auto simp: moved_def add.assoc intro: same_tree_trans)

lemma moved_upd:
  assumes "ns_dents s p = Some d"
  shows "moved s (upd_dentry p (\<lambda>d. d\<lparr>d_count := d_count d + c\<rparr>) s) (\<lambda>q. if q = p then c else 0)"
proof -
  let ?t = "upd_dentry p (\<lambda>d. d\<lparr>d_count := d_count d + c\<rparr>) s"
  have "same_tree s ?t" using assms by (auto simp: same_tree_def)
  moreover have "dents_ok s \<longrightarrow> dents_ok ?t" using dents_ok_upd [of "\<lambda>d. d\<lparr>d_count := d_count d + c\<rparr>"] by simp
  moreover have "refs ?t q = refs s q + (if q = p then c else 0)" for q using assms by (simp add: refs_def)
  ultimately show ?thesis by (simp add: moved_def)
qed

lemma dget_moved: "ns_dents s p = Some d \<Longrightarrow> \<exists>s'. dget p s = Some s' \<and> moved s s' (\<lambda>q. if q = p then 1 else 0)"
  using moved_upd [of s p d 1] by (simp add: dget_def)

lemma dput_moved: "ns_dents s p = Some d \<Longrightarrow> \<exists>s'. dput p s = Some s' \<and> moved s s' (\<lambda>q. if q = p then - 1 else 0)"
  using moved_upd [of s p d "- 1"] by (simp add: dput_def)

lemma moved_live: "moved s s' n \<Longrightarrow> ns_dents s p \<noteq> None \<Longrightarrow> ns_dents s' p \<noteq> None"
  unfolding moved_def by (metis option.distinct(1) option.exhaust same_treeD)

text \<open>Every dentry of \<open>s'\<close> is that of \<open>s\<close> with a count of its own.\<close>

lemma same_tree_dents: "same_tree s s' \<Longrightarrow> ns_dents s' p = map_option (\<lambda>d. d\<lparr>d_count := refs s' p\<rparr>) (ns_dents s p)"
proof (cases "ns_dents s p")
  case None
  assume "same_tree s s'"
  then have "map_option (\<lambda>d. d\<lparr>d_count := 0\<rparr>) (ns_dents s' p) = None" using None by (simp add: same_tree_def)
  then show ?thesis using None by simp
next
  case (Some d)
  assume "same_tree s s'"
  then obtain n where "ns_dents s' p = Some (d\<lparr>d_count := n\<rparr>)" using Some by (rule same_treeD)
  then show ?thesis using Some by (simp add: refs_def)
qed

lemma same_tree_at: "same_tree s s' \<Longrightarrow> ns_dents s p = Some d \<Longrightarrow> ns_dents s' p = Some (d\<lparr>d_count := refs s' p\<rparr>)"
  by (simp only: same_tree_dents option.map)

lemma same_tree_sym: "same_tree s s' \<Longrightarrow> same_tree s' s"
  by (simp add: same_tree_def same_space_def)

lemma same_tree_fields:
  assumes "same_tree s s'"
  shows "root_dentry s' = root_dentry s" "root_mnt s' = root_mnt s" "ns_mnts s' = ns_mnts s" "inode_of s' = inode_of s" "ns_mnt_ring s' = ns_mnt_ring s"
    "dcached s' = dcached s" "c_tablesize (dcache s') = c_tablesize (dcache s)" "ns_dents s' p = None \<longleftrightarrow> ns_dents s p = None"
proof -
  show "ns_dents s' p = None \<longleftrightarrow> ns_dents s p = None" unfolding same_tree_dents [OF assms] by simp
qed (use assms in \<open>simp_all add: same_tree_def same_space_def inode_of_def fun_eq_iff\<close>)

section \<open>One name in the cache\<close>

text \<open>
  The cached children of a dentry that a name finds: those with this name, as the file system of the directory compares names, in the hash chain of
  the name. On FAT32 names are equal up to case, but not their chains.
\<close>

definition the_name :: "u8 list \<Rightarrow> qstr" where "the_name n = qstr_at n (List.length n)"

definition child_of :: "name_state \<Rightarrow> nat \<Rightarrow> u8 list \<Rightarrow> nat \<Rightarrow> bool" where
  "child_of s d n p \<longleftrightarrow> p \<in> dcached s \<and> is_child s d (the_name n) p \<and> dbucket s p = unat (stringHash (the_name n) (c_tablesize (dcache s)))"

definition only_child :: "name_state \<Rightarrow> nat \<Rightarrow> u8 list \<Rightarrow> nat \<Rightarrow> bool" where
  "only_child s d n p \<longleftrightarrow> {q. child_of s d n q} = {p}"

lemma the_name_of: "name_of (the_name (name_of q)) = name_of q"
proof -
  have "List.length (name_of q) = unat (q_len q)" by (simp add: name_of_def)
  then show ?thesis unfolding name_of_def [of "the_name (name_of q)"] by (intro nth_equalityI) (simp_all add: the_name_def qstr_at_def)
qed

lemma child_of_name: "child_of s d (name_of q) p \<longleftrightarrow> p \<in> dcached s \<and> is_child s d q p \<and> dbucket s p = unat (stringHash q (c_tablesize (dcache s)))"
proof -
  have "stringHash (the_name (name_of q)) t = stringHash q t" for t by (rule stringHash_compare) (simp add: generic_compare_iff the_name_of)
  moreover have "is_child s d (the_name (name_of q)) p = is_child s d q p" unfolding is_child_def same_name_def the_name_of ..
  ultimately show ?thesis unfolding child_of_def by simp
qed

lemma child_of_moved: "same_tree s s' \<Longrightarrow> child_of s d n p \<Longrightarrow> child_of s' d n p"
proof -
  assume a: "same_tree s s'" "child_of s d n p"
  have nm: "dname s' p = dname s p" unfolding dname_def same_tree_dents [OF a(1)] by (cases "ns_dents s p") simp_all
  then have "dbucket s' p = dbucket s p" using same_tree_fields(7) [OF a(1)] by (simp add: dbucket_def)
  moreover have "is_child s' d (the_name n) p" using a(2) unfolding child_of_def is_child_def same_tree_dents [OF a(1)] by auto
  ultimately show ?thesis using a(2) same_tree_fields(6,7) [OF a(1)] by (simp add: child_of_def)
qed

lemma only_child_moved: "same_tree s s' \<Longrightarrow> only_child s d n p \<Longrightarrow> only_child s' d n p"
  unfolding only_child_def using child_of_moved same_tree_sym by blast

lemma look_up_child:
  assumes "dents_ok s" "ns_dents s parent = Some e" "d_op e \<noteq> No_dops" "only_child s parent (name_of q) p"
  shows "dcache_look_up parent q s = Some (Some p, s\<lparr>dcache := to_front p (dbucket s p) (dcache s)\<rparr>)"
proof -
  let ?h = "unat (stringHash q (c_tablesize (dcache s)))"
  let ?ps = "c_hashtable (dcache s) ?h"
  have mem: "r \<in> set ?ps \<longleftrightarrow> r \<in> dcached s \<and> dbucket s r = ?h" for r using chains_okD(3) [OF dents_okD(1) [OF assms(1)]] by blast
  have l: "chain_loop parent q s ?ps = Some (find (is_child s parent q) ?ps)"
    using assms(1-3) mem by (intro chain_loop_eq) (auto simp: dents_ok_def)
  have ch: "child_of s parent (name_of q) r \<longleftrightarrow> r = p" for r using assms(4) by (auto simp: only_child_def)
  then have fnd: "r \<in> set ?ps \<and> is_child s parent q r \<longleftrightarrow> r = p" for r unfolding child_of_name mem by blast
  have "find (is_child s parent q) ?ps = Some p"
  proof (cases "find (is_child s parent q) ?ps")
    case None
    then show ?thesis using fnd [of p] by (auto simp: find_None_iff)
  next
    case (Some r)
    then show ?thesis using fnd [of r] by (auto simp: find_Some_iff)
  qed
  moreover have "dbucket s p = ?h" using ch [of p] by (simp add: child_of_name)
  ultimately show ?thesis using l by (simp add: dcache_look_up_def Let_def)
qed

lemma do_lookup_cached:
  assumes "dents_ok s" "ns_dents s (nd_dentry nd) = Some e" "d_op e \<noteq> No_dops" "only_child s (nd_dentry nd) (name_of q) p"
  shows "\<exists>s'. do_lookup lookup nd q s = Some (Inr (nd_mnt nd, p), s') \<and> moved s s' (\<lambda>r. if r = p then 1 else 0)"
proof -
  let ?t = "s\<lparr>dcache := to_front p (dbucket s p) (dcache s)\<rparr>"
  have ch: "child_of s (nd_dentry nd) (name_of q) p" using assms(4) by (auto simp: only_child_def)
  then have pc: "p \<in> dcached s" "ns_dents s p \<noteq> None" by (auto simp: child_of_def is_child_def)
  note c = chains_ok_to_front [OF dents_okD(1) [OF assms(1)] pc(1)]
  have m: "moved s ?t (\<lambda>_. 0)" using dents_ok_to_front [OF assms(1) pc(1)] c(2,4) by (simp add: moved_def same_tree_def refs_def)
  obtain s' where s': "dget p ?t = Some s'" "moved ?t s' (\<lambda>r. if r = p then 1 else 0)" using dget_moved [of ?t p] pc(2) by auto
  then show ?thesis using moved_trans [OF m s'(2)] look_up_child [OF assms] by (intro exI [of _ s']) (simp add: do_lookup_def)
qed

section \<open>Names resolved in the cache\<close>

text \<open>
  \<open>crosses s mnt d mnt' d'\<close>: from a dentry the mounts on it lead to the root of the last one. \<open>backs\<close>: two dots lead to the parent, from the root of
  a mount to the parent of its mount point, and stay at the root of all and at the root of a mount that is its own parent.
\<close>

inductive crosses :: "name_state \<Rightarrow> nat \<Rightarrow> nat \<Rightarrow> nat \<Rightarrow> nat \<Rightarrow> bool" for s where
  stay: "ns_dents s d = Some x \<Longrightarrow> d_mounted x = 0 \<or> lookup_mnt mnt d s = Some None \<Longrightarrow> crosses s mnt d mnt d"
| over: "ns_dents s d = Some x \<Longrightarrow> d_mounted x \<noteq> 0 \<Longrightarrow> lookup_mnt mnt d s = Some (Some m) \<Longrightarrow> ns_mnts s m = Some v \<Longrightarrow> ns_dents s (mnt_root v) \<noteq> None
    \<Longrightarrow> crosses s m (mnt_root v) m' d' \<Longrightarrow> crosses s mnt d m' d'"

inductive backs :: "name_state \<Rightarrow> nat \<Rightarrow> nat \<Rightarrow> nat \<Rightarrow> nat \<Rightarrow> bool" for s where
  top: "d = root_dentry s \<Longrightarrow> mnt = root_mnt s \<Longrightarrow> ns_dents s d \<noteq> None \<Longrightarrow> backs s mnt d mnt d"
| up: "d \<noteq> root_dentry s \<or> mnt \<noteq> root_mnt s \<Longrightarrow> ns_mnts s mnt = Some m \<Longrightarrow> d \<noteq> mnt_root m \<Longrightarrow> ns_dents s d = Some x \<Longrightarrow> ns_dents s (d_parent x) \<noteq> None
    \<Longrightarrow> backs s mnt d mnt (d_parent x)"
| own: "d \<noteq> root_dentry s \<or> mnt \<noteq> root_mnt s \<Longrightarrow> ns_mnts s mnt = Some m \<Longrightarrow> d = mnt_root m \<Longrightarrow> mnt_parent m = mnt \<Longrightarrow> ns_dents s d \<noteq> None
    \<Longrightarrow> backs s mnt d mnt d"
| out: "d \<noteq> root_dentry s \<or> mnt \<noteq> root_mnt s \<Longrightarrow> ns_mnts s mnt = Some m \<Longrightarrow> d = mnt_root m \<Longrightarrow> mnt_parent m \<noteq> mnt \<Longrightarrow> ns_dents s d \<noteq> None
    \<Longrightarrow> ns_dents s (mnt_mountpoint m) \<noteq> None \<Longrightarrow> backs s (mnt_parent m) (mnt_mountpoint m) mnt' d' \<Longrightarrow> backs s mnt d mnt' d'"

text \<open>\<open>resolves s mnt d ns mnt' e\<close>: from dentry \<open>d\<close> of mount \<open>mnt\<close> the names lead to \<open>e\<close> of mount \<open>mnt'\<close>, through cached dentries and over mounts.\<close>

inductive resolves :: "name_state \<Rightarrow> nat \<Rightarrow> nat \<Rightarrow> u8 list list \<Rightarrow> nat \<Rightarrow> nat \<Rightarrow> bool" for s where
  here: "ns_dents s d = Some x \<Longrightarrow> resolves s mnt d [] mnt d"
| dot: "resolves s mnt d ns mnt' e \<Longrightarrow> ns_dents s d \<noteq> None \<Longrightarrow> resolves s mnt d ([46] # ns) mnt' e"
| dotdot: "backs s mnt d m1 d1 \<Longrightarrow> resolves s m1 d1 ns mnt' e \<Longrightarrow> resolves s mnt d ([46, 46] # ns) mnt' e"
| child: "n \<noteq> [46] \<Longrightarrow> n \<noteq> [46, 46] \<Longrightarrow> ns_dents s d = Some y \<Longrightarrow> d_op y \<noteq> No_dops \<Longrightarrow> only_child s d n p \<Longrightarrow> crosses s mnt p m1 q
    \<Longrightarrow> ns_dents s q = Some x \<Longrightarrow> d_inode x \<noteq> NULL \<Longrightarrow> ns \<noteq> [] \<longrightarrow> i_op (inode_of s (d_inode x)) = Dir_ops \<Longrightarrow> resolves s m1 q ns mnt' e
    \<Longrightarrow> resolves s mnt d (n # ns) mnt' e"

lemma resolves_Nil: "resolves s mnt d [] mnt' e \<Longrightarrow> e = d \<and> mnt' = mnt"
  by (erule resolves.cases) simp_all

lemma crosses_live: "crosses s mnt d mnt' d' \<Longrightarrow> ns_dents s d \<noteq> None \<and> ns_dents s d' \<noteq> None"
  by (induction rule: crosses.induct) auto

lemma backs_live: "backs s mnt d mnt' d' \<Longrightarrow> ns_dents s d \<noteq> None \<and> ns_dents s d' \<noteq> None"
  by (induction rule: backs.induct) auto

lemma resolves_live: "resolves s mnt d ns mnt' e \<Longrightarrow> ns_dents s d \<noteq> None \<and> ns_dents s e \<noteq> None"
  by (induction rule: resolves.induct) (auto dest: backs_live)

lemma lookup_mnt_same_tree: "same_tree s s' \<Longrightarrow> lookup_mnt mnt d s' = lookup_mnt mnt d s"
proof -
  assume a: "same_tree s s'"
  note f = same_tree_fields [OF a] and g = same_tree_dents [OF a]
  have "mnt_loop mnt d s' ps = mnt_loop mnt d s ps" for ps
  proof (induction ps)
    case (Cons m ps)
    show ?case unfolding mnt_loop.simps f(3) f(4) g Cons.IH by (cases "ns_dents s d") (auto simp: map_option_case split: Option.bind_split option.split)
  qed simp
  then show ?thesis by (simp add: lookup_mnt_def f(5))
qed

lemma crosses_same_tree: "crosses s mnt d mnt' d' \<Longrightarrow> same_tree s s' \<Longrightarrow> crosses s' mnt d mnt' d'"
proof (induction rule: crosses.induct)
  case (stay d x mnt)
  then show ?case using crosses.stay [OF same_tree_at [OF stay.prems stay.hyps(1)]] lookup_mnt_same_tree [OF stay.prems] by auto
next
  case (over d x mnt m v m' d')
  note f = same_tree_fields [OF over.prems]
  show ?case
    using crosses.over [OF same_tree_at [OF over.prems over.hyps(1)], of mnt m v m' d'] over.hyps(2-5) over.IH [OF over.prems] lookup_mnt_same_tree [OF over.prems] f(3,8) by simp
qed

lemma backs_same_tree: "backs s mnt d mnt' d' \<Longrightarrow> same_tree s s' \<Longrightarrow> backs s' mnt d mnt' d'"
proof (induction rule: backs.induct)
  case (up d mnt m x)
  show ?case using backs.up [OF _ _ up.hyps(3) same_tree_at [OF up.prems up.hyps(4)], of mnt] up.hyps same_tree_fields [OF up.prems] by simp
qed (simp_all add: same_tree_fields backs.intros)

lemma resolves_same_tree: "resolves s mnt d ns mnt' e \<Longrightarrow> same_tree s s' \<Longrightarrow> resolves s' mnt d ns mnt' e"
proof (induction rule: resolves.induct)
  case (here d x)
  then show ?case using resolves.here [OF same_tree_at] by blast
next
  case (dot mnt d ns mnt' e)
  then show ?case using same_tree_fields(8) [OF dot.prems] by (simp add: resolves.dot)
next
  case (dotdot mnt d m1 d1 ns mnt' e)
  then show ?case using backs_same_tree resolves.dotdot by blast
next
  case (child n d y p mnt m1 q x ns mnt' e)
  have "ns_dents s' d = Some (y\<lparr>d_count := refs s' d\<rparr>)" "ns_dents s' q = Some (x\<lparr>d_count := refs s' q\<rparr>)"
    by (rule same_tree_at [OF child.prems child.hyps(3)], rule same_tree_at [OF child.prems child.hyps(7)])
  from resolves.child [OF child.hyps(1,2) this(1) _ only_child_moved [OF child.prems child.hyps(5)] crosses_same_tree [OF child.hyps(6) child.prems] this(2)]
  show ?case using child same_tree_fields(4) [OF child.prems] by simp
qed

text \<open>A reference moves from \<open>d\<close> to \<open>p\<close>.\<close>

abbreviation shifted :: "name_state \<Rightarrow> name_state \<Rightarrow> nat \<Rightarrow> nat \<Rightarrow> bool" where
  "shifted s s' d p \<equiv> moved s s' (\<lambda>q. (if q = p then 1 else 0) + (if q = d then - 1 else 0))"

lemma moved_cong: "moved s t m \<Longrightarrow> (\<And>q. m q = n q) \<Longrightarrow> moved s t n"
  by (simp add: moved_def)

lemma shifted_refl: "shifted s s d d"
  by (rule moved_cong [OF moved_refl]) simp

lemma shifted_trans: "shifted s t d p \<Longrightarrow> shifted t u p e \<Longrightarrow> shifted s u d e"
  by (drule (1) moved_trans, erule moved_cong) simp

lemma moved_ok: "moved s t m \<Longrightarrow> dents_ok s \<Longrightarrow> dents_ok t" "moved s t m \<Longrightarrow> same_tree s t"
  by (simp_all add: moved_def)

lemma get_put_moved:
  assumes "ns_dents s p \<noteq> None" "ns_dents s d \<noteq> None"
  shows "\<exists>t u. dget p s = Some t \<and> dput d t = Some u \<and> shifted s u d p"
proof -
  obtain t where t: "dget p s = Some t" "moved s t (\<lambda>q. if q = p then 1 else 0)" using assms(1) dget_moved by blast
  obtain u where u: "dput d t = Some u" "moved t u (\<lambda>q. if q = d then - 1 else 0)" using moved_live [OF t(2) assms(2)] dput_moved by blast
  show ?thesis using t(1) u(1) moved_trans [OF t(2) u(2)] by blast
qed

lemma put_get_moved:
  assumes "ns_dents s p \<noteq> None" "ns_dents s d \<noteq> None"
  shows "\<exists>t u. dput d s = Some t \<and> dget p t = Some u \<and> same_tree s t \<and> shifted s u d p"
proof -
  obtain t where t: "dput d s = Some t" "moved s t (\<lambda>q. if q = d then - 1 else 0)" using assms(2) dput_moved by blast
  obtain u where u: "dget p t = Some u" "moved t u (\<lambda>q. if q = p then 1 else 0)" using moved_live [OF t(2) assms(1)] dget_moved by blast
  have "shifted s u d p" by (rule moved_cong [OF moved_trans [OF t(2) u(2)]]) (simp add: add.commute)
  then show ?thesis using t u(1) moved_ok(2) by blast
qed

text \<open>The two walks over mounts move the reference along.\<close>

lemma follow_mount_ok: "crosses s mnt d mnt' d' \<Longrightarrow> same_tree s t \<Longrightarrow> \<exists>r u. follow_mount res mnt d t = Some (r, mnt', d', u) \<and> shifted t u d d'"
proof (induction arbitrary: res t rule: crosses.induct)
  case (stay d x mnt)
  obtain c where "ns_dents t d = Some (x\<lparr>d_count := c\<rparr>)" using same_treeD [OF stay.prems stay.hyps(1)] .
  then have "follow_mount res mnt d t = Some (res, mnt, d, t)"
    using stay.hyps(2) by (subst follow_mount.simps) (auto simp: lookup_mnt_same_tree [OF stay.prems])
  then show ?case using shifted_refl by blast
next
  case (over d x mnt m v m' d')
  note f = same_tree_fields [OF over.prems]
  obtain u w where u: "dput d t = Some u" "dget (mnt_root v) u = Some w" "same_tree t u" "shifted t w d (mnt_root v)"
    using put_get_moved [of t "mnt_root v" d] over.hyps(1,5) f(8) by auto
  have "same_tree s w" using over.prems moved_ok(2) [OF u(4)] same_tree_trans by blast
  then obtain r z where z: "follow_mount 1 m (mnt_root v) w = Some (r, m', d', z)" "shifted w z (mnt_root v) d'" using over.IH by blast
  have "ns_mnts u m = Some v" using over.hyps(4) f(3) same_tree_fields(3) [OF u(3)] by simp
  moreover obtain c where "ns_dents t d = Some (x\<lparr>d_count := c\<rparr>)" using same_treeD [OF over.prems over.hyps(1)] .
  ultimately have "follow_mount res mnt d t = Some (r, m', d', z)"
    using over.hyps(2,3) u(1,2) z(1) by (subst follow_mount.simps) (simp add: lookup_mnt_same_tree [OF over.prems])
  then show ?case using shifted_trans [OF u(4) z(2)] by blast
qed

lemma follow_dotdot_ok: "backs s mnt d mnt' d' \<Longrightarrow> same_tree s t \<Longrightarrow> \<exists>u. follow_dotdot mnt d t = Some (mnt', d', u) \<and> shifted t u d d'"
proof (induction arbitrary: t rule: backs.induct)
  case (top d mnt)
  then have "follow_dotdot mnt d t = Some (mnt, d, t)" by (subst follow_dotdot.simps) (simp add: same_tree_fields)
  then show ?case using shifted_refl by blast
next
  case (up d mnt m x)
  note f = same_tree_fields [OF up.prems]
  obtain u w where u: "dget (d_parent x) t = Some u" "dput d u = Some w" "shifted t w d (d_parent x)"
    using get_put_moved [of t "d_parent x" d] up.hyps(4,5) f(8) by auto
  obtain c where "ns_dents t d = Some (x\<lparr>d_count := c\<rparr>)" using same_treeD [OF up.prems up.hyps(4)] .
  then have "follow_dotdot mnt d t = Some (mnt, d_parent x, w)"
    using up.hyps(1-3) u(1,2) by (subst follow_dotdot.simps) (auto simp: f(1-3))
  then show ?case using u(3) by blast
next
  case (own d mnt m)
  then have "follow_dotdot mnt d t = Some (mnt, d, t)" by (subst follow_dotdot.simps) (auto simp: same_tree_fields)
  then show ?case using shifted_refl by blast
next
  case (out d mnt m mnt' d')
  note f = same_tree_fields [OF out.prems]
  obtain u w where u: "dget (mnt_mountpoint m) t = Some u" "dput d u = Some w" "shifted t w d (mnt_mountpoint m)"
    using get_put_moved [of t "mnt_mountpoint m" d] out.hyps(5,6) f(8) by auto
  have "same_tree s w" using out.prems moved_ok(2) [OF u(3)] same_tree_trans by blast
  then obtain z where z: "follow_dotdot (mnt_parent m) (mnt_mountpoint m) w = Some (mnt', d', z)" "shifted w z (mnt_mountpoint m) d'" using out.IH by blast
  have "follow_dotdot mnt d t = Some (mnt', d', z)"
    using out.hyps(1-4) u(1,2) z(1) by (subst follow_dotdot.simps) (auto simp: f(1-3))
  then show ?case using shifted_trans [OF u(3) z(2)] by blast
qed

lemma to_dotdot_ok:
  assumes "backs s (nd_mnt nd) (nd_dentry nd) mnt' d'"
  shows "\<exists>u. to_dotdot nd s = Some (nd\<lparr>nd_mnt := mnt', nd_dentry := d'\<rparr>, u) \<and> shifted s u (nd_dentry nd) d'"
proof -
  obtain u where u: "follow_dotdot (nd_mnt nd) (nd_dentry nd) s = Some (mnt', d', u)" "shifted s u (nd_dentry nd) d'" using follow_dotdot_ok [OF assms same_tree_refl] by blast
  have "ns_dents u d' \<noteq> None" using moved_live [OF u(2)] backs_live [OF assms] by blast
  then show ?thesis using u by (auto simp: to_dotdot_def)
qed

text \<open>A cached child: the lookup and what follows it in the walk.\<close>

lemma child_step:
  assumes "dents_ok s" "ns_dents s (nd_dentry nd) = Some y" "d_op y \<noteq> No_dops" "only_child s (nd_dentry nd) (name_of q) p"
    and "crosses s (nd_mnt nd) p m1 p1" "ns_dents s p1 = Some x"
  shows "\<exists>t r t' u c. do_lookup lookup nd q s = Some (Inr (nd_mnt nd, p), t) \<and> follow_mount 0 (nd_mnt nd) p t = Some (r, m1, p1, t')
    \<and> ns_dents t' p1 = Some (x\<lparr>d_count := c\<rparr>) \<and> same_tree s t' \<and> dput (nd_dentry nd) t' = Some u \<and> shifted s u (nd_dentry nd) p1"
proof -
  obtain t where t: "do_lookup lookup nd q s = Some (Inr (nd_mnt nd, p), t)" "moved s t (\<lambda>r. if r = p then 1 else 0)"
    using do_lookup_cached [OF assms(1-4)] by blast
  obtain r t' where t': "follow_mount 0 (nd_mnt nd) p t = Some (r, m1, p1, t')" "shifted t t' p p1" using follow_mount_ok [OF assms(5) moved_ok(2) [OF t(2)]] by blast
  have m: "moved s t' (\<lambda>r. if r = p1 then 1 else 0)" by (rule moved_cong [OF moved_trans [OF t(2) t'(2)]]) simp
  have st: "same_tree s t'" using m by (rule moved_ok)
  obtain c where c: "ns_dents t' p1 = Some (x\<lparr>d_count := c\<rparr>)" using same_treeD [OF st assms(6)] .
  have "ns_dents t' (nd_dentry nd) \<noteq> None" using moved_live [OF m] assms(2) by simp
  then obtain u where u: "dput (nd_dentry nd) t' = Some u" "moved t' u (\<lambda>q. if q = nd_dentry nd then - 1 else 0)" using dput_moved by blast
  show ?thesis using t(1) t'(1) st c u(1) moved_trans [OF m u(2)] by blast
qed

section \<open>The walk\<close>

definition dir_dentry :: "name_state \<Rightarrow> nat \<Rightarrow> bool" where
  "dir_dentry s e \<longleftrightarrow> (\<exists>x. ns_dents s e = Some x \<and> i_op (inode_of s (d_inode x)) = Dir_ops)"

lemma dir_dentry_same_tree: "same_tree s t \<Longrightarrow> dir_dentry s e \<Longrightarrow> dir_dentry t e"
  unfolding dir_dentry_def by (elim exE conjE, frule (1) same_treeD) (auto simp: same_tree_fields)

lemma walk_last_ok:
  assumes "dents_ok s" "resolves s (nd_mnt nd) (nd_dentry nd) [name_of q] mnt' e" "\<not> has_flag lflags LOOKUP_PARENT"
    and "is_dot q \<longleftrightarrow> name_of q = [46]" "is_dotdot q \<longleftrightarrow> name_of q = [46, 46]" "has_flag lflags LOOKUP_DIRECTORY \<Longrightarrow> dir_dentry s e"
  shows "\<exists>nd' s'. walk_last lookup lflags q nd s = Some (0, nd', s') \<and> nd_dentry nd' = e \<and> nd_mnt nd' = mnt' \<and> shifted s s' (nd_dentry nd) e"
proof -
  define n1 where "n1 = nd\<lparr>nd_flags := nd_flags nd AND NOT LOOKUP_CONTINUE\<rparr>"
  have n1: "nd_dentry n1 = nd_dentry nd" "nd_mnt n1 = nd_mnt nd" by (simp_all add: n1_def)
  show ?thesis
    using assms(2)
  proof (cases rule: resolves.cases)
    case dot
    then show ?thesis using assms(3-5) resolves_Nil shifted_refl by (force simp: walk_last_def Let_def)
  next
    case (dotdot m1 d1)
    then have e: "e = d1" "mnt' = m1" "name_of q = [46, 46]" using resolves_Nil by auto
    obtain u where "to_dotdot n1 s = Some (n1\<lparr>nd_mnt := m1, nd_dentry := d1\<rparr>, u)" "shifted s u (nd_dentry nd) d1"
      using to_dotdot_ok [of s n1 m1 d1] dotdot n1 by auto
    then show ?thesis using assms(3-5) e n1 by (simp add: walk_last_def n1_def Let_def)
  next
    case (child y p m1 p1 x)
    then have e: "e = p1" "mnt' = m1" using resolves_Nil by auto
    obtain t r t' u c where t: "do_lookup lookup n1 q s = Some (Inr (nd_mnt nd, p), t)" "follow_mount 0 (nd_mnt nd) p t = Some (r, m1, p1, t')"
      "ns_dents t' p1 = Some (x\<lparr>d_count := c\<rparr>)" "same_tree s t'" "dput (nd_dentry nd) t' = Some u" "shifted s u (nd_dentry nd) p1"
      using child_step [OF assms(1), of n1 y q p m1 p1 x lookup] child n1 by auto
    have su: "same_tree s u" using t(6) by (rule moved_ok)
    obtain c' where c': "ns_dents u p1 = Some (x\<lparr>d_count := c'\<rparr>)" using same_treeD [OF su] child by blast
    have "has_flag lflags LOOKUP_DIRECTORY \<Longrightarrow> i_op (inode_of u (d_inode x)) = Dir_ops"
      using assms(6) child e same_tree_fields(4) [OF su] by (auto simp: dir_dentry_def)
    then show ?thesis using t c' child assms(3-5) e n1 by (auto simp: walk_last_def n1_def [symmetric] Let_def)
  qed
qed

lemma walk_middle_ok:
  assumes "dents_ok s" "ns_dents s (nd_dentry nd) = Some y" "d_op y \<noteq> No_dops" "only_child s (nd_dentry nd) (name_of q) p"
    and "crosses s (nd_mnt nd) p m1 p1" "ns_dents s p1 = Some x" "d_inode x \<noteq> NULL" "i_op (inode_of s (d_inode x)) = Dir_ops"
  shows "\<exists>nd' s'. walk_middle lookup q nd s = Some (0, nd', s') \<and> nd_dentry nd' = p1 \<and> nd_mnt nd' = m1 \<and> shifted s s' (nd_dentry nd) p1"
proof -
  define n1 where "n1 = nd\<lparr>nd_flags := nd_flags nd OR LOOKUP_CONTINUE\<rparr>"
  have n1: "nd_dentry n1 = nd_dentry nd" "nd_mnt n1 = nd_mnt nd" by (simp_all add: n1_def)
  obtain t r t' u c where t: "do_lookup lookup n1 q s = Some (Inr (nd_mnt nd, p), t)" "follow_mount 0 (nd_mnt nd) p t = Some (r, m1, p1, t')"
    "ns_dents t' p1 = Some (x\<lparr>d_count := c\<rparr>)" "same_tree s t'" "dput (nd_dentry nd) t' = Some u" "shifted s u (nd_dentry nd) p1"
    using child_step [OF assms(1), of n1 y q p m1 p1 x lookup] assms n1 by auto
  have "same_tree s u" using t(6) by (rule moved_ok)
  then have "inode_of t' = inode_of s" "inode_of u = inode_of s" using t(4) same_tree_fields(4) by blast+
  then show ?thesis using t assms(7,8) n1 by (simp add: walk_middle_def n1_def [symmetric] Let_def)
qed

lemma has_flag_or:
  "has_flag (f OR LOOKUP_FOLLOW OR LOOKUP_DIRECTORY) LOOKUP_PARENT = has_flag f LOOKUP_PARENT" "has_flag (f OR LOOKUP_FOLLOW OR LOOKUP_DIRECTORY) LOOKUP_DIRECTORY"
proof -
  have "(f OR LOOKUP_FOLLOW OR LOOKUP_DIRECTORY) AND LOOKUP_PARENT = f AND LOOKUP_PARENT"
    by (simp add: word_ao_dist LOOKUP_FOLLOW_def LOOKUP_DIRECTORY_def LOOKUP_PARENT_def)
  then show "has_flag (f OR LOOKUP_FOLLOW OR LOOKUP_DIRECTORY) LOOKUP_PARENT = has_flag f LOOKUP_PARENT" by (simp only: has_flag_def)
  have "bit ((f OR LOOKUP_FOLLOW OR LOOKUP_DIRECTORY) AND LOOKUP_DIRECTORY) 1"
    by (simp add: bit_simps LOOKUP_DIRECTORY_def)
  then show "has_flag (f OR LOOKUP_FOLLOW OR LOOKUP_DIRECTORY) LOOKUP_DIRECTORY" unfolding has_flag_def by auto
qed

lemma path_names_Nil: "path_names cs = [] \<longleftrightarrow> (\<forall>c \<in> set cs. c = 47)"
  by (induction cs rule: path_names.induct) (subst path_names.simps, auto simp: neq_Nil_conv dest: set_takeWhileD)

lemma walk_loop_ok:
  assumes "cs \<noteq> []" "List.hd cs \<noteq> 47" "List.length cs < 2 ^ 32" "resolves s (nd_mnt nd) (nd_dentry nd) (path_names cs) mnt' e" "dents_ok s"
    and "\<not> has_flag lflags LOOKUP_PARENT" "has_flag lflags LOOKUP_DIRECTORY \<or> List.last cs = 47 \<Longrightarrow> dir_dentry s e"
  shows "\<exists>nd' s'. walk_loop lookup lflags cs nd s = Some (0, nd', s') \<and> nd_dentry nd' = e \<and> nd_mnt nd' = mnt' \<and> shifted s s' (nd_dentry nd) e"
  using assms
proof (induction "List.length cs" arbitrary: cs nd s rule: less_induct)
  case less
  define len where "len = component_length cs"
  define rest where "rest = drop len cs"
  define nxt where "nxt = dropWhile (\<lambda>c. c = 47) rest"
  define q where "q = qstr_at cs len"
  note f = component_first [OF less.prems(1-3), folded len_def, folded q_def rest_def, folded nxt_def]
  have unf: "walk_loop lookup lflags cs nd s =
     (if rest = [] then walk_last lookup lflags q nd s
      else if nxt = [] then walk_last lookup (lflags OR LOOKUP_FOLLOW OR LOOKUP_DIRECTORY) q nd s
      else if is_dotdot q then do { (nd, s) \<leftarrow> to_dotdot nd s; walk_loop lookup lflags nxt nd s }
      else if is_dot q then walk_loop lookup lflags nxt nd s
      else do {
        (err, nd, s) \<leftarrow> walk_middle lookup q nd s;
        if err \<noteq> 0 then Some (err, nd, s) else walk_loop lookup lflags nxt nd s
      })"
    by (subst walk_loop.simps) (simp only: Let_def len_def q_def rest_def nxt_def)
  have "0 < len" by (simp add: len_def component_length_def)
  then have sm: "List.length nxt < List.length cs"
    using less.prems(1) length_dropWhile_le [of "\<lambda>c. c = 47" rest] by (simp add: nxt_def rest_def) (metis diff_less le_less_trans length_greater_0_conv)
  show ?case
  proof (cases "nxt = []")
    case True
    have "path_names [] = []" by (simp add: path_names.simps)
    then have r: "resolves s (nd_mnt nd) (nd_dentry nd) [name_of q] mnt' e" using less.prems(4) f(3) True by simp
    show ?thesis
    proof (cases "rest = []")
      case True
      then show ?thesis using walk_last_ok [OF less.prems(5) r less.prems(6) f(4,5)] less.prems(7) by (simp add: unf)
    next
      case False
      have "List.last cs = List.last rest" using False by (simp add: rest_def)
      moreover have "List.last rest = 47" using True False by (auto simp: nxt_def)
      ultimately have "dir_dentry s e" using less.prems(7) by simp
      moreover have "\<not> has_flag (lflags OR LOOKUP_FOLLOW OR LOOKUP_DIRECTORY) LOOKUP_PARENT" using less.prems(6) unfolding has_flag_or(1) .
      ultimately show ?thesis using walk_last_ok [OF less.prems(5) r _ f(4,5)] True False by (simp add: unf)
    qed
  next
    case False
    then have ne: "rest \<noteq> []" by (auto simp: nxt_def)
    have hd: "List.hd nxt \<noteq> 47" using hd_dropWhile [of "\<lambda>c. c = 47" rest] False by (simp add: nxt_def)
    have l32: "List.length nxt < 2 ^ 32" using sm less.prems(3) by simp
    obtain xs where "rest = xs @ nxt" unfolding nxt_def by (metis takeWhile_dropWhile_id)
    then have "List.last nxt = List.last rest" using False by simp
    then have lst: "List.last nxt = List.last cs" using ne by (simp add: rest_def)
    have nn: "path_names nxt \<noteq> []" using False hd by (auto simp: path_names_Nil neq_Nil_conv)
    have go: "\<exists>nd' s'. walk_loop lookup lflags nxt n1 t = Some (0, nd', s') \<and> nd_dentry nd' = e \<and> nd_mnt nd' = mnt' \<and> shifted s s' (nd_dentry nd) e"
      if "shifted s t (nd_dentry nd) p" "nd_dentry n1 = p" "nd_mnt n1 = m" "resolves s m p (path_names nxt) mnt' e" for n1 t p m
    proof -
      have st: "same_tree s t" "dents_ok t" using moved_ok [OF that(1)] less.prems(5) by auto
      have r: "resolves t (nd_mnt n1) (nd_dentry n1) (path_names nxt) mnt' e" using resolves_same_tree [OF that(4) st(1)] that(2,3) by simp
      have d: "has_flag lflags LOOKUP_DIRECTORY \<or> List.last nxt = 47 \<Longrightarrow> dir_dentry t e"
        using less.prems(7) lst dir_dentry_same_tree [OF st(1)] by auto
      show ?thesis using less.hyps [OF sm False hd l32 r st(2) less.prems(6) d] shifted_trans [OF that(1)] that(2,3) by fastforce
    qed
    have res: "resolves s (nd_mnt nd) (nd_dentry nd) (name_of q # path_names nxt) mnt' e" using less.prems(4) f(3) by simp
    then show ?thesis
    proof (cases rule: resolves.cases)
      case dot
      then show ?thesis using go [OF shifted_refl refl refl] f(4,5) ne False by (simp add: unf)
    next
      case (dotdot m1 d1)
      obtain u where u: "to_dotdot nd s = Some (nd\<lparr>nd_mnt := m1, nd_dentry := d1\<rparr>, u)" "shifted s u (nd_dentry nd) d1" using to_dotdot_ok dotdot by blast
      then show ?thesis using go [OF u(2), of "nd\<lparr>nd_mnt := m1, nd_dentry := d1\<rparr>" m1] dotdot f(5) ne False by (simp add: unf)
    next
      case (child y p m1 p1 x)
      obtain n1 t where m: "walk_middle lookup q nd s = Some (0, n1, t)" "nd_dentry n1 = p1" "nd_mnt n1 = m1" "shifted s t (nd_dentry nd) p1"
        using walk_middle_ok [OF less.prems(5), of nd y q p m1 p1 x lookup] child nn by auto
      then show ?thesis using go [OF m(4,2,3)] child f(4,5) ne False by (simp add: unf)
    qed
  qed
qed

end
