(* ===== verification/Ext2Dir.thy ===== *)
theory Ext2Dir
  imports Namei Ext2
begin

text \<open>
  Directories of the EXT2 driver: entries (\<open>kernel/vfs/ext2/dir.c\<close>), and the operations \<open>lookup\<close>, \<open>readdir\<close>, \<open>create\<close>, \<open>mkdir\<close>
  and \<open>delete_inode\<close> (\<open>ext2.c\<close>). An entry lies in the bytes of a page. A read or write that leaves the page has no result, and so has
  a scan that meets an entry of length 0 and would stay there.
\<close>

section \<open>Entries\<close>

text \<open>\<open>struct ext2_dir_entry_2\<close> at offset \<open>a\<close> of a buffer.\<close>

definition de_ino :: "nat \<Rightarrow> u8 list \<Rightarrow> u32" where "de_ino a buf = le32 a buf"
definition de_rec_len :: "nat \<Rightarrow> u8 list \<Rightarrow> u16" where "de_rec_len a buf = le16 (a + 4) buf"
definition de_name_len :: "nat \<Rightarrow> u8 list \<Rightarrow> u8" where "de_name_len a buf = buf ! (a + 6)"
definition de_file_type :: "nat \<Rightarrow> u8 list \<Rightarrow> u8" where "de_file_type a buf = buf ! (a + 7)"

definition de_qstr :: "nat \<Rightarrow> u8 list \<Rightarrow> qstr" where
  "de_qstr a buf = \<lparr>q_name = (\<lambda>i. buf ! (a + 8 + i)), q_len = ucast (de_name_len a buf)\<rparr>"

definition de_fits :: "nat \<Rightarrow> u8 list \<Rightarrow> bool" where
  "de_fits a buf \<longleftrightarrow> a + 8 \<le> List.length buf \<and> a + 8 + unat (de_name_len a buf) \<le> List.length buf"

text \<open>An entry that is built to be added.\<close>

record dir_entry =
  e_ino :: u32
  e_rec_len :: u16
  e_name_len :: u8
  e_file_type :: u8
  e_name :: "u8 list"

definition EXT2_FT_REG_FILE :: u8 where "EXT2_FT_REG_FILE = 1"
definition EXT2_FT_DIR :: u8 where "EXT2_FT_DIR = 2"
definition EXT2_FIRST_MAP_INDEX :: nat where "EXT2_FIRST_MAP_INDEX = 12"
definition EXT2_NAME_LEN :: nat where "EXT2_NAME_LEN = 255"
definition MAX_DIRENT_NUM :: nat where "MAX_DIRENT_NUM = 128"

definition EXT2_DIR_REC_LEN :: "nat \<Rightarrow> nat" where
  "EXT2_DIR_REC_LEN name_len = (name_len + 8 + 3) div 4 * 4"

definition e_header :: "dir_entry \<Rightarrow> u8 list" where
  "e_header e = set_le32 0 (e_ino e) (set_le16 4 (e_rec_len e) (replicate 6 0)) @ [e_name_len e, e_file_type e]"

text \<open>The two copies of an entry to offset \<open>a\<close>: 8 bytes and the name.\<close>

definition put_entry :: "nat \<Rightarrow> dir_entry \<Rightarrow> u8 list \<Rightarrow> u8 list option" where
  "put_entry a e buf = do {
     _ \<leftarrow> c_guard (a + 8 + unat (e_name_len e) \<le> List.length buf);
     Some (put_bytes (a + 8) (take (unat (e_name_len e)) (e_name e)) (put_bytes a (e_header e) buf))
   }"

section \<open>Searching a directory\<close>

text \<open>The page with block number \<open>no\<close> of the directory, through the cache.\<close>

definition dir_page :: "nat \<Rightarrow> u32 \<Rightarrow> vfs_state \<Rightarrow> (nat \<times> u8 list \<times> vfs_state) option" where
  "dir_page dir no s = do {
     (p, s) \<leftarrow> pcache_look_up no dir s;
     page \<leftarrow> vs_pages s p;
     Some (p, p_data page, s)
   }"

text \<open>A new inode object, of which only number, block size and file system are set.\<close>

definition raw_inode :: "nat \<Rightarrow> u32 \<Rightarrow> vfs_state \<Rightarrow> nat \<times> vfs_state" where
  "raw_inode dir ino s =
     (let p = vs_next s; d = vs_inodes s dir
      in (p, upd_inode p (\<lambda>i. i\<lparr>i_ino := ino, i_blksize := i_blksize d, i_sb := i_sb d\<rparr>) (s\<lparr>vs_next := p + 1\<rparr>)))"

definition fill_found :: "nat \<Rightarrow> nat \<Rightarrow> u8 \<Rightarrow> vfs_state \<Rightarrow> vfs_state option" where
  "fill_found dir p ft s = do {
     s \<leftarrow> Some (upd_inode p (\<lambda>i. i\<lparr>i_count := 1, i_blkbits := i_blkbits (vs_inodes s dir)\<rparr>) s);
     (err, s) \<leftarrow> ext2_fill_inode p s;
     s \<leftarrow> Some (upd_inode p (\<lambda>i. i\<lparr>i_op := (if ft = EXT2_FT_DIR then Dir_ops else File_create_ops)\<rparr>) s);
     Some (s\<lparr>vs_acache := (vs_acache s)(p := [])\<rparr>)
   }"

text \<open>The loop over the entries of a page. An entry whose inode is free on the card is passed over.\<close>

function scan_lookup :: "nat \<Rightarrow> qstr \<Rightarrow> nat \<Rightarrow> nat \<Rightarrow> u8 list \<Rightarrow> vfs_state \<Rightarrow> (nat option \<times> vfs_state) option" where
  "scan_lookup dir name blksize a buf s =
     (if \<not> a < blksize \<or> buf ! a = 0 then Some (None, s)
      else do {
        _ \<leftarrow> c_guard (de_fits a buf);
        let next = a + unat (de_rec_len a buf);
        if generic_compare_filename (de_qstr a buf) name \<noteq> 0 then
          if a < next then scan_lookup dir name blksize next buf s else None
        else do {
          let (p, s) = raw_inode dir (de_ino a buf) s;
          (used, s) \<leftarrow> ext2_check_inode_bitmap (vs_inodes s p) s;
          if used = 0 then if a < next then scan_lookup dir name blksize next buf s else None
          else do { s \<leftarrow> fill_found dir p (de_file_type a buf) s; Some (Some p, s) }
        }
      })"
  by pat_completeness auto
termination
  by (relation "measure (\<lambda>(dir, name, blksize, a, buf, s). blksize - a)") auto

declare scan_lookup.simps [simp del]

fun lookup_pages :: "nat \<Rightarrow> qstr \<Rightarrow> nat list \<Rightarrow> vfs_state \<Rightarrow> (nat option \<times> vfs_state) option" where
  "lookup_pages dir name [] s = Some (None, s)"
| "lookup_pages dir name (i # is) s = do {
     (no, s) \<leftarrow> ext2_bmap dir (of_nat i) s;
     if no = 0 then Some (None, s)
     else do {
       (p, buf, s) \<leftarrow> dir_page dir no s;
       (r, s) \<leftarrow> scan_lookup dir name (unat (i_blksize (vs_inodes s dir))) 0 buf s;
       if r \<noteq> None then Some (r, s) else lookup_pages dir name is s
     }
   }"

definition ext2_find_inode :: "nat \<Rightarrow> qstr \<Rightarrow> vfs_state \<Rightarrow> (nat option \<times> vfs_state) option" where
  "ext2_find_inode dir name s = lookup_pages dir name [0..<unat (i_blocks (vs_inodes s dir))] s"

definition ext2_inode_lookup :: lookup_fun where
  "ext2_inode_lookup dir dentry s = do {
     d \<leftarrow> ns_dents s dentry;
     (r, fs) \<leftarrow> ext2_find_inode dir (d_name d) (ns_fs s);
     s \<leftarrow> Some (s\<lparr>ns_fs := fs\<rparr>);
     case r of
       None \<Rightarrow> Some (Inr NULL, s)
     | Some p \<Rightarrow> Some (Inr dentry, upd_dentry dentry (\<lambda>d. d\<lparr>d_inode := p, d_op := Generic_compare, d_alias := Linked\<rparr>) s)
   }"

section \<open>Listing a directory\<close>

type_synonym dirent = "u32 \<times> u8 \<times> u8 list"

text \<open>The array of entries has room for 128.\<close>

function scan_readdir :: "nat \<Rightarrow> nat \<Rightarrow> nat \<Rightarrow> u8 list \<Rightarrow> dirent list \<Rightarrow> vfs_state \<Rightarrow> (dirent list \<times> vfs_state) option" where
  "scan_readdir dir blksize a buf acc s =
     (if \<not> a < blksize \<or> buf ! a = 0 then Some (acc, s)
      else do {
        _ \<leftarrow> c_guard (de_fits a buf);
        let next = a + unat (de_rec_len a buf);
        let (p, s) = raw_inode dir (de_ino a buf) s;
        (used, s) \<leftarrow> ext2_check_inode_bitmap (vs_inodes s p) s;
        _ \<leftarrow> c_guard (a < next);
        if used = 0 then scan_readdir dir blksize next buf acc s
        else do {
          _ \<leftarrow> c_guard (List.length acc < MAX_DIRENT_NUM);
          scan_readdir dir blksize next buf (acc @ [(de_ino a buf, de_file_type a buf, name_of (de_qstr a buf))]) s
        }
      })"
  by pat_completeness auto
termination
  by (relation "measure (\<lambda>(dir, blksize, a, buf, acc, s). blksize - a)") (auto simp: c_guard_def split: if_splits)

declare scan_readdir.simps [simp del]

fun readdir_pages :: "nat \<Rightarrow> nat list \<Rightarrow> dirent list \<Rightarrow> vfs_state \<Rightarrow> (dirent list \<times> vfs_state) option" where
  "readdir_pages dir [] acc s = Some (acc, s)"
| "readdir_pages dir (i # is) acc s = do {
     (no, s) \<leftarrow> ext2_bmap dir (of_nat i) s;
     if no = 0 then readdir_pages dir is acc s
     else do {
       (p, buf, s) \<leftarrow> dir_page dir no s;
       (acc, s) \<leftarrow> scan_readdir dir (unat (i_blksize (vs_inodes s dir))) 0 buf acc s;
       readdir_pages dir is acc s
     }
   }"

definition ext2_readdir :: "nat \<Rightarrow> vfs_state \<Rightarrow> (dirent list \<times> vfs_state) option" where
  "ext2_readdir dir s = readdir_pages dir [0..<unat (i_blocks (vs_inodes s dir))] [] s"

section \<open>Adding an entry\<close>

definition ext2_set_de_type :: "inode \<Rightarrow> u8" where
  "ext2_set_de_type inode = (if S_ISDIR (i_mode inode) then EXT2_FT_DIR else EXT2_FT_REG_FILE)"

text \<open>
  The scan of a page for a place: an entry of length 0, or an entry with enough room behind its name. The result is the changed
  page, or none when the page is full. The differences are signed.
\<close>

function place_entry :: "nat \<Rightarrow> nat \<Rightarrow> dir_entry \<Rightarrow> u8 list \<Rightarrow> u8 list option option" where
  "place_entry blksize a e buf =
     (if \<not> a < blksize then Some None
      else do {
        _ \<leftarrow> c_guard (a + 8 \<le> List.length buf);
        let rec_len = unat (de_rec_len a buf);
        let used = EXT2_DIR_REC_LEN (unat (de_name_len a buf));
        if rec_len = 0 then do { buf \<leftarrow> put_entry a (e\<lparr>e_rec_len := 4096\<rparr>) buf; Some (Some buf) }
        else if blksize \<le> a + rec_len \<and> int (blksize - a) - int used \<ge> int (unat (e_rec_len e)) \<or> int rec_len - int used \<ge> int (unat (e_rec_len e)) then do {
          let e = e\<lparr>e_rec_len := of_int (int rec_len - int used)\<rparr>;
          buf \<leftarrow> put_entry (a + used) e (set_le16 (a + 4) (of_nat used) buf);
          Some (Some buf)
        } else place_entry blksize (a + rec_len) e buf
      })"
  by pat_completeness auto
termination
  by (relation "measure (\<lambda>(blksize, a, e, buf). blksize - a)") auto

declare place_entry.simps [simp del]

text \<open>The loop over the first 12 pages; a page that is missing gets a new block, and the size grows by 4096.\<close>

fun append_pages :: "nat \<Rightarrow> dir_entry \<Rightarrow> nat list \<Rightarrow> vfs_state \<Rightarrow> vfs_state option" where
  "append_pages host e [] s = Some s"
| "append_pages host e (i # is) s = do {
     _ \<leftarrow> c_guard (i < List.length (i_page (vs_inodes s host)));
     s \<leftarrow> (if i_page (vs_inodes s host) ! i = 0 then do {
         (b, s) \<leftarrow> ext2_new_block host s;
         s \<leftarrow> Some (upd_inode host (\<lambda>n. n\<lparr>i_page := (i_page n)[i := b], i_blocks := i_blocks n + 1, i_size := i_size n + 4096\<rparr>) s);
         ext2_reset_inode host s
       } else Some s);
     (r, s) \<leftarrow> pcache_get_page host (of_nat i) s;
     case r of
       Inl err \<Rightarrow> None
     | Inr p \<Rightarrow> do {
         page \<leftarrow> vs_pages s p;
         q \<leftarrow> place_entry (unat (i_blksize (vs_inodes s host))) 0 e (p_data page);
         case q of
           None \<Rightarrow> append_pages host e is s
         | Some buf \<Rightarrow> do { (err, s) \<leftarrow> ext2_writepage p (upd_page p (\<lambda>g. g\<lparr>p_data := buf\<rparr>) s); Some s }
       }
   }"

definition ext2_append_to_end :: "nat \<Rightarrow> dir_entry \<Rightarrow> vfs_state \<Rightarrow> vfs_state option" where
  "ext2_append_to_end host e s = append_pages host e [0..<EXT2_FIRST_MAP_INDEX] s"

definition new_entry :: "u32 \<Rightarrow> u8 list \<Rightarrow> u8 \<Rightarrow> dir_entry" where
  "new_entry ino name ft = \<lparr>e_ino = ino, e_rec_len = of_nat (EXT2_DIR_REC_LEN (List.length name)), e_name_len = of_nat (List.length name), e_file_type = ft, e_name = name\<rparr>"

definition ext2_make_empty :: "nat \<Rightarrow> nat \<Rightarrow> vfs_state \<Rightarrow> vfs_state option" where
  "ext2_make_empty host parent s = do {
     let i = vs_inodes s host;
     s \<leftarrow> ext2_append_to_end host (new_entry (i_ino i) [46] (ext2_set_de_type i)) s;
     let i = vs_inodes s parent;
     ext2_append_to_end host (new_entry (i_ino i) [46, 46] (ext2_set_de_type i)) s
   }"

text \<open>The name is copied up to a 0 byte into an array of 255 bytes.\<close>

definition ext2_add_link :: "nat \<Rightarrow> nat \<Rightarrow> name_state \<Rightarrow> name_state option" where
  "ext2_add_link dentry host s = do {
     d \<leftarrow> ns_dents s dentry;
     par \<leftarrow> ns_dents s (d_parent d);
     let dir = d_inode par;
     let name = name_of (d_name d);
     _ \<leftarrow> c_guard (dir \<noteq> NULL \<and> List.length name \<le> EXT2_NAME_LEN);
     let i = vs_inodes (ns_fs s) host;
     fs \<leftarrow> ext2_append_to_end dir (new_entry (i_ino i) name (ext2_set_de_type i)) (ns_fs s);
     Some (s\<lparr>ns_fs := fs\<rparr>)
   }"

section \<open>Creating files and directories\<close>

definition connect_inode :: "nat \<Rightarrow> nat \<Rightarrow> name_state \<Rightarrow> name_state option" where
  "connect_inode dentry p s = do {
     s \<leftarrow> modify_dentry dentry (\<lambda>d. d\<lparr>d_inode := p, d_alias := Linked\<rparr>) s;
     Some (s\<lparr>ns_fs := upd_inode p (\<lambda>i. i\<lparr>i_count := i_count i + 1\<rparr>) (ns_fs s)\<rparr>)
   }"

definition ext2_create :: create_fun where
  "ext2_create dir dentry mode s = do {
     (r, fs) \<leftarrow> ext2_new_inode dir (mode OR S_IFREG) (ns_fs s);
     case r of
       Inl err \<Rightarrow> Some (err, s\<lparr>ns_fs := fs\<rparr>)
     | Inr p \<Rightarrow> do {
         s \<leftarrow> ext2_add_link dentry p (s\<lparr>ns_fs := upd_inode p (\<lambda>i. i\<lparr>i_op := File_ops\<rparr>) fs\<rparr>);
         s \<leftarrow> connect_inode dentry p s;
         Some (0, s)
       }
   }"

definition ext2_mkdir :: create_fun where
  "ext2_mkdir dir dentry mode s = do {
     (r, fs) \<leftarrow> ext2_new_inode dir (mode OR S_IFDIR) (ns_fs s);
     case r of
       Inl err \<Rightarrow> Some (err, s\<lparr>ns_fs := fs\<rparr>)
     | Inr p \<Rightarrow> do {
         fs \<leftarrow> ext2_make_empty p dir (upd_inode p (\<lambda>i. i\<lparr>i_op := Dir_ops\<rparr>) fs);
         s \<leftarrow> ext2_add_link dentry p (s\<lparr>ns_fs := fs\<rparr>);
         s \<leftarrow> connect_inode dentry p s;
         Some (0, s)
       }
   }"

section \<open>Deleting\<close>

text \<open>Change one sector; the flag asks for a last read of it. The result says whether a transfer failed.\<close>

definition change_sect :: "(u8 list \<Rightarrow> u8 list) \<Rightarrow> bool \<Rightarrow> u32 \<Rightarrow> vfs_state \<Rightarrow> bool \<times> vfs_state" where
  "change_sect f again sect s =
     (let (err, buf, s) = read_sects sect 1 s
      in if err then (True, s)
         else let (err, s) = write_sects (f buf) sect 1 s
              in if err then (True, s) else if again then let (err, buf, s) = read_sects sect 1 s in (err, s) else (False, s))"

definition clear_bit :: "u32 \<Rightarrow> u8 list \<Rightarrow> u8 list" where
  "clear_bit i = on_bytes (reset_bit 0 i)"

text \<open>The bits of the blocks of the inode. The sector of a block bit map is that of the first inode of the same group.\<close>

fun free_blocks :: "nat \<Rightarrow> nat list \<Rightarrow> vfs_state \<Rightarrow> (u32 \<times> vfs_state) option" where
  "free_blocks host [] s = Some (0, s)"
| "free_blocks host (i # is) s = do {
     (block, s) \<leftarrow> ext2_bmap host (of_nat i) s;
     if block = 0 then free_blocks host is s
     else do {
       let inode = vs_inodes s host;
       let sb = vs_sbs s (i_sb inode);
       let bpg = s_blocks_per_group sb;
       _ \<leftarrow> c_guard (bpg \<noteq> 0);
       (base, s) \<leftarrow> ext2_group_base_sect (inode\<lparr>i_ino := block div bpg * s_inodes_per_group sb + 1\<rparr>) s;
       let (err, s) = change_sect (clear_bit (block mod bpg mod 4096)) True (base + block mod bpg div 512 div 8) s;
       if err then Some (- EIO, s) else free_blocks host is s
     }
   }"

text \<open>
  The scan for the entry to delete: where it lies with its length, and the stretch of entries behind it in the same page.
\<close>

function scan_delete :: "qstr \<Rightarrow> nat \<Rightarrow> nat \<Rightarrow> u8 list \<Rightarrow> (nat \<times> nat) option \<Rightarrow> (nat \<times> nat) option \<Rightarrow> ((nat \<times> nat) option \<times> (nat \<times> nat) option) option" where
  "scan_delete name blksize a buf found copy =
     (if \<not> a < blksize \<or> buf ! a = 0 then Some (found, copy)
      else do {
        _ \<leftarrow> c_guard (de_fits a buf \<and> 0 < unat (de_rec_len a buf));
        let rec_len = unat (de_rec_len a buf);
        if found \<noteq> None then scan_delete name blksize (a + rec_len) buf found (Some (case copy of None \<Rightarrow> a | Some (b, e) \<Rightarrow> b, a + rec_len))
        else scan_delete name blksize (a + rec_len) buf (if generic_compare_filename (de_qstr a buf) name = 0 then Some (a, rec_len) else None) copy
      })"
  by pat_completeness auto
termination
  by (relation "measure (\<lambda>(name, blksize, a, buf, found, copy). blksize - a)") (auto simp: c_guard_def split: if_splits)

declare scan_delete.simps [simp del]

text \<open>The entry is zeroed and the entries behind it move to its place.\<close>

definition remove_entry :: "nat \<times> nat \<Rightarrow> (nat \<times> nat) option \<Rightarrow> u8 list \<Rightarrow> u8 list option" where
  "remove_entry found copy buf = do {
     let (paste, rec_len) = found;
     _ \<leftarrow> c_guard (paste + rec_len \<le> List.length buf);
     let buf = put_bytes paste (replicate rec_len 0) buf;
     case copy of
       None \<Rightarrow> Some buf
     | Some (copy_start, copy_end) \<Rightarrow> do {
         _ \<leftarrow> c_guard (copy_end \<le> List.length buf);
         let len = copy_end - copy_start;
         let buf = put_bytes paste (take len (drop copy_start buf)) buf;
         Some (put_bytes (paste + len) (replicate (copy_end - (paste + len)) 0) buf)
       }
   }"

text \<open>When no entry follows, the page is not written back.\<close>

fun delete_pages :: "nat \<Rightarrow> qstr \<Rightarrow> nat \<Rightarrow> nat list \<Rightarrow> vfs_state \<Rightarrow> (u32 \<times> vfs_state) option" where
  "delete_pages dir name blksize [] s = Some (- ENOENT, s)"
| "delete_pages dir name blksize (i # is) s = do {
     (no, s) \<leftarrow> ext2_bmap dir (of_nat i) s;
     if no = 0 then Some (- ENOENT, s)
     else do {
       (p, buf, s) \<leftarrow> dir_page dir no s;
       (found, copy) \<leftarrow> scan_delete name blksize 0 buf None None;
       case found of
         None \<Rightarrow> delete_pages dir name blksize is s
       | Some f \<Rightarrow> do {
           buf \<leftarrow> remove_entry f copy buf;
           s \<leftarrow> Some (upd_page p (\<lambda>g. g\<lparr>p_data := buf\<rparr>) s);
           if copy = None then Some (0, s) else ext2_writepage p s
         }
     }
   }"

definition delete_inode_data :: "nat \<Rightarrow> vfs_state \<Rightarrow> (u32 \<times> vfs_state) option" where
  "delete_inode_data host s = do {
     let inode = vs_inodes s host;
     (base, s) \<leftarrow> ext2_group_base_sect inode s;
     let spb = drop_bit SECTOR_SHIFT (i_blksize inode);
     (err, s) \<leftarrow> free_blocks host [0..<unat (i_blocks inode)] s;
     if err \<noteq> 0 then Some (err, s)
     else do {
       let sb = vs_sbs s (i_sb inode);
       let pos = (i_ino inode - 1) mod s_inodes_per_group sb;
       let (err, s) = change_sect (clear_bit (pos mod 4096)) True (base + spb + pos div 512 div 8) s;
       if err then Some (- EIO, s)
       else do {
         _ \<leftarrow> c_guard (sizes_ok sb);
         let off = unat (pos mod inodes_per_sect sb * s_inode_size sb);
         let (err, s) = change_sect (put_bytes off (replicate (unat (s_inode_size sb)) 0)) False (base + push_bit 1 spb + pos div inodes_per_sect sb) s;
         Some (if err then - EIO else 0, s)
       }
     }
   }"

definition ext2_delete_inode :: "nat \<Rightarrow> name_state \<Rightarrow> (u32 \<times> name_state) option" where
  "ext2_delete_inode dentry s = do {
     d \<leftarrow> ns_dents s dentry;
     _ \<leftarrow> c_guard (d_inode d \<noteq> NULL);
     (err, fs) \<leftarrow> delete_inode_data (d_inode d) (ns_fs s);
     s \<leftarrow> Some (s\<lparr>ns_fs := fs\<rparr>);
     if err \<noteq> 0 then Some (err, s)
     else do {
       par \<leftarrow> ns_dents s (d_parent d);
       let dir = d_inode par;
       _ \<leftarrow> c_guard (dir \<noteq> NULL);
       (err, fs) \<leftarrow> delete_pages dir (d_name d) (unat (i_blksize (inode_of s (d_inode d)))) [0..<unat (i_blocks (inode_of s dir))] (ns_fs s);
       Some (err, s\<lparr>ns_fs := fs\<rparr>)
     }
   }"

end
