(* ===== verification/NameiProps.thy ===== *)
theory NameiProps
  imports NameiInv Ext2Dir
begin

text \<open>The properties of path names: resolving them, and what opening a file does with the reference that it gets.\<close>

section \<open>A small tree\<close>

text \<open>The root directory 1 with the directory \<open>a\<close> (2) and the file \<open>b\<close> (3), all cached; the inode of the file is \<open>h\<close>, the others have the number of the dentry.\<close>

definition tree_name :: "nat \<Rightarrow> u8 list" where
  "tree_name p = (if p = 1 then [47] else if p = 2 then [97] else [98])"

definition tree_dentry :: "nat \<Rightarrow> nat \<Rightarrow> dentry" where
  "tree_dentry h p = (sample_dentry (\<lambda>_. 1) 0 p)\<lparr>d_inode := (if p = 3 then h else p), d_name := qstr_at (tree_name p) 1\<rparr>"

definition tree_cache :: cache where
  "tree_cache = \<lparr>c_size = 3, c_capacity = 16, c_tablesize = 16, c_LRU = [1, 2, 3],
     c_hashtable = (\<lambda>h. filter (\<lambda>p. unat (stringHash (qstr_at (tree_name p) 1) 16) = h) [1, 2, 3])\<rparr>"

definition tree_mnt :: vfsmount where
  "tree_mnt = \<lparr>mnt_parent = 1, mnt_mountpoint = 1, mnt_root = 1, mnt_sb = 0, mnt_mounts = []\<rparr>"

definition sample_tree :: "vfs_state \<Rightarrow> nat \<Rightarrow> name_state" where
  "sample_tree fs h = (sample_names 3 (\<lambda>_. 1) 0)\<lparr>ns_fs := fs, ns_dents := (\<lambda>p. if p \<in> {1, 2, 3} then Some (tree_dentry h p) else None), dcache := tree_cache,
     ns_mnts := [1 \<mapsto> tree_mnt]\<rparr>"

lemma tree_name_of: "name_of (qstr_at (tree_name p) 1) = tree_name p"
  by (simp add: name_of_def qstr_at_def tree_name_def)

declare tree_name_of [simp] tree_name_of [unfolded One_nat_def, simp]

lemma sample_tree_fields [simp]:
  "ns_dents (sample_tree fs h) p = (if p \<in> {1, 2, 3} then Some (tree_dentry h p) else None)" "dcache (sample_tree fs h) = tree_cache" "c_LRU tree_cache = [1, 2, 3]"
  "root_dentry (sample_tree fs h) = 1" "root_mnt (sample_tree fs h) = 1" "pwd_dentry (sample_tree fs h) = 1" "pwd_mnt (sample_tree fs h) = 1"
  "ns_mnts (sample_tree fs h) = [1 \<mapsto> tree_mnt]" "ns_fs (sample_tree fs h) = fs" "inode_of (sample_tree fs h) = vs_inodes fs" "mnt_root tree_mnt = 1"
  by (simp_all add: sample_tree_def sample_names_def tree_cache_def tree_mnt_def inode_of_def fun_eq_iff)

lemma tree_dentry_fields [simp]:
  "d_parent (tree_dentry h p) = 1" "d_inode (tree_dentry h p) = (if p = 3 then h else p)" "d_op (tree_dentry h p) = Generic_compare" "d_mounted (tree_dentry h p) = 0"
  "d_name (tree_dentry h p) = qstr_at (tree_name p) 1" "d_count (tree_dentry h p) = 1"
  by (simp_all add: tree_dentry_def sample_dentry_def)

lemma chains_ok_filter:
  assumes "distinct l" "unat sz = List.length l" "List.length l \<le> unat cap" "\<And>p. p \<in> set l \<Longrightarrow> bk p = b p"
  shows "chains_ok \<lparr>c_size = sz, c_capacity = cap, c_tablesize = t, c_LRU = l, c_hashtable = (\<lambda>h. filter (\<lambda>p. b p = h) l)\<rparr> bk"
  using assms by (auto simp: chains_ok_def)

lemma sample_tree_ok: "dents_ok (sample_tree fs h)"
proof -
  have "c_tablesize (dcache (sample_tree fs h)) = 16" by (simp add: tree_cache_def)
  then have "dbucket (sample_tree fs h) p = unat (stringHash (qstr_at (tree_name p) 1) 16)" if "p \<in> set [1, 2, 3]" for p
    using that by (simp only: dbucket_def dname_def sample_tree_fields(1)) (simp only: set_simps if_True option.case tree_dentry_fields)
  then have "chains_ok (dcache (sample_tree fs h)) (dbucket (sample_tree fs h))"
    unfolding sample_tree_fields(2) tree_cache_def by (rule chains_ok_filter [rotated 3]) simp_all
  then show ?thesis unfolding dents_ok_def by simp
qed

lemma sample_tree_child:
  assumes "p \<in> {2, 3}"
  shows "only_child (sample_tree fs h) 1 (tree_name p) p"
proof -
  let ?s = "sample_tree fs h"
  have one: "ns_dents ?s 1 = Some (tree_dentry h 1)" "d_op (tree_dentry h 1) = Generic_compare" by simp_all
  have "List.length (tree_name p) = 1" by (simp add: tree_name_def)
  then have nm: "name_of (the_name (tree_name p)) = tree_name p" by (simp add: the_name_def)
  have ic: "q \<in> {1, 2, 3} \<Longrightarrow> is_child ?s 1 (the_name (tree_name p)) q \<longleftrightarrow> tree_name q = tree_name p" for q
    unfolding is_child_def by (simp add: same_name_def nm)
  have "child_of ?s 1 (tree_name p) q \<longleftrightarrow> q \<in> {1, 2, 3} \<and> tree_name q = tree_name p" for q
    unfolding child_of_def using ic [of q] child_bucket [OF _ one, of "the_name (tree_name p)" q] by (cases "q \<in> {1, 2, 3}") auto
  moreover have "q \<in> {1, 2, 3} \<Longrightarrow> tree_name q = tree_name p \<longleftrightarrow> q = p" for q
    using assms by (elim insertE) (simp_all add: tree_name_def)
  ultimately show ?thesis using assms unfolding only_child_def by blast
qed

lemma sample_tree_step:
  assumes "p \<in> {2, 3}" "ns \<noteq> [] \<longrightarrow> p = 2 \<and> i_op (vs_inodes fs 2) = Dir_ops" "resolves (sample_tree fs h) 1 p ns 1 e" "h \<noteq> NULL"
  shows "resolves (sample_tree fs h) 1 1 (tree_name p # ns) 1 e"
proof (rule resolves.child [where p = p and q = p])
  show "tree_name p \<noteq> [46]" "tree_name p \<noteq> [46, 46]" by (simp_all add: tree_name_def)
  show "ns_dents (sample_tree fs h) 1 = Some (tree_dentry h 1)" "d_op (tree_dentry h 1) \<noteq> No_dops" by simp_all
  show d: "ns_dents (sample_tree fs h) p = Some (tree_dentry h p)" "d_inode (tree_dentry h p) \<noteq> NULL" using assms(1,4) by auto
  show "crosses (sample_tree fs h) 1 p 1 p" by (rule crosses.stay [OF d(1)]) simp
  show "ns \<noteq> [] \<longrightarrow> i_op (inode_of (sample_tree fs h) (d_inode (tree_dentry h p))) = Dir_ops" using assms(2) by auto
qed (use assms sample_tree_child in blast)+

lemma sample_tree_up: "resolves (sample_tree fs h) 1 1 ns 1 e \<Longrightarrow> resolves (sample_tree fs h) 1 2 ([46, 46] # ns) 1 e"
proof (rule resolves.dotdot)
  show "backs (sample_tree fs h) 1 2 1 1" using backs.up [of 2 "sample_tree fs h" 1 tree_mnt "tree_dentry h 2"] by simp
qed

lemma sample_tree_file:
  assumes "h \<noteq> NULL"
  shows "resolves (sample_tree fs h) 1 1 [[98]] 1 3"
proof -
  have "ns_dents (sample_tree fs h) 3 = Some (tree_dentry h 3)" by simp
  then have "resolves (sample_tree fs h) 1 3 [] 1 3" by (rule resolves.here)
  then have "resolves (sample_tree fs h) 1 1 (tree_name 3 # []) 1 3" using assms by (intro sample_tree_step) simp_all
  then show ?thesis by (simp add: tree_name_def)
qed

lemma sample_tree_path:
  assumes "h \<noteq> NULL" "i_op (vs_inodes fs 2) = Dir_ops"
  shows "resolves (sample_tree fs h) 1 1 [[97], [46, 46], [98]] 1 3"
proof -
  have "resolves (sample_tree fs h) 1 1 (tree_name 2 # [[46, 46], [98]]) 1 3"
    using sample_tree_up [OF sample_tree_file] assms by (intro sample_tree_step) simp_all
  then show ?thesis by (simp add: tree_name_def)
qed

definition tree_fs :: vfs_state where
  "tree_fs = sample_indirect\<lparr>vs_inodes := (\<lambda>i. (vs_inodes sample_indirect i)\<lparr>i_ino := of_nat i, i_op := (if i = 3 then File_ops else Dir_ops)\<rparr>)\<rparr>"

section \<open>Properties\<close>

definition start_dentry :: "u8 list \<Rightarrow> name_state \<Rightarrow> nat" where
  "start_dentry name s = (if name \<noteq> [] \<and> name ! 0 = 47 then root_dentry s else pwd_dentry s)"

definition start_mnt :: "u8 list \<Rightarrow> name_state \<Rightarrow> nat" where
  "start_mnt name s = (if name \<noteq> [] \<and> name ! 0 = 47 then root_mnt s else pwd_mnt s)"

lemma path_lookup_start:
  "path_lookup lookup name flags nd s = do {
     s \<leftarrow> dget (start_dentry name s) s;
     link_path_walk lookup name (nd\<lparr>nd_last_type := LAST_ROOT, nd_flags := flags, nd_mnt := start_mnt name s, nd_dentry := start_dentry name s\<rparr>) s
   }"
  by (auto simp: path_lookup_def start_dentry_def start_mnt_def Let_def dget_def modify_dentry_def upd_dentry_def bind_eq_Some_conv split: option.splits)

abbreviation path_start :: "u8 list \<Rightarrow> u8 list" where
  "path_start name \<equiv> dropWhile (\<lambda>c. c = 47 \<or> c = 32) name"

lemma link_path_walk_ok:
  assumes "dents_ok s" "List.length name < 2 ^ 32" "resolves s (nd_mnt nd) (nd_dentry nd) (path_names (path_start name)) m e"
    and "\<not> has_flag (nd_flags nd) LOOKUP_PARENT" "has_flag (nd_flags nd) LOOKUP_DIRECTORY \<or> name \<noteq> [] \<and> List.last name = 47 \<Longrightarrow> dir_dentry s e"
  shows "\<exists>nd' s'. link_path_walk lookup name nd s = Some (0, nd', s') \<and> nd_dentry nd' = e \<and> nd_mnt nd' = m \<and> shifted s s' (nd_dentry nd) e"
proof (cases "path_start name = []")
  case True
  have "path_names [] = []" by (simp add: path_names.simps)
  then have "e = nd_dentry nd" "m = nd_mnt nd" using assms(3) resolves_Nil unfolding True by auto
  then show ?thesis using True shifted_refl by (auto simp: link_path_walk_def Let_def)
next
  case False
  then have h: "List.hd (path_start name) \<noteq> 47" using hd_dropWhile [of "\<lambda>c. c = 47 \<or> c = 32" name] by auto
  have l: "List.length (path_start name) < 2 ^ 32" using assms(2) length_dropWhile_le [of "\<lambda>c. c = 47 \<or> c = 32" name] by simp
  obtain xs where "name = xs @ path_start name" by (metis takeWhile_dropWhile_id)
  then have "List.last name = List.last (path_start name)" "name \<noteq> []" using False by (metis last_appendR, auto)
  then show ?thesis
    using walk_loop_ok [OF False h l assms(3,1,4)] assms(5) resolves_live [OF assms(3)] False by (auto simp: link_path_walk_def Let_def)
qed

lemma path_lookup_ok:
  assumes "dents_ok s" "List.length name < 2 ^ 32" "resolves s (start_mnt name s) (start_dentry name s) (path_names (path_start name)) m e"
    and "\<not> has_flag flags LOOKUP_PARENT" "has_flag flags LOOKUP_DIRECTORY \<or> name \<noteq> [] \<and> List.last name = 47 \<Longrightarrow> dir_dentry s e"
  shows "\<exists>nd' s'. path_lookup lookup name flags nd s = Some (0, nd', s') \<and> nd_dentry nd' = e \<and> nd_mnt nd' = m
    \<and> dents_ok s' \<and> same_tree s s' \<and> (\<forall>p. refs s' p = refs s p + (if p = e then 1 else 0))"
proof -
  let ?d = "start_dentry name s" and ?m = "start_mnt name s"
  obtain t where t: "dget ?d s = Some t" "moved s t (\<lambda>p. if p = ?d then 1 else 0)" using resolves_live [OF assms(3)] dget_moved by blast
  note st = moved_ok(2) [OF t(2)]
  let ?nd = "nd\<lparr>nd_last_type := LAST_ROOT, nd_flags := flags, nd_mnt := start_mnt name t, nd_dentry := start_dentry name t\<rparr>"
  have eq: "start_mnt name t = ?m" "start_dentry name t = ?d" using same_tree_space [OF st] by (auto simp: start_mnt_def start_dentry_def same_space_def)
  have "\<exists>nd' s'. link_path_walk lookup name ?nd t = Some (0, nd', s') \<and> nd_dentry nd' = e \<and> nd_mnt nd' = m \<and> shifted t s' (nd_dentry ?nd) e"
    using resolves_same_tree [OF assms(3) st] assms(2,4,5) moved_ok(1) [OF t(2) assms(1)] dir_dentry_same_tree [OF st]
    by (intro link_path_walk_ok) (simp_all add: eq)
  then obtain nd' s' where w: "link_path_walk lookup name ?nd t = Some (0, nd', s')" "nd_dentry nd' = e" "nd_mnt nd' = m" "shifted t s' ?d e"
    by (auto simp: eq)
  have m: "moved s s' (\<lambda>p. (if p = ?d then 1 else 0) + ((if p = e then 1 else 0) + (if p = ?d then - 1 else 0)))" by (rule moved_trans [OF t(2) w(4)])
  have "\<forall>p. refs s' p = refs s p + (if p = e then 1 else 0)" using m by (auto simp: moved_def)
  then show ?thesis using t(1) w(1-3) moved_ok [OF m] assms(1) by (simp add: path_lookup_start eq)
qed

text \<open>C6: a path whose names lead through the dentry cache from the start to a dentry is resolved to that dentry, without a call of the file system. Every name on the way must have exactly one cached dentry in the hash chain of the name as it is spelled, compared as the file system of the directory does, by case on EXT2 and up to case on FAT32; mounts are crossed, downwards at a mount point and by two dots at the root of a mount. The result is in the mount where the way ends and holds one reference more; every other count and every other field are as before.\<close>

theorem path_lookup_cached:
  assumes "dents_ok s" "List.length name < 2 ^ 32" "resolves s (start_mnt name s) (start_dentry name s) (path_names (path_start name)) m e"
    and "\<not> has_flag flags LOOKUP_PARENT" "has_flag flags LOOKUP_DIRECTORY \<or> name \<noteq> [] \<and> List.last name = 47 \<Longrightarrow> dir_dentry s e"
  shows "\<exists>nd' s'. path_lookup lookup name flags nd s = Some (0, nd', s') \<and> nd_dentry nd' = e \<and> nd_mnt nd' = m
    \<and> dents_ok s' \<and> same_tree s s' \<and> (\<forall>p. refs s' p = refs s p + (if p = e then 1 else 0))"
  using assms by (rule path_lookup_ok)

theorem path_lookup_cached_witness:
  "\<exists>nd' s'. path_lookup (\<lambda>_ _ _. None) [47, 97, 47, 46, 46, 47, 98] 1 undefined (sample_tree tree_fs 3) = Some (0, nd', s') \<and> nd_dentry nd' = 3 \<and> refs s' 3 = 2 \<and> refs s' 1 = 1"
proof -
  let ?n = "[47, 97, 47, 46, 46, 47, 98] :: u8 list" and ?s = "sample_tree tree_fs 3"
  have p: "path_names (path_start ?n) = [[97], [46, 46], [98]]" by (simp add: path_names.simps)
  have "i_op (vs_inodes tree_fs 2) = Dir_ops" by (simp add: tree_fs_def)
  then have "resolves ?s (start_mnt ?n ?s) (start_dentry ?n ?s) (path_names (path_start ?n)) 1 3"
    using sample_tree_path [of 3 tree_fs] unfolding p by (simp add: start_mnt_def start_dentry_def)
  from path_lookup_cached [OF sample_tree_ok _ this, of 1 "\<lambda>_ _ _. None" undefined] show ?thesis
    by (simp add: has_flag_def LOOKUP_PARENT_def LOOKUP_DIRECTORY_def) (auto simp: refs_def)
qed

section \<open>What a walk ends at\<close>

text \<open>An error that a lookup returns is not 0.\<close>

definition errors_ok :: "lookup_fun \<Rightarrow> bool" where
  "errors_ok lookup \<longleftrightarrow> (\<forall>dir d s e s'. lookup dir d s = Some (Inl e, s') \<longrightarrow> e \<noteq> 0)"

lemma ext2_errors_ok: "errors_ok ext2_inode_lookup"
  by (auto simp: errors_ok_def ext2_inode_lookup_def bind_eq_Some_conv split: option.splits)

lemma call_lookup_error: "errors_ok lookup \<Longrightarrow> call_lookup lookup dir d s = Some (Inl e, s') \<Longrightarrow> e \<noteq> 0"
  by (simp add: call_lookup_def bind_eq_Some_conv) (metis errors_ok_def)

lemma real_lookup_error: "errors_ok lookup \<Longrightarrow> real_lookup lookup p q s = Some (Inl e, s') \<Longrightarrow> e \<noteq> 0"
  by (auto simp: real_lookup_def Let_def bind_eq_Some_conv dest: call_lookup_error split: if_split_asm)

lemma do_lookup_error:
  assumes "errors_ok lookup" "do_lookup lookup nd q s = Some (Inl e, s')"
  shows "e \<noteq> 0"
proof -
  obtain r t r' u where d: "dcache_look_up (nd_dentry nd) q s = Some (r, t)"
    "(case r of Some dentry \<Rightarrow> Some (Inr dentry, t) | None \<Rightarrow> real_lookup lookup (nd_dentry nd) q t) = Some (r', u)"
    "(case r' of Inl e \<Rightarrow> Some (Inl e, u) | Inr dentry \<Rightarrow> do { s \<leftarrow> dget dentry u; Some (Inr (nd_mnt nd, dentry), s) }) = Some (Inl e, s')"
    using assms(2) by (auto simp: do_lookup_def bind_eq_Some_conv)
  from d(3) have "r' = Inl e" by (cases r') (auto simp: bind_eq_Some_conv)
  with d(2) show ?thesis using real_lookup_error [OF assms(1)] by (cases r) auto
qed

definition typed_dentry :: "bool \<Rightarrow> name_state \<Rightarrow> nat \<Rightarrow> bool" where
  "typed_dentry dir s e \<longleftrightarrow> (\<exists>x. ns_dents s e = Some x \<and> d_inode x \<noteq> NULL \<and> (dir \<longrightarrow> i_op (inode_of s (d_inode x)) = Dir_ops))"

lemma walk_last_typed:
  assumes "walk_last lookup lflags q nd s = Some (0, nd', s')" "errors_ok lookup" "\<not> has_flag lflags LOOKUP_PARENT" "\<not> is_dot q" "\<not> is_dotdot q"
  shows "typed_dentry (has_flag lflags LOOKUP_DIRECTORY) s' (nd_dentry nd')"
proof -
  define n1 where "n1 = nd\<lparr>nd_flags := nd_flags nd AND NOT LOOKUP_CONTINUE\<rparr>"
  obtain r t where d: "do_lookup lookup n1 q s = Some (r, t)" using assms by (auto simp: walk_last_def Let_def n1_def bind_eq_Some_conv)
  note w = assms(1) [unfolded walk_last_def Let_def, folded n1_def]
  show ?thesis
  proof (cases r)
    case (Inl e)
    then have "e \<noteq> 0" using do_lookup_error [OF assms(2)] d by blast
    then show ?thesis using w assms(3-5) d Inl by (auto simp: walk_error_def bind_eq_Some_conv)
  next
    case (Inr p)
    then show ?thesis using w assms(3-5) d
      by (cases p) (auto simp: walk_error_def typed_dentry_def ENOENT_def ENOTDIR_def bind_eq_Some_conv split: if_split_asm)
  qed
qed

lemma path_names_last:
  assumes "cs \<noteq> []" "List.hd cs \<noteq> 47" "List.length cs < 2 ^ 32"
  defines "nxt \<equiv> dropWhile (\<lambda>c. c = 47) (drop (component_length cs) cs)"
  shows "nxt = [] \<Longrightarrow> List.last (path_names cs) = name_of (qstr_at cs (component_length cs))"
    and "nxt \<noteq> [] \<Longrightarrow> List.last (path_names nxt) = List.last (path_names cs) \<and> List.hd nxt \<noteq> 47 \<and> List.length nxt < List.length cs"
    and "nxt \<noteq> [] \<Longrightarrow> List.last nxt = List.last cs"
    and "nxt = [] \<Longrightarrow> drop (component_length cs) cs \<noteq> [] \<Longrightarrow> List.last cs = 47"
proof -
  let ?rest = "drop (component_length cs) cs"
  note f = component_first(3) [OF assms(1-3), folded nxt_def]
  show "nxt = [] \<Longrightarrow> List.last (path_names cs) = name_of (qstr_at cs (component_length cs))"
    by (subst f) (simp add: path_names.simps)
  show "nxt \<noteq> [] \<Longrightarrow> List.last (path_names nxt) = List.last (path_names cs) \<and> List.hd nxt \<noteq> 47 \<and> List.length nxt < List.length cs"
  proof -
    assume n: "nxt \<noteq> []"
    then have h: "List.hd nxt \<noteq> 47" using hd_dropWhile [of "\<lambda>c. c = 47" ?rest] by (simp add: nxt_def)
    then have "path_names nxt \<noteq> []" using n by (auto simp: path_names_Nil neq_Nil_conv)
    then have "List.last (path_names nxt) = List.last (path_names cs)" by (subst f) simp
    moreover have "?rest \<noteq> []" using n by (auto simp: nxt_def)
    then have "List.length nxt < List.length cs" unfolding nxt_def by (rule next_shorter)
    ultimately show ?thesis using h by simp
  qed
  define xs where "xs = takeWhile (\<lambda>c. c = 47) ?rest"
  have x: "?rest = xs @ nxt" "\<forall>c \<in> set xs. c = 47" by (auto simp: xs_def nxt_def dest: set_takeWhileD)
  have "?rest \<noteq> [] \<Longrightarrow> List.last cs = List.last ?rest" by simp
  then show "nxt \<noteq> [] \<Longrightarrow> List.last nxt = List.last cs" "nxt = [] \<Longrightarrow> ?rest \<noteq> [] \<Longrightarrow> List.last cs = 47"
    using x by (auto simp del: last_drop)
qed

lemma walk_loop_typed:
  assumes "walk_loop lookup lflags cs nd s = Some (0, nd', s')" "errors_ok lookup" "\<not> has_flag lflags LOOKUP_PARENT"
    and "cs \<noteq> []" "List.hd cs \<noteq> 47" "List.length cs < 2 ^ 32" "List.last (path_names cs) \<notin> {[46], [46, 46]}"
  shows "typed_dentry (has_flag lflags LOOKUP_DIRECTORY \<or> List.last cs = 47) s' (nd_dentry nd')"
  using assms
proof (induction lookup lflags cs nd s rule: walk_loop.induct)
  case (1 lookup lflags cs nd s)
  define q where "q = qstr_at cs (component_length cs)"
  define rest where "rest = drop (component_length cs) cs"
  define nxt where "nxt = dropWhile (\<lambda>c. c = 47) rest"
  note pl = path_names_last [OF "1.prems"(4-6), folded rest_def, folded nxt_def q_def]
  note dots = component_first(4,5) [OF "1.prems"(4-6), folded q_def]
  have unf: "walk_loop lookup lflags cs nd s =
     (if rest = [] then walk_last lookup lflags q nd s
      else if nxt = [] then walk_last lookup (lflags OR LOOKUP_FOLLOW OR LOOKUP_DIRECTORY) q nd s
      else if is_dotdot q then do { (nd, s) \<leftarrow> to_dotdot nd s; walk_loop lookup lflags nxt nd s }
      else if is_dot q then walk_loop lookup lflags nxt nd s
      else do {
        (err, nd, s) \<leftarrow> walk_middle lookup q nd s;
        if err \<noteq> 0 then Some (err, nd, s) else walk_loop lookup lflags nxt nd s
      })"
    by (subst walk_loop.simps) (simp only: Let_def q_def rest_def nxt_def)
  have IH: "typed_dentry (has_flag lflags LOOKUP_DIRECTORY \<or> List.last cs = 47) s' (nd_dentry nd')"
    if "walk_loop lookup lflags nxt n t = Some (0, nd', s')" "nxt \<noteq> []"
      "\<lbrakk>errors_ok lookup; \<not> has_flag lflags LOOKUP_PARENT; nxt \<noteq> []; List.hd nxt \<noteq> 47; List.length nxt < 2 ^ 32; List.last (path_names nxt) \<notin> {[46], [46, 46]}\<rbrakk>
        \<Longrightarrow> typed_dentry (has_flag lflags LOOKUP_DIRECTORY \<or> List.last nxt = 47) s' (nd_dentry nd')" for n t
    using that(3) pl(2,3) [OF that(2)] "1.prems" that(2) by simp
  show ?case
  proof (cases "nxt = []")
    case True
    then have nd: "\<not> is_dot q" "\<not> is_dotdot q" using dots pl(1) "1.prems"(7) by auto
    show ?thesis
    proof (cases "rest = []")
      case rest: True
      have "List.last cs \<noteq> 47"
      proof
        assume l: "List.last cs = 47"
        have "\<forall>c \<in> set cs. c \<noteq> 47" using component_first(1) [OF "1.prems"(4-6)] rest by (simp add: rest_def)
        then show False using l "1.prems"(4) last_in_set [of cs] by metis
      qed
      then show ?thesis using walk_last_typed [OF _ "1.prems"(2,3) nd] "1.prems"(1) rest by (simp add: unf)
    next
      case False
      have "\<not> has_flag (lflags OR LOOKUP_FOLLOW OR LOOKUP_DIRECTORY) LOOKUP_PARENT" using "1.prems"(3) unfolding has_flag_or(1) .
      then show ?thesis
        using walk_last_typed [OF _ "1.prems"(2) _ nd] "1.prems"(1) True False by (fastforce simp: unf has_flag_or(2) typed_dentry_def)
    qed
  next
    case False
    then have r: "rest \<noteq> []" by (auto simp: nxt_def)
    show ?thesis
    proof (cases "is_dotdot q")
      case True
      then obtain n t where "to_dotdot nd s = Some (n, t)" "walk_loop lookup lflags nxt n t = Some (0, nd', s')"
        using "1.prems"(1) False r by (auto simp: unf bind_eq_Some_conv)
      with IH "1.IH"(1) True False r show ?thesis unfolding q_def rest_def nxt_def by blast
    next
      case dd: False
      show ?thesis
      proof (cases "is_dot q")
        case True
        then have "walk_loop lookup lflags nxt nd s = Some (0, nd', s')" using "1.prems"(1) False r dd by (simp add: unf)
        with IH "1.IH"(2) True dd False r show ?thesis unfolding q_def rest_def nxt_def by blast
      next
        case d: False
        then obtain n t where "walk_middle lookup q nd s = Some (0, n, t)" "walk_loop lookup lflags nxt n t = Some (0, nd', s')"
          using "1.prems"(1) False r dd by (auto simp: unf bind_eq_Some_conv split: if_splits)
        with IH "1.IH"(3) d dd False r show ?thesis unfolding q_def rest_def nxt_def by blast
      qed
    qed
  qed
qed

text \<open>C7: when path_lookup succeeds on a path whose last name is not a dot or two dots, the dentry it returns has an inode, and if a directory was asked for, by the flags or by a slash at the end of the path, that inode is a directory. This holds whatever lookup the file system has.\<close>

theorem path_lookup_typed:
  assumes "path_lookup lookup name flags nd s = Some (0, nd', s')" "errors_ok lookup" "\<not> has_flag flags LOOKUP_PARENT" "List.length name < 2 ^ 32"
    and "path_names (path_start name) \<noteq> []" "List.last (path_names (path_start name)) \<notin> {[46], [46, 46]}"
  shows "\<exists>x. ns_dents s' (nd_dentry nd') = Some x \<and> d_inode x \<noteq> NULL
    \<and> (has_flag flags LOOKUP_DIRECTORY \<or> List.last name = 47 \<longrightarrow> i_op (inode_of s' (d_inode x)) = Dir_ops)"
proof -
  have "path_names [] = []" by (simp add: path_names.simps)
  then have ne: "path_start name \<noteq> []" using assms(5) by metis
  then have h: "List.hd (path_start name) \<noteq> 47" using hd_dropWhile [of "\<lambda>c. c = 47 \<or> c = 32" name] by auto
  have l: "List.length (path_start name) < 2 ^ 32" using assms(4) length_dropWhile_le [of "\<lambda>c. c = 47 \<or> c = 32" name] by simp
  have lst: "List.last name = List.last (path_start name)" using ne by (metis last_appendR takeWhile_dropWhile_id)
  obtain t where "walk_loop lookup flags (path_start name)
      (nd\<lparr>nd_last_type := LAST_ROOT, nd_flags := flags, nd_mnt := start_mnt name t, nd_dentry := start_dentry name t\<rparr>) t = Some (0, nd', s')"
    using assms(1) ne by (auto simp: path_lookup_start link_path_walk_def Let_def bind_eq_Some_conv simp del: dropWhile_eq_Nil_conv)
  from walk_loop_typed [OF this assms(2,3) ne h l assms(6)] show ?thesis by (auto simp: typed_dentry_def lst)
qed

theorem path_lookup_typed_witness:
  "\<exists>nd' s' x. path_lookup ext2_inode_lookup [47, 97, 47] 1 undefined (sample_tree tree_fs 3) = Some (0, nd', s') \<and> ns_dents s' (nd_dentry nd') = Some x
     \<and> i_op (inode_of s' (d_inode x)) = Dir_ops"
proof -
  let ?n = "[47, 97, 47] :: u8 list" and ?s = "sample_tree tree_fs 3"
  have p: "path_names (path_start ?n) = [[97]]" by (simp add: path_names.simps)
  have d: "i_op (vs_inodes tree_fs 2) = Dir_ops" by (simp add: tree_fs_def)
  have f: "\<not> has_flag 1 LOOKUP_PARENT" by (simp add: has_flag_def LOOKUP_PARENT_def)
  have "resolves ?s 1 2 [] 1 2" by (rule resolves.here [where x = "tree_dentry 3 2"]) simp
  then have "resolves ?s 1 1 (tree_name 2 # []) 1 2" by (intro sample_tree_step) simp_all
  then have r: "resolves ?s (start_mnt ?n ?s) (start_dentry ?n ?s) (path_names (path_start ?n)) 1 2"
    unfolding p by (simp add: start_mnt_def start_dentry_def tree_name_def)
  have "dir_dentry ?s 2" using d by (simp add: dir_dentry_def)
  then obtain nd' s' where w: "path_lookup ext2_inode_lookup ?n 1 undefined ?s = Some (0, nd', s')"
    using path_lookup_ok [OF sample_tree_ok _ r f, of ext2_inode_lookup undefined] by auto
  have q: "path_names (path_start ?n) \<noteq> []" "List.last (path_names (path_start ?n)) \<notin> {[46], [46, 46]}" unfolding p by simp_all
  show ?thesis using w path_lookup_typed [OF w ext2_errors_ok f _ q] by auto
qed

end
