(* ===== verification/Ext2DirInv.thy ===== *)
theory Ext2DirInv
  imports Ext2Dir Ext2Props
begin

text \<open>
  A page of a directory as a list of entries: adding an entry inserts one, listing reads them, and a lookup finds the first of its name.
\<close>

section \<open>Fields of entries\<close>

lemma byte_le_255: "unat (b :: u8) \<le> 255"
  using unsigned_less [of b, where 'a = nat] by simp

lemma unat_byte_up [simp]: "unat (ucast (b :: u8) :: u32) = unat b"
  using byte_le_255 [of b] by (simp add: unsigned_ucast_eq take_bit_nat_eq_self)

lemma byte_mask: "(ucast (x AND 255 :: u32) :: u8) = ucast x"
  by (rule bit_word_eqI) (simp add: and_0xFF bit_simps)

lemma le32_shift: "(\<And>j. j < 4 \<Longrightarrow> b ! (p + j) = c ! (q + j)) \<Longrightarrow> le32 p b = le32 q c"
proof -
  assume a: "\<And>j. j < 4 \<Longrightarrow> b ! (p + j) = c ! (q + j)"
  show ?thesis using a [of 0] a [of 1] a [of 2] a [of 3] by (simp add: le32_def get_u32_def)
qed

lemma le16_shift: "(\<And>j. j < 2 \<Longrightarrow> b ! (p + j) = c ! (q + j)) \<Longrightarrow> le16 p b = le16 q c"
proof -
  assume a: "\<And>j. j < 2 \<Longrightarrow> b ! (p + j) = c ! (q + j)"
  show ?thesis using a [of 0] a [of 1] by (simp add: le16_def get_u16_def)
qed

lemma length_header [simp]: "List.length (e_header e) = 8"
  by (simp add: e_header_def)

lemma header_fields: "le32 0 (e_header e) = e_ino e" "le16 4 (e_header e) = e_rec_len e" "e_header e ! 6 = e_name_len e" "e_header e ! 7 = e_file_type e"
  "e_header e ! 0 = ucast (e_ino e)"
proof -
  let ?h = "set_le32 0 (e_ino e) (set_le16 4 (e_rec_len e) (replicate 6 0))"
  have h: "e_header e ! i = ?h ! i" if "i < 6" for i using that by (simp add: e_header_def nth_append)
  have "le32 0 (e_header e) = le32 0 ?h" by (rule le32_cong) (simp add: h)
  then show "le32 0 (e_header e) = e_ino e" by (simp add: le32_set)
  have "le16 4 (e_header e) = le16 4 ?h" by (rule le16_cong) (simp add: h)
  then show "le16 4 (e_header e) = e_rec_len e" by (simp add: le16_set32_other le16_set)
  show "e_header e ! 6 = e_name_len e" "e_header e ! 7 = e_file_type e" by (simp_all add: e_header_def nth_append)
  show "e_header e ! 0 = ucast (e_ino e)" by (simp add: h set_le32_def nth_on_bytes set_u32_def byte_mask)
qed

text \<open>An entry as it is listed.\<close>

definition ent_at :: "nat \<Rightarrow> u8 list \<Rightarrow> dirent" where
  "ent_at a buf = (de_ino a buf, de_file_type a buf, name_of (de_qstr a buf))"

definition ent_of :: "dir_entry \<Rightarrow> dirent" where
  "ent_of e = (e_ino e, e_file_type e, e_name e)"

text \<open>The bytes of an entry, and those that its own fields take in whole words.\<close>

definition used_at :: "nat \<Rightarrow> u8 list \<Rightarrow> nat" where
  "used_at a buf = EXT2_DIR_REC_LEN (unat (de_name_len a buf))"

abbreviation rec_at :: "nat \<Rightarrow> u8 list \<Rightarrow> nat" where
  "rec_at a buf \<equiv> unat (de_rec_len a buf)"

lemma rec_len_bounds: "8 + n \<le> EXT2_DIR_REC_LEN n" "EXT2_DIR_REC_LEN n \<le> n + 11"
  by (simp_all add: EXT2_DIR_REC_LEN_def)

lemma used_bounds: "8 + unat (de_name_len a buf) \<le> used_at a buf" "used_at a buf \<le> 266"
proof -
  show "8 + unat (de_name_len a buf) \<le> used_at a buf" unfolding used_at_def by (rule rec_len_bounds)
  show "used_at a buf \<le> 266" unfolding used_at_def using rec_len_bounds(2) [of "unat (de_name_len a buf)"] byte_le_255 [of "de_name_len a buf"] by linarith
qed

text \<open>The fields at \<open>a\<close> depend on the bytes of the entry only.\<close>

lemma entry_cong:
  assumes "\<And>i. a \<le> i \<Longrightarrow> i < a + 8 + unat (de_name_len a buf) \<Longrightarrow> buf' ! i = buf ! i"
  shows "ent_at a buf' = ent_at a buf" "de_rec_len a buf' = de_rec_len a buf" "used_at a buf' = used_at a buf" "buf' ! a = buf ! a" "de_name_len a buf' = de_name_len a buf"
proof -
  show nl: "de_name_len a buf' = de_name_len a buf" by (simp add: de_name_len_def assms)
  then show "used_at a buf' = used_at a buf" by (simp add: used_at_def)
  show "buf' ! a = buf ! a" by (simp add: assms)
  show "de_rec_len a buf' = de_rec_len a buf" unfolding de_rec_len_def by (rule le16_cong) (simp add: assms)
  have "de_ino a buf' = de_ino a buf" unfolding de_ino_def by (rule le32_cong) (simp add: assms)
  moreover have "name_of (de_qstr a buf') = name_of (de_qstr a buf)" by (auto simp: name_of_def de_qstr_def nl assms)
  ultimately show "ent_at a buf' = ent_at a buf" by (simp add: ent_at_def de_file_type_def assms)
qed

text \<open>An entry that was put at \<open>a\<close>.\<close>

lemma put_entry_ok:
  assumes "unat (e_name_len e) = List.length (e_name e)" "a + 8 + List.length (e_name e) \<le> List.length buf"
  shows "\<exists>buf'. put_entry a e buf = Some buf' \<and> List.length buf' = List.length buf \<and> ent_at a buf' = ent_of e \<and> de_rec_len a buf' = e_rec_len e
    \<and> de_name_len a buf' = e_name_len e \<and> buf' ! a = ucast (e_ino e)
    \<and> (\<forall>i < List.length buf. i < a \<or> a + 8 + List.length (e_name e) \<le> i \<longrightarrow> buf' ! i = buf ! i)"
proof -
  define b1 where "b1 = put_bytes a (e_header e) buf"
  define b2 where "b2 = put_bytes (a + 8) (e_name e) b1"
  have l: "List.length b1 = List.length buf" "List.length b2 = List.length buf" using assms(2) by (simp_all add: b1_def b2_def)
  have n: "b2 ! i = (if a \<le> i \<and> i < a + 8 then e_header e ! (i - a) else if a + 8 \<le> i \<and> i < a + 8 + List.length (e_name e) then e_name e ! (i - (a + 8)) else buf ! i)"
    if "i < List.length buf" for i
    using assms(2) that l by (simp add: b2_def put_bytes_nth) (simp add: b1_def put_bytes_nth)
  have h: "b2 ! (a + j) = e_header e ! j" if "j < 8" for j using assms(2) that by (simp add: n)
  have nl: "de_name_len a b2 = e_name_len e" by (simp add: de_name_len_def h header_fields)
  have "de_ino a b2 = le32 0 (e_header e)" "de_rec_len a b2 = le16 4 (e_header e)"
    unfolding de_ino_def de_rec_len_def by (rule le32_shift le16_shift; simp add: h add.assoc)+
  moreover have "de_file_type a b2 = e_file_type e" "b2 ! a = ucast (e_ino e)" using h [of 0] by (simp_all add: de_file_type_def h header_fields)
  moreover have "name_of (de_qstr a b2) = e_name e"
    using assms by (intro nth_equalityI) (simp_all add: name_of_def de_qstr_def nl n)
  moreover have "put_entry a e buf = Some b2" using assms by (simp add: put_entry_def b1_def b2_def)
  ultimately show ?thesis using l n nl by (intro exI [of _ b2]) (simp add: ent_at_def ent_of_def header_fields)
qed

section \<open>The entries of a page\<close>

function page_entries :: "nat \<Rightarrow> nat \<Rightarrow> u8 list \<Rightarrow> dirent list" where
  "page_entries bs a buf = (if \<not> a < bs \<or> buf ! a = 0 \<or> rec_at a buf = 0 then [] else ent_at a buf # page_entries bs (a + rec_at a buf) buf)"
  by pat_completeness auto
termination
  by (relation "measure (\<lambda>(bs, a, buf). bs - a)") auto

text \<open>The bytes left behind each entry.\<close>

function gaps :: "nat \<Rightarrow> nat \<Rightarrow> u8 list \<Rightarrow> nat list" where
  "gaps bs a buf = (if \<not> a < bs \<or> rec_at a buf = 0 then [] else (rec_at a buf - used_at a buf) # gaps bs (a + rec_at a buf) buf)"
  by pat_completeness auto
termination
  by (relation "measure (\<lambda>(bs, a, buf). bs - a)") auto

text \<open>The entries follow each other to the end of the block, none leaves it, and none looks like the end.\<close>

function chain_ok :: "nat \<Rightarrow> nat \<Rightarrow> u8 list \<Rightarrow> bool" where
  "chain_ok bs a buf \<longleftrightarrow> a < bs \<longrightarrow> buf ! a \<noteq> 0 \<and> used_at a buf \<le> rec_at a buf \<and> a + rec_at a buf \<le> bs
     \<and> (0 < rec_at a buf \<longrightarrow> chain_ok bs (a + rec_at a buf) buf)"
  by pat_completeness auto
termination
  by (relation "measure (\<lambda>(bs, a, buf). bs - a)") auto

declare page_entries.simps [simp del] gaps.simps [simp del] chain_ok.simps [simp del]

lemma chain_okD:
  assumes "chain_ok bs a buf" "a < bs"
  shows "buf ! a \<noteq> 0" "used_at a buf \<le> rec_at a buf" "a + rec_at a buf \<le> bs" "0 < rec_at a buf" "chain_ok bs (a + rec_at a buf) buf" "a + 8 + unat (de_name_len a buf) \<le> bs"
  using assms used_bounds(1) [of a buf] by (simp_all add: chain_ok.simps [of bs a])

lemma page_cong:
  assumes "chain_ok bs a buf" "\<And>i. a \<le> i \<Longrightarrow> i < bs \<Longrightarrow> buf' ! i = buf ! i"
  shows "chain_ok bs a buf' \<and> page_entries bs a buf' = page_entries bs a buf"
  using assms
proof (induction bs a buf rule: page_entries.induct)
  case (1 bs a buf)
  show ?case
  proof (cases "a < bs")
    case True
    note c = chain_okD [OF "1.prems"(1) True]
    have e: "ent_at a buf' = ent_at a buf" "de_rec_len a buf' = de_rec_len a buf" "used_at a buf' = used_at a buf" "buf' ! a = buf ! a"
      using c(6) by (rule_tac entry_cong; simp add: "1.prems"(2))+
    have "chain_ok bs (a + rec_at a buf) buf' \<and> page_entries bs (a + rec_at a buf) buf' = page_entries bs (a + rec_at a buf) buf"
      using "1.IH" "1.prems"(2) c True by simp
    then show ?thesis using c True by (simp add: chain_ok.simps [of bs a] page_entries.simps [of bs a] e)
  qed (simp add: chain_ok.simps [of bs a] page_entries.simps [of bs a])
qed

section \<open>Adding an entry\<close>

text \<open>An entry with a name and a length of its own; a scan sees it unless its first byte is 0, the low byte of the number of its inode.\<close>

definition entry_ok :: "dir_entry \<Rightarrow> bool" where
  "entry_ok e \<longleftrightarrow> unat (e_name_len e) = List.length (e_name e) \<and> e_rec_len e = of_nat (EXT2_DIR_REC_LEN (List.length (e_name e)))"

definition visible :: "dir_entry \<Rightarrow> bool" where
  "visible e \<longleftrightarrow> ucast (e_ino e) \<noteq> (0 :: u8)"

text \<open>An entry that is not seen cuts off what follows.\<close>

definition seen :: "dir_entry \<Rightarrow> dirent list \<Rightarrow> dirent list" where
  "seen e ys = (if visible e then ent_of e # ys else [])"

lemma entry_okD:
  assumes "entry_ok e"
  shows "unat (e_name_len e) = List.length (e_name e)" "unat (e_rec_len e) = EXT2_DIR_REC_LEN (List.length (e_name e))" "8 + List.length (e_name e) \<le> unat (e_rec_len e)"
proof -
  show n: "unat (e_name_len e) = List.length (e_name e)" using assms by (simp_all add: entry_ok_def)
  have "List.length (e_name e) \<le> 255" using byte_le_255 [of "e_name_len e"] n by simp
  then have "EXT2_DIR_REC_LEN (List.length (e_name e)) < 2 ^ 16" using rec_len_bounds(2) [of "List.length (e_name e)"] by simp
  then show r: "unat (e_rec_len e) = EXT2_DIR_REC_LEN (List.length (e_name e))" using assms by (simp add: entry_ok_def unat_of_nat)
  show "8 + List.length (e_name e) \<le> unat (e_rec_len e)" unfolding r by (rule rec_len_bounds)
qed

lemma entry_okI: "List.length name \<le> 255 \<Longrightarrow> entry_ok (new_entry ino name ft)"
  by (simp add: entry_ok_def new_entry_def unat_of_nat)

text \<open>The place behind entry \<open>a\<close> is large enough.\<close>

lemma insert_behind:
  assumes "chain_ok bs a buf" "a < bs" "List.length buf = bs" "bs \<le> 4096" "entry_ok e" "unat (e_rec_len e) \<le> rec_at a buf - used_at a buf"
  defines "u \<equiv> used_at a buf" and "r \<equiv> rec_at a buf"
  shows "\<exists>buf'. put_entry (a + u) (e\<lparr>e_rec_len := of_int (int r - int u)\<rparr>) (set_le16 (a + 4) (of_nat u) buf) = Some buf' \<and> List.length buf' = bs \<and> (visible e \<longrightarrow> chain_ok bs a buf')
    \<and> page_entries bs a buf' = ent_at a buf # seen e (page_entries bs (a + r) buf) \<and> (\<forall>i < a. buf' ! i = buf ! i)"
proof -
  let ?e = "e\<lparr>e_rec_len := of_int (int r - int u)\<rparr>" and ?b1 = "set_le16 (a + 4) (of_nat u) buf"
  note c = chain_okD [OF assms(1,2), folded u_def r_def]
  note e = entry_okD [OF assms(5)]
  note ub = used_bounds [of a buf, folded u_def]
  let ?nl = "List.length (e_name e)"
  have fit: "a + u + 8 + ?nl \<le> a + r" using e(3) assms(6) c(2) by (simp add: u_def r_def)
  then have "a + u + 8 + List.length (e_name ?e) \<le> List.length ?b1" using c(3) assms(3) by simp
  from put_entry_ok [OF _ this]
  obtain b where b: "put_entry (a + u) ?e ?b1 = Some b" "List.length b = bs" "ent_at (a + u) b = ent_of ?e" "de_rec_len (a + u) b = of_int (int r - int u)"
    "de_name_len (a + u) b = e_name_len e" "b ! (a + u) = ucast (e_ino e)" "\<forall>i < bs. i < a + u \<or> a + u + 8 + ?nl \<le> i \<longrightarrow> b ! i = ?b1 ! i"
    using e(1) assms(3) by auto
  have b1: "?b1 ! i = buf ! i" if "i < bs" "i < a + 4 \<or> a + 6 \<le> i" for i using that assms(3) by (intro set_le16_frame) auto
  have bb: "b ! i = buf ! i" if "i < bs" "i < a + u \<or> a + u + 8 + ?nl \<le> i" "i < a + 4 \<or> a + 6 \<le> i" for i using b(7) b1 that by metis
  have "int r - int u = int (r - u)" using c(2) by simp
  then have "de_rec_len (a + u) b = of_nat (r - u)" unfolding b(4) by (simp only: of_int_of_nat_eq)
  moreover have "r - u < 2 ^ 16" using c(3) assms(4) by simp
  ultimately have rl: "unat (de_rec_len (a + u) b) = r - u" by (simp only: unat_of_nat) simp
  have tl: "chain_ok bs (a + r) b \<and> page_entries bs (a + r) b = page_entries bs (a + r) buf"
    using fit by (intro page_cong [OF c(5)]) (rule bb; use ub in linarith)
  have us: "used_at (a + u) b = unat (e_rec_len e)" by (simp add: used_at_def b(5) e(1,2))
  have au: "a + u < bs" using fit c(3) by simp
  have n0: "b ! (a + u) \<noteq> 0 \<longleftrightarrow> visible e" using b(6) by (simp add: visible_def)
  have new: "(visible e \<longrightarrow> chain_ok bs (a + u) b) \<and> page_entries bs (a + u) b = seen e (page_entries bs (a + r) buf)"
    using tl n0 au fit c(2,3) assms(6) b(3)
    by (simp add: chain_ok.simps [of bs "a + u"] page_entries.simps [of bs "a + u"] rl us seen_def u_def [symmetric] r_def [symmetric]) (auto simp: ent_of_def)
  have w: "b ! (a + i) = buf ! (a + i)" if "i < 4 \<or> 6 \<le> i" "i < u" for i using that au by (intro bb) auto
  have nl: "de_name_len a b = de_name_len a buf" using w [of 6] ub by (simp add: de_name_len_def)
  have "de_ino a b = de_ino a buf" unfolding de_ino_def by (rule le32_cong) (use ub in \<open>simp add: w\<close>)
  moreover have "de_file_type a b = de_file_type a buf" using w [of 7] ub by (simp add: de_file_type_def)
  moreover have "name_of (de_qstr a b) = name_of (de_qstr a buf)"
    using ub(1) w by (simp add: name_of_def de_qstr_def nl add.assoc)
  ultimately have ent: "ent_at a b = ent_at a buf" by (simp add: ent_at_def)
  have "de_rec_len a b = de_rec_len a ?b1" unfolding de_rec_len_def by (rule le16_cong) (use b(7) au ub in simp)
  moreover have "a + 4 + 2 \<le> List.length buf" using au ub assms(3) by simp
  then have "le16 (a + 4) ?b1 = of_nat u" by (rule le16_set)
  ultimately have rl2: "rec_at a b = u" using ub by (simp add: de_rec_len_def unat_of_nat)
  have us2: "used_at a b = u" by (simp add: used_at_def nl u_def)
  have "b ! a \<noteq> 0" using w [of 0] ub c(1) by simp
  then have "(visible e \<longrightarrow> chain_ok bs a b) \<and> page_entries bs a b = ent_at a buf # seen e (page_entries bs (a + r) buf)"
    using new au ub assms(2) by (simp add: chain_ok.simps [of bs a] page_entries.simps [of bs a] rl2 us2 ent)
  then show ?thesis using b(1,2) bb au by (intro exI [of _ b]) simp
qed

lemma fit_cond: "u \<le> r \<Longrightarrow> a + r \<le> bs \<Longrightarrow> (bs \<le> a + r \<and> int (bs - a) - int u \<ge> int n \<or> int r - int u \<ge> int n) \<longleftrightarrow> n \<le> r - u" for a r u n bs :: nat
  by auto

lemma place_ok:
  assumes "chain_ok bs a buf" "List.length buf = bs" "bs \<le> 4096" "entry_ok e"
  shows "\<exists>r. place_entry bs a e buf = Some r \<and> (r = None \<longleftrightarrow> (\<forall>g \<in> set (gaps bs a buf). g < unat (e_rec_len e)))
    \<and> (\<forall>buf'. r = Some buf' \<longrightarrow> List.length buf' = bs \<and> (visible e \<longrightarrow> chain_ok bs a buf') \<and> (\<forall>i < a. buf' ! i = buf ! i)
         \<and> (\<exists>xs ys. page_entries bs a buf = xs @ ys \<and> page_entries bs a buf' = xs @ seen e ys))"
  using assms
proof (induction bs a e buf rule: place_entry.induct)
  case (1 bs a e buf)
  show ?case
  proof (cases "a < bs")
    case False
    then show ?thesis by (simp add: place_entry.simps [of bs a] gaps.simps [of bs a])
  next
    case True
    let ?u = "used_at a buf" and ?r = "rec_at a buf" and ?n = "unat (e_rec_len e)"
    note c = chain_okD [OF "1.prems"(1) True]
    have g8: "a + 8 \<le> List.length buf" using c(6) "1.prems"(2) by simp
    have cond: "bs \<le> a + ?r \<and> int (bs - a) - int ?u \<ge> int ?n \<or> int ?r - int ?u \<ge> int ?n \<longleftrightarrow> ?n \<le> ?r - ?u"
      by (rule fit_cond [OF c(2,3)])
    have unf: "place_entry bs a e buf = (if ?n \<le> ?r - ?u then do {
         buf \<leftarrow> put_entry (a + ?u) (e\<lparr>e_rec_len := of_int (int ?r - int ?u)\<rparr>) (set_le16 (a + 4) (of_nat ?u) buf); Some (Some buf)
       } else place_entry bs (a + ?r) e buf)"
      using True g8 c(4) cond by (subst place_entry.simps) (simp add: used_at_def Let_def)
    have gp: "gaps bs a buf = (?r - ?u) # gaps bs (a + ?r) buf" using True c(4) by (subst gaps.simps) simp
    have pe: "page_entries bs a buf = ent_at a buf # page_entries bs (a + ?r) buf" using True c(1,4) by (subst page_entries.simps) simp
    show ?thesis
    proof (cases "?n \<le> ?r - ?u")
      case n: True
      obtain b where b: "put_entry (a + ?u) (e\<lparr>e_rec_len := of_int (int ?r - int ?u)\<rparr>) (set_le16 (a + 4) (of_nat ?u) buf) = Some b" "List.length b = bs"
        "visible e \<longrightarrow> chain_ok bs a b" "page_entries bs a b = ent_at a buf # seen e (page_entries bs (a + ?r) buf)" "\<forall>i < a. b ! i = buf ! i"
        using insert_behind [OF "1.prems"(1) True "1.prems"(2-4) n] by blast
      then show ?thesis
        using n pe gp by (simp add: unf) (intro exI [of _ "[ent_at a buf]"] exI [of _ "page_entries bs (a + ?r) buf"], simp)
    next
      case n: False
      from "1.IH" [OF _ _ refl refl] True g8 c(4,5) cond n "1.prems"(2-4)
      obtain r where r: "place_entry bs (a + ?r) e buf = Some r" "r = None \<longleftrightarrow> (\<forall>g \<in> set (gaps bs (a + ?r) buf). g < ?n)"
        "\<forall>buf'. r = Some buf' \<longrightarrow> List.length buf' = bs \<and> (visible e \<longrightarrow> chain_ok bs (a + ?r) buf') \<and> (\<forall>i < a + ?r. buf' ! i = buf ! i)
         \<and> (\<exists>xs ys. page_entries bs (a + ?r) buf = xs @ ys \<and> page_entries bs (a + ?r) buf' = xs @ seen e ys)"
        by (auto simp: used_at_def)
      have "List.length b = bs \<and> (visible e \<longrightarrow> chain_ok bs a b) \<and> (\<forall>i < a. b ! i = buf ! i)
         \<and> (\<exists>xs ys. page_entries bs a buf = xs @ ys \<and> page_entries bs a b = xs @ seen e ys)" if "r = Some b" for b
      proof -
        have b: "List.length b = bs" "visible e \<longrightarrow> chain_ok bs (a + ?r) b" "\<forall>i < a + ?r. b ! i = buf ! i"
          "\<exists>xs ys. page_entries bs (a + ?r) buf = xs @ ys \<and> page_entries bs (a + ?r) b = xs @ seen e ys" using r(3) that by auto
        have e: "ent_at a b = ent_at a buf" "de_rec_len a b = de_rec_len a buf" "used_at a b = ?u" "b ! a = buf ! a"
          using c(2) used_bounds(1) [of a buf] b(3) by (rule_tac entry_cong; simp)+
        then have "visible e \<longrightarrow> chain_ok bs a b" "page_entries bs a b = ent_at a buf # page_entries bs (a + ?r) b"
          using True c(1-4) b(2) by (simp_all add: chain_ok.simps [of bs a] page_entries.simps [of bs a])
        moreover obtain xs ys where "page_entries bs (a + ?r) buf = xs @ ys" "page_entries bs (a + ?r) b = xs @ seen e ys" using b(4) by blast
        ultimately have "page_entries bs a buf = (ent_at a buf # xs) @ ys \<and> page_entries bs a b = (ent_at a buf # xs) @ seen e ys" using pe by simp
        then have "\<exists>xs ys. page_entries bs a buf = xs @ ys \<and> page_entries bs a b = xs @ seen e ys" by blast
        then show ?thesis using b(1,3) \<open>visible e \<longrightarrow> chain_ok bs a b\<close> by simp
      qed
      then show ?thesis using r(1,2) n gp by (simp add: unf)
    qed
  qed
qed

section \<open>Scanning a page\<close>

text \<open>Reading a directory makes new inode objects and transfers sectors; the rest of the state is kept.\<close>

definition scanned :: "vfs_state \<Rightarrow> vfs_state \<Rightarrow> bool" where
  "scanned s t \<longleftrightarrow> same_card (vs_disk s) (vs_disk t) \<and> vs_sbs t = vs_sbs s \<and> vs_pages t = vs_pages s \<and> vs_pcache t = vs_pcache s \<and> vs_next s \<le> vs_next t
     \<and> (\<forall>i < vs_next s. vs_inodes t i = vs_inodes s i \<and> vs_acache t i = vs_acache s i)"

lemma scanned_refl: "scanned s s"
  by (simp add: scanned_def same_card_def)

lemma scanned_trans: "scanned s t \<Longrightarrow> scanned t u \<Longrightarrow> scanned s u"
  by (auto simp: scanned_def same_card_def)

lemma scanned_card: "scanned s t \<Longrightarrow> card_ok t = card_ok s"
  unfolding scanned_def using same_cardD(1) by blast

text \<open>The bit of an inode number in the bit map of its group.\<close>

definition ino_used :: "vfs_state \<Rightarrow> nat \<Rightarrow> u32 \<Rightarrow> bool" where
  "ino_used s dir ino \<longleftrightarrow> (let sb = vs_sbs s (i_sb (vs_inodes s dir))
     in get_bit 0 (inode_bit sb ino) (bytes_at (block_bytes (vs_disk s) (bitmap_sect sb (vs_inodes s dir) (group_desc sb (group_of sb ino False) s)) 8)) \<noteq> 0)"

lemma group_desc_scanned: "scanned s t \<Longrightarrow> group_desc sb grp t = group_desc sb grp s"
  by (simp add: scanned_def same_card_def group_desc_def)

lemma ino_used_scanned:
  assumes "scanned s t" "dir < vs_next s"
  shows "ino_used t dir = ino_used s dir"
proof -
  have "block_bytes (vs_disk t) = block_bytes (vs_disk s)" using assms(1) same_cardD(2) by (auto simp: scanned_def)
  moreover have "vs_sbs t = vs_sbs s" "vs_inodes t dir = vs_inodes s dir" using assms by (simp_all add: scanned_def)
  ultimately show ?thesis by (simp only: fun_eq_iff ino_used_def group_desc_scanned [OF assms(1)]) simp
qed

lemma raw_step:
  assumes "card_ok s" "dir < vs_next s" "s_inodes_per_group (vs_sbs s (i_sb (vs_inodes s dir))) \<noteq> 0"
  shows "\<exists>t. raw_inode dir ino s = (vs_next s, t) \<and> scanned s (io t) \<and> vs_next t = vs_next s + 1
    \<and> ext2_check_inode_bitmap (vs_inodes t (vs_next s)) t = Some (if ino_used s dir ino then 1 else 0, io t)
    \<and> i_ino (vs_inodes t (vs_next s)) = ino \<and> i_blksize (vs_inodes t (vs_next s)) = i_blksize (vs_inodes s dir) \<and> i_sb (vs_inodes t (vs_next s)) = i_sb (vs_inodes s dir)"
proof -
  define t where "t = snd (raw_inode dir ino s)"
  have t: "raw_inode dir ino s = (vs_next s, t)" by (simp add: raw_inode_def t_def Let_def)
  have i: "i_ino (vs_inodes t (vs_next s)) = ino" "i_blksize (vs_inodes t (vs_next s)) = i_blksize (vs_inodes s dir)" "i_sb (vs_inodes t (vs_next s)) = i_sb (vs_inodes s dir)"
    by (simp_all add: t_def raw_inode_def upd_inode_def Let_def)
  have st: "vs_disk t = vs_disk s" "vs_sbs t = vs_sbs s" "vs_next t = vs_next s + 1" "vs_pages t = vs_pages s" "vs_pcache t = vs_pcache s" "vs_acache t = vs_acache s"
    "j < vs_next s \<Longrightarrow> vs_inodes t j = vs_inodes s j" for j
    by (simp_all add: t_def raw_inode_def upd_inode_def Let_def)
  have "scanned s t" using st by (simp add: scanned_def same_card_def)
  moreover have "scanned t (io t)" by (simp add: scanned_def same_card_def) (simp add: io_def)
  ultimately have sc: "scanned s (io t)" by (rule scanned_trans)
  have gd: "group_desc sb grp t = group_desc sb grp s" for sb grp by (simp add: group_desc_def st)
  have bm: "bitmap_sect sb (vs_inodes t (vs_next s)) gdt = bitmap_sect sb (vs_inodes s dir) gdt" for sb gdt by (simp add: bitmap_sect_def i)
  have gb: "get_bit a b m \<noteq> 0 \<longrightarrow> get_bit a b m = 1" for a b m by (simp add: get_bit_def Let_def)
  have "ext2_check_inode_bitmap (vs_inodes t (vs_next s)) t = Some (if ino_used s dir ino then 1 else 0, io t)"
    using assms(1,3) by (subst ext2_check_inode_bitmap_def) (simp add: st i gd bm ino_used_def Let_def gb)
  then show ?thesis using t sc i st(3) by blast
qed

text \<open>Listing reads the entries whose inodes are in use.\<close>

lemma scan_readdir_ok:
  assumes "chain_ok bs a buf" "List.length buf = bs" "card_ok s" "dir < vs_next s" "s_inodes_per_group (vs_sbs s (i_sb (vs_inodes s dir))) \<noteq> 0"
    and "List.length acc + List.length (page_entries bs a buf) \<le> MAX_DIRENT_NUM"
  shows "\<exists>t. scan_readdir dir bs a buf acc s = Some (acc @ filter (\<lambda>e. ino_used s dir (fst e)) (page_entries bs a buf), t) \<and> scanned s t"
  using assms
proof (induction bs a buf arbitrary: acc s rule: page_entries.induct)
  case (1 bs a buf)
  show ?case
  proof (cases "a < bs")
    case False
    then show ?thesis using scanned_refl by (simp add: scan_readdir.simps [of dir bs a] page_entries.simps [of bs a])
  next
    case True
    note c = chain_okD [OF "1.prems"(1) True]
    have pe: "page_entries bs a buf = ent_at a buf # page_entries bs (a + rec_at a buf) buf" using True c(1,4) by (subst page_entries.simps) simp
    have fits: "de_fits a buf" using c(6) "1.prems"(2) by (simp add: de_fits_def)
    obtain t where t: "raw_inode dir (de_ino a buf) s = (vs_next s, t)" "scanned s (io t)"
      "ext2_check_inode_bitmap (vs_inodes t (vs_next s)) t = Some (if ino_used s dir (de_ino a buf) then 1 else 0, io t)"
      using raw_step [OF "1.prems"(3-5)] by blast
    define acc' where "acc' = (if ino_used s dir (de_ino a buf) then acc @ [ent_at a buf] else acc)"
    have unf: "scan_readdir dir bs a buf acc s = scan_readdir dir bs (a + rec_at a buf) buf acc' (io t)"
      using True c(1,4) fits t(1,3) "1.prems"(6) pe by (subst scan_readdir.simps) (simp add: acc'_def ent_at_def)
    have st: "vs_sbs (io t) = vs_sbs s" "vs_inodes (io t) dir = vs_inodes s dir" "dir < vs_next (io t)"
      using t(2) "1.prems"(4) by (auto simp: scanned_def)
    have "List.length acc' + List.length (page_entries bs (a + rec_at a buf) buf) \<le> MAX_DIRENT_NUM" using "1.prems"(6) pe by (simp add: acc'_def)
    moreover have "\<not> (\<not> a < bs \<or> buf ! a = 0 \<or> rec_at a buf = 0)" using True c(1,4) by simp
    ultimately obtain u where u: "scan_readdir dir bs (a + rec_at a buf) buf acc' (io t)
        = Some (acc' @ filter (\<lambda>e. ino_used (io t) dir (fst e)) (page_entries bs (a + rec_at a buf) buf), u)" "scanned (io t) u"
      using "1.IH" [OF _ c(5) "1.prems"(2) _ st(3)] scanned_card [OF t(2)] "1.prems"(3,5) st(1,2) by metis
    have "ino_used (io t) dir = ino_used s dir" by (rule ino_used_scanned [OF t(2) "1.prems"(4)])
    then show ?thesis
      using u scanned_trans [OF t(2) u(2)] by (simp only: unf pe) (simp add: acc'_def ent_at_def)
  qed
qed

text \<open>A lookup finds the first entry of the name whose inode is in use, and makes an inode object for it.\<close>

definition table_fits :: "vfs_state \<Rightarrow> nat \<Rightarrow> u32 \<Rightarrow> bool" where
  "table_fits s dir ino \<longleftrightarrow> table_ok s ((vs_inodes s dir)\<lparr>i_ino := ino\<rparr>)"

lemma table_fits_scanned:
  assumes "scanned s t" "dir < vs_next s"
  shows "table_fits t dir = table_fits s dir"
proof -
  have "vs_sbs t = vs_sbs s" "vs_inodes t dir = vs_inodes s dir" using assms by (simp_all add: scanned_def)
  then show ?thesis
    by (simp only: fun_eq_iff table_fits_def table_ok_def base_sect_def group_desc_scanned [OF assms(1)] scanned_card [OF assms(1)]) simp
qed

lemma fill_ok:
  assumes "table_ok s (vs_inodes s p)"
  shows "\<exists>d f. ext2_fill_inode p s = Some (0, upd_inode p f (s\<lparr>vs_disk := d, vs_acache := (vs_acache s)(p := [])\<rparr>)) \<and> same_card (vs_disk s) d
    \<and> (\<forall>i. i_ino (f i) = i_ino i \<and> i_sb (f i) = i_sb i \<and> i_blksize (f i) = i_blksize i \<and> i_count (f i) = i_count i)"
proof -
  note t = table_okD [OF assms(1)]
  let ?off = "inode_offset (vs_sbs s (i_sb (vs_inodes s p))) (i_ino (vs_inodes s p))" and ?buf = "sectors (vs_disk s) (table_sect s (vs_inodes s p))"
  define f where "f = (\<lambda>n :: inode. n\<lparr>i_blocks := le32 (?off + 28) ?buf, i_size := le32 (?off + 4) ?buf, i_mode := ucast (le16 ?off ?buf),
    i_op := (if S_ISDIR (ucast (le16 ?off ?buf)) then Dir_ops else File_ops), i_page := map (\<lambda>i. le32 (?off + 40 + 4 * i) ?buf) [0..<EXT2_N_BLOCKS]\<rparr>)"
  have eq: "ext2_fill_inode p s = Some (0, upd_inode p f ((io s)\<lparr>vs_acache := (vs_acache s)(p := [])\<rparr>))"
    using t by (simp add: ext2_fill_inode_def Let_def f_def)
  have fx: "\<forall>i. i_ino (f i) = i_ino i \<and> i_sb (f i) = i_sb i \<and> i_blksize (f i) = i_blksize i \<and> i_count (f i) = i_count i" by (simp add: f_def)
  have "same_card (vs_disk s) (vs_disk (io s))" by (simp add: same_card_def) (simp add: io_def)
  moreover have st: "(io s)\<lparr>vs_acache := x\<rparr> = s\<lparr>vs_disk := vs_disk (io s), vs_acache := x\<rparr>" for x by (simp add: io_def)
  ultimately show ?thesis using fx unfolding eq st by blast
qed

definition found_inode :: "vfs_state \<Rightarrow> vfs_state \<Rightarrow> nat \<Rightarrow> nat \<Rightarrow> dirent \<Rightarrow> bool" where
  "found_inode s t dir p ent \<longleftrightarrow> vs_next s \<le> p \<and> p < vs_next t \<and> i_ino (vs_inodes t p) = fst ent \<and> i_sb (vs_inodes t p) = i_sb (vs_inodes s dir)
     \<and> i_blksize (vs_inodes t p) = i_blksize (vs_inodes s dir) \<and> i_count (vs_inodes t p) = 1
     \<and> i_op (vs_inodes t p) = (if fst (snd ent) = EXT2_FT_DIR then Dir_ops else File_create_ops) \<and> vs_acache t p = []"

lemma fill_found_ok:
  assumes "card_ok s" "dir < vs_next s" "table_fits s dir ino" "raw_inode dir ino s = (vs_next s, t)" "scanned s (io t)"
    and "vs_next t = vs_next s + 1" "i_ino (vs_inodes t (vs_next s)) = ino" "i_blksize (vs_inodes t (vs_next s)) = i_blksize (vs_inodes s dir)" "i_sb (vs_inodes t (vs_next s)) = i_sb (vs_inodes s dir)"
  shows "\<exists>u. fill_found dir (vs_next s) ft (io t) = Some u \<and> scanned s u \<and> found_inode s u dir (vs_next s) (ino, ft, name)"
proof -
  let ?p = "vs_next s"
  define t1 where "t1 = upd_inode ?p (\<lambda>i. i\<lparr>i_count := 1, i_blkbits := i_blkbits (vs_inodes t dir)\<rparr>) (io t)"
  have i1: "i_ino (vs_inodes t1 ?p) = ino" "i_blksize (vs_inodes t1 ?p) = i_blksize (vs_inodes s dir)" "i_sb (vs_inodes t1 ?p) = i_sb (vs_inodes s dir)" "i_count (vs_inodes t1 ?p) = 1"
    using assms(7-9) by (simp_all add: t1_def upd_inode_def)
  have st1: "scanned s t1" "vs_next t1 = vs_next s + 1" using assms(5,6) by (auto simp: scanned_def t1_def upd_inode_def)
  have "table_ok t1 (vs_inodes t1 ?p)"
    using assms(3) st1(1) scanned_card [OF st1(1)] i1
    by (simp add: table_fits_def table_ok_def base_sect_def Let_def group_desc_scanned [OF st1(1)] scanned_def)
  from fill_ok [OF this] obtain d f where f: "ext2_fill_inode ?p t1 = Some (0, upd_inode ?p f (t1\<lparr>vs_disk := d, vs_acache := (vs_acache t1)(?p := [])\<rparr>))"
    "same_card (vs_disk t1) d" "\<forall>i. i_ino (f i) = i_ino i \<and> i_sb (f i) = i_sb i \<and> i_blksize (f i) = i_blksize i \<and> i_count (f i) = i_count i" by blast
  define u where "u = (upd_inode ?p (\<lambda>i. i\<lparr>i_op := (if ft = EXT2_FT_DIR then Dir_ops else File_create_ops)\<rparr>)
      (upd_inode ?p f (t1\<lparr>vs_disk := d, vs_acache := (vs_acache t1)(?p := [])\<rparr>)))"
  define w where "w = u\<lparr>vs_acache := (vs_acache u)(?p := [])\<rparr>"
  have "fill_found dir ?p ft (io t) = Some w" using f(1) by (simp add: fill_found_def t1_def [symmetric] u_def w_def)
  moreover have "scanned s w" using st1(1) f(2) by (auto simp: scanned_def same_card_def w_def u_def upd_inode_def)
  moreover have "found_inode s w dir ?p (ino, ft, name)" using st1(2) f(3) i1 by (simp add: found_inode_def w_def u_def upd_inode_def)
  ultimately show ?thesis by blast
qed

lemma found_inode_later: "scanned s t \<Longrightarrow> dir < vs_next s \<Longrightarrow> found_inode t u dir p ent \<Longrightarrow> found_inode s u dir p ent"
  by (auto simp: found_inode_def scanned_def)

lemma scan_lookup_ok:
  assumes "chain_ok bs a buf" "List.length buf = bs" "card_ok s" "dir < vs_next s" "s_inodes_per_group (vs_sbs s (i_sb (vs_inodes s dir))) \<noteq> 0"
    and "\<forall>ent \<in> set (page_entries bs a buf). snd (snd ent) = name_of name \<longrightarrow> table_fits s dir (fst ent)"
  shows "\<exists>r t. scan_lookup dir name bs a buf s = Some (r, t) \<and> scanned s t
    \<and> (case find (\<lambda>ent. snd (snd ent) = name_of name \<and> ino_used s dir (fst ent)) (page_entries bs a buf) of
         None \<Rightarrow> r = None | Some ent \<Rightarrow> \<exists>p. r = Some p \<and> found_inode s t dir p ent)"
  using assms
proof (induction bs a buf arbitrary: s rule: page_entries.induct)
  case (1 bs a buf)
  show ?case
  proof (cases "a < bs")
    case False
    then show ?thesis using scanned_refl by (simp add: scan_lookup.simps [of dir name bs a] page_entries.simps [of bs a])
  next
    case True
    note c = chain_okD [OF "1.prems"(1) True]
    have pe: "page_entries bs a buf = ent_at a buf # page_entries bs (a + rec_at a buf) buf" using True c(1,4) by (subst page_entries.simps) simp
    have fits: "de_fits a buf" using c(6) "1.prems"(2) by (simp add: de_fits_def)
    have go: "\<not> (\<not> a < bs \<or> buf ! a = 0 \<or> rec_at a buf = 0)" using True c(1,4) by simp
    let ?same = "snd (snd (ent_at a buf)) = name_of name"
    let ?P = "\<lambda>s ent. snd (snd ent) = name_of name \<and> ino_used s dir (fst ent)"
    have cmp: "generic_compare_filename (de_qstr a buf) name = 0 \<longleftrightarrow> ?same" by (simp add: generic_compare_iff ent_at_def)
    have IH: "\<exists>r u. scan_lookup dir name bs (a + rec_at a buf) buf t = Some (r, u) \<and> scanned s u
        \<and> (case find (?P s) (page_entries bs (a + rec_at a buf) buf) of None \<Rightarrow> r = None | Some ent \<Rightarrow> \<exists>p. r = Some p \<and> found_inode s u dir p ent)"
      if t: "scanned s t" for t
    proof -
      have st: "vs_sbs t = vs_sbs s" "vs_inodes t dir = vs_inodes s dir" "dir < vs_next t" using t "1.prems"(4) by (auto simp: scanned_def)
      have eq: "ino_used t dir = ino_used s dir" "table_fits t dir = table_fits s dir"
        using ino_used_scanned [OF t "1.prems"(4)] table_fits_scanned [OF t "1.prems"(4)] by auto
      have tf: "\<forall>ent \<in> set (page_entries bs (a + rec_at a buf) buf). snd (snd ent) = name_of name \<longrightarrow> table_fits t dir (fst ent)"
        using "1.prems"(6) pe eq(2) by simp
      have ct: "card_ok t" "s_inodes_per_group (vs_sbs t (i_sb (vs_inodes t dir))) \<noteq> 0" using scanned_card [OF t] "1.prems"(3,5) st(1,2) by simp_all
      note ig = ct(2) and ct = ct(1)
      obtain r u where u: "scan_lookup dir name bs (a + rec_at a buf) buf t = Some (r, u)" "scanned t u"
        "case find (?P t) (page_entries bs (a + rec_at a buf) buf) of None \<Rightarrow> r = None | Some ent \<Rightarrow> \<exists>p. r = Some p \<and> found_inode t u dir p ent"
        using "1.IH" [OF go c(5) "1.prems"(2) ct st(3) ig tf] by (elim exE conjE) (rule that)
      show ?thesis using u scanned_trans [OF t u(2)] found_inode_later [OF t "1.prems"(4)] unfolding eq by (auto split: option.splits)
    qed
    obtain t where t: "raw_inode dir (de_ino a buf) s = (vs_next s, t)" "scanned s (io t)" "vs_next t = vs_next s + 1"
      "ext2_check_inode_bitmap (vs_inodes t (vs_next s)) t = Some (if ino_used s dir (de_ino a buf) then 1 else 0, io t)"
      "i_ino (vs_inodes t (vs_next s)) = de_ino a buf" "i_blksize (vs_inodes t (vs_next s)) = i_blksize (vs_inodes s dir)" "i_sb (vs_inodes t (vs_next s)) = i_sb (vs_inodes s dir)"
      using raw_step [OF "1.prems"(3-5)] by blast
    have unf: "scan_lookup dir name bs a buf s = (if \<not> ?same then scan_lookup dir name bs (a + rec_at a buf) buf s
        else if \<not> ino_used s dir (de_ino a buf) then scan_lookup dir name bs (a + rec_at a buf) buf (io t)
        else do { u \<leftarrow> fill_found dir (vs_next s) (de_file_type a buf) (io t); Some (Some (vs_next s), u) })"
      using True c(1,4) fits t(1,4) cmp by (subst scan_lookup.simps) simp
    consider "\<not> ?same" | "?same" "\<not> ino_used s dir (de_ino a buf)" | "?same" "ino_used s dir (de_ino a buf)" by blast
    then show ?thesis
    proof cases
      case 1
      then show ?thesis using IH [OF scanned_refl] unf pe by simp
    next
      case 2
      then have "\<not> ?P s (ent_at a buf)" by (simp add: ent_at_def)
      then show ?thesis using IH [OF t(2)] 2 unf pe by simp
    next
      case 3
      have "table_fits s dir (de_ino a buf)" using "1.prems"(6) pe 3(1) by (simp add: ent_at_def)
      then obtain u where u: "fill_found dir (vs_next s) (de_file_type a buf) (io t) = Some u" "scanned s u"
        "found_inode s u dir (vs_next s) (de_ino a buf, de_file_type a buf, name_of (de_qstr a buf))"
        using fill_found_ok [OF "1.prems"(3,4) _ t(1-3,5-7)] by blast
      have "?P s (ent_at a buf)" using 3 by (simp add: ent_at_def)
      then show ?thesis using u 3 unf pe by (simp add: ent_at_def)
    qed
  qed
qed

end
