(* ===== verification/Ext2DirProps.thy ===== *)
theory Ext2DirProps
  imports Ext2DirInv
begin

text \<open>Properties of EXT2 directories: a page as a list of entries, to which entries are added and in which names are looked up.\<close>

section \<open>Pages of a directory\<close>

text \<open>A page is either fresh, all zeros, or filled with entries.\<close>

definition dir_page_ok :: "nat \<Rightarrow> u8 list \<Rightarrow> bool" where
  "dir_page_ok bs buf \<longleftrightarrow> bs \<in> {1024, 2048, 4096} \<and> List.length buf = bs \<and> (chain_ok bs 0 buf \<or> buf = replicate bs 0)"

lemma fresh_page:
  assumes "bs \<in> {1024, 2048, 4096}"
  shows "page_entries bs 0 (replicate bs 0) = []" "gaps bs 0 (replicate bs 0) = []" "rec_at 0 (replicate bs 0) = 0" "\<not> chain_ok bs 0 (replicate bs 0)"
proof -
  have "le16 4 (replicate bs 0) = 0" using assms by (auto simp: le16_def get_u16_def)
  then show r: "rec_at 0 (replicate bs 0) = 0" by (simp add: de_rec_len_def)
  then show "page_entries bs 0 (replicate bs 0) = []" "gaps bs 0 (replicate bs 0) = []" by (simp_all add: page_entries.simps [of bs 0] gaps.simps [of bs 0])
  show "\<not> chain_ok bs 0 (replicate bs 0)" using chain_okD(1) [of bs 0 "replicate bs 0"] assms by auto
qed

lemma place_fresh:
  assumes "bs \<in> {1024, 2048, 4096}" "entry_ok e"
  shows "\<exists>buf. place_entry bs 0 e (replicate bs 0) = Some (Some buf) \<and> List.length buf = bs \<and> page_entries bs 0 buf = seen e [] \<and> (visible e \<longrightarrow> bs = 4096 \<longrightarrow> chain_ok bs 0 buf)
    \<and> gaps bs 0 buf = [4096 - EXT2_DIR_REC_LEN (List.length (e_name e))]"
proof -
  note e = entry_okD [OF assms(2)]
  have nl: "List.length (e_name e) \<le> 255" using byte_le_255 [of "e_name_len e"] e(1) by simp
  then have "0 + 8 + List.length (e_name (e\<lparr>e_rec_len := 4096\<rparr>)) \<le> List.length (replicate bs (0 :: u8))" using assms(1) by auto
  from put_entry_ok [OF _ this]
  obtain b where b: "put_entry 0 (e\<lparr>e_rec_len := 4096\<rparr>) (replicate bs 0) = Some b" "List.length b = bs" "ent_at 0 b = ent_of e" "de_rec_len 0 b = 4096"
    "de_name_len 0 b = e_name_len e" "b ! 0 = ucast (e_ino e)"
    using e(1) by (auto simp: ent_of_def)
  have r: "rec_at 0 b = 4096" by (simp add: b(4))
  have us: "used_at 0 b = EXT2_DIR_REC_LEN (List.length (e_name e))" by (simp add: used_at_def b(5) e(1))
  then have u: "used_at 0 b \<le> 4096" using rec_len_bounds(2) [of "List.length (e_name e)"] nl by simp
  have bs: "0 < bs" "8 \<le> bs" "bs \<le> 4096" using assms(1) by auto
  have pl: "place_entry bs 0 e (replicate bs 0) = Some (Some b)"
    using b(1) bs(1,2) fresh_page(3) [OF assms(1)] by (subst place_entry.simps) (simp add: Let_def)
  have "page_entries bs 4096 b = []" "gaps bs 4096 b = []" "chain_ok bs 4096 b" and c: "chain_ok 4096 4096 b"
    using bs(3) by (simp_all add: page_entries.simps [of bs 4096] chain_ok.simps [of bs 4096] chain_ok.simps [of 4096 4096] gaps.simps [of bs 4096])
  then have "page_entries bs 0 b = seen e []" "gaps bs 0 b = [4096 - EXT2_DIR_REC_LEN (List.length (e_name e))]"
    using bs(1) b(3,6) r us by (simp_all add: page_entries.simps [of bs 0] gaps.simps [of bs 0] seen_def visible_def)
  moreover have "visible e \<longrightarrow> bs = 4096 \<longrightarrow> chain_ok bs 0 b"
    using c b(6) r u by (subst chain_ok.simps) (simp add: visible_def)
  moreover note b(2)
  ultimately show ?thesis using pl by blast
qed

lemma place_page_ok:
  assumes "dir_page_ok bs buf" "entry_ok e"
  shows "\<exists>r. place_entry bs 0 e buf = Some r \<and> (r = None \<longleftrightarrow> gaps bs 0 buf \<noteq> [] \<and> (\<forall>g \<in> set (gaps bs 0 buf). g < unat (e_rec_len e)))
    \<and> (\<forall>buf'. r = Some buf' \<longrightarrow> List.length buf' = bs \<and> (\<exists>xs ys. page_entries bs 0 buf = xs @ ys \<and> page_entries bs 0 buf' = xs @ seen e ys)
         \<and> (visible e \<longrightarrow> bs = 4096 \<or> chain_ok bs 0 buf \<longrightarrow> chain_ok bs 0 buf'))"
proof (cases "chain_ok bs 0 buf")
  case True
  have bs: "0 < bs" "bs \<le> 4096" "List.length buf = bs" using assms(1) by (auto simp: dir_page_ok_def)
  have "gaps bs 0 buf \<noteq> []" using chain_okD(4) [OF True bs(1)] bs(1) by (subst gaps.simps) simp
  then show ?thesis using place_ok [OF True bs(3,2) assms(2)] True by auto
next
  case False
  then have bs: "bs \<in> {1024, 2048, 4096}" "buf = replicate bs 0" using assms(1) by (auto simp: dir_page_ok_def)
  obtain b where "place_entry bs 0 e buf = Some (Some b)" "List.length b = bs" "page_entries bs 0 b = seen e []" "visible e \<longrightarrow> bs = 4096 \<longrightarrow> chain_ok bs 0 b"
    using place_fresh [OF bs(1) assms(2)] bs(2) by auto
  then show ?thesis using fresh_page [OF bs(1)] False bs(2) by auto
qed

section \<open>Properties\<close>

text \<open>C12: adding an entry to a page of a directory always returns. The page is full exactly when it has entries and no gap behind one of them is large enough. Otherwise the list of entries that a scan of the page sees gets the new one at some place and loses none, and the page stays well formed unless it was fresh and has less than 4096 bytes; but when the number of the inode is a multiple of 256, the scan ends at that place, so that the new entry and all behind it are not seen.\<close>

theorem place_entry_correct:
  assumes "dir_page_ok bs buf" "entry_ok e"
  shows "\<exists>r. place_entry bs 0 e buf = Some r \<and> (r = None \<longleftrightarrow> gaps bs 0 buf \<noteq> [] \<and> (\<forall>g \<in> set (gaps bs 0 buf). g < unat (e_rec_len e)))
    \<and> (\<forall>buf'. r = Some buf' \<longrightarrow> (\<exists>xs ys. page_entries bs 0 buf = xs @ ys \<and> page_entries bs 0 buf' = xs @ (if e_ino e AND 255 = 0 then [] else ent_of e # ys))
         \<and> (e_ino e AND 255 \<noteq> 0 \<longrightarrow> bs = 4096 \<or> chain_ok bs 0 buf \<longrightarrow> dir_page_ok bs buf'))"
proof -
  have "unat (ucast (e_ino e) :: u8) = unat (take_bit 8 (e_ino e))" by (simp add: unsigned_ucast_eq unsigned_take_bit_eq)
  then have "(ucast (e_ino e) :: u8) = 0 \<longleftrightarrow> take_bit 8 (e_ino e) = 0" by (metis unat_eq_0)
  then have v: "visible e \<longleftrightarrow> e_ino e AND 255 \<noteq> 0" by (simp add: visible_def take_bit_eq_mask mask_eq_exp_minus_1)
  have sn: "seen e = (\<lambda>ys. if e_ino e AND 255 = 0 then [] else ent_of e # ys)" by (simp add: seen_def v fun_eq_iff)
  have bs: "bs \<in> {1024, 2048, 4096}" using assms(1) by (simp add: dir_page_ok_def)
  have d: "dir_page_ok bs buf'" if "List.length buf' = bs" "chain_ok bs 0 buf'" for buf' using that bs by (simp add: dir_page_ok_def)
  obtain r where "place_entry bs 0 e buf = Some r" "r = None \<longleftrightarrow> gaps bs 0 buf \<noteq> [] \<and> (\<forall>g \<in> set (gaps bs 0 buf). g < unat (e_rec_len e))"
    "\<forall>buf'. r = Some buf' \<longrightarrow> List.length buf' = bs
      \<and> (\<exists>xs ys. page_entries bs 0 buf = xs @ ys \<and> page_entries bs 0 buf' = xs @ (if e_ino e AND 255 = 0 then [] else ent_of e # ys))
      \<and> (e_ino e AND 255 \<noteq> 0 \<longrightarrow> bs = 4096 \<or> chain_ok bs 0 buf \<longrightarrow> chain_ok bs 0 buf')"
    using place_page_ok [OF assms, unfolded sn v] by blast
  then show ?thesis using d by blast
qed

theorem place_entry_correct_witness:
  "\<exists>buf. place_entry 4096 0 (new_entry 12 [97, 98] 1) (replicate 4096 0) = Some (Some buf) \<and> page_entries 4096 0 buf = [(12, 1, [97, 98])] \<and> dir_page_ok 4096 buf"
proof -
  have p: "dir_page_ok 4096 (replicate 4096 0)" by (simp add: dir_page_ok_def del: replicate.simps)
  have e: "entry_ok (new_entry 12 [97, 98] 1)" by (rule entry_okI) simp
  have v: "e_ino (new_entry 12 [97, 98] 1) AND 255 \<noteq> 0" by (simp add: new_entry_def)
  have o: "ent_of (new_entry 12 [97, 98] 1) = (12, 1, [97, 98])" by (simp add: ent_of_def new_entry_def)
  obtain r where r: "place_entry 4096 0 (new_entry 12 [97, 98] 1) (replicate 4096 0) = Some r" "r \<noteq> None"
    "\<forall>buf'. r = Some buf' \<longrightarrow> (\<exists>xs ys. page_entries 4096 0 (replicate 4096 0) = xs @ ys \<and> page_entries 4096 0 buf' = xs @ (12, 1, [97, 98]) # ys) \<and> dir_page_ok 4096 buf'"
    using place_entry_correct [OF p e] v fresh_page(2) [of 4096] unfolding o by auto
  then show ?thesis using fresh_page(1) [of 4096] by auto
qed

text \<open>An entry whose inode number is a multiple of 256 is stored where no scan sees it: its first byte is 0, which the loops take for the end of the directory, and the entries behind it in the page are lost with it.\<close>

theorem place_entry_hides:
  assumes "dir_page_ok bs buf" "entry_ok e" "e_ino e AND 255 = 0" "place_entry bs 0 e buf = Some (Some buf')"
  shows "\<exists>xs ys. page_entries bs 0 buf = xs @ ys \<and> page_entries bs 0 buf' = xs"
proof -
  have "(ucast (e_ino e) :: u8) = 0" using byte_mask [of "e_ino e"] assms(3) by simp
  then show ?thesis using place_page_ok [OF assms(1,2)] assms(4) by (auto simp: seen_def visible_def)
qed

text \<open>The name \<open>b\<close> for inode 256, into a page where \<open>a\<close> is.\<close>

theorem place_entry_hides_witness:
  "\<exists>buf buf'. place_entry 4096 0 (new_entry 12 [97] 1) (replicate 4096 0) = Some (Some buf) \<and> page_entries 4096 0 buf = [(12, 1, [97])]
    \<and> place_entry 4096 0 (new_entry 256 [98] 1) buf = Some (Some buf') \<and> (256, 1, [98]) \<notin> set (page_entries 4096 0 buf')"
proof -
  have e: "entry_ok (new_entry 12 [97] 1)" "entry_ok (new_entry 256 [98] 1)" by (rule entry_okI, simp)+
  have v: "visible (new_entry 12 [97] 1)" by (simp add: visible_def new_entry_def)
  obtain b where b: "place_entry 4096 0 (new_entry 12 [97] 1) (replicate 4096 0) = Some (Some b)" "List.length b = 4096"
    "page_entries 4096 0 b = [(12, 1, [97])]" "chain_ok 4096 0 b" "gaps 4096 0 b = [4096 - EXT2_DIR_REC_LEN 1]"
    using place_fresh [of 4096, OF _ e(1)] v by (auto simp: seen_def ent_of_def new_entry_def)
  have p: "dir_page_ok 4096 b" using b(2,4) by (simp add: dir_page_ok_def)
  obtain r where r: "place_entry 4096 0 (new_entry 256 [98] 1) b = Some r" "r \<noteq> None"
    using place_page_ok [OF p e(2)] b(5) by (auto simp: new_entry_def EXT2_DIR_REC_LEN_def)
  then obtain b' where b': "place_entry 4096 0 (new_entry 256 [98] 1) b = Some (Some b')" by auto
  obtain xs ys where x: "page_entries 4096 0 b = xs @ ys" "page_entries 4096 0 b' = xs"
    using place_entry_hides [OF p e(2) _ b'] by (auto simp: new_entry_def)
  then have "set (page_entries 4096 0 b') \<subseteq> set [(12, 1, [97])]" unfolding b(3) [symmetric] by simp
  then show ?thesis using b(1,3) b' by (intro exI [of _ b] exI [of _ b']) auto
qed

text \<open>A file system all of whose inodes are in use, with the directory 1, and a page with the entry of inode 12.\<close>

definition sample_dir :: vfs_state where
  "sample_dir = (sample_ext2 [10, 11])\<lparr>vs_next := 2,
     vs_disk := \<lparr>sectors = (\<lambda>k. if k = 4 then sample_gdt else replicate SECSIZE 255), sd_status = (\<lambda>_. 1), sd_ie = False\<rparr>\<rparr>"

lemma sample_dir_fields [simp]: "vs_next sample_dir = 2" "vs_inodes sample_dir i = sample_inode [10, 11]" "vs_sbs sample_dir b = sample_sb"
  "sectors (vs_disk sample_dir) k = (if k = 4 then sample_gdt else replicate SECSIZE 255)" "card_ok sample_dir"
  by (simp_all add: sample_dir_def disk_ok_def SECSIZE_def del: replicate.simps)

lemma sample_dir_desc: "group_desc sample_sb (group_of sample_sb 12 False) sample_dir = take 32 sample_gdt"
  by (simp add: group_desc_def group_of_def gdt_sect_def gdt_off_def GROUPS_PER_SECT_def)

lemma sample_dir_used: "ino_used sample_dir 1 12"
proof -
  have "bg_inode_bitmap (take 32 sample_gdt) = le32 4 sample_gdt" unfolding bg_inode_bitmap_def by (rule le32_cong) simp
  also have "\<dots> = 0" by (simp add: sample_gdt_def le32_set_other le32_set16_other) (simp add: le32_def get_u32_def)
  finally have z: "bitmap_sect sample_sb (sample_inode [10, 11]) (take 32 sample_gdt) = 0" by (simp add: bitmap_sect_def)
  have "[0..<8] = 0 # [1..<8 :: nat]" by (simp add: upt_conv_Cons)
  then have "block_bytes (vs_disk sample_dir) 0 8 ! 1 = 255" by (simp only: block_bytes_def) (simp add: nth_append SECSIZE_def del: replicate.simps upt_Suc)
  moreover have "(11 :: u32) div 8 = 1" "(11 :: u32) mod 8 = 3" by (simp_all add: word_unat_eq_iff unat_div unat_mod)
  ultimately show ?thesis by (simp add: ino_used_def Let_def sample_dir_desc z get_bit_def inode_bit_def)
qed

lemma sample_dir_fits: "table_fits sample_dir 1 12"
proof -
  have "bg_block_bitmap (take 32 sample_gdt) = le32 0 sample_gdt" unfolding bg_block_bitmap_def by (rule le32_cong) simp
  then have "bg_block_bitmap (take 32 sample_gdt) = 3" by (simp add: sample_gdt_def le32_set)
  then show ?thesis by (simp add: table_fits_def table_ok_def base_sect_def Let_def sample_dir_desc SECTOR_SHIFT_def inodes_per_sect_def)
qed

lemma sample_page:
  obtains buf where "place_entry 4096 0 (new_entry 12 [97, 98] 1) (replicate 4096 0) = Some (Some buf)" "List.length buf = 4096"
    "page_entries 4096 0 buf = [(12, 1, [97, 98])]" "chain_ok 4096 0 buf"
proof -
  have "entry_ok (new_entry 12 [97, 98] 1)" by (rule entry_okI) simp
  from place_fresh [OF _ this, of 4096] that show thesis by (auto simp: seen_def visible_def ent_of_def new_entry_def)
qed

lemma find_append_hit: "\<forall>x \<in> set xs. \<not> P x \<Longrightarrow> P y \<Longrightarrow> find P (xs @ y # ys) = Some y"
  by (induction xs) auto

text \<open>Listing a page of a directory returns, in order, the entries of the page whose inodes are marked in the inode bit map on the card, and changes neither the cards' sectors nor an existing inode.\<close>

theorem scan_readdir_correct:
  assumes "chain_ok bs 0 buf" "List.length buf = bs" "card_ok s" "dir < vs_next s" "s_inodes_per_group (vs_sbs s (i_sb (vs_inodes s dir))) \<noteq> 0"
    and "List.length acc + List.length (page_entries bs 0 buf) \<le> MAX_DIRENT_NUM"
  shows "\<exists>t. scan_readdir dir bs 0 buf acc s = Some (acc @ filter (\<lambda>e. ino_used s dir (fst e)) (page_entries bs 0 buf), t) \<and> scanned s t"
  by (rule scan_readdir_ok [OF assms])

theorem scan_readdir_correct_witness: "\<exists>buf t. scan_readdir 1 4096 0 buf [] sample_dir = Some ([(12, 1, [97, 98])], t)"
proof -
  obtain buf where b: "List.length buf = 4096" "page_entries 4096 0 buf = [(12, 1, [97, 98])]" "chain_ok 4096 0 buf" using sample_page by blast
  have "s_inodes_per_group (vs_sbs sample_dir (i_sb (vs_inodes sample_dir 1))) \<noteq> 0" "1 < vs_next sample_dir" by simp_all
  from scan_readdir_correct [OF b(3,1) sample_dir_fields(5) this(2,1), of "[]"] show ?thesis
    using sample_dir_used by (auto simp: b(2) MAX_DIRENT_NUM_def)
qed



end
