(* ===== verification/Mounts.thy ===== *)
theory Mounts
  imports Namei
begin

text \<open>
  Registered file system types (\<open>kernel/vfs/filesystems.c\<close>) and mounts (\<open>namespace.c\<close>, \<open>alloc_vfsmnt\<close> of \<open>vfsmount.c\<close>).
  Strings are compared as lists of bytes: \<open>kernel_strcmp\<close> is 0 exactly for equal ones (\<open>Utils.kernel_strcmp_zero\<close>).
\<close>

section \<open>File system types\<close>

definition EBUSY :: u32 where "EBUSY = 16"
definition ENODEV :: u32 where "ENODEV = 19"
definition ELOOP :: u32 where "ELOOP = 62"
definition MS_MOVE :: u32 where "MS_MOVE = 2"

definition upd_fstype :: "nat \<Rightarrow> (file_system_type \<Rightarrow> file_system_type) \<Rightarrow> name_state \<Rightarrow> name_state" where
  "upd_fstype p f s = s\<lparr>ns_fstypes := (ns_fstypes s)(p := f (ns_fstypes s p))\<rparr>"

text \<open>The single-linked list of types: the type with a name, if there is one.\<close>

definition find_filesystem :: "u8 list \<Rightarrow> name_state \<Rightarrow> nat option" where
  "find_filesystem name s = find (\<lambda>p. fst_name (ns_fstypes s p) = name) (file_systems s)"

definition register_filesystem :: "nat \<Rightarrow> name_state \<Rightarrow> nat \<times> name_state" where
  "register_filesystem fs s =
     (if fs = NULL \<or> fst_next (ns_fstypes s fs) \<noteq> NULL then (fs, s)
      else let s = upd_fstype fs (\<lambda>t. t\<lparr>fs_supers := []\<rparr>) s
           in case find_filesystem (fst_name (ns_fstypes s fs)) s of
                Some p \<Rightarrow> (p, s)
              | None \<Rightarrow> (fs, (if file_systems s = [] then s else upd_fstype (List.last (file_systems s)) (\<lambda>t. t\<lparr>fst_next := fs\<rparr>) s)
                           \<lparr>file_systems := file_systems s @ [fs]\<rparr>))"

text \<open>The type before \<open>fs\<close> in the list then points to the one behind it.\<close>

definition unregister_filesystem :: "nat \<Rightarrow> name_state \<Rightarrow> u32 \<times> name_state" where
  "unregister_filesystem fs s =
     (if fs \<in> set (file_systems s) then
        let before_fs = takeWhile (\<lambda>p. p \<noteq> fs) (file_systems s);
            nxt = fst_next (ns_fstypes s fs);
            s = (if before_fs = [] then s else upd_fstype (List.last before_fs) (\<lambda>t. t\<lparr>fst_next := nxt\<rparr>) s);
            s = upd_fstype fs (\<lambda>t. t\<lparr>fst_next := NULL\<rparr>) s
        in (0, s\<lparr>file_systems := remove1 fs (file_systems s)\<rparr>)
      else (- EINVAL, s))"

definition get_fs_type :: "u8 list \<Rightarrow> name_state \<Rightarrow> nat option" where
  "get_fs_type name s = find_filesystem name s"

definition get_sb :: "nat \<Rightarrow> u8 list \<Rightarrow> name_state \<Rightarrow> u32 + nat" where
  "get_sb fs name s = (case find (\<lambda>sb. ns_sb_name s sb = name) (fs_supers (ns_fstypes s fs)) of None \<Rightarrow> Inl (- EINVAL) | Some sb \<Rightarrow> Inr sb)"

section \<open>Mounts\<close>

definition upd_mnt :: "nat \<Rightarrow> (vfsmount \<Rightarrow> vfsmount) \<Rightarrow> name_state \<Rightarrow> name_state" where
  "upd_mnt p f s = s\<lparr>ns_mnts := (ns_mnts s)(p := map_option f (ns_mnts s p))\<rparr>"

definition alloc_vfsmnt :: "name_state \<Rightarrow> nat \<times> name_state" where
  "alloc_vfsmnt s =
     (let p = ns_mnext s
      in (p, s\<lparr>ns_mnext := p + 1, ns_mnts := (ns_mnts s)(p \<mapsto> \<lparr>mnt_parent = NULL, mnt_mountpoint = NULL, mnt_root = NULL, mnt_sb = NULL, mnt_mounts = []\<rparr>)\<rparr>))"

definition path_release :: "nameidata \<Rightarrow> name_state \<Rightarrow> name_state option" where
  "path_release nd s = dput (nd_dentry nd) s"

text \<open>The result is the old place of the mount.\<close>

definition detach_mnt :: "nat \<Rightarrow> nameidata \<Rightarrow> name_state \<Rightarrow> (nameidata \<times> name_state) option" where
  "detach_mnt mnt old_nd s = do {
     m \<leftarrow> ns_mnts s mnt;
     let old_nd = old_nd\<lparr>nd_dentry := mnt_mountpoint m, nd_mnt := mnt_parent m\<rparr>;
     s \<leftarrow> modify_dentry (mnt_mountpoint m) (\<lambda>d. d\<lparr>d_mounted := d_mounted d - 1\<rparr>) s;
     s \<leftarrow> Some (upd_mnt (mnt_parent m) (\<lambda>p. p\<lparr>mnt_mounts := remove1 mnt (mnt_mounts p)\<rparr>) s);
     s \<leftarrow> Some (upd_mnt mnt (\<lambda>m. m\<lparr>mnt_parent := mnt, mnt_mountpoint := mnt_root m\<rparr>) s);
     Some (old_nd, s\<lparr>ns_mnt_ring := remove1 mnt (ns_mnt_ring s)\<rparr>)
   }"

text \<open>\<open>list_add\<close> behind a node of the ring.\<close>

definition ring_add :: "nat \<Rightarrow> nat \<Rightarrow> nat list \<Rightarrow> nat list" where
  "ring_add new old l = takeWhile (\<lambda>m. m \<noteq> old) l @ [old, new] @ tl (dropWhile (\<lambda>m. m \<noteq> old) l)"

text \<open>A mount is attached to one in the ring.\<close>

definition attach_mnt :: "nat \<Rightarrow> nameidata \<Rightarrow> name_state \<Rightarrow> name_state option" where
  "attach_mnt mnt nd s = do {
     _ \<leftarrow> ns_mnts s mnt;
     _ \<leftarrow> ns_mnts s (nd_mnt nd);
     _ \<leftarrow> c_guard (nd_mnt nd \<in> set (ns_mnt_ring s));
     s \<leftarrow> dget (nd_dentry nd) s;
     s \<leftarrow> Some (upd_mnt mnt (\<lambda>m. m\<lparr>mnt_parent := nd_mnt nd, mnt_mountpoint := nd_dentry nd\<rparr>) s);
     s \<leftarrow> Some (s\<lparr>ns_mnt_ring := ring_add mnt (nd_mnt nd) (ns_mnt_ring s)\<rparr>);
     s \<leftarrow> Some (upd_mnt (nd_mnt nd) (\<lambda>m. m\<lparr>mnt_mounts := mnt_mounts m @ [mnt]\<rparr>) s);
     modify_dentry (nd_dentry nd) (\<lambda>d. d\<lparr>d_mounted := d_mounted d + 1\<rparr>) s
   }"

definition do_kern_mount :: "u8 list \<Rightarrow> u8 list \<Rightarrow> name_state \<Rightarrow> ((u32 + nat) \<times> name_state) option" where
  "do_kern_mount fstype dev_name s =
     (case get_fs_type fstype s of
        None \<Rightarrow> Some (Inl (- ENODEV), s)
      | Some ty \<Rightarrow> do {
          let (mnt, s) = alloc_vfsmnt s;
          case get_sb ty dev_name s of
            Inl err \<Rightarrow> Some (Inl err, s\<lparr>ns_mnts := (ns_mnts s)(mnt := None)\<rparr>)
          | Inr sb \<Rightarrow> do {
              s \<leftarrow> dget (ns_sb_root s sb) s;
              Some (Inr mnt, upd_mnt mnt (\<lambda>m. m\<lparr>mnt_sb := sb, mnt_parent := mnt, mnt_root := ns_sb_root s sb, mnt_mountpoint := ns_sb_root s sb\<rparr>) s)
            }
        })"

definition graft_tree :: "nat \<Rightarrow> nameidata \<Rightarrow> name_state \<Rightarrow> (u32 \<times> name_state) option" where
  "graft_tree mnt nd s = do { s \<leftarrow> attach_mnt mnt nd s; Some (0, s) }"

text \<open>A mount point that carries a mount already is followed to the root of what is mounted there.\<close>

definition follow_nd :: "nameidata \<Rightarrow> name_state \<Rightarrow> (nameidata \<times> name_state) option" where
  "follow_nd nd s = do { (_, mnt, dentry, s) \<leftarrow> follow_mount 0 (nd_mnt nd) (nd_dentry nd) s; Some (nd\<lparr>nd_mnt := mnt, nd_dentry := dentry\<rparr>, s) }"

definition do_add_mount :: "nat \<Rightarrow> nameidata \<Rightarrow> name_state \<Rightarrow> (u32 \<times> nameidata \<times> name_state) option" where
  "do_add_mount newmnt nd s = do {
     (nd, s) \<leftarrow> follow_nd nd s;
     m \<leftarrow> ns_mnts s (nd_mnt nd);
     n \<leftarrow> ns_mnts s newmnt;
     if mnt_sb m = mnt_sb n \<and> mnt_root m = nd_dentry nd then Some (- EBUSY, nd, s)
     else do { (err, s) \<leftarrow> graft_tree newmnt nd s; Some (err, nd, s) }
   }"

definition do_new_mount :: "nameidata \<Rightarrow> u8 list \<Rightarrow> u8 list \<Rightarrow> name_state \<Rightarrow> (u32 \<times> nameidata \<times> name_state) option" where
  "do_new_mount nd type_page dev_name s = do {
     (r, s) \<leftarrow> do_kern_mount type_page dev_name s;
     case r of Inl err \<Rightarrow> Some (err, nd, s) | Inr mnt \<Rightarrow> do_add_mount mnt nd s
   }"

text \<open>Whether \<open>old\<close> is met on the way up from \<open>p\<close>; the top, a mount that is its own parent, is not compared.\<close>

partial_function (option) mount_above :: "nat \<Rightarrow> nat \<Rightarrow> name_state \<Rightarrow> bool option" where
  "mount_above p old s = do {
     m \<leftarrow> ns_mnts s p;
     if mnt_parent m = p then Some False else if p = old then Some True else mount_above (mnt_parent m) old s
   }"

definition do_move_mount :: "lookup_fun \<Rightarrow> nameidata \<Rightarrow> u8 list \<Rightarrow> nameidata \<Rightarrow> name_state \<Rightarrow> (u32 \<times> nameidata \<times> name_state) option" where
  "do_move_mount lookup nd old_name raw s =
     (if old_name = [] then Some (- EINVAL, nd, s)
      else do {
        (err, old_nd, s) \<leftarrow> path_lookup lookup old_name LOOKUP_FOLLOW raw s;
        if err \<noteq> 0 then Some (err, nd, s)
        else do {
          (nd, s) \<leftarrow> follow_nd nd s;
          m \<leftarrow> ns_mnts s (nd_mnt old_nd);
          if nd_dentry old_nd \<noteq> mnt_root m \<or> mnt_parent m = nd_mnt old_nd then do { s \<leftarrow> path_release old_nd s; Some (- EINVAL, nd, s) }
          else do {
            above \<leftarrow> mount_above (nd_mnt nd) (nd_mnt old_nd) s;
            if above then do { s \<leftarrow> path_release old_nd s; Some (- ELOOP, nd, s) }
            else do {
              (parent_nd, s) \<leftarrow> detach_mnt (nd_mnt old_nd) raw s;
              s \<leftarrow> attach_mnt (nd_mnt old_nd) nd s;
              s \<leftarrow> path_release parent_nd s;
              s \<leftarrow> path_release old_nd s;
              Some (0, nd, s)
            }
          }
        }
      })"

definition do_mount :: "lookup_fun \<Rightarrow> u8 list \<Rightarrow> u8 list \<Rightarrow> u8 list \<Rightarrow> u32 \<Rightarrow> nameidata \<Rightarrow> name_state \<Rightarrow> (u32 \<times> name_state) option" where
  "do_mount lookup dev_name dir_name type_page flags raw s =
     (if dir_name = [] then Some (- EINVAL, s)
      else do {
        (err, nd, s) \<leftarrow> path_lookup lookup dir_name LOOKUP_FOLLOW raw s;
        if err \<noteq> 0 then Some (err, s)
        else do {
          (err, nd, s) \<leftarrow> (if flags AND MS_MOVE \<noteq> 0 then do_move_mount lookup nd dev_name raw s else do_new_mount nd type_page dev_name s);
          s \<leftarrow> path_release nd s;
          Some (err, s)
        }
      })"

section \<open>Unmounting\<close>

text \<open>The mount after \<open>p\<close> in the tree below \<open>root\<close>, depth first; the ring of children of a parent ends at its head.\<close>

partial_function (option) next_up :: "nat \<Rightarrow> nat \<Rightarrow> name_state \<Rightarrow> nat option option" where
  "next_up p root s =
     (if p = root then Some None
      else do {
        m \<leftarrow> ns_mnts s p;
        par \<leftarrow> ns_mnts s (mnt_parent m);
        _ \<leftarrow> c_guard (p \<in> set (mnt_mounts par));
        case dropWhile (\<lambda>c. c \<noteq> p) (mnt_mounts par) of
          _ # c # cs \<Rightarrow> Some (Some c)
        | _ \<Rightarrow> next_up (mnt_parent m) root s
      })"

definition next_mnt :: "nat \<Rightarrow> nat \<Rightarrow> name_state \<Rightarrow> nat option option" where
  "next_mnt p root s = do {
     m \<leftarrow> ns_mnts s p;
     case mnt_mounts m of c # cs \<Rightarrow> Some (Some c) | [] \<Rightarrow> next_up p root s
   }"

text \<open>The mounts below \<open>root\<close> leave the ring for the list \<open>kill\<close>, each before the ones found earlier.\<close>

partial_function (option) collect_kill :: "nat \<Rightarrow> nat \<Rightarrow> nat list \<Rightarrow> name_state \<Rightarrow> (nat list \<times> name_state) option" where
  "collect_kill p root kill s = do {
     _ \<leftarrow> ns_mnts s p;
     s \<leftarrow> Some (s\<lparr>ns_mnt_ring := remove1 p (ns_mnt_ring s)\<rparr>);
     r \<leftarrow> next_mnt p root s;
     case r of None \<Rightarrow> Some (p # kill, s) | Some q \<Rightarrow> collect_kill q root (p # kill) s
   }"

definition mntput :: "nat \<Rightarrow> name_state \<Rightarrow> name_state option" where
  "mntput mnt s = (if mnt = NULL then Some s else do { m \<leftarrow> ns_mnts s mnt; s \<leftarrow> dput (mnt_root m) s; Some (s\<lparr>ns_mnts := (ns_mnts s)(mnt := None)\<rparr>) })"

text \<open>
  A mount that is its own parent stays in \<open>kill\<close> when it is freed, and the loop takes it again: no result. The others leave the
  list through \<open>detach_mnt\<close>.
\<close>

fun kill_loop :: "nat list \<Rightarrow> nameidata \<Rightarrow> name_state \<Rightarrow> name_state option" where
  "kill_loop [] raw s = Some s"
| "kill_loop (mnt # kill) raw s = do {
     m \<leftarrow> ns_mnts s mnt;
     _ \<leftarrow> c_guard (mnt_parent m \<noteq> mnt);
     (old_nd, s) \<leftarrow> detach_mnt mnt raw s;
     s \<leftarrow> path_release old_nd s;
     s \<leftarrow> mntput mnt s;
     kill_loop kill raw s
   }"

definition umount_tree :: "nat \<Rightarrow> nameidata \<Rightarrow> name_state \<Rightarrow> name_state option" where
  "umount_tree mnt raw s = do { (kill, s) \<leftarrow> collect_kill mnt mnt [] s; kill_loop kill raw s }"

text \<open>A failed lookup is followed by another release of its path.\<close>

definition do_umount :: "lookup_fun \<Rightarrow> u8 list \<Rightarrow> nameidata \<Rightarrow> name_state \<Rightarrow> (u32 \<times> name_state) option" where
  "do_umount lookup dir_name raw s = do {
     (err, nd, s) \<leftarrow> path_lookup lookup dir_name LOOKUP_FOLLOW raw s;
     if IS_ERR_VALUE err then do { s \<leftarrow> path_release nd s; Some (err, s) }
     else do {
       m \<leftarrow> ns_mnts s (nd_mnt nd);
       if nd_dentry nd \<noteq> mnt_root m then do { s \<leftarrow> path_release nd s; Some (err, s) }
       else do {
         s \<leftarrow> umount_tree (nd_mnt nd) raw s;
         s \<leftarrow> path_release nd s;
         Some (err, s)
       }
     }
   }"

end
