(* ===== verification/VfsCalls.thy ===== *)
theory VfsCalls
  imports Mounts Ext2Dir FileIO
begin

text \<open>
  The calls that the shell makes, \<open>kernel/vfs/usr.c\<close>: opening, reading and writing, and the commands on files and directories.
  The operations of the file systems are arguments where the code calls them through pointers; those on open files are the
  generic ones of \<open>read_write.c\<close>, which the file operations of EXT2 name. What is printed is a result.
\<close>

definition EPERM :: u32 where "EPERM = 1"
definition EBADF :: u32 where "EBADF = 9"
definition EEXIST :: u32 where "EEXIST = 17"
definition S_ISVTX :: u32 where "S_ISVTX = 0x200"
definition O_RDONLY :: u32 where "O_RDONLY = 0"

section \<open>Open files\<close>

definition vfs_open :: "lookup_fun \<Rightarrow> create_fun \<Rightarrow> u8 list \<Rightarrow> u32 \<Rightarrow> u32 \<Rightarrow> nameidata \<Rightarrow> name_state \<Rightarrow> ((u32 + vfs_file) \<times> name_state) option" where
  "vfs_open lookup create filename flags mode raw s = do {
     let namei_flags = (if (flags + 1) AND O_ACCMODE \<noteq> 0 then flags + 1 else flags);
     (err, nd, s) \<leftarrow> open_namei lookup create filename namei_flags mode raw s;
     if err = 0 then do { f \<leftarrow> dentry_open (nd_dentry nd) (nd_mnt nd) flags s; Some (Inr f, s) }
     else Some (Inl err, s)
   }"

text \<open>The inode of an open file.\<close>

definition file_inode :: "vfs_file \<Rightarrow> name_state \<Rightarrow> nat option" where
  "file_inode f s = do { d \<leftarrow> ns_dents s (f_dentry f); _ \<leftarrow> c_guard (d_inode d \<noteq> NULL); Some (d_inode d) }"

definition vfs_read :: "vfs_file \<Rightarrow> u8 list \<Rightarrow> u32 \<Rightarrow> u32 \<Rightarrow> name_state \<Rightarrow> (u32 \<times> u8 list \<times> u32 \<times> vfs_file \<times> name_state) option" where
  "vfs_read f buf cnt pos s =
     (if f_mode f AND FMODE_READ = 0 then Some (- EBADF, buf, pos, f, s)
      else do {
        host \<leftarrow> file_inode f s;
        (n, buf, pos, fs) \<leftarrow> generic_file_read host buf cnt pos (ns_fs s);
        Some (n, buf, pos, f\<lparr>f_pos := pos\<rparr>, s\<lparr>ns_fs := fs\<rparr>)
      })"

definition vfs_write :: "vfs_file \<Rightarrow> u8 list \<Rightarrow> u32 \<Rightarrow> u32 \<Rightarrow> name_state \<Rightarrow> (u32 \<times> u32 \<times> vfs_file \<times> name_state) option" where
  "vfs_write f buf cnt pos s =
     (if f_mode f AND FMODE_WRITE = 0 then Some (- EBADF, pos, f, s)
      else do {
        host \<leftarrow> file_inode f s;
        (n, pos, fs) \<leftarrow> generic_file_write host buf cnt pos (ns_fs s);
        Some (n, pos, f\<lparr>f_pos := pos\<rparr>, s\<lparr>ns_fs := fs\<rparr>)
      })"

text \<open>The dentry keeps the reference that opening the file took.\<close>

definition vfs_close :: "vfs_file \<Rightarrow> name_state \<Rightarrow> (u32 \<times> name_state) option" where
  "vfs_close f s = do {
     host \<leftarrow> file_inode f s;
     (err, fs) \<leftarrow> generic_file_flush host (ns_fs s);
     Some (err, s\<lparr>ns_fs := fs\<rparr>)
   }"

section \<open>Commands on files\<close>

text \<open>What a string prints: its bytes before the first 0.\<close>

definition c_string :: "u8 list \<Rightarrow> u8 list" where
  "c_string = takeWhile (\<lambda>c. c \<noteq> 0)"

text \<open>
  What \<open>kernel_printf\<close> is given: strings, and numbers for \<open>%d\<close>. The message for an error code is left out.
\<close>

datatype printed = Print_str "u8 list" | Print_int u32

definition cat_size :: "u32 \<Rightarrow> printed list" where
  "cat_size n = [Print_str [102, 105, 108, 101, 95, 115, 105, 122, 101, 58, 32], Print_int n, Print_str [10]]"

definition vfs_cat :: "lookup_fun \<Rightarrow> create_fun \<Rightarrow> u8 list \<Rightarrow> nameidata \<Rightarrow> name_state \<Rightarrow> (u32 \<times> printed list \<times> name_state) option" where
  "vfs_cat lookup create path raw s = do {
     (r, s) \<leftarrow> vfs_open lookup create path O_RDONLY 0 raw s;
     case r of
       Inl err \<Rightarrow> Some (err, [], s)
     | Inr f \<Rightarrow> do {
         host \<leftarrow> file_inode f s;
         let file_size = i_size (inode_of s host);
         (n, buf, pos, f, s) \<leftarrow> vfs_read f (replicate (unat (file_size + 1)) 0) file_size 0 s;
         if n \<noteq> file_size then Some (1, cat_size file_size, s)
         else do {
           _ \<leftarrow> c_guard (unat file_size < List.length buf);
           let out = cat_size file_size @ [Print_str (c_string (buf[unat file_size := 0])), Print_str [10]];
           (err, s) \<leftarrow> vfs_close f s;
           Some (err, out, s)
         }
       }
   }"

definition vfs_cd :: "lookup_fun \<Rightarrow> u8 list \<Rightarrow> nameidata \<Rightarrow> name_state \<Rightarrow> (u32 \<times> name_state) option" where
  "vfs_cd lookup path raw s = do {
     (err, nd, s) \<leftarrow> path_lookup lookup path LOOKUP_DIRECTORY raw s;
     if IS_ERR_VALUE err then Some (0, s) else Some (0, s\<lparr>pwd_dentry := nd_dentry nd, pwd_mnt := nd_mnt nd\<rparr>)
   }"

text \<open>The flag \<open>LOOKUP_DIRECTORY\<close> is passed as open flag, where it means something else.\<close>

definition vfs_ls :: "lookup_fun \<Rightarrow> create_fun \<Rightarrow> u8 list \<Rightarrow> nameidata \<Rightarrow> name_state \<Rightarrow> (u32 \<times> dirent list \<times> name_state) option" where
  "vfs_ls lookup create path raw s = do {
     (r, s) \<leftarrow> vfs_open lookup create (if path = [] then [46] else path) LOOKUP_DIRECTORY 0 raw s;
     case r of
       Inl err \<Rightarrow> Some (err, [], s)
     | Inr f \<Rightarrow> do {
         host \<leftarrow> file_inode f s;
         (ents, fs) \<leftarrow> ext2_readdir host (ns_fs s);
         Some (0, ents, s\<lparr>ns_fs := fs\<rparr>)
       }
   }"

definition vfs_rm :: "lookup_fun \<Rightarrow> (nat \<Rightarrow> name_state \<Rightarrow> (u32 \<times> name_state) option) \<Rightarrow> u8 list \<Rightarrow> nameidata \<Rightarrow> name_state \<Rightarrow> (u32 \<times> name_state) option" where
  "vfs_rm lookup delete_inode path raw s = do {
     (err, nd, s) \<leftarrow> path_lookup lookup path 0 raw s;
     if IS_ERR_VALUE err then Some (err, s)
     else do {
       d \<leftarrow> ns_dents s (nd_dentry nd);
       _ \<leftarrow> c_guard (d_inode d \<noteq> NULL);
       (err, s) \<leftarrow> delete_inode (nd_dentry nd) s;
       if err \<noteq> 0 then Some (err, s)
       else do { s \<leftarrow> modify_dentry (nd_dentry nd) (\<lambda>d. d\<lparr>d_inode := NULL\<rparr>) s; Some (0, s) }
     }
   }"

section \<open>Creating\<close>

definition lookup_create :: "lookup_fun \<Rightarrow> nameidata \<Rightarrow> bool \<Rightarrow> name_state \<Rightarrow> ((u32 + nat) \<times> name_state) option" where
  "lookup_create lookup nd is_dir s =
     (if nd_last_type nd \<noteq> LAST_NORM then Some (Inl (- EEXIST), s)
      else do {
        (r, s) \<leftarrow> lookup_hash_raw lookup (nd_last nd) (nd_dentry nd) None s;
        case r of
          Inl err \<Rightarrow> Some (Inl err, s)
        | Inr dentry \<Rightarrow>
            if \<not> is_dir \<and> q_name (nd_last nd) (unat (q_len (nd_last nd))) \<noteq> 0 then do {
              d \<leftarrow> ns_dents s dentry;
              if d_inode d = NULL then do { s \<leftarrow> dput dentry s; Some (Inl (- ENOENT), s) } else Some (Inr dentry, s)
            } else Some (Inr dentry, s)
      })"

definition vfs_mkdir :: "create_fun \<Rightarrow> nat \<Rightarrow> nat \<Rightarrow> u32 \<Rightarrow> name_state \<Rightarrow> (u32 \<times> name_state) option" where
  "vfs_mkdir mkdir dir dentry mode s = do {
     _ \<leftarrow> c_guard (dir \<noteq> NULL);
     if i_op (inode_of s dir) \<noteq> Dir_ops then Some (- EPERM, s) else mkdir dir dentry (mode AND S_ISVTX) s
   }"

definition vfs_create :: "create_fun \<Rightarrow> nat \<Rightarrow> nat \<Rightarrow> u32 \<Rightarrow> name_state \<Rightarrow> (u32 \<times> name_state) option" where
  "vfs_create create dir dentry mode s = do {
     _ \<leftarrow> c_guard (dir \<noteq> NULL);
     if i_op (inode_of s dir) \<notin> {Dir_ops, File_create_ops} then Some (- EPERM, s) else create dir dentry (mode AND S_ISVTX) s
   }"

text \<open>\<open>sys_mkdir\<close> and \<open>sys_create\<close> differ in the operation they call; errors are printed and 0 is returned.\<close>

definition sys_make :: "lookup_fun \<Rightarrow> (nat \<Rightarrow> nat \<Rightarrow> u32 \<Rightarrow> name_state \<Rightarrow> (u32 \<times> name_state) option) \<Rightarrow> u8 list \<Rightarrow> u32 \<Rightarrow> nameidata \<Rightarrow> name_state
    \<Rightarrow> (u32 \<times> name_state) option" where
  "sys_make lookup op path mode raw s = do {
     (err, nd, s) \<leftarrow> path_lookup lookup path LOOKUP_PARENT raw s;
     if err \<noteq> 0 then Some (0, s)
     else do {
       (r, s) \<leftarrow> lookup_create lookup nd True s;
       s \<leftarrow> (case r of
           Inl err \<Rightarrow> Some s
         | Inr dentry \<Rightarrow> do {
             d \<leftarrow> ns_dents s (nd_dentry nd);
             (err, s) \<leftarrow> op (d_inode d) dentry mode s;
             dput dentry s
           });
       s \<leftarrow> path_release nd s;
       Some (0, s)
     }
   }"

definition sys_mkdir :: "lookup_fun \<Rightarrow> create_fun \<Rightarrow> u8 list \<Rightarrow> u32 \<Rightarrow> nameidata \<Rightarrow> name_state \<Rightarrow> (u32 \<times> name_state) option" where
  "sys_mkdir lookup mkdir path mode raw s = sys_make lookup (vfs_mkdir mkdir) path mode raw s"

definition sys_create :: "lookup_fun \<Rightarrow> create_fun \<Rightarrow> u8 list \<Rightarrow> u32 \<Rightarrow> nameidata \<Rightarrow> name_state \<Rightarrow> (u32 \<times> name_state) option" where
  "sys_create lookup create path mode raw s = sys_make lookup (vfs_create create) path mode raw s"

section \<open>Removing directories\<close>

text \<open>No file system has an operation \<open>rmdir\<close>.\<close>

definition may_delete :: "nat \<Rightarrow> name_state \<Rightarrow> u32 option" where
  "may_delete victim s = do { d \<leftarrow> ns_dents s victim; Some (if d_inode d = NULL then - ENOENT else 0) }"

definition vfs_rmdir :: "nat \<Rightarrow> nat \<Rightarrow> name_state \<Rightarrow> u32 option" where
  "vfs_rmdir dir dentry s = do { err \<leftarrow> may_delete dentry s; if err \<noteq> 0 then Some err else do { _ \<leftarrow> c_guard (dir \<noteq> NULL); Some (- EPERM) } }"

definition sys_rmdir :: "lookup_fun \<Rightarrow> u8 list \<Rightarrow> nameidata \<Rightarrow> name_state \<Rightarrow> (u32 \<times> name_state) option" where
  "sys_rmdir lookup pathname raw s = do {
     (err, nd, s) \<leftarrow> path_lookup lookup pathname LOOKUP_PARENT raw s;
     if err \<noteq> 0 then Some (err, s)
     else case nd_last_type nd of
       LAST_DOTDOT \<Rightarrow> do { s \<leftarrow> path_release nd s; Some (- EINVAL, s) }
     | LAST_DOT \<Rightarrow> do { s \<leftarrow> path_release nd s; Some (- EINVAL, s) }
     | LAST_ROOT \<Rightarrow> do { s \<leftarrow> path_release nd s; Some (- EBUSY, s) }
     | _ \<Rightarrow> do {
         (r, s) \<leftarrow> lookup_hash_raw lookup (nd_last nd) (nd_dentry nd) None s;
         (err, s) \<leftarrow> (case r of
             Inl err \<Rightarrow> Some (err, s)
           | Inr dentry \<Rightarrow> do {
               d \<leftarrow> ns_dents s (nd_dentry nd);
               err \<leftarrow> vfs_rmdir (d_inode d) dentry s;
               s \<leftarrow> dput dentry s;
               Some (err, s)
             });
         s \<leftarrow> path_release nd s;
         Some (err, s)
       }
   }"

end
