(* ===== verification/VfsProps.thy ===== *)
theory VfsProps
  imports VfsCalls FileProps NameiProps
begin

text \<open>Properties of the calls of \<open>usr.c\<close>, which put path names, the dentry cache and the reading of files together.\<close>

section \<open>Printing a file\<close>

text \<open>Pages are never dirty, so there is nothing to write back.\<close>

lemma flush_clean:
  assumes "pages_ok own sb s"
  shows "generic_file_flush host s = Some (0, s)"
proof -
  have "\<exists>g. vs_pages s p = Some g \<and> p_state g = P_CLEAR" if "p \<in> set (vs_acache s host)" for p
    using assms that by (fastforce simp: pages_ok_def pages_core_def acache_ok_def page_ok_def)
  then have "set ps \<subseteq> set (vs_acache s host) \<Longrightarrow> flush_loop ps s = Some s" for ps
    by (induction ps) (force simp: P_CLEAR_def)+
  then show ?thesis by (simp add: generic_file_flush_def)
qed

lemma open_readonly: "vfs_open lookup create path O_RDONLY 0 raw s = do {
    (err, nd, s) \<leftarrow> path_lookup lookup path LOOKUP_FOLLOW raw s;
    if err = 0 then do { f \<leftarrow> dentry_open (nd_dentry nd) (nd_mnt nd) 0 s; Some (Inr f, s) } else Some (Inl err, s)
  }"
  by (simp add: vfs_open_def open_namei_def O_RDONLY_def O_ACCMODE_def O_CREAT_def has_flag_def)

lemma c_string_end: "c_string (xs @ 0 # ys) = c_string xs"
  unfolding c_string_def by (induction xs) simp_all



end
