(* ===== verification/VfsInit.thy ===== *)
theory VfsInit
  imports Mounts Ext2Dir
begin

text \<open>
  Start of the file systems: the partition table (\<open>vfs_read_MBR\<close>) and the list of types (\<open>init_file_systems\<close>) of \<open>kernel/vfs/vfs.c\<close>,
  and \<open>init_ext2\<close> of \<open>ext2.c\<close>. A new super block, type or dentry gets a fresh number.
\<close>

section \<open>The partition table\<close>

record master_boot_record =
  m_count :: u32
  m_base :: "u32 list"
  m_type :: "u8 list"

definition DPT_MAX_ENTRY_COUNT :: nat where "DPT_MAX_ENTRY_COUNT = 4"
definition DPT_ENTRY_LEN :: nat where "DPT_ENTRY_LEN = 16"
definition PARTITION_TYPE_FAT32 :: u8 where "PARTITION_TYPE_FAT32 = 0x0b"
definition PARTITION_TYPE_EXT2 :: u8 where "PARTITION_TYPE_EXT2 = 0x83"

text \<open>The loop over the entries: address and type of each, up to the first address 0.\<close>

fun mbr_loop :: "u8 list \<Rightarrow> nat list \<Rightarrow> master_boot_record \<Rightarrow> master_boot_record" where
  "mbr_loop buf [] mbr = mbr"
| "mbr_loop buf (i # is) mbr =
     (let part_lba = le32 (446 + 8 + i * DPT_ENTRY_LEN) buf; part_type = buf ! (446 + 4 + i * DPT_ENTRY_LEN)
      in if part_lba = 0 then mbr
         else mbr_loop buf is (mbr\<lparr>m_base := m_base mbr @ [part_lba], m_type := m_type mbr @ [part_type], m_count := m_count mbr + 1\<rparr>))"

definition vfs_read_MBR :: "vfs_state \<Rightarrow> (u32 + master_boot_record) \<times> vfs_state" where
  "vfs_read_MBR s =
     (let (err, buf, s) = read_sects 0 1 s; mbr = mbr_loop buf [0..<DPT_MAX_ENTRY_COUNT] \<lparr>m_count = 0, m_base = [], m_type = []\<rparr>
      in if err \<or> m_count mbr = 0 \<or> m_type mbr ! 0 \<noteq> PARTITION_TYPE_FAT32 then (Inl (- EIO), s) else (Inr mbr, s))"

section \<open>File system types\<close>

definition fresh :: "name_state \<Rightarrow> nat \<times> name_state" where
  "fresh s = (vs_next (ns_fs s), s\<lparr>ns_fs := (ns_fs s)\<lparr>vs_next := vs_next (ns_fs s) + 1\<rparr>\<rparr>)"

text \<open>The list starts with the type \<open>root_fs\<close>.\<close>

definition init_file_systems :: "name_state \<Rightarrow> name_state" where
  "init_file_systems s =
     (let (p, s) = fresh s
      in upd_fstype p (\<lambda>_. \<lparr>fst_name = [114, 111, 111, 116, 95, 102, 115], fst_next = NULL, fs_supers = []\<rparr>) (s\<lparr>file_systems := [p]\<rparr>))"

section \<open>Mounting an EXT2 partition\<close>

definition EXT2_BOOT_BLOCK_SECT :: u32 where "EXT2_BOOT_BLOCK_SECT = 2"
definition EXT2_BASE_BLOCK_SIZE :: u32 where "EXT2_BASE_BLOCK_SIZE = 1024"
definition EXT2_ROOT_INO :: u32 where "EXT2_ROOT_INO = 2"

text \<open>What \<open>init_ext2\<close> derives from the super block; none when the blocks of a group are 0.\<close>

definition ext2_basics :: "u32 \<Rightarrow> u8 list \<Rightarrow> ext2_base_information option" where
  "ext2_basics base data = do {
     let s_blocks_count = le32 4 data;
     let s_first_data_block = le32 20 data;
     let s_log_block_size = le32 24 data;
     let bpg = le32 32 data;
     let blksize = (if s_log_block_size < 32 then push_bit (unat s_log_block_size) EXT2_BASE_BLOCK_SIZE else 0);
     _ \<leftarrow> c_guard (s_log_block_size < 32 \<and> bpg \<noteq> 0);
     Some \<lparr>ex_base = base, ex_first_sb_sect = base + EXT2_BOOT_BLOCK_SECT,
       ex_first_gdt_sect = (if s_log_block_size = 0 then base + EXT2_BOOT_BLOCK_SECT + 2 else base + drop_bit SECTOR_SHIFT blksize),
       ex_blksize = blksize, s_groups_count = (s_blocks_count - s_first_data_block + bpg - 1) div bpg, s_desc_per_block = blksize div 32, sb_data = data\<rparr>
   }"

text \<open>Reading the pages of the root directory ahead; an error here is not noticed and has no result.\<close>

fun preload :: "nat \<Rightarrow> nat list \<Rightarrow> vfs_state \<Rightarrow> vfs_state option" where
  "preload host [] s = Some s"
| "preload host (i # is) s = do {
     (loc, s) \<leftarrow> ext2_bmap host (of_nat i) s;
     if loc = 0 then preload host is s
     else do {
       (r, s) \<leftarrow> alloc_vfspage loc host s;
       case r of
         Inl e \<Rightarrow> None
       | Inr p \<Rightarrow> do {
           s \<leftarrow> pcache_add p s;
           preload host is (s\<lparr>vs_acache := (vs_acache s)(host := p # vs_acache s host)\<rparr>)
         }
     }
   }"

definition init_ext2 :: "u32 \<Rightarrow> u8 list \<Rightarrow> name_state \<Rightarrow> (u32 \<times> name_state) option" where
  "init_ext2 base DEV_NAME s = do {
     let (err, data, fs) = read_sects (base + EXT2_BOOT_BLOCK_SECT) 2 (ns_fs s);
     s \<leftarrow> Some (s\<lparr>ns_fs := fs\<rparr>);
     if err then Some (- EIO, s)
     else do {
       sbi \<leftarrow> ext2_basics base data;
       let (ty, s) = fresh s;
       s \<leftarrow> Some (upd_fstype ty (\<lambda>_. \<lparr>fst_name = [101, 120, 116, 50], fst_next = NULL, fs_supers = []\<rparr>) s);
       let (ty, s) = register_filesystem ty s;
       let (sb, s) = fresh s;
       s \<leftarrow> Some (s\<lparr>ns_fs := (ns_fs s)\<lparr>vs_sbs := (vs_sbs (ns_fs s))(sb := sbi)\<rparr>, ns_sb_name := (ns_sb_name s)(sb := take 9 DEV_NAME)\<rparr>);
       s \<leftarrow> Some (upd_fstype ty (\<lambda>t. t\<lparr>fs_supers := sb # fs_supers t\<rparr>) s);
       let (root, s) = alloc_dentry s;
       s \<leftarrow> Some (upd_dentry root (\<lambda>d. d\<lparr>d_name := \<lparr>q_name = (\<lambda>i. if i = 0 then 47 else 0), q_len = 1\<rparr>, d_sb := sb, d_op := Generic_compare\<rparr>) s);
       s \<leftarrow> dcache_add root s;
       s \<leftarrow> dget root s;
       s \<leftarrow> Some (s\<lparr>ns_sb_root := (ns_sb_root s)(sb := root)\<rparr>);
       let (i, fs) = alloc_inode sb (ns_fs s);
       (err, fs) \<leftarrow> ext2_fill_inode i (upd_inode i (\<lambda>n. n\<lparr>i_ino := EXT2_ROOT_INO, i_op := Dir_ops\<rparr>) fs);
       if err \<noteq> 0 then Some (err, s\<lparr>ns_fs := fs\<rparr>)
       else do {
         s \<leftarrow> modify_dentry root (\<lambda>d. d\<lparr>d_inode := i, d_alias := Linked\<rparr>) (s\<lparr>ns_fs := upd_inode i (\<lambda>n. n\<lparr>i_count := i_count n + 1\<rparr>) fs\<rparr>);
         fs \<leftarrow> preload i [0..<unat (i_blocks (inode_of s i))] (ns_fs s);
         Some (0, s\<lparr>ns_fs := fs\<rparr>)
       }
     }
   }"

end
