(* ===== verification/PageOps.thy ===== *)
theory PageOps
  imports PageInv
begin

text \<open>
  The page cache of \<open>vfscache/pcache.c\<close> again, with the calls through \<open>a_op\<close> as arguments: \<open>PageCache\<close> has those of EXT2 put in. With
  them the functions here are those of \<open>PageCache\<close>; the FAT32 driver passes its own.
\<close>

type_synonym page_io = "nat \<Rightarrow> vfs_state \<Rightarrow> (u32 \<times> vfs_state) option"

definition alloc_vfspage_via :: "page_io \<Rightarrow> u32 \<Rightarrow> nat \<Rightarrow> vfs_state \<Rightarrow> ((u32 + nat) \<times> vfs_state) option" where
  "alloc_vfspage_via readpage location host s = do {
     let p = vs_next s;
     s \<leftarrow> Some (s\<lparr>vs_next := p + 1\<rparr>);
     s \<leftarrow> Some (s\<lparr>vs_pages := (vs_pages s)(p \<mapsto> \<lparr>p_data = [], p_state = P_CLEAR, p_location = location, p_host = host\<rparr>)\<rparr>);
     (err, s) \<leftarrow> readpage p s;
     Some (if IS_ERR_VALUE err then (Inl err, release_page p s) else (Inr p, s))
   }"

definition pcache_put_LRU_via :: "page_io \<Rightarrow> vfs_state \<Rightarrow> vfs_state option" where
  "pcache_put_LRU_via writepage s = do {
     let c = vs_pcache s;
     _ \<leftarrow> c_guard (c_LRU c \<noteq> []);
     let p = List.last (c_LRU c);
     page \<leftarrow> vs_pages s p;
     s \<leftarrow> (if p_state page AND P_DIRTY \<noteq> 0 then do { (_, s) \<leftarrow> writepage p s; Some s } else Some s);
     s \<leftarrow> Some (s\<lparr>vs_pcache := unlink p (vs_pcache s), vs_acache := (\<lambda>i. remove1 p (vs_acache s i))\<rparr>);
     Some (release_page p s)
   }"

definition pcache_add_via :: "page_io \<Rightarrow> nat \<Rightarrow> vfs_state \<Rightarrow> vfs_state option" where
  "pcache_add_via writepage p s = do {
     page \<leftarrow> vs_pages s p;
     let h = unat (intHash (p_location page) (c_tablesize (vs_pcache s)));
     s \<leftarrow> (if cache_is_full (vs_pcache s) then pcache_put_LRU_via writepage s else Some s);
     Some (s\<lparr>vs_pcache := link_new p h (vs_pcache s)\<rparr>)
   }"

definition pcache_look_up_via :: "page_io \<Rightarrow> page_io \<Rightarrow> u32 \<Rightarrow> nat \<Rightarrow> vfs_state \<Rightarrow> (nat \<times> vfs_state) option" where
  "pcache_look_up_via readpage writepage page_num host s = do {
     let h = unat (intHash page_num (c_tablesize (vs_pcache s)));
     case find (page_is page_num host s) (c_hashtable (vs_pcache s) h) of
       Some p \<Rightarrow> Some (p, s\<lparr>vs_pcache := to_front p h (vs_pcache s)\<rparr>)
     | None \<Rightarrow> do {
         (r, s) \<leftarrow> alloc_vfspage_via readpage page_num host s;
         case r of
           Inl e \<Rightarrow> None
         | Inr p \<Rightarrow> do {
             s \<leftarrow> pcache_add_via writepage p s;
             Some (p, s\<lparr>vs_acache := (vs_acache s)(host := p # vs_acache s host)\<rparr>)
           }
       }
   }"

lemma via_ext2:
  "alloc_vfspage_via ext2_readpage = alloc_vfspage" "pcache_put_LRU_via ext2_writepage = pcache_put_LRU"
  "pcache_add_via ext2_writepage = pcache_add" "pcache_look_up_via ext2_readpage ext2_writepage = pcache_look_up"
proof -
  show a: "alloc_vfspage_via ext2_readpage = alloc_vfspage"
    unfolding alloc_vfspage_via_def alloc_vfspage_def ..
  show l: "pcache_put_LRU_via ext2_writepage = pcache_put_LRU"
    unfolding pcache_put_LRU_via_def pcache_put_LRU_def pcache_write_back_def ..
  show p: "pcache_add_via ext2_writepage = pcache_add"
    unfolding pcache_add_via_def pcache_add_def l ..
  show "pcache_look_up_via ext2_readpage ext2_writepage = pcache_look_up"
    unfolding pcache_look_up_via_def pcache_look_up_def a p ..
qed

end
