(* ===== verification/Fat32.thy ===== *)
theory Fat32
  imports PageOps Ext2Dir
begin

text \<open>
  The FAT32 driver of the VFS, \<open>kernel/vfs/fat32/fat32.c\<close>, which holds the root of the name space. What \<open>s_fs_info\<close> of a super block of FAT32 points to
  is the map \<open>bi\<close>; the functions for it are called for inodes whose super block it knows. The argument \<open>junk\<close> is what fresh memory
  for a name holds where the code does not write it. The branches for a page that is not in the cache are never taken: \<open>pcache_look_up\<close> reads it in.
\<close>

section \<open>State\<close>

record fat32_basic_information =
  dbr_base :: u32
  dbr_reserved :: u32
  dbr_fat_num :: u32
  dbr_fat_size :: u32
  dbr_root_clu :: u32
  dbr_sec_per_clu :: u32
  fat_base :: u32
  data_sec :: u32
  root_sec :: u32

type_synonym fat_infos = "nat \<Rightarrow> fat32_basic_information option"

definition MAX_FAT32_SHORT_FILE_NAME_BASE_LEN :: nat where "MAX_FAT32_SHORT_FILE_NAME_BASE_LEN = 8"
definition MAX_FAT32_SHORT_FILE_NAME_LEN :: nat where "MAX_FAT32_SHORT_FILE_NAME_LEN = 11"
definition FAT32_FAT_ENTRY_LEN_SHIFT :: nat where "FAT32_FAT_ENTRY_LEN_SHIFT = 2"
definition FAT32_DIR_ENTRY_LEN :: nat where "FAT32_DIR_ENTRY_LEN = 32"
definition ATTR_DIRECTORY :: u8 where "ATTR_DIRECTORY = 0x10"
definition FAT32_NAME_NORMAL_TO_SPECIFIC :: u32 where "FAT32_NAME_NORMAL_TO_SPECIFIC = 0"
definition FAT32_NAME_SPECIFIC_TO_NORMAL :: u32 where "FAT32_NAME_SPECIFIC_TO_NORMAL = 1"
definition INF_POS :: nat where "INF_POS = 10000"
definition FT_REG_FILE :: u8 where "FT_REG_FILE = 1"
definition FT_DIR :: u8 where "FT_DIR = 2"
definition EFAULT :: u32 where "EFAULT = 14"

text \<open>\<open>struct fat_dir_entry\<close> at byte \<open>a\<close> of a page.\<close>

definition fe_name :: "nat \<Rightarrow> u8 list \<Rightarrow> u8 list" where "fe_name a buf = take MAX_FAT32_SHORT_FILE_NAME_LEN (drop a buf)"
definition fe_attr :: "nat \<Rightarrow> u8 list \<Rightarrow> u8" where "fe_attr a buf = buf ! (a + 11)"
definition fe_lcase :: "nat \<Rightarrow> u8 list \<Rightarrow> u8" where "fe_lcase a buf = buf ! (a + 12)"
definition fe_starthi :: "nat \<Rightarrow> u8 list \<Rightarrow> u16" where "fe_starthi a buf = le16 (a + 20) buf"
definition fe_startlo :: "nat \<Rightarrow> u8 list \<Rightarrow> u16" where "fe_startlo a buf = le16 (a + 26) buf"
definition fe_size :: "nat \<Rightarrow> u8 list \<Rightarrow> u32" where "fe_size a buf = le32 (a + 28) buf"

text \<open>The first cluster of an entry.\<close>

definition fe_addr :: "nat \<Rightarrow> u8 list \<Rightarrow> u32" where
  "fe_addr a buf = push_bit 16 (ucast (fe_starthi a buf)) + ucast (fe_startlo a buf)"

section \<open>Pages\<close>

definition fat32_sector :: "fat32_basic_information \<Rightarrow> inode \<Rightarrow> u32 \<Rightarrow> u32" where
  "fat32_sector b inode location = data_sec b + (location - 2) * drop_bit SECTOR_SHIFT (i_blksize inode)"

definition fat32_readpage :: "fat_infos \<Rightarrow> page_io" where
  "fat32_readpage bi p s = do {
     page \<leftarrow> vs_pages s p;
     let inode = vs_inodes s (p_host page);
     b \<leftarrow> bi (i_sb inode);
     let buf = replicate (unat (i_blksize inode)) 0;
     let (err, buf, d) = read_block buf (fat32_sector b inode (p_location page)) (drop_bit SECTOR_SHIFT (i_blksize inode)) (vs_disk s);
     Some (if err \<noteq> 0 then - EIO else 0, upd_page p (\<lambda>g. g\<lparr>p_data := buf\<rparr>) (s\<lparr>vs_disk := d\<rparr>))
   }"

definition fat32_writepage :: "fat_infos \<Rightarrow> page_io" where
  "fat32_writepage bi p s = do {
     page \<leftarrow> vs_pages s p;
     let inode = vs_inodes s (p_host page);
     b \<leftarrow> bi (i_sb inode);
     let (err, d) = write_block (p_data page) (fat32_sector b inode (p_location page)) (drop_bit SECTOR_SHIFT (i_blksize inode)) (vs_disk s);
     Some (if err \<noteq> 0 then - EIO else 0, s\<lparr>vs_disk := d\<rparr>)
   }"

definition fat32_bmap :: "nat \<Rightarrow> u32 \<Rightarrow> vfs_state \<Rightarrow> u32 option" where
  "fat32_bmap host page_no s = do {
     _ \<leftarrow> c_guard (unat page_no < List.length (i_page (vs_inodes s host)));
     Some (i_page (vs_inodes s host) ! unat page_no)
   }"

text \<open>Both file systems share the page cache: a call through \<open>a_op\<close> of a page goes to the one its inode belongs to.\<close>

definition readpage_of :: "fat_infos \<Rightarrow> page_io" where
  "readpage_of bi p s = do {
     page \<leftarrow> vs_pages s p;
     if bi (i_sb (vs_inodes s (p_host page))) = None then ext2_readpage p s else fat32_readpage bi p s
   }"

definition writepage_of :: "fat_infos \<Rightarrow> page_io" where
  "writepage_of bi p s = do {
     page \<leftarrow> vs_pages s p;
     if bi (i_sb (vs_inodes s (p_host page))) = None then ext2_writepage p s else fat32_writepage bi p s
   }"

section \<open>The file allocation table\<close>

text \<open>The result of \<open>read_block\<close> is not tested in the code; a failed transfer leaves garbage in the buffer and has no result here.\<close>

definition read_fat :: "fat32_basic_information \<Rightarrow> u32 \<Rightarrow> vfs_state \<Rightarrow> (u32 \<times> vfs_state) option" where
  "read_fat b index s = do {
     let shift = SECTOR_SHIFT - FAT32_FAT_ENTRY_LEN_SHIFT;
     let dest_index = index AND (push_bit shift 1 - 1);
     let (err, buf, s) = read_sects (fat_base b + drop_bit shift index) 1 s;
     _ \<leftarrow> c_guard (\<not> err);
     Some (le32 (unat (push_bit FAT32_FAT_ENTRY_LEN_SHIFT dest_index)) buf, s)
   }"

text \<open>The number of clusters of a chain; a chain that runs in a circle is followed for ever.\<close>

partial_function (option) chain_blocks :: "fat32_basic_information \<Rightarrow> u32 \<Rightarrow> u32 \<Rightarrow> vfs_state \<Rightarrow> (u32 \<times> vfs_state) option" where
  "chain_blocks b clu n s =
     (if clu = 0x0FFFFFFF then Some (n, s)
      else do { (next, s) \<leftarrow> read_fat b clu s; chain_blocks b next (n + 1) s })"

text \<open>The clusters of the root directory.\<close>

fun chain_pages :: "fat32_basic_information \<Rightarrow> nat \<Rightarrow> u32 \<Rightarrow> vfs_state \<Rightarrow> (u32 list \<times> vfs_state) option" where
  "chain_pages b 0 clu s = Some ([], s)"
| "chain_pages b (Suc n) clu s = do {
     (next, s) \<leftarrow> read_fat b clu s;
     (cs, s) \<leftarrow> chain_pages b n next s;
     Some (clu # cs, s)
   }"

section \<open>File names\<close>

definition to_upper :: "u8 \<Rightarrow> u8" where
  "to_upper c = (if c \<le> 0x7A \<and> 0x61 \<le> c then c - 0x61 + 0x41 else c)"

definition to_lower :: "u8 \<Rightarrow> u8" where
  "to_lower c = (if c \<le> 0x5A \<and> 0x41 \<le> c then c - 0x41 + 0x61 else c)"

text \<open>From a name with a dot to the 11 bytes of a directory entry. Where the extension ends the code compares instead of storing a 0.\<close>

definition to_specific :: "(nat \<Rightarrow> u8) \<Rightarrow> qstr \<Rightarrow> u8 list" where
  "to_specific junk src =
     (let dot_pos = (case find (\<lambda>i. q_name src i = 0x2E) [0..<unat (q_len src)] of Some i \<Rightarrow> i | None \<Rightarrow> INF_POS);
          base_end = (if dot_pos > MAX_FAT32_SHORT_FILE_NAME_BASE_LEN then MAX_FAT32_SHORT_FILE_NAME_BASE_LEN else dot_pos)
      in map (\<lambda>i. if i < base_end then to_upper (q_name src i) else 0) [0..<MAX_FAT32_SHORT_FILE_NAME_BASE_LEN]
         @ map (\<lambda>i. let j = dot_pos + 1 + (i - MAX_FAT32_SHORT_FILE_NAME_BASE_LEN)
                 in if unat (q_len src) \<le> j then junk i else to_upper (q_name src j)) [MAX_FAT32_SHORT_FILE_NAME_BASE_LEN..<MAX_FAT32_SHORT_FILE_NAME_LEN])"

text \<open>
  From the 11 bytes to a name with a dot: the bytes in front of the final 0 and the length. The loop over the bytes 10 to 1 counts the blanks and
  leaves the first of them in \<open>dot_pos\<close>. The byte \<open>lcase\<close> says which part is in lower case.
\<close>

definition base_char :: "u8 \<Rightarrow> u8 \<Rightarrow> u8" where
  "base_char mode c =
     (if c \<le> 0x7A \<and> 0x61 \<le> c \<and> (mode = 0x10 \<or> mode = 0x00) then to_upper c
      else if c \<le> 0x5A \<and> 0x41 \<le> c \<and> (mode = 0x18 \<or> mode = 0x08) then to_lower c else c)"

definition ext_char :: "u8 \<Rightarrow> u8 \<Rightarrow> u8" where
  "ext_char mode c =
     (if c \<le> 0x7A \<and> 0x61 \<le> c \<and> (mode = 0x08 \<or> mode = 0x00) then to_upper c
      else if c \<le> 0x5A \<and> 0x41 \<le> c \<and> (mode = 0x18 \<or> mode = 0x10) then to_lower c else c)"

definition to_normal :: "u8 \<Rightarrow> u8 list \<Rightarrow> u8 list \<times> nat" where
  "to_normal mode src =
     (let blank = (\<lambda>i. src ! i = 0x20);
          null = List.length (filter blank [1..<MAX_FAT32_SHORT_FILE_NAME_LEN]);
          dot_pos = (case find blank [1..<MAX_FAT32_SHORT_FILE_NAME_LEN] of Some i \<Rightarrow> i | None \<Rightarrow> MAX_FAT32_SHORT_FILE_NAME_LEN);
          dot_pos = min dot_pos MAX_FAT32_SHORT_FILE_NAME_BASE_LEN;
          base = map (base_char mode) (take dot_pos src)
      in if \<not> blank MAX_FAT32_SHORT_FILE_NAME_BASE_LEN then
           (base @ [0x2E] @ map (ext_char mode) (takeWhile (\<lambda>c. c \<noteq> 0x20) (drop MAX_FAT32_SHORT_FILE_NAME_BASE_LEN src)), MAX_FAT32_SHORT_FILE_NAME_LEN - null + 1)
         else (base, MAX_FAT32_SHORT_FILE_NAME_LEN - null))"

definition fat32_convert_filename :: "(nat \<Rightarrow> u8) \<Rightarrow> qstr \<Rightarrow> u8 \<Rightarrow> u32 \<Rightarrow> qstr" where
  "fat32_convert_filename junk src mode direction =
     (if direction = FAT32_NAME_NORMAL_TO_SPECIFIC then
        let name = to_specific junk src
        in \<lparr>q_name = (\<lambda>i. if i < List.length name then name ! i else junk i), q_len = of_nat MAX_FAT32_SHORT_FILE_NAME_LEN\<rparr>
      else if direction = FAT32_NAME_SPECIFIC_TO_NORMAL then
        let (name, n) = to_normal mode (map (q_name src) [0..<MAX_FAT32_SHORT_FILE_NAME_LEN])
        in \<lparr>q_name = (\<lambda>i. if i < List.length name then name ! i else if i = List.length name then 0 else junk i), q_len = of_nat n\<rparr>
      else no_name)"

section \<open>Searching a directory\<close>

text \<open>A volume label, a part of a long name or a deleted entry.\<close>

definition fe_skip :: "nat \<Rightarrow> u8 list \<Rightarrow> bool" where
  "fe_skip a buf \<longleftrightarrow> fe_attr a buf = 0x08 \<or> fe_attr a buf = 0x0F \<or> buf ! a = 0xE5"

definition fe_qstr :: "(nat \<Rightarrow> u8) \<Rightarrow> nat \<Rightarrow> u8 list \<Rightarrow> qstr" where
  "fe_qstr junk a buf =
     fat32_convert_filename junk \<lparr>q_name = (\<lambda>i. fe_name a buf ! i), q_len = of_nat MAX_FAT32_SHORT_FILE_NAME_LEN\<rparr> (fe_lcase a buf) FAT32_NAME_SPECIFIC_TO_NORMAL"

text \<open>The loop over the entries of a page, up to one whose name starts with 0.\<close>

fun fat_scan :: "(nat \<Rightarrow> u8) \<Rightarrow> qstr \<Rightarrow> u8 list \<Rightarrow> nat list \<Rightarrow> nat option option" where
  "fat_scan junk name buf [] = Some None"
| "fat_scan junk name buf (a # as) = do {
     _ \<leftarrow> c_guard (a + FAT32_DIR_ENTRY_LEN \<le> List.length buf);
     if fe_skip a buf then fat_scan junk name buf as
     else if buf ! a = 0 then Some None
     else if fat32_compare_filename (fe_qstr junk a buf) name = 0 then Some (Some a)
     else fat_scan junk name buf as
   }"

definition entry_starts :: "nat \<Rightarrow> nat list" where
  "entry_starts pagesize = map ((*) FAT32_DIR_ENTRY_LEN) [0..<(pagesize + FAT32_DIR_ENTRY_LEN - 1) div FAT32_DIR_ENTRY_LEN]"

text \<open>A page of a directory, through the cache.\<close>

definition fat_page :: "fat_infos \<Rightarrow> nat \<Rightarrow> nat \<Rightarrow> vfs_state \<Rightarrow> (nat \<times> u8 list \<times> vfs_state) option" where
  "fat_page bi dir i s = do {
     no \<leftarrow> fat32_bmap dir (of_nat i) s;
     (p, s) \<leftarrow> pcache_look_up_via (readpage_of bi) (writepage_of bi) no dir s;
     page \<leftarrow> vs_pages s p;
     Some (p, p_data page, s)
   }"

text \<open>The loop over the pages: the page and the place of the entry with the name.\<close>

fun fat_find :: "fat_infos \<Rightarrow> (nat \<Rightarrow> u8) \<Rightarrow> nat \<Rightarrow> nat \<Rightarrow> qstr \<Rightarrow> nat list \<Rightarrow> vfs_state \<Rightarrow> ((nat \<times> nat) option \<times> vfs_state) option" where
  "fat_find bi junk dir pagesize name [] s = Some (None, s)"
| "fat_find bi junk dir pagesize name (i # is) s = do {
     (p, buf, s) \<leftarrow> fat_page bi dir i s;
     r \<leftarrow> fat_scan junk name buf (entry_starts pagesize);
     case r of
       Some a \<Rightarrow> Some (Some (p, a), s)
     | None \<Rightarrow> fat_find bi junk dir pagesize name is s
   }"

definition fat_find_entry :: "fat_infos \<Rightarrow> (nat \<Rightarrow> u8) \<Rightarrow> nat \<Rightarrow> nat \<Rightarrow> qstr \<Rightarrow> vfs_state \<Rightarrow> ((nat \<times> nat) option \<times> vfs_state) option" where
  "fat_find_entry bi junk dir pagesize name s = fat_find bi junk dir pagesize name [0..<unat (i_blocks (vs_inodes s dir))] s"

section \<open>Operations on inodes\<close>

text \<open>
  The inode of a directory entry. The loop that should fill \<open>a_page\<close> from the table assigns \<open>(new_inode, addr)\<close>, which is \<open>addr\<close>: every
  page is the first cluster. Fields that the code does not set are as the memory was.
\<close>

definition fat_new_inode :: "fat32_basic_information \<Rightarrow> nat \<Rightarrow> nat \<Rightarrow> u8 list \<Rightarrow> vfs_state \<Rightarrow> (nat \<times> vfs_state) option" where
  "fat_new_inode b dir a buf s = do {
     let p = vs_next s;
     let d = vs_inodes s dir;
     let addr = fe_addr a buf;
     s \<leftarrow> Some (upd_inode p (\<lambda>i. i\<lparr>i_count := 1, i_ino := addr, i_blkbits := i_blkbits d, i_blksize := i_blksize d, i_sb := i_sb d, i_size := fe_size a buf,
       i_blocks := 0, i_op := (if fe_attr a buf AND ATTR_DIRECTORY \<noteq> 0 then Dir_ops else File_create_ops)\<rparr>) (s\<lparr>vs_next := p + 1, vs_acache := (vs_acache s)(p := [])\<rparr>));
     (n, s) \<leftarrow> chain_blocks b addr 0 s;
     Some (p, upd_inode p (\<lambda>i. i\<lparr>i_blocks := n, i_page := replicate (unat n) addr\<rparr>) s)
   }"

definition fat32_inode_lookup :: "fat_infos \<Rightarrow> (nat \<Rightarrow> u8) \<Rightarrow> lookup_fun" where
  "fat32_inode_lookup bi junk dir dentry s = do {
     d \<leftarrow> ns_dents s dentry;
     (r, fs) \<leftarrow> fat_find_entry bi junk dir (unat (i_blksize (inode_of s dir))) (d_name d) (ns_fs s);
     case r of
       None \<Rightarrow> Some (Inr NULL, s\<lparr>ns_fs := fs\<rparr>)
     | Some (p, a) \<Rightarrow> do {
         b \<leftarrow> bi (i_sb (vs_inodes fs dir));
         page \<leftarrow> vs_pages fs p;
         (i, fs) \<leftarrow> fat_new_inode b dir a (p_data page) fs;
         Some (Inr dentry, upd_dentry dentry (\<lambda>d. d\<lparr>d_inode := i, d_op := Fat32_compare, d_alias := Linked\<rparr>) (s\<lparr>ns_fs := fs\<rparr>))
       }
   }"

definition fat32_create :: create_fun where
  "fat32_create dir dentry mode s = Some (0, s)"

text \<open>The entry is marked as deleted. The result of the writing is not tested.\<close>

definition fat32_delete_inode :: "fat_infos \<Rightarrow> (nat \<Rightarrow> u8) \<Rightarrow> nat \<Rightarrow> name_state \<Rightarrow> (u32 \<times> name_state) option" where
  "fat32_delete_inode bi junk dentry s = do {
     d \<leftarrow> ns_dents s dentry;
     par \<leftarrow> ns_dents s (d_parent d);
     _ \<leftarrow> c_guard (d_inode d \<noteq> NULL \<and> d_inode par \<noteq> NULL);
     (r, fs) \<leftarrow> fat_find_entry bi junk (d_inode par) (unat (i_blksize (inode_of s (d_inode d)))) (d_name d) (ns_fs s);
     case r of
       None \<Rightarrow> Some (- ENOENT, s\<lparr>ns_fs := fs\<rparr>)
     | Some (p, a) \<Rightarrow> do {
         (_, fs) \<leftarrow> fat32_writepage bi p (upd_page p (\<lambda>g. g\<lparr>p_data := (p_data g)[a := 0xE5]\<rparr>) fs);
         Some (0, s\<lparr>ns_fs := fs\<rparr>)
       }
   }"

text \<open>\<open>dentry\<close> is the first one on the list \<open>i_dentry\<close> of the inode.\<close>

definition fat32_write_inode :: "fat_infos \<Rightarrow> (nat \<Rightarrow> u8) \<Rightarrow> nat \<Rightarrow> nat \<Rightarrow> nat \<Rightarrow> name_state \<Rightarrow> (u32 \<times> name_state) option" where
  "fat32_write_inode bi junk inode dentry parent s = do {
     par \<leftarrow> ns_dents s parent;
     d \<leftarrow> ns_dents s dentry;
     _ \<leftarrow> c_guard (d_inode par \<noteq> NULL);
     (r, fs) \<leftarrow> fat_find_entry bi junk (d_inode par) (unat (i_blksize (inode_of s (d_inode par)))) (d_name d) (ns_fs s);
     case r of
       None \<Rightarrow> Some (- ENOENT, s\<lparr>ns_fs := fs\<rparr>)
     | Some (p, a) \<Rightarrow> do {
         (err, fs) \<leftarrow> fat32_writepage bi p (upd_page p (\<lambda>g. g\<lparr>p_data := set_le32 (a + 28) (i_size (vs_inodes fs inode)) (p_data g)\<rparr>) fs);
         Some (err, s\<lparr>ns_fs := fs\<rparr>)
       }
   }"

section \<open>Listing\<close>

fun fat_list :: "u8 list \<Rightarrow> nat list \<Rightarrow> dirent list \<Rightarrow> dirent list option" where
  "fat_list buf [] acc = Some acc"
| "fat_list buf (a # as) acc = do {
     _ \<leftarrow> c_guard (a + FAT32_DIR_ENTRY_LEN \<le> List.length buf);
     if fe_skip a buf then fat_list buf as acc
     else if buf ! a = 0 then Some acc
     else fat_list buf as (acc @ [(fe_addr a buf, if fe_attr a buf AND ATTR_DIRECTORY \<noteq> 0 then FT_DIR else FT_REG_FILE, fst (to_normal (fe_lcase a buf) (fe_name a buf)))])
   }"

fun fat_readdir_pages :: "fat_infos \<Rightarrow> nat \<Rightarrow> nat list \<Rightarrow> dirent list \<Rightarrow> vfs_state \<Rightarrow> (u32 \<times> dirent list \<times> vfs_state) option" where
  "fat_readdir_pages bi dir [] acc s = Some (0, acc, s)"
| "fat_readdir_pages bi dir (i # is) acc s = do {
     no \<leftarrow> fat32_bmap dir (of_nat i) s;
     if no = 0 then Some (- ENOENT, acc, s)
     else do {
       (p, buf, s) \<leftarrow> fat_page bi dir i s;
       acc \<leftarrow> fat_list buf (entry_starts (unat (i_blksize (vs_inodes s dir)))) acc;
       fat_readdir_pages bi dir is acc s
     }
   }"

text \<open>A name in the result is a string that ends before its first 0.\<close>

definition fat32_readdir :: "fat_infos \<Rightarrow> nat \<Rightarrow> vfs_state \<Rightarrow> (u32 \<times> dirent list \<times> vfs_state) option" where
  "fat32_readdir bi dir s = fat_readdir_pages bi dir [0..<unat (i_blocks (vs_inodes s dir))] [] s"

end
