(* ===== verification/Fat32Inv.thy ===== *)
theory Fat32Inv
  imports Fat32 Ext2Inv
begin

text \<open>
  Lemmas on the FAT32 driver. A FAT32 partition lies on the card as an EXT2 partition does whose block 0 is two clusters in front of the data: \<open>as_ext2\<close>
  is that view, under which the operations on pages are those of EXT2, so that the invariant of the page cache carries over.
\<close>

section \<open>FAT32 pages as EXT2 pages\<close>

definition fat_view :: "fat32_basic_information option \<Rightarrow> ext2_base_information \<Rightarrow> ext2_base_information" where
  "fat_view b e = (case b of None \<Rightarrow> e
     | Some b \<Rightarrow> e\<lparr>ex_base := data_sec b - 2 * dbr_sec_per_clu b, ex_blksize := push_bit SECTOR_SHIFT (dbr_sec_per_clu b)\<rparr>)"

definition as_ext2 :: "fat_infos \<Rightarrow> vfs_state \<Rightarrow> vfs_state" where
  "as_ext2 bi s = s\<lparr>vs_sbs := (\<lambda>sb. fat_view (bi sb) (vs_sbs s sb))\<rparr>"

lemma as_ext2_fields [simp]:
  "vs_disk (as_ext2 bi s) = vs_disk s" "vs_next (as_ext2 bi s) = vs_next s" "vs_pages (as_ext2 bi s) = vs_pages s" "vs_inodes (as_ext2 bi s) = vs_inodes s"
  "vs_pcache (as_ext2 bi s) = vs_pcache s" "vs_acache (as_ext2 bi s) = vs_acache s"
  by (simp_all add: as_ext2_def)

lemma as_ext2_upd [simp]:
  "as_ext2 bi (s\<lparr>vs_disk := d\<rparr>) = (as_ext2 bi s)\<lparr>vs_disk := d\<rparr>" "as_ext2 bi (s\<lparr>vs_next := n\<rparr>) = (as_ext2 bi s)\<lparr>vs_next := n\<rparr>"
  "as_ext2 bi (s\<lparr>vs_pages := m\<rparr>) = (as_ext2 bi s)\<lparr>vs_pages := m\<rparr>" "as_ext2 bi (s\<lparr>vs_inodes := i\<rparr>) = (as_ext2 bi s)\<lparr>vs_inodes := i\<rparr>"
  "as_ext2 bi (s\<lparr>vs_pcache := c\<rparr>) = (as_ext2 bi s)\<lparr>vs_pcache := c\<rparr>" "as_ext2 bi (s\<lparr>vs_acache := a\<rparr>) = (as_ext2 bi s)\<lparr>vs_acache := a\<rparr>"
  "as_ext2 bi (upd_page p f s) = upd_page p f (as_ext2 bi s)" "as_ext2 bi (upd_inode q g s) = upd_inode q g (as_ext2 bi s)"
  "as_ext2 bi (release_page p s) = release_page p (as_ext2 bi s)"
  by (simp_all add: as_ext2_def upd_page_def upd_inode_def release_page_def)

text \<open>Inodes of a FAT32 partition have its cluster size.\<close>

definition clusters_ok :: "fat32_basic_information \<Rightarrow> inode \<Rightarrow> bool" where
  "clusters_ok b i \<longleftrightarrow> i_blksize i = push_bit SECTOR_SHIFT (dbr_sec_per_clu b) \<and> drop_bit SECTOR_SHIFT (i_blksize i) = dbr_sec_per_clu b"

lemma fat32_sector_eq:
  assumes "bi (i_sb inode) = Some b" "clusters_ok b inode"
  shows "ext2_sector (as_ext2 bi s) inode loc = fat32_sector b inode loc"
proof -
  have "drop_bit SECTOR_SHIFT (i_blksize inode) = dbr_sec_per_clu b" using assms(2) unfolding clusters_ok_def by blast
  then show ?thesis using assms(1) by (simp add: ext2_sector_def fat32_sector_def as_ext2_def fat_view_def algebra_simps)
qed

lemma readpage_sim:
  assumes "vs_pages s p = Some g" "p_location g \<noteq> 0" "p_host g \<noteq> NULL" "bi (i_sb (vs_inodes s (p_host g))) = Some b" "clusters_ok b (vs_inodes s (p_host g))"
  shows "ext2_readpage p (as_ext2 bi s) = map_option (apsnd (as_ext2 bi)) (readpage_of bi p s)"
  using assms fat32_sector_eq [where bi = bi, OF assms(4,5)]
  by (simp add: readpage_of_def fat32_readpage_def ext2_readpage_def Let_def split: prod.split)

lemma writepage_sim:
  assumes "vs_pages s p = Some g" "p_location g \<noteq> 0" "p_host g \<noteq> NULL" "bi (i_sb (vs_inodes s (p_host g))) = Some b" "clusters_ok b (vs_inodes s (p_host g))"
  shows "ext2_writepage p (as_ext2 bi s) = map_option (apsnd (as_ext2 bi)) (fat32_writepage bi p s)"
  using assms fat32_sector_eq [where bi = bi, OF assms(4,5)]
  by (simp add: fat32_writepage_def ext2_writepage_def Let_def split: prod.split)

text \<open>The look-up in the cache; no page in it is dirty.\<close>

lemma put_LRU_clean:
  assumes "\<And>p g. p \<in> cached s \<Longrightarrow> vs_pages s p = Some g \<Longrightarrow> p_state g = P_CLEAR"
  shows "pcache_put_LRU (as_ext2 bi s) = map_option (as_ext2 bi) (pcache_put_LRU_via wr s)"
proof (cases "c_LRU (vs_pcache s) = []")
  case True
  then show ?thesis by (simp add: pcache_put_LRU_def pcache_put_LRU_via_def Let_def c_guard_def)
next
  case False
  then have "p_state g = P_CLEAR" if "vs_pages s (List.last (c_LRU (vs_pcache s))) = Some g" for g using last_in_set [of "c_LRU (vs_pcache s)"] that assms by blast
  then show ?thesis using False
    by (cases "vs_pages s (List.last (c_LRU (vs_pcache s)))") (simp_all add: pcache_put_LRU_def pcache_put_LRU_via_def Let_def P_CLEAR_def)
qed

lemma look_up_sim:
  assumes "pages_ok own sb (as_ext2 bi s)" "loc_ok own sb (as_ext2 bi s) host loc" "bi sb = Some b" "clusters_ok b (vs_inodes s host)"
  shows "pcache_look_up loc host (as_ext2 bi s) = map_option (apsnd (as_ext2 bi)) (pcache_look_up_via (readpage_of bi) wr loc host s)"
proof (cases "find (page_is loc host s) (c_hashtable (vs_pcache s) (unat (intHash loc (c_tablesize (vs_pcache s)))))")
  case (Some p)
  moreover have "page_is loc host (as_ext2 bi s) = page_is loc host s" by (simp add: page_is_def fun_eq_iff)
  ultimately show ?thesis by (simp add: pcache_look_up_def pcache_look_up_via_def Let_def)
next
  case None
  have pi: "page_is loc host (as_ext2 bi s) = page_is loc host s" by (simp add: page_is_def fun_eq_iff)
  have l: "loc \<noteq> 0" "host \<noteq> NULL" "i_sb (vs_inodes s host) = sb" using assms(2) by (simp_all add: loc_ok_def)
  have core: "pages_core own sb (as_ext2 bi s)" using assms(1) by (simp add: pages_ok_def)
  define n where "n = s\<lparr>vs_next := vs_next s + 1, vs_pages := (vs_pages s)(vs_next s \<mapsto> \<lparr>p_data = [], p_state = P_CLEAR, p_location = loc, p_host = host\<rparr>)\<rparr>"
  have n: "vs_pages n (vs_next s) = Some \<lparr>p_data = [], p_state = P_CLEAR, p_location = loc, p_host = host\<rparr>" by (simp add: n_def)
  have rd: "ext2_readpage (vs_next s) (as_ext2 bi n) = map_option (apsnd (as_ext2 bi)) (readpage_of bi (vs_next s) n)"
    by (rule readpage_sim [OF n, of bi b]) (use l assms(3,4) in \<open>simp_all add: n_def\<close>)
  obtain e buf d where "read_block (replicate (unat (i_blksize (vs_inodes s host))) 0) (fat32_sector b (vs_inodes s host) loc)
      (drop_bit SECTOR_SHIFT (i_blksize (vs_inodes s host))) (vs_disk s) = (e, buf, d)" by (metis prod_cases3)
  then obtain err where rb: "readpage_of bi (vs_next s) n = Some (err, upd_page (vs_next s) (\<lambda>g. g\<lparr>p_data := buf\<rparr>) (n\<lparr>vs_disk := d\<rparr>))"
    using l assms(3) by (simp add: readpage_of_def fat32_readpage_def n_def Let_def)
  define m where "m = upd_page (vs_next s) (\<lambda>g. g\<lparr>p_data := buf\<rparr>) (n\<lparr>vs_disk := d\<rparr>)"
  have am: "alloc_vfspage_via (readpage_of bi) loc host s = Some (if IS_ERR_VALUE err then (Inl err, release_page (vs_next s) m) else (Inr (vs_next s), m))"
    using rb unfolding alloc_vfspage_via_def Let_def m_def by (simp add: n_def [unfolded add_0_right])
  have "(as_ext2 bi s)\<lparr>vs_next := vs_next s + 1, vs_pages := (vs_pages s)(vs_next s \<mapsto> \<lparr>p_data = [], p_state = P_CLEAR, p_location = loc, p_host = host\<rparr>)\<rparr> = as_ext2 bi n"
    by (simp add: n_def)
  then have ae: "alloc_vfspage loc host (as_ext2 bi s) = Some (if IS_ERR_VALUE err then (Inl err, release_page (vs_next s) (as_ext2 bi m)) else (Inr (vs_next s), as_ext2 bi m))"
    using rd rb by (simp add: alloc_vfspage_def m_def Let_def)
  have pm: "vs_pages m = (vs_pages s)(vs_next s \<mapsto> \<lparr>p_data = buf, p_state = P_CLEAR, p_location = loc, p_host = host\<rparr>)" "vs_pcache m = vs_pcache s"
    by (simp_all add: m_def n_def upd_page_def)
  have "p_state g = P_CLEAR" if "p \<in> cached m" "vs_pages m p = Some g" for p g
    using that pages_coreD(7) [OF core, of p] by (auto simp: pm page_ok_def split: if_split_asm)
  then have "pcache_put_LRU (as_ext2 bi m) = map_option (as_ext2 bi) (pcache_put_LRU_via wr m)" by (rule put_LRU_clean)
  then have "pcache_add (vs_next s) (as_ext2 bi m) = map_option (as_ext2 bi) (pcache_add_via wr (vs_next s) m)"
    using pm by (cases "pcache_put_LRU_via wr m") (simp_all add: pcache_add_def pcache_add_via_def Let_def)
  then show ?thesis
    using None by (cases "pcache_add_via wr (vs_next s) m") (simp_all add: pcache_look_up_def pcache_look_up_via_def am ae pi Let_def)
qed

lemma fat_look_up_ok:
  assumes "pages_ok own sb (as_ext2 bi s)" "loc_ok own sb (as_ext2 bi s) host loc" "bi sb = Some b" "clusters_ok b (vs_inodes s host)"
  shows "\<exists>p s'. pcache_look_up_via (readpage_of bi) wr loc host s = Some (p, s') \<and> found_page own sb (as_ext2 bi s) host loc p (as_ext2 bi s')"
proof -
  obtain p t where "pcache_look_up loc host (as_ext2 bi s) = Some (p, t)" "found_page own sb (as_ext2 bi s) host loc p t"
    using pcache_look_up_ok [OF assms(1,2)] by blast
  then show ?thesis using look_up_sim [OF assms, of wr] by (auto simp: map_option_case split: option.split_asm)
qed


section \<open>File names\<close>

text \<open>The 11 bytes of a directory entry: base and extension, filled up with blanks.\<close>

definition blanked :: "nat \<Rightarrow> u8 list \<Rightarrow> u8 list" where
  "blanked n xs = xs @ replicate (n - List.length xs) 0x20"

definition short_name :: "u8 list \<Rightarrow> u8 list \<Rightarrow> bool" where
  "short_name base ext \<longleftrightarrow> base \<noteq> [] \<and> List.length base \<le> 8 \<and> List.length ext \<le> 3 \<and> 0x20 \<notin> set base \<and> 0x20 \<notin> set ext"

lemma filter_upt_nth: "List.length (filter (\<lambda>i. P (xs ! i)) [0..<List.length xs]) = List.length (filter P xs)"
proof (induction xs rule: rev_induct)
  case (snoc x xs)
  have "filter (\<lambda>i. P ((xs @ [x]) ! i)) [0..<List.length xs] = filter (\<lambda>i. P (xs ! i)) [0..<List.length xs]"
    by (rule filter_cong [OF refl]) (simp add: nth_append)
  then show ?case using snoc by simp
qed simp

lemma to_normal_short:
  assumes "short_name base ext"
  shows "to_normal mode (blanked 8 base @ blanked 3 ext)
    = (map (base_char mode) base @ (if ext = [] then [] else 0x2E # map (ext_char mode) ext), List.length base + (if ext = [] then 0 else 1 + List.length ext))"
proof -
  let ?xs = "blanked 8 base @ blanked 3 ext"
  have l: "List.length base \<le> 8" "List.length ext \<le> 3" "base \<noteq> []" "0x20 \<notin> set base" "0x20 \<notin> set ext" using assms by (auto simp: short_name_def)
  have lx: "List.length ?xs = 11" using l by (simp add: blanked_def)
  have x0: "?xs ! 0 \<noteq> 0x20" using l by (cases base) (auto simp: blanked_def)
  let ?P = "\<lambda>i. ?xs ! i = 0x20"
  have "[0..<11] = 0 # [1..<11::nat]" by (simp add: upt_conv_Cons)
  then have "List.length (filter ?P [1..<11]) = List.length (filter ?P [0..<List.length ?xs])" using x0 lx by simp
  also have "\<dots> = List.length (filter (\<lambda>c. c = 0x20) ?xs)" by (rule filter_upt_nth)
  also have "\<dots> = (8 - List.length base) + (3 - List.length ext)"
  proof -
    have f: "filter (\<lambda>c. c = 0x20) base = []" "filter (\<lambda>c. c = 0x20) ext = []" using l(4,5) by (auto simp: filter_empty_conv)
    show ?thesis by (simp add: blanked_def f)
  qed
  finally have cnt: "11 - List.length (filter ?P [1..<11]) = List.length base + List.length ext" using l by simp
  have nb: "?xs ! i \<noteq> 0x20" if "i < List.length base" for i using that l(1,4) by (auto simp: blanked_def nth_append in_set_conv_nth)
  have dot: "min (case find ?P [1..<11] of Some i \<Rightarrow> i | None \<Rightarrow> 11) 8 = List.length base"
  proof (cases "List.length base < 8")
    case True
    have b: "?P (List.length base)" using True by (simp add: blanked_def nth_append)
    have "[1..<11] = [1..<List.length base] @ List.length base # [Suc (List.length base)..<11]"
    proof -
      have "1 \<le> List.length base" using l(3) by (cases base) auto
      then have "[1..<11] = [1..<List.length base] @ [List.length base..<11]" using True upt_add_eq_append [of 1 "List.length base" "11 - List.length base"] by simp
      then show ?thesis using True by (simp add: upt_conv_Cons)
    qed
    moreover have "find ?P [1..<List.length base] = None" using nb by (simp add: find_None_iff)
    ultimately have "find ?P [1..<11] = Some (List.length base)" using b by (simp add: find_append)
    then show ?thesis using True by simp
  next
    case False
    then have 8: "List.length base = 8" using l(1) by simp
    have "8 \<le> i" if "find ?P [1..<11] = Some i" for i
    proof (rule ccontr)
      assume "\<not> 8 \<le> i"
      then have "?xs ! i \<noteq> 0x20" using nb 8 by simp
      moreover have "?P i" using that by (auto simp: find_Some_iff)
      ultimately show False by simp
    qed
    then show ?thesis using 8 by (cases "find ?P [1..<11]") auto
  qed
  have e8: "?P 8 \<longleftrightarrow> ext = []" using l by (cases ext) (auto simp: blanked_def nth_append)
  have tk: "take (List.length base) ?xs = base" by (simp add: blanked_def)
  have dr: "drop 8 ?xs = blanked 3 ext" using l by (simp add: blanked_def)
  have tw: "takeWhile (\<lambda>c. c \<noteq> 0x20) (blanked 3 ext) = ext" using l(5)
    by (simp add: blanked_def takeWhile_append)
  show ?thesis
    unfolding to_normal_def MAX_FAT32_SHORT_FILE_NAME_LEN_def MAX_FAT32_SHORT_FILE_NAME_BASE_LEN_def Let_def dot tk dr tw e8 using cnt by (cases "ext = []") simp_all
qed

lemma name_of_bytes:
  assumes "List.length xs < 2 ^ 32"
  shows "name_of \<lparr>q_name = (\<lambda>i. if i < List.length xs then xs ! i else f i), q_len = of_nat (List.length xs)\<rparr> = xs"
  using assms by (intro nth_equalityI) (simp_all add: name_of_def unat_of_nat_u32)

lemma convert_short:
  assumes "short_name base ext" "\<forall>i < 11. q_name src i = (blanked 8 base @ blanked 3 ext) ! i"
  shows "name_of (fat32_convert_filename junk src mode FAT32_NAME_SPECIFIC_TO_NORMAL) = map (base_char mode) base @ (if ext = [] then [] else 0x2E # map (ext_char mode) ext)"
proof -
  let ?xs = "map (base_char mode) base @ (if ext = [] then [] else 0x2E # map (ext_char mode) ext)"
  have l: "List.length base \<le> 8" "List.length ext \<le> 3" using assms(1) by (simp_all add: short_name_def)
  have m: "map (q_name src) [0..<11] = blanked 8 base @ blanked 3 ext"
    by (rule nth_equalityI) (use l assms(2) in \<open>simp_all add: blanked_def\<close>)
  have "List.length ?xs = List.length base + (if ext = [] then 0 else 1 + List.length ext)" by simp
  then have t: "to_normal mode (blanked 8 base @ blanked 3 ext) = (?xs, List.length ?xs)" using to_normal_short [OF assms(1)] by (simp only:)
  have "fat32_convert_filename junk src mode FAT32_NAME_SPECIFIC_TO_NORMAL
      = \<lparr>q_name = (\<lambda>i. if i < List.length ?xs then ?xs ! i else if i = List.length ?xs then 0 else junk i), q_len = of_nat (List.length ?xs)\<rparr>"
    unfolding fat32_convert_filename_def FAT32_NAME_SPECIFIC_TO_NORMAL_def FAT32_NAME_NORMAL_TO_SPECIFIC_def
      MAX_FAT32_SHORT_FILE_NAME_LEN_def m t Let_def prod.case by (simp only: if_False if_True one_neq_zero refl)
  then show ?thesis using name_of_bytes [of ?xs] l by simp
qed

lemma fe_qstr_short:
  assumes "short_name base ext" "fe_name a buf = blanked 8 base @ blanked 3 ext"
  shows "name_of (fe_qstr junk a buf) = map (base_char (fe_lcase a buf)) base @ (if ext = [] then [] else 0x2E # map (ext_char (fe_lcase a buf)) ext)"
  unfolding fe_qstr_def by (rule convert_short [OF assms(1)]) (simp add: assms(2))

section \<open>Searching\<close>

text \<open>The entries of a page that the driver looks at, up to the first whose name starts with 0.\<close>

definition fat_entries :: "u8 list \<Rightarrow> nat list" where
  "fat_entries buf = filter (\<lambda>a. \<not> fe_skip a buf) (takeWhile (\<lambda>a. fe_skip a buf \<or> buf ! a \<noteq> 0) (entry_starts (List.length buf)))"

definition has_name :: "(nat \<Rightarrow> u8) \<Rightarrow> qstr \<Rightarrow> u8 list \<Rightarrow> nat \<Rightarrow> bool" where
  "has_name junk name buf a \<longleftrightarrow> fat32_compare_filename (fe_qstr junk a buf) name = 0"

lemma fat_scan_eq:
  "\<forall>a \<in> set as. a + 32 \<le> List.length buf \<Longrightarrow> fat_scan junk name buf as
     = Some (find (has_name junk name buf) (filter (\<lambda>a. \<not> fe_skip a buf) (takeWhile (\<lambda>a. fe_skip a buf \<or> buf ! a \<noteq> 0) as)))"
  by (induction as) (simp_all add: FAT32_DIR_ENTRY_LEN_def has_name_def)

lemma fat_list_eq:
  "\<forall>a \<in> set as. a + 32 \<le> List.length buf \<Longrightarrow> fat_list buf as acc = Some (acc @ map (\<lambda>a. (fe_addr a buf,
     if fe_attr a buf AND ATTR_DIRECTORY \<noteq> 0 then FT_DIR else FT_REG_FILE, fst (to_normal (fe_lcase a buf) (fe_name a buf))))
       (filter (\<lambda>a. \<not> fe_skip a buf) (takeWhile (\<lambda>a. fe_skip a buf \<or> buf ! a \<noteq> 0) as)))"
  by (induction as arbitrary: acc) (simp_all add: FAT32_DIR_ENTRY_LEN_def)

lemma entry_starts_fit: "n mod 32 = 0 \<Longrightarrow> a \<in> set (entry_starts n) \<Longrightarrow> a + 32 \<le> n"
proof -
  assume m: "n mod 32 = 0" and a: "a \<in> set (entry_starts n)"
  then obtain k where k: "n = 32 * k" by auto
  obtain i where "a = 32 * i" "i < (n + 32 - 1) div 32" using a by (auto simp: entry_starts_def FAT32_DIR_ENTRY_LEN_def)
  then show "a + 32 \<le> n" using k by simp
qed


section \<open>The pages of a directory\<close>

definition fat_dir_ok :: "(u32 \<Rightarrow> nat) \<Rightarrow> fat_infos \<Rightarrow> fat32_basic_information \<Rightarrow> nat \<Rightarrow> vfs_state \<Rightarrow> bool" where
  "fat_dir_ok own bi b dir s \<longleftrightarrow> (let d = vs_inodes s dir
     in bi (i_sb d) = Some b \<and> clusters_ok b d \<and> pages_ok own (i_sb d) (as_ext2 bi s) \<and> List.length (i_page d) = unat (i_blocks d)
        \<and> (\<forall>c \<in> set (i_page d). loc_ok own (i_sb d) (as_ext2 bi s) dir c))"

text \<open>The bytes of page \<open>i\<close> on the card.\<close>

definition cluster_bytes :: "fat32_basic_information \<Rightarrow> vfs_state \<Rightarrow> nat \<Rightarrow> nat \<Rightarrow> u8 list" where
  "cluster_bytes b s dir i = (let d = vs_inodes s dir in block_bytes (vs_disk s) (fat32_sector b d (i_page d ! i)) (unat (i_blksize d) div SECSIZE))"

definition fat_same :: "vfs_state \<Rightarrow> vfs_state \<Rightarrow> bool" where
  "fat_same s s' \<longleftrightarrow> same_card (vs_disk s) (vs_disk s') \<and> vs_inodes s' = vs_inodes s \<and> vs_next s \<le> vs_next s'"

lemma fat_same_refl: "fat_same s s"
  by (simp add: fat_same_def)

lemma fat_same_trans: "fat_same s t \<Longrightarrow> fat_same t u \<Longrightarrow> fat_same s u"
  by (auto simp: fat_same_def intro: same_card_trans)

lemma cluster_bytes_same: "fat_same s t \<Longrightarrow> cluster_bytes b t dir = cluster_bytes b s dir"
  by (auto simp: fat_same_def cluster_bytes_def same_cardD(2) fun_eq_iff Let_def)

lemma fat_dirD:
  assumes "fat_dir_ok own bi b dir s"
  shows "blksize_ok (i_blksize (vs_inodes s dir))" "card_ok s"
    "i < List.length (i_page (vs_inodes s dir)) \<Longrightarrow> loc_data (as_ext2 bi s) (i_sb (vs_inodes s dir)) (i_page (vs_inodes s dir) ! i) = cluster_bytes b s dir i"
    "i < List.length (i_page (vs_inodes s dir)) \<Longrightarrow> List.length (cluster_bytes b s dir i) = unat (i_blksize (vs_inodes s dir))"
proof -
  let ?d = "vs_inodes s dir"
  note a = assms [unfolded fat_dir_ok_def Let_def]
  have core: "pages_core own (i_sb ?d) (as_ext2 bi s)" using a by (simp add: pages_ok_def)
  have bs: "blksize_ok (ex_blksize (vs_sbs (as_ext2 bi s) (i_sb ?d)))" by (rule pages_coreD(2) [OF core])
  show c: "card_ok s" using pages_coreD(1) [OF core] by simp
  have e: "i_blksize ?d = ex_blksize (vs_sbs (as_ext2 bi s) (i_sb ?d))" if "c \<in> set (i_page ?d)" for c
    using a that by (auto simp: loc_ok_def)
  show bd: "blksize_ok (i_blksize ?d)" using bs a by (simp add: as_ext2_def fat_view_def clusters_ok_def)
  {
    assume "i < List.length (i_page ?d)"
    then have lo: "loc_ok own (i_sb ?d) (as_ext2 bi s) dir (i_page ?d ! i)" using a by simp
    have lb: "i_blksize ?d = ex_blksize (vs_sbs (as_ext2 bi s) (i_sb ?d))" by (rule e [OF nth_mem]) fact
    have "fs_sect (as_ext2 bi s) (i_sb ?d) (i_page ?d ! i) = fat32_sector b ?d (i_page ?d ! i)"
      using loc_okD(1) [OF lo bs] fat32_sector_eq [where bi = bi and inode = ?d and b = b] a by simp
    then show "loc_data (as_ext2 bi s) (i_sb ?d) (i_page ?d ! i) = cluster_bytes b s dir i"
      using lb by (simp add: loc_data_def cluster_bytes_def fs_spb_def Let_def)
    show "List.length (cluster_bytes b s dir i) = unat (i_blksize ?d)"
      using c blksize_okD(3) [OF bd] by (simp add: cluster_bytes_def Let_def)
  }
qed

lemma look_up_next:
  assumes "pcache_look_up_via (readpage_of bi) (writepage_of bi) no host s = Some (p, s')"
  shows "vs_next s \<le> vs_next s'"
proof -
  have r: "vs_next t' = vs_next t" if "readpage_of bi q t = Some (e, t')" for q t e t'
    using that by (auto simp: readpage_of_def fat32_readpage_def ext2_readpage_def upd_page_def Let_def bind_eq_Some_conv case_prod_unfold split: if_split_asm)
  have w: "vs_next t' = vs_next t" if "writepage_of bi q t = Some (e, t')" for q t e t'
    using that by (auto simp: writepage_of_def fat32_writepage_def ext2_writepage_def Let_def bind_eq_Some_conv case_prod_unfold split: if_split_asm)
  have l: "vs_next t' = vs_next t" if "pcache_put_LRU_via (writepage_of bi) t = Some t'" for t t'
    using that by (auto simp: pcache_put_LRU_via_def release_page_def Let_def bind_eq_Some_conv dest: w split: if_split_asm)
  have a: "vs_next t' = vs_next t" if "pcache_add_via (writepage_of bi) q t = Some t'" for q t t'
    using that by (auto simp: pcache_add_via_def Let_def bind_eq_Some_conv dest: l split: if_split_asm)
  have al: "vs_next t \<le> vs_next t'" if "alloc_vfspage_via (readpage_of bi) no host t = Some (x, t')" for t t' x
    using that by (auto simp: alloc_vfspage_via_def release_page_def Let_def bind_eq_Some_conv dest!: r split: if_split_asm)
  show ?thesis
  proof (cases "find (page_is no host s) (c_hashtable (vs_pcache s) (unat (intHash no (c_tablesize (vs_pcache s)))))")
    case None
    then obtain x t where x: "alloc_vfspage_via (readpage_of bi) no host s = Some (x, t)"
      using assms by (auto simp: pcache_look_up_via_def Let_def bind_eq_Some_conv)
    show ?thesis
    proof (cases x)
      case (Inr q)
      then obtain u where "pcache_add_via (writepage_of bi) q t = Some u" "s' = u\<lparr>vs_acache := (vs_acache u)(host := q # vs_acache u host)\<rparr>"
        using assms None x by (auto simp: pcache_look_up_via_def Let_def bind_eq_Some_conv)
      then show ?thesis using al [OF x] a by fastforce
    qed (use assms None x in \<open>simp add: pcache_look_up_via_def Let_def\<close>)
  qed (use assms in \<open>auto simp: pcache_look_up_via_def Let_def\<close>)
qed

lemma fat_page_ok:
  assumes "fat_dir_ok own bi b dir s" "i < unat (i_blocks (vs_inodes s dir))"
  shows "\<exists>p s' g. fat_page bi dir i s = Some (p, cluster_bytes b s dir i, s') \<and> fat_dir_ok own bi b dir s' \<and> fat_same s s'
    \<and> p \<in> cached s' \<and> vs_pages s' p = Some g \<and> p_host g = dir \<and> p_location g = i_page (vs_inodes s dir) ! i \<and> p_data g = cluster_bytes b s dir i"
proof -
  let ?d = "vs_inodes s dir" and ?c = "i_page (vs_inodes s dir) ! i"
  note a = assms(1) [unfolded fat_dir_ok_def Let_def]
  have "unat (i_blocks ?d) < 2 ^ 32" by (rule order_less_le_trans [OF unsigned_less]) simp
  then have i: "i < List.length (i_page ?d)" "unat (of_nat i :: u32) = i" using a assms(2) by (simp_all add: unat_of_nat_u32)
  then have lo: "loc_ok own (i_sb ?d) (as_ext2 bi s) dir ?c" using a by simp
  obtain p s' where r: "pcache_look_up_via (readpage_of bi) (writepage_of bi) ?c dir s = Some (p, s')"
    and f: "found_page own (i_sb ?d) (as_ext2 bi s) dir ?c p (as_ext2 bi s')"
    using fat_look_up_ok [OF _ lo, of b "writepage_of bi"] a by blast
  obtain g where g: "vs_pages s' p = Some g" "p_host g = dir" "p_data g = cluster_bytes b s dir i" "p_location g = ?c"
    using f fat_dirD(3) [OF assms(1) i(1)] by (auto simp: found_page_def page_loc_def)
  have sf: "same_files (as_ext2 bi s) (as_ext2 bi s')" "pages_ok own (i_sb ?d) (as_ext2 bi s')" "p \<in> cached s'" using f by (simp_all add: found_page_def lru_after_def Let_def)
  then have same: "fat_same s s'" using look_up_next [OF r] by (simp add: fat_same_def same_files_def)
  then have "fat_dir_ok own bi b dir s'" using a sf(2) same_filesD(2) [OF sf(1)] by (simp add: fat_dir_ok_def Let_def fat_same_def)
  then show ?thesis using r g same sf(3) i by (intro exI [of _ p] exI [of _ s'] exI [of _ g]) (simp add: fat_page_def fat32_bmap_def)
qed

text \<open>The entries of a directory with the numbers of their pages, and the first with a name.\<close>

definition dir_entries :: "fat32_basic_information \<Rightarrow> vfs_state \<Rightarrow> nat \<Rightarrow> nat list \<Rightarrow> (nat \<times> nat) list" where
  "dir_entries b s dir is = concat (map (\<lambda>i. map (Pair i) (fat_entries (cluster_bytes b s dir i))) is)"

definition first_named :: "(nat \<Rightarrow> u8) \<Rightarrow> qstr \<Rightarrow> fat32_basic_information \<Rightarrow> vfs_state \<Rightarrow> nat \<Rightarrow> nat list \<Rightarrow> (nat \<times> nat) option" where
  "first_named junk name b s dir is = find (\<lambda>(i, a). has_name junk name (cluster_bytes b s dir i) a) (dir_entries b s dir is)"

lemma first_named_Cons:
  "first_named junk name b s dir (i # is) = (case find (has_name junk name (cluster_bytes b s dir i)) (fat_entries (cluster_bytes b s dir i)) of
     None \<Rightarrow> first_named junk name b s dir is | Some a \<Rightarrow> Some (i, a))"
proof -
  have "find (\<lambda>(i, a). P i a) (map (Pair i) xs) = map_option (Pair i) (find (P i) xs)" for P :: "nat \<Rightarrow> nat \<Rightarrow> bool" and xs
    by (induction xs) auto
  then show ?thesis by (simp add: first_named_def dir_entries_def find_append option.case_eq_if map_option_case)
qed

lemma first_named_same: "fat_same s t \<Longrightarrow> first_named junk name b t dir = first_named junk name b s dir"
  by (simp add: first_named_def dir_entries_def cluster_bytes_same fun_eq_iff)

lemma fat_find_ok:
  assumes "fat_dir_ok own bi b dir s" "\<forall>i \<in> set is. i < unat (i_blocks (vs_inodes s dir))" "ps = unat (i_blksize (vs_inodes s dir))"
  shows "\<exists>r s'. fat_find bi junk dir ps name is s = Some (r, s') \<and> fat_dir_ok own bi b dir s' \<and> fat_same s s' \<and>
    (case first_named junk name b s dir is of None \<Rightarrow> r = None
     | Some (i, a) \<Rightarrow> i \<in> set is \<and> (\<exists>p g. r = Some (p, a) \<and> p \<in> cached s' \<and> vs_pages s' p = Some g \<and> p_host g = dir
         \<and> p_location g = i_page (vs_inodes s dir) ! i \<and> p_data g = cluster_bytes b s dir i))"
  using assms
proof (induction "is" arbitrary: s)
  case Nil
  then show ?case by (auto simp: first_named_def dir_entries_def fat_same_refl)
next
  case (Cons i "is")
  obtain p t g where t: "fat_page bi dir i s = Some (p, cluster_bytes b s dir i, t)" "fat_dir_ok own bi b dir t" "fat_same s t"
    "p \<in> cached t" "vs_pages t p = Some g" "p_host g = dir" "p_location g = i_page (vs_inodes s dir) ! i" "p_data g = cluster_bytes b s dir i"
    using fat_page_ok [OF Cons.prems(1), of i] Cons.prems(2) by auto
  let ?buf = "cluster_bytes b s dir i"
  have "i < List.length (i_page (vs_inodes s dir))" using Cons.prems(1,2) by (simp add: fat_dir_ok_def Let_def)
  then have len: "List.length ?buf = ps" "ps mod 32 = 0" using fat_dirD(1,4) [OF Cons.prems(1)] Cons.prems(3) by (auto simp: blksize_ok_def)
  have sc: "fat_scan junk name ?buf (entry_starts ps) = Some (find (has_name junk name ?buf) (fat_entries ?buf))"
    using fat_scan_eq [of "entry_starts ps" ?buf junk name] entry_starts_fit [OF len(2)] len(1) by (simp add: fat_entries_def)
  show ?case
  proof (cases "find (has_name junk name ?buf) (fat_entries ?buf)")
    case (Some a)
    then show ?thesis using t sc by (auto simp: first_named_Cons)
  next
    case None
    have "vs_inodes t = vs_inodes s" using t(3) by (simp add: fat_same_def)
    then obtain r u where u: "fat_find bi junk dir ps name is t = Some (r, u)" "fat_dir_ok own bi b dir u" "fat_same t u"
      "case first_named junk name b s dir is of None \<Rightarrow> r = None
       | Some (i, a) \<Rightarrow> i \<in> set is \<and> (\<exists>p g. r = Some (p, a) \<and> p \<in> cached u \<and> vs_pages u p = Some g \<and> p_host g = dir
           \<and> p_location g = i_page (vs_inodes s dir) ! i \<and> p_data g = cluster_bytes b s dir i)"
      using Cons.IH [OF t(2), unfolded \<open>vs_inodes t = vs_inodes s\<close> first_named_same [OF t(3)] cluster_bytes_same [OF t(3)]] Cons.prems(2,3) by fastforce
    have "fat_find bi junk dir ps name (i # is) s = Some (r, u)" using t(1) sc None u(1) by simp
    moreover have "fat_same s u" by (rule fat_same_trans [OF t(3) u(3)])
    moreover have "case first_named junk name b s dir (i # is) of None \<Rightarrow> r = None
       | Some (j, a) \<Rightarrow> j \<in> set (i # is) \<and> (\<exists>p g. r = Some (p, a) \<and> p \<in> cached u \<and> vs_pages u p = Some g \<and> p_host g = dir
           \<and> p_location g = i_page (vs_inodes s dir) ! j \<and> p_data g = cluster_bytes b s dir j)"
      using u(4) None by (auto simp: first_named_Cons split: option.splits)
    ultimately show ?thesis using u(2) by blast
  qed
qed


section \<open>The file allocation table\<close>

definition fat_entry :: "(u32 \<Rightarrow> u8 list) \<Rightarrow> fat32_basic_information \<Rightarrow> u32 \<Rightarrow> u32" where
  "fat_entry f b clu = le32 (4 * unat (clu AND 127)) (f (fat_base b + drop_bit 7 clu))"

lemma read_fat_eq:
  assumes "card_ok s"
  shows "read_fat b clu s = Some (fat_entry (sectors (vs_disk s)) b clu, io s)"
proof -
  have "unat (clu AND 127) \<le> 127" using word_and_le1 [of 127 clu] word_and_le1 [of clu 127] by (auto simp: word_le_nat_alt and.commute)
  then have "unat (push_bit 2 (clu AND 127)) = 4 * unat (clu AND 127)"
    using unat_mult_lem [of "clu AND 127" 4] by (simp add: push_bit_eq_mult)
  then show ?thesis using assms by (simp add: read_fat_def fat_entry_def SECTOR_SHIFT_def FAT32_FAT_ENTRY_LEN_SHIFT_def push_bit_eq_mult)
qed

text \<open>The chain of clusters of a file, up to the mark of its end.\<close>

inductive fat_chain :: "(u32 \<Rightarrow> u8 list) \<Rightarrow> fat32_basic_information \<Rightarrow> u32 \<Rightarrow> u32 list \<Rightarrow> bool" for f b where
  fat_chain_end: "fat_chain f b 0x0FFFFFFF []"
| fat_chain_next: "clu \<noteq> 0x0FFFFFFF \<Longrightarrow> fat_chain f b (fat_entry f b clu) cs \<Longrightarrow> fat_chain f b clu (clu # cs)"

inductive_cases fat_chain_NilE: "fat_chain f b clu []"
inductive_cases fat_chain_ConsE: "fat_chain f b clu (c # cs)"

lemma chain_blocks_ok:
  assumes "fat_chain f b clu cs" "card_ok s" "sectors (vs_disk s) = f"
  shows "chain_blocks b clu n s = Some (n + of_nat (List.length cs), if cs = [] then s else io s)"
  using assms
proof (induction arbitrary: n s rule: fat_chain.induct)
  case fat_chain_end
  then show ?case by (simp add: chain_blocks.simps)
next
  case (fat_chain_next clu cs)
  have "chain_blocks b (fat_entry f b clu) (n + 1) (io s) = Some (n + 1 + of_nat (List.length cs), io s)"
    using fat_chain_next.IH [of "io s" "n + 1"] fat_chain_next.prems by simp
  then show ?case using fat_chain_next.hyps(1) fat_chain_next.prems
    by (subst chain_blocks.simps) (simp add: read_fat_eq algebra_simps)
qed

section \<open>Looking up, deleting and listing\<close>

definition fat_file :: "fat32_basic_information \<Rightarrow> vfs_state \<Rightarrow> nat \<Rightarrow> nat \<Rightarrow> u8 list \<Rightarrow> nat \<Rightarrow> vfs_state \<Rightarrow> bool" where
  "fat_file b s dir a buf n t \<longleftrightarrow> (let i = vs_inodes t n; d = vs_inodes s dir
     in i_count i = 1 \<and> i_ino i = fe_addr a buf \<and> i_size i = fe_size a buf \<and> i_blksize i = i_blksize d \<and> i_sb i = i_sb d
        \<and> i_op i = (if fe_attr a buf AND ATTR_DIRECTORY \<noteq> 0 then Dir_ops else File_create_ops))"

lemma fat_new_inode_ok:
  assumes "card_ok s" "fat_chain (sectors (vs_disk s)) b (fe_addr a buf) cs" "List.length cs < 2 ^ 32"
  shows "\<exists>t. fat_new_inode b dir a buf s = Some (vs_next s, t) \<and> fat_file b s dir a buf (vs_next s) t
    \<and> i_blocks (vs_inodes t (vs_next s)) = of_nat (List.length cs) \<and> i_page (vs_inodes t (vs_next s)) = replicate (List.length cs) (fe_addr a buf)
    \<and> sectors (vs_disk t) = sectors (vs_disk s) \<and> (\<forall>i. i \<noteq> vs_next s \<longrightarrow> vs_inodes t i = vs_inodes s i)"
proof -
  define u where "u = upd_inode (vs_next s) (\<lambda>i. i\<lparr>i_count := 1, i_ino := fe_addr a buf, i_blkbits := i_blkbits (vs_inodes s dir), i_blksize := i_blksize (vs_inodes s dir),
      i_sb := i_sb (vs_inodes s dir), i_size := fe_size a buf, i_blocks := 0, i_op := (if fe_attr a buf AND ATTR_DIRECTORY \<noteq> 0 then Dir_ops else File_create_ops)\<rparr>)
      (s\<lparr>vs_next := vs_next s + 1, vs_acache := (vs_acache s)(vs_next s := [])\<rparr>)"
  have u: "vs_disk u = vs_disk s" by (simp add: u_def upd_inode_def)
  define v where "v = (if cs = [] then u else io u)"
  have v: "chain_blocks b (fe_addr a buf) 0 u = Some (of_nat (List.length cs), v)"
    using chain_blocks_ok [OF assms(2), of u 0] assms(1) u by (simp add: v_def)
  have iv: "vs_inodes v = vs_inodes u" "sectors (vs_disk v) = sectors (vs_disk s)" by (simp_all add: v_def u)
  have "unat (of_nat (List.length cs) :: u32) = List.length cs" using assms(3) by (simp add: unat_of_nat_u32)
  then have "fat_new_inode b dir a buf s = Some (vs_next s, upd_inode (vs_next s) (\<lambda>i. i\<lparr>i_blocks := of_nat (List.length cs), i_page := replicate (List.length cs) (fe_addr a buf)\<rparr>) v)"
    using v by (simp add: fat_new_inode_def Let_def u_def)
  then show ?thesis by (auto simp: fat_file_def Let_def upd_inode_def iv) (simp_all add: u_def upd_inode_def)
qed

lemma fat_find_entry_ok:
  assumes "fat_dir_ok own bi b dir s" "ps = unat (i_blksize (vs_inodes s dir))" "all = [0..<unat (i_blocks (vs_inodes s dir))]"
  shows "\<exists>r s'. fat_find_entry bi junk dir ps name s = Some (r, s') \<and> fat_dir_ok own bi b dir s' \<and> fat_same s s' \<and>
    (case first_named junk name b s dir all of None \<Rightarrow> r = None
     | Some (i, a) \<Rightarrow> i < unat (i_blocks (vs_inodes s dir)) \<and> (\<exists>p g. r = Some (p, a) \<and> p \<in> cached s' \<and> vs_pages s' p = Some g \<and> p_host g = dir
         \<and> p_location g = i_page (vs_inodes s dir) ! i \<and> p_data g = cluster_bytes b s dir i))"
proof -
  obtain r s' where "fat_find bi junk dir ps name all s = Some (r, s')" "fat_dir_ok own bi b dir s'" "fat_same s s'"
    "case first_named junk name b s dir all of None \<Rightarrow> r = None
     | Some (i, a) \<Rightarrow> i \<in> set all \<and> (\<exists>p g. r = Some (p, a) \<and> p \<in> cached s' \<and> vs_pages s' p = Some g \<and> p_host g = dir
         \<and> p_location g = i_page (vs_inodes s dir) ! i \<and> p_data g = cluster_bytes b s dir i)"
    using fat_find_ok [OF assms(1) _ assms(2), of all junk name] assms(3) by fastforce
  then show ?thesis using assms(3) by (auto simp: fat_find_entry_def split: option.splits)
qed

text \<open>Writing a page of the directory.\<close>

lemma fat_write_ok:
  assumes "fat_dir_ok own bi b dir s" "p \<in> cached s" "vs_pages s p = Some g" "p_host g = dir" "p_location g = i_page (vs_inodes s dir) ! i"
    and "i < unat (i_blocks (vs_inodes s dir))" "List.length xs = unat (i_blksize (vs_inodes s dir))"
  shows "\<exists>t. fat32_writepage bi p (upd_page p (\<lambda>g. g\<lparr>p_data := xs\<rparr>) s) = Some (0, t) \<and> fat_dir_ok own bi b dir t \<and> vs_inodes t = vs_inodes s
    \<and> sectors (vs_disk t) = written (fat32_sector b (vs_inodes s dir) (p_location g)) (unat (i_blksize (vs_inodes s dir)) div SECSIZE) xs (sectors (vs_disk s))
    \<and> (\<forall>j < unat (i_blocks (vs_inodes s dir)). cluster_bytes b t dir j = (if i_page (vs_inodes s dir) ! j = p_location g then xs else cluster_bytes b s dir j))"
proof -
  let ?d = "vs_inodes s dir" and ?u = "upd_page p (\<lambda>g. g\<lparr>p_data := xs\<rparr>) s"
  note a = assms(1) [unfolded fat_dir_ok_def Let_def]
  have lo: "loc_ok own (i_sb ?d) (as_ext2 bi s) dir (p_location g)" using a assms(5,6) by simp
  have core: "pages_core own (i_sb ?d) (as_ext2 bi s)" using a by (simp add: pages_ok_def)
  note bs = pages_coreD(2) [OF core]
  have spb: "fs_spb (as_ext2 bi s) (i_sb ?d) = unat (i_blksize ?d) div SECSIZE" "fs_spb (as_ext2 bi s) (i_sb ?d) * SECSIZE = unat (i_blksize ?d)"
    using lo blksize_okD(3) [OF fat_dirD(1) [OF assms(1)]] by (simp_all add: loc_ok_def fs_spb_def)
  have pl: "page_loc (as_ext2 bi s) p = p_location g" by (simp add: page_loc_def assms(3))
  have sect: "fs_sect (as_ext2 bi s) (i_sb ?d) (p_location g) = fat32_sector b ?d (p_location g)"
    using loc_okD(1) [OF lo bs] fat32_sector_eq [where bi = bi and inode = ?d and b = b] a by simp
  obtain t' where t': "put_page p xs (as_ext2 bi s) = Some (0, t')" "pages_ok own (i_sb ?d) t'" "vs_inodes t' = vs_inodes s" "vs_sbs t' = vs_sbs (as_ext2 bi s)"
    "sectors (vs_disk t') = written (fat32_sector b ?d (p_location g)) (unat (i_blksize ?d) div SECSIZE) xs (sectors (vs_disk s))"
    "\<forall>loc. loc_fits (as_ext2 bi s) (i_sb ?d) loc \<longrightarrow> loc_data t' (i_sb ?d) loc = (if loc = p_location g then xs else loc_data (as_ext2 bi s) (i_sb ?d) loc)"
    using put_page_ok [of own "i_sb ?d" "as_ext2 bi s" p xs] a assms(2,7) spb pl sect by auto
  have "ext2_writepage p (as_ext2 bi ?u) = map_option (apsnd (as_ext2 bi)) (fat32_writepage bi p ?u)"
    by (rule writepage_sim [where g = "g\<lparr>p_data := xs\<rparr>" and b = b]) (use assms(3,4) a lo in \<open>simp_all add: upd_page_def loc_ok_def\<close>)
  then obtain t where t: "fat32_writepage bi p ?u = Some (0, t)" "t' = as_ext2 bi t"
    using t'(1) by (auto simp: put_page_def map_option_case split: option.split_asm)
  have it: "vs_inodes t = vs_inodes s" using t'(3) t(2) by simp
  have lk: "loc_ok own (i_sb ?d) (as_ext2 bi t) = loc_ok own (i_sb ?d) (as_ext2 bi s)"
    using t'(4) it t(2) by (simp add: loc_ok_def fs_spb_def fun_eq_iff)
  have ok: "fat_dir_ok own bi b dir t" using a t'(2) t(2) it lk by (simp add: fat_dir_ok_def Let_def)
  have "cluster_bytes b t dir j = (if i_page ?d ! j = p_location g then xs else cluster_bytes b s dir j)" if j: "j < unat (i_blocks ?d)" for j
  proof -
    have jl: "j < List.length (i_page ?d)" using a j by simp
    then have "loc_fits (as_ext2 bi s) (i_sb ?d) (i_page ?d ! j)" using a by (auto simp: loc_ok_def loc_fits_def)
    then show ?thesis using t'(6) fat_dirD(3) [OF ok, of j] fat_dirD(3) [OF assms(1) jl] jl it t(2) by (auto split: if_splits)
  qed
  then show ?thesis using t(1) ok it t'(5) t(2) by auto
qed

text \<open>What a listing gives for an entry.\<close>

definition fat_dirent :: "nat \<Rightarrow> u8 list \<Rightarrow> dirent" where
  "fat_dirent a buf = (fe_addr a buf, if fe_attr a buf AND ATTR_DIRECTORY \<noteq> 0 then FT_DIR else FT_REG_FILE, fst (to_normal (fe_lcase a buf) (fe_name a buf)))"

lemma fat_readdir_pages_ok:
  assumes "fat_dir_ok own bi b dir s" "\<forall>i \<in> set is. i < unat (i_blocks (vs_inodes s dir))"
  shows "\<exists>s'. fat_readdir_pages bi dir is acc s = Some (0, acc @ map (\<lambda>(i, a). fat_dirent a (cluster_bytes b s dir i)) (dir_entries b s dir is), s')
    \<and> fat_dir_ok own bi b dir s' \<and> fat_same s s'"
  using assms
proof (induction "is" arbitrary: acc s)
  case Nil
  then show ?case by (simp add: dir_entries_def fat_same_refl)
next
  case (Cons i "is")
  let ?d = "vs_inodes s dir"
  obtain p t g where t: "fat_page bi dir i s = Some (p, cluster_bytes b s dir i, t)" "fat_dir_ok own bi b dir t" "fat_same s t"
    using fat_page_ok [OF Cons.prems(1), of i] Cons.prems(2) by auto
  let ?buf = "cluster_bytes b s dir i"
  note a = Cons.prems(1) [unfolded fat_dir_ok_def Let_def]
  have i: "i < List.length (i_page ?d)" using Cons.prems(2) a by simp
  have "unat (i_blocks ?d) < 2 ^ 32" by (rule order_less_le_trans [OF unsigned_less]) simp
  then have ui: "unat (of_nat i :: u32) = i" using a i by (simp add: unat_of_nat_u32)
  have it: "vs_inodes t = vs_inodes s" using t(3) by (simp add: fat_same_def)
  have nz: "i_page ?d ! i \<noteq> 0" using a nth_mem [OF i] by (auto simp: loc_ok_def)
  have len: "List.length ?buf = unat (i_blksize ?d)" "unat (i_blksize ?d) mod 32 = 0" using fat_dirD(1) [OF Cons.prems(1)] fat_dirD(4) [OF Cons.prems(1) i] by (auto simp: blksize_ok_def)
  have ls: "fat_list ?buf (entry_starts (unat (i_blksize ?d))) acc = Some (acc @ map (\<lambda>a. fat_dirent a ?buf) (fat_entries ?buf))"
    using fat_list_eq [of "entry_starts (unat (i_blksize ?d))" ?buf acc] entry_starts_fit [OF len(2)] len(1) by (simp add: fat_entries_def fat_dirent_def)
  obtain u where u: "fat_readdir_pages bi dir is (acc @ map (\<lambda>a. fat_dirent a ?buf) (fat_entries ?buf)) t
      = Some (0, (acc @ map (\<lambda>a. fat_dirent a ?buf) (fat_entries ?buf)) @ map (\<lambda>(i, a). fat_dirent a (cluster_bytes b t dir i)) (dir_entries b t dir is), u)"
    "fat_dir_ok own bi b dir u" "fat_same t u"
    using Cons.IH [OF t(2), of "acc @ map (\<lambda>a. fat_dirent a ?buf) (fat_entries ?buf)"] Cons.prems(2) it by auto
  have "dir_entries b t dir is = dir_entries b s dir is" using cluster_bytes_same [OF t(3)] by (simp add: dir_entries_def)
  then have "fat_readdir_pages bi dir (i # is) acc s = Some (0, acc @ map (\<lambda>(i, a). fat_dirent a (cluster_bytes b s dir i)) (dir_entries b s dir (i # is)), u)"
    using t(1) ls u(1) nz ui i it cluster_bytes_same [OF t(3)] by (simp add: fat32_bmap_def dir_entries_def comp_def)
  then show ?case using u(2) fat_same_trans [OF t(3) u(3)] by blast
qed

end
