(* ===== verification/Fat32Props.thy ===== *)
theory Fat32Props
  imports Fat32Inv DcacheInv
begin

text \<open>The properties of the FAT32 driver: names, looking up, listing and deleting in a directory.\<close>

section \<open>A small partition\<close>

text \<open>The directory of one cluster, 5, holds the file \<open>A.TXT\<close> of 1500 bytes in the clusters 7 and 8.\<close>

definition sample_entry :: "u8 list" where
  "sample_entry = [65, 32, 32, 32, 32, 32, 32, 32, 84, 88, 84, 32, 0, 0, 0, 0, 0, 0, 0, 0, 0, 0, 0, 0, 0, 0, 7, 0, 0xDC, 5, 0, 0]"

definition sample_table :: "u8 list" where
  "sample_table = replicate 28 0 @ [8, 0, 0, 0, 255, 255, 255, 15] @ replicate 476 0"

definition sample_info :: fat32_basic_information where
  "sample_info = \<lparr>dbr_base = 0, dbr_reserved = 32, dbr_fat_num = 1, dbr_fat_size = 68, dbr_root_clu = 5, dbr_sec_per_clu = 2, fat_base = 32, data_sec = 100, root_sec = 106\<rparr>"

definition sample_fat :: vfs_state where
  "sample_fat = sample_fs\<lparr>vs_disk := \<lparr>sectors = (\<lambda>k. if k = 106 then sample_entry @ replicate 480 0 else if k = 32 then sample_table else replicate 512 0),
       sd_status = (\<lambda>_. 1), sd_ie = False\<rparr>,
     vs_inodes := (\<lambda>_. (vs_inodes sample_fs 1)\<lparr>i_blocks := 1, i_page := [5], i_op := Dir_ops\<rparr>)\<rparr>"

abbreviation (input) sample_bi :: fat_infos where
  "sample_bi \<equiv> [0 \<mapsto> sample_info]"

lemma sample_fat_dir: "fat_dir_ok (\<lambda>_. 1) sample_bi sample_info 1 sample_fat"
proof -
  let ?s = "as_ext2 sample_bi sample_fat"
  have e: "ex_blksize (vs_sbs ?s 0) = 1024" "ex_base (vs_sbs ?s 0) = 96" by (simp_all add: as_ext2_def fat_view_def sample_info_def SECTOR_SHIFT_def)
  have pc: "vs_pcache ?s = vs_pcache sample_fs" by (simp add: sample_fat_def)
  have "chains_ok (vs_pcache ?s) (bucket ?s)"
    by (simp add: sample_fat_def sample_fs_def init_pcache_def) (intro chains_ok_init [OF refl], simp)
  then have "pages_core (\<lambda>_. 1) 0 ?s" using pc e
    by (simp add: pages_core_def disk_ok_def blksize_ok_def) (simp add: sample_fat_def sample_entry_def sample_table_def SECSIZE_def)
  moreover have "acache_ok (\<lambda>_. 1) ?s (cached ?s)" by (simp add: acache_ok_def pc) (simp add: sample_fat_def)
  ultimately have "pages_ok (\<lambda>_. 1) 0 ?s" by (simp add: pages_ok_def)
  moreover have "loc_ok (\<lambda>_. 1) 0 ?s 1 5" using e by (simp add: loc_ok_def fs_spb_def SECSIZE_def) (simp add: sample_fat_def)
  ultimately show ?thesis by (simp add: fat_dir_ok_def Let_def clusters_ok_def) (simp add: sample_fat_def sample_info_def SECTOR_SHIFT_def)
qed

lemma sample_fat_bytes: "cluster_bytes sample_info sample_fat 1 0 = sample_entry @ replicate 480 0 @ replicate 512 0"
proof -
  have "[0..<2] = [0, 1 :: nat]" by (simp add: upt_rec)
  then show ?thesis
    by (simp add: cluster_bytes_def block_bytes_def fat32_sector_def sample_fat_def sample_info_def SECTOR_SHIFT_def SECSIZE_def del: replicate.simps)
qed

lemma sample_fat_page:
  defines "buf \<equiv> sample_entry @ replicate 480 0 @ replicate 512 0"
  shows "fat_entries buf = [0]" "fe_name 0 buf = blanked 8 [65] @ blanked 3 [84, 88, 84]" "fe_addr 0 buf = 7" "fe_size 0 buf = 1500" "fe_attr 0 buf = 32" "fe_lcase 0 buf = 0"
proof -
  have l: "List.length buf = 1024" by (simp add: buf_def sample_entry_def)
  have b: "buf ! 0 = 65" "buf ! 32 = 0" "buf ! 11 = 32" "buf ! 43 = 0"
    by (simp_all add: buf_def sample_entry_def nth_append del: replicate.simps)
  have "entry_starts 1024 = 0 # 32 # map ((*) 32) [2..<32]" by (simp add: entry_starts_def FAT32_DIR_ENTRY_LEN_def upt_conv_Cons)
  then show "fat_entries buf = [0]" using b by (simp add: fat_entries_def l fe_skip_def fe_attr_def)
  show "fe_name 0 buf = blanked 8 [65] @ blanked 3 [84, 88, 84]"
    by (simp add: fe_name_def buf_def sample_entry_def MAX_FAT32_SHORT_FILE_NAME_LEN_def blanked_def numeral_eq_Suc)
  show "fe_addr 0 buf = 7" "fe_size 0 buf = 1500" "fe_attr 0 buf = 32" "fe_lcase 0 buf = 0"
    by (simp_all add: fe_addr_def fe_starthi_def fe_startlo_def fe_size_def fe_attr_def fe_lcase_def le16_def le32_def get_u16_def get_u32_def buf_def sample_entry_def nth_append)
qed

lemma sample_chain: "fat_chain (sectors (vs_disk sample_fat)) sample_info 7 [7, 8]"
proof -
  have "fat_entry (sectors (vs_disk sample_fat)) sample_info 7 = 8" "fat_entry (sectors (vs_disk sample_fat)) sample_info 8 = 0x0FFFFFFF"
    by (simp_all add: fat_entry_def sample_fat_def sample_info_def le32_def get_u32_def sample_table_def nth_append del: replicate.simps)
  then have "fat_chain (sectors (vs_disk sample_fat)) sample_info 8 [8]" "fat_entry (sectors (vs_disk sample_fat)) sample_info 7 = 8"
    by (simp_all add: fat_chain_next fat_chain_end)
  then show ?thesis by (intro fat_chain_next) simp_all
qed

text \<open>A dentry with the name in lower case, in that directory.\<close>

definition sample_fat_names :: name_state where
  "sample_fat_names = (sample_names 1 (\<lambda>_. 1) 0)\<lparr>ns_fs := sample_fat, ns_dents := [1 \<mapsto> sample_dentry (\<lambda>_. 1) 0 1,
     2 \<mapsto> (sample_dentry (\<lambda>_. 1) 0 2)\<lparr>d_name := \<lparr>q_name = (\<lambda>i. [97, 46, 116, 120, 116] ! i), q_len = 5\<rparr>\<rparr>]\<rparr>"

lemma sample_first:
  "first_named junk \<lparr>q_name = (\<lambda>i. [97, 46, 116, 120, 116] ! i), q_len = 5\<rparr> sample_info sample_fat 1 [0..<1] = Some (0, 0)"
proof -
  have "name_of (fe_qstr junk 0 (cluster_bytes sample_info sample_fat 1 0)) = [65, 46, 84, 88, 84]"
    using fe_qstr_short [OF _ sample_fat_page(2), of junk] sample_fat_page(6)
    by (simp add: short_name_def base_char_def ext_char_def sample_fat_bytes sample_fat_bytes [unfolded One_nat_def])
  then have "has_name junk \<lparr>q_name = (\<lambda>i. [97, 46, 116, 120, 116] ! i), q_len = 5\<rparr> (cluster_bytes sample_info sample_fat 1 0) 0"
    by (simp add: has_name_def fat32_compare_iff) (simp add: name_of_def upt_rec fat32_upper_def)
  then show ?thesis by (simp add: first_named_def dir_entries_def sample_fat_bytes sample_fat_bytes [unfolded One_nat_def] sample_fat_page(1))
qed

section \<open>Names\<close>

text \<open>The conversion of a directory entry's name, blank-filled base and extension, gives the base, and behind a dot the extension if there is one, in the case that the entry asks for; its length is right.\<close>

theorem fat32_convert_filename_correct:
  assumes "short_name base ext" "\<forall>i < 11. q_name src i = (blanked 8 base @ blanked 3 ext) ! i"
  shows "name_of (fat32_convert_filename junk src mode FAT32_NAME_SPECIFIC_TO_NORMAL) = map (base_char mode) base @ (if ext = [] then [] else 0x2E # map (ext_char mode) ext)"
  using assms by (rule convert_short)

theorem fat32_convert_filename_correct_witness:
  "name_of (fat32_convert_filename (\<lambda>_. 0) \<lparr>q_name = (\<lambda>i. (blanked 8 [65, 66] @ blanked 3 [67]) ! i), q_len = 11\<rparr> 0x18 FAT32_NAME_SPECIFIC_TO_NORMAL) = [97, 98, 46, 99]"
proof -
  have "short_name [65, 66] [67]" by (simp add: short_name_def)
  from fat32_convert_filename_correct [OF this, of "\<lparr>q_name = (\<lambda>i. (blanked 8 [65, 66] @ blanked 3 [67]) ! i), q_len = 11\<rparr>" "\<lambda>_. 0" "0x18"]
  show ?thesis by (simp add: base_char_def ext_char_def to_lower_def)
qed

section \<open>Directories\<close>

text \<open>C14: a lookup in a FAT32 directory gives no dentry when no entry has the name, compared without regard to case; for the first entry that has it, the dentry gets a new inode with the entry's first cluster, size and kind and the number of clusters of its chain in the table, but with every page mapped to the first cluster and not to the next one of the chain. Nothing on the card changes.\<close>

theorem fat32_inode_lookup_correct:
  assumes "fat_dir_ok own bi b dir (ns_fs s)" "ns_dents s dentry = Some d" "all = [0..<unat (i_blocks (inode_of s dir))]"
  shows "case first_named junk (d_name d) b (ns_fs s) dir all of
      None \<Rightarrow> \<exists>s'. fat32_inode_lookup bi junk dir dentry s = Some (Inr NULL, s') \<and> ns_dents s' = ns_dents s \<and> fat_dir_ok own bi b dir (ns_fs s') \<and> fat_same (ns_fs s) (ns_fs s')
    | Some (i, a) \<Rightarrow> \<forall>cs. fat_chain (sectors (vs_disk (ns_fs s))) b (fe_addr a (cluster_bytes b (ns_fs s) dir i)) cs \<and> List.length cs < 2 ^ 32 \<longrightarrow>
        (\<exists>s' n. fat32_inode_lookup bi junk dir dentry s = Some (Inr dentry, s') \<and> vs_next (ns_fs s) \<le> n
          \<and> ns_dents s' = (ns_dents s)(dentry \<mapsto> d\<lparr>d_inode := n, d_op := Fat32_compare, d_alias := Linked\<rparr>)
          \<and> fat_file b (ns_fs s) dir a (cluster_bytes b (ns_fs s) dir i) n (ns_fs s') \<and> i_blocks (inode_of s' n) = of_nat (List.length cs)
          \<and> i_page (inode_of s' n) = replicate (List.length cs) (fe_addr a (cluster_bytes b (ns_fs s) dir i)) \<and> sectors (vs_disk (ns_fs s')) = sectors (vs_disk (ns_fs s)))"
proof -
  let ?ps = "unat (i_blksize (inode_of s dir))"
  obtain r fs where r: "fat_find_entry bi junk dir ?ps (d_name d) (ns_fs s) = Some (r, fs)" "fat_dir_ok own bi b dir fs" "fat_same (ns_fs s) fs"
    "case first_named junk (d_name d) b (ns_fs s) dir all of None \<Rightarrow> r = None
     | Some (i, a) \<Rightarrow> i < unat (i_blocks (inode_of s dir)) \<and> (\<exists>p g. r = Some (p, a) \<and> p \<in> cached fs \<and> vs_pages fs p = Some g \<and> p_host g = dir
         \<and> p_location g = i_page (inode_of s dir) ! i \<and> p_data g = cluster_bytes b (ns_fs s) dir i)"
    using fat_find_entry_ok [OF assms(1) refl assms(3) [unfolded inode_of_def], of junk "d_name d"] unfolding inode_of_def by blast
  show ?thesis
  proof (cases "first_named junk (d_name d) b (ns_fs s) dir all")
    case None
    then have "fat32_inode_lookup bi junk dir dentry s = Some (Inr NULL, s\<lparr>ns_fs := fs\<rparr>)" using r(1,4) assms(2) by (simp add: fat32_inode_lookup_def)
    then show ?thesis using None r(2,3) by simp
  next
    case (Some ia)
    obtain i a where ia: "ia = (i, a)" by (cases ia)
    let ?buf = "cluster_bytes b (ns_fs s) dir i"
    obtain p g where p: "r = Some (p, a)" "vs_pages fs p = Some g" "p_data g = ?buf" using r(4) Some ia by auto
    have card: "card_ok fs" "sectors (vs_disk fs) = sectors (vs_disk (ns_fs s))" "vs_inodes fs = vs_inodes (ns_fs s)" "vs_next (ns_fs s) \<le> vs_next fs"
      using fat_dirD(2) [OF r(2)] r(3) by (simp_all add: fat_same_def same_card_def)
    have b: "bi (i_sb (vs_inodes fs dir)) = Some b" using r(2) by (simp add: fat_dir_ok_def Let_def)
    {
      fix cs assume cs: "fat_chain (sectors (vs_disk (ns_fs s))) b (fe_addr a ?buf) cs" "List.length cs < 2 ^ 32"
      obtain t where t: "fat_new_inode b dir a ?buf fs = Some (vs_next fs, t)" "fat_file b fs dir a ?buf (vs_next fs) t" "i_blocks (vs_inodes t (vs_next fs)) = of_nat (List.length cs)"
        "i_page (vs_inodes t (vs_next fs)) = replicate (List.length cs) (fe_addr a ?buf)" "sectors (vs_disk t) = sectors (vs_disk fs)"
        using fat_new_inode_ok [OF card(1), of b a ?buf cs dir] cs card(2) by auto
      define s' where "s' = upd_dentry dentry (\<lambda>d. d\<lparr>d_inode := vs_next fs, d_op := Fat32_compare, d_alias := Linked\<rparr>) (s\<lparr>ns_fs := t\<rparr>)"
      have "fat32_inode_lookup bi junk dir dentry s = Some (Inr dentry, s')"
        using r(1) p b t(1) assms(2) by (simp add: fat32_inode_lookup_def s'_def)
      moreover have "ns_fs s' = t" "ns_dents s' = (ns_dents s)(dentry \<mapsto> d\<lparr>d_inode := vs_next fs, d_op := Fat32_compare, d_alias := Linked\<rparr>)"
        by (simp_all add: s'_def upd_dentry_def assms(2))
      moreover have "fat_file b (ns_fs s) dir a ?buf (vs_next fs) t" using t(2) card(3) by (simp add: fat_file_def)
      ultimately have "\<exists>s' n. fat32_inode_lookup bi junk dir dentry s = Some (Inr dentry, s') \<and> vs_next (ns_fs s) \<le> n
          \<and> ns_dents s' = (ns_dents s)(dentry \<mapsto> d\<lparr>d_inode := n, d_op := Fat32_compare, d_alias := Linked\<rparr>)
          \<and> fat_file b (ns_fs s) dir a ?buf n (ns_fs s') \<and> i_blocks (inode_of s' n) = of_nat (List.length cs)
          \<and> i_page (inode_of s' n) = replicate (List.length cs) (fe_addr a ?buf) \<and> sectors (vs_disk (ns_fs s')) = sectors (vs_disk (ns_fs s))"
        using t(3-5) card(2,4) by (intro exI [of _ s'] exI [of _ "vs_next fs"]) (simp add: inode_of_def)
    }
    then show ?thesis using Some ia by simp
  qed
qed

theorem fat32_inode_lookup_correct_witness:
  "\<exists>s' n. fat32_inode_lookup sample_bi (\<lambda>_. 0) 1 2 sample_fat_names = Some (Inr 2, s') \<and> i_ino (inode_of s' n) = 7 \<and> i_size (inode_of s' n) = 1500
    \<and> i_blocks (inode_of s' n) = 2 \<and> i_page (inode_of s' n) = [7, 7] \<and> i_op (inode_of s' n) = File_create_ops"
proof -
  let ?q = "\<lparr>q_name = (\<lambda>i. [97, 46, 116, 120, 116] ! i), q_len = 5\<rparr> :: qstr" and ?buf = "sample_entry @ replicate 480 0 @ replicate 512 0"
  have s: "ns_fs sample_fat_names = sample_fat" "ns_dents sample_fat_names 2 = Some ((sample_dentry (\<lambda>_. 1) 0 2)\<lparr>d_name := ?q\<rparr>)"
    by (simp_all add: sample_fat_names_def)
  have dn: "d_name ((sample_dentry (\<lambda>_. 1) 0 2)\<lparr>d_name := ?q\<rparr>) = ?q" by simp
  have all: "[0..<1] = [0..<unat (i_blocks (inode_of sample_fat_names 1))]" by (simp add: inode_of_def s(1)) (simp add: sample_fat_def)
  have "fat_dir_ok (\<lambda>_. 1) sample_bi sample_info 1 (ns_fs sample_fat_names)" using sample_fat_dir s(1) by simp
  from fat32_inode_lookup_correct [OF this s(2) all, of "\<lambda>_. 0"]
  have "\<forall>cs. fat_chain (sectors (vs_disk sample_fat)) sample_info 7 cs \<and> List.length cs < 2 ^ 32 \<longrightarrow> (\<exists>s' n. fat32_inode_lookup sample_bi (\<lambda>_. 0) 1 2 sample_fat_names = Some (Inr 2, s')
      \<and> fat_file sample_info sample_fat 1 0 ?buf n (ns_fs s') \<and> i_blocks (inode_of s' n) = of_nat (List.length cs) \<and> i_page (inode_of s' n) = replicate (List.length cs) 7)"
    unfolding s(1) dn sample_first option.case prod.case sample_fat_bytes sample_fat_page(3) by blast
  from this [THEN spec [of _ "[7, 8]"], THEN mp] sample_chain
  obtain s' n where "fat32_inode_lookup sample_bi (\<lambda>_. 0) 1 2 sample_fat_names = Some (Inr 2, s')" "fat_file sample_info sample_fat 1 0 ?buf n (ns_fs s')"
    "i_blocks (inode_of s' n) = of_nat (List.length [7, 8 :: u32])" "i_page (inode_of s' n) = replicate (List.length [7, 8 :: u32]) 7"
    by auto
  then show ?thesis using sample_fat_page(3-5) by (auto simp: fat_file_def Let_def inode_of_def ATTR_DIRECTORY_def)
qed

text \<open>C15: deleting a file marks the first directory entry of its name, on the card and in the cache, as deleted and changes no other byte of the directory; when no entry has the name it reports that and changes nothing on the card.\<close>

theorem fat32_delete_inode_correct:
  assumes "fat_dir_ok own bi b (d_inode par) (ns_fs s)" "ns_dents s dentry = Some d" "ns_dents s (d_parent d) = Some par" "d_inode d \<noteq> NULL" "d_inode par \<noteq> NULL"
    and "i_blksize (inode_of s (d_inode d)) = i_blksize (inode_of s (d_inode par))"
  defines "dir \<equiv> d_inode par"
  shows "case first_named junk (d_name d) b (ns_fs s) dir [0..<unat (i_blocks (inode_of s dir))] of
      None \<Rightarrow> \<exists>s'. fat32_delete_inode bi junk dentry s = Some (- ENOENT, s') \<and> fat_dir_ok own bi b dir (ns_fs s') \<and> sectors (vs_disk (ns_fs s')) = sectors (vs_disk (ns_fs s))
    | Some (i, a) \<Rightarrow> \<exists>s'. fat32_delete_inode bi junk dentry s = Some (0, s') \<and> fat_dir_ok own bi b dir (ns_fs s')
        \<and> (\<forall>j < unat (i_blocks (inode_of s dir)). cluster_bytes b (ns_fs s') dir j =
             (if i_page (inode_of s dir) ! j = i_page (inode_of s dir) ! i then (cluster_bytes b (ns_fs s) dir i)[a := 0xE5] else cluster_bytes b (ns_fs s) dir j))"
proof -
  let ?d = "inode_of s dir"
  obtain r fs where r: "fat_find_entry bi junk dir (unat (i_blksize ?d)) (d_name d) (ns_fs s) = Some (r, fs)" "fat_dir_ok own bi b dir fs" "fat_same (ns_fs s) fs"
    "case first_named junk (d_name d) b (ns_fs s) dir [0..<unat (i_blocks ?d)] of None \<Rightarrow> r = None
     | Some (i, a) \<Rightarrow> i < unat (i_blocks ?d) \<and> (\<exists>p g. r = Some (p, a) \<and> p \<in> cached fs \<and> vs_pages fs p = Some g \<and> p_host g = dir
         \<and> p_location g = i_page ?d ! i \<and> p_data g = cluster_bytes b (ns_fs s) dir i)"
    using fat_find_entry_ok [OF assms(1) refl refl, of junk "d_name d"] unfolding inode_of_def dir_def by blast
  have fs: "sectors (vs_disk fs) = sectors (vs_disk (ns_fs s))" "vs_inodes fs = vs_inodes (ns_fs s)" using r(3) by (simp_all add: fat_same_def same_card_def)
  show ?thesis
  proof (cases "first_named junk (d_name d) b (ns_fs s) dir [0..<unat (i_blocks ?d)]")
    case None
    then have "fat32_delete_inode bi junk dentry s = Some (- ENOENT, s\<lparr>ns_fs := fs\<rparr>)" using r(1,4) assms(2-6) by (simp add: fat32_delete_inode_def dir_def)
    then show ?thesis using None r(2) fs(1) by simp
  next
    case (Some ia)
    obtain i a where ia: "ia = (i, a)" by (cases ia)
    obtain p g where p: "r = Some (p, a)" "p \<in> cached fs" "vs_pages fs p = Some g" "p_host g = dir" "p_location g = i_page ?d ! i" "p_data g = cluster_bytes b (ns_fs s) dir i"
      and i: "i < unat (i_blocks ?d)" using r(4) Some ia by auto
    let ?xs = "(cluster_bytes b (ns_fs s) dir i)[a := 0xE5]"
    have id: "vs_inodes fs dir = ?d" by (simp add: fs(2) inode_of_def)
    have "i < List.length (i_page (vs_inodes fs dir))" using i r(2) id by (simp add: fat_dir_ok_def Let_def)
    then have len: "List.length ?xs = unat (i_blksize (vs_inodes fs dir))" using fat_dirD(4) [OF r(2)] cluster_bytes_same [OF r(3)] by simp
    obtain t where t: "fat32_writepage bi p (upd_page p (\<lambda>g. g\<lparr>p_data := ?xs\<rparr>) fs) = Some (0, t)" "fat_dir_ok own bi b dir t"
      "\<forall>j < unat (i_blocks ?d). cluster_bytes b t dir j = (if i_page ?d ! j = p_location g then ?xs else cluster_bytes b fs dir j)"
      using fat_write_ok [OF r(2) p(2-4) _ _ len] p(5) i id by auto
    have "upd_page p (\<lambda>g. g\<lparr>p_data := (p_data g)[a := 0xE5]\<rparr>) fs = upd_page p (\<lambda>g. g\<lparr>p_data := ?xs\<rparr>) fs" by (simp add: upd_page_def p(3,6))
    then have "fat32_delete_inode bi junk dentry s = Some (0, s\<lparr>ns_fs := t\<rparr>)"
      using r(1) p(1) t(1) assms(2-6) by (simp add: fat32_delete_inode_def dir_def)
    then show ?thesis using Some ia t(2,3) p(5) cluster_bytes_same [OF r(3)] by simp
  qed
qed

theorem fat32_delete_inode_correct_witness:
  "\<exists>s'. fat32_delete_inode sample_bi (\<lambda>_. 0) 2 sample_fat_names = Some (0, s') \<and> hd (cluster_bytes sample_info (ns_fs s') 1 0) = 0xE5"
proof -
  let ?q = "\<lparr>q_name = (\<lambda>i. [97, 46, 116, 120, 116] ! i), q_len = 5\<rparr> :: qstr" and ?d = "sample_dentry (\<lambda>_. 1) 0"
  have s: "ns_fs sample_fat_names = sample_fat" "ns_dents sample_fat_names 2 = Some ((?d 2)\<lparr>d_name := ?q\<rparr>)" "ns_dents sample_fat_names 1 = Some (?d 1)"
    by (simp_all add: sample_fat_names_def)
  have d: "d_inode (?d 1) = 1" "d_inode ((?d 2)\<lparr>d_name := ?q\<rparr>) = 1" "d_parent ((?d 2)\<lparr>d_name := ?q\<rparr>) = 1" "d_name ((?d 2)\<lparr>d_name := ?q\<rparr>) = ?q" by (simp_all add: sample_dentry_def)
  have b: "unat (i_blocks (inode_of sample_fat_names 1)) = 1" by (simp add: inode_of_def s(1)) (simp add: sample_fat_def)
  have "fat_dir_ok (\<lambda>_. 1) sample_bi sample_info (d_inode (?d 1)) (ns_fs sample_fat_names)" using sample_fat_dir s(1) d(1) by simp
  from fat32_delete_inode_correct [OF this s(2), unfolded d(3), OF s(3), of "\<lambda>_. 0", unfolded d b s(1) sample_first option.case prod.case]
  obtain s' where "fat32_delete_inode sample_bi (\<lambda>_. 0) 2 sample_fat_names = Some (0, s')" "cluster_bytes sample_info (ns_fs s') 1 0 = (cluster_bytes sample_info sample_fat 1 0)[0 := 0xE5]"
    by auto
  then show ?thesis using sample_fat_bytes by (simp add: sample_entry_def)
qed

text \<open>C16: listing a FAT32 directory returns, in the order of the pages, its entries up to the mark of the end of each page, without deleted entries, volume labels and long names, each with its first cluster, kind and converted name, and changes nothing on the card.\<close>

theorem fat32_readdir_correct:
  assumes "fat_dir_ok own bi b dir s"
  shows "\<exists>s'. fat32_readdir bi dir s = Some (0, map (\<lambda>(i, a). fat_dirent a (cluster_bytes b s dir i)) (dir_entries b s dir [0..<unat (i_blocks (vs_inodes s dir))]), s')
    \<and> fat_dir_ok own bi b dir s' \<and> fat_same s s'"
  using fat_readdir_pages_ok [OF assms, of "[0..<unat (i_blocks (vs_inodes s dir))]" "[]"] by (simp add: fat32_readdir_def)

theorem fat32_readdir_correct_witness:
  "\<exists>s'. fat32_readdir sample_bi 1 sample_fat = Some (0, [(7, FT_REG_FILE, [65, 46, 84, 88, 84])], s')"
proof -
  let ?buf = "sample_entry @ replicate 480 0 @ replicate 512 0"
  have "short_name [65] [84, 88, 84]" by (simp add: short_name_def)
  from to_normal_short [OF this, of 0] have "fat_dirent 0 ?buf = (7, FT_REG_FILE, [65, 46, 84, 88, 84])"
    by (simp add: fat_dirent_def sample_fat_page ATTR_DIRECTORY_def base_char_def ext_char_def)
  moreover have "unat (i_blocks (vs_inodes sample_fat 1)) = 1" by (simp add: sample_fat_def)
  ultimately show ?thesis using fat32_readdir_correct [OF sample_fat_dir]
    by (auto simp: dir_entries_def sample_fat_bytes sample_fat_bytes [unfolded One_nat_def] sample_fat_page(1))
qed

end
