(* ===== verification/VfsBoot.thy ===== *)
theory VfsBoot
  imports VfsInit Fat32
begin

text \<open>
  The start of the virtual file system: \<open>init_fat32\<close> of \<open>fat32.c\<close>, which makes the root of the name space, \<open>init_vfs\<close> of \<open>vfs.c\<close>, which runs
  through the partition table, and \<open>mount_ext2\<close> of \<open>mount.c\<close>.
\<close>

section \<open>The FAT32 partition\<close>

text \<open>What \<open>init_fat32\<close> derives from the boot sector.\<close>

definition fat32_basics :: "u32 \<Rightarrow> u8 list \<Rightarrow> fat32_basic_information" where
  "fat32_basics base buf =
     (let sec_per_clu = ucast (buf ! 0x0D); reserved = ucast (le16 0x0E buf); fat_num = ucast (buf ! 0x10);
          fat_size = le32 0x24 buf; root_clu = le32 0x2C buf;
          fat = base + reserved; data = fat + fat_num * fat_size
      in \<lparr>dbr_base = base, dbr_reserved = reserved, dbr_fat_num = fat_num, dbr_fat_size = fat_size, dbr_root_clu = root_clu, dbr_sec_per_clu = sec_per_clu,
          fat_base = fat, data_sec = data, root_sec = data + (root_clu - 2) * sec_per_clu\<rparr>)"

definition block_bits :: "u32 \<Rightarrow> u32 option" where
  "block_bits blksize =
     (if blksize = 1024 then Some 10 else if blksize = 2048 then Some 11 else if blksize = 4096 then Some 12 else if blksize = 8192 then Some 13 else None)"

text \<open>The root directory is read ahead; an error ends the start.\<close>

fun fat_preload :: "fat_infos \<Rightarrow> nat \<Rightarrow> u32 list \<Rightarrow> vfs_state \<Rightarrow> (u32 \<times> vfs_state) option" where
  "fat_preload bi host [] s = Some (0, s)"
| "fat_preload bi host (loc # locs) s = do {
     (r, s) \<leftarrow> alloc_vfspage_via (readpage_of bi) loc host s;
     case r of
       Inl err \<Rightarrow> Some (err, s)
     | Inr p \<Rightarrow> do {
         s \<leftarrow> pcache_add_via (writepage_of bi) p s;
         fat_preload bi host locs (s\<lparr>vs_acache := (vs_acache s)(host := p # vs_acache s host)\<rparr>)
       }
   }"

text \<open>The inode of the root; its size is not set.\<close>

definition fat_root_inode :: "fat32_basic_information \<Rightarrow> nat \<Rightarrow> u32 \<Rightarrow> u32 \<Rightarrow> inode \<Rightarrow> inode" where
  "fat_root_inode b sb blksize bits i =
     i\<lparr>i_count := 1, i_ino := dbr_root_clu b, i_op := Dir_ops, i_sb := sb, i_blocks := 0, i_blksize := blksize, i_blkbits := bits\<rparr>"

definition fat_root_mount :: "nat \<Rightarrow> nat \<Rightarrow> name_state \<Rightarrow> name_state" where
  "fat_root_mount root sb s =
     (let m = ns_mnext s
      in s\<lparr>ns_mnext := m + 1, ns_mnts := (ns_mnts s)(m \<mapsto> \<lparr>mnt_parent = m, mnt_mountpoint = root, mnt_root = root, mnt_sb = sb, mnt_mounts = []\<rparr>),
           ns_mnt_ring := [m], root_mnt := m, pwd_mnt := m\<rparr>)"

definition init_fat32 :: "u32 \<Rightarrow> fat_infos \<Rightarrow> name_state \<Rightarrow> (u32 \<times> fat_infos \<times> name_state) option" where
  "init_fat32 base bi s = do {
     let (err, buf, fs) = read_sects base 1 (ns_fs s);
     let (err2, info, fs2) = read_sects (base + 1) 1 fs;
     if err then Some (- EIO, bi, s\<lparr>ns_fs := fs\<rparr>)
     else if err2 then Some (- EIO, bi, s\<lparr>ns_fs := fs2\<rparr>)
     else do {
       let b = fat32_basics base buf;
       let blksize = push_bit SECTOR_SHIFT (dbr_sec_per_clu b);
       let (ty, s) = fresh (s\<lparr>ns_fs := fs2\<rparr>);
       s \<leftarrow> Some (upd_fstype ty (\<lambda>_. \<lparr>fst_name = [102, 97, 116, 51, 50], fst_next = NULL, fs_supers = []\<rparr>) s);
       let (ty, s) = register_filesystem ty s;
       let (sb, s) = fresh s;
       let bi = bi(sb \<mapsto> b);
       s \<leftarrow> Some (s\<lparr>ns_fs := (ns_fs s)\<lparr>vs_sbs := (vs_sbs (ns_fs s))(sb := (vs_sbs (ns_fs s) sb)\<lparr>ex_blksize := blksize\<rparr>)\<rparr>,
                    ns_sb_name := (ns_sb_name s)(sb := [47, 100, 101, 118, 47, 115, 100, 49])\<rparr>);
       s \<leftarrow> Some (upd_fstype ty (\<lambda>t. t\<lparr>fs_supers := sb # fs_supers t\<rparr>) s);
       let root = ns_dnext s;
       s \<leftarrow> Some (s\<lparr>ns_dnext := root + 1, root_dentry := root, ns_dents := (ns_dents s)(root \<mapsto> \<lparr>d_count = 1, d_pinned = D_PINNED, d_mounted = 0,
         d_inode = NULL, d_parent = NULL, d_name = \<lparr>q_name = (\<lambda>i. if i = 0 then 47 else 0), q_len = 1\<rparr>, d_subdirs = [], d_alias = Linked, d_op = Fat32_compare, d_sb = sb\<rparr>)\<rparr>);
       s \<leftarrow> dcache_add root s;
       let (i, s) = fresh (s\<lparr>pwd_dentry := root, ns_sb_root := (ns_sb_root s)(sb := root)\<rparr>);
       case block_bits blksize of
         None \<Rightarrow> Some (- EFAULT, bi, s)
       | Some bits \<Rightarrow> do {
           s \<leftarrow> modify_dentry root (\<lambda>d. d\<lparr>d_inode := i\<rparr>) s;
           let fs = upd_inode i (fat_root_inode b sb blksize bits) (ns_fs s);
           (n, fs) \<leftarrow> chain_blocks b (dbr_root_clu b) 0 (fs\<lparr>vs_acache := (vs_acache fs)(i := [])\<rparr>);
           (cs, fs) \<leftarrow> chain_pages b (unat n) (dbr_root_clu b) fs;
           (err, fs) \<leftarrow> fat_preload bi i cs (upd_inode i (\<lambda>i. i\<lparr>i_blocks := n, i_page := cs\<rparr>) fs);
           s \<leftarrow> Some (s\<lparr>ns_fs := fs\<rparr>);
           Some (if err \<noteq> 0 then (err, bi, s) else (0, bi, fat_root_mount root sb s))
         }
     }
   }"

section \<open>The start\<close>

text \<open>The device of partition \<open>i\<close> is \<open>/dev/sda\<close> and a digit.\<close>

definition dev_name :: "nat \<Rightarrow> u8 list" where
  "dev_name i = [47, 100, 101, 118, 47, 115, 100, 97, 48 + of_nat i + 1]"

fun init_partitions :: "master_boot_record \<Rightarrow> nat list \<Rightarrow> name_state \<Rightarrow> (u32 \<times> name_state) option" where
  "init_partitions mbr [] s = Some (0, s)"
| "init_partitions mbr (i # is) s =
     (if m_type mbr ! i = PARTITION_TYPE_EXT2 then do {
        (err, s) \<leftarrow> init_ext2 (m_base mbr ! i) (dev_name i) s;
        if IS_ERR_VALUE err then Some (err, s) else init_partitions mbr is s
      } else init_partitions mbr is s)"

definition init_vfs :: "fat_infos \<Rightarrow> name_state \<Rightarrow> (u32 \<times> fat_infos \<times> name_state) option" where
  "init_vfs bi s = do {
     let s = init_file_systems s;
     let (r, fs) = vfs_read_MBR (ns_fs s);
     s \<leftarrow> Some (s\<lparr>ns_fs := fs\<rparr>);
     case r of
       Inl err \<Rightarrow> Some (err, bi, s)
     | Inr mbr \<Rightarrow> do {
         let s = init_dcache (s\<lparr>ns_fs := init_pcache (ns_fs s)\<rparr>);
         (err, bi, s) \<leftarrow> init_fat32 (m_base mbr ! 0) bi s;
         if IS_ERR_VALUE err then Some (err, bi, s)
         else do {
           (err, s) \<leftarrow> init_partitions mbr [1..<unat (m_count mbr)] s;
           Some (err, bi, s)
         }
       }
   }"

section \<open>The fixed mount\<close>

text \<open>The type of a super block is the one that lists it.\<close>

definition sb_type_name :: "nat \<Rightarrow> name_state \<Rightarrow> u8 list option" where
  "sb_type_name sb s = map_option (\<lambda>t. fst_name (ns_fstypes s t)) (find (\<lambda>t. sb \<in> set (fs_supers (ns_fstypes s t))) (file_systems s))"

text \<open>The loop over the mounts never goes on to the next one: a first mount of another type is looked at for ever.\<close>

definition mount_ext2 :: "name_state \<Rightarrow> (u32 \<times> name_state) option" where
  "mount_ext2 s =
     (case ring_from (root_mnt s) (ns_mnt_ring s) of
        [] \<Rightarrow> Some (- ENOENT, s)
      | mnt # _ \<Rightarrow> do {
          m \<leftarrow> ns_mnts s mnt;
          name \<leftarrow> sb_type_name (mnt_sb m) s;
          _ \<leftarrow> c_guard (name = [101, 120, 116, 50]);
          (dentry, s) \<leftarrow> d_alloc (root_dentry s) \<lparr>q_name = (\<lambda>i. if i < 4 then [101, 120, 116, 50] ! i else 0), q_len = 4\<rparr> s;
          r \<leftarrow> ns_dents s (mnt_root m);
          s \<leftarrow> modify_dentry dentry (\<lambda>d. d\<lparr>d_mounted := 1, d_inode := d_inode r\<rparr>) s;
          Some (0, upd_mnt mnt (\<lambda>m. m\<lparr>mnt_mountpoint := dentry, mnt_parent := root_mnt s\<rparr>) s)
        })"

end
