(* ===== verification/FsCache.thy ===== *)
theory FsCache
  imports Disk
begin

text \<open>
  The buffers of the old FAT driver, \<open>kernel/fs/fscache/fscache.c\<close>: small arrays of buffers with a clock for the replacement. The functions for
  buffers of 512 bytes and of a cluster (4 KB) are twins and share one body here, with the number of sectors and the function that writes a
  buffer back as arguments. \<open>cur\<close> is the sector a buffer holds, 0xFFFFFFFF for none; bit 0 of \<open>state\<close> is the reference bit, bit 1 the dirty bit.
  An index 0xFFFFFFFF, which reports an error, is \<open>None\<close>; the indices themselves are below 4 and are natural numbers.
\<close>

record fs_buf =
  fb_data :: "u8 list"
  fb_cur :: u32
  fb_state :: u32

record buf_array =
  ba_bufs :: "fs_buf list"
  ba_clock :: nat

definition clock_next :: "nat \<Rightarrow> nat \<Rightarrow> nat" where
  "clock_next n c = (if n \<le> c + 1 then 0 else c + 1)"

text \<open>The first sweep stops at a buffer that is neither referenced nor dirty and clears the reference bits on its way.\<close>

primrec fs_sweep1 :: "nat \<Rightarrow> fs_buf list \<Rightarrow> nat \<Rightarrow> bool \<times> fs_buf list \<times> nat" where
  "fs_sweep1 0 bs c = (False, bs, c)"
| "fs_sweep1 (Suc n) bs c =
     (let b = bs ! c
      in if fb_state b AND 1 = 0 then
           if fb_state b AND 2 = 0 then (True, bs, c) else fs_sweep1 n bs (clock_next (List.length bs) c)
         else fs_sweep1 n (bs[c := b\<lparr>fb_state := fb_state b AND 0xfe\<rparr>]) (clock_next (List.length bs) c))"

text \<open>The second sweep stops at a buffer that is not dirty, or after a full turn.\<close>

primrec fs_sweep2 :: "nat \<Rightarrow> fs_buf list \<Rightarrow> nat \<Rightarrow> nat" where
  "fs_sweep2 0 bs c = c"
| "fs_sweep2 (Suc n) bs c = (if fb_state (bs ! c) AND 2 = 0 then c else fs_sweep2 n bs (clock_next (List.length bs) c))"

definition fs_victim :: "buf_array \<Rightarrow> (nat \<times> buf_array) option" where
  "fs_victim a = do {
     let n = List.length (ba_bufs a);
     _ \<leftarrow> c_guard (ba_clock a < n);
     let (found, bs, c) = fs_sweep1 n (ba_bufs a) (ba_clock a);
     let c = (if found then c else fs_sweep2 n bs c);
     Some (c, \<lparr>ba_bufs = bs, ba_clock = clock_next n c\<rparr>)
   }"

definition fs_victim_4k :: "buf_array \<Rightarrow> (nat \<times> buf_array) option" where "fs_victim_4k = fs_victim"
definition fs_victim_512 :: "buf_array \<Rightarrow> (nat \<times> buf_array) option" where "fs_victim_512 = fs_victim"

type_synonym buf_writer = "fs_buf \<Rightarrow> disk \<Rightarrow> (bool \<times> fs_buf \<times> disk) option"

definition fs_write_buf :: "u32 \<Rightarrow> buf_writer" where
  "fs_write_buf n f d =
     (if fb_cur f \<noteq> 0xffffffff \<and> fb_state f AND 2 \<noteq> 0 then do {
        _ \<leftarrow> c_guard (unat n * SECSIZE \<le> List.length (fb_data f));
        let (err, d) = write_block (fb_data f) (fb_cur f) n d;
        Some (if err = 1 then (True, f, d) else (False, f\<lparr>fb_state := fb_state f AND 1\<rparr>, d))
      } else Some (False, f, d))"

text \<open>The buffer that holds \<open>sect\<close> already, or else the victim with the sectors read into it.\<close>

definition fs_lookup :: "u32 \<Rightarrow> fs_buf list \<Rightarrow> nat option" where
  "fs_lookup sect bs = find (\<lambda>i. fb_cur (bs ! i) = sect) [0..<List.length bs]"

definition fs_set :: "nat \<Rightarrow> fs_buf \<Rightarrow> buf_array \<Rightarrow> buf_array" where
  "fs_set i f a = a\<lparr>ba_bufs := (ba_bufs a)[i := f]\<rparr>"

definition fs_read_buf :: "buf_writer \<Rightarrow> u32 \<Rightarrow> u32 \<Rightarrow> buf_array \<Rightarrow> disk \<Rightarrow> (nat option \<times> buf_array \<times> disk) option" where
  "fs_read_buf wr n sect a d =
     (case fs_lookup sect (ba_bufs a) of
        Some i \<Rightarrow> let f = ba_bufs a ! i in Some (Some i, fs_set i (f\<lparr>fb_state := fb_state f OR 1\<rparr>) a, d)
      | None \<Rightarrow> do {
          (i, a) \<leftarrow> fs_victim a;
          (err, f, d) \<leftarrow> wr (ba_bufs a ! i) d;
          a \<leftarrow> Some (fs_set i f a);
          if err then Some (None, a, d)
          else do {
            _ \<leftarrow> c_guard (unat n * SECSIZE \<le> List.length (fb_data f));
            let (err, buf, d) = read_block (fb_data f) sect n d;
            if err = 1 then Some (None, fs_set i (f\<lparr>fb_data := buf\<rparr>) a, d)
            else Some (Some i, fs_set i \<lparr>fb_data = buf, fb_cur = sect, fb_state = 1\<rparr> a, d)
          }
        })"

text \<open>A buffer for sectors that are known to be 0; it is not marked as dirty.\<close>

definition fs_clr_buf :: "buf_writer \<Rightarrow> u32 \<Rightarrow> u32 \<Rightarrow> buf_array \<Rightarrow> disk \<Rightarrow> (bool \<times> buf_array \<times> disk) option" where
  "fs_clr_buf wr n cur a d = do {
     (i, a) \<leftarrow> fs_victim a;
     (err, f, d) \<leftarrow> wr (ba_bufs a ! i) d;
     a \<leftarrow> Some (fs_set i f a);
     if err then Some (True, a, d)
     else do {
       _ \<leftarrow> c_guard (unat n * SECSIZE \<le> List.length (fb_data f));
       Some (False, fs_set i \<lparr>fb_data = put_bytes 0 (replicate (unat n * SECSIZE) 0) (fb_data f), fb_cur = cur, fb_state = 0\<rparr> a, d)
     }
   }"

text \<open>The functions of the code. \<open>base\<close> is \<open>fat_info.base_addr\<close> and \<open>spc\<close> the number of sectors per cluster.\<close>

definition fs_write_4k :: "u32 \<Rightarrow> buf_writer" where "fs_write_4k spc = fs_write_buf spc"
definition fs_write_512 :: buf_writer where "fs_write_512 = fs_write_buf 1"

definition fs_read_4k :: "u32 \<Rightarrow> u32 \<Rightarrow> u32 \<Rightarrow> buf_array \<Rightarrow> disk \<Rightarrow> (nat option \<times> buf_array \<times> disk) option" where
  "fs_read_4k base spc sect = fs_read_buf (fs_write_4k spc) spc (sect + base)"

definition fs_read_512 :: "u32 \<Rightarrow> u32 \<Rightarrow> buf_array \<Rightarrow> disk \<Rightarrow> (nat option \<times> buf_array \<times> disk) option" where
  "fs_read_512 base sect = fs_read_buf fs_write_512 1 (sect + base)"

definition fs_clr_4k :: "u32 \<Rightarrow> u32 \<Rightarrow> buf_array \<Rightarrow> disk \<Rightarrow> (bool \<times> buf_array \<times> disk) option" where
  "fs_clr_4k spc cur = fs_clr_buf (fs_write_4k spc) spc cur"

definition fs_clr_512 :: "u32 \<Rightarrow> buf_array \<Rightarrow> disk \<Rightarrow> (bool \<times> buf_array \<times> disk) option" where
  "fs_clr_512 cur = fs_clr_buf fs_write_512 1 cur"

section \<open>Transfers to part of a buffer\<close>

lemma sd_write_loop_take:
  "\<forall>i \<in> set is. i < n \<Longrightarrow> sd_write_loop (take (n * SECSIZE) buf) addr is d = sd_write_loop buf addr is d"
proof (induction "is" arbitrary: d)
  case (Cons i "is")
  have "i * SECSIZE + SECSIZE \<le> n * SECSIZE"
  proof -
    have "Suc i * SECSIZE \<le> n * SECSIZE" using Cons.prems by (intro mult_le_mono1) simp
    then show ?thesis by simp
  qed
  then have "take SECSIZE (drop (i * SECSIZE) (take (n * SECSIZE) buf)) = take SECSIZE (drop (i * SECSIZE) buf)"
    by (simp add: drop_take min_def)
  then show ?case using Cons by (simp add: case_prod_unfold)
qed simp

lemma write_part_ok:
  assumes "disk_ok d" "unat n * SECSIZE \<le> List.length buf"
  shows "\<exists>d'. write_block buf addr n d = (0, d') \<and> sectors d' = written addr (unat n) (take (unat n * SECSIZE) buf) (sectors d) \<and> sd_status d' = sd_status d \<and> disk_ok d'"
proof -
  let ?b = "take (unat n * SECSIZE) buf"
  have l: "List.length ?b = unat n * SECSIZE" using assms(2) by simp
  obtain d' where d: "write_block ?b addr n d = (0, d')" "sectors d' = written addr (unat n) ?b (sectors d)" "sd_status d' = sd_status d"
    using write_block_ok [OF assms(1) l] by blast
  have "write_block buf addr n d = write_block ?b addr n d"
    by (simp add: write_block_def sd_write_block_def sd_write_loop_take)
  then show ?thesis using d written_ok [OF assms(1) l d(2,3)] by auto
qed

lemma put_bytes_rest: "off + List.length xs \<le> List.length buf \<Longrightarrow> put_bytes off xs (buf @ rest) = put_bytes off xs buf @ rest"
  by (simp add: put_bytes_def)

lemma sd_read_loop_append:
  assumes "disk_ok d" "\<forall>i \<in> set is. i < n" "List.length buf = n * SECSIZE"
  shows "sd_read_loop addr is (buf @ rest) d = (case sd_read_loop addr is buf d of (r, b, d') \<Rightarrow> (r, b @ rest, d'))"
  using assms
proof (induction "is" arbitrary: buf d)
  case (Cons i "is")
  let ?x = "sectors d (addr + of_nat i)"
  have l: "List.length ?x = SECSIZE" "sd_status d (addr + of_nat i) AND 1 \<noteq> 0" using Cons.prems(1) by (simp_all add: disk_ok_def)
  have b: "i * SECSIZE + SECSIZE \<le> List.length buf"
  proof -
    have "Suc i * SECSIZE \<le> n * SECSIZE" using Cons.prems(2) by (intro mult_le_mono1) simp
    then show ?thesis using Cons.prems(3) by simp
  qed
  have ok: "disk_ok (d\<lparr>sd_ie := True\<rparr>)" using Cons.prems(1) by (simp add: disk_ok_def)
  show ?case
    using Cons.IH [OF ok, of "put_bytes (i * SECSIZE) ?x buf"] Cons.prems(2,3) l b
    by (simp add: sd_read_sector_blocking_def put_bytes_rest)
qed simp

lemma read_part_ok:
  assumes "disk_ok d" "unat n * SECSIZE \<le> List.length buf"
  shows "\<exists>d'. read_block buf addr n d = (0, block_bytes d addr (unat n) @ drop (unat n * SECSIZE) buf, d') \<and> same_card d d'"
proof -
  let ?b = "take (unat n * SECSIZE) buf"
  have l: "List.length ?b = unat n * SECSIZE" using assms(2) by simp
  obtain d' where d: "read_block ?b addr n d = (0, block_bytes d addr (unat n), d')" "same_card d d'"
    using read_block_ok [OF assms(1) l] by blast
  have "read_block (?b @ drop (unat n * SECSIZE) buf) addr n d = (case read_block ?b addr n d of (r, b, d') \<Rightarrow> (r, b @ drop (unat n * SECSIZE) buf, d'))"
    unfolding read_block_def sd_read_block_def by (rule sd_read_loop_append [OF assms(1) _ l]) simp
  then show ?thesis using d by simp
qed

end
