(* ===== verification/FsCacheInv.thy ===== *)
theory FsCacheInv
  imports FsCache
begin

text \<open>
  What the buffers of the old FAT driver hold: a sector or cluster has one buffer at most, a buffer that is not dirty agrees with the card, and
  the contents of a block are those of its buffer or else those on the card (\<open>buf_view\<close>). The locale \<open>buffer_writer\<close> is what
  replacing and flushing need of the function that writes a buffer back; the single copy and the two copies of the allocation table have it.
\<close>

section \<open>The invariant\<close>

definition buf_ok :: "nat \<Rightarrow> u32 set \<Rightarrow> disk \<Rightarrow> fs_buf \<Rightarrow> bool" where
  "buf_ok n A d f \<longleftrightarrow> n * SECSIZE \<le> List.length (fb_data f)
     \<and> (fb_cur f \<noteq> 0xffffffff \<longrightarrow> fb_cur f \<in> A \<and> (fb_state f AND 2 = 0 \<longrightarrow> take (n * SECSIZE) (fb_data f) = block_bytes d (fb_cur f) n))"

definition bufs_ok :: "nat \<Rightarrow> u32 set \<Rightarrow> disk \<Rightarrow> buf_array \<Rightarrow> bool" where
  "bufs_ok n A d a \<longleftrightarrow> ba_clock a < List.length (ba_bufs a) \<and> (\<forall>i < List.length (ba_bufs a). buf_ok n A d (ba_bufs a ! i))
     \<and> (\<forall>i < List.length (ba_bufs a). \<forall>j < List.length (ba_bufs a). i \<noteq> j \<longrightarrow> fb_cur (ba_bufs a ! i) \<noteq> 0xffffffff \<longrightarrow> fb_cur (ba_bufs a ! j) \<noteq> fb_cur (ba_bufs a ! i))"

text \<open>The contents of the block at \<open>k\<close>.\<close>

definition buf_view :: "nat \<Rightarrow> disk \<Rightarrow> buf_array \<Rightarrow> u32 \<Rightarrow> u8 list" where
  "buf_view n d a k = (case fs_lookup k (ba_bufs a) of Some i \<Rightarrow> take (n * SECSIZE) (fb_data (ba_bufs a ! i)) | None \<Rightarrow> block_bytes d k n)"

text \<open>Nothing that a reader sees has changed, and the card only in \<open>W\<close>.\<close>

definition kept_bufs :: "nat \<Rightarrow> u32 set \<Rightarrow> u32 set \<Rightarrow> disk \<Rightarrow> buf_array \<Rightarrow> disk \<Rightarrow> buf_array \<Rightarrow> bool" where
  "kept_bufs n A W d a d' a' \<longleftrightarrow> disk_ok d' \<and> bufs_ok n A d' a' \<and> List.length (ba_bufs a') = List.length (ba_bufs a)
     \<and> (\<forall>k \<in> A. buf_view n d' a' k = buf_view n d a k) \<and> (\<forall>k. k \<notin> W \<longrightarrow> sectors d' k = sectors d k)"

lemma kept_bufs_trans: "kept_bufs n A W d a d1 a1 \<Longrightarrow> kept_bufs n A W d1 a1 d2 a2 \<Longrightarrow> kept_bufs n A W d a d2 a2"
  by (auto simp: kept_bufs_def)

lemma kept_bufsD:
  assumes "kept_bufs n A W d a d' a'"
  shows "disk_ok d'" "bufs_ok n A d' a'" "List.length (ba_bufs a') = List.length (ba_bufs a)" "\<And>k. k \<in> A \<Longrightarrow> buf_view n d' a' k = buf_view n d a k"
    "\<And>k. k \<notin> W \<Longrightarrow> sectors d' k = sectors d k"
  using assms by (auto simp: kept_bufs_def)

lemma kept_bufs_card:
  assumes "disk_ok d" "bufs_ok n A d a" "same_card d d'"
  shows "kept_bufs n A W d a d' a"
proof -
  note c = same_cardD [OF assms(3)]
  have "buf_view n d' a = buf_view n d a" unfolding buf_view_def c(2) ..
  then show ?thesis using assms c(1) unfolding kept_bufs_def bufs_ok_def buf_ok_def c(2) by (simp add: same_card_def)
qed

lemma bufs_okD:
  assumes "bufs_ok n A d a"
  shows "ba_clock a < List.length (ba_bufs a)" "\<And>i. i < List.length (ba_bufs a) \<Longrightarrow> buf_ok n A d (ba_bufs a ! i)"
    "\<And>i j. i < List.length (ba_bufs a) \<Longrightarrow> j < List.length (ba_bufs a) \<Longrightarrow> fb_cur (ba_bufs a ! i) \<noteq> 0xffffffff \<Longrightarrow> fb_cur (ba_bufs a ! j) = fb_cur (ba_bufs a ! i) \<Longrightarrow> i = j"
  using assms unfolding bufs_ok_def by blast+

lemma fs_lookup_Some: "fs_lookup k bs = Some i \<Longrightarrow> i < List.length bs \<and> fb_cur (bs ! i) = k"
  by (auto simp: fs_lookup_def find_Some_iff)

lemma fs_lookup_None: "fs_lookup k bs = None \<longleftrightarrow> (\<forall>i < List.length bs. fb_cur (bs ! i) \<noteq> k)"
  by (auto simp: fs_lookup_def find_None_iff)

lemma fs_lookup_unique:
  assumes "bufs_ok n A d a" "i < List.length (ba_bufs a)" "fb_cur (ba_bufs a ! i) = k" "k \<noteq> 0xffffffff"
  shows "fs_lookup k (ba_bufs a) = Some i"
proof (cases "fs_lookup k (ba_bufs a)")
  case None
  then show ?thesis using assms(2,3) by (auto simp: fs_lookup_None)
next
  case (Some j)
  then show ?thesis using fs_lookup_Some [OF Some] bufs_okD(3) [OF assms(1), of i j] assms(2-4) by auto
qed

lemma fs_set_simps [simp]: "List.length (ba_bufs (fs_set i f a)) = List.length (ba_bufs a)" "ba_clock (fs_set i f a) = ba_clock a"
    "i < List.length (ba_bufs a) \<Longrightarrow> ba_bufs (fs_set i f a) ! i = f"
    "ba_bufs (fs_set i f a) = (ba_bufs a)[i := f]" "fs_set i g (fs_set i f a) = fs_set i g a"
  by (simp_all add: fs_set_def)

text \<open>Replacing a buffer.\<close>

lemma bufs_ok_set:
  assumes "bufs_ok n A d a" "i < List.length (ba_bufs a)" "buf_ok n A d f"
    and "\<forall>j < List.length (ba_bufs a). j \<noteq> i \<longrightarrow> fb_cur f \<noteq> 0xffffffff \<longrightarrow> fb_cur (ba_bufs a ! j) \<noteq> fb_cur f"
  shows "bufs_ok n A d (fs_set i f a)"
  using assms unfolding bufs_ok_def by (auto simp: nth_list_update fs_set_def)

lemma bufs_ok_frame:
  assumes "bufs_ok n A d a" "i < List.length (ba_bufs a)" "buf_ok n A d' f" "fb_cur f = fb_cur (ba_bufs a ! i)"
    and "\<And>j. j < List.length (ba_bufs a) \<Longrightarrow> j \<noteq> i \<Longrightarrow> buf_ok n A d' (ba_bufs a ! j)"
  shows "bufs_ok n A d' (fs_set i f a)"
proof -
  have "fb_cur ((ba_bufs a)[i := f] ! j) = fb_cur (ba_bufs a ! j)" if "j < List.length (ba_bufs a)" for j
    using that assms(2,4) by (simp add: nth_list_update)
  moreover have "buf_ok n A d' ((ba_bufs a)[i := f] ! j)" if "j < List.length (ba_bufs a)" for j
    using that assms(2,3,5) by (simp add: nth_list_update)
  ultimately show ?thesis using assms(1) unfolding bufs_ok_def by simp
qed

lemma buf_view_set:
  assumes "bufs_ok n A d a" "i < List.length (ba_bufs a)" "bufs_ok n A d' (fs_set i f a)" "k \<noteq> 0xffffffff"
  shows "buf_view n d' (fs_set i f a) k =
    (if fb_cur f = k then take (n * SECSIZE) (fb_data f) else if fb_cur (ba_bufs a ! i) = k then block_bytes d' k n
     else case fs_lookup k (ba_bufs a) of Some j \<Rightarrow> take (n * SECSIZE) (fb_data (ba_bufs a ! j)) | None \<Rightarrow> block_bytes d' k n)"
proof (cases "fb_cur f = k")
  case True
  then have "fs_lookup k (ba_bufs (fs_set i f a)) = Some i" using assms by (intro fs_lookup_unique [OF assms(3)]) simp_all
  then show ?thesis using True assms(2) by (simp add: buf_view_def)
next
  case f: False
  show ?thesis
  proof (cases "fs_lookup k (ba_bufs a)")
    case None
    then have "fs_lookup k (ba_bufs (fs_set i f a)) = None" using f assms(2) by (auto simp: fs_lookup_None nth_list_update split: if_splits)
    then show ?thesis using None f by (simp add: buf_view_def)
  next
    case (Some j)
    note j = fs_lookup_Some [OF Some]
    show ?thesis
    proof (cases "j = i")
      case True
      have "fb_cur (ba_bufs a ! m) \<noteq> k" if "m < List.length (ba_bufs a)" "m \<noteq> i" for m
        using bufs_okD(3) [OF assms(1), of i m] that j True assms(4) by metis
      then have "fs_lookup k (ba_bufs (fs_set i f a)) = None"
        using f assms(2) unfolding fs_lookup_None by (simp add: nth_list_update)
      then show ?thesis using f j True by (simp add: buf_view_def)
    next
      case False
      then have "fs_lookup k (ba_bufs (fs_set i f a)) = Some j" using j assms(4) by (intro fs_lookup_unique [OF assms(3)]) simp_all
      moreover have "fb_cur (ba_bufs a ! i) \<noteq> k" using False bufs_okD(3) [OF assms(1), of j i] j assms(2,4) by auto
      ultimately show ?thesis using f False Some by (simp add: buf_view_def)
    qed
  qed
qed

section \<open>The victim\<close>

text \<open>Buffers that differ in reference bits only.\<close>

definition same_bufs :: "fs_buf list \<Rightarrow> fs_buf list \<Rightarrow> bool" where
  "same_bufs bs cs \<longleftrightarrow> List.length cs = List.length bs
     \<and> (\<forall>i < List.length bs. fb_data (cs ! i) = fb_data (bs ! i) \<and> fb_cur (cs ! i) = fb_cur (bs ! i) \<and> fb_state (cs ! i) AND 2 = fb_state (bs ! i) AND 2)"

lemma same_bufs_refl [simp]: "same_bufs bs bs"
  by (simp add: same_bufs_def)

lemma same_bufs_trans: "same_bufs bs cs \<Longrightarrow> same_bufs cs ds \<Longrightarrow> same_bufs bs ds"
  by (auto simp: same_bufs_def)

lemma dirty_bits: "(x AND 0xfe) AND 2 = x AND (2 :: u32)" "(x OR 1) AND 2 = x AND (2 :: u32)" "(x AND 1) AND 2 = (0 :: u32)"
  by (rule bit_word_eqI; auto simp: bit_simps)+

lemma same_bufs_ok:
  assumes "same_bufs (ba_bufs a) (ba_bufs b)" "bufs_ok n A d a" "ba_clock b < List.length (ba_bufs b)"
  shows "bufs_ok n A d b" "buf_view n d b = buf_view n d a"
proof -
  note e = assms(1) [unfolded same_bufs_def]
  show "bufs_ok n A d b" using assms(2,3) e unfolding bufs_ok_def buf_ok_def by simp
  have "fs_lookup k (ba_bufs b) = fs_lookup k (ba_bufs a)" for k
    unfolding fs_lookup_def using e by (intro find_cong) simp_all
  moreover have "take m (fb_data (ba_bufs b ! i)) = take m (fb_data (ba_bufs a ! i))" if "fs_lookup k (ba_bufs a) = Some i" for k i m
    using fs_lookup_Some [OF that] e by simp
  ultimately show "buf_view n d b = buf_view n d a" by (auto simp: buf_view_def fun_eq_iff split: option.split)
qed

lemma clock_next_mod: "c < n \<Longrightarrow> clock_next n c = (c + 1) mod n"
  by (auto simp: clock_next_def) (metis Suc_leI le_antisym mod_self)

lemma clock_next_less: "c < n \<Longrightarrow> clock_next n c < n"
  by (auto simp: clock_next_def)

lemma sweep1_ok:
  "c < List.length bs \<Longrightarrow> fs_sweep1 n bs c = (found, cs, c') \<Longrightarrow>
     same_bufs bs cs \<and> c' < List.length bs \<and> (found \<longrightarrow> fb_state (cs ! c') AND 2 = 0)"
proof (induction n arbitrary: bs c)
  case (Suc n)
  let ?b = "bs ! c"
  let ?bs = "bs[c := ?b\<lparr>fb_state := fb_state ?b AND 0xfe\<rparr>]"
  have nx: "clock_next (List.length bs) c < List.length bs" using Suc.prems(1) by (rule clock_next_less)
  show ?case
  proof (cases "fb_state ?b AND 1 = 0")
    case True
    then show ?thesis using Suc.prems Suc.IH [OF nx] by (auto simp: Let_def split: if_split_asm)
  next
    case False
    have "same_bufs bs ?bs" using Suc.prems(1) by (simp add: same_bufs_def nth_list_update dirty_bits)
    then show ?thesis using False Suc.prems Suc.IH [of _ ?bs] nx same_bufs_trans by (fastforce simp: Let_def)
  qed
qed simp

lemma sweep2_ok:
  "c < List.length bs \<Longrightarrow> fs_sweep2 n bs c < List.length bs"
  "c < List.length bs \<Longrightarrow> \<exists>j < n. fb_state (bs ! ((c + j) mod List.length bs)) AND 2 = 0 \<Longrightarrow> fb_state (bs ! fs_sweep2 n bs c) AND 2 = 0"
proof (induction n arbitrary: c)
  case (Suc n)
  have nx: "clock_next (List.length bs) c < List.length bs" if "c < List.length bs" for c using that by (rule clock_next_less)
  {
    case 1
    then show ?case using Suc.IH(1) nx by simp
  next
    case 2
    then obtain j where j: "j < Suc n" "fb_state (bs ! ((c + j) mod List.length bs)) AND 2 = 0" by blast
    show ?case
    proof (cases "fb_state (bs ! c) AND 2 = 0")
      case False
      then obtain m where m: "j = Suc m" using j 2(1) by (cases j) auto
      have "(clock_next (List.length bs) c + m) mod List.length bs = (c + j) mod List.length bs"
        using 2(1) m by (simp add: clock_next_mod mod_simps)
      then have "\<exists>j < n. fb_state (bs ! ((clock_next (List.length bs) c + j) mod List.length bs)) AND 2 = 0" using j m by (intro exI [of _ m]) simp
      then show ?thesis using Suc.IH(2) [OF nx [OF 2(1)]] False by simp
    qed simp
  }
qed simp_all

text \<open>A dirty buffer is replaced only when all are dirty.\<close>

lemma victim_ok:
  assumes "ba_clock a < List.length (ba_bufs a)"
  shows "\<exists>i b. fs_victim a = Some (i, b) \<and> i < List.length (ba_bufs a) \<and> same_bufs (ba_bufs a) (ba_bufs b) \<and> ba_clock b < List.length (ba_bufs b)
    \<and> ((\<exists>f \<in> set (ba_bufs a). fb_state f AND 2 = 0) \<longrightarrow> fb_state (ba_bufs b ! i) AND 2 = 0)"
proof -
  let ?n = "List.length (ba_bufs a)"
  obtain found bs c where s: "fs_sweep1 ?n (ba_bufs a) (ba_clock a) = (found, bs, c)" by (metis prod_cases3)
  note w = sweep1_ok [OF assms s]
  have l: "List.length bs = ?n" using w by (simp add: same_bufs_def)
  let ?i = "if found then c else fs_sweep2 ?n bs c"
  have i: "?i < ?n" using w sweep2_ok(1) [of c bs] l by auto
  have "fb_state (bs ! ?i) AND 2 = 0" if ex: "\<exists>f \<in> set (ba_bufs a). fb_state f AND 2 = 0"
  proof (cases found)
    case False
    obtain p where "p < ?n" "fb_state (ba_bufs a ! p) AND 2 = 0" using ex by (auto simp: in_set_conv_nth)
    then have p: "p < ?n" "fb_state (bs ! p) AND 2 = 0" using w by (simp_all add: same_bufs_def)
    have "(c + (p + ?n - c) mod ?n) mod ?n = p"
      using w p(1) by (simp add: mod_simps)
    then have "\<exists>j < ?n. fb_state (bs ! ((c + j) mod ?n)) AND 2 = 0" using p by (intro exI [of _ "(p + ?n - c) mod ?n"] conjI mod_less_divisor) auto
    then show ?thesis using sweep2_ok(2) [of c bs ?n] w l False by simp
  qed (use w in simp)
  moreover have "clock_next ?n ?i < ?n" using i by (rule clock_next_less)
  moreover have "fs_victim a = Some (?i, \<lparr>ba_bufs = bs, ba_clock = clock_next ?n ?i\<rparr>)"
    using assms s by (simp add: fs_victim_def Let_def)
  ultimately show ?thesis using w l i by auto
qed

section \<open>Writing back and replacing\<close>

locale buffer_writer =
  fixes wr :: buf_writer and n :: u32 and A :: "u32 set" and W :: "u32 set"
  assumes none: "0xffffffff \<notin> A"
    and wr_clean: "fb_state f AND 2 = 0 \<or> fb_cur f = 0xffffffff \<Longrightarrow> wr f d = Some (False, f, d)"
    and wr_dirty: "disk_ok d \<Longrightarrow> fb_cur f \<in> A \<Longrightarrow> fb_state f AND 2 \<noteq> 0 \<Longrightarrow> unat n * SECSIZE \<le> List.length (fb_data f) \<Longrightarrow>
      \<exists>d'. wr f d = Some (False, f\<lparr>fb_state := fb_state f AND 1\<rparr>, d') \<and> disk_ok d' \<and> block_bytes d' (fb_cur f) (unat n) = take (unat n * SECSIZE) (fb_data f)
        \<and> (\<forall>b \<in> A. b \<noteq> fb_cur f \<longrightarrow> block_bytes d' b (unat n) = block_bytes d b (unat n)) \<and> (\<forall>k. k \<notin> W \<longrightarrow> sectors d' k = sectors d k)"
begin

text \<open>Writing a buffer back leaves it clean and nothing to be seen.\<close>

lemma write_back:
  assumes "disk_ok d" "bufs_ok (unat n) A d a" "i < List.length (ba_bufs a)"
  shows "\<exists>f d'. wr (ba_bufs a ! i) d = Some (False, f, d') \<and> fb_cur f = fb_cur (ba_bufs a ! i) \<and> fb_data f = fb_data (ba_bufs a ! i)
    \<and> (fb_cur f \<noteq> 0xffffffff \<longrightarrow> fb_state f AND 2 = 0)
    \<and> (\<forall>j < List.length (ba_bufs a). fb_cur (ba_bufs a ! j) \<noteq> 0xffffffff \<longrightarrow> fb_state (ba_bufs a ! j) AND 2 = 0 \<longrightarrow> fb_state (ba_bufs (fs_set i f a) ! j) AND 2 = 0)
    \<and> kept_bufs (unat n) A W d a d' (fs_set i f a)"
proof -
  let ?f = "ba_bufs a ! i"
  note o = bufs_okD [OF assms(2)]
  note f = o(2) [OF assms(3), unfolded buf_ok_def]
  show ?thesis
  proof (cases "fb_state ?f AND 2 = 0 \<or> fb_cur ?f = 0xffffffff")
    case True
    have e: "fs_set i ?f a = a" by (simp add: fs_set_def)
    have "kept_bufs (unat n) A W d a d (fs_set i ?f a)" unfolding e using assms by (simp add: kept_bufs_def)
    then show ?thesis using wr_clean [OF True, of d] True by (auto simp: nth_list_update)
  next
    case False
    then have fA: "fb_cur ?f \<in> A" "fb_cur ?f \<noteq> 0xffffffff" "fb_state ?f AND 2 \<noteq> 0" using f by auto
    obtain d' where d: "wr ?f d = Some (False, ?f\<lparr>fb_state := fb_state ?f AND 1\<rparr>, d')" "disk_ok d'" "block_bytes d' (fb_cur ?f) (unat n) = take (unat n * SECSIZE) (fb_data ?f)"
        "\<forall>b \<in> A. b \<noteq> fb_cur ?f \<longrightarrow> block_bytes d' b (unat n) = block_bytes d b (unat n)" "\<forall>k. k \<notin> W \<longrightarrow> sectors d' k = sectors d k"
      using wr_dirty [OF assms(1) fA(1,3)] f by blast
    let ?g = "?f\<lparr>fb_state := fb_state ?f AND 1\<rparr>"
    have g: "buf_ok (unat n) A d' ?g" using f fA d(3) by (simp add: buf_ok_def dirty_bits)
    have other: "buf_ok (unat n) A d' (ba_bufs a ! j)" if "j < List.length (ba_bufs a)" "j \<noteq> i" for j
    proof -
      have "fb_cur (ba_bufs a ! j) \<noteq> fb_cur ?f" using o(3) [OF assms(3) that(1) fA(2)] that(2) by blast
      then show ?thesis using o(2) [OF that(1)] d(4) by (simp add: buf_ok_def)
    qed
    have ok: "bufs_ok (unat n) A d' (fs_set i ?g a)"
      using assms(2,3) g other by (intro bufs_ok_frame) simp_all
    have "buf_view (unat n) d' (fs_set i ?g a) k = buf_view (unat n) d a k" if "k \<in> A" for k
    proof -
      have k: "k \<noteq> 0xffffffff" using that none by auto
      show ?thesis
      proof (cases "fb_cur ?f = k")
        case True
        then show ?thesis
          unfolding buf_view_set [OF assms(2,3) ok k] using fs_lookup_unique [OF assms(2,3) True k] by (simp add: buf_view_def)
      next
        case False
        then have "block_bytes d' k (unat n) = block_bytes d k (unat n)" using d(4) that by auto
        then show ?thesis
          unfolding buf_view_set [OF assms(2,3) ok k] using False by (simp add: buf_view_def split: option.split)
      qed
    qed
    then have "kept_bufs (unat n) A W d a d' (fs_set i ?g a)" using d ok by (simp add: kept_bufs_def)
    then show ?thesis using d(1) assms(3) by (auto simp: dirty_bits nth_list_update)
  qed
qed

text \<open>Loading a block into a clean buffer.\<close>

lemma load_ok:
  assumes "disk_ok d" "bufs_ok (unat n) A d a" "i < List.length (ba_bufs a)" "k \<in> A" "fs_lookup k (ba_bufs a) = None"
    and clean: "fb_cur (ba_bufs a ! i) \<noteq> 0xffffffff \<longrightarrow> fb_state (ba_bufs a ! i) AND 2 = 0"
    and f: "fb_cur f = k" "unat n * SECSIZE \<le> List.length (fb_data f)" "take (unat n * SECSIZE) (fb_data f) = block_bytes d k (unat n)"
  shows "kept_bufs (unat n) A W d a d (fs_set i f a)"
proof -
  note o = bufs_okD [OF assms(2)]
  have ok: "bufs_ok (unat n) A d (fs_set i f a)"
    using assms by (intro bufs_ok_set) (auto simp: buf_ok_def fs_lookup_None)
  have "buf_view (unat n) d (fs_set i f a) b = buf_view (unat n) d a b" if "b \<in> A" for b
  proof -
    have b: "b \<noteq> 0xffffffff" using that none by auto
    consider "b = k" | "b \<noteq> k" "fb_cur (ba_bufs a ! i) = b" | "b \<noteq> k" "fb_cur (ba_bufs a ! i) \<noteq> b" by blast
    then show ?thesis
    proof cases
      case 1
      then show ?thesis unfolding buf_view_set [OF assms(2,3) ok b] using f assms(5) by (simp add: buf_view_def)
    next
      case 2
      then have "take (unat n * SECSIZE) (fb_data (ba_bufs a ! i)) = block_bytes d b (unat n)"
        using o(2) [OF assms(3)] clean b by (simp add: buf_ok_def)
      then show ?thesis
        unfolding buf_view_set [OF assms(2,3) ok b] using 2 f fs_lookup_unique [OF assms(2,3) 2(2) b] by (simp add: buf_view_def)
    next
      case 3
      then show ?thesis unfolding buf_view_set [OF assms(2,3) ok b] using f by (simp add: buf_view_def)
    qed
  qed
  then show ?thesis using ok assms(1) by (simp add: kept_bufs_def)
qed

text \<open>Reading a block gives a buffer with its contents, and nothing that can be seen changes.\<close>

lemma read_buf_ok:
  assumes "disk_ok d" "bufs_ok (unat n) A d a" "k \<in> A"
  shows "\<exists>i a' d'. fs_read_buf wr n k a d = Some (Some i, a', d') \<and> i < List.length (ba_bufs a') \<and> fb_cur (ba_bufs a' ! i) = k
    \<and> take (unat n * SECSIZE) (fb_data (ba_bufs a' ! i)) = buf_view (unat n) d a k \<and> kept_bufs (unat n) A W d a d' a'"
proof (cases "fs_lookup k (ba_bufs a)")
  case (Some i)
  let ?f = "ba_bufs a ! i"
  let ?g = "?f\<lparr>fb_state := fb_state ?f OR 1\<rparr>"
  note i = fs_lookup_Some [OF Some]
  have sb: "same_bufs (ba_bufs a) (ba_bufs (fs_set i ?g a))" using i by (simp add: same_bufs_def nth_list_update dirty_bits)
  have ok: "bufs_ok (unat n) A d (fs_set i ?g a)" "buf_view (unat n) d (fs_set i ?g a) = buf_view (unat n) d a"
    using same_bufs_ok [OF sb assms(2)] bufs_okD(1) [OF assms(2)] by simp_all
  then have "kept_bufs (unat n) A W d a d (fs_set i ?g a)" using assms(1) by (simp add: kept_bufs_def)
  moreover have "fs_read_buf wr n k a d = Some (Some i, fs_set i ?g a, d)" using Some by (simp add: fs_read_buf_def Let_def)
  ultimately show ?thesis using Some i by (auto simp: buf_view_def)
next
  case None
  obtain i b where v: "fs_victim a = Some (i, b)" "i < List.length (ba_bufs a)" "same_bufs (ba_bufs a) (ba_bufs b)" "ba_clock b < List.length (ba_bufs b)"
    using victim_ok [OF bufs_okD(1) [OF assms(2)]] by blast
  note b = same_bufs_ok [OF v(3) assms(2) v(4)]
  have ib: "i < List.length (ba_bufs b)" using v(2,3) by (simp add: same_bufs_def)
  have kb: "kept_bufs (unat n) A W d a d b" using b assms(1) v(3) by (simp add: kept_bufs_def same_bufs_def)
  obtain f d1 where f: "wr (ba_bufs b ! i) d = Some (False, f, d1)" "fb_cur f = fb_cur (ba_bufs b ! i)" "fb_data f = fb_data (ba_bufs b ! i)"
      "fb_cur f \<noteq> 0xffffffff \<longrightarrow> fb_state f AND 2 = 0" "kept_bufs (unat n) A W d b d1 (fs_set i f b)"
    using write_back [OF assms(1) b(1) ib] by blast
  note k1 = kept_bufsD [OF f(5)]
  have len: "unat n * SECSIZE \<le> List.length (fb_data f)" using bufs_okD(2) [OF b(1) ib] f(3) by (simp add: buf_ok_def)
  obtain d2 where d2: "read_block (fb_data f) k n d1 = (0, block_bytes d1 k (unat n) @ drop (unat n * SECSIZE) (fb_data f), d2)" "same_card d1 d2"
    using read_part_ok [OF k1(1) len] by blast
  let ?g = "\<lparr>fb_data = block_bytes d1 k (unat n) @ drop (unat n * SECSIZE) (fb_data f), fb_cur = k, fb_state = 1\<rparr>"
  let ?b = "fs_set i f b"
  have none_b: "fs_lookup k (ba_bufs ?b) = None"
    using None v(3) f(2) ib by (auto simp: fs_lookup_None nth_list_update same_bufs_def)
  have i1: "i < List.length (ba_bufs ?b)" "ba_bufs ?b ! i = f" using ib by simp_all
  have tk: "take (unat n * SECSIZE) (fb_data ?g) = block_bytes d1 k (unat n)" using k1(1) by simp
  have k2: "kept_bufs (unat n) A W d1 ?b d1 (fs_set i ?g ?b)"
    using k1(1,2) i1 assms(3) none_b f(4) tk by (intro load_ok) auto
  have k3: "kept_bufs (unat n) A W d1 (fs_set i ?g b) d2 (fs_set i ?g b)"
    using kept_bufsD [OF k2] by (intro kept_bufs_card [OF _ _ d2(2)]) simp_all
  have "kept_bufs (unat n) A W d a d2 (fs_set i ?g b)"
    using kept_bufs_trans [OF kb kept_bufs_trans [OF f(5) kept_bufs_trans [OF k2 [unfolded fs_set_simps] k3]]] .
  moreover have "buf_view (unat n) d a k = block_bytes d1 k (unat n)"
    using kept_bufsD(4) [OF kb assms(3)] k1(4) [OF assms(3)] none_b by (simp add: buf_view_def)
  moreover have "fs_read_buf wr n k a d = Some (Some i, fs_set i ?g b, d2)"
    using None v(1) f(1) len d2(1) by (simp add: fs_read_buf_def)
  ultimately show ?thesis using i1 tk by auto
qed

text \<open>Changing the contents of a buffer that holds a block changes what is seen of that block, and marks it as dirty.\<close>

lemma modify_ok:
  assumes "disk_ok d" "bufs_ok (unat n) A d a" "i < List.length (ba_bufs a)" "fb_cur (ba_bufs a ! i) = k" "k \<in> A"
    and "fb_cur f = k" "unat n * SECSIZE \<le> List.length (fb_data f)" "fb_state f AND 2 \<noteq> 0"
  shows "bufs_ok (unat n) A d (fs_set i f a)" "\<And>b. b \<in> A \<Longrightarrow> buf_view (unat n) d (fs_set i f a) b = (if b = k then take (unat n * SECSIZE) (fb_data f) else buf_view (unat n) d a b)"
proof -
  note o = bufs_okD [OF assms(2)]
  have k: "k \<noteq> 0xffffffff" using assms(5) none by auto
  show ok: "bufs_ok (unat n) A d (fs_set i f a)"
  proof (rule bufs_ok_set [OF assms(2,3)])
    show "buf_ok (unat n) A d f" using assms(5-8) by (simp add: buf_ok_def)
    show "\<forall>j < List.length (ba_bufs a). j \<noteq> i \<longrightarrow> fb_cur f \<noteq> 0xffffffff \<longrightarrow> fb_cur (ba_bufs a ! j) \<noteq> fb_cur f"
      using o(3) [OF assms(3)] assms(4,6) k by metis
  qed
  fix b assume "b \<in> A"
  then have b: "b \<noteq> 0xffffffff" using none by auto
  show "buf_view (unat n) d (fs_set i f a) b = (if b = k then take (unat n * SECSIZE) (fb_data f) else buf_view (unat n) d a b)"
    unfolding buf_view_set [OF assms(2,3) ok b] assms(4,6) by (simp add: buf_view_def)
qed

end

end
