(* ===== verification/FatTable.thy ===== *)
theory FatTable
  imports FsCache Ext2
begin

text \<open>
  The FAT driver of the old file interface, first part: \<open>kernel/fs/fat/utils.c\<close> and the parts of \<open>fat.c\<close> on the partition, the allocation
  table and names. The driver's global variables are one record. What the code reports with 0 and 1 is a \<open>bool\<close> (true for the error), an
  index or value with an error of its own an \<open>option\<close>.
\<close>

section \<open>State\<close>

record fs_info =
  base_addr :: u32
  total_data_clusters :: u32
  first_data_sector :: u32
  fs_bpb :: "u8 list"
  fat_fs_info :: "u8 list"

text \<open>The fields of the parameter block that the code uses.\<close>

definition bpb_sector_size :: "fs_info \<Rightarrow> u16" where "bpb_sector_size i = le16 0x0B (fs_bpb i)"
definition sectors_per_cluster :: "fs_info \<Rightarrow> u32" where "sectors_per_cluster i = ucast (fs_bpb i ! 0x0D)"
definition reserved_sectors :: "fs_info \<Rightarrow> u32" where "reserved_sectors i = ucast (le16 0x0E (fs_bpb i))"
definition max_root_dir_entries :: "fs_info \<Rightarrow> u16" where "max_root_dir_entries i = le16 0x11 (fs_bpb i)"
definition num_of_small_sectors :: "fs_info \<Rightarrow> u16" where "num_of_small_sectors i = le16 0x13 (fs_bpb i)"
definition bpb_sectors_per_fat :: "fs_info \<Rightarrow> u16" where "bpb_sectors_per_fat i = le16 0x16 (fs_bpb i)"
definition num_of_sectors :: "fs_info \<Rightarrow> u32" where "num_of_sectors i = le32 0x20 (fs_bpb i)"
definition num_of_sectors_per_fat :: "fs_info \<Rightarrow> u32" where "num_of_sectors_per_fat i = le32 0x24 (fs_bpb i)"

text \<open>A file; \<open>ff_bufs\<close> are its buffers with their clock.\<close>

record fat_file =
  ff_path :: "u8 list"
  ff_loc :: u32
  ff_pos :: u32
  ff_sector :: u32
  ff_entry :: "u8 list"
  ff_bufs :: buf_array

record fat_state =
  ft_disk :: disk
  ft_info :: fs_info
  ft_fat :: buf_array
  ft_dir :: buf_array
  ft_name11 :: "u8 list"
  ft_empty :: "u8 list"
  ft_mkdir_buf :: "u8 list"
  ft_create :: fat_file
  ft_find :: fat_file

section \<open>Start\<close>

text \<open>The sector of the FSInfo is read without looking at the result.\<close>

definition init_fat_info :: "disk \<Rightarrow> (bool \<times> fs_info \<times> disk) option" where
  "init_fat_info d = do {
     let info = \<lparr>base_addr = 0, total_data_clusters = 0, first_data_sector = 0, fs_bpb = replicate 512 0, fat_fs_info = replicate 512 0\<rparr>;
     let (err, meta, d) = read_block (replicate 512 0) 0 1 d;
     if err = 1 then Some (True, info, d)
     else do {
       let info = info\<lparr>base_addr := le32 (446 + 8) meta\<rparr>;
       let (err, buf, d) = read_block (fs_bpb info) (base_addr info) 1 d;
       let info = info\<lparr>fs_bpb := buf\<rparr>;
       if err = 1 \<or> bpb_sector_size info \<noteq> 512 \<or> max_root_dir_entries info \<noteq> 0 \<or> bpb_sectors_per_fat info \<noteq> 0 \<or> num_of_small_sectors info \<noteq> 0
       then Some (True, info, d)
       else do {
         let data = num_of_sectors info - reserved_sectors info - num_of_sectors_per_fat info * 2;
         _ \<leftarrow> c_guard (sectors_per_cluster info \<noteq> 0);
         let info = info\<lparr>total_data_clusters := data div sectors_per_cluster info\<rparr>;
         if total_data_clusters info < 65525 then Some (True, info, d)
         else do {
           let info = info\<lparr>first_data_sector := reserved_sectors info + num_of_sectors_per_fat info * 2\<rparr>;
           let (err, buf, d) = read_block (fat_fs_info info) (1 + base_addr info) 1 d;
           Some (False, info\<lparr>fat_fs_info := buf\<rparr>, d)
         }
       }
     }
   }"

definition clear_bufs :: "buf_array \<Rightarrow> buf_array" where
  "clear_bufs a = a\<lparr>ba_bufs := map (\<lambda>f. f\<lparr>fb_cur := 0xffffffff, fb_state := 0\<rparr>) (ba_bufs a)\<rparr>"

definition init_fat_buf :: "fat_state \<Rightarrow> fat_state" where "init_fat_buf s = s\<lparr>ft_fat := clear_bufs (ft_fat s)\<rparr>"
definition init_dir_buf :: "fat_state \<Rightarrow> fat_state" where "init_dir_buf s = s\<lparr>ft_dir := clear_bufs (ft_dir s)\<rparr>"

definition init_fs :: "fat_state \<Rightarrow> (bool \<times> fat_state) option" where
  "init_fs s = do {
     (err, info, d) \<leftarrow> init_fat_info (ft_disk s);
     s \<leftarrow> Some (s\<lparr>ft_info := info, ft_disk := d\<rparr>);
     Some (if err then (True, s) else (False, init_dir_buf (init_fat_buf s)))
   }"

section \<open>Clusters and sectors\<close>

text \<open>The number of shifts until at most 1 is left.\<close>

function fs_wa :: "u32 \<Rightarrow> u32" where
  "fs_wa num = (if 1 < num then fs_wa (drop_bit 1 num) + 1 else 0)"
  by auto

termination
proof (relation "measure unat")
  fix num :: u32 assume "1 < num"
  then have "1 < unat num" by (simp add: word_less_nat_alt)
  moreover have "unat (drop_bit 1 num) = unat num div 2" by (simp add: drop_bit_eq_div unat_div)
  ultimately show "(drop_bit 1 num, num) \<in> measure unat" by simp
qed simp

declare fs_wa.simps [simp del]

definition cluster_to_fat_entry :: "fs_info \<Rightarrow> u32 \<Rightarrow> u32 \<times> u32" where
  "cluster_to_fat_entry info clus =
     (let off = push_bit 2 clus in (reserved_sectors info + drop_bit 9 off + base_addr info, off AND 511))"

definition fs_dataclus2sec :: "fs_info \<Rightarrow> u32 \<Rightarrow> u32" where
  "fs_dataclus2sec info clus = push_bit (unat (fs_wa (sectors_per_cluster info))) (clus - 2) + first_data_sector info"

definition fs_sec2dataclus :: "fs_info \<Rightarrow> u32 \<Rightarrow> u32" where
  "fs_sec2dataclus info sec = drop_bit (unat (fs_wa (sectors_per_cluster info))) (sec - first_data_sector info) + 2"

section \<open>The allocation table\<close>

text \<open>A sector of the table goes to both copies of the table.\<close>

definition write_fat_sector :: "u32 \<Rightarrow> buf_writer" where
  "write_fat_sector spf f d =
     (if fb_cur f \<noteq> 0xffffffff \<and> fb_state f AND 2 \<noteq> 0 then do {
        _ \<leftarrow> c_guard (SECSIZE \<le> List.length (fb_data f));
        let (err, d) = write_block (fb_data f) (fb_cur f) 1 d;
        if err = 1 then Some (True, f, d)
        else do {
          let (err, d) = write_block (fb_data f) (spf + fb_cur f) 1 d;
          Some (if err = 1 then (True, f, d) else (False, f\<lparr>fb_state := fb_state f AND 1\<rparr>, d))
        }
      } else Some (False, f, d))"

definition read_fat_sector :: "u32 \<Rightarrow> fat_state \<Rightarrow> (nat option \<times> fat_state) option" where
  "read_fat_sector sec s = do {
     (r, a, d) \<leftarrow> fs_read_buf (write_fat_sector (num_of_sectors_per_fat (ft_info s))) 1 sec (ft_fat s) (ft_disk s);
     Some (r, s\<lparr>ft_fat := a, ft_disk := d\<rparr>)
   }"

definition get_fat_entry_value :: "u32 \<Rightarrow> fat_state \<Rightarrow> (u32 option \<times> fat_state) option" where
  "get_fat_entry_value clus s = do {
     let (sec, off) = cluster_to_fat_entry (ft_info s) clus;
     (r, s) \<leftarrow> read_fat_sector sec s;
     case r of
       None \<Rightarrow> Some (None, s)
     | Some i \<Rightarrow> Some (Some (le32 (unat off) (fb_data (ba_bufs (ft_fat s) ! i)) AND 0x0FFFFFFF), s)
   }"

definition fs_modify_fat :: "u32 \<Rightarrow> u32 \<Rightarrow> fat_state \<Rightarrow> (bool \<times> fat_state) option" where
  "fs_modify_fat clus v s = do {
     let (sec, off) = cluster_to_fat_entry (ft_info s) clus;
     (r, s) \<leftarrow> read_fat_sector sec s;
     case r of
       None \<Rightarrow> Some (True, s)
     | Some i \<Rightarrow> do {
         let f = ba_bufs (ft_fat s) ! i;
         let w = (le32 (unat off) (fb_data f) AND 0xF0000000) OR (v AND 0x0FFFFFFF);
         Some (False, s\<lparr>ft_fat := fs_set i (f\<lparr>fb_state := 3, fb_data := set_le32 (unat off) w (fb_data f)\<rparr>) (ft_fat s)\<rparr>)
       }
   }"

text \<open>The first free cluster from \<open>clus\<close> on, 0xFFFFFFFF for none.\<close>

partial_function (option) fs_next_free :: "u32 \<Rightarrow> fat_state \<Rightarrow> (u32 option \<times> fat_state) option" where
  "fs_next_free clus s =
     (if total_data_clusters (ft_info s) + 1 < clus then Some (Some 0xFFFFFFFF, s)
      else do {
        (r, s) \<leftarrow> get_fat_entry_value clus s;
        if r = None then Some (None, s)
        else if r = Some 0 then Some (Some clus, s)
        else fs_next_free (clus + 1) s
      })"

text \<open>
  A new cluster. The hint of the FSInfo is taken without a look at the table unless it is above the number of free clusters. The sector
  that is erased at the end lacks the base of the partition.
\<close>

definition fs_alloc :: "fat_state \<Rightarrow> (u32 option \<times> fat_state) option" where
  "fs_alloc s = do {
     let clus = le32 492 (fat_fs_info (ft_info s)) + 1;
     (r, s) \<leftarrow> (if le32 488 (fat_fs_info (ft_info s)) + 1 < clus then do {
         (r, s) \<leftarrow> fs_next_free 2 s;
         case r of
           None \<Rightarrow> Some (None, s)
         | Some clus \<Rightarrow> do { (err, s) \<leftarrow> fs_modify_fat clus 0xFFFFFFFF s; Some (if err then None else Some clus, s) }
       } else Some (Some clus, s));
     case r of
       None \<Rightarrow> Some (None, s)
     | Some clus \<Rightarrow> do {
         (err, s) \<leftarrow> fs_modify_fat clus 0xFFFFFFFF s;
         if err then Some (None, s)
         else do {
           (r, s) \<leftarrow> fs_next_free clus s;
           case r of
             None \<Rightarrow> Some (None, s)
           | Some free \<Rightarrow>
               if total_data_clusters (ft_info s) + 1 < free then Some (None, s)
               else do {
                 s \<leftarrow> Some (s\<lparr>ft_info := (ft_info s)\<lparr>fat_fs_info := set_le32 492 (free - 1) (fat_fs_info (ft_info s))\<rparr>\<rparr>);
                 _ \<leftarrow> c_guard (unat (sectors_per_cluster (ft_info s)) * SECSIZE \<le> List.length (ft_empty s));
                 let (err, d) = write_block (ft_empty s) (fs_dataclus2sec (ft_info s) clus) (sectors_per_cluster (ft_info s)) (ft_disk s);
                 Some (if err = 1 then None else Some clus, s\<lparr>ft_disk := d\<rparr>)
               }
         }
       }
   }"

section \<open>Directory entries and names\<close>

definition get_entry_filesize :: "u8 list \<Rightarrow> u32" where "get_entry_filesize e = le32 28 e"
definition get_entry_attr :: "u8 list \<Rightarrow> u32" where "get_entry_attr e = ucast (e ! 11)"

definition get_start_cluster :: "fat_file \<Rightarrow> u32" where
  "get_start_cluster file = push_bit 16 (ucast (le16 20 (ff_entry file))) + ucast (le16 26 (ff_entry file))"

definition fat_upper :: "u8 \<Rightarrow> u8" where
  "fat_upper c = (if 0x61 \<le> c \<and> c \<le> 0x7A then c - 0x61 + 0x41 else c)"

text \<open>
  The length of the next component of a path and the 11 characters it has in a directory entry, blank-filled; of 13 bytes the 12th becomes 0 and
  the last one stays.
\<close>

definition fs_next_slash :: "u8 list \<Rightarrow> u8 list \<Rightarrow> (nat \<times> u8 list) option" where
  "fs_next_slash f filename11 = do {
     let i = List.length (takeWhile (\<lambda>c. c \<noteq> 0 \<and> c \<noteq> 0x2F) f);
     _ \<leftarrow> c_guard (i < List.length f);
     let chr11 = map fat_upper (take (min 12 i) f);
     let base = takeWhile (\<lambda>c. c \<noteq> 0x2E) chr11;
     let ext = take 3 (drop (List.length base + 1) chr11);
     Some (i, (put_bytes 8 ext (put_bytes 0 base (replicate 12 0x20 @ drop 12 filename11)))[11 := 0])
   }"

definition fs_cmp_filename :: "u8 list \<Rightarrow> u8 list \<Rightarrow> u32" where
  "fs_cmp_filename f1 f2 = (if \<forall>i \<in> set [0..<11]. f1 ! i = f2 ! i then 0 else 1)"

text \<open>From the 11 characters of an entry to a name with a dot; \<open>is\<close> are the places for the extension that are left.\<close>

primrec name_ext :: "nat \<Rightarrow> nat \<Rightarrow> nat list \<Rightarrow> u8 list \<Rightarrow> nat \<times> u8 list" where
  "name_ext l1 l2 [] buf = (l1 + 4, buf)"
| "name_ext l1 l2 (i # is) buf =
     (let c = buf ! (l2 + i - l1 - 1) in if c \<noteq> 0x20 then name_ext l1 l2 is (buf[i := c]) else (i, buf))"

definition get_filename :: "u8 list \<Rightarrow> u8 list \<Rightarrow> u8 list option" where
  "get_filename entry buf = do {
     _ \<leftarrow> c_guard (11 \<le> List.length entry \<and> 11 \<le> List.length buf);
     let buf = put_bytes 0 (take 11 entry) buf;
     if buf ! 0 = 0x2E then Some (if buf ! 1 = 0x2E then buf[2 := 0] else buf[1 := 0])
     else do {
       let blank = find (\<lambda>i. buf ! i = 0x20) [0..<8];
       _ \<leftarrow> c_guard (blank = None \<longrightarrow> 11 < List.length buf);
       let (l1, l2, buf) = (case blank of Some i \<Rightarrow> (i, 8, buf[i := 0x2E]) | None \<Rightarrow> (8, 9, (put_bytes 9 (take 3 (drop 8 buf)) buf)[8 := 0x2E]));
       let (i, buf) = name_ext l1 l2 [l1 + 1, l1 + 2, l1 + 3] buf;
       _ \<leftarrow> c_guard (i < List.length buf);
       let buf = buf[i := 0];
       Some (if buf ! (i - 1) = 0x2E then buf[i - 1 := 0] else buf)
     }
   }"

end
