(* ===== verification/FatFile.thy ===== *)
theory FatFile
  imports FatTable
begin

text \<open>
  The FAT driver of the old file interface, second part: finding, opening, closing, reading, writing and creating files (\<open>kernel/fs/fat/fat.c\<close>). A
  path is an array of 256 bytes; a file name argument is the list of its characters, without the 0 at its end.
\<close>

section \<open>Searching a path\<close>

definition read_dir_sector :: "u32 \<Rightarrow> fat_state \<Rightarrow> (nat option \<times> fat_state) option" where
  "read_dir_sector sec s = do {
     (r, a, d) \<leftarrow> fs_read_512 (base_addr (ft_info s)) sec (ft_dir s) (ft_disk s);
     Some (r, s\<lparr>ft_dir := a, ft_disk := d\<rparr>)
   }"

definition dir_buffer :: "nat \<Rightarrow> fat_state \<Rightarrow> fs_buf" where
  "dir_buffer i s = ba_bufs (ft_dir s) ! i"

definition spc_of :: "fat_state \<Rightarrow> u32" where "spc_of s = sectors_per_cluster (ft_info s)"

definition entry_offsets :: "nat list" where "entry_offsets = map ((*) 32) [0..<16]"

text \<open>Looking through a sector of a directory.\<close>

datatype dir_scan = Dir_end | Dir_hit nat | Dir_more

primrec scan_dir :: "u8 list \<Rightarrow> u8 list \<Rightarrow> nat list \<Rightarrow> dir_scan" where
  "scan_dir name buf [] = Dir_more"
| "scan_dir name buf (i # is) =
     (if buf ! i = 0 then Dir_end
      else if fs_cmp_filename (drop i buf) name = 0 \<and> buf ! (i + 11) AND 0x08 = 0 then Dir_hit i
      else scan_dir name buf is)"

text \<open>
  One round of the loop over the sectors of a directory: the search ends, with or without an error, or goes on in another buffer. The sector
  number of the next sector holds the base of the partition already, and so does the one that is taken for a cluster number.
\<close>

definition find_step :: "u32 \<Rightarrow> nat \<Rightarrow> fat_file \<Rightarrow> fat_state \<Rightarrow> (((bool \<times> fat_file) + nat) \<times> fat_state) option" where
  "find_step sec index file s =
     (let b = dir_buffer index s in
      case scan_dir (ft_name11 s) (fb_data b) entry_offsets of
        Dir_end \<Rightarrow> Some (Inl (False, file), s)
      | Dir_hit i \<Rightarrow>
          Some (Inl (False, file\<lparr>ff_pos := of_nat i, ff_sector := fb_cur b - base_addr (ft_info s), ff_entry := take 32 (drop i (fb_data b))\<rparr>), s)
      | Dir_more \<Rightarrow>
          if sec < spc_of s then do {
            (r, s) \<leftarrow> read_dir_sector (fb_cur b + 1) s;
            Some (case r of None \<Rightarrow> Inl (True, file) | Some index \<Rightarrow> Inr index, s)
          } else do {
            (r, s) \<leftarrow> get_fat_entry_value (fb_cur b - spc_of s + 1) s;
            case r of
              None \<Rightarrow> Some (Inl (True, file), s)
            | Some next \<Rightarrow>
                if next \<le> total_data_clusters (ft_info s) + 1 then do {
                  (r, s) \<leftarrow> read_dir_sector (fs_dataclus2sec (ft_info s) next) s;
                  Some (case r of None \<Rightarrow> Inl (True, file) | Some index \<Rightarrow> Inr index, s)
                } else Some (Inl (False, file), s)
          })"

text \<open>The loop over the sectors and clusters of a directory; in a circle of clusters it does not end.\<close>

partial_function (option) find_entry :: "u32 \<Rightarrow> nat \<Rightarrow> fat_file \<Rightarrow> fat_state \<Rightarrow> (bool \<times> fat_file \<times> fat_state) option" where
  "find_entry sec index file s =
     (if spc_of s < sec then find_entry 1 index file s
      else do {
        (r, s) \<leftarrow> find_step sec index file s;
        case r of
          Inl (err, file) \<Rightarrow> Some (err, file, s)
        | Inr index \<Rightarrow> find_entry (sec + 1) index file s
      })"

partial_function (option) find_path :: "u8 list \<Rightarrow> nat \<Rightarrow> fat_file \<Rightarrow> fat_state \<Rightarrow> (bool \<times> fat_file \<times> fat_state) option" where
  "find_path f index file s = do {
     (next_slash, n11) \<leftarrow> fs_next_slash f (ft_name11 s);
     (err, file, s) \<leftarrow> find_entry 1 index (file\<lparr>ff_pos := 0xFFFFFFFF\<rparr>) (s\<lparr>ft_name11 := n11\<rparr>);
     if err then Some (True, file, s)
     else if ff_pos file = 0xFFFFFFFF \<or> f ! next_slash = 0 then Some (False, file, s)
     else if ff_entry file ! 11 AND 0x10 = 0 then Some (True, file, s)
     else if get_start_cluster file \<le> total_data_clusters (ft_info s) + 1 then do {
       (r, s) \<leftarrow> read_dir_sector (fs_dataclus2sec (ft_info s) (get_start_cluster file)) s;
       if r = None then Some (True, file, s) else find_path (drop (next_slash + 1) f) (the r) file s
     } else Some (True, file, s)
   }"

definition fs_find :: "fat_file \<Rightarrow> fat_state \<Rightarrow> (bool \<times> fat_file \<times> fat_state) option" where
  "fs_find file s =
     (if ff_path file ! 0 \<noteq> 0x2F then Some (True, file, s)
      else do {
        (r, s) \<leftarrow> read_dir_sector (fs_dataclus2sec (ft_info s) 2) s;
        case r of None \<Rightarrow> Some (True, file, s) | Some index \<Rightarrow> find_path (drop 1 (ff_path file)) index file s
      })"

section \<open>Opening and closing\<close>

definition path_of :: "u8 list \<Rightarrow> u8 list" where
  "path_of filename = take 256 (filename @ replicate 256 0)"

definition fs_open :: "fat_file \<Rightarrow> u8 list \<Rightarrow> fat_state \<Rightarrow> (bool \<times> fat_file \<times> fat_state) option" where
  "fs_open file filename s = do {
     let file = file\<lparr>ff_bufs := (clear_bufs (ff_bufs file))\<lparr>ba_clock := 0\<rparr>, ff_path := path_of filename, ff_loc := 0\<rparr>;
     (err, file, s) \<leftarrow> fs_find file s;
     Some (err \<or> ff_pos file = 0xFFFFFFFF, file, s)
   }"

text \<open>Writing back all buffers of an array, up to the first error.\<close>

primrec flush_bufs :: "buf_writer \<Rightarrow> nat list \<Rightarrow> buf_array \<Rightarrow> disk \<Rightarrow> (bool \<times> buf_array \<times> disk) option" where
  "flush_bufs wr [] a d = Some (False, a, d)"
| "flush_bufs wr (i # is) a d = do {
     (err, f, d) \<leftarrow> wr (ba_bufs a ! i) d;
     if err then Some (True, fs_set i f a, d) else flush_bufs wr is (fs_set i f a) d
   }"

definition flush_all :: "buf_writer \<Rightarrow> buf_array \<Rightarrow> disk \<Rightarrow> (bool \<times> buf_array \<times> disk) option" where
  "flush_all wr a d = flush_bufs wr [0..<List.length (ba_bufs a)] a d"

definition fs_fflush :: "fat_state \<Rightarrow> (bool \<times> fat_state) option" where
  "fs_fflush s = do {
     let i = ft_info s;
     let (err, d) = write_block (fat_fs_info i) (1 + base_addr i) 1 (ft_disk s);
     if err = 1 then Some (True, s\<lparr>ft_disk := d\<rparr>)
     else do {
       let (err, d) = write_block (fat_fs_info i) (7 + base_addr i) 1 d;
       if err = 1 then Some (True, s\<lparr>ft_disk := d\<rparr>)
       else do {
         (err, a, d) \<leftarrow> flush_all (write_fat_sector (num_of_sectors_per_fat i)) (ft_fat s) d;
         s \<leftarrow> Some (s\<lparr>ft_fat := a, ft_disk := d\<rparr>);
         if err then Some (True, s)
         else do {
           (err, a, d) \<leftarrow> flush_all fs_write_512 (ft_dir s) (ft_disk s);
           Some (err, s\<lparr>ft_dir := a, ft_disk := d\<rparr>)
         }
       }
     }
   }"

definition fs_close :: "fat_file \<Rightarrow> fat_state \<Rightarrow> (bool \<times> fat_file \<times> fat_state) option" where
  "fs_close file s = do {
     (r, s) \<leftarrow> read_dir_sector (ff_sector file) s;
     case r of
       None \<Rightarrow> Some (True, file, s)
     | Some i \<Rightarrow> do {
         let f = dir_buffer i s;
         _ \<leftarrow> c_guard (unat (ff_pos file) + 32 \<le> List.length (fb_data f));
         s \<leftarrow> Some (s\<lparr>ft_dir := fs_set i (f\<lparr>fb_state := 3, fb_data := put_bytes (unat (ff_pos file)) (ff_entry file) (fb_data f)\<rparr>) (ft_dir s)\<rparr>);
         (err, s) \<leftarrow> fs_fflush s;
         if err then Some (True, file, s)
         else do {
           (err, a, d) \<leftarrow> flush_all (fs_write_4k (spc_of s)) (ff_bufs file) (ft_disk s);
           Some (err, file\<lparr>ff_bufs := a\<rparr>, s\<lparr>ft_disk := d\<rparr>)
         }
       }
   }"

section \<open>Reading\<close>

definition cluster_bytes_of :: "fat_state \<Rightarrow> u32" where "cluster_bytes_of s = push_bit 9 (spc_of s)"

definition read_cluster :: "u32 \<Rightarrow> fat_file \<Rightarrow> fat_state \<Rightarrow> (nat option \<times> fat_file \<times> fat_state) option" where
  "read_cluster clus file s = do {
     (r, a, d) \<leftarrow> fs_read_4k (base_addr (ft_info s)) (spc_of s) (fs_dataclus2sec (ft_info s) clus) (ff_bufs file) (ft_disk s);
     Some (r, file\<lparr>ff_bufs := a\<rparr>, s\<lparr>ft_disk := d\<rparr>)
   }"

primrec follow_chain :: "nat \<Rightarrow> u32 \<Rightarrow> fat_state \<Rightarrow> (u32 option \<times> fat_state) option" where
  "follow_chain 0 clus s = Some (Some clus, s)"
| "follow_chain (Suc n) clus s = do {
     (r, s) \<leftarrow> get_fat_entry_value clus s;
     case r of None \<Rightarrow> Some (None, s) | Some next \<Rightarrow> follow_chain n next s
   }"

text \<open>The loop over \<open>n\<close> clusters; only in the last one it stops at \<open>end_byte\<close>. \<open>out\<close> is what is in the caller's buffer.\<close>

primrec read_clusters :: "nat \<Rightarrow> u32 \<Rightarrow> nat \<Rightarrow> nat \<Rightarrow> u8 list \<Rightarrow> fat_file \<Rightarrow> fat_state \<Rightarrow> (bool \<times> u8 list \<times> fat_file \<times> fat_state) option" where
  "read_clusters 0 clus start end_byte out file s = Some (False, out, file, s)"
| "read_clusters (Suc n) clus start end_byte out file s = do {
     (r, file, s) \<leftarrow> read_cluster clus file s;
     case r of
       None \<Rightarrow> Some (True, out, file, s)
     | Some i \<Rightarrow> do {
         let buf = fb_data (ba_bufs (ff_bufs file) ! i);
         let stop = (if n = 0 then end_byte + 1 else unat (cluster_bytes_of s));
         _ \<leftarrow> c_guard (stop \<le> start \<or> stop \<le> List.length buf);
         let out = out @ take (stop - start) (drop start buf);
         if n = 0 then Some (False, out, file, s)
         else do {
           (r, s) \<leftarrow> get_fat_entry_value clus s;
           case r of None \<Rightarrow> Some (True, out, file, s) | Some next \<Rightarrow> read_clusters n next 0 end_byte out file s
         }
       }
   }"

definition fs_read :: "fat_file \<Rightarrow> u32 \<Rightarrow> fat_state \<Rightarrow> (u32 \<times> u8 list \<times> fat_file \<times> fat_state) option" where
  "fs_read file count_in s = do {
     let filesize = le32 28 (ff_entry file);
     let clus = get_start_cluster file;
     let loc = ff_loc file;
     let n = (if filesize < loc + count_in then filesize - loc else count_in);
     if clus = 0 \<or> n = 0 then Some (0, [], file, s)
     else do {
       let bits = unat (fs_wa (cluster_bytes_of s));
       let start_clus = drop_bit bits loc;
       let end_clus = drop_bit bits (loc + n - 1);
       let start_byte = loc AND (cluster_bytes_of s - 1);
       let end_byte = (loc + n - 1) AND (cluster_bytes_of s - 1);
       (r, s) \<leftarrow> follow_chain (unat start_clus) clus s;
       case r of
         None \<Rightarrow> Some (0xFFFFFFFF, [], file, s)
       | Some clus \<Rightarrow> do {
           (err, out, file, s) \<leftarrow> read_clusters (Suc (unat end_clus) - unat start_clus) clus (unat start_byte) (unat end_byte) [] file s;
           Some (if err then (0xFFFFFFFF, out, file, s) else (of_nat (List.length out), out, file\<lparr>ff_loc := loc + n\<rparr>, s))
         }
     }
   }"

section \<open>Writing\<close>

text \<open>A fresh cluster gets a cleared buffer at its sector without the base of the partition.\<close>

definition clear_cluster :: "u32 \<Rightarrow> fat_file \<Rightarrow> fat_state \<Rightarrow> (bool \<times> fat_file \<times> fat_state) option" where
  "clear_cluster clus file s = do {
     (err, a, d) \<leftarrow> fs_clr_4k (spc_of s) (fs_dataclus2sec (ft_info s) clus) (ff_bufs file) (ft_disk s);
     Some (err, file\<lparr>ff_bufs := a\<rparr>, s\<lparr>ft_disk := d\<rparr>)
   }"

text \<open>The next cluster of a chain, which is made longer at its end.\<close>

definition next_cluster :: "u32 \<Rightarrow> fat_file \<Rightarrow> fat_state \<Rightarrow> (u32 option \<times> fat_file \<times> fat_state) option" where
  "next_cluster clus file s = do {
     (r, s) \<leftarrow> get_fat_entry_value clus s;
     case r of
       None \<Rightarrow> Some (None, file, s)
     | Some next \<Rightarrow>
         if next \<le> total_data_clusters (ft_info s) + 1 then Some (Some next, file, s)
         else do {
           (r, s) \<leftarrow> fs_alloc s;
           case r of
             None \<Rightarrow> Some (None, file, s)
           | Some next \<Rightarrow> do {
               (err, s) \<leftarrow> fs_modify_fat clus next s;
               if err then Some (None, file, s)
               else do {
                 (err, file, s) \<leftarrow> clear_cluster next file s;
                 Some (if err then None else Some next, file, s)
               }
             }
         }
   }"

primrec extend_to :: "nat \<Rightarrow> u32 \<Rightarrow> fat_file \<Rightarrow> fat_state \<Rightarrow> (u32 option \<times> fat_file \<times> fat_state) option" where
  "extend_to 0 clus file s = Some (Some clus, file, s)"
| "extend_to (Suc n) clus file s = do {
     (r, file, s) \<leftarrow> next_cluster clus file s;
     case r of None \<Rightarrow> Some (None, file, s) | Some next \<Rightarrow> extend_to n next file s
   }"

text \<open>\<open>cc\<close> bytes of \<open>src\<close> are written already.\<close>

primrec write_clusters :: "nat \<Rightarrow> u32 \<Rightarrow> nat \<Rightarrow> nat \<Rightarrow> u8 list \<Rightarrow> nat \<Rightarrow> fat_file \<Rightarrow> fat_state \<Rightarrow> (nat option \<times> fat_file \<times> fat_state) option" where
  "write_clusters 0 clus start end_byte src cc file s = Some (Some cc, file, s)"
| "write_clusters (Suc n) clus start end_byte src cc file s = do {
     (r, file, s) \<leftarrow> read_cluster clus file s;
     case r of
       None \<Rightarrow> Some (None, file, s)
     | Some i \<Rightarrow> do {
         let f = ba_bufs (ff_bufs file) ! i;
         let stop = (if n = 0 then end_byte + 1 else unat (cluster_bytes_of s));
         _ \<leftarrow> c_guard (stop \<le> start \<or> stop \<le> List.length (fb_data f) \<and> cc + (stop - start) \<le> List.length src);
         let f = f\<lparr>fb_state := 3, fb_data := put_bytes start (take (stop - start) (drop cc src)) (fb_data f)\<rparr>;
         file \<leftarrow> Some (file\<lparr>ff_bufs := fs_set i f (ff_bufs file)\<rparr>);
         if n = 0 then Some (Some (cc + (stop - start)), file, s)
         else do {
           (r, file, s) \<leftarrow> next_cluster clus file s;
           case r of None \<Rightarrow> Some (None, file, s) | Some next \<Rightarrow> write_clusters n next 0 end_byte src (cc + (stop - start)) file s
         }
       }
   }"

text \<open>The first cluster of a file, which an empty file does not have yet.\<close>

definition first_cluster :: "fat_file \<Rightarrow> fat_state \<Rightarrow> (u32 option \<times> fat_file \<times> fat_state) option" where
  "first_cluster file s =
     (let clus = get_start_cluster file in
      if clus \<noteq> 0 then Some (Some clus, file, s)
      else do {
        (r, s) \<leftarrow> fs_alloc s;
        case r of
          None \<Rightarrow> Some (None, file, s)
        | Some clus \<Rightarrow> do {
            let e = set_le16 26 (ucast (clus AND 0xFFFF)) (set_le16 20 (ucast (drop_bit 16 clus AND 0xFFFF)) (ff_entry file));
            (err, file, s) \<leftarrow> clear_cluster clus (file\<lparr>ff_entry := e\<rparr>) s;
            Some (if err then None else Some clus, file, s)
          }
      })"

definition fs_write :: "fat_file \<Rightarrow> u8 list \<Rightarrow> u32 \<Rightarrow> fat_state \<Rightarrow> (u32 \<times> fat_file \<times> fat_state) option" where
  "fs_write file src n s =
     (if n = 0 then Some (0, file, s)
      else do {
        let loc = ff_loc file;
        let bits = unat (fs_wa (cluster_bytes_of s));
        let start_clus = drop_bit bits loc;
        let end_clus = drop_bit bits (loc + n - 1);
        let start_byte = loc AND (cluster_bytes_of s - 1);
        let end_byte = (loc + n - 1) AND (cluster_bytes_of s - 1);
        let rounds = Suc (unat end_clus) - unat start_clus;
        (r, file, s) \<leftarrow> first_cluster file s;
        case r of
          None \<Rightarrow> Some (0xFFFFFFFF, file, s)
        | Some clus \<Rightarrow> do {
            (r, file, s) \<leftarrow> extend_to (unat start_clus) clus file s;
            case r of
              None \<Rightarrow> Some (0xFFFFFFFF, file, s)
            | Some clus \<Rightarrow> do {
                (r, file, s) \<leftarrow> write_clusters rounds clus (unat start_byte) (unat end_byte) src 0 file s;
                case r of
                  None \<Rightarrow> Some (0xFFFFFFFF, file, s)
                | Some cc \<Rightarrow> do {
                    let e = (if le32 28 (ff_entry file) < loc + n then set_le32 28 (loc + n) (ff_entry file) else ff_entry file);
                    Some (of_nat cc, file\<lparr>ff_entry := e, ff_loc := loc + n\<rparr>, s)
                  }
              }
          }
      })"

definition fs_lseek :: "u32 \<Rightarrow> fat_file \<Rightarrow> fat_file" where
  "fs_lseek new_loc file = (let filesize = le32 28 (ff_entry file) in file\<lparr>ff_loc := (if new_loc < filesize then new_loc else filesize)\<rparr>)"

end
