(* ===== verification/FatUser.thy ===== *)
theory FatUser
  imports FatFile
begin

text \<open>
  The FAT driver of the old file interface, third part: creating files (\<open>kernel/fs/fat/fat.c\<close>), removing, moving, directories and printing
  (\<open>usr.c\<close>), listing (\<open>dir.c\<close>). Local variables that the code leaves without a value are arguments named \<open>junk\<close>.
\<close>

section \<open>Creating\<close>

text \<open>
  The search for an entry that is free or deleted. A directory that is full gets a new cluster. \<open>sec\<close>, and not 1, is added to the sector
  number, and the sector taken for a cluster number again holds the base of the partition.
\<close>

definition free_offset :: "u8 list \<Rightarrow> nat option" where
  "free_offset buf = find (\<lambda>i. buf ! i = 0 \<or> buf ! i = 0xE5) entry_offsets"

definition empty_step :: "u32 \<Rightarrow> nat \<Rightarrow> fat_state \<Rightarrow> (nat option \<times> fat_state) option" where
  "empty_step sec index s =
     (let cur = fb_cur (dir_buffer index s) in
      if sec < spc_of s then read_dir_sector (cur + sec) s
      else do {
        (r, s) \<leftarrow> get_fat_entry_value (cur - spc_of s + 1) s;
        case r of
          None \<Rightarrow> Some (None, s)
        | Some next \<Rightarrow>
            if next \<le> total_data_clusters (ft_info s) + 1 then read_dir_sector (fs_dataclus2sec (ft_info s) next) s
            else do {
              (r, s) \<leftarrow> fs_alloc s;
              case r of
                None \<Rightarrow> Some (None, s)
              | Some next \<Rightarrow> do {
                  (err, s) \<leftarrow> fs_modify_fat (fs_sec2dataclus (ft_info s) (cur - spc_of s + 1)) next s;
                  if err then Some (None, s)
                  else do {
                    (err, a, d) \<leftarrow> fs_clr_512 (fs_dataclus2sec (ft_info s) next) (ft_dir s) (ft_disk s);
                    s \<leftarrow> Some (s\<lparr>ft_dir := a, ft_disk := d\<rparr>);
                    if err then Some (None, s) else read_dir_sector (fs_dataclus2sec (ft_info s) next) s
                  }
                }
            }
      })"

partial_function (option) fs_find_empty_entry :: "u32 \<Rightarrow> nat \<Rightarrow> fat_state \<Rightarrow> ((nat \<times> nat) option \<times> fat_state) option" where
  "fs_find_empty_entry sec index s =
     (if spc_of s < sec then fs_find_empty_entry 1 index s
      else case free_offset (fb_data (dir_buffer index s)) of
        Some i \<Rightarrow> Some (Some (i, index), s)
      | None \<Rightarrow> do {
          (r, s) \<leftarrow> empty_step sec index s;
          case r of None \<Rightarrow> Some (None, s) | Some index \<Rightarrow> fs_find_empty_entry (sec + 1) index s
        })"

text \<open>The last place in a path with a property; the loop over unsigned indices has no end when there is none.\<close>

definition last_place :: "(u8 \<Rightarrow> bool) \<Rightarrow> u8 list \<Rightarrow> nat option" where
  "last_place P path = find (\<lambda>i. P (path ! i)) (rev [0..<256])"

text \<open>The sector of the directory that gets the new entry, in a buffer.\<close>

definition open_parent :: "nat \<Rightarrow> nat \<Rightarrow> fat_file \<Rightarrow> fat_state \<Rightarrow> (nat option \<times> fat_file \<times> fat_state) option" where
  "open_parent l1 l2 file s =
     (if l1 = 0 then do {
        (r, s) \<leftarrow> read_dir_sector (fs_dataclus2sec (ft_info s) 2) s;
        Some (r, file\<lparr>ff_pos := 2\<rparr>, s)
      } else do {
        let path = put_bytes l1 (replicate (Suc l2 - l1) 0) (ff_path file);
        (err, file, s) \<leftarrow> fs_find (file\<lparr>ff_path := path\<rparr>) s;
        if err \<or> ff_pos file = 0xFFFFFFFF then Some (None, file, s)
        else do {
          let clus = get_start_cluster file;
          (r, s) \<leftarrow> read_dir_sector (fs_dataclus2sec (ft_info s) clus) s;
          Some (r, file\<lparr>ff_pos := clus\<rparr>, s)
        }
      })"

definition new_entry :: "u8 list \<Rightarrow> u8 \<Rightarrow> u8 list" where
  "new_entry name11 attr = take 11 name11 @ [attr] @ replicate 20 0"

definition fs_create_with_attr :: "fat_file \<Rightarrow> u8 list \<Rightarrow> u8 \<Rightarrow> fat_state \<Rightarrow> (bool \<times> fat_state) option" where
  "fs_create_with_attr junk filename attr s = do {
     (err, file, s) \<leftarrow> fs_open junk filename s;
     if \<not> err then Some (True, s)
     else do {
       l2 \<leftarrow> last_place (\<lambda>c. c \<noteq> 0) (ff_path file);
       l1 \<leftarrow> last_place (\<lambda>c. c = 0x2F) (ff_path file);
       (r, file, s) \<leftarrow> open_parent l1 l2 file s;
       case r of
         None \<Rightarrow> Some (True, s)
       | Some index \<Rightarrow> do {
           (r, s) \<leftarrow> fs_find_empty_entry 1 index s;
           case r of
             None \<Rightarrow> Some (True, s)
           | Some (i, index) \<Rightarrow> do {
               let path = (put_bytes 0 (take (l2 - l1) (drop (l1 + 1) filename)) (ff_path file))[l2 - l1 := 0];
               (_, n11) \<leftarrow> fs_next_slash path (ft_name11 s);
               let f = dir_buffer index s;
               let f = f\<lparr>fb_state := 3, fb_data := put_bytes i (new_entry n11 attr) (fb_data f)\<rparr>;
               fs_fflush (s\<lparr>ft_name11 := n11, ft_dir := fs_set index f (ft_dir s)\<rparr>)
             }
         }
     }
   }"

definition fs_create :: "fat_file \<Rightarrow> u8 list \<Rightarrow> fat_state \<Rightarrow> (bool \<times> fat_state) option" where
  "fs_create junk filename s = fs_create_with_attr junk filename 0x20 s"

section \<open>Removing and moving\<close>

partial_function (option) release_chain :: "u32 \<Rightarrow> fat_state \<Rightarrow> (bool \<times> fat_state) option" where
  "release_chain clus s =
     (if clus \<noteq> 0 \<and> clus \<le> total_data_clusters (ft_info s) + 1 then do {
        (r, s) \<leftarrow> get_fat_entry_value clus s;
        if r = None then Some (True, s)
        else do {
          (err, s) \<leftarrow> fs_modify_fat clus 0 s;
          if err then Some (True, s) else release_chain (the r) s
        }
      } else Some (False, s))"

definition fs_rm :: "fat_file \<Rightarrow> u8 list \<Rightarrow> fat_state \<Rightarrow> (bool \<times> fat_state) option" where
  "fs_rm junk filename s = do {
     (err, file, s) \<leftarrow> fs_open junk filename s;
     if err then Some (True, s)
     else do {
       let file = file\<lparr>ff_entry := (ff_entry file)[0 := 0xE5]\<rparr>;
       (err, s) \<leftarrow> release_chain (get_start_cluster file) s;
       if err then Some (True, s) else do { (err, _, s) \<leftarrow> fs_close file s; Some (err, s) }
     }
   }"

text \<open>The name of the target is a local array that hides the global one and never gets a value: the new entry has the name \<open>junk11\<close>.\<close>

definition fs_mv :: "fat_file \<Rightarrow> fat_file \<Rightarrow> u8 list \<Rightarrow> u8 list \<Rightarrow> u8 list \<Rightarrow> fat_state \<Rightarrow> (bool \<times> fat_state) option" where
  "fs_mv junk junk2 junk11 src dest s = do {
     (err, mk, s) \<leftarrow> fs_open junk src s;
     if err then Some (True, s)
     else do {
       (err, s) \<leftarrow> fs_create_with_attr junk2 dest (ff_entry mk ! 11) s;
       if err then Some (True, s)
       else do {
         let entry = put_bytes 0 (take 11 junk11) (take 32 (ff_entry mk));
         (err, file, s) \<leftarrow> fs_open (ft_create s) dest (s\<lparr>ft_mkdir_buf := entry\<rparr>);
         if err then Some (True, s\<lparr>ft_create := file\<rparr>)
         else do {
           (err, file, s) \<leftarrow> fs_close (file\<lparr>ff_entry := entry\<rparr>) s;
           s \<leftarrow> Some (s\<lparr>ft_create := file\<rparr>);
           if err then Some (True, s)
           else do { (err, _, s) \<leftarrow> fs_close (mk\<lparr>ff_entry := (ff_entry mk)[0 := 0xE5]\<rparr>) s; Some (err, s) }
         }
       }
     }
   }"

section \<open>Directories\<close>

definition dot_entry :: "nat \<Rightarrow> u8 list" where
  "dot_entry n = replicate n 0x2E @ replicate (11 - n) 0x20 @ [0x30] @ replicate 20 0"

text \<open>The results of \<open>fs_write\<close> are compared with 1, which is not its error value; \<open>junk_pos\<close> stands for the cluster of the parent.\<close>

definition fs_mkdir :: "fat_file \<Rightarrow> fat_file \<Rightarrow> u32 \<Rightarrow> u8 list \<Rightarrow> fat_state \<Rightarrow> (bool \<times> fat_state) option" where
  "fs_mkdir junk junk2 junk_pos filename s = do {
     (err, s) \<leftarrow> fs_create_with_attr junk2 filename 0x30 s;
     if err then Some (True, s)
     else do {
       (err, mk, s) \<leftarrow> fs_open junk filename s;
       if err then Some (True, s)
       else do {
         let b = dot_entry 1;
         (r, mk, s) \<leftarrow> fs_write mk b 32 (s\<lparr>ft_mkdir_buf := b\<rparr>);
         if r = 1 then Some (True, s)
         else do {
           let mk = fs_lseek 0 mk;
           let e = ff_entry mk;
           let b = b[20 := e ! 20, 21 := e ! 21, 26 := e ! 26, 27 := e ! 27];
           (r, mk, s) \<leftarrow> fs_write mk b 32 (s\<lparr>ft_mkdir_buf := b\<rparr>);
           if r = 1 then Some (True, s)
           else do {
             let b = set_le16 26 (ucast (junk_pos AND 0xFFFF)) (set_le16 20 (ucast (drop_bit 16 junk_pos AND 0xFFFF)) (dot_entry 2));
             (r, mk, s) \<leftarrow> fs_write mk b 32 (s\<lparr>ft_mkdir_buf := b\<rparr>);
             if r = 1 then Some (True, s)
             else do {
               (err, _, s) \<leftarrow> fs_close (mk\<lparr>ff_entry := put_bytes 28 [0, 0, 0, 0] (ff_entry mk)\<rparr>) s;
               Some (err, s)
             }
           }
         }
       }
     }
   }"

record fs_fat_dir =
  fd_sector :: u32
  fd_loc :: u32
  fd_sec :: u32

definition char_at :: "u8 list \<Rightarrow> nat \<Rightarrow> u8" where
  "char_at f i = (if i < List.length f then f ! i else 0)"

definition fs_open_dir :: "fs_fat_dir \<Rightarrow> u8 list \<Rightarrow> fat_state \<Rightarrow> (bool \<times> fs_fat_dir \<times> fat_state) option" where
  "fs_open_dir dir filename s =
     (if char_at filename 0 \<noteq> 0x2F then Some (True, dir, s)
      else do {
        let dir = \<lparr>fd_sector = fs_dataclus2sec (ft_info s) 2, fd_loc = 0, fd_sec = 1\<rparr>;
        (r, s) \<leftarrow> read_dir_sector (fd_sector dir) s;
        if r = None then Some (True, dir, s)
        else if char_at filename 1 = 0 then Some (False, dir, s)
        else do {
          (err, file, s) \<leftarrow> fs_find ((ft_find s)\<lparr>ff_path := path_of filename\<rparr>) s;
          s \<leftarrow> Some (s\<lparr>ft_find := file\<rparr>);
          if err \<or> ff_pos file = 0xFFFFFFFF \<or> ff_entry file ! 11 AND 0x10 = 0 then Some (True, dir, s)
          else do {
            let dir = dir\<lparr>fd_sector := fs_dataclus2sec (ft_info s) (get_start_cluster file)\<rparr>;
            (r, s) \<leftarrow> read_dir_sector (fd_sector dir) s;
            Some (r = None, dir, s)
          }
        }
      })"

text \<open>The next entry from the place in the directory on.\<close>

primrec scan_list :: "u8 list \<Rightarrow> nat list \<Rightarrow> dir_scan" where
  "scan_list buf [] = Dir_more"
| "scan_list buf (i # is) =
     (if buf ! i = 0 then Dir_end
      else if buf ! i \<noteq> 0xE5 \<and> buf ! (i + 11) AND 0x08 = 0 then Dir_hit i
      else scan_list buf is)"

definition offsets_from :: "u32 \<Rightarrow> nat list" where
  "offsets_from loc = map (\<lambda>k. unat loc + 32 * k) [0..<(543 - unat loc) div 32]"

text \<open>The result is an entry, \<open>Inl 0xFFFFFFFF\<close> when there are no more, or \<open>Inl 1\<close> after an error.\<close>

definition list_step :: "u32 \<Rightarrow> nat \<Rightarrow> fs_fat_dir \<Rightarrow> fat_state \<Rightarrow> (((u32 + u8 list) + nat) \<times> fs_fat_dir \<times> fat_state) option" where
  "list_step sec index dir s =
     (let b = dir_buffer index s in
      case scan_list (fb_data b) (offsets_from (fd_loc dir)) of
        Dir_end \<Rightarrow> Some (Inl (Inl 0xFFFFFFFF), dir, s)
      | Dir_hit i \<Rightarrow> Some (Inl (Inr (take 32 (drop i (fb_data b)))), dir\<lparr>fd_loc := of_nat i + 32\<rparr>, s)
      | Dir_more \<Rightarrow>
          if sec < spc_of s then do {
            let dir = \<lparr>fd_sector = fb_cur b + sec, fd_loc = 0, fd_sec = sec + 1\<rparr>;
            (r, s) \<leftarrow> read_dir_sector (fd_sector dir) s;
            Some (case r of None \<Rightarrow> Inl (Inl 1) | Some index \<Rightarrow> Inr index, dir, s)
          } else do {
            (r, s) \<leftarrow> get_fat_entry_value (fb_cur b - spc_of s + 1) s;
            case r of
              None \<Rightarrow> Some (Inl (Inl 1), dir, s)
            | Some next \<Rightarrow>
                if next \<le> total_data_clusters (ft_info s) + 1 then do {
                  let dir = \<lparr>fd_sector = fs_dataclus2sec (ft_info s) next, fd_loc = 0, fd_sec = 1\<rparr>;
                  (r, s) \<leftarrow> read_dir_sector (fd_sector dir) s;
                  Some (case r of None \<Rightarrow> Inl (Inl 1) | Some index \<Rightarrow> Inr index, dir, s)
                } else Some (Inl (Inl 0xFFFFFFFF), dir, s)
          })"

text \<open>When the loop over the sectors of a cluster starts again, it starts at \<open>dir->sec\<close>.\<close>

partial_function (option) read_dir_loop :: "u32 \<Rightarrow> nat \<Rightarrow> fs_fat_dir \<Rightarrow> fat_state \<Rightarrow> ((u32 + u8 list) \<times> fs_fat_dir \<times> fat_state) option" where
  "read_dir_loop sec index dir s =
     (if spc_of s < sec then read_dir_loop (fd_sec dir) index dir s
      else do {
        (r, dir, s) \<leftarrow> list_step sec index dir s;
        case r of Inl e \<Rightarrow> Some (e, dir, s) | Inr index \<Rightarrow> read_dir_loop (sec + 1) index dir s
      })"

definition fs_read_dir :: "fs_fat_dir \<Rightarrow> fat_state \<Rightarrow> ((u32 + u8 list) \<times> fs_fat_dir \<times> fat_state) option" where
  "fs_read_dir dir s = do {
     (r, s) \<leftarrow> read_dir_sector (fd_sector dir) s;
     case r of None \<Rightarrow> Some (Inl 1, dir, s) | Some index \<Rightarrow> read_dir_loop (fd_sec dir) index dir s
   }"

section \<open>Printing\<close>

text \<open>
  What \<open>fs_cat\<close> prints: the buffer up to its first 0. \<open>junk_buf\<close> is the memory that \<open>kmalloc\<close> gives, \<open>file_size + 1\<close> bytes; the results of
  reading and closing are not looked at.
\<close>

definition fs_cat :: "fat_file \<Rightarrow> u8 list \<Rightarrow> u8 list \<Rightarrow> fat_state \<Rightarrow> (u32 \<times> u8 list \<times> fat_state) option" where
  "fs_cat junk junk_buf path s = do {
     (err, file, s) \<leftarrow> fs_open junk path s;
     if err then Some (1, [], s)
     else do {
       let n = get_entry_filesize (ff_entry file);
       (r, out, file, s) \<leftarrow> fs_read file n s;
       _ \<leftarrow> c_guard (List.length out \<le> List.length junk_buf \<and> unat n < List.length junk_buf);
       let buf = (put_bytes 0 out junk_buf)[unat n := 0];
       (err, file, s) \<leftarrow> fs_close file s;
       Some (0, takeWhile (\<lambda>c. c \<noteq> 0) buf, s)
     }
   }"

end
