(* ===== verification/FatInv.thy ===== *)
theory FatInv
  imports FatUser FsCacheInv Ext2Inv FileIO
begin

text \<open>
  The FAT partition of the old driver as its buffers show it: the allocation table as a map from clusters to words and the data area as clusters. The
  geometry says where they lie; \<open>buffer_writer\<close> is interpreted for the buffers of the table, of directory sectors and of the clusters of a file.
\<close>

section \<open>Geometry\<close>

definition fat_lo :: "fs_info \<Rightarrow> nat" where "fat_lo i = unat (base_addr i) + unat (reserved_sectors i)"
definition fat_len :: "fs_info \<Rightarrow> nat" where "fat_len i = unat (num_of_sectors_per_fat i)"
definition data_lo :: "fs_info \<Rightarrow> nat" where "data_lo i = fat_lo i + 2 * fat_len i"
definition spc_nat :: "fs_info \<Rightarrow> nat" where "spc_nat i = unat (sectors_per_cluster i)"
definition clusters :: "fs_info \<Rightarrow> nat" where "clusters i = unat (total_data_clusters i)"
definition data_hi :: "fs_info \<Rightarrow> nat" where "data_hi i = data_lo i + clusters i * spc_nat i"

text \<open>Two copies of a table with room for all clusters, then the data; a cluster has 1, 2, 4 or 8 sectors, at most the 4 KB of a buffer.\<close>

definition fat_geom :: "fs_info \<Rightarrow> bool" where
  "fat_geom i \<longleftrightarrow> sectors_per_cluster i \<in> {1, 2, 4, 8} \<and> unat (first_data_sector i) + unat (base_addr i) = data_lo i
     \<and> data_hi i < 2 ^ 32 \<and> clusters i + 2 < 2 ^ 28 \<and> clusters i + 2 \<le> 128 * fat_len i"

definition fat_area :: "fs_info \<Rightarrow> u32 set" where "fat_area i = {k. fat_geom i \<and> fat_lo i \<le> unat k \<and> unat k < fat_lo i + fat_len i}"
definition fat_copies :: "fs_info \<Rightarrow> u32 set" where "fat_copies i = {k. fat_lo i \<le> unat k \<and> unat k < data_lo i}"
definition data_blocks :: "fs_info \<Rightarrow> u32 set" where "data_blocks i = {k. fat_geom i \<and> (\<exists>c < clusters i. unat k = data_lo i + c * spc_nat i)}"
definition data_sectors :: "fs_info \<Rightarrow> u32 set" where "data_sectors i = {k. data_lo i \<le> unat k \<and> unat k < data_hi i}"
definition dir_area :: "fs_info \<Rightarrow> u32 set" where "dir_area i = {k. fat_geom i \<and> k \<in> data_sectors i}"

lemma fat_geomD:
  assumes "fat_geom i"
  shows "fat_lo i + fat_len i \<le> data_lo i" "data_lo i \<le> data_hi i" "data_hi i < 2 ^ 32" "clusters i + 2 < 2 ^ 28" "clusters i + 2 \<le> 128 * fat_len i"
    "spc_nat i \<in> {1, 2, 4, 8}" "data_lo i + clusters i * spc_nat i = data_hi i" "0 < fat_len i"
proof -
  have "unat (sectors_per_cluster i) \<in> {1, 2, 4, 8}" using assms unfolding fat_geom_def by auto
  then show "spc_nat i \<in> {1, 2, 4, 8}" by (simp add: spc_nat_def)
qed (use assms in \<open>auto simp: fat_geom_def data_lo_def data_hi_def intro: gr0I\<close>)

section \<open>Writers\<close>

lemma unat_diff_u32: "unat (b - a :: u32) = (if unat a \<le> unat b then unat b - unat a else 2 ^ 32 + unat b - unat a)"
proof (cases "unat a \<le> unat b")
  case True
  then have "a \<le> b" by (simp add: word_le_nat_alt)
  then show ?thesis using True by (simp add: unat_sub)
next
  case False
  then show ?thesis by (simp add: unat_sub_if_size word_size word_le_nat_alt)
qed

lemma fs_write_buf_writer:
  assumes "0xffffffff \<notin> A" "\<And>a b i. a \<in> A \<Longrightarrow> b \<in> A \<Longrightarrow> a \<noteq> b \<Longrightarrow> i < unat n \<Longrightarrow> unat n \<le> unat (b + of_nat i - a)"
    and "\<And>a j. a \<in> A \<Longrightarrow> unat (j - a) < unat n \<Longrightarrow> j \<in> W"
  shows "buffer_writer (fs_write_buf n) n A W"
proof
  show "0xffffffff \<notin> A" by (rule assms(1))
next
  fix f :: fs_buf and d :: disk
  assume "fb_state f AND 2 = 0 \<or> fb_cur f = 0xffffffff"
  then show "fs_write_buf n f d = Some (False, f, d)" by (auto simp: fs_write_buf_def)
next
  fix f :: fs_buf and d :: disk
  assume a: "disk_ok d" "fb_cur f \<in> A" "fb_state f AND 2 \<noteq> 0" "unat n * SECSIZE \<le> List.length (fb_data f)"
  let ?b = "take (unat n * SECSIZE) (fb_data f)"
  have l: "List.length ?b = unat n * SECSIZE" using a(4) by simp
  obtain d' where d: "write_block (fb_data f) (fb_cur f) n d = (0, d')" "sectors d' = written (fb_cur f) (unat n) ?b (sectors d)" "disk_ok d'"
    using write_part_ok [OF a(1,4)] by blast
  have "block_bytes d' (fb_cur f) (unat n) = ?b"
    using block_bytes_written [OF d(2) l] unsigned_less [of n] by simp
  moreover have "block_bytes d' b (unat n) = block_bytes d b (unat n)" if "b \<in> A" "b \<noteq> fb_cur f" for b
    using assms(2) [OF a(2) that(1)] that(2) by (intro block_bytes_disjoint [OF d(2)]) auto
  moreover have "sectors d' k = sectors d k" if "k \<notin> W" for k
    using assms(3) [OF a(2), of k] that unfolding d(2) written_def by auto
  moreover have "fb_cur f \<noteq> 0xffffffff" using a(2) assms(1) by auto
  ultimately show "\<exists>d'. fs_write_buf n f d = Some (False, f\<lparr>fb_state := fb_state f AND 1\<rparr>, d') \<and> disk_ok d' \<and> block_bytes d' (fb_cur f) (unat n) = ?b
      \<and> (\<forall>b \<in> A. b \<noteq> fb_cur f \<longrightarrow> block_bytes d' b (unat n) = block_bytes d b (unat n)) \<and> (\<forall>k. k \<notin> W \<longrightarrow> sectors d' k = sectors d k)"
    using a d(1,3) by (auto simp: fs_write_buf_def)
qed

lemma small_word: "unat (k :: u32) < m \<Longrightarrow> m < 2 ^ 32 \<Longrightarrow> k \<noteq> 0xffffffff"
  by auto

interpretation dir_writer: buffer_writer fs_write_512 1 "dir_area i" "data_sectors i" for i
  unfolding fs_write_512_def
proof (rule fs_write_buf_writer)
  show "0xffffffff \<notin> dir_area i" using fat_geomD(3) [of i] by (auto simp: dir_area_def data_sectors_def)
  fix a b :: u32 and m :: nat
  assume "a \<noteq> b" "m < unat (1 :: u32)"
  then show "unat (1 :: u32) \<le> unat (b + of_nat m - a)" by (simp add: Suc_leI unat_gt_0)
next
  fix a j :: u32
  assume "a \<in> dir_area i" "unat (j - a) < unat (1 :: u32)"
  then show "j \<in> data_sectors i" by (simp add: dir_area_def unat_eq_0)
qed

interpretation data_writer: buffer_writer "fs_write_4k (sectors_per_cluster i)" "sectors_per_cluster i" "data_blocks i" "data_sectors i" for i
  unfolding fs_write_4k_def
proof (rule fs_write_buf_writer)
  have lim: "unat a + spc_nat i \<le> data_hi i" "data_lo i \<le> unat a" "data_hi i < 2 ^ 32" if "a \<in> data_blocks i" for a
  proof -
    obtain c where c: "c < clusters i" "unat a = data_lo i + c * spc_nat i" and g: "fat_geom i" using \<open>a \<in> _\<close> by (auto simp: data_blocks_def)
    have "Suc c * spc_nat i \<le> clusters i * spc_nat i" using c(1) by (intro mult_le_mono1) simp
    then show "unat a + spc_nat i \<le> data_hi i" using c(2) fat_geomD(7) [OF g] by simp
    show "data_lo i \<le> unat a" "data_hi i < 2 ^ 32" using c(2) fat_geomD(3) [OF g] by simp_all
  qed
  have spc: "0 < spc_nat i" "spc_nat i \<le> 8" if "a \<in> data_blocks i" for a using that fat_geomD(6) [of i] by (auto simp: data_blocks_def)
  show "0xffffffff \<notin> data_blocks i" using lim [of "0xffffffff"] spc [of "0xffffffff"] by auto
  fix a b :: u32 and m :: nat
  assume a: "a \<in> data_blocks i" and b: "b \<in> data_blocks i" and ne: "a \<noteq> b" and m: "m < unat (sectors_per_cluster i)"
  obtain c e where c: "unat a = data_lo i + c * spc_nat i" and e: "unat b = data_lo i + e * spc_nat i" using a b by (auto simp: data_blocks_def)
  have "c \<noteq> e" using c e ne by (auto simp: word_unat_eq_iff)
  then have apart: "unat a + spc_nat i \<le> unat b \<or> unat b + spc_nat i \<le> unat a"
  proof (cases "c < e")
    case True
    then have "Suc c * spc_nat i \<le> e * spc_nat i" by (intro mult_le_mono1) simp
    then show ?thesis using c e by simp
  next
    case False
    then have "Suc e * spc_nat i \<le> c * spc_nat i" using \<open>c \<noteq> e\<close> by (intro mult_le_mono1) simp
    then show ?thesis using c e by simp
  qed
  have m': "m < spc_nat i" using m by (simp add: spc_nat_def)
  have bm: "unat (b + of_nat m) = unat b + m"
  proof -
    have "unat b + m < 2 ^ 32" using lim [OF b] m' by simp
    then have "unat (of_nat (unat b + m) :: u32) = unat b + m" by (rule unat_of_nat_u32)
    then show ?thesis by simp
  qed
  show "unat (sectors_per_cluster i) \<le> unat (b + of_nat m - a)"
    unfolding unat_diff_u32 bm using apart m' lim [OF a] lim [OF b] by (auto simp: spc_nat_def)
next
  fix a j :: u32
  assume a: "a \<in> data_blocks i" and j: "unat (j - a) < unat (sectors_per_cluster i)"
  obtain c where c: "c < clusters i" "unat a = data_lo i + c * spc_nat i" and g: "fat_geom i" using a by (auto simp: data_blocks_def)
  have "Suc c * spc_nat i \<le> clusters i * spc_nat i" using c(1) by (intro mult_le_mono1) simp
  then have hi: "unat a + spc_nat i \<le> data_hi i" using c(2) fat_geomD(7) [OF g] by simp
  have "unat a \<le> unat j" using j hi fat_geomD(3) [OF g] unsigned_less [of j] by (auto simp: unat_diff_u32 spc_nat_def split: if_split_asm)
  then show "j \<in> data_sectors i" using j hi c(2) by (simp add: unat_diff_u32 data_sectors_def spc_nat_def)
qed

interpretation fat_writer: buffer_writer "write_fat_sector (num_of_sectors_per_fat i)" 1 "fat_area i" "fat_copies i" for i
proof
  show "0xffffffff \<notin> fat_area i" using fat_geomD(1-3) [of i] by (auto simp: fat_area_def)
next
  fix f :: fs_buf and d :: disk
  assume "fb_state f AND 2 = 0 \<or> fb_cur f = 0xffffffff"
  then show "write_fat_sector (num_of_sectors_per_fat i) f d = Some (False, f, d)" by (auto simp: write_fat_sector_def)
next
  fix f :: fs_buf and d :: disk
  let ?k = "fb_cur f" and ?spf = "num_of_sectors_per_fat i"
  assume a: "disk_ok d" "?k \<in> fat_area i" "fb_state f AND 2 \<noteq> 0" "unat (1 :: u32) * SECSIZE \<le> List.length (fb_data f)"
  have g: "fat_geom i" and k: "fat_lo i \<le> unat ?k" "unat ?k < fat_lo i + fat_len i" using a(2) by (auto simp: fat_area_def)
  note geo = fat_geomD [OF g]
  let ?b = "take (unat (1 :: u32) * SECSIZE) (fb_data f)"
  have l: "List.length ?b = 1 * SECSIZE" using a(4) by simp
  have spfk: "unat (?spf + ?k) = fat_len i + unat ?k"
  proof -
    have "fat_len i + unat ?k < 2 ^ 32" using geo(1-3) k(2) by (simp add: data_lo_def)
    then have "unat (of_nat (fat_len i + unat ?k) :: u32) = fat_len i + unat ?k" by (rule unat_of_nat_u32)
    then show ?thesis by (simp add: fat_len_def)
  qed
  obtain d1 where d1: "write_block (fb_data f) ?k 1 d = (0, d1)" "sectors d1 = written ?k (unat (1 :: u32)) ?b (sectors d)" "disk_ok d1"
    using write_part_ok [OF a(1,4)] by blast
  obtain d2 where d2: "write_block (fb_data f) (?spf + ?k) 1 d1 = (0, d2)" "sectors d2 = written (?spf + ?k) (unat (1 :: u32)) ?b (sectors d1)" "disk_ok d2"
    using write_part_ok [OF d1(3) a(4)] by blast
  have s1: "sectors d1 j = (if j = ?k then ?b else sectors d j)" for j
    unfolding d1(2) written_def using l by (simp add: unat_eq_0)
  have s2: "sectors d2 j = (if j = ?spf + ?k then ?b else sectors d1 j)" for j
    unfolding d2(2) written_def using l by (simp add: unat_eq_0)
  have ne: "b \<noteq> ?spf + ?k" if "b \<in> fat_area i" for b
  proof
    assume "b = ?spf + ?k"
    then have "unat b = fat_len i + unat ?k" using spfk by simp
    then show False using that k by (simp add: fat_area_def)
  qed
  have "block_bytes d2 ?k (unat (1 :: u32)) = ?b" using ne [OF a(2)] by (simp add: block_bytes_def s1 s2)
  moreover have "\<forall>b \<in> fat_area i. b \<noteq> ?k \<longrightarrow> block_bytes d2 b (unat (1 :: u32)) = block_bytes d b (unat (1 :: u32))"
    using ne by (simp add: block_bytes_def s1 s2)
  moreover have "\<forall>j. j \<notin> fat_copies i \<longrightarrow> sectors d2 j = sectors d j"
    using k spfk by (auto simp: s1 s2 fat_copies_def data_lo_def)
  moreover have "?k \<noteq> 0xffffffff" using k geo(1-3) by auto
  ultimately show "\<exists>d'. write_fat_sector ?spf f d = Some (False, f\<lparr>fb_state := fb_state f AND 1\<rparr>, d') \<and> disk_ok d' \<and> block_bytes d' ?k (unat (1 :: u32)) = ?b
      \<and> (\<forall>b \<in> fat_area i. b \<noteq> ?k \<longrightarrow> block_bytes d' b (unat (1 :: u32)) = block_bytes d b (unat (1 :: u32))) \<and> (\<forall>j. j \<notin> fat_copies i \<longrightarrow> sectors d' j = sectors d j)"
    using a d1(1) d2(1,3) by (auto simp: write_fat_sector_def)
qed

section \<open>The allocation table\<close>

definition ft_ok :: "fat_state \<Rightarrow> bool" where
  "ft_ok s \<longleftrightarrow> fat_geom (ft_info s) \<and> disk_ok (ft_disk s) \<and> bufs_ok 1 (fat_area (ft_info s)) (ft_disk s) (ft_fat s)"

definition ft_view :: "fat_state \<Rightarrow> u32 \<Rightarrow> u8 list" where
  "ft_view s k = buf_view 1 (ft_disk s) (ft_fat s) k"

text \<open>The word of a cluster, the 28 bits of it that count, and the clusters there are.\<close>

definition ft_word :: "fat_state \<Rightarrow> u32 \<Rightarrow> u32" where
  "ft_word s c = (case cluster_to_fat_entry (ft_info s) c of (sec, off) \<Rightarrow> le32 (unat off) (ft_view s sec))"

definition ft_entry :: "fat_state \<Rightarrow> u32 \<Rightarrow> u32" where "ft_entry s c = ft_word s c AND 0x0FFFFFFF"

definition clus_ok :: "fs_info \<Rightarrow> u32 \<Rightarrow> bool" where "clus_ok i c \<longleftrightarrow> unat c < clusters i + 2"

text \<open>Only the table, its buffers and its sectors on the card have changed; or nothing that is seen of it.\<close>

definition ft_step :: "fat_state \<Rightarrow> fat_state \<Rightarrow> bool" where
  "ft_step s t \<longleftrightarrow> t = s\<lparr>ft_disk := ft_disk t, ft_fat := ft_fat t\<rparr> \<and> ft_ok t \<and> (\<forall>k. k \<notin> fat_copies (ft_info s) \<longrightarrow> sectors (ft_disk t) k = sectors (ft_disk s) k)"

definition ft_same :: "fat_state \<Rightarrow> fat_state \<Rightarrow> bool" where
  "ft_same s t \<longleftrightarrow> ft_step s t \<and> (\<forall>k \<in> fat_area (ft_info s). ft_view t k = ft_view s k)"

lemma ft_okD: "ft_ok s \<Longrightarrow> fat_geom (ft_info s)" "ft_ok s \<Longrightarrow> disk_ok (ft_disk s)" "ft_ok s \<Longrightarrow> bufs_ok 1 (fat_area (ft_info s)) (ft_disk s) (ft_fat s)"
  by (simp_all add: ft_ok_def)

lemma ft_step_fields:
  assumes "ft_step s t"
  shows "ft_ok t" "ft_info t = ft_info s" "ft_dir t = ft_dir s" "ft_name11 t = ft_name11 s" "\<And>k. k \<notin> fat_copies (ft_info s) \<Longrightarrow> sectors (ft_disk t) k = sectors (ft_disk s) k"
proof -
  have e: "t = s\<lparr>ft_disk := ft_disk t, ft_fat := ft_fat t\<rparr>" using assms by (simp add: ft_step_def)
  show "ft_info t = ft_info s" "ft_dir t = ft_dir s" "ft_name11 t = ft_name11 s" by (subst e, simp)+
qed (use assms in \<open>simp_all add: ft_step_def\<close>)

lemma ft_step_refl: "ft_ok s \<Longrightarrow> ft_step s s"
  by (simp add: ft_step_def)

lemma ft_step_trans: "ft_step s t \<Longrightarrow> ft_step t u \<Longrightarrow> ft_step s u"
proof -
  assume a: "ft_step s t" "ft_step t u"
  have e: "t = s\<lparr>ft_disk := ft_disk t, ft_fat := ft_fat t\<rparr>" "u = t\<lparr>ft_disk := ft_disk u, ft_fat := ft_fat u\<rparr>"
    using a by (simp_all add: ft_step_def)
  have "u = s\<lparr>ft_disk := ft_disk u, ft_fat := ft_fat u\<rparr>" by (subst e(2), subst e(1)) simp
  moreover have "ft_info t = ft_info s" using ft_step_fields(2) [OF a(1)] .
  ultimately show ?thesis using a by (simp add: ft_step_def)
qed

lemma ft_same_refl: "ft_ok s \<Longrightarrow> ft_same s s"
  by (simp add: ft_same_def ft_step_refl)

lemma ft_same_trans: "ft_same s t \<Longrightarrow> ft_same t u \<Longrightarrow> ft_same s u"
  using ft_step_trans ft_step_fields(2) by (auto simp: ft_same_def)

lemma entry_place:
  assumes "fat_geom i" "clus_ok i c"
  shows "unat (fst (cluster_to_fat_entry i c)) = fat_lo i + unat c div 128" "unat (snd (cluster_to_fat_entry i c)) = 4 * (unat c mod 128)"
    "fst (cluster_to_fat_entry i c) \<in> fat_area i"
proof -
  note g = fat_geomD [OF assms(1)]
  have c: "unat c < 2 ^ 28" "unat c < 128 * fat_len i" using assms(2) g(4,5) by (simp_all add: clus_ok_def)
  have "push_bit 2 c = of_nat (4 * unat c)" by (simp add: push_bit_eq_mult mult.commute)
  then have o: "unat (push_bit 2 c) = 4 * unat c" using c(1) by (simp only:) (rule unat_of_nat_u32, simp)
  have q: "unat c div 128 < fat_len i" using c(2) by (simp add: div_less_iff_less_mult mult.commute)
  have d: "unat (drop_bit 9 (push_bit 2 c)) = unat c div 128"
    by (simp add: drop_bit_eq_div [of 9] unat_div o)
  have lt: "unat (reserved_sectors i) + unat c div 128 + unat (base_addr i) < 2 ^ 32"
    using q g(1-3) by (simp add: fat_lo_def)
  have "unat (reserved_sectors i + drop_bit 9 (push_bit 2 c) + base_addr i) = unat (reserved_sectors i) + unat c div 128 + unat (base_addr i)"
  proof -
    have "unat (of_nat (unat (reserved_sectors i) + unat c div 128 + unat (base_addr i)) :: u32) = unat (reserved_sectors i) + unat c div 128 + unat (base_addr i)"
      using lt by (rule unat_of_nat_u32)
    then show ?thesis by (simp add: d [symmetric])
  qed
  then show p: "unat (fst (cluster_to_fat_entry i c)) = fat_lo i + unat c div 128"
    by (simp add: cluster_to_fat_entry_def Let_def fat_lo_def)
  have "unat (push_bit 2 c AND 511) = 4 * unat c mod 512"
  proof -
    have "k AND (511 :: nat) = k mod 512" for k
      using take_bit_eq_mask [of 9 k] by (simp add: take_bit_eq_mod mask_eq_exp_minus_1)
    then show ?thesis by (simp add: o unsigned_and_eq)
  qed
  then show "unat (snd (cluster_to_fat_entry i c)) = 4 * (unat c mod 128)"
    by (simp add: cluster_to_fat_entry_def Let_def mult_mod_right)
  show "fst (cluster_to_fat_entry i c) \<in> fat_area i" using p q assms(1) by (simp add: fat_area_def)
qed

lemma le32_take: "p + 4 \<le> n \<Longrightarrow> le32 p (take n b) = le32 p b"
  by (rule le32_cong) simp

lemma read_fat_sector_ok:
  assumes "ft_ok s" "k \<in> fat_area (ft_info s)"
  shows "\<exists>i t. read_fat_sector k s = Some (Some i, t) \<and> i < List.length (ba_bufs (ft_fat t)) \<and> fb_cur (ba_bufs (ft_fat t) ! i) = k
    \<and> SECSIZE \<le> List.length (fb_data (ba_bufs (ft_fat t) ! i)) \<and> take SECSIZE (fb_data (ba_bufs (ft_fat t) ! i)) = ft_view s k \<and> ft_same s t"
proof -
  note o = ft_okD [OF assms(1)]
  obtain i a d where r: "fs_read_buf (write_fat_sector (num_of_sectors_per_fat (ft_info s))) 1 k (ft_fat s) (ft_disk s) = Some (Some i, a, d)"
      "i < List.length (ba_bufs a)" "fb_cur (ba_bufs a ! i) = k" "take SECSIZE (fb_data (ba_bufs a ! i)) = buf_view 1 (ft_disk s) (ft_fat s) k"
      "kept_bufs 1 (fat_area (ft_info s)) (fat_copies (ft_info s)) (ft_disk s) (ft_fat s) d a"
    using fat_writer.read_buf_ok [of "ft_disk s" "ft_info s" "ft_fat s" k] o(2,3) assms(2) by auto
  let ?t = "s\<lparr>ft_fat := a, ft_disk := d\<rparr>"
  note k = kept_bufsD [OF r(5)]
  have "ft_same s ?t" using k o(1) by (auto simp: ft_same_def ft_step_def ft_ok_def ft_view_def)
  moreover have "SECSIZE \<le> List.length (fb_data (ba_bufs a ! i))" using bufs_okD(2) [OF k(2) r(2)] by (simp add: buf_ok_def)
  ultimately show ?thesis using r by (auto simp: read_fat_sector_def ft_view_def)
qed

lemma ft_same_word: "ft_same s t \<Longrightarrow> clus_ok (ft_info s) c \<Longrightarrow> fat_geom (ft_info s) \<Longrightarrow> ft_word t c = ft_word s c"
  using ft_step_fields(2) [of s t] entry_place(3) [of "ft_info s" c]
  by (auto simp: ft_same_def ft_word_def case_prod_unfold)

lemma get_fat_entry_ok:
  assumes "ft_ok s" "clus_ok (ft_info s) c"
  shows "\<exists>t. get_fat_entry_value c s = Some (Some (ft_entry s c), t) \<and> ft_same s t"
proof -
  note e = entry_place [OF ft_okD(1) [OF assms(1)] assms(2)]
  obtain i t where r: "read_fat_sector (fst (cluster_to_fat_entry (ft_info s) c)) s = Some (Some i, t)"
      "take SECSIZE (fb_data (ba_bufs (ft_fat t) ! i)) = ft_view s (fst (cluster_to_fat_entry (ft_info s) c))" "ft_same s t"
    using read_fat_sector_ok [OF assms(1) e(3)] by blast
  have "4 * (unat c mod 128) + 4 \<le> SECSIZE" by (simp add: SECSIZE_def)
  then have "le32 (unat (snd (cluster_to_fat_entry (ft_info s) c))) (fb_data (ba_bufs (ft_fat t) ! i)) = ft_word s c"
    unfolding ft_word_def case_prod_unfold r(2) [symmetric] e(2) by (simp add: le32_take)
  then show ?thesis using r(1,3) by (auto simp: get_fat_entry_value_def case_prod_unfold ft_entry_def)
qed

lemma fat_word_bits: "((x AND 0xF0000000) OR (v AND 0x0FFFFFFF)) AND 0x0FFFFFFF = v AND (0x0FFFFFFF :: u32)"
  by (simp add: bit.conj_disj_distrib2 and.assoc)

lemma modify_fat_ok:
  assumes "ft_ok s" "clus_ok (ft_info s) c"
  shows "\<exists>t. fs_modify_fat c v s = Some (False, t) \<and> ft_step s t \<and> ft_word t c = (ft_word s c AND 0xF0000000) OR (v AND 0x0FFFFFFF)
    \<and> (\<forall>e. clus_ok (ft_info s) e \<longrightarrow> e \<noteq> c \<longrightarrow> ft_word t e = ft_word s e)"
proof -
  let ?i = "ft_info s"
  let ?k = "fst (cluster_to_fat_entry ?i c)" and ?o = "unat (snd (cluster_to_fat_entry ?i c))"
  note g = ft_okD(1) [OF assms(1)]
  note e = entry_place [OF g assms(2)]
  obtain i t where r: "read_fat_sector ?k s = Some (Some i, t)" "i < List.length (ba_bufs (ft_fat t))" "fb_cur (ba_bufs (ft_fat t) ! i) = ?k"
      "SECSIZE \<le> List.length (fb_data (ba_bufs (ft_fat t) ! i))" "take SECSIZE (fb_data (ba_bufs (ft_fat t) ! i)) = ft_view s ?k" "ft_same s t"
    using read_fat_sector_ok [OF assms(1) e(3)] by blast
  let ?f = "ba_bufs (ft_fat t) ! i"
  let ?w = "(ft_word s c AND 0xF0000000) OR (v AND 0x0FFFFFFF)"
  let ?g = "?f\<lparr>fb_state := 3, fb_data := set_le32 ?o ?w (fb_data ?f)\<rparr>"
  let ?u = "t\<lparr>ft_fat := fs_set i ?g (ft_fat t)\<rparr>"
  have st: "ft_step s t" and i: "ft_info t = ?i" using r(6) ft_step_fields(2) by (auto simp: ft_same_def)
  note ot = ft_okD [OF ft_step_fields(1) [OF st], unfolded i]
  have b: "?o + 4 \<le> SECSIZE" unfolding e(2) by (simp add: SECSIZE_def)
  have wd: "le32 ?o (fb_data ?f) = ft_word s c"
    unfolding ft_word_def case_prod_unfold r(5) [symmetric] using b by (simp add: le32_take)
  have m: "bufs_ok 1 (fat_area ?i) (ft_disk t) (fs_set i ?g (ft_fat t))"
      "\<And>b. b \<in> fat_area ?i \<Longrightarrow> buf_view 1 (ft_disk t) (fs_set i ?g (ft_fat t)) b = (if b = ?k then take SECSIZE (fb_data ?g) else buf_view 1 (ft_disk t) (ft_fat t) b)"
    using fat_writer.modify_ok [of "ft_disk t" ?i "ft_fat t" i ?k ?g] ot(2,3) r(2,3,4) e(3) by simp_all
  have "ft_ok ?u" using ot m(1) i by (simp add: ft_ok_def)
  moreover have "?u = s\<lparr>ft_disk := ft_disk ?u, ft_fat := ft_fat ?u\<rparr>"
  proof -
    have "t = s\<lparr>ft_disk := ft_disk t, ft_fat := ft_fat t\<rparr>" using st by (simp add: ft_step_def)
    then have "?u = (s\<lparr>ft_disk := ft_disk t, ft_fat := ft_fat t\<rparr>)\<lparr>ft_fat := fs_set i ?g (ft_fat t)\<rparr>" by (rule arg_cong)
    then show ?thesis by simp
  qed
  ultimately have step: "ft_step s ?u" using ft_step_fields(5) [OF st] by (simp add: ft_step_def)
  have vu: "ft_view ?u x = (if x = ?k then take SECSIZE (fb_data ?g) else ft_view s x)" if "x \<in> fat_area ?i" for x
    using m(2) [OF that] r(6) that by (simp add: ft_view_def ft_same_def)
  have wu: "ft_word ?u x = le32 (unat (snd (cluster_to_fat_entry ?i x))) (ft_view ?u (fst (cluster_to_fat_entry ?i x)))" for x
    using i by (simp add: ft_word_def case_prod_unfold)
  have own: "ft_word ?u c = ?w" unfolding wu using vu [OF e(3)] b r(4) by (simp add: le32_take le32_set)
  have other: "ft_word ?u x = ft_word s x" if x: "clus_ok ?i x" "x \<noteq> c" for x
  proof -
    note ex = entry_place [OF g x(1)]
    let ?kx = "fst (cluster_to_fat_entry ?i x)" and ?ox = "unat (snd (cluster_to_fat_entry ?i x))"
    show ?thesis
    proof (cases "?kx = ?k")
      case True
      then have "unat x div 128 = unat c div 128" using e(1) ex(1) by simp
      moreover have "unat x \<noteq> unat c" using x(2) by (simp add: word_unat_eq_iff)
      ultimately have "unat x mod 128 \<noteq> unat c mod 128" by (metis div_mult_mod_eq)
      then have ap: "?ox + 4 \<le> ?o \<or> ?o + 4 \<le> ?ox" unfolding e(2) ex(2) by linarith
      have bx: "?ox + 4 \<le> SECSIZE" unfolding ex(2) by (simp add: SECSIZE_def)
      have "ft_word ?u x = le32 ?ox (fb_data ?f)"
        unfolding wu using vu [OF ex(3)] True bx r(4) ap by (simp add: le32_take le32_set_other)
      also have "\<dots> = ft_word s x"
        unfolding ft_word_def case_prod_unfold True r(5) [symmetric] using bx by (simp add: le32_take)
      finally show ?thesis .
    next
      case False
      then show ?thesis unfolding wu using vu [OF ex(3)] by (simp add: ft_word_def case_prod_unfold)
    qed
  qed
  have "fs_modify_fat c v s = Some (False, ?u)"
    using r(1) wd by (simp add: fs_modify_fat_def case_prod_unfold Let_def)
  then show ?thesis using step own other by blast
qed

end
