(* ===== verification/FatData.thy ===== *)
theory FatData
  imports FatInv
begin

text \<open>The clusters of files on the FAT partition of the old driver: reading and writing along a chain, through the buffers of the file.\<close>

section \<open>Free clusters\<close>

lemma last_cluster: "fat_geom i \<Longrightarrow> total_data_clusters i + 1 < c \<longleftrightarrow> clusters i + 2 \<le> unat c"
proof -
  assume g: "fat_geom i"
  have "unat (total_data_clusters i + 1) = clusters i + 1"
    using fat_geomD(4) [OF g] by (simp add: clusters_def unat_word_ariths)
  then show ?thesis by (auto simp: word_less_nat_alt)
qed

definition free_from :: "fat_state \<Rightarrow> nat \<Rightarrow> nat option" where
  "free_from s n = find (\<lambda>e. ft_entry s (of_nat e) = 0) [n..<clusters (ft_info s) + 2]"

lemma ft_same_entry: "ft_same s t \<Longrightarrow> clus_ok (ft_info s) c \<Longrightarrow> ft_ok s \<Longrightarrow> ft_entry t c = ft_entry s c"
  by (simp add: ft_entry_def ft_same_word ft_okD)

lemma clus_ok_of_nat: "fat_geom i \<Longrightarrow> e < clusters i + 2 \<Longrightarrow> clus_ok i (of_nat e) \<and> unat (of_nat e :: u32) = e"
  using fat_geomD(4) [of i] unat_of_nat_u32 [of e] by (simp add: clus_ok_def)

lemma next_free_ok:
  assumes "ft_ok s"
  shows "\<exists>t. fs_next_free c s = Some (Some (case free_from s (unat c) of Some e \<Rightarrow> of_nat e | None \<Rightarrow> 0xFFFFFFFF), t) \<and> ft_same s t"
  using assms
proof (induction "clusters (ft_info s) + 2 - unat c" arbitrary: c s)
  case 0
  then have "total_data_clusters (ft_info s) + 1 < c" using last_cluster [OF ft_okD(1)] by simp
  moreover have "free_from s (unat c) = None" using 0 by (simp add: free_from_def)
  ultimately show ?case using 0(2) by (simp add: fs_next_free.simps [of c s] ft_same_refl)
next
  case (Suc m)
  have lt: "unat c < clusters (ft_info s) + 2" using Suc.hyps(2) by simp
  then have nl: "\<not> total_data_clusters (ft_info s) + 1 < c" and ok: "clus_ok (ft_info s) c"
    using last_cluster [OF ft_okD(1) [OF Suc.prems]] by (simp_all add: clus_ok_def)
  obtain t where t: "get_fat_entry_value c s = Some (Some (ft_entry s c), t)" "ft_same s t" using get_fat_entry_ok [OF Suc.prems ok] by blast
  have tok: "ft_ok t" and ti: "ft_info t = ft_info s" using t(2) ft_step_fields by (auto simp: ft_same_def)
  have upt: "[unat c..<clusters (ft_info s) + 2] = unat c # [Suc (unat c)..<clusters (ft_info s) + 2]" using lt by (simp add: upt_conv_Cons del: upt_Suc)
  show ?case
  proof (cases "ft_entry s c = 0")
    case True
    then have "free_from s (unat c) = Some (unat c)" unfolding free_from_def upt by simp
    then show ?thesis using t True nl by (auto simp: fs_next_free.simps [of c s])
  next
    case False
    have uc: "unat (c + 1) = Suc (unat c)" using lt fat_geomD(4) [OF ft_okD(1) [OF Suc.prems]] by (simp add: unat_word_ariths)
    have eq: "free_from t (unat (c + 1)) = free_from s (unat c)"
    proof -
      have "ft_entry t (of_nat e) = ft_entry s (of_nat e)" if "e < clusters (ft_info s) + 2" for e
        using clus_ok_of_nat [OF ft_okD(1) [OF Suc.prems] that] ft_same_entry [OF t(2) _ Suc.prems] by blast
      then have "find (\<lambda>e. ft_entry t (of_nat e) = 0) [Suc (unat c)..<clusters (ft_info s) + 2] = find (\<lambda>e. ft_entry s (of_nat e) = 0) [Suc (unat c)..<clusters (ft_info s) + 2]"
        by (intro find_cong refl) (simp only: set_upt atLeastLessThan_iff)
      then show ?thesis using False unfolding free_from_def upt uc ti by simp
    qed
    have m: "m = clusters (ft_info t) + 2 - unat (c + 1)" unfolding ti uc using Suc.hyps(2) by linarith
    obtain u where u: "fs_next_free (c + 1) t = Some (Some (case free_from t (unat (c + 1)) of Some e \<Rightarrow> of_nat e | None \<Rightarrow> 0xFFFFFFFF), u)" "ft_same t u"
      using Suc.hyps(1) [OF m tok] by blast
    then show ?thesis using t False nl ft_same_trans [OF t(2) u(2)] unfolding eq by (auto simp: fs_next_free.simps [of c s])
  qed
qed

section \<open>Clusters of data\<close>

definition data_clus :: "fs_info \<Rightarrow> u32 \<Rightarrow> bool" where "data_clus i c \<longleftrightarrow> 2 \<le> unat c \<and> clus_ok i c"
definition data_sec :: "fs_info \<Rightarrow> u32 \<Rightarrow> u32" where "data_sec i c = fs_dataclus2sec i c + base_addr i"

lemma fs_wa_values: "fs_wa 1 = 0" "fs_wa 2 = 1" "fs_wa 4 = 2" "fs_wa 8 = 3" "fs_wa 512 = 9" "fs_wa 1024 = 10" "fs_wa 2048 = 11" "fs_wa 4096 = 12"
  by (simp_all add: fs_wa.simps)

lemma spc_cases: "fat_geom i \<Longrightarrow> sectors_per_cluster i = 1 \<or> sectors_per_cluster i = 2 \<or> sectors_per_cluster i = 4 \<or> sectors_per_cluster i = 8"
  by (simp add: fat_geom_def)

lemma data_place:
  assumes "fat_geom i" "data_clus i c"
  shows "unat (data_sec i c) = data_lo i + (unat c - 2) * spc_nat i" "data_sec i c \<in> data_blocks i"
proof -
  note g = fat_geomD [OF assms(1)]
  have c: "2 \<le> unat c" "unat c - 2 < clusters i" using assms(2) by (auto simp: data_clus_def clus_ok_def)
  have c2: "c - 2 = of_nat (unat c - 2)" using c(1) by (simp add: of_nat_diff)
  have "push_bit (unat (fs_wa (sectors_per_cluster i))) (c - 2) = of_nat ((unat c - 2) * spc_nat i)"
    unfolding c2 using spc_cases [OF assms(1)] by (auto simp: fs_wa_values spc_nat_def push_bit_eq_mult)
  moreover have "first_data_sector i + base_addr i = of_nat (data_lo i)"
  proof -
    have "of_nat (unat (first_data_sector i) + unat (base_addr i)) = (of_nat (data_lo i) :: u32)" using assms(1) by (simp add: fat_geom_def)
    then show ?thesis by simp
  qed
  ultimately have e: "data_sec i c = of_nat (data_lo i + (unat c - 2) * spc_nat i)"
    by (simp add: data_sec_def fs_dataclus2sec_def add_ac)
  have "Suc (unat c - 2) * spc_nat i \<le> clusters i * spc_nat i" using c(2) by (intro mult_le_mono1) simp
  then have "data_lo i + (unat c - 2) * spc_nat i < 2 ^ 32" using g(3,7) by simp
  then show u: "unat (data_sec i c) = data_lo i + (unat c - 2) * spc_nat i" unfolding e by (rule unat_of_nat_u32)
  show "data_sec i c \<in> data_blocks i" using u c(2) assms(1) by (auto simp: data_blocks_def)
qed

lemma data_sec_inj:
  assumes "fat_geom i" "data_clus i c" "data_clus i e" "data_sec i c = data_sec i e"
  shows "c = e"
proof -
  have "0 < spc_nat i" using fat_geomD(6) [OF assms(1)] by auto
  then have "unat c - 2 = unat e - 2" using data_place(1) [OF assms(1,2)] data_place(1) [OF assms(1,3)] assms(4) by simp
  then have "unat c = unat e" using assms(2,3) unfolding data_clus_def by linarith
  then show ?thesis by (simp add: word_unat_eq_iff)
qed

text \<open>The buffers of a file, and what they show of a cluster.\<close>

definition ff_ok :: "fat_state \<Rightarrow> fat_file \<Rightarrow> bool" where
  "ff_ok s fl \<longleftrightarrow> bufs_ok (spc_nat (ft_info s)) (data_blocks (ft_info s)) (ft_disk s) (ff_bufs fl)"

definition clus_view :: "fat_state \<Rightarrow> fat_file \<Rightarrow> u32 \<Rightarrow> u8 list" where
  "clus_view s fl c = buf_view (spc_nat (ft_info s)) (ft_disk s) (ff_bufs fl) (data_sec (ft_info s) c)"

text \<open>Reading changes buffers only, and nothing that is seen through them.\<close>

definition io_step :: "fat_state \<Rightarrow> fat_file \<Rightarrow> fat_state \<Rightarrow> fat_file \<Rightarrow> bool" where
  "io_step s fl t fl' \<longleftrightarrow> ft_ok t \<and> ff_ok t fl' \<and> t = s\<lparr>ft_disk := ft_disk t, ft_fat := ft_fat t\<rparr> \<and> fl' = fl\<lparr>ff_bufs := ff_bufs fl'\<rparr>
     \<and> (\<forall>c. clus_ok (ft_info s) c \<longrightarrow> ft_word t c = ft_word s c)"

definition io_same :: "fat_state \<Rightarrow> fat_file \<Rightarrow> fat_state \<Rightarrow> fat_file \<Rightarrow> bool" where
  "io_same s fl t fl' \<longleftrightarrow> io_step s fl t fl' \<and> (\<forall>c. data_clus (ft_info s) c \<longrightarrow> clus_view t fl' c = clus_view s fl c)"

lemma io_stepD:
  assumes "io_step s fl t fl'"
  shows "ft_ok t" "ff_ok t fl'" "ft_info t = ft_info s" "fl' = fl\<lparr>ff_bufs := ff_bufs fl'\<rparr>" "\<And>c. clus_ok (ft_info s) c \<Longrightarrow> ft_entry t c = ft_entry s c"
    "\<And>c. clus_ok (ft_info s) c \<Longrightarrow> ft_word t c = ft_word s c"
proof -
  have "t = s\<lparr>ft_disk := ft_disk t, ft_fat := ft_fat t\<rparr>" using assms by (simp add: io_step_def)
  from arg_cong [OF this, of ft_info] show "ft_info t = ft_info s" by simp
qed (use assms in \<open>auto simp: io_step_def ft_entry_def\<close>)

lemma io_step_trans: "io_step s f t g \<Longrightarrow> io_step t g u h \<Longrightarrow> io_step s f u h"
proof -
  assume a: "io_step s f t g" "io_step t g u h"
  have e: "t = s\<lparr>ft_disk := ft_disk t, ft_fat := ft_fat t\<rparr>" "u = t\<lparr>ft_disk := ft_disk u, ft_fat := ft_fat u\<rparr>"
    and f: "g = f\<lparr>ff_bufs := ff_bufs g\<rparr>" "h = g\<lparr>ff_bufs := ff_bufs h\<rparr>" using a by (simp_all add: io_step_def)
  have "u = s\<lparr>ft_disk := ft_disk u, ft_fat := ft_fat u\<rparr>" by (subst e(2), subst e(1)) simp
  moreover have "h = f\<lparr>ff_bufs := ff_bufs h\<rparr>" by (subst f(2), subst f(1)) simp
  moreover have "ft_word u c = ft_word s c" if "clus_ok (ft_info s) c" for c
    using io_stepD(6) [OF a(1) that] io_stepD(6) [OF a(2), of c] io_stepD(3) [OF a(1)] that by simp
  ultimately show ?thesis unfolding io_step_def using io_stepD(1,2) [OF a(2)] by blast
qed

lemma io_same_trans:
  assumes "io_same s f t g" "io_same t g u h"
  shows "io_same s f u h"
proof -
  have st: "io_step s f t g" "io_step t g u h" using assms unfolding io_same_def by blast+
  have "clus_view u h c = clus_view s f c" if "data_clus (ft_info s) c" for c
  proof -
    have "data_clus (ft_info t) c" unfolding io_stepD(3) [OF st(1)] by (rule that)
    then have "clus_view u h c = clus_view t g c" using assms(2) unfolding io_same_def by blast
    also have "\<dots> = clus_view s f c" using assms(1) that unfolding io_same_def by blast
    finally show ?thesis .
  qed
  then show ?thesis using io_step_trans [OF st] unfolding io_same_def by blast
qed

lemma io_same_refl: "ft_ok s \<Longrightarrow> ff_ok s f \<Longrightarrow> io_same s f s f"
  by (simp add: io_same_def io_step_def)

lemma bufs_card:
  assumes "bufs_ok n A d a" "\<And>k. k \<in> A \<Longrightarrow> block_bytes d' k n = block_bytes d k n"
  shows "bufs_ok n A d' a" "k \<in> A \<Longrightarrow> buf_view n d' a k = buf_view n d a k"
  using assms by (auto simp: bufs_ok_def buf_ok_def buf_view_def split: option.split)

lemma data_block_sectors:
  assumes "k \<in> data_blocks i" "j < spc_nat i"
  shows "k + of_nat j \<in> data_sectors i" "k + of_nat j \<notin> fat_copies i"
proof -
  obtain c where c: "c < clusters i" "unat k = data_lo i + c * spc_nat i" and g: "fat_geom i" using assms(1) by (auto simp: data_blocks_def)
  note geo = fat_geomD [OF g]
  have "Suc c * spc_nat i \<le> clusters i * spc_nat i" using c(1) by (intro mult_le_mono1) simp
  then have h: "unat k + j < data_hi i" using assms(2) c(2) geo(7) by simp
  have "unat k + j < 2 ^ 32" using h geo(3) by simp
  then have "unat (of_nat (unat k + j) :: u32) = unat k + j" by (rule unat_of_nat_u32)
  then have "unat (k + of_nat j) = unat k + j" by simp
  then show "k + of_nat j \<in> data_sectors i" "k + of_nat j \<notin> fat_copies i" using h c(2) by (simp_all add: data_sectors_def fat_copies_def)
qed

lemma ft_same_io:
  assumes "ft_same s t" "ft_ok s" "ff_ok s fl"
  shows "io_same s fl t fl"
proof -
  have st: "ft_step s t" using assms(1) by (simp add: ft_same_def)
  note f = ft_step_fields [OF st]
  have b: "block_bytes (ft_disk t) k (spc_nat (ft_info s)) = block_bytes (ft_disk s) k (spc_nat (ft_info s))" if "k \<in> data_blocks (ft_info s)" for k
  proof -
    have "map (\<lambda>j. sectors (ft_disk t) (k + of_nat j)) [0..<spc_nat (ft_info s)] = map (\<lambda>j. sectors (ft_disk s) (k + of_nat j)) [0..<spc_nat (ft_info s)]"
      using data_block_sectors(2) [OF that] f(5) by simp
    then show ?thesis unfolding block_bytes_def by (rule arg_cong)
  qed
  note c = bufs_card [OF assms(3) [unfolded ff_ok_def] b]
  have "io_step s fl t fl" using st f c(1) ft_same_word [OF assms(1) _ ft_okD(1) [OF assms(2)]] by (simp add: io_step_def ft_step_def ff_ok_def)
  then show ?thesis using c(2) f(2) data_place(2) [OF ft_okD(1) [OF assms(2)]] by (simp add: io_same_def clus_view_def)
qed

lemma get_entry_io:
  assumes "ft_ok s" "ff_ok s fl" "clus_ok (ft_info s) c"
  shows "\<exists>t. get_fat_entry_value c s = Some (Some (ft_entry s c), t) \<and> io_same s fl t fl"
  using get_fat_entry_ok [OF assms(1,3)] ft_same_io [OF _ assms(1,2)] by blast

text \<open>What the data area does leaves the table alone.\<close>

lemma data_frame:
  assumes "ft_ok s" "disk_ok d" "\<And>k. k \<notin> data_sectors (ft_info s) \<Longrightarrow> sectors d k = sectors (ft_disk s) k"
  shows "ft_ok (s\<lparr>ft_disk := d\<rparr>)" "clus_ok (ft_info s) c \<Longrightarrow> ft_word (s\<lparr>ft_disk := d\<rparr>) c = ft_word s c"
proof -
  note o = ft_okD [OF assms(1)]
  have b: "block_bytes d k 1 = block_bytes (ft_disk s) k 1" if "k \<in> fat_area (ft_info s)" for k
  proof -
    have "k \<notin> data_sectors (ft_info s)" using that by (simp add: fat_area_def data_sectors_def data_lo_def)
    then show ?thesis using assms(3) by (simp add: block_bytes_def)
  qed
  note c = bufs_card [OF o(3) b]
  show "ft_ok (s\<lparr>ft_disk := d\<rparr>)" using o c(1) assms(2) by (simp add: ft_ok_def)
  show "ft_word (s\<lparr>ft_disk := d\<rparr>) c = ft_word s c" if "clus_ok (ft_info s) c"
    using c(2) entry_place(3) [OF o(1) that] by (simp add: ft_word_def ft_view_def case_prod_unfold)
qed

lemma read_cluster_ok:
  assumes "ft_ok s" "ff_ok s fl" "data_clus (ft_info s) c"
  shows "\<exists>i fl' t. read_cluster c fl s = Some (Some i, fl', t) \<and> i < List.length (ba_bufs (ff_bufs fl')) \<and> fb_cur (ba_bufs (ff_bufs fl') ! i) = data_sec (ft_info s) c
    \<and> spc_nat (ft_info s) * SECSIZE \<le> List.length (fb_data (ba_bufs (ff_bufs fl') ! i))
    \<and> take (spc_nat (ft_info s) * SECSIZE) (fb_data (ba_bufs (ff_bufs fl') ! i)) = clus_view s fl c \<and> io_same s fl t fl'"
proof -
  let ?i = "ft_info s"
  note o = ft_okD [OF assms(1)]
  note p = data_place(2) [OF o(1) assms(3)]
  obtain i a d where r: "fs_read_buf (fs_write_4k (sectors_per_cluster ?i)) (sectors_per_cluster ?i) (data_sec ?i c) (ff_bufs fl) (ft_disk s) = Some (Some i, a, d)"
      "i < List.length (ba_bufs a)" "fb_cur (ba_bufs a ! i) = data_sec ?i c"
      "take (spc_nat ?i * SECSIZE) (fb_data (ba_bufs a ! i)) = buf_view (spc_nat ?i) (ft_disk s) (ff_bufs fl) (data_sec ?i c)"
      "kept_bufs (spc_nat ?i) (data_blocks ?i) (data_sectors ?i) (ft_disk s) (ff_bufs fl) d a"
    using data_writer.read_buf_ok [of "ft_disk s" ?i "ff_bufs fl" "data_sec ?i c"] o(2) assms(2) p unfolding ff_ok_def spc_nat_def [symmetric] by blast
  note k = kept_bufsD [OF r(5)]
  note fr = data_frame [OF assms(1) k(1) k(5)]
  let ?t = "s\<lparr>ft_disk := d\<rparr>" and ?f = "fl\<lparr>ff_bufs := a\<rparr>"
  have "io_step s fl ?t ?f" using fr k(2) by (simp add: io_step_def ff_ok_def)
  then have "io_same s fl ?t ?f" using k(4) data_place(2) [OF o(1)] by (simp add: io_same_def clus_view_def)
  moreover have "spc_nat ?i * SECSIZE \<le> List.length (fb_data (ba_bufs a ! i))" using bufs_okD(2) [OF k(2) r(2)] by (simp add: buf_ok_def)
  ultimately show ?thesis using r(1-4)
    by (intro exI [of _ i] exI [of _ ?f] exI [of _ ?t]) (simp add: read_cluster_def fs_read_4k_def data_sec_def spc_of_def clus_view_def)
qed

section \<open>Reading along a chain\<close>

definition chain_at :: "fat_state \<Rightarrow> u32 list \<Rightarrow> bool" where
  "chain_at s cs \<longleftrightarrow> (\<forall>c \<in> set cs. data_clus (ft_info s) c) \<and> (\<forall>j. Suc j < List.length cs \<longrightarrow> ft_entry s (cs ! j) = cs ! Suc j)"

definition clus_len :: "fat_state \<Rightarrow> nat" where "clus_len s = spc_nat (ft_info s) * SECSIZE"

text \<open>The bytes of a file whose clusters are \<open>cs\<close>.\<close>

definition file_view :: "fat_state \<Rightarrow> fat_file \<Rightarrow> u32 list \<Rightarrow> nat \<Rightarrow> u8" where
  "file_view s fl cs = file_byte (clus_len s) (\<lambda>k. clus_view s fl (cs ! k))"

lemma chain_atD: "chain_at s cs \<Longrightarrow> j < List.length cs \<Longrightarrow> data_clus (ft_info s) (cs ! j)" "chain_at s cs \<Longrightarrow> Suc j < List.length cs \<Longrightarrow> ft_entry s (cs ! j) = cs ! Suc j"
  by (simp_all add: chain_at_def)

lemma chain_at_io: "io_step s fl t fl' \<Longrightarrow> chain_at s cs \<Longrightarrow> chain_at t cs"
  using io_stepD(3,5) [of s fl t fl'] by (auto simp: chain_at_def data_clus_def)

lemma length_clus_view: "ft_ok s \<Longrightarrow> ff_ok s fl \<Longrightarrow> List.length (clus_view s fl c) = clus_len s"
proof -
  assume a: "ft_ok s" "ff_ok s fl"
  show ?thesis
  proof (cases "fs_lookup (data_sec (ft_info s) c) (ba_bufs (ff_bufs fl))")
    case None
    then show ?thesis using ft_okD(2) [OF a(1)] by (simp add: clus_view_def buf_view_def clus_len_def)
  next
    case (Some i)
    then have "spc_nat (ft_info s) * SECSIZE \<le> List.length (fb_data (ba_bufs (ff_bufs fl) ! i))"
      using bufs_okD(2) [OF a(2) [unfolded ff_ok_def]] fs_lookup_Some [OF Some] by (simp add: buf_ok_def)
    then show ?thesis using Some by (simp add: clus_view_def buf_view_def clus_len_def)
  qed
qed

lemma file_view_same:
  assumes "io_same s fl t fl'" "chain_at s cs" "m < List.length cs * clus_len s"
  shows "file_view t fl' cs m = file_view s fl cs m"
proof -
  have i: "ft_info t = ft_info s" using assms(1) io_stepD(3) by (auto simp: io_same_def)
  have "m div clus_len s < List.length cs" using assms(3) by (simp add: less_mult_imp_div_less)
  then show ?thesis using assms(1) chain_atD(1) [OF assms(2)] i by (simp add: io_same_def file_view_def file_byte_def clus_len_def)
qed

lemma follow_chain_ok:
  assumes "ft_ok s" "ff_ok s fl" "chain_at s cs" "j + k < List.length cs"
  shows "\<exists>t. follow_chain k (cs ! j) s = Some (Some (cs ! (j + k)), t) \<and> io_same s fl t fl"
  using assms
proof (induction k arbitrary: j s)
  case 0
  then show ?case by (simp add: io_same_refl)
next
  case (Suc k)
  have "clus_ok (ft_info s) (cs ! j)" using chain_atD(1) [OF Suc.prems(3), of j] Suc.prems(4) by (simp add: data_clus_def)
  then obtain t where t: "get_fat_entry_value (cs ! j) s = Some (Some (cs ! Suc j), t)" "io_same s fl t fl"
    using get_entry_io [OF Suc.prems(1,2)] chain_atD(2) [OF Suc.prems(3), of j] Suc.prems(4) by fastforce
  have st: "io_step s fl t fl" using t(2) by (simp add: io_same_def)
  obtain u where u: "follow_chain k (cs ! Suc j) t = Some (Some (cs ! (Suc j + k)), u)" "io_same t fl u fl"
    using Suc.IH [OF io_stepD(1,2) [OF st] chain_at_io [OF st Suc.prems(3)], of "Suc j"] Suc.prems(4) by auto
  then show ?case using t io_same_trans by auto
qed

lemma read_clusters_ok:
  assumes "ft_ok s" "ff_ok s fl" "chain_at s cs" "j + m < List.length cs" "e < clus_len s" "start \<le> (if m = 0 then e + 1 else clus_len s)"
  shows "\<exists>fl' t. read_clusters (Suc m) (cs ! j) start e out fl s
    = Some (False, out @ map (file_view s fl cs) [j * clus_len s + start..<(j + m) * clus_len s + e + 1], fl', t) \<and> io_same s fl t fl'"
  using assms
proof (induction m arbitrary: j start out fl s)
  case 0
  let ?L = "clus_len s"
  obtain i fl' t where r: "read_cluster (cs ! j) fl s = Some (Some i, fl', t)" "?L \<le> List.length (fb_data (ba_bufs (ff_bufs fl') ! i))"
      "take ?L (fb_data (ba_bufs (ff_bufs fl') ! i)) = clus_view s fl (cs ! j)" "io_same s fl t fl'"
    using read_cluster_ok [OF 0(1,2) chain_atD(1) [OF 0(3)], of j] 0(4) by (auto simp: clus_len_def)
  let ?d = "fb_data (ba_bufs (ff_bufs fl') ! i)"
  have "take (e + 1 - start) (drop start ?d) = take (e + 1 - start) (drop start (take ?L ?d))"
    using 0(5,6) by (simp add: drop_take min_def)
  also have "\<dots> = map (file_view s fl cs) [j * ?L + start..<j * ?L + e + 1]"
    unfolding r(3) file_view_def
    using page_slice [of "\<lambda>k. clus_view s fl (cs ! k)" j ?L "j * ?L + start" "j * ?L + e + 1"] 0(5,6) length_clus_view [OF 0(1,2)] by simp
  finally show ?case using r 0(5) by simp
next
  case (Suc m)
  let ?L = "clus_len s"
  have jm: "Suc j + m < List.length cs" "j < List.length cs" "Suc j < List.length cs" using Suc.prems(4) by simp_all
  obtain i fl' t where r: "read_cluster (cs ! j) fl s = Some (Some i, fl', t)" "?L \<le> List.length (fb_data (ba_bufs (ff_bufs fl') ! i))"
      "take ?L (fb_data (ba_bufs (ff_bufs fl') ! i)) = clus_view s fl (cs ! j)" "io_same s fl t fl'"
    using read_cluster_ok [OF Suc.prems(1,2) chain_atD(1) [OF Suc.prems(3) jm(2)]] by (auto simp: clus_len_def)
  have st: "io_step s fl t fl'" using r(4) by (simp add: io_same_def)
  note t = io_stepD [OF st]
  note ct = chain_at_io [OF st Suc.prems(3)]
  have "clus_ok (ft_info t) (cs ! j)" using chain_atD(1) [OF ct jm(2)] by (simp add: data_clus_def)
  then obtain u where u: "get_fat_entry_value (cs ! j) t = Some (Some (cs ! Suc j), u)" "io_same t fl' u fl'"
    using get_entry_io [OF t(1,2)] chain_atD(2) [OF ct jm(3)] by fastforce
  have su: "io_step t fl' u fl'" using u(2) by (simp add: io_same_def)
  note u' = io_stepD [OF su]
  have L: "clus_len t = ?L" "clus_len u = ?L" using t(3) u'(3) by (simp_all add: clus_len_def)
  have cb: "unat (cluster_bytes_of t) = ?L"
    using spc_cases [OF ft_okD(1) [OF t(1)]] t(3) by (auto simp: cluster_bytes_of_def spc_of_def clus_len_def spc_nat_def SECSIZE_def)
  let ?d = "fb_data (ba_bufs (ff_bufs fl') ! i)"
  let ?out = "out @ take (?L - start) (drop start ?d)"
  note same = io_same_trans [OF r(4) u(2)]
  obtain fl'' v where w: "read_clusters (Suc m) (cs ! Suc j) 0 e ?out fl' u
      = Some (False, ?out @ map (file_view u fl' cs) [Suc j * ?L..<(Suc j + m) * ?L + e + 1], fl'', v)" "io_same u fl' v fl''"
    using Suc.IH [OF u'(1,2) chain_at_io [OF su ct] jm(1), of 0 ?out] Suc.prems(5) L by auto
  have fv: "map (file_view u fl' cs) [Suc j * ?L..<(Suc j + m) * ?L + e + 1] = map (file_view s fl cs) [Suc j * ?L..<(Suc j + m) * ?L + e + 1]"
  proof (rule map_cong)
    fix x assume "x \<in> set [Suc j * ?L..<(Suc j + m) * ?L + e + 1]"
    then have "x < (Suc j + m) * ?L + e + 1" by (simp only: set_upt atLeastLessThan_iff)
    then have "x < Suc (Suc j + m) * ?L" using Suc.prems(5) unfolding mult_Suc [of "Suc j + m"] by linarith
    also have "\<dots> \<le> List.length cs * ?L" using jm(1) by (intro mult_le_mono1) simp
    finally show "file_view u fl' cs x = file_view s fl cs x" by (rule file_view_same [OF same Suc.prems(3)])
  qed simp
  have "take (?L - start) (drop start ?d) = take (?L - start) (drop start (take ?L ?d))" by (simp add: drop_take)
  also have "\<dots> = map (file_view s fl cs) [j * ?L + start..<Suc j * ?L]"
    unfolding r(3) file_view_def
    using page_slice [of "\<lambda>k. clus_view s fl (cs ! k)" j ?L "j * ?L + start" "Suc j * ?L"] Suc.prems(6) length_clus_view [OF Suc.prems(1,2)] by simp
  finally have o: "?out = out @ map (file_view s fl cs) [j * ?L + start..<Suc j * ?L]" by simp
  have "j * ?L + start \<le> Suc j * ?L" "Suc j * ?L \<le> (j + Suc m) * ?L + e + 1" using Suc.prems(6) by (simp_all add: add_mult_distrib)
  then have "[j * ?L + start..<(j + Suc m) * ?L + e + 1] = [j * ?L + start..<Suc j * ?L] @ [Suc j * ?L..<(Suc j + m) * ?L + e + 1]"
    by (subst upt_split [of "j * ?L + start" "Suc j * ?L"]) simp_all
  then have m: "?out @ map (file_view u fl' cs) [Suc j * ?L..<(Suc j + m) * ?L + e + 1] = out @ map (file_view s fl cs) [j * ?L + start..<(j + Suc m) * ?L + e + 1]"
    unfolding fv o by simp
  have "read_clusters (Suc (Suc m)) (cs ! j) start e out fl s = read_clusters (Suc m) (cs ! Suc j) 0 e ?out fl' u"
    using r(1,2) u(1) cb Suc.prems(6) by (simp add: read_clusters.simps(2) [of "Suc m"] Let_def del: read_clusters.simps(2))
  then show ?case using w(1) io_same_trans [OF same w(2)] unfolding m by auto
qed

text \<open>Positions in a file: a cluster has a power of two bytes.\<close>

lemma position:
  assumes "fat_geom (ft_info s)"
  shows "unat (drop_bit (unat (fs_wa (cluster_bytes_of s))) x) = unat x div clus_len s" "unat (x AND (cluster_bytes_of s - 1)) = unat x mod clus_len s"
    "0 < clus_len s" "unat (cluster_bytes_of s) = clus_len s"
proof -
  have m: "unat (x AND (2 ^ n - 1)) = unat x mod 2 ^ n" if "n < 32" for n
    using that by (simp add: mask_eq_exp_minus_1 [symmetric] take_bit_eq_mask [symmetric] take_bit_eq_mod unat_mod unat_exp_u32)
  have d: "unat (drop_bit n x) = unat x div 2 ^ n" if "n < 32" for n
    using that by (simp add: drop_bit_eq_div unat_div unat_exp_u32)
  consider "sectors_per_cluster (ft_info s) = 1" | "sectors_per_cluster (ft_info s) = 2" | "sectors_per_cluster (ft_info s) = 4" | "sectors_per_cluster (ft_info s) = 8"
    using spc_cases [OF assms] by blast
  note c = this
  show "unat (drop_bit (unat (fs_wa (cluster_bytes_of s))) x) = unat x div clus_len s"
    using c d [of 9] d [of 10] d [of 11] d [of 12] by cases (simp_all add: cluster_bytes_of_def spc_of_def clus_len_def spc_nat_def SECSIZE_def fs_wa_values)
  show "unat (x AND (cluster_bytes_of s - 1)) = unat x mod clus_len s"
    using c m [of 9] m [of 10] m [of 11] m [of 12] by cases (simp_all add: cluster_bytes_of_def spc_of_def clus_len_def spc_nat_def SECSIZE_def)
  show "0 < clus_len s" "unat (cluster_bytes_of s) = clus_len s"
    using c by (cases; simp add: cluster_bytes_of_def spc_of_def clus_len_def spc_nat_def SECSIZE_def)+
qed

text \<open>A file with its chain of clusters, inside of which its position and size lie.\<close>

definition file_at :: "fat_state \<Rightarrow> fat_file \<Rightarrow> u32 list \<Rightarrow> bool" where
  "file_at s fl cs \<longleftrightarrow> ft_ok s \<and> ff_ok s fl \<and> chain_at s cs \<and> cs \<noteq> [] \<and> get_start_cluster fl = cs ! 0
     \<and> unat (ff_loc fl) \<le> unat (le32 28 (ff_entry fl)) \<and> unat (le32 28 (ff_entry fl)) \<le> List.length cs * clus_len s"

lemma read_chain_ok:
  assumes f: "file_at s fl cs" and n: "0 < n" "unat (ff_loc fl) + n \<le> List.length cs * clus_len s" "unat (ff_loc fl) + n < 2 ^ 32"
  defines "bits \<equiv> unat (fs_wa (cluster_bytes_of s))" and "start \<equiv> ff_loc fl" and "fin \<equiv> ff_loc fl + of_nat n - 1"
  shows "\<exists>c t fl' u. follow_chain (unat (drop_bit bits start)) (get_start_cluster fl) s = Some (Some c, t)
    \<and> read_clusters (Suc (unat (drop_bit bits fin)) - unat (drop_bit bits start)) c (unat (start AND (cluster_bytes_of s - 1))) (unat (fin AND (cluster_bytes_of s - 1))) [] fl t
      = Some (False, map (file_view s fl cs) [unat (ff_loc fl)..<unat (ff_loc fl) + n], fl', u) \<and> io_same s fl u fl'"
proof -
  let ?L = "clus_len s" and ?p = "unat (ff_loc fl)"
  have o: "ft_ok s" "ff_ok s fl" "chain_at s cs" "cs \<noteq> []" "get_start_cluster fl = cs ! 0" using f by (simp_all add: file_at_def)
  note pos = position [OF ft_okD(1) [OF o(1)]]
  have ul: "unat fin = ?p + n - 1"
  proof -
    have "fin = of_nat (?p + n - 1)" using n(1) unfolding fin_def by (simp add: of_nat_diff)
    moreover have "?p + n - 1 < 2 ^ 32" using n(3) by simp
    ultimately show ?thesis by (simp only:) (rule unat_of_nat_u32)
  qed
  let ?j = "?p div ?L" and ?e = "(?p + n - 1) div ?L"
  have je: "?j \<le> ?e" using n(1) by (intro div_le_mono) simp
  have el: "?e < List.length cs" using n(1,2) by (intro less_mult_imp_div_less) simp
  obtain t where t: "follow_chain ?j (cs ! 0) s = Some (Some (cs ! ?j), t)" "io_same s fl t fl"
    using follow_chain_ok [OF o(1-3), of 0 ?j] je el by auto
  have st: "io_step s fl t fl" using t(2) by (simp add: io_same_def)
  note i = io_stepD [OF st]
  have L: "clus_len t = ?L" using i(3) by (simp add: clus_len_def)
  obtain m where m: "?e = ?j + m" using je le_Suc_ex by blast
  have s0: "?p mod ?L \<le> (if m = 0 then (?p + n - 1) mod ?L + 1 else ?L)"
  proof (cases "m = 0")
    case True
    have "?e = ?j" using m True by simp
    then have "?j * ?L + (?p + n - 1) mod ?L = ?p + n - 1" using div_mult_mod_eq [of "?p + n - 1" ?L] by argo
    then have "?p mod ?L \<le> (?p + n - 1) mod ?L" using div_mult_mod_eq [of ?p ?L] n(1) by linarith
    then show ?thesis using True by simp
  next
    case False
    then show ?thesis using pos(3) by (simp add: less_imp_le)
  qed
  have a: "?j + m < List.length cs" "(?p + n - 1) mod ?L < clus_len t" "?p mod ?L \<le> (if m = 0 then (?p + n - 1) mod ?L + 1 else clus_len t)"
    using el m pos(3) s0 unfolding L by auto
  obtain fl' u where u: "read_clusters (Suc m) (cs ! ?j) (?p mod ?L) ((?p + n - 1) mod ?L) [] fl t
      = Some (False, map (file_view t fl cs) [?j * ?L + ?p mod ?L..<(?j + m) * ?L + (?p + n - 1) mod ?L + 1], fl', u)" "io_same t fl u fl'"
    using read_clusters_ok [OF i(1,2) chain_at_io [OF st o(3)] a, of "[]", unfolded L append_Nil] by blast
  have b: "?j * ?L + ?p mod ?L = ?p" "(?j + m) * ?L + (?p + n - 1) mod ?L + 1 = ?p + n"
    using div_mult_mod_eq [of "?p + n - 1" ?L] m n(1) by (simp_all add: m [symmetric])
  have v: "map (file_view t fl cs) [?p..<?p + n] = map (file_view s fl cs) [?p..<?p + n]"
    using file_view_same [OF t(2) o(3)] n(2) by simp
  have r: "Suc ?e - ?j = Suc m" using m by simp
  show ?thesis
    using t(1) u(1) o(5) unfolding start_def bits_def pos(1,2) ul r b v
    by (intro exI [of _ "cs ! ?j"] exI [of _ t] exI [of _ fl'] exI [of _ u]) (simp add: io_same_trans [OF t(2) u(2)])
qed

section \<open>Writing along a chain\<close>

lemma take_put_bytes: "off + List.length xs \<le> n \<Longrightarrow> n \<le> List.length buf \<Longrightarrow> take n (put_bytes off xs buf) = put_bytes off xs (take n buf)"
  by (rule nth_equalityI) (simp_all add: put_bytes_nth)

text \<open>Storing into the buffer of a cluster.\<close>

definition put_cluster :: "nat \<Rightarrow> nat \<Rightarrow> u8 list \<Rightarrow> fat_file \<Rightarrow> fat_file" where
  "put_cluster i start xs fl = (let f = ba_bufs (ff_bufs fl) ! i
     in fl\<lparr>ff_bufs := fs_set i (f\<lparr>fb_state := 3, fb_data := put_bytes start xs (fb_data f)\<rparr>) (ff_bufs fl)\<rparr>)"

lemma put_cluster_ok:
  assumes "ft_ok s" "ff_ok s fl" "data_clus (ft_info s) c" "i < List.length (ba_bufs (ff_bufs fl))" "fb_cur (ba_bufs (ff_bufs fl) ! i) = data_sec (ft_info s) c"
    and "clus_len s \<le> List.length (fb_data (ba_bufs (ff_bufs fl) ! i))" "start + List.length xs \<le> clus_len s"
  shows "io_step s fl s (put_cluster i start xs fl)"
    "\<And>e. data_clus (ft_info s) e \<Longrightarrow> clus_view s (put_cluster i start xs fl) e = (if e = c then put_bytes start xs (clus_view s fl c) else clus_view s fl e)"
proof -
  let ?i = "ft_info s"
  let ?f = "ba_bufs (ff_bufs fl) ! i"
  let ?g = "?f\<lparr>fb_state := 3, fb_data := put_bytes start xs (fb_data ?f)\<rparr>"
  note o = ft_okD [OF assms(1)]
  note p = data_place(2) [OF o(1)]
  have bo: "bufs_ok (spc_nat ?i) (data_blocks ?i) (ft_disk s) (ff_bufs fl)" using assms(2) by (simp add: ff_ok_def)
  have len: "spc_nat ?i * SECSIZE \<le> List.length (fb_data ?g)" using assms(6,7) by (simp add: clus_len_def)
  note m = data_writer.modify_ok [of "ft_disk s" ?i "ff_bufs fl" i "data_sec ?i c" ?g, folded spc_nat_def, OF o(2) bo assms(4,5) p [OF assms(3)]]
  have g: "fb_cur ?g = data_sec ?i c" "fb_state ?g AND 2 \<noteq> 0" using assms(5) by simp_all
  show "io_step s fl s (put_cluster i start xs fl)"
    using m(1) [OF g(1) len g(2)] assms(1) by (simp add: io_step_def put_cluster_def ff_ok_def Let_def)
  have own: "take (spc_nat ?i * SECSIZE) (fb_data ?f) = clus_view s fl c"
  proof -
    have "data_sec ?i c \<noteq> 0xffffffff" using p [OF assms(3)] data_writer.none by auto
    from fs_lookup_unique [OF bo assms(4,5) this] show ?thesis by (simp add: clus_view_def buf_view_def)
  qed
  fix e assume e: "data_clus ?i e"
  have "clus_view s (put_cluster i start xs fl) e = (if data_sec ?i e = data_sec ?i c then take (spc_nat ?i * SECSIZE) (fb_data ?g) else clus_view s fl e)"
    using m(2) [OF g(1) len g(2) p [OF e]] by (simp add: clus_view_def put_cluster_def Let_def)
  moreover have "take (spc_nat ?i * SECSIZE) (fb_data ?g) = put_bytes start xs (clus_view s fl c)"
    using assms(6,7) unfolding own [symmetric] clus_len_def by (simp add: take_put_bytes)
  moreover have "data_sec ?i e = data_sec ?i c \<longleftrightarrow> e = c" using data_sec_inj [OF o(1) e assms(3)] by auto
  ultimately show "clus_view s (put_cluster i start xs fl) e = (if e = c then put_bytes start xs (clus_view s fl c) else clus_view s fl e)" by simp
qed

text \<open>In terms of the file: the bytes from \<open>a\<close> on are \<open>xs\<close>.\<close>

definition spliced :: "nat \<Rightarrow> u8 list \<Rightarrow> (nat \<Rightarrow> u8) \<Rightarrow> nat \<Rightarrow> u8" where
  "spliced a xs f x = (if a \<le> x \<and> x < a + List.length xs then xs ! (x - a) else f x)"

lemma put_cluster_view:
  assumes "ft_ok s" "ff_ok s fl" "chain_at s cs" "distinct cs" "j < List.length cs" "start + List.length xs \<le> clus_len s"
    and v: "\<And>e. data_clus (ft_info s) e \<Longrightarrow> clus_view s g e = (if e = cs ! j then put_bytes start xs (clus_view s fl (cs ! j)) else clus_view s fl e)"
    and x: "x < List.length cs * clus_len s"
  shows "file_view s g cs x = spliced (j * clus_len s + start) xs (file_view s fl cs) x"
proof -
  let ?L = "clus_len s" and ?k = "x div clus_len s"
  have k: "?k < List.length cs" using x by (simp add: less_mult_imp_div_less)
  have L: "0 < ?L" by (rule position(3) [OF ft_okD(1) [OF assms(1)]])
  have dm: "?k * ?L + x mod ?L = x" by (rule div_mult_mod_eq)
  show ?thesis
  proof (cases "?k = j")
    case True
    have "x mod ?L < ?L" using L by simp
    then have "file_view s g cs x = (if start \<le> x mod ?L \<and> x mod ?L < start + List.length xs then xs ! (x mod ?L - start) else file_view s fl cs x)"
      using v [OF chain_atD(1) [OF assms(3,5)]] True assms(6) length_clus_view [OF assms(1,2)]
      by (simp add: file_view_def file_byte_def put_bytes_nth)
    moreover have "x = j * ?L + x mod ?L" using dm True by simp
    ultimately show ?thesis unfolding spliced_def
      by (metis add_diff_cancel_left add_le_cancel_left add_less_cancel_left add.assoc)
  next
    case False
    then have ne: "cs ! ?k \<noteq> cs ! j" using assms(4,5) k by (simp add: nth_eq_iff_index_eq)
    have "\<not> (j * ?L + start \<le> x \<and> x < j * ?L + start + List.length xs)"
    proof
      assume a: "j * ?L + start \<le> x \<and> x < j * ?L + start + List.length xs"
      then have "j * ?L \<le> x" "x < Suc j * ?L" using assms(6) by simp_all
      then have "?k = j" by (intro div_nat_eqI) (simp_all add: mult.commute)
      then show False using False by simp
    qed
    moreover have "file_view s g cs x = file_view s fl cs x"
      using v [OF chain_atD(1) [OF assms(3) k]] ne by (simp add: file_view_def file_byte_def)
    ultimately show ?thesis by (auto simp: spliced_def)
  qed
qed

lemma next_cluster_ok:
  assumes "ft_ok s" "ff_ok s fl" "chain_at s cs" "Suc j < List.length cs"
  shows "\<exists>t. next_cluster (cs ! j) fl s = Some (Some (cs ! Suc j), fl, t) \<and> io_same s fl t fl"
proof -
  have d: "clus_ok (ft_info s) (cs ! j)" "clus_ok (ft_info s) (cs ! Suc j)"
    using chain_atD(1) [OF assms(3), of j] chain_atD(1) [OF assms(3,4)] assms(4) by (simp_all add: data_clus_def)
  obtain t where t: "get_fat_entry_value (cs ! j) s = Some (Some (cs ! Suc j), t)" "io_same s fl t fl"
    using get_entry_io [OF assms(1,2) d(1)] chain_atD(2) [OF assms(3,4)] by auto
  have "ft_info t = ft_info s" using t(2) io_stepD(3) by (auto simp: io_same_def)
  then have "cs ! Suc j \<le> total_data_clusters (ft_info t) + 1"
    using last_cluster [OF ft_okD(1) [OF assms(1)], of "cs ! Suc j"] d(2) by (simp add: clus_ok_def not_le [symmetric])
  then show ?thesis using t by (simp add: next_cluster_def)
qed

lemma extend_to_ok:
  assumes "ft_ok s" "ff_ok s fl" "chain_at s cs" "j + k < List.length cs"
  shows "\<exists>t. extend_to k (cs ! j) fl s = Some (Some (cs ! (j + k)), fl, t) \<and> io_same s fl t fl"
  using assms
proof (induction k arbitrary: j s)
  case 0
  then show ?case by (simp add: io_same_refl)
next
  case (Suc k)
  obtain t where t: "next_cluster (cs ! j) fl s = Some (Some (cs ! Suc j), fl, t)" "io_same s fl t fl"
    using next_cluster_ok [OF Suc.prems(1-3), of j] Suc.prems(4) by auto
  have st: "io_step s fl t fl" using t(2) by (simp add: io_same_def)
  obtain u where u: "extend_to k (cs ! Suc j) fl t = Some (Some (cs ! (Suc j + k)), fl, u)" "io_same t fl u fl"
    using Suc.IH [OF io_stepD(1,2) [OF st] chain_at_io [OF st Suc.prems(3)], of "Suc j"] Suc.prems(4) by auto
  then show ?case using t io_same_trans by auto
qed

text \<open>One cluster: what is written there, and that nothing else of the file changes.\<close>

lemma write_cluster_ok:
  assumes "ft_ok s" "ff_ok s fl" "chain_at s cs" "distinct cs" "j < List.length cs" "start + List.length xs \<le> clus_len s"
  shows "\<exists>i f1 t. read_cluster (cs ! j) fl s = Some (Some i, f1, t) \<and> clus_len s \<le> List.length (fb_data (ba_bufs (ff_bufs f1) ! i))
    \<and> io_step s fl t (put_cluster i start xs f1)
    \<and> (\<forall>x < List.length cs * clus_len s. file_view t (put_cluster i start xs f1) cs x = spliced (j * clus_len s + start) xs (file_view s fl cs) x)
    \<and> (\<forall>c. data_clus (ft_info s) c \<longrightarrow> c \<noteq> cs ! j \<longrightarrow> clus_view t (put_cluster i start xs f1) c = clus_view s fl c)"
proof -
  note dc = chain_atD(1) [OF assms(3,5)]
  obtain i f1 t where r: "read_cluster (cs ! j) fl s = Some (Some i, f1, t)" "i < List.length (ba_bufs (ff_bufs f1))" "fb_cur (ba_bufs (ff_bufs f1) ! i) = data_sec (ft_info s) (cs ! j)"
      "clus_len s \<le> List.length (fb_data (ba_bufs (ff_bufs f1) ! i))" "io_same s fl t f1"
    using read_cluster_ok [OF assms(1,2) dc] by (auto simp: clus_len_def)
  have st: "io_step s fl t f1" using r(5) by (simp add: io_same_def)
  note t = io_stepD [OF st]
  have L: "clus_len t = clus_len s" using t(3) by (simp add: clus_len_def)
  note pc = put_cluster_ok [OF t(1,2), of "cs ! j" i start xs, unfolded t(3) L, OF dc r(2,3,4) assms(6)]
  have ct: "chain_at t cs" by (rule chain_at_io [OF st assms(3)])
  have fv: "file_view t (put_cluster i start xs f1) cs x = spliced (j * clus_len s + start) xs (file_view s fl cs) x" if x: "x < List.length cs * clus_len s" for x
  proof -
    have "file_view t (put_cluster i start xs f1) cs x = spliced (j * clus_len s + start) xs (file_view t f1 cs) x"
      using put_cluster_view [OF t(1,2) ct assms(4,5), of start xs "put_cluster i start xs f1" x, unfolded t(3) L, OF assms(6) pc(2) x] by simp
    then show ?thesis using file_view_same [OF r(5) assms(3) x] by (simp add: spliced_def)
  qed
  have "clus_view t (put_cluster i start xs f1) c = clus_view s fl c" if "data_clus (ft_info s) c" "c \<noteq> cs ! j" for c
    using pc(2) [OF that(1)] that r(5) by (simp add: io_same_def)
  then show ?thesis using r(1,4) fv io_step_trans [OF st pc(1)] by blast
qed

definition others_same :: "u32 list \<Rightarrow> fat_state \<Rightarrow> fat_file \<Rightarrow> fat_state \<Rightarrow> fat_file \<Rightarrow> bool" where
  "others_same cs s fl t fl' \<longleftrightarrow> (\<forall>c. data_clus (ft_info s) c \<longrightarrow> c \<notin> set cs \<longrightarrow> clus_view t fl' c = clus_view s fl c)"

lemma spliced_append: "spliced (a + List.length xs) ys (spliced a xs f) = spliced a (xs @ ys) f"
  by (auto simp: spliced_def nth_append fun_eq_iff)

lemma spliced_cong: "f x = g x \<Longrightarrow> spliced a xs f x = spliced a xs g x"
  by (simp add: spliced_def)

lemma others_same_trans:
  assumes "others_same cs s f t g" "others_same cs t g u h" "ft_info t = ft_info s"
  shows "others_same cs s f u h"
  using assms by (simp add: others_same_def)

lemma io_same_others: "io_same s f t g \<Longrightarrow> others_same cs s f t g"
  by (simp add: io_same_def others_same_def)

lemma write_clusters_ok:
  assumes "ft_ok s" "ff_ok s fl" "chain_at s cs" "distinct cs" "j + m < List.length cs" "e < clus_len s"
    and "start \<le> (if m = 0 then e + 1 else clus_len s)" "cc + (m * clus_len s + e + 1 - start) \<le> List.length src"
  shows "\<exists>fl' t. write_clusters (Suc m) (cs ! j) start e src cc fl s = Some (Some (cc + (m * clus_len s + e + 1 - start)), fl', t) \<and> io_step s fl t fl'
    \<and> (\<forall>x < List.length cs * clus_len s. file_view t fl' cs x = spliced (j * clus_len s + start) (take (m * clus_len s + e + 1 - start) (drop cc src)) (file_view s fl cs) x)
    \<and> others_same cs s fl t fl'"
  using assms
proof (induction m arbitrary: j start cc fl s)
  case 0
  let ?xs = "take (e + 1 - start) (drop cc src)"
  have xs: "start + List.length ?xs \<le> clus_len s" using 0(6,7,8) by auto
  have j: "j < List.length cs" using 0(5) by simp
  obtain i f1 t where r: "read_cluster (cs ! j) fl s = Some (Some i, f1, t)" "clus_len s \<le> List.length (fb_data (ba_bufs (ff_bufs f1) ! i))"
      "io_step s fl t (put_cluster i start ?xs f1)"
      "\<forall>x < List.length cs * clus_len s. file_view t (put_cluster i start ?xs f1) cs x = spliced (j * clus_len s + start) ?xs (file_view s fl cs) x"
      "\<forall>c. data_clus (ft_info s) c \<longrightarrow> c \<noteq> cs ! j \<longrightarrow> clus_view t (put_cluster i start ?xs f1) c = clus_view s fl c"
    using write_cluster_ok [OF 0(1-4) j xs] by blast
  have "write_clusters (Suc 0) (cs ! j) start e src cc fl s = Some (Some (cc + (e + 1 - start)), put_cluster i start ?xs f1, t)"
    using r(1,2) 0(6,8) by (simp add: put_cluster_def Let_def)
  moreover have "others_same cs s fl t (put_cluster i start ?xs f1)" using r(5) j by (auto simp: others_same_def)
  ultimately show ?case using r(3,4) by auto
next
  case (Suc m)
  let ?L = "clus_len s"
  let ?n = "?L - start"
  let ?xs = "take ?n (drop cc src)" and ?ys = "take (m * ?L + e + 1) (drop (cc + ?n) src)"
  have sl: "start \<le> ?L" using Suc.prems(7) by simp
  have tot: "Suc m * ?L + e + 1 - start = ?n + (m * ?L + e + 1)" using sl by simp
  have jm: "Suc j + m < List.length cs" "j < List.length cs" "Suc j < List.length cs" using Suc.prems(5) by simp_all
  have lx: "List.length ?xs = ?n" using Suc.prems(8) unfolding tot by simp
  obtain i f1 t where r: "read_cluster (cs ! j) fl s = Some (Some i, f1, t)" "?L \<le> List.length (fb_data (ba_bufs (ff_bufs f1) ! i))"
      "io_step s fl t (put_cluster i start ?xs f1)"
      "\<forall>x < List.length cs * ?L. file_view t (put_cluster i start ?xs f1) cs x = spliced (j * ?L + start) ?xs (file_view s fl cs) x"
      "\<forall>c. data_clus (ft_info s) c \<longrightarrow> c \<noteq> cs ! j \<longrightarrow> clus_view t (put_cluster i start ?xs f1) c = clus_view s fl c"
    using write_cluster_ok [OF Suc.prems(1-4) jm(2), of start ?xs] lx sl by auto
  let ?g = "put_cluster i start ?xs f1"
  note t = io_stepD [OF r(3)]
  note ct = chain_at_io [OF r(3) Suc.prems(3)]
  have og: "others_same cs s fl t ?g" using r(5) jm(2) by (auto simp: others_same_def)
  obtain u where u: "next_cluster (cs ! j) ?g t = Some (Some (cs ! Suc j), ?g, u)" "io_same t ?g u ?g"
    using next_cluster_ok [OF t(1,2) ct jm(3)] by blast
  have su: "io_step t ?g u ?g" using u(2) by (simp add: io_same_def)
  note u' = io_stepD [OF su]
  have L: "clus_len t = ?L" "clus_len u = ?L" using t(3) u'(3) by (simp_all add: clus_len_def)
  have cb: "unat (cluster_bytes_of t) = ?L" using position(4) [OF ft_okD(1) [OF t(1)]] L by simp
  have src: "cc + ?n + (m * ?L + e + 1) \<le> List.length src" using Suc.prems(8) unfolding tot by simp
  have g: "cc + ?L - start \<le> List.length src" "cc + (?L - start) \<le> List.length src" using src sl by linarith+
  obtain h v where w: "write_clusters (Suc m) (cs ! Suc j) 0 e src (cc + ?n) ?g u = Some (Some (cc + ?n + (m * ?L + e + 1)), h, v)" "io_step u ?g v h"
      "\<forall>x < List.length cs * ?L. file_view v h cs x = spliced (Suc j * ?L) ?ys (file_view u ?g cs) x" "others_same cs u ?g v h"
    using Suc.IH [OF u'(1,2) chain_at_io [OF su ct] Suc.prems(4) jm(1), of 0 "cc + ?n"] Suc.prems(6) src unfolding L by auto
  have "file_view v h cs x = spliced (j * ?L + start) (take (Suc m * ?L + e + 1 - start) (drop cc src)) (file_view s fl cs) x" if x: "x < List.length cs * ?L" for x
  proof -
    have "file_view u ?g cs x = file_view t ?g cs x" using file_view_same [OF u(2) ct] x L by simp
    then have "file_view u ?g cs x = spliced (j * ?L + start) ?xs (file_view s fl cs) x" using r(4) x by simp
    then have "file_view v h cs x = spliced (Suc j * ?L) ?ys (spliced (j * ?L + start) ?xs (file_view s fl cs)) x"
      using w(3) x spliced_cong by metis
    moreover have "Suc j * ?L = j * ?L + start + List.length ?xs" using lx sl by simp
    ultimately have "file_view v h cs x = spliced (j * ?L + start) (?xs @ ?ys) (file_view s fl cs) x" by (simp only: spliced_append)
    moreover have "?xs @ ?ys = take (Suc m * ?L + e + 1 - start) (drop cc src)"
      unfolding tot take_add [of ?n] by (simp add: add.commute)
    ultimately show ?thesis by simp
  qed
  moreover have "write_clusters (Suc (Suc m)) (cs ! j) start e src cc fl s = write_clusters (Suc m) (cs ! Suc j) 0 e src (cc + ?n) ?g u"
    using r(1,2) u(1) cb g sl by (simp add: write_clusters.simps(2) [of "Suc m"] put_cluster_def Let_def del: write_clusters.simps(2))
  moreover have "others_same cs s fl v h"
    using others_same_trans [OF og others_same_trans [OF io_same_others [OF u(2)] w(4) u'(3)] t(3)] .
  moreover have "io_step s fl v h" using io_step_trans [OF r(3) io_step_trans [OF su w(2)]] .
  ultimately show ?case using w(1) unfolding tot by (auto simp: add.assoc)
qed

lemma write_chain_ok:
  assumes f: "file_at s fl cs" "distinct cs" and n: "0 < n" "unat (ff_loc fl) + n \<le> List.length cs * clus_len s" "unat (ff_loc fl) + n < 2 ^ 32" "n \<le> List.length src"
  shows "\<exists>fl' t. fs_write fl src (of_nat n) s = Some (of_nat n, fl'\<lparr>ff_entry := (if unat (le32 28 (ff_entry fl)) < unat (ff_loc fl) + n
      then set_le32 28 (ff_loc fl + of_nat n) (ff_entry fl) else ff_entry fl), ff_loc := ff_loc fl + of_nat n\<rparr>, t) \<and> io_step s fl t fl'
    \<and> (\<forall>x < List.length cs * clus_len s. file_view t fl' cs x = spliced (unat (ff_loc fl)) (take n src) (file_view s fl cs) x) \<and> others_same cs s fl t fl'"
proof -
  let ?L = "clus_len s" and ?p = "unat (ff_loc fl)"
  have o: "ft_ok s" "ff_ok s fl" "chain_at s cs" "cs \<noteq> []" "get_start_cluster fl = cs ! 0" using f by (simp_all add: file_at_def)
  note pos = position [OF ft_okD(1) [OF o(1)]]
  have un: "unat (of_nat n :: u32) = n" using n(3) by (intro unat_of_nat_u32) simp
  have n0: "(of_nat n :: u32) \<noteq> 0" using un n(1) by auto
  have ul: "unat (ff_loc fl + of_nat n - 1) = ?p + n - 1"
  proof -
    have "ff_loc fl + of_nat n - 1 = of_nat (?p + n - 1)" using n(1) by (simp add: of_nat_diff)
    moreover have "?p + n - 1 < 2 ^ 32" using n(3) by simp
    ultimately show ?thesis by (simp only:) (rule unat_of_nat_u32)
  qed
  have us: "unat (ff_loc fl + of_nat n) = ?p + n"
  proof -
    have "unat (of_nat (?p + n) :: u32) = ?p + n" using n(3) by (rule unat_of_nat_u32)
    then show ?thesis by simp
  qed
  let ?j = "?p div ?L" and ?e = "(?p + n - 1) div ?L"
  have je: "?j \<le> ?e" using n(1) by (intro div_le_mono) simp
  have el: "?e < List.length cs" using n(1,2) by (intro less_mult_imp_div_less) simp
  have start: "data_clus (ft_info s) (cs ! 0)" using chain_atD(1) [OF o(3), of 0] o(4) by simp
  then have c0: "cs ! 0 \<noteq> 0" by (auto simp: data_clus_def)
  obtain t where t: "extend_to ?j (cs ! 0) fl s = Some (Some (cs ! ?j), fl, t)" "io_same s fl t fl"
    using extend_to_ok [OF o(1-3), of 0 ?j] je el by auto
  have st: "io_step s fl t fl" using t(2) by (simp add: io_same_def)
  note i = io_stepD [OF st]
  have L: "clus_len t = ?L" using i(3) by (simp add: clus_len_def)
  obtain m where m: "?e = ?j + m" using je le_Suc_ex by blast
  have b: "?j * ?L + ?p mod ?L = ?p" "(?j + m) * ?L + (?p + n - 1) mod ?L + 1 = ?p + n"
    using div_mult_mod_eq [of "?p + n - 1" ?L] m n(1) by (simp_all add: m [symmetric])
  have len: "m * ?L + (?p + n - 1) mod ?L + 1 - ?p mod ?L = n" using b unfolding add_mult_distrib by linarith
  have s0: "?p mod ?L \<le> (if m = 0 then (?p + n - 1) mod ?L + 1 else ?L)"
  proof (cases "m = 0")
    case True
    then have "?j * ?L + (?p + n - 1) mod ?L + 1 = ?p + n" using b(2) by simp
    then have "?p mod ?L \<le> (?p + n - 1) mod ?L + 1" using b(1) by linarith
    then show ?thesis using True by simp
  next
    case False
    then show ?thesis using pos(3) by (simp add: less_imp_le)
  qed
  have a: "?j + m < List.length cs" "(?p + n - 1) mod ?L < clus_len t" "?p mod ?L \<le> (if m = 0 then (?p + n - 1) mod ?L + 1 else clus_len t)"
      "0 + (m * clus_len t + (?p + n - 1) mod ?L + 1 - ?p mod ?L) \<le> List.length src"
    using el m pos(3) s0 n(4) unfolding L len by auto
  obtain fl' u where u: "write_clusters (Suc m) (cs ! ?j) (?p mod ?L) ((?p + n - 1) mod ?L) src 0 fl t = Some (Some n, fl', u)" "io_step t fl u fl'"
      "\<forall>x < List.length cs * ?L. file_view u fl' cs x = spliced ?p (take n src) (file_view t fl cs) x" "others_same cs t fl u fl'"
    using write_clusters_ok [OF i(1,2) chain_at_io [OF st o(3)] f(2) a] unfolding L len b by auto
  have en: "ff_entry fl' = ff_entry fl"
  proof -
    have "fl' = fl\<lparr>ff_bufs := ff_bufs fl'\<rparr>" using io_stepD(4) [OF u(2)] .
    from arg_cong [OF this, of ff_entry] show ?thesis by simp
  qed
  have r: "Suc ?e - ?j = Suc m" using m by simp
  have fv: "file_view u fl' cs x = spliced ?p (take n src) (file_view s fl cs) x" if "x < List.length cs * ?L" for x
    using u(3) that file_view_same [OF t(2) o(3) that] by (simp add: spliced_def)
  have fc: "first_cluster fl s = Some (Some (cs ! 0), fl, s)" using o(5) c0 by (simp add: first_cluster_def)
  have "fs_write fl src (of_nat n) s = Some (of_nat n, fl'\<lparr>ff_entry := (if unat (le32 28 (ff_entry fl)) < ?p + n
      then set_le32 28 (ff_loc fl + of_nat n) (ff_entry fl) else ff_entry fl), ff_loc := ff_loc fl + of_nat n\<rparr>, u)"
    unfolding fs_write_def Let_def pos(1,2) ul r using n0 fc t(1) u(1) by (simp add: en word_less_nat_alt us del: write_clusters.simps)
  moreover have "others_same cs s fl u fl'" using others_same_trans [OF io_same_others [OF t(2)] u(4) i(3)] .
  ultimately show ?thesis using fv io_step_trans [OF st u(2)] by blast
qed

end
