(* ===== verification/FatProps.thy ===== *)
theory FatProps
  imports FatData
begin

text \<open>What the old FAT driver does: the allocation table, reading and writing files, flushing, removing, and names.\<close>

section \<open>Flushing\<close>

context buffer_writer begin

lemma flush_loop:
  assumes "disk_ok d" "bufs_ok (unat n) A d a" "k + m = List.length (ba_bufs a)"
    and "\<forall>j < k. fb_cur (ba_bufs a ! j) \<noteq> 0xffffffff \<longrightarrow> fb_state (ba_bufs a ! j) AND 2 = 0"
  shows "\<exists>a' d'. flush_bufs wr [k..<List.length (ba_bufs a)] a d = Some (False, a', d') \<and> kept_bufs (unat n) A W d a d' a'
    \<and> (\<forall>j < List.length (ba_bufs a'). fb_cur (ba_bufs a' ! j) \<noteq> 0xffffffff \<longrightarrow> fb_state (ba_bufs a' ! j) AND 2 = 0)"
  using assms
proof (induction m arbitrary: k a d)
  case 0
  then show ?case by (simp add: kept_bufs_def)
next
  case (Suc m)
  have k: "k < List.length (ba_bufs a)" using Suc.prems(3) by simp
  obtain f d1 where w: "wr (ba_bufs a ! k) d = Some (False, f, d1)" "fb_cur f \<noteq> 0xffffffff \<longrightarrow> fb_state f AND 2 = 0"
      "\<forall>j < List.length (ba_bufs a). fb_cur (ba_bufs a ! j) \<noteq> 0xffffffff \<longrightarrow> fb_state (ba_bufs a ! j) AND 2 = 0 \<longrightarrow> fb_state (ba_bufs (fs_set k f a) ! j) AND 2 = 0"
      "kept_bufs (unat n) A W d a d1 (fs_set k f a)"
    using write_back [OF Suc.prems(1,2) k] by blast
  note kb = kept_bufsD [OF w(4)]
  have c: "\<forall>j < Suc k. fb_cur (ba_bufs (fs_set k f a) ! j) \<noteq> 0xffffffff \<longrightarrow> fb_state (ba_bufs (fs_set k f a) ! j) AND 2 = 0"
    using Suc.prems(4) w(2) k by (auto simp: less_Suc_eq nth_list_update)
  obtain a' d' where r: "flush_bufs wr [Suc k..<List.length (ba_bufs a)] (fs_set k f a) d1 = Some (False, a', d')" "kept_bufs (unat n) A W d1 (fs_set k f a) d' a'"
      "\<forall>j < List.length (ba_bufs a'). fb_cur (ba_bufs a' ! j) \<noteq> 0xffffffff \<longrightarrow> fb_state (ba_bufs a' ! j) AND 2 = 0"
    using Suc.IH [OF kb(1,2) _ c] Suc.prems(3) kb(3) by auto
  have "flush_bufs wr [k..<List.length (ba_bufs a)] a d = flush_bufs wr [Suc k..<List.length (ba_bufs a)] (fs_set k f a) d1"
    using k w(1) by (simp add: upt_conv_Cons)
  then show ?case using r kept_bufs_trans [OF w(4) r(2)] by auto
qed

text \<open>After a flush the card holds what was seen through the buffers.\<close>

lemma flush_ok:
  assumes "disk_ok d" "bufs_ok (unat n) A d a"
  shows "\<exists>a' d'. flush_all wr a d = Some (False, a', d') \<and> kept_bufs (unat n) A W d a d' a' \<and> (\<forall>k \<in> A. block_bytes d' k (unat n) = buf_view (unat n) d a k)"
proof -
  obtain a' d' where r: "flush_bufs wr [0..<List.length (ba_bufs a)] a d = Some (False, a', d')" "kept_bufs (unat n) A W d a d' a'"
      "\<forall>j < List.length (ba_bufs a'). fb_cur (ba_bufs a' ! j) \<noteq> 0xffffffff \<longrightarrow> fb_state (ba_bufs a' ! j) AND 2 = 0"
    using flush_loop [OF assms, of 0 "List.length (ba_bufs a)"] by auto
  have "block_bytes d' k (unat n) = buf_view (unat n) d a k" if "k \<in> A" for k
  proof -
    have "buf_view (unat n) d' a' k = block_bytes d' k (unat n)"
    proof (cases "fs_lookup k (ba_bufs a')")
      case (Some i)
      note i = fs_lookup_Some [OF Some]
      have "k \<noteq> 0xffffffff" using that none by auto
      then have "take (unat n * SECSIZE) (fb_data (ba_bufs a' ! i)) = block_bytes d' k (unat n)"
        using bufs_okD(2) [OF kept_bufsD(2) [OF r(2)], of i] r(3) i by (simp add: buf_ok_def)
      then show ?thesis using Some by (simp add: buf_view_def)
    qed (simp add: buf_view_def)
    then show ?thesis using kept_bufsD(4) [OF r(2) that] by simp
  qed
  then show ?thesis using r(1,2) by (auto simp: flush_all_def)
qed

end

text \<open>The two sectors of the FSInfo lie in front of the table.\<close>

definition dir_ok :: "fat_state \<Rightarrow> bool" where
  "dir_ok s \<longleftrightarrow> bufs_ok 1 (dir_area (ft_info s)) (ft_disk s) (ft_dir s) \<and> List.length (fat_fs_info (ft_info s)) = SECSIZE \<and> 8 \<le> unat (reserved_sectors (ft_info s))"

lemma info_sector:
  assumes "ft_ok s" "dir_ok s" "j = 1 \<or> j = 7"
  shows "unat (j + base_addr (ft_info s)) = unat j + unat (base_addr (ft_info s))" "j + base_addr (ft_info s) \<notin> fat_copies (ft_info s)"
    "j + base_addr (ft_info s) \<notin> data_sectors (ft_info s)"
proof -
  let ?i = "ft_info s"
  note g = fat_geomD [OF ft_okD(1) [OF assms(1)]]
  have r: "8 \<le> unat (reserved_sectors ?i)" using assms(2) by (simp add: dir_ok_def)
  have j: "unat j < 8" using assms(3) by auto
  have lo: "unat j + unat (base_addr ?i) < fat_lo ?i" using r j by (simp add: fat_lo_def)
  then have "unat j + unat (base_addr ?i) < 2 ^ 32" using g(1-3) by simp
  then have "unat (of_nat (unat j + unat (base_addr ?i)) :: u32) = unat j + unat (base_addr ?i)" by (rule unat_of_nat_u32)
  then show u: "unat (j + base_addr ?i) = unat j + unat (base_addr ?i)" by simp
  show "j + base_addr ?i \<notin> fat_copies ?i" "j + base_addr ?i \<notin> data_sectors ?i"
    using lo g(1) unfolding fat_copies_def data_sectors_def mem_Collect_eq u by auto
qed

lemma write_info:
  assumes "disk_ok d" "List.length buf = SECSIZE"
  shows "\<exists>d'. write_block buf k 1 d = (0, d') \<and> disk_ok d' \<and> sectors d' = (sectors d)(k := buf)"
proof -
  obtain d' where d: "write_block buf k 1 d = (0, d')" "sectors d' = written k (unat (1 :: u32)) (take (unat (1 :: u32) * SECSIZE) buf) (sectors d)" "disk_ok d'"
    using write_part_ok [OF assms(1), of 1 buf k] assms(2) by auto
  have "sectors d' = (sectors d)(k := buf)"
    using assms(2) unfolding d(2) by (auto simp: written_def fun_eq_iff unat_eq_0)
  then show ?thesis using d by blast
qed

lemma fs_fflush_ok:
  assumes "ft_ok s" "dir_ok s"
  shows "\<exists>t. fs_fflush s = Some (False, t) \<and> ft_ok t \<and> dir_ok t \<and> ft_info t = ft_info s
    \<and> (\<forall>k \<in> fat_area (ft_info s). sectors (ft_disk t) k = ft_view s k \<and> ft_view t k = ft_view s k)
    \<and> (\<forall>k \<in> dir_area (ft_info s). sectors (ft_disk t) k = buf_view 1 (ft_disk s) (ft_dir s) k \<and> buf_view 1 (ft_disk t) (ft_dir t) k = buf_view 1 (ft_disk s) (ft_dir s) k)
    \<and> sectors (ft_disk t) (1 + base_addr (ft_info s)) = fat_fs_info (ft_info s) \<and> sectors (ft_disk t) (7 + base_addr (ft_info s)) = fat_fs_info (ft_info s)"
proof -
  let ?i = "ft_info s"
  let ?A = "fat_area ?i" and ?D = "dir_area ?i" and ?b = "base_addr ?i" and ?info = "fat_fs_info ?i"
  note o = ft_okD [OF assms(1)]
  have do: "bufs_ok 1 ?D (ft_disk s) (ft_dir s)" "List.length ?info = SECSIZE" using assms(2) by (simp_all add: dir_ok_def)
  note s1 = info_sector [OF assms, of 1] and s7 = info_sector [OF assms, of 7]
  have AF: "k \<in> fat_copies ?i \<and> k \<notin> data_sectors ?i" if "k \<in> ?A" for k
    using that fat_geomD(1) [OF o(1)] by (auto simp: fat_area_def fat_copies_def data_sectors_def data_lo_def)
  have DS: "k \<in> data_sectors ?i \<and> k \<notin> fat_copies ?i" if "k \<in> ?D" for k
    using that by (auto simp: dir_area_def fat_copies_def data_sectors_def)
  obtain d1 where d1: "write_block ?info (1 + ?b) 1 (ft_disk s) = (0, d1)" "disk_ok d1" "sectors d1 = (sectors (ft_disk s))(1 + ?b := ?info)"
    using write_info [OF o(2) do(2)] by blast
  obtain d2 where d2: "write_block ?info (7 + ?b) 1 d1 = (0, d2)" "disk_ok d2" "sectors d2 = (sectors d1)(7 + ?b := ?info)"
    using write_info [OF d1(2) do(2)] by blast
  have eq2: "sectors d2 k = sectors (ft_disk s) k" if "k \<in> fat_copies ?i \<or> k \<in> data_sectors ?i" for k
    using that s1(2,3) s7(2,3) d1(3) d2(3) by auto
  have fA: "block_bytes d2 k 1 = block_bytes (ft_disk s) k 1" if "k \<in> ?A" for k using eq2 AF [OF that] by (simp add: block_bytes_def)
  have fD: "block_bytes d2 k 1 = block_bytes (ft_disk s) k 1" if "k \<in> ?D" for k using eq2 DS [OF that] by (simp add: block_bytes_def)
  note cA = bufs_card(1) [OF o(3) fA] and cD = bufs_card(1) [OF do(1) fD]
  have vA2: "buf_view 1 d2 (ft_fat s) k = buf_view 1 (ft_disk s) (ft_fat s) k" if "k \<in> ?A" for k by (rule bufs_card(2) [OF o(3) fA that])
  have vD2: "buf_view 1 d2 (ft_dir s) k = buf_view 1 (ft_disk s) (ft_dir s) k" if "k \<in> ?D" for k by (rule bufs_card(2) [OF do(1) fD that])
  obtain a d3 where a: "flush_all (write_fat_sector (num_of_sectors_per_fat ?i)) (ft_fat s) d2 = Some (False, a, d3)"
      "kept_bufs 1 ?A (fat_copies ?i) d2 (ft_fat s) d3 a" "\<forall>k \<in> ?A. block_bytes d3 k 1 = buf_view 1 d2 (ft_fat s) k"
    using fat_writer.flush_ok [of d2 ?i "ft_fat s"] d2(2) cA by auto
  note ka = kept_bufsD [OF a(2)]
  have gD: "block_bytes d3 k 1 = block_bytes d2 k 1" if "k \<in> ?D" for k using ka(5) DS [OF that] by (simp add: block_bytes_def)
  note c3 = bufs_card(1) [OF cD gD]
  have vD3: "buf_view 1 d3 (ft_dir s) k = buf_view 1 d2 (ft_dir s) k" if "k \<in> ?D" for k by (rule bufs_card(2) [OF cD gD that])
  obtain e d4 where e: "flush_all fs_write_512 (ft_dir s) d3 = Some (False, e, d4)" "kept_bufs 1 ?D (data_sectors ?i) d3 (ft_dir s) d4 e"
      "\<forall>k \<in> ?D. block_bytes d4 k 1 = buf_view 1 d3 (ft_dir s) k"
    using dir_writer.flush_ok [of d3 ?i "ft_dir s"] ka(1) c3 by auto
  note ke = kept_bufsD [OF e(2)]
  have gA: "block_bytes d4 k 1 = block_bytes d3 k 1" if "k \<in> ?A" for k using ke(5) AF [OF that] by (simp add: block_bytes_def)
  note c4 = bufs_card(1) [OF ka(2) gA]
  have vA4: "buf_view 1 d4 a k = buf_view 1 d3 a k" if "k \<in> ?A" for k by (rule bufs_card(2) [OF ka(2) gA that])
  let ?t = "s\<lparr>ft_fat := a, ft_dir := e, ft_disk := d4\<rparr>"
  have run: "fs_fflush s = Some (False, ?t)" using d1(1) d2(1) a(1) e(1) by (simp add: fs_fflush_def Let_def)
  have ok: "ft_ok ?t" "dir_ok ?t" using o(1) ke(1,2) c4 assms(2) by (simp_all add: ft_ok_def dir_ok_def)
  have vA: "ft_view ?t k = ft_view s k" if "k \<in> ?A" for k
    using vA4 [OF that] ka(4) [OF that] vA2 [OF that] by (simp add: ft_view_def)
  have sA: "sectors d4 k = ft_view s k" if "k \<in> ?A" for k
    using a(3) that gA [OF that] vA2 [OF that] by (simp add: ft_view_def block_bytes_def)
  have vD: "buf_view 1 d4 e k = buf_view 1 (ft_disk s) (ft_dir s) k" if "k \<in> ?D" for k
    using ke(4) [OF that] vD3 [OF that] vD2 [OF that] by simp
  have sD: "sectors d4 k = buf_view 1 (ft_disk s) (ft_dir s) k" if "k \<in> ?D" for k
    using e(3) that vD3 [OF that] vD2 [OF that] by (simp add: block_bytes_def)
  have "sectors d4 (1 + ?b) = ?info" "sectors d4 (7 + ?b) = ?info"
    using ke(5) ka(5) s1(2,3) s7(2,3) d1(3) d2(3) by auto
  then show ?thesis using run ok vA sA vD sD by auto
qed

section \<open>Reading and writing files\<close>

lemma fs_read_ok:
  assumes f: "file_at s fl cs" and c: "unat (ff_loc fl) + unat cnt < 2 ^ 32"
  defines "n \<equiv> min (unat cnt) (unat (le32 28 (ff_entry fl)) - unat (ff_loc fl))"
  shows "\<exists>fl' t. fs_read fl cnt s = Some (of_nat n, map (file_view s fl cs) [unat (ff_loc fl)..<unat (ff_loc fl) + n], fl'\<lparr>ff_loc := ff_loc fl + of_nat n\<rparr>, t)
    \<and> io_same s fl t fl'"
proof -
  let ?size = "le32 28 (ff_entry fl)" and ?p = "unat (ff_loc fl)"
  have o: "ft_ok s" "ff_ok s fl" "chain_at s cs" "cs \<noteq> []" "get_start_cluster fl = cs ! 0" "?p \<le> unat ?size" "unat ?size \<le> List.length cs * clus_len s"
    using f by (simp_all add: file_at_def)
  have us: "unat (ff_loc fl + cnt) = ?p + unat cnt"
  proof -
    have "unat (of_nat (?p + unat cnt) :: u32) = ?p + unat cnt" using c by (rule unat_of_nat_u32)
    then show ?thesis by simp
  qed
  have ud: "unat (?size - ff_loc fl) = unat ?size - ?p" using o(6) by (simp add: unat_diff_u32)
  let ?N = "if ?size < ff_loc fl + cnt then ?size - ff_loc fl else cnt"
  have uN: "unat ?N = n" using o(6) us ud unfolding n_def by (auto simp: word_less_nat_alt min_def)
  have N: "?N = of_nat n"
  proof -
    have "x = of_nat (unat x)" for x :: u32 by simp
    from this [of ?N] show ?thesis unfolding uN .
  qed
  have c0: "get_start_cluster fl \<noteq> 0" using chain_atD(1) [OF o(3), of 0] o(4,5) by (auto simp: data_clus_def)
  show ?thesis
  proof (cases "n = 0")
    case True
    then have "?N = 0" using N by simp
    then have "fs_read fl cnt s = Some (0, [], fl, s)" unfolding fs_read_def Let_def by simp
    then show ?thesis using True io_same_refl [OF o(1,2)] by (intro exI [of _ fl] exI [of _ s]) simp
  next
    case False
    have n0: "0 < n" using False by simp
    have n1: "?p + n \<le> List.length cs * clus_len s" using o(6,7) by (simp add: n_def)
    have n2: "?p + n < 2 ^ 32" using c by (simp add: n_def)
    have N0: "?N \<noteq> 0" using uN False by auto
    obtain c t fl' u where r: "follow_chain (unat (drop_bit (unat (fs_wa (cluster_bytes_of s))) (ff_loc fl))) (get_start_cluster fl) s = Some (Some c, t)"
        "read_clusters (Suc (unat (drop_bit (unat (fs_wa (cluster_bytes_of s))) (ff_loc fl + of_nat n - 1))) - unat (drop_bit (unat (fs_wa (cluster_bytes_of s))) (ff_loc fl))) c
          (unat (ff_loc fl AND (cluster_bytes_of s - 1))) (unat ((ff_loc fl + of_nat n - 1) AND (cluster_bytes_of s - 1))) [] fl t
          = Some (False, map (file_view s fl cs) [?p..<?p + n], fl', u)" "io_same s fl u fl'"
      using read_chain_ok [OF f n0 n1 n2] by blast
    have "fs_read fl cnt s = Some (of_nat n, map (file_view s fl cs) [?p..<?p + n], fl'\<lparr>ff_loc := ff_loc fl + of_nat n\<rparr>, u)"
      unfolding fs_read_def Let_def N using N0 [unfolded N] c0 r by (simp del: read_clusters.simps)
    then show ?thesis using r(3) by blast
  qed
qed

lemma le16_set_size: "32 \<le> List.length e \<Longrightarrow> le16 20 (set_le32 28 v e) = le16 20 e" "32 \<le> List.length e \<Longrightarrow> le16 26 (set_le32 28 v e) = le16 26 e"
  by (simp_all add: le16_set32_other)

lemma fs_write_ok:
  assumes f: "file_at s fl cs" "distinct cs" "List.length (ff_entry fl) = 32"
    and n: "cnt \<noteq> 0" "unat (ff_loc fl) + unat cnt \<le> List.length cs * clus_len s" "unat (ff_loc fl) + unat cnt < 2 ^ 32" "List.length src = unat cnt"
  shows "\<exists>fl' t. fs_write fl src cnt s = Some (cnt, fl', t) \<and> file_at t fl' cs \<and> unat (ff_loc fl') = unat (ff_loc fl) + unat cnt \<and> List.length (ff_entry fl') = 32
    \<and> unat (le32 28 (ff_entry fl')) = max (unat (le32 28 (ff_entry fl))) (unat (ff_loc fl) + unat cnt) \<and> clus_len t = clus_len s
    \<and> (\<forall>x < List.length cs * clus_len s. file_view t fl' cs x = spliced (unat (ff_loc fl)) src (file_view s fl cs) x)
    \<and> others_same cs s fl t fl' \<and> (\<forall>c. clus_ok (ft_info s) c \<longrightarrow> ft_entry t c = ft_entry s c)"
proof -
  let ?p = "unat (ff_loc fl)" and ?n = "unat cnt"
  let ?size = "le32 28 (ff_entry fl)"
  have o: "ft_ok s" "ff_ok s fl" "chain_at s cs" "cs \<noteq> []" "get_start_cluster fl = cs ! 0" "?p \<le> unat ?size" "unat ?size \<le> List.length cs * clus_len s"
    using f by (simp_all add: file_at_def)
  have n0: "0 < ?n" using n(1) by (simp add: unat_gt_0)
  let ?e = "if unat ?size < ?p + ?n then set_le32 28 (ff_loc fl + cnt) (ff_entry fl) else ff_entry fl"
  have cu: "of_nat (unat cnt) = cnt" by simp
  have n4: "?n \<le> List.length src" using n(4) by simp
  obtain g t where w: "fs_write fl src cnt s = Some (cnt, g\<lparr>ff_entry := ?e, ff_loc := ff_loc fl + cnt\<rparr>, t)" "io_step s fl t g"
      "\<forall>x < List.length cs * clus_len s. file_view t g cs x = spliced ?p (take ?n src) (file_view s fl cs) x" "others_same cs s fl t g"
    using write_chain_ok [OF f(1,2) n0 n(2,3) n4, unfolded cu] by blast
  let ?g = "g\<lparr>ff_entry := ?e, ff_loc := ff_loc fl + cnt\<rparr>"
  note st = io_stepD [OF w(2)]
  have L: "clus_len t = clus_len s" using st(3) by (simp add: clus_len_def)
  have us: "unat (ff_loc fl + cnt) = ?p + ?n"
  proof -
    have "unat (of_nat (?p + ?n) :: u32) = ?p + ?n" using n(3) by (rule unat_of_nat_u32)
    then show ?thesis by simp
  qed
  have sz: "unat (le32 28 ?e) = max (unat ?size) (?p + ?n)" using f(3) us by (simp add: le32_set max_def)
  have sc: "get_start_cluster ?g = cs ! 0"
    using o(5) f(3) by (simp add: get_start_cluster_def le16_set_size)
  have "ff_ok t ?g" using st(2) by (simp add: ff_ok_def)
  then have "file_at t ?g cs"
    using st(1) chain_at_io [OF w(2) o(3)] o(4,7) sc sz us L n(2) by (simp add: file_at_def)
  moreover have "file_view t ?g cs = file_view t g cs" by (simp add: file_view_def clus_view_def)
  moreover have "others_same cs s fl t ?g" using w(4) by (simp add: others_same_def clus_view_def)
  ultimately show ?thesis using w(1,3) n(4) us sz L st(5) f(3) by (intro exI [of _ ?g] exI [of _ t]) simp
qed

section \<open>Releasing a chain\<close>

lemma release_chain_ok:
  assumes "ft_ok s" "chain_at s cs" "distinct cs"
    and "cs \<noteq> [] \<Longrightarrow> ft_entry s (List.last cs) = 0 \<or> \<not> clus_ok (ft_info s) (ft_entry s (List.last cs))"
    and "cs = [] \<Longrightarrow> c = 0 \<or> \<not> clus_ok (ft_info s) c" "cs \<noteq> [] \<Longrightarrow> c = cs ! 0"
  shows "\<exists>t. release_chain c s = Some (False, t) \<and> ft_step s t \<and> (\<forall>e \<in> set cs. ft_entry t e = 0) \<and> (\<forall>e. clus_ok (ft_info s) e \<longrightarrow> e \<notin> set cs \<longrightarrow> ft_word t e = ft_word s e)"
  using assms
proof (induction cs arbitrary: c s)
  case Nil
  have "\<not> (c \<noteq> 0 \<and> c \<le> total_data_clusters (ft_info s) + 1)"
    using Nil.prems(5) last_cluster [OF ft_okD(1) [OF Nil.prems(1)], of c] by (auto simp: clus_ok_def)
  then have "release_chain c s = Some (False, s)" by (subst release_chain.simps) auto
  then show ?case using Nil.prems(1) by (auto simp: ft_step_refl)
next
  case (Cons e cs)
  have c: "c = e" using Cons.prems(6) by simp
  have de: "data_clus (ft_info s) e" using Cons.prems(2) by (simp add: chain_at_def)
  then have ok: "clus_ok (ft_info s) e" and e0: "e \<noteq> 0" by (auto simp: data_clus_def)
  have le: "e \<le> total_data_clusters (ft_info s) + 1"
    using last_cluster [OF ft_okD(1) [OF Cons.prems(1)], of e] ok by (simp add: clus_ok_def not_le [symmetric])
  obtain t where t: "get_fat_entry_value e s = Some (Some (ft_entry s e), t)" "ft_same s t" using get_fat_entry_ok [OF Cons.prems(1) ok] by blast
  have st: "ft_step s t" using t(2) by (simp add: ft_same_def)
  note f = ft_step_fields [OF st]
  have okt: "clus_ok (ft_info t) e" using ok f(2) by simp
  obtain u where u: "fs_modify_fat e 0 t = Some (False, u)" "ft_step t u" "ft_word u e = (ft_word t e AND 0xF0000000) OR (0 AND 0x0FFFFFFF)"
      "\<forall>x. clus_ok (ft_info t) x \<longrightarrow> x \<noteq> e \<longrightarrow> ft_word u x = ft_word t x"
    using modify_fat_ok [OF f(1) okt] by blast
  note g = ft_step_fields [OF u(2)]
  have iu: "ft_info u = ft_info s" using f(2) g(2) by simp
  have wu: "ft_word u x = ft_word s x" if "clus_ok (ft_info s) x" "x \<noteq> e" for x
    using u(4) that f(2) ft_same_word [OF t(2) that(1) ft_okD(1) [OF Cons.prems(1)]] by simp
  have ne: "x \<noteq> e" if "x \<in> set cs" for x using that Cons.prems(3) by auto
  have dcs: "clus_ok (ft_info s) x" if "x \<in> set cs" for x using that Cons.prems(2) by (simp add: chain_at_def data_clus_def)
  have eu: "ft_entry u x = ft_entry s x" if "x \<in> set cs" for x using wu [OF dcs [OF that] ne [OF that]] by (simp add: ft_entry_def)
  have ch: "chain_at u cs" unfolding chain_at_def
  proof (intro conjI allI impI)
    show "\<forall>c \<in> set cs. data_clus (ft_info u) c" using Cons.prems(2) iu by (simp add: chain_at_def)
    fix j assume j: "Suc j < List.length cs"
    then have "ft_entry s ((e # cs) ! Suc j) = (e # cs) ! Suc (Suc j)" by (intro chain_atD(2) [OF Cons.prems(2)]) simp
    then show "ft_entry u (cs ! j) = cs ! Suc j" using eu [of "cs ! j"] j by simp
  qed
  have fin: "cs \<noteq> [] \<Longrightarrow> ft_entry u (List.last cs) = 0 \<or> \<not> clus_ok (ft_info u) (ft_entry u (List.last cs))"
    using Cons.prems(4) eu [of "List.last cs"] iu by auto
  have emp: "cs = [] \<Longrightarrow> ft_entry s e = 0 \<or> \<not> clus_ok (ft_info u) (ft_entry s e)" using Cons.prems(4) iu by auto
  have nxt: "cs \<noteq> [] \<Longrightarrow> ft_entry s e = cs ! 0" using chain_atD(2) [OF Cons.prems(2), of 0] by auto
  obtain v where v: "release_chain (ft_entry s e) u = Some (False, v)" "ft_step u v" "\<forall>x \<in> set cs. ft_entry v x = 0"
      "\<forall>x. clus_ok (ft_info u) x \<longrightarrow> x \<notin> set cs \<longrightarrow> ft_word v x = ft_word u x"
    using Cons.IH [OF g(1) ch _ fin emp nxt] Cons.prems(3) by auto
  have run: "release_chain c s = Some (False, v)"
    unfolding c by (subst release_chain.simps) (simp add: e0 le t(1) u(1) v(1))
  have "ft_entry v e = 0"
  proof -
    have "ft_word v e = ft_word u e" using v(4) ok iu Cons.prems(3) by simp
    then show ?thesis unfolding ft_entry_def u(3) by (simp add: fat_word_bits [of _ 0, simplified] and.assoc)
  qed
  then have "\<forall>x \<in> set (e # cs). ft_entry v x = 0" using v(3) by simp
  moreover have "ft_word v x = ft_word s x" if "clus_ok (ft_info s) x" "x \<notin> set (e # cs)" for x
    using v(4) that iu wu [OF that(1)] by simp
  moreover have "ft_step s v" using ft_step_trans [OF st ft_step_trans [OF u(2) v(2)]] .
  ultimately show ?case using run by blast
qed

section \<open>The properties\<close>

text \<open>A partition of 20 clusters of one sector, with a file in the clusters 2 and 5, of 600 bytes.\<close>

definition sample_fi :: fs_info where
  "sample_fi = \<lparr>base_addr = 1, total_data_clusters = 20, first_data_sector = 10, fs_bpb = (replicate 512 0)[13 := 1, 14 := 8, 36 := 1], fat_fs_info = replicate 512 0\<rparr>"

definition sample_table :: "u8 list" where
  "sample_table = set_le32 20 0x0FFFFFFF (set_le32 8 0xF0000005 (replicate 512 0))"

definition no_bufs :: "nat \<Rightarrow> buf_array" where
  "no_bufs n = \<lparr>ba_bufs = replicate 2 \<lparr>fb_data = replicate n 0, fb_cur = 0xffffffff, fb_state = 0\<rparr>, ba_clock = 0\<rparr>"

definition sample_ff :: fat_file where
  "sample_ff = \<lparr>ff_path = replicate 256 0, ff_loc = 500, ff_pos = 0, ff_sector = 0, ff_entry = set_le32 28 600 (set_le16 26 2 (replicate 32 0)), ff_bufs = no_bufs 4096\<rparr>"

definition sample_ft :: fat_state where
  "sample_ft = \<lparr>ft_disk = \<lparr>sectors = (\<lambda>k. if k = 9 then sample_table else replicate 512 (ucast k)), sd_status = (\<lambda>_. 1), sd_ie = False\<rparr>, ft_info = sample_fi,
     ft_fat = no_bufs 512, ft_dir = no_bufs 512, ft_name11 = replicate 13 0, ft_empty = replicate 4096 0, ft_mkdir_buf = replicate 32 0,
     ft_create = sample_ff, ft_find = sample_ff\<rparr>"

lemma no_bufs_ok: "m * SECSIZE \<le> n \<Longrightarrow> bufs_ok m A d (no_bufs n)"
  by (simp add: bufs_ok_def buf_ok_def no_bufs_def)

lemma no_bufs_view: "k \<noteq> 0xffffffff \<Longrightarrow> buf_view m d (no_bufs n) k = block_bytes d k m"
  by (simp add: buf_view_def no_bufs_def fs_lookup_None [THEN iffD2] less_2_cases_iff nth_Cons')

lemma sample_fi_fields: "base_addr sample_fi = 1" "total_data_clusters sample_fi = 20" "first_data_sector sample_fi = 10" "sectors_per_cluster sample_fi = 1"
    "reserved_sectors sample_fi = 8" "num_of_sectors_per_fat sample_fi = 1" "List.length (fat_fs_info sample_fi) = SECSIZE"
  by (simp_all add: sample_fi_def sectors_per_cluster_def reserved_sectors_def num_of_sectors_per_fat_def le16_def le32_def get_u16_def get_u32_def SECSIZE_def)

lemma sample_geom: "fat_lo sample_fi = 9" "fat_len sample_fi = 1" "data_lo sample_fi = 11" "spc_nat sample_fi = 1" "clusters sample_fi = 20" "data_hi sample_fi = 31" "fat_geom sample_fi"
  by (simp_all add: fat_lo_def fat_len_def data_lo_def spc_nat_def clusters_def data_hi_def fat_geom_def sample_fi_fields)

lemma sample_table_len: "List.length sample_table = SECSIZE"
  by (simp add: sample_table_def SECSIZE_def)

lemma sample_ft_ok: "ft_ok sample_ft" "dir_ok sample_ft" "ff_ok sample_ft sample_ff" "ft_info sample_ft = sample_fi"
proof -
  have "disk_ok (ft_disk sample_ft)" using sample_table_len by (simp add: sample_ft_def disk_ok_def SECSIZE_def)
  then show "ft_ok sample_ft" using sample_geom(7) by (simp add: ft_ok_def no_bufs_ok sample_ft_def SECSIZE_def)
  show "dir_ok sample_ft" by (simp add: dir_ok_def no_bufs_ok sample_ft_def sample_fi_fields SECSIZE_def)
  show "ff_ok sample_ft sample_ff" by (simp add: ff_ok_def sample_ft_def sample_ff_def sample_geom no_bufs_ok SECSIZE_def)
  show "ft_info sample_ft = sample_fi" by (simp add: sample_ft_def)
qed

lemma sample_ft_words: "ft_word sample_ft 2 = 0xF0000005" "ft_word sample_ft 5 = 0x0FFFFFFF" "ft_entry sample_ft 2 = 5" "ft_entry sample_ft 5 = 0x0FFFFFFF"
proof -
  have v: "ft_view sample_ft 9 = sample_table" by (simp add: ft_view_def sample_ft_def no_bufs_view block_bytes_def)
  have p: "cluster_to_fat_entry sample_fi 2 = (9, 8)" "cluster_to_fat_entry sample_fi 5 = (9, 20)" by (simp_all add: cluster_to_fat_entry_def sample_fi_fields Let_def push_bit_eq_mult)
  show w: "ft_word sample_ft 2 = 0xF0000005" "ft_word sample_ft 5 = 0x0FFFFFFF"
    unfolding ft_word_def sample_ft_ok(4) p prod.case v by (simp_all add: sample_table_def le32_set le32_set_other)
  show "ft_entry sample_ft 2 = 5" "ft_entry sample_ft 5 = 0x0FFFFFFF" by (simp_all add: ft_entry_def w)
qed

lemma sample_ff_fields: "ff_loc sample_ff = 500" "le32 28 (ff_entry sample_ff) = 600" "get_start_cluster sample_ff = 2" "List.length (ff_entry sample_ff) = 32"
  by (simp_all add: sample_ff_def le32_set get_start_cluster_def le16_set_size le16_set le16_set_other) (simp add: le16_def get_u16_def)

lemma sample_ft_chain: "chain_at sample_ft [2, 5]" "clus_len sample_ft = 512" "file_at sample_ft sample_ff [2, 5]"
proof -
  show c: "chain_at sample_ft [2, 5]" using sample_ft_words(3) by (auto simp: chain_at_def data_clus_def clus_ok_def sample_ft_ok(4) sample_geom(5) nth_Cons' less_2_cases_iff)
  show l: "clus_len sample_ft = 512" by (simp add: clus_len_def sample_ft_ok(4) sample_geom(4) SECSIZE_def)
  show "file_at sample_ft sample_ff [2, 5]" using c l sample_ft_ok(1,3) by (simp add: file_at_def sample_ff_fields)
qed

lemma sample_clusters: "clus_view sample_ft sample_ff 2 = replicate 512 11" "clus_view sample_ft sample_ff 5 = replicate 512 14"
proof -
  have p: "data_sec sample_fi 2 = 11" "data_sec sample_fi 5 = 14" by (simp_all add: data_sec_def fs_dataclus2sec_def sample_fi_fields fs_wa_values)
  show "clus_view sample_ft sample_ff 2 = replicate 512 11" "clus_view sample_ft sample_ff 5 = replicate 512 14"
    unfolding clus_view_def sample_ft_ok(4) p sample_geom(4) by (simp_all add: sample_ff_def no_bufs_view block_bytes_def) (simp_all add: sample_ft_def)
qed

lemma sample_file_view: "x < 512 \<Longrightarrow> file_view sample_ft sample_ff [2, 5] x = 11" "512 \<le> x \<Longrightarrow> x < 1024 \<Longrightarrow> file_view sample_ft sample_ff [2, 5] x = 14"
proof -
  show "x < 512 \<Longrightarrow> file_view sample_ft sample_ff [2, 5] x = 11" by (simp add: file_view_def file_byte_def sample_ft_chain(2) sample_clusters)
  assume x: "512 \<le> x" "x < 1024"
  then have "x div 512 = 1" by (intro div_nat_eqI) simp_all
  then show "file_view sample_ft sample_ff [2, 5] x = 14" by (simp add: file_view_def file_byte_def sample_ft_chain(2) sample_clusters)
qed



text \<open>C19: a flush of a partition without card errors writes all that is dirty: every sector of the allocation table and of directories holds what is seen through the buffers, both sectors of the FSInfo hold its copy in memory, and what is seen does not change.\<close>

theorem fs_fflush_correct:
  assumes "ft_ok s" "dir_ok s"
  shows "\<exists>t. fs_fflush s = Some (False, t) \<and> ft_ok t \<and> dir_ok t \<and> ft_info t = ft_info s
    \<and> (\<forall>k \<in> fat_area (ft_info s). sectors (ft_disk t) k = ft_view s k \<and> ft_view t k = ft_view s k)
    \<and> (\<forall>k \<in> dir_area (ft_info s). sectors (ft_disk t) k = buf_view 1 (ft_disk s) (ft_dir s) k \<and> buf_view 1 (ft_disk t) (ft_dir t) k = buf_view 1 (ft_disk s) (ft_dir s) k)
    \<and> sectors (ft_disk t) (1 + base_addr (ft_info s)) = fat_fs_info (ft_info s) \<and> sectors (ft_disk t) (7 + base_addr (ft_info s)) = fat_fs_info (ft_info s)"
  by (rule fs_fflush_ok [OF assms])

theorem fs_fflush_correct_witness:
  "\<exists>t. fs_fflush sample_ft = Some (False, t) \<and> sectors (ft_disk t) 9 = ft_view sample_ft 9 \<and> sectors (ft_disk t) 2 = replicate 512 0"
proof -
  have "9 \<in> fat_area sample_fi" by (simp add: fat_area_def sample_geom)
  moreover have "fat_fs_info sample_fi = replicate 512 0" by (simp add: sample_fi_def)
  ultimately show ?thesis using fs_fflush_correct [OF sample_ft_ok(1,2)] by (auto simp: sample_ft_ok(4) sample_fi_fields)
qed

text \<open>C17: reading a file through its chain of clusters returns exactly its bytes from the position on, cut off at its size, moves the position behind them, and changes neither a file nor the table.\<close>

theorem fs_read_correct:
  assumes "file_at s fl cs" "unat (ff_loc fl) + unat cnt < 2 ^ 32"
  shows "\<exists>fl' t. fs_read fl cnt s = Some (of_nat (min (unat cnt) (unat (le32 28 (ff_entry fl)) - unat (ff_loc fl))),
      map (file_view s fl cs) [unat (ff_loc fl)..<min (unat (ff_loc fl) + unat cnt) (unat (le32 28 (ff_entry fl)))],
      fl'\<lparr>ff_loc := ff_loc fl + of_nat (min (unat cnt) (unat (le32 28 (ff_entry fl)) - unat (ff_loc fl)))\<rparr>, t) \<and> io_same s fl t fl'"
proof -
  have "unat (ff_loc fl) \<le> unat (le32 28 (ff_entry fl))" using assms(1) by (simp add: file_at_def)
  then have e: "unat (ff_loc fl) + min (unat cnt) (unat (le32 28 (ff_entry fl)) - unat (ff_loc fl)) = min (unat (ff_loc fl) + unat cnt) (unat (le32 28 (ff_entry fl)))" by simp
  show ?thesis using fs_read_ok [OF assms] unfolding e .
qed

theorem fs_read_correct_witness:
  "\<exists>fl' t. fs_read sample_ff 200 sample_ft = Some (100, replicate 12 11 @ replicate 88 14, fl', t) \<and> ff_loc fl' = 600"
proof -
  have "[500..<512 + 88] = [500..<512] @ [512..<512 + 88 :: nat]" by (rule upt_add_eq_append) simp
  then have "[500..<600] = [500..<512] @ [512..<600 :: nat]" by (simp only: numeral_plus_numeral Num.add_num_simps)
  moreover have "map (file_view sample_ft sample_ff [2, 5]) [500..<512] = replicate 12 11" by (intro replicate_eqI) (auto simp: sample_file_view)
  moreover have "map (file_view sample_ft sample_ff [2, 5]) [512..<600] = replicate 88 14" by (intro replicate_eqI) (auto simp: sample_file_view)
  ultimately have m: "map (file_view sample_ft sample_ff [2, 5]) [500..<600] = replicate 12 11 @ replicate 88 14" by simp
  have a: "unat (ff_loc sample_ff) + unat (200 :: u32) < 2 ^ 32" by (simp add: sample_ff_fields)
  have n: "unat (500 :: u32) = 500" "unat (600 :: u32) = 600" "unat (200 :: u32) = 200" "min (500 + 200) 600 = (600 :: nat)" "min 200 (600 - 500) = (100 :: nat)" by simp_all
  obtain fl' t where "fs_read sample_ff 200 sample_ft = Some (of_nat 100, replicate 12 11 @ replicate 88 14, fl'\<lparr>ff_loc := 500 + of_nat 100\<rparr>, t)"
    using fs_read_correct [OF sample_ft_chain(3) a, unfolded sample_ff_fields n m] by blast
  then show ?thesis by simp
qed

text \<open>C18: writing inside the chain of a file puts exactly the given bytes at the position and no others, in no other cluster of the partition, raises the size to the end of what was written and not otherwise, moves the position, and leaves all entries of the table as they are.\<close>

theorem fs_write_correct:
  assumes "file_at s fl cs" "distinct cs" "List.length (ff_entry fl) = 32"
    and "cnt \<noteq> 0" "unat (ff_loc fl) + unat cnt \<le> List.length cs * clus_len s" "unat (ff_loc fl) + unat cnt < 2 ^ 32" "List.length src = unat cnt"
  shows "\<exists>fl' t. fs_write fl src cnt s = Some (cnt, fl', t) \<and> file_at t fl' cs \<and> unat (ff_loc fl') = unat (ff_loc fl) + unat cnt \<and> List.length (ff_entry fl') = 32
    \<and> unat (le32 28 (ff_entry fl')) = max (unat (le32 28 (ff_entry fl))) (unat (ff_loc fl) + unat cnt) \<and> clus_len t = clus_len s
    \<and> (\<forall>x < List.length cs * clus_len s. file_view t fl' cs x = spliced (unat (ff_loc fl)) src (file_view s fl cs) x)
    \<and> others_same cs s fl t fl' \<and> (\<forall>c. clus_ok (ft_info s) c \<longrightarrow> ft_entry t c = ft_entry s c)"
  by (rule fs_write_ok [OF assms])

theorem fs_write_correct_witness:
  "\<exists>fl' t. fs_write sample_ff (replicate 200 7) 200 sample_ft = Some (200, fl', t) \<and> unat (le32 28 (ff_entry fl')) = 700
    \<and> file_view t fl' [2, 5] 499 = 11 \<and> file_view t fl' [2, 5] 500 = 7 \<and> file_view t fl' [2, 5] 699 = 7 \<and> file_view t fl' [2, 5] 700 = 14"
proof -
  have n: "unat (500 :: u32) = 500" "unat (600 :: u32) = 600" "unat (200 :: u32) = 200" by simp_all
  have a: "unat (ff_loc sample_ff) + unat (200 :: u32) \<le> List.length [2, 5 :: u32] * clus_len sample_ft" "unat (ff_loc sample_ff) + unat (200 :: u32) < 2 ^ 32"
      "List.length (replicate 200 7 :: u8 list) = unat (200 :: u32)" "(200 :: u32) \<noteq> 0" "distinct [2, 5 :: u32]"
    by (simp_all add: sample_ff_fields sample_ft_chain(2))
  obtain fl' t where r: "fs_write sample_ff (replicate 200 7) 200 sample_ft = Some (200, fl', t)" "unat (le32 28 (ff_entry fl')) = 700"
      "\<forall>x < 1024. file_view t fl' [2, 5] x = spliced 500 (replicate 200 7) (file_view sample_ft sample_ff [2, 5]) x"
    using fs_write_correct [OF sample_ft_chain(3) a(5) sample_ff_fields(4) a(4,1,2,3)] unfolding sample_ff_fields n sample_ft_chain(2) by auto
  have "file_view t fl' [2, 5] x = (if 500 \<le> x \<and> x < 700 then 7 else if x < 512 then 11 else 14)" if "x < 1024" for x
    using r(3) that sample_file_view [of x] by (auto simp: spliced_def)
  then show ?thesis using r(1,2) by auto
qed



end
