(* ===== verification/FatNames.thy ===== *)
theory FatNames
  imports FatTable
begin

text \<open>Names of the old FAT driver: what \<open>get_filename\<close> prints of a directory entry is found by \<open>fs_next_slash\<close> as the characters of that entry.\<close>

text \<open>A base of 1 to 8 and an extension of up to 3 characters, none of them special and no small letters.\<close>

definition dos_char :: "u8 \<Rightarrow> bool" where
  "dos_char c \<longleftrightarrow> c \<noteq> 0 \<and> c \<noteq> 0x20 \<and> c \<noteq> 0x2E \<and> c \<noteq> 0x2F \<and> fat_upper c = c"

definition dos_name :: "u8 list \<Rightarrow> u8 list \<Rightarrow> bool" where
  "dos_name base ext \<longleftrightarrow> base \<noteq> [] \<and> List.length base \<le> 8 \<and> List.length ext \<le> 3 \<and> list_all dos_char base \<and> list_all dos_char ext"

definition padded :: "nat \<Rightarrow> u8 list \<Rightarrow> u8 list" where "padded n xs = xs @ replicate (n - List.length xs) 0x20"

definition dotted :: "u8 list \<Rightarrow> u8 list \<Rightarrow> u8 list" where "dotted base ext = base @ (if ext = [] then [] else 0x2E # ext)"

lemma fat_upper_special: "fat_upper 0x2E = 0x2E"
  by (simp add: fat_upper_def)

lemma next_slash_ok:
  assumes "dos_name base ext" "stop = 0 \<or> stop = 0x2F"
  shows "\<exists>n11. fs_next_slash (dotted base ext @ stop # rest) old = Some (List.length (dotted base ext), n11) \<and> take 11 n11 = padded 8 base @ padded 3 ext"
proof -
  let ?d = "dotted base ext"
  have b: "base \<noteq> []" "List.length base \<le> 8" "List.length ext \<le> 3" "\<forall>c \<in> set base. dos_char c" "\<forall>c \<in> set ext. dos_char c"
    using assms(1) by (simp_all add: dos_name_def list_all_iff)
  have d: "\<forall>c \<in> set ?d. c \<noteq> 0 \<and> c \<noteq> 0x2F" "\<forall>c \<in> set ?d. fat_upper c = c" "List.length ?d \<le> 12"
    using b fat_upper_special by (auto simp: dotted_def dos_char_def)
  have tw: "takeWhile (\<lambda>c. c \<noteq> 0 \<and> c \<noteq> 0x2F) (?d @ stop # rest) = ?d"
    using d(1) assms(2) by (subst takeWhile_append2) auto
  have chr: "map fat_upper (take (min 12 (List.length ?d)) (?d @ stop # rest)) = ?d"
    using d(2,3) by (simp add: map_idI)
  have bs: "takeWhile (\<lambda>c. c \<noteq> 0x2E) ?d = base"
  proof (cases "ext = []")
    case True
    then show ?thesis using b(4) by (simp add: dotted_def takeWhile_eq_all_conv dos_char_def)
  next
    case False
    then show ?thesis using b(4) by (simp add: dotted_def takeWhile_append2 dos_char_def)
  qed
  have ex: "take 3 (drop (List.length base + 1) ?d) = ext" using b(3) by (simp add: dotted_def)
  let ?n = "(put_bytes 8 ext (put_bytes 0 base (replicate 12 0x20 @ drop 12 old)))[11 := 0]"
  have "take 11 ?n = padded 8 base @ padded 3 ext"
  proof -
    have r8: "replicate 12 (0x20 :: u8) = replicate (List.length base) 0x20 @ replicate (8 - List.length base) 0x20 @ replicate (List.length ext) 0x20 @ replicate (3 - List.length ext) 0x20 @ [0x20]"
      using b(2,3) by (intro replicate_eqI [symmetric]) auto
    have p: "put_bytes 0 base (replicate 12 0x20 @ drop 12 old)
        = base @ replicate (8 - List.length base) 0x20 @ replicate (List.length ext) 0x20 @ replicate (3 - List.length ext) 0x20 @ 0x20 # drop 12 old"
      unfolding r8 by (simp add: put_bytes_def)
    have "put_bytes 8 ext (put_bytes 0 base (replicate 12 0x20 @ drop 12 old)) = (padded 8 base @ padded 3 ext) @ 0x20 # drop 12 old"
      unfolding p using b(2,3) by (simp add: put_bytes_def padded_def)
    moreover have "List.length (padded 8 base @ padded 3 ext) = 11" using b(2,3) by (simp add: padded_def)
    ultimately show ?thesis by simp
  qed
  then show ?thesis unfolding fs_next_slash_def Let_def tw chr bs ex by simp
qed

text \<open>The other direction: the dot goes between the two parts, and what is behind the name does not matter.\<close>

lemma name_read:
  assumes "take k r = d" "k < List.length r" "r ! k = 0" "\<forall>c \<in> set d. c \<noteq> 0"
  shows "takeWhile (\<lambda>c. c \<noteq> 0) r = d"
proof -
  have "r = d @ 0 # drop (Suc k) r" using id_take_nth_drop [OF assms(2)] assms(1,3) by simp
  moreover have "takeWhile (\<lambda>c. c \<noteq> 0) (d @ 0 # z) = d" for z using assms(4) by (subst takeWhile_append2) auto
  ultimately show ?thesis by metis
qed

lemma blank_place:
  assumes "List.length base \<le> 8" "list_all dos_char base"
  shows "find (\<lambda>i. (padded 8 base @ rest) ! i = 0x20) [0..<8] = (if List.length base < 8 then Some (List.length base) else None)"
proof -
  have ne: "(padded 8 base @ rest) ! i \<noteq> 0x20" if "i < List.length base" for i
    using assms(2) that by (auto simp: padded_def nth_append list_all_length dos_char_def)
  show ?thesis
  proof (cases "List.length base < 8")
    case True
    then have "(padded 8 base @ rest) ! List.length base = 0x20" by (simp add: padded_def nth_append)
    then have "find (\<lambda>i. (padded 8 base @ rest) ! i = 0x20) [0..<8] = Some (List.length base)"
      unfolding find_Some_iff using True ne by (intro exI [of _ "List.length base"]) simp
    then show ?thesis using True by simp
  next
    case False
    then have "find (\<lambda>i. (padded 8 base @ rest) ! i = 0x20) [0..<8] = None"
      unfolding find_None_iff using ne assms(1) by auto
    then show ?thesis using False by simp
  qed
qed

lemma ext_cases: "List.length ext \<le> 3 \<Longrightarrow> ext = [] \<or> (\<exists>a. ext = [a]) \<or> (\<exists>a b. ext = [a, b]) \<or> (\<exists>a b c. ext = [a, b, c])"
  by (auto simp: le_Suc_eq length_Suc_conv numeral_eq_Suc)

lemma name_ext_ok:
  assumes "l1 < l2" "l2 + 4 \<le> List.length buf" "l2 \<le> l1 + 8" "List.length ext \<le> 3" "list_all dos_char ext"
    and "\<And>j. j < 3 \<Longrightarrow> buf ! (l2 + j) = padded 3 ext ! j"
  shows "\<exists>b. name_ext l1 l2 [l1 + 1, l1 + 2, l1 + 3] buf = (l1 + 1 + List.length ext, b) \<and> List.length b = List.length buf
    \<and> take (l1 + 1 + List.length ext) b = take (l1 + 1) buf @ ext"
proof -
  have j: "buf ! l2 = padded 3 ext ! 0" "buf ! Suc l2 = padded 3 ext ! 1" "buf ! Suc (Suc l2) = padded 3 ext ! 2"
    using assms(6) [of 0] assms(6) [of 1] assms(6) [of 2] by (simp_all add: numeral_eq_Suc)
  have ix: "l2 + (l1 + 1) - l1 - 1 = l2" "l2 + (l1 + 2) - l1 - 1 = Suc l2" "l2 + (l1 + 3) - l1 - 1 = Suc (Suc l2)" by simp_all
  note d = dos_char_def
  show ?thesis using ext_cases [OF assms(4)]
  proof (elim disjE exE)
    assume e: "ext = []"
    then show ?thesis using j(1) unfolding name_ext.simps ix by (simp add: padded_def)
  next
    fix a assume e: "ext = [a]"
    then show ?thesis using j assms(1,2,5) unfolding name_ext.simps ix
      by (simp add: padded_def numeral_eq_Suc d Let_def take_Suc_conv_app_nth nth_list_update)
  next
    fix a b assume e: "ext = [a, b]"
    then show ?thesis using j assms(1,2,5) unfolding name_ext.simps ix
      by (simp add: padded_def numeral_eq_Suc d Let_def take_Suc_conv_app_nth nth_list_update)
  next
    fix a b c assume e: "ext = [a, b, c]"
    then show ?thesis using j assms(1,2,5) unfolding name_ext.simps ix
      by (simp add: padded_def numeral_eq_Suc d Let_def take_Suc_conv_app_nth nth_list_update)
  qed
qed

lemma name_finish:
  assumes "List.length base = l1" "l1 < l2" "l2 + 4 \<le> List.length buf" "l2 \<le> l1 + 8" "List.length ext \<le> 3" "list_all dos_char base" "list_all dos_char ext"
    and "\<And>j. j < 3 \<Longrightarrow> buf ! (l2 + j) = padded 3 ext ! j" "take (l1 + 1) buf = base @ [0x2E]"
  shows "\<exists>i b r. name_ext l1 l2 [l1 + 1, l1 + 2, l1 + 3] buf = (i, b) \<and> i < List.length b \<and> takeWhile (\<lambda>c. c \<noteq> 0) r = dotted base ext
    \<and> r = (let b = b[i := 0] in if b ! (i - 1) = 0x2E then b[i - 1 := 0] else b)"
proof -
  let ?m = "List.length ext" and ?d = "base @ 0x2E # ext"
  obtain b where b: "name_ext l1 l2 [l1 + 1, l1 + 2, l1 + 3] buf = (l1 + 1 + ?m, b)" "List.length b = List.length buf" "take (l1 + 1 + ?m) b = ?d"
    using name_ext_ok [OF assms(2-5,7,8)] assms(9) by auto
  have i: "l1 + 1 + ?m < List.length b" using b(2) assms(2,3,5) by simp
  have nz: "\<forall>c \<in> set ?d. c \<noteq> 0" "\<forall>c \<in> set base. c \<noteq> 0" using assms(6,7) by (auto simp: list_all_iff dos_char_def)
  let ?b = "b[l1 + 1 + ?m := 0]"
  have nb: "?b ! j = ?d ! j" if "j < l1 + 1 + ?m" for j
  proof -
    have "?b ! j = take (l1 + 1 + ?m) b ! j" using that by simp
    then show ?thesis unfolding b(3) .
  qed
  show ?thesis
  proof (cases "ext = []")
    case True
    have "?b ! (l1 + 1 + ?m - 1) = 0x2E" using nb [of l1] True assms(1) by (auto simp: nth_append)
    moreover have "take l1 (?b[l1 := 0]) = base"
    proof -
      have "take l1 (?b[l1 := 0]) = take l1 (take (l1 + 1 + ?m) b)" by simp
      then show ?thesis unfolding b(3) using assms(1) by simp
    qed
    then have "takeWhile (\<lambda>c. c \<noteq> 0) (?b[l1 := 0]) = base" using i nz(2) by (intro name_read [of l1]) auto
    ultimately show ?thesis using b(1) i True unfolding Let_def by (intro exI conjI) (auto simp: dotted_def)
  next
    case False
    then have "?b ! (l1 + 1 + ?m - 1) = List.last ext" using nb [of "l1 + ?m"] assms(1) by (simp add: nth_append last_conv_nth nth_Cons')
    moreover have "List.last ext \<noteq> 0x2E" using assms(7) False by (auto simp: list_all_iff dos_char_def)
    moreover have "takeWhile (\<lambda>c. c \<noteq> 0) ?b = ?d" using i nz(1) b(3) by (intro name_read [of "l1 + 1 + ?m"]) auto
    ultimately show ?thesis using b(1) i False unfolding Let_def by (intro exI conjI) (auto simp: dotted_def)
  qed
qed

lemma get_filename_ok:
  assumes "dos_name base ext" "13 \<le> List.length buf"
  shows "\<exists>r. get_filename (padded 8 base @ padded 3 ext @ attrs) buf = Some r \<and> takeWhile (\<lambda>c. c \<noteq> 0) r = dotted base ext"
proof -
  have b: "base \<noteq> []" "List.length base \<le> 8" "List.length ext \<le> 3" "list_all dos_char base" "list_all dos_char ext"
    using assms(1) by (simp_all add: dos_name_def)
  have "2 \<le> List.length (drop 11 buf)" using assms(2) by simp
  then obtain x y rest where buf: "drop 11 buf = x # y # rest" by (cases "drop 11 buf" rule: list.exhaust [case_product list.exhaust]) (auto simp: numeral_2_eq_2 Suc_le_length_iff)
  let ?e = "padded 3 ext @ x # y # rest"
  let ?b = "padded 8 base @ ?e"
  have put: "put_bytes 0 (take 11 (padded 8 base @ padded 3 ext @ attrs)) buf = ?b"
    using b(2,3) buf by (simp add: put_bytes_def padded_def)
  have len: "List.length (padded 8 base) = 8" "List.length (padded 3 ext) = 3" using b(2,3) by (simp_all add: padded_def)
  have b0: "?b ! 0 \<noteq> 0x2E" using b(1,4) by (cases base) (simp_all add: padded_def dos_char_def)
  note bl = blank_place [OF b(2,4), of ?e]
  show ?thesis
  proof (cases "List.length base < 8")
    case True
    let ?n = "List.length base"
    let ?c = "?b[?n := 0x2E]"
    have "?c ! (8 + j) = padded 3 ext ! j" if "j < 3" for j using True len that by (simp add: nth_append)
    moreover have "take (?n + 1) ?c = base @ [0x2E]" using True len by (simp add: take_Suc_conv_app_nth) (simp add: padded_def)
    ultimately obtain i c r where r: "name_ext ?n 8 [?n + 1, ?n + 2, ?n + 3] ?c = (i, c)" "i < List.length c" "takeWhile (\<lambda>c. c \<noteq> 0) r = dotted base ext"
        "r = (let c = c[i := 0] in if c ! (i - 1) = 0x2E then c[i - 1 := 0] else c)"
      using name_finish [of base ?n 8 ?c ext] b True len by auto
    have "get_filename (padded 8 base @ padded 3 ext @ attrs) buf = Some r"
      using bl True b0 r(1,2,4) len assms(2) unfolding get_filename_def put Let_def by simp
    then show ?thesis using r(3) by blast
  next
    case False
    then have n: "List.length base = 8" and p8: "padded 8 base = base" using b(2) by (simp_all add: padded_def)
    have "take 3 (drop 8 ?b) = padded 3 ext" using len by simp
    then have c: "(put_bytes 9 (take 3 (drop 8 ?b)) ?b)[8 := 0x2E] = base @ 0x2E # padded 3 ext @ y # rest"
      using len n unfolding p8 by (simp add: put_bytes_def list_update_append take_Suc_conv_app_nth nth_append numeral_eq_Suc)
    obtain i c r where r: "name_ext 8 9 [8 + 1, 8 + 2, 8 + 3] (base @ 0x2E # padded 3 ext @ y # rest) = (i, c)" "i < List.length c" "takeWhile (\<lambda>c. c \<noteq> 0) r = dotted base ext"
        "r = (let c = c[i := 0] in if c ! (i - 1) = 0x2E then c[i - 1 := 0] else c)"
      using name_finish [of base 8 9 "base @ 0x2E # padded 3 ext @ y # rest" ext] b n len by (auto simp: nth_append)
    have bl8: "find (\<lambda>i. ?b ! i = 0x20) [0..<8] = None" using bl False by simp
    have l: "11 < List.length ?b" using len by simp
    show ?thesis unfolding get_filename_def put Let_def bl8 option.case c prod.case r(1)
      using b0 r(2-4) l assms(2) len by (auto simp: Let_def c_guard_def)
  qed
qed

section \<open>The round trip\<close>



end
