(* ===== verification/Screen.thy ===== *)
theory Screen
  imports Utils VfsUtils "HOL-Library.Signed_Division"
begin

text \<open>
  The text screen, \<open>kernel/driver/vga.c\<close>. The video memory is an array of words, 128 to a row, one word for a character with its colours; the
  code shows 80 columns of 30 rows. \<open>int\<close> variables of the cursor are integers. \<open>None\<close> is a fill that starts in front of the video memory or has a
  negative length, which does not end for a long time.
\<close>

record screen =
  vram :: "nat \<Rightarrow> u32"
  cursor_row :: int
  cursor_col :: int
  cursor_freq :: int
  gpio_cursor :: u32
  scr_ie :: bool

definition VGA_CHAR_MAX_COL :: int where "VGA_CHAR_MAX_COL = 128"
definition VGA_CHAR_ROW :: int where "VGA_CHAR_ROW = 30"
definition VGA_CHAR_COL :: int where "VGA_CHAR_COL = 80"
definition blank_cell :: u32 where "blank_cell = 0x000fff00"

definition kernel_set_cursor :: "screen \<Rightarrow> screen" where
  "kernel_set_cursor s = s\<lparr>gpio_cursor := word_of_int (push_bit 16 (cursor_freq s AND 0xff) + push_bit 8 (cursor_row s AND 0xff) + (cursor_col s AND 0xff))\<rparr>"

definition init_vga :: "screen \<Rightarrow> screen" where
  "init_vga s = kernel_set_cursor (s\<lparr>cursor_row := 0, cursor_col := 0, cursor_freq := 31\<rparr>)"

definition fill_cells :: "int \<Rightarrow> int \<Rightarrow> screen \<Rightarrow> screen option" where
  "fill_cells at_cell n s = do {
     _ \<leftarrow> c_guard (0 \<le> at_cell \<and> 0 \<le> n);
     Some (s\<lparr>vram := kernel_memset_word (nat at_cell) blank_cell (nat n) (vram s)\<rparr>)
   }"

definition kernel_clear_screen :: "int \<Rightarrow> screen \<Rightarrow> screen option" where
  "kernel_clear_screen scope s =
     (let scope = scope AND 31;
          s = kernel_set_cursor (s\<lparr>cursor_col := 0, cursor_row := 0\<rparr>)
      in fill_cells 0 (scope * VGA_CHAR_MAX_COL) s)"

text \<open>\<open>kernel_memcpy\<close> copies bytes; these are the bytes of the words, the low one first.\<close>

definition bytes_of_words :: "(nat \<Rightarrow> u32) \<Rightarrow> mem" where
  "bytes_of_words v a = ucast (drop_bit (8 * (a mod 4)) (v (a div 4)))"

definition words_of_bytes :: "mem \<Rightarrow> nat \<Rightarrow> u32" where
  "words_of_bytes m i = get_u32 (4 * i) m"

definition kernel_scroll_screen :: "screen \<Rightarrow> screen option" where
  "kernel_scroll_screen s = do {
     let old_ie = scr_ie s;
     let s = s\<lparr>scr_ie := False\<rparr>;
     let len = nat ((VGA_CHAR_ROW - 2) * VGA_CHAR_MAX_COL * 4);
     let s = s\<lparr>vram := words_of_bytes (kernel_memcpy 0 (nat (VGA_CHAR_MAX_COL * 4)) len (bytes_of_words (vram s)))\<rparr>;
     s \<leftarrow> fill_cells ((VGA_CHAR_ROW - 2) * VGA_CHAR_MAX_COL) VGA_CHAR_MAX_COL s;
     Some (if old_ie then s\<lparr>scr_ie := True\<rparr> else s)
   }"

definition cell_at :: "int \<Rightarrow> int \<Rightarrow> nat" where
  "cell_at row col = nat ((row AND 31) * VGA_CHAR_MAX_COL + (col AND 127))"

definition cell_of :: "u32 \<Rightarrow> u32 \<Rightarrow> u32 \<Rightarrow> u32" where
  "cell_of ch fc bg = push_bit 20 (bg AND 0xfff) + push_bit 8 (fc AND 0xfff) + (ch AND 0xff)"

definition kernel_putchar_at :: "u32 \<Rightarrow> u32 \<Rightarrow> u32 \<Rightarrow> int \<Rightarrow> int \<Rightarrow> screen \<Rightarrow> screen" where
  "kernel_putchar_at ch fc bg row col s = s\<lparr>vram := (vram s)(cell_at row col := cell_of ch fc bg)\<rparr>"

text \<open>\<open>kernel_putchar\<close> of a line feed, which it calls itself for a line that is full.\<close>

definition new_line :: "screen \<Rightarrow> screen option" where
  "new_line s = do {
     s \<leftarrow> fill_cells (cursor_row s * VGA_CHAR_MAX_COL + cursor_col s) (VGA_CHAR_COL - cursor_col s) s;
     let s = s\<lparr>cursor_col := 0\<rparr>;
     s \<leftarrow> (if cursor_row s = VGA_CHAR_ROW - 2 then kernel_scroll_screen s else Some (s\<lparr>cursor_row := cursor_row s + 1\<rparr>));
     Some (kernel_set_cursor s)
   }"

definition kernel_putchar :: "u32 \<Rightarrow> u32 \<Rightarrow> u32 \<Rightarrow> screen \<Rightarrow> screen option" where
  "kernel_putchar ch fc bg s =
     (if ch = 13 then Some s
      else if ch = 10 then new_line s
      else if ch = 9 then do {
        s \<leftarrow> (if VGA_CHAR_COL - 4 \<le> cursor_col s then new_line s
             else do {
               s \<leftarrow> fill_cells (cursor_row s * VGA_CHAR_MAX_COL + cursor_col s) ((4 - cursor_col s) AND 3) s;
               Some (s\<lparr>cursor_col := (cursor_col s + 4) AND (- 4)\<rparr>)
             });
        Some (kernel_set_cursor s)
      } else do {
        s \<leftarrow> (if cursor_col s = VGA_CHAR_COL then new_line s else Some s);
        let s = kernel_putchar_at ch fc bg (cursor_row s) (cursor_col s) s;
        Some (kernel_set_cursor (s\<lparr>cursor_col := cursor_col s + 1\<rparr>))
      })"

text \<open>A string is the list of its characters without the final 0; \<open>char\<close> is signed.\<close>

primrec kernel_puts :: "u8 list \<Rightarrow> u32 \<Rightarrow> u32 \<Rightarrow> screen \<Rightarrow> screen option" where
  "kernel_puts [] fc bg s = Some s"
| "kernel_puts (c # cs) fc bg s = do { s \<leftarrow> kernel_putchar (scast c) fc bg s; kernel_puts cs fc bg s }"

section \<open>Numbers\<close>

text \<open>The characters that the loops put into their buffer, the last one first. Division truncates; the least integer has no negation and stays negative.\<close>

function int_digits :: "int \<Rightarrow> u8 list" where
  "int_digits x = (if x = 0 then [] else word_of_int (x smod 10 + 48) # int_digits (x sdiv 10))"
  by auto

termination
proof (relation "measure (\<lambda>x. nat \<bar>x\<bar>)")
  fix x :: int assume "x \<noteq> 0"
  then have "\<bar>x\<bar> div 10 < \<bar>x\<bar>" by (simp add: int_div_less_self)
  moreover have "\<bar>x sdiv 10\<bar> = \<bar>x\<bar> div 10" by (simp add: signed_divide_int_def abs_mult sgn_if)
  ultimately show "(x sdiv 10, x) \<in> measure (\<lambda>x. nat \<bar>x\<bar>)" by simp
qed simp

declare int_digits.simps [simp del]

definition int_text :: "u32 \<Rightarrow> u8 list" where
  "int_text x =
     (if x = 0 then [48]
      else if sint x < 0 then 45 # rev (int_digits (sint (- x))) else rev (int_digits (sint x)))"

text \<open>The result is the variable that the loop has brought down to 0.\<close>

definition kernel_putint :: "u32 \<Rightarrow> u32 \<Rightarrow> u32 \<Rightarrow> screen \<Rightarrow> screen option" where
  "kernel_putint x fc bg s = (if x = 0 then kernel_putchar 48 fc bg s else kernel_puts (int_text x) fc bg s)"

definition HEX_MAP :: "u8 list" where
  "HEX_MAP = [48, 49, 50, 51, 52, 53, 54, 55, 56, 57, 97, 98, 99, 100, 101, 102]"

function hex_digits :: "u32 \<Rightarrow> u8 list" where
  "hex_digits x = (if x = 0 then [] else HEX_MAP ! unat (x AND 15) # hex_digits (drop_bit 4 x))"
  by auto

termination
proof (relation "measure unat")
  fix x :: u32 assume "x \<noteq> 0"
  then have "0 < unat x" by (simp add: unat_gt_0)
  moreover have "unat (drop_bit 4 x) = unat x div 16" by (simp add: drop_bit_eq_div unat_div)
  ultimately show "(drop_bit 4 x, x) \<in> measure unat" by simp
qed simp

declare hex_digits.simps [simp del]

definition kernel_putintx :: "u32 \<Rightarrow> u32 \<Rightarrow> u32 \<Rightarrow> screen \<Rightarrow> screen option" where
  "kernel_putintx x fc bg s = (if x = 0 then kernel_putchar 48 fc bg s else kernel_puts (rev (hex_digits x)) fc bg s)"

section \<open>Formats\<close>

text \<open>An argument that is missing, or a number where a string has to be, is \<open>None\<close>.\<close>

datatype arg = Arg_int u32 | Arg_str "u8 list"

fun vprintf_loop :: "u8 list \<Rightarrow> arg list \<Rightarrow> int \<Rightarrow> screen \<Rightarrow> (int \<times> screen) option" where
  "vprintf_loop [] ap cnt s = Some (cnt, s)"
| "vprintf_loop (c # fmt) ap cnt s =
     (if c \<noteq> 0x25 then do { s \<leftarrow> kernel_putchar (scast c) 0xfff 0 s; vprintf_loop fmt ap cnt s }
      else case fmt of
        [] \<Rightarrow> Some (-1, s)
      | f # fmt \<Rightarrow>
          if f = 0x63 then (case ap of
            Arg_int v # ap \<Rightarrow> do { s \<leftarrow> kernel_putchar (scast (ucast v :: u8)) 0xfff 0 s; vprintf_loop fmt ap (cnt + 1) s }
          | _ \<Rightarrow> None)
          else if f = 0x64 then (case ap of
            Arg_int v # ap \<Rightarrow> do { s \<leftarrow> kernel_putint v 0xfff 0 s; vprintf_loop fmt ap (cnt + 1) s }
          | _ \<Rightarrow> None)
          else if f = 0x78 then (case ap of
            Arg_int v # ap \<Rightarrow> do { s \<leftarrow> kernel_putintx v 0xfff 0 s; vprintf_loop fmt ap (cnt + 1) s }
          | _ \<Rightarrow> None)
          else if f = 0x73 then (case ap of
            Arg_str t # ap \<Rightarrow> do { s \<leftarrow> kernel_puts t 0xfff 0 s; vprintf_loop fmt ap (cnt + 1) s }
          | _ \<Rightarrow> None)
          else Some (-1, s))"

definition kernel_vprintf :: "u8 list \<Rightarrow> arg list \<Rightarrow> screen \<Rightarrow> (int \<times> screen) option" where
  "kernel_vprintf fmt ap s = vprintf_loop fmt ap 0 s"

definition kernel_printf :: "u8 list \<Rightarrow> arg list \<Rightarrow> screen \<Rightarrow> (int \<times> screen) option" where
  "kernel_printf fmt ap s = do {
     let old_ie = scr_ie s;
     (cnt, s) \<leftarrow> kernel_vprintf fmt ap (s\<lparr>scr_ie := False\<rparr>);
     Some (cnt, if old_ie then s\<lparr>scr_ie := True\<rparr> else s)
   }"

end
