(* ===== verification/ScreenProps.thy ===== *)
theory ScreenProps
  imports Screen
begin

text \<open>The cursor stays on the screen and printing touches no other memory; scrolling moves the rows up; numbers are printed in decimal.\<close>

section \<open>Scrolling\<close>

lemma low_byte: "(ucast (w AND 0xFF) :: u8) = ucast (w :: u32)"
  by (auto simp: and_0xFF bit_eq_iff bit_simps)

lemma words_of_bytes_eq:
  assumes "\<And>k. k < 4 \<Longrightarrow> m (4 * i + k) = bytes_of_words v (4 * j + k)"
  shows "words_of_bytes m i = v j"
proof -
  have d: "(4 * j + k) div 4 = j \<and> (4 * j + k) mod 4 = k" if "k < 4" for k using that by simp
  have "m (4 * i + k) = ucast (drop_bit (8 * k) (v j) AND 0xFF)" if "k < 4" for k
    using assms [OF that] d [OF that] by (simp add: bytes_of_words_def low_byte)
  from this [of 0] this [of 1] this [of 2] this [of 3]
  have "get_u32 (4 * i) m = get_u32 (4 * i) (set_u32 (4 * i) (v j) m)" by (simp add: get_u32_def set_u32_def)
  then show ?thesis by (simp add: words_of_bytes_def set_u32_get_u32)
qed

definition on_screen :: "screen \<Rightarrow> bool" where
  "on_screen s \<longleftrightarrow> 0 \<le> cursor_row s \<and> cursor_row s \<le> 28 \<and> 0 \<le> cursor_col s \<and> cursor_col s \<le> 80"

text \<open>Nothing behind row 28 has changed, and the interrupts are as they were.\<close>

definition prints :: "screen \<Rightarrow> screen \<Rightarrow> bool" where
  "prints s t \<longleftrightarrow> on_screen t \<and> scr_ie t = scr_ie s \<and> cursor_freq t = cursor_freq s \<and> (\<forall>i. 29 * 128 \<le> i \<longrightarrow> vram t i = vram s i)"

lemma prints_trans: "prints s t \<Longrightarrow> prints t u \<Longrightarrow> prints s u"
  by (simp add: prints_def)

lemma scroll_cells:
  "words_of_bytes (kernel_memcpy 0 512 14336 (bytes_of_words v)) i = (if i < 28 * 128 then v (i + 128) else v i)"
proof (cases "i < 28 * 128")
  case True
  have "kernel_memcpy 0 512 14336 (bytes_of_words v) (4 * i + k) = bytes_of_words v (4 * (i + 128) + k)" if "k < 4" for k
    using kernel_memcpy_copies [of 0 512 14336 "4 * i + k" "bytes_of_words v"] True that by (simp add: add_ac)
  then show ?thesis using True by (simp add: words_of_bytes_eq)
next
  case False
  then show ?thesis by (simp add: words_of_bytes_eq kernel_memcpy_outside)
qed

lemma kernel_scroll_screen_ok:
  "kernel_scroll_screen s = Some (s\<lparr>vram := \<lambda>i. if i < 28 * 128 then vram s (i + 128) else if i < 29 * 128 then blank_cell else vram s i\<rparr>)"
proof -
  have "kernel_memset_word 3584 blank_cell 128 (words_of_bytes (kernel_memcpy 0 512 14336 (bytes_of_words (vram s))))
      = (\<lambda>i. if i < 28 * 128 then vram s (i + 128) else if i < 29 * 128 then blank_cell else vram s i)"
    by (simp add: scroll_cells kernel_memset_word_eq fun_eq_iff)
  then show ?thesis by (cases s) (simp add: kernel_scroll_screen_def fill_cells_def VGA_CHAR_ROW_def VGA_CHAR_MAX_COL_def Let_def)
qed

section \<open>Characters\<close>

lemma kernel_set_cursor_simps [simp]: "vram (kernel_set_cursor s) = vram s" "cursor_row (kernel_set_cursor s) = cursor_row s"
    "cursor_col (kernel_set_cursor s) = cursor_col s" "scr_ie (kernel_set_cursor s) = scr_ie s" "cursor_freq (kernel_set_cursor s) = cursor_freq s"
  by (simp_all add: kernel_set_cursor_def)

definition row_base :: "screen \<Rightarrow> nat" where "row_base s = nat (cursor_row s) * 128"

text \<open>A line feed blanks the rest of the row and goes to the next one, or scrolls.\<close>

lemma new_line_ok:
  assumes "on_screen s"
  shows "\<exists>t. new_line s = Some t \<and> prints s t \<and> cursor_col t = 0 \<and> cursor_row t = min 28 (cursor_row s + 1)
    \<and> (\<forall>i < 28 * 128. vram t i = (let v = (\<lambda>i. if row_base s + nat (cursor_col s) \<le> i \<and> i < row_base s + 80 then blank_cell else vram s i)
         in if cursor_row s = 28 then v (i + 128) else v i))"
proof -
  have o: "0 \<le> cursor_row s" "cursor_row s \<le> 28" "0 \<le> cursor_col s" "cursor_col s \<le> 80" using assms by (simp_all add: on_screen_def)
  have n: "nat (cursor_row s * 128 + cursor_col s) = row_base s + nat (cursor_col s)" "row_base s \<le> 28 * 128"
      "row_base s + nat (cursor_col s) + nat (80 - cursor_col s) = row_base s + 80"
    using o by (simp_all add: row_base_def nat_add_distrib nat_mult_distrib)
  let ?v = "\<lambda>i. if row_base s + nat (cursor_col s) \<le> i \<and> i < row_base s + 80 then blank_cell else vram s i"
  have f: "fill_cells (cursor_row s * 128 + cursor_col s) (80 - cursor_col s) s = Some (s\<lparr>vram := ?v\<rparr>)"
    using o by (simp add: fill_cells_def n kernel_memset_word_eq fun_eq_iff)
  show ?thesis
  proof (cases "cursor_row s = 28")
    case True
    then show ?thesis using f n(2) by (simp add: new_line_def VGA_CHAR_MAX_COL_def VGA_CHAR_COL_def VGA_CHAR_ROW_def kernel_scroll_screen_ok prints_def on_screen_def Let_def)
  next
    case False
    then show ?thesis using f n(2) o by (simp add: new_line_def VGA_CHAR_MAX_COL_def VGA_CHAR_COL_def VGA_CHAR_ROW_def prints_def on_screen_def Let_def)
  qed
qed

lemma cell_at_eq: "0 \<le> row \<Longrightarrow> row < 32 \<Longrightarrow> 0 \<le> col \<Longrightarrow> col < 128 \<Longrightarrow> cell_at row col = nat row * 128 + nat col"
proof -
  assume a: "0 \<le> row" "row < 32" "0 \<le> col" "col < 128"
  have "row AND 31 = row" "col AND 127 = col"
    using a take_bit_int_eq_self [of row 5] take_bit_int_eq_self [of col 7] by (simp_all add: take_bit_eq_mask mask_eq_exp_minus_1)
  then show ?thesis using a by (simp add: cell_at_def VGA_CHAR_MAX_COL_def nat_add_distrib nat_mult_distrib)
qed

lemma tab_stop: "0 \<le> c \<Longrightarrow> c < 76 \<Longrightarrow> 0 \<le> ((4 - c) AND 3) \<and> c < ((c + 4) AND (- 4)) \<and> ((c + 4) AND (- 4)) \<le> (76 :: int)"
proof -
  assume c: "0 \<le> c" "c < 76"
  have "x AND NOT (mask k) = push_bit k (drop_bit k x)" for x :: int and k by (rule bit_eqI) (auto simp: bit_simps)
  from this [of "c + 4" 2] have "(c + 4) AND (- 4) = (c + 4) div 4 * 4"
    by (simp add: mask_eq_exp_minus_1 push_bit_eq_mult drop_bit_eq_div not_int_def)
  moreover have "(4 - c) AND 3 = (4 - c) mod 4" using take_bit_eq_mask [of 2 "4 - c"] by (simp add: take_bit_eq_mod mask_eq_exp_minus_1)
  ultimately show ?thesis using c by presburger
qed

lemma kernel_putchar_ok:
  assumes "on_screen s"
  shows "\<exists>t. kernel_putchar ch fc bg s = Some t \<and> prints s t"
proof -
  have o: "0 \<le> cursor_row s" "cursor_row s \<le> 28" "0 \<le> cursor_col s" "cursor_col s \<le> 80" using assms by (simp_all add: on_screen_def)
  obtain u where u: "new_line s = Some u" "prints s u" "cursor_col u = 0" "cursor_row u = min 28 (cursor_row s + 1)" using new_line_ok [OF assms] by blast
  have put: "prints v (kernel_set_cursor ((kernel_putchar_at ch fc bg (cursor_row v) (cursor_col v) v)\<lparr>cursor_col := cursor_col v + 1\<rparr>))"
    if "on_screen v" "cursor_col v < 80" for v
  proof -
    have "nat (cursor_row v) \<le> 28" "nat (cursor_col v) < 80" using that by (auto simp: on_screen_def)
    then have "cell_at (cursor_row v) (cursor_col v) < 29 * 128" using that by (simp add: on_screen_def cell_at_eq)
    then show ?thesis using that by (simp add: prints_def on_screen_def kernel_putchar_at_def)
  qed
  consider "ch = 13" | "ch = 10" | "ch = 9" "76 \<le> cursor_col s" | "ch = 9" "cursor_col s < 76" | "ch \<noteq> 13" "ch \<noteq> 10" "ch \<noteq> 9" by force
  then show ?thesis
  proof cases
    case 1
    then show ?thesis using assms by (simp add: kernel_putchar_def prints_def)
  next
    case 2
    then show ?thesis using u by (simp add: kernel_putchar_def)
  next
    case 3
    then have "kernel_putchar ch fc bg s = Some (kernel_set_cursor u)" using u(1) by (simp add: kernel_putchar_def VGA_CHAR_COL_def)
    then show ?thesis using u(2) by (auto simp: prints_def on_screen_def)
  next
    case 4
    note t = tab_stop [OF o(3) 4(2)]
    have d: "(4 - cursor_col s) AND 3 = (4 - cursor_col s) mod 4" using take_bit_eq_mask [of 2 "4 - cursor_col s"] by (simp add: take_bit_eq_mod mask_eq_exp_minus_1)
    let ?v = "kernel_memset_word (nat (cursor_row s * 128 + cursor_col s)) blank_cell (nat ((4 - cursor_col s) AND 3)) (vram s)"
    have r: "kernel_putchar ch fc bg s = Some (kernel_set_cursor (s\<lparr>vram := ?v, cursor_col := (cursor_col s + 4) AND (- 4)\<rparr>))"
      using 4 t o by (simp add: kernel_putchar_def VGA_CHAR_COL_def VGA_CHAR_MAX_COL_def fill_cells_def)
    have "cursor_row s * 128 + cursor_col s \<le> 28 * 128 + 75" using o 4(2) by linarith
    moreover have "(4 - cursor_col s) AND 3 \<le> 3" using pos_mod_bound [of 4 "4 - cursor_col s"] unfolding d by linarith
    ultimately have "nat (cursor_row s * 128 + cursor_col s) + nat ((4 - cursor_col s) AND 3) \<le> 29 * 128" by linarith
    then have "\<forall>i. 29 * 128 \<le> i \<longrightarrow> ?v i = vram s i" by (auto simp: kernel_memset_word_eq)
    then show ?thesis using r t o by (simp add: prints_def on_screen_def)
  next
    case 5
    show ?thesis
    proof (cases "cursor_col s = 80")
      case True
      have "kernel_putchar ch fc bg s = Some (kernel_set_cursor ((kernel_putchar_at ch fc bg (cursor_row u) (cursor_col u) u)\<lparr>cursor_col := cursor_col u + 1\<rparr>))"
        using 5 True u(1) by (simp add: kernel_putchar_def VGA_CHAR_COL_def kernel_putchar_at_def Let_def)
      then show ?thesis using prints_trans [OF u(2) put [of u]] u(2,3) by (simp add: prints_def)
    next
      case False
      then have "kernel_putchar ch fc bg s = Some (kernel_set_cursor ((kernel_putchar_at ch fc bg (cursor_row s) (cursor_col s) s)\<lparr>cursor_col := cursor_col s + 1\<rparr>))"
        using 5 by (simp add: kernel_putchar_def VGA_CHAR_COL_def kernel_putchar_at_def Let_def)
      then show ?thesis using put [OF assms] False o by simp
    qed
  qed
qed

lemma kernel_puts_ok: "on_screen s \<Longrightarrow> \<exists>t. kernel_puts cs fc bg s = Some t \<and> prints s t"
proof (induction cs arbitrary: s)
  case Nil
  then show ?case by (simp add: prints_def)
next
  case (Cons c cs)
  obtain t where t: "kernel_putchar (scast c) fc bg s = Some t" "prints s t" using kernel_putchar_ok [OF Cons.prems] by blast
  then obtain u where "kernel_puts cs fc bg t = Some u" "prints t u" using Cons.IH [of t] by (auto simp: prints_def)
  then show ?case using t prints_trans by auto
qed

text \<open>Text without control characters that fits into the rest of the row appears in its cells.\<close>

definition plain :: "u8 \<Rightarrow> bool" where "plain c \<longleftrightarrow> c \<noteq> 9 \<and> c \<noteq> 10 \<and> c \<noteq> 13"

lemma plain_scast: "plain c \<Longrightarrow> scast c \<noteq> (9 :: u32) \<and> scast c \<noteq> (10 :: u32) \<and> scast c \<noteq> (13 :: u32)"
proof -
  have i: "c = d" if "scast c = (scast d :: u32)" for d :: u8
  proof (rule bit_word_eqI)
    fix n assume "n < LENGTH(8)"
    then show "bit c n = bit d n" using arg_cong [OF that, of "\<lambda>w. bit w n"] by (cases "n = 7") (auto simp: bit_simps min_def split: if_splits)
  qed
  show "plain c \<Longrightarrow> ?thesis" using i [of 9] i [of 10] i [of 13] by (auto simp: plain_def)
qed

lemma putchar_plain:
  assumes "on_screen s" "plain c" "cursor_col s < 80"
  shows "\<exists>t. kernel_putchar (scast c) fc bg s = Some t \<and> prints s t \<and> cursor_row t = cursor_row s \<and> cursor_col t = cursor_col s + 1
    \<and> vram t = (vram s)(row_base s + nat (cursor_col s) := cell_of (scast c) fc bg)"
proof -
  have o: "0 \<le> cursor_row s" "cursor_row s \<le> 28" "0 \<le> cursor_col s" using assms(1) by (simp_all add: on_screen_def)
  obtain t where t: "kernel_putchar (scast c) fc bg s = Some t" "prints s t" using kernel_putchar_ok [OF assms(1)] by blast
  have "kernel_putchar (scast c) fc bg s = Some (kernel_set_cursor ((kernel_putchar_at (scast c) fc bg (cursor_row s) (cursor_col s) s)\<lparr>cursor_col := cursor_col s + 1\<rparr>))"
    using plain_scast [OF assms(2)] assms(3) by (simp add: kernel_putchar_def VGA_CHAR_COL_def kernel_putchar_at_def Let_def)
  then have "t = kernel_set_cursor ((kernel_putchar_at (scast c) fc bg (cursor_row s) (cursor_col s) s)\<lparr>cursor_col := cursor_col s + 1\<rparr>)" using t(1) by simp
  then have "cursor_row t = cursor_row s" "cursor_col t = cursor_col s + 1" "vram t = (vram s)(row_base s + nat (cursor_col s) := cell_of (scast c) fc bg)"
    using o assms(3) by (simp_all add: kernel_putchar_at_def cell_at_eq row_base_def)
  then show ?thesis using t by blast
qed

definition row_shows :: "screen \<Rightarrow> screen \<Rightarrow> u8 list \<Rightarrow> u32 \<Rightarrow> u32 \<Rightarrow> bool" where
  "row_shows s t cs fc bg \<longleftrightarrow> cursor_row t = cursor_row s \<and> cursor_col t = cursor_col s + int (List.length cs)
     \<and> (\<forall>i. vram t i = (if row_base s + nat (cursor_col s) \<le> i \<and> i < row_base s + nat (cursor_col s) + List.length cs
          then cell_of (scast (cs ! (i - (row_base s + nat (cursor_col s))))) fc bg else vram s i))"

lemma kernel_puts_plain:
  assumes "on_screen s" "list_all plain cs" "cursor_col s + int (List.length cs) \<le> 80"
  shows "\<exists>t. kernel_puts cs fc bg s = Some t \<and> prints s t \<and> row_shows s t cs fc bg"
  using assms
proof (induction cs arbitrary: s)
  case Nil
  then show ?case by (auto simp: prints_def row_shows_def)
next
  case (Cons c cs)
  have c: "plain c" "cursor_col s < 80" "0 \<le> cursor_col s" using Cons.prems by (simp_all add: on_screen_def)
  obtain t where t: "kernel_putchar (scast c) fc bg s = Some t" "prints s t" "cursor_row t = cursor_row s" "cursor_col t = cursor_col s + 1"
      "vram t = (vram s)(row_base s + nat (cursor_col s) := cell_of (scast c) fc bg)"
    using putchar_plain [OF Cons.prems(1) c(1,2)] by blast
  obtain u where u: "kernel_puts cs fc bg t = Some u" "prints t u" "row_shows t u cs fc bg"
    using Cons.IH [of t] Cons.prems t by (auto simp: prints_def)
  have b: "row_base t + nat (cursor_col t) = Suc (row_base s + nat (cursor_col s))" using t(3,4) c(3) by (simp add: row_base_def nat_add_distrib)
  have "row_shows s u (c # cs) fc bg"
    unfolding row_shows_def
  proof (intro conjI allI)
    fix i
    show "vram u i = (if row_base s + nat (cursor_col s) \<le> i \<and> i < row_base s + nat (cursor_col s) + List.length (c # cs)
        then cell_of (scast ((c # cs) ! (i - (row_base s + nat (cursor_col s))))) fc bg else vram s i)"
      using u(3) t(5) unfolding row_shows_def b by (cases "i = row_base s + nat (cursor_col s)") (auto simp: nth_Cons')
  qed (use u(3) t(3,4) in \<open>simp_all add: row_shows_def\<close>)
  then show ?case using t(1,2) u(1,2) prints_trans by auto
qed

section \<open>Numbers\<close>

definition dec_digit :: "u8 \<Rightarrow> bool" where "dec_digit c \<longleftrightarrow> 48 \<le> c \<and> c \<le> 57"

definition dec_value :: "u8 list \<Rightarrow> nat" where "dec_value = foldl (\<lambda>v c. 10 * v + (unat c - 48)) 0"

lemma digit_char: "0 \<le> k \<Longrightarrow> k < 10 \<Longrightarrow> dec_digit (word_of_int (k + 48)) \<and> unat (word_of_int (k + 48) :: u8) = nat k + 48"
proof -
  assume k: "0 \<le> k" "k < 10"
  then have "take_bit 8 (k + 48) = k + 48" by (intro take_bit_int_eq_self) simp_all
  then have u: "unat (word_of_int (k + 48) :: u8) = nat k + 48" using k by (simp add: unsigned_of_int nat_add_distrib del: of_int_add)
  then show ?thesis using k by (simp add: dec_digit_def word_le_nat_alt)
qed

lemma int_digits_ok:
  "0 \<le> x \<Longrightarrow> list_all dec_digit (int_digits x) \<and> dec_value (rev (int_digits x)) = nat x \<and> (x \<noteq> 0 \<longrightarrow> int_digits x \<noteq> [] \<and> List.last (int_digits x) \<noteq> 48)
    \<and> (\<forall>n. x < 10 ^ n \<longrightarrow> List.length (int_digits x) \<le> n)"
proof (induction x rule: int_digits.induct)
  case (1 x)
  show ?case
  proof (cases "x = 0")
    case True
    then show ?thesis by (simp add: int_digits.simps [of 0] dec_value_def)
  next
    case False
    have q: "x sdiv 10 = x div 10" "x smod 10 = x mod 10" using 1(2) False by (simp_all add: signed_divide_int_def signed_modulo_int_def)
    have x: "int_digits x = word_of_int (x mod 10 + 48) # int_digits (x div 10)" using False by (simp add: int_digits.simps [of x] q)
    have ih: "list_all dec_digit (int_digits (x div 10))" "dec_value (rev (int_digits (x div 10))) = nat (x div 10)"
        "x div 10 \<noteq> 0 \<Longrightarrow> int_digits (x div 10) \<noteq> [] \<and> List.last (int_digits (x div 10)) \<noteq> 48" "\<And>n. x div 10 < 10 ^ n \<Longrightarrow> List.length (int_digits (x div 10)) \<le> n"
      using 1(1) [OF False] 1(2) by (simp_all add: q)
    have d: "dec_digit (word_of_int (x mod 10 + 48))" "unat (word_of_int (x mod 10 + 48) :: u8) = nat (x mod 10) + 48" using digit_char [of "x mod 10"] by simp_all
    have v: "dec_value (rev (int_digits x)) = nat x"
    proof -
      have "10 * nat (x div 10) + nat (x mod 10) = nat x" using 1(2) by (simp add: nat_div_distrib nat_mod_distrib)
      then show ?thesis using ih(2) d(2) by (simp add: x dec_value_def)
    qed
    have l: "List.last (int_digits x) \<noteq> 48"
    proof (cases "x div 10 = 0")
      case True
      then have "x mod 10 = x" "0 < x" using False 1(2) by presburger+
      then have "unat (word_of_int (x mod 10 + 48) :: u8) \<noteq> 48" using d(2) by simp
      then show ?thesis using True by (auto simp: x int_digits.simps [of 0])
    next
      case False
      then show ?thesis using ih(3) by (simp add: x)
    qed
    have n: "List.length (int_digits x) \<le> n" if "x < 10 ^ n" for n
    proof (cases n)
      case 0
      then show ?thesis using that 1(2) False by simp
    next
      case (Suc k)
      then have "x < 10 * 10 ^ k" using that by simp
      then have "x div 10 < 10 ^ k" by linarith
      then show ?thesis using ih(4) Suc by (simp add: x)
    qed
    show ?thesis using ih(1) d(1) v l n x by simp
  qed
qed

lemma dec_digit_plain: "dec_digit c \<Longrightarrow> plain c"
  by (auto simp: dec_digit_def plain_def)

text \<open>The text of a number is its sign and the digits of its value without a 0 in front.\<close>

definition number_text :: "int \<Rightarrow> u8 list \<Rightarrow> bool" where
  "number_text x cs \<longleftrightarrow> (\<exists>ds. cs = (if x < 0 then 45 # ds else ds) \<and> list_all dec_digit ds \<and> dec_value ds = nat \<bar>x\<bar> \<and> (x = 0 \<and> ds = [48] \<or> ds \<noteq> [] \<and> ds ! 0 \<noteq> 48)
     \<and> List.length ds \<le> 10)"

lemma int_text_ok:
  assumes "x \<noteq> 0x80000000"
  shows "number_text (sint x) (int_text x)"
proof -
  have b: "- (2 ^ 31) \<le> sint x" "sint x < 2 ^ 31" using sint_range_size [of x] by (simp_all add: word_size)
  have neg: "sint (- x) = - sint x" if "sint x < 0"
  proof -
    have "sint x \<noteq> - (2 ^ 31)"
    proof
      assume "sint x = - (2 ^ 31)"
      then have "(word_of_int (sint x) :: u32) = word_of_int (- (2 ^ 31))" by (rule arg_cong)
      then show False using assms by simp
    qed
    then have "signed_take_bit 31 (- sint x) = - sint x" using b that by (intro signed_take_bit_int_eq_self) simp_all
    then show ?thesis by (simp add: sint_word_ariths)
  qed
  have ds: "list_all dec_digit (rev (int_digits y))" "dec_value (rev (int_digits y)) = nat y" "List.length (rev (int_digits y)) \<le> 10"
      "y \<noteq> 0 \<Longrightarrow> rev (int_digits y) \<noteq> [] \<and> rev (int_digits y) ! 0 \<noteq> 48" if "0 \<le> y" "y \<le> 2 ^ 31" for y
    using int_digits_ok [OF that(1)] that(2) by (auto simp: rev_nth last_conv_nth)
  have z: "x = 0 \<longleftrightarrow> sint x = 0" by (metis signed_0 signed_word_eqI)
  show ?thesis
  proof (cases "sint x < 0")
    case True
    have "int_text x = 45 # rev (int_digits (- sint x))" using True z neg by (simp add: int_text_def)
    then show ?thesis using True ds [of "- sint x"] b by (auto simp: number_text_def)
  next
    case False
    then show ?thesis using ds [of "sint x"] b z by (cases "x = 0") (auto simp: int_text_def number_text_def dec_digit_def dec_value_def)
  qed
qed

section \<open>The property\<close>

definition sample_screen :: screen where
  "sample_screen = \<lparr>vram = (\<lambda>_. blank_cell), cursor_row = 28, cursor_col = 2, cursor_freq = 31, gpio_cursor = 0, scr_ie = True\<rparr>"



text \<open>The least integer is printed with characters in front of the digits.\<close>

lemma int_text_least: "int_text 0x80000000 = [45, 46, 47, 44, 41, 44, 40, 45, 42, 44, 40]"
proof -
  have "sint (0x80000000 :: u32) = - 2147483648" "sint (- 0x80000000 :: u32) = - 2147483648" by simp_all
  then have "int_text 0x80000000 = 45 # rev (int_digits (- 2147483648))" by (simp add: int_text_def)
  moreover have "int_digits (- 2147483648) = [40, 44, 42, 45, 40, 44, 41, 44, 47, 46]"
    by (simp add: int_digits.simps signed_divide_int_def signed_modulo_int_def)
  ultimately show ?thesis by simp
qed

end
