(* ===== verification/Spec2Isabelle.thy ===== *)
theory Spec2Isabelle
  imports Prelude ListHead HListHead Utils VfsUtils Bootmm Lock Buddy Slab Pid RBTree RBInsert RBErase CFS VM Machine PC PCInv Semaphore Traps Clock Disk VfsCache PageCache PageInv
    Ext2 Ext2Inv Ext2Props FileIO FileProps Dcache DcacheInv Namei NameiInv NameiProps Ext2Dir Ext2DirInv Ext2DirProps
    Mounts VfsCalls VfsProps VfsInit PageOps Fat32 Fat32Inv Fat32Props VfsBoot
    FsCache FsCacheInv FatTable FatFile FatUser FatInv FatData FatProps FatNames Screen ScreenProps
begin

text \<open>
  A verification library for 101NIX, a teaching kernel for a MIPS32 board (C sources under \<open>src/\<close>).

  The program. The kernel boots through \<open>init_kernel\<close> (\<open>kernel/init.c\<close>): the boot allocator (\<open>mm/bootmm.c\<close>)
  counts the pages the kernel image takes, the buddy allocator (\<open>mm/buddy.c\<close>) owns all pages and the slab
  allocator (\<open>mm/slab.c\<close>, \<open>kmalloc\<close>, \<open>kfree\<close>) stands on it. Page directories, page tables and the blocks of a
  process's memory pool come from \<open>kmalloc\<close> (\<open>vm/vm.c\<close>). Processes (\<open>pc/pc.c\<close>) get ids from namespaces with
  bit maps and a hash table (\<open>pc/pid.c\<close>) and run under a completely fair scheduler (\<open>pc/cfs.c\<close>) whose run
  queue is a red-black tree (\<open>pc/rbtree.c\<close>); semaphores (\<open>semaphore/semaphore.c\<close>) block and wake them. Traps go through three handler tables (\<open>arch/mips32\<close>,
  \<open>syscall/syscall.c\<close>). Files lie on an EXT2 partition of
  the SD card and are read and written through a page cache (\<open>vfs/\<close>). Lists and hash chains are the intrusive ones of \<open>include/zjunix/list.h\<close>.

  How the code is modelled. A C function is a HOL function from its arguments and the state it reads to
  its result and the state it leaves. \<open>None\<close> is a call that gives no result: it dereferences NULL, leaves
  an array, or never ends; a loop that may not end is a \<open>partial_function (option)\<close>, so that ending is
  always proved and never assumed. C integers are words of their width. A structure is a record, an
  intrusive list whose links matter is a pointer heap (\<open>ListHead\<close>, \<open>HListHead\<close>, \<open>RBTree\<close>), a list of which only
  the order matters to its clients is a HOL list, and memory that the code reads at computed addresses
  (page tables, free lists of slabs and pools) is a map from addresses to words.

  The theories and the code.
    \<^item> \<open>Prelude\<close>: integer types, \<open>c_guard\<close>, the theorem collections and the facts on words that are shared.
    \<^item> \<open>ListHead\<close>, \<open>HListHead\<close>: every inline function of \<open>list.h\<close> on pointer heaps; rings and chains as lists.
    \<^item> \<open>Utils\<close>, \<open>VfsUtils\<close>: \<open>utils/utils.c\<close> and \<open>kernel/vfs/utils.c\<close> (memory and string routines, little-endian
      accessors, bit maps, name comparison, hashes); the locale \<open>bitset\<close>.
    \<^item> \<open>Bootmm\<close>, \<open>Buddy\<close>, \<open>Slab\<close>: the three allocators; the locale \<open>block_alloc\<close> is what an allocator of page
      blocks promises, with blocks in use as a set.
    \<^item> \<open>Lock\<close>, \<open>Pid\<close>: \<open>lock/lock.c\<close>, \<open>pc/pid.c\<close>.
    \<^item> \<open>RBTree\<close> (the model), \<open>RBInsert\<close>, \<open>RBErase\<close> (the proofs): the tree as it lies in memory with parent pointers;
      the locale \<open>ordered_seq\<close> is its contract: an ordered sequence with insertion at a place and removal.
    \<^item> \<open>CFS\<close>: the scheduler on that tree; \<open>rq_inv\<close> ties the tree, the cached leftmost entity, the counters and
      the load to the sequence of tasks in the order of their virtual times.
    \<^item> \<open>VM\<close>: page tables, TLB refill, shared pages and the memory pool, with the coprocessor's registers as state.
    \<^item> \<open>Machine\<close>, \<open>PC\<close>: saved registers, handler tables, interrupt enable; all of \<open>pc.c\<close> on top of the scheduler,
      the address spaces and the ids. \<open>PCInv\<close>: the invariant of the process tables under the operations.
    \<^item> \<open>Semaphore\<close>, \<open>Traps\<close>, \<open>Clock\<close>: semaphores on \<open>PC\<close>; exceptions, interrupts and system calls dispatched through the
      tables of \<open>Machine\<close>; the time of day.
    \<^item> \<open>Disk\<close>, \<open>VfsCache\<close>, \<open>PageCache\<close>, \<open>PageInv\<close>: the SD card and its block functions; what the caches share; the page
      cache with the page operations of EXT2; the invariant that ties cached pages to the card.
    \<^item> \<open>Ext2\<close>, \<open>Ext2Inv\<close>, \<open>Ext2Props\<close>: group descriptors, bit maps, the inode table, the counts of the super block and the allocation
      of inodes and blocks (\<open>ext2/block.c\<close>, \<open>inode.c\<close>, \<open>data_block.c\<close>, \<open>super.c\<close>).
    \<^item> \<open>FileIO\<close>, \<open>FileProps\<close>: \<open>read_write.c\<close>; the locale \<open>page_source\<close> is what a reader or writer of a file needs of its pages, a file
      is its bytes.
    \<^item> \<open>Dcache\<close>, \<open>DcacheInv\<close>: the directory entry cache (\<open>vfscache/dcache.c\<close>, \<open>d_alloc\<close>) with reference counts and replacement.
    \<^item> \<open>Namei\<close>, \<open>NameiInv\<close>, \<open>NameiProps\<close>: the path walk and opening (\<open>open.c\<close>, \<open>vfsmount.c\<close>, \<open>mount.c\<close>); the relation \<open>resolves\<close> is
      the tree of names that the walk follows. A lookup of a file system is an argument of type \<open>lookup_fun\<close>.
    \<^item> \<open>Ext2Dir\<close>, \<open>Ext2DirInv\<close>, \<open>Ext2DirProps\<close>: the directories of EXT2 in the bytes of their pages: lookup, listing, adding, deleting,
      \<open>ext2_create\<close> and \<open>ext2_mkdir\<close> (\<open>ext2.c\<close>, \<open>dir.c\<close>); \<open>page_entries\<close> parses a page into the list of its entries.
    \<^item> \<open>Mounts\<close>, \<open>VfsCalls\<close>, \<open>VfsProps\<close>, \<open>VfsInit\<close>: mounting and unmounting (\<open>namespace.c\<close>, \<open>filesystems.c\<close>), the calls of \<open>usr.c\<close>, what
      \<open>vfs_cat\<close> prints, the partition table and \<open>init_ext2\<close>.
    \<^item> \<open>PageOps\<close>, \<open>Fat32\<close>, \<open>Fat32Inv\<close>, \<open>Fat32Props\<close>: the page cache with the page operations as arguments; the FAT32 driver of the VFS
      (\<open>fat32.c\<close>) with the allocation table, names and directories; a directory as the list of entries of its pages.
    \<^item> \<open>VfsBoot\<close>: \<open>init_fat32\<close>, \<open>init_vfs\<close> and \<open>mount_ext2\<close>.
    \<^item> \<open>FsCache\<close>, \<open>FatTable\<close>, \<open>FatFile\<close>, \<open>FatUser\<close>: the FAT driver of the old file interface (\<open>fs/fscache/fscache.c\<close>, \<open>fs/fat\<close>): its
      buffers with a clock, the allocation table, files, directories and names. Its \<open>init_fs\<close> has no caller in the kernel.
    \<^item> \<open>FsCacheInv\<close>, \<open>FatInv\<close>, \<open>FatData\<close>, \<open>FatProps\<close>, \<open>FatNames\<close>: what the buffers show of the card; the locale \<open>buffer_writer\<close> is what
      replacing and flushing need of the function that writes a buffer back, interpreted for the table with its two copies, for directory
      sectors and for clusters; a file is its chain of clusters and its bytes.
    \<^item> \<open>Screen\<close>, \<open>ScreenProps\<close>: the text screen (\<open>driver/vga.c\<close>) with the video memory as an array of words: characters, scrolling,
      numbers and formats; the cursor stays on the screen.

  What the lemmas show. The lists are rings under every operation; the allocators return memory that
  overlaps no block in use and take back exactly what they gave; the tree operations end, keep the
  colours, the black height and the links, and do to the sequence what they should; an id is free
  exactly when its bit is clear; the scheduler charges, sorts and picks as fair scheduling asks and its
  slices fit the period; a mapping changes one page; a TLB entry agrees with the page tables; a tick, a
  wait, a kill and a creation keep the process tables consistent; a semaphore wakes its waiters in their
  order; the pages in the cache are the blocks of the card. A read returns and a write replaces exactly the bytes of the
  file, and what was written is read back, through the card; an inode goes to its table and back; a directory page is a list of
  entries that a new one joins, and a name that was added is found; a FAT32 directory is searched, listed and deleted from as the
  list of its entries; the old FAT driver reads and writes the bytes of the chain of a file, a flush leaves on the card what was seen through
  the buffers, and a name is printed and parsed back; a number is printed in decimal; a path leads where the tree of names leads and costs one
  reference; printing a file prints its bytes. Where the code does not do what it
  means to, the theorem states what it does.

  Bounds. No fuel is used. Theorems on the scheduler assume virtual times that leave room below \<open>U32_MAX\<close>
  for one more tick; the reset of all virtual times that happens otherwise is a case of
  \<open>CFS.update_curr_correct\<close>. The run queue has at most 512 tasks where its load is summed in 32 bits.

  Not modelled: the messages that the other components print, which change nothing else, the keyboard driver, the shell and its programs,
  which only print and read keys, and the assembly of the start-up.
\<close>

end
